(* ===== verification/GoPrelude.thy ===== *)
theory GoPrelude
  imports Main "HOL-Library.Multiset" "HOL-Library.AList" "HOL-Library.Char_ord"
    "HOL-Library.List_Lexorder"
begin

text \<open>
  What every component shares: Go's \<open>error\<close> values and the early return on them, loops
  that stop at the first error, maps as association lists, 64-bit arithmetic, and the
  generic list lemmas of the development.

  A Go function that returns \<open>(T, error)\<close> is a function into \<open>'a result\<close>: \<open>Inl\<close> is the
  non-nil error, \<open>Inr\<close> the value. An error keeps the format string of the source and the
  string arguments it prints, so every \<open>return fmt.Errorf(...)\<close> is a distinct value.
\<close>

named_theorems res_simps \<open>unfolding of the result combinators\<close>
named_theorems res_cases \<open>inversion of successful results\<close>

section \<open>Results\<close>

datatype error = Err string "string list" | Wrap string "string list" error

type_synonym 'a result = "error + 'a"

text \<open>\<open>x, err := m; if err != nil { return err }\<close>\<close>

fun res_bind :: "'a result \<Rightarrow> ('a \<Rightarrow> 'b result) \<Rightarrow> 'b result" where
  "res_bind (Inl e) f = Inl e"
| "res_bind (Inr x) f = f x"

text \<open>\<open>if err != nil { return fmt.Errorf("...: %w", err) }\<close>\<close>

fun res_wrap :: "string \<Rightarrow> string list \<Rightarrow> 'a result \<Rightarrow> 'a result" where
  "res_wrap fmt args (Inl e) = Inl (Wrap fmt args e)"
| "res_wrap fmt args (Inr x) = Inr x"

text \<open>\<open>if cond { return err }\<close> before the rest of the body.\<close>

definition fail_if :: "bool \<Rightarrow> error \<Rightarrow> 'a result \<Rightarrow> 'a result" where
  "fail_if c e k = (if c then Inl e else k)"

lemma res_bind_Inr_iff [res_cases]:
  "res_bind m f = Inr y \<longleftrightarrow> (\<exists>x. m = Inr x \<and> f x = Inr y)"
  by (cases m) auto

lemma res_bind_Inl_iff:
  "res_bind m f = Inl e \<longleftrightarrow> m = Inl e \<or> (\<exists>x. m = Inr x \<and> f x = Inl e)"
  by (cases m) auto

lemma res_wrap_Inr_iff [res_cases, simp]: "res_wrap s as m = Inr x \<longleftrightarrow> m = Inr x"
  by (cases m) auto

lemma fail_if_Inr_iff [res_cases]: "fail_if c e k = Inr x \<longleftrightarrow> \<not> c \<and> k = Inr x"
  by (simp add: fail_if_def)

lemma fail_if_simps [simp]: "fail_if True e k = Inl e" "fail_if False e k = k"
  by (simp_all add: fail_if_def)

lemma res_bind_cong [fundef_cong]:
  "m = m' \<Longrightarrow> (\<And>x. m' = Inr x \<Longrightarrow> f x = g x) \<Longrightarrow> res_bind m f = res_bind m' g"
  by (cases m') auto

lemma fail_if_cong [fundef_cong]:
  "c = c' \<Longrightarrow> e = e' \<Longrightarrow> (\<not> c' \<Longrightarrow> k = k') \<Longrightarrow> fail_if c e k = fail_if c' e' k'"
  by (simp add: fail_if_def)

lemma res_wrap_cong [fundef_cong]:
  "s = s' \<Longrightarrow> as = as' \<Longrightarrow> m = m' \<Longrightarrow> res_wrap s as m = res_wrap s' as' m'"
  by simp

section \<open>Loops that return at the first error\<close>

text \<open>\<open>for _, x := range xs { s, err = f(x, s); if err != nil { return err } }\<close>\<close>

fun res_fold :: "('a \<Rightarrow> 's \<Rightarrow> 's result) \<Rightarrow> 'a list \<Rightarrow> 's \<Rightarrow> 's result" where
  "res_fold f [] s = Inr s"
| "res_fold f (x # xs) s = res_bind (f x s) (res_fold f xs)"

text \<open>The loop that only checks: no state is carried.\<close>

fun res_each :: "('a \<Rightarrow> unit result) \<Rightarrow> 'a list \<Rightarrow> unit result" where
  "res_each f [] = Inr ()"
| "res_each f (x # xs) = res_bind (f x) (\<lambda>_. res_each f xs)"

text \<open>The loop that appends one value per element.\<close>

fun res_map :: "('a \<Rightarrow> 'b result) \<Rightarrow> 'a list \<Rightarrow> 'b list result" where
  "res_map f [] = Inr []"
| "res_map f (x # xs) = res_bind (f x) (\<lambda>y. res_bind (res_map f xs) (\<lambda>ys. Inr (y # ys)))"

lemma res_fold_cong [fundef_cong]:
  assumes "xs = ys" "s = t" and eq: "\<And>x u. x \<in> set ys \<Longrightarrow> f x u = g x u"
  shows "res_fold f xs s = res_fold g ys t"
proof -
  have "res_fold f ys t = res_fold g ys t"
    using eq
  proof (induction ys arbitrary: t)
    case (Cons y ys)
    then show ?case by (cases "g y t") auto
  qed simp
  with assms(1,2) show ?thesis by simp
qed

lemma res_each_cong [fundef_cong]:
  "xs = ys \<Longrightarrow> (\<And>x. x \<in> set ys \<Longrightarrow> f x = g x) \<Longrightarrow> res_each f xs = res_each g ys"
  by (induction xs arbitrary: ys) (auto intro: res_bind_cong)

lemma res_map_cong [fundef_cong]:
  "xs = ys \<Longrightarrow> (\<And>x. x \<in> set ys \<Longrightarrow> f x = g x) \<Longrightarrow> res_map f xs = res_map g ys"
  by (induction xs arbitrary: ys) (auto intro: res_bind_cong)

lemma res_fold_append:
  "res_fold f (xs @ ys) s = res_bind (res_fold f xs s) (res_fold f ys)"
proof (induction xs arbitrary: s)
  case (Cons x xs)
  then show ?case by (cases "f x s") auto
qed simp

lemma res_each_Inr_iff [res_cases]:
  "res_each f xs = Inr () \<longleftrightarrow> (\<forall>x \<in> set xs. f x = Inr ())"
  by (induction xs) (auto simp: res_bind_Inr_iff)

lemma res_map_Inr_iff:
  "res_map f xs = Inr ys \<longleftrightarrow> list_all2 (\<lambda>x y. f x = Inr y) xs ys"
  by (induction xs arbitrary: ys) (auto simp: res_bind_Inr_iff list_all2_Cons1)

lemma res_map_length: "res_map f xs = Inr ys \<Longrightarrow> length ys = length xs"
  by (auto simp: res_map_Inr_iff dest: list_all2_lengthD)

lemma res_map_set:
  "res_map f xs = Inr ys \<Longrightarrow> y \<in> set ys \<Longrightarrow> \<exists>x \<in> set xs. f x = Inr y"
  by (induction xs arbitrary: ys) (auto simp: res_bind_Inr_iff)

lemma res_fold_check:
  "res_fold (\<lambda>x s. fail_if (c x) (e x) (Inr (g x s))) xs s = Inr t
    \<longleftrightarrow> (\<forall>x \<in> set xs. \<not> c x) \<and> t = fold g xs s"
  by (induction xs arbitrary: s) (auto simp: res_bind_Inr_iff fail_if_Inr_iff)

text \<open>
  The loop rule: an invariant over the elements processed so far holds of the final state
  of a loop that did not return early.
\<close>

lemma res_fold_invariant:
  assumes run: "res_fold f xs s = Inr t"
    and init: "I [] s"
    and step: "\<And>done x todo u v. xs = done @ x # todo \<Longrightarrow> I done u \<Longrightarrow> f x u = Inr v
      \<Longrightarrow> I (done @ [x]) v"
  shows "I xs t"
proof -
  have "I (done @ todo) v"
    if "xs = done @ todo" "I done u" "res_fold f todo u = Inr v" for "done" todo u v
    using that
  proof (induction todo arbitrary: "done" u)
    case Nil
    then show ?case by simp
  next
    case (Cons x todo)
    from Cons.prems(3) obtain w where w: "f x u = Inr w" "res_fold f todo w = Inr v"
      by (auto simp: res_bind_Inr_iff)
    have "I (done @ [x]) w" using step Cons.prems(1,2) w(1) by blast
    with Cons.IH [of "done @ [x]" w] Cons.prems(1) w(2) show ?case by simp
  qed
  from this [of "[]" xs s t] run init show ?thesis by simp
qed

section \<open>Maps\<close>

text \<open>
  A Go map is an association list with distinct keys. Reading and writing use the key only;
  where the code ranges over a map, the order of the list stands for the order Go happens
  to choose, so a theorem about every list is a theorem about every iteration order.
  A \<open>map[string]bool\<close> that is only ever set to \<open>true\<close> is a set.
\<close>

type_synonym ('k, 'v) gomap = "('k \<times> 'v) list"

abbreviation go_get :: "('k, 'v) gomap \<Rightarrow> 'k \<Rightarrow> 'v option" where
  "go_get m k \<equiv> map_of m k"

abbreviation go_put :: "'k \<Rightarrow> 'v \<Rightarrow> ('k, 'v) gomap \<Rightarrow> ('k, 'v) gomap" where
  "go_put k v m \<equiv> AList.update k v m"

definition go_keys :: "('k, 'v) gomap \<Rightarrow> 'k list" where
  "go_keys m = map fst m"

definition go_map :: "('k, 'v) gomap \<Rightarrow> bool" where
  "go_map m = distinct (go_keys m)"

text \<open>\<open>m[k]\<close> with the zero value of a missing key.\<close>

definition go_get0 :: "'v \<Rightarrow> ('k, 'v) gomap \<Rightarrow> 'k \<Rightarrow> 'v" where
  "go_get0 z m k = (case go_get m k of None \<Rightarrow> z | Some v \<Rightarrow> v)"

text \<open>\<open>delete(m, k)\<close>\<close>

definition go_delete :: "'k \<Rightarrow> ('k, 'v) gomap \<Rightarrow> ('k, 'v) gomap" where
  "go_delete k m = filter (\<lambda>(k', _). k' \<noteq> k) m"

lemma go_get_put: "go_get (go_put k v m) = (go_get m)(k \<mapsto> v)"
  by (rule update_conv')

lemma go_get_delete: "go_get (go_delete k m) = (go_get m)(k := None)"
  by (induction m) (auto simp: go_delete_def fun_eq_iff)

lemma go_map_put: "go_map m \<Longrightarrow> go_map (go_put k v m)"
  by (simp add: go_map_def go_keys_def distinct_update)

lemma go_map_delete: "go_map m \<Longrightarrow> go_map (go_delete k m)"
  by (auto simp: go_map_def go_keys_def go_delete_def distinct_map_filter)

lemma go_keys_dom: "set (go_keys m) = dom (go_get m)"
  by (simp add: go_keys_def dom_map_of_conv_image_fst)

lemma go_get0_put [simp]: "go_get0 z (go_put k v m) k' = (if k' = k then v else go_get0 z m k')"
  by (simp add: go_get0_def go_get_put)

text \<open>
  The interface of a map, as the components use it: reads after a write and after a
  deletion, and the keys it ranges over. Every component's map is the interpretation below.
\<close>

locale map_ops =
  fixes get :: "'m \<Rightarrow> 'k \<Rightarrow> 'v option"
    and put :: "'k \<Rightarrow> 'v \<Rightarrow> 'm \<Rightarrow> 'm"
    and del :: "'k \<Rightarrow> 'm \<Rightarrow> 'm"
    and wf :: "'m \<Rightarrow> bool"
  assumes get_put: "get (put k v m) = (get m)(k \<mapsto> v)"
    and get_del: "get (del k m) = (get m)(k := None)"
    and wf_put: "wf m \<Longrightarrow> wf (put k v m)"
    and wf_del: "wf m \<Longrightarrow> wf (del k m)"
begin

lemma put_other: "k \<noteq> k' \<Longrightarrow> get (put k v m) k' = get m k'"
  by (simp add: get_put)

lemma dom_put: "dom (get (put k v m)) = insert k (dom (get m))"
  by (simp add: get_put)

lemma dom_del: "dom (get (del k m)) = dom (get m) - {k}"
  by (simp add: get_del)

text \<open>Writing a list of keys in a loop adds exactly these keys to the domain.\<close>

lemma dom_fold_put: "dom (get (fold (\<lambda>x. put (f x) (g x)) xs m)) = dom (get m) \<union> f ` set xs"
  by (induction xs arbitrary: m) (auto simp: dom_put)

lemma wf_fold_put: "wf m \<Longrightarrow> wf (fold (\<lambda>x. put (f x) (g x)) xs m)"
  by (induction xs arbitrary: m) (auto simp: wf_put)

end

interpretation gm: map_ops go_get go_put go_delete go_map
  by unfold_locales (fact go_get_put go_get_delete | erule go_map_put go_map_delete)+

section \<open>64-bit integers\<close>

text \<open>Go's \<open>int\<close> on the platforms the tools run on: two's complement, wrapping.\<close>

definition i64 :: "int \<Rightarrow> int" where
  "i64 x = (x + 2 ^ 63) mod 2 ^ 64 - 2 ^ 63"

definition mul64 :: "int \<Rightarrow> int \<Rightarrow> int" where
  "mul64 a b = i64 (a * b)"

definition add64 :: "int \<Rightarrow> int \<Rightarrow> int" where
  "add64 a b = i64 (a + b)"

definition in_i64 :: "int \<Rightarrow> bool" where
  "in_i64 x \<longleftrightarrow> - (2 ^ 63) \<le> x \<and> x < 2 ^ 63"

lemma i64_id: "in_i64 x \<Longrightarrow> i64 x = x"
  by (simp add: i64_def in_i64_def)

lemma i64_range: "in_i64 (i64 x)"
proof -
  have "0 \<le> (x + 2 ^ 63) mod 2 ^ 64" "(x + 2 ^ 63) mod 2 ^ 64 < 2 ^ 64"
    by simp_all
  then show ?thesis unfolding i64_def in_i64_def by auto
qed

lemma mul64_id: "in_i64 (a * b) \<Longrightarrow> mul64 a b = a * b"
  by (simp add: mul64_def i64_id)

lemma add64_id: "in_i64 (a + b) \<Longrightarrow> add64 a b = a + b"
  by (simp add: add64_def i64_id)

text \<open>Wrapping once at the end is wrapping at every step.\<close>

lemma i64_eq_iff: "i64 x = i64 y \<longleftrightarrow> x mod 2 ^ 64 = y mod 2 ^ 64"
proof
  assume "i64 x = i64 y"
  then have "(x + 2 ^ 63) mod 2 ^ 64 = (y + 2 ^ 63) mod 2 ^ 64" by (simp add: i64_def)
  then have "((x + 2 ^ 63) - 2 ^ 63) mod 2 ^ 64 = ((y + 2 ^ 63) - 2 ^ 63) mod (2 ^ 64 :: int)"
    by (rule mod_diff_cong) simp
  then show "x mod 2 ^ 64 = y mod 2 ^ 64" by simp
next
  assume "x mod 2 ^ 64 = y mod 2 ^ 64"
  then have "(x + 2 ^ 63) mod 2 ^ 64 = (y + 2 ^ 63) mod (2 ^ 64 :: int)"
    by (rule mod_add_cong) simp
  then show "i64 x = i64 y" by (simp add: i64_def)
qed

lemma i64_mod: "i64 x mod 2 ^ 64 = x mod 2 ^ 64"
  unfolding i64_def by (metis add_diff_cancel_right' mod_diff_left_eq)

lemma i64_i64: "i64 (i64 x) = i64 x"
  by (simp only: i64_eq_iff i64_mod)

lemma i64_plus_cong: "i64 a = i64 b \<Longrightarrow> i64 (a + c) = i64 (b + c)"
  unfolding i64_eq_iff by (rule mod_add_cong) simp_all

lemma i64_add_left: "i64 (i64 a + b) = i64 (a + b)"
  by (intro i64_plus_cong i64_i64)

lemma i64_add_right: "i64 (a + i64 b) = i64 (a + b)"
  using i64_add_left [of b a] by (simp add: add.commute)

lemma i64_mult_left: "i64 (i64 a * b) = i64 (a * b)"
  unfolding i64_eq_iff by (metis i64_mod mod_mult_left_eq)

lemma i64_add_mult: "i64 (a + i64 b * c) = i64 (a + b * c)"
  using i64_add_right [of a "i64 b * c"] i64_add_right [of a "b * c"] by (simp add: i64_mult_left)

lemmas i64_cong = i64_add_left i64_add_right i64_mult_left

section \<open>Lists\<close>

lemma set_filter_sub: "set (filter P xs) \<subseteq> set xs"
  by auto

lemma nth_eq_imp_in: "i < length xs \<Longrightarrow> xs ! i = x \<Longrightarrow> x \<in> set xs"
  by auto

end
