(* ===== verification/GoStrings.thy ===== *)
theory GoStrings
  imports GoPrelude "HOL-Library.Sublist"
begin

text \<open>
  Go strings and the functions of the packages \<open>strings\<close>, \<open>strconv\<close> and \<open>unicode/utf8\<close>
  that the program calls. A string is its list of bytes (\<open>char\<close> is a byte), so lengths and
  comparisons are Go's; a \<open>[]rune\<close> is a list of code points. The generated tables of package
  \<open>unicode\<close> beyond ASCII are a parameter \<open>unicode_tables\<close>: every theorem holds for any tables.
\<close>

section \<open>Bytes and runes\<close>

abbreviation byte_of :: "char \<Rightarrow> nat" where
  "byte_of c \<equiv> of_char c"

definition rune_error :: nat where
  "rune_error = 0xFFFD"

definition valid_rune :: "nat \<Rightarrow> bool" where
  "valid_rune r \<longleftrightarrow> r < 0xD800 \<or> 0xE000 \<le> r \<and> r < 0x110000"

text \<open>\<open>utf8.AppendRune\<close>: surrogates and values out of range are written as U+FFFD.\<close>

definition encode_valid :: "nat \<Rightarrow> string" where
  "encode_valid r =
     (if r < 0x80 then [char_of r]
      else if r < 0x800 then [char_of (0xC0 + r div 64), char_of (0x80 + r mod 64)]
      else if r < 0x10000 then
        [char_of (0xE0 + r div 4096), char_of (0x80 + r div 64 mod 64), char_of (0x80 + r mod 64)]
      else
        [char_of (0xF0 + r div 262144), char_of (0x80 + r div 4096 mod 64),
         char_of (0x80 + r div 64 mod 64), char_of (0x80 + r mod 64)])"

definition encode_rune :: "nat \<Rightarrow> string" where
  "encode_rune r = encode_valid (if valid_rune r then r else rune_error)"

definition encode_runes :: "nat list \<Rightarrow> string" where
  "encode_runes rs = concat (map encode_rune rs)"

text \<open>
  The first byte of a sequence gives its length and the range of the second byte
  (\<open>utf8.first\<close> and \<open>utf8.acceptRanges\<close>); \<open>None\<close> is a byte no sequence starts with.
\<close>

definition utf8_first :: "nat \<Rightarrow> (nat \<times> nat \<times> nat) option" where
  "utf8_first b =
     (if 0xC2 \<le> b \<and> b \<le> 0xDF then Some (2, 0x80, 0xBF)
      else if b = 0xE0 then Some (3, 0xA0, 0xBF)
      else if b = 0xED then Some (3, 0x80, 0x9F)
      else if 0xE1 \<le> b \<and> b \<le> 0xEF then Some (3, 0x80, 0xBF)
      else if b = 0xF0 then Some (4, 0x90, 0xBF)
      else if b = 0xF4 then Some (4, 0x80, 0x8F)
      else if 0xF1 \<le> b \<and> b \<le> 0xF3 then Some (4, 0x80, 0xBF)
      else None)"

definition cont_byte :: "nat \<Rightarrow> bool" where
  "cont_byte b \<longleftrightarrow> 0x80 \<le> b \<and> b \<le> 0xBF"

text \<open>\<open>utf8.DecodeRuneInString\<close>: the first rune and how many bytes it takes.\<close>

fun decode_rune :: "string \<Rightarrow> nat \<times> nat" where
  "decode_rune [] = (rune_error, 0)"
| "decode_rune (c # cs) =
     (if byte_of c < 0x80 then (byte_of c, 1)
      else case utf8_first (byte_of c) of
        None \<Rightarrow> (rune_error, 1)
      | Some (n, lo, hi) \<Rightarrow>
          (case map byte_of cs of
            b1 # bs \<Rightarrow>
              if b1 < lo \<or> hi < b1 then (rune_error, 1)
              else if n = 2 then (byte_of c mod 32 * 64 + b1 mod 64, 2)
              else (case bs of
                b2 # bs' \<Rightarrow>
                  if \<not> cont_byte b2 then (rune_error, 1)
                  else if n = 3 then (byte_of c mod 16 * 4096 + b1 mod 64 * 64 + b2 mod 64, 3)
                  else (case bs' of
                    b3 # _ \<Rightarrow>
                      if \<not> cont_byte b3 then (rune_error, 1)
                      else (byte_of c mod 8 * 262144 + b1 mod 64 * 4096 + b2 mod 64 * 64 + b3 mod 64, 4)
                  | [] \<Rightarrow> (rune_error, 1))
              | [] \<Rightarrow> (rune_error, 1))
          | [] \<Rightarrow> (rune_error, 1)))"

lemma decode_rune_width: "s \<noteq> [] \<Longrightarrow> 0 < snd (decode_rune s)"
  by (cases s) (auto split: option.splits list.splits)

text \<open>A string str_cut into its runes, each with the bytes it was read from.\<close>

function segments :: "string \<Rightarrow> (nat \<times> string) list" where
  "segments s =
     (if s = [] then []
      else (case decode_rune s of (r, w) \<Rightarrow> (r, take w s) # segments (drop w s)))"
  by pat_completeness auto
termination
proof (relation "measure length")
  show "(drop w s, s) \<in> measure length" if "s \<noteq> []" "(r, w) = decode_rune s" for s :: string and r w
    using that decode_rune_width [of s] by (cases "decode_rune s") auto
qed simp

declare segments.simps [simp del]

text \<open>\<open>[]rune(s)\<close>\<close>

definition runes :: "string \<Rightarrow> nat list" where
  "runes s = map fst (segments s)"

lemma segments_Nil [simp]: "segments [] = []"
  by (simp add: segments.simps)

lemma runes_Nil [simp]: "runes [] = []"
  by (simp add: runes_def)

lemma concat_segments: "concat (map snd (segments s)) = s"
proof (induction s rule: segments.induct)
  case (1 s)
  then show ?case by (cases "decode_rune s") (simp add: segments.simps [of s])
qed

lemma segments_ascii: "byte_of c < 0x80 \<Longrightarrow> segments (c # s) = (byte_of c, [c]) # segments s"
  by (simp add: segments.simps [of "c # s"])

lemma runes_ascii [simp]: "byte_of c < 0x80 \<Longrightarrow> runes (c # s) = byte_of c # runes s"
  by (simp add: runes_def segments_ascii)

lemma of_char_char_of_small [simp]: "n < 256 \<Longrightarrow> of_char (char_of n :: char) = (n :: nat)"
  by simp

lemma split_base64:
  fixes r :: nat
  shows "r = r div 4096 * 4096 + r div 64 mod 64 * 64 + r mod 64"
proof -
  have "r div 4096 = r div 64 div 64" by (simp add: div_mult2_eq [symmetric])
  then show ?thesis
    using div_mult_mod_eq [of r 64] div_mult_mod_eq [of "r div 64" 64] by linarith
qed

lemma split_base64_3:
  fixes r :: nat
  shows "r = r div 262144 * 262144 + r div 4096 mod 64 * 4096 + r div 64 mod 64 * 64 + r mod 64"
proof -
  have "r div 262144 = r div 4096 div 64" by (simp add: div_mult2_eq [symmetric])
  then show ?thesis
    using split_base64 [of r] div_mult_mod_eq [of "r div 4096" 64] by linarith
qed

lemma mod_lead_byte:
  fixes x :: nat
  shows "x < 64 \<Longrightarrow> (128 + x) mod 64 = x" "x < 32 \<Longrightarrow> (192 + x) mod 32 = x"
    "x < 16 \<Longrightarrow> (224 + x) mod 16 = x" "x < 8 \<Longrightarrow> (240 + x) mod 8 = x"
  using mod_mult_self2 [of x 64 2] mod_mult_self2 [of x 32 6] mod_mult_self2 [of x 16 14]
    mod_mult_self2 [of x 8 30]
  by (simp_all add: add.commute)

text \<open>Decoding inverts encoding on valid runes.\<close>

lemma decode_encode_valid:
  assumes "valid_rune r"
  shows "decode_rune (encode_valid r @ s) = (r, length (encode_valid r))"
proof -
  consider "r < 0x80" | "0x80 \<le> r" "r < 0x800" | "0x800 \<le> r" "r < 0x10000"
    | "0x10000 \<le> r" "r < 0x110000"
    using assms by (fastforce simp: valid_rune_def)
  then show ?thesis
  proof cases
    case 1
    then show ?thesis by (simp add: encode_valid_def)
  next
    case 2
    define h l where "h = r div 64" and "l = r mod 64"
    have r: "r = h * 64 + l" by (simp add: h_def l_def)
    have b: "h < 32" "2 \<le> h" "l < 64" using 2 by (auto simp: h_def l_def)
    with 2 b show ?thesis
      unfolding encode_valid_def h_def [symmetric] l_def [symmetric]
      by (auto simp: utf8_first_def r mod_lead_byte)
  next
    case 3
    define h m l where "h = r div 4096" and "m = r div 64 mod 64" and "l = r mod 64"
    have r: "r = h * 4096 + m * 64 + l" unfolding h_def m_def l_def by (rule split_base64)
    have b: "h < 16" "m < 64" "l < 64" using 3 by (auto simp: h_def m_def l_def)
    have "h = 0 \<Longrightarrow> 32 \<le> m" "h = 13 \<Longrightarrow> m < 32"
      using 3 assms b unfolding r valid_rune_def by auto
    with b 3 show ?thesis
      unfolding encode_valid_def h_def [symmetric] m_def [symmetric] l_def [symmetric]
      by (auto simp: utf8_first_def cont_byte_def r mod_lead_byte)
  next
    case 4
    define g h m l where "g = r div 262144" and "h = r div 4096 mod 64"
      and "m = r div 64 mod 64" and "l = r mod 64"
    have r: "r = g * 262144 + h * 4096 + m * 64 + l" unfolding g_def h_def m_def l_def by (rule split_base64_3)
    have b: "g \<le> 4" "h < 64" "m < 64" "l < 64" using 4 by (auto simp: g_def h_def m_def l_def)
    have "g = 0 \<Longrightarrow> 16 \<le> h" "g = 4 \<Longrightarrow> h < 16"
      using 4 b unfolding r by auto
    with b 4 show ?thesis
      unfolding encode_valid_def g_def [symmetric] h_def [symmetric] m_def [symmetric] l_def [symmetric]
      by (auto simp: utf8_first_def cont_byte_def r mod_lead_byte)
  qed
qed

lemma segments_encode_valid:
  "valid_rune r \<Longrightarrow> segments (encode_valid r @ s) = (r, encode_valid r) # segments s"
  using decode_encode_valid [of r s]
  by (subst segments.simps) (auto simp: encode_valid_def)

lemma encode_rune_valid [simp]: "valid_rune r \<Longrightarrow> encode_rune r = encode_valid r"
  by (simp add: encode_rune_def)

lemma runes_encode_valid [simp]: "valid_rune r \<Longrightarrow> runes (encode_valid r @ s) = r # runes s"
  by (simp add: runes_def segments_encode_valid)

lemma runes_encode_runes:
  "list_all valid_rune rs \<Longrightarrow> runes (encode_runes rs @ s) = rs @ runes s"
  by (induction rs) (simp_all add: encode_runes_def)

lemma encode_runes_Cons [simp]: "encode_runes (r # rs) = encode_rune r @ encode_runes rs"
  by (simp add: encode_runes_def)

lemma encode_runes_Nil [simp]: "encode_runes [] = []"
  by (simp add: encode_runes_def)

lemma encode_runes_append: "encode_runes (rs @ qs) = encode_runes rs @ encode_runes qs"
  by (simp add: encode_runes_def)

lemma sub_lead_byte:
  fixes b :: nat
  shows "128 \<le> b \<Longrightarrow> b \<le> 191 \<Longrightarrow> b mod 64 = b - 128" "224 \<le> b \<Longrightarrow> b \<le> 239 \<Longrightarrow> b mod 16 = b - 224"
    "240 \<le> b \<Longrightarrow> b \<le> 247 \<Longrightarrow> b mod 8 = b - 240"
  using mod_lead_byte(1) [of "b - 128"] mod_lead_byte(3) [of "b - 224"] mod_lead_byte(4) [of "b - 240"]
  by simp_all

lemma valid_rune2: "a < 32 \<Longrightarrow> b < 64 \<Longrightarrow> valid_rune (a * 64 + b)"
  by (simp add: valid_rune_def)

lemma valid_rune3:
  assumes "a < 16" "b < 64" "c < 64" "a = 13 \<Longrightarrow> b < 32"
  shows "valid_rune (a * 4096 + b * 64 + c)"
proof -
  consider "a \<le> 12" | "a = 13" | "14 \<le> a" by linarith
  then show ?thesis using assms by cases (auto simp: valid_rune_def)
qed

lemma valid_rune4:
  assumes "a < 5" "b < 64" "c < 64" "d < 64" "a = 0 \<Longrightarrow> 16 \<le> b" "a = 4 \<Longrightarrow> b < 16"
  shows "valid_rune (a * 262144 + b * 4096 + c * 64 + d)"
proof -
  consider "a = 0" | "1 \<le> a" "a \<le> 3" | "a = 4" using assms(1) by linarith
  then show ?thesis using assms by cases (auto simp: valid_rune_def)
qed

lemma decode_rune_valid: "valid_rune (fst (decode_rune s))"
proof (cases s)
  case (Cons c cs)
  have e: "valid_rune rune_error" by (simp add: rune_error_def valid_rune_def)
  have three: "valid_rune (b mod 16 * 4096 + b1 mod 64 * 64 + b2 mod 64)"
    if "utf8_first b = Some (3, lo, hi)" "\<not> b1 < lo" "\<not> hi < b1" "cont_byte b2" for b lo hi b1 b2
    using that by (intro valid_rune3)
      (auto simp: utf8_first_def cont_byte_def sub_lead_byte split: if_splits)
  have four: "valid_rune (b mod 8 * 262144 + b1 mod 64 * 4096 + b2 mod 64 * 64 + b3 mod 64)"
    if "utf8_first b = Some (n, lo, hi)" "n \<noteq> 2" "n \<noteq> 3" "\<not> b1 < lo" "\<not> hi < b1" "cont_byte b2"
      "cont_byte b3" for b n lo hi b1 b2 b3
    using that by (intro valid_rune4)
      (auto simp: utf8_first_def cont_byte_def sub_lead_byte split: if_splits)
  have one: "valid_rune b" if "b < 128" for b using that by (simp add: valid_rune_def)
  show ?thesis
    using Cons by (auto simp: e one valid_rune2 split: option.split list.split intro: three four)
qed (simp add: rune_error_def valid_rune_def)

lemma runes_valid: "list_all valid_rune (runes s)"
proof (induction s rule: segments.induct)
  case (1 s)
  then show ?case using decode_rune_valid [of s]
    by (cases "decode_rune s") (auto simp: runes_def segments.simps [of s])
qed

text \<open>A string that is valid UTF-8: encoding what was decoded gives it back.\<close>

definition utf8_valid :: "string \<Rightarrow> bool" where
  "utf8_valid s \<longleftrightarrow> encode_runes (runes s) = s"

lemma runes_encode [simp]: "list_all valid_rune rs \<Longrightarrow> runes (encode_runes rs) = rs"
  using runes_encode_runes [of rs "[]"] by simp

lemma utf8_valid_encode: "list_all valid_rune rs \<Longrightarrow> utf8_valid (encode_runes rs)"
  by (simp add: utf8_valid_def)

definition ascii :: "string \<Rightarrow> bool" where
  "ascii s \<longleftrightarrow> list_all (\<lambda>c. byte_of c < 0x80) s"

lemma ascii_simps [simp]: "ascii []" "ascii (c # s) \<longleftrightarrow> byte_of c < 0x80 \<and> ascii s"
  by (simp_all add: ascii_def)

lemma runes_of_ascii: "ascii s \<Longrightarrow> runes s = map byte_of s"
  by (induction s) auto

lemma encode_rune_ascii [simp]: "r < 0x80 \<Longrightarrow> encode_rune r = [char_of r]"
  by (simp add: encode_rune_def encode_valid_def valid_rune_def)

lemma encode_runes_ascii: "ascii s \<Longrightarrow> encode_runes (map byte_of s) = s"
  by (induction s) auto

lemma utf8_valid_ascii: "ascii s \<Longrightarrow> utf8_valid s"
  by (simp add: utf8_valid_def runes_of_ascii encode_runes_ascii)


section \<open>Package strings\<close>

definition trim_prefix :: "string \<Rightarrow> string \<Rightarrow> string" where
  "trim_prefix s p = (if prefix p s then drop (length p) s else s)"

definition trim_suffix :: "string \<Rightarrow> string \<Rightarrow> string" where
  "trim_suffix s p = (if suffix p s then take (length s - length p) s else s)"

text \<open>\<open>strings.Cut\<close>: the text before and after the first occurrence of the separator.\<close>

fun str_cut :: "string \<Rightarrow> string \<Rightarrow> (string \<times> string) option" where
  "str_cut [] sep = (if sep = [] then Some ([], []) else None)"
| "str_cut (c # cs) sep =
     (if prefix sep (c # cs) then Some ([], drop (length sep) (c # cs))
      else map_option (\<lambda>(a, b). (c # a, b)) (str_cut cs sep))"

definition contains :: "string \<Rightarrow> string \<Rightarrow> bool" where
  "contains s sub = (str_cut s sub \<noteq> None)"

text \<open>\<open>strings.SplitN(s, sep, 2)\<close>\<close>

definition split_n2 :: "string \<Rightarrow> string \<Rightarrow> string list" where
  "split_n2 s sep = (case str_cut s sep of None \<Rightarrow> [s] | Some (a, b) \<Rightarrow> [a, b])"

text \<open>\<open>strings.Split\<close> with a separator of one byte.\<close>

fun split_byte :: "char \<Rightarrow> string \<Rightarrow> string list" where
  "split_byte c [] = [[]]"
| "split_byte c (x # xs) =
     (if x = c then [] # split_byte c xs
      else (case split_byte c xs of [] \<Rightarrow> [[x]] | p # ps \<Rightarrow> (x # p) # ps))"

fun join :: "string list \<Rightarrow> string \<Rightarrow> string" where
  "join [] sep = []"
| "join [x] sep = x"
| "join (x # y # xs) sep = x @ sep @ join (y # xs) sep"

lemma cut_Some: "str_cut s sep = Some (a, b) \<Longrightarrow> s = a @ sep @ b"
  by (induction s arbitrary: a) (auto split: if_splits elim!: prefixE)

lemma cut_None: "str_cut s sep = None \<Longrightarrow> s \<noteq> a @ sep @ b"
proof (induction s arbitrary: a)
  case (Cons c cs)
  then show ?case by (cases a) (auto split: if_splits)
qed (auto split: if_splits)

lemma contains_iff: "contains s sub \<longleftrightarrow> (\<exists>a b. s = a @ sub @ b)"
proof
  assume "contains s sub"
  then obtain a b where "str_cut s sub = Some (a, b)" by (auto simp: contains_def)
  then show "\<exists>a b. s = a @ sub @ b" by (blast dest: cut_Some)
next
  assume "\<exists>a b. s = a @ sub @ b"
  then show "contains s sub" unfolding contains_def using cut_None by blast
qed

lemma cut_rest_length: "str_cut s sep = Some (a, b) \<Longrightarrow> sep \<noteq> [] \<Longrightarrow> length b < length s"
  by (drule cut_Some) simp

text \<open>\<open>strings.ReplaceAll\<close> and \<open>strings.Replace(s, old, new, 1)\<close>, for the non-empty patterns used.\<close>

function replace_all :: "string \<Rightarrow> string \<Rightarrow> string \<Rightarrow> string" where
  "replace_all s old new =
     (if old = [] then s
      else (case str_cut s old of None \<Rightarrow> s | Some (a, b) \<Rightarrow> a @ new @ replace_all b old new))"
  by pat_completeness auto
termination
  by (relation "measure (\<lambda>(s, _, _). length s)") (auto dest: cut_rest_length)

declare replace_all.simps [simp del]

definition replace_once :: "string \<Rightarrow> string \<Rightarrow> string \<Rightarrow> string" where
  "replace_once s old new = (case str_cut s old of None \<Rightarrow> s | Some (a, b) \<Rightarrow> a @ new @ b)"

lemma split_byte_not_Nil [simp]: "split_byte c s \<noteq> []"
  by (induction s) (auto split: list.splits)

lemma join_split_byte: "join (split_byte c s) [c] = s"
proof (induction s)
  case (Cons x xs)
  obtain p ps where p: "split_byte c xs = p # ps" by (cases "split_byte c xs") auto
  with Cons show ?case by (cases ps) auto
qed simp

lemma split_byte_no_sep: "p \<in> set (split_byte c s) \<Longrightarrow> c \<notin> set p"
  by (induction s arbitrary: p) (auto split: if_splits list.splits)

text \<open>\<open>unicode.IsSpace\<close>\<close>

definition is_space :: "nat \<Rightarrow> bool" where
  "is_space r \<longleftrightarrow> 9 \<le> r \<and> r \<le> 13 \<or> r = 32 \<or> r = 0x85 \<or> r = 0xA0 \<or> r = 0x1680
     \<or> 0x2000 \<le> r \<and> r \<le> 0x200A \<or> r = 0x2028 \<or> r = 0x2029 \<or> r = 0x202F \<or> r = 0x205F \<or> r = 0x3000"

definition trim_space :: "string \<Rightarrow> string" where
  "trim_space s =
     concat (map snd (rev (dropWhile (\<lambda>(r, _). is_space r)
       (rev (dropWhile (\<lambda>(r, _). is_space r) (segments s))))))"

text \<open>Trimming ASCII text, byte by byte.\<close>

lemma segments_of_ascii: "ascii s \<Longrightarrow> segments s = map (\<lambda>c. (byte_of c, [c])) s"
  by (induction s) (simp_all add: segments_ascii)

lemma trim_space_ascii:
  assumes "ascii s"
  shows "trim_space s = rev (dropWhile (\<lambda>c. is_space (byte_of c)) (rev (dropWhile (\<lambda>c. is_space (byte_of c)) s)))"
proof -
  have d: "dropWhile (\<lambda>(r, _). is_space r) (map (\<lambda>c. (byte_of c, [c])) xs)
      = map (\<lambda>c. (byte_of c, [c])) (dropWhile (\<lambda>c. is_space (byte_of c)) xs)" for xs
    by (induction xs) auto
  have c: "concat (map (\<lambda>c. [c]) xs) = xs" for xs :: string by (induction xs) auto
  show ?thesis
    unfolding trim_space_def segments_of_ascii [OF assms] d
    by (simp add: rev_map d comp_def c)
qed

lemma char_of_byte: "char_of (n :: nat) = c \<longleftrightarrow> byte_of c = n mod 256"
proof
  assume "char_of n = c"
  then show "byte_of c = n mod 256" by auto
next
  assume "byte_of c = n mod 256"
  then have "char_of (byte_of c) = char_of n" by simp
  then show "char_of n = c" by simp
qed

text \<open>\<open>strings.Trim\<close> with an ASCII cutset.\<close>

definition trim_set :: "char set \<Rightarrow> string \<Rightarrow> string" where
  "trim_set cs s = rev (dropWhile (\<lambda>c. c \<in> cs) (rev (dropWhile (\<lambda>c. c \<in> cs) s)))"

text \<open>The generated tables of package unicode beyond ASCII.\<close>

record unicode_tables =
  uc_lower :: "nat \<Rightarrow> nat"
  uc_letter :: "nat \<Rightarrow> bool"
  uc_digit :: "nat \<Rightarrow> bool"

text \<open>The tables that know no character beyond ASCII, for examples.\<close>

definition plain_tables :: unicode_tables where
  "plain_tables = \<lparr>uc_lower = (\<lambda>r. r), uc_letter = (\<lambda>_. False), uc_digit = (\<lambda>_. False)\<rparr>"

definition rune_lower :: "unicode_tables \<Rightarrow> nat \<Rightarrow> nat" where
  "rune_lower U r =
     (if r < 0x80 then (if 65 \<le> r \<and> r \<le> 90 then r + 32 else r) else uc_lower U r)"

definition is_letter :: "unicode_tables \<Rightarrow> nat \<Rightarrow> bool" where
  "is_letter U r =
     (if r < 0x80 then 65 \<le> r \<and> r \<le> 90 \<or> 97 \<le> r \<and> r \<le> 122 else uc_letter U r)"

definition is_digit_rune :: "unicode_tables \<Rightarrow> nat \<Rightarrow> bool" where
  "is_digit_rune U r = (if r < 0x80 then 48 \<le> r \<and> r \<le> 57 else uc_digit U r)"

text \<open>\<open>strings.ToLower\<close>\<close>

definition to_lower :: "unicode_tables \<Rightarrow> string \<Rightarrow> string" where
  "to_lower U s = encode_runes (map (rune_lower U) (runes s))"

section \<open>Package strconv\<close>

definition is_digit :: "char \<Rightarrow> bool" where
  "is_digit c \<longleftrightarrow> 48 \<le> byte_of c \<and> byte_of c \<le> 57"

definition digits_value :: "string \<Rightarrow> nat" where
  "digits_value s = foldl (\<lambda>a c. 10 * a + (byte_of c - 48)) 0 s"

text \<open>\<open>strconv.Atoi\<close>: an optional sign, decimal digits, a value of 64 bits; \<open>None\<close> is its error.\<close>

definition atoi :: "string \<Rightarrow> int option" where
  "atoi s =
     (let neg = (case s of c # _ \<Rightarrow> c = CHR ''-'' | [] \<Rightarrow> False);
          ds = (case s of c # cs \<Rightarrow> if c = CHR ''-'' \<or> c = CHR ''+'' then cs else s | [] \<Rightarrow> [])
      in if ds = [] \<or> \<not> list_all is_digit ds then None
         else let v = (if neg then - int (digits_value ds) else int (digits_value ds))
              in if in_i64 v then Some v else None)"

text \<open>The decimal spelling that \<open>%d\<close> and \<open>strconv.Itoa\<close> give.\<close>

fun utoa :: "nat \<Rightarrow> string" where
  "utoa n = (if n < 10 then [char_of (48 + n)] else utoa (n div 10) @ [char_of (48 + n mod 10)])"

declare utoa.simps [simp del]

definition itoa :: "int \<Rightarrow> string" where
  "itoa i = (if i < 0 then CHR ''-'' # utoa (nat (- i)) else utoa (nat i))"

lemma is_digit_char_of [simp]: "k < 10 \<Longrightarrow> is_digit (char_of (48 + k :: nat))"
  by (simp add: is_digit_def)

lemma utoa_digits: "list_all is_digit (utoa n)"
proof (induction n rule: utoa.induct)
  case (1 n)
  then show ?case by (subst utoa.simps) auto
qed

lemma utoa_not_Nil [simp]: "utoa n \<noteq> []"
  by (subst utoa.simps) simp

lemma digits_value_utoa: "digits_value (utoa n) = n"
proof (induction n rule: utoa.induct)
  case (1 n)
  then show ?case by (subst utoa.simps) (auto simp: digits_value_def)
qed

lemma utoa_hd: "\<exists>c cs. utoa n = c # cs \<and> is_digit c"
  using utoa_digits [of n] by (cases "utoa n") auto

lemma atoi_utoa: "in_i64 (int n) \<Longrightarrow> atoi (utoa n) = Some (int n)"
proof -
  assume r: "in_i64 (int n)"
  obtain c cs where c: "utoa n = c # cs" "is_digit c" using utoa_hd by blast
  then have "c \<noteq> CHR ''-''" "c \<noteq> CHR ''+''" by (auto simp: is_digit_def)
  with c r utoa_digits [of n] digits_value_utoa [of n] show ?thesis
    by (auto simp: atoi_def)
qed

lemma utoa_inj: "utoa m = utoa n \<Longrightarrow> m = n"
  using digits_value_utoa by metis

lemma utoa_no_sign: "utoa n \<noteq> CHR ''-'' # s"
  using utoa_digits [of n] by (auto simp: is_digit_def)

lemma itoa_inj:
  assumes "itoa i = itoa j"
  shows "i = j"
proof (cases "i < 0")
  case True
  have "j < 0" using assms True utoa_no_sign by (metis itoa_def)
  with assms True have "nat (- i) = nat (- j)" by (intro utoa_inj) (simp add: itoa_def)
  with True \<open>j < 0\<close> show ?thesis by simp
next
  case False
  have "\<not> j < 0" using assms False utoa_no_sign by (metis itoa_def)
  with assms False have "nat i = nat j" by (intro utoa_inj) (simp add: itoa_def)
  with False \<open>\<not> j < 0\<close> show ?thesis by simp
qed

section \<open>Hexadecimal\<close>

definition is_lower_hex :: "char \<Rightarrow> bool" where
  "is_lower_hex c \<longleftrightarrow> is_digit c \<or> 97 \<le> byte_of c \<and> byte_of c \<le> 102"

definition is_hex :: "char \<Rightarrow> bool" where
  "is_hex c \<longleftrightarrow> is_lower_hex c \<or> 65 \<le> byte_of c \<and> byte_of c \<le> 70"

text \<open>\<open>hex.DecodeString\<close> succeeds.\<close>

definition hex_decodes :: "string \<Rightarrow> bool" where
  "hex_decodes s \<longleftrightarrow> even (length s) \<and> list_all is_hex s"

lemma lower_hex_is_hex: "is_lower_hex c \<Longrightarrow> is_hex c"
  by (simp add: is_hex_def)

end
