(* ===== verification/Scheme.thy ===== *)
theory Scheme
  imports GoStrings
begin

text \<open>
  The reader of the corpus' Scheme files (\<open>report/report/scheme.go\<close>): the tokenizer, the
  recursive-descent parser, and the accessors the authoring forms are read with. The main
  results are that printing and parsing are inverse to each other on everything the parser
  accepts, and where a string literal is mistaken for a delimiter.
\<close>

section \<open>Expressions\<close>

text \<open>\<open>type sexpr struct\<close>\<close>

datatype sexpr = SExpr (sx_atom: string) (sx_list: "sexpr list") (sx_str: bool)

abbreviation mk_atom :: "string \<Rightarrow> sexpr" where
  "mk_atom a \<equiv> SExpr a [] False"

abbreviation mk_list :: "sexpr list \<Rightarrow> sexpr" where
  "mk_list xs \<equiv> SExpr [] xs False"

text \<open>
  \<open>atomValue\<close> and \<open>head\<close> call each other; \<open>head\<close> of a non-empty list is \<open>atomValue\<close> of its
  first element, which is written out here so that the recursion is structural.
\<close>

fun atomValue :: "sexpr \<Rightarrow> string" where
  "atomValue (SExpr a [] s) = a"
| "atomValue (SExpr a [x, y] s) = (if atomValue x = ''quote'' then atomValue y else atomValue x)"
| "atomValue (SExpr a (x # xs) s) = atomValue x"

definition head :: "sexpr \<Rightarrow> string" where
  "head e = (case sx_list e of [] \<Rightarrow> '''' | x # _ \<Rightarrow> atomValue x)"

lemma head_simps [simp]:
  "head (SExpr a [] s) = ''''" "head (SExpr a (x # xs) s) = atomValue x"
  by (simp_all add: head_def)

lemma atomValue_as_written:
  "atomValue e =
     (if length (sx_list e) = 2 \<and> head e = ''quote'' then atomValue (sx_list e ! 1)
      else if sx_list e = [] then sx_atom e
      else head e)"
  by (cases e rule: atomValue.cases) auto

definition unquote :: "sexpr \<Rightarrow> sexpr" where
  "unquote e = (if length (sx_list e) = 2 \<and> head e = ''quote'' then sx_list e ! 1 else e)"

definition secondValue :: "sexpr \<Rightarrow> string" where
  "secondValue e = (if length (sx_list e) < 2 then '''' else atomValue (sx_list e ! 1))"

text \<open>The first \<open>(define name value ...)\<close> in the expression, depth first.\<close>

fun findDefinition :: "sexpr \<Rightarrow> string \<Rightarrow> sexpr option"
  and findInForms :: "sexpr list \<Rightarrow> string \<Rightarrow> sexpr option" where
  "findDefinition (SExpr a xs s) name =
     (if head (SExpr a xs s) = ''define'' \<and> 3 \<le> length xs \<and> atomValue (xs ! 1) = name
      then Some (xs ! 2) else findInForms xs name)"
| "findInForms [] name = None"
| "findInForms (x # xs) name =
     (case findDefinition x name of Some v \<Rightarrow> Some v | None \<Rightarrow> findInForms xs name)"

section \<open>The tokenizer\<close>

definition delimiter :: "nat \<Rightarrow> bool" where
  "delimiter r \<longleftrightarrow> r = 40 \<or> r = 41 \<or> r = 39"

text \<open>A rune that ends an atom: white space or one of \<open>()'";\<close>.\<close>

definition ends_atom :: "nat \<Rightarrow> bool" where
  "ends_atom r \<longleftrightarrow> is_space r \<or> delimiter r \<or> r = 34 \<or> r = 59"

definition unescape :: "nat \<Rightarrow> nat" where
  "unescape r = (if r = 110 then 10 else if r = 114 then 13 else if r = 116 then 9 else r)"

text \<open>The runes of a string literal after its opening quote; \<open>None\<close> when it never closes.\<close>

fun read_string :: "nat list \<Rightarrow> (nat list \<times> nat list) option" where
  "read_string [] = None"
| "read_string (r # rs) =
     (if r = 34 then Some ([], rs)
      else if r = 92 then
        (case rs of
          [] \<Rightarrow> None
        | e # rs' \<Rightarrow> map_option (\<lambda>(v, rest). (unescape e # v, rest)) (read_string rs'))
      else map_option (\<lambda>(v, rest). (r # v, rest)) (read_string rs))"

lemma read_string_length: "read_string rs = Some (v, rest) \<Longrightarrow> length rest < length rs"
  by (induction rs arbitrary: v rule: read_string.induct)
    (fastforce split: if_splits list.splits)+

function tokenize_runes :: "nat list \<Rightarrow> sexpr list result" where
  "tokenize_runes [] = Inr []"
| "tokenize_runes (r # rs) =
     (if is_space r then tokenize_runes rs
      else if r = 59 then tokenize_runes (dropWhile (\<lambda>x. x \<noteq> 10) rs)
      else if delimiter r then
        res_bind (tokenize_runes rs) (\<lambda>ts. Inr (mk_atom (encode_rune r) # ts))
      else if r = 34 then
        (case read_string rs of
          None \<Rightarrow> Inl (Err ''unterminated string'' [])
        | Some (v, rest) \<Rightarrow>
            res_bind (tokenize_runes rest) (\<lambda>ts. Inr (SExpr (encode_runes v) [] True # ts)))
      else
        res_bind (tokenize_runes (dropWhile (\<lambda>x. \<not> ends_atom x) rs))
          (\<lambda>ts. Inr (mk_atom (encode_runes (r # takeWhile (\<lambda>x. \<not> ends_atom x) rs)) # ts)))"
  by pat_completeness auto
termination
  by (relation "measure length") (auto simp: le_imp_less_Suc length_dropWhile_le less_SucI
    dest: read_string_length)

definition tokenizeScheme :: "string \<Rightarrow> sexpr list result" where
  "tokenizeScheme input = tokenize_runes (runes input)"

section \<open>The parser\<close>

text \<open>
  \<open>parseOne\<close> takes the tokens from \<open>position\<close> on and returns the expression with the tokens
  left; \<open>parseItems\<close> is its loop over the elements of a list.
\<close>

function parseOne :: "sexpr list \<Rightarrow> (sexpr \<times> sexpr list) result"
  and parseItems :: "sexpr list \<Rightarrow> (sexpr list \<times> sexpr list) result" where
  "parseOne [] = Inl (Err ''unexpected end of input'' [])"
| "parseOne (t # ts) =
     (if sx_atom t = ''('' then res_bind (parseItems ts) (\<lambda>(xs, rest). Inr (mk_list xs, rest))
      else if sx_atom t = '')'' then Inl (Err ''unexpected closing parenthesis'' [])
      else if sx_atom t = [CHR 0x27] then
        res_bind (parseOne ts) (\<lambda>(x, rest). Inr (mk_list [mk_atom ''quote'', x], rest))
      else Inr (t, ts))"
| "parseItems [] = Inl (Err ''unclosed list'' [])"
| "parseItems (t # ts) =
     (if sx_atom t = '')'' then Inr ([], ts)
      else res_bind (parseOne (t # ts))
        (\<lambda>(x, rest). res_bind (parseItems rest) (\<lambda>(xs, rest'). Inr (x # xs, rest'))))"
  by pat_completeness auto

lemma parse_shortens:
  "parseOne_parseItems_dom (Inl ts) \<Longrightarrow> parseOne ts = Inr (x, rest) \<Longrightarrow> length rest < length ts"
  "parseOne_parseItems_dom (Inr ts) \<Longrightarrow> parseItems ts = Inr (xs, rest) \<Longrightarrow> length rest < length ts"
proof (induction arbitrary: x rest and xs rest rule: parseOne_parseItems.pinduct)
  case (2 t ts)
  then show ?case
    by (fastforce simp: parseOne.psimps res_bind_Inr_iff split: if_splits)
next
  case (4 t ts)
  then show ?case
    by (fastforce simp: parseItems.psimps res_bind_Inr_iff split: if_splits)
qed (simp_all add: parseOne.psimps parseItems.psimps)

termination parseOne
  by (relation "measure (\<lambda>a. case a of Inl ts \<Rightarrow> 2 * length ts | Inr ts \<Rightarrow> 2 * length ts + 1)")
    (auto dest: parse_shortens(1))

lemma parseOne_shortens: "parseOne ts = Inr (x, rest) \<Longrightarrow> length rest < length ts"
  and parseItems_shortens: "parseItems ts = Inr (xs, rest) \<Longrightarrow> length rest < length ts"
proof (induction ts and ts arbitrary: x rest and xs rest rule: parseOne_parseItems.induct)
  case (2 t ts)
  then show ?case by (fastforce simp: res_bind_Inr_iff split: if_splits)
next
  case (4 t ts)
  then show ?case by (fastforce simp del: parseOne.simps simp: res_bind_Inr_iff split: if_splits)
qed simp_all

function parseScheme :: "sexpr list \<Rightarrow> sexpr list result" where
  "parseScheme [] = Inr []"
| "parseScheme (t # ts) =
     res_bind (parseOne (t # ts))
       (\<lambda>(x, rest). res_bind (parseScheme rest) (\<lambda>xs. Inr (x # xs)))"
  by pat_completeness auto
termination
  by (relation "measure length") (auto simp del: parseOne.simps dest: parseOne_shortens)

text \<open>\<open>parseSource\<close> of profile.go.\<close>

definition parseSource :: "string \<Rightarrow> sexpr list result" where
  "parseSource source = res_bind (tokenizeScheme source) parseScheme"


section \<open>A printer\<close>

text \<open>
  The specification side of the reader: a printer of tokens and forms, and the forms that a
  text can express. A string literal whose content is a parenthesis or a quote is not among
  them, because the parser compares \<open>token.atom\<close> alone (see \<open>string_delimiter_confused\<close>).
\<close>

definition escape :: "nat \<Rightarrow> nat list" where
  "escape r = (if r = 34 \<or> r = 92 then [92, r] else [r])"

definition print_token :: "sexpr \<Rightarrow> nat list" where
  "print_token t =
     (if sx_str t then 34 # concat (map escape (runes (sx_atom t))) @ [34] else runes (sx_atom t)) @ [32]"

definition delimiter_atom :: "string \<Rightarrow> bool" where
  "delimiter_atom a \<longleftrightarrow> a = ''('' \<or> a = '')'' \<or> a = [CHR 0x27]"

definition token_ok :: "sexpr \<Rightarrow> bool" where
  "token_ok t \<longleftrightarrow> sx_list t = [] \<and> utf8_valid (sx_atom t) \<and>
     (sx_str t \<or> delimiter_atom (sx_atom t)
      \<or> sx_atom t \<noteq> [] \<and> list_all (\<lambda>r. \<not> ends_atom r) (runes (sx_atom t)))"

fun flatten :: "sexpr \<Rightarrow> sexpr list" where
  "flatten (SExpr a xs s) =
     (if xs = [] \<and> (a \<noteq> [] \<or> s) then [SExpr a [] s]
      else mk_atom ''('' # concat (map flatten xs) @ [mk_atom '')''])"

fun wf_form :: "sexpr \<Rightarrow> bool" where
  "wf_form (SExpr a xs s) =
     (if xs = [] \<and> (a \<noteq> [] \<or> s) then token_ok (SExpr a [] s) \<and> \<not> delimiter_atom a
      else a = [] \<and> \<not> s \<and> list_all wf_form xs)"

definition print_runes :: "sexpr list \<Rightarrow> nat list" where
  "print_runes fs = concat (map print_token (concat (map flatten fs)))"

definition printScheme :: "sexpr list \<Rightarrow> string" where
  "printScheme fs = encode_runes (print_runes fs)"

subsection \<open>The tokenizer reads what was printed\<close>

lemma read_string_escaped:
  "read_string (concat (map escape rs) @ 34 # rest) = Some (rs, rest)"
  by (induction rs) (auto simp: escape_def unescape_def)

lemma not_ends_atom: "\<not> ends_atom r \<Longrightarrow> \<not> is_space r \<and> \<not> delimiter r \<and> r \<noteq> 34 \<and> r \<noteq> 59"
  by (simp add: ends_atom_def)

lemma is_space_32 [simp]: "is_space 32" and ends_atom_32 [simp]: "ends_atom 32"
  by (simp_all add: is_space_def ends_atom_def)

lemma special_not_space: "\<not> is_space 34" "\<not> is_space 40" "\<not> is_space 41" "\<not> is_space 39" "\<not> is_space 59"
  by (simp_all add: is_space_def)

lemma utf8_validD: "utf8_valid a \<Longrightarrow> encode_runes (runes a) = a"
  by (simp add: utf8_valid_def)

lemma char_of_delimiters:
  "char_of (40 :: nat) = CHR ''(''" "char_of (41 :: nat) = CHR '')''" "char_of (39 :: nat) = CHR 0x27"
  by code_simp+

lemma runes_delimiters: "runes ''('' = [40]" "runes '')'' = [41]" "runes [CHR 0x27] = [39]"
  by simp_all

lemma runes_eq_Nil: "utf8_valid a \<Longrightarrow> runes a = [] \<longleftrightarrow> a = []"
  using utf8_validD by fastforce

lemma tokenize_print_token:
  assumes "token_ok t"
  shows "tokenize_runes (print_token t @ rs) = res_bind (tokenize_runes rs) (\<lambda>ts. Inr (t # ts))"
proof (cases t)
  case (SExpr a xs st)
  with assms have xs: "xs = []" and u: "utf8_valid a" by (auto simp: token_ok_def)
  show ?thesis
  proof (cases st)
    case True
    then show ?thesis
      using SExpr xs utf8_validD [OF u]
      by (simp add: print_token_def special_not_space delimiter_def read_string_escaped)
  next
    case str: False
    show ?thesis
    proof (cases "delimiter_atom a")
      case True
      then show ?thesis using SExpr xs str
        by (auto simp: print_token_def delimiter_atom_def special_not_space delimiter_def
          char_of_delimiters)
    next
      case False
      then have plain: "list_all (\<lambda>r. \<not> ends_atom r) (runes a)" and ne: "a \<noteq> []"
        using assms SExpr str by (auto simp: token_ok_def)
      obtain r rs' where r: "runes a = r # rs'"
        using ne u runes_eq_Nil by (cases "runes a") auto
      have "takeWhile (\<lambda>x. \<not> ends_atom x) (rs' @ 32 # rs) = rs'"
        "dropWhile (\<lambda>x. \<not> ends_atom x) (rs' @ 32 # rs) = 32 # rs"
        using plain r by (auto simp: takeWhile_append2 dropWhile_append2 list_all_iff)
      with plain r SExpr xs str utf8_validD [OF u] not_ends_atom [of r] show ?thesis
        by (simp add: print_token_def)
    qed
  qed
qed

lemma tokenize_print_tokens:
  "list_all token_ok ts \<Longrightarrow> tokenize_runes (concat (map print_token ts)) = Inr ts"
  by (induction ts) (simp_all add: tokenize_print_token)

subsection \<open>The parser reads what was flattened\<close>

lemma flatten_first:
  assumes "wf_form e"
  shows "\<exists>t ts. flatten e = t # ts \<and> sx_atom t \<noteq> '')''"
  using assms by (cases e) (auto simp: delimiter_atom_def)

lemma parse_flatten:
  "wf_form e \<Longrightarrow> parseOne (flatten e @ ts) = Inr (e, ts)"
proof (induction e arbitrary: ts)
  case (SExpr a xs s)
  have items: "parseItems (concat (map flatten ys) @ mk_atom '')'' # rest) = Inr (ys, rest)"
    if "set ys \<subseteq> set xs" "list_all wf_form ys" for ys rest
    using that
  proof (induction ys)
    case (Cons y ys)
    obtain t us where t: "flatten y = t # us" "sx_atom t \<noteq> '')''"
      using flatten_first Cons.prems(2) by fastforce
    have "parseOne (flatten y @ zs) = Inr (y, zs)" for zs
      using SExpr.IH Cons.prems by auto
    from this [of "concat (map flatten ys) @ mk_atom '')'' # rest"] t Cons show ?case
      by (simp del: parseOne.simps)
  qed simp
  show ?case
  proof (cases "xs = [] \<and> (a \<noteq> [] \<or> s)")
    case True
    with SExpr.prems show ?thesis by (auto simp: delimiter_atom_def)
  next
    case False
    then have "flatten (SExpr a xs s) @ ts = mk_atom ''('' # concat (map flatten xs) @ mk_atom '')'' # ts"
      by auto
    moreover have "a = []" "\<not> s" "list_all wf_form xs" using False SExpr.prems by auto
    ultimately show ?thesis using items [of xs ts] by simp
  qed
qed

lemma parseScheme_flatten:
  "list_all wf_form fs \<Longrightarrow> parseScheme (concat (map flatten fs)) = Inr fs"
proof (induction fs)
  case (Cons f fs)
  then obtain t ts where t: "flatten f = t # ts" using flatten_first by fastforce
  have "parseOne (flatten f @ concat (map flatten fs)) = Inr (f, concat (map flatten fs))"
    using Cons.prems by (simp add: parse_flatten)
  with Cons t show ?case by (simp del: parseOne.simps)
qed simp

lemma token_ok_parens: "token_ok (mk_atom ''('')" "token_ok (mk_atom '')'')"
  by (simp_all add: token_ok_def delimiter_atom_def utf8_valid_ascii)

lemma flatten_tokens: "wf_form e \<Longrightarrow> list_all token_ok (flatten e)"
  by (induction e) (auto simp: token_ok_parens list_all_iff)


lemma print_runes_valid: "list_all valid_rune (print_runes fs)"
proof -
  have "valid_rune 34" "valid_rune 92" "valid_rune 32" by (simp_all add: valid_rune_def)
  then have "list_all valid_rune (print_token t)" for t
    using runes_valid [of "sx_atom t"] by (auto simp: print_token_def list_all_iff escape_def)
  then show ?thesis by (auto simp: print_runes_def list_all_iff)
qed

lemma parse_print:
  assumes "list_all wf_form fs"
  shows "parseSource (printScheme fs) = Inr fs"
proof -
  have "list_all token_ok (concat (map flatten fs))"
    using assms flatten_tokens by (fastforce simp: list_all_iff)
  then have "tokenizeScheme (printScheme fs) = Inr (concat (map flatten fs))"
    by (simp add: tokenizeScheme_def printScheme_def print_runes_valid)
      (simp add: print_runes_def tokenize_print_tokens)
  then show ?thesis using assms by (simp add: parseSource_def parseScheme_flatten)
qed

subsection \<open>Everything the parser accepts can be printed\<close>

lemma valid_rune_small: "r < 0x80 \<Longrightarrow> valid_rune r"
  by (simp add: valid_rune_def)

lemma read_string_valid:
  "read_string rs = Some (v, rest) \<Longrightarrow> list_all valid_rune rs \<Longrightarrow>
    list_all valid_rune v \<and> list_all valid_rune rest"
  by (induction rs arbitrary: v rule: read_string.induct)
    (fastforce split: if_splits list.splits simp: unescape_def valid_rune_small)+

lemma list_all_dropWhile: "list_all P xs \<Longrightarrow> list_all P (dropWhile Q xs)"
  by (auto simp: list_all_iff dest: set_dropWhileD)

lemma list_all_takeWhile: "list_all P xs \<Longrightarrow> list_all P (takeWhile Q xs)"
  by (auto simp: list_all_iff dest: set_takeWhileD)

lemma token_ok_atom:
  assumes "list_all valid_rune (r # rs)" "list_all (\<lambda>x. \<not> ends_atom x) (r # rs)"
  shows "token_ok (mk_atom (encode_runes (r # rs)))"
proof -
  have "runes (encode_runes (r # rs)) = r # rs" using assms(1) by (rule runes_encode)
  moreover from this have "encode_runes (r # rs) \<noteq> []" by (metis list.distinct(1) runes_Nil)
  ultimately show ?thesis
    using assms utf8_valid_encode [of "r # rs"] by (simp add: token_ok_def del: encode_runes_Cons)
qed

lemma delimiter_token:
  "delimiter r \<Longrightarrow> encode_rune r = ''('' \<or> encode_rune r = '')'' \<or> encode_rune r = [CHR 0x27]"
  by (auto simp: delimiter_def char_of_delimiters)

lemma tokenize_runes_ok:
  "tokenize_runes rs = Inr ts \<Longrightarrow> list_all valid_rune rs \<Longrightarrow> list_all token_ok ts"
proof (induction rs arbitrary: ts rule: tokenize_runes.induct)
  case (2 r rs)
  consider "is_space r" | "\<not> is_space r" "r = 59" | "\<not> is_space r" "r \<noteq> 59" "delimiter r"
    | "\<not> is_space r" "r \<noteq> 59" "\<not> delimiter r" "r = 34"
    | "\<not> is_space r" "r \<noteq> 59" "\<not> delimiter r" "r \<noteq> 34"
    by blast
  then show ?case
  proof cases
    case 1
    with 2 show ?thesis by simp
  next
    case comment: 2
    with 2 show ?thesis by (simp add: list_all_dropWhile)
  next
    case 3
    with 2 delimiter_token [of r] show ?thesis
      by (auto simp: res_bind_Inr_iff token_ok_def delimiter_atom_def utf8_valid_ascii)
  next
    case 4
    with "2.prems" obtain v rest us where v: "read_string rs = Some (v, rest)"
      "tokenize_runes rest = Inr us" "ts = SExpr (encode_runes v) [] True # us"
      by (auto simp: res_bind_Inr_iff split: option.splits)
    with read_string_valid [OF v(1)] "2.prems"(2) "2.IH"(4) [OF 4 v(1)] show ?thesis
      by (auto simp: token_ok_def utf8_valid_encode)
  next
    case 5
    then have "\<not> ends_atom r" by (simp add: ends_atom_def)
    then have "token_ok (mk_atom (encode_runes (r # takeWhile (\<lambda>x. \<not> ends_atom x) rs)))"
      using "2.prems"(2) by (intro token_ok_atom) (auto simp: list_all_takeWhile
        list_all_iff [of "\<lambda>x. \<not> ends_atom x"] dest: set_takeWhileD)
    with 2 5 show ?thesis by (auto simp: res_bind_Inr_iff list_all_dropWhile)
  qed
qed simp

lemma token_leaf: "token_ok t \<Longrightarrow> \<not> delimiter_atom (sx_atom t) \<Longrightarrow> wf_form t"
  by (cases t) (auto simp: token_ok_def)

lemma wf_quote: "wf_form (mk_atom ''quote'')"
proof -
  have "utf8_valid ''quote''" "list_all (\<lambda>r. \<not> ends_atom r) (runes ''quote'')"
    by (simp_all add: utf8_valid_ascii ends_atom_def is_space_def delimiter_def)
  then show ?thesis by (simp add: token_ok_def delimiter_atom_def)
qed

lemma parse_wf:
  "parseOne ts = Inr (x, rest) \<Longrightarrow> list_all token_ok ts \<Longrightarrow> wf_form x \<and> list_all token_ok rest"
  "parseItems ts = Inr (xs, rest) \<Longrightarrow> list_all token_ok ts \<Longrightarrow>
    list_all wf_form xs \<and> list_all token_ok rest"
proof (induction ts and ts arbitrary: x rest and xs rest rule: parseOne_parseItems.induct)
  case (2 t ts)
  then show ?case using wf_quote token_leaf [of t]
    by (fastforce simp: res_bind_Inr_iff delimiter_atom_def split: if_splits)
next
  case (4 t ts)
  then show ?case by (fastforce simp del: parseOne.simps simp: res_bind_Inr_iff split: if_splits)
qed simp_all

lemma parseScheme_wf: "parseScheme ts = Inr fs \<Longrightarrow> list_all token_ok ts \<Longrightarrow> list_all wf_form fs"
proof (induction ts arbitrary: fs rule: parseScheme.induct)
  case (2 t ts)
  then show ?case
    by (fastforce simp del: parseOne.simps simp: res_bind_Inr_iff dest: parse_wf(1))
qed simp

lemma parseSource_wf: "parseSource s = Inr fs \<Longrightarrow> list_all wf_form fs"
  by (auto simp: parseSource_def tokenizeScheme_def res_bind_Inr_iff
    intro: parseScheme_wf tokenize_runes_ok runes_valid)


section \<open>Properties of the reader\<close>

text \<open>
  C37. The expressions \<open>parseSource\<close> can return are exactly the well-formed ones, and printing
  such expressions and parsing the text gives them back unchanged: no expression is lost,
  and the reader never returns one that no text denotes.
\<close>

theorem reader_range_and_roundtrip:
  "((\<exists>s. parseSource s = Inr fs) \<longleftrightarrow> list_all wf_form fs) \<and>
   (list_all wf_form fs \<longleftrightarrow> parseSource (printScheme fs) = Inr fs)"
  using parse_print parseSource_wf by blast

text \<open>
  C39. The parser compares the text of a token and not whether it was a string literal, so the
  string literals \<open>"("\<close>, \<open>")"\<close> and \<open>"'"\<close> are read as the delimiters they spell; the source
  \<open>("(")\<close>, a list of one string, is rejected as an unclosed list.
\<close>

theorem string_delimiter_confused:
  assumes "delimiter_atom a"
  shows "parseScheme (SExpr a [] True # ts) = parseScheme (mk_atom a # ts) \<and>
    parseSource [CHR ''('', CHR 0x22, CHR ''('', CHR 0x22, CHR '')''] = Inl (Err ''unclosed list'' [])"
proof
  show "parseScheme (SExpr a [] True # ts) = parseScheme (mk_atom a # ts)"
    using assms by (auto simp: delimiter_atom_def)
  have "tokenizeScheme [CHR ''('', CHR 0x22, CHR ''('', CHR 0x22, CHR '')'']
      = Inr [mk_atom ''('', SExpr ''('' [] True, mk_atom '')'']"
    by (simp add: tokenizeScheme_def special_not_space delimiter_def char_of_delimiters)
  then show "parseSource [CHR ''('', CHR 0x22, CHR ''('', CHR 0x22, CHR '')'']
      = Inl (Err ''unclosed list'' [])"
    by (simp add: parseSource_def)
qed

theorem string_delimiter_confused_witness:
  "delimiter_atom ''('' \<and> parseScheme [SExpr ''('' [] True, mk_atom '')''] = Inr [mk_list []]"
proof -
  have d: "delimiter_atom ''(''" by (simp add: delimiter_atom_def)
  have "parseScheme [mk_atom ''('', mk_atom '')''] = Inr [mk_list []]" by simp
  with d string_delimiter_confused [OF d, of "[mk_atom '')'']"] show ?thesis by simp
qed

end
