(* ===== verification/Shape.thy ===== *)
theory Shape
  imports Scheme
begin

text \<open>
  Scenario shapes: the data of \<open>report/report/model.go\<close> and the reader of authored shapes in
  \<open>report/report/scheme.go\<close> (\<open>ParseScenarioShape\<close> and what it calls). Counts are Go ints:
  products and sums wrap at 64 bits (\<open>mul64\<close>, \<open>add64\<close>).
\<close>

section \<open>Data\<close>

text \<open>\<open>type SpanGroup\<close> and \<open>type SpanNode\<close>, which contain each other.\<close>

datatype SpanGroup = SpanGroup (sg_count: int) (sg_exact: bool) (sg_min: int) (sg_max: int)
    (sg_card: string) (sg_alts: "SpanGroup list") (sg_span: SpanNode)
  and SpanNode = SpanNode (sn_occ: "nat list") (sn_scope: string) (sn_kind: string)
    (sn_status: string) (sn_name: string) (sn_http: string) (sn_children: "SpanGroup list")

text \<open>\<open>type TraceGroup\<close>\<close>

datatype TraceGroup = TraceGroup (tg_count: int) (tg_exact: bool) (tg_min: int) (tg_max: int)
    (tg_card: string) (tg_alts: "TraceGroup list") (tg_coverage: string) (tg_roots: "SpanGroup list")

text \<open>\<open>type ScenarioShape\<close>\<close>

record ScenarioShape =
  ss_profile :: string
  ss_scenario :: string
  ss_source :: string
  ss_traces :: "TraceGroup list"
  ss_exact :: bool
  ss_traceCount :: int
  ss_spanCount :: int
  ss_scopes :: "(string, int) gomap"
  ss_statuses :: "(string, int) gomap"

definition empty_span :: SpanNode where
  "empty_span = SpanNode [] [] [] [] [] [] []"

section \<open>Matchers and cardinalities\<close>

text \<open>The bytes of \<open>" \<dots> "\<close> with U+2026 between spaces.\<close>

definition ellipsis :: string where
  "ellipsis = [CHR 0x20, CHR 0xE2, CHR 0x80, CHR 0xA6, CHR 0x20]"

fun renderMatcher :: "sexpr \<Rightarrow> string" where
  "renderMatcher (SExpr a [] s) = a"
| "renderMatcher (SExpr a (x # xs) s) =
     (let e = SExpr a (x # xs) s; values = map renderMatcher xs
      in if values = [] then head e
         else if head e = ''exact'' then hd values
         else if head e = ''one-of'' then ''one of: '' @ join values '' | ''
         else if head e = ''prefix-suffix'' then join values ellipsis
         else head e @ '': '' @ join values ellipsis)"

text \<open>The arguments of a form: \<open>expr.list[1:]\<close>.\<close>

abbreviation sx_args :: "sexpr \<Rightarrow> sexpr list" where
  "sx_args e \<equiv> tl (sx_list e)"

lemma sx_args_size: "x \<in> set (sx_args e) \<Longrightarrow> size x < size e"
proof (cases e)
  case (SExpr a xs s)
  assume "x \<in> set (sx_args e)"
  with SExpr have "x \<in> set xs" by (auto intro: list.set_sel)
  then show ?thesis using SExpr size_list_estimation' [of x xs "size x" size] by simp
qed

lemma sx_nth_size: "i < length (sx_list e) \<Longrightarrow> size (sx_list e ! i) < size e"
proof (cases e)
  case (SExpr a xs s)
  assume "i < length (sx_list e)"
  with SExpr have "xs ! i \<in> set xs" by simp
  then show ?thesis using SExpr size_list_estimation' [of "xs ! i" xs "size (xs ! i)" size] by simp
qed

text \<open>\<open>parseCount\<close>, the closure of \<open>parseCardinality\<close>.\<close>

definition parseCount :: "sexpr \<Rightarrow> sexpr \<Rightarrow> int result" where
  "parseCount e value =
     (case atoi (atomValue value) of
        None \<Rightarrow> Inl (Err ''invalid %s count'' [head e])
      | Some n \<Rightarrow> fail_if (n < 0) (Err ''invalid %s count'' [head e]) (Inr n))"

definition parseCardinality :: "sexpr \<Rightarrow> (int \<times> int \<times> sexpr) result" where
  "parseCardinality e =
     (let xs = sx_list e
      in if head e = ''repeat'' then
           fail_if (length xs \<noteq> 3) (Err ''repeat requires count and value'' [])
             (res_bind (parseCount e (xs ! 1)) (\<lambda>n. Inr (n, n, xs ! 2)))
         else if head e = ''between'' then
           fail_if (length xs \<noteq> 4) (Err ''between requires minimum, maximum, and value'' [])
             (res_bind (parseCount e (xs ! 1)) (\<lambda>minimum.
                case parseCount e (xs ! 2) of
                  Inl _ \<Rightarrow> Inl (Err ''invalid between range'' [])
                | Inr maximum \<Rightarrow>
                    fail_if (maximum < minimum) (Err ''invalid between range'' [])
                      (Inr (minimum, maximum, xs ! 3))))
         else if head e = ''optional'' then
           fail_if (length xs \<noteq> 2) (Err ''optional requires a value'' []) (Inr (0, 1, xs ! 1))
         else Inl (Err ''unsupported cardinality %s'' [head e]))"

lemma parseCardinality_size:
  "parseCardinality e = Inr (lo, hi, v) \<Longrightarrow> size v < size e"
  by (cases "parseCount e (sx_list e ! 2)")
    (auto simp: parseCardinality_def res_cases Let_def intro: sx_nth_size split: if_splits)

lemma parseCardinality_range:
  "parseCardinality e = Inr (lo, hi, v) \<Longrightarrow> 0 \<le> lo \<and> lo \<le> hi"
  by (auto simp: parseCardinality_def parseCount_def res_cases Let_def
    split: if_splits sum.splits option.splits)

definition cardinality_head :: "sexpr \<Rightarrow> bool" where
  "cardinality_head e \<longleftrightarrow> head e = ''repeat'' \<or> head e = ''between'' \<or> head e = ''optional''"

text \<open>\<open>spanBounds\<close> and \<open>traceBounds\<close>\<close>

definition spanBounds :: "SpanGroup \<Rightarrow> int \<times> int" where
  "spanBounds g = (if sg_exact g then (sg_count g, sg_count g) else (sg_min g, sg_max g))"

definition traceBounds :: "TraceGroup \<Rightarrow> int \<times> int" where
  "traceBounds g = (if tg_exact g then (tg_count g, tg_count g) else (tg_min g, tg_max g))"

definition applySpanCardinality :: "SpanGroup \<Rightarrow> string \<Rightarrow> int \<Rightarrow> int \<Rightarrow> SpanGroup" where
  "applySpanCardinality g cardinality minimum maximum =
     (let (gmin, gmax) = spanBounds g; lo = mul64 minimum gmin; hi = mul64 maximum gmax
      in if sg_alts g = [] then
           let exact = (minimum = maximum \<and> sg_exact g)
           in if exact then SpanGroup lo True lo hi (sg_card g) [] (sg_span g)
              else SpanGroup 0 False lo hi cardinality [] (sg_span g)
         else SpanGroup 0 False lo hi cardinality [g] empty_span)"

definition applyTraceCardinality :: "TraceGroup \<Rightarrow> string \<Rightarrow> int \<Rightarrow> int \<Rightarrow> TraceGroup" where
  "applyTraceCardinality g cardinality minimum maximum =
     (let (gmin, gmax) = traceBounds g; lo = mul64 minimum gmin; hi = mul64 maximum gmax
      in if tg_alts g = [] then
           let exact = (minimum = maximum \<and> tg_exact g)
           in if exact then TraceGroup lo True lo hi (tg_card g) [] (tg_coverage g) (tg_roots g)
              else TraceGroup 0 False lo hi cardinality [] (tg_coverage g) (tg_roots g)
         else TraceGroup 0 False lo hi cardinality [g] [] [])"

text \<open>
  The loop over the alternatives of a one-of keeps the least minimum and the greatest
  maximum; the maximum starts from the zero value of its field.
\<close>

definition addBounds :: "nat \<Rightarrow> int \<times> int \<Rightarrow> int \<times> int \<Rightarrow> int \<times> int" where
  "addBounds n acc b =
     (if n = 1 \<or> fst b < fst acc then fst b else fst acc,
      if snd b > snd acc then snd b else snd acc)"

fun foldBounds :: "nat \<Rightarrow> (int \<times> int) list \<Rightarrow> int \<times> int \<Rightarrow> int \<times> int" where
  "foldBounds n [] acc = acc"
| "foldBounds n (b # bs) acc = foldBounds (Suc n) bs (addBounds (Suc n) acc b)"

definition oneOfSpan :: "SpanGroup list \<Rightarrow> SpanGroup" where
  "oneOfSpan alts =
     (let (lo, hi) = foldBounds 0 (map spanBounds alts) (0, 0)
      in SpanGroup 0 False lo hi ''one_of'' alts empty_span)"

definition oneOfTrace :: "TraceGroup list \<Rightarrow> TraceGroup" where
  "oneOfTrace alts =
     (let (lo, hi) = foldBounds 0 (map traceBounds alts) (0, 0)
      in TraceGroup 0 False lo hi ''one_of'' alts [] [])"

section \<open>Spans\<close>

function parseSpanGroup :: "sexpr \<Rightarrow> SpanGroup result"
  and parseSpanProperty :: "sexpr \<Rightarrow> SpanNode \<Rightarrow> SpanNode result" where
  "parseSpanGroup e =
     (if head e = ''span'' then
        res_bind (res_fold parseSpanProperty (sx_args e) empty_span)
          (\<lambda>span. Inr (SpanGroup 1 True 1 1 [] [] span))
      else if cardinality_head e then
        res_bind (parseCardinality e) (\<lambda>(minimum, maximum, value).
          res_bind (parseSpanGroup value) (\<lambda>group.
            Inr (applySpanCardinality group (head e) minimum maximum)))
      else if head e = ''one-of'' then
        fail_if (length (sx_list e) < 2) (Err ''one-of span requires an alternative'' [])
          (res_bind (res_map parseSpanGroup (sx_args e)) (\<lambda>alts. Inr (oneOfSpan alts)))
      else Inl (Err ''expected span or span cardinality, got %s'' [head e]))"
| "parseSpanProperty p (SpanNode occ scope kind status name http children) =
     (if head p = ''scope'' then Inr (SpanNode occ (secondValue p) kind status name http children)
      else if head p = ''kind'' then Inr (SpanNode occ scope (secondValue p) status name http children)
      else if head p = ''status'' then Inr (SpanNode occ scope kind (secondValue p) name http children)
      else if head p = ''http-status'' then
        Inr (SpanNode occ scope kind status name (secondValue p) children)
      else if head p = ''name'' then
        Inr (if 1 < length (sx_list p)
             then SpanNode occ scope kind status (renderMatcher (sx_list p ! 1)) http children
             else SpanNode occ scope kind status name http children)
      else if head p = ''children'' then
        fail_if (length (sx_list p) \<noteq> 2 \<or> head (sx_list p ! 1) \<noteq> ''unordered'')
          (Err ''span children must be unordered'' [])
          (res_bind (res_map parseSpanGroup (sx_args (sx_list p ! 1)))
            (\<lambda>cs. Inr (SpanNode occ scope kind status name http (children @ cs))))
      else Inr (SpanNode occ scope kind status name http children))"
  by pat_completeness auto
termination
proof (relation "measure (\<lambda>a. case a of Inl e \<Rightarrow> size e | Inr (p, _) \<Rightarrow> size p)")
  fix p x :: sexpr
  assume "\<not> (length (sx_list p) \<noteq> 2 \<or> head (sx_list p ! 1) \<noteq> ''unordered'')"
    "x \<in> set (sx_args (sx_list p ! 1))"
  then have "size x < size (sx_list p ! 1)" "size (sx_list p ! 1) < size p"
    by (auto intro: sx_args_size sx_nth_size)
  then show "(Inl x, Inr (p, SpanNode occ scope kind status name http children))
      \<in> measure (\<lambda>a. case a of Inl e \<Rightarrow> size e | Inr (p, _) \<Rightarrow> size p)"
    for occ scope kind status name http children by simp
qed (auto intro: sx_args_size parseCardinality_size)

declare parseSpanGroup.simps [simp del] parseSpanProperty.simps [simp del]

definition parseSpan :: "sexpr \<Rightarrow> SpanNode result" where
  "parseSpan e = res_fold parseSpanProperty (sx_args e) empty_span"

section \<open>Traces\<close>

text \<open>One property of a trace: the coverage, or the roots (appended).\<close>

definition parseTraceProperty :: "sexpr \<Rightarrow> string \<times> SpanGroup list \<Rightarrow> (string \<times> SpanGroup list) result" where
  "parseTraceProperty p = (\<lambda>(coverage, roots).
     if head p = ''coverage'' then
       fail_if (length (sx_list p) \<noteq> 2) (Err ''invalid coverage expression'' [])
         (Inr (atomValue (sx_list p ! 1), roots))
     else if head p = ''unordered'' then
       res_bind (res_map parseSpanGroup (sx_args p)) (\<lambda>gs. Inr (coverage, roots @ gs))
     else Inr (coverage, roots))"

definition parseTrace :: "sexpr \<Rightarrow> TraceGroup result" where
  "parseTrace e =
     res_bind (res_fold parseTraceProperty (sx_args e) ([], [])) (\<lambda>(coverage, roots).
       fail_if (roots = []) (Err ''trace has no root spans'' [])
         (Inr (TraceGroup 1 False 0 0 [] []
           (if coverage = [] then ''unknown'' else coverage) roots)))"

function parseTraceGroup :: "sexpr \<Rightarrow> TraceGroup result" where
  "parseTraceGroup e =
     (if head e = ''trace'' then
        res_bind (parseTrace e) (\<lambda>t.
          Inr (TraceGroup 1 True 1 1 (tg_card t) (tg_alts t) (tg_coverage t) (tg_roots t)))
      else if cardinality_head e then
        res_bind (parseCardinality e) (\<lambda>(minimum, maximum, value).
          res_bind (parseTraceGroup value) (\<lambda>group.
            Inr (applyTraceCardinality group (head e) minimum maximum)))
      else if head e = ''one-of'' then
        fail_if (length (sx_list e) < 2) (Err ''one-of trace requires an alternative'' [])
          (res_bind (res_map parseTraceGroup (sx_args e)) (\<lambda>alts. Inr (oneOfTrace alts)))
      else Inl (Err ''expected trace or trace cardinality, got %s'' [head e]))"
  by pat_completeness auto
termination
  by (relation "measure size") (auto intro: sx_args_size parseCardinality_size)

declare parseTraceGroup.simps [simp del]

section \<open>The shape of a scenario\<close>

definition bump :: "string \<Rightarrow> int \<Rightarrow> (string, int) gomap \<Rightarrow> (string, int) gomap" where
  "bump k n m = (if k = [] then m else go_put k (add64 (go_get0 0 m k) n) m)"

text \<open>The three updates of the shape in \<open>accumulateSpan\<close>, for the span of the group.\<close>

definition tally_span :: "SpanNode \<Rightarrow> int \<Rightarrow> ScenarioShape \<Rightarrow> ScenarioShape" where
  "tally_span span multiplier shape =
     shape\<lparr>ss_spanCount := add64 (ss_spanCount shape) multiplier,
           ss_scopes := bump (sn_scope span) multiplier (ss_scopes shape),
           ss_statuses := bump (sn_status span) multiplier (ss_statuses shape)\<rparr>"

text \<open>
  \<open>accumulateSpan\<close> updates the shape it is given a pointer to and returns whether the group
  is exact; the updates made before an inexact child is met stay.
\<close>

fun accumulateSpan :: "SpanGroup \<Rightarrow> int \<Rightarrow> ScenarioShape \<Rightarrow> bool \<times> ScenarioShape"
  and accumulateSpans :: "SpanGroup list \<Rightarrow> int \<Rightarrow> ScenarioShape \<Rightarrow> bool \<times> ScenarioShape" where
  "accumulateSpan (SpanGroup n exact lo hi cardinality alts (SpanNode occ scope kind status name http children))
      parentMultiplier shape =
     (if \<not> exact \<or> alts \<noteq> [] then (False, shape)
      else accumulateSpans children (mul64 parentMultiplier n)
             (tally_span (SpanNode occ scope kind status name http children)
               (mul64 parentMultiplier n) shape))"
| "accumulateSpans [] multiplier shape = (True, shape)"
| "accumulateSpans (g # gs) multiplier shape =
     (case accumulateSpan g multiplier shape of
        (False, shape') \<Rightarrow> (False, shape')
      | (True, shape') \<Rightarrow> accumulateSpans gs multiplier shape')"

text \<open>The loop over the traces of an exact shape.\<close>

fun accumulateTraces :: "TraceGroup list \<Rightarrow> ScenarioShape \<Rightarrow> bool \<times> ScenarioShape" where
  "accumulateTraces [] shape = (True, shape)"
| "accumulateTraces (t # ts) shape =
     (case accumulateSpans (tg_roots t) (tg_count t)
         (shape\<lparr>ss_traceCount := add64 (ss_traceCount shape) (tg_count t)\<rparr>) of
        (False, shape') \<Rightarrow> (False, shape')
      | (True, shape') \<Rightarrow> accumulateTraces ts shape')"

definition countShape :: "ScenarioShape \<Rightarrow> ScenarioShape" where
  "countShape shape =
     (let (exact, counted) =
        (if ss_exact shape then accumulateTraces (ss_traces shape) shape else (False, shape))
      in if exact then counted
         else counted\<lparr>ss_exact := False, ss_traceCount := 0, ss_spanCount := 0,
                ss_scopes := [], ss_statuses := []\<rparr>)"

definition ParseScenarioShape :: "string \<Rightarrow> string \<Rightarrow> string \<Rightarrow> string \<Rightarrow> ScenarioShape result" where
  "ParseScenarioShape profile scenario source input =
     res_bind (res_wrap ''%s: %w'' [source] (tokenizeScheme input)) (\<lambda>tokens.
     res_bind (res_wrap ''%s: %w'' [source] (parseScheme tokens)) (\<lambda>forms.
       case findInForms forms ''scenario-shape'' of
         None \<Rightarrow> Inl (Err ''%s: missing scenario-shape definition'' [source])
       | Some value \<Rightarrow>
           fail_if (head value \<noteq> ''traces'')
             (Err ''%s: expected trace shapes must use traces'' [source])
             (res_bind (res_map (\<lambda>item. res_wrap ''%s: %w'' [source] (parseTraceGroup item)) (sx_args value))
               (\<lambda>traces.
                 fail_if (traces = []) (Err ''%s: shape contains no traces'' [source])
                   (Inr (countShape
                     \<lparr>ss_profile = profile, ss_scenario = scenario, ss_source = source,
                      ss_traces = traces, ss_exact = list_all tg_exact traces, ss_traceCount = 0,
                      ss_spanCount = 0, ss_scopes = [], ss_statuses = []\<rparr>))))))"


section \<open>What an authored count means\<close>

text \<open>
  The counts an authored group admits: a span or trace one, a cardinality form any sum of as
  many admitted counts as it allows, a one-of the counts of any alternative.
\<close>

inductive admits :: "string \<Rightarrow> sexpr \<Rightarrow> int \<Rightarrow> bool" for base where
  once: "head e = base \<Longrightarrow> admits base e 1"
| many: "parseCardinality e = Inr (lo, hi, v) \<Longrightarrow> lo \<le> int (length ks) \<Longrightarrow> int (length ks) \<le> hi
    \<Longrightarrow> (\<And>k. k \<in> set ks \<Longrightarrow> admits base v k) \<Longrightarrow> admits base e (sum_list ks)"
| choice: "head e = ''one-of'' \<Longrightarrow> v \<in> set (sx_args e) \<Longrightarrow> admits base v k \<Longrightarrow> admits base e k"

text \<open>The least and the greatest admitted count, in unbounded integers.\<close>

function countRange :: "sexpr \<Rightarrow> int \<times> int" where
  "countRange e =
     (case parseCardinality e of
        Inr (lo, hi, v) \<Rightarrow> (lo * fst (countRange v), hi * snd (countRange v))
      | Inl _ \<Rightarrow>
          if head e = ''one-of'' \<and> sx_args e \<noteq> [] then
            (Min (set (map (\<lambda>x. fst (countRange x)) (sx_args e))),
             Max (set (map (\<lambda>x. snd (countRange x)) (sx_args e))))
          else (1, 1))"
  by pat_completeness auto
termination
  by (relation "measure size") (auto intro: sx_args_size parseCardinality_size)

declare countRange.simps [simp del]

text \<open>No count of the form or of a form inside it exceeds 64 bits.\<close>

function fits :: "sexpr \<Rightarrow> bool" where
  "fits e \<longleftrightarrow> in_i64 (snd (countRange e)) \<and>
     (case parseCardinality e of
        Inr (lo, hi, v) \<Rightarrow> fits v
      | Inl _ \<Rightarrow> head e = ''one-of'' \<longrightarrow> list_all fits (sx_args e))"
  by pat_completeness auto
termination
  by (relation "measure size") (auto intro: sx_args_size parseCardinality_size)

declare fits.simps [simp del]

lemma parseCardinality_head: "parseCardinality e = Inr r \<Longrightarrow> cardinality_head e"
  by (auto simp: parseCardinality_def cardinality_head_def Let_def split: if_splits)

lemma one_of_no_cardinality: "head e = ''one-of'' \<Longrightarrow> parseCardinality e = Inr r \<Longrightarrow> False"
  by (drule parseCardinality_head) (simp add: cardinality_head_def)

lemma foldBounds_Suc:
  "foldBounds (Suc n) bs acc = (fold min (map fst bs) (fst acc), fold max (map snd bs) (snd acc))"
  by (induction bs arbitrary: n acc) (auto simp: addBounds_def min_def max_def)

lemma foldBounds_Min_Max:
  assumes "bs \<noteq> []" "\<And>b. b \<in> set bs \<Longrightarrow> 0 \<le> snd b"
  shows "foldBounds 0 bs (0, 0) = (Min (set (map fst bs)), Max (set (map snd bs)))"
proof -
  obtain b cs where bs: "bs = b # cs" using assms(1) by (cases bs) auto
  with assms(2) have "addBounds (Suc 0) (0, 0) b = b"
    by (fastforce simp: addBounds_def prod_eq_iff)
  with bs show ?thesis
    by (simp only: foldBounds.simps(2) foldBounds_Suc list.map(2) Min.set_eq_fold Max.set_eq_fold)
qed

subsection \<open>The readers of groups\<close>

text \<open>
  \<open>parseSpanGroup\<close> and \<open>parseTraceGroup\<close> treat cardinalities alike. What the shared lemmas
  need of such a reader is the interface below.
\<close>

locale group_reader =
  fixes parse :: "sexpr \<Rightarrow> 'g result"
    and bounds :: "'g \<Rightarrow> int \<times> int"
    and base :: string
    and apply_card :: "'g \<Rightarrow> string \<Rightarrow> int \<Rightarrow> int \<Rightarrow> 'g"
    and one_of :: "'g list \<Rightarrow> 'g"
  assumes base_head: "base \<notin> {''repeat'', ''between'', ''optional'', ''one-of''}"
    and parse_base: "parse e = Inr g \<Longrightarrow> head e = base \<Longrightarrow> bounds g = (1, 1)"
    and parse_card: "parse e = Inr g \<Longrightarrow> cardinality_head e \<Longrightarrow>
      \<exists>lo hi v h. parseCardinality e = Inr (lo, hi, v) \<and> parse v = Inr h
        \<and> g = apply_card h (head e) lo hi"
    and parse_one_of: "parse e = Inr g \<Longrightarrow> head e = ''one-of'' \<Longrightarrow>
      \<exists>alts. alts \<noteq> [] \<and> list_all2 (\<lambda>x y. parse x = Inr y) (sx_args e) alts \<and> g = one_of alts"
    and parse_head: "parse e = Inr g \<Longrightarrow> head e = base \<or> cardinality_head e \<or> head e = ''one-of''"
    and bounds_apply: "bounds (apply_card h c lo hi) = (mul64 lo (fst (bounds h)), mul64 hi (snd (bounds h)))"
    and bounds_one_of: "bounds (one_of alts) = foldBounds 0 (map bounds alts) (0, 0)"
begin

lemma base_no_cardinality: "head e = base \<Longrightarrow> parseCardinality e = Inr r \<Longrightarrow> False"
  using base_head by (auto dest: parseCardinality_head simp: cardinality_head_def)

lemma range_base: "head e = base \<Longrightarrow> countRange e = (1, 1)"
  using base_head base_no_cardinality
  by (subst countRange.simps) (auto split: sum.splits)

lemma range_one_of:
  "head e = ''one-of'' \<Longrightarrow> sx_args e \<noteq> [] \<Longrightarrow>
    countRange e = (Min (set (map (\<lambda>x. fst (countRange x)) (sx_args e))),
      Max (set (map (\<lambda>x. snd (countRange x)) (sx_args e))))"
  by (subst countRange.simps) (auto split: sum.splits dest: one_of_no_cardinality)

lemma range_card:
  "parseCardinality e = Inr (lo, hi, v) \<Longrightarrow>
    countRange e = (lo * fst (countRange v), hi * snd (countRange v))"
  by (subst countRange.simps) simp

lemma read_induct [consumes 1, case_names base card one_of]:
  assumes run: "parse e = Inr g"
    and base: "\<And>e g. parse e = Inr g \<Longrightarrow> head e = base \<Longrightarrow> P e g"
    and card: "\<And>e lo hi v h. parse e = Inr (apply_card h (head e) lo hi) \<Longrightarrow>
      parseCardinality e = Inr (lo, hi, v) \<Longrightarrow> parse v = Inr h \<Longrightarrow> P v h
      \<Longrightarrow> P e (apply_card h (head e) lo hi)"
    and one_of: "\<And>e alts. parse e = Inr (one_of alts) \<Longrightarrow> head e = ''one-of'' \<Longrightarrow> alts \<noteq> [] \<Longrightarrow>
      list_all2 (\<lambda>x y. parse x = Inr y \<and> P x y) (sx_args e) alts \<Longrightarrow> P e (one_of alts)"
  shows "P e g"
  using run
proof (induction e arbitrary: g rule: measure_induct_rule [of size])
  case (less e)
  consider "head e = base" | "cardinality_head e" | "head e = ''one-of''"
    using parse_head [OF less.prems] by blast
  then show ?case
  proof cases
    case 1
    with less.prems show ?thesis by (rule base)
  next
    case 2
    from parse_card [OF less.prems 2] obtain lo hi v h where c: "parseCardinality e = Inr (lo, hi, v)"
      "parse v = Inr h" and g: "g = apply_card h (head e) lo hi" by blast
    have "P v h" using less.IH c parseCardinality_size by blast
    with c less.prems show ?thesis unfolding g by (intro card)
  next
    case 3
    from parse_one_of [OF less.prems 3] obtain alts where a: "alts \<noteq> []"
      "list_all2 (\<lambda>x y. parse x = Inr y) (sx_args e) alts" and g: "g = one_of alts" by blast
    have "list_all2 (\<lambda>x y. parse x = Inr y \<and> P x y) (sx_args e) alts"
      using a(2) by (rule list.rel_mono_strong) (auto intro: less.IH sx_args_size)
    with a 3 less.prems show ?thesis unfolding g by (intro one_of)
  qed
qed

lemma args_not_Nil: "list_all2 R (sx_args e) alts \<Longrightarrow> alts \<noteq> [] \<Longrightarrow> sx_args e \<noteq> []"
  by auto

lemma range_ordered: "parse e = Inr g \<Longrightarrow> 0 \<le> fst (countRange e) \<and> fst (countRange e) \<le> snd (countRange e)"
proof (induction rule: read_induct)
  case (base e g)
  then show ?case by (simp add: range_base)
next
  case (card e lo hi v h)
  then have "0 \<le> lo" "lo \<le> hi" using parseCardinality_range by blast+
  with card show ?case by (auto simp: range_card intro: mult_mono)
next
  case (one_of e alts)
  then have ne: "sx_args e \<noteq> []" by (intro args_not_Nil)
  have r: "0 \<le> fst (countRange x)" "fst (countRange x) \<le> snd (countRange x)" if "x \<in> set (sx_args e)" for x
    using one_of(4) that by (auto simp: list_all2_conv_all_nth in_set_conv_nth)
  obtain x where x: "x \<in> set (sx_args e)" using ne by (cases "sx_args e") auto
  have "Min (fst ` countRange ` set (sx_args e)) \<le> fst (countRange x)"
    "snd (countRange x) \<le> Max (snd ` countRange ` set (sx_args e))"
    using x by (auto intro: Min_le Max_ge)
  with r [OF x] r ne show ?case by (auto simp: range_one_of [OF one_of(2) ne] image_image)
qed

text \<open>The range is the hull of the admitted counts: both ends are admitted, nothing is outside.\<close>

lemma range_admitted:
  "parse e = Inr g \<Longrightarrow> admits base e (fst (countRange e)) \<and> admits base e (snd (countRange e))"
proof (induction rule: read_induct)
  case (base e g)
  then show ?case by (simp add: range_base admits.once)
next
  case (card e lo hi v h)
  have le: "0 \<le> lo" "lo \<le> hi" using parseCardinality_range card(2) by blast+
  have "admits base e (sum_list (replicate (nat lo) (fst (countRange v))))"
    "admits base e (sum_list (replicate (nat hi) (snd (countRange v))))"
    using card le by (auto intro!: admits.many [OF card(2)])
  with le card(2) show ?case by (simp add: range_card sum_list_replicate)
next
  case (one_of e alts)
  then have ne: "sx_args e \<noteq> []" by (intro args_not_Nil)
  have a: "admits base x (fst (countRange x))" "admits base x (snd (countRange x))"
    if "x \<in> set (sx_args e)" for x
    using one_of(4) that by (auto simp: list_all2_conv_all_nth in_set_conv_nth)
  have "Min (set (map (\<lambda>x. fst (countRange x)) (sx_args e))) \<in> set (map (\<lambda>x. fst (countRange x)) (sx_args e))"
    "Max (set (map (\<lambda>x. snd (countRange x)) (sx_args e))) \<in> set (map (\<lambda>x. snd (countRange x)) (sx_args e))"
    using ne by (auto intro!: Min_in Max_in simp del: set_map)
  with a one_of(2) show ?case
    by (fastforce simp: range_one_of [OF one_of(2) ne] intro: admits.choice)
qed

lemma sum_list_bounds:
  fixes ks :: "int list"
  assumes "\<And>k. k \<in> set ks \<Longrightarrow> a \<le> k \<and> k \<le> b"
  shows "int (length ks) * a \<le> sum_list ks \<and> sum_list ks \<le> int (length ks) * b"
  using assms by (induction ks) (force simp: algebra_simps)+

lemma admits_one_of:
  assumes "admits base e k" "head e = ''one-of''"
  obtains v where "v \<in> set (sx_args e)" "admits base v k"
  using assms(1)
proof cases
  case once
  with assms(2) base_head show ?thesis by auto
next
  case (many lo hi v ks)
  with assms(2) one_of_no_cardinality show ?thesis by blast
qed (rule that)

lemma admitted_in_range:
  "parse e = Inr g \<Longrightarrow> admits base e k \<Longrightarrow> fst (countRange e) \<le> k \<and> k \<le> snd (countRange e)"
proof (induction arbitrary: k rule: read_induct)
  case (base e g)
  then show ?case using base_no_cardinality base_head
    by (auto simp: range_base elim!: admits.cases)
next
  case (card e lo hi v h)
  have no: "head e \<noteq> base" "head e \<noteq> ''one-of''"
    using card(2) base_no_cardinality one_of_no_cardinality by blast+
  from card.prems no card(2) obtain ks where ks: "k = sum_list ks" "lo \<le> int (length ks)"
    "int (length ks) \<le> hi" "\<And>k. k \<in> set ks \<Longrightarrow> admits base v k"
    by (auto elim!: admits.cases)
  have "int (length ks) * fst (countRange v) \<le> k \<and> k \<le> int (length ks) * snd (countRange v)"
    unfolding ks(1) using card.IH ks(4) by (intro sum_list_bounds) auto
  moreover have "lo * fst (countRange v) \<le> int (length ks) * fst (countRange v)"
    "int (length ks) * snd (countRange v) \<le> hi * snd (countRange v)"
    using range_ordered [OF card(3)] ks(2,3) by (auto intro: mult_right_mono)
  ultimately show ?case by (simp add: range_card [OF card(2)])
next
  case (one_of e alts)
  then have ne: "sx_args e \<noteq> []" by (intro args_not_Nil)
  obtain v where v: "v \<in> set (sx_args e)" "admits base v k"
    using admits_one_of one_of.prems one_of(2) by blast
  then have "fst (countRange v) \<le> k \<and> k \<le> snd (countRange v)"
    using one_of(4) by (auto simp: list_all2_conv_all_nth in_set_conv_nth)
  moreover have "Min (set (map (\<lambda>x. fst (countRange x)) (sx_args e))) \<le> fst (countRange v)"
    "snd (countRange v) \<le> Max (set (map (\<lambda>x. snd (countRange x)) (sx_args e)))"
    using v(1) by (auto intro: Min_le Max_ge)
  ultimately show ?case unfolding range_one_of [OF one_of(2) ne] fst_conv snd_conv
    by (blast intro: order_trans)
qed

text \<open>While no count exceeds 64 bits, the reader's bounds are the range.\<close>

lemma bounds_range: "parse e = Inr g \<Longrightarrow> fits e \<Longrightarrow> bounds g = countRange e"
proof (induction rule: read_induct)
  case (base e g)
  then show ?case by (simp add: range_base parse_base)
next
  case (card e lo hi v h)
  then have f: "in_i64 (snd (countRange e))" "fits v" by (auto simp: fits.simps [of e])
  have "in_i64 (fst (countRange e))"
    using f(1) range_ordered [OF card(1)] by (auto simp: in_i64_def)
  with f card show ?case by (simp add: bounds_apply mul64_id range_card)
next
  case (one_of e alts)
  then have ne: "sx_args e \<noteq> []" by (intro args_not_Nil)
  have "list_all fits (sx_args e)"
    using one_of(2) one_of.prems one_of_no_cardinality
    by (auto simp: fits.simps [of e] split: sum.splits)
  then have eq: "map bounds alts = map countRange (sx_args e)"
    using one_of(4) by (auto simp: list_all2_conv_all_nth list_all_length intro!: nth_equalityI)
  have "0 \<le> snd b" if "b \<in> set (map bounds alts)" for b
    using that one_of(4) range_ordered unfolding eq
    by (fastforce simp: list_all2_conv_all_nth in_set_conv_nth)
  then have "bounds (one_of alts) =
      (Min (set (map fst (map bounds alts))), Max (set (map snd (map bounds alts))))"
    using one_of(3) unfolding bounds_one_of by (intro foldBounds_Min_Max) auto
  then show ?case unfolding eq range_one_of [OF one_of(2) ne] by (simp add: comp_def image_image)
qed

lemma bounds_tight:
  assumes "parse e = Inr g" "fits e" "bounds g = (lo, hi)"
  shows "admits base e lo \<and> admits base e hi \<and> (\<forall>k. admits base e k \<longrightarrow> lo \<le> k \<and> k \<le> hi)"
proof -
  have "fst (countRange e) = lo" "snd (countRange e) = hi"
    using bounds_range [OF assms(1,2)] assms(3) by (metis fst_conv, metis snd_conv)
  then show ?thesis using range_admitted [OF assms(1)] admitted_in_range [OF assms(1)] by auto
qed

end

interpretation span_reader: group_reader parseSpanGroup spanBounds "''span''" applySpanCardinality oneOfSpan
proof
  fix e g
  assume p: "parseSpanGroup e = Inr g"
  show "head e = ''span'' \<Longrightarrow> spanBounds g = (1, 1)"
    using p by (auto simp: parseSpanGroup.simps [of e] res_cases spanBounds_def)
  show "cardinality_head e \<Longrightarrow> \<exists>lo hi v h. parseCardinality e = Inr (lo, hi, v) \<and> parseSpanGroup v = Inr h
      \<and> g = applySpanCardinality h (head e) lo hi"
    using p by (auto simp: parseSpanGroup.simps [of e] res_cases cardinality_head_def)
  show "\<exists>alts. alts \<noteq> [] \<and> list_all2 (\<lambda>x y. parseSpanGroup x = Inr y) (sx_args e) alts
      \<and> g = oneOfSpan alts" if h: "head e = ''one-of''"
  proof -
    from p h obtain alts where alts: "res_map parseSpanGroup (sx_args e) = Inr alts" "g = oneOfSpan alts"
      and len: "\<not> length (sx_list e) < 2"
      by (auto simp: parseSpanGroup.simps [of e] res_cases cardinality_head_def)
    from res_map_length [OF alts(1)] len have "alts \<noteq> []" by auto
    with alts show ?thesis by (auto simp: res_map_Inr_iff)
  qed
  show "head e = ''span'' \<or> cardinality_head e \<or> head e = ''one-of''"
    using p by (auto simp: parseSpanGroup.simps [of e] split: if_splits)
next
  show "spanBounds (applySpanCardinality h c lo hi)
      = (mul64 lo (fst (spanBounds h)), mul64 hi (snd (spanBounds h)))" for h c lo hi
    by (auto simp: applySpanCardinality_def spanBounds_def Let_def)
  show "spanBounds (oneOfSpan alts) = foldBounds 0 (map spanBounds alts) (0, 0)" for alts
    by (simp add: oneOfSpan_def spanBounds_def split: prod.split)
qed simp

interpretation trace_reader: group_reader parseTraceGroup traceBounds "''trace''" applyTraceCardinality oneOfTrace
proof
  fix e g
  assume p: "parseTraceGroup e = Inr g"
  show "head e = ''trace'' \<Longrightarrow> traceBounds g = (1, 1)"
    using p by (auto simp: parseTraceGroup.simps [of e] res_cases traceBounds_def)
  show "cardinality_head e \<Longrightarrow> \<exists>lo hi v h. parseCardinality e = Inr (lo, hi, v) \<and> parseTraceGroup v = Inr h
      \<and> g = applyTraceCardinality h (head e) lo hi"
    using p by (auto simp: parseTraceGroup.simps [of e] res_cases cardinality_head_def)
  show "\<exists>alts. alts \<noteq> [] \<and> list_all2 (\<lambda>x y. parseTraceGroup x = Inr y) (sx_args e) alts
      \<and> g = oneOfTrace alts" if h: "head e = ''one-of''"
  proof -
    from p h obtain alts where alts: "res_map parseTraceGroup (sx_args e) = Inr alts" "g = oneOfTrace alts"
      and len: "\<not> length (sx_list e) < 2"
      by (auto simp: parseTraceGroup.simps [of e] res_cases cardinality_head_def)
    from res_map_length [OF alts(1)] len have "alts \<noteq> []" by auto
    with alts show ?thesis by (auto simp: res_map_Inr_iff)
  qed
  show "head e = ''trace'' \<or> cardinality_head e \<or> head e = ''one-of''"
    using p by (auto simp: parseTraceGroup.simps [of e] split: if_splits)
next
  show "traceBounds (applyTraceCardinality h c lo hi)
      = (mul64 lo (fst (traceBounds h)), mul64 hi (snd (traceBounds h)))" for h c lo hi
    by (auto simp: applyTraceCardinality_def traceBounds_def Let_def)
  show "traceBounds (oneOfTrace alts) = foldBounds 0 (map traceBounds alts) (0, 0)" for alts
    by (simp add: oneOfTrace_def traceBounds_def split: prod.split)
qed simp

subsection \<open>Totals of an exact shape\<close>

text \<open>The spans an exact group stands for: every repetition written out.\<close>

fun expandSpan :: "SpanGroup \<Rightarrow> SpanNode list" where
  "expandSpan (SpanGroup n exact lo hi cardinality alts (SpanNode occ scope kind status name http children)) =
     concat (replicate (nat n)
       (SpanNode occ scope kind status name http children # concat (map expandSpan children)))"

definition expandTrace :: "TraceGroup \<Rightarrow> SpanNode list list" where
  "expandTrace t = replicate (nat (tg_count t)) (concat (map expandSpan (tg_roots t)))"

text \<open>Every group inside is exact; no count inside is negative.\<close>

fun exact_span :: "SpanGroup \<Rightarrow> bool" where
  "exact_span (SpanGroup n exact lo hi cardinality alts (SpanNode occ scope kind status name http children)) \<longleftrightarrow>
     exact \<and> alts = [] \<and> list_all exact_span children"

fun counted_span :: "SpanGroup \<Rightarrow> bool" where
  "counted_span (SpanGroup n exact lo hi cardinality alts (SpanNode occ scope kind status name http children)) \<longleftrightarrow>
     0 \<le> n \<and> list_all counted_span children"

definition counted_trace :: "TraceGroup \<Rightarrow> bool" where
  "counted_trace t \<longleftrightarrow> 0 \<le> tg_count t \<and> list_all counted_span (tg_roots t)"

abbreviation tally :: "('a \<Rightarrow> bool) \<Rightarrow> 'a list \<Rightarrow> int" where
  "tally P xs \<equiv> int (length (filter P xs))"

lemma tally_replicate: "0 \<le> n \<Longrightarrow> tally P (concat (replicate (nat n) xs)) = n * tally P xs"
proof -
  have "length (filter P (concat (replicate m xs))) = m * length (filter P xs)" for m
    by (induction m) auto
  then show "0 \<le> n \<Longrightarrow> ?thesis" by simp
qed

lemma accumulateSpan_exact:
  "fst (accumulateSpan g m shape) = exact_span g"
  "fst (accumulateSpans gs m shape) = list_all exact_span gs"
  by (induction g m shape and gs m shape rule: accumulateSpan_accumulateSpans.induct)
    (auto split: prod.splits bool.splits)

text \<open>
  A total kept by \<open>accumulateSpan\<close>: all spans, the spans of a scope, or those with a status.
  The interface is one field of the shape and the spans it counts.
\<close>

locale meter =
  fixes total :: "ScenarioShape \<Rightarrow> int"
    and P :: "SpanNode \<Rightarrow> bool"
  assumes total_tally: "total (tally_span span m shape) =
      (if P span then add64 (total shape) m else total shape)"
    and total_trace: "total (shape\<lparr>ss_traceCount := c\<rparr>) = total shape"
begin

lemma total_span:
  "\<lbrakk>exact_span g; counted_span g\<rbrakk> \<Longrightarrow>
    i64 (total (snd (accumulateSpan g m shape))) = i64 (total shape + m * tally P (expandSpan g))"
  "\<lbrakk>list_all exact_span gs; list_all counted_span gs\<rbrakk> \<Longrightarrow>
    i64 (total (snd (accumulateSpans gs m shape)))
      = i64 (total shape + m * tally P (concat (map expandSpan gs)))"
proof (induction g m shape and gs m shape rule: accumulateSpan_accumulateSpans.induct)
  case (1 n exact lo hi cardinality alts occ scope kind status name http children m shape)
  let ?node = "SpanNode occ scope kind status name http children"
  let ?k = "tally P (concat (map expandSpan children))"
  from 1 have "i64 (total (snd (accumulateSpans children (mul64 m n) (tally_span ?node (mul64 m n) shape))))
      = i64 (total (tally_span ?node (mul64 m n) shape) + mul64 m n * ?k)" by simp
  also have "\<dots> = i64 (total shape + m * (n * ((if P ?node then 1 else 0) + ?k)))"
    using i64_add_mult [of "i64 (total shape + i64 (m * n))" "m * n" ?k]
      i64_add_left [of "total shape + i64 (m * n)" "m * n * ?k"]
      i64_add_right [of "total shape + m * n * ?k" "m * n"] i64_add_mult [of "total shape" "m * n" ?k]
    by (simp add: total_tally mul64_def add64_def algebra_simps)
  also have "n * ((if P ?node then 1 else 0) + ?k) =
      tally P (expandSpan (SpanGroup n exact lo hi cardinality alts ?node))"
    using 1 by (simp add: tally_replicate)
  finally show ?case using 1 by (simp add: mult.assoc)
next
  case (3 g gs m shape)
  obtain shape' where s: "accumulateSpan g m shape = (True, shape')"
    using accumulateSpan_exact(1) [of g m shape] 3 by (cases "accumulateSpan g m shape") auto
  have first: "i64 (total shape') = i64 (total shape + m * tally P (expandSpan g))"
    using 3 s by simp
  have "i64 (total (snd (accumulateSpans gs m shape')))
      = i64 (total shape' + m * tally P (concat (map expandSpan gs)))"
    using 3 s by simp
  then show ?case using s i64_plus_cong [OF first, of "m * tally P (concat (map expandSpan gs))"]
    by (simp add: algebra_simps)
qed simp

lemma total_traces:
  "\<lbrakk>list_all (\<lambda>t. list_all exact_span (tg_roots t)) ts; list_all counted_trace ts\<rbrakk> \<Longrightarrow>
    i64 (total (snd (accumulateTraces ts shape)))
      = i64 (total shape + tally P (concat (concat (map expandTrace ts))))"
proof (induction ts arbitrary: shape)
  case (Cons t ts)
  let ?roots = "concat (map expandSpan (tg_roots t))"
  let ?start = "shape\<lparr>ss_traceCount := add64 (ss_traceCount shape) (tg_count t)\<rparr>"
  obtain shape' where s: "accumulateSpans (tg_roots t) (tg_count t) ?start = (True, shape')"
    using accumulateSpan_exact(2) [of "tg_roots t" "tg_count t" ?start] Cons.prems
    by (cases "accumulateSpans (tg_roots t) (tg_count t) ?start") auto
  have first: "i64 (total shape') = i64 (total shape + tg_count t * tally P ?roots)"
    using total_span(2) [of "tg_roots t" "tg_count t" ?start] Cons.prems s
    by (simp add: counted_trace_def total_trace)
  have "tg_count t * tally P ?roots = tally P (concat (expandTrace t))"
    using Cons.prems by (simp add: expandTrace_def counted_trace_def tally_replicate)
  moreover have "i64 (total (snd (accumulateTraces ts shape')))
      = i64 (total shape' + tally P (concat (concat (map expandTrace ts))))"
    using Cons by simp
  ultimately show ?case
    using s i64_plus_cong [OF first, of "tally P (concat (concat (map expandTrace ts)))"]
    by (simp add: algebra_simps)
qed simp

lemma total_range:
  "in_i64 (total shape) \<Longrightarrow> in_i64 (total (snd (accumulateSpan g m shape)))"
  "in_i64 (total shape) \<Longrightarrow> in_i64 (total (snd (accumulateSpans gs m shape)))"
  by (induction g m shape and gs m shape rule: accumulateSpan_accumulateSpans.induct)
    (auto simp: total_tally add64_def i64_range split: prod.splits bool.splits)

lemma total_traces_range:
  "in_i64 (total shape) \<Longrightarrow> in_i64 (total (snd (accumulateTraces ts shape)))"
proof (induction ts arbitrary: shape)
  case (Cons t ts)
  let ?start = "shape\<lparr>ss_traceCount := add64 (ss_traceCount shape) (tg_count t)\<rparr>"
  from Cons.prems have "in_i64 (total (snd (accumulateSpans (tg_roots t) (tg_count t) ?start)))"
    by (intro total_range) (simp add: total_trace)
  then show ?case by (auto simp: Cons.IH split: prod.splits bool.splits)
qed simp

text \<open>A total that starts at zero ends as the number of expanded spans it counts.\<close>

lemma total_from_zero:
  assumes "list_all (\<lambda>t. list_all exact_span (tg_roots t)) ts" "list_all counted_trace ts" "total shape = 0"
  shows "total (snd (accumulateTraces ts shape)) = i64 (tally P (concat (concat (map expandTrace ts))))"
proof -
  have "in_i64 (total (snd (accumulateTraces ts shape)))"
    using assms(3) by (intro total_traces_range) (simp add: in_i64_def)
  with total_traces [OF assms(1,2), of shape] assms(3) show ?thesis by (simp add: i64_id)
qed

end

interpretation span_meter: meter ss_spanCount "\<lambda>_. True"
  by unfold_locales (auto simp: tally_span_def)

interpretation scope_meter: meter "\<lambda>shape. go_get0 0 (ss_scopes shape) k" "\<lambda>span. k \<noteq> [] \<and> sn_scope span = k" for k
  by unfold_locales (auto simp: tally_span_def bump_def)

interpretation status_meter: meter "\<lambda>shape. go_get0 0 (ss_statuses shape) k" "\<lambda>span. k \<noteq> [] \<and> sn_status span = k" for k
  by unfold_locales (auto simp: tally_span_def bump_def)

lemma accumulateSpan_keeps:
  "ss_traceCount (snd (accumulateSpan g m shape)) = ss_traceCount shape \<and>
   ss_traces (snd (accumulateSpan g m shape)) = ss_traces shape \<and>
   ss_exact (snd (accumulateSpan g m shape)) = ss_exact shape"
  "ss_traceCount (snd (accumulateSpans gs m shape)) = ss_traceCount shape \<and>
   ss_traces (snd (accumulateSpans gs m shape)) = ss_traces shape \<and>
   ss_exact (snd (accumulateSpans gs m shape)) = ss_exact shape"
  by (induction g m shape and gs m shape rule: accumulateSpan_accumulateSpans.induct)
    (auto simp: tally_span_def split: prod.splits bool.splits)

lemma accumulateTraces_keeps:
  "ss_traces (snd (accumulateTraces ts shape)) = ss_traces shape \<and>
   ss_exact (snd (accumulateTraces ts shape)) = ss_exact shape"
proof (induction ts arbitrary: shape)
  case (Cons t ts)
  let ?start = "shape\<lparr>ss_traceCount := add64 (ss_traceCount shape) (tg_count t)\<rparr>"
  show ?case
    using Cons.IH accumulateSpan_keeps(2) [where gs = "tg_roots t" and m = "tg_count t" and shape = ?start]
    by (cases "accumulateSpans (tg_roots t) (tg_count t) ?start") (simp split: bool.split)
qed simp

lemma accumulateTraces_exact:
  "fst (accumulateTraces ts shape) = list_all (\<lambda>t. list_all exact_span (tg_roots t)) ts"
proof (induction ts arbitrary: shape)
  case (Cons t ts)
  let ?start = "shape\<lparr>ss_traceCount := add64 (ss_traceCount shape) (tg_count t)\<rparr>"
  show ?case
    using Cons.IH accumulateSpan_exact(2) [of "tg_roots t" "tg_count t" ?start]
    by (auto split: prod.splits bool.splits)
qed simp

lemma traceCount_traces:
  "\<lbrakk>list_all (\<lambda>t. list_all exact_span (tg_roots t)) ts; list_all counted_trace ts; in_i64 (ss_traceCount shape)\<rbrakk>
    \<Longrightarrow> ss_traceCount (snd (accumulateTraces ts shape))
        = i64 (ss_traceCount shape + int (length (concat (map expandTrace ts))))"
proof (induction ts arbitrary: shape)
  case Nil
  then show ?case by (simp add: i64_id)
next
  case (Cons t ts)
  let ?start = "shape\<lparr>ss_traceCount := add64 (ss_traceCount shape) (tg_count t)\<rparr>"
  obtain shape' where s: "accumulateSpans (tg_roots t) (tg_count t) ?start = (True, shape')"
    using accumulateSpan_exact(2) [of "tg_roots t" "tg_count t" ?start] Cons.prems
    by (cases "accumulateSpans (tg_roots t) (tg_count t) ?start") auto
  have tc: "ss_traceCount shape' = add64 (ss_traceCount shape) (tg_count t)"
    using accumulateSpan_keeps(2) [where gs = "tg_roots t" and m = "tg_count t" and shape = ?start] s by simp
  have "in_i64 (ss_traceCount shape')" by (simp add: tc add64_def i64_range)
  with Cons.IH [of shape'] Cons.prems
  have "ss_traceCount (snd (accumulateTraces ts shape'))
      = i64 (ss_traceCount shape' + int (length (concat (map expandTrace ts))))" by simp
  moreover have "int (length (expandTrace t)) = tg_count t"
    using Cons.prems by (simp add: expandTrace_def counted_trace_def)
  ultimately show ?case
    using s by (simp add: tc add64_def i64_cong algebra_simps)
qed

lemma countShape_cases:
  assumes "countShape shape = counted"
  shows "ss_traces counted = ss_traces shape \<and>
    (if ss_exact shape \<and> list_all (\<lambda>t. list_all exact_span (tg_roots t)) (ss_traces shape)
     then ss_exact counted \<and> counted = snd (accumulateTraces (ss_traces shape) shape)
     else \<not> ss_exact counted \<and> ss_traceCount counted = 0 \<and> ss_spanCount counted = 0
       \<and> ss_scopes counted = [] \<and> ss_statuses counted = [])"
proof (cases "ss_exact shape")
  case True
  obtain b s where run: "accumulateTraces (ss_traces shape) shape = (b, s)" by fastforce
  have "b = list_all (\<lambda>t. list_all exact_span (tg_roots t)) (ss_traces shape)"
    "ss_traces s = ss_traces shape" "ss_exact s"
    using accumulateTraces_exact [of "ss_traces shape" shape]
      accumulateTraces_keeps [of "ss_traces shape" shape] run True by simp_all
  with assms True run show ?thesis by (cases b) (auto simp: countShape_def)
next
  case False
  with assms show ?thesis by (auto simp: countShape_def)
qed

lemma ParseScenarioShape_cases:
  assumes "ParseScenarioShape profile scenario source input = Inr shape"
  obtains tokens forms "value" traces where
    "tokenizeScheme input = Inr tokens" "parseScheme tokens = Inr forms"
    "findInForms forms ''scenario-shape'' = Some value" "head value = ''traces''"
    "list_all2 (\<lambda>e t. parseTraceGroup e = Inr t) (sx_args value) traces" "traces \<noteq> []"
    "shape = countShape
      \<lparr>ss_profile = profile, ss_scenario = scenario, ss_source = source, ss_traces = traces,
       ss_exact = list_all tg_exact traces, ss_traceCount = 0, ss_spanCount = 0,
       ss_scopes = [], ss_statuses = []\<rparr>"
  using assms unfolding ParseScenarioShape_def
  by (auto simp: res_cases res_map_Inr_iff split: option.splits)

text \<open>The totals of a shape are those of its traces written out.\<close>

definition totals_written_out :: "ScenarioShape \<Rightarrow> bool" where
  "totals_written_out shape \<longleftrightarrow>
     (let traces = concat (map expandTrace (ss_traces shape)); spans = concat traces
      in ss_traceCount shape = i64 (int (length traces)) \<and>
         ss_spanCount shape = i64 (int (length spans)) \<and>
         (\<forall>k. go_get0 0 (ss_scopes shape) k = i64 (tally (\<lambda>span. k \<noteq> [] \<and> sn_scope span = k) spans)) \<and>
         (\<forall>k. go_get0 0 (ss_statuses shape) k = i64 (tally (\<lambda>span. k \<noteq> [] \<and> sn_status span = k) spans)))"

text \<open>Concrete groups and a concrete shape for the witnesses.\<close>

definition ex_span_group :: sexpr where
  "ex_span_group = mk_list [mk_atom ''one-of'',
     mk_list [mk_atom ''repeat'', mk_atom ''3'', mk_list [mk_atom ''span'']],
     mk_list [mk_atom ''optional'', mk_list [mk_atom ''span'']]]"

definition ex_trace_group :: sexpr where
  "ex_trace_group = mk_list [mk_atom ''between'', mk_atom ''2'', mk_atom ''5'',
     mk_list [mk_atom ''trace'', mk_list [mk_atom ''unordered'', mk_list [mk_atom ''span'']]]]"

definition ex_shape :: sexpr where
  "ex_shape = mk_list [mk_atom ''define'', mk_atom ''scenario-shape'', mk_list [mk_atom ''traces'',
     mk_list [mk_atom ''repeat'', mk_atom ''2'', mk_list [mk_atom ''trace'', mk_list [mk_atom ''unordered'',
       mk_list [mk_atom ''span'', mk_list [mk_atom ''scope'', mk_atom ''web''],
         mk_list [mk_atom ''children'', mk_list [mk_atom ''unordered'',
           mk_list [mk_atom ''repeat'', mk_atom ''3'', mk_list [mk_atom ''span'',
             mk_list [mk_atom ''scope'', mk_atom ''db'']]]]]]]]]]]"

lemma ex_shape_reads:
  "\<exists>shape. ParseScenarioShape ''p'' ''s'' ''f.scm'' (printScheme [ex_shape]) = Inr shape \<and> ss_exact shape
     \<and> list_all counted_trace (ss_traces shape) \<and> ss_spanCount shape = 8"
proof -
  have "list_all wf_form [ex_shape]"
    by (simp add: ex_shape_def token_ok_def utf8_valid_ascii ends_atom_def is_space_def delimiter_def
      delimiter_atom_def)
  then have "parseSource (printScheme [ex_shape]) = Inr [ex_shape]" by (rule parse_print)
  then obtain tokens where t: "tokenizeScheme (printScheme [ex_shape]) = Inr tokens"
    "parseScheme tokens = Inr [ex_shape]" by (auto simp: parseSource_def res_cases)
  have f: "findInForms [ex_shape] ''scenario-shape'' = Some (sx_list ex_shape ! 2)"
    "head (sx_list ex_shape ! 2) = ''traces''"
    by code_simp+
  let ?ts = "[TraceGroup 2 True 2 2 [] [] ''unknown'' [SpanGroup 1 True 1 1 [] []
    (SpanNode [] ''web'' [] [] [] [] [SpanGroup 3 True 3 3 [] [] (SpanNode [] ''db'' [] [] [] [] [])])]]"
  have ts: "res_map (\<lambda>item. res_wrap ''%s: %w'' [''f.scm''] (parseTraceGroup item))
      (sx_args (sx_list ex_shape ! 2)) = Inr ?ts"
    by code_simp
  show ?thesis
    by (simp add: ParseScenarioShape_def t f ts del: findInForms.simps)
      (simp add: countShape_def counted_trace_def tally_span_def bump_def mul64_def add64_def i64_def)
qed

section \<open>Properties\<close>

text \<open>
  The count bounds the reader computes for a span group are exact: for a form none of
  whose counts exceeds 64 bits, the lower and the upper bound are counts the form admits
  and no admitted count lies outside them.
\<close>

theorem span_bounds_tight:
  assumes "parseSpanGroup e = Inr g" "fits e" "spanBounds g = (lo, hi)"
  shows "admits ''span'' e lo \<and> admits ''span'' e hi \<and> (\<forall>k. admits ''span'' e k \<longrightarrow> lo \<le> k \<and> k \<le> hi)"
  using assms by (rule span_reader.bounds_tight)

theorem span_bounds_tight_witness:
  "admits ''span'' ex_span_group 0 \<and> admits ''span'' ex_span_group 3 \<and> \<not> admits ''span'' ex_span_group 4"
proof -
  have "case parseSpanGroup ex_span_group of Inr g \<Rightarrow> spanBounds g = (0, 3) | Inl _ \<Rightarrow> False"
    "fits ex_span_group" by code_simp+
  then obtain g where "parseSpanGroup ex_span_group = Inr g" "fits ex_span_group" "spanBounds g = (0, 3)"
    by (auto split: sum.splits)
  from span_bounds_tight [OF this] show ?thesis by auto
qed

text \<open>The same for trace groups.\<close>

theorem trace_bounds_tight:
  assumes "parseTraceGroup e = Inr g" "fits e" "traceBounds g = (lo, hi)"
  shows "admits ''trace'' e lo \<and> admits ''trace'' e hi \<and> (\<forall>k. admits ''trace'' e k \<longrightarrow> lo \<le> k \<and> k \<le> hi)"
  using assms by (rule trace_reader.bounds_tight)

theorem trace_bounds_tight_witness:
  "admits ''trace'' ex_trace_group 2 \<and> admits ''trace'' ex_trace_group 5 \<and> \<not> admits ''trace'' ex_trace_group 1"
proof -
  have "case parseTraceGroup ex_trace_group of Inr g \<Rightarrow> traceBounds g = (2, 5) | Inl _ \<Rightarrow> False"
    "fits ex_trace_group" by code_simp+
  then obtain g where "parseTraceGroup ex_trace_group = Inr g" "fits ex_trace_group" "traceBounds g = (2, 5)"
    by (auto split: sum.splits)
  from trace_bounds_tight [OF this] show ?thesis by auto
qed



definition ex_overflow :: sexpr where
  "ex_overflow = mk_list [mk_atom ''repeat'', mk_atom ''4294967296'',
     mk_list [mk_atom ''repeat'', mk_atom ''4294967296'', mk_list [mk_atom ''span'']]]"
lemma ex_overflow_atoi: "atoi ''4294967296'' = Some 4294967296"
  by (simp add: atoi_def in_i64_def is_digit_def digits_value_def Let_def)
lemma ex_overflow_card: "parseCardinality ex_overflow = Inr (4294967296,4294967296, sx_list ex_overflow ! 2)"
  "parseCardinality (sx_list ex_overflow ! 2) = Inr (4294967296,4294967296, mk_list [mk_atom ''span''])"
  by (simp_all add: ex_overflow_def parseCardinality_def parseCount_def ex_overflow_atoi )
lemma ex_overflow_base: "head (mk_list [mk_atom ''span'']) = ''span''" by simp

text \<open>
  C40. Authored counts multiply as 64-bit ints without an overflow check: a group repeated
  \<open>2 ^ 32\<close> times inside a repetition of \<open>2 ^ 32\<close> is accepted as exact with count zero, although
  the only count the form admits is \<open>2 ^ 64\<close>.
\<close>

theorem cardinality_overflow:
  "parseSpanGroup ex_overflow = Inr (SpanGroup 0 True 0 0 [] [] empty_span) \<and>
   countRange ex_overflow = (2 ^ 64, 2 ^ 64) \<and> admits ''span'' ex_overflow (2 ^ 64) \<and> \<not> admits ''span'' ex_overflow 0"
proof -
  let ?inner = "sx_list ex_overflow ! 2"
  have base: "parseSpanGroup (mk_list [mk_atom ''span'']) = Inr (SpanGroup 1 True 1 1 [] [] empty_span)"
    by (simp add: parseSpanGroup.simps)
  have heads: "head ex_overflow = ''repeat''" "head ?inner = ''repeat''" by (simp_all add: ex_overflow_def)
  have "parseSpanGroup ?inner = Inr (SpanGroup 4294967296 True 4294967296 4294967296 [] [] empty_span)"
    by (subst parseSpanGroup.simps) (simp add: heads cardinality_head_def ex_overflow_card base
      applySpanCardinality_def spanBounds_def mul64_def i64_def)
  then have p: "parseSpanGroup ex_overflow = Inr (SpanGroup 0 True 0 0 [] [] empty_span)"
    by (subst parseSpanGroup.simps) (simp add: heads cardinality_head_def ex_overflow_card
      applySpanCardinality_def spanBounds_def mul64_def i64_def)
  have r: "countRange ex_overflow = (2 ^ 64, 2 ^ 64)"
    by (simp add: span_reader.range_card [OF ex_overflow_card(1)] span_reader.range_card [OF ex_overflow_card(2)]
      span_reader.range_base)
  from span_reader.range_admitted [OF p] span_reader.admitted_in_range [OF p, of 0] p r
  show ?thesis by auto
qed
end
