(* ===== verification/Model.thy ===== *)
theory Model
  imports Shape
begin

text \<open>
  The data of \<open>report/report/model.go\<close> that the components below exchange; the types of
  scenario shapes are in \<open>Shape\<close>, those of alignments in \<open>Align\<close>. A field keeps its Go name
  behind a prefix for its struct.
\<close>

record SignalMaturity =
  sm_traces :: string
  sm_metrics :: string
  sm_logs :: string

record CatalogSource =
  cs_revision :: string
  cs_url :: string
  cs_rawURL :: string
  cs_sha256 :: string

record CatalogMetadata =
  cm_schemaVersion :: int
  cm_source :: CatalogSource
  cm_maturitySource :: string
  cm_maturity :: "(string, SignalMaturity) gomap"

record Feature =
  ft_id :: string
  ft_category :: string
  ft_group :: string
  ft_name :: string
  ft_optional :: string
  ft_support :: "(string, string) gomap"
  ft_source :: string

record Evidence =
  ev_label :: string
  ev_href :: string
  ev_path :: string

record Verification =
  vf_featureID :: string
  vf_state :: string
  vf_basis :: string
  vf_assertion :: string
  vf_scenarios :: "string list"
  vf_evidence :: "Evidence list"

record FeatureClaim =
  fc_featureID :: string
  fc_basis :: string
  fc_assertion :: string
  fc_allScenarios :: bool
  fc_scenarios :: "string list"
  fc_evidence :: "Evidence list"

record ProfileProofCoverage =
  pc_profile :: string
  pc_source :: Evidence
  pc_claims :: "FeatureClaim list"

record ProofPlanProof =
  pp_featureID :: string
  pp_assertion :: string
  pp_basis :: string
  pp_evidencePolicy :: string
  pp_scenarios :: "string list"
  pp_sources :: "string list"

record NormalizedProfilePlan =
  np_family :: string
  np_wireVersion :: string
  np_application :: string
  np_shapeNamespace :: string
  np_tracerLanguage :: string
  np_tracerVersion :: string
  np_serverOperation :: string
  np_referenceProfile :: string
  np_schemaVersion :: int
  np_profile :: string
  np_displayName :: string
  np_language :: string
  np_framework :: string
  np_serviceName :: string
  np_signals :: "string list"
  np_implementations :: "string list"
  np_sources :: "(string, string) gomap"
  np_proofs :: "ProofPlanProof list"

record Manifest =
  mf_schemaVersion :: int
  mf_profile :: string
  mf_displayName :: string
  mf_language :: string
  mf_framework :: string
  mf_instrumentationVersion :: string
  mf_version :: string
  mf_shortLabel :: string
  mf_unexercised :: bool
  mf_profileEvidence :: "Evidence list"
  mf_baseCoverage :: string
  mf_defaultVerification :: string
  mf_verifications :: "Verification list"

record CoverageCell =
  cc_profile :: string
  cc_scenario :: string
  cc_state :: string
  cc_declared :: bool

text \<open>\<open>stringSet\<close>: a map that holds \<open>true\<close> for exactly the listed strings.\<close>

definition stringSet :: "string list \<Rightarrow> string set" where
  "stringSet vals = set vals"

text \<open>\<open>stringSliceContains\<close>\<close>

fun stringSliceContains :: "string list \<Rightarrow> string \<Rightarrow> bool" where
  "stringSliceContains [] wanted = False"
| "stringSliceContains (v # vals) wanted = (if v = wanted then True else stringSliceContains vals wanted)"

lemma stringSliceContains_iff [simp]: "stringSliceContains vals wanted \<longleftrightarrow> wanted \<in> set vals"
  by (induction vals) auto

end
