(* ===== verification/Sources.thy ===== *)
theory Sources
  imports Model
begin

text \<open>
  Links to source code: \<open>validateImmutableSource\<close> of scheme.go, \<open>validateEvidence\<close> and
  \<open>PinRepositoryRevision\<close> of report.go. \<open>U\<close> stands for the tables of package unicode beyond
  ASCII, which \<open>strings.ToLower\<close> reads.
\<close>

section \<open>Immutable sources\<close>

definition mutable_segments :: "string list" where
  "mutable_segments = [''/main/'', ''/master/'', ''/head/'', ''/latest/'']"

definition validateImmutableSource :: "unicode_tables \<Rightarrow> string \<Rightarrow> unit result" where
  "validateImmutableSource U href =
     fail_if (\<not> prefix ''https://'' href) (Err ''source evidence must use https'' [])
     (let lower = to_lower U href
      in fail_if (list_ex (\<lambda>m. contains lower m) mutable_segments)
           (Err ''source evidence URL is mutable: %q'' [href])
         (if contains lower ''github.com/'' then
            let marker = (if contains lower ''/blob/'' then ''/blob/'' else ''/tree/'');
                parts = split_n2 lower marker
            in fail_if (length parts \<noteq> 2)
                 (Err ''GitHub source evidence must use a commit-pinned blob or tree URL: %q'' [href])
               (let revision = hd (split_n2 (parts ! 1) ''/'')
                in fail_if (length revision \<noteq> 40)
                     (Err ''GitHub source evidence revision is not a 40-character commit: %q'' [href])
                   (fail_if (\<not> hex_decodes revision)
                     (Err ''GitHub source evidence revision is not hexadecimal: %q'' [href])
                     (Inr ())))
          else Inr ()))"

section \<open>Evidence\<close>

definition validateEvidenceItem :: "string set \<Rightarrow> Evidence \<Rightarrow> unit result" where
  "validateEvidenceItem paths item =
     fail_if (ev_label item = [] \<or> ev_href item = []) (Err ''evidence requires label and href'' [])
     (fail_if (\<not> (prefix ''https://'' (ev_href item) \<or> prefix ''http://'' (ev_href item)
                 \<or> prefix ''//'' (ev_href item)))
       (Err ''invalid evidence href %q'' [ev_href item])
     (fail_if (ev_path item \<noteq> [] \<and> ev_path item \<notin> paths)
       (Err ''broken evidence path %q'' [ev_path item])
       (Inr ())))"

definition validateEvidence :: "Evidence list \<Rightarrow> string set \<Rightarrow> unit result" where
  "validateEvidence items paths =
     fail_if (items = []) (Err ''missing evidence'' []) (res_each (validateEvidenceItem paths) items)"

section \<open>Pinning the repository\<close>

definition repo_blob :: string where
  "repo_blob = ''https://github.com/pawelchcki/rules_stests/blob/''"

definition repo_tree :: string where
  "repo_tree = ''https://github.com/pawelchcki/rules_stests/tree/''"

text \<open>The closure \<open>pin\<close>\<close>

definition pin :: "string \<Rightarrow> string \<Rightarrow> string" where
  "pin revision href =
     (let href = replace_once href (repo_blob @ ''main/'') (repo_blob @ revision @ ''/'')
      in replace_once href (repo_tree @ ''main/'') (repo_tree @ revision @ ''/''))"

definition pinEvidence :: "string \<Rightarrow> Evidence \<Rightarrow> Evidence" where
  "pinEvidence revision item = item\<lparr>ev_href := pin revision (ev_href item)\<rparr>"

definition pinManifest :: "string \<Rightarrow> Manifest \<Rightarrow> Manifest" where
  "pinManifest revision m =
     m\<lparr>mf_profileEvidence := map (pinEvidence revision) (mf_profileEvidence m),
       mf_verifications := map (\<lambda>v. v\<lparr>vf_evidence := map (pinEvidence revision) (vf_evidence v)\<rparr>)
         (mf_verifications m)\<rparr>"

definition pinCoverage :: "string \<Rightarrow> ProfileProofCoverage \<Rightarrow> ProfileProofCoverage" where
  "pinCoverage revision c =
     c\<lparr>pc_source := pinEvidence revision (pc_source c),
       pc_claims := map (\<lambda>k. k\<lparr>fc_evidence := map (pinEvidence revision) (fc_evidence k)\<rparr>) (pc_claims c)\<rparr>"

text \<open>\<open>PinRepositoryRevision\<close> updates its arguments in place; the result holds their new values.\<close>

definition PinRepositoryRevision ::
  "Manifest list \<Rightarrow> ScenarioShape list \<Rightarrow> string \<Rightarrow> ProfileProofCoverage list list
    \<Rightarrow> (Manifest list \<times> ScenarioShape list \<times> ProfileProofCoverage list list) result" where
  "PinRepositoryRevision manifests shapes revision coverageSets =
     (if revision = [] \<or> revision = ''main'' then Inr (manifests, shapes, coverageSets)
      else fail_if (length revision \<noteq> 40)
        (Err ''repository revision must be main or a 40-character commit SHA'' [])
      (fail_if (\<not> hex_decodes revision)
        (Err ''repository revision must be main or a 40-character commit SHA'' [])
        (Inr (map (pinManifest revision) manifests,
              map (\<lambda>s. s\<lparr>ss_source := pin revision (ss_source s)\<rparr>) shapes,
              map (map (pinCoverage revision)) coverageSets))))"

section \<open>Lemmas\<close>

text \<open>Lower case of an ASCII prefix, byte by byte.\<close>

definition lower_byte :: "char \<Rightarrow> char" where
  "lower_byte c = (if 65 \<le> byte_of c \<and> byte_of c \<le> 90 then char_of (byte_of c + 32) else c)"

lemma to_lower_Nil [simp]: "to_lower U [] = []"
  by (simp add: to_lower_def)

lemma to_lower_Cons [simp]:
  "byte_of c < 0x80 \<Longrightarrow> to_lower U (c # s) = lower_byte c # to_lower U s"
  by (auto simp: to_lower_def rune_lower_def lower_byte_def)

lemma to_lower_append: "ascii a \<Longrightarrow> to_lower U (a @ s) = map lower_byte a @ to_lower U s"
  by (induction a) auto

lemma lower_byte_id: "\<not> (65 \<le> byte_of c \<and> byte_of c \<le> 90) \<Longrightarrow> lower_byte c = c"
  by (auto simp: lower_byte_def)

lemma cut_first:
  "str_cut s sep = Some (a, b) \<Longrightarrow> s = x @ sep @ y \<Longrightarrow> length a \<le> length x"
proof (induction s arbitrary: a x)
  case (Cons c cs)
  note IH = Cons.IH and prems = Cons.prems
  show ?case
  proof (cases x)
    case Nil
    then have "prefix sep (c # cs)" using Cons.prems(2) by simp
    then show ?thesis using Cons.prems(1) by simp
  next
    case (Cons d x')
    then show ?thesis using prems IH by (auto split: if_splits)
  qed
qed auto

text \<open>The first cut: the separator starts nowhere earlier.\<close>

lemma cut_iff:
  assumes "sep \<noteq> []"
  shows "str_cut s sep = Some (a, b) \<longleftrightarrow> s = a @ sep @ b \<and> (\<forall>x y. s = x @ sep @ y \<longrightarrow> length a \<le> length x)"
proof
  assume "str_cut s sep = Some (a, b)"
  then show "s = a @ sep @ b \<and> (\<forall>x y. s = x @ sep @ y \<longrightarrow> length a \<le> length x)"
    using cut_Some cut_first by blast
next
  assume r: "s = a @ sep @ b \<and> (\<forall>x y. s = x @ sep @ y \<longrightarrow> length a \<le> length x)"
  then obtain x y where xy: "str_cut s sep = Some (x, y)" using cut_None by (cases "str_cut s sep") auto
  with r cut_first have "length a = length x" using cut_Some by (metis order_antisym)
  with r cut_Some [OF xy] have "a = x \<and> b = y" by auto
  with xy show "str_cut s sep = Some (a, b)" by simp
qed

lemma is_hex_no_slash: "is_hex c \<Longrightarrow> c \<noteq> CHR ''/''"
  by (auto simp: is_hex_def is_lower_hex_def is_digit_def)


text \<open>A segment between slashes cannot overlap a long component without slashes.\<close>

lemma skip_component:
  assumes r: "CHR ''/'' \<notin> set r" and w: "length w < length r"
  shows "contains (CHR ''/'' # r @ CHR ''/'' # p) (CHR ''/'' # w @ [CHR ''/''])
    \<longleftrightarrow> contains (CHR ''/'' # p) (CHR ''/'' # w @ [CHR ''/''])"
proof
  assume "contains (CHR ''/'' # r @ CHR ''/'' # p) (CHR ''/'' # w @ [CHR ''/''])"
  then obtain a b where ab: "CHR ''/'' # r @ CHR ''/'' # p = a @ CHR ''/'' # w @ CHR ''/'' # b"
    by (auto simp: contains_iff)
  show "contains (CHR ''/'' # p) (CHR ''/'' # w @ [CHR ''/''])"
  proof (cases a)
    case Nil
    then have "r @ CHR ''/'' # p = w @ CHR ''/'' # b" using ab by simp
    then have "(r @ CHR ''/'' # p) ! length w = CHR ''/''" by (metis nth_append_length)
    with w have "r ! length w = CHR ''/''" by (simp add: nth_append)
    with w r nth_mem [OF w] have False by simp
    then show ?thesis ..
  next
    case (Cons x a')
    have "tl (CHR ''/'' # r @ CHR ''/'' # p) = tl (a @ CHR ''/'' # w @ CHR ''/'' # b)"
      by (simp only: ab)
    then have eq: "r @ CHR ''/'' # p = a' @ CHR ''/'' # w @ CHR ''/'' # b" by (simp add: Cons)
    have "\<not> length a' < length r"
    proof
      assume l: "length a' < length r"
      have "(r @ CHR ''/'' # p) ! length a' = CHR ''/''" unfolding eq by simp
      with l have "r ! length a' = CHR ''/''" by (simp add: nth_append)
      with r nth_mem [OF l] show False by simp
    qed
    then have "CHR ''/'' # p = drop (length r) a' @ CHR ''/'' # w @ CHR ''/'' # b"
      using arg_cong [OF eq, of "drop (length r)"] by simp
    then show ?thesis unfolding contains_iff by (metis append.assoc append_Cons append_Nil)
  qed
next
  assume "contains (CHR ''/'' # p) (CHR ''/'' # w @ [CHR ''/''])"
  then obtain a b where "CHR ''/'' # p = a @ (CHR ''/'' # w @ [CHR ''/'']) @ b"
    by (auto simp: contains_iff)
  then have "CHR ''/'' # r @ CHR ''/'' # p = (CHR ''/'' # r @ a) @ (CHR ''/'' # w @ [CHR ''/'']) @ b"
    by simp
  then show "contains (CHR ''/'' # r @ CHR ''/'' # p) (CHR ''/'' # w @ [CHR ''/''])"
    unfolding contains_iff by blast
qed

lemma is_hex_lower: "is_hex c \<Longrightarrow> is_hex (lower_byte c) \<and> byte_of c < 0x80"
  by (auto simp: is_hex_def is_lower_hex_def is_digit_def lower_byte_def)

lemma mutable_segments_shape:
  "m \<in> set mutable_segments \<Longrightarrow> \<exists>w. m = CHR ''/'' # w @ [CHR ''/''] \<and> length w < 40"
  unfolding mutable_segments_def
  by (auto intro: exI [of _ "''main''"] exI [of _ "''master''"] exI [of _ "''head''"] exI [of _ "''latest''"])

lemma repo_blob_split: "repo_blob = ''https://github.com/pawelchcki/rules_stests/blob'' @ ''/''"
  by (simp add: repo_blob_def)

lemma contains_Cons: "contains (c # s) sub \<longleftrightarrow> prefix sub (c # s) \<or> contains s sub"
  by (auto simp: contains_def)

lemma repo_blob_skip:
  "m \<in> set mutable_segments \<Longrightarrow>
    contains (''https://github.com/pawelchcki/rules_stests/blob'' @ CHR ''/'' # s) m
      \<longleftrightarrow> contains (CHR ''/'' # s) m"
  unfolding mutable_segments_def list.set insert_iff empty_iff
  by (elim disjE) (simp_all add: contains_Cons [where s = "x # y" for x y])

lemma contains_blob: "contains (''https://github.com/pawelchcki/rules_stests/blob'' @ CHR ''/'' # s) ''github.com/''"
  and cut_blob: "str_cut (''https://github.com/pawelchcki/rules_stests/blob'' @ CHR ''/'' # s) ''/blob/''
    = Some (''https://github.com/pawelchcki/rules_stests'', s)"
  by (simp_all add: contains_def)

lemma cut_component: "CHR ''/'' \<notin> set r \<Longrightarrow> str_cut (r @ CHR ''/'' # p) ''/'' = Some (r, p)"
  by (induction r) auto

text \<open>A link at a commit of the repository is accepted when its path has no mutable segment.\<close>

lemma commit_link_accepted:
  assumes "length revision = 40" "hex_decodes revision"
    and path: "list_all (\<lambda>m. \<not> contains (CHR ''/'' # to_lower U path) m) mutable_segments"
  shows "validateImmutableSource U (repo_blob @ revision @ CHR ''/'' # path) = Inr ()"
proof -
  let ?r = "map lower_byte revision"
  have hex: "list_all is_hex ?r" "list_all (\<lambda>c. byte_of c < 0x80) revision"
    using assms(2) is_hex_lower by (auto simp: hex_decodes_def list_all_iff)
  have slash: "CHR ''/'' \<notin> set ?r"
    using hex(1) is_hex_no_slash [of "CHR ''/''"] by (metis list_all_iff)
  have asc: "ascii repo_blob" "ascii revision" using hex(2) by (simp_all add: repo_blob_def ascii_def)
  have "to_lower U (repo_blob @ revision @ CHR ''/'' # path)
      = map lower_byte repo_blob @ ?r @ to_lower U (CHR ''/'' # path)"
    by (simp only: to_lower_append [OF asc(1)] to_lower_append [OF asc(2)])
  then have lower: "to_lower U (repo_blob @ revision @ CHR ''/'' # path)
      = ''https://github.com/pawelchcki/rules_stests/blob'' @ CHR ''/'' # ?r @ CHR ''/'' # to_lower U path"
    by (simp add: repo_blob_def lower_byte_id)
  have "\<not> contains (''https://github.com/pawelchcki/rules_stests/blob'' @ CHR ''/'' # ?r @ CHR ''/'' # to_lower U path) m"
    if m: "m \<in> set mutable_segments" for m
  proof -
    obtain w where w: "m = CHR ''/'' # w @ [CHR ''/'']" "length w < length ?r"
      using mutable_segments_shape [OF m] assms(1) by auto
    have "contains (CHR ''/'' # ?r @ CHR ''/'' # to_lower U path) m \<longleftrightarrow> contains (CHR ''/'' # to_lower U path) m"
      unfolding w(1) by (rule skip_component [OF slash w(2)])
    with m path show ?thesis by (simp only: repo_blob_skip [OF m]) (simp add: list_all_iff)
  qed
  then have none: "\<not> list_ex (contains (to_lower U (repo_blob @ revision @ CHR ''/'' # path))) mutable_segments"
    unfolding lower by (simp add: list_ex_iff)
  have blob: "contains (to_lower U (repo_blob @ revision @ CHR ''/'' # path)) ''/blob/''"
    "split_n2 (to_lower U (repo_blob @ revision @ CHR ''/'' # path)) ''/blob/''
      = [''https://github.com/pawelchcki/rules_stests'', ?r @ CHR ''/'' # to_lower U path]"
    unfolding lower contains_def split_n2_def cut_blob by simp_all
  have git: "contains (to_lower U (repo_blob @ revision @ CHR ''/'' # path)) ''github.com/''"
    unfolding lower by (rule contains_blob)
  have "hd (split_n2 (?r @ CHR ''/'' # to_lower U path) ''/'') = ?r"
    by (simp add: split_n2_def cut_component [OF slash])
  moreover have "prefix ''https://'' (repo_blob @ revision @ CHR ''/'' # path)"
    by (simp add: repo_blob_def)
  moreover have "hex_decodes ?r" using hex(1) assms(1) by (simp add: hex_decodes_def)
  ultimately show ?thesis
    using none git blob assms(1) by (simp add: validateImmutableSource_def)
qed

lemma cut_prefix: "sep \<noteq> [] \<Longrightarrow> str_cut (sep @ s) sep = Some ([], s)"
  by (cases sep) auto

lemma contains_skip: "c \<notin> set r \<Longrightarrow> contains (r @ s) (c # sub) \<longleftrightarrow> contains s (c # sub)"
  by (induction r) (auto simp: contains_Cons)

lemma pin_blob:
  assumes "hex_decodes revision" "\<not> contains path (repo_tree @ ''main/'')"
  shows "pin revision (repo_blob @ ''main/'' @ path) = repo_blob @ revision @ CHR ''/'' # path"
proof -
  have one: "replace_once (repo_blob @ ''main/'' @ path) (repo_blob @ ''main/'') (repo_blob @ revision @ ''/'')
      = repo_blob @ revision @ CHR ''/'' # path"
    using cut_prefix [of "repo_blob @ ''main/''" path] by (simp add: replace_once_def repo_blob_def)
  have "CHR ''h'' \<notin> set (revision @ ''/'')"
    using assms(1) by (auto simp: hex_decodes_def list_all_iff is_hex_def is_lower_hex_def is_digit_def
      dest!: bspec [where x = "CHR ''h''"])
  then have "\<not> contains (repo_blob @ (revision @ ''/'') @ path) (repo_tree @ ''main/'')"
    using assms(2) contains_skip [of "CHR ''h''" "revision @ ''/''" path]
    by (simp add: repo_blob_def repo_tree_def contains_Cons [where s = "x # y" for x y]
      contains_Cons [where s = "revision @ y" for y])
  then have "str_cut (repo_blob @ revision @ CHR ''/'' # path) (repo_tree @ ''main/'') = None"
    unfolding contains_def not_not append.assoc by simp
  then have "replace_once (repo_blob @ revision @ CHR ''/'' # path) (repo_tree @ ''main/'') x
      = repo_blob @ revision @ CHR ''/'' # path" for x
    by (simp add: replace_once_def)
  with one show ?thesis by (simp add: pin_def)
qed

text \<open>A concrete commit for the witnesses.\<close>

definition ex_commit :: string where
  "ex_commit = ''0123456789abcdef0123456789ABCDEF01234567''"

lemma ex_commit_ok: "length ex_commit = 40" "hex_decodes ex_commit"
  by (simp_all add: ex_commit_def hex_decodes_def is_hex_def is_lower_hex_def is_digit_def)

lemma ex_path_ok: "list_all (\<lambda>m. \<not> contains (CHR ''/'' # to_lower U ''readme.md'') m) mutable_segments"
  by (simp add: mutable_segments_def contains_Cons lower_byte_def contains_def)

section \<open>Properties\<close>

text \<open>
  A source link is accepted only if it uses https, has no mutable branch segment in any
  letter case, and, on GitHub, names a blob or a tree at a 40-digit hexadecimal commit.
\<close>

theorem immutable_source_sound:
  assumes "validateImmutableSource U href = Inr ()"
  shows "prefix ''https://'' href \<and> (\<forall>m \<in> set mutable_segments. \<not> contains (to_lower U href) m) \<and>
    (contains (to_lower U href) ''github.com/'' \<longrightarrow>
      (\<exists>a marker revision rest. marker \<in> {''/blob/'', ''/tree/''} \<and>
        to_lower U href = a @ marker @ revision @ rest \<and>
        length revision = 40 \<and> list_all is_hex revision \<and> (rest = [] \<or> hd rest = CHR ''/'')))"
proof (intro conjI impI)
  let ?lower = "to_lower U href"
  let ?marker = "if contains ?lower ''/blob/'' then ''/blob/'' else ''/tree/''"
  show "prefix ''https://'' href" "\<forall>m \<in> set mutable_segments. \<not> contains ?lower m"
    using assms by (auto simp: validateImmutableSource_def fail_if_Inr_iff Let_def list_ex_iff)
  assume git: "contains ?lower ''github.com/''"
  let ?parts = "split_n2 ?lower ?marker"
  have parts: "length ?parts = 2" and len: "length (hd (split_n2 (?parts ! 1) ''/'')) = 40"
    and hex: "hex_decodes (hd (split_n2 (?parts ! 1) ''/''))"
    using assms git by (auto simp: validateImmutableSource_def fail_if_Inr_iff Let_def)
  obtain a b where ab: "str_cut ?lower ?marker = Some (a, b)" "?parts ! 1 = b"
    using parts by (auto simp: split_n2_def split: option.splits)
  obtain revision rest where b: "b = revision @ rest" "hd (split_n2 b ''/'') = revision"
    "rest = [] \<or> hd rest = CHR ''/''"
  proof (cases "str_cut b ''/''")
    case None
    then show thesis using that [of b "[]"] by (simp add: split_n2_def)
  next
    case (Some r)
    then show thesis using that [of "fst r" "CHR ''/'' # snd r"] cut_Some [of b "''/''" "fst r" "snd r"]
      by (simp add: split_n2_def split: prod.splits)
  qed
  have "?lower = a @ ?marker @ revision @ rest" using cut_Some [OF ab(1)] b(1) by simp
  moreover have "length revision = 40" "list_all is_hex revision"
    using len hex ab(2) b(2) by (simp_all add: hex_decodes_def)
  moreover have "?marker \<in> {''/blob/'', ''/tree/''}" by simp
  ultimately show "\<exists>a marker revision rest. marker \<in> {''/blob/'', ''/tree/''} \<and>
      ?lower = a @ marker @ revision @ rest \<and>
      length revision = 40 \<and> list_all is_hex revision \<and> (rest = [] \<or> hd rest = CHR ''/'')"
    using b(3) by blast
qed


theorem immutable_source_sound_witness:
  "length ex_commit = 40 \<and> list_all (\<lambda>m. \<not> contains (to_lower plain_tables (repo_blob @ ex_commit @ ''/readme.md'')) m) mutable_segments"
proof -
  have "validateImmutableSource plain_tables (repo_blob @ ex_commit @ ''/readme.md'') = Inr ()"
    using commit_link_accepted [OF ex_commit_ok ex_path_ok] by simp
  from immutable_source_sound [OF this] ex_commit_ok(1) show ?thesis by (simp add: list_all_iff)
qed

text \<open>
  \<open>PinRepositoryRevision\<close> turns the links of the repository into immutable evidence: a link
  to the main branch is rejected as mutable before and accepted after, for every commit and
  every path without a mutable segment.
\<close>

theorem pinned_link_accepted:
  assumes "length revision = 40" "hex_decodes revision"
    and "list_all (\<lambda>m. \<not> contains (CHR ''/'' # to_lower U path) m) mutable_segments"
    and "\<not> contains path (repo_tree @ ''main/'')"
  shows "validateImmutableSource U (repo_blob @ ''main/'' @ path) \<noteq> Inr () \<and>
    validateImmutableSource U (pin revision (repo_blob @ ''main/'' @ path)) = Inr ()"
proof
  have "pin revision (repo_blob @ ''main/'' @ path) = repo_blob @ revision @ CHR ''/'' # path"
    using assms(2,4) by (rule pin_blob)
  with commit_link_accepted [OF assms(1-3)]
  show "validateImmutableSource U (pin revision (repo_blob @ ''main/'' @ path)) = Inr ()" by simp
  have "to_lower U (repo_blob @ ''main/'' @ path)
      = ''https://github.com/pawelchcki/rules_stests/blob'' @ ''/main/'' @ to_lower U path"
    by (simp add: repo_blob_def lower_byte_id)
  then have "contains (to_lower U (repo_blob @ ''main/'' @ path)) ''/main/''"
    unfolding contains_iff by blast
  then show "validateImmutableSource U (repo_blob @ ''main/'' @ path) \<noteq> Inr ()"
    by (auto simp: validateImmutableSource_def fail_if_Inr_iff Let_def list_ex_iff mutable_segments_def)
qed

theorem pinned_link_accepted_witness:
  "validateImmutableSource plain_tables (pin ex_commit (repo_blob @ ''main/readme.md'')) = Inr ()"
proof -
  have "\<not> contains ''readme.md'' (repo_tree @ ''main/'')" by (simp add: contains_def repo_tree_def)
  from pinned_link_accepted [OF ex_commit_ok ex_path_ok this] show ?thesis by simp
qed

end
