(* ===== verification/Profile.thy ===== *)
theory Profile
  imports Sources
begin

text \<open>
  The compiler of telemetry profiles, \<open>report/report/profile.go\<close>: from the Scheme sources of a
  profile, of the implementation bindings, of the proof rules and of the known capture
  shapes, and from the feature registry, to a normalized plan. The outcome of
  \<open>json.Unmarshal\<close> on the registry is an argument (\<open>registry\<close>): the pairs of feature id and
  binding in document order, or its error.
\<close>

section \<open>Capture shapes and proof rules\<close>

definition capture_shape_name :: "sexpr \<Rightarrow> string" where
  "capture_shape_name item = atomValue (unquote (sx_list item ! 1))"

definition addKnownShape :: "sexpr \<Rightarrow> string set \<Rightarrow> string set result" where
  "addKnownShape item shapes =
     fail_if (head item \<noteq> ''capture-shape'' \<or> length (sx_list item) < 3)
       (Err ''malformed capture shape'' [])
     (let name = capture_shape_name item
      in fail_if (name = [] \<or> name \<in> shapes) (Err ''duplicate or empty capture shape %q'' [name])
         (Inr (insert name shapes)))"

definition parseKnownShapes :: "string \<Rightarrow> string set result" where
  "parseKnownShapes source =
     res_bind (parseSource source) (\<lambda>forms.
       case findInForms forms ''capture-shapes'' of
         None \<Rightarrow> Inl (Err ''capture-shapes definition is missing'' [])
       | Some value \<Rightarrow>
           let items = unquote value;
               elements = (if head items = ''list'' then sx_args items else sx_list items)
           in res_bind (res_fold addKnownShape elements {}) (\<lambda>shapes.
                fail_if (shapes = {}) (Err ''capture-shapes definition is empty'' []) (Inr shapes)))"

record parsedRule =
  ru_assertion :: string
  ru_policy :: string

text \<open>\<open>clauseValue\<close>: the only clause of a name after the first element of a record.\<close>

definition clauseStep :: "string \<Rightarrow> sexpr \<Rightarrow> sexpr option \<Rightarrow> sexpr option result" where
  "clauseStep name clause found =
     (if head clause \<noteq> name then Inr found
      else fail_if (found \<noteq> None) (Err ''duplicate %s clause'' [name])
        (fail_if (length (sx_list clause) \<noteq> 2) (Err ''malformed %s clause'' [name])
          (Inr (Some (sx_list clause ! 1)))))"

definition clauseValue :: "sexpr \<Rightarrow> string \<Rightarrow> sexpr result" where
  "clauseValue item name =
     res_bind (res_fold (clauseStep name) (sx_args item) None) (\<lambda>found.
       case found of None \<Rightarrow> Inl (Err ''missing %s clause'' [name]) | Some v \<Rightarrow> Inr v)"

text \<open>The tables of proof rules: \<open>visit\<close> of \<open>parseProofRuleTable\<close>, in the order of the walk.\<close>

definition ruleTableHere :: "sexpr \<Rightarrow> sexpr list" where
  "ruleTableHere e =
     (if head e = ''define'' \<and> length (sx_list e) = 3 then
        let name = atomValue (sx_list e ! 1)
        in if name = ''proof-rules'' \<or> suffix ''-proof-rules'' name then
             let v = unquote (sx_list e ! 2)
             in if head v \<noteq> ''append'' then [v] else []
           else []
      else [])"

fun ruleTables :: "sexpr \<Rightarrow> sexpr list" where
  "ruleTables (SExpr a xs s) = ruleTableHere (SExpr a xs s) @ concat (map ruleTables xs)"

definition evidence_policies :: "string list" where
  "evidence_policies = [''wire-sufficient'', ''requires-immutable-source'']"

definition addProofRule :: "sexpr \<Rightarrow> (string, parsedRule) gomap \<Rightarrow> (string, parsedRule) gomap result" where
  "addProofRule item rules =
     fail_if (length (sx_list item) < 2 \<or> \<not> sx_str (sx_list item ! 0)) (Err ''malformed proof rule'' [])
     (let ident = sx_atom (sx_list item ! 0)
      in fail_if (ru_assertion (go_get0 \<lparr>ru_assertion = [], ru_policy = []\<rparr> rules ident) \<noteq> [])
           (Err ''duplicate proof rule %q'' [ident])
         (res_bind (res_wrap ''proof rule %q: %w'' [ident] (clauseValue item ''assertion'')) (\<lambda>assertionExpr.
          res_bind (res_wrap ''proof rule %q: %w'' [ident] (clauseValue item ''evidence'')) (\<lambda>policyExpr.
            let assertion = atomValue assertionExpr; policy = atomValue policyExpr
            in fail_if (policy \<notin> set evidence_policies)
                 (Err ''proof rule %q has invalid evidence policy %q'' [ident, policy])
                 (Inr (go_put ident \<lparr>ru_assertion = assertion, ru_policy = policy\<rparr> rules))))))"

definition parseProofRuleTable :: "string \<Rightarrow> (string, parsedRule) gomap result" where
  "parseProofRuleTable source =
     res_bind (parseSource source) (\<lambda>forms.
       let tables = concat (map ruleTables forms)
       in fail_if (tables = []) (Err ''proof-rules definition is missing'' [])
            (res_fold addProofRule (concat (map sx_list tables)) []))"

definition parseProofRules :: "string \<Rightarrow> string set \<Rightarrow> (string, parsedRule) gomap result" where
  "parseProofRules source knownShapes =
     res_bind (parseProofRuleTable source) (\<lambda>rules.
     res_bind (res_each (\<lambda>(ident, rule).
         fail_if (ru_assertion rule \<notin> knownShapes)
           (Err ''proof rule %q references unknown capture shape %q'' [ident, ru_assertion rule])
           (Inr ())) rules) (\<lambda>_. Inr rules))"

definition ParseProofRuleAssertions :: "string \<Rightarrow> (string, string) gomap result" where
  "ParseProofRuleAssertions source =
     res_bind (parseProofRuleTable source) (\<lambda>rules.
       Inr (fold (\<lambda>(ident, rule). go_put ident (ru_assertion rule)) rules []))"

section \<open>Implementation bindings\<close>

type_synonym bindings = "string set \<times> (string, string) gomap"

definition bindHere :: "sexpr \<Rightarrow> bindings \<Rightarrow> bindings result" where
  "bindHere e = (\<lambda>(bound, sources).
     if head e = ''define'' \<and> length (sx_list e) = 3 then
       let name = atomValue (sx_list e ! 1)
       in if name \<noteq> [] then
            fail_if (name \<in> bound) (Err ''duplicate implementation binding %q'' [name])
              (Inr (insert name bound,
                if sx_str (sx_list e ! 2) then go_put name (sx_atom (sx_list e ! 2)) sources else sources))
          else Inr (bound, sources)
     else Inr (bound, sources))"

text \<open>\<open>visit\<close> of \<open>collectImplementationDefinitions\<close>; after an error it does nothing.\<close>

fun bindVisit :: "sexpr \<Rightarrow> bindings \<Rightarrow> bindings result" where
  "bindVisit (SExpr a xs s) st = res_bind (bindHere (SExpr a xs s) st) (res_fold bindVisit xs)"

definition collectImplementationDefinitions :: "sexpr list \<Rightarrow> bindings \<Rightarrow> bindings result" where
  "collectImplementationDefinitions forms st = res_fold bindVisit forms st"

section \<open>Claims\<close>

text \<open>What the clauses of a profile refer to.\<close>

record profile_env =
  pe_featureByBinding :: "(string, string) gomap"
  pe_bindings :: "string set"
  pe_sources :: "(string, string) gomap"
  pe_rules :: "(string, parsedRule) gomap"
  pe_scenarios :: "string set"

text \<open>The scope of a claim: its scenarios, if any, and its body.\<close>

definition claimScope :: "profile_env \<Rightarrow> sexpr \<Rightarrow> (string list \<times> sexpr) result" where
  "claimScope env clause =
     (if head clause = ''all'' then
        fail_if (length (sx_list clause) \<noteq> 2) (Err ''all claim is malformed'' [])
          (Inr ([], sx_list clause ! 1))
      else
        fail_if (length (sx_list clause) \<noteq> 3) (Err ''scenario claim is malformed'' [])
        (let name = atomValue (unquote (sx_list clause ! 1))
         in fail_if (name = []) (Err ''scenario claim has empty scope'' [])
            (fail_if (name \<notin> pe_scenarios env) (Err ''scenario claim has unknown scope %q'' [name])
              (Inr ([name], sx_list clause ! 2)))))"

definition claimSource :: "unicode_tables \<Rightarrow> profile_env \<Rightarrow> sexpr \<Rightarrow> string result" where
  "claimSource U env source =
     (let name = atomValue source; href = go_get0 [] (pe_sources env) name
      in fail_if (href = []) (Err ''unknown source anchor %q'' [name])
           (res_bind (res_wrap ''source anchor %q: %w'' [name] (validateImmutableSource U href))
             (\<lambda>_. Inr name)))"

text \<open>The features of a claim body and the sources that corroborate it.\<close>

definition claimBody :: "unicode_tables \<Rightarrow> profile_env \<Rightarrow> sexpr \<Rightarrow> (sexpr list \<times> string list) result" where
  "claimBody U env body =
     (if head body = ''observed'' then
        fail_if (length (sx_list body) < 2) (Err ''observed claim is malformed'' [])
          (Inr (sx_args body, []))
      else if head body = ''corroborated'' then
        fail_if (length (sx_list body) < 3 \<or> head (sx_list body ! 1) \<noteq> ''sources'')
          (Err ''corroborated claim is malformed'' [])
          (res_bind (res_map (claimSource U env) (sx_args (sx_list body ! 1))) (\<lambda>names.
            Inr (drop 2 (sx_list body), names)))
      else Inl (Err ''invalid claim basis %q'' [head body]))"

definition claimProof :: "profile_env \<Rightarrow> string \<Rightarrow> string list \<Rightarrow> string list \<Rightarrow> sexpr \<Rightarrow> ProofPlanProof result" where
  "claimProof env basis scenarios sourceNames featureExpr =
     (let binding = atomValue featureExpr; featureID = go_get0 [] (pe_featureByBinding env) binding
      in fail_if (featureID = []) (Err ''unknown feature binding %q'' [binding])
         (case go_get (pe_rules env) featureID of
            None \<Rightarrow> Inl (Err ''feature %q has no proof rule'' [featureID])
          | Some rule \<Rightarrow>
              fail_if (ru_policy rule = ''requires-immutable-source'' \<and> sourceNames = [])
                (Err ''feature %q requires immutable source'' [featureID])
              (fail_if (ru_policy rule = ''wire-sufficient'' \<and> basis \<noteq> ''observed'')
                (Err ''feature %q must use observed basis'' [featureID])
                (Inr \<lparr>pp_featureID = featureID, pp_assertion = ru_assertion rule, pp_basis = basis,
                      pp_evidencePolicy = ru_policy rule, pp_scenarios = scenarios,
                      pp_sources = sourceNames\<rparr>))))"

definition parseProfileClaim :: "unicode_tables \<Rightarrow> profile_env \<Rightarrow> sexpr \<Rightarrow> ProofPlanProof list result" where
  "parseProfileClaim U env clause =
     res_bind (claimScope env clause) (\<lambda>(scenarios, body).
     res_bind (claimBody U env body) (\<lambda>(featureExprs, sourceNames).
       res_map (claimProof env (head body) scenarios sourceNames) featureExprs))"

section \<open>The clauses of a profile\<close>

definition singletonClauses :: "string list" where
  "singletonClauses =
     [''id'', ''family'', ''wire-version'', ''application'', ''shape-namespace'', ''tracer-language'',
      ''tracer-version'', ''server-operation'', ''display-name'', ''language'', ''framework'',
      ''service-name'', ''signals'', ''implementation'']"

definition identityClauses :: "string list" where
  "identityClauses =
     [''family'', ''wire-version'', ''application'', ''shape-namespace'', ''tracer-language'',
      ''tracer-version'', ''server-operation'']"

definition empty_plan :: NormalizedProfilePlan where
  "empty_plan =
     \<lparr>np_family = [], np_wireVersion = [], np_application = [], np_shapeNamespace = [],
      np_tracerLanguage = [], np_tracerVersion = [], np_serverOperation = [], np_referenceProfile = [],
      np_schemaVersion = 1, np_profile = [], np_displayName = [], np_language = [], np_framework = [],
      np_serviceName = [], np_signals = [], np_implementations = [], np_sources = [], np_proofs = []\<rparr>"

text \<open>The variables of the loop over the clauses: \<open>plan\<close>, \<open>seenClaims\<close>, \<open>seenSingleton\<close>.\<close>

type_synonym profile_state = "NormalizedProfilePlan \<times> string set \<times> string set"

definition setIdentity :: "string \<Rightarrow> string \<Rightarrow> NormalizedProfilePlan \<Rightarrow> NormalizedProfilePlan" where
  "setIdentity name v plan =
     (if name = ''family'' then plan\<lparr>np_family := v\<rparr>
      else if name = ''wire-version'' then plan\<lparr>np_wireVersion := v\<rparr>
      else if name = ''application'' then plan\<lparr>np_application := v\<rparr>
      else if name = ''shape-namespace'' then plan\<lparr>np_shapeNamespace := v\<rparr>
      else if name = ''tracer-language'' then plan\<lparr>np_tracerLanguage := v\<rparr>
      else if name = ''tracer-version'' then plan\<lparr>np_tracerVersion := v\<rparr>
      else if name = ''server-operation'' then plan\<lparr>np_serverOperation := v\<rparr>
      else plan)"

text \<open>A clause with one string literal: display-name, framework, service-name.\<close>

definition stringClause :: "sexpr \<Rightarrow> string result" where
  "stringClause clause =
     fail_if (length (sx_list clause) \<noteq> 2 \<or> \<not> sx_str (sx_list clause ! 1))
       (Err ''profile %s clause is malformed'' [head clause]) (Inr (sx_atom (sx_list clause ! 1)))"

text \<open>The fields a clause other than a claim sets.\<close>

definition metadataClause :: "profile_env \<Rightarrow> sexpr \<Rightarrow> NormalizedProfilePlan \<Rightarrow> NormalizedProfilePlan result" where
  "metadataClause env clause plan =
     (let name = head clause; xs = sx_list clause in
      if name = ''id'' then
        fail_if (length xs \<noteq> 2) (Err ''profile id clause is malformed'' [])
          (Inr (plan\<lparr>np_profile := atomValue (unquote (xs ! 1))\<rparr>))
      else if name \<in> set identityClauses then
        fail_if (length xs \<noteq> 2) (Err ''profile %s clause is malformed'' [name])
        (fail_if (name \<in> {''tracer-language'', ''tracer-version'', ''server-operation''} \<and> \<not> sx_str (xs ! 1))
          (Err ''profile %s clause must contain a string'' [name])
        (let v = atomValue (unquote (xs ! 1))
         in fail_if (name = ''tracer-language'' \<and> v = [])
              (Err ''profile tracer-language clause is empty'' [])
              (Inr (setIdentity name v plan))))
      else if name = ''display-name'' then
        res_bind (stringClause clause) (\<lambda>v. Inr (plan\<lparr>np_displayName := v\<rparr>))
      else if name = ''language'' then
        fail_if (length xs \<noteq> 2 \<or> length (sx_list (xs ! 1)) \<noteq> 2 \<or> head (xs ! 1) \<noteq> ''quote''
            \<or> sx_atom (sx_list (xs ! 1) ! 1) = [] \<or> sx_str (sx_list (xs ! 1) ! 1)
            \<or> sx_list (sx_list (xs ! 1) ! 1) \<noteq> [])
          (Err ''profile language clause is malformed'' [])
          (Inr (plan\<lparr>np_language := atomValue (unquote (xs ! 1))\<rparr>))
      else if name = ''framework'' then
        res_bind (stringClause clause) (\<lambda>v. Inr (plan\<lparr>np_framework := v\<rparr>))
      else if name = ''service-name'' then
        res_bind (stringClause clause) (\<lambda>v. Inr (plan\<lparr>np_serviceName := v\<rparr>))
      else if name = ''signals'' then
        Inr (plan\<lparr>np_signals := np_signals plan @ map (\<lambda>s. atomValue (unquote s)) (sx_args clause)\<rparr>)
      else if name = ''implementation'' then
        fail_if (length xs \<noteq> 2 \<or> head (xs ! 1) \<noteq> ''compose'')
          (Err ''profile implementation must use compose'' [])
          (res_bind (res_map (\<lambda>item. fail_if (atomValue item \<notin> pe_bindings env)
              (Err ''unknown implementation binding %q'' [atomValue item]) (Inr (atomValue item)))
            (sx_args (xs ! 1)))
            (\<lambda>names. Inr (plan\<lparr>np_implementations := np_implementations plan @ names\<rparr>)))
      else Inr plan)"

text \<open>The loop over the proofs of a claim.\<close>

definition addProof :: "profile_env \<Rightarrow> ProofPlanProof \<Rightarrow> NormalizedProfilePlan \<times> string set
    \<Rightarrow> (NormalizedProfilePlan \<times> string set) result" where
  "addProof env proof = (\<lambda>(plan, seenClaims).
     fail_if (pp_featureID proof \<in> seenClaims) (Err ''duplicate feature claim %q'' [pp_featureID proof])
       (Inr (plan\<lparr>np_proofs := np_proofs plan @ [proof],
                  np_sources := fold (\<lambda>name. go_put name (go_get0 [] (pe_sources env) name))
                    (pp_sources proof) (np_sources plan)\<rparr>,
             insert (pp_featureID proof) seenClaims)))"

definition profileClause :: "unicode_tables \<Rightarrow> profile_env \<Rightarrow> sexpr \<Rightarrow> profile_state \<Rightarrow> profile_state result" where
  "profileClause U env clause = (\<lambda>(plan, seenClaims, seenSingleton).
     fail_if (head clause \<in> set singletonClauses \<and> head clause \<in> seenSingleton)
       (Err ''duplicate profile %s clause'' [head clause])
     (let seen = (if head clause \<in> set singletonClauses then insert (head clause) seenSingleton
                  else seenSingleton)
      in if head clause = ''all'' \<or> head clause = ''scenario'' then
           res_bind (parseProfileClaim U env clause) (\<lambda>proofs.
           res_bind (res_fold (addProof env) proofs (plan, seenClaims)) (\<lambda>(plan', claims').
             Inr (plan', claims', seen)))
         else res_bind (metadataClause env clause plan) (\<lambda>plan'. Inr (plan', seenClaims, seen))))"

section \<open>Compilation\<close>

text \<open>The checks after the loop: the identity of the telemetry, after the metadata.\<close>

definition checkIdentity :: "NormalizedProfilePlan \<Rightarrow> NormalizedProfilePlan result" where
  "checkIdentity plan =
     (if np_family plan \<noteq> [] then
        fail_if (np_family plan \<noteq> ''datadog'' \<or> np_wireVersion plan \<notin> {''v0.4'', ''v0.5''}
            \<or> np_application plan = [] \<or> np_shapeNamespace plan = [] \<or> np_tracerVersion plan = [])
          (Err ''invalid telemetry profile identity'' [])
        (fail_if (np_signals plan \<noteq> [''traces''])
          (Err ''Datadog profiles support traces only'' [])
        (fail_if (np_application plan = ''rails'' \<and> np_serverOperation plan \<noteq> ''rack.request'')
          (Err ''Rails Datadog profiles require server-operation rack.request'' [])
          (Inr (plan\<lparr>np_schemaVersion := 2\<rparr>))))
      else
        fail_if (np_wireVersion plan \<noteq> [] \<or> np_application plan \<noteq> [] \<or> np_shapeNamespace plan \<noteq> []
            \<or> np_tracerLanguage plan \<noteq> [] \<or> np_tracerVersion plan \<noteq> [] \<or> np_serverOperation plan \<noteq> [])
          (Err ''telemetry identity requires a family'' []) (Inr plan))"

definition checkSignals :: "string list \<Rightarrow> unit result" where
  "checkSignals signals =
     res_each (\<lambda>signal. fail_if (signal \<notin> {''traces'', ''metrics'', ''logs''})
       (Err ''unknown signal %q'' [signal]) (Inr ())) signals"

definition checkPlan :: "NormalizedProfilePlan \<Rightarrow> NormalizedProfilePlan result" where
  "checkPlan plan =
     fail_if (np_profile plan = [] \<or> np_displayName plan = [] \<or> np_language plan = []
         \<or> np_framework plan = [] \<or> np_serviceName plan = [] \<or> np_signals plan = []
         \<or> np_implementations plan = [] \<or> np_proofs plan = [])
       (Err ''profile metadata is incomplete'' [])
     (fail_if (np_language plan \<notin> {''go'', ''python'', ''ruby''})
       (Err ''unsupported profile language %q'' [np_language plan])
     (res_bind (checkSignals (np_signals plan)) (\<lambda>_. checkIdentity plan)))"

text \<open>The loop over the registry.\<close>

definition addFeature :: "string \<times> string \<Rightarrow> string set \<times> (string, string) gomap
    \<Rightarrow> (string set \<times> (string, string) gomap) result" where
  "addFeature feature = (\<lambda>(knownIDs, featureByBinding).
     fail_if (fst feature = [] \<or> snd feature = [] \<or> fst feature \<in> knownIDs
         \<or> go_get0 [] featureByBinding (snd feature) \<noteq> [])
       (Err ''standard registry contains duplicate or empty feature'' [])
       (Inr (insert (fst feature) knownIDs, go_put (snd feature) (fst feature) featureByBinding)))"

definition compileEnv :: "(string \<times> string) list \<Rightarrow> string list \<Rightarrow> string \<Rightarrow> string \<Rightarrow> string list
    \<Rightarrow> (profile_env \<times> string set) result" where
  "compileEnv features implementationSources proofRuleSource captureShapeSource scenarios =
     res_bind (res_fold addFeature features ({}, [])) (\<lambda>(_, featureByBinding).
     res_bind (parseKnownShapes captureShapeSource) (\<lambda>knownShapes.
     res_bind (parseProofRules proofRuleSource knownShapes) (\<lambda>rules.
     res_bind (res_fold (\<lambda>source st. res_bind (parseSource source) (\<lambda>forms.
         collectImplementationDefinitions forms st)) implementationSources ({}, [])) (\<lambda>(bound, sources).
       Inr (\<lparr>pe_featureByBinding = featureByBinding, pe_bindings = bound, pe_sources = sources,
             pe_rules = rules, pe_scenarios = stringSet scenarios\<rparr>, knownShapes)))))"

definition CompileTelemetryProfile :: "unicode_tables \<Rightarrow> string \<Rightarrow> string list \<Rightarrow> (string \<times> string) list result
    \<Rightarrow> string \<Rightarrow> string \<Rightarrow> string list \<Rightarrow> NormalizedProfilePlan result" where
  "CompileTelemetryProfile U profileSource implementationSources registry proofRuleSource
      captureShapeSource scenarios =
     res_bind (res_wrap ''decode standard registry: %w'' [] registry) (\<lambda>features.
     res_bind (compileEnv features implementationSources proofRuleSource captureShapeSource scenarios)
       (\<lambda>(env, _).
     res_bind (parseSource profileSource) (\<lambda>forms.
       case findInForms forms ''profile'' of
         None \<Rightarrow> Inl (Err ''profile definition must use realworld-profile'' [])
       | Some expression \<Rightarrow>
           fail_if (head expression \<noteq> ''realworld-profile'')
             (Err ''profile definition must use realworld-profile'' [])
           (res_bind (res_fold (profileClause U env) (sx_args expression) (empty_plan, {}, {}))
             (\<lambda>(plan, _, _).
               res_bind (checkPlan plan) (\<lambda>plan.
                 Inr (plan\<lparr>np_proofs := sort_key pp_featureID (np_proofs plan)\<rparr>)))))))"

definition CompileNormalizedProfile where
  "CompileNormalizedProfile = CompileTelemetryProfile"

section \<open>Labels\<close>

text \<open>
  The two regular expressions over implementation names, as functions: the first position at
  which \<open>-v\<close> and a version run to the end, and versions whose separators are dashes.
\<close>

definition version_char :: "char \<Rightarrow> bool" where
  "version_char c \<longleftrightarrow> is_digit c \<or> 65 \<le> byte_of c \<and> byte_of c \<le> 90 \<or> 97 \<le> byte_of c \<and> byte_of c \<le> 122
     \<or> c = CHR ''.'' \<or> c = CHR ''-''"

definition alnum_char :: "char \<Rightarrow> bool" where
  "alnum_char c \<longleftrightarrow> is_digit c \<or> 65 \<le> byte_of c \<and> byte_of c \<le> 90 \<or> 97 \<le> byte_of c \<and> byte_of c \<le> 122"

definition version_here :: "string \<Rightarrow> bool" where
  "version_here s \<longleftrightarrow> prefix ''-v'' s \<and> (case drop 2 s of [] \<Rightarrow> False
     | d # rest \<Rightarrow> is_digit d \<and> list_all version_char rest)"

fun implementationVersionPattern :: "string \<Rightarrow> string option" where
  "implementationVersionPattern [] = None"
| "implementationVersionPattern (c # cs) =
     (if version_here (c # cs) then Some (drop 2 (c # cs)) else implementationVersionPattern cs)"

definition dashedImplementationVersionPattern :: "string \<Rightarrow> bool" where
  "dashedImplementationVersionPattern v =
     (case split_byte (CHR ''-'') v of
        [] \<Rightarrow> False
      | p # ps \<Rightarrow> p \<noteq> [] \<and> list_all is_digit p \<and> ps \<noteq> []
          \<and> list_all (\<lambda>q. q \<noteq> [] \<and> is_digit (hd q) \<and> list_all alnum_char (tl q)) ps)"

definition splitImplementationVersion :: "string \<Rightarrow> string \<times> string" where
  "splitImplementationVersion implementation =
     (case implementationVersionPattern implementation of
        None \<Rightarrow> (implementation, [])
      | Some version \<Rightarrow>
          (trim_suffix implementation (''-v'' @ version),
           if dashedImplementationVersionPattern version then replace_all version ''-'' ''.'' else version))"

definition FormatInstrumentationVersion :: "string list \<Rightarrow> string" where
  "FormatInstrumentationVersion implementations =
     join (map (\<lambda>implementation.
       case splitImplementationVersion implementation of
         (name, version) \<Rightarrow> if version = [] then implementation else name @ '' '' @ version)
       implementations) '' + ''"

text \<open>\<open>titleCase\<close>: \<open>strings.ToUpper\<close> of the first byte alone; a byte that is no rune becomes U+FFFD.\<close>

definition titleCase :: "string \<Rightarrow> string" where
  "titleCase v =
     (case v of [] \<Rightarrow> []
      | c # cs \<Rightarrow>
          if byte_of c < 0x80 then
            (if 97 \<le> byte_of c \<and> byte_of c \<le> 122 then char_of (byte_of c - 32) else c) # cs
          else encode_rune rune_error @ cs)"

definition primaryImplementationVersion :: "string list \<Rightarrow> string" where
  "primaryImplementationVersion implementations =
     (let split = map splitImplementationVersion implementations;
          keyed = concat (map (\<lambda>keyword. map (\<lambda>(name, version). keyword @ '' '' @ version)
            (filter (\<lambda>(name, version). version \<noteq> [] \<and> contains name keyword) split))
            [''auto'', ''sdk'', ''compile'']);
          plain = map (\<lambda>(name, version). name @ '' '' @ version) (filter (\<lambda>(name, version). version \<noteq> []) split)
      in case keyed @ plain of [] \<Rightarrow> [] | label # _ \<Rightarrow> label)"

definition middle_dot :: string where
  "middle_dot = [CHR 0x20, CHR 0xC2, CHR 0xB7, CHR 0x20]"

definition FormatProfileLabel :: "string \<Rightarrow> string \<Rightarrow> string list \<Rightarrow> string" where
  "FormatProfileLabel language framework implementations =
     (let version = primaryImplementationVersion implementations
      in join ([titleCase language] @ (if framework \<noteq> [] then [framework] else [])
           @ (if version \<noteq> [] then [version] else [])) middle_dot)"

section \<open>Lemmas\<close>

subsection \<open>Rules, claims and proofs\<close>

text \<open>What a compiled proof satisfies.\<close>

definition good_proof :: "unicode_tables \<Rightarrow> profile_env \<Rightarrow> string set \<Rightarrow> ProofPlanProof \<Rightarrow> bool" where
  "good_proof U env shapes p \<longleftrightarrow>
     (\<exists>binding rule. go_get (pe_featureByBinding env) binding = Some (pp_featureID p)
        \<and> go_get (pe_rules env) (pp_featureID p) = Some rule
        \<and> pp_assertion p = ru_assertion rule \<and> pp_evidencePolicy p = ru_policy rule)
     \<and> pp_assertion p \<in> shapes
     \<and> (pp_evidencePolicy p = ''wire-sufficient'' \<and> pp_basis p = ''observed'' \<and> pp_sources p = []
        \<or> pp_evidencePolicy p = ''requires-immutable-source'' \<and> pp_basis p = ''corroborated'' \<and> pp_sources p \<noteq> [])
     \<and> (\<forall>name \<in> set (pp_sources p). validateImmutableSource U (go_get0 [] (pe_sources env) name) = Inr ())
     \<and> length (pp_scenarios p) \<le> 1 \<and> set (pp_scenarios p) \<subseteq> pe_scenarios env"

lemma go_get0_not_empty: "go_get0 [] m k \<noteq> [] \<Longrightarrow> go_get m k = Some (go_get0 [] m k)"
  by (auto simp: go_get0_def split: option.splits)

lemma proofRuleTable_policies:
  assumes "parseProofRuleTable source = Inr rules" "go_get rules ident = Some rule"
  shows "ru_policy rule \<in> set evidence_policies"
proof -
  have step: "(\<forall>i r. go_get rs' i = Some r \<longrightarrow> ru_policy r \<in> set evidence_policies)"
    if "addProofRule item rs = Inr rs'" "\<forall>i r. go_get rs i = Some r \<longrightarrow> ru_policy r \<in> set evidence_policies"
    for item rs rs'
    using that by (auto simp: addProofRule_def res_cases Let_def go_get_put split: if_splits)
  obtain items where run: "res_fold addProofRule items [] = Inr rules"
    using assms(1) by (auto simp: parseProofRuleTable_def res_cases Let_def)
  have "\<forall>i r. go_get rules i = Some r \<longrightarrow> ru_policy r \<in> set evidence_policies"
    using run by (rule res_fold_invariant [where I = "\<lambda>_ rs. \<forall>i r. go_get rs i = Some r \<longrightarrow>
      ru_policy r \<in> set evidence_policies"]) (auto dest: step)
  with assms(2) show ?thesis by blast
qed

lemma parseProofRules_good:
  assumes "parseProofRules source shapes = Inr rules" "go_get rules ident = Some rule"
  shows "ru_policy rule \<in> set evidence_policies \<and> ru_assertion rule \<in> shapes"
proof
  show "ru_policy rule \<in> set evidence_policies"
    using assms proofRuleTable_policies by (auto simp: parseProofRules_def res_cases)
  show "ru_assertion rule \<in> shapes"
    using assms map_of_SomeD [OF assms(2)] by (fastforce simp: parseProofRules_def res_cases)
qed

lemma compileEnv_rules:
  assumes "compileEnv features implementationSources proofRuleSource captureShapeSource scenarios = Inr (env, shapes)"
    and "go_get (pe_rules env) ident = Some rule"
  shows "ru_policy rule \<in> set evidence_policies \<and> ru_assertion rule \<in> shapes"
  using assms parseProofRules_good by (auto simp: compileEnv_def res_cases split: prod.splits)

lemma claimBody_sources:
  assumes "claimBody U env body = Inr (featureExprs, names)"
  shows "(names \<noteq> [] \<longrightarrow> head body = ''corroborated'') \<and>
    (\<forall>name \<in> set names. validateImmutableSource U (go_get0 [] (pe_sources env) name) = Inr ())"
  using assms res_map_set [of "claimSource U env" _ names]
  by (fastforce simp: claimBody_def claimSource_def res_cases Let_def split: if_splits)

lemma parseProfileClaim_good:
  assumes env: "compileEnv features implementationSources proofRuleSource captureShapeSource scenarios = Inr (env, shapes)"
    and run: "parseProfileClaim U env clause = Inr proofs" and p: "p \<in> set proofs"
  shows "good_proof U env shapes p"
proof -
  obtain scope body featureExprs names where scope: "claimScope env clause = Inr (scope, body)"
    and body: "claimBody U env body = Inr (featureExprs, names)"
    and proofs: "res_map (claimProof env (head body) scope names) featureExprs = Inr proofs"
    using run by (auto simp: parseProfileClaim_def res_cases)
  obtain featureExpr where pe: "claimProof env (head body) scope names featureExpr = Inr p"
    using res_map_set [OF proofs p] by blast
  obtain rule where rule: "go_get (pe_rules env) (pp_featureID p) = Some rule"
    "pp_assertion p = ru_assertion rule" "pp_evidencePolicy p = ru_policy rule" "pp_basis p = head body"
    "pp_scenarios p = scope" "pp_sources p = names"
    "go_get (pe_featureByBinding env) (atomValue featureExpr) = Some (pp_featureID p)"
    and immutable: "ru_policy rule = ''requires-immutable-source'' \<longrightarrow> names \<noteq> []"
    and wire: "ru_policy rule = ''wire-sufficient'' \<longrightarrow> head body = ''observed''"
    using pe by (auto simp: claimProof_def res_cases Let_def go_get0_not_empty split: option.splits)
  have "length scope \<le> 1 \<and> set scope \<subseteq> pe_scenarios env"
    using scope by (auto simp: claimScope_def res_cases Let_def split: if_splits)
  moreover have "ru_policy rule \<in> set evidence_policies" "ru_assertion rule \<in> shapes"
    using compileEnv_rules [OF env rule(1)] by blast+
  ultimately show ?thesis
    using rule immutable wire claimBody_sources [OF body]
    unfolding good_proof_def evidence_policies_def by auto
qed

subsection \<open>The loop over the clauses\<close>

text \<open>What every clause keeps of the plan and of the features claimed so far.\<close>

definition profile_inv :: "unicode_tables \<Rightarrow> profile_env \<Rightarrow> string set \<Rightarrow> NormalizedProfilePlan \<Rightarrow> string set \<Rightarrow> bool" where
  "profile_inv U env shapes plan claims \<longleftrightarrow>
     claims = pp_featureID ` set (np_proofs plan) \<and> distinct (map pp_featureID (np_proofs plan))
     \<and> (\<forall>p \<in> set (np_proofs plan). good_proof U env shapes p)
     \<and> set (np_implementations plan) \<subseteq> pe_bindings env
     \<and> (\<forall>name. go_get (np_sources plan) name =
          (if \<exists>p \<in> set (np_proofs plan). name \<in> set (pp_sources p)
           then Some (go_get0 [] (pe_sources env) name) else None))
     \<and> np_schemaVersion plan = 1"

lemma go_get_fold_put:
  "go_get (fold (\<lambda>n. go_put n (f n)) ns m) k = (if k \<in> set ns then Some (f k) else go_get m k)"
  by (induction ns arbitrary: m) (auto simp: go_get_put)

lemma setIdentity_keeps [simp]:
  "np_proofs (setIdentity n v plan) = np_proofs plan" "np_sources (setIdentity n v plan) = np_sources plan"
  "np_implementations (setIdentity n v plan) = np_implementations plan"
  "np_schemaVersion (setIdentity n v plan) = np_schemaVersion plan"
  by (simp_all add: setIdentity_def)

lemma metadataClause_keeps:
  assumes "metadataClause env clause plan = Inr plan'"
  shows "np_proofs plan' = np_proofs plan \<and> np_sources plan' = np_sources plan
    \<and> np_schemaVersion plan' = np_schemaVersion plan
    \<and> set (np_implementations plan') \<subseteq> set (np_implementations plan) \<union> pe_bindings env"
proof -
  have names: "set names \<subseteq> pe_bindings env"
    if "res_map (\<lambda>item. fail_if (atomValue item \<notin> pe_bindings env)
      (Err ''unknown implementation binding %q'' [atomValue item]) (Inr (atomValue item))) items = Inr names"
    for items names
    using that res_map_set by (fastforce simp: res_cases)
  show ?thesis
    using assms unfolding metadataClause_def Let_def
    by (auto simp: res_cases split: if_splits dest!: names)
qed

lemma addProof_inv:
  assumes "addProof env p (plan, claims) = Inr (plan', claims')" "profile_inv U env shapes plan claims"
    "good_proof U env shapes p"
  shows "profile_inv U env shapes plan' claims'"
  using assms by (auto simp: addProof_def res_cases profile_inv_def go_get_fold_put)

lemma addProofs_inv:
  assumes "res_fold (addProof env) proofs (plan, claims) = Inr (plan', claims')"
    "profile_inv U env shapes plan claims" "\<And>p. p \<in> set proofs \<Longrightarrow> good_proof U env shapes p"
  shows "profile_inv U env shapes plan' claims'"
proof -
  have "case (plan', claims') of (plan, claims) \<Rightarrow> profile_inv U env shapes plan claims"
    using assms(1) by (rule res_fold_invariant [where I = "\<lambda>_ (plan, claims). profile_inv U env shapes plan claims"])
      (use assms(2,3) addProof_inv in fastforce)+
  then show ?thesis by simp
qed

lemma profileClause_inv:
  assumes "compileEnv features implementationSources proofRuleSource captureShapeSource scenarios = Inr (env, shapes)"
    "profileClause U env clause (plan, claims, seen) = Inr (plan', claims', seen')"
    "profile_inv U env shapes plan claims"
  shows "profile_inv U env shapes plan' claims'"
proof (cases "head clause = ''all'' \<or> head clause = ''scenario''")
  case True
  with assms(2) obtain proofs where "parseProfileClaim U env clause = Inr proofs"
    "res_fold (addProof env) proofs (plan, claims) = Inr (plan', claims')"
    by (auto simp: profileClause_def res_cases Let_def)
  with addProofs_inv assms(3) parseProfileClaim_good [OF assms(1)] show ?thesis by blast
next
  case False
  with assms(2) have "metadataClause env clause plan = Inr plan'" "claims' = claims"
    by (auto simp: profileClause_def res_cases Let_def)
  with metadataClause_keeps [OF this(1)] assms(3) show ?thesis
    unfolding profile_inv_def by auto
qed

lemma profileClauses_inv:
  assumes "compileEnv features implementationSources proofRuleSource captureShapeSource scenarios = Inr (env, shapes)"
    "res_fold (profileClause U env) clauses (empty_plan, {}, {}) = Inr (plan, claims, seen)"
  shows "profile_inv U env shapes plan claims"
proof -
  have start: "profile_inv U env shapes empty_plan {}"
    by (simp add: profile_inv_def empty_plan_def)
  have "case (plan, claims, seen) of (plan, claims, _) \<Rightarrow> profile_inv U env shapes plan claims"
    using assms(2) by (rule res_fold_invariant [where I = "\<lambda>_ (plan, claims, _). profile_inv U env shapes plan claims"])
      (use start profileClause_inv [OF assms(1)] in fastforce)+
  then show ?thesis by simp
qed

lemma sorted_distinct_strict:
  fixes f :: "'a \<Rightarrow> string"
  assumes "distinct (map f xs)"
  shows "sorted_wrt (\<lambda>x y. f x < f y) (sort_key f xs)"
proof -
  have "distinct (map f (sort_key f xs))" using assms by (simp add: distinct_map)
  moreover have "sorted (map f (sort_key f xs))" by simp
  ultimately have "sorted_wrt (<) (map f (sort_key f xs))" by (simp add: strict_sorted_iff)
  then show ?thesis by (simp add: sorted_wrt_map)
qed

text \<open>A concrete profile with its sources.\<close>

definition mk_str :: "string \<Rightarrow> sexpr" where
  "mk_str s = SExpr s [] True"

definition ex_shapes_form :: sexpr where
  "ex_shapes_form = mk_list [mk_atom ''define'', mk_atom ''capture-shapes'', mk_list [mk_atom ''list'',
     mk_list [mk_atom ''capture-shape'', mk_list [mk_atom ''quote'', mk_atom ''http''], mk_atom ''x'']]]"

definition ex_rules_form :: sexpr where
  "ex_rules_form = mk_list [mk_atom ''define'', mk_atom ''proof-rules'', mk_list [mk_atom ''quote'', mk_list
     [mk_list [mk_str ''f1'', mk_list [mk_atom ''assertion'', mk_atom ''http''],
       mk_list [mk_atom ''evidence'', mk_atom ''wire-sufficient'']]]]]"

definition ex_binding_form :: sexpr where
  "ex_binding_form = mk_list [mk_atom ''define'', mk_atom ''sdk'', mk_str ''https://example.org'']"

definition ex_profile_form :: sexpr where
  "ex_profile_form = mk_list [mk_atom ''define'', mk_atom ''profile'', mk_list [mk_atom ''realworld-profile'',
     mk_list [mk_atom ''id'', mk_atom ''p''], mk_list [mk_atom ''display-name'', mk_str ''P''],
     mk_list [mk_atom ''language'', mk_list [mk_atom ''quote'', mk_atom ''go'']],
     mk_list [mk_atom ''framework'', mk_str ''gin''], mk_list [mk_atom ''service-name'', mk_str ''svc''],
     mk_list [mk_atom ''signals'', mk_atom ''traces''],
     mk_list [mk_atom ''implementation'', mk_list [mk_atom ''compose'', mk_atom ''sdk'']],
     mk_list [mk_atom ''all'', mk_list [mk_atom ''observed'', mk_atom ''feature'']]]]"

lemmas ex_form_defs = ex_shapes_form_def ex_rules_form_def ex_binding_form_def ex_profile_form_def mk_str_def

lemma ex_forms_parse:
  "parseSource (printScheme [ex_shapes_form]) = Inr [ex_shapes_form]"
  "parseSource (printScheme [ex_rules_form]) = Inr [ex_rules_form]"
  "parseSource (printScheme [ex_binding_form]) = Inr [ex_binding_form]"
  "parseSource (printScheme [ex_profile_form]) = Inr [ex_profile_form]"
  by (rule parse_print, simp add: ex_form_defs token_ok_def utf8_valid_ascii ends_atom_def is_space_def
    delimiter_def delimiter_atom_def)+

definition ex_env :: profile_env where
  "ex_env = \<lparr>pe_featureByBinding = [(''feature'', ''f1'')], pe_bindings = {''sdk''},
     pe_sources = [(''sdk'', ''https://example.org'')],
     pe_rules = [(''f1'', \<lparr>ru_assertion = ''http'', ru_policy = ''wire-sufficient''\<rparr>)], pe_scenarios = {}\<rparr>"

definition ex_plan :: NormalizedProfilePlan where
  "ex_plan = empty_plan\<lparr>np_profile := ''p'', np_displayName := ''P'', np_language := ''go'',
     np_framework := ''gin'', np_serviceName := ''svc'', np_signals := [''traces''],
     np_implementations := [''sdk''],
     np_proofs := [\<lparr>pp_featureID = ''f1'', pp_assertion = ''http'', pp_basis = ''observed'',
       pp_evidencePolicy = ''wire-sufficient'', pp_scenarios = [], pp_sources = []\<rparr>]\<rparr>"

lemma ex_known_shapes: "parseKnownShapes (printScheme [ex_shapes_form]) = Inr {''http''}"
  unfolding parseKnownShapes_def ex_forms_parse res_bind.simps by code_simp

lemma ex_compiles:
  "CompileTelemetryProfile plain_tables (printScheme [ex_profile_form]) [printScheme [ex_binding_form]]
     (Inr [(''f1'', ''feature'')]) (printScheme [ex_rules_form]) (printScheme [ex_shapes_form]) [] = Inr ex_plan"
proof -
  have table: "parseProofRuleTable (printScheme [ex_rules_form]) = Inr (pe_rules ex_env)"
    unfolding parseProofRuleTable_def ex_forms_parse res_bind.simps by code_simp
  have env: "compileEnv [(''f1'', ''feature'')] [printScheme [ex_binding_form]] (printScheme [ex_rules_form])
      (printScheme [ex_shapes_form]) [] = Inr (ex_env, {''http''})"
    unfolding compileEnv_def ex_known_shapes parseProofRules_def table ex_forms_parse res_bind.simps res_fold.simps
    by code_simp
  have loop: "res_fold (profileClause plain_tables ex_env) (sx_args (sx_list ex_profile_form ! 2)) (empty_plan, {}, {})
      = Inr (ex_plan, {''f1''}, set (rev (map (\<lambda>e. head e) (take 7 (sx_args (sx_list ex_profile_form ! 2))))))"
    by code_simp
  have profile: "findInForms [ex_profile_form] ''profile'' = Some (sx_list ex_profile_form ! 2)"
    "head (sx_list ex_profile_form ! 2) = ''realworld-profile''" by code_simp+
  have check: "checkPlan ex_plan = Inr ex_plan"
    "ex_plan\<lparr>np_proofs := sort_key pp_featureID (np_proofs ex_plan)\<rparr> = ex_plan"
    by (simp_all add: checkPlan_def checkSignals_def checkIdentity_def ex_plan_def empty_plan_def)
  show ?thesis
    unfolding CompileTelemetryProfile_def res_wrap.simps res_bind.simps env prod.case ex_forms_parse profile
      option.case loop
    by (simp add: check profile(2) fail_if_def)
qed

subsection \<open>Versions\<close>

text \<open>The text that may follow \<open>-v\<close>.\<close>

definition version_text :: "string \<Rightarrow> bool" where
  "version_text s \<longleftrightarrow> (case s of [] \<Rightarrow> False | d # rest \<Rightarrow> is_digit d \<and> list_all version_char rest)"

lemma version_here_iff: "version_here s \<longleftrightarrow> (\<exists>raw. s = ''-v'' @ raw \<and> version_text raw)"
  by (auto simp: version_here_def version_text_def prefix_def)

lemma pattern_None:
  "implementationVersionPattern s = None \<Longrightarrow> s = a @ ''-v'' @ raw \<Longrightarrow> \<not> version_text raw"
proof (induction s arbitrary: a)
  case (Cons c cs)
  from Cons.prems(1) have no: "\<not> version_here (c # cs)" "implementationVersionPattern cs = None"
    by (simp_all split: if_splits)
  show ?case
  proof (cases a)
    case Nil
    with no(1) Cons.prems(2) show ?thesis by (auto simp: version_here_iff)
  next
    case (Cons d a')
    then show ?thesis using \<open>c # cs = a @ ''-v'' @ raw\<close> Cons.IH [OF no(2), of a'] by simp
  qed
qed simp

lemma pattern_Some:
  "implementationVersionPattern s = Some raw \<Longrightarrow> \<exists>a. s = a @ ''-v'' @ raw \<and> version_text raw \<and>
    (\<forall>b r. s = b @ ''-v'' @ r \<and> version_text r \<longrightarrow> length a \<le> length b)"
proof (induction s)
  case (Cons c cs)
  show ?case
  proof (cases "version_here (c # cs)")
    case True
    with Cons.prems show ?thesis by (intro exI [of _ "[]"]) (auto simp: version_here_iff)
  next
    case False
    with Cons obtain a where a: "cs = a @ ''-v'' @ raw" "version_text raw"
      "\<forall>b r. cs = b @ ''-v'' @ r \<and> version_text r \<longrightarrow> length a \<le> length b" by auto
    have "length (c # a) \<le> length b" if b: "c # cs = b @ ''-v'' @ r" "version_text r" for b r
    proof (cases b)
      case Nil
      with b False show ?thesis unfolding version_here_iff by auto
    next
      case (Cons d b')
      with b a(3) show ?thesis by simp
    qed
    with a(1,2) show ?thesis by (intro exI [of _ "c # a"]) simp
  qed
qed simp

lemma cut_byte:
  "str_cut s [c] = (if c \<in> set s then Some (takeWhile (\<lambda>x. x \<noteq> c) s, tl (dropWhile (\<lambda>x. x \<noteq> c) s)) else None)"
  by (induction s) auto

lemma replace_all_byte: "replace_all s [c] [d] = map (\<lambda>x. if x = c then d else x) s"
proof (induction s rule: measure_induct_rule [of length])
  case (less s)
  show ?case
  proof (cases "c \<in> set s")
    case True
    obtain a b where ab: "str_cut s [c] = Some (a, b)" using True by (simp add: cut_byte)
    have "c \<notin> set a" using ab True by (auto simp: cut_byte dest: set_takeWhileD)
    then have "map (\<lambda>x. if x = c then d else x) a = a" by (intro map_idI) auto
    moreover have "replace_all s [c] [d] = a @ [d] @ replace_all b [c] [d]"
      by (subst replace_all.simps) (simp add: ab)
    ultimately show ?thesis using less.IH [of b] cut_Some [OF ab] cut_rest_length [OF ab] by simp
  next
    case False
    then have "map (\<lambda>x. if x = c then d else x) s = s" by (intro map_idI) auto
    with False show ?thesis by (simp add: replace_all.simps [of s] cut_byte)
  qed
qed

lemma trim_suffix_append: "trim_suffix (a @ b) b = a"
  by (simp add: trim_suffix_def suffix_def)

section \<open>Properties\<close>

text \<open>What the checks after the loop establish of the metadata.\<close>

definition good_metadata :: "NormalizedProfilePlan \<Rightarrow> bool" where
  "good_metadata plan \<longleftrightarrow>
     np_profile plan \<noteq> [] \<and> np_displayName plan \<noteq> [] \<and> np_framework plan \<noteq> [] \<and> np_serviceName plan \<noteq> []
     \<and> np_language plan \<in> {''go'', ''python'', ''ruby''}
     \<and> np_signals plan \<noteq> [] \<and> set (np_signals plan) \<subseteq> {''traces'', ''metrics'', ''logs''}
     \<and> np_implementations plan \<noteq> [] \<and> np_proofs plan \<noteq> []
     \<and> (np_schemaVersion plan = 1 \<and> np_family plan = [] \<and> np_wireVersion plan = [] \<and> np_tracerVersion plan = []
          \<and> np_application plan = [] \<and> np_shapeNamespace plan = []
        \<or> np_schemaVersion plan = 2 \<and> np_family plan = ''datadog'' \<and> np_wireVersion plan \<in> {''v0.4'', ''v0.5''}
          \<and> np_signals plan = [''traces''] \<and> np_tracerVersion plan \<noteq> []
          \<and> (np_application plan = ''rails'' \<longrightarrow> np_serverOperation plan = ''rack.request''))"

lemma checkSignals_good: "checkSignals signals = Inr () \<Longrightarrow> set signals \<subseteq> {''traces'', ''metrics'', ''logs''}"
  unfolding checkSignals_def res_each_Inr_iff by (blast dest: fail_if_Inr_iff [THEN iffD1])

lemma checkIdentity_good:
  assumes "checkIdentity plan = Inr plan'" "np_schemaVersion plan = 1"
  shows "\<exists>v. plan' = plan\<lparr>np_schemaVersion := v\<rparr> \<and>
    (v = 1 \<and> np_family plan = [] \<and> np_wireVersion plan = [] \<and> np_tracerVersion plan = []
       \<and> np_application plan = [] \<and> np_shapeNamespace plan = []
     \<or> v = 2 \<and> np_family plan = ''datadog'' \<and> np_wireVersion plan \<in> {''v0.4'', ''v0.5''}
       \<and> np_signals plan = [''traces''] \<and> np_tracerVersion plan \<noteq> []
       \<and> (np_application plan = ''rails'' \<longrightarrow> np_serverOperation plan = ''rack.request''))"
proof (cases "np_family plan = []")
  case True
  with assms show ?thesis by (intro exI [of _ 1]) (auto simp: checkIdentity_def fail_if_Inr_iff)
next
  case False
  with assms(1) show ?thesis
    by (intro exI [of _ 2]) (auto simp: checkIdentity_def fail_if_Inr_iff)
qed

lemma checkPlan_good:
  assumes "checkPlan plan = Inr plan'" "np_schemaVersion plan = 1"
  shows "good_metadata plan' \<and> np_proofs plan' = np_proofs plan \<and> np_sources plan' = np_sources plan
    \<and> np_implementations plan' = np_implementations plan"
proof -
  have signals: "checkSignals (np_signals plan) = Inr ()" and ident: "checkIdentity plan = Inr plan'"
    and meta: "\<not> (np_profile plan = [] \<or> np_displayName plan = [] \<or> np_language plan = []
         \<or> np_framework plan = [] \<or> np_serviceName plan = [] \<or> np_signals plan = []
         \<or> np_implementations plan = [] \<or> np_proofs plan = [])"
      "\<not> np_language plan \<notin> {''go'', ''python'', ''ruby''}"
    using assms(1) unfolding checkPlan_def fail_if_Inr_iff res_bind_Inr_iff
    by - (elim conjE exE, simp, blast+)
  obtain v where v: "plan' = plan\<lparr>np_schemaVersion := v\<rparr>" and cases:
    "v = 1 \<and> np_family plan = [] \<and> np_wireVersion plan = [] \<and> np_tracerVersion plan = []
       \<and> np_application plan = [] \<and> np_shapeNamespace plan = []
     \<or> v = 2 \<and> np_family plan = ''datadog'' \<and> np_wireVersion plan \<in> {''v0.4'', ''v0.5''}
       \<and> np_signals plan = [''traces''] \<and> np_tracerVersion plan \<noteq> []
       \<and> (np_application plan = ''rails'' \<longrightarrow> np_serverOperation plan = ''rack.request'')"
    using checkIdentity_good [OF ident assms(2)] by blast
  have "good_metadata plan'"
    unfolding good_metadata_def v using cases checkSignals_good [OF signals] meta by simp
  then show ?thesis by (simp add: v)
qed

lemma sort_key_Nil: "sort_key f xs = [] \<longleftrightarrow> xs = []"
  by (metis length_0_conv length_sort)

text \<open>
  C36. Every plan the compiler returns is complete and backed by its sources: the metadata is
  complete and consistent with the schema version; the proofs are in strict order of their
  feature ids, so no feature is claimed twice; each proof has the assertion and the policy of
  its rule and an assertion that is a known capture shape; a wire-sufficient feature is
  observed without sources, any other is corroborated by at least one immutable source; the
  sources of the plan are exactly those its proofs name.
\<close>

theorem compiled_plan_good:
  assumes "CompileTelemetryProfile U profileSource implementationSources registry proofRuleSource
    captureShapeSource scenarios = Inr plan"
  shows "\<exists>features env shapes. registry = Inr features \<and>
    compileEnv features implementationSources proofRuleSource captureShapeSource scenarios = Inr (env, shapes) \<and>
    good_metadata plan \<and> sorted_wrt (\<lambda>p q. pp_featureID p < pp_featureID q) (np_proofs plan) \<and>
    list_all (good_proof U env shapes) (np_proofs plan) \<and> set (np_implementations plan) \<subseteq> pe_bindings env \<and>
    (\<forall>name. go_get (np_sources plan) name =
       (if \<exists>p \<in> set (np_proofs plan). name \<in> set (pp_sources p)
        then Some (go_get0 [] (pe_sources env) name) else None))"
proof -
  obtain features env shapes clauses plan1 claims seen plan2 where
    env: "registry = Inr features"
      "compileEnv features implementationSources proofRuleSource captureShapeSource scenarios = Inr (env, shapes)"
    and loop: "res_fold (profileClause U env) clauses (empty_plan, {}, {}) = Inr (plan1, claims, seen)"
    and check: "checkPlan plan1 = Inr plan2"
    and plan: "plan = plan2\<lparr>np_proofs := sort_key pp_featureID (np_proofs plan2)\<rparr>"
    using assms by (auto simp: CompileTelemetryProfile_def res_cases split: option.splits)
  have inv: "profile_inv U env shapes plan1 claims" using profileClauses_inv [OF env(2) loop] .
  then have good: "good_metadata plan2" "np_proofs plan2 = np_proofs plan1" "np_sources plan2 = np_sources plan1"
    "np_implementations plan2 = np_implementations plan1"
    using checkPlan_good [OF check] by (simp_all add: profile_inv_def)
  have "good_metadata plan" using good(1) unfolding plan good_metadata_def by (simp add: sort_key_Nil)
  moreover have "sorted_wrt (\<lambda>p q. pp_featureID p < pp_featureID q) (np_proofs plan)"
    using inv good(2) by (simp add: plan profile_inv_def sorted_distinct_strict)
  ultimately show ?thesis
    using env inv good unfolding profile_inv_def plan by (auto simp: list_all_iff)
qed

theorem compiled_plan_good_witness:
  "\<exists>env. list_all (good_proof plain_tables env {''http''}) (np_proofs ex_plan) \<and> good_metadata ex_plan"
proof -
  obtain features env shapes where c: "Inr [(''f1'', ''feature'')] = Inr features"
    "compileEnv features [printScheme [ex_binding_form]] (printScheme [ex_rules_form])
      (printScheme [ex_shapes_form]) [] = Inr (env, shapes)" "good_metadata ex_plan"
    "list_all (good_proof plain_tables env shapes) (np_proofs ex_plan)"
    using compiled_plan_good [OF ex_compiles] by blast
  have "shapes = {''http''}"
    using c(1,2) by (auto simp: compileEnv_def ex_known_shapes res_cases)
  with c show ?thesis by blast
qed

text \<open>
  The version of an implementation is its suffix from the first \<open>-v\<close> that a version follows
  to the end, dashes read as dots only in all-dash versions; a name without such a suffix
  keeps its text and has no version.
\<close>

theorem implementation_version_split:
  assumes "splitImplementationVersion implementation = (name, version)"
  shows "if \<exists>a raw. implementation = a @ ''-v'' @ raw \<and> version_text raw
    then \<exists>raw. implementation = name @ ''-v'' @ raw \<and> version_text raw
      \<and> (\<forall>a r. implementation = a @ ''-v'' @ r \<and> version_text r \<longrightarrow> length name \<le> length a)
      \<and> version = (if dashedImplementationVersionPattern raw
          then map (\<lambda>c. if c = CHR ''-'' then CHR ''.'' else c) raw else raw)
    else name = implementation \<and> version = []"
proof (cases "implementationVersionPattern implementation")
  case None
  then show ?thesis using assms pattern_None [OF None] by (auto simp: splitImplementationVersion_def)
next
  case (Some raw)
  obtain a where a: "implementation = a @ ''-v'' @ raw" "version_text raw"
    "\<forall>b r. implementation = b @ ''-v'' @ r \<and> version_text r \<longrightarrow> length a \<le> length b"
    using pattern_Some [OF Some] by blast
  then have "name = a" "version = (if dashedImplementationVersionPattern raw
      then map (\<lambda>c. if c = CHR ''-'' then CHR ''.'' else c) raw else raw)"
    using assms Some by (auto simp: splitImplementationVersion_def trim_suffix_append replace_all_byte
      simp del: append.simps)
  with a show ?thesis by auto
qed

theorem implementation_version_split_witness:
  "splitImplementationVersion ''go-sdk-v1-44'' = (''go-sdk'', ''1.44'') \<and>
   (\<exists>raw. ''go-sdk-v1-44'' = ''go-sdk'' @ ''-v'' @ raw \<and> version_text raw)"
proof -
  have s: "splitImplementationVersion ''go-sdk-v1-44'' = (''go-sdk'', ''1.44'')" by code_simp
  have "''go-sdk-v1-44'' = ''go-sdk'' @ ''-v'' @ ''1-44'' \<and> version_text ''1-44''" by code_simp
  then have "\<exists>a raw. ''go-sdk-v1-44'' = a @ ''-v'' @ raw \<and> version_text raw" by blast
  from implementation_version_split [OF s, unfolded if_P [OF this]] s show ?thesis by blast
qed

end
