(* ===== verification/Matrix.thy ===== *)
theory Matrix
  imports Sources
begin

text \<open>
  The import of the specification's compliance matrix, \<open>report/report/matrix.go\<close>: a reader of
  Markdown tables that keeps a section, a group and the columns of the current table, and the
  identifiers it derives for features.
\<close>

section \<open>Markdown\<close>

text \<open>The two regular expressions for links, as functions: the text and the target of a link
  that starts at the front of a string, with what follows it.\<close>

definition link_here :: "string \<Rightarrow> (string \<times> string \<times> string) option" where
  "link_here s =
     (case s of [] \<Rightarrow> None
      | c # cs \<Rightarrow>
          if c \<noteq> CHR ''['' then None
          else (case str_cut cs '']'' of None \<Rightarrow> None
            | Some (label, rest) \<Rightarrow>
                if label = [] \<or> \<not> prefix ''('' rest then None
                else (case str_cut (tl rest) '')'' of None \<Rightarrow> None
                  | Some (target, after) \<Rightarrow> if target = [] then None else Some (label, target, after))))"

definition drop_stars :: "string \<Rightarrow> string" where
  "drop_stars s = (if prefix ''**'' s then drop 2 s else if prefix ''*'' s then drop 1 s else s)"

definition markdownLink :: "string \<Rightarrow> (string \<times> string) option" where
  "markdownLink s =
     (case link_here (drop_stars s) of None \<Rightarrow> None
      | Some (label, target, after) \<Rightarrow>
          if after \<in> {[], ''*'', ''**''} then Some (label, target) else None)"

lemma link_here_shorter: "link_here s = Some (label, target, after) \<Longrightarrow> length after < length s"
proof -
  assume l: "link_here s = Some (label, target, after)"
  then obtain c cs rest where s: "s = c # cs" and r: "str_cut cs '']'' = Some (label, rest)"
    "str_cut (tl rest) '')'' = Some (target, after)"
    by (auto simp: link_here_def split: list.splits option.splits if_splits prod.splits)
  from cut_rest_length [OF r(1)] cut_rest_length [OF r(2)] show ?thesis by (simp add: s)
qed

text \<open>\<open>inlineMarkdownLink.ReplaceAllString(value, "$1")\<close>\<close>

function unlink_inline :: "string \<Rightarrow> string" where
  "unlink_inline [] = []"
| "unlink_inline (c # cs) =
     (case link_here (c # cs) of None \<Rightarrow> c # unlink_inline cs
      | Some (label, _, after) \<Rightarrow> label @ unlink_inline after)"
  by pat_completeness auto
termination
  by (relation "measure length") (auto dest: link_here_shorter)

definition cleanMarkdown :: "string \<Rightarrow> string" where
  "cleanMarkdown v =
     (let v = trim_space v;
          v = (case markdownLink v of None \<Rightarrow> v | Some (label, _) \<Rightarrow> label);
          v = unlink_inline v;
          v = replace_all v ''**'' [];
          v = replace_all v [CHR 0x60] []
      in trim_space (replace_all v [CHR 0x5C, CHR ''|''] ''|''))"

definition parseFeatureCell :: "string \<Rightarrow> string \<times> string" where
  "parseFeatureCell cell =
     (let cell = trim_space cell
      in case markdownLink cell of
           None \<Rightarrow> (cleanMarkdown cell, [])
         | Some (label, target) \<Rightarrow> (cleanMarkdown label, target))"

section \<open>Rows\<close>

text \<open>
  The loop over the runes of a row: a bar ends the cell unless a backslash escapes it, and a
  backslash that is itself escaped escapes nothing.
\<close>

fun splitCells :: "bool \<Rightarrow> nat list \<Rightarrow> nat list \<Rightarrow> nat list list" where
  "splitCells escaped cell [] = [cell]"
| "splitCells escaped cell (r # rs) =
     (if r = 124 \<and> \<not> escaped then cell # splitCells False [] rs
      else splitCells (r = 92 \<and> \<not> escaped) (cell @ [r]) rs)"

definition drop_empty_ends :: "string list \<Rightarrow> string list" where
  "drop_empty_ends raw =
     (let raw = (if raw \<noteq> [] \<and> hd raw = [] then tl raw else raw)
      in if raw \<noteq> [] \<and> last raw = [] then butlast raw else raw)"

definition splitMarkdownRow :: "string \<Rightarrow> string list" where
  "splitMarkdownRow line =
     drop_empty_ends (map (\<lambda>cell. trim_space (encode_runes cell))
       (splitCells False [] (runes (trim_space line))))"

definition isSeparatorRow :: "string list \<Rightarrow> bool" where
  "isSeparatorRow cells = list_all (\<lambda>cell. trim_set {CHR '' '', CHR '':'', CHR ''-''} cell = []) cells"

definition supportState :: "string \<Rightarrow> string" where
  "supportState v =
     (let v = trim_space v
      in if v = ''+'' then ''supported''
         else if v = ''N/A'' then ''n/a''
         else if v = ''-'' \<or> prefix ''[-]'' v then ''unsupported''
         else ''unknown'')"

definition resolveSourceLink :: "string \<Rightarrow> string \<Rightarrow> string" where
  "resolveSourceLink href revision =
     (if prefix ''https://'' href \<or> prefix ''http://'' href then href
      else ''https://github.com/open-telemetry/opentelemetry-specification/blob/'' @ revision @ ''/''
        @ trim_prefix href ''./'')"

section \<open>Identifiers\<close>

text \<open>The loop of \<open>slug\<close>: what was written so far and whether it ends in a dash.\<close>

fun slug_loop :: "unicode_tables \<Rightarrow> nat list \<Rightarrow> nat list \<Rightarrow> bool \<Rightarrow> nat list" where
  "slug_loop U [] out dash = out"
| "slug_loop U (r # rs) out dash =
     (if is_letter U r \<or> is_digit_rune U r then slug_loop U rs (out @ [r]) False
      else if out \<noteq> [] \<and> \<not> dash then slug_loop U rs (out @ [45]) True
      else slug_loop U rs out dash)"

definition slug :: "unicode_tables \<Rightarrow> string \<Rightarrow> string" where
  "slug U v =
     trim_set {CHR ''-''} (encode_runes (slug_loop U (runes (to_lower U (cleanMarkdown v))) [] False))"

definition featureID :: "unicode_tables \<Rightarrow> string \<Rightarrow> string \<Rightarrow> string \<Rightarrow> string" where
  "featureID U category grp name =
     join ([slug U category] @ (if grp \<noteq> [] then [slug U grp] else []) @ [slug U name]) ''.''"

section \<open>The import\<close>

text \<open>The lines a \<open>bufio.Scanner\<close> returns; the last one only when it is not empty.\<close>

definition scanner_lines :: "string \<Rightarrow> string list" where
  "scanner_lines s =
     (let lines = split_byte (CHR 0x0A) s
      in if last lines = [] then butlast lines else lines)"

definition drop_cr :: "string \<Rightarrow> string" where
  "drop_cr line = (if line \<noteq> [] \<and> last line = CHR 0x0D then butlast line else line)"

text \<open>The variables of the loop.\<close>

record matrix_state =
  ms_features :: "Feature list"
  ms_seen :: "string set"
  ms_category :: string
  ms_group :: string
  ms_headers :: "(string, nat) gomap option"

definition line_error :: "string \<Rightarrow> nat \<Rightarrow> string list \<Rightarrow> error" where
  "line_error fmt n args = Err fmt (utoa n # args)"

definition headerRow :: "nat \<Rightarrow> string list \<Rightarrow> (string, nat) gomap result" where
  "headerRow lineNumber cells =
     (let headers = fold (\<lambda>(i, cell). go_put (cleanMarkdown cell) i) (enumerate 0 cells) []
      in fail_if (go_get headers ''Go'' = None)
           (line_error ''line %d: feature table lacks Go column'' lineNumber [])
         (fail_if (go_get headers ''Python'' = None)
           (line_error ''line %d: feature table lacks Python column'' lineNumber [])
           (Inr headers)))"

text \<open>The feature of a row.\<close>

definition rowFeature :: "unicode_tables \<Rightarrow> CatalogSource \<Rightarrow> nat \<Rightarrow> (string, nat) gomap \<Rightarrow> string list
    \<Rightarrow> matrix_state \<Rightarrow> string \<Rightarrow> string \<Rightarrow> Feature" where
  "rowFeature U source lineNumber headers cells st name href =
     \<lparr>ft_id = featureID U (ms_category st) (ms_group st) name,
      ft_category = ms_category st, ft_group = ms_group st, ft_name = name,
      ft_optional = (case go_get headers ''Optional'' of
          None \<Rightarrow> []
        | Some i \<Rightarrow> if i < length cells then cleanMarkdown (cells ! i) else []),
      ft_support = [(''go'', supportState (cells ! go_get0 0 headers ''Go'')),
        (''python'', supportState (cells ! go_get0 0 headers ''Python'')),
        (''ruby'', case go_get headers ''Ruby'' of None \<Rightarrow> ''unknown'' | Some i \<Rightarrow> supportState (cells ! i))],
      ft_source = (if href \<noteq> [] then resolveSourceLink href (cs_revision source)
        else cs_url source @ ''#L'' @ utoa lineNumber)\<rparr>"

text \<open>A row below a header: a repeated header names a group, any other row is a feature.\<close>

definition featureRow :: "unicode_tables \<Rightarrow> CatalogSource \<Rightarrow> nat \<Rightarrow> (string, nat) gomap \<Rightarrow> string list
    \<Rightarrow> matrix_state \<Rightarrow> matrix_state result" where
  "featureRow U source lineNumber headers cells st =
     (let goIndex = go_get0 0 headers ''Go''; pythonIndex = go_get0 0 headers ''Python'';
          ruby = go_get headers ''Ruby'';
          (name, href) = parseFeatureCell (cells ! 0)
      in fail_if (goIndex \<ge> length cells \<or> pythonIndex \<ge> length cells
             \<or> (case ruby of None \<Rightarrow> False | Some i \<Rightarrow> i \<ge> length cells))
           (line_error ''line %d: row has fewer cells than its header'' lineNumber [])
         (if cleanMarkdown (cells ! goIndex) = ''Go'' \<and> cleanMarkdown (cells ! pythonIndex) = ''Python''
             \<and> (case ruby of None \<Rightarrow> True | Some i \<Rightarrow> cleanMarkdown (cells ! i) = ''Ruby'')
          then Inr (st\<lparr>ms_group := name\<rparr>)
          else
            fail_if (name = []) (line_error ''line %d: empty feature name'' lineNumber [])
            (let ident = featureID U (ms_category st) (ms_group st) name
             in fail_if (ident \<in> ms_seen st)
                  (line_error ''line %d: duplicate feature id %q'' lineNumber [ident])
                  (Inr (st\<lparr>ms_seen := insert ident (ms_seen st),
                     ms_features := ms_features st @
                       [rowFeature U source lineNumber headers cells st name href]\<rparr>)))))"

definition matrixLine :: "unicode_tables \<Rightarrow> CatalogSource \<Rightarrow> nat \<times> string \<Rightarrow> matrix_state \<Rightarrow> matrix_state result" where
  "matrixLine U source = (\<lambda>(lineNumber, text_line) st.
     let line = trim_space text_line in
     if prefix ''## '' line then
       Inr (st\<lparr>ms_category := trim_space (trim_prefix line ''## ''), ms_group := [], ms_headers := None\<rparr>)
     else if \<not> prefix ''|'' line \<or> ms_category st = [] then Inr st
     else
       let cells = splitMarkdownRow line in
       if length cells < 2 \<or> isSeparatorRow cells then Inr st
       else if cleanMarkdown (cells ! 0) = ''Feature'' then
         res_bind (headerRow lineNumber cells) (\<lambda>headers. Inr (st\<lparr>ms_headers := Some headers\<rparr>))
       else (case ms_headers st of None \<Rightarrow> Inr st
             | Some headers \<Rightarrow> featureRow U source lineNumber headers cells st))"

definition max_line :: nat where
  "max_line = 1048576"

text \<open>The scanner stops at the first line that does not fit its buffer, with an error.\<close>

definition ImportMatrix :: "unicode_tables \<Rightarrow> string \<Rightarrow> CatalogSource \<Rightarrow> Feature list result" where
  "ImportMatrix U markdown source =
     fail_if (cs_revision source = [] \<or> cs_url source = [] \<or> cs_rawURL source = [] \<or> cs_sha256 source = [])
       (Err ''catalog source metadata must include revision, URL, raw URL, and SHA256'' [])
     (let lines = scanner_lines markdown;
          fitting = takeWhile (\<lambda>line. length line < max_line) lines
      in res_bind (res_fold (matrixLine U source) (enumerate 1 (map drop_cr fitting))
             \<lparr>ms_features = [], ms_seen = {}, ms_category = [], ms_group = [], ms_headers = None\<rparr>) (\<lambda>st.
           fail_if (length fitting < length lines)
             (Wrap ''read compliance matrix: %w'' [] (Err ''bufio.Scanner: token too long'' []))
           (fail_if (ms_features st = []) (Err ''compliance matrix contains no Go/Python/Ruby features'' [])
             (Inr (ms_features st)))))"

section \<open>Lemmas\<close>

subsection \<open>Trimming\<close>

lemma segments_encode: "list_all valid_rune rs \<Longrightarrow> segments (encode_runes rs) = map (\<lambda>r. (r, encode_rune r)) rs"
  by (induction rs) (simp_all add: segments_encode_valid)

lemma trim_space_encode:
  assumes "list_all valid_rune rs"
  shows "trim_space (encode_runes rs)
    = encode_runes (rev (dropWhile is_space (rev (dropWhile is_space rs))))"
proof -
  have d: "dropWhile (\<lambda>(r, _). is_space r) (map (\<lambda>r. (r, encode_rune r)) xs)
      = map (\<lambda>r. (r, encode_rune r)) (dropWhile is_space xs)" for xs
    by (induction xs) auto
  show ?thesis
    unfolding trim_space_def segments_encode [OF assms] d rev_map [symmetric]
    by (simp add: d rev_map encode_runes_def comp_def)
qed

text \<open>Runes without surrounding spaces.\<close>

definition trimmed :: "nat list \<Rightarrow> bool" where
  "trimmed rs \<longleftrightarrow> rs = [] \<or> \<not> is_space (hd rs) \<and> \<not> is_space (last rs)"

lemma trimmed_dropWhile:
  assumes "trimmed rs"
  shows "dropWhile is_space rs = rs" "dropWhile is_space (rev rs) = rev rs"
  using assms by (simp_all add: trimmed_def dropWhile_eq_self_iff hd_rev) blast+

lemma trim_trimmed: "trimmed rs \<Longrightarrow> rev (dropWhile is_space (rev (dropWhile is_space rs))) = rs"
  by (simp add: trimmed_dropWhile)

lemma trim_padded:
  assumes "trimmed rs"
  shows "rev (dropWhile is_space (rev (dropWhile is_space (32 # rs @ [32])))) = rs"
proof (cases "rs = []")
  case False
  have "is_space 32" by (simp add: is_space_def)
  moreover have "dropWhile is_space (rs @ [32]) = rs @ [32]"
    using assms False by (simp add: dropWhile_eq_self_iff trimmed_def)
  ultimately show ?thesis by (simp add: trimmed_dropWhile [OF assms])
qed (simp add: is_space_def)

subsection \<open>Rows\<close>

text \<open>The state of the escape after a cell, \<open>None\<close> if the cell has a bare bar.\<close>

fun cell_end :: "bool \<Rightarrow> nat list \<Rightarrow> bool option" where
  "cell_end escaped [] = Some escaped"
| "cell_end escaped (r # rs) =
     (if r = 124 \<and> \<not> escaped then None else cell_end (r = 92 \<and> \<not> escaped) rs)"

definition cell_ok :: "nat list \<Rightarrow> bool" where
  "cell_ok rs \<longleftrightarrow> list_all valid_rune rs \<and> trimmed rs \<and> cell_end False rs \<noteq> None"

definition printRow :: "nat list list \<Rightarrow> nat list" where
  "printRow cells = 124 # concat (map (\<lambda>c. 32 # c @ [32, 124]) cells)"

lemma splitCells_cell:
  "cell_end e c \<noteq> None \<Longrightarrow> splitCells e acc (c @ 32 # 124 # rest) = (acc @ c @ [32]) # splitCells False [] rest"
  by (induction c arbitrary: e acc) (auto split: if_splits)

lemma splitCells_row:
  "list_all (\<lambda>c. cell_end False c \<noteq> None) cells \<Longrightarrow>
    splitCells False [] (concat (map (\<lambda>c. 32 # c @ [32, 124]) cells)) = map (\<lambda>c. 32 # c @ [32]) cells @ [[]]"
  by (induction cells) (auto simp: splitCells_cell)

lemma printRow_trimmed: "trimmed (printRow cells)"
proof -
  have "last (printRow cells) = 124"
    by (cases cells rule: rev_cases) (simp_all add: printRow_def)
  then show ?thesis by (simp add: trimmed_def is_space_def printRow_def)
qed

lemma printRow_valid: "list_all cell_ok cells \<Longrightarrow> list_all valid_rune (printRow cells)"
  by (auto simp: printRow_def cell_ok_def list_all_iff valid_rune_def)

subsection \<open>Slugs\<close>

lemma ascii_byte_encode:
  assumes "valid_rune r" "c \<in> set (encode_rune r)" "byte_of c < 0x80"
  shows "byte_of c = r"
proof -
  have "r < 1114112" using assms(1) by (auto simp: valid_rune_def)
  then have "r div 262144 < 16" by (simp add: div_less_iff_less_mult)
  with assms show ?thesis by (auto simp: encode_valid_def split: if_splits)
qed

definition slug_rune :: "unicode_tables \<Rightarrow> nat \<Rightarrow> bool" where
  "slug_rune U r \<longleftrightarrow> valid_rune r \<and> (is_letter U r \<or> is_digit_rune U r \<or> r = 45)"

text \<open>Runs of letters and digits separated by single dashes, possibly with a dash at the end.\<close>

definition slug_text :: "unicode_tables \<Rightarrow> nat list \<Rightarrow> bool" where
  "slug_text U rs \<longleftrightarrow> list_all (slug_rune U) rs \<and> (rs \<noteq> [] \<longrightarrow> hd rs \<noteq> 45)
     \<and> successively (\<lambda>a b. \<not> (a = 45 \<and> b = 45)) rs"

lemma dash_not_letter: "is_letter U r \<or> is_digit_rune U r \<Longrightarrow> r \<noteq> 45 \<and> r \<noteq> 46"
  by (auto simp: is_letter_def is_digit_rune_def)

lemma slug_loop_text:
  "\<lbrakk>slug_text U out; dash \<longleftrightarrow> out \<noteq> [] \<and> last out = 45; list_all valid_rune rs\<rbrakk>
    \<Longrightarrow> slug_text U (slug_loop U rs out dash)"
proof (induction U rs out dash rule: slug_loop.induct)
  case (2 U r rs out dash)
  show ?case
  proof (cases "is_letter U r \<or> is_digit_rune U r")
    case True
    then have "slug_text U (out @ [r])"
      using 2(4,6) dash_not_letter [OF True]
      by (cases "out = []") (auto simp: slug_text_def slug_rune_def successively_append_iff)
    then show ?thesis using 2(1,6) True dash_not_letter [OF True] by simp
  next
    case False
    show ?thesis
    proof (cases "out \<noteq> [] \<and> \<not> dash")
      case True
      then have "slug_text U (out @ [45])"
        using 2(4,5) by (auto simp: slug_text_def slug_rune_def successively_append_iff valid_rune_def)
      then show ?thesis using 2(2,6) True False by simp
    qed (use 2(3-6) False in auto)
  qed
qed simp

lemma trim_dash_encode:
  assumes "slug_text U rs"
  shows "\<exists>qs. trim_set {CHR ''-''} (encode_runes rs) = encode_runes qs \<and> slug_text U qs \<and> (qs \<noteq> [] \<longrightarrow> last qs \<noteq> 45)"
proof -
  have no: "CHR ''-'' \<notin> set (encode_rune r)" "encode_rune r \<noteq> []" if "slug_rune U r" "r \<noteq> 45" for r
  proof -
    have v: "valid_rune r" using that(1) by (simp add: slug_rune_def)
    show "CHR ''-'' \<notin> set (encode_rune r)" using ascii_byte_encode [OF v, of "CHR ''-''"] that(2) by auto
    show "encode_rune r \<noteq> []" using v by (simp add: encode_valid_def)
  qed
  have front: "dropWhile (\<lambda>c. c \<in> {CHR ''-''}) (encode_runes qs) = encode_runes qs" if "slug_text U qs" for qs
  proof (cases qs)
    case (Cons r rs)
    then have "slug_rune U r" "r \<noteq> 45" using that by (auto simp: slug_text_def)
    from no [OF this] show ?thesis unfolding Cons by (cases "encode_rune r") auto
  qed simp
  have both: "trim_set {CHR ''-''} (encode_runes qs) = encode_runes qs"
    if "slug_text U qs" "qs \<noteq> [] \<Longrightarrow> last qs \<noteq> 45" for qs
  proof (cases qs rule: rev_cases)
    case (snoc rs r)
    then have "slug_rune U r" "r \<noteq> 45" using that by (auto simp: slug_text_def)
    from no [OF this] have "dropWhile (\<lambda>c. c = CHR ''-'') (rev (encode_runes qs)) = rev (encode_runes qs)"
      unfolding snoc encode_runes_append
      by (cases "encode_rune r" rule: rev_cases) (auto simp: encode_runes_append)
    then show ?thesis using front [OF that(1)] by (simp add: trim_set_def)
  qed (simp add: trim_set_def)
  show ?thesis
  proof (cases "rs \<noteq> [] \<and> last rs = 45")
    case True
    then obtain qs where rs: "rs = qs @ [45]" by (metis append_butlast_last_id)
    have qs: "slug_text U qs" "qs \<noteq> [] \<Longrightarrow> last qs \<noteq> 45"
      using assms unfolding rs by (auto simp: slug_text_def successively_append_iff)
    have "char_of (45 :: nat) = CHR ''-''" by code_simp
    then have "encode_runes rs = encode_runes qs @ ''-''" by (simp add: rs encode_runes_append)
    then have "trim_set {CHR ''-''} (encode_runes rs) = trim_set {CHR ''-''} (encode_runes qs)"
      using front [OF assms] front [OF qs(1)] by (simp add: trim_set_def)
    with both [OF qs] qs show ?thesis by auto
  next
    case False
    with both [OF assms] assms show ?thesis by auto
  qed
qed

lemma slug_shape:
  "\<exists>rs. slug U v = encode_runes rs \<and> slug_text U rs \<and> (rs \<noteq> [] \<longrightarrow> last rs \<noteq> 45)"
  unfolding slug_def by (intro trim_dash_encode slug_loop_text) (auto simp: slug_text_def runes_valid)

lemma slug_no_dot: "CHR ''.'' \<notin> set (slug U v)"
proof
  assume dot: "CHR ''.'' \<in> set (slug U v)"
  obtain rs where rs: "slug U v = encode_runes rs" "list_all (slug_rune U) rs"
    using slug_shape [of U v] by (auto simp: slug_text_def)
  with dot obtain r where r: "r \<in> set rs" "CHR ''.'' \<in> set (encode_rune r)"
    by (auto simp: encode_runes_def)
  with rs(2) have "slug_rune U r" by (auto simp: list_all_iff)
  then show False
    using ascii_byte_encode [OF _ r(2)] dash_not_letter [of U r] by (auto simp: slug_rune_def)
qed

lemma split_byte_part: "c \<notin> set p \<Longrightarrow> split_byte c (p @ c # s) = p # split_byte c s"
  by (induction p) auto

lemma split_byte_whole: "c \<notin> set p \<Longrightarrow> split_byte c p = [p]"
  by (induction p) auto

lemma split_byte_join:
  "ps \<noteq> [] \<Longrightarrow> \<forall>p \<in> set ps. c \<notin> set p \<Longrightarrow> split_byte c (join ps [c]) = ps"
  by (induction ps "[c]" rule: join.induct) (simp_all add: split_byte_part split_byte_whole)

subsection \<open>The import\<close>

definition support_states :: "string list" where
  "support_states = [''supported'', ''n/a'', ''unsupported'', ''unknown'']"

lemma supportState_states: "supportState v \<in> set support_states"
  by (simp add: supportState_def support_states_def Let_def)

text \<open>What an imported feature satisfies.\<close>

definition good_feature :: "unicode_tables \<Rightarrow> CatalogSource \<Rightarrow> Feature \<Rightarrow> bool" where
  "good_feature U source f \<longleftrightarrow>
     ft_category f \<noteq> [] \<and> ft_name f \<noteq> [] \<and> ft_id f = featureID U (ft_category f) (ft_group f) (ft_name f)
     \<and> map fst (ft_support f) = [''go'', ''python'', ''ruby'']
     \<and> set (map snd (ft_support f)) \<subseteq> set support_states
     \<and> (prefix ''https://'' (ft_source f) \<or> prefix ''http://'' (ft_source f)
        \<or> prefix (cs_url source @ ''#L'') (ft_source f))"

definition matrix_inv :: "unicode_tables \<Rightarrow> CatalogSource \<Rightarrow> matrix_state \<Rightarrow> bool" where
  "matrix_inv U source st \<longleftrightarrow>
     ms_seen st = ft_id ` set (ms_features st) \<and> distinct (map ft_id (ms_features st))
     \<and> list_all (good_feature U source) (ms_features st)
     \<and> (ms_headers st \<noteq> None \<longrightarrow> ms_category st \<noteq> [])"

lemma rowFeature_good:
  assumes "ms_category st \<noteq> []" "name \<noteq> []"
  shows "good_feature U source (rowFeature U source n headers cells st name href)"
proof -
  have "prefix ''https://'' s \<or> prefix ''http://'' s \<or> prefix (cs_url source @ ''#L'') s"
    if "s = ft_source (rowFeature U source n headers cells st name href)" for s
    using that by (simp add: rowFeature_def resolveSourceLink_def)
  then show ?thesis
    using assms supportState_states
    by (simp add: good_feature_def) (simp add: rowFeature_def support_states_def split: option.splits)
qed

lemma featureRow_inv:
  assumes "featureRow U source n headers cells st = Inr st'" "matrix_inv U source st" "ms_category st \<noteq> []"
  shows "matrix_inv U source st'"
proof -
  obtain name href where nh: "parseFeatureCell (cells ! 0) = (name, href)" by fastforce
  let ?f = "rowFeature U source n headers cells st name href"
  have ident: "ft_id ?f = featureID U (ms_category st) (ms_group st) name" by (simp add: rowFeature_def)
  consider "st' = st\<lparr>ms_group := name\<rparr>"
    | "name \<noteq> []" "ft_id ?f \<notin> ms_seen st"
      "st' = st\<lparr>ms_seen := insert (ft_id ?f) (ms_seen st), ms_features := ms_features st @ [?f]\<rparr>"
    using assms(1) unfolding featureRow_def Let_def nh prod.case fail_if_Inr_iff
    by (auto simp: fail_if_Inr_iff ident split: if_splits)
  then show ?thesis
  proof cases
    case 1
    with assms(2) show ?thesis by (simp add: matrix_inv_def)
  next
    case 2
    with assms(2,3) rowFeature_good [OF assms(3) 2(1), of U source n headers cells href]
    show ?thesis by (simp add: matrix_inv_def)
  qed
qed

lemma matrixLine_inv:
  assumes "matrixLine U source line st = Inr st'" "matrix_inv U source st"
  shows "matrix_inv U source st'"
proof -
  obtain n s where line: "line = (n, s)" by fastforce
  let ?line = "trim_space s" and ?cells = "splitMarkdownRow (trim_space s)"
  note run = assms(1) [unfolded line matrixLine_def prod.case Let_def]
  show ?thesis
  proof (cases "prefix ''## '' ?line")
    case True
    with run have "st' = st\<lparr>ms_category := trim_space (trim_prefix ?line ''## ''), ms_group := [], ms_headers := None\<rparr>"
      by simp
    with assms(2) show ?thesis by (simp add: matrix_inv_def)
  next
    case noSection: False
    show ?thesis
    proof (cases "\<not> prefix ''|'' ?line \<or> ms_category st = [] \<or> length ?cells < 2 \<or> isSeparatorRow ?cells")
      case True
      with run noSection have "st' = st" by (auto split: if_splits)
      with assms(2) show ?thesis by simp
    next
      case row: False
      show ?thesis
      proof (cases "cleanMarkdown (?cells ! 0) = ''Feature''")
        case True
        with run noSection row obtain h where "st' = st\<lparr>ms_headers := h\<rparr>" by (auto simp: res_bind_Inr_iff)
        with assms(2) row show ?thesis by (simp add: matrix_inv_def)
      next
        case False
        with run noSection row featureRow_inv assms(2) show ?thesis by (auto split: option.splits)
      qed
    qed
  qed
qed

text \<open>A concrete matrix.\<close>

definition ex_source :: CatalogSource where
  "ex_source = \<lparr>cs_revision = ''r'', cs_url = ''u'', cs_rawURL = ''w'', cs_sha256 = ''d''\<rparr>"

definition ex_lines :: "string list" where
  "ex_lines = [''## T'', ''|Feature|Go|Python|'', ''|a|+|-|'']"

definition ex_matrix :: string where
  "ex_matrix = join ex_lines [CHR 0x0A]"

lemmas markdown_simps = trim_space_ascii is_space_def cleanMarkdown_def markdownLink_def link_here_def
  drop_stars_def replace_all.simps char_of_byte Let_def

lemma ex_rows:
  "splitMarkdownRow ''|Feature|Go|Python|'' = [''Feature'', ''Go'', ''Python'']"
  "splitMarkdownRow ''|a|+|-|'' = [''a'', ''+'', ''-'']"
  by (simp_all add: splitMarkdownRow_def drop_empty_ends_def markdown_simps)

lemma ex_imports:
  "\<exists>f. ImportMatrix plain_tables ex_matrix ex_source = Inr [f] \<and> ft_id f = ''t.a''"
proof -
  have lines: "scanner_lines ex_matrix = ex_lines" by code_simp
  have fit: "takeWhile (\<lambda>line. length line < max_line) ex_lines = ex_lines"
    by (simp add: max_line_def ex_lines_def)
  have ident: "featureID plain_tables ''T'' [] ''a'' = ''t.a''"
    by (simp add: featureID_def slug_def markdown_simps to_lower_def rune_lower_def is_letter_def trim_set_def)
  have clean: "cleanMarkdown ''Feature'' = ''Feature''" "cleanMarkdown ''Go'' = ''Go''"
    "cleanMarkdown ''Python'' = ''Python''" "cleanMarkdown ''a'' = ''a''" "cleanMarkdown ''+'' = ''+''"
    "cleanMarkdown ''-'' = ''-''" "trim_space ''## T'' = ''## T''" "trim_space ''T'' = ''T''"
    "trim_space ''|Feature|Go|Python|'' = ''|Feature|Go|Python|''" "trim_space ''|a|+|-|'' = ''|a|+|-|''"
    "parseFeatureCell ''a'' = (''a'', [])"
    by (simp_all add: markdown_simps parseFeatureCell_def)
  show ?thesis
    unfolding ImportMatrix_def lines fit Let_def
    by (simp add: ex_source_def ex_lines_def drop_cr_def matrixLine_def clean ex_rows isSeparatorRow_def
      trim_set_def trim_prefix_def headerRow_def featureRow_def rowFeature_def go_get0_def ident)
qed

section \<open>Properties\<close>

text \<open>
  A Markdown row written from its cells is read back as these cells: any cells of valid
  text without surrounding spaces in which every bar is escaped, for a backslash that is
  escaped itself escapes nothing.
\<close>

theorem row_roundtrip:
  assumes "list_all cell_ok cells"
  shows "splitMarkdownRow (encode_runes (printRow cells)) = map encode_runes cells"
proof -
  have v: "list_all valid_rune (printRow cells)" by (rule printRow_valid [OF assms])
  then have line: "runes (trim_space (encode_runes (printRow cells))) = printRow cells"
    by (simp add: trim_space_encode trim_trimmed [OF printRow_trimmed])
  have split: "splitCells False [] (printRow cells) = [] # map (\<lambda>c. 32 # c @ [32]) cells @ [[]]"
    using assms splitCells_row [of cells] by (simp add: printRow_def cell_ok_def list_all_iff)
  have cell: "trim_space (encode_runes (32 # c @ [32])) = encode_runes c" if "cell_ok c" for c
  proof -
    have "list_all valid_rune (32 # c @ [32])" using that by (simp add: cell_ok_def valid_rune_def)
    from trim_space_encode [OF this] that show ?thesis by (simp only: trim_padded cell_ok_def)
  qed
  have cells: "map (\<lambda>c. trim_space (encode_runes (32 # c @ [32]))) cells = map encode_runes cells"
    using assms cell by (auto simp: list_all_iff)
  have empty: "trim_space (encode_runes []) = []" by (simp add: trim_space_def)
  show ?thesis
    unfolding splitMarkdownRow_def line split
    by (simp add: empty drop_empty_ends_def comp_def cells del: encode_runes_Cons encode_runes_Nil)
qed

theorem row_roundtrip_witness:
  "splitMarkdownRow (encode_runes (printRow [[97], [92, 124]])) = [''a'', [CHR 0x5C, CHR ''|'']]"
proof -
  have "list_all cell_ok [[97], [92, 124]]"
    by (simp add: cell_ok_def trimmed_def is_space_def valid_rune_def)
  from row_roundtrip [OF this] show ?thesis by (simp add: char_of_byte)
qed

text \<open>
  The dots of a feature id separate its slugs: two features have the same id only if both
  or neither have a group and the slugs of their sections, groups and names agree. A slug is
  made of letters, digits and single dashes between them.
\<close>

theorem featureID_parts:
  "split_byte (CHR ''.'') (featureID U category grp name) =
     [slug U category] @ (if grp \<noteq> [] then [slug U grp] else []) @ [slug U name] \<and>
   (\<exists>rs. slug U name = encode_runes rs \<and> list_all (slug_rune U) rs
      \<and> (rs = [] \<or> hd rs \<noteq> 45 \<and> last rs \<noteq> 45) \<and> successively (\<lambda>a b. \<not> (a = 45 \<and> b = 45)) rs)"
proof
  show "split_byte (CHR ''.'') (featureID U category grp name) =
     [slug U category] @ (if grp \<noteq> [] then [slug U grp] else []) @ [slug U name]"
    unfolding featureID_def by (rule split_byte_join) (auto simp: slug_no_dot)
  show "\<exists>rs. slug U name = encode_runes rs \<and> list_all (slug_rune U) rs
      \<and> (rs = [] \<or> hd rs \<noteq> 45 \<and> last rs \<noteq> 45) \<and> successively (\<lambda>a b. \<not> (a = 45 \<and> b = 45)) rs"
    using slug_shape [of U name] unfolding slug_text_def by blast
qed

text \<open>
  C38. An imported matrix has at least one feature, no two with the same id, and every feature
  has a section, a name, the id derived from them, one of the four support states for each of
  Go, Python and Ruby, and a source link.
\<close>

theorem imported_matrix_good:
  assumes "ImportMatrix U markdown source = Inr features"
  shows "features \<noteq> [] \<and> distinct (map ft_id features) \<and> list_all (good_feature U source) features"
proof -
  obtain lines st where run: "res_fold (matrixLine U source) lines
      \<lparr>ms_features = [], ms_seen = {}, ms_category = [], ms_group = [], ms_headers = None\<rparr> = Inr st"
    and f: "ms_features st \<noteq> []" "features = ms_features st"
    using assms by (auto simp: ImportMatrix_def Let_def fail_if_Inr_iff res_bind_Inr_iff)
  have "matrix_inv U source st"
    using run by (rule res_fold_invariant [where I = "\<lambda>_ st. matrix_inv U source st"])
      (auto simp: matrix_inv_def [of _ _ "\<lparr>ms_features = [], ms_seen = {}, ms_category = [], ms_group = [], ms_headers = None\<rparr>"]
        intro: matrixLine_inv)
  with f show ?thesis by (simp add: matrix_inv_def)
qed

theorem imported_matrix_good_witness:
  "\<exists>f. ImportMatrix plain_tables ex_matrix ex_source = Inr [f] \<and> good_feature plain_tables ex_source f"
  using ex_imports imported_matrix_good [of plain_tables ex_matrix ex_source] by force

end
