(* ===== verification/Sha256.thy ===== *)
theory Sha256
  imports GoStrings "HOL-Library.Word"
begin

text \<open>
  \<open>sha256.Sum256\<close> of Go's standard library (FIPS 180-4), which the receipts and the matrix
  digest rely on: words of 32 bits, addition modulo \<open>2 ^ 32\<close>, a message of whole bytes.
\<close>

unbundle bit_operations_syntax

type_synonym w32 = "32 word"

definition sha_initial :: "w32 list" where
  "sha_initial =
     [1779033703, 3144134277, 1013904242, 2773480762,
      1359893119, 2600822924, 528734635, 1541459225]"

definition sha_constants :: "w32 list" where
  "sha_constants =
     [1116352408, 1899447441, 3049323471, 3921009573,
      961987163, 1508970993, 2453635748, 2870763221,
      3624381080, 310598401, 607225278, 1426881987,
      1925078388, 2162078206, 2614888103, 3248222580,
      3835390401, 4022224774, 264347078, 604807628,
      770255983, 1249150122, 1555081692, 1996064986,
      2554220882, 2821834349, 2952996808, 3210313671,
      3336571891, 3584528711, 113926993, 338241895,
      666307205, 773529912, 1294757372, 1396182291,
      1695183700, 1986661051, 2177026350, 2456956037,
      2730485921, 2820302411, 3259730800, 3345764771,
      3516065817, 3600352804, 4094571909, 275423344,
      430227734, 506948616, 659060556, 883997877,
      958139571, 1322822218, 1537002063, 1747873779,
      1955562222, 2024104815, 2227730452, 2361852424,
      2428436474, 2756734187, 3204031479, 3329325298]"

definition rotr :: "nat \<Rightarrow> w32 \<Rightarrow> w32" where
  "rotr n x = word_rotr n x"

definition small_sigma0 :: "w32 \<Rightarrow> w32" where
  "small_sigma0 x = rotr 7 x XOR rotr 18 x XOR drop_bit 3 x"

definition small_sigma1 :: "w32 \<Rightarrow> w32" where
  "small_sigma1 x = rotr 17 x XOR rotr 19 x XOR drop_bit 10 x"

definition big_sigma0 :: "w32 \<Rightarrow> w32" where
  "big_sigma0 x = rotr 2 x XOR rotr 13 x XOR rotr 22 x"

definition big_sigma1 :: "w32 \<Rightarrow> w32" where
  "big_sigma1 x = rotr 6 x XOR rotr 11 x XOR rotr 25 x"

text \<open>The message followed by a one bit, zeros and its length in bits, as blocks of 64 bytes.\<close>

definition big_endian :: "nat \<Rightarrow> nat \<Rightarrow> nat list" where
  "big_endian n v = rev (map (\<lambda>i. (v div 256 ^ i) mod 256) [0..<n])"

definition sha_padded :: "nat list \<Rightarrow> nat list" where
  "sha_padded m = m @ 128 # replicate ((119 - length m mod 64) mod 64) 0 @ big_endian 8 (8 * length m)"

fun sha_words :: "nat list \<Rightarrow> w32 list" where
  "sha_words (a # b # c # d # rest) =
     word_of_nat (((a * 256 + b) * 256 + c) * 256 + d) # sha_words rest"
| "sha_words _ = []"

text \<open>The message schedule, latest word first.\<close>

fun sha_schedule :: "nat \<Rightarrow> w32 list \<Rightarrow> w32 list" where
  "sha_schedule 0 ws = ws"
| "sha_schedule (Suc n) ws =
     sha_schedule n ((small_sigma1 (ws ! 1) + ws ! 6 + small_sigma0 (ws ! 14) + ws ! 15) # ws)"

fun sha_round :: "w32 \<times> w32 \<Rightarrow> w32 list \<Rightarrow> w32 list" where
  "sha_round (k, w) [a, b, c, d, e, f, g, h] =
     (let t1 = h + big_sigma1 e + ((e AND f) XOR (NOT e AND g)) + k + w;
          t2 = big_sigma0 a + ((a AND b) XOR (a AND c) XOR (b AND c))
      in [t1 + t2, a, b, c, d + t1, e, f, g])"
| "sha_round _ s = s"

definition sha_block :: "w32 list \<Rightarrow> w32 list \<Rightarrow> w32 list" where
  "sha_block s block =
     map2 (+) s (fold sha_round (zip sha_constants (rev (sha_schedule 48 (rev block)))) s)"

function sha_blocks :: "w32 list \<Rightarrow> w32 list \<Rightarrow> w32 list" where
  "sha_blocks s ws = (if ws = [] then s else sha_blocks (sha_block s (take 16 ws)) (drop 16 ws))"
  by pat_completeness auto
termination
  by (relation "measure (length \<circ> snd)") auto

declare sha_blocks.simps [simp del]

definition sum256 :: "string \<Rightarrow> w32 list" where
  "sum256 s = sha_blocks sha_initial (sha_words (sha_padded (map byte_of s)))"

text \<open>The lower-case hexadecimal text of a digest.\<close>

definition hex_digit :: "nat \<Rightarrow> char" where
  "hex_digit n = char_of (if n < 10 then 48 + n else 87 + n)"

definition hex_word :: "w32 \<Rightarrow> string" where
  "hex_word w = rev (map (\<lambda>i. hex_digit ((unat w div 16 ^ i) mod 16)) [0..<8])"

definition digest :: "string \<Rightarrow> string" where
  "digest s = concat (map hex_word (sum256 s))"

lemma sha_round_length: "length (sha_round x s) = length s"
  by (cases "(x, s)" rule: sha_round.cases) (auto simp: Let_def)

lemma sha_block_length: "length s = 8 \<Longrightarrow> length (sha_block s b) = 8"
proof -
  have "length (fold sha_round xs s) = length s" for xs
    by (induction xs arbitrary: s) (auto simp: sha_round_length)
  then show "length s = 8 \<Longrightarrow> ?thesis" by (simp add: sha_block_def)
qed

lemma sha_blocks_length: "length s = 8 \<Longrightarrow> length (sha_blocks s ws) = 8"
proof (induction s ws rule: sha_blocks.induct)
  case (1 s ws)
  then show ?case by (subst sha_blocks.simps) (simp add: sha_block_length)
qed

lemma hex_digit_lower: "n < 16 \<Longrightarrow> is_lower_hex (hex_digit n)"
  by (auto simp: hex_digit_def is_lower_hex_def is_digit_def)

text \<open>A digest is 64 lower-case hexadecimal digits, the only ones the receipts accept.\<close>

lemma digest_shape: "length (digest s) = 64 \<and> list_all is_lower_hex (digest s)"
proof
  have l: "length (sum256 s) = 8"
    by (simp add: sum256_def sha_blocks_length sha_initial_def)
  have h: "length (hex_word w) = 8" for w by (simp add: hex_word_def)
  have "length (concat (map hex_word ws)) = 8 * length ws" for ws by (induction ws) (simp_all add: h)
  with l show "length (digest s) = 64" by (simp add: digest_def)
  show "list_all is_lower_hex (digest s)"
    by (auto simp: digest_def hex_word_def list_all_iff intro: hex_digit_lower)
qed

end
