(* ===== verification/Receipt.thy ===== *)
theory Receipt
  imports Profile Sha256
begin

text \<open>
  Execution receipts, \<open>report/report/receipt.go\<close>: the checks on a decoded receipt, the
  validation of a whole receipt set (the trust boundary of the report), and the feature claims
  that plans and receipts support. The outcome of \<open>encoding/json\<close> is an argument: the decoded
  receipt or the error, and whether text follows it.
\<close>

section \<open>Data\<close>

record ReceiptProof =
  rp_featureID :: string
  rp_assertion :: string
  rp_basis :: string
  rp_result :: string

record ValidationReceipt =
  vr_schemaVersion :: int
  vr_revision :: string
  vr_profile :: string
  vr_scenario :: string
  vr_proofPlanSHA256 :: string
  vr_captureSHA256 :: string
  vr_validationMode :: string
  vr_outcome :: string
  vr_xfailReason :: string
  vr_scenarioShapeSHA256 :: string
  vr_proofs :: "ReceiptProof list"

record PlanArtifact =
  pa_plan :: NormalizedProfilePlan
  pa_bytes :: string
  pa_source :: Evidence

definition receiptRevision :: "string \<Rightarrow> bool" where
  "receiptRevision s \<longleftrightarrow> length s = 40 \<and> list_all is_lower_hex s"

definition digestHex :: "string \<Rightarrow> bool" where
  "digestHex s \<longleftrightarrow> length s = 64 \<and> list_all is_lower_hex s"

definition DecodeReceipt :: "ValidationReceipt result \<Rightarrow> bool \<Rightarrow> ValidationReceipt result" where
  "DecodeReceipt decoded trailing =
     res_bind decoded (\<lambda>receipt.
     fail_if trailing (Err ''receipt has trailing JSON'' [])
     (fail_if (vr_schemaVersion receipt \<noteq> 1 \<or> \<not> receiptRevision (vr_revision receipt)
         \<or> vr_profile receipt = [] \<or> vr_scenario receipt = [])
       (Err ''malformed receipt identity'' [])
     (fail_if (\<not> digestHex (vr_proofPlanSHA256 receipt) \<or> \<not> digestHex (vr_captureSHA256 receipt))
       (Err ''malformed receipt digest'' [])
     (fail_if (vr_validationMode receipt \<noteq> ''exact'' \<and> vr_validationMode receipt \<noteq> ''contract'')
       (Err ''invalid validation mode %q'' [vr_validationMode receipt])
     (fail_if (vr_outcome receipt \<noteq> ''verified'' \<and> vr_outcome receipt \<noteq> ''xfail'')
       (Err ''invalid receipt outcome %q'' [vr_outcome receipt])
     (fail_if (vr_outcome receipt = ''xfail'' \<and> vr_xfailReason receipt = [])
       (Err ''xfail receipt has no reason'' [])
     (fail_if (vr_outcome receipt = ''verified'' \<and> vr_xfailReason receipt \<noteq> [])
       (Err ''verified receipt has an xfail reason'' [])
       (Inr receipt))))))))"

section \<open>Keys\<close>

abbreviation NUL :: char where "NUL \<equiv> CHR 0x00"

definition pair_key :: "string \<Rightarrow> string \<Rightarrow> string" where
  "pair_key profile scenario = profile @ NUL # scenario"

definition receipt_key :: "ValidationReceipt \<Rightarrow> string" where
  "receipt_key r = pair_key (vr_profile r) (vr_scenario r)"

definition proof_key :: "string \<Rightarrow> string \<Rightarrow> string \<Rightarrow> string" where
  "proof_key featureID assertion basis = featureID @ NUL # assertion @ NUL # basis"

section \<open>The receipt set\<close>

text \<open>The keys of the declared profile and scenario pairs.\<close>

definition expectedKeys :: "string list \<Rightarrow> (string, string list) gomap \<Rightarrow> string set result" where
  "expectedKeys profiles profileScenarios =
     res_fold (\<lambda>(profile, scenarios) expected.
       fail_if (profile \<notin> stringSet profiles)
         (Err ''scenario membership declared for unknown profile %s'' [profile])
         (res_fold (\<lambda>scenario expected.
            fail_if (scenario = []) (Err ''profile %s has an empty scenario'' [profile])
              (Inr (insert (pair_key profile scenario) expected))) scenarios expected))
       profileScenarios {}"

text \<open>The proofs a plan wants of a scenario.\<close>

definition wantedProofs :: "NormalizedProfilePlan \<Rightarrow> string \<Rightarrow> string set" where
  "wantedProofs plan scenario =
     (\<lambda>p. proof_key (pp_featureID p) (pp_assertion p) (pp_basis p)) `
       set (filter (\<lambda>p. pp_scenarios p = [] \<or> stringSliceContains (pp_scenarios p) scenario) (np_proofs plan))"

definition receiptProofKey :: "ReceiptProof \<Rightarrow> string" where
  "receiptProofKey p = proof_key (rp_featureID p) (rp_assertion p) (rp_basis p)"

definition actualProofs :: "ValidationReceipt \<Rightarrow> string set result" where
  "actualProofs receipt =
     res_fold (\<lambda>p actual.
       fail_if (rp_result p \<noteq> ''pass'')
         (Err ''failed proof %s in %s/%s'' [rp_featureID p, vr_profile receipt, vr_scenario receipt])
       (fail_if (receiptProofKey p \<in> actual)
         (Err ''duplicate proof %s in %s/%s'' [rp_featureID p, vr_profile receipt, vr_scenario receipt])
         (Inr (insert (receiptProofKey p) actual)))) (vr_proofs receipt) {}"

text \<open>
  The comparison of the two sets; which missing or unexpected proof is reported depends on the
  iteration order of the maps and is not part of the error here.
\<close>

definition checkProofs :: "PlanArtifact \<Rightarrow> ValidationReceipt \<Rightarrow> unit result" where
  "checkProofs artifact receipt =
     (let wanted = wantedProofs (pa_plan artifact) (vr_scenario receipt);
          pair = [vr_profile receipt, vr_scenario receipt]
      in res_bind (actualProofs receipt) (\<lambda>actual.
           fail_if (card actual \<noteq> card wanted) (Err ''incomplete proof set for %s/%s'' pair)
           (fail_if (\<not> wanted \<subseteq> actual) (Err ''missing planned proof in %s/%s'' pair)
           (fail_if (\<not> actual \<subseteq> wanted) (Err ''unexpected proof in %s/%s'' pair)
             (Inr ())))))"

definition checkReceiptOutcome :: "ValidationReceipt \<Rightarrow> unit result" where
  "checkReceiptOutcome receipt =
     (let pair = [vr_profile receipt, vr_scenario receipt]
      in fail_if (vr_outcome receipt \<noteq> ''verified'' \<and> vr_outcome receipt \<noteq> ''xfail'')
           (Err ''invalid receipt outcome %q for %s/%s'' (vr_outcome receipt # pair))
         (fail_if (vr_outcome receipt = ''xfail'' \<and> vr_xfailReason receipt = [])
           (Err ''xfail receipt %s/%s has no reason'' pair)
         (fail_if (vr_outcome receipt = ''verified'' \<and> vr_xfailReason receipt \<noteq> [])
           (Err ''verified receipt %s/%s has an xfail reason'' pair)
           (Inr ()))))"

text \<open>The digests a receipt binds: plan, capture and shape.\<close>

definition checkDigests :: "(string, PlanArtifact) gomap \<Rightarrow> (string, string) gomap \<Rightarrow> (string, string) gomap
    \<Rightarrow> ValidationReceipt \<Rightarrow> PlanArtifact result" where
  "checkDigests plans shapes captures receipt =
     (let key = receipt_key receipt; pair = [vr_profile receipt, vr_scenario receipt]
      in case go_get plans (vr_profile receipt) of
           None \<Rightarrow> Inl (Err ''missing normalized plan for %s'' [vr_profile receipt])
         | Some artifact \<Rightarrow>
             fail_if (np_profile (pa_plan artifact) \<noteq> vr_profile receipt)
               (Err ''missing normalized plan for %s'' [vr_profile receipt])
             (fail_if (digest (pa_bytes artifact) \<noteq> vr_proofPlanSHA256 receipt)
               (Err ''proof plan digest mismatch for %s/%s'' pair)
             (case go_get captures key of
                None \<Rightarrow> Inl (Err ''missing capture for %s/%s'' pair)
              | Some capture \<Rightarrow>
                  fail_if (digest capture \<noteq> vr_captureSHA256 receipt)
                    (Err ''capture digest mismatch for %s/%s'' pair)
                  (case go_get shapes key of
                     Some shape \<Rightarrow>
                       fail_if (vr_validationMode receipt \<noteq> ''exact'' \<or> vr_scenarioShapeSHA256 receipt \<noteq> digest shape)
                         (Err ''scenario shape digest mismatch for %s/%s'' pair) (Inr artifact)
                   | None \<Rightarrow>
                       fail_if (vr_validationMode receipt \<noteq> ''contract'' \<or> vr_scenarioShapeSHA256 receipt \<noteq> [])
                         (Err ''unexpected exact validation for %s/%s'' pair) (Inr artifact)))))"

text \<open>One receipt, after the receipts with the keys \<open>seen\<close>.\<close>

definition checkReceipt :: "string \<Rightarrow> string set \<Rightarrow> (string, PlanArtifact) gomap \<Rightarrow> (string, string) gomap
    \<Rightarrow> (string, string) gomap \<Rightarrow> ValidationReceipt \<Rightarrow> string set \<Rightarrow> string set result" where
  "checkReceipt revision expected plans shapes captures receipt seen =
     (let key = receipt_key receipt; pair = [vr_profile receipt, vr_scenario receipt]
      in res_bind (checkReceiptOutcome receipt) (\<lambda>_.
         fail_if (key \<notin> expected) (Err ''unexpected receipt %s/%s'' pair)
         (fail_if (key \<in> seen) (Err ''duplicate receipt %s/%s'' pair)
         (fail_if (vr_revision receipt \<noteq> revision)
           (Err ''stale receipt %s/%s revision %s'' (pair @ [vr_revision receipt]))
         (res_bind (checkDigests plans shapes captures receipt) (\<lambda>artifact.
            if vr_outcome receipt = ''xfail'' then
              fail_if (vr_proofs receipt \<noteq> []) (Err ''xfail receipt %s/%s contains passing proofs'' pair)
                (Inr (insert key seen))
            else res_bind (checkProofs artifact receipt) (\<lambda>_. Inr (insert key seen))))))))"

text \<open>Every declared pair has a plan and a receipt.\<close>

definition checkComplete :: "(string, string list) gomap \<Rightarrow> (string, PlanArtifact) gomap \<Rightarrow> string set
    \<Rightarrow> string \<Rightarrow> unit result" where
  "checkComplete profileScenarios plans seen profile =
     fail_if (go_get plans profile = None) (Err ''missing normalized plan for %s'' [profile])
     (let scenarios = go_get0 [] profileScenarios profile
      in fail_if (scenarios = []) (Err ''profile %s has no declared scenarios'' [profile])
         (res_each (\<lambda>scenario. fail_if (pair_key profile scenario \<notin> seen)
            (Err ''missing receipt %s/%s'' [profile, scenario]) (Inr ())) scenarios))"

definition ValidateReceiptSetForProfiles :: "string \<Rightarrow> string list \<Rightarrow> (string, string list) gomap
    \<Rightarrow> (string, PlanArtifact) gomap \<Rightarrow> (string, string) gomap \<Rightarrow> (string, string) gomap
    \<Rightarrow> ValidationReceipt list \<Rightarrow> unit result" where
  "ValidateReceiptSetForProfiles revision profiles profileScenarios plans shapes captures receipts =
     fail_if (\<not> receiptRevision revision) (Err ''revision must be a lowercase 40-character commit'' [])
     (res_bind (expectedKeys profiles profileScenarios) (\<lambda>expected.
      res_bind (res_fold (checkReceipt revision expected plans shapes captures) receipts {}) (\<lambda>seen.
        res_each (checkComplete profileScenarios plans seen) profiles)))"

definition ValidateReceiptSet :: "string \<Rightarrow> string list \<Rightarrow> string list
    \<Rightarrow> (string, PlanArtifact) gomap \<Rightarrow> (string, string) gomap \<Rightarrow> (string, string) gomap
    \<Rightarrow> ValidationReceipt list \<Rightarrow> unit result" where
  "ValidateReceiptSet revision profiles scenarios plans shapes captures receipts =
     ValidateReceiptSetForProfiles revision profiles
       (fold (\<lambda>profile. go_put profile scenarios) profiles []) plans shapes captures receipts"

section \<open>Claims from plans\<close>

text \<open>The evidence of a claim: the plan, then its sources, numbered from one.\<close>

definition claimEvidence :: "PlanArtifact \<Rightarrow> ProofPlanProof \<Rightarrow> Evidence list" where
  "claimEvidence artifact p =
     pa_source artifact #
       map (\<lambda>(index, source). \<lparr>ev_label = ''immutable source '' @ utoa (index + 1),
              ev_href = go_get0 [] (np_sources (pa_plan artifact)) source, ev_path = []\<rparr>)
         (enumerate 0 (pp_sources p))"

definition claimOf :: "PlanArtifact \<Rightarrow> ProofPlanProof \<Rightarrow> bool \<Rightarrow> string list \<Rightarrow> FeatureClaim" where
  "claimOf artifact p allScenarios scenarios =
     \<lparr>fc_featureID = pp_featureID p, fc_basis = pp_basis p, fc_assertion = pp_assertion p,
      fc_allScenarios = allScenarios, fc_scenarios = scenarios, fc_evidence = claimEvidence artifact p\<rparr>"

definition sorted_profiles :: "(string, PlanArtifact) gomap \<Rightarrow> string list" where
  "sorted_profiles plans = sort (go_keys plans)"

text \<open>The scenarios of a profile with a given outcome, in receipt order.\<close>

definition outcomeScenarios :: "string \<Rightarrow> ValidationReceipt list \<Rightarrow> string \<Rightarrow> string list" where
  "outcomeScenarios outcome receipts profile =
     map vr_scenario (filter (\<lambda>r. vr_outcome r = outcome \<and> vr_profile r = profile) receipts)"

text \<open>\<open>allScenarios\<close> and \<open>claimScenarios\<close> of a proof, given the xfails of its profile.\<close>

definition planScope :: "ValidationReceipt list \<Rightarrow> string \<Rightarrow> ProofPlanProof \<Rightarrow> bool \<times> string list" where
  "planScope receipts profile p =
     (let xfails = outcomeScenarios ''xfail'' receipts profile
      in if pp_scenarios p = [] \<and> xfails \<noteq> [] then
           (False, sort (outcomeScenarios ''verified'' receipts profile))
         else if pp_scenarios p \<noteq> [] \<and> xfails \<noteq> [] then
           (False, filter (\<lambda>s. s \<notin> set xfails) (pp_scenarios p))
         else (pp_scenarios p = [], pp_scenarios p))"

definition planClaim :: "ValidationReceipt list \<Rightarrow> string \<Rightarrow> PlanArtifact \<Rightarrow> ProofPlanProof \<Rightarrow> FeatureClaim option" where
  "planClaim receipts profile artifact p =
     (case planScope receipts profile p of
        (allScenarios, scenarios) \<Rightarrow>
          if \<not> allScenarios \<and> scenarios = [] then None
          else Some (claimOf artifact p allScenarios scenarios))"

definition CoveragesFromPlans :: "(string, PlanArtifact) gomap \<Rightarrow> ValidationReceipt list \<Rightarrow> ProfileProofCoverage list" where
  "CoveragesFromPlans plans receipts =
     map (\<lambda>profile. let artifact = the (go_get plans profile)
        in \<lparr>pc_profile = profile, pc_source = pa_source artifact,
            pc_claims = List.map_filter (planClaim receipts profile artifact) (np_proofs (pa_plan artifact))\<rparr>)
       (sorted_profiles plans)"

definition PartitionExercisedProfiles :: "string list \<Rightarrow> ValidationReceipt list \<Rightarrow> string list \<times> string list" where
  "PartitionExercisedProfiles profiles receipts =
     (let withReceipts = set (map vr_profile receipts)
      in (filter (\<lambda>p. p \<in> withReceipts) profiles, filter (\<lambda>p. p \<notin> withReceipts) profiles))"

definition scopedClaim :: "ValidationReceipt list \<Rightarrow> string list \<Rightarrow> string \<Rightarrow> PlanArtifact \<Rightarrow> ProofPlanProof
    \<Rightarrow> FeatureClaim option" where
  "scopedClaim receipts declared profile artifact p =
     (let scope = (if pp_scenarios p = [] then declared else pp_scenarios p);
          scenarios = filter (\<lambda>s. s \<in> set (outcomeScenarios ''verified'' receipts profile)) scope
      in if scenarios = [] then None
         else let allScenarios = (pp_scenarios p = [] \<and> length scenarios = length declared)
              in Some (claimOf artifact p allScenarios (if allScenarios then [] else scenarios)))"

definition CoveragesFromPlansForProfiles :: "(string, PlanArtifact) gomap \<Rightarrow> ValidationReceipt list
    \<Rightarrow> (string, string list) gomap \<Rightarrow> ProfileProofCoverage list" where
  "CoveragesFromPlansForProfiles plans receipts profileScenarios =
     map (\<lambda>profile. let artifact = the (go_get plans profile)
        in \<lparr>pc_profile = profile, pc_source = pa_source artifact,
            pc_claims = List.map_filter
              (scopedClaim receipts (go_get0 [] profileScenarios profile) profile artifact)
              (np_proofs (pa_plan artifact))\<rparr>)
       (sorted_profiles plans)"

section \<open>Lemmas\<close>

subsection \<open>Keys\<close>

text \<open>A key determines its parts when the first ones contain no NUL.\<close>

lemma nul_split: "NUL \<notin> set a \<Longrightarrow> NUL \<notin> set a' \<Longrightarrow> a @ NUL # b = a' @ NUL # b' \<longleftrightarrow> a = a' \<and> b = b'"
proof (induction a arbitrary: a')
  case Nil
  then show ?case by (cases a') auto
next
  case (Cons c a)
  then show ?case by (cases a') auto
qed

lemma pair_key_inject:
  "NUL \<notin> set p \<Longrightarrow> NUL \<notin> set p' \<Longrightarrow> pair_key p s = pair_key p' s' \<longleftrightarrow> p = p' \<and> s = s'"
  by (simp add: pair_key_def nul_split)

subsection \<open>The loops as conditions\<close>

definition declared_ok :: "string list \<Rightarrow> (string, string list) gomap \<Rightarrow> bool" where
  "declared_ok profiles profileScenarios \<longleftrightarrow>
     (\<forall>(profile, scenarios) \<in> set profileScenarios. profile \<in> set profiles \<and> [] \<notin> set scenarios)"

definition declaredKeys :: "(string, string list) gomap \<Rightarrow> string set" where
  "declaredKeys profileScenarios =
     (\<Union>(profile, scenarios) \<in> set profileScenarios. pair_key profile ` set scenarios)"

lemma fold_insert_image: "fold (\<lambda>x. insert (f x)) xs S = f ` set xs \<union> S"
  by (induction xs arbitrary: S) auto

lemma expectedKeys_iff:
  "expectedKeys profiles profileScenarios = Inr E \<longleftrightarrow>
     declared_ok profiles profileScenarios \<and> E = declaredKeys profileScenarios"
proof -
  let ?f = "\<lambda>(profile, scenarios) expected.
       fail_if (profile \<notin> stringSet profiles)
         (Err ''scenario membership declared for unknown profile %s'' [profile])
         (res_fold (\<lambda>scenario expected.
            fail_if (scenario = []) (Err ''profile %s has an empty scenario'' [profile])
              (Inr (insert (pair_key profile scenario) expected))) scenarios expected)"
  have "res_fold ?f ps S = Inr E \<longleftrightarrow> declared_ok profiles ps \<and> E = declaredKeys ps \<union> S" for ps S
  proof (induction ps arbitrary: S)
    case Nil
    then show ?case by (auto simp: declared_ok_def declaredKeys_def)
  next
    case (Cons p ps)
    then show ?case
      by (cases p) (auto simp: res_bind_Inr_iff fail_if_Inr_iff res_fold_check fold_insert_image
        declared_ok_def declaredKeys_def stringSet_def)
  qed
  then show ?thesis by (simp add: expectedKeys_def)
qed

lemma actualProofs_iff:
  "actualProofs r = Inr A \<longleftrightarrow> (\<forall>p \<in> set (vr_proofs r). rp_result p = ''pass'')
     \<and> distinct (map receiptProofKey (vr_proofs r)) \<and> A = receiptProofKey ` set (vr_proofs r)"
proof -
  let ?f = "\<lambda>p actual.
       fail_if (rp_result p \<noteq> ''pass'')
         (Err ''failed proof %s in %s/%s'' [rp_featureID p, vr_profile r, vr_scenario r])
       (fail_if (receiptProofKey p \<in> actual)
         (Err ''duplicate proof %s in %s/%s'' [rp_featureID p, vr_profile r, vr_scenario r])
         (Inr (insert (receiptProofKey p) actual)))"
  have "res_fold ?f ps S = Inr A \<longleftrightarrow> (\<forall>p \<in> set ps. rp_result p = ''pass'')
     \<and> distinct (map receiptProofKey ps) \<and> receiptProofKey ` set ps \<inter> S = {}
     \<and> A = receiptProofKey ` set ps \<union> S" for ps S
    by (induction ps arbitrary: S) (auto simp: res_bind_Inr_iff fail_if_Inr_iff)
  then show ?thesis by (simp add: actualProofs_def)
qed

text \<open>What an accepted receipt satisfies.\<close>

definition good_receipt :: "string \<Rightarrow> string set \<Rightarrow> (string, PlanArtifact) gomap \<Rightarrow> (string, string) gomap
    \<Rightarrow> (string, string) gomap \<Rightarrow> ValidationReceipt \<Rightarrow> bool" where
  "good_receipt revision expected plans shapes captures r \<longleftrightarrow>
     (vr_outcome r = ''verified'' \<and> vr_xfailReason r = [] \<or> vr_outcome r = ''xfail'' \<and> vr_xfailReason r \<noteq> [])
     \<and> receipt_key r \<in> expected \<and> vr_revision r = revision
     \<and> (\<exists>artifact capture. go_get plans (vr_profile r) = Some artifact
          \<and> np_profile (pa_plan artifact) = vr_profile r \<and> digest (pa_bytes artifact) = vr_proofPlanSHA256 r
          \<and> go_get captures (receipt_key r) = Some capture \<and> digest capture = vr_captureSHA256 r
          \<and> (case go_get shapes (receipt_key r) of
               Some shape \<Rightarrow> vr_validationMode r = ''exact'' \<and> vr_scenarioShapeSHA256 r = digest shape
             | None \<Rightarrow> vr_validationMode r = ''contract'' \<and> vr_scenarioShapeSHA256 r = [])
          \<and> (if vr_outcome r = ''xfail'' then vr_proofs r = []
             else (\<forall>p \<in> set (vr_proofs r). rp_result p = ''pass'')
               \<and> distinct (map receiptProofKey (vr_proofs r))
               \<and> receiptProofKey ` set (vr_proofs r) = wantedProofs (pa_plan artifact) (vr_scenario r)))"

lemma checkReceiptOutcome_iff:
  "checkReceiptOutcome r = Inr () \<longleftrightarrow>
     vr_outcome r = ''verified'' \<and> vr_xfailReason r = [] \<or> vr_outcome r = ''xfail'' \<and> vr_xfailReason r \<noteq> []"
  by (auto simp: checkReceiptOutcome_def fail_if_Inr_iff Let_def)

lemma checkDigests_iff:
  "checkDigests plans shapes captures r = Inr artifact \<longleftrightarrow>
     go_get plans (vr_profile r) = Some artifact \<and> np_profile (pa_plan artifact) = vr_profile r
     \<and> digest (pa_bytes artifact) = vr_proofPlanSHA256 r
     \<and> (\<exists>capture. go_get captures (receipt_key r) = Some capture \<and> digest capture = vr_captureSHA256 r)
     \<and> (case go_get shapes (receipt_key r) of
          Some shape \<Rightarrow> vr_validationMode r = ''exact'' \<and> vr_scenarioShapeSHA256 r = digest shape
        | None \<Rightarrow> vr_validationMode r = ''contract'' \<and> vr_scenarioShapeSHA256 r = [])"
  by (auto simp: checkDigests_def fail_if_Inr_iff Let_def split: option.splits)

lemma checkProofs_iff:
  "checkProofs artifact r = Inr () \<longleftrightarrow> (\<forall>p \<in> set (vr_proofs r). rp_result p = ''pass'')
     \<and> distinct (map receiptProofKey (vr_proofs r))
     \<and> receiptProofKey ` set (vr_proofs r) = wantedProofs (pa_plan artifact) (vr_scenario r)"
  by (auto simp: checkProofs_def res_bind_Inr_iff fail_if_Inr_iff actualProofs_iff Let_def)

lemma checkReceipt_iff:
  "checkReceipt revision expected plans shapes captures r seen = Inr seen' \<longleftrightarrow>
     good_receipt revision expected plans shapes captures r \<and> receipt_key r \<notin> seen
     \<and> seen' = insert (receipt_key r) seen"
proof -
  have "checkReceipt revision expected plans shapes captures r seen = Inr seen' \<longleftrightarrow>
     checkReceiptOutcome r = Inr () \<and> receipt_key r \<in> expected \<and> receipt_key r \<notin> seen \<and> vr_revision r = revision
     \<and> (\<exists>artifact. checkDigests plans shapes captures r = Inr artifact \<and>
          (if vr_outcome r = ''xfail'' then vr_proofs r = [] else checkProofs artifact r = Inr ()))
     \<and> seen' = insert (receipt_key r) seen"
    by (auto simp: checkReceipt_def res_bind_Inr_iff fail_if_Inr_iff Let_def split: if_splits)
  then show ?thesis
    unfolding good_receipt_def checkReceiptOutcome_iff checkDigests_iff checkProofs_iff by blast
qed

lemma checkReceipts_iff:
  "res_fold (checkReceipt revision expected plans shapes captures) rs seen = Inr seen' \<longleftrightarrow>
     (\<forall>r \<in> set rs. good_receipt revision expected plans shapes captures r) \<and> distinct (map receipt_key rs)
     \<and> receipt_key ` set rs \<inter> seen = {} \<and> seen' = receipt_key ` set rs \<union> seen"
  by (induction rs arbitrary: seen) (auto simp: res_bind_Inr_iff checkReceipt_iff)

lemma checkComplete_iff:
  "checkComplete profileScenarios plans seen p = Inr () \<longleftrightarrow>
     go_get plans p \<noteq> None \<and> go_get0 [] profileScenarios p \<noteq> []
     \<and> pair_key p ` set (go_get0 [] profileScenarios p) \<subseteq> seen"
  by (auto simp: checkComplete_def fail_if_Inr_iff res_each_Inr_iff Let_def)

lemma outcomeScenarios_iff:
  "s \<in> set (outcomeScenarios outcome receipts profile) \<longleftrightarrow>
     (\<exists>r \<in> set receipts. vr_outcome r = outcome \<and> vr_profile r = profile \<and> vr_scenario r = s)"
  by (auto simp: outcomeScenarios_def)

lemma set_map_filter_iff: "y \<in> set (List.map_filter f xs) \<longleftrightarrow> (\<exists>x \<in> set xs. f x = Some y)"
  by (induction xs) (auto simp: map_filter_simps split: option.splits)

lemma claimOf_simps [simp]:
  "fc_featureID (claimOf a p b ss) = pp_featureID p" "fc_basis (claimOf a p b ss) = pp_basis p"
  "fc_assertion (claimOf a p b ss) = pp_assertion p" "fc_allScenarios (claimOf a p b ss) = b"
  "fc_scenarios (claimOf a p b ss) = ss" "fc_evidence (claimOf a p b ss) = claimEvidence a p"
  by (simp_all add: claimOf_def)

lemma length_filter_all: "length (filter P xs) = length xs \<Longrightarrow> x \<in> set xs \<Longrightarrow> P x"
  by (metis filter_id_conv length_filter_less less_irrefl)

lemma receipt_set_spec:
  "ValidateReceiptSetForProfiles revision profiles profileScenarios plans shapes captures receipts = Inr () \<longleftrightarrow>
     receiptRevision revision \<and> declared_ok profiles profileScenarios \<and> distinct (map receipt_key receipts) \<and>
     (\<forall>r \<in> set receipts. good_receipt revision (declaredKeys profileScenarios) plans shapes captures r) \<and>
     (\<forall>p \<in> set profiles. go_get plans p \<noteq> None \<and> go_get0 [] profileScenarios p \<noteq> [] \<and>
        pair_key p ` set (go_get0 [] profileScenarios p) \<subseteq> receipt_key ` set receipts)"
  unfolding ValidateReceiptSetForProfiles_def
  by (auto simp: fail_if_Inr_iff res_bind_Inr_iff expectedKeys_iff checkReceipts_iff res_each_Inr_iff
    checkComplete_iff)

lemma declared_pairs_received:
  assumes "ValidateReceiptSetForProfiles revision profiles profileScenarios plans shapes captures receipts = Inr ()"
    and "go_map profileScenarios" "\<forall>p \<in> set profiles. NUL \<notin> set p" "\<forall>r \<in> set receipts. NUL \<notin> set (vr_profile r)"
  shows "distinct (map (\<lambda>r. (vr_profile r, vr_scenario r)) receipts) \<and>
    set (map (\<lambda>r. (vr_profile r, vr_scenario r)) receipts)
      = {(p, s). \<exists>scenarios. go_get profileScenarios p = Some scenarios \<and> s \<in> set scenarios}"
proof
  note ok = assms(1) [unfolded receipt_set_spec]
  let ?pair = "\<lambda>r. (vr_profile r, vr_scenario r)"
  have "distinct (map ?pair receipts) = distinct (map receipt_key receipts)"
    unfolding distinct_map by (auto simp: inj_on_def receipt_key_def pair_key_inject assms(4))
  then show "distinct (map ?pair receipts)" using ok by blast
  have get: "go_get profileScenarios p = Some ss \<longleftrightarrow> (p, ss) \<in> set profileScenarios" for p ss
    using assms(2) by (simp add: go_map_def go_keys_def)
  have nul: "NUL \<notin> set p" if "(p, ss) \<in> set profileScenarios" for p ss
    using ok that assms(3) by (fastforce simp: declared_ok_def)
  show "set (map ?pair receipts) = {(p, s). \<exists>ss. go_get profileScenarios p = Some ss \<and> s \<in> set ss}"
  proof (intro equalityI subsetI)
    fix x
    assume "x \<in> set (map ?pair receipts)"
    then obtain r where r: "r \<in> set receipts" "x = (vr_profile r, vr_scenario r)" by auto
    then have "receipt_key r \<in> declaredKeys profileScenarios" using ok by (auto simp: good_receipt_def)
    then obtain p ss s where p: "(p, ss) \<in> set profileScenarios" "s \<in> set ss" "receipt_key r = pair_key p s"
      by (auto simp: declaredKeys_def)
    then have "vr_profile r = p \<and> vr_scenario r = s"
      using assms(4) r(1) nul [OF p(1)] by (simp add: receipt_key_def pair_key_inject)
    with p r(2) get show "x \<in> {(p, s). \<exists>ss. go_get profileScenarios p = Some ss \<and> s \<in> set ss}" by auto
  next
    fix x
    assume "x \<in> {(p, s). \<exists>ss. go_get profileScenarios p = Some ss \<and> s \<in> set ss}"
    then obtain p s ss where x: "x = (p, s)" "go_get profileScenarios p = Some ss" "s \<in> set ss" by auto
    then have "p \<in> set profiles" using ok get by (auto simp: declared_ok_def)
    moreover have "go_get0 [] profileScenarios p = ss" using x(2) by (simp add: go_get0_def)
    ultimately have "pair_key p s \<in> receipt_key ` set receipts" using ok x(3) by blast
    then obtain r where r: "r \<in> set receipts" "pair_key p s = receipt_key r" by auto
    then have "vr_profile r = p \<and> vr_scenario r = s"
      using assms(4) nul x(2) get by (metis pair_key_inject receipt_key_def)
    with x(1) r(1) show "x \<in> set (map ?pair receipts)" by force
  qed
qed

section \<open>Properties\<close>

text \<open>The scenarios a claim asserts of a profile with the declared scenarios.\<close>

definition claimScopeOf :: "string list \<Rightarrow> FeatureClaim \<Rightarrow> string list" where
  "claimScopeOf declared c = (if fc_allScenarios c then declared else fc_scenarios c)"

definition verified_pair :: "ValidationReceipt list \<Rightarrow> string \<Rightarrow> string \<Rightarrow> bool" where
  "verified_pair receipts profile scenario \<longleftrightarrow>
     (\<exists>r \<in> set receipts. vr_outcome r = ''verified'' \<and> vr_profile r = profile \<and> vr_scenario r = scenario)"

lemma scopedClaim_verified:
  assumes "scopedClaim receipts declared profile artifact p = Some k"
  shows "claimScopeOf declared k \<noteq> [] \<and> list_all (verified_pair receipts profile) (claimScopeOf declared k)"
proof -
  let ?verified = "\<lambda>s. s \<in> set (outcomeScenarios ''verified'' receipts profile)"
  let ?scope = "if pp_scenarios p = [] then declared else pp_scenarios p"
  define b where "b \<longleftrightarrow> pp_scenarios p = [] \<and> length (filter ?verified ?scope) = length declared"
  have v: "?verified s \<longleftrightarrow> verified_pair receipts profile s" for s
    by (simp add: outcomeScenarios_iff verified_pair_def)
  have some: "filter ?verified ?scope \<noteq> []"
    and k: "k = claimOf artifact p b (if b then [] else filter ?verified ?scope)"
    using assms unfolding b_def by (auto simp: scopedClaim_def Let_def split: if_splits)
  show ?thesis
  proof (cases b)
    case True
    then have bdef: "pp_scenarios p = [] \<and> length (filter ?verified ?scope) = length declared"
      unfolding b_def .
    then have p: "pp_scenarios p = []" by (rule conjunct1)
    have l: "length (filter ?verified declared) = length declared"
      using conjunct2 [OF bdef] unfolding if_P [OF p] .
    have "declared \<noteq> []" using some unfolding if_P [OF p] by force
    moreover have "list_all ?verified declared"
      unfolding list_all_iff using length_filter_all [OF l] by blast
    ultimately have "declared \<noteq> []" "list_all ?verified declared" .
    with True show ?thesis by (simp add: k claimScopeOf_def v)
  next
    case False
    with some show ?thesis by (simp add: k claimScopeOf_def list_all_iff v)
  qed
qed

lemma scopedClaim_Some:
  "scopedClaim receipts declared profile artifact p \<noteq> None \<longleftrightarrow>
    list_ex (verified_pair receipts profile) (if pp_scenarios p = [] then declared else pp_scenarios p)"
  "scopedClaim receipts declared profile artifact p = Some k \<Longrightarrow> fc_featureID k = pp_featureID p"
  by (auto simp: scopedClaim_def Let_def list_ex_iff filter_empty_conv outcomeScenarios_iff verified_pair_def
    split: if_splits)

lemma map_map_filter:
  assumes "\<And>x. f x \<noteq> None \<longleftrightarrow> P x" "\<And>x y. f x = Some y \<Longrightarrow> h y = k x"
  shows "map h (List.map_filter f xs) = map k (filter P xs)"
proof (induction xs)
  case (Cons x xs)
  then show ?case using assms(1) [of x] assms(2) [of x] by (cases "f x") (simp_all add: map_filter_simps)
qed (simp add: map_filter_simps)

text \<open>A concrete accepted receipt set, for the plan of \<open>Profile\<close>.\<close>

definition ex_artifact :: PlanArtifact where
  "ex_artifact = \<lparr>pa_plan = ex_plan, pa_bytes = ''plan'',
     pa_source = \<lparr>ev_label = ''plan'', ev_href = ''https://example.org'', ev_path = []\<rparr>\<rparr>"

definition ex_revision :: string where
  "ex_revision = replicate 40 (CHR ''a'')"

definition ex_receipt :: ValidationReceipt where
  "ex_receipt = \<lparr>vr_schemaVersion = 1, vr_revision = ex_revision, vr_profile = ''p'', vr_scenario = ''s'',
     vr_proofPlanSHA256 = digest ''plan'', vr_captureSHA256 = digest ''capture'',
     vr_validationMode = ''contract'', vr_outcome = ''verified'', vr_xfailReason = [],
     vr_scenarioShapeSHA256 = [],
     vr_proofs = [\<lparr>rp_featureID = ''f1'', rp_assertion = ''http'', rp_basis = ''observed'', rp_result = ''pass''\<rparr>]\<rparr>"

abbreviation ex_accepted_by :: "ValidationReceipt list \<Rightarrow> unit result" where
  "ex_accepted_by \<equiv> ValidateReceiptSetForProfiles ex_revision [''p''] [(''p'', [''s''])]
     [(''p'', ex_artifact)] [] [(pair_key ''p'' ''s'', ''capture'')]"

lemma ex_accepted: "ex_accepted_by [ex_receipt] = Inr ()"
proof -
  have "receiptRevision ex_revision"
    by (simp add: receiptRevision_def ex_revision_def list_all_iff is_lower_hex_def)
  moreover have "wantedProofs ex_plan ''s'' = {proof_key ''f1'' ''http'' ''observed''}"
    by (auto simp: wantedProofs_def ex_plan_def empty_plan_def)
  then have "good_receipt ex_revision {pair_key ''p'' ''s''} [(''p'', ex_artifact)] []
      [(pair_key ''p'' ''s'', ''capture'')] ex_receipt"
    by (simp add: good_receipt_def ex_receipt_def receipt_key_def ex_artifact_def receiptProofKey_def)
      (simp add: ex_plan_def)
  moreover have "receipt_key ex_receipt = pair_key ''p'' ''s''" by (simp add: receipt_key_def ex_receipt_def)
  ultimately show ?thesis
    by (simp add: receipt_set_spec declared_ok_def declaredKeys_def go_get0_def)
qed

lemma ex_no_nul: "\<forall>p \<in> set [''p'']. NUL \<notin> set p" "\<forall>r \<in> set [ex_receipt]. NUL \<notin> set (vr_profile r)"
  "go_map [(''p'', [''s''])]"
  by (simp_all add: ex_receipt_def go_map_def go_keys_def)

text \<open>
  C2. A receipt set is accepted exactly when the revision is a commit, the declared pairs are
  well formed, no two receipts have the same key, every receipt is consistent with the digests
  of the plan, the capture and the shape it names and with the proofs its plan wants, and every
  declared pair of every profile has its plan and a receipt.
\<close>

theorem receipt_set_accepted_iff:
  "ValidateReceiptSetForProfiles revision profiles profileScenarios plans shapes captures receipts = Inr () \<longleftrightarrow>
     receiptRevision revision \<and> declared_ok profiles profileScenarios \<and> distinct (map receipt_key receipts) \<and>
     (\<forall>r \<in> set receipts. good_receipt revision (declaredKeys profileScenarios) plans shapes captures r) \<and>
     (\<forall>p \<in> set profiles. go_get plans p \<noteq> None \<and> go_get0 [] profileScenarios p \<noteq> [] \<and>
        pair_key p ` set (go_get0 [] profileScenarios p) \<subseteq> receipt_key ` set receipts)"
  by (rule receipt_set_spec)

theorem receipt_set_accepted_iff_witness:
  "ex_accepted_by [ex_receipt] = Inr () \<and> good_receipt ex_revision (declaredKeys [(''p'', [''s''])])
     [(''p'', ex_artifact)] [] [(pair_key ''p'' ''s'', ''capture'')] ex_receipt"
  using ex_accepted ex_accepted [unfolded receipt_set_accepted_iff] by simp

text \<open>
  An accepted set has exactly one receipt for each declared pair of profile and scenario and
  no other receipt, when no profile name contains a NUL byte.
\<close>

theorem receipts_cover_declared_pairs:
  assumes "ValidateReceiptSetForProfiles revision profiles profileScenarios plans shapes captures receipts = Inr ()"
    and "go_map profileScenarios" "\<forall>p \<in> set profiles. NUL \<notin> set p" "\<forall>r \<in> set receipts. NUL \<notin> set (vr_profile r)"
  shows "distinct (map (\<lambda>r. (vr_profile r, vr_scenario r)) receipts) \<and>
    set (map (\<lambda>r. (vr_profile r, vr_scenario r)) receipts)
      = {(p, s). \<exists>scenarios. go_get profileScenarios p = Some scenarios \<and> s \<in> set scenarios}"
  using assms by (rule declared_pairs_received)

theorem receipts_cover_declared_pairs_witness:
  "{(vr_profile ex_receipt, vr_scenario ex_receipt)}
     = {(p, s). \<exists>scenarios. go_get [(''p'', [''s''])] p = Some scenarios \<and> s \<in> set scenarios}"
  using receipts_cover_declared_pairs [OF ex_accepted ex_no_nul(3,1,2)] by simp

text \<open>
  C10. The claims derived for profiles are backed by receipts: a plan's proof gives a claim just
  when some scenario in its scope has a verified receipt, and every scenario a claim asserts
  has one.
\<close>

theorem scoped_claims_verified:
  assumes "coverage \<in> set (CoveragesFromPlansForProfiles plans receipts profileScenarios)"
    and "declared = go_get0 [] profileScenarios (pc_profile coverage)"
  shows "list_all (\<lambda>c. claimScopeOf declared c \<noteq> [] \<and>
      list_all (verified_pair receipts (pc_profile coverage)) (claimScopeOf declared c)) (pc_claims coverage) \<and>
    (\<exists>artifact. go_get plans (pc_profile coverage) = Some artifact \<and>
      map fc_featureID (pc_claims coverage) = map pp_featureID (filter
        (\<lambda>p. list_ex (verified_pair receipts (pc_profile coverage))
          (if pp_scenarios p = [] then declared else pp_scenarios p)) (np_proofs (pa_plan artifact))))"
proof -
  obtain profile where profile: "profile \<in> set (go_keys plans)"
    and c: "coverage = \<lparr>pc_profile = profile, pc_source = pa_source (the (go_get plans profile)),
      pc_claims = List.map_filter (scopedClaim receipts (go_get0 [] profileScenarios profile) profile
        (the (go_get plans profile))) (np_proofs (pa_plan (the (go_get plans profile))))\<rparr>"
    using assms(1) by (auto simp: CoveragesFromPlansForProfiles_def sorted_profiles_def Let_def)
  have declared: "declared = go_get0 [] profileScenarios profile" using assms(2) c by simp
  obtain artifact where a: "go_get plans profile = Some artifact"
    using profile go_keys_dom [of plans] by auto
  have claims: "pc_claims coverage = List.map_filter (scopedClaim receipts declared profile artifact)
      (np_proofs (pa_plan artifact))"
    by (simp add: c a declared)
  have "claimScopeOf declared k \<noteq> [] \<and> list_all (verified_pair receipts profile) (claimScopeOf declared k)"
    if "k \<in> set (pc_claims coverage)" for k
    using that scopedClaim_verified unfolding claims set_map_filter_iff by blast
  moreover have "map fc_featureID (pc_claims coverage) = map pp_featureID (filter
      (\<lambda>p. list_ex (verified_pair receipts profile) (if pp_scenarios p = [] then declared else pp_scenarios p))
      (np_proofs (pa_plan artifact)))"
    unfolding claims by (intro map_map_filter scopedClaim_Some)
  ultimately show ?thesis using a by (simp add: c list_all_iff)
qed

theorem scoped_claims_verified_witness:
  "\<exists>coverage. coverage \<in> set (CoveragesFromPlansForProfiles [(''p'', ex_artifact)] [ex_receipt] [(''p'', [''s''])])
     \<and> map fc_featureID (pc_claims coverage) = [''f1''] \<and> verified_pair [ex_receipt] ''p'' ''s''"
proof -
  let ?coverages = "CoveragesFromPlansForProfiles [(''p'', ex_artifact)] [ex_receipt] [(''p'', [''s''])]"
  obtain coverage where c: "coverage \<in> set ?coverages" "pc_profile coverage = ''p''"
    by (simp add: CoveragesFromPlansForProfiles_def sorted_profiles_def go_keys_def Let_def)
  have v: "verified_pair [ex_receipt] ''p'' ''s''" by (simp add: verified_pair_def ex_receipt_def)
  have "[''s''] = go_get0 [] [(''p'', [''s''])] (pc_profile coverage)" by (simp add: c go_get0_def)
  from conjunct2 [OF scoped_claims_verified [OF c(1) this]] obtain artifact where
    a: "go_get [(''p'', ex_artifact)] (pc_profile coverage) = Some artifact"
    and m: "map fc_featureID (pc_claims coverage) = map pp_featureID (filter
        (\<lambda>p. list_ex (verified_pair [ex_receipt] (pc_profile coverage))
          (if pp_scenarios p = [] then [''s''] else pp_scenarios p)) (np_proofs (pa_plan artifact)))"
    by (elim exE conjE) (rule that)
  have "artifact = ex_artifact" using a c(2) by simp
  then have "map fc_featureID (pc_claims coverage) = [''f1'']"
    unfolding m c(2) by (simp add: ex_artifact_def ex_plan_def v)
  from c(1) this v show ?thesis by (intro exI conjI)
qed

lemma planClaim_scope:
  assumes "planClaim receipts profile artifact p = Some c" "s \<in> set (claimScopeOf declared c)" "s \<in> set declared"
    and "\<And>s. s \<in> set declared \<Longrightarrow> verified_pair receipts profile s \<or> s \<in> set (outcomeScenarios ''xfail'' receipts profile)"
  shows "verified_pair receipts profile s"
proof -
  let ?xfail = "outcomeScenarios ''xfail'' receipts profile"
  have c: "c = claimOf artifact p (fst (planScope receipts profile p)) (snd (planScope receipts profile p))"
    using assms(1) by (auto simp: planClaim_def split: prod.splits if_splits)
  have v: "s \<in> set (outcomeScenarios ''verified'' receipts profile) \<longleftrightarrow> verified_pair receipts profile s" for s
    by (simp add: outcomeScenarios_iff verified_pair_def)
  consider "?xfail = []" | "?xfail \<noteq> []" "pp_scenarios p = []" | "?xfail \<noteq> []" "pp_scenarios p \<noteq> []" by blast
  then show ?thesis
  proof cases
    case 1
    with assms(3,4) show ?thesis by force
  next
    case 2
    then have "planScope receipts profile p = (False, sort (outcomeScenarios ''verified'' receipts profile))"
      by (simp add: planScope_def)
    with assms(2) c v show ?thesis by (simp add: claimScopeOf_def)
  next
    case 3
    then have "planScope receipts profile p = (False, filter (\<lambda>s. s \<notin> set ?xfail) (pp_scenarios p))"
      by (simp add: planScope_def)
    with assms(2) c have "s \<notin> set ?xfail" by (simp add: claimScopeOf_def)
    with assms(3,4) show ?thesis by blast
  qed
qed

text \<open>
  C6. On an accepted receipt set the claims of \<open>CoveragesFromPlans\<close> are backed too: every
  declared scenario that a claim asserts has a verified receipt.
\<close>

theorem plan_claims_verified:
  assumes "ValidateReceiptSetForProfiles revision profiles profileScenarios plans shapes captures receipts = Inr ()"
    and "go_map profileScenarios" "\<forall>p \<in> set profiles. NUL \<notin> set p" "\<forall>r \<in> set receipts. NUL \<notin> set (vr_profile r)"
    and "coverage \<in> set (CoveragesFromPlans plans receipts)" "c \<in> set (pc_claims coverage)"
    and "go_get profileScenarios (pc_profile coverage) = Some declared"
    and "s \<in> set (claimScopeOf declared c)" "s \<in> set declared"
  shows "verified_pair receipts (pc_profile coverage) s"
proof -
  obtain profile artifact p where c: "pc_profile coverage = profile" "planClaim receipts profile artifact p = Some c"
    using assms(5,6) by (auto simp: CoveragesFromPlans_def Let_def set_map_filter_iff)
  have "verified_pair receipts profile t \<or> t \<in> set (outcomeScenarios ''xfail'' receipts profile)"
    if "t \<in> set declared" for t
  proof -
    have "(profile, t) \<in> set (map (\<lambda>r. (vr_profile r, vr_scenario r)) receipts)"
      using declared_pairs_received [OF assms(1-4)] assms(7) c(1) that by simp
    then obtain r where r: "r \<in> set receipts" "vr_profile r = profile" "vr_scenario r = t" by auto
    then have "vr_outcome r = ''verified'' \<or> vr_outcome r = ''xfail''"
      using assms(1) [unfolded receipt_set_spec] by (auto simp: good_receipt_def)
    with r show ?thesis by (auto simp: verified_pair_def outcomeScenarios_iff)
  qed
  with planClaim_scope [OF c(2) assms(8,9)] c(1) show ?thesis by blast
qed

theorem plan_claims_verified_witness: "verified_pair [ex_receipt] ''p'' ''s''"
proof -
  let ?claim = "claimOf ex_artifact (hd (np_proofs ex_plan)) True []"
  have "planClaim [ex_receipt] ''p'' ex_artifact (hd (np_proofs ex_plan)) = Some ?claim"
    by (simp add: planClaim_def planScope_def outcomeScenarios_def ex_receipt_def ex_plan_def empty_plan_def)
  then have "List.map_filter (planClaim [ex_receipt] ''p'' ex_artifact) (np_proofs ex_plan) = [?claim]"
    by (simp add: ex_plan_def map_filter_simps)
  then obtain coverage where c: "coverage \<in> set (CoveragesFromPlans [(''p'', ex_artifact)] [ex_receipt])"
    "pc_profile coverage = ''p''" "?claim \<in> set (pc_claims coverage)"
    by (simp add: CoveragesFromPlans_def sorted_profiles_def go_keys_def ex_artifact_def Let_def)
  have d: "go_get [(''p'', [''s''])] (pc_profile coverage) = Some [''s'']" by (simp add: c)
  have s: "''s'' \<in> set (claimScopeOf [''s''] ?claim)" by (simp add: claimScopeOf_def)
  have "''s'' \<in> set [''s'']" by simp
  from plan_claims_verified [OF ex_accepted ex_no_nul(3,1,2) c(1,3) d s this] show ?thesis by (simp add: c)
qed

end
