(* ===== verification/Spans.thy ===== *)
theory Spans
  imports Model
begin

text \<open>
  The spans that alignment compares (\<open>report/report/align.go\<close>): normalized names, cardinality
  labels, the candidates of a span group, the keys that order them, and the scores of a pair of
  spans that do not look at their children's pairing.
\<close>

section \<open>Normalized names\<close>

definition isHTTPMethod :: "string \<Rightarrow> bool" where
  "isHTTPMethod v \<longleftrightarrow> v \<in> {''connect'', ''delete'', ''get'', ''head'', ''options'', ''patch'', ''post'',
     ''put'', ''trace''}"

text \<open>The text after the first \<open>c\<close>.\<close>

fun after_byte :: "char \<Rightarrow> string \<Rightarrow> string option" where
  "after_byte c [] = None"
| "after_byte c (x # xs) = (if x = c then Some xs else after_byte c xs)"

text \<open>What follows a match of \<open>%?{[^}]*}|<[^>]*>\<close> at the front.\<close>

fun path_parameter :: "string \<Rightarrow> string option" where
  "path_parameter [] = None"
| "path_parameter (c # s) =
     (if c = CHR ''{'' then after_byte (CHR ''}'') s
      else if c = CHR ''%'' then
        (case s of [] \<Rightarrow> None | d # t \<Rightarrow> if d = CHR ''{'' then after_byte (CHR ''}'') t else None)
      else if c = CHR ''<'' then after_byte (CHR ''>'') s
      else None)"

lemma after_byte_length: "after_byte c s = Some t \<Longrightarrow> length t < length s"
  by (induction s) (auto split: if_splits)

lemma path_parameter_length: "path_parameter s = Some t \<Longrightarrow> length t < length s"
proof (induction s rule: path_parameter.induct)
  case (2 c s)
  then show ?case
    by (cases s) (auto split: if_split_asm dest!: after_byte_length)
qed simp

text \<open>\<open>pathParameterPattern.ReplaceAllString(field, "*")\<close>\<close>

function pathParameterPattern :: "string \<Rightarrow> string" where
  "pathParameterPattern s =
     (case s of [] \<Rightarrow> []
      | c # cs \<Rightarrow> (case path_parameter s of None \<Rightarrow> c # pathParameterPattern cs
                 | Some t \<Rightarrow> CHR ''*'' # pathParameterPattern t))"
  by pat_completeness auto
termination
  by (relation "measure length") (auto simp del: path_parameter.simps dest!: path_parameter_length)

declare pathParameterPattern.simps [simp del]

definition ident_start :: "char \<Rightarrow> bool" where
  "ident_start c \<longleftrightarrow> 65 \<le> byte_of c \<and> byte_of c \<le> 90 \<or> 97 \<le> byte_of c \<and> byte_of c \<le> 122 \<or> c = CHR ''_''"

definition ident_char :: "char \<Rightarrow> bool" where
  "ident_char c \<longleftrightarrow> ident_start c \<or> is_digit c"

text \<open>What follows a match of \<open>:[A-Za-z_][A-Za-z0-9_]*\<close> at the front.\<close>

fun colon_parameter :: "string \<Rightarrow> string option" where
  "colon_parameter (c # d # s) =
     (if c = CHR '':'' \<and> ident_start d then Some (dropWhile ident_char s) else None)"
| "colon_parameter s = None"

lemma colon_parameter_length: "colon_parameter s = Some t \<Longrightarrow> length t < length s"
  by (cases s rule: colon_parameter.cases)
    (auto split: if_splits intro: le_less_trans [OF length_dropWhile_le])

text \<open>\<open>colonPathParameterPattern.ReplaceAllString(field, "${1}*")\<close> from a position inside the text.\<close>

function colon_parameters :: "string \<Rightarrow> string" where
  "colon_parameters s =
     (case s of [] \<Rightarrow> []
      | c # cs \<Rightarrow>
          (case (if c = CHR ''/'' then colon_parameter cs else None) of
             None \<Rightarrow> c # colon_parameters cs
           | Some t \<Rightarrow> CHR ''/'' # CHR ''*'' # colon_parameters t))"
  by pat_completeness auto
termination
  by (relation "measure length")
    (auto split: if_splits dest!: colon_parameter_length)

declare colon_parameters.simps [simp del]

definition colonPathParameterPattern :: "string \<Rightarrow> string" where
  "colonPathParameterPattern s =
     (case colon_parameter s of None \<Rightarrow> colon_parameters s
      | Some t \<Rightarrow> CHR ''*'' # colon_parameters t)"

text \<open>\<open>\\s\<close> of the regular expressions, and \<open>whitespacePattern.ReplaceAllString(s, " ")\<close>.\<close>

definition re_space :: "char \<Rightarrow> bool" where
  "re_space c \<longleftrightarrow> byte_of c \<in> {9, 10, 12, 13, 32}"

function whitespacePattern :: "string \<Rightarrow> string" where
  "whitespacePattern s =
     (case s of [] \<Rightarrow> []
      | c # cs \<Rightarrow> if re_space c then CHR '' '' # whitespacePattern (dropWhile re_space cs)
                 else c # whitespacePattern cs)"
  by pat_completeness auto
termination
  by (relation "measure length") (auto intro: le_less_trans [OF length_dropWhile_le])

declare whitespacePattern.simps [simp del]

text \<open>One field, given the field before it, which the loop may have rewritten already.\<close>

definition normalize_field :: "string option \<Rightarrow> string \<Rightarrow> string" where
  "normalize_field before field =
     (let isRoute = prefix ''/'' field \<or>
            (case before of None \<Rightarrow> False | Some b \<Rightarrow> isHTTPMethod b \<and> contains field ''/'')
      in if isRoute \<and> length field > 1
         then trim_prefix (colonPathParameterPattern (pathParameterPattern field)) ''/''
         else field)"

fun normalize_fields :: "string option \<Rightarrow> string list \<Rightarrow> string list" where
  "normalize_fields before [] = []"
| "normalize_fields before (field # rest) =
     (let f = normalize_field before field in f # normalize_fields (Some f) rest)"

definition NormalizeSpanName :: "unicode_tables \<Rightarrow> string \<Rightarrow> string" where
  "NormalizeSpanName U name =
     join (normalize_fields None
       (split_byte (CHR '' '') (whitespacePattern (to_lower U (trim_space name))))) '' ''"

section \<open>Cardinality labels\<close>

text \<open>U+00D7, U+2013 and U+00B7 between spaces, in UTF-8.\<close>

definition times_sign :: string where "times_sign = [CHR 0xC3, CHR 0x97]"
definition en_dash :: string where "en_dash = [CHR 0xE2, CHR 0x80, CHR 0x93]"
definition dot_separator :: string where "dot_separator = [CHR 0x20, CHR 0xC2, CHR 0xB7, CHR 0x20]"

definition formatCard :: "int \<Rightarrow> int \<Rightarrow> bool \<Rightarrow> nat \<Rightarrow> string" where
  "formatCard minCount maxCount exact altCount =
     (let card =
        (if exact \<and> minCount = 1 then []
         else if exact then times_sign @ itoa minCount
         else if minCount = 0 \<and> maxCount = 1 then ''optional''
         else if minCount = maxCount then times_sign @ itoa minCount
         else times_sign @ itoa minCount @ en_dash @ itoa maxCount)
      in if altCount > 1 then
           let alternatives = ''one of '' @ itoa (int altCount)
           in if card = [] then alternatives else alternatives @ dot_separator @ card
         else card)"

section \<open>Candidates\<close>

text \<open>
  \<open>type alignedSpan\<close>. No distinction is made between a nil and an empty \<open>childGroups\<close>: a
  candidate with empty groups has no children, and then the two give the same pairs.
\<close>

datatype alignedSpan = AlignedSpan (as_node: SpanNode) (as_card: string) (as_min: int) (as_max: int)
    (as_exact: bool) (as_altCount: nat) (as_children: "alignedSpan list")
    (as_childGroups: "SpanGroup list") (as_keyString: string) (as_childKey: string)
    (as_childMatchKeys: "string list option")

text \<open>The zero value.\<close>

definition zero_span :: alignedSpan where
  "zero_span = AlignedSpan empty_span [] 0 0 False 0 [] [] [] [] None"

definition spanKey :: "unicode_tables \<Rightarrow> SpanNode \<Rightarrow> string" where
  "spanKey U node = sn_kind node @ CHR 0x00 # NormalizeSpanName U (sn_name node)"

abbreviation sep_1c :: string where "sep_1c \<equiv> [CHR 0x1C]"
abbreviation sep_1d :: string where "sep_1d \<equiv> [CHR 0x1D]"
abbreviation sep_1e :: string where "sep_1e \<equiv> [CHR 0x1E]"
abbreviation sep_1f :: string where "sep_1f \<equiv> [CHR 0x1F]"

fun canonicalSpanKey :: "alignedSpan \<Rightarrow> string" where
  "canonicalSpanKey (AlignedSpan node cardinality minCount maxCount exact altCount children groups keyString childKey matchKeys) =
     join [keyString, sn_status node, sn_http node, cardinality,
       join (sort (map canonicalSpanKey children)) sep_1e] sep_1f"

definition canonicalChildrenKey :: "alignedSpan list \<Rightarrow> string" where
  "canonicalChildrenKey children = join (sort (map canonicalSpanKey children)) sep_1e"

fun canonicalAlignmentSpanKey :: "alignedSpan \<Rightarrow> string" where
  "canonicalAlignmentSpanKey (AlignedSpan node cardinality minCount maxCount exact altCount children groups keyString childKey matchKeys) =
     join [sn_name node, sn_kind node, sn_status node, sn_http node, sn_scope node, cardinality,
       join (sort (map canonicalAlignmentSpanKey children)) sep_1e] sep_1f"

definition shallowCanonicalSpanKey :: "alignedSpan \<Rightarrow> string" where
  "shallowCanonicalSpanKey span =
     join [as_keyString span, sn_status (as_node span), sn_http (as_node span), as_card span] sep_1f"

text \<open>The closure \<open>collect\<close> on one child.\<close>

fun collect_keys :: "string \<Rightarrow> alignedSpan \<Rightarrow> string list" where
  "collect_keys before (AlignedSpan node cardinality minCount maxCount exact altCount children groups keyString childKey matchKeys) =
     (let own = join [keyString, sn_status node, sn_http node, cardinality] sep_1f;
          key = (if before \<noteq> [] then before @ sep_1d @ own else own)
      in key # concat (map (collect_keys key) children))"

definition canonicalChildMatchKeys :: "alignedSpan list \<Rightarrow> string list" where
  "canonicalChildMatchKeys children = sort (concat (map (collect_keys []) children))"

text \<open>The candidate with the least key; the first of equal ones.\<close>

fun least_by :: "('a \<Rightarrow> string) \<Rightarrow> 'a \<Rightarrow> 'a list \<Rightarrow> 'a" where
  "least_by key best [] = best"
| "least_by key best (candidate # candidates) =
     least_by key (if key candidate < key best then candidate else best) candidates"

text \<open>What a group with alternatives changes in a candidate of one of them.\<close>

definition retag_span :: "int \<Rightarrow> int \<Rightarrow> string \<Rightarrow> nat \<Rightarrow> alignedSpan \<Rightarrow> alignedSpan" where
  "retag_span gmin gmax cardinality alternatives c =
     (let altCount = (if alternatives > 1 then alternatives else as_altCount c);
          (minCount, maxCount, exact) =
            (if cardinality \<noteq> [] \<and> cardinality \<noteq> ''one_of'' then (gmin, gmax, False)
             else (as_min c, as_max c, as_exact c))
      in AlignedSpan (as_node c) (formatCard minCount maxCount exact altCount) minCount maxCount exact
           altCount (as_children c) (as_childGroups c) (as_keyString c) (as_childKey c)
           (as_childMatchKeys c))"

text \<open>A group without alternatives, given the candidates of its children.\<close>

definition plain_span :: "unicode_tables \<Rightarrow> SpanGroup \<Rightarrow> alignedSpan list \<Rightarrow> alignedSpan" where
  "plain_span U g children =
     (let (minCount, maxCount) = spanBounds g
      in AlignedSpan (sg_span g) (formatCard minCount maxCount (sg_exact g) 0) minCount maxCount
           (sg_exact g) 0 children (sn_children (sg_span g)) (spanKey U (sg_span g))
           (canonicalChildrenKey children) (Some (canonicalChildMatchKeys children)))"

definition best_candidate :: "alignedSpan list \<Rightarrow> alignedSpan list" where
  "best_candidate candidates =
     (case candidates of [] \<Rightarrow> [] | c # cs \<Rightarrow> [least_by canonicalSpanKey c cs])"

fun resolveSpanGroup :: "unicode_tables \<Rightarrow> SpanGroup \<Rightarrow> alignedSpan list" where
  "resolveSpanGroup U (SpanGroup n exact gmin gmax cardinality alts
       (SpanNode occ scope kind status name http children)) =
     (if alts \<noteq> [] then
        concat (map (\<lambda>alternative. map (retag_span gmin gmax cardinality (length alts))
          (resolveSpanGroup U alternative)) alts)
      else
        [plain_span U (SpanGroup n exact gmin gmax cardinality alts
            (SpanNode occ scope kind status name http children))
          (concat (map (\<lambda>child. best_candidate (resolveSpanGroup U child)) children))])"

definition canonicalSpanCandidates :: "unicode_tables \<Rightarrow> SpanGroup list \<Rightarrow> alignedSpan list" where
  "canonicalSpanCandidates U groups = concat (map (\<lambda>g. best_candidate (resolveSpanGroup U g)) groups)"

definition canonicalSpanGroupKey :: "unicode_tables \<Rightarrow> SpanGroup \<Rightarrow> string" where
  "canonicalSpanGroupKey U g =
     join (sort (map canonicalAlignmentSpanKey (resolveSpanGroup U g))) sep_1d"

section \<open>Scores of a pair of spans\<close>

definition spanMatchScore :: "unicode_tables \<Rightarrow> SpanNode \<Rightarrow> SpanNode \<Rightarrow> int" where
  "spanMatchScore U left right =
     (if sn_kind left \<noteq> [] \<and> sn_kind right \<noteq> [] \<and> sn_kind left \<noteq> sn_kind right then -1
      else
        let kindScore = (if sn_kind left \<noteq> [] \<and> sn_kind right \<noteq> [] then 10
              else if sn_kind left = [] \<and> sn_kind right = [] then 2 else 0);
            leftName = NormalizeSpanName U (sn_name left);
            rightName = NormalizeSpanName U (sn_name right)
        in if leftName \<noteq> [] \<and> rightName \<noteq> [] then
             (if leftName \<noteq> rightName then -1
              else kindScore + 100 + (if sn_name left = sn_name right then 1 else 0))
           else if leftName = [] \<and> rightName = [] then kindScore + 2 else kindScore)"

definition spanDiffs :: "alignedSpan \<Rightarrow> alignedSpan \<Rightarrow> string list" where
  "spanDiffs left right =
     (if as_card left \<noteq> as_card right then [''count''] else []) @
     (if sn_name (as_node left) \<noteq> sn_name (as_node right) then [''name''] else []) @
     (if sn_kind (as_node left) \<noteq> sn_kind (as_node right) then [''kind''] else []) @
     (if sn_status (as_node left) \<noteq> sn_status (as_node right) then [''status''] else []) @
     (if sn_http (as_node left) \<noteq> sn_http (as_node right) then [''httpStatus''] else []) @
     (if sn_scope (as_node left) \<noteq> sn_scope (as_node right) then [''scope''] else [])"

text \<open>The points for one optional field: \<open>equal_points\<close> when both have the same value.\<close>

definition field_score :: "int \<Rightarrow> string \<Rightarrow> string \<Rightarrow> int" where
  "field_score equal_points left right =
     (if left \<noteq> [] \<and> left = right then equal_points else if left = [] \<and> right = [] then 2 else 0)"

definition shallowAlignedSpanMatchScore :: "unicode_tables \<Rightarrow> alignedSpan \<Rightarrow> alignedSpan \<Rightarrow> int" where
  "shallowAlignedSpanMatchScore U left right =
     (let score = spanMatchScore U (as_node left) (as_node right)
      in if score < 0 then score
         else
           let differenceCount = int (length (filter (\<lambda>field. field \<noteq> ''scope'') (spanDiffs left right)))
           in score
              + field_score 8 (sn_status (as_node left)) (sn_status (as_node right))
              + field_score 4 (sn_http (as_node left)) (sn_http (as_node right))
              + (if as_card left = as_card right then 2 else 0)
              + (6 - differenceCount) + (if differenceCount = 0 then 7 else 0))"

text \<open>The common keys of two sorted lists.\<close>

fun common_keys :: "string list \<Rightarrow> string list \<Rightarrow> nat" where
  "common_keys (l # ls) (r # rs) =
     (if l < r then common_keys ls (r # rs)
      else if r < l then common_keys (l # ls) rs
      else Suc (common_keys ls rs))"
| "common_keys ls rs = 0"

definition match_keys :: "alignedSpan \<Rightarrow> string list" where
  "match_keys span =
     (case as_childMatchKeys span of None \<Rightarrow> canonicalChildMatchKeys (as_children span) | Some ks \<Rightarrow> ks)"

definition childOverlapScore :: "alignedSpan \<Rightarrow> alignedSpan \<Rightarrow> int" where
  "childOverlapScore left right =
     int (common_keys (match_keys left) (match_keys right)) * 1000
     + (if as_childKey left = as_childKey right then 1000 else 0)"

definition spanRef :: "alignedSpan \<Rightarrow> SpanNode" where
  "spanRef span =
     (case as_node span of SpanNode occ scope kind status name http children \<Rightarrow>
        SpanNode occ scope kind status name http [])"

end
