(* ===== verification/Assignment.thy ===== *)
theory Assignment
  imports GoPrelude "HOL-Library.While_Combinator"
begin

text \<open>
  The solvers of \<open>report/report/align.go\<close> that pair two lists given a score for each pair of
  positions: the Hungarian algorithm, the pairing of maximum cardinality and weight built on
  it, and the Hopcroft--Karp pairing with its score-improving auction for long lists.

  The code hands a solver the two lengths and a pure function \<open>score\<close>; here a solver takes the
  two lengths and the table of that function. An entry is \<open>None\<close> where the function returns
  \<open>compatible = false\<close>, and a position without a partner is \<open>None\<close> where the code stores
  \<open>-1\<close>. The weights and potentials of the Hungarian algorithm are integers, and its lemmas bound
  the scores so that they fit in Go's \<open>int\<close>; the auction computes in \<open>int64\<close> with wrap-around
  (\<open>i64\<close>), because its prices may overflow. A loop that the code bounds only through its
  invariant has fuel that the lemmas show to be enough; the bidding loop, which does not end for
  all scores, is a \<open>while_option\<close>, which is \<open>None\<close> then.
\<close>

section \<open>Tables of scores\<close>

type_synonym edges = "int option list list"
type_synonym matching = "nat option list"
type_synonym pairs = "matching \<times> bool list"

definition score_table :: "nat \<Rightarrow> nat \<Rightarrow> (nat \<Rightarrow> nat \<Rightarrow> int option) \<Rightarrow> edges" where
  "score_table leftCount rightCount score =
     map (\<lambda>left. map (score left) [0..<rightCount]) [0..<leftCount]"

text \<open>The details of all compatible pairs, in the order of the two loops.\<close>

definition all_details :: "edges \<Rightarrow> int list" where
  "all_details es = concat (map (List.map_filter id) es)"

text \<open>\<open>usedRight\<close>, from the positions that have a partner.\<close>

definition mark_used :: "nat \<Rightarrow> matching \<Rightarrow> bool list" where
  "mark_used rightCount matched =
     fold (\<lambda>right used. case right of None \<Rightarrow> used | Some r \<Rightarrow> used[r := True]) matched
       (replicate rightCount False)"

definition no_pairs :: "nat \<Rightarrow> nat \<Rightarrow> pairs" where
  "no_pairs leftCount rightCount = (replicate leftCount None, replicate rightCount False)"

section \<open>The Hungarian algorithm\<close>

text \<open>\<open>int(^uint(0)>>1) / 4\<close>\<close>

definition hungarian_infinity :: int where
  "hungarian_infinity = 2305843009213693951"

text \<open>
  The variables of the search for a free column: \<open>column\<close>, \<open>minCost\<close>, \<open>used\<close>, the potentials
  and \<open>previous\<close>. Index 0 stands for no row and no column.
\<close>

record hsearch =
  hs_column :: nat
  hs_minCost :: "int list"
  hs_used :: "bool list"
  hs_left :: "int list"
  hs_right :: "int list"
  hs_previous :: "nat list"

text \<open>One candidate: \<open>minCost\<close>, \<open>previous\<close>, \<open>delta\<close> and \<open>nextColumn\<close>.\<close>

definition hung_scan :: "int list list \<Rightarrow> nat list \<Rightarrow> hsearch \<Rightarrow> nat
    \<Rightarrow> int list \<times> nat list \<times> int \<times> nat \<Rightarrow> int list \<times> nat list \<times> int \<times> nat" where
  "hung_scan weights matched s candidate = (\<lambda>(minCost, previous, delta, nextColumn).
     if hs_used s ! candidate then (minCost, previous, delta, nextColumn)
     else
       let row = matched ! hs_column s;
           cost = - (weights ! (row - 1) ! (candidate - 1)) - hs_left s ! row - hs_right s ! candidate;
           better = cost < minCost ! candidate;
           minCost = (if better then minCost[candidate := cost] else minCost);
           previous = (if better then previous[candidate := hs_column s] else previous)
       in if minCost ! candidate < delta then (minCost, previous, minCost ! candidate, candidate)
          else (minCost, previous, delta, nextColumn))"

text \<open>The change of the potentials and of the costs by \<open>delta\<close>.\<close>

definition hung_shift :: "nat list \<Rightarrow> bool list \<Rightarrow> int \<Rightarrow> nat
    \<Rightarrow> int list \<times> int list \<times> int list \<Rightarrow> int list \<times> int list \<times> int list" where
  "hung_shift matched used delta candidate = (\<lambda>(left, right, minCost).
     if used ! candidate then
       (left[matched ! candidate := left ! (matched ! candidate) + delta],
        right[candidate := right ! candidate - delta], minCost)
     else (left, right, minCost[candidate := minCost ! candidate - delta]))"

text \<open>One round of the search.\<close>

definition hung_round :: "int list list \<Rightarrow> nat list \<Rightarrow> hsearch \<Rightarrow> hsearch" where
  "hung_round weights matched s0 =
     (let n = length weights;
          s = s0\<lparr>hs_used := (hs_used s0)[hs_column s0 := True]\<rparr>;
          (minCost, previous, delta, nextColumn) =
            fold (hung_scan weights matched s) [1..<Suc n]
              (hs_minCost s, hs_previous s, hungarian_infinity, 0);
          (left, right, minCost) =
            fold (hung_shift matched (hs_used s) delta) [0..<Suc n] (hs_left s, hs_right s, minCost)
      in \<lparr>hs_column = nextColumn, hs_minCost = minCost, hs_used = hs_used s, hs_left = left,
          hs_right = right, hs_previous = previous\<rparr>)"

fun hung_search :: "nat \<Rightarrow> int list list \<Rightarrow> nat list \<Rightarrow> hsearch \<Rightarrow> hsearch option" where
  "hung_search 0 weights matched s = None"
| "hung_search (Suc fuel) weights matched s =
     (let s' = hung_round weights matched s
      in if matched ! hs_column s' = 0 then Some s' else hung_search fuel weights matched s')"

text \<open>The augmenting path, back from the free column.\<close>

fun hung_augment :: "nat \<Rightarrow> nat list \<Rightarrow> nat list \<Rightarrow> nat \<Rightarrow> nat list option" where
  "hung_augment 0 previous matched column = None"
| "hung_augment (Suc fuel) previous matched column =
     (let previousColumn = previous ! column;
          matched = matched[column := matched ! previousColumn]
      in if previousColumn = 0 then Some matched else hung_augment fuel previous matched previousColumn)"

text \<open>One row: the state is \<open>leftPotential\<close>, \<open>rightPotential\<close>, \<open>matchedColumn\<close>, \<open>previous\<close>.\<close>

record hstate =
  hu_left :: "int list"
  hu_right :: "int list"
  hu_matched :: "nat list"
  hu_previous :: "nat list"

definition hung_begin :: "nat \<Rightarrow> hstate \<Rightarrow> hsearch" where
  "hung_begin n h =
     \<lparr>hs_column = 0, hs_minCost = 0 # replicate n hungarian_infinity,
      hs_used = replicate (Suc n) False, hs_left = hu_left h, hs_right = hu_right h,
      hs_previous = hu_previous h\<rparr>"

definition hung_row :: "int list list \<Rightarrow> nat \<Rightarrow> hstate \<Rightarrow> hstate option" where
  "hung_row weights row h =
     (let n = length weights; matched = (hu_matched h)[0 := row]
      in case hung_search (Suc n) weights matched (hung_begin n h) of None \<Rightarrow> None
         | Some s \<Rightarrow>
             (case hung_augment (Suc n) (hs_previous s) matched (hs_column s) of None \<Rightarrow> None
              | Some matched' \<Rightarrow>
                  Some \<lparr>hu_left = hs_left s, hu_right = hs_right s, hu_matched = matched',
                        hu_previous = hs_previous s\<rparr>))"

fun hung_rows :: "int list list \<Rightarrow> nat list \<Rightarrow> hstate \<Rightarrow> hstate option" where
  "hung_rows weights [] h = Some h"
| "hung_rows weights (row # rows) h =
     (case hung_row weights row h of None \<Rightarrow> None | Some h' \<Rightarrow> hung_rows weights rows h')"

definition hung_start :: "nat \<Rightarrow> hstate" where
  "hung_start n =
     \<lparr>hu_left = replicate (Suc n) 0, hu_right = replicate (Suc n) 0,
      hu_matched = replicate (Suc n) 0, hu_previous = replicate (Suc n) 0\<rparr>"

definition read_assignment :: "nat \<Rightarrow> nat list \<Rightarrow> nat list" where
  "read_assignment n matched =
     fold (\<lambda>column assignment. assignment[matched ! column - 1 := column - 1])
       [1..<Suc n] (replicate n 0)"

definition maximumWeightAssignment :: "int list list \<Rightarrow> nat list option" where
  "maximumWeightAssignment weights =
     (let n = length weights
      in map_option (\<lambda>h. read_assignment n (hu_matched h))
           (hung_rows weights [1..<Suc n] (hung_start n)))"

section \<open>Pairs of maximum cardinality and weight\<close>

text \<open>The weight that makes one more pair outdo any difference of details.\<close>

definition pair_bonus :: "nat \<Rightarrow> nat \<Rightarrow> int list \<Rightarrow> int" where
  "pair_bonus leftCount rightCount details =
     (Max (set details) - Min (set details) + 1) * (int (min leftCount rightCount) + 1)"

definition pair_weights :: "nat \<Rightarrow> nat \<Rightarrow> edges \<Rightarrow> int list list" where
  "pair_weights leftCount rightCount es =
     (let details = all_details es; lowest = Min (set details);
          bonus = pair_bonus leftCount rightCount details
      in map (\<lambda>left. map (\<lambda>right.
            if left < leftCount \<and> right < rightCount then
              (case es ! left ! right of None \<Rightarrow> 0 | Some detail \<Rightarrow> bonus + detail - lowest)
            else 0) [0..<leftCount + rightCount]) [0..<leftCount + rightCount])"

text \<open>The loop that keeps the compatible pairs of an assignment.\<close>

definition keep_compatible :: "nat \<Rightarrow> nat \<Rightarrow> edges \<Rightarrow> nat list \<Rightarrow> matching" where
  "keep_compatible leftCount rightCount es assignment =
     map (\<lambda>left. let right = assignment ! left
        in if right < rightCount \<and> es ! left ! right \<noteq> None then Some right else None)
       [0..<leftCount]"

text \<open>The part of \<open>maximumWeightMaximumCardinalityPairs\<close> below the vertex limit.\<close>

definition optimalPairs :: "nat \<Rightarrow> nat \<Rightarrow> edges \<Rightarrow> pairs" where
  "optimalPairs leftCount rightCount es =
     (if all_details es = [] then no_pairs leftCount rightCount
      else
        let matched = keep_compatible leftCount rightCount es
              (the (maximumWeightAssignment (pair_weights leftCount rightCount es)))
        in (matched, mark_used rightCount matched))"

section \<open>The auction\<close>

text \<open>
  The weight of an item for a left vertex; the items after the right ones are its free slots. A sum
  or product of \<open>int64\<close> values wraps around once in the model, where the code wraps at every
  operation, which gives the same value.
\<close>

definition auction_weight :: "nat \<Rightarrow> nat \<Rightarrow> edges \<Rightarrow> nat \<Rightarrow> nat \<Rightarrow> int option" where
  "auction_weight leftCount rightCount es left item =
     (if item < rightCount then
        map_option (\<lambda>detail. i64 (pair_bonus leftCount rightCount (all_details es) + detail
          - Min (set (all_details es)))) (es ! left ! item)
      else Some 0)"

text \<open>\<open>bestItem\<close> with \<open>bestValue\<close>, and \<open>secondValue\<close>, after one more item.\<close>

definition auction_scan :: "(nat \<Rightarrow> int option) \<Rightarrow> int \<Rightarrow> int list \<Rightarrow> nat
    \<Rightarrow> (nat \<times> int) option \<times> int option \<Rightarrow> (nat \<times> int) option \<times> int option" where
  "auction_scan weight scale prices item = (\<lambda>(best, second).
     case weight item of None \<Rightarrow> (best, second)
     | Some w \<Rightarrow>
         let value = i64 (w * scale - prices ! item)
         in case best of None \<Rightarrow> (Some (item, value), second)
            | Some (bestItem, bestValue) \<Rightarrow>
                if value > bestValue then (Some (item, value), Some bestValue)
                else if second = None \<or> value > the second then (best, Some value)
                else (best, second))"

record auction =
  au_prices :: "int list"
  au_owners :: "nat option list"
  au_assignment :: "nat option list"
  au_unassigned :: "nat list"

definition auction_start :: "nat \<Rightarrow> nat \<Rightarrow> auction" where
  "auction_start leftCount rightCount =
     \<lparr>au_prices = replicate (rightCount + leftCount) 0,
      au_owners = replicate (rightCount + leftCount) None,
      au_assignment = replicate leftCount None, au_unassigned = [0..<leftCount]\<rparr>"

text \<open>One bid of the vertex on top of the stack; \<open>None\<close> is the code's early return.\<close>

definition auction_bid :: "nat \<Rightarrow> nat \<Rightarrow> edges \<Rightarrow> auction \<Rightarrow> auction option" where
  "auction_bid leftCount rightCount es a =
     (let left = hd (au_unassigned a)
      in case fold (auction_scan (auction_weight leftCount rightCount es left) (int leftCount + 1)
                (au_prices a)) [0..<rightCount + leftCount] (None, None) of
           (None, _) \<Rightarrow> None
         | (Some (bestItem, bestValue), second) \<Rightarrow>
             let bid = (case second of None \<Rightarrow> 1 | Some secondValue \<Rightarrow> i64 (bestValue - secondValue + 1));
                 assignment = (au_assignment a)[left := Some bestItem]
             in Some (case au_owners a ! bestItem of
                  None \<Rightarrow>
                    \<lparr>au_prices = (au_prices a)[bestItem := i64 (au_prices a ! bestItem + bid)],
                     au_owners = (au_owners a)[bestItem := Some left],
                     au_assignment = assignment, au_unassigned = tl (au_unassigned a)\<rparr>
                | Some previousOwner \<Rightarrow>
                    \<lparr>au_prices = (au_prices a)[bestItem := i64 (au_prices a ! bestItem + bid)],
                     au_owners = (au_owners a)[bestItem := Some left],
                     au_assignment = assignment[previousOwner := None],
                     au_unassigned = previousOwner # tl (au_unassigned a)\<rparr>))"

text \<open>The loop, until no vertex is left or a bid fails; \<open>None\<close> if it goes on forever.\<close>

definition auction_run :: "nat \<Rightarrow> nat \<Rightarrow> edges \<Rightarrow> auction \<Rightarrow> auction option option" where
  "auction_run leftCount rightCount es a =
     while_option (\<lambda>s. case s of None \<Rightarrow> False | Some a \<Rightarrow> au_unassigned a \<noteq> [])
       (\<lambda>s. auction_bid leftCount rightCount es (the s)) (Some a)"

text \<open>Number of pairs and total detail of a matching, if all its pairs are compatible.\<close>

definition tally_pair :: "edges \<Rightarrow> nat \<times> nat option \<Rightarrow> (nat \<times> int) option \<Rightarrow> (nat \<times> int) option" where
  "tally_pair es = (\<lambda>(left, right) total.
     case (total, right) of
       (None, _) \<Rightarrow> None
     | (Some t, None) \<Rightarrow> Some t
     | (Some (k, d), Some r) \<Rightarrow>
         (case es ! left ! r of None \<Rightarrow> None | Some detail \<Rightarrow> Some (Suc k, i64 (d + detail))))"

definition tally_matching :: "edges \<Rightarrow> matching \<Rightarrow> (nat \<times> int) option" where
  "tally_matching es m = fold (tally_pair es) (List.enumerate 0 m) (Some (0, 0))"

text \<open>The matching of the auction: the real items.\<close>

definition auction_matching :: "nat \<Rightarrow> nat option list \<Rightarrow> matching" where
  "auction_matching rightCount assignment =
     map (\<lambda>item. case item of None \<Rightarrow> None | Some i \<Rightarrow> if i < rightCount then Some i else None)
       assignment"

text \<open>
  Where the bidding loop does not end, the code does not return, and the matching is left as it is;
  \<open>auction_fits\<close> (in \<open>Auction\<close>) excludes this.
\<close>

definition improveMatchingScores :: "nat \<Rightarrow> nat \<Rightarrow> edges \<Rightarrow> matching \<Rightarrow> matching" where
  "improveMatchingScores leftCount rightCount es leftToRight =
     (if leftCount = 0 \<or> rightCount = 0 \<or> all_details es = [] then leftToRight
      else case auction_run leftCount rightCount es (auction_start leftCount rightCount) of
          None \<Rightarrow> leftToRight
        | Some None \<Rightarrow> leftToRight
        | Some (Some a) \<Rightarrow>
            let candidate = auction_matching rightCount (au_assignment a)
            in case (tally_matching es leftToRight, tally_matching es candidate) of
                 (Some (originalCardinality, originalScore), Some (candidateCardinality, candidateScore)) \<Rightarrow>
                   if candidateCardinality = originalCardinality \<and> candidateScore > originalScore
                   then candidate else leftToRight
               | _ \<Rightarrow> leftToRight)"

section \<open>The linear-memory pairing\<close>

record hk =
  hk_left :: matching
  hk_right :: matching
  hk_distance :: "int list"
  hk_next :: "nat list"

definition hk_match :: "nat \<Rightarrow> nat \<Rightarrow> hk \<Rightarrow> hk" where
  "hk_match left right s =
     s\<lparr>hk_left := (hk_left s)[left := Some right], hk_right := (hk_right s)[right := Some left]\<rparr>"

definition hk_seed_pair :: "nat \<Rightarrow> nat \<Rightarrow> edges \<Rightarrow> nat \<times> nat option \<Rightarrow> hk \<Rightarrow> hk" where
  "hk_seed_pair leftCount rightCount es = (\<lambda>(left, right) s.
     case right of None \<Rightarrow> s
     | Some r \<Rightarrow>
         if left \<ge> leftCount \<or> r \<ge> rightCount then s
         else if hk_right s ! r \<noteq> None then s
         else if es ! left ! r \<noteq> None then hk_match left r s else s)"

definition hk_seed :: "nat \<Rightarrow> nat \<Rightarrow> edges \<Rightarrow> matching \<Rightarrow> hk" where
  "hk_seed leftCount rightCount es seed =
     fold (hk_seed_pair leftCount rightCount es) (List.enumerate 0 seed)
       \<lparr>hk_left = replicate leftCount None, hk_right = replicate rightCount None,
        hk_distance = replicate leftCount 0, hk_next = []\<rparr>"

text \<open>The breadth-first search: the distances, the queue and whether a free right vertex was met.\<close>

definition hk_visit :: "edges \<Rightarrow> matching \<Rightarrow> nat \<Rightarrow> nat
    \<Rightarrow> int list \<times> nat list \<times> bool \<Rightarrow> int list \<times> nat list \<times> bool" where
  "hk_visit es rightToLeft left right = (\<lambda>(distance, queue, found).
     if es ! left ! right = None then (distance, queue, found)
     else case rightToLeft ! right of
         None \<Rightarrow> (distance, queue, True)
       | Some matchedLeft \<Rightarrow>
           if distance ! matchedLeft < 0
           then (distance[matchedLeft := distance ! left + 1], queue @ [matchedLeft], found)
           else (distance, queue, found))"

fun hk_bfs :: "nat \<Rightarrow> nat \<Rightarrow> edges \<Rightarrow> matching \<Rightarrow> int list \<times> nat list \<times> bool \<Rightarrow> (int list \<times> bool) option" where
  "hk_bfs fuel rightCount es rightToLeft (distance, [], found) = Some (distance, found)"
| "hk_bfs 0 rightCount es rightToLeft (distance, left # queue, found) = None"
| "hk_bfs (Suc fuel) rightCount es rightToLeft (distance, left # queue, found) =
     hk_bfs fuel rightCount es rightToLeft
       (fold (hk_visit es rightToLeft left) [0..<rightCount] (distance, queue, found))"

text \<open>
  \<open>augment\<close>: the loop over the right vertices goes on after a failed step, so that one
  iteration is one call, here with fuel.
\<close>

fun hk_augment :: "nat \<Rightarrow> nat \<Rightarrow> edges \<Rightarrow> nat \<Rightarrow> hk \<Rightarrow> (bool \<times> hk) option" where
  "hk_augment 0 rightCount es left s = None"
| "hk_augment (Suc fuel) rightCount es left s =
     (let right = hk_next s ! left
      in if right \<ge> rightCount then Some (False, s\<lparr>hk_distance := (hk_distance s)[left := -1]\<rparr>)
         else
           let s' = s\<lparr>hk_next := (hk_next s)[left := right + 1]\<rparr>
           in if es ! left ! right = None then hk_augment fuel rightCount es left s'
              else case hk_right s' ! right of
                  None \<Rightarrow> Some (True, hk_match left right s')
                | Some matchedLeft \<Rightarrow>
                    if hk_distance s' ! matchedLeft = hk_distance s' ! left + 1 then
                      (case hk_augment fuel rightCount es matchedLeft s' of
                         None \<Rightarrow> None
                       | Some (True, s'') \<Rightarrow> Some (True, hk_match left right s'')
                       | Some (False, s'') \<Rightarrow> hk_augment fuel rightCount es left s'')
                    else hk_augment fuel rightCount es left s')"

text \<open>The loop over the unmatched left vertices.\<close>

fun hk_augments :: "nat \<Rightarrow> nat \<Rightarrow> edges \<Rightarrow> nat list \<Rightarrow> hk \<Rightarrow> hk option" where
  "hk_augments fuel rightCount es [] s = Some s"
| "hk_augments fuel rightCount es (left # rest) s =
     (if hk_left s ! left = None then
        (case hk_augment fuel rightCount es left s of None \<Rightarrow> None
         | Some (_, s') \<Rightarrow> hk_augments fuel rightCount es rest s')
      else hk_augments fuel rightCount es rest s)"

definition hk_levels :: "nat \<Rightarrow> nat \<Rightarrow> edges \<Rightarrow> hk \<Rightarrow> (int list \<times> bool) option" where
  "hk_levels leftCount rightCount es s =
     hk_bfs leftCount rightCount es (hk_right s)
       (map (\<lambda>r. if r = None then 0 else -1) (hk_left s),
        filter (\<lambda>left. hk_left s ! left = None) [0..<leftCount], False)"

text \<open>The phases, until no free right vertex is reachable.\<close>

fun hk_phases :: "nat \<Rightarrow> nat \<Rightarrow> nat \<Rightarrow> edges \<Rightarrow> hk \<Rightarrow> hk option" where
  "hk_phases 0 leftCount rightCount es s = None"
| "hk_phases (Suc fuel) leftCount rightCount es s =
     (case hk_levels leftCount rightCount es s of None \<Rightarrow> None
      | Some (distance, found) \<Rightarrow>
          if \<not> found then Some (s\<lparr>hk_distance := distance\<rparr>)
          else case hk_augments (Suc (leftCount * rightCount)) rightCount es [0..<leftCount]
                 (s\<lparr>hk_distance := distance, hk_next := replicate leftCount 0\<rparr>) of None \<Rightarrow> None
             | Some s' \<Rightarrow> hk_phases fuel leftCount rightCount es s')"

definition linearMemoryMaximumCardinalityPairsWithSeed :: "nat \<Rightarrow> nat \<Rightarrow> edges \<Rightarrow> matching \<Rightarrow> pairs" where
  "linearMemoryMaximumCardinalityPairsWithSeed leftCount rightCount es seed =
     (let s = the (hk_phases (Suc leftCount) leftCount rightCount es (hk_seed leftCount rightCount es seed));
          matched = improveMatchingScores leftCount rightCount es (hk_left s)
      in (matched, mark_used rightCount matched))"

definition linearMemoryMaximumCardinalityPairs :: "nat \<Rightarrow> nat \<Rightarrow> edges \<Rightarrow> pairs" where
  "linearMemoryMaximumCardinalityPairs leftCount rightCount es =
     linearMemoryMaximumCardinalityPairsWithSeed leftCount rightCount es []"

section \<open>Pairs for lists of any length\<close>

definition optimalAssignmentVertexLimit :: nat where
  "optimalAssignmentVertexLimit = 128"

definition maximumWeightMaximumCardinalityPairs :: "nat \<Rightarrow> nat \<Rightarrow> edges \<Rightarrow> pairs" where
  "maximumWeightMaximumCardinalityPairs leftCount rightCount es =
     (if leftCount = 0 \<or> rightCount = 0 then no_pairs leftCount rightCount
      else if leftCount + rightCount > optimalAssignmentVertexLimit
      then linearMemoryMaximumCardinalityPairs leftCount rightCount es
      else optimalPairs leftCount rightCount es)"

text \<open>The pairs of the sorted positions, back in the original order.\<close>

definition place_pairs :: "nat list \<Rightarrow> nat list \<Rightarrow> matching \<Rightarrow> matching" where
  "place_pairs leftOrder rightOrder sortedMatched =
     fold (\<lambda>(sortedLeft, sortedRight) matched.
         case sortedRight of None \<Rightarrow> matched
         | Some r \<Rightarrow> matched[leftOrder ! sortedLeft := Some (rightOrder ! r)])
       (List.enumerate 0 sortedMatched) (replicate (length leftOrder) None)"

end
