(* ===== verification/Align.thy ===== *)
theory Align
  imports Spans Assignment
begin

text \<open>
  Alignment of two scenario shapes (\<open>report/report/align.go\<close>): the pairing of sibling spans,
  of authored sibling groups and of traces, on the solvers of \<open>Assignment\<close>, and the rows and
  totals \<open>AlignShapes\<close> returns.
\<close>

section \<open>Pairs of spans\<close>

definition nestedScoreVertexLimit :: nat where
  "nestedScoreVertexLimit = 16"

text \<open>A negative score says that two spans are incompatible.\<close>

definition compatible_score :: "int \<Rightarrow> int option" where
  "compatible_score v = (if v < 0 then None else Some v)"

text \<open>\<open>rightByKey\<close>, and the loop that takes the first unused right position with the left key.\<close>

definition right_by_key :: "string list \<Rightarrow> (string, nat list) gomap" where
  "right_by_key keys =
     fold (\<lambda>(i, key) m. go_put key (go_get0 [] m key @ [i]) m) (List.enumerate 0 keys) []"

fun seed_from :: "string list \<Rightarrow> (string, nat list) gomap \<Rightarrow> matching" where
  "seed_from [] m = []"
| "seed_from (key # keys) m =
     (case go_get0 [] m key of
        [] \<Rightarrow> None # seed_from keys m
      | i # rest \<Rightarrow> Some i # seed_from keys (go_put key rest m))"

definition seed_by_key :: "string list \<Rightarrow> string list \<Rightarrow> matching" where
  "seed_by_key leftKeys rightKeys = seed_from leftKeys (right_by_key rightKeys)"

text \<open>The positions in stable order of their keys.\<close>

definition key_order :: "string list \<Rightarrow> nat list" where
  "key_order keys = sort_key (\<lambda>i. keys ! i) [0..<length keys]"

definition canonicalMaximumWeightMaximumCardinalityPairs ::
    "string list \<Rightarrow> string list \<Rightarrow> (nat \<Rightarrow> nat \<Rightarrow> int option) \<Rightarrow> pairs" where
  "canonicalMaximumWeightMaximumCardinalityPairs leftKeys rightKeys score =
     (let leftOrder = key_order leftKeys; rightOrder = key_order rightKeys;
          (sortedMatched, _) = maximumWeightMaximumCardinalityPairs (length leftKeys) (length rightKeys)
            (score_table (length leftKeys) (length rightKeys)
              (\<lambda>i j. score (leftOrder ! i) (rightOrder ! j)));
          matchedRight = place_pairs leftOrder rightOrder sortedMatched
      in (matchedRight, mark_used (length rightKeys) matchedRight))"

text \<open>The score \<open>rootScore\<close> of \<open>shallowTraceMatchScore\<close> and of long lists of spans.\<close>

definition shallow_overlap_score :: "unicode_tables \<Rightarrow> alignedSpan \<Rightarrow> alignedSpan \<Rightarrow> int" where
  "shallow_overlap_score U left right =
     (let v = shallowAlignedSpanMatchScore U left right
      in if v < 0 then v else v + childOverlapScore left right)"

definition maximumCardinalityPairsInOrder :: "unicode_tables \<Rightarrow> alignedSpan list \<Rightarrow> alignedSpan list
    \<Rightarrow> (alignedSpan \<Rightarrow> alignedSpan \<Rightarrow> int) \<Rightarrow> pairs" where
  "maximumCardinalityPairsInOrder U left right score =
     (if length left + length right \<le> optimalAssignmentVertexLimit then
        maximumWeightMaximumCardinalityPairs (length left) (length right)
          (map (\<lambda>l. map (\<lambda>r. compatible_score (score l r)) right) left)
      else
        linearMemoryMaximumCardinalityPairsWithSeed (length left) (length right)
          (map (\<lambda>l. map (\<lambda>r. compatible_score (shallow_overlap_score U l r)) right) left)
          (seed_by_key (map canonicalSpanKey left) (map canonicalSpanKey right)))"

definition maximumCardinalityPairs :: "unicode_tables \<Rightarrow> alignedSpan list \<Rightarrow> alignedSpan list
    \<Rightarrow> (alignedSpan \<Rightarrow> alignedSpan \<Rightarrow> int) \<Rightarrow> pairs" where
  "maximumCardinalityPairs U left right score =
     (let leftOrder = key_order (map canonicalAlignmentSpanKey left);
          rightOrder = key_order (map canonicalAlignmentSpanKey right);
          (sortedMatched, _) = maximumCardinalityPairsInOrder U (map ((!) left) leftOrder)
            (map ((!) right) rightOrder) score;
          matchedRight = place_pairs leftOrder rightOrder sortedMatched
      in (matchedRight, mark_used (length right) matchedRight))"

text \<open>Number of pairs and their total score.\<close>

definition total_score :: "(alignedSpan \<Rightarrow> alignedSpan \<Rightarrow> int) \<Rightarrow> alignedSpan list \<Rightarrow> alignedSpan list
    \<Rightarrow> matching \<Rightarrow> int \<times> int" where
  "total_score score left right matchedRight =
     fold (\<lambda>(l, r) (matched, detail).
         case r of None \<Rightarrow> (matched, detail) | Some j \<Rightarrow> (matched + 1, detail + score l (right ! j)))
       (zip left matchedRight) (0, 0)"

definition pairedSpanListScore :: "unicode_tables \<Rightarrow> (alignedSpan \<Rightarrow> alignedSpan \<Rightarrow> int)
    \<Rightarrow> alignedSpan list \<Rightarrow> alignedSpan list \<Rightarrow> int \<times> int" where
  "pairedSpanListScore U score left right =
     total_score score left right (fst (maximumCardinalityPairs U left right score))"

section \<open>Pairs of candidates\<close>

text \<open>
  The two nested loops of \<open>bestSpanPair\<close>, \<open>bestShallowSpanPair\<close>, \<open>bestTracePair\<close> and
  \<open>bestShallowTracePair\<close>: the best score, and the least pair of keys among the best.
\<close>

definition better_pair :: "('a \<Rightarrow> string) \<Rightarrow> ('a \<Rightarrow> 'a \<Rightarrow> int option) \<Rightarrow> 'a \<times> 'a
    \<Rightarrow> ('a \<times> 'a \<times> int) option \<Rightarrow> ('a \<times> 'a \<times> int) option" where
  "better_pair key score = (\<lambda>(left, right) best.
     case score left right of None \<Rightarrow> best
     | Some v \<Rightarrow>
         (case best of None \<Rightarrow> Some (left, right, v)
          | Some (bestLeft, bestRight, bestScore) \<Rightarrow>
              if v > bestScore \<or> v = bestScore \<and>
                 key left @ sep_1c @ key right < key bestLeft @ sep_1c @ key bestRight
              then Some (left, right, v) else best))"

definition best_pair :: "('a \<Rightarrow> string) \<Rightarrow> ('a \<Rightarrow> 'a \<Rightarrow> int option) \<Rightarrow> 'a list \<Rightarrow> 'a list
    \<Rightarrow> ('a \<times> 'a \<times> int) option" where
  "best_pair key score lefts rights = fold (better_pair key score) (List.product lefts rights) None"

definition bestSpanPair :: "unicode_tables \<Rightarrow> (alignedSpan \<Rightarrow> alignedSpan \<Rightarrow> int) \<Rightarrow> SpanGroup \<Rightarrow> SpanGroup
    \<Rightarrow> (alignedSpan \<times> alignedSpan \<times> int) option" where
  "bestSpanPair U score leftGroup rightGroup =
     best_pair canonicalSpanKey (\<lambda>l r. compatible_score (score l r))
       (resolveSpanGroup U leftGroup) (resolveSpanGroup U rightGroup)"

definition bestShallowSpanPair :: "unicode_tables \<Rightarrow> SpanGroup \<Rightarrow> SpanGroup
    \<Rightarrow> (alignedSpan \<times> alignedSpan \<times> int) option" where
  "bestShallowSpanPair U leftGroup rightGroup =
     best_pair canonicalSpanKey (\<lambda>l r. compatible_score (shallow_overlap_score U l r))
       (resolveSpanGroup U leftGroup) (resolveSpanGroup U rightGroup)"

definition choice_score :: "('a \<times> 'a \<times> int) option \<Rightarrow> int option" where
  "choice_score choice = map_option (\<lambda>(l, r, v). v) choice"

text \<open>The loop that puts the chosen candidates of the matched groups in place; \<open>zero\<close> is the zero choice.\<close>

definition put_choice :: "'a \<Rightarrow> (nat \<Rightarrow> nat \<Rightarrow> ('a \<times> 'a \<times> int) option) \<Rightarrow> nat \<times> nat option
    \<Rightarrow> 'a list \<times> 'a list \<Rightarrow> 'a list \<times> 'a list" where
  "put_choice zero choice = (\<lambda>(i, r) (left, right).
     case r of None \<Rightarrow> (left, right)
     | Some j \<Rightarrow>
         (case choice i j of None \<Rightarrow> (left[i := zero], right[j := zero])
          | Some (l, r, v) \<Rightarrow> (left[i := l], right[j := r])))"

definition put_choices :: "'a \<Rightarrow> (nat \<Rightarrow> nat \<Rightarrow> ('a \<times> 'a \<times> int) option) \<Rightarrow> matching
    \<Rightarrow> 'a list \<times> 'a list \<Rightarrow> 'a list \<times> 'a list" where
  "put_choices zero choice matchedRight = fold (put_choice zero choice) (List.enumerate 0 matchedRight)"

definition choosePairedCandidates :: "unicode_tables \<Rightarrow> (alignedSpan \<Rightarrow> alignedSpan \<Rightarrow> int)
    \<Rightarrow> SpanGroup list \<Rightarrow> SpanGroup list \<Rightarrow> alignedSpan list \<times> alignedSpan list" where
  "choosePairedCandidates U score leftGroups rightGroups =
     (let choice = (\<lambda>i j. bestSpanPair U score (leftGroups ! i) (rightGroups ! j));
          (matchedRight, _) = canonicalMaximumWeightMaximumCardinalityPairs
            (map (canonicalSpanGroupKey U) leftGroups) (map (canonicalSpanGroupKey U) rightGroups)
            (\<lambda>i j. choice_score
              (if length leftGroups + length rightGroups > optimalAssignmentVertexLimit
               then bestShallowSpanPair U (leftGroups ! i) (rightGroups ! j) else choice i j))
      in put_choices zero_span choice matchedRight
           (canonicalSpanCandidates U leftGroups, canonicalSpanCandidates U rightGroups))"

section \<open>Depths\<close>

text \<open>The nesting of a group and of a candidate; the recursion over pairs of children ends on it.\<close>

fun group_depth :: "SpanGroup \<Rightarrow> nat" where
  "group_depth (SpanGroup n exact gmin gmax cardinality alts
      (SpanNode occ scope kind status name http children)) =
     Suc (max (Max (set (0 # map group_depth alts))) (Max (set (0 # map group_depth children))))"

fun span_depth :: "alignedSpan \<Rightarrow> nat" where
  "span_depth (AlignedSpan node cardinality minCount maxCount exact altCount children groups keyString childKey matchKeys) =
     Suc (max (Max (set (0 # map span_depth children))) (Max (set (0 # map group_depth groups))))"

definition max_depth :: "alignedSpan list \<Rightarrow> nat" where
  "max_depth spans = Max (set (0 # map span_depth spans))"

lemma max_depth_in: "s \<in> set spans \<Longrightarrow> span_depth s \<le> max_depth spans"
  by (simp add: max_depth_def)

lemma max_depth_le: "(\<And>s. s \<in> set spans \<Longrightarrow> span_depth s \<le> d) \<Longrightarrow> max_depth spans \<le> d"
  by (auto simp: max_depth_def)

lemma max_depth_less: "0 < d \<Longrightarrow> (\<And>s. s \<in> set spans \<Longrightarrow> span_depth s < d) \<Longrightarrow> max_depth spans < d"
  by (auto simp: max_depth_def)

lemma child_depth: "c \<in> set (as_children s) \<Longrightarrow> span_depth c < span_depth s"
  by (cases s) (auto simp: less_Suc_eq_le le_max_iff_disj)

lemma child_group_depth: "g \<in> set (as_childGroups s) \<Longrightarrow> group_depth g < span_depth s"
  by (cases s) (auto simp: less_Suc_eq_le le_max_iff_disj)

lemma group_depth_pos: "0 < group_depth g"
  by (cases g rule: group_depth.cases) simp

lemma retag_depth [simp]: "span_depth (retag_span gmin gmax cardinality n c) = span_depth c"
  by (cases c) (simp add: retag_span_def split: prod.split)

lemma least_by_in: "least_by key c cs \<in> set (c # cs)"
  by (induction key c cs rule: least_by.induct) auto

lemma best_candidate_in: "c \<in> set (best_candidate cs) \<Longrightarrow> c \<in> set cs"
proof (cases cs)
  case (Cons d ds)
  then show "c \<in> set (best_candidate cs) \<Longrightarrow> c \<in> set cs"
    using least_by_in [of canonicalSpanKey d ds] by (simp add: best_candidate_def)
qed (simp add: best_candidate_def)

lemma resolve_depth: "c \<in> set (resolveSpanGroup U g) \<Longrightarrow> span_depth c \<le> group_depth g"
proof (induction U g arbitrary: c rule: resolveSpanGroup.induct)
  case (1 U n exact gmin gmax cardinality alts occ scope kind status name http children)
  show ?case
  proof (cases "alts = []")
    case True
    have "span_depth d \<le> Max (set (0 # map group_depth children))"
      if "g \<in> set children" "d \<in> set (best_candidate (resolveSpanGroup U g))" for g d
      using 1(2) [OF _ that(1) best_candidate_in [OF that(2)]] True that(1)
      by (simp add: Max_ge_iff) blast
    then have "Max (set (0 # map span_depth (concat (map (\<lambda>child. best_candidate (resolveSpanGroup U child)) children))))
        \<le> Max (set (0 # map group_depth children))"
      by (intro Max.boundedI) auto
    with 1(3) True show ?thesis
      by (simp add: plain_span_def spanBounds_def)
  next
    case False
    with 1(3) obtain g d where g: "g \<in> set alts" "d \<in> set (resolveSpanGroup U g)" "span_depth c = span_depth d"
      by auto
    with 1(1) [OF False g(1,2)] have "span_depth c \<le> Max (set (0 # map group_depth alts))"
      by (auto simp: Max_ge_iff)
    then show ?thesis by simp
  qed
qed

section \<open>What the pairing of lists reads of its score\<close>

lemma key_order_set [simp]: "set (key_order keys) = {0..<length keys}"
  by (simp add: key_order_def)

lemma key_order_length [simp]: "length (key_order keys) = length keys"
  by (simp add: key_order_def)

lemma place_pairs_length [simp]: "length (place_pairs leftOrder rightOrder m) = length leftOrder"
proof -
  have "length (fold (\<lambda>(sortedLeft, sortedRight) matched.
         case sortedRight of None \<Rightarrow> matched
         | Some r \<Rightarrow> matched[leftOrder ! sortedLeft := Some (rightOrder ! r)]) xs acc) = length acc"
    for xs and acc :: matching
    by (induction xs arbitrary: acc) (auto split: option.split)
  then show ?thesis by (simp add: place_pairs_def)
qed

lemma inOrder_cong:
  assumes "\<And>l r. l \<in> set left \<Longrightarrow> score l r = score' l r"
  shows "maximumCardinalityPairsInOrder U left right score = maximumCardinalityPairsInOrder U left right score'"
proof -
  have "map (\<lambda>l. map (\<lambda>r. compatible_score (score l r)) right) left
      = map (\<lambda>l. map (\<lambda>r. compatible_score (score' l r)) right) left"
    using assms by simp
  then show ?thesis by (simp only: maximumCardinalityPairsInOrder_def)
qed

lemma maximumCardinalityPairs_cong:
  assumes "\<And>l r. l \<in> set left \<Longrightarrow> score l r = score' l r"
  shows "maximumCardinalityPairs U left right score = maximumCardinalityPairs U left right score'"
proof -
  have "maximumCardinalityPairsInOrder U (map ((!) left) (key_order (map canonicalAlignmentSpanKey left)))
      (map ((!) right) (key_order (map canonicalAlignmentSpanKey right))) score
    = maximumCardinalityPairsInOrder U (map ((!) left) (key_order (map canonicalAlignmentSpanKey left)))
      (map ((!) right) (key_order (map canonicalAlignmentSpanKey right))) score'"
    by (rule inOrder_cong) (use assms in auto)
  then show ?thesis by (simp only: maximumCardinalityPairs_def Let_def)
qed

lemma total_score_cong:
  assumes "\<And>l r. l \<in> set left \<Longrightarrow> score l r = score' l r"
  shows "total_score score left right m = total_score score' left right m"
  unfolding total_score_def
  by (rule fold_cong) (auto dest!: set_zip_leftD split: option.split simp: assms)

lemma pairedSpanListScore_cong [fundef_cong]:
  assumes "U = U'" "left = left'" "right = right'"
    and "\<And>l r. l \<in> set left' \<Longrightarrow> score l r = score' l r"
  shows "pairedSpanListScore U score left right = pairedSpanListScore U' score' left' right'"
  unfolding pairedSpanListScore_def using assms
  by (simp add: maximumCardinalityPairs_cong [of left' score score'] total_score_cong [of left' score score'])

lemma bestSpanPair_cong:
  assumes "\<And>l r. l \<in> set (resolveSpanGroup U leftGroup) \<Longrightarrow> score l r = score' l r"
  shows "bestSpanPair U score leftGroup rightGroup = bestSpanPair U score' leftGroup rightGroup"
  unfolding bestSpanPair_def best_pair_def
  by (rule fold_cong) (auto simp: better_pair_def assms)

lemma score_table_cong:
  "(\<And>i j. i < m \<Longrightarrow> f i j = g i j) \<Longrightarrow> score_table m n f = score_table m n g"
  by (simp add: score_table_def)

lemma canonicalPairs_cong:
  assumes "\<And>i j. i < length leftKeys \<Longrightarrow> f i j = g i j"
  shows "canonicalMaximumWeightMaximumCardinalityPairs leftKeys rightKeys f
    = canonicalMaximumWeightMaximumCardinalityPairs leftKeys rightKeys g"
proof -
  have "key_order leftKeys ! i < length leftKeys" if "i < length leftKeys" for i
    using nth_mem [of i "key_order leftKeys"] that by simp
  then have "score_table (length leftKeys) (length rightKeys) (\<lambda>i j. f (key_order leftKeys ! i) (key_order rightKeys ! j))
      = score_table (length leftKeys) (length rightKeys) (\<lambda>i j. g (key_order leftKeys ! i) (key_order rightKeys ! j))"
    by (intro score_table_cong) (simp add: assms)
  then show ?thesis by (simp only: canonicalMaximumWeightMaximumCardinalityPairs_def Let_def)
qed

lemma canonicalPairs_length:
  "length (fst (canonicalMaximumWeightMaximumCardinalityPairs leftKeys rightKeys f)) = length leftKeys"
  by (simp add: canonicalMaximumWeightMaximumCardinalityPairs_def Let_def split: prod.split)

lemma put_choices_cong:
  assumes "\<And>i j. i < length m \<Longrightarrow> f i j = g i j"
  shows "put_choices z f m acc = put_choices z g m acc"
  unfolding put_choices_def
  by (rule fold_cong) (auto simp: in_set_enumerate_eq put_choice_def assms fun_eq_iff split: option.split)

lemma choosePairedCandidates_cong [fundef_cong]:
  assumes eqs: "U = U'" "leftGroups = leftGroups'" "rightGroups = rightGroups'"
    and same: "\<And>g l r. g \<in> set leftGroups' \<Longrightarrow> l \<in> set (resolveSpanGroup U' g) \<Longrightarrow> score l r = score' l r"
  shows "choosePairedCandidates U score leftGroups rightGroups
    = choosePairedCandidates U' score' leftGroups' rightGroups'"
proof -
  have best: "bestSpanPair U' score (leftGroups' ! i) g = bestSpanPair U' score' (leftGroups' ! i) g"
    if "i < length leftGroups'" for i g
    by (rule bestSpanPair_cong) (use same that nth_mem in blast)
  define edges where "edges f = (\<lambda>i j. choice_score
    (if length leftGroups' + length rightGroups' > optimalAssignmentVertexLimit
     then bestShallowSpanPair U' (leftGroups' ! i) (rightGroups' ! j)
     else bestSpanPair U' f (leftGroups' ! i) (rightGroups' ! j)))" for f
  let ?ls = "map (canonicalSpanGroupKey U') leftGroups'"
  let ?rs = "map (canonicalSpanGroupKey U') rightGroups'"
  have pairs: "canonicalMaximumWeightMaximumCardinalityPairs ?ls ?rs (edges score)
      = canonicalMaximumWeightMaximumCardinalityPairs ?ls ?rs (edges score')"
    by (rule canonicalPairs_cong) (simp add: edges_def best)
  show ?thesis
    unfolding eqs choosePairedCandidates_def Let_def edges_def [symmetric] pairs
    using canonicalPairs_length [of ?ls ?rs "edges score'"]
    by (auto split: prod.split intro!: put_choices_cong best)
qed

text \<open>What a pairing of groups can put on the left: the zero choice or a candidate of a left group.\<close>

lemma better_pair_left:
  assumes "fold (better_pair key score) ps best = Some (l, r, v)"
    and "\<And>l r v. best = Some (l, r, v) \<Longrightarrow> P l r"
    and "\<And>l r. (l, r) \<in> set ps \<Longrightarrow> P l r"
  shows "P l r"
  using assms
proof (induction ps arbitrary: best)
  case (Cons p ps)
  show ?case
  proof (rule Cons.IH)
    show "fold (better_pair key score) ps (better_pair key score p best) = Some (l, r, v)"
      using Cons.prems(1) by simp
    show "P l' r'" if "better_pair key score p best = Some (l', r', v')" for l' r' v'
      using that Cons.prems(2,3)
      by (cases p) (auto simp: better_pair_def split: option.splits if_splits prod.splits)
  qed (use Cons.prems(3) in auto)
qed simp

lemma best_pair_in:
  "best_pair key score lefts rights = Some (l, r, v) \<Longrightarrow> l \<in> set lefts \<and> r \<in> set rights"
  unfolding best_pair_def by (erule better_pair_left) auto

lemma put_choices_left:
  assumes "x \<in> set (fst (put_choices z choice m (ls, rs)))"
    and "\<And>x. x \<in> set ls \<Longrightarrow> P x" and "m \<noteq> [] \<Longrightarrow> P z"
    and "\<And>i j l r v. i < length m \<Longrightarrow> choice i j = Some (l, r, v) \<Longrightarrow> P l"
  shows "P x"
proof -
  have "\<forall>x \<in> set (fst (fold (put_choice z choice) (List.enumerate 0 m) (ls, rs))). P x"
  proof (rule fold_invariant [where Q = "\<lambda>p. fst p < length m"])
    fix p :: "nat \<times> nat option" and acc :: "'a list \<times> 'a list"
    assume "fst p < length m" "\<forall>x \<in> set (fst acc). P x"
    moreover obtain i r where p: "p = (i, r)" by (cases p)
    moreover obtain left right where acc: "acc = (left, right)" by (cases acc)
    ultimately have i: "i < length m" and left: "\<forall>x \<in> set left. P x" by auto
    have upd: "\<forall>y \<in> set (left[k := x]). P y" if "P x" for k x
      using that left set_update_subset_insert [of left k x] by auto
    show "\<forall>x \<in> set (fst (put_choice z choice p acc)). P x"
    proof (cases r)
      case (Some j)
      show ?thesis
      proof (cases "choice i j")
        case None
        have "m \<noteq> []" using i by auto
        with None show ?thesis using p acc Some upd [OF assms(3)] by (simp add: put_choice_def)
      next
        case (Some c)
        obtain l r' v where c: "c = (l, r', v)" by (cases c)
        have "P l" by (rule assms(4) [OF i Some [unfolded c]])
        then show ?thesis using p acc \<open>r = Some j\<close> Some c upd by (simp add: put_choice_def)
      qed
    qed (use p acc left in \<open>simp add: put_choice_def\<close>)
  qed (use assms(2) in \<open>auto simp: in_set_enumerate_eq\<close>)
  then show ?thesis
    using assms(1) by (simp add: put_choices_def)
qed

lemma choosePairedCandidates_left:
  assumes "x \<in> set (fst (choosePairedCandidates U score leftGroups rightGroups))"
  shows "leftGroups \<noteq> [] \<and> (x = zero_span \<or> (\<exists>g \<in> set leftGroups. x \<in> set (resolveSpanGroup U g)))"
proof -
  define edges where "edges = (\<lambda>i j. choice_score
    (if length leftGroups + length rightGroups > optimalAssignmentVertexLimit
     then bestShallowSpanPair U (leftGroups ! i) (rightGroups ! j)
     else bestSpanPair U score (leftGroups ! i) (rightGroups ! j)))"
  obtain m used where m: "canonicalMaximumWeightMaximumCardinalityPairs
      (map (canonicalSpanGroupKey U) leftGroups) (map (canonicalSpanGroupKey U) rightGroups) edges = (m, used)"
    by (meson surj_pair)
  with canonicalPairs_length [of "map (canonicalSpanGroupKey U) leftGroups"
      "map (canonicalSpanGroupKey U) rightGroups" edges]
  have len: "length m = length leftGroups" by simp
  have "x \<in> set (fst (put_choices zero_span (\<lambda>i j. bestSpanPair U score (leftGroups ! i) (rightGroups ! j)) m
      (canonicalSpanCandidates U leftGroups, canonicalSpanCandidates U rightGroups)))"
    using assms m by (simp add: choosePairedCandidates_def Let_def edges_def)
  then show ?thesis
  proof (rule put_choices_left)
    show "leftGroups \<noteq> [] \<and> (y = zero_span \<or> (\<exists>g \<in> set leftGroups. y \<in> set (resolveSpanGroup U g)))"
      if "y \<in> set (canonicalSpanCandidates U leftGroups)" for y
      using that best_candidate_in by (auto simp: canonicalSpanCandidates_def)
    show "leftGroups \<noteq> [] \<and> (l = zero_span \<or> (\<exists>g \<in> set leftGroups. l \<in> set (resolveSpanGroup U g)))"
      if "i < length m" "bestSpanPair U score (leftGroups ! i) (rightGroups ! j) = Some (l, r, v)" for i j l r v
      using that best_pair_in [OF that(2) [unfolded bestSpanPair_def]] len nth_mem [of i leftGroups] by auto
  qed (use len in auto)
qed

lemma chosen_depth:
  assumes "x \<in> set (fst (choosePairedCandidates U score (as_childGroups left) rightGroups))"
  shows "span_depth x < span_depth left"
proof -
  obtain g where g: "g \<in> set (as_childGroups left)"
    using choosePairedCandidates_left [OF assms] by (cases "as_childGroups left") auto
  consider "x = zero_span" | h where "h \<in> set (as_childGroups left)" "x \<in> set (resolveSpanGroup U h)"
    using choosePairedCandidates_left [OF assms] by blast
  then show ?thesis
  proof cases
    case 1
    then show ?thesis using child_group_depth [OF g] group_depth_pos [of g] by (simp add: zero_span_def)
  next
    case 2
    then show ?thesis using resolve_depth [of x U h] child_group_depth [of h left] by simp
  qed
qed

section \<open>Scores and rows of spans\<close>

function alignedSpanMatchScore :: "unicode_tables \<Rightarrow> alignedSpan \<Rightarrow> alignedSpan \<Rightarrow> int" where
  "alignedSpanMatchScore U left right =
     (let score = shallowAlignedSpanMatchScore U left right
      in if score < 0 then score
         else if length (as_children left) + length (as_children right) > nestedScoreVertexLimit
         then score + childOverlapScore left right
         else
           let (leftChildren, rightChildren) =
                 (if as_childGroups left \<noteq> [] \<or> as_childGroups right \<noteq> []
                  then choosePairedCandidates U (\<lambda>l r. alignedSpanMatchScore U l r)
                    (as_childGroups left) (as_childGroups right)
                  else (as_children left, as_children right));
               (childMatches, childDetail) =
                 pairedSpanListScore U (\<lambda>l r. alignedSpanMatchScore U l r) leftChildren rightChildren
           in score + childMatches * 1000 + childDetail)"
  by pat_completeness auto
termination
proof (relation "measure (\<lambda>(U, left, right). span_depth left)")
  show "((U, l, r), U, left, right) \<in> measure (\<lambda>(U, left, right). span_depth left)"
    if "g \<in> set (as_childGroups left)" "l \<in> set (resolveSpanGroup U g)"
    for U :: unicode_tables and left right l r g
    using resolve_depth [OF that(2)] child_group_depth [OF that(1)] by simp
  show "((U, l, r), U, left, right) \<in> measure (\<lambda>(U, left, right). span_depth left)"
    if "p = (if as_childGroups left \<noteq> [] \<or> as_childGroups right \<noteq> []
        then choosePairedCandidates U score (as_childGroups left) (as_childGroups right)
        else (as_children left, as_children right))" "(lc, rc) = p" "l \<in> set lc"
    for U :: unicode_tables and left right l r lc rc p score
  proof -
    have "l \<in> set (fst p)" using that(2,3) by (metis fst_conv)
    then show ?thesis
      using that(1) chosen_depth [of l U score left "as_childGroups right"] child_depth [of l left]
      by (auto split: if_splits)
  qed
qed simp

declare alignedSpanMatchScore.simps [simp del]

text \<open>\<open>type AlignSummary\<close> and \<open>type SpanMatch\<close>\<close>

record AlignSummary =
  al_traceMatched :: int
  al_traceLeftOnly :: int
  al_traceRightOnly :: int
  al_matched :: int
  al_leftOnly :: int
  al_rightOnly :: int
  al_differing :: int

record SpanMatch =
  mt_kind :: string
  mt_depth :: int
  mt_left :: "SpanNode option"
  mt_right :: "SpanNode option"
  mt_leftCard :: string
  mt_rightCard :: string
  mt_diffs :: "string list"

text \<open>A loop that appends rows and updates the summary.\<close>

fun each_rows :: "('a \<Rightarrow> AlignSummary \<Rightarrow> 'r list \<times> AlignSummary) \<Rightarrow> 'a list \<Rightarrow> AlignSummary
    \<Rightarrow> 'r list \<times> AlignSummary" where
  "each_rows f [] summary = ([], summary)"
| "each_rows f (x # xs) summary =
     (let (rows, summary1) = f x summary; (more, summary2) = each_rows f xs summary1
      in (rows @ more, summary2))"

lemma each_rows_cong [fundef_cong]:
  assumes "xs = ys" "s = t" "\<And>x u. x \<in> set ys \<Longrightarrow> f x u = g x u"
  shows "each_rows f xs s = each_rows g ys t"
  using assms(3) unfolding assms(1,2)
  by (induction ys arbitrary: t) (simp_all split: prod.split)

definition only_row :: "string \<Rightarrow> int \<Rightarrow> alignedSpan \<Rightarrow> SpanMatch" where
  "only_row kind depth span =
     (if kind = ''left_only''
      then \<lparr>mt_kind = kind, mt_depth = depth, mt_left = Some (spanRef span), mt_right = None,
             mt_leftCard = as_card span, mt_rightCard = [], mt_diffs = []\<rparr>
      else \<lparr>mt_kind = kind, mt_depth = depth, mt_left = None, mt_right = Some (spanRef span),
             mt_leftCard = [], mt_rightCard = as_card span, mt_diffs = []\<rparr>)"

definition count_only :: "string \<Rightarrow> AlignSummary \<Rightarrow> AlignSummary" where
  "count_only kind summary =
     (if kind = ''left_only'' then summary\<lparr>al_leftOnly := al_leftOnly summary + 1\<rparr>
      else summary\<lparr>al_rightOnly := al_rightOnly summary + 1\<rparr>)"

fun onlyRows :: "string \<Rightarrow> int \<Rightarrow> alignedSpan \<Rightarrow> AlignSummary \<Rightarrow> SpanMatch list \<times> AlignSummary" where
  "onlyRows kind depth (AlignedSpan node cardinality minCount maxCount exact altCount children groups keyString childKey matchKeys) summary =
     (let (rows, summary') = each_rows (\<lambda>child. onlyRows kind (depth + 1) child) children
            (count_only kind summary)
      in (only_row kind depth (AlignedSpan node cardinality minCount maxCount exact altCount children groups
            keyString childKey matchKeys) # rows, summary'))"

definition resolvePairedChildren :: "unicode_tables \<Rightarrow> alignedSpan \<Rightarrow> alignedSpan
    \<Rightarrow> alignedSpan list \<times> alignedSpan list" where
  "resolvePairedChildren U left right =
     (if as_childGroups left = [] \<and> as_childGroups right = []
      then (as_children left, as_children right)
      else choosePairedCandidates U (alignedSpanMatchScore U) (as_childGroups left) (as_childGroups right))"

definition matched_row :: "int \<Rightarrow> alignedSpan \<Rightarrow> alignedSpan \<Rightarrow> SpanMatch" where
  "matched_row depth left right =
     \<lparr>mt_kind = ''matched'', mt_depth = depth, mt_left = Some (spanRef left),
      mt_right = Some (spanRef right), mt_leftCard = as_card left, mt_rightCard = as_card right,
      mt_diffs = spanDiffs left right\<rparr>"

definition count_matched :: "alignedSpan \<Rightarrow> alignedSpan \<Rightarrow> AlignSummary \<Rightarrow> AlignSummary" where
  "count_matched left right summary =
     summary\<lparr>al_matched := al_matched summary + 1,
       al_differing := al_differing summary + (if spanDiffs left right \<noteq> [] then 1 else 0)\<rparr>"

lemma resolvePairedChildren_depth:
  "(lc, rc) = resolvePairedChildren U left right \<Longrightarrow> x \<in> set lc \<Longrightarrow> span_depth x < span_depth left"
  using chosen_depth [of x U "alignedSpanMatchScore U" left "as_childGroups right"] child_depth [of x left]
  by (cases "choosePairedCandidates U (alignedSpanMatchScore U) (as_childGroups left) (as_childGroups right)")
    (auto simp: resolvePairedChildren_def split: if_splits)

function matchSpans :: "unicode_tables \<Rightarrow> alignedSpan list \<Rightarrow> alignedSpan list \<Rightarrow> int \<Rightarrow> AlignSummary
    \<Rightarrow> SpanMatch list \<times> AlignSummary" where
  "matchSpans U left right depth summary =
     (let (matchedRight, usedRight) = maximumCardinalityPairs U left right (alignedSpanMatchScore U);
          (rows, summary1) = each_rows (\<lambda>p s.
              case p of
                (leftSpan, None) \<Rightarrow> ([], s)
              | (leftSpan, Some j) \<Rightarrow>
                  let (leftChildren, rightChildren) = resolvePairedChildren U leftSpan (right ! j);
                      (more, s') = matchSpans U leftChildren rightChildren (depth + 1)
                        (count_matched leftSpan (right ! j) s)
                  in (matched_row depth leftSpan (right ! j) # more, s'))
            (zip left matchedRight) summary;
          (leftRows, summary2) = each_rows (onlyRows ''left_only'' depth)
            (map fst (filter (\<lambda>(l, r). r = None) (zip left matchedRight))) summary1;
          (rightRows, summary3) = each_rows (onlyRows ''right_only'' depth)
            (map fst (filter (\<lambda>(r, used). \<not> used) (zip right usedRight))) summary2
      in (rows @ leftRows @ rightRows, summary3))"
  by pat_completeness auto
termination
proof (relation "measure (\<lambda>(U, left, right, depth, summary). max_depth left)")
  show "((U, lc, rc, d, s'), U, left, right, depth, summary)
      \<in> measure (\<lambda>(U, left, right, depth, summary). max_depth left)"
    if "p \<in> set (zip left matchedRight)" "(leftSpan, r) = p"
      "ps = resolvePairedChildren U leftSpan (right ! j)" "(lc, rc) = ps"
    for U left right depth d matchedRight p leftSpan r j ps lc rc
      and summary s' :: AlignSummary
  proof -
    have "0 < span_depth leftSpan" by (cases leftSpan) simp
    then have "max_depth lc < span_depth leftSpan"
      using resolvePairedChildren_depth [of lc rc U leftSpan "right ! j"] that(3,4)
      by (intro max_depth_less) auto
    moreover have "leftSpan \<in> set left" using that(1,2) by (auto dest: set_zip_leftD)
    ultimately show ?thesis using max_depth_in [of leftSpan left] by simp
  qed
qed simp

declare matchSpans.simps [simp del]

section \<open>Traces\<close>

text \<open>\<open>type resolvedTrace\<close>\<close>

record resolvedTrace =
  rt_index :: nat
  rt_card :: string
  rt_min :: int
  rt_max :: int
  rt_exact :: bool
  rt_altCount :: nat
  rt_coverage :: string
  rt_roots :: "alignedSpan list"
  rt_rootGroups :: "SpanGroup list"
  rt_label :: string

definition zero_trace :: resolvedTrace where
  "zero_trace = \<lparr>rt_index = 0, rt_card = [], rt_min = 0, rt_max = 0, rt_exact = False, rt_altCount = 0,
     rt_coverage = [], rt_roots = [], rt_rootGroups = [], rt_label = []\<rparr>"

definition canonicalTraceKey :: "resolvedTrace \<Rightarrow> string" where
  "canonicalTraceKey trace =
     join [rt_card trace, rt_coverage trace, join (sort (map canonicalSpanKey (rt_roots trace))) sep_1e] sep_1f"

definition retag_trace :: "int \<Rightarrow> int \<Rightarrow> string \<Rightarrow> nat \<Rightarrow> resolvedTrace \<Rightarrow> resolvedTrace" where
  "retag_trace gmin gmax cardinality alternatives c =
     (let altCount = (if alternatives > 1 then alternatives else rt_altCount c);
          (minCount, maxCount, exact) =
            (if cardinality \<noteq> [] \<and> cardinality \<noteq> ''one_of'' then (gmin, gmax, False)
             else (rt_min c, rt_max c, rt_exact c))
      in c\<lparr>rt_altCount := altCount, rt_min := minCount, rt_max := maxCount, rt_exact := exact,
           rt_card := formatCard minCount maxCount exact altCount\<rparr>)"

definition first_label :: "alignedSpan list \<Rightarrow> string \<Rightarrow> string" where
  "first_label roots label =
     (case roots of [] \<Rightarrow> label | root # _ \<Rightarrow> trim_space (sn_name (as_node root)))"

definition plain_trace :: "unicode_tables \<Rightarrow> nat \<Rightarrow> TraceGroup \<Rightarrow> resolvedTrace" where
  "plain_trace U index g =
     (let (minCount, maxCount) = traceBounds g; roots = canonicalSpanCandidates U (tg_roots g)
      in \<lparr>rt_index = index, rt_card = formatCard minCount maxCount (tg_exact g) 0, rt_min = minCount,
          rt_max = maxCount, rt_exact = tg_exact g, rt_altCount = 0, rt_coverage = tg_coverage g,
          rt_roots = roots, rt_rootGroups = tg_roots g, rt_label = first_label roots []\<rparr>)"

fun traceGroupCandidates :: "unicode_tables \<Rightarrow> nat \<Rightarrow> TraceGroup \<Rightarrow> resolvedTrace list" where
  "traceGroupCandidates U index (TraceGroup n exact gmin gmax cardinality alts coverage roots) =
     (if alts \<noteq> [] then
        concat (map (\<lambda>alternative. map (retag_trace gmin gmax cardinality (length alts))
          (traceGroupCandidates U index alternative)) alts)
      else [plain_trace U index (TraceGroup n exact gmin gmax cardinality alts coverage roots)])"

definition canonicalTraceCandidates :: "unicode_tables \<Rightarrow> TraceGroup list \<Rightarrow> resolvedTrace list" where
  "canonicalTraceCandidates U groups =
     concat (map (\<lambda>(index, g).
         case traceGroupCandidates U index g of [] \<Rightarrow> []
         | c # cs \<Rightarrow> [least_by canonicalTraceKey c cs])
       (List.enumerate 0 groups))"

text \<open>The sum of both trace scores.\<close>

definition trace_score :: "resolvedTrace \<Rightarrow> resolvedTrace \<Rightarrow> nat \<Rightarrow> nat \<Rightarrow> int \<times> int \<Rightarrow> int option" where
  "trace_score left right leftCount rightCount = (\<lambda>(matched, detail).
     if matched = 0 then None
     else Some (matched * 100000 + detail - (int leftCount + int rightCount - 2 * matched) * 10000
       + (if rt_card left = rt_card right then 100 else 0)
       + (if rt_coverage left = rt_coverage right then 10 else 0)))"

definition shallowTraceMatchScore :: "unicode_tables \<Rightarrow> resolvedTrace \<Rightarrow> resolvedTrace \<Rightarrow> int option" where
  "shallowTraceMatchScore U left right =
     (let (scoredLeft, scoredRight, matchedRight) =
        (if length (rt_roots left) + length (rt_roots right) \<le> nestedScoreVertexLimit
         then (rt_roots left, rt_roots right,
           fst (maximumCardinalityPairs U (rt_roots left) (rt_roots right) (shallow_overlap_score U)))
         else
           let sortedLeft = sort_key canonicalAlignmentSpanKey (rt_roots left);
               sortedRight = sort_key canonicalAlignmentSpanKey (rt_roots right)
           in (sortedLeft, sortedRight,
             fst (linearMemoryMaximumCardinalityPairs (length sortedLeft) (length sortedRight)
               (map (\<lambda>l. map (\<lambda>r. compatible_score (shallow_overlap_score U l r)) sortedRight) sortedLeft))))
      in trace_score left right (length (rt_roots left)) (length (rt_roots right))
           (total_score (shallow_overlap_score U) scoredLeft scoredRight matchedRight))"

definition http_score :: "string \<Rightarrow> string \<Rightarrow> int" where
  "http_score left right =
     (if left = [] \<or> right = [] \<or> left = right then 1000 else 0)
     + (if left \<noteq> [] \<and> left = right then 10 else 0)"

text \<open>\<open>rootScore\<close> of \<open>traceMatchScore\<close>\<close>

definition root_score :: "unicode_tables \<Rightarrow> alignedSpan \<Rightarrow> alignedSpan \<Rightarrow> int" where
  "root_score U left right =
     (let v = alignedSpanMatchScore U left right
      in if v < 0 then v
         else v + http_score (sn_http (as_node left)) (sn_http (as_node right)))"

definition traceMatchScore :: "unicode_tables \<Rightarrow> resolvedTrace \<Rightarrow> resolvedTrace \<Rightarrow> int option" where
  "traceMatchScore U left right =
     (let (leftRoots, rightRoots) =
        (if rt_rootGroups left \<noteq> [] \<or> rt_rootGroups right \<noteq> []
         then choosePairedCandidates U (alignedSpanMatchScore U) (rt_rootGroups left) (rt_rootGroups right)
         else (rt_roots left, rt_roots right))
      in trace_score left right (length leftRoots) (length rightRoots)
           (total_score (root_score U) leftRoots rightRoots
             (fst (maximumCardinalityPairs U leftRoots rightRoots (root_score U)))))"

definition bestTracePair :: "unicode_tables \<Rightarrow> nat \<Rightarrow> TraceGroup \<Rightarrow> nat \<Rightarrow> TraceGroup
    \<Rightarrow> (resolvedTrace \<times> resolvedTrace \<times> int) option" where
  "bestTracePair U leftIndex leftGroup rightIndex rightGroup =
     best_pair canonicalTraceKey (traceMatchScore U)
       (traceGroupCandidates U leftIndex leftGroup) (traceGroupCandidates U rightIndex rightGroup)"

definition bestShallowTracePair :: "unicode_tables \<Rightarrow> nat \<Rightarrow> TraceGroup \<Rightarrow> nat \<Rightarrow> TraceGroup
    \<Rightarrow> (resolvedTrace \<times> resolvedTrace \<times> int) option" where
  "bestShallowTracePair U leftIndex leftGroup rightIndex rightGroup =
     best_pair canonicalTraceKey (shallowTraceMatchScore U)
       (traceGroupCandidates U leftIndex leftGroup) (traceGroupCandidates U rightIndex rightGroup)"

definition choosePairedTraceCandidates :: "unicode_tables \<Rightarrow> TraceGroup list \<Rightarrow> TraceGroup list
    \<Rightarrow> resolvedTrace list \<times> resolvedTrace list" where
  "choosePairedTraceCandidates U leftGroups rightGroups =
     (let left = canonicalTraceCandidates U leftGroups;
          right = canonicalTraceCandidates U rightGroups;
          choice = (\<lambda>i j. bestTracePair U i (leftGroups ! i) j (rightGroups ! j));
          (matchedRight, _) =
            (if length leftGroups + length rightGroups > optimalAssignmentVertexLimit
             then linearMemoryMaximumCardinalityPairsWithSeed (length leftGroups) (length rightGroups)
               (score_table (length leftGroups) (length rightGroups)
                 (\<lambda>i j. choice_score (bestShallowTracePair U i (leftGroups ! i) j (rightGroups ! j))))
               (seed_by_key (map canonicalTraceKey left) (map canonicalTraceKey right))
             else maximumWeightMaximumCardinalityPairs (length leftGroups) (length rightGroups)
               (score_table (length leftGroups) (length rightGroups) (\<lambda>i j. choice_score (choice i j))))
      in put_choices zero_trace choice matchedRight (left, right))"

definition maximumCardinalityTracePairs :: "unicode_tables \<Rightarrow> resolvedTrace list \<Rightarrow> resolvedTrace list \<Rightarrow> pairs" where
  "maximumCardinalityTracePairs U left right =
     (if length left + length right > optimalAssignmentVertexLimit
      then linearMemoryMaximumCardinalityPairsWithSeed (length left) (length right)
        (map (\<lambda>l. map (shallowTraceMatchScore U l) right) left)
        (seed_by_key (map canonicalTraceKey left) (map canonicalTraceKey right))
      else maximumWeightMaximumCardinalityPairs (length left) (length right)
        (map (\<lambda>l. map (traceMatchScore U l) right) left))"

section \<open>The alignment of two shapes\<close>

record TraceRef =
  tr_index :: nat
  tr_label :: string
  tr_card :: string
  tr_coverage :: string

record TraceMatch =
  tm_kind :: string
  tm_left :: "TraceRef option"
  tm_right :: "TraceRef option"
  tm_spans :: "SpanMatch list"

record ShapeAlignment =
  sa_traces :: "TraceMatch list"
  sa_summary :: AlignSummary

definition trace_ref :: "resolvedTrace \<Rightarrow> TraceRef" where
  "trace_ref trace =
     \<lparr>tr_index = rt_index trace, tr_label = rt_label trace, tr_card = rt_card trace,
      tr_coverage = rt_coverage trace\<rparr>"

definition traceOnly :: "string \<Rightarrow> resolvedTrace \<Rightarrow> AlignSummary \<Rightarrow> TraceMatch \<times> AlignSummary" where
  "traceOnly kind trace summary =
     (let (spans, summary') = each_rows (onlyRows kind 0) (rt_roots trace) summary
      in (if kind = ''left_only''
          then \<lparr>tm_kind = kind, tm_left = Some (trace_ref trace), tm_right = None, tm_spans = spans\<rparr>
          else \<lparr>tm_kind = kind, tm_left = None, tm_right = Some (trace_ref trace), tm_spans = spans\<rparr>,
          summary'))"

text \<open>The two loops of \<open>AlignShapes\<close>: one left trace, and one unused right trace.\<close>

definition align_left :: "unicode_tables \<Rightarrow> resolvedTrace list \<Rightarrow> resolvedTrace \<times> nat option
    \<Rightarrow> AlignSummary \<Rightarrow> TraceMatch list \<times> AlignSummary" where
  "align_left U rightTraces = (\<lambda>(leftTrace, index) summary.
     case index of
       None \<Rightarrow>
         let (match, summary') = traceOnly ''left_only'' leftTrace summary
         in ([match], summary'\<lparr>al_traceLeftOnly := al_traceLeftOnly summary' + 1\<rparr>)
     | Some j \<Rightarrow>
         let rightTrace = rightTraces ! j;
             (leftRoots, rightRoots) = choosePairedCandidates U (alignedSpanMatchScore U)
               (rt_rootGroups leftTrace) (rt_rootGroups rightTrace);
             leftTrace = leftTrace\<lparr>rt_label := first_label leftRoots (rt_label leftTrace)\<rparr>;
             rightTrace = rightTrace\<lparr>rt_label := first_label rightRoots (rt_label rightTrace)\<rparr>;
             (spans, summary') = matchSpans U leftRoots rightRoots 0
               (summary\<lparr>al_traceMatched := al_traceMatched summary + 1\<rparr>)
         in ([\<lparr>tm_kind = ''matched'', tm_left = Some (trace_ref leftTrace),
               tm_right = Some (trace_ref rightTrace), tm_spans = spans\<rparr>], summary'))"

definition align_right :: "resolvedTrace \<Rightarrow> AlignSummary \<Rightarrow> TraceMatch list \<times> AlignSummary" where
  "align_right rightTrace summary =
     (let (match, summary') = traceOnly ''right_only'' rightTrace summary
      in ([match], summary'\<lparr>al_traceRightOnly := al_traceRightOnly summary' + 1\<rparr>))"

definition zero_summary :: AlignSummary where
  "zero_summary = \<lparr>al_traceMatched = 0, al_traceLeftOnly = 0, al_traceRightOnly = 0, al_matched = 0,
     al_leftOnly = 0, al_rightOnly = 0, al_differing = 0\<rparr>"

definition align_traces :: "unicode_tables \<Rightarrow> resolvedTrace list \<Rightarrow> resolvedTrace list \<Rightarrow> ShapeAlignment" where
  "align_traces U leftTraces rightTraces =
     (let (matchedRight, usedRight) = maximumCardinalityTracePairs U leftTraces rightTraces;
          (matches, summary1) =
            each_rows (align_left U rightTraces) (zip leftTraces matchedRight) zero_summary;
          (rest, summary2) =
            each_rows align_right (map fst (filter (\<lambda>(t, used). \<not> used) (zip rightTraces usedRight))) summary1
      in \<lparr>sa_traces = matches @ rest, sa_summary = summary2\<rparr>)"

definition AlignShapes :: "unicode_tables \<Rightarrow> ScenarioShape option \<Rightarrow> ScenarioShape option
    \<Rightarrow> ShapeAlignment option" where
  "AlignShapes U left right =
     (case (left, right) of
        (Some l, Some r) \<Rightarrow>
          let (leftTraces, rightTraces) = choosePairedTraceCandidates U (ss_traces l) (ss_traces r)
          in Some (align_traces U leftTraces rightTraces)
      | _ \<Rightarrow> None)"

end
