(* ===== verification/ReportModel.thy ===== *)
theory ReportModel
  imports Receipt Align
begin

text \<open>
  The report model: \<open>DecodeMetadata\<close>, \<open>VerifyMatrixDigest\<close>, \<open>BuildModelForProfiles\<close> and
  \<open>SortInputs\<close> of \<open>report/report/report.go\<close>, and the planned checks and capture comparisons of
  \<open>report/report/projections.go\<close>. Where a call fails the code also returns the model built so
  far, which its callers drop; the result here is the error alone.
\<close>

section \<open>Data\<close>

record Comparison =
  cp_leftProfile :: string
  cp_rightProfile :: string
  cp_scenario :: string
  cp_available :: bool
  cp_traceDelta :: int
  cp_spanDelta :: int
  cp_scopeDelta :: "(string, int) gomap"
  cp_statusDelta :: "(string, int) gomap"
  cp_countDelta :: int
  cp_alignment :: "ShapeAlignment option"

record CheckExecution =
  ce_scenario :: string
  ce_outcome :: string
  ce_reason :: string

record PlannedCheck =
  pk_profile :: string
  pk_featureID :: string
  pk_assertion :: string
  pk_basis :: string
  pk_evidence :: "Evidence list"
  pk_executions :: "CheckExecution list"
  pk_passed :: nat
  pk_expectedFailure :: nat
  pk_noResult :: nat

text \<open>The fields of \<open>type ReportModel\<close> that \<open>BuildModelForProfiles\<close> fills, and the planned checks.\<close>

record ReportModel =
  rm_plannedChecks :: "PlannedCheck list"
  rm_generatedFrom :: string
  rm_metadata :: CatalogMetadata
  rm_features :: "Feature list"
  rm_manifests :: "Manifest list"
  rm_verification :: "(string, (string, Verification) gomap) gomap"
  rm_scenarios :: "string list"
  rm_coverage :: "CoverageCell list"
  rm_shapes :: "ScenarioShape list"
  rm_receipts :: "ValidationReceipt list"
  rm_comparisons :: "Comparison list"

section \<open>Metadata and the matrix digest\<close>

definition DecodeMetadata :: "CatalogMetadata result \<Rightarrow> CatalogMetadata result" where
  "DecodeMetadata decoded =
     res_bind (res_wrap ''decode catalog metadata: %w'' [] decoded) (\<lambda>metadata.
     fail_if (cm_schemaVersion metadata \<noteq> 1) (Err ''catalog schemaVersion must be 1'' [])
     (fail_if (cm_maturitySource metadata = []) (Err ''catalog maturitySource is required'' [])
     (res_bind (res_each (\<lambda>language.
          let failure = Err ''catalog maturity for %s must include traces, metrics, and logs'' [language]
          in case go_get (cm_maturity metadata) language of
               None \<Rightarrow> Inl failure
             | Some m \<Rightarrow> fail_if (sm_traces m = [] \<or> sm_metrics m = [] \<or> sm_logs m = []) failure (Inr ()))
        [''go'', ''python'', ''ruby''])
      (\<lambda>_. Inr metadata))))"

definition VerifyMatrixDigest :: "string \<Rightarrow> string \<Rightarrow> unit result" where
  "VerifyMatrixDigest markdown expected =
     fail_if (digest markdown \<noteq> expected)
       (Err ''matrix SHA256 is %s, metadata requires %s'' [digest markdown, expected]) (Inr ())"

section \<open>Checks of the inputs\<close>

definition verificationStates :: "string set" where
  "verificationStates = {''verified'', ''known_gap'', ''not_exercised'', ''not_applicable''}"

definition coverageStates :: "string set" where
  "coverageStates = {''contract_only'', ''unavailable''}"

text \<open>\<open>profileScenarioSets[profile][scenario]\<close>, once the membership is checked.\<close>

definition declared_in :: "(string, string list) gomap \<Rightarrow> string \<Rightarrow> string \<Rightarrow> bool" where
  "declared_in profileScenarios profile scenario \<longleftrightarrow> scenario \<in> set (go_get0 [] profileScenarios profile)"

definition checkMembership :: "string list \<Rightarrow> string list \<Rightarrow> (string, string list) gomap \<Rightarrow> unit result" where
  "checkMembership profiles scenarios profileScenarios =
     res_bind (res_each (\<lambda>(profile, declaredScenarios).
         fail_if (profile \<notin> stringSet profiles)
           (Err ''scenario membership declared for unknown profile %q'' [profile])
           (res_each (\<lambda>scenario. fail_if (scenario \<notin> stringSet scenarios)
              (Err ''profile %q declares unknown scenario %q'' [profile, scenario]) (Inr ()))
             declaredScenarios)) profileScenarios)
     (\<lambda>_. res_each (\<lambda>profile. fail_if (go_get0 [] profileScenarios profile = [])
         (Err ''profile %q has no declared scenarios'' [profile]) (Inr ())) profiles)"

definition featureSet :: "Feature list \<Rightarrow> string set result" where
  "featureSet features =
     res_fold (\<lambda>feature ids. fail_if (ft_id feature \<in> ids)
       (Err ''duplicate feature id %q'' [ft_id feature]) (Inr (insert (ft_id feature) ids))) features {}"

definition checkClaim :: "string list \<Rightarrow> (string, string list) gomap \<Rightarrow> string set \<Rightarrow> string set
    \<Rightarrow> unicode_tables \<Rightarrow> string \<Rightarrow> FeatureClaim \<Rightarrow> (string, FeatureClaim) gomap
    \<Rightarrow> (string, FeatureClaim) gomap result" where
  "checkClaim scenarios profileScenarios featureIDs evidencePaths U profile claim claims =
     (let both = [profile, fc_featureID claim];
          wrapped = res_wrap ''normalized proof plan %q feature %q: %w'' both
      in fail_if (fc_featureID claim \<notin> featureIDs)
           (Err ''normalized proof plan %q references unknown feature id %q'' both)
         (fail_if (go_get claims (fc_featureID claim) \<noteq> None)
           (Err ''normalized proof plan %q duplicates feature id %q'' both)
         (fail_if (fc_basis claim \<noteq> ''observed'' \<and> fc_basis claim \<noteq> ''corroborated'')
           (Err ''normalized proof plan %q feature %q has invalid basis %q'' (both @ [fc_basis claim]))
         (fail_if (fc_assertion claim = [])
           (Err ''normalized proof plan %q feature %q has no capture assertion'' both)
         (fail_if (fc_allScenarios claim = (fc_scenarios claim \<noteq> []))
           (Err ''normalized proof plan %q feature %q has invalid scenario scope'' both)
         (res_bind (res_each (\<lambda>scenario.
              fail_if (scenario \<notin> stringSet scenarios)
                (Err ''normalized proof plan %q feature %q has unknown scenario %q'' (both @ [scenario]))
              (fail_if (\<not> declared_in profileScenarios profile scenario)
                (Err ''normalized proof plan %q feature %q has undeclared scenario %q'' (both @ [scenario]))
                (Inr ()))) (fc_scenarios claim))
         (\<lambda>_. res_bind (wrapped (validateEvidence (fc_evidence claim) evidencePaths))
         (\<lambda>_. res_bind
            (if fc_basis claim = ''corroborated'' then
               fail_if (length (fc_evidence claim) < 2)
                 (Err ''normalized proof plan %q corroborated feature %q has no upstream evidence'' both)
                 (res_each (\<lambda>item. wrapped (validateImmutableSource U (ev_href item))) (tl (fc_evidence claim)))
             else Inr ())
         (\<lambda>_. Inr (go_put (fc_featureID claim) claim claims))))))))))"

type_synonym claim_index = "(string, (string, FeatureClaim) gomap) gomap"

definition checkCoverage :: "string list \<Rightarrow> string list \<Rightarrow> (string, string list) gomap \<Rightarrow> string set
    \<Rightarrow> string set \<Rightarrow> unicode_tables \<Rightarrow> ProfileProofCoverage \<Rightarrow> claim_index \<Rightarrow> claim_index result" where
  "checkCoverage profiles scenarios profileScenarios featureIDs evidencePaths U coverage index =
     (let profile = pc_profile coverage
      in fail_if (profile \<notin> stringSet profiles)
           (Err ''normalized proof plan has unknown profile %q'' [profile])
         (fail_if (go_get index profile \<noteq> None)
           (Err ''duplicate normalized proof plan profile %q'' [profile])
         (res_bind (res_wrap ''normalized proof plan %q: %w'' [profile]
              (validateEvidence [pc_source coverage] evidencePaths))
         (\<lambda>_. res_bind (res_fold (checkClaim scenarios profileScenarios featureIDs evidencePaths U profile)
              (pc_claims coverage) [])
         (\<lambda>claims. Inr (go_put profile claims index))))))"

definition checkVerification :: "string set \<Rightarrow> string set \<Rightarrow> claim_index \<Rightarrow> string \<Rightarrow> Verification
    \<Rightarrow> string set \<Rightarrow> string set result" where
  "checkVerification featureIDs evidencePaths index profile v seen =
     (let both = [profile, vf_featureID v]
      in fail_if (vf_featureID v \<notin> featureIDs) (Err ''manifest %q references unknown feature id %q'' both)
         (fail_if (vf_featureID v \<in> seen) (Err ''manifest %q duplicates feature id %q'' both)
         (fail_if (vf_state v \<notin> verificationStates)
           (Err ''manifest %q feature %q has invalid state %q'' (both @ [vf_state v]))
         (fail_if (vf_state v = ''verified'')
           (Err ''manifest %q feature %q cannot manually declare verified; use executable normalized proof plan'' both)
         (fail_if (go_get (go_get0 [] index profile) (vf_featureID v) \<noteq> None)
           (Err ''manifest %q feature %q contradicts executable normalized proof plan'' both)
         (fail_if (vf_evidence v = []) (Err ''manifest %q feature %q has no evidence'' both)
         (res_bind (res_wrap ''manifest %q feature %q: %w'' both
              (validateEvidence (vf_evidence v) evidencePaths))
         (\<lambda>_. Inr (insert (vf_featureID v) seen)))))))))"

text \<open>The defaults the loop writes into the manifest.\<close>

definition fillManifest :: "Manifest \<Rightarrow> Manifest" where
  "fillManifest m =
     m\<lparr>mf_version := (if mf_version m = [] then mf_instrumentationVersion m else mf_version m),
       mf_shortLabel := (if mf_shortLabel m = []
         then FormatProfileLabel (mf_language m) (mf_framework m) [] else mf_shortLabel m)\<rparr>"

definition checkManifest :: "string list \<Rightarrow> string set \<Rightarrow> string set \<Rightarrow> claim_index \<Rightarrow> Manifest
    \<Rightarrow> string set \<times> Manifest list \<Rightarrow> (string set \<times> Manifest list) result" where
  "checkManifest profiles featureIDs evidencePaths index m = (\<lambda>(seenProfiles, filled).
     let profile = mf_profile m
     in fail_if (mf_schemaVersion m \<noteq> 1) (Err ''manifest %q schemaVersion must be 1'' [profile])
        (fail_if (profile = [] \<or> mf_displayName m = [] \<or> mf_language m = [] \<or> mf_framework m = []
            \<or> mf_instrumentationVersion m = [])
          (Err ''manifest is missing required implementation metadata'' [])
        (fail_if (profile \<notin> stringSet profiles)
          (Err ''manifest profile %q is absent from REALWORLD_PROFILES'' [profile])
        (fail_if (profile \<in> seenProfiles) (Err ''duplicate manifest profile %q'' [profile])
        (fail_if (mf_language m \<notin> {''go'', ''python'', ''ruby''})
          (Err ''manifest %q has unsupported language %q'' [profile, mf_language m])
        (fail_if (mf_defaultVerification m \<notin> verificationStates)
          (Err ''manifest %q has invalid default verification %q'' [profile, mf_defaultVerification m])
        (fail_if (mf_defaultVerification m = ''verified'')
          (Err ''manifest %q cannot declare verified as its default; use executable normalized proof plan'' [profile])
        (fail_if (mf_baseCoverage m \<notin> coverageStates)
          (Err ''manifest %q has invalid base coverage %q'' [profile, mf_baseCoverage m])
        (res_bind (res_wrap ''manifest %q profile evidence: %w'' [profile]
             (validateEvidence (mf_profileEvidence m) evidencePaths))
        (\<lambda>_. res_bind (res_fold (checkVerification featureIDs evidencePaths index profile)
             (mf_verifications m) {})
        (\<lambda>_. Inr (insert profile seenProfiles, filled @ [fillManifest m]))))))))))))"

definition checkProfiles :: "string list \<Rightarrow> string set \<Rightarrow> claim_index \<Rightarrow> unit result" where
  "checkProfiles profiles seenProfiles index =
     res_each (\<lambda>profile.
       fail_if (profile \<notin> seenProfiles) (Err ''REALWORLD_PROFILES entry %q has no manifest'' [profile])
       (fail_if (go_get index profile = None)
         (Err ''REALWORLD_PROFILES entry %q has no executable normalized proof plan'' [profile]) (Inr ())))
     profiles"

definition shape_key :: "ScenarioShape \<Rightarrow> string" where
  "shape_key shape = pair_key (ss_profile shape) (ss_scenario shape)"

definition indexShape :: "string list \<Rightarrow> string list \<Rightarrow> (string, string list) gomap \<Rightarrow> ScenarioShape
    \<Rightarrow> (string, ScenarioShape) gomap \<Rightarrow> (string, ScenarioShape) gomap result" where
  "indexShape profiles scenarios profileScenarios shape index =
     fail_if (ss_profile shape \<notin> stringSet profiles)
       (Err ''shape has unknown profile %q'' [ss_profile shape])
     (fail_if (ss_scenario shape \<notin> stringSet scenarios)
       (Err ''shape has unknown scenario %q'' [ss_scenario shape])
     (fail_if (\<not> declared_in profileScenarios (ss_profile shape) (ss_scenario shape))
       (Err ''shape has undeclared scenario %q for profile %q'' [ss_scenario shape, ss_profile shape])
     (fail_if (go_get index (shape_key shape) \<noteq> None)
       (Err ''duplicate shape for %s/%s'' [ss_profile shape, ss_scenario shape])
       (Inr (go_put (shape_key shape) shape index)))))"

section \<open>The cells of the report\<close>

definition verificationFor :: "(string, string list) gomap \<Rightarrow> claim_index \<Rightarrow> Manifest \<Rightarrow> Feature \<Rightarrow> Verification" where
  "verificationFor profileScenarios index manifest feature =
     (case go_get (go_get0 [] index (mf_profile manifest)) (ft_id feature) of
        Some claim \<Rightarrow>
          \<lparr>vf_featureID = ft_id feature, vf_state = ''verified'', vf_basis = fc_basis claim,
           vf_assertion = fc_assertion claim,
           vf_scenarios = (if fc_allScenarios claim then go_get0 [] profileScenarios (mf_profile manifest)
             else fc_scenarios claim),
           vf_evidence = fc_evidence claim\<rparr>
      | None \<Rightarrow>
          (case List.find (\<lambda>candidate. vf_featureID candidate = ft_id feature) (mf_verifications manifest) of
             Some candidate \<Rightarrow> candidate
           | None \<Rightarrow>
               \<lparr>vf_featureID = ft_id feature, vf_state = mf_defaultVerification manifest, vf_basis = [],
                vf_assertion = [], vf_scenarios = [], vf_evidence = mf_profileEvidence manifest\<rparr>))"

definition verificationTable :: "(string, string list) gomap \<Rightarrow> claim_index \<Rightarrow> Manifest list \<Rightarrow> Feature list
    \<Rightarrow> (string, (string, Verification) gomap) gomap" where
  "verificationTable profileScenarios index manifests features =
     fold (\<lambda>feature table. go_put (ft_id feature)
         (fold (\<lambda>manifest row. go_put (mf_profile manifest)
             (verificationFor profileScenarios index manifest feature) row) manifests []) table)
       features []"

definition coverageCell :: "(string, string list) gomap \<Rightarrow> (string, ScenarioShape) gomap \<Rightarrow> string \<Rightarrow> Manifest
    \<Rightarrow> CoverageCell" where
  "coverageCell profileScenarios shapes scenario manifest =
     (let declared = declared_in profileScenarios (mf_profile manifest) scenario
      in \<lparr>cc_profile = mf_profile manifest, cc_scenario = scenario,
          cc_state =
            (if declared \<and> go_get shapes (pair_key (mf_profile manifest) scenario) \<noteq> None then ''exact_shape''
             else if declared then mf_baseCoverage manifest else ''unavailable''),
          cc_declared = declared\<rparr>)"

definition coverageCells :: "(string, string list) gomap \<Rightarrow> (string, ScenarioShape) gomap \<Rightarrow> string list
    \<Rightarrow> Manifest list \<Rightarrow> CoverageCell list" where
  "coverageCells profileScenarios shapes scenarios manifests =
     concat (map (\<lambda>scenario. map (coverageCell profileScenarios shapes scenario) manifests) scenarios)"

section \<open>Comparisons\<close>

text \<open>One entry of \<open>mergeDelta\<close>: add, and delete the key when the sum is zero.\<close>

definition mergeEntry :: "int \<Rightarrow> string \<times> int \<Rightarrow> (string, int) gomap \<Rightarrow> (string, int) gomap" where
  "mergeEntry sign = (\<lambda>(key, v) destination.
     let total = add64 (go_get0 0 destination key) (mul64 sign v)
     in if total = 0 then go_delete key destination else go_put key total destination)"

definition mergeDelta :: "(string, int) gomap \<Rightarrow> (string, int) gomap \<Rightarrow> int \<Rightarrow> (string, int) gomap" where
  "mergeDelta destination vals sign = fold (mergeEntry sign) vals destination"

text \<open>\<open>d -= left; d += right\<close> from zero.\<close>

definition delta64 :: "int \<Rightarrow> int \<Rightarrow> int" where
  "delta64 left right = add64 (add64 0 (- left)) right"

definition compareShapes :: "unicode_tables \<Rightarrow> string \<Rightarrow> string \<Rightarrow> string \<Rightarrow> ScenarioShape option
    \<Rightarrow> ScenarioShape option \<Rightarrow> Comparison" where
  "compareShapes U leftProfile rightProfile scenario left right =
     (let empty = \<lparr>cp_leftProfile = leftProfile, cp_rightProfile = rightProfile, cp_scenario = scenario,
            cp_available = False, cp_traceDelta = 0, cp_spanDelta = 0, cp_scopeDelta = [],
            cp_statusDelta = [], cp_countDelta = 0, cp_alignment = AlignShapes U left right\<rparr>
      in case (left, right) of
           (Some l, Some r) \<Rightarrow>
             if ss_exact l \<and> ss_exact r then
               empty\<lparr>cp_available := True,
                 cp_traceDelta := delta64 (ss_traceCount l) (ss_traceCount r),
                 cp_spanDelta := delta64 (ss_spanCount l) (ss_spanCount r),
                 cp_countDelta := delta64 (int (length (ss_traces l))) (int (length (ss_traces r))),
                 cp_scopeDelta := mergeDelta (mergeDelta [] (ss_scopes l) (-1)) (ss_scopes r) 1,
                 cp_statusDelta := mergeDelta (mergeDelta [] (ss_statuses l) (-1)) (ss_statuses r) 1\<rparr>
             else empty
         | _ \<Rightarrow> empty)"

text \<open>The pairs of the loops over \<open>left < right\<close>.\<close>

fun later_pairs :: "'a list \<Rightarrow> ('a \<times> 'a) list" where
  "later_pairs [] = []"
| "later_pairs (x # xs) = map (Pair x) xs @ later_pairs xs"

definition comparisons :: "unicode_tables \<Rightarrow> (string, ScenarioShape) gomap \<Rightarrow> string list \<Rightarrow> string list
    \<Rightarrow> Comparison list" where
  "comparisons U shapes profiles scenarios =
     concat (map (\<lambda>(left, right). map (\<lambda>scenario. compareShapes U left right scenario
         (go_get shapes (pair_key left scenario)) (go_get shapes (pair_key right scenario))) scenarios)
       (later_pairs profiles))"

section \<open>The model\<close>

definition BuildModelForProfiles :: "unicode_tables \<Rightarrow> CatalogMetadata \<Rightarrow> Feature list \<Rightarrow> Manifest list
    \<Rightarrow> ScenarioShape list \<Rightarrow> string list \<Rightarrow> string list \<Rightarrow> (string, string list) gomap \<Rightarrow> string set
    \<Rightarrow> ProfileProofCoverage list \<Rightarrow> ReportModel result" where
  "BuildModelForProfiles U metadata features manifests shapes profiles scenarios profileScenarios
      evidencePaths proofCoverages =
     res_bind (checkMembership profiles scenarios profileScenarios) (\<lambda>_.
     res_bind (featureSet features) (\<lambda>featureIDs.
     res_bind (res_fold (checkCoverage profiles scenarios profileScenarios featureIDs evidencePaths U)
        proofCoverages []) (\<lambda>index.
     res_bind (res_fold (checkManifest profiles featureIDs evidencePaths index) manifests ({}, []))
       (\<lambda>(seenProfiles, manifests).
     res_bind (checkProfiles profiles seenProfiles index) (\<lambda>_.
     res_bind (res_fold (indexShape profiles scenarios profileScenarios) shapes []) (\<lambda>shapeIndex.
       Inr \<lparr>rm_plannedChecks = [], rm_generatedFrom = cs_revision (cm_source metadata),
            rm_metadata = metadata, rm_features = features, rm_manifests = manifests,
            rm_verification = verificationTable profileScenarios index manifests features,
            rm_scenarios = scenarios,
            rm_coverage = coverageCells profileScenarios shapeIndex scenarios manifests,
            rm_shapes = shapes, rm_receipts = [],
            rm_comparisons = comparisons U shapeIndex profiles scenarios\<rparr>))))))"

definition BuildModel :: "unicode_tables \<Rightarrow> CatalogMetadata \<Rightarrow> Feature list \<Rightarrow> Manifest list
    \<Rightarrow> ScenarioShape list \<Rightarrow> string list \<Rightarrow> string list \<Rightarrow> string set
    \<Rightarrow> ProfileProofCoverage list \<Rightarrow> ReportModel result" where
  "BuildModel U metadata features manifests shapes profiles scenarios evidencePaths proofCoverages =
     BuildModelForProfiles U metadata features manifests shapes profiles scenarios
       (fold (\<lambda>profile m. go_put profile scenarios m) profiles []) evidencePaths proofCoverages"

text \<open>
  \<open>SortInputs\<close>: \<open>sort.Slice\<close> with an order that is total on distinct ids, profiles and pairs;
  entries it does not separate keep their order here.
\<close>

definition SortInputs :: "Feature list \<times> Manifest list \<times> ScenarioShape list
    \<Rightarrow> Feature list \<times> Manifest list \<times> ScenarioShape list" where
  "SortInputs = (\<lambda>(features, manifests, shapes).
     (sort_key ft_category (sort_key ft_id features), sort_key mf_profile manifests,
      sort_key ss_scenario (sort_key ss_profile shapes)))"

section \<open>Projections\<close>

definition empty_receipt :: ValidationReceipt where
  "empty_receipt = \<lparr>vr_schemaVersion = 0, vr_revision = [], vr_profile = [], vr_scenario = [],
     vr_proofPlanSHA256 = [], vr_captureSHA256 = [], vr_validationMode = [], vr_outcome = [],
     vr_xfailReason = [], vr_scenarioShapeSHA256 = [], vr_proofs = []\<rparr>"

definition receiptIndex :: "ValidationReceipt list \<Rightarrow> (string, ValidationReceipt) gomap" where
  "receiptIndex receipts = fold (\<lambda>r m. go_put (receipt_key r) r m) receipts []"

definition proof_passed :: "ProofPlanProof \<Rightarrow> ValidationReceipt \<Rightarrow> bool" where
  "proof_passed p r \<longleftrightarrow> list_ex (\<lambda>q. rp_featureID q = pp_featureID p \<and> rp_assertion q = pp_assertion p
     \<and> rp_basis q = pp_basis p \<and> rp_result q = ''pass'' \<and> vr_outcome r = ''verified'') (vr_proofs r)"

text \<open>One coverage cell of a planned check.\<close>

definition executeCell :: "(string, ValidationReceipt) gomap \<Rightarrow> string \<Rightarrow> ProofPlanProof \<Rightarrow> CoverageCell
    \<Rightarrow> PlannedCheck \<Rightarrow> PlannedCheck" where
  "executeCell receipts profile p cell check =
     (if cc_profile cell \<noteq> profile \<or> \<not> cc_declared cell
         \<or> pp_scenarios p \<noteq> [] \<and> \<not> stringSliceContains (pp_scenarios p) (cc_scenario cell)
      then check
      else
        let r = go_get0 empty_receipt receipts (pair_key profile (cc_scenario cell))
        in if vr_outcome r = ''xfail'' then
             check\<lparr>pk_executions := pk_executions check @
                 [\<lparr>ce_scenario = cc_scenario cell, ce_outcome = ''xfail'', ce_reason = vr_xfailReason r\<rparr>],
               pk_expectedFailure := Suc (pk_expectedFailure check)\<rparr>
           else if proof_passed p r then
             check\<lparr>pk_executions := pk_executions check @
                 [\<lparr>ce_scenario = cc_scenario cell, ce_outcome = ''verified'', ce_reason = []\<rparr>],
               pk_passed := Suc (pk_passed check)\<rparr>
           else
             check\<lparr>pk_executions := pk_executions check @
                 [\<lparr>ce_scenario = cc_scenario cell, ce_outcome = ''missing'', ce_reason = []\<rparr>],
               pk_noResult := Suc (pk_noResult check)\<rparr>)"

definition plannedCheck :: "(string, ValidationReceipt) gomap \<Rightarrow> CoverageCell list \<Rightarrow> string \<Rightarrow> PlanArtifact
    \<Rightarrow> ProofPlanProof \<Rightarrow> PlannedCheck" where
  "plannedCheck receipts coverage profile artifact p =
     fold (executeCell receipts profile p) coverage
       \<lparr>pk_profile = profile, pk_featureID = pp_featureID p, pk_assertion = pp_assertion p,
        pk_basis = pp_basis p,
        pk_evidence = pa_source artifact # map (\<lambda>source. \<lparr>ev_label = source,
            ev_href = go_get0 [] (np_sources (pa_plan artifact)) source, ev_path = []\<rparr>) (pp_sources p),
        pk_executions = [], pk_passed = 0, pk_expectedFailure = 0, pk_noResult = 0\<rparr>"

text \<open>The first loop of \<open>AddReportProjections\<close>; a profile without a plan has the zero artifact, with no proofs.\<close>

definition addPlannedChecks :: "(string, PlanArtifact) gomap \<Rightarrow> ReportModel \<Rightarrow> ReportModel" where
  "addPlannedChecks plans model =
     model\<lparr>rm_plannedChecks := rm_plannedChecks model @
       concat (map (\<lambda>m. case go_get plans (mf_profile m) of None \<Rightarrow> []
           | Some artifact \<Rightarrow> map (plannedCheck (receiptIndex (rm_receipts model)) (rm_coverage model)
               (mf_profile m) artifact) (np_proofs (pa_plan artifact)))
         (rm_manifests model))\<rparr>"

end
