(* ===== verification/ReportSpec.thy ===== *)
theory ReportSpec
  imports ReportModel
begin

text \<open>
  What the report model promises: each verified cell rests on one claim of a proof plan with
  declared scenarios, the manifests are exactly those of the profiles, each scenario and manifest
  has one coverage cell, a comparison holds the differences and no zeroes, and the counts of a
  planned check add up to its executions.
\<close>

section \<open>Loops that fill an index\<close>

text \<open>
  The loops over claims, coverages and shapes reject a key they have seen and otherwise write it:
  in the end the index has one entry for each element, and the keys are distinct.
\<close>

lemma indexed_fold:
  assumes run: "res_fold f xs [] = Inr m"
    and step: "\<And>x u v. f x u = Inr v \<Longrightarrow> go_get u (key x) = None \<and> (\<exists>w. R x w \<and> v = go_put (key x) w u)"
  shows "distinct (map key xs)" "x \<in> set xs \<Longrightarrow> \<exists>w. go_get m (key x) = Some w \<and> R x w"
    and "go_get m k \<noteq> None \<longleftrightarrow> k \<in> key ` set xs"
proof -
  have "distinct (map key xs) \<and> (\<forall>x \<in> set xs. \<exists>w. go_get m (key x) = Some w \<and> R x w)
    \<and> dom (go_get m) = key ` set xs"
  proof (rule res_fold_invariant [OF run, where I = "\<lambda>done u. distinct (map key done)
      \<and> (\<forall>x \<in> set done. \<exists>w. go_get u (key x) = Some w \<and> R x w) \<and> dom (go_get u) = key ` set done"])
    fix "done" x todo u v
    assume inv: "distinct (map key done) \<and> (\<forall>x \<in> set done. \<exists>w. go_get u (key x) = Some w \<and> R x w)
        \<and> dom (go_get u) = key ` set done" and v: "f x u = Inr v"
    from step [OF v] obtain w where w: "go_get u (key x) = None" "R x w" "v = go_put (key x) w u" by blast
    then have "key x \<notin> key ` set done" using inv by (metis domIff)
    then show "distinct (map key (done @ [x])) \<and> (\<forall>y \<in> set (done @ [x]). \<exists>w. go_get v (key y) = Some w \<and> R y w)
        \<and> dom (go_get v) = key ` set (done @ [x])"
      using inv w by (auto simp: go_get_put)
  qed simp
  then show "distinct (map key xs)" "x \<in> set xs \<Longrightarrow> \<exists>w. go_get m (key x) = Some w \<and> R x w"
    "go_get m k \<noteq> None \<longleftrightarrow> k \<in> key ` set xs"
    by (auto simp: domIff [symmetric])
qed

section \<open>Claims\<close>

definition good_claim :: "(string, string list) gomap \<Rightarrow> string set \<Rightarrow> string set \<Rightarrow> string \<Rightarrow> FeatureClaim \<Rightarrow> bool" where
  "good_claim profileScenarios featureIDs evidencePaths profile claim \<longleftrightarrow>
     fc_featureID claim \<in> featureIDs \<and> fc_basis claim \<in> {''observed'', ''corroborated''}
     \<and> fc_assertion claim \<noteq> [] \<and> (fc_allScenarios claim \<longleftrightarrow> fc_scenarios claim = [])
     \<and> list_all (declared_in profileScenarios profile) (fc_scenarios claim)
     \<and> validateEvidence (fc_evidence claim) evidencePaths = Inr ()"

lemma checkClaim_step:
  assumes "checkClaim scenarios profileScenarios featureIDs evidencePaths U profile claim u = Inr v"
  shows "go_get u (fc_featureID claim) = None
    \<and> (\<exists>w. (good_claim profileScenarios featureIDs evidencePaths profile claim \<and> w = claim)
        \<and> v = go_put (fc_featureID claim) w u)"
  using assms
  by (auto simp: checkClaim_def Let_def fail_if_Inr_iff res_bind_Inr_iff res_each_Inr_iff good_claim_def
      list_all_iff)

text \<open>The claims of one coverage, as its entry of the index.\<close>

definition indexed_claims :: "(string, string list) gomap \<Rightarrow> string set \<Rightarrow> string set
    \<Rightarrow> ProfileProofCoverage \<Rightarrow> (string, FeatureClaim) gomap \<Rightarrow> bool" where
  "indexed_claims profileScenarios featureIDs evidencePaths coverage claims \<longleftrightarrow>
     distinct (map fc_featureID (pc_claims coverage))
     \<and> (\<forall>f. go_get claims f \<noteq> None \<longleftrightarrow> f \<in> fc_featureID ` set (pc_claims coverage))
     \<and> (\<forall>c \<in> set (pc_claims coverage). go_get claims (fc_featureID c) = Some c
          \<and> good_claim profileScenarios featureIDs evidencePaths (pc_profile coverage) c)"

lemma checkCoverage_step:
  assumes "checkCoverage profiles scenarios profileScenarios featureIDs evidencePaths U coverage u = Inr v"
  shows "go_get u (pc_profile coverage) = None
    \<and> (\<exists>w. indexed_claims profileScenarios featureIDs evidencePaths coverage w
        \<and> v = go_put (pc_profile coverage) w u)"
proof -
  from assms obtain claims where c: "res_fold (checkClaim scenarios profileScenarios featureIDs evidencePaths U
      (pc_profile coverage)) (pc_claims coverage) [] = Inr claims"
    and u: "go_get u (pc_profile coverage) = None" "v = go_put (pc_profile coverage) claims u"
    by (auto simp: checkCoverage_def Let_def fail_if_Inr_iff res_bind_Inr_iff)
  have "indexed_claims profileScenarios featureIDs evidencePaths coverage claims"
    unfolding indexed_claims_def
    using indexed_fold [OF c, where key = fc_featureID,
        OF checkClaim_step [of scenarios profileScenarios featureIDs evidencePaths U "pc_profile coverage"]]
    by blast
  with u show ?thesis by blast
qed

text \<open>A claim is in the index of its profile exactly when a coverage of that profile makes it.\<close>

lemma indexed_claim:
  assumes "res_fold (checkCoverage profiles scenarios profileScenarios featureIDs evidencePaths U)
      proofCoverages [] = Inr index"
  shows "go_get (go_get0 [] index profile) f = Some c \<longleftrightarrow>
      (\<exists>coverage \<in> set proofCoverages. pc_profile coverage = profile \<and> c \<in> set (pc_claims coverage)
        \<and> fc_featureID c = f)"
    and "go_get (go_get0 [] index profile) f = Some c
      \<Longrightarrow> good_claim profileScenarios featureIDs evidencePaths profile c"
proof -
  note index = indexed_fold [where key = pc_profile
      and R = "indexed_claims profileScenarios featureIDs evidencePaths", OF assms]
  have covered: "\<exists>w. go_get index (pc_profile coverage) = Some w
      \<and> indexed_claims profileScenarios featureIDs evidencePaths coverage w"
    if "coverage \<in> set proofCoverages" for coverage
    using index(2) checkCoverage_step that by blast
  have keys: "go_get index profile \<noteq> None \<longleftrightarrow> profile \<in> pc_profile ` set proofCoverages"
    using index(3) checkCoverage_step by blast
  have entry: "\<exists>coverage \<in> set proofCoverages. pc_profile coverage = profile \<and> c \<in> set (pc_claims coverage)
      \<and> fc_featureID c = f \<and> good_claim profileScenarios featureIDs evidencePaths profile c"
    if get: "go_get (go_get0 [] index profile) f = Some c"
  proof -
    have "go_get index profile \<noteq> None" using get by (auto simp: go_get0_def split: option.splits)
    then obtain coverage where cov: "coverage \<in> set proofCoverages" "pc_profile coverage = profile"
      using keys by blast
    obtain claims where claims: "go_get index profile = Some claims"
      "indexed_claims profileScenarios featureIDs evidencePaths coverage claims"
      using covered [OF cov(1)] cov(2) by blast
    from get claims(1) have f: "go_get claims f = Some c" by (simp add: go_get0_def)
    then have "go_get claims f \<noteq> None" by simp
    then have "f \<in> fc_featureID ` set (pc_claims coverage)"
      using claims(2) unfolding indexed_claims_def by blast
    then obtain c' where "c' \<in> set (pc_claims coverage)" "fc_featureID c' = f" by blast
    with claims(2) f cov show ?thesis unfolding indexed_claims_def by auto
  qed
  show "go_get (go_get0 [] index profile) f = Some c
      \<Longrightarrow> good_claim profileScenarios featureIDs evidencePaths profile c"
    using entry by blast
  have "go_get (go_get0 [] index profile) f = Some c"
    if cov: "coverage \<in> set proofCoverages" "pc_profile coverage = profile"
      and c: "c \<in> set (pc_claims coverage)" "fc_featureID c = f" for coverage
  proof -
    obtain claims where "go_get index profile = Some claims"
      "indexed_claims profileScenarios featureIDs evidencePaths coverage claims"
      using covered [OF cov(1)] cov(2) by blast
    with c show ?thesis by (auto simp: go_get0_def indexed_claims_def)
  qed
  with entry show "go_get (go_get0 [] index profile) f = Some c \<longleftrightarrow>
      (\<exists>coverage \<in> set proofCoverages. pc_profile coverage = profile \<and> c \<in> set (pc_claims coverage)
        \<and> fc_featureID c = f)" by blast
qed

section \<open>Manifests\<close>

lemma checkManifest_step:
  assumes "checkManifest profiles featureIDs evidencePaths index m st = Inr st'"
  shows "mf_profile m \<notin> fst st \<and> mf_profile m \<in> set profiles \<and> st' = (insert (mf_profile m) (fst st), snd st @ [fillManifest m])
    \<and> mf_defaultVerification m \<noteq> ''verified'' \<and> mf_baseCoverage m \<in> coverageStates
    \<and> (\<forall>v \<in> set (mf_verifications m). vf_state v \<noteq> ''verified'')"
proof -
  obtain seen filled where st: "st = (seen, filled)" by (cases st)
  from assms obtain s where s: "res_fold (checkVerification featureIDs evidencePaths index (mf_profile m))
      (mf_verifications m) {} = Inr s"
    by (auto simp: checkManifest_def st Let_def fail_if_Inr_iff res_bind_Inr_iff)
  have "\<forall>v \<in> set (mf_verifications m). vf_state v \<noteq> ''verified''"
    by (rule res_fold_invariant [OF s, where I = "\<lambda>done _. \<forall>v \<in> set done. vf_state v \<noteq> ''verified''"])
      (auto simp: checkVerification_def Let_def fail_if_Inr_iff res_bind_Inr_iff)
  then show ?thesis using assms
    by (auto simp: checkManifest_def st Let_def fail_if_Inr_iff res_bind_Inr_iff stringSet_def)
qed

text \<open>What holds of a manifest of the model.\<close>

definition good_manifest :: "string list \<Rightarrow> Manifest \<Rightarrow> bool" where
  "good_manifest profiles m \<longleftrightarrow> mf_profile m \<in> set profiles \<and> mf_defaultVerification m \<noteq> ''verified''
     \<and> mf_baseCoverage m \<in> coverageStates
     \<and> (\<forall>v \<in> set (mf_verifications m). vf_state v \<noteq> ''verified'')"

lemma fill_manifest [simp]:
  "mf_profile (fillManifest m) = mf_profile m" "good_manifest profiles (fillManifest m) = good_manifest profiles m"
  "mf_baseCoverage (fillManifest m) = mf_baseCoverage m"
  by (simp_all add: fillManifest_def good_manifest_def)

lemma manifests_checked:
  assumes "res_fold (checkManifest profiles featureIDs evidencePaths index) manifests ({}, []) = Inr (seen, filled)"
  shows "filled = map fillManifest manifests" "seen = mf_profile ` set manifests"
    and "distinct (map mf_profile manifests)" "m \<in> set filled \<Longrightarrow> good_manifest profiles m"
proof -
  have "snd (seen, filled) = map fillManifest manifests \<and> fst (seen, filled) = mf_profile ` set manifests
    \<and> distinct (map mf_profile manifests) \<and> (\<forall>m \<in> set manifests. good_manifest profiles m)"
  proof (rule res_fold_invariant [OF assms, where I = "\<lambda>done st. snd st = map fillManifest done
      \<and> fst st = mf_profile ` set done \<and> distinct (map mf_profile done) \<and> (\<forall>m \<in> set done. good_manifest profiles m)"])
    fix "done" m todo st st'
    assume inv: "snd st = map fillManifest done \<and> fst st = mf_profile ` set done
        \<and> distinct (map mf_profile done) \<and> (\<forall>m \<in> set done. good_manifest profiles m)"
      and run: "checkManifest profiles featureIDs evidencePaths index m st = Inr st'"
    from inv checkManifest_step [OF run]
    show "snd st' = map fillManifest (done @ [m]) \<and> fst st' = mf_profile ` set (done @ [m])
        \<and> distinct (map mf_profile (done @ [m])) \<and> (\<forall>m \<in> set (done @ [m]). good_manifest profiles m)"
      by (simp add: good_manifest_def)
  qed simp
  then show "filled = map fillManifest manifests" "seen = mf_profile ` set manifests"
    "distinct (map mf_profile manifests)" "m \<in> set filled \<Longrightarrow> good_manifest profiles m"
    by auto
qed

section \<open>The parts of a built model\<close>

lemma built_model:
  assumes "BuildModelForProfiles U metadata features manifests shapes profiles scenarios profileScenarios
      evidencePaths proofCoverages = Inr model"
  obtains index shapeIndex where
    "res_fold (checkCoverage profiles scenarios profileScenarios (ft_id ` set features) evidencePaths U)
      proofCoverages [] = Inr index"
    "res_fold (indexShape profiles scenarios profileScenarios) shapes [] = Inr shapeIndex"
    "\<And>p. p \<in> set profiles \<Longrightarrow> go_get0 [] profileScenarios p \<noteq> [] \<and> p \<in> mf_profile ` set manifests
      \<and> go_get index p \<noteq> None"
    "distinct (map ft_id features)" "distinct (map mf_profile manifests)"
    "\<And>m. m \<in> set (rm_manifests model) \<Longrightarrow> good_manifest profiles m"
    "rm_features model = features" "rm_manifests model = map fillManifest manifests"
    "rm_verification model = verificationTable profileScenarios index (rm_manifests model) features"
    "rm_coverage model = coverageCells profileScenarios shapeIndex scenarios (rm_manifests model)"
    "rm_comparisons model = comparisons U shapeIndex profiles scenarios"
proof -
  from assms obtain featureIDs index seen filled shapeIndex
    where m: "checkMembership profiles scenarios profileScenarios = Inr ()" "featureSet features = Inr featureIDs"
      "res_fold (checkCoverage profiles scenarios profileScenarios featureIDs evidencePaths U) proofCoverages [] = Inr index"
      "res_fold (checkManifest profiles featureIDs evidencePaths index) manifests ({}, []) = Inr (seen, filled)"
      "checkProfiles profiles seen index = Inr ()"
      "res_fold (indexShape profiles scenarios profileScenarios) shapes [] = Inr shapeIndex"
    and model: "rm_features model = features" "rm_manifests model = filled"
      "rm_verification model = verificationTable profileScenarios index filled features"
      "rm_coverage model = coverageCells profileScenarios shapeIndex scenarios filled"
      "rm_comparisons model = comparisons U shapeIndex profiles scenarios"
    by (auto simp: BuildModelForProfiles_def res_bind_Inr_iff)
  have ids: "featureIDs = ft_id ` set features \<and> distinct (map ft_id features)"
  proof (rule res_fold_invariant [OF m(2) [unfolded featureSet_def],
      where I = "\<lambda>(done :: Feature list) ids. ids = ft_id ` set done \<and> distinct (map ft_id done)"])
    fix "done" todo :: "Feature list" and x :: Feature and u v assume "u = ft_id ` set done \<and> distinct (map ft_id done)"
      and "fail_if (ft_id x \<in> u) (Err ''duplicate feature id %q'' [ft_id x]) (Inr (insert (ft_id x) u)) = Inr v"
    then show "v = ft_id ` set (done @ [x]) \<and> distinct (map ft_id (done @ [x]))"
      by (auto simp: fail_if_Inr_iff)
  qed simp
  have prof: "go_get0 [] profileScenarios p \<noteq> [] \<and> p \<in> mf_profile ` set manifests \<and> go_get index p \<noteq> None"
    if "p \<in> set profiles" for p
    using m(1,5) that manifests_checked(2) [OF m(4)]
    by (auto simp: checkMembership_def checkProfiles_def res_bind_Inr_iff res_each_Inr_iff fail_if_Inr_iff)
  show thesis
    using that [OF _ m(6) prof _ manifests_checked(3) [OF m(4)], simplified model manifests_checked(1) [OF m(4)]]
      m(3) ids manifests_checked(4) [OF m(4)] manifests_checked(1) [OF m(4)] by simp
qed

section \<open>Cells\<close>

lemma fold_put_get:
  assumes "distinct (map key xs)" "x \<in> set xs"
  shows "go_get (fold (\<lambda>x. go_put (key x) (val x)) xs m) (key x) = Some (val x)"
  using assms
proof (induction xs rule: rev_induct)
  case (snoc y xs)
  show ?case
  proof (cases "x = y")
    case False
    with snoc.prems have "x \<in> set xs" "key x \<noteq> key y" by (auto simp: rev_image_eqI)
    with snoc show ?thesis by (simp add: go_get_put)
  qed (simp add: go_get_put)
qed simp

lemma table_entry:
  assumes "distinct (map ft_id features)" "distinct (map mf_profile manifests)"
    and "feature \<in> set features" "m \<in> set manifests"
  shows "\<exists>row. go_get (verificationTable profileScenarios index manifests features) (ft_id feature) = Some row
    \<and> go_get row (mf_profile m) = Some (verificationFor profileScenarios index m feature)"
  unfolding verificationTable_def
  by (intro exI conjI) (rule fold_put_get [OF assms(1,3)], rule fold_put_get [OF assms(2,4)])

lemma find_none_or_in: "List.find P xs = Some x \<Longrightarrow> x \<in> set xs \<and> P x"
  by (metis find_Some_iff nth_mem)

text \<open>What a cell of the model says, given the claims.\<close>

definition cell_spec :: "(string, string list) gomap \<Rightarrow> ProfileProofCoverage list \<Rightarrow> string \<Rightarrow> string
    \<Rightarrow> Verification \<Rightarrow> bool" where
  "cell_spec profileScenarios proofCoverages profile featureID v \<longleftrightarrow>
     vf_featureID v = featureID
     \<and> (if vf_state v = ''verified''
        then \<exists>coverage \<in> set proofCoverages. \<exists>c \<in> set (pc_claims coverage).
          pc_profile coverage = profile \<and> fc_featureID c = featureID
          \<and> vf_basis v = fc_basis c \<and> vf_assertion v = fc_assertion c \<and> vf_evidence v = fc_evidence c
          \<and> vf_scenarios v = claimScopeOf (go_get0 [] profileScenarios profile) c \<and> vf_scenarios v \<noteq> []
          \<and> set (vf_scenarios v) \<subseteq> set (go_get0 [] profileScenarios profile)
        else \<forall>coverage \<in> set proofCoverages. \<forall>c \<in> set (pc_claims coverage).
          \<not> (pc_profile coverage = profile \<and> fc_featureID c = featureID))"

lemma verification_cell:
  assumes index: "res_fold (checkCoverage profiles scenarios profileScenarios featureIDs evidencePaths U)
      proofCoverages [] = Inr index"
    and m: "good_manifest profiles m" and declared: "go_get0 [] profileScenarios (mf_profile m) \<noteq> []"
  shows "cell_spec profileScenarios proofCoverages (mf_profile m) (ft_id feature)
    (verificationFor profileScenarios index m feature)"
proof (cases "go_get (go_get0 [] index (mf_profile m)) (ft_id feature)")
  case (Some c)
  from indexed_claim(1) [OF index, of "mf_profile m" "ft_id feature" c] Some
  obtain coverage where cov: "coverage \<in> set proofCoverages" "pc_profile coverage = mf_profile m"
    "c \<in> set (pc_claims coverage)" "fc_featureID c = ft_id feature" by blast
  have good: "good_claim profileScenarios featureIDs evidencePaths (mf_profile m) c"
    by (rule indexed_claim(2) [OF index Some])
  let ?v = "verificationFor profileScenarios index m feature"
  have v: "vf_featureID ?v = ft_id feature" "vf_state ?v = ''verified''" "vf_basis ?v = fc_basis c"
    "vf_assertion ?v = fc_assertion c" "vf_evidence ?v = fc_evidence c"
    "vf_scenarios ?v = claimScopeOf (go_get0 [] profileScenarios (mf_profile m)) c"
    using Some by (simp_all add: verificationFor_def claimScopeOf_def)
  have "vf_scenarios ?v \<noteq> []" "set (vf_scenarios ?v) \<subseteq> set (go_get0 [] profileScenarios (mf_profile m))"
    using good declared v(6) by (auto simp: claimScopeOf_def good_claim_def list_all_iff declared_in_def split: if_splits)
  with v cov show ?thesis unfolding cell_spec_def by auto
next
  case None
  let ?v = "verificationFor profileScenarios index m feature"
  have none: "\<not> (pc_profile coverage = mf_profile m \<and> fc_featureID c = ft_id feature)"
    if "coverage \<in> set proofCoverages" "c \<in> set (pc_claims coverage)" for coverage c
    using indexed_claim(1) [OF index, of "mf_profile m" "ft_id feature" c] None that by auto
  have "vf_featureID ?v = ft_id feature \<and> vf_state ?v \<noteq> ''verified''"
    using None m find_none_or_in
    by (fastforce simp: verificationFor_def good_manifest_def split: option.splits)
  with none show ?thesis unfolding cell_spec_def by auto
qed

section \<open>Shapes and coverage\<close>

definition good_shape :: "string list \<Rightarrow> (string, string list) gomap \<Rightarrow> ScenarioShape \<Rightarrow> bool" where
  "good_shape profiles profileScenarios shape \<longleftrightarrow> ss_profile shape \<in> set profiles
     \<and> declared_in profileScenarios (ss_profile shape) (ss_scenario shape)"

lemma indexShape_step:
  assumes "indexShape profiles scenarios profileScenarios shape u = Inr v"
  shows "go_get u (shape_key shape) = None
    \<and> (\<exists>w. (good_shape profiles profileScenarios shape \<and> w = shape) \<and> v = go_put (shape_key shape) w u)"
  using assms by (auto simp: indexShape_def fail_if_Inr_iff good_shape_def stringSet_def)

text \<open>Reading the index of shapes is looking for the shape of the pair.\<close>

lemma indexed_shape:
  assumes run: "res_fold (indexShape profiles scenarios profileScenarios) shapes [] = Inr index"
    and nul: "\<forall>p \<in> set profiles. NUL \<notin> set p" and p: "profile \<in> set profiles"
  shows "go_get index (pair_key profile scenario) = Some shape
    \<longleftrightarrow> shape \<in> set shapes \<and> ss_profile shape = profile \<and> ss_scenario shape = scenario"
proof -
  note i = indexed_fold [where key = shape_key
      and R = "\<lambda>shape w. good_shape profiles profileScenarios shape \<and> w = shape", OF run]
  have entry: "go_get index (shape_key x) = Some x \<and> good_shape profiles profileScenarios x"
    if "x \<in> set shapes" for x
    using i(2) indexShape_step that by blast
  have keys: "go_get index k \<noteq> None \<longleftrightarrow> k \<in> shape_key ` set shapes" for k
    using i(3) indexShape_step by blast
  have same: "shape_key x = pair_key profile scenario \<longleftrightarrow> ss_profile x = profile \<and> ss_scenario x = scenario"
    if "x \<in> set shapes" for x
    using entry [OF that] nul p by (simp add: good_shape_def shape_key_def pair_key_inject)
  show ?thesis
  proof
    assume g: "go_get index (pair_key profile scenario) = Some shape"
    then have "go_get index (pair_key profile scenario) \<noteq> None" by simp
    then have "pair_key profile scenario \<in> shape_key ` set shapes" using keys by blast
    then obtain x where "x \<in> set shapes" "shape_key x = pair_key profile scenario" by auto
    with g entry same show "shape \<in> set shapes \<and> ss_profile shape = profile \<and> ss_scenario shape = scenario"
      by fastforce
  next
    assume "shape \<in> set shapes \<and> ss_profile shape = profile \<and> ss_scenario shape = scenario"
    with entry same show "go_get index (pair_key profile scenario) = Some shape" by fastforce
  qed
qed

lemma coverage_order:
  "map (\<lambda>c. (cc_scenario c, cc_profile c)) (coverageCells profileScenarios index scenarios manifests)
    = List.product scenarios (map mf_profile manifests)"
  by (induction scenarios) (simp_all add: coverageCells_def coverageCell_def Let_def o_def)

section \<open>Comparisons\<close>

text \<open>The entry of a map that stores no zeroes.\<close>

definition nonzero :: "int \<Rightarrow> int option" where
  "nonzero d = (if d = 0 then None else Some d)"

lemma merge_entry_get:
  "go_get (mergeEntry sign (k, v) m) k' =
     (if k' = k then nonzero (add64 (go_get0 0 m k) (mul64 sign v)) else go_get m k')"
  by (simp add: mergeEntry_def Let_def nonzero_def go_get_put go_get_delete)

lemma merge_get:
  assumes "go_map vals"
  shows "go_get (mergeDelta m vals sign) k =
    (case go_get vals k of None \<Rightarrow> go_get m k | Some v \<Rightarrow> nonzero (add64 (go_get0 0 m k) (mul64 sign v)))"
  using assms unfolding mergeDelta_def
proof (induction vals rule: rev_induct)
  case (snoc p vals)
  obtain k' v where p: "p = (k', v)" by (cases p)
  have vals: "go_map vals" "k' \<notin> fst ` set vals" using snoc.prems by (auto simp: go_map_def go_keys_def p)
  then have none: "go_get vals k' = None" by (simp add: map_of_eq_None_iff)
  have old: "go_get (fold (mergeEntry sign) vals m) k' = go_get m k'"
    using vals(2)
  proof (induction vals rule: rev_induct)
    case (snoc q vals)
    then show ?case by (cases q) (auto simp: merge_entry_get)
  qed simp
  show ?case
  proof (cases "k = k'")
    case True
    with old none show ?thesis by (simp add: p merge_entry_get go_get0_def map_add_def)
  next
    case False
    with snoc.IH [OF vals(1)] show ?thesis by (simp add: p merge_entry_get map_add_def split: option.split)
  qed
qed simp

lemma get0_nonzero: "(case nonzero d of None \<Rightarrow> 0 | Some v \<Rightarrow> v) = d"
  by (simp add: nonzero_def)

text \<open>The difference of two maps of counts, written by two calls of \<open>mergeDelta\<close>.\<close>

lemma merged_delta:
  assumes "go_map l" "go_map r"
  shows "go_get (mergeDelta (mergeDelta [] l (-1)) r 1) k = nonzero (i64 (go_get0 0 r k - go_get0 0 l k))"
proof -
  have left: "go_get0 0 (mergeDelta [] l (-1)) k = i64 (- go_get0 0 l k)"
    using merge_get [OF assms(1), of "[]" "-1" k]
    by (cases "go_get l k") (simp_all add: go_get0_def nonzero_def add64_def mul64_def i64_cong i64_def)
  have zero: "nonzero d = None \<longleftrightarrow> d = 0" for d by (simp add: nonzero_def)
  show ?thesis
  proof (cases "go_get r k")
    case None
    have "go_get (mergeDelta [] l (-1)) k = nonzero (i64 (- go_get0 0 l k))"
      using merge_get [OF assms(1), of "[]" "-1" k]
      by (cases "go_get l k") (simp_all add: go_get0_def nonzero_def add64_def mul64_def i64_cong i64_def)
    with None show ?thesis by (simp add: merge_get [OF assms(2)] go_get0_def)
  next
    case (Some v)
    have "add64 (i64 (- go_get0 0 l k)) (mul64 1 v) = i64 (v - go_get0 0 l k)"
      by (simp add: add64_def mul64_def i64_cong)
    with Some left show ?thesis by (simp add: merge_get [OF assms(2)] go_get0_def)
  qed
qed

lemma delta64_i64: "delta64 l r = i64 (r - l)"
  by (simp add: delta64_def add64_def i64_cong)

lemma later_pairs_set: "set (later_pairs xs) = {(xs ! i, xs ! j) | i j. i < j \<and> j < length xs}"
proof (induction xs)
  case (Cons x xs)
  show ?case
  proof (intro equalityI subsetI)
    fix p assume "p \<in> set (later_pairs (x # xs))"
    then consider (head) y where "p = (x, y)" "y \<in> set xs" | (tail) "p \<in> set (later_pairs xs)" by auto
    then show "p \<in> {((x # xs) ! i, (x # xs) ! j) | i j. i < j \<and> j < length (x # xs)}"
    proof cases
      case head
      then obtain j where "j < length xs" "y = xs ! j" by (auto simp: in_set_conv_nth)
      with head show ?thesis by (intro CollectI exI [of _ 0] exI [of _ "Suc j"]) simp
    next
      case tail
      with Cons.IH obtain i j where "p = (xs ! i, xs ! j)" "i < j" "j < length xs" by auto
      then show ?thesis by (intro CollectI exI [of _ "Suc i"] exI [of _ "Suc j"]) simp
    qed
  next
    fix p assume "p \<in> {((x # xs) ! i, (x # xs) ! j) | i j. i < j \<and> j < length (x # xs)}"
    then obtain i j where p: "p = ((x # xs) ! i, (x # xs) ! j)" "i < j" "j < length (x # xs)" by blast
    then obtain j' where j: "j = Suc j'" by (cases j) auto
    show "p \<in> set (later_pairs (x # xs))"
    proof (cases i)
      case 0
      with p j show ?thesis by simp
    next
      case (Suc i')
      then have "p \<in> set (later_pairs xs)" unfolding Cons.IH using p j by auto
      then show ?thesis by simp
    qed
  qed
qed simp

section \<open>Planned checks\<close>

definition check_counts :: "PlannedCheck \<Rightarrow> bool" where
  "check_counts c \<longleftrightarrow>
     pk_passed c = length (filter (\<lambda>e. ce_outcome e = ''verified'') (pk_executions c))
     \<and> pk_expectedFailure c = length (filter (\<lambda>e. ce_outcome e = ''xfail'') (pk_executions c))
     \<and> pk_noResult c = length (filter (\<lambda>e. ce_outcome e = ''missing'') (pk_executions c))
     \<and> list_all (\<lambda>e. ce_outcome e \<in> {''verified'', ''xfail'', ''missing''}) (pk_executions c)"

definition in_scope :: "string \<Rightarrow> ProofPlanProof \<Rightarrow> CoverageCell \<Rightarrow> bool" where
  "in_scope profile p cell \<longleftrightarrow> cc_profile cell = profile \<and> cc_declared cell
     \<and> (pp_scenarios p = [] \<or> cc_scenario cell \<in> set (pp_scenarios p))"

lemma execute_cell:
  "check_counts c \<Longrightarrow> check_counts (executeCell receipts profile p cell c)"
  "map ce_scenario (pk_executions (executeCell receipts profile p cell c))
    = map ce_scenario (pk_executions c) @ (if in_scope profile p cell then [cc_scenario cell] else [])"
  by (auto simp: executeCell_def check_counts_def in_scope_def Let_def)

lemma planned_check:
  "check_counts (plannedCheck receipts coverage profile artifact p)"
  "map ce_scenario (pk_executions (plannedCheck receipts coverage profile artifact p))
    = map cc_scenario (filter (in_scope profile p) coverage)"
proof -
  have "check_counts (fold (executeCell receipts profile p) coverage c)
      \<and> map ce_scenario (pk_executions (fold (executeCell receipts profile p) coverage c))
        = map ce_scenario (pk_executions c) @ map cc_scenario (filter (in_scope profile p) coverage)"
    if "check_counts c" for c
    using that by (induction coverage arbitrary: c) (simp_all add: execute_cell)
  from this [of "\<lparr>pk_profile = profile, pk_featureID = pp_featureID p, pk_assertion = pp_assertion p,
      pk_basis = pp_basis p,
      pk_evidence = pa_source artifact # map (\<lambda>source. \<lparr>ev_label = source,
          ev_href = go_get0 [] (np_sources (pa_plan artifact)) source, ev_path = []\<rparr>) (pp_sources p),
      pk_executions = [], pk_passed = 0, pk_expectedFailure = 0, pk_noResult = 0\<rparr>"]
  show "check_counts (plannedCheck receipts coverage profile artifact p)"
    "map ce_scenario (pk_executions (plannedCheck receipts coverage profile artifact p))
      = map cc_scenario (filter (in_scope profile p) coverage)"
    by (simp_all add: plannedCheck_def check_counts_def)
qed

section \<open>The cells of a built model\<close>

lemma model_cells:
  assumes "BuildModelForProfiles U metadata features manifests shapes profiles scenarios profileScenarios
      evidencePaths proofCoverages = Inr model"
    and "feature \<in> set features" "profile \<in> set profiles"
  shows "distinct (map mf_profile (rm_manifests model)) \<and> mf_profile ` set (rm_manifests model) = set profiles
    \<and> (\<exists>row v. go_get (rm_verification model) (ft_id feature) = Some row \<and> go_get row profile = Some v
        \<and> cell_spec profileScenarios proofCoverages profile (ft_id feature) v)"
proof -
  obtain index shapeIndex where index: "res_fold (checkCoverage profiles scenarios profileScenarios
      (ft_id ` set features) evidencePaths U) proofCoverages [] = Inr index"
    and prof: "\<And>p. p \<in> set profiles \<Longrightarrow> go_get0 [] profileScenarios p \<noteq> [] \<and> p \<in> mf_profile ` set manifests
      \<and> go_get index p \<noteq> None"
    and d: "distinct (map ft_id features)" "distinct (map mf_profile manifests)"
    and good: "\<And>m. m \<in> set (rm_manifests model) \<Longrightarrow> good_manifest profiles m"
    and model: "rm_manifests model = map fillManifest manifests"
      "rm_verification model = verificationTable profileScenarios index (rm_manifests model) features"
    by (rule built_model [OF assms(1)]) (rule that)
  have dm: "distinct (map mf_profile (rm_manifests model))" using d(2) by (simp add: model(1) o_def)
  have all: "mf_profile ` set (rm_manifests model) = set profiles"
  proof
    show "mf_profile ` set (rm_manifests model) \<subseteq> set profiles"
      using good unfolding good_manifest_def by blast
    have "mf_profile ` set (rm_manifests model) = mf_profile ` set manifests"
      unfolding model(1) set_map image_image fill_manifest(1) ..
    with prof show "set profiles \<subseteq> mf_profile ` set (rm_manifests model)" by blast
  qed
  with assms(3) have "profile \<in> mf_profile ` set (rm_manifests model)" by simp
  then obtain m where m: "m \<in> set (rm_manifests model)" "mf_profile m = profile" by blast
  from table_entry [OF d(1) dm assms(2) m(1)] verification_cell [OF index good [OF m(1)], of feature]
    prof [OF assms(3)] m(2) dm all
  show ?thesis unfolding model(2) by metis
qed

section \<open>An example\<close>

definition ex_evidence :: Evidence where
  "ex_evidence = \<lparr>ev_label = ''e'', ev_href = ''https://example.org'', ev_path = []\<rparr>"

definition ex_feature :: Feature where
  "ex_feature = \<lparr>ft_id = ''f'', ft_category = [], ft_group = [], ft_name = [], ft_optional = [],
     ft_support = [], ft_source = []\<rparr>"

definition ex_manifest :: "string \<Rightarrow> Manifest" where
  "ex_manifest p = \<lparr>mf_schemaVersion = 1, mf_profile = p, mf_displayName = ''d'', mf_language = ''go'',
     mf_framework = ''w'', mf_instrumentationVersion = ''1'', mf_version = ''1'', mf_shortLabel = ''l'',
     mf_unexercised = False, mf_profileEvidence = [ex_evidence], mf_baseCoverage = ''contract_only'',
     mf_defaultVerification = ''not_exercised'', mf_verifications = []\<rparr>"

definition ex_claim :: FeatureClaim where
  "ex_claim = \<lparr>fc_featureID = ''f'', fc_basis = ''observed'', fc_assertion = ''http'',
     fc_allScenarios = True, fc_scenarios = [], fc_evidence = [ex_evidence]\<rparr>"

definition ex_coverage :: "string \<Rightarrow> FeatureClaim list \<Rightarrow> ProfileProofCoverage" where
  "ex_coverage p cs = \<lparr>pc_profile = p, pc_source = ex_evidence, pc_claims = cs\<rparr>"

definition ex_shape_of :: "string \<Rightarrow> int \<Rightarrow> ScenarioShape" where
  "ex_shape_of p n = \<lparr>ss_profile = p, ss_scenario = ''s'', ss_source = [], ss_traces = [], ss_exact = True,
     ss_traceCount = n, ss_spanCount = n, ss_scopes = [(''http'', n)], ss_statuses = []\<rparr>"

definition ex_metadata :: CatalogMetadata where
  "ex_metadata = \<lparr>cm_schemaVersion = 1,
     cm_source = \<lparr>cs_revision = [], cs_url = [], cs_rawURL = [], cs_sha256 = []\<rparr>,
     cm_maturitySource = [], cm_maturity = []\<rparr>"

abbreviation ex_build :: "unicode_tables \<Rightarrow> ReportModel result" where
  "ex_build U \<equiv> BuildModelForProfiles U ex_metadata [ex_feature] [ex_manifest ''a'', ex_manifest ''b'']
     [ex_shape_of ''a'' 1, ex_shape_of ''b'' 3] [''a'', ''b''] [''s''] [(''a'', [''s'']), (''b'', [''s''])] {}
     [ex_coverage ''a'' [ex_claim], ex_coverage ''b'' []]"

lemmas ex_report_defs = ex_metadata_def ex_feature_def ex_manifest_def ex_shape_of_def ex_coverage_def ex_claim_def

lemma ex_evidence_ok: "validateEvidence [ex_evidence] {} = Inr ()"
  by (simp add: validateEvidence_def validateEvidenceItem_def ex_evidence_def)

lemma ex_built: "\<exists>model. ex_build U = Inr model"
proof -
  let ?S = "[(''a'', [''s'']), (''b'', [''s''])] :: (string, string list) gomap"
  have membership: "checkMembership [''a'', ''b''] [''s''] ?S = Inr ()"
    by (simp add: checkMembership_def stringSet_def go_get0_def)
  have features: "featureSet [ex_feature] = Inr {''f''}" by (simp add: featureSet_def ex_feature_def)
  have claim: "res_fold (checkClaim [''s''] ?S {''f''} {} U ''a'') [ex_claim] [] = Inr [(''f'', ex_claim)]"
    by (simp add: checkClaim_def ex_claim_def ex_evidence_ok Let_def)
  have coverages: "res_fold (checkCoverage [''a'', ''b''] [''s''] ?S {''f''} {} U)
      [ex_coverage ''a'' [ex_claim], ex_coverage ''b'' []] [] = Inr [(''a'', [(''f'', ex_claim)]), (''b'', [])]"
    using claim by (simp add: checkCoverage_def ex_coverage_def ex_evidence_ok stringSet_def Let_def)
  have manifests: "res_fold (checkManifest [''a'', ''b''] {''f''} {} [(''a'', [(''f'', ex_claim)]), (''b'', [])])
      [ex_manifest ''a'', ex_manifest ''b''] ({}, []) = Inr ({''b'', ''a''}, map fillManifest [ex_manifest ''a'', ex_manifest ''b''])"
    by (simp add: checkManifest_def ex_manifest_def ex_evidence_ok stringSet_def verificationStates_def
        coverageStates_def Let_def)
  have profiles: "checkProfiles [''a'', ''b''] {''b'', ''a''} [(''a'', [(''f'', ex_claim)]), (''b'', [])] = Inr ()"
    by (simp add: checkProfiles_def)
  have "\<exists>i. res_fold (indexShape [''a'', ''b''] [''s''] ?S) [ex_shape_of ''a'' 1, ex_shape_of ''b'' 3] [] = Inr i"
    by (simp add: indexShape_def ex_shape_of_def stringSet_def declared_in_def go_get0_def shape_key_def pair_key_def)
  then show ?thesis
    by (auto simp: BuildModelForProfiles_def membership features coverages manifests profiles
        simp del: res_fold.simps)
qed

lemma ex_no_nul_names: "\<forall>p \<in> set [''a'', ''b'']. NUL \<notin> set p"
  by simp

section \<open>Properties of the report model\<close>

text \<open>
  C3. A built report model has exactly one manifest for each profile, and one cell for each feature
  and manifest. The cell is verified exactly when a coverage of that profile makes a claim for the
  feature; it then carries the basis, the assertion and the evidence of that claim, and its
  scenarios are those the claim asserts, at least one, each declared for the profile.
\<close>

theorem verified_cells_from_claims:
  assumes "BuildModelForProfiles U metadata features manifests shapes profiles scenarios profileScenarios
      evidencePaths proofCoverages = Inr model"
    and "feature \<in> set features" "profile \<in> set profiles"
  shows "distinct (map mf_profile (rm_manifests model)) \<and> mf_profile ` set (rm_manifests model) = set profiles
    \<and> (\<exists>row v. go_get (rm_verification model) (ft_id feature) = Some row \<and> go_get row profile = Some v
        \<and> cell_spec profileScenarios proofCoverages profile (ft_id feature) v)"
  by (rule model_cells [OF assms])

theorem verified_cells_from_claims_witness:
  "\<forall>U :: unicode_tables. \<exists>model row v. ex_build U = Inr model \<and> go_get (rm_verification model) ''f'' = Some row
    \<and> go_get row ''a'' = Some v \<and> vf_state v = ''verified'' \<and> vf_scenarios v = [''s'']"
proof
  fix U :: unicode_tables
  obtain model where m: "ex_build U = Inr model" using ex_built by blast
  have f: "ex_feature \<in> set [ex_feature]" "''a'' \<in> set [''a'', ''b'']" by simp_all
  from verified_cells_from_claims [OF m f] obtain row v
    where v: "go_get (rm_verification model) ''f'' = Some row" "go_get row ''a'' = Some v"
      "cell_spec [(''a'', [''s'']), (''b'', [''s''])] [ex_coverage ''a'' [ex_claim], ex_coverage ''b'' []] ''a'' ''f'' v"
    by (auto simp: ex_feature_def)
  then have "vf_state v = ''verified'' \<and> vf_scenarios v = [''s'']"
    by (auto simp: cell_spec_def ex_coverage_def ex_claim_def claimScopeOf_def go_get0_def split: if_splits)
  with m v show "\<exists>model row v. ex_build U = Inr model \<and> go_get (rm_verification model) ''f'' = Some row
    \<and> go_get row ''a'' = Some v \<and> vf_state v = ''verified'' \<and> vf_scenarios v = [''s'']" by blast
qed

text \<open>
  The coverage of a built model has one cell for each scenario and manifest, in the order of
  the two loops. A cell is declared just when the scenario is declared for the profile, and has the
  state \<open>exact_shape\<close> just when it also has a shape; an undeclared cell is \<open>unavailable\<close>.
\<close>

theorem coverage_cells_complete:
  assumes "BuildModelForProfiles U metadata features manifests shapes profiles scenarios profileScenarios
      evidencePaths proofCoverages = Inr model"
    and "\<forall>p \<in> set profiles. NUL \<notin> set p"
  shows "map (\<lambda>c. (cc_scenario c, cc_profile c)) (rm_coverage model) = List.product scenarios (map mf_profile manifests)
    \<and> list_all (\<lambda>c. cc_declared c = declared_in profileScenarios (cc_profile c) (cc_scenario c)
        \<and> (cc_state c = ''exact_shape'' \<longleftrightarrow> cc_declared c \<and> (\<exists>shape \<in> set shapes.
            ss_profile shape = cc_profile c \<and> ss_scenario shape = cc_scenario c))
        \<and> (\<not> cc_declared c \<longrightarrow> cc_state c = ''unavailable'')) (rm_coverage model)"
proof -
  obtain shapeIndex where shapeIndex: "res_fold (indexShape profiles scenarios profileScenarios) shapes [] = Inr shapeIndex"
    and good: "\<And>m. m \<in> set (rm_manifests model) \<Longrightarrow> good_manifest profiles m"
    and model: "rm_manifests model = map fillManifest manifests"
      "rm_coverage model = coverageCells profileScenarios shapeIndex scenarios (rm_manifests model)"
    by (rule built_model [OF assms(1)]) (rule that)
  have "cc_declared c = declared_in profileScenarios (cc_profile c) (cc_scenario c)
        \<and> (cc_state c = ''exact_shape'' \<longleftrightarrow> cc_declared c \<and> (\<exists>shape \<in> set shapes.
            ss_profile shape = cc_profile c \<and> ss_scenario shape = cc_scenario c))
        \<and> (\<not> cc_declared c \<longrightarrow> cc_state c = ''unavailable'')" if c: "c \<in> set (rm_coverage model)" for c
  proof -
    obtain m scenario where m: "m \<in> set (rm_manifests model)"
      "c = coverageCell profileScenarios shapeIndex scenario m"
      using c by (auto simp: model(2) coverageCells_def)
    have p: "mf_profile m \<in> set profiles" "mf_baseCoverage m \<in> coverageStates"
      using good [OF m(1)] by (simp_all add: good_manifest_def)
    then have base: "mf_baseCoverage m \<noteq> ''exact_shape''" by (auto simp: coverageStates_def)
    have "go_get shapeIndex (pair_key (mf_profile m) scenario) \<noteq> None
        \<longleftrightarrow> (\<exists>shape \<in> set shapes. ss_profile shape = mf_profile m \<and> ss_scenario shape = scenario)"
      using indexed_shape [OF shapeIndex assms(2) p(1)] by blast
    then show ?thesis using base by (simp add: m(2) coverageCell_def Let_def)
  qed
  then show ?thesis
    using coverage_order [of profileScenarios shapeIndex scenarios "rm_manifests model"]
    by (simp add: list_all_iff model o_def)
qed

theorem coverage_cells_complete_witness:
  "\<forall>U :: unicode_tables. \<exists>model. ex_build U = Inr model
    \<and> map (\<lambda>c. (cc_scenario c, cc_profile c)) (rm_coverage model) = [(''s'', ''a''), (''s'', ''b'')]"
proof
  fix U :: unicode_tables
  obtain model where m: "ex_build U = Inr model" using ex_built by blast
  from coverage_cells_complete [OF m ex_no_nul_names] m
  show "\<exists>model. ex_build U = Inr model
    \<and> map (\<lambda>c. (cc_scenario c, cc_profile c)) (rm_coverage model) = [(''s'', ''a''), (''s'', ''b'')]"
    by (auto simp: ex_manifest_def)
qed

definition comparison_spec :: "ScenarioShape list \<Rightarrow> Comparison \<Rightarrow> bool" where
  "comparison_spec shapes c \<longleftrightarrow>
     (cp_available c \<longleftrightarrow> (\<exists>l \<in> set shapes. \<exists>r \<in> set shapes. ss_exact l \<and> ss_exact r
        \<and> ss_profile l = cp_leftProfile c \<and> ss_profile r = cp_rightProfile c
        \<and> ss_scenario l = cp_scenario c \<and> ss_scenario r = cp_scenario c))
     \<and> (\<forall>l \<in> set shapes. \<forall>r \<in> set shapes. cp_available c
        \<and> ss_profile l = cp_leftProfile c \<and> ss_profile r = cp_rightProfile c
        \<and> ss_scenario l = cp_scenario c \<and> ss_scenario r = cp_scenario c
        \<longrightarrow> cp_traceDelta c = i64 (ss_traceCount r - ss_traceCount l)
          \<and> cp_spanDelta c = i64 (ss_spanCount r - ss_spanCount l)
          \<and> (\<forall>k. go_get (cp_scopeDelta c) k = nonzero (i64 (go_get0 0 (ss_scopes r) k - go_get0 0 (ss_scopes l) k)))
          \<and> (\<forall>k. go_get (cp_statusDelta c) k
              = nonzero (i64 (go_get0 0 (ss_statuses r) k - go_get0 0 (ss_statuses l) k))))"

lemma compare_spec:
  assumes left: "\<And>x. l = Some x \<longleftrightarrow> x \<in> set shapes \<and> ss_profile x = p \<and> ss_scenario x = scenario"
    and right: "\<And>x. r = Some x \<longleftrightarrow> x \<in> set shapes \<and> ss_profile x = q \<and> ss_scenario x = scenario"
    and maps: "\<And>x. x \<in> set shapes \<Longrightarrow> go_map (ss_scopes x) \<and> go_map (ss_statuses x)"
  shows "comparison_spec shapes (compareShapes U p q scenario l r)"
proof (cases "\<exists>x y. l = Some x \<and> r = Some y \<and> ss_exact x \<and> ss_exact y")
  case True
  then obtain x y where xy: "l = Some x" "r = Some y" "ss_exact x" "ss_exact y" by blast
  then have mem: "x \<in> set shapes" "y \<in> set shapes" "ss_profile x = p" "ss_profile y = q"
    "ss_scenario x = scenario" "ss_scenario y = scenario" using left right by blast+
  have only: "z = x" if "z \<in> set shapes" "ss_profile z = p" "ss_scenario z = scenario" for z
    using left [of z] that xy(1) by simp
  have only': "z = y" if "z \<in> set shapes" "ss_profile z = q" "ss_scenario z = scenario" for z
    using right [of z] that xy(2) by simp
  let ?c = "compareShapes U p q scenario l r"
  have c: "cp_available ?c" "cp_leftProfile ?c = p" "cp_rightProfile ?c = q" "cp_scenario ?c = scenario"
    "cp_traceDelta ?c = i64 (ss_traceCount y - ss_traceCount x)"
    "cp_spanDelta ?c = i64 (ss_spanCount y - ss_spanCount x)"
    "cp_scopeDelta ?c = mergeDelta (mergeDelta [] (ss_scopes x) (-1)) (ss_scopes y) 1"
    "cp_statusDelta ?c = mergeDelta (mergeDelta [] (ss_statuses x) (-1)) (ss_statuses y) 1"
    using xy by (simp_all add: compareShapes_def Let_def delta64_i64)
  have deltas: "go_get (cp_scopeDelta ?c) k = nonzero (i64 (go_get0 0 (ss_scopes y) k - go_get0 0 (ss_scopes x) k))"
    "go_get (cp_statusDelta ?c) k = nonzero (i64 (go_get0 0 (ss_statuses y) k - go_get0 0 (ss_statuses x) k))" for k
    using maps [OF mem(1)] maps [OF mem(2)] by (simp_all add: c merged_delta)
  show ?thesis
    unfolding comparison_spec_def
  proof (intro conjI ballI impI)
    show "cp_available ?c \<longleftrightarrow> (\<exists>l \<in> set shapes. \<exists>r \<in> set shapes. ss_exact l \<and> ss_exact r
        \<and> ss_profile l = cp_leftProfile ?c \<and> ss_profile r = cp_rightProfile ?c
        \<and> ss_scenario l = cp_scenario ?c \<and> ss_scenario r = cp_scenario ?c)"
      unfolding c(2-4) using c(1) mem xy(3,4) by blast
    fix l' r' assume "l' \<in> set shapes" "r' \<in> set shapes" and "cp_available ?c
      \<and> ss_profile l' = cp_leftProfile ?c \<and> ss_profile r' = cp_rightProfile ?c
      \<and> ss_scenario l' = cp_scenario ?c \<and> ss_scenario r' = cp_scenario ?c"
    then have "l' = x" "r' = y" using only [of l'] only' [of r'] by (simp_all only: c(2-4))
    then show "cp_traceDelta ?c = i64 (ss_traceCount r' - ss_traceCount l')"
      "cp_spanDelta ?c = i64 (ss_spanCount r' - ss_spanCount l')"
      "\<forall>k. go_get (cp_scopeDelta ?c) k = nonzero (i64 (go_get0 0 (ss_scopes r') k - go_get0 0 (ss_scopes l') k))"
      "\<forall>k. go_get (cp_statusDelta ?c) k
        = nonzero (i64 (go_get0 0 (ss_statuses r') k - go_get0 0 (ss_statuses l') k))"
      using c(5,6) deltas by simp_all
  qed
next
  case False
  then have un: "\<not> cp_available (compareShapes U p q scenario l r)"
    by (auto simp: compareShapes_def Let_def split: option.split)
  have names: "cp_leftProfile (compareShapes U p q scenario l r) = p"
    "cp_rightProfile (compareShapes U p q scenario l r) = q"
    "cp_scenario (compareShapes U p q scenario l r) = scenario"
    by (simp_all add: compareShapes_def Let_def split: option.split)
  show ?thesis unfolding comparison_spec_def names using un False left right by blast
qed

text \<open>
  C35. A built model compares each two profiles, in their order, on each scenario. A comparison is
  available just when both shapes exist and are exact; its counts are then the differences of
  the totals, and its maps hold exactly the keys whose counts differ, with the difference, all
  in 64-bit arithmetic.
\<close>

theorem comparisons_complete:
  assumes "BuildModelForProfiles U metadata features manifests shapes profiles scenarios profileScenarios
      evidencePaths proofCoverages = Inr model"
    and "\<forall>p \<in> set profiles. NUL \<notin> set p"
    and "\<forall>x \<in> set shapes. go_map (ss_scopes x) \<and> go_map (ss_statuses x)"
  shows "map (\<lambda>c. (cp_leftProfile c, cp_rightProfile c, cp_scenario c)) (rm_comparisons model)
      = concat (map (\<lambda>(l, r). map (\<lambda>s. (l, r, s)) scenarios) (later_pairs profiles))
    \<and> list_all (comparison_spec shapes) (rm_comparisons model)"
proof -
  obtain shapeIndex where shapeIndex: "res_fold (indexShape profiles scenarios profileScenarios) shapes [] = Inr shapeIndex"
    and model: "rm_comparisons model = comparisons U shapeIndex profiles scenarios"
    by (rule built_model [OF assms(1)]) (rule that)
  have names: "cp_leftProfile (compareShapes U p q s l r) = p" "cp_rightProfile (compareShapes U p q s l r) = q"
    "cp_scenario (compareShapes U p q s l r) = s" for p q s l r
    by (simp_all add: compareShapes_def Let_def split: option.split)
  have "comparison_spec shapes c" if c: "c \<in> set (rm_comparisons model)" for c
  proof -
    obtain p q s where pq: "(p, q) \<in> set (later_pairs profiles)"
      "c = compareShapes U p q s (go_get shapeIndex (pair_key p s)) (go_get shapeIndex (pair_key q s))"
      using c by (auto simp: model comparisons_def)
    then have "p \<in> set profiles" "q \<in> set profiles" by (auto simp: later_pairs_set)
    then show ?thesis unfolding pq(2)
      using indexed_shape [OF shapeIndex assms(2)] assms(3) by (intro compare_spec) blast+
  qed
  moreover have "map (\<lambda>c. (cp_leftProfile c, cp_rightProfile c, cp_scenario c)) (rm_comparisons model)
      = concat (map (\<lambda>(l, r). map (\<lambda>s. (l, r, s)) scenarios) (later_pairs profiles))"
    by (simp add: model comparisons_def map_concat o_def case_prod_unfold names)
  ultimately show ?thesis by (simp add: list_all_iff)
qed

theorem comparisons_complete_witness:
  "\<forall>U :: unicode_tables. \<exists>model c. ex_build U = Inr model \<and> rm_comparisons model = [c]
    \<and> cp_leftProfile c = ''a'' \<and> cp_available c \<and> cp_traceDelta c = 2 \<and> go_get (cp_scopeDelta c) ''http'' = Some 2"
proof
  fix U :: unicode_tables
  obtain model where m: "ex_build U = Inr model" using ex_built by blast
  let ?shapes = "[ex_shape_of ''a'' 1, ex_shape_of ''b'' 3]"
  have maps: "\<forall>x \<in> set ?shapes. go_map (ss_scopes x) \<and> go_map (ss_statuses x)"
    by (simp add: ex_shape_of_def go_map_def go_keys_def)
  note spec = comparisons_complete [OF m ex_no_nul_names maps]
  then have "map (\<lambda>c. (cp_leftProfile c, cp_rightProfile c, cp_scenario c)) (rm_comparisons model)
      = [(''a'', ''b'', ''s'')]" by simp
  then obtain c where c: "rm_comparisons model = [c]" "cp_leftProfile c = ''a''" "cp_rightProfile c = ''b''"
    "cp_scenario c = ''s''" by auto
  with spec have s: "comparison_spec ?shapes c" by simp
  have av: "cp_available c"
    using s c unfolding comparison_spec_def by (simp add: ex_shape_of_def)
  have "cp_traceDelta c = 2 \<and> go_get (cp_scopeDelta c) ''http'' = Some 2"
  proof -
    have "cp_traceDelta c = i64 (ss_traceCount (ex_shape_of ''b'' 3) - ss_traceCount (ex_shape_of ''a'' 1))
      \<and> (\<forall>k. go_get (cp_scopeDelta c) k = nonzero (i64 (go_get0 0 (ss_scopes (ex_shape_of ''b'' 3)) k
          - go_get0 0 (ss_scopes (ex_shape_of ''a'' 1)) k)))"
      using s c av unfolding comparison_spec_def by (simp add: ex_shape_of_def)
    then show ?thesis by (simp add: ex_shape_of_def go_get0_def nonzero_def i64_def)
  qed
  with m c av show "\<exists>model c. ex_build U = Inr model \<and> rm_comparisons model = [c]
    \<and> cp_leftProfile c = ''a'' \<and> cp_available c \<and> cp_traceDelta c = 2 \<and> go_get (cp_scopeDelta c) ''http'' = Some 2"
    by blast
qed

text \<open>
  A planned check executes exactly the declared cells of its profile in the scope of its proof,
  in their order, and its three counts are the numbers of its executions with each outcome.
\<close>

theorem planned_check_counts:
  "map ce_scenario (pk_executions (plannedCheck receipts coverage profile artifact p))
      = map cc_scenario (filter (in_scope profile p) coverage)
    \<and> check_counts (plannedCheck receipts coverage profile artifact p)
    \<and> pk_passed (plannedCheck receipts coverage profile artifact p)
      + pk_expectedFailure (plannedCheck receipts coverage profile artifact p)
      + pk_noResult (plannedCheck receipts coverage profile artifact p)
      = length (filter (in_scope profile p) coverage)"
proof -
  let ?c = "plannedCheck receipts coverage profile artifact p"
  have "length (filter (\<lambda>e. ce_outcome e = ''verified'') es) + length (filter (\<lambda>e. ce_outcome e = ''xfail'') es)
      + length (filter (\<lambda>e. ce_outcome e = ''missing'') es) = length es"
    if "list_all (\<lambda>e. ce_outcome e \<in> {''verified'', ''xfail'', ''missing''}) es" for es :: "CheckExecution list"
    using that by (induction es) auto
  from this [of "pk_executions ?c"] planned_check(1) [of receipts coverage profile artifact p]
  have "pk_passed ?c + pk_expectedFailure ?c + pk_noResult ?c = length (pk_executions ?c)"
    by (simp add: check_counts_def)
  also have "\<dots> = length (map ce_scenario (pk_executions ?c))" by simp
  finally show ?thesis
    using planned_check [of receipts coverage profile artifact p] by simp
qed

end
