(* ===== verification/Components.thy ===== *)
theory Components
  imports GoPrelude "HOL-Library.While_Combinator"
begin

text \<open>
  The union of components inside \<open>stressIndex\<close> of \<open>src/harness/parallel_scenarios.go\<close>: the
  closures \<open>find\<close>, which halves the path it walks, and \<open>join\<close>. A slice of ints whose entries
  are indices is a list of naturals. \<open>partition_ops\<close> is the interface its client relies on; the
  interpretation shows that \<open>find\<close> returns on every forest the two closures can build.
\<close>

section \<open>The closures\<close>

text \<open>\<open>for components[i] != i { components[i] = components[components[i]]; i = components[i] }\<close>;
  \<open>None\<close> would be a loop that does not end.\<close>

definition halve :: "nat list \<times> nat \<Rightarrow> nat list \<times> nat" where
  "halve = (\<lambda>(components, i).
     let components = components[i := components ! (components ! i)] in (components, components ! i))"

definition uf_find :: "nat list \<Rightarrow> nat \<Rightarrow> (nat \<times> nat list) option" where
  "uf_find components i =
     map_option (\<lambda>(components, i). (i, components))
       (while_option (\<lambda>(components, i). components ! i \<noteq> i) halve (components, i))"

text \<open>\<open>components[find(a)] = find(b)\<close>\<close>

definition uf_join :: "nat list \<Rightarrow> nat \<Rightarrow> nat \<Rightarrow> nat list option" where
  "uf_join components a b =
     Option.bind (uf_find components a) (\<lambda>(x, components).
       Option.bind (uf_find components b) (\<lambda>(y, components). Some (components[x := y])))"

section \<open>Loops that may not return\<close>

fun opt_fold :: "('a \<Rightarrow> 's \<Rightarrow> 's option) \<Rightarrow> 'a list \<Rightarrow> 's \<Rightarrow> 's option" where
  "opt_fold f [] s = Some s"
| "opt_fold f (x # xs) s = Option.bind (f x s) (opt_fold f xs)"

lemma opt_fold_append: "opt_fold f (xs @ ys) s = Option.bind (opt_fold f xs s) (opt_fold f ys)"
  by (induction xs arbitrary: s) (auto split: bind_splits)

lemma opt_fold_nested:
  "opt_fold (\<lambda>x. opt_fold (f x) (g x)) xs s
    = opt_fold (\<lambda>(x, y). f x y) (concat (map (\<lambda>x. map (Pair x) (g x)) xs)) s"
proof (induction xs arbitrary: s)
  case (Cons x xs)
  have "opt_fold (f x) ys s = opt_fold (\<lambda>(x, y). f x y) (map (Pair x) ys) s" for ys s
    by (induction ys arbitrary: s) (auto split: bind_splits)
  note inner = this
  show ?case by (simp add: opt_fold_append inner Cons [THEN ext])
qed simp

text \<open>A loop whose steps return under an invariant over the elements done returns.\<close>

lemma opt_fold_invariant:
  assumes init: "I [] s"
    and step: "\<And>before x after u. xs = before @ x # after \<Longrightarrow> I before u
      \<Longrightarrow> \<exists>v. f x u = Some v \<and> I (before @ [x]) v"
  shows "\<exists>t. opt_fold f xs s = Some t \<and> I xs t"
proof -
  have "\<exists>v. opt_fold f after u = Some v \<and> I xs v"
    if "xs = before @ after" "I before u" for before after u
    using that
  proof (induction after arbitrary: before u)
    case (Cons x after)
    from step [OF Cons.prems] obtain w where w: "f x u = Some w" "I (before @ [x]) w" by blast
    from Cons.IH [of "before @ [x]" w] Cons.prems(1) w show ?case by auto
  qed simp
  from this [of "[]" xs s] init show ?thesis by simp
qed

section \<open>The relation of being connected\<close>

definition connected :: "(nat \<times> nat) set \<Rightarrow> (nat \<times> nat) set" where
  "connected R = (R \<union> R\<inverse>)\<^sup>*"

lemma connected_refl [simp]: "(x, x) \<in> connected R"
  by (simp add: connected_def)

lemma connected_sym: "(x, y) \<in> connected R \<Longrightarrow> (y, x) \<in> connected R"
proof -
  assume a: "(x, y) \<in> connected R"
  have "sym (R \<union> R\<inverse>)" by (auto simp: sym_def)
  then have "sym ((R \<union> R\<inverse>)\<^sup>*)" by (rule sym_rtrancl)
  with a show ?thesis by (auto simp: connected_def sym_def)
qed

lemma connected_trans: "(x, y) \<in> connected R \<Longrightarrow> (y, z) \<in> connected R \<Longrightarrow> (x, z) \<in> connected R"
  by (simp add: connected_def)

lemma connected_edge: "(x, y) \<in> R \<Longrightarrow> (x, y) \<in> connected R"
  by (auto simp: connected_def)

lemma connected_least:
  assumes "(x, y) \<in> connected R" "\<And>a b. (a, b) \<in> R \<Longrightarrow> f a = f b"
  shows "f x = f y"
proof -
  have "(x, y) \<in> (R \<union> R\<inverse>)\<^sup>*" using assms(1) by (simp add: connected_def)
  then show ?thesis
  proof (induction rule: rtrancl_induct)
    case (step y z)
    with assms(2) [of y z] assms(2) [of z y] show ?case by auto
  qed simp
qed

lemma connected_subset:
  assumes "R \<subseteq> connected Q" shows "connected R \<subseteq> connected Q"
proof -
  have "R \<union> R\<inverse> \<subseteq> connected Q" using assms connected_sym by blast
  then have "(R \<union> R\<inverse>)\<^sup>* \<subseteq> (connected Q)\<^sup>*" by (rule rtrancl_mono)
  then show ?thesis by (simp add: connected_def)
qed

section \<open>The interface\<close>

locale partition_ops =
  fixes start :: "nat \<Rightarrow> 's"
    and find :: "'s \<Rightarrow> nat \<Rightarrow> (nat \<times> 's) option"
    and join :: "'s \<Rightarrow> nat \<Rightarrow> nat \<Rightarrow> 's option"
    and rep :: "'s \<Rightarrow> nat \<Rightarrow> nat"
    and ok :: "nat \<Rightarrow> 's \<Rightarrow> bool"
  assumes start: "ok n (start n)" "i < n \<Longrightarrow> rep (start n) i = i"
    and find: "ok n s \<Longrightarrow> i < n
      \<Longrightarrow> \<exists>s'. find s i = Some (rep s i, s') \<and> ok n s' \<and> (\<forall>x<n. rep s' x = rep s x)"
    and join: "ok n s \<Longrightarrow> a < n \<Longrightarrow> b < n
      \<Longrightarrow> \<exists>s'. join s a b = Some s' \<and> ok n s'
        \<and> (\<forall>x<n. rep s' x = (if rep s x = rep s a then rep s b else rep s x))"
begin

definition parts :: "nat \<Rightarrow> (nat \<times> nat) set \<Rightarrow> 's \<Rightarrow> bool" where
  "parts n R s \<longleftrightarrow> ok n s \<and> R \<subseteq> {..<n} \<times> {..<n}
     \<and> (\<forall>x<n. \<forall>y<n. rep s x = rep s y \<longleftrightarrow> (x, y) \<in> connected R)"

lemma parts_start: "parts n {} (start n)"
  using start by (auto simp: parts_def connected_def)

lemma parts_find:
  "parts n R s \<Longrightarrow> i < n \<Longrightarrow> \<exists>s'. find s i = Some (rep s i, s') \<and> parts n R s' \<and> (\<forall>x<n. rep s' x = rep s x)"
  using find [of n s i] by (auto simp: parts_def)

lemma parts_rep: "parts n R s \<Longrightarrow> x < n \<Longrightarrow> y < n \<Longrightarrow> rep s x = rep s y \<longleftrightarrow> (x, y) \<in> connected R"
  by (simp add: parts_def)

lemma parts_join:
  assumes p: "parts n R s" and ab: "a < n" "b < n"
  shows "\<exists>s'. join s a b = Some s' \<and> parts n (insert (a, b) R) s'"
proof -
  from p have okn: "ok n s" and Rn: "R \<subseteq> {..<n} \<times> {..<n}" by (simp_all add: parts_def)
  note same = parts_rep [OF p]
  obtain s' where s': "join s a b = Some s'" "ok n s'"
    and rep': "\<And>x. x < n \<Longrightarrow> rep s' x = (if rep s x = rep s a then rep s b else rep s x)"
    using join [OF okn ab] by auto
  let ?Q = "insert (a, b) R"
  have up: "connected R \<subseteq> connected ?Q" by (rule connected_subset) (auto intro: connected_edge)
  have "rep s' x = rep s' y \<longleftrightarrow> (x, y) \<in> connected ?Q" if xy: "x < n" "y < n" for x y
  proof
    assume eq: "rep s' x = rep s' y"
    have edge: "(a, b) \<in> connected ?Q" by (rule connected_edge) simp
    have in_a: "(z, b) \<in> connected ?Q" if "rep s z = rep s a" "z < n" for z
      using same [OF that(2) ab(1)] that(1) up edge connected_trans by blast
    have in_b: "(z, b) \<in> connected ?Q" if "rep s z = rep s b" "z < n" for z
      using same [OF that(2) ab(2)] that(1) up by blast
    have "rep s x = rep s y \<or> (x, b) \<in> connected ?Q \<and> (y, b) \<in> connected ?Q"
      using eq rep' [OF xy(1)] rep' [OF xy(2)] in_a [of x] in_a [of y] in_b [of x] in_b [of y] xy
      by (auto split: if_splits)
    then show "(x, y) \<in> connected ?Q"
      using same [OF xy] up connected_sym connected_trans by blast
  next
    assume c: "(x, y) \<in> connected ?Q"
    define f where "f z = (if rep s z = rep s a then rep s b else rep s z)" for z
    have "f x = f y"
    proof (rule connected_least [OF c])
      fix u v assume "(u, v) \<in> ?Q"
      then consider "u = a" "v = b" | "(u, v) \<in> R" by blast
      then show "f u = f v"
      proof cases
        case 2
        then have "rep s u = rep s v" using Rn same [of u v] connected_edge [OF 2] by auto
        then show ?thesis by (simp add: f_def)
      qed (simp add: f_def)
    qed
    then show "rep s' x = rep s' y" using rep' xy by (simp add: f_def)
  qed
  with s' Rn ab show ?thesis by (auto simp: parts_def)
qed

end

section \<open>Forests\<close>

text \<open>From \<open>x\<close>, \<open>k\<close> steps lead to the root \<open>r\<close>.\<close>

inductive leads :: "nat list \<Rightarrow> nat \<Rightarrow> nat \<Rightarrow> nat \<Rightarrow> bool" for c where
  at_root: "c ! x = x \<Longrightarrow> leads c x 0 x"
| towards: "c ! x \<noteq> x \<Longrightarrow> leads c (c ! x) k r \<Longrightarrow> leads c x (Suc k) r"

inductive_simps leads_zero: "leads c x 0 r"
inductive_simps leads_Suc: "leads c x (Suc k) r"
inductive_cases leadsE: "leads c x k r"

definition forest :: "nat \<Rightarrow> nat list \<Rightarrow> bool" where
  "forest n c \<longleftrightarrow> length c = n \<and> (\<forall>x<n. c ! x < n \<and> (\<exists>k r. leads c x k r))"

definition root_of :: "nat list \<Rightarrow> nat \<Rightarrow> nat" where
  "root_of c x = (THE r. \<exists>k. leads c x k r)"

lemma leads_unique: "leads c x k r \<Longrightarrow> leads c x k' r' \<Longrightarrow> k' = k \<and> r' = r"
proof (induction arbitrary: k' rule: leads.induct)
  case (at_root x)
  from at_root.prems show ?case by (rule leadsE) (use at_root.hyps in auto)
next
  case (towards x k r)
  from towards.prems show ?case
  proof (rule leadsE)
    fix k'' assume "k' = Suc k''" "leads c (c ! x) k'' r'"
    with towards.IH show ?thesis by blast
  qed (use towards.hyps in auto)
qed

lemma root_of_eq: "leads c x k r \<Longrightarrow> root_of c x = r"
  unfolding root_of_def by (rule the_equality) (auto dest: leads_unique)

lemma leads_root: "leads c x k r \<Longrightarrow> c ! r = r"
  by (induction rule: leads.induct)

lemma leads_bound: "leads c x k r \<Longrightarrow> forest n c \<Longrightarrow> x < n \<Longrightarrow> r < n"
  by (induction rule: leads.induct) (auto simp: forest_def)

lemma forest_leads: "forest n c \<Longrightarrow> x < n \<Longrightarrow> \<exists>k. leads c x k (root_of c x)"
proof -
  assume "forest n c" "x < n"
  then obtain k r where "leads c x k r" by (auto simp: forest_def)
  with root_of_eq [OF this] show ?thesis by auto
qed

lemma forestI:
  "length c = n \<Longrightarrow> (\<And>x. x < n \<Longrightarrow> c ! x < n) \<Longrightarrow> (\<And>x. x < n \<Longrightarrow> \<exists>k. leads c x k (f x)) \<Longrightarrow> forest n c"
  unfolding forest_def by blast

text \<open>Halving keeps every root and lengthens no path.\<close>

lemma leads_halved:
  assumes "c ! i \<noteq> i" "i < length c" "leads c x k r"
  shows "\<exists>k' \<le> k. leads (c[i := c ! (c ! i)]) x k' r"
  using assms(3)
proof (induction rule: leads.induct)
  case (at_root x)
  then have "leads (c[i := c ! (c ! i)]) x 0 x" using assms(1,2) by (auto simp: leads_zero nth_list_update)
  then show ?case by blast
next
  case (towards x k r)
  let ?c = "c[i := c ! (c ! i)]"
  obtain k' where k': "k' \<le> k" "leads ?c (c ! x) k' r" using towards.IH by blast
  show ?case
  proof (cases "x = i")
    case False
    then have "leads ?c x (Suc k') r" using towards.hyps(1) k'(2) by (simp add: leads_Suc)
    with k'(1) show ?thesis by (intro exI [of _ "Suc k'"]) simp
  next
    case x: True
    let ?y = "c ! i"
    from k'(2) show ?thesis
    proof (rule leadsE)
      assume a: "k' = 0" "r = c ! x" "?c ! (c ! x) = c ! x"
      then have "?c ! i = ?y" using assms x by simp
      then have "leads ?c x (Suc 0) r"
        using assms(1) k'(2) a x by (simp add: leads_Suc)
      then show ?thesis by (intro exI [of _ "Suc 0"]) simp
    next
      fix k'' assume a: "k' = Suc k''" "?c ! (c ! x) \<noteq> c ! x" "leads ?c (?c ! (c ! x)) k'' r"
      have y: "?c ! ?y = c ! ?y" using assms(1) by simp
      have ny: "c ! ?y \<noteq> ?y" using a(2) x y by simp
      obtain m where m: "leads c (c ! ?y) m r" "k = Suc m"
        using towards.hyps(2) ny x by (auto elim: leadsE)
      have "c ! ?y \<noteq> i"
      proof
        assume "c ! ?y = i"
        then have "leads c i m r" using m(1) by simp
        moreover have "leads c i (Suc k) r" using towards.hyps x by (simp add: leads_Suc)
        ultimately have "Suc k = m" using leads_unique by blast
        with m(2) show False by simp
      qed
      moreover have ci: "?c ! i = c ! ?y" using assms(2) by simp
      moreover have "leads ?c (c ! ?y) k'' r" using a(3) x y by (simp only:)
      ultimately have "leads ?c i (Suc k'') r" unfolding leads_Suc ci by simp
      then show ?thesis using k'(1) a(1) x by (intro exI [of _ k']) simp
    qed
  qed
qed

lemma forest_halved:
  assumes "forest n c" "i < n" "c ! i \<noteq> i"
  shows "forest n (c[i := c ! (c ! i)])" "\<And>x. x < n \<Longrightarrow> root_of (c[i := c ! (c ! i)]) x = root_of c x"
proof -
  have l: "length c = n" using assms(1) by (simp add: forest_def)
  have to: "\<exists>k'. leads (c[i := c ! (c ! i)]) x k' (root_of c x)" if "x < n" for x
    using forest_leads [OF assms(1) that] leads_halved [OF assms(3)] l assms(2) by blast
  then show "\<And>x. x < n \<Longrightarrow> root_of (c[i := c ! (c ! i)]) x = root_of c x" using root_of_eq by blast
  show "forest n (c[i := c ! (c ! i)])"
    by (rule forestI [OF _ _ to]) (use assms l in \<open>auto simp: forest_def nth_list_update\<close>)
qed

lemma find_returns:
  assumes "leads c i k r" "forest n c" "i < n"
  shows "\<exists>c'. uf_find c i = Some (r, c') \<and> forest n c' \<and> (\<forall>x<n. root_of c' x = root_of c x)"
  using assms
proof (induction k arbitrary: c i rule: less_induct)
  case (less k)
  show ?case
  proof (cases "c ! i = i")
    case True
    then have "r = i" using less.prems(1) by (auto elim: leadsE)
    then have "uf_find c i = Some (r, c)" using True by (simp add: uf_find_def while_option_unfold)
    with less.prems show ?thesis by auto
  next
    case False
    let ?c = "c[i := c ! (c ! i)]"
    have l: "length c = n" using less.prems(2) by (simp add: forest_def)
    note f = forest_halved [OF less.prems(2,3) False]
    obtain k' where k': "k' \<le> k" "leads ?c i k' r"
      using leads_halved [OF False _ less.prems(1)] l less.prems(3) by auto
    have ci: "?c ! i = c ! (c ! i)" using l less.prems(3) by simp
    have step: "uf_find c i = uf_find ?c (?c ! i)"
      using False by (simp add: uf_find_def halve_def Let_def while_option_unfold [of _ _ "(c, i)"])
    have b: "?c ! i < n" using less.prems(2,3) ci by (simp add: forest_def)
    have "r \<noteq> i" using leads_root [OF less.prems(1)] False by auto
    then obtain k'' where "k' = Suc k''" "leads ?c (?c ! i) k'' r" using k'(2) by (auto elim: leadsE)
    with less.IH [of k'' ?c "?c ! i"] f b k'(1) step show ?thesis by auto
  qed
qed

text \<open>Joining two roots.\<close>

lemma leads_joined:
  assumes "leads c x k r" "c ! a = a" "c ! b = b" "a \<noteq> b" "a < length c"
  shows "\<exists>k'. leads (c[a := b]) x k' (if r = a then b else r)"
  using assms(1)
proof (induction rule: leads.induct)
  case (at_root x)
  have "leads (c[a := b]) b 0 b" using assms by (simp add: leads_zero)
  then have "x = a \<Longrightarrow> leads (c[a := b]) x (Suc 0) b" using assms by (simp add: leads_Suc)
  moreover have "x \<noteq> a \<Longrightarrow> leads (c[a := b]) x 0 x" using at_root by (simp add: leads_zero)
  ultimately show ?case by (cases "x = a") auto
next
  case (towards x k r)
  then have x: "x \<noteq> a" using assms(2) by auto
  obtain k' where "leads (c[a := b]) (c ! x) k' (if r = a then b else r)" using towards.IH by blast
  then have "leads (c[a := b]) x (Suc k') (if r = a then b else r)" using towards.hyps(1) x by (simp add: leads_Suc)
  then show ?case by blast
qed

lemma forest_joined:
  assumes f: "forest n c" and r: "a < n" "b < n" "c ! a = a" "c ! b = b"
  shows "forest n (c[a := b])"
    "\<And>x. x < n \<Longrightarrow> root_of (c[a := b]) x = (if root_of c x = a then b else root_of c x)"
proof -
  have l: "length c = n" using f by (simp add: forest_def)
  have to: "\<exists>k. leads (c[a := b]) x k (if root_of c x = a then b else root_of c x)" if "x < n" for x
  proof (cases "a = b")
    case True
    then have "c[a := b] = c" using r(3) l r(1) by (metis list_update_id)
    with forest_leads [OF f that] True show ?thesis by auto
  next
    case False
    with forest_leads [OF f that] leads_joined r l show ?thesis by blast
  qed
  then show "\<And>x. x < n \<Longrightarrow> root_of (c[a := b]) x = (if root_of c x = a then b else root_of c x)"
    using root_of_eq by blast
  show "forest n (c[a := b])"
    by (rule forestI [OF _ _ to]) (use f r l in \<open>auto simp: forest_def nth_list_update\<close>)
qed

interpretation uf: partition_ops "\<lambda>n. [0..<n]" uf_find uf_join root_of forest
proof unfold_locales
  fix n i :: nat
  have id: "leads [0..<n] x 0 x" if "x < n" for x using that by (simp add: leads_zero)
  show "forest n [0..<n]" by (rule forestI [where f = "\<lambda>x. x"]) (use id in auto)
  show "i < n \<Longrightarrow> root_of [0..<n] i = i" using root_of_eq [OF id] .
next
  fix n s i assume "forest n s" "i < n"
  with forest_leads [OF this] find_returns [of s i _ "root_of s i" n]
  show "\<exists>s'. uf_find s i = Some (root_of s i, s') \<and> forest n s' \<and> (\<forall>x<n. root_of s' x = root_of s x)"
    by blast
next
  fix n s a b assume f: "forest n s" and ab: "a < n" "b < n"
  have find: "\<exists>s'. uf_find s i = Some (root_of s i, s') \<and> forest n s' \<and> (\<forall>x<n. root_of s' x = root_of s x)"
    if "forest n s" "i < n" for s i
    using forest_leads [OF that] find_returns [of s i _ "root_of s i" n] that by blast
  obtain s1 where s1: "uf_find s a = Some (root_of s a, s1)" "forest n s1" "\<forall>x<n. root_of s1 x = root_of s x"
    using find [OF f ab(1)] by blast
  obtain s2 where s2: "uf_find s1 b = Some (root_of s b, s2)" "forest n s2" "\<forall>x<n. root_of s2 x = root_of s x"
    using find [OF s1(2) ab(2)] s1(3) ab by auto
  have roots: "root_of s x < n \<and> s2 ! root_of s x = root_of s x" if x: "x < n" for x
  proof -
    obtain k where "leads s2 x k (root_of s x)" using forest_leads [OF s2(2) x] s2(3) x by auto
    then show ?thesis using leads_bound leads_root s2(2) x by blast
  qed
  have ra: "root_of s a < n" "s2 ! root_of s a = root_of s a" using roots [OF ab(1)] by auto
  have rb: "root_of s b < n" "s2 ! root_of s b = root_of s b" using roots [OF ab(2)] by auto
  note j = forest_joined [OF s2(2) ra(1) rb(1) ra(2) rb(2)]
  have "uf_join s a b = Some (s2[root_of s a := root_of s b])" using s1(1) s2(1) by (simp add: uf_join_def)
  moreover have "\<forall>x<n. root_of (s2[root_of s a := root_of s b]) x
      = (if root_of s x = root_of s a then root_of s b else root_of s x)"
    using j(2) s2(3) by simp
  ultimately show "\<exists>s'. uf_join s a b = Some s' \<and> forest n s'
      \<and> (\<forall>x<n. root_of s' x = (if root_of s x = root_of s a then root_of s b else root_of s x))"
    using j(1) by blast
qed

end
