(* ===== verification/Stress.thy ===== *)
theory Stress
  imports Components GoStrings "HOL-Library.Product_Lexorder"
begin

text \<open>
  The checks of a parallel workload, \<open>src/harness/parallel_scenarios.go\<close>: the index of the
  captured spans by full trace identity (\<open>stressIndex\<close>), the comparison with the ledger of
  requests (\<open>validateStress\<close>), the greatest number of overlapping intervals (\<open>overlap\<close>), and
  the proxy of \<open>runParallelScenarios\<close> that writes the ledger. Identifiers of 64 bits are
  naturals, as the code only compares them. The decoding of the capture and \<open>url.Parse\<close> are
  arguments. \<open>validateStress\<close> ranges over Go maps: \<open>order1\<close>, \<open>order2\<close> and \<open>order3\<close> stand for
  the orders in which its three loops whose course depends on the order happen to run.
\<close>

section \<open>Data\<close>

text \<open>\<open>type requestLedger\<close>\<close>

record requestLedger =
  rl_execution :: string
  rl_scenario :: string
  rl_sequence :: int
  rl_id :: string
  rl_method :: string
  rl_path :: string
  rl_status :: int
  rl_sqlCount :: int
  rl_sqlMarker :: string
  rl_incoming :: "(string, string) gomap"
  rl_start :: int
  rl_end :: int

text \<open>\<open>type stressSpan\<close>\<close>

record stressSpan =
  ss_traceID :: nat
  ss_spanID :: nat
  ss_parentID :: nat
  ss_start :: int
  ss_duration :: int
  ss_service :: string
  ss_name :: string
  ss_resource :: string
  ss_type :: string
  ss_error :: int
  ss_meta :: "(string, string) gomap"

text \<open>\<open>type stressIdentity\<close>\<close>

record stressIdentity =
  si_low :: nat
  si_high :: string
  si_span :: nat

type_synonym stressSpans = "(stressIdentity, stressSpan) gomap"

definition isDatadogServer :: "string \<Rightarrow> bool" where
  "isDatadogServer name \<longleftrightarrow> name = ''aiohttp.request'' \<or> name = ''django.request'' \<or> name = ''rack.request''
     \<or> name = ''gin.request'' \<or> name = ''http.request''"

abbreviation meta :: "stressSpan \<Rightarrow> string \<Rightarrow> string" where
  "meta span key \<equiv> go_get0 [] (ss_meta span) key"

section \<open>The index\<close>

text \<open>\<open>type intakeChunk\<close>\<close>

record intakeChunk =
  ic_spans :: "stressSpan list"
  ic_high :: string
  ic_tagged :: bool

definition zero_high :: string where
  "zero_high = ''0000000000000000''"

definition allASCIIHex :: "string \<Rightarrow> bool" where
  "allASCIIHex value = list_all is_hex value"

text \<open>One span of the loop over a chunk; \<open>first\<close> is \<open>spans[0]\<close>.\<close>

definition intakeSpan :: "unicode_tables \<Rightarrow> stressSpan \<Rightarrow> stressSpan \<Rightarrow> intakeChunk \<Rightarrow> intakeChunk result" where
  "intakeSpan U first span chunk =
     fail_if (ss_traceID span = 0 \<or> ss_spanID span = 0 \<or> ss_start span \<le> 0 \<or> ss_duration span \<le> 0)
       (Err ''invalid native span identity/timing'' [])
     (fail_if (ss_traceID span \<noteq> ss_traceID first) (Err ''conflicting chunk trace identity'' [])
       (let value = meta span ''_dd.p.tid''
        in if value = [] then Inr chunk
           else fail_if (length value \<noteq> 16 \<or> \<not> allASCIIHex value) (Err ''malformed full trace identifier'' [])
             (let value = to_lower U value
              in fail_if (ic_tagged chunk \<and> ic_high chunk \<noteq> value) (Err ''conflicting chunk trace identity'' [])
                (Inr (chunk\<lparr>ic_high := value, ic_tagged := True\<rparr>)))))"

definition intakeOf :: "unicode_tables \<Rightarrow> stressSpan list \<Rightarrow> intakeChunk result" where
  "intakeOf U spans =
     res_fold (intakeSpan U (hd spans)) spans \<lparr>ic_spans = spans, ic_high = zero_high, ic_tagged = False\<rparr>"

text \<open>The chunks of all records, in order.\<close>

definition intakeChunks :: "unicode_tables \<Rightarrow> stressSpan list list list \<Rightarrow> intakeChunk list result" where
  "intakeChunks U records = res_map (intakeOf U) (concat records)"

type_synonym nativeIDs = "(nat \<times> nat, nat) gomap"

text \<open>The first loop: a span identity seen before joins the two chunks.\<close>

definition joinSpan :: "nat \<Rightarrow> stressSpan \<Rightarrow> nativeIDs \<times> nat list \<Rightarrow> (nativeIDs \<times> nat list) option" where
  "joinSpan i span = (\<lambda>(bySpan, components).
     let key = (ss_traceID span, ss_spanID span)
     in case go_get bySpan key of
          Some other \<Rightarrow> map_option (Pair bySpan) (uf_join components i other)
        | None \<Rightarrow> Some (go_put key i bySpan, components))"

text \<open>The second loop: a parent reference joins the chunk of the parent.\<close>

definition joinParent :: "nativeIDs \<Rightarrow> nat \<Rightarrow> stressSpan \<Rightarrow> nat list \<Rightarrow> nat list option" where
  "joinParent bySpan i span components =
     (case go_get bySpan (ss_traceID span, ss_parentID span) of
        Some other \<Rightarrow> uf_join components i other
      | None \<Rightarrow> Some components)"

definition numbered :: "intakeChunk list \<Rightarrow> (nat \<times> intakeChunk) list" where
  "numbered chunks = zip [0..<length chunks] chunks"

definition joinChunks :: "intakeChunk list \<Rightarrow> nat list option" where
  "joinChunks chunks =
     Option.bind (opt_fold (\<lambda>(i, chunk). opt_fold (joinSpan i) (ic_spans chunk)) (numbered chunks)
         ([], [0..<length chunks]))
       (\<lambda>(bySpan, components).
         opt_fold (\<lambda>(i, chunk). opt_fold (joinParent bySpan i) (ic_spans chunk)) (numbered chunks) components)"

text \<open>The high bits that tagged chunks give each component: a set of strings as its list.\<close>

type_synonym componentHighs = "(nat, string list) gomap"

definition tagHigh :: "nat \<times> intakeChunk \<Rightarrow> componentHighs \<times> nat list \<Rightarrow> (componentHighs \<times> nat list) option" where
  "tagHigh = (\<lambda>(i, chunk) (highs, components).
     if ic_tagged chunk then
       map_option (\<lambda>(component, components).
           (go_put component (List.insert (ic_high chunk) (go_get0 [] highs component)) highs, components))
         (uf_find components i)
     else Some (highs, components))"

text \<open>The high bits of a chunk: its own, or those of its component.\<close>

definition chunkHigh :: "componentHighs \<Rightarrow> nat \<Rightarrow> intakeChunk \<Rightarrow> nat list \<Rightarrow> (string result \<times> nat list) option" where
  "chunkHigh highs i chunk components =
     (if ic_tagged chunk then Some (Inr (ic_high chunk), components)
      else map_option (\<lambda>(component, components).
         (let candidates = go_get0 [] highs component
          in fail_if (length candidates > 1) (Err ''ambiguous untagged chunk trace identity'' [])
               (Inr (fold (\<lambda>high _. high) candidates (ic_high chunk))), components))
        (uf_find components i))"

definition identityOf :: "string \<Rightarrow> stressSpan \<Rightarrow> stressIdentity" where
  "identityOf high span = \<lparr>si_low = ss_traceID span, si_high = high, si_span = ss_spanID span\<rparr>"

definition indexSpan :: "string \<Rightarrow> stressSpan \<Rightarrow> stressSpans \<Rightarrow> stressSpans result" where
  "indexSpan high span spans =
     (let key = identityOf high span
      in fail_if (go_get spans key \<noteq> None) (Err ''duplicate native span identity'' []) (Inr (go_put key span spans)))"

text \<open>The last loop; it returns at the first error.\<close>

fun indexChunks :: "componentHighs \<Rightarrow> (nat \<times> intakeChunk) list \<Rightarrow> nat list \<Rightarrow> stressSpans \<Rightarrow> stressSpans result option" where
  "indexChunks highs [] components spans = Some (Inr spans)"
| "indexChunks highs ((i, chunk) # rest) components spans =
     (case chunkHigh highs i chunk components of
        None \<Rightarrow> None
      | Some (high, components) \<Rightarrow>
          (case res_bind high (\<lambda>high. res_fold (indexSpan high) (ic_spans chunk) spans) of
             Inl e \<Rightarrow> Some (Inl e)
           | Inr spans \<Rightarrow> indexChunks highs rest components spans))"

definition stressIndex :: "unicode_tables \<Rightarrow> stressSpan list list list result \<Rightarrow> stressSpans result option" where
  "stressIndex U decoded =
     (case res_bind decoded (intakeChunks U) of
        Inl e \<Rightarrow> Some (Inl e)
      | Inr chunks \<Rightarrow>
          Option.bind (joinChunks chunks) (\<lambda>components.
            Option.bind (opt_fold tagHigh (numbered chunks) ([], components)) (\<lambda>(highs, components).
              indexChunks highs (numbered chunks) components [])))"

section \<open>The ledger\<close>

type_synonym requestMap = "(string, requestLedger) gomap"
type_synonym sequenceMap = "(string, int list) gomap"

definition ledgerEntry :: "requestLedger \<Rightarrow> requestMap \<times> sequenceMap \<Rightarrow> (requestMap \<times> sequenceMap) result" where
  "ledgerEntry request = (\<lambda>(requests, sequences).
     fail_if (rl_sqlCount request < 0 \<or> rl_id request = [] \<or> rl_sqlMarker request = [] \<or> rl_status request < 100
         \<or> rl_end request \<le> rl_start request)
       (Err ''incomplete request ledger'' [])
     (fail_if (go_get requests (rl_id request) \<noteq> None) (Err ''duplicate request ledger identity'' [])
       (let sequence = go_get0 [] sequences (rl_execution request)
        in fail_if (rl_sequence request \<in> set sequence) (Err ''duplicate request sequence'' [])
          (Inr (go_put (rl_id request) request requests,
                go_put (rl_execution request) (rl_sequence request # sequence) sequences)))))"

definition completeSequence :: "string \<times> int list \<Rightarrow> unit result" where
  "completeSequence = (\<lambda>(_, sequence).
     res_each (\<lambda>i. fail_if (i \<notin> set sequence) (Err ''missing request sequence'' []) (Inr ()))
       (map int [1..<Suc (length sequence)]))"

definition checkLedger :: "requestLedger list \<Rightarrow> requestMap result" where
  "checkLedger ledger =
     res_bind (res_fold ledgerEntry ledger ([], [])) (\<lambda>(requests, sequences).
       res_bind (res_each completeSequence sequences) (\<lambda>_. Inr requests))"

section \<open>Server spans\<close>

text \<open>\<open>strconv.ParseUint\<close> in base 10 and 16\<close>

definition hex_value :: "char \<Rightarrow> nat" where
  "hex_value c = (if is_digit c then byte_of c - 48 else if 97 \<le> byte_of c then byte_of c - 87 else byte_of c - 55)"

definition parse_uint :: "nat \<Rightarrow> nat \<Rightarrow> string \<Rightarrow> nat option" where
  "parse_uint base bits s =
     (if s = [] \<or> \<not> list_all (if base = 16 then is_hex else is_digit) s then None
      else let v = foldl (\<lambda>a c. base * a + hex_value c) 0 s in if v < 2 ^ bits then Some v else None)"

text \<open>The check of the caller that a request carried in, on the server span of that request.\<close>

definition checkTraceparent :: "string \<Rightarrow> stressIdentity \<Rightarrow> stressSpan \<Rightarrow> unit result" where
  "checkTraceparent remote key span =
     (let parts = split_byte (CHR ''-'') remote
      in fail_if (length parts \<noteq> 4 \<or> parts ! 0 \<noteq> ''00'' \<or> length (parts ! 1) \<noteq> 32 \<or> length (parts ! 2) \<noteq> 16
            \<or> length (parts ! 3) \<noteq> 2)
          (Err ''malformed incoming context'' [])
        (case (parse_uint 16 64 (drop 16 (parts ! 1)), parse_uint 16 64 (take 16 (parts ! 1)),
               parse_uint 16 64 (parts ! 2), parse_uint 16 8 (parts ! 3)) of
           (Some low, Some high, Some parent, Some _) \<Rightarrow>
             fail_if (low = 0 \<and> high = 0 \<or> parent = 0) (Err ''malformed incoming context'' [])
               (fail_if (si_low key \<noteq> low \<or> si_high key \<noteq> take 16 (parts ! 1) \<or> ss_parentID span \<noteq> parent)
                 (Err ''wrong propagated full trace identity or parent'' []) (Inr ()))
         | _ \<Rightarrow> Inl (Err ''malformed incoming context'' [])))"

definition checkDatadogContext :: "string \<Rightarrow> (string, string) gomap \<Rightarrow> stressIdentity \<Rightarrow> stressSpan \<Rightarrow> unit result" where
  "checkDatadogContext remote incoming key span =
     (case (parse_uint 10 64 remote, parse_uint 10 64 (go_get0 [] incoming ''x-datadog-parent-id'')) of
        (Some low, Some parent) \<Rightarrow>
          fail_if (low = 0 \<or> parent = 0) (Err ''malformed incoming Datadog context'' [])
            (fail_if (si_low key \<noteq> low \<or> ss_parentID span \<noteq> parent
                \<or> go_get0 [] incoming ''x-datadog-tags'' \<noteq> ''_dd.p.tid='' @ si_high key)
              (Err ''wrong Datadog caller identity'' []) (Inr ()))
      | _ \<Rightarrow> Inl (Err ''malformed incoming Datadog context'' []))"

definition checkCaller :: "(string, string) gomap \<Rightarrow> stressIdentity \<Rightarrow> stressSpan \<Rightarrow> unit result" where
  "checkCaller incoming key span =
     (let remote = go_get0 [] incoming ''traceparent''; remote' = go_get0 [] incoming ''x-datadog-trace-id''
      in if remote \<noteq> [] then checkTraceparent remote key span
         else if remote' \<noteq> [] then checkDatadogContext remote' incoming key span
         else fail_if (ss_parentID span \<noteq> 0) (Err ''unexpected server parent'' []) (Inr ()))"

text \<open>One server span against its request; \<open>urlPath\<close> is the path \<open>url.Parse\<close> finds, or its error.\<close>

definition checkServer :: "(string \<Rightarrow> string option) \<Rightarrow> string \<Rightarrow> requestLedger \<Rightarrow> stressIdentity \<Rightarrow> stressSpan \<Rightarrow> unit result" where
  "checkServer urlPath service request key span =
     fail_if (ss_type span \<noteq> ''web'' \<or> ss_service span \<noteq> service \<or> meta span ''http.method'' \<noteq> rl_method request
         \<or> meta span ''http.status_code'' \<noteq> itoa (rl_status request))
       (Err ''server metadata differs from request ledger'' [])
     (fail_if (ss_error span \<noteq> (if rl_status request \<ge> 500 then 1 else 0)) (Err ''wrong HTTP error classification'' [])
     (let path = meta span ''http.url''
      in fail_if (path \<noteq> [] \<and> urlPath path \<noteq> Some (hd (split_n2 (rl_path request) ''?'')))
           (Err ''server path differs from ledger'' [])
         (checkCaller (rl_incoming request) key span)))"

type_synonym serverMap = "(string, stressIdentity) gomap"

definition parentKey :: "stressIdentity \<Rightarrow> stressSpan \<Rightarrow> stressIdentity" where
  "parentKey key span = key\<lparr>si_span := ss_parentID span\<rparr>"

definition request_id_key :: string where
  "request_id_key = ''rules_stests.request_id''"

definition serverSpan :: "(string \<Rightarrow> string option) \<Rightarrow> string \<Rightarrow> stressSpans \<Rightarrow> requestMap
    \<Rightarrow> stressIdentity \<times> stressSpan \<Rightarrow> serverMap \<Rightarrow> serverMap result" where
  "serverSpan urlPath service spans requests = (\<lambda>(key, span) servers.
     if \<not> isDatadogServer (ss_name span) then Inr servers
     else fail_if (go_get spans (parentKey key span) \<noteq> None) (Err ''workload server parent belongs to capture'' [])
       (let rid = meta span request_id_key
        in case go_get requests rid of
             None \<Rightarrow> Inl (Err ''unexpected workload server span %q'' [rid])
           | Some request \<Rightarrow>
               fail_if (go_get servers rid \<noteq> None) (Err ''duplicate server span for request'' [])
                 (res_bind (checkServer urlPath service request key span) (\<lambda>_. Inr (go_put rid key servers)))))"

section \<open>Owners\<close>

type_synonym ownerMap = "(stressIdentity, string) gomap"

text \<open>
  The closure \<open>owner\<close>: the request of the server span at the end of the chain of parents, or an
  error. Owners found are remembered, and a chain may visit at most 64 spans before it meets a
  remembered owner or a server.
\<close>

function owner :: "stressSpans \<Rightarrow> stressIdentity list \<Rightarrow> stressIdentity \<Rightarrow> ownerMap \<Rightarrow> (string \<times> ownerMap) result" where
  "owner spans visiting key owners =
     (if go_get0 [] owners key \<noteq> [] then Inr (go_get0 [] owners key, owners)
      else if key \<in> set visiting \<or> length visiting > 64 then Inl (Err ''cyclic/deep workload graph'' [])
      else case go_get spans key of
             None \<Rightarrow> Inl (Err ''missing parent span'' [])
           | Some span \<Rightarrow>
               if isDatadogServer (ss_name span) then
                 (let rid = meta span request_id_key in Inr (rid, go_put key rid owners))
               else fail_if (ss_parentID span = 0) (Err ''unexpected workload root'' [])
                 (res_bind (owner spans (key # visiting) (parentKey key span) owners)
                   (\<lambda>(rid, owners). Inr (rid, go_put key rid owners))))"
  by pat_completeness auto
termination owner by (relation "measure (\<lambda>(_, visiting, _, _). 65 - length visiting)") auto

declare owner.simps [simp del]

text \<open>\<open>strings.Count\<close> of a substring that is not empty\<close>

function str_count :: "string \<Rightarrow> string \<Rightarrow> nat" where
  "str_count s sub =
     (if sub = [] then 0
      else case str_cut s sub of None \<Rightarrow> 0 | Some (a, b) \<Rightarrow> Suc (str_count b sub))"
  by pat_completeness auto
termination str_count by (relation "measure (\<lambda>(s, _). length s)") (auto dest: cut_rest_length)

declare str_count.simps [simp del]

definition request_marker :: string where
  "request_marker = ''rules_stests_request=''"

text \<open>The marker of a SQL span.\<close>

definition lifecycleSpan :: "stressSpan \<Rightarrow> bool" where
  "lifecycleSpan span \<longleftrightarrow> ss_name span = ''sqlite3.query'' \<and> meta span ''component'' = ''database/sql''
     \<and> (ss_resource span = ''Begin'' \<or> ss_resource span = ''Commit'' \<or> ss_resource span = ''Rollback'')
     \<and> meta span ''sql.query_type'' = ss_resource span"

definition checkMarker :: "string \<Rightarrow> requestLedger \<Rightarrow> stressSpan \<Rightarrow> unit result" where
  "checkMarker rid request span =
     (let marker = ''/* '' @ request_marker @ rid @ ''; marker='' @ rl_sqlMarker request @ '' */''
      in if lifecycleSpan span then
           fail_if (meta span request_id_key \<noteq> rid \<or> meta span ''rules_stests.sql_marker'' \<noteq> rl_sqlMarker request)
             (Err ''crossed or missing SQL lifecycle marker'' []) (Inr ())
         else fail_if (str_count (ss_resource span) request_marker \<noteq> 1 \<or> \<not> contains (ss_resource span) marker)
             (Err ''crossed or missing SQL request marker'' []) (Inr ()))"

definition zero_request :: requestLedger where
  "zero_request = \<lparr>rl_execution = [], rl_scenario = [], rl_sequence = 0, rl_id = [], rl_method = [], rl_path = [],
     rl_status = 0, rl_sqlCount = 0, rl_sqlMarker = [], rl_incoming = [], rl_start = 0, rl_end = 0\<rparr>"

definition ownedSpan :: "stressSpans \<Rightarrow> requestMap \<Rightarrow> stressIdentity \<times> stressSpan
    \<Rightarrow> ownerMap \<times> (string, int) gomap \<Rightarrow> (ownerMap \<times> (string, int) gomap) result" where
  "ownedSpan spans requests = (\<lambda>(key, span) (owners, sqlCounts).
     res_bind (owner spans [] key owners) (\<lambda>(rid, owners).
       if ss_type span \<noteq> ''sql'' then Inr (owners, sqlCounts)
       else res_bind (checkMarker rid (go_get0 zero_request requests rid) span) (\<lambda>_.
         Inr (owners, go_put rid (add64 (go_get0 0 sqlCounts rid) 1) sqlCounts))))"

section \<open>Overlap\<close>

text \<open>\<open>type event\<close> is the pair of its time and its delta; the order of \<open>sort.Slice\<close> is the
  lexicographic one, so equal events are the same.\<close>

definition eventsOf :: "(int \<times> int) list \<Rightarrow> (int \<times> int) list" where
  "eventsOf intervals = concat (map (\<lambda>(start, end). [(start, 1), (end, - 1)]) intervals)"

fun overlapScan :: "(int \<times> int) list \<Rightarrow> int \<Rightarrow> int \<Rightarrow> int" where
  "overlapScan [] active peak = peak"
| "overlapScan ((_, delta) # events) active peak =
     (let active = active + delta in overlapScan events active (if active > peak then active else peak))"

definition overlap :: "(int \<times> int) list \<Rightarrow> int" where
  "overlap intervals = overlapScan (sort (eventsOf intervals)) 0 0"

section \<open>Validation\<close>

definition checkCounts :: "(string, int) gomap \<Rightarrow> string \<times> requestLedger \<Rightarrow> unit result" where
  "checkCounts sqlCounts = (\<lambda>(rid, request).
     fail_if (go_get0 0 sqlCounts rid \<noteq> rl_sqlCount request)
       (Err ''lost or extra SQL spans: request %s executed %d queries, captured %d''
         [rid, itoa (rl_sqlCount request), itoa (go_get0 0 sqlCounts rid)])
       (Inr ()))"

definition zero_span :: stressSpan where
  "zero_span = \<lparr>ss_traceID = 0, ss_spanID = 0, ss_parentID = 0, ss_start = 0, ss_duration = 0, ss_service = [],
     ss_name = [], ss_resource = [], ss_type = [], ss_error = 0, ss_meta = []\<rparr>"

definition serverInterval :: "stressSpans \<Rightarrow> string \<times> stressIdentity \<Rightarrow> int \<times> int" where
  "serverInterval spans = (\<lambda>(_, key).
     let span = go_get0 zero_span spans key in (ss_start span, add64 (ss_start span) (ss_duration span)))"

text \<open>What follows the index.\<close>

definition validateSpans :: "(stressSpans \<Rightarrow> stressSpans) \<Rightarrow> (stressSpans \<Rightarrow> stressSpans) \<Rightarrow> (requestMap \<Rightarrow> requestMap)
    \<Rightarrow> (string \<Rightarrow> string option) \<Rightarrow> stressSpans \<Rightarrow> requestLedger list \<Rightarrow> string \<Rightarrow> unit result" where
  "validateSpans order1 order2 order3 urlPath spans ledger service =
     res_bind (checkLedger ledger) (\<lambda>requests.
     res_bind (res_fold (serverSpan urlPath service spans requests) (order1 spans) []) (\<lambda>servers.
     fail_if (length servers \<noteq> length requests \<or> length requests = 0)
       (Err ''missing workload server requests: captured %d, ledger %d''
         [itoa (int (length servers)), itoa (int (length requests))])
     (res_bind (res_fold (ownedSpan spans requests) (order2 spans) ([], [])) (\<lambda>(_, sqlCounts).
     res_bind (res_each (checkCounts sqlCounts) (order3 requests)) (\<lambda>_.
     fail_if (overlap (map (serverInterval spans) servers) < 2) (Err ''native server spans do not overlap'' [])
       (Inr ()))))))"

definition validateStress :: "(stressSpans \<Rightarrow> stressSpans) \<Rightarrow> (stressSpans \<Rightarrow> stressSpans) \<Rightarrow> (requestMap \<Rightarrow> requestMap)
    \<Rightarrow> (string \<Rightarrow> string option) \<Rightarrow> unicode_tables \<Rightarrow> stressSpan list list list result \<Rightarrow> requestLedger list \<Rightarrow> string
    \<Rightarrow> unit result option" where
  "validateStress order1 order2 order3 urlPath U decoded ledger service =
     map_option (\<lambda>index. res_bind index (\<lambda>spans. validateSpans order1 order2 order3 urlPath spans ledger service))
       (stressIndex U decoded)"

end
