(* ===== verification/StressIndex.thy ===== *)
theory StressIndex
  imports Stress
begin

text \<open>
  What \<open>stressIndex\<close> computes: the reference is the relation of chunks that share a span identity
  or refer to each other's spans as parents; chunks connected by it share the high bits of the
  trace identity. The index always returns, and it is the reference or an error.
\<close>

section \<open>Reference\<close>

text \<open>What a chunk of one trace must be, and what is kept of it.\<close>

definition tags_of :: "unicode_tables \<Rightarrow> stressSpan list \<Rightarrow> string list" where
  "tags_of U spans = map (to_lower U) (filter (\<lambda>v. v \<noteq> []) (map (\<lambda>s. meta s ''_dd.p.tid'') spans))"

definition span_ok :: "stressSpan \<Rightarrow> stressSpan \<Rightarrow> bool" where
  "span_ok first s \<longleftrightarrow> ss_traceID s \<noteq> 0 \<and> ss_spanID s \<noteq> 0 \<and> 0 < ss_start s \<and> 0 < ss_duration s
     \<and> ss_traceID s = ss_traceID first
     \<and> (meta s ''_dd.p.tid'' = [] \<or> length (meta s ''_dd.p.tid'') = 16 \<and> allASCIIHex (meta s ''_dd.p.tid''))"

definition intake_spec :: "unicode_tables \<Rightarrow> stressSpan list \<Rightarrow> intakeChunk \<Rightarrow> bool" where
  "intake_spec U spans chunk \<longleftrightarrow> list_all (span_ok (hd spans)) spans \<and> ic_spans chunk = spans
     \<and> (ic_tagged chunk \<longleftrightarrow> tags_of U spans \<noteq> [])
     \<and> (if ic_tagged chunk then set (tags_of U spans) = {ic_high chunk} else ic_high chunk = zero_high)"

definition linked :: "intakeChunk list \<Rightarrow> (nat \<times> nat) set" where
  "linked chunks = {(i, j). i < length chunks \<and> j < length chunks
     \<and> (\<exists>s \<in> set (ic_spans (chunks ! i)). \<exists>t \<in> set (ic_spans (chunks ! j)).
          ss_traceID s = ss_traceID t \<and> (ss_spanID s = ss_spanID t \<or> ss_parentID s = ss_spanID t))}"

definition component_tags :: "intakeChunk list \<Rightarrow> nat \<Rightarrow> string set" where
  "component_tags chunks i = {ic_high (chunks ! j) | j. j < length chunks \<and> ic_tagged (chunks ! j)
     \<and> (i, j) \<in> connected (linked chunks)}"

text \<open>The high bits of chunk \<open>i\<close> are \<open>h\<close>.\<close>

definition high_of :: "intakeChunk list \<Rightarrow> nat \<Rightarrow> string \<Rightarrow> bool" where
  "high_of chunks i h \<longleftrightarrow>
     (if ic_tagged (chunks ! i) then h = ic_high (chunks ! i)
      else if component_tags chunks i = {} then h = zero_high
      else component_tags chunks i = {h})"

definition entries :: "intakeChunk list \<Rightarrow> string list \<Rightarrow> stressSpans" where
  "entries chunks highs =
     concat (map2 (\<lambda>chunk h. map (\<lambda>s. (identityOf h s, s)) (ic_spans chunk)) chunks highs)"

definition index_spec :: "unicode_tables \<Rightarrow> stressSpan list list list \<Rightarrow> stressSpans \<Rightarrow> bool" where
  "index_spec U records spans \<longleftrightarrow> (\<exists>chunks highs. list_all2 (intake_spec U) (concat records) chunks
     \<and> list_all2 (high_of chunks) [0..<length chunks] highs
     \<and> spans = entries chunks highs \<and> go_map spans)"

section \<open>Chunks\<close>

lemma tags_of_simps [simp]:
  "tags_of U [] = []"
  "tags_of U (xs @ [s]) = (if meta s ''_dd.p.tid'' = [] then tags_of U xs
     else tags_of U xs @ [to_lower U (meta s ''_dd.p.tid'')])"
  by (simp_all add: tags_of_def)

definition intake_state :: "unicode_tables \<Rightarrow> stressSpan list \<Rightarrow> intakeChunk \<Rightarrow> stressSpan list \<Rightarrow> bool" where
  "intake_state U spans chunk before \<longleftrightarrow> list_all (span_ok (hd spans)) before \<and> ic_spans chunk = spans
     \<and> (ic_tagged chunk \<longleftrightarrow> tags_of U before \<noteq> [])
     \<and> (if ic_tagged chunk then set (tags_of U before) = {ic_high chunk} else ic_high chunk = zero_high)"

lemma intake_state_Nil:
  "intake_state U spans \<lparr>ic_spans = spans, ic_high = zero_high, ic_tagged = False\<rparr> []"
  by (simp add: intake_state_def)

lemma intake_step:
  assumes "intake_state U spans chunk before"
  shows "intakeSpan U (hd spans) s chunk = Inr chunk' \<longleftrightarrow> intake_state U spans chunk' (before @ [s])"
proof -
  let ?v = "meta s ''_dd.p.tid''"
  note st = assms [unfolded intake_state_def]
  show ?thesis
  proof (cases "?v = []")
    case True
    then show ?thesis using st
      by (cases chunk; cases chunk') (auto simp: intakeSpan_def fail_if_def span_ok_def intake_state_def split: if_splits)
  next
    case False
    then show ?thesis using st
      by (cases chunk; cases chunk')
        (auto simp: intakeSpan_def fail_if_def span_ok_def intake_state_def Let_def split: if_splits)
  qed
qed

lemma intake_state_unique:
  assumes "intake_state U spans chunk before" "intake_state U spans chunk' before"
  shows "chunk = chunk'"
proof -
  from assms have eq: "ic_spans chunk = ic_spans chunk'" "ic_tagged chunk = ic_tagged chunk'"
    by (simp_all only: intake_state_def)
  have "ic_high chunk = ic_high chunk'"
  proof (cases "ic_tagged chunk")
    case True
    with assms eq(2) have "{ic_high chunk} = {ic_high chunk'}" by (simp only: intake_state_def if_True)
    then show ?thesis by simp
  next
    case False
    with eq(2) have "\<not> ic_tagged chunk'" by simp
    with assms False show ?thesis unfolding intake_state_def by (simp only: if_False)
  qed
  with eq show ?thesis by (cases chunk; cases chunk') simp
qed

lemma intake_fold:
  "intake_state U spans chunk before
    \<Longrightarrow> res_fold (intakeSpan U (hd spans)) after chunk = Inr chunk' \<longleftrightarrow> intake_state U spans chunk' (before @ after)"
proof (induction after arbitrary: chunk before)
  case Nil
  then have "chunk = chunk' \<longleftrightarrow> intake_state U spans chunk' before" using intake_state_unique by blast
  then show ?case by simp
next
  case (Cons s after)
  have "(\<exists>c. intakeSpan U (hd spans) s chunk = Inr c \<and> res_fold (intakeSpan U (hd spans)) after c = Inr chunk')
      \<longleftrightarrow> (\<exists>c. intake_state U spans c (before @ [s]) \<and> intake_state U spans chunk' ((before @ [s]) @ after))"
    using intake_step [OF Cons.prems] Cons.IH [of _ "before @ [s]"] by blast
  moreover have "\<exists>c. intake_state U spans c (before @ [s])" if "intake_state U spans chunk' ((before @ [s]) @ after)"
  proof -
    let ?T = "tags_of U (before @ [s])"
    have "tags_of U ((before @ [s]) @ after) = ?T @ tags_of U after" by (simp add: tags_of_def)
    with that have "set ?T \<subseteq> {ic_high chunk'} \<or> ?T = []" "list_all (span_ok (hd spans)) (before @ [s])"
      by (auto simp: intake_state_def split: if_splits)
    then have "intake_state U spans
        \<lparr>ic_spans = spans, ic_high = (if ?T = [] then zero_high else ic_high chunk'), ic_tagged = ?T \<noteq> []\<rparr> (before @ [s])"
      by (cases ?T) (auto simp: intake_state_def simp del: tags_of_simps)
    then show ?thesis by blast
  qed
  ultimately show ?case by (auto simp: res_bind_Inr_iff)
qed

lemma intakeOf_iff: "intakeOf U spans = Inr chunk \<longleftrightarrow> intake_spec U spans chunk"
  using intake_fold [OF intake_state_Nil] by (simp add: intakeOf_def intake_spec_def intake_state_def)

lemma intakeChunks_iff: "intakeChunks U records = Inr chunks \<longleftrightarrow> list_all2 (intake_spec U) (concat records) chunks"
  by (simp add: intakeChunks_def res_map_Inr_iff intakeOf_iff)

lemma intake_untagged: "intake_spec U spans chunk \<Longrightarrow> \<not> ic_tagged chunk \<Longrightarrow> ic_high chunk = zero_high"
  by (simp add: intake_spec_def)

section \<open>Components\<close>

text \<open>The spans of all chunks, each with the number of its chunk.\<close>

definition placed :: "intakeChunk list \<Rightarrow> ((nat \<times> intakeChunk) \<times> stressSpan) list" where
  "placed chunks = concat (map (\<lambda>x. map (Pair x) (ic_spans (snd x))) (numbered chunks))"

lemma numbered_set: "(i, c) \<in> set (numbered chunks) \<longleftrightarrow> i < length chunks \<and> c = chunks ! i"
  unfolding numbered_def in_set_zip by auto (metis add_0 nth_upt)

lemma placed_set:
  "((i, c), s) \<in> set (placed chunks) \<longleftrightarrow> i < length chunks \<and> c = chunks ! i \<and> s \<in> set (ic_spans (chunks ! i))"
  unfolding placed_def by (force simp: numbered_set)

abbreviation native :: "stressSpan \<Rightarrow> nat \<times> nat" where
  "native s \<equiv> (ss_traceID s, ss_spanID s)"

abbreviation native_parent :: "stressSpan \<Rightarrow> nat \<times> nat" where
  "native_parent s \<equiv> (ss_traceID s, ss_parentID s)"

text \<open>After the spans \<open>before\<close>: each span identity has the first chunk that holds it, and the
  chunks of a span identity are together.\<close>

definition first_pass :: "intakeChunk list \<Rightarrow> ((nat \<times> intakeChunk) \<times> stressSpan) list \<Rightarrow> nativeIDs \<Rightarrow> (nat \<times> nat) set \<Rightarrow> bool" where
  "first_pass chunks before bySpan R \<longleftrightarrow>
     (\<forall>key j. go_get bySpan key = Some j \<longrightarrow> (\<exists>c t. ((j, c), t) \<in> set before \<and> native t = key))
     \<and> (\<forall>i c t. ((i, c), t) \<in> set before \<longrightarrow> (\<exists>j. go_get bySpan (native t) = Some j \<and> (i, j) \<in> connected R))
     \<and> R \<subseteq> linked chunks"

lemma connected_mono: "(x, y) \<in> connected R \<Longrightarrow> (x, y) \<in> connected (insert e R)"
proof -
  have "R \<subseteq> connected (insert e R)" by (auto intro: connected_edge)
  then show "(x, y) \<in> connected R \<Longrightarrow> (x, y) \<in> connected (insert e R)" using connected_subset by blast
qed

lemma linked_same:
  "((i, c), s) \<in> set (placed chunks) \<Longrightarrow> ((j, d), t) \<in> set (placed chunks) \<Longrightarrow> native s = native t
    \<Longrightarrow> (i, j) \<in> linked chunks"
  unfolding placed_set linked_def by auto

lemma linked_parent:
  "((i, c), s) \<in> set (placed chunks) \<Longrightarrow> ((j, d), t) \<in> set (placed chunks) \<Longrightarrow> native_parent s = native t
    \<Longrightarrow> (i, j) \<in> linked chunks"
  unfolding placed_set linked_def by auto

lemma linked_range: "linked chunks \<subseteq> {..<length chunks} \<times> {..<length chunks}"
  by (auto simp: linked_def)

lemma first_pass_step:
  assumes all: "placed chunks = before @ ((i, c), s) # after"
    and f: "first_pass chunks before bySpan R" and p: "uf.parts (length chunks) R components"
  shows "\<exists>bySpan' components' R'. joinSpan i s (bySpan, components) = Some (bySpan', components')
    \<and> uf.parts (length chunks) R' components' \<and> first_pass chunks (before @ [((i, c), s)]) bySpan' R'"
proof -
  have here: "((i, c), s) \<in> set (placed chunks)" by (simp add: all)
  have sub: "set before \<subseteq> set (placed chunks)" by (auto simp: all)
  from f have owner: "\<And>key j. go_get bySpan key = Some j \<Longrightarrow> \<exists>c t. ((j, c), t) \<in> set before \<and> native t = key"
    and kept: "\<And>i c t. ((i, c), t) \<in> set before \<Longrightarrow> \<exists>j. go_get bySpan (native t) = Some j \<and> (i, j) \<in> connected R"
    and R: "R \<subseteq> linked chunks"
    unfolding first_pass_def by blast+
  show ?thesis
  proof (cases "go_get bySpan (native s)")
    case None
    let ?b = "go_put (native s) i bySpan"
    have "first_pass chunks (before @ [((i, c), s)]) ?b R"
      unfolding first_pass_def
    proof (intro conjI allI impI)
      fix key j assume "go_get ?b key = Some j"
      then show "\<exists>d t. ((j, d), t) \<in> set (before @ [((i, c), s)]) \<and> native t = key"
        using owner [of key j] by (cases "key = native s") (auto simp: go_get_put)
    next
      fix j d t assume "((j, d), t) \<in> set (before @ [((i, c), s)])"
      then consider "((j, d), t) \<in> set before" | "j = i" "t = s" by auto
      then show "\<exists>k. go_get ?b (native t) = Some k \<and> (j, k) \<in> connected R"
      proof cases
        case 1
        with kept [OF 1] None show ?thesis by (cases "native t = native s") (auto simp: go_get_put)
      qed (simp add: go_get_put)
    qed (rule R)
    moreover have "joinSpan i s (bySpan, components) = Some (?b, components)"
      using None by (simp add: joinSpan_def)
    ultimately show ?thesis using p by blast
  next
    case (Some other)
    obtain d t where t: "((other, d), t) \<in> set before" "native t = native s" using owner [OF Some] by blast
    have t': "((other, d), t) \<in> set (placed chunks)" using t(1) sub by blast
    have io: "i < length chunks" "other < length chunks" using here t' by (simp_all add: placed_set)
    let ?R = "insert (i, other) R"
    obtain components' where j: "uf_join components i other = Some components'"
        "uf.parts (length chunks) ?R components'"
      using uf.parts_join [OF p io] by blast
    have "(i, other) \<in> linked chunks" using linked_same [OF here t'] t(2) by simp
    with R have R': "?R \<subseteq> linked chunks" by simp
    have "first_pass chunks (before @ [((i, c), s)]) bySpan ?R"
      unfolding first_pass_def
    proof (intro conjI allI impI)
      fix key j assume "go_get bySpan key = Some j"
      then show "\<exists>d t. ((j, d), t) \<in> set (before @ [((i, c), s)]) \<and> native t = key"
        using owner [of key j] by auto
    next
      fix j d t assume "((j, d), t) \<in> set (before @ [((i, c), s)])"
      then consider "((j, d), t) \<in> set before" | "j = i" "t = s" by auto
      then show "\<exists>k. go_get bySpan (native t) = Some k \<and> (j, k) \<in> connected ?R"
      proof cases
        case 1
        with kept [OF 1] show ?thesis using connected_mono by blast
      next
        case 2
        with Some show ?thesis by (simp add: connected_edge)
      qed
    qed (rule R')
    with j Some show ?thesis by (auto simp: joinSpan_def)
  qed
qed

definition second_pass :: "nativeIDs \<Rightarrow> ((nat \<times> intakeChunk) \<times> stressSpan) list \<Rightarrow> (nat \<times> nat) set \<Rightarrow> bool" where
  "second_pass bySpan before R \<longleftrightarrow>
     (\<forall>i c s j. ((i, c), s) \<in> set before \<longrightarrow> go_get bySpan (native_parent s) = Some j \<longrightarrow> (i, j) \<in> connected R)"

lemma first_pass_insert:
  "first_pass chunks before bySpan R \<Longrightarrow> e \<in> linked chunks \<Longrightarrow> first_pass chunks before bySpan (insert e R)"
  unfolding first_pass_def using connected_mono by (metis (no_types, lifting) insert_subset)

lemma second_pass_step:
  assumes all: "placed chunks = before @ ((i, c), s) # after"
    and f: "first_pass chunks (placed chunks) bySpan R" and g: "second_pass bySpan before R"
    and p: "uf.parts (length chunks) R components"
  shows "\<exists>components' R'. joinParent bySpan i s components = Some components'
    \<and> uf.parts (length chunks) R' components' \<and> first_pass chunks (placed chunks) bySpan R'
    \<and> second_pass bySpan (before @ [((i, c), s)]) R'"
proof (cases "go_get bySpan (native_parent s)")
  case None
  with f g p show ?thesis by (auto simp: joinParent_def second_pass_def)
next
  case (Some other)
  have here: "((i, c), s) \<in> set (placed chunks)" by (simp add: all)
  obtain d t where t: "((other, d), t) \<in> set (placed chunks)" "native t = native_parent s"
    using f Some unfolding first_pass_def by blast
  have io: "i < length chunks" "other < length chunks" using here t(1) by (simp_all add: placed_set)
  let ?R = "insert (i, other) R"
  obtain components' where j: "uf_join components i other = Some components'" "uf.parts (length chunks) ?R components'"
    using uf.parts_join [OF p io] by blast
  have "(i, other) \<in> linked chunks" using linked_parent [OF here t(1)] t(2) by simp
  then have "first_pass chunks (placed chunks) bySpan ?R" by (rule first_pass_insert [OF f])
  moreover have "second_pass bySpan (before @ [((i, c), s)]) ?R"
    unfolding second_pass_def
  proof (intro allI impI)
    fix j d t k assume a: "((j, d), t) \<in> set (before @ [((i, c), s)])" "go_get bySpan (native_parent t) = Some k"
    from a(1) consider "((j, d), t) \<in> set before" | "j = i" "t = s" by auto
    then show "(j, k) \<in> connected ?R"
    proof cases
      case 1
      with g a(2) have "(j, k) \<in> connected R" unfolding second_pass_def by blast
      then show ?thesis by (rule connected_mono)
    next
      case 2
      with Some a(2) show ?thesis by (simp add: connected_edge)
    qed
  qed
  ultimately show ?thesis using j Some by (auto simp: joinParent_def)
qed

lemma passes_complete:
  assumes f: "first_pass chunks (placed chunks) bySpan R" and g: "second_pass bySpan (placed chunks) R"
  shows "connected R = connected (linked chunks)"
proof
  show "connected R \<subseteq> connected (linked chunks)"
    using f by (intro connected_subset) (auto simp: first_pass_def intro: connected_edge)
  show "connected (linked chunks) \<subseteq> connected R"
  proof (rule connected_subset, rule subsetI)
    fix e assume e: "e \<in> linked chunks"
    then obtain i j where ij: "e = (i, j)" "(i, j) \<in> linked chunks" by (cases e) auto
    then obtain s t where s: "((i, chunks ! i), s) \<in> set (placed chunks)" and t: "((j, chunks ! j), t) \<in> set (placed chunks)"
      and st: "native s = native t \<or> native_parent s = native t"
      unfolding linked_def placed_set by auto
    have kept: "\<exists>k. go_get bySpan (native t) = Some k \<and> (i, k) \<in> connected R"
      if "((i, c), t) \<in> set (placed chunks)" for i c t
      using f that unfolding first_pass_def by blast
    obtain k where k: "go_get bySpan (native t) = Some k" "(j, k) \<in> connected R" using kept [OF t] by blast
    from st have "(i, k) \<in> connected R"
    proof
      assume "native s = native t"
      with kept [OF s] k(1) show ?thesis by auto
    next
      assume "native_parent s = native t"
      with k(1) have "go_get bySpan (native_parent s) = Some k" by simp
      with g s show ?thesis unfolding second_pass_def by blast
    qed
    with k(2) ij(1) show "e \<in> connected R" using connected_sym connected_trans by blast
  qed
qed

lemma joinChunks_returns:
  "\<exists>components. joinChunks chunks = Some components \<and> uf.parts (length chunks) (linked chunks) components"
proof -
  let ?n = "length chunks"
  have nest1: "opt_fold (\<lambda>(i, chunk). opt_fold (joinSpan i) (ic_spans chunk)) (numbered chunks) st
      = opt_fold (\<lambda>(x, s). joinSpan (fst x) s) (placed chunks) st" for st
    using opt_fold_nested [of "\<lambda>x. joinSpan (fst x)" "\<lambda>x. ic_spans (snd x)" "numbered chunks" st]
    by (simp add: placed_def split_def)
  have nest2: "opt_fold (\<lambda>(i, chunk). opt_fold (joinParent b i) (ic_spans chunk)) (numbered chunks) st
      = opt_fold (\<lambda>(x, s). joinParent b (fst x) s) (placed chunks) st" for b st
    using opt_fold_nested [of "\<lambda>x. joinParent b (fst x)" "\<lambda>x. ic_spans (snd x)" "numbered chunks" st]
    by (simp add: placed_def split_def)
  let ?I = "\<lambda>before st. \<exists>R. uf.parts ?n R (snd st) \<and> first_pass chunks before (fst st) R"
  have "\<exists>st. opt_fold (\<lambda>(x, s). joinSpan (fst x) s) (placed chunks) ([], [0..<?n]) = Some st \<and> ?I (placed chunks) st"
  proof (rule opt_fold_invariant [where I = ?I])
    show "?I [] ([], [0..<?n])" using uf.parts_start [of ?n] by (auto simp: first_pass_def)
  next
    fix before x after u
    assume a: "placed chunks = before @ x # after" "?I before u"
    obtain i c s where x: "x = ((i, c), s)" by (cases x) auto
    show "\<exists>v. (\<lambda>(x, s). joinSpan (fst x) s) x u = Some v \<and> ?I (before @ [x]) v"
      using a(2) first_pass_step [OF a(1) [unfolded x]] x by (cases u) fastforce
  qed
  then obtain bySpan components R where 1: "opt_fold (\<lambda>(x, s). joinSpan (fst x) s) (placed chunks) ([], [0..<?n]) = Some (bySpan, components)"
    "uf.parts ?n R components" "first_pass chunks (placed chunks) bySpan R"
    by auto
  let ?J = "\<lambda>before c. \<exists>R. uf.parts ?n R c \<and> first_pass chunks (placed chunks) bySpan R \<and> second_pass bySpan before R"
  have "\<exists>c. opt_fold (\<lambda>(x, s). joinParent bySpan (fst x) s) (placed chunks) components = Some c \<and> ?J (placed chunks) c"
  proof (rule opt_fold_invariant [where I = ?J])
    show "?J [] components" using 1 by (auto simp: second_pass_def)
  next
    fix before x after u
    assume a: "placed chunks = before @ x # after" "?J before u"
    obtain i c s where x: "x = ((i, c), s)" by (cases x) auto
    show "\<exists>v. (\<lambda>(x, s). joinParent bySpan (fst x) s) x u = Some v \<and> ?J (before @ [x]) v"
      using a(2) second_pass_step [OF a(1) [unfolded x]] x by fastforce
  qed
  then obtain c R' where 2: "opt_fold (\<lambda>(x, s). joinParent bySpan (fst x) s) (placed chunks) components = Some c"
    "uf.parts ?n R' c" "connected R' = connected (linked chunks)"
    using passes_complete by blast
  have "uf.parts ?n (linked chunks) c" using 2(2,3) linked_range by (simp add: uf.parts_def)
  with 1(1) 2(1) show ?thesis by (simp add: joinChunks_def nest1 nest2)
qed

section \<open>High bits\<close>

text \<open>Components that only \<open>find\<close> has touched since \<open>c0\<close>.\<close>

definition same_parts :: "intakeChunk list \<Rightarrow> nat list \<Rightarrow> nat list \<Rightarrow> bool" where
  "same_parts chunks c0 c \<longleftrightarrow> uf.parts (length chunks) (linked chunks) c
     \<and> (\<forall>x<length chunks. root_of c x = root_of c0 x)"

lemma same_parts_find:
  "same_parts chunks c0 c \<Longrightarrow> i < length chunks
    \<Longrightarrow> \<exists>c'. uf_find c i = Some (root_of c0 i, c') \<and> same_parts chunks c0 c'"
  using uf.parts_find [of "length chunks" "linked chunks" c i] by (fastforce simp: same_parts_def)

definition tags_under :: "nat list \<Rightarrow> (nat \<times> intakeChunk) list \<Rightarrow> nat \<Rightarrow> string set" where
  "tags_under c0 before k = {ic_high c | i c. (i, c) \<in> set before \<and> ic_tagged c \<and> root_of c0 i = k}"

lemma tags_under_simps:
  "tags_under c0 [] k = {}"
  "tags_under c0 (before @ [(i, c)]) k
    = tags_under c0 before k \<union> (if ic_tagged c \<and> root_of c0 i = k then {ic_high c} else {})"
  by (auto simp: tags_under_def)

definition highs_ok :: "nat list \<Rightarrow> (nat \<times> intakeChunk) list \<Rightarrow> componentHighs \<Rightarrow> bool" where
  "highs_ok c0 before highs \<longleftrightarrow>
     (\<forall>k. distinct (go_get0 [] highs k) \<and> set (go_get0 [] highs k) = tags_under c0 before k)"

lemma tagHigh_step:
  assumes "numbered chunks = before @ (i, c) # after" and "same_parts chunks c0 comps" "highs_ok c0 before highs"
  shows "\<exists>highs' comps'. tagHigh (i, c) (highs, comps) = Some (highs', comps')
    \<and> same_parts chunks c0 comps' \<and> highs_ok c0 (before @ [(i, c)]) highs'"
proof (cases "ic_tagged c")
  case False
  with assms show ?thesis by (simp add: tagHigh_def highs_ok_def tags_under_simps)
next
  case True
  have "(i, c) \<in> set (numbered chunks)" using assms(1) by simp
  then have i: "i < length chunks" by (simp add: numbered_set)
  obtain comps' where c': "uf_find comps i = Some (root_of c0 i, comps')" "same_parts chunks c0 comps'"
    using same_parts_find [OF assms(2) i] by blast
  let ?k = "root_of c0 i"
  have "highs_ok c0 (before @ [(i, c)]) (go_put ?k (List.insert (ic_high c) (go_get0 [] highs ?k)) highs)"
    unfolding highs_ok_def
  proof
    fix k
    from assms(3) have "distinct (go_get0 [] highs k)" "set (go_get0 [] highs k) = tags_under c0 before k"
      by (auto simp: highs_ok_def)
    then show "distinct (go_get0 [] (go_put ?k (List.insert (ic_high c) (go_get0 [] highs ?k)) highs) k)
      \<and> set (go_get0 [] (go_put ?k (List.insert (ic_high c) (go_get0 [] highs ?k)) highs) k)
        = tags_under c0 (before @ [(i, c)]) k"
      using True by (auto simp: tags_under_simps)
  qed
  with c' True show ?thesis by (simp add: tagHigh_def)
qed

lemma tagHigh_returns:
  assumes "same_parts chunks c0 c0"
  shows "\<exists>highs comps. opt_fold tagHigh (numbered chunks) ([], c0) = Some (highs, comps)
    \<and> same_parts chunks c0 comps \<and> highs_ok c0 (numbered chunks) highs"
proof -
  let ?I = "\<lambda>before st. same_parts chunks c0 (snd st) \<and> highs_ok c0 before (fst st)"
  have "\<exists>st. opt_fold tagHigh (numbered chunks) ([], c0) = Some st \<and> ?I (numbered chunks) st"
  proof (rule opt_fold_invariant [where I = ?I])
    show "?I [] ([], c0)" using assms by (simp add: highs_ok_def tags_under_simps go_get0_def)
  next
    fix before x after u
    assume a: "numbered chunks = before @ x # after" "?I before u"
    obtain i c where x: "x = (i, c)" by (cases x)
    show "\<exists>v. tagHigh x u = Some v \<and> ?I (before @ [x]) v"
      using tagHigh_step [OF a(1) [unfolded x], of c0 "snd u" "fst u"] a(2) x by auto
  qed
  then show ?thesis by auto
qed

lemma tags_under_component:
  assumes "same_parts chunks c0 c0" "i < length chunks"
  shows "tags_under c0 (numbered chunks) (root_of c0 i) = component_tags chunks i"
proof -
  have "root_of c0 j = root_of c0 i \<longleftrightarrow> (i, j) \<in> connected (linked chunks)" if "j < length chunks" for j
    using uf.parts_rep [of "length chunks" "linked chunks" c0 i j] assms that by (auto simp: same_parts_def)
  then show ?thesis by (auto simp: tags_under_def component_tags_def numbered_set)
qed

lemma chunkHigh_returns:
  assumes c0: "same_parts chunks c0 c0" and c: "same_parts chunks c0 comps" and h: "highs_ok c0 (numbered chunks) highs"
    and i: "i < length chunks" and plain: "\<not> ic_tagged (chunks ! i) \<Longrightarrow> ic_high (chunks ! i) = zero_high"
  shows "\<exists>r comps'. chunkHigh highs i (chunks ! i) comps = Some (r, comps') \<and> same_parts chunks c0 comps'
    \<and> (\<forall>x. r = Inr x \<longleftrightarrow> high_of chunks i x)"
proof (cases "ic_tagged (chunks ! i)")
  case True
  with c show ?thesis by (auto simp: chunkHigh_def high_of_def)
next
  case False
  obtain comps' where c': "uf_find comps i = Some (root_of c0 i, comps')" "same_parts chunks c0 comps'"
    using same_parts_find [OF c i] by blast
  define hs where "hs = go_get0 [] highs (root_of c0 i)"
  have hs: "distinct hs" "set hs = component_tags chunks i"
    using h tags_under_component [OF c0 i] by (auto simp: highs_ok_def hs_def)
  let ?r = "fail_if (length hs > 1) (Err ''ambiguous untagged chunk trace identity'' [])
    (Inr (fold (\<lambda>high _. high) hs zero_high))"
  have r: "?r = Inr x \<longleftrightarrow> high_of chunks i x" for x
  proof -
    consider "hs = []" | h where "hs = [h]" | a b l where "hs = a # b # l" by (cases hs rule: remdups_adj.cases) auto
    then show ?thesis
    proof cases
      case 1
      with hs(2) have "component_tags chunks i = {}" by simp
      with 1 False show ?thesis by (auto simp: high_of_def)
    next
      case 2
      with hs(2) have "component_tags chunks i = {h}" by simp
      with 2 False show ?thesis by (auto simp: high_of_def)
    next
      case 3
      with hs have "a \<noteq> b" "{a, b} \<subseteq> component_tags chunks i" by auto
      moreover from this have "\<not> {a, b} \<subseteq> {x}" "\<not> {a, b} \<subseteq> {}" by auto
      ultimately have "component_tags chunks i \<noteq> {x}" "component_tags chunks i \<noteq> {}" by metis+
      with 3 False show ?thesis by (simp add: high_of_def)
    qed
  qed
  have run: "chunkHigh highs i (chunks ! i) comps = Some (?r, comps')"
    using c'(1) False plain [OF False] by (simp add: chunkHigh_def hs_def Let_def)
  show ?thesis by (intro exI conjI allI) (rule run c'(2) r)+
qed

section \<open>The result\<close>

lemma go_map_append_new: "go_map (m @ [(k, v)]) \<longleftrightarrow> go_map m \<and> go_get m k = None"
  by (auto simp: go_map_def go_keys_def map_of_eq_None_iff)

lemma go_put_new: "go_get m k = None \<Longrightarrow> go_put k v m = m @ [(k, v)]"
  by (induction m) auto

lemma go_map_appendD: "go_map (m @ n) \<Longrightarrow> go_map m"
  by (simp add: go_map_def go_keys_def)

lemma indexSpan_fold:
  "go_map m \<Longrightarrow> res_fold (indexSpan h) ss m = Inr t
    \<longleftrightarrow> t = m @ map (\<lambda>s. (identityOf h s, s)) ss \<and> go_map t"
proof (induction ss arbitrary: m)
  case (Cons s ss)
  let ?m = "m @ [(identityOf h s, s)]"
  show ?case
  proof (cases "go_get m (identityOf h s)")
    case None
    then have "go_map ?m" using Cons.prems by (simp add: go_map_append_new)
    from Cons.IH [OF this] None show ?thesis by (simp add: indexSpan_def go_put_new)
  next
    case (Some x)
    then have "\<not> go_map ?m" by (simp add: go_map_append_new)
    then have "\<not> go_map (m @ map (\<lambda>s. (identityOf h s, s)) (s # ss))"
      using go_map_appendD [of ?m "map (\<lambda>s. (identityOf h s, s)) ss"] by auto
    with Some show ?thesis by (auto simp: indexSpan_def)
  qed
qed auto

lemma entries_simps [simp]:
  "entries [] hs = []" "entries (c # cs) (h # hs) = map (\<lambda>s. (identityOf h s, s)) (ic_spans c) @ entries cs hs"
  by (simp_all add: entries_def)

lemma indexChunks_returns:
  assumes c0: "same_parts chunks c0 c0" and h: "highs_ok c0 (numbered chunks) highs"
    and plain: "\<And>i. i < length chunks \<Longrightarrow> \<not> ic_tagged (chunks ! i) \<Longrightarrow> ic_high (chunks ! i) = zero_high"
  shows "same_parts chunks c0 comps \<Longrightarrow> set todo \<subseteq> set (numbered chunks) \<Longrightarrow> go_map m
    \<Longrightarrow> \<exists>r. indexChunks highs todo comps m = Some r
      \<and> (\<forall>t. r = Inr t \<longleftrightarrow> (\<exists>hs. list_all2 (high_of chunks) (map fst todo) hs
          \<and> t = m @ entries (map snd todo) hs \<and> go_map t))"
proof (induction todo arbitrary: comps m)
  case Nil
  then show ?case by auto
next
  case (Cons x todo)
  obtain i c where x: "x = (i, c)" by (cases x)
  have i: "i < length chunks" "c = chunks ! i" using Cons.prems(2) x by (auto simp: numbered_set)
  obtain r comps' where r: "chunkHigh highs i c comps = Some (r, comps')" "same_parts chunks c0 comps'"
    "\<And>x. r = Inr x \<longleftrightarrow> high_of chunks i x"
    using chunkHigh_returns [OF c0 Cons.prems(1) h i(1) plain [OF i(1)]] i(2) by blast
  define r' where "r' = res_bind r (\<lambda>high. res_fold (indexSpan high) (ic_spans c) m)"
  have r': "r' = Inr t \<longleftrightarrow> (\<exists>h. high_of chunks i h \<and> t = m @ map (\<lambda>s. (identityOf h s, s)) (ic_spans c) \<and> go_map t)" for t
    using indexSpan_fold [OF Cons.prems(3)] r(3) by (auto simp: r'_def res_bind_Inr_iff)
  have unique: "h = h'" if "high_of chunks i h" "high_of chunks i h'" for h h'
    using that r(3) [of h] r(3) [of h'] by simp
  show ?case
  proof (cases r')
    case (Inl e)
    have no: "\<not> (high_of chunks i h' \<and> go_map (m @ map (\<lambda>s. (identityOf h' s, s)) (ic_spans c) @ rest))" for h' rest
      using r' [of "m @ map (\<lambda>s. (identityOf h' s, s)) (ic_spans c)"] Inl
        go_map_appendD [of "m @ map (\<lambda>s. (identityOf h' s, s)) (ic_spans c)" rest] by auto
    have "indexChunks highs (x # todo) comps m = Some (Inl e)"
      using Inl r(1) x by (simp add: r'_def)
    with no show ?thesis using x by (auto simp: list_all2_Cons1)
  next
    case (Inr m')
    then obtain h' where h': "high_of chunks i h'" "m' = m @ map (\<lambda>s. (identityOf h' s, s)) (ic_spans c)" "go_map m'"
      using r' by blast
    have run: "indexChunks highs (x # todo) comps m = indexChunks highs todo comps' m'"
      using Inr r(1) x by (simp add: r'_def)
    have todo: "set todo \<subseteq> set (numbered chunks)" using Cons.prems(2) by simp
    from Cons.IH [OF r(2) todo h'(3)] obtain q where q: "indexChunks highs todo comps' m' = Some q"
      "\<And>t. q = Inr t \<longleftrightarrow> (\<exists>hs. list_all2 (high_of chunks) (map fst todo) hs
          \<and> t = m' @ entries (map snd todo) hs \<and> go_map t)"
      by blast
    have tail: "(\<exists>hs. list_all2 (high_of chunks) (map fst todo) hs \<and> t = m' @ entries (map snd todo) hs \<and> go_map t)
        \<longleftrightarrow> (\<exists>hs. list_all2 (high_of chunks) (map fst (x # todo)) hs \<and> t = m @ entries (map snd (x # todo)) hs \<and> go_map t)" for t
    proof
      assume "\<exists>hs. list_all2 (high_of chunks) (map fst todo) hs \<and> t = m' @ entries (map snd todo) hs \<and> go_map t"
      then obtain hs where "list_all2 (high_of chunks) (map fst todo) hs" "t = m' @ entries (map snd todo) hs" "go_map t"
        by blast
      with h'(1,2) x show "\<exists>hs. list_all2 (high_of chunks) (map fst (x # todo)) hs
          \<and> t = m @ entries (map snd (x # todo)) hs \<and> go_map t"
        by (intro exI [of _ "h' # hs"]) simp
    next
      assume "\<exists>hs. list_all2 (high_of chunks) (map fst (x # todo)) hs \<and> t = m @ entries (map snd (x # todo)) hs \<and> go_map t"
      then obtain h hs where "high_of chunks i h" "list_all2 (high_of chunks) (map fst todo) hs"
        "t = m @ entries (c # map snd todo) (h # hs)" "go_map t"
        unfolding x by (auto simp: list_all2_Cons1 simp del: entries_simps)
      with unique [OF h'(1)] h'(2) show "\<exists>hs. list_all2 (high_of chunks) (map fst todo) hs
          \<and> t = m' @ entries (map snd todo) hs \<and> go_map t"
        by (intro exI [of _ hs]) simp
    qed
    show ?thesis unfolding run tail [symmetric] by (intro exI conjI allI) (rule q)+
  qed
qed

lemma numbered_map: "map fst (numbered chunks) = [0..<length chunks]" "map snd (numbered chunks) = chunks"
  by (simp_all add: numbered_def)

lemma index_of_chunks:
  assumes "list_all2 (intake_spec U) spans chunks"
  shows "\<exists>r. Option.bind (joinChunks chunks) (\<lambda>components.
      Option.bind (opt_fold tagHigh (numbered chunks) ([], components)) (\<lambda>(highs, components).
        indexChunks highs (numbered chunks) components [])) = Some r
    \<and> (\<forall>t. r = Inr t \<longleftrightarrow> (\<exists>hs. list_all2 (high_of chunks) [0..<length chunks] hs \<and> t = entries chunks hs \<and> go_map t))"
proof -
  obtain c0 where c0: "joinChunks chunks = Some c0" "same_parts chunks c0 c0"
    using joinChunks_returns by (auto simp: same_parts_def)
  obtain highs comps where t: "opt_fold tagHigh (numbered chunks) ([], c0) = Some (highs, comps)"
    "same_parts chunks c0 comps" "highs_ok c0 (numbered chunks) highs"
    using tagHigh_returns [OF c0(2)] by blast
  have plain: "ic_high (chunks ! i) = zero_high" if "i < length chunks" "\<not> ic_tagged (chunks ! i)" for i
    using assms that by (auto simp: list_all2_conv_all_nth intro: intake_untagged)
  have "go_map ([] :: stressSpans)" by (simp add: go_map_def go_keys_def)
  from indexChunks_returns [OF c0(2) t(3) plain t(2) order_refl this] c0(1) t(1) numbered_map
  show ?thesis by auto
qed

lemma index_reference:
  "\<exists>r. stressIndex U (Inr records) = Some r \<and> (\<forall>spans. r = Inr spans \<longleftrightarrow> index_spec U records spans)"
proof (cases "intakeChunks U records")
  case (Inl e)
  then have "\<not> list_all2 (intake_spec U) (concat records) chunks" for chunks
    using intakeChunks_iff [of U records chunks] by auto
  with Inl show ?thesis by (auto simp: stressIndex_def index_spec_def)
next
  case (Inr chunks)
  then have c: "list_all2 (intake_spec U) (concat records) chunks" by (simp add: intakeChunks_iff)
  have unique: "chunks' = chunks" if "list_all2 (intake_spec U) (concat records) chunks'" for chunks'
    using that Inr intakeChunks_iff [of U records chunks'] by auto
  obtain r where "stressIndex U (Inr records) = Some r"
    "\<forall>t. r = Inr t \<longleftrightarrow> (\<exists>hs. list_all2 (high_of chunks) [0..<length chunks] hs \<and> t = entries chunks hs \<and> go_map t)"
    using index_of_chunks [OF c] Inr by (auto simp: stressIndex_def)
  moreover have "index_spec U records t
      \<longleftrightarrow> (\<exists>hs. list_all2 (high_of chunks) [0..<length chunks] hs \<and> t = entries chunks hs \<and> go_map t)" for t
    unfolding index_spec_def using c unique by blast
  ultimately show ?thesis by auto
qed

text \<open>
  C7. The index of a capture always returns. It accepts just the captures whose chunks are well
  formed, whose untagged chunks have at most one tag among the chunks connected with them through
  span identities and parent references, and in which no two spans share a full identity; it then
  holds every span under its trace identity, the high bits of its chunk and its span identity.
\<close>

theorem stress_index_is_reference:
  "stressIndex U decoded \<noteq> None
    \<and> (stressIndex U (Inr records) = Some (Inr spans) \<longleftrightarrow> index_spec U records spans)"
  using index_reference [of U records] index_reference [of U "projr decoded"]
  by (cases decoded) (auto simp: stressIndex_def)

end
