(* ===== verification/Ledger.thy ===== *)
theory Ledger
  imports StressIndex
begin

text \<open>
  The ledger checks of \<open>validateStress\<close>: \<open>checkLedger\<close> accepts just the ledgers with complete
  entries, ids of their own and the numbers from one up in each execution.
\<close>

section \<open>The ledger\<close>

definition sequence_of :: "requestLedger list \<Rightarrow> string \<Rightarrow> int list" where
  "sequence_of ledger e = map rl_sequence (filter (\<lambda>r. rl_execution r = e) ledger)"

definition entry_ok :: "requestLedger \<Rightarrow> bool" where
  "entry_ok r \<longleftrightarrow> 0 \<le> rl_sqlCount r \<and> rl_id r \<noteq> [] \<and> rl_sqlMarker r \<noteq> [] \<and> 100 \<le> rl_status r \<and> rl_start r < rl_end r"

text \<open>Complete entries with ids of their own, numbered from one in each execution.\<close>

definition ledger_ok :: "requestLedger list \<Rightarrow> bool" where
  "ledger_ok ledger \<longleftrightarrow> list_all entry_ok ledger \<and> distinct (map rl_id ledger)
     \<and> (\<forall>e. set (sequence_of ledger e) = int ` {1..length (sequence_of ledger e)})"

definition request_map :: "requestLedger list \<Rightarrow> requestMap" where
  "request_map ledger = map (\<lambda>r. (rl_id r, r)) ledger"

lemma request_map_get: "go_get (request_map ledger) rid = Some r \<Longrightarrow> r \<in> set ledger \<and> rl_id r = rid"
  by (auto simp: request_map_def dest: map_of_SomeD)

lemma request_map_dom: "go_get (request_map ledger) rid = None \<longleftrightarrow> rid \<notin> rl_id ` set ledger"
proof -
  have "fst ` set (request_map ledger) = rl_id ` set ledger" by (simp add: request_map_def image_comp comp_def)
  then show ?thesis by (simp add: map_of_eq_None_iff)
qed

lemma request_map_self: "distinct (map rl_id ledger) \<Longrightarrow> r \<in> set ledger \<Longrightarrow> go_get (request_map ledger) (rl_id r) = Some r"
  by (rule map_of_is_SomeI) (auto simp: request_map_def comp_def)

lemma sequence_of_simps [simp]:
  "sequence_of [] e = []"
  "sequence_of (ledger @ [r]) e = (if rl_execution r = e then sequence_of ledger e @ [rl_sequence r] else sequence_of ledger e)"
  by (simp_all add: sequence_of_def)

text \<open>The maps after the entries \<open>before\<close>.\<close>

definition ledger_state :: "requestLedger list \<Rightarrow> requestMap \<times> sequenceMap \<Rightarrow> bool" where
  "ledger_state before st \<longleftrightarrow> fst st = request_map before \<and> distinct (map rl_id before) \<and> list_all entry_ok before
     \<and> go_map (snd st) \<and> (\<forall>e. go_get0 [] (snd st) e = rev (sequence_of before e) \<and> distinct (sequence_of before e))
     \<and> (\<forall>e. go_get (snd st) e = None \<longrightarrow> sequence_of before e = [])"

lemma ledger_step:
  assumes "ledger_state before st"
  shows "(\<exists>st'. ledgerEntry r st = Inr st') \<longleftrightarrow> entry_ok r \<and> rl_id r \<notin> rl_id ` set before
      \<and> rl_sequence r \<notin> set (sequence_of before (rl_execution r))"
    and "ledgerEntry r st = Inr st' \<Longrightarrow> ledger_state (before @ [r]) st'"
proof -
  obtain requests sequences where st: "st = (requests, sequences)" by (cases st)
  have r: "requests = request_map before" "distinct (map rl_id before)" "list_all entry_ok before" "go_map sequences"
    and q: "\<And>e. go_get0 [] sequences e = rev (sequence_of before e)" "\<And>e. distinct (sequence_of before e)"
    and d: "\<And>e. go_get sequences e = None \<Longrightarrow> sequence_of before e = []"
    using assms st by (auto simp: ledger_state_def)
  have new: "go_get requests (rl_id r) \<noteq> None \<longleftrightarrow> rl_id r \<in> rl_id ` set before"
    using request_map_dom [of before "rl_id r"] r(1) by auto
  have run: "ledgerEntry r st = fail_if (\<not> entry_ok r) (Err ''incomplete request ledger'' [])
     (fail_if (rl_id r \<in> rl_id ` set before) (Err ''duplicate request ledger identity'' [])
       (fail_if (rl_sequence r \<in> set (sequence_of before (rl_execution r))) (Err ''duplicate request sequence'' [])
          (Inr (go_put (rl_id r) r requests,
                go_put (rl_execution r) (rl_sequence r # rev (sequence_of before (rl_execution r))) sequences))))"
  proof -
    have "(rl_sqlCount r < 0 \<or> rl_id r = [] \<or> rl_sqlMarker r = [] \<or> rl_status r < 100 \<or> rl_end r \<le> rl_start r)
        = (\<not> entry_ok r)" by (auto simp: entry_ok_def)
    then show ?thesis by (simp only: ledgerEntry_def st prod.case new q(1) Let_def set_rev)
  qed
  then show "(\<exists>st'. ledgerEntry r st = Inr st') \<longleftrightarrow> entry_ok r \<and> rl_id r \<notin> rl_id ` set before
      \<and> rl_sequence r \<notin> set (sequence_of before (rl_execution r))"
    by (simp add: fail_if_def)
  assume "ledgerEntry r st = Inr st'"
  then have ok: "entry_ok r" "rl_id r \<notin> rl_id ` set before" "rl_sequence r \<notin> set (sequence_of before (rl_execution r))"
    and st': "st' = (go_put (rl_id r) r requests,
       go_put (rl_execution r) (rl_sequence r # rev (sequence_of before (rl_execution r))) sequences)"
    using run by (auto simp: fail_if_Inr_iff)
  have "go_put (rl_id r) r requests = request_map (before @ [r])"
    using go_put_new [of requests "rl_id r" r] new ok(2) r(1) by (simp add: request_map_def)
  moreover have "go_map (snd st')" using st' r(4) by (simp add: go_map_put)
  moreover have "go_get0 [] (snd st') e = rev (sequence_of (before @ [r]) e)" "distinct (sequence_of (before @ [r]) e)" for e
    using st' q ok(3) by auto
  moreover have "sequence_of (before @ [r]) e = []" if "go_get (snd st') e = None" for e
    using that d [of e] st' by (cases "e = rl_execution r") (simp_all add: go_get_put)
  ultimately show "ledger_state (before @ [r]) st'"
    unfolding ledger_state_def using r ok st' by auto
qed

lemma ledger_fold:
  "ledger_state before st \<Longrightarrow>
    (case res_fold ledgerEntry after st of
       Inl e \<Rightarrow> \<not> (\<exists>st'. ledger_state (before @ after) st')
     | Inr st' \<Rightarrow> ledger_state (before @ after) st')"
proof (induction after arbitrary: before st)
  case (Cons r after)
  show ?case
  proof (cases "ledgerEntry r st")
    case (Inl e)
    then have "\<not> (entry_ok r \<and> rl_id r \<notin> rl_id ` set before
        \<and> rl_sequence r \<notin> set (sequence_of before (rl_execution r)))"
      using ledger_step(1) [OF Cons.prems, of r] by auto
    then have "\<not> ledger_state (before @ r # after) st'" for st'
      by (auto simp: ledger_state_def sequence_of_def)
    with Inl show ?thesis by simp
  next
    case (Inr st')
    from Cons.IH [OF ledger_step(2) [OF Cons.prems Inr]] Inr show ?thesis
      by (simp only: res_fold.simps res_bind.simps append_assoc append_Cons append_Nil)
  qed
qed simp

lemma number_set:
  assumes "distinct (xs :: int list)"
  shows "set xs = int ` {1..length xs} \<longleftrightarrow> int ` {1..length xs} \<subseteq> set xs"
proof
  assume sub: "int ` {1..length xs} \<subseteq> set xs"
  have "card (int ` {1..length xs}) = length xs" by (simp add: card_image)
  also have "\<dots> = card (set xs)" using assms by (simp add: distinct_card)
  finally have "int ` {1..length xs} = set xs" using sub by (intro card_subset_eq) auto
  then show "set xs = int ` {1..length xs}" by simp
qed auto

lemma complete_iff:
  "completeSequence (e, sequence) = Inr () \<longleftrightarrow> int ` {1..length sequence} \<subseteq> set sequence"
  by (auto simp: completeSequence_def res_each_Inr_iff fail_if_Inr_iff atLeastLessThanSuc_atLeastAtMost
      simp del: upt_Suc)

lemma number_distinct: "set xs = int ` {1..length xs} \<Longrightarrow> distinct xs"
  by (rule card_distinct) (simp add: card_image)

lemma checkLedger_iff: "checkLedger ledger = Inr requests \<longleftrightarrow> ledger_ok ledger \<and> requests = request_map ledger"
proof -
  have "ledger_state [] ([], [])" by (simp add: ledger_state_def request_map_def go_map_def go_keys_def go_get0_def)
  note fold = ledger_fold [OF this, of ledger, simplified]
  show ?thesis
  proof (cases "res_fold ledgerEntry ledger ([], [])")
    case (Inl e)
    have "\<not> ledger_ok ledger"
    proof
      assume ok: "ledger_ok ledger"
      let ?s = "map (\<lambda>e. (e, rev (sequence_of ledger e))) (remdups (map rl_execution ledger))"
      have get: "go_get ?s e = (if e \<in> rl_execution ` set ledger then Some (rev (sequence_of ledger e)) else None)" for e
        by (auto simp: map_of_map_restrict restrict_map_def)
      have none: "e \<notin> rl_execution ` set ledger \<Longrightarrow> sequence_of ledger e = []" for e
        by (auto simp: sequence_of_def filter_empty_conv)
      have "go_map ?s" by (simp add: go_map_def go_keys_def comp_def)
      moreover have "go_get0 [] ?s e = rev (sequence_of ledger e)" "go_get ?s e = None \<longrightarrow> sequence_of ledger e = []" for e
        using none [of e] by (auto simp: go_get0_def get split: if_splits)
      moreover have "distinct (sequence_of ledger e)" for e
        using ok by (simp add: ledger_ok_def number_distinct)
      ultimately have "ledger_state ledger (request_map ledger, ?s)"
        using ok unfolding ledger_state_def ledger_ok_def by (simp only: fst_conv snd_conv) blast
      with fold Inl show False by auto
    qed
    with Inl show ?thesis by (simp add: checkLedger_def)
  next
    case (Inr st)
    obtain rs sequences where st: "st = (rs, sequences)" by (cases st)
    from fold Inr have s: "ledger_state ledger st" by simp
    then have rs: "rs = request_map ledger" "distinct (map rl_id ledger)" "list_all entry_ok ledger" "go_map sequences"
      and q: "\<And>e. go_get0 [] sequences e = rev (sequence_of ledger e)" "\<And>e. distinct (sequence_of ledger e)"
      and d: "\<And>e. go_get sequences e = None \<Longrightarrow> sequence_of ledger e = []"
      using st by (auto simp: ledger_state_def)
    have "res_each completeSequence sequences = Inr ()
      \<longleftrightarrow> (\<forall>e. int ` {1..length (sequence_of ledger e)} \<subseteq> set (sequence_of ledger e))"
    proof
      assume "res_each completeSequence sequences = Inr ()"
      then have all: "\<forall>x \<in> set sequences. completeSequence x = Inr ()" by (simp add: res_each_Inr_iff)
      have c: "int ` {1..length q} \<subseteq> set q" if "(e, q) \<in> set sequences" for e q
        using complete_iff [of e q] all that by blast
      show "\<forall>e. int ` {1..length (sequence_of ledger e)} \<subseteq> set (sequence_of ledger e)"
      proof
        fix e
        show "int ` {1..length (sequence_of ledger e)} \<subseteq> set (sequence_of ledger e)"
        proof (cases "go_get sequences e")
          case (Some v)
          then have "(e, v) \<in> set sequences" by (rule map_of_SomeD)
          moreover have "v = rev (sequence_of ledger e)" using Some q(1) [of e] by (simp add: go_get0_def)
          ultimately show ?thesis using c [of e v] by simp
        qed (use d in simp)
      qed
    next
      assume a: "\<forall>e. int ` {1..length (sequence_of ledger e)} \<subseteq> set (sequence_of ledger e)"
      have "completeSequence x = Inr ()" if x: "x \<in> set sequences" for x
      proof -
        obtain e v where ev: "x = (e, v)" by (cases x)
        have "go_get sequences e = Some v" using x ev rs(4) by (simp add: go_map_def go_keys_def)
        then have "v = rev (sequence_of ledger e)" using q(1) [of e] by (simp add: go_get0_def)
        with a ev complete_iff show ?thesis by (metis length_rev set_rev)
      qed
      then show "res_each completeSequence sequences = Inr ()" by (simp add: res_each_Inr_iff)
    qed
    moreover have "(int ` {1..length (sequence_of ledger e)} \<subseteq> set (sequence_of ledger e))
        \<longleftrightarrow> set (sequence_of ledger e) = int ` {1..length (sequence_of ledger e)}" for e
      using number_set [OF q(2)] by blast
    ultimately have "res_each completeSequence sequences = Inr () \<longleftrightarrow> ledger_ok ledger"
      using rs(2,3) by (simp add: ledger_ok_def)
    then show ?thesis using Inr st rs(1) by (cases "res_each completeSequence sequences") (auto simp: checkLedger_def)
  qed
qed

end
