(* ===== verification/Overlap.thy ===== *)
theory Overlap
  imports Stress
begin

text \<open>
  \<open>overlap\<close> against its meaning: the greatest number of half-open intervals that hold one instant.
\<close>

section \<open>Intervals at an instant\<close>

definition active_at :: "(int \<times> int) list \<Rightarrow> int \<Rightarrow> int" where
  "active_at intervals t = int (length (filter (\<lambda>(start, end). start \<le> t \<and> t < end) intervals))"

abbreviation deltas :: "(int \<times> int) list \<Rightarrow> int" where
  "deltas events \<equiv> sum_list (map snd events)"

definition until :: "int \<Rightarrow> (int \<times> int) list \<Rightarrow> (int \<times> int) list" where
  "until t events = filter (\<lambda>e. fst e \<le> t) events"

lemma until_simps [simp]:
  "until t [] = []" "until t ((a, d) # events) = (if a \<le> t then (a, d) # until t events else until t events)"
  by (simp_all add: until_def)

lemma events_simps [simp]:
  "eventsOf [] = []" "eventsOf ((a, b) # intervals) = (a, 1) # (b, - 1) # eventsOf intervals"
  by (simp_all add: eventsOf_def)

lemma active_simps [simp]:
  "active_at [] t = 0"
  "active_at ((a, b) # intervals) t = (if a \<le> t \<and> t < b then 1 else 0) + active_at intervals t"
  by (simp_all add: active_at_def)

lemma until_events:
  "deltas (until t (eventsOf intervals)) \<le> active_at intervals t"
  "list_all (\<lambda>(start, end). start \<le> end) intervals
    \<Longrightarrow> deltas (until t (eventsOf intervals)) = active_at intervals t"
  by (induction intervals) auto

section \<open>The scan\<close>

lemma scan_le: "peak \<le> overlapScan events active peak"
proof (induction events arbitrary: active peak)
  case (Cons e events)
  obtain at d where e: "e = (at, d)" by (cases e)
  let ?a = "active + d" and ?p = "if active + d > peak then active + d else peak"
  have "peak \<le> ?p" by simp
  also have "\<dots> \<le> overlapScan events ?a ?p" by (rule Cons.IH)
  finally show ?case by (simp add: Let_def e)
qed simp

lemma scan_prefix:
  "prefix p events \<Longrightarrow> p \<noteq> [] \<Longrightarrow> active + deltas p \<le> overlapScan events active peak"
proof (induction events arbitrary: active peak p)
  case (Cons e events)
  obtain q where p: "p = e # q" "prefix q events" using Cons.prems by (cases p) auto
  obtain at d where e: "e = (at, d)" by (cases e)
  let ?a = "active + d"
  show ?case
  proof (cases "q = []")
    case True
    have "?a \<le> (if ?a > peak then ?a else peak)" by simp
    also have "\<dots> \<le> overlapScan events ?a (if ?a > peak then ?a else peak)" by (rule scan_le)
    finally show ?thesis using p True by (simp add: Let_def e)
  next
    case False
    from Cons.IH [OF p(2) False, of ?a] p show ?thesis by (simp add: Let_def add.assoc e)
  qed
qed simp

lemma scan_attained:
  "overlapScan events active peak = peak
    \<or> (\<exists>p. prefix p events \<and> overlapScan events active peak = active + deltas p)"
proof (induction events arbitrary: active peak)
  case (Cons e events)
  let ?a = "active + snd e" and ?p = "if active + snd e > peak then active + snd e else peak"
  have step: "overlapScan (e # events) active peak = overlapScan events ?a ?p" by (cases e) (simp add: Let_def)
  from Cons.IH [of ?a ?p] show ?case
  proof
    assume "overlapScan events ?a ?p = ?p"
    with step have "overlapScan (e # events) active peak = peak
        \<or> overlapScan (e # events) active peak = active + deltas [e]" by auto
    moreover have "prefix [e] (e # events)" by simp
    ultimately show ?thesis by blast
  next
    assume "\<exists>p. prefix p events \<and> overlapScan events ?a ?p = ?a + deltas p"
    then obtain p where "prefix p events" "overlapScan events ?a ?p = ?a + deltas p" by blast
    with step have "prefix (e # p) (e # events)" "overlapScan (e # events) active peak = active + deltas (e # p)"
      by simp_all
    then show ?thesis by blast
  qed
qed simp

lemma overlap_attained: "\<exists>p. prefix p (sort (eventsOf intervals)) \<and> overlap intervals = deltas p"
  using scan_attained [of "sort (eventsOf intervals)" 0 0] by (auto simp: overlap_def intro: exI [of _ "[]"])

section \<open>Prefixes of the sorted events\<close>

lemma deltas_perm: "mset xs = mset ys \<Longrightarrow> deltas (until t xs) = deltas (until t ys)"
proof -
  assume "mset xs = mset ys"
  then have "mset (map snd (until t xs)) = mset (map snd (until t ys))" by (simp add: until_def)
  then have "sum_mset (mset (map snd (until t xs))) = sum_mset (mset (map snd (until t ys)))" by (rule arg_cong)
  then show ?thesis by (simp only: sum_mset_sum_list)
qed

lemma until_prefix: "sorted events \<Longrightarrow> prefix (until t events) events"
proof (induction events)
  case (Cons e events)
  show ?case
  proof (cases "fst e \<le> t")
    case False
    have "\<not> fst x \<le> t" if "x \<in> set events" for x
    proof -
      have "e \<le> x" using Cons.prems that by simp
      with False show ?thesis by (auto simp: less_eq_prod_def)
    qed
    then have "until t (e # events) = []" using False by (simp add: until_def filter_empty_conv)
    then show ?thesis by simp
  qed (use Cons in \<open>simp add: until_def\<close>)
qed simp

lemma until_append: "until t (xs @ ys) = until t xs @ until t ys"
  by (simp add: until_def)

lemma until_all: "(\<And>x. x \<in> set xs \<Longrightarrow> fst x \<le> t) \<Longrightarrow> until t xs = xs"
  unfolding until_def by (rule filter_True) blast

text \<open>After an opening event only opening events follow at the same instant.\<close>

lemma prefix_at_opening:
  assumes "sorted (p @ (a, 1) # rest)" "\<And>x. x \<in> set rest \<Longrightarrow> snd x = 1 \<or> snd x = - 1"
  shows "deltas (p @ [(a, 1)]) \<le> deltas (until a (p @ (a, 1) # rest))"
proof -
  have before: "until a (p @ [(a, 1)]) = p @ [(a, 1)]"
    by (rule until_all) (use assms(1) in \<open>auto simp: sorted_append less_eq_prod_def\<close>)
  have "snd x = 1" if "x \<in> set (until a rest)" for x
  proof -
    from that have "x \<in> set rest" "fst x \<le> a" by (simp_all add: until_def)
    with assms have "(a, 1) \<le> x" "snd x = 1 \<or> snd x = - 1" by (auto simp: sorted_append)
    with \<open>fst x \<le> a\<close> show ?thesis by (auto simp: less_eq_prod_def)
  qed
  then have "0 \<le> deltas (until a rest)" by (intro sum_list_nonneg) auto
  moreover have "until a (p @ (a, 1) # rest) = until a (p @ [(a, 1)]) @ until a rest"
    by (simp flip: until_append)
  ultimately show ?thesis by (simp add: before)
qed

lemma event_delta: "e \<in> set (eventsOf intervals) \<Longrightarrow> snd e = 1 \<or> snd e = - 1"
  by (induction intervals) (auto simp: eventsOf_def)

lemma prefix_bounded:
  assumes "prefix p (sort (eventsOf intervals))"
  shows "\<exists>t. deltas p \<le> active_at intervals t"
  using assms
proof (induction p rule: rev_induct)
  case Nil
  then show ?case by (auto simp: active_at_def intro: exI [of _ 0])
next
  case (snoc e p)
  let ?s = "sort (eventsOf intervals)"
  from snoc.prems obtain rest where s: "?s = p @ e # rest" by (auto simp: prefix_def)
  have ev: "snd x = 1 \<or> snd x = - 1" if "x \<in> set ?s" for x using event_delta that by simp
  show ?case
  proof (cases "snd e = 1")
    case True
    then obtain a where e: "e = (a, 1)" by (cases e) auto
    have sorted: "sorted (p @ (a, 1) # rest)" using sorted_sort [of "eventsOf intervals"] s e by simp
    have "deltas (p @ [e]) \<le> deltas (until a ?s)"
      unfolding e s using prefix_at_opening [OF sorted] ev s e by simp
    also have "\<dots> = deltas (until a (eventsOf intervals))" by (rule deltas_perm) simp
    also have "\<dots> \<le> active_at intervals a" by (rule until_events)
    finally show ?thesis by blast
  next
    case False
    then have "snd e = - 1" using ev [of e] s by auto
    moreover have "prefix p ?s" using s by (simp add: prefix_def)
    moreover obtain t where "deltas p \<le> active_at intervals t" using snoc.IH calculation(2) by blast
    ultimately have "deltas (p @ [e]) \<le> active_at intervals t" by simp
    then show ?thesis by blast
  qed
qed

lemma overlap_bounded: "\<exists>t. overlap intervals \<le> active_at intervals t"
  using overlap_attained [of intervals] prefix_bounded [of _ intervals] by metis

lemma overlap_reaches:
  assumes "list_all (\<lambda>(start, end). start \<le> end) intervals"
  shows "active_at intervals t \<le> overlap intervals"
proof -
  let ?s = "sort (eventsOf intervals)" and ?p = "until t (sort (eventsOf intervals))"
  have eq: "deltas ?p = active_at intervals t"
    using deltas_perm [of ?s "eventsOf intervals" t] until_events(2) [OF assms] by simp
  have "prefix ?p ?s" by (rule until_prefix) simp
  then show ?thesis
    using scan_prefix [of ?p ?s 0 0] eq scan_le [of 0 ?s 0] by (cases "?p = []") (auto simp: overlap_def)
qed

text \<open>
  C15. When no interval ends before it starts, \<open>overlap\<close> is the greatest number of intervals that
  hold one instant: no instant is in more of them, and some instant is in as many.
\<close>

theorem overlap_is_peak:
  assumes "list_all (\<lambda>(start, end). start \<le> end) intervals"
  shows "active_at intervals t \<le> overlap intervals \<and> (\<exists>u. active_at intervals u = overlap intervals)"
  using overlap_reaches [OF assms] overlap_bounded [of intervals] by (auto intro: antisym)

theorem overlap_is_peak_witness:
  "(\<exists>u. active_at [(1, 5), (5, 9), (3, 6)] u = overlap [(1, 5), (5, 9), (3, 6)])
    \<and> overlap [(1, 5), (5, 9), (3, 6)] = 2"
proof -
  have "overlap [(1, 5), (5, 9), (3, 6)] = 2"
    by (simp add: overlap_def eventsOf_def less_eq_prod_def less_prod_def)
  with overlap_is_peak [of "[(1, 5), (5, 9), (3, 6)]"] show ?thesis by auto
qed

end
