(* ===== verification/StressSpec.thy ===== *)
theory StressSpec
  imports Ledger Overlap
begin

text \<open>
  What a workload that \<open>validateStress\<close> accepts satisfies, that it accepts every such workload
  whose spans are at most 64 steps below their server span, and that beyond this depth the answer
  depends on the order in which Go ranges over a map.
\<close>

section \<open>Server spans\<close>

abbreviation server_entry :: "stressIdentity \<times> stressSpan \<Rightarrow> bool" where
  "server_entry x \<equiv> isDatadogServer (ss_name (snd x))"

abbreviation entry_id :: "stressIdentity \<times> stressSpan \<Rightarrow> string" where
  "entry_id x \<equiv> meta (snd x) request_id_key"

text \<open>A server span that belongs to a request of the ledger and agrees with it.\<close>

definition server_ok :: "(string \<Rightarrow> string option) \<Rightarrow> string \<Rightarrow> stressSpans \<Rightarrow> requestLedger list
    \<Rightarrow> stressIdentity \<times> stressSpan \<Rightarrow> bool" where
  "server_ok urlPath service spans ledger x \<longleftrightarrow> go_get spans (parentKey (fst x) (snd x)) = None
     \<and> (\<exists>r \<in> set ledger. rl_id r = entry_id x \<and> checkServer urlPath service r (fst x) (snd x) = Inr ())"

definition server_list :: "stressSpans \<Rightarrow> serverMap" where
  "server_list xs = map (\<lambda>x. (entry_id x, fst x)) (filter server_entry xs)"

lemma serverSpan_iff:
  assumes "distinct (map rl_id ledger)"
  shows "serverSpan urlPath service spans (request_map ledger) x m = Inr t
    \<longleftrightarrow> (if server_entry x then server_ok urlPath service spans ledger x \<and> go_get m (entry_id x) = None
          \<and> t = m @ [(entry_id x, fst x)] else t = m)"
proof -
  have get: "go_get (request_map ledger) (entry_id x) = Some r \<longleftrightarrow> r \<in> set ledger \<and> rl_id r = entry_id x" for r
    using request_map_get [of ledger "entry_id x" r] request_map_self [OF assms, of r] by auto
  have ok: "server_ok urlPath service spans ledger x \<longleftrightarrow> go_get spans (parentKey (fst x) (snd x)) = None
     \<and> (\<exists>r. go_get (request_map ledger) (entry_id x) = Some r \<and> checkServer urlPath service r (fst x) (snd x) = Inr ())"
    unfolding server_ok_def get by auto
  show ?thesis
    unfolding ok by (cases x)
      (auto simp: serverSpan_def Let_def fail_if_Inr_iff res_bind_Inr_iff go_put_new split: option.splits)
qed

lemma servers_fold:
  assumes "distinct (map rl_id ledger)"
  shows "go_map m \<Longrightarrow> res_fold (serverSpan urlPath service spans (request_map ledger)) xs m = Inr t
    \<longleftrightarrow> list_all (\<lambda>x. server_entry x \<longrightarrow> server_ok urlPath service spans ledger x) xs
      \<and> t = m @ server_list xs \<and> go_map t"
proof (induction xs arbitrary: m)
  case (Cons x xs)
  show ?case
  proof (cases "server_entry x")
    case False
    then have "serverSpan urlPath service spans (request_map ledger) x m = Inr m"
      using serverSpan_iff [OF assms, of urlPath service spans x m m] by simp
    with Cons.IH [OF Cons.prems] False show ?thesis by (simp add: server_list_def)
  next
    case server: True
    let ?m = "m @ [(entry_id x, fst x)]"
    show ?thesis
    proof (cases "server_ok urlPath service spans ledger x \<and> go_get m (entry_id x) = None")
      case True
      then have "go_map ?m" using Cons.prems by (simp add: go_map_append_new)
      moreover have "serverSpan urlPath service spans (request_map ledger) x m = Inr ?m"
        using serverSpan_iff [OF assms, of urlPath service spans x m ?m] True server by simp
      ultimately have run: "go_map ?m" "res_fold (serverSpan urlPath service spans (request_map ledger)) (x # xs) m
          = res_fold (serverSpan urlPath service spans (request_map ledger)) xs ?m"
        by simp_all
      have list: "m @ server_list (x # xs) = ?m @ server_list xs" using server by (simp add: server_list_def)
      show ?thesis unfolding run(2) list Cons.IH [OF run(1)] using True by simp
    next
      case False
      then have "serverSpan urlPath service spans (request_map ledger) x m \<noteq> Inr t'" for t'
        unfolding serverSpan_iff [OF assms] using server by simp
      then obtain e where "serverSpan urlPath service spans (request_map ledger) x m = Inl e"
        by (meson sum.exhaust)
      moreover have "\<not> go_map (m @ server_list (x # xs))" if "go_get m (entry_id x) \<noteq> None"
        using go_map_appendD [of ?m "server_list xs"] that server by (auto simp: server_list_def go_map_append_new)
      ultimately show ?thesis using False server by auto
    qed
  qed
qed (auto simp: server_list_def)

lemma distinct_mset_eq:
  assumes "distinct xs" "distinct ys" "set xs \<subseteq> set ys" "length xs = length ys"
  shows "mset xs = mset ys"
proof -
  have "card (set xs) = card (set ys)" using assms by (simp add: distinct_card)
  then have "set xs = set ys" using assms(3) by (intro card_subset_eq) auto
  then show ?thesis using assms(1,2) by (simp add: set_eq_iff_mset_eq_distinct)
qed

section \<open>Owners\<close>

text \<open>The request that owns a span: that of the server span at the end of its chain of \<open>n\<close> parents.\<close>

inductive chain :: "stressSpans \<Rightarrow> nat \<Rightarrow> stressIdentity \<Rightarrow> string \<Rightarrow> bool" for spans where
  server: "go_get spans key = Some s \<Longrightarrow> isDatadogServer (ss_name s) \<Longrightarrow> chain spans 0 key (meta s request_id_key)"
| child: "go_get spans key = Some s \<Longrightarrow> \<not> isDatadogServer (ss_name s) \<Longrightarrow> ss_parentID s \<noteq> 0
    \<Longrightarrow> chain spans n (parentKey key s) rid \<Longrightarrow> chain spans (Suc n) key rid"

inductive_cases chainE: "chain spans n key rid"

definition owned_by :: "stressSpans \<Rightarrow> stressIdentity \<Rightarrow> string \<Rightarrow> bool" where
  "owned_by spans key rid \<longleftrightarrow> (\<exists>n. chain spans n key rid)"

lemma chain_unique: "chain spans n key rid \<Longrightarrow> chain spans n' key rid' \<Longrightarrow> n' = n \<and> rid' = rid"
proof (induction arbitrary: n' rule: chain.induct)
  case (server key s)
  from server.prems show ?case by (rule chainE) (use server.hyps in auto)
next
  case (child key s n rid)
  from child.prems show ?case
  proof (rule chainE)
    fix s' m assume "n' = Suc m" "go_get spans key = Some s'" "chain spans m (parentKey key s') rid'"
    with child.IH [of m] child.hyps(1) show ?thesis by simp
  qed (use child.hyps in auto)
qed

lemma owned_unique: "owned_by spans key rid \<Longrightarrow> owned_by spans key rid' \<Longrightarrow> rid' = rid"
  unfolding owned_by_def using chain_unique by blast

lemma chain_server:
  "chain spans n key rid \<Longrightarrow> \<exists>k s. go_get spans k = Some s \<and> isDatadogServer (ss_name s) \<and> rid = meta s request_id_key"
  by (induction rule: chain.induct) blast+

lemma owned_by_server:
  "owned_by spans key rid \<Longrightarrow> \<exists>k s. go_get spans k = Some s \<and> isDatadogServer (ss_name s) \<and> rid = meta s request_id_key"
  using chain_server by (auto simp: owned_by_def)

definition owners_ok :: "stressSpans \<Rightarrow> ownerMap \<Rightarrow> bool" where
  "owners_ok spans owners \<longleftrightarrow> (\<forall>key. go_get0 [] owners key \<noteq> [] \<longrightarrow> owned_by spans key (go_get0 [] owners key))"

lemma owners_ok_put: "owners_ok spans owners \<Longrightarrow> owned_by spans key rid \<Longrightarrow> owners_ok spans (go_put key rid owners)"
  by (simp add: owners_ok_def)

lemma owners_ok_get: "owners_ok spans owners \<Longrightarrow> go_get0 [] owners key \<noteq> [] \<Longrightarrow> owned_by spans key (go_get0 [] owners key)"
  by (simp add: owners_ok_def)

lemma owner_sound:
  "owner spans visiting key owners = Inr (rid, owners') \<Longrightarrow> owners_ok spans owners
    \<Longrightarrow> owned_by spans key rid \<and> owners_ok spans owners'"
proof (induction spans visiting key owners arbitrary: rid owners' rule: owner.induct)
  case (1 spans visiting key owners)
  show ?case
  proof (cases "go_get0 [] owners key \<noteq> []")
    case True
    with 1(2,3) owners_ok_get show ?thesis by (auto simp: owner.simps [of spans visiting key owners])
  next
    case False
    note fresh = this
    from 1(2) fresh have free: "\<not> (key \<in> set visiting \<or> length visiting > 64)"
      by (auto simp: owner.simps [of spans visiting key owners] split: if_splits)
    from 1(2) fresh free obtain s where s: "go_get spans key = Some s"
      by (auto simp: owner.simps [of spans visiting key owners] split: option.splits)
    show ?thesis
    proof (cases "isDatadogServer (ss_name s)")
      case True
      then have "rid = meta s request_id_key" "owners' = go_put key rid owners"
        using 1(2) fresh free s by (auto simp: owner.simps [of spans visiting key owners] Let_def)
      moreover have "owned_by spans key (meta s request_id_key)"
        using chain.server [OF s True] by (auto simp: owned_by_def)
      ultimately show ?thesis using 1(3) owners_ok_put by simp
    next
      case child: False
      then obtain owners1 where rec: "owner spans (key # visiting) (parentKey key s) owners = Inr (rid, owners1)"
        "owners' = go_put key rid owners1" "ss_parentID s \<noteq> 0"
        using 1(2) fresh free s
        by (auto simp: owner.simps [of spans visiting key owners] res_bind_Inr_iff fail_if_Inr_iff)
      have "owned_by spans (parentKey key s) rid \<and> owners_ok spans owners1"
        using 1(1) [OF fresh free s child rec(3) rec(1) 1(3)] .
      moreover then have "owned_by spans key rid"
        using chain.child [OF s child rec(3)] by (auto simp: owned_by_def)
      ultimately show ?thesis using rec(2) owners_ok_put by simp
    qed
  qed
qed

lemma owner_complete:
  assumes "chain spans n key rid" "rid \<noteq> []"
  shows "length visiting + n \<le> 64 \<Longrightarrow> (\<And>v. v \<in> set visiting \<Longrightarrow> \<exists>m>n. chain spans m v rid) \<Longrightarrow> owners_ok spans owners
    \<Longrightarrow> \<exists>owners'. owner spans visiting key owners = Inr (rid, owners') \<and> owners_ok spans owners'"
  using assms
proof (induction arbitrary: visiting rule: chain.induct)
  case (server key s)
  have here: "owned_by spans key (meta s request_id_key)"
    using chain.server [OF server.hyps] by (auto simp: owned_by_def)
  have free: "key \<notin> set visiting"
    using server.prems(2) [of key] chain_unique [OF chain.server [OF server.hyps]] by auto
  show ?case
  proof (cases "go_get0 [] owners key = []")
    case True
    then show ?thesis
      using server.hyps server.prems(1,3) free owners_ok_put [OF _ here]
      by (simp add: owner.simps [of spans visiting key owners] Let_def)
  next
    case False
    then have "go_get0 [] owners key = meta s request_id_key"
      using owners_ok_get [OF server.prems(3) False] owned_unique here by blast
    with False server.prems(3) show ?thesis by (simp add: owner.simps [of spans visiting key owners])
  qed
next
  case (child key s n rid)
  note whole = chain.child [OF child.hyps]
  have here: "owned_by spans key rid" using whole by (auto simp: owned_by_def)
  have free: "key \<notin> set visiting"
    using child.prems(2) [of key] chain_unique [OF whole] by auto
  show ?case
  proof (cases "go_get0 [] owners key = []")
    case True
    have "\<exists>m>n. chain spans m v rid" if "v \<in> set (key # visiting)" for v
      using that child.prems(2) [of v] whole by (cases "v = key") (auto dest: Suc_lessD)
    then obtain owners1 where "owner spans (key # visiting) (parentKey key s) owners = Inr (rid, owners1)"
      "owners_ok spans owners1"
      using child.IH [of "key # visiting"] child.prems by auto
    with True free child.prems(1) child.hyps(1,2,3) owners_ok_put [OF _ here] show ?thesis
      by (simp add: owner.simps [of spans visiting key owners])
  next
    case False
    then have "go_get0 [] owners key = rid"
      using owners_ok_get [OF child.prems(3) False] owned_unique here by blast
    with False child.prems(3) show ?thesis by (simp add: owner.simps [of spans visiting key owners])
  qed
qed

section \<open>SQL spans\<close>

text \<open>Whether the loop over the owners accepts a span that \<open>rid\<close> owns.\<close>

definition marked :: "requestMap \<Rightarrow> string \<Rightarrow> stressSpan \<Rightarrow> bool" where
  "marked requests rid span \<longleftrightarrow>
     (ss_type span = ''sql'' \<longrightarrow> checkMarker rid (go_get0 zero_request requests rid) span = Inr ())"

definition sql_owned :: "stressSpans \<Rightarrow> string \<Rightarrow> stressSpans \<Rightarrow> int" where
  "sql_owned spans rid xs = int (length (filter (\<lambda>x. ss_type (snd x) = ''sql'' \<and> owned_by spans (fst x) rid) xs))"

lemma sql_owned_simps [simp]:
  "sql_owned spans rid [] = 0"
  "sql_owned spans rid (x # xs)
    = (if ss_type (snd x) = ''sql'' \<and> owned_by spans (fst x) rid then 1 else 0) + sql_owned spans rid xs"
  by (simp_all add: sql_owned_def)

definition counts_ok :: "(string, int) gomap \<Rightarrow> bool" where
  "counts_ok counts \<longleftrightarrow> (\<forall>r. i64 (go_get0 0 counts r) = go_get0 0 counts r)"

lemma ownedSpan_step:
  assumes "owner spans [] (fst x) owners = Inr (rid, owners')" "owned_by spans (fst x) rid" "marked requests rid (snd x)"
  shows "\<exists>counts'. ownedSpan spans requests x (owners, counts) = Inr (owners', counts')
    \<and> (counts_ok counts \<longrightarrow> counts_ok counts')
    \<and> (\<forall>r. i64 (go_get0 0 counts' r) = i64 (go_get0 0 counts r + sql_owned spans r [x]))"
proof (cases "ss_type (snd x) = ''sql''")
  case False
  with assms show ?thesis by (cases x) (simp add: ownedSpan_def)
next
  case True
  have own: "owned_by spans (fst x) r \<longleftrightarrow> r = rid" for r using assms(2) owned_unique by blast
  have "ownedSpan spans requests x (owners, counts) = Inr (owners', go_put rid (add64 (go_get0 0 counts rid) 1) counts)"
    using True assms by (cases x) (simp add: ownedSpan_def marked_def)
  moreover have "i64 (go_get0 0 (go_put rid (add64 (go_get0 0 counts rid) 1) counts) r)
      = i64 (go_get0 0 counts r + sql_owned spans r [x])" for r
    using True own [of r] by (simp add: add64_def i64_i64)
  moreover have "counts_ok counts \<longrightarrow> counts_ok (go_put rid (add64 (go_get0 0 counts rid) 1) counts)"
    by (simp add: counts_ok_def add64_def i64_i64)
  ultimately show ?thesis by blast
qed

lemma owned_fold_sound:
  "res_fold (ownedSpan spans requests) xs (owners, counts) = Inr (owners', counts') \<Longrightarrow> owners_ok spans owners
    \<Longrightarrow> (\<forall>x \<in> set xs. \<exists>rid. owned_by spans (fst x) rid \<and> marked requests rid (snd x))
      \<and> (counts_ok counts \<longrightarrow> counts_ok counts')
      \<and> (\<forall>r. i64 (go_get0 0 counts' r) = i64 (go_get0 0 counts r + sql_owned spans r xs))"
proof (induction xs arbitrary: owners counts)
  case (Cons x xs)
  obtain owners1 counts1 where step: "ownedSpan spans requests x (owners, counts) = Inr (owners1, counts1)"
    and rest: "res_fold (ownedSpan spans requests) xs (owners1, counts1) = Inr (owners', counts')"
    using Cons.prems(1) by (auto simp: res_bind_Inr_iff)
  obtain rid owners2 where o: "owner spans [] (fst x) owners = Inr (rid, owners2)"
    using step by (cases x) (auto simp: ownedSpan_def res_bind_Inr_iff)
  note own = owner_sound [OF o Cons.prems(2)]
  have m: "marked requests rid (snd x)"
    using step o by (cases x) (auto simp: ownedSpan_def marked_def res_bind_Inr_iff)
  obtain counts2 where c: "ownedSpan spans requests x (owners, counts) = Inr (owners2, counts2)"
    "counts_ok counts \<longrightarrow> counts_ok counts2"
    "\<And>r. i64 (go_get0 0 counts2 r) = i64 (go_get0 0 counts r + sql_owned spans r [x])"
    using ownedSpan_step [OF o conjunct1 [OF own] m] by blast
  from c(1) step have eq: "owners2 = owners1" "counts2 = counts1" by simp_all
  have tail: "\<forall>x \<in> set xs. \<exists>rid. owned_by spans (fst x) rid \<and> marked requests rid (snd x)"
    "counts_ok counts1 \<longrightarrow> counts_ok counts'"
    "\<And>r. i64 (go_get0 0 counts' r) = i64 (go_get0 0 counts1 r + sql_owned spans r xs)"
    using Cons.IH [OF rest] own eq by auto
  have "i64 (go_get0 0 counts' r) = i64 (go_get0 0 counts r + sql_owned spans r (x # xs))" for r
    using tail(3) [of r] i64_plus_cong [OF c(3) [of r], of "sql_owned spans r xs"] eq by (simp add: add.assoc)
  then show ?case using tail(1,2) c(2) eq own m by auto
qed simp

lemma owned_fold_complete:
  assumes "\<And>x. x \<in> set xs \<Longrightarrow> \<exists>n rid. n \<le> 64 \<and> rid \<noteq> [] \<and> chain spans n (fst x) rid \<and> marked requests rid (snd x)"
  shows "owners_ok spans owners \<Longrightarrow> \<exists>owners' counts'. res_fold (ownedSpan spans requests) xs (owners, counts) = Inr (owners', counts')"
  using assms
proof (induction xs arbitrary: owners counts)
  case (Cons x xs)
  obtain n rid where c: "n \<le> 64" "rid \<noteq> []" "chain spans n (fst x) rid" "marked requests rid (snd x)"
    using Cons.prems(2) by (metis list.set_intros(1))
  obtain owners1 where o: "owner spans [] (fst x) owners = Inr (rid, owners1)" "owners_ok spans owners1"
    using owner_complete [OF c(3,2), of "[]" owners] c(1) Cons.prems(1) by auto
  have "owned_by spans (fst x) rid" using c(3) by (auto simp: owned_by_def)
  from ownedSpan_step [OF o(1) this c(4), of counts] obtain counts1
    where "ownedSpan spans requests x (owners, counts) = Inr (owners1, counts1)" by blast
  with Cons.IH [OF o(2), of counts1] Cons.prems(2) show ?case by simp
qed simp

section \<open>Accepted workloads\<close>

text \<open>
  A workload in order: the server spans are one for each request of the ledger and agree with it,
  each span descends from the server span of a request and a SQL span carries that request's
  marker, each request has as many SQL spans as it executed queries, and two server spans overlap.
\<close>

definition workload_ok :: "(string \<Rightarrow> string option) \<Rightarrow> string \<Rightarrow> stressSpans \<Rightarrow> requestLedger list \<Rightarrow> bool" where
  "workload_ok urlPath service spans ledger \<longleftrightarrow> ledger \<noteq> [] \<and> ledger_ok ledger
     \<and> mset (map entry_id (filter server_entry spans)) = mset (map rl_id ledger)
     \<and> (\<forall>x \<in> set spans. server_entry x \<longrightarrow> server_ok urlPath service spans ledger x)
     \<and> (\<forall>x \<in> set spans. \<exists>r \<in> set ledger. owned_by spans (fst x) (rl_id r)
          \<and> (ss_type (snd x) = ''sql'' \<longrightarrow> checkMarker (rl_id r) r (snd x) = Inr ()))
     \<and> (\<forall>r \<in> set ledger. rl_sqlCount r = sql_owned spans (rl_id r) spans)
     \<and> (\<exists>t. 2 \<le> length (filter (\<lambda>x. server_entry x \<and> ss_start (snd x) \<le> t
          \<and> t < ss_start (snd x) + ss_duration (snd x)) spans))"

definition ordering :: "('a list \<Rightarrow> 'a list) \<Rightarrow> bool" where
  "ordering f \<longleftrightarrow> (\<forall>xs. mset (f xs) = mset xs)"

lemma ordering_set: "ordering f \<Longrightarrow> set (f xs) = set xs"
  unfolding ordering_def by (metis set_mset_mset)

lemma ordering_filter: "ordering f \<Longrightarrow> length (filter P (f xs)) = length (filter P xs)"
  unfolding ordering_def by (metis mset_filter size_mset)

lemma ordering_sql: "ordering f \<Longrightarrow> sql_owned spans r (f xs) = sql_owned spans r xs"
  by (simp add: sql_owned_def ordering_filter)

lemma server_list_ids: "map fst (server_list xs) = map entry_id (filter server_entry xs)"
  by (simp add: server_list_def)

lemma ordering_ids: "ordering f \<Longrightarrow> mset (map fst (server_list (f xs))) = mset (map entry_id (filter server_entry xs))"
  by (simp add: server_list_ids ordering_def)

lemma filter_length_mono:
  "(\<And>x. x \<in> set xs \<Longrightarrow> P x \<Longrightarrow> Q x) \<Longrightarrow> length (filter P xs) \<le> length (filter Q xs)"
  by (induction xs) auto

lemma i64_le: "0 \<le> x \<Longrightarrow> i64 x \<le> x"
  using zmod_le_nonneg_dividend [of "x + 2 ^ 63" "2 ^ 64"] by (simp add: i64_def)

text \<open>The intervals of the server spans, and the server spans active at an instant.\<close>

lemma server_intervals:
  assumes "go_map spans" "set xs \<subseteq> set spans"
  shows "map (serverInterval spans) (server_list xs)
    = map (\<lambda>x. (ss_start (snd x), add64 (ss_start (snd x)) (ss_duration (snd x)))) (filter server_entry xs)"
proof -
  have "go_get0 zero_span spans (fst x) = snd x" if "x \<in> set xs" for x
  proof -
    have "(fst x, snd x) \<in> set spans" using that assms(2) by auto
    then have "go_get spans (fst x) = Some (snd x)" using assms(1) by (simp add: go_map_def go_keys_def)
    then show ?thesis by (simp add: go_get0_def)
  qed
  then show ?thesis by (auto simp: server_list_def serverInterval_def Let_def comp_def)
qed

lemma active_servers:
  "active_at (map (\<lambda>x. (ss_start (snd x), add64 (ss_start (snd x)) (ss_duration (snd x)))) (filter server_entry xs)) t
    = int (length (filter (\<lambda>x. server_entry x \<and> ss_start (snd x) \<le> t
        \<and> t < add64 (ss_start (snd x)) (ss_duration (snd x))) xs))"
  by (induction xs) (auto simp: active_at_def)

text \<open>The checks on the servers found.\<close>

lemma servers_counted:
  assumes "distinct (map rl_id ledger)" "ordering order1"
    and all: "\<And>x. x \<in> set spans \<Longrightarrow> server_entry x \<Longrightarrow> server_ok urlPath service spans ledger x"
  shows "go_map (server_list (order1 spans)) \<and> length (server_list (order1 spans)) = length ledger
    \<longleftrightarrow> mset (map entry_id (filter server_entry spans)) = mset (map rl_id ledger)"
proof -
  let ?ids = "map fst (server_list (order1 spans))"
  have eq: "mset ?ids = mset (map entry_id (filter server_entry spans))" by (rule ordering_ids [OF assms(2)])
  have sub: "set ?ids \<subseteq> set (map rl_id ledger)"
  proof
    fix i assume "i \<in> set ?ids"
    then obtain x where "x \<in> set spans" "server_entry x" "i = entry_id x"
      unfolding server_list_ids using ordering_set [OF assms(2), of spans] by auto
    with all [of x] show "i \<in> set (map rl_id ledger)" by (auto simp: server_ok_def image_iff) metis
  qed
  have g: "go_map (server_list (order1 spans)) \<longleftrightarrow> distinct ?ids" by (simp add: go_map_def go_keys_def)
  show ?thesis
  proof
    assume "go_map (server_list (order1 spans)) \<and> length (server_list (order1 spans)) = length ledger"
    then have "mset ?ids = mset (map rl_id ledger)"
      using distinct_mset_eq [OF _ assms(1) sub] g by simp
    with eq show "mset (map entry_id (filter server_entry spans)) = mset (map rl_id ledger)" by simp
  next
    assume "mset (map entry_id (filter server_entry spans)) = mset (map rl_id ledger)"
    with eq have m: "mset ?ids = mset (map rl_id ledger)" by simp
    then have "distinct ?ids" using assms(1) by (metis mset_eq_imp_distinct_iff)
    moreover have "length ?ids = length (map rl_id ledger)" using m by (rule mset_eq_length)
    ultimately show "go_map (server_list (order1 spans)) \<and> length (server_list (order1 spans)) = length ledger"
      using g by simp
  qed
qed

lemma validated_workload:
  assumes v: "validateSpans order1 order2 order3 urlPath spans ledger service = Inr ()"
    and o: "ordering order1" "ordering order2" "ordering order3"
    and spans: "go_map spans" "\<And>x. x \<in> set spans \<Longrightarrow> 0 < ss_start (snd x) \<and> 0 < ss_duration (snd x)"
    and small: "in_i64 (int (length spans))"
  shows "workload_ok urlPath service spans ledger"
proof -
  from v obtain requests servers owners counts where
      "checkLedger ledger = Inr requests"
    and fold: "res_fold (serverSpan urlPath service spans requests) (order1 spans) [] = Inr servers"
    and len: "length servers = length requests" "length requests \<noteq> 0"
    and owned: "res_fold (ownedSpan spans requests) (order2 spans) ([], []) = Inr (owners, counts)"
    and counted: "res_each (checkCounts counts) (order3 requests) = Inr ()"
    and two: "\<not> overlap (map (serverInterval spans) servers) < 2"
    by (auto simp: validateSpans_def res_bind_Inr_iff fail_if_Inr_iff)
  then have ledger: "ledger_ok ledger" "requests = request_map ledger" by (simp_all add: checkLedger_iff)
  then have ids: "distinct (map rl_id ledger)" by (simp add: ledger_ok_def)
  have "go_map ([] :: serverMap)" by (simp add: go_map_def go_keys_def)
  from fold [unfolded ledger(2)] servers_fold [OF ids this]
  have servers: "servers = server_list (order1 spans)" "go_map servers"
    and sok: "\<And>x. x \<in> set spans \<Longrightarrow> server_entry x \<Longrightarrow> server_ok urlPath service spans ledger x"
    using ordering_set [OF o(1), of spans] by (auto simp: list_all_iff)
  have one: "mset (map entry_id (filter server_entry spans)) = mset (map rl_id ledger)"
    using servers_counted [OF ids o(1) sok] servers len(1) ledger(2) by (simp add: request_map_def)
  have "owners_ok spans []" by (simp add: owners_ok_def go_get0_def)
  note own = owned_fold_sound [OF owned this]
  have found: "\<exists>r \<in> set ledger. owned_by spans (fst x) (rl_id r)
      \<and> (ss_type (snd x) = ''sql'' \<longrightarrow> checkMarker (rl_id r) r (snd x) = Inr ())" if x: "x \<in> set spans" for x
  proof -
    obtain rid where rid: "owned_by spans (fst x) rid" "marked requests rid (snd x)"
      using own x ordering_set [OF o(2), of spans] by blast
    obtain k s where k: "go_get spans k = Some s" "isDatadogServer (ss_name s)" "rid = meta s request_id_key"
      using owned_by_server [OF rid(1)] by blast
    have "server_ok urlPath service spans ledger (k, s)" using sok [of "(k, s)"] k(1,2) by (auto dest: map_of_SomeD)
    then obtain r where r: "r \<in> set ledger" "rl_id r = rid" using k(3) by (auto simp: server_ok_def)
    then have "go_get0 zero_request requests rid = r"
      using request_map_self [OF ids r(1)] ledger(2) by (simp add: go_get0_def)
    with r rid show ?thesis by (auto simp: marked_def)
  qed
  have sql: "rl_sqlCount r = sql_owned spans (rl_id r) spans" if r: "r \<in> set ledger" for r
  proof -
    have "(rl_id r, r) \<in> set requests" using r ledger(2) by (auto simp: request_map_def)
    then have c: "go_get0 0 counts (rl_id r) = rl_sqlCount r"
      using counted ordering_set [OF o(3), of requests] by (auto simp: res_each_Inr_iff checkCounts_def fail_if_Inr_iff)
    have "owners_ok spans []" "counts_ok []" by (simp_all add: owners_ok_def counts_ok_def go_get0_def i64_def)
    with own have "go_get0 0 counts (rl_id r) = i64 (sql_owned spans (rl_id r) (order2 spans))"
      by (auto simp: counts_ok_def) (metis add_0 go_get0_def map_of.simps(1) option.simps(4))
    also have "\<dots> = i64 (sql_owned spans (rl_id r) spans)" using ordering_sql [OF o(2)] by simp
    also have "\<dots> = sql_owned spans (rl_id r) spans"
    proof (rule i64_id)
      have "length (filter P spans) \<le> length spans" for P by simp
      then have "sql_owned spans (rl_id r) spans \<le> int (length spans)" by (simp add: sql_owned_def)
      moreover have "0 \<le> sql_owned spans (rl_id r) spans" by (simp add: sql_owned_def)
      ultimately show "in_i64 (sql_owned spans (rl_id r) spans)" using small by (simp add: in_i64_def)
    qed
    finally show ?thesis using c by simp
  qed
  let ?ivs = "map (\<lambda>x. (ss_start (snd x), add64 (ss_start (snd x)) (ss_duration (snd x)))) (filter server_entry (order1 spans))"
  have "map (serverInterval spans) servers = ?ivs"
    unfolding servers(1) by (rule server_intervals [OF spans(1)]) (simp add: ordering_set [OF o(1)])
  with two have "2 \<le> overlap ?ivs" by simp
  then obtain t where "2 \<le> active_at ?ivs t" using overlap_bounded [of ?ivs] order_trans by blast
  then have "2 \<le> length (filter (\<lambda>x. server_entry x \<and> ss_start (snd x) \<le> t
        \<and> t < add64 (ss_start (snd x)) (ss_duration (snd x))) spans)"
    unfolding active_servers ordering_filter [OF o(1)] by simp
  also have "\<dots> \<le> length (filter (\<lambda>x. server_entry x \<and> ss_start (snd x) \<le> t
        \<and> t < ss_start (snd x) + ss_duration (snd x)) spans)"
  proof -
    have "add64 (ss_start (snd x)) (ss_duration (snd x)) \<le> ss_start (snd x) + ss_duration (snd x)" if "x \<in> set spans" for x
      using i64_le [of "ss_start (snd x) + ss_duration (snd x)"] spans(2) [OF that] by (simp add: add64_def)
    then show ?thesis by (intro filter_length_mono) fastforce
  qed
  finally have over: "\<exists>t. 2 \<le> length (filter (\<lambda>x. server_entry x \<and> ss_start (snd x) \<le> t
        \<and> t < ss_start (snd x) + ss_duration (snd x)) spans)" by blast
  have "ledger \<noteq> []" using len(2) ledger(2) by (auto simp: request_map_def)
  then show ?thesis unfolding workload_ok_def using ledger(1) one sok found sql over by blast
qed

text \<open>The converse, for chains that no order of the loops can make too deep.\<close>

definition shallow :: "stressSpans \<Rightarrow> bool" where
  "shallow spans \<longleftrightarrow> (\<forall>n key rid. chain spans n key rid \<longrightarrow> n \<le> 64)"

lemma workload_validated:
  assumes w: "workload_ok urlPath service spans ledger" and deep: "shallow spans"
    and o: "ordering order1" "ordering order2" "ordering order3"
    and spans: "go_map spans" "\<And>x. x \<in> set spans \<Longrightarrow> 0 < ss_start (snd x) \<and> 0 < ss_duration (snd x)
      \<and> in_i64 (ss_start (snd x) + ss_duration (snd x))"
    and small: "in_i64 (int (length spans))"
  shows "validateSpans order1 order2 order3 urlPath spans ledger service = Inr ()"
proof -
  from w have ledger: "ledger \<noteq> []" "ledger_ok ledger" and ids: "distinct (map rl_id ledger)"
    and one: "mset (map entry_id (filter server_entry spans)) = mset (map rl_id ledger)"
    and sok: "\<And>x. x \<in> set spans \<Longrightarrow> server_entry x \<Longrightarrow> server_ok urlPath service spans ledger x"
    and found: "\<And>x. x \<in> set spans \<Longrightarrow> \<exists>r \<in> set ledger. owned_by spans (fst x) (rl_id r)
          \<and> (ss_type (snd x) = ''sql'' \<longrightarrow> checkMarker (rl_id r) r (snd x) = Inr ())"
    and sql: "\<And>r. r \<in> set ledger \<Longrightarrow> rl_sqlCount r = sql_owned spans (rl_id r) spans"
    and over: "\<exists>t. 2 \<le> length (filter (\<lambda>x. server_entry x \<and> ss_start (snd x) \<le> t
          \<and> t < ss_start (snd x) + ss_duration (snd x)) spans)"
    unfolding workload_ok_def ledger_ok_def by blast+
  let ?R = "request_map ledger" and ?S = "server_list (order1 spans)"
  have check: "checkLedger ledger = Inr ?R" using ledger(2) by (simp add: checkLedger_iff)
  have S: "go_map ?S" "length ?S = length ?R"
    using servers_counted [OF ids o(1) sok] one by (simp_all add: request_map_def)
  have "go_map ([] :: serverMap)" by (simp add: go_map_def go_keys_def)
  from servers_fold [OF ids this, of urlPath service spans "order1 spans" ?S] S(1) sok
  have servers: "res_fold (serverSpan urlPath service spans ?R) (order1 spans) [] = Inr ?S"
    by (simp add: list_all_iff ordering_set [OF o(1)])
  have ok0: "owners_ok spans []" "counts_ok []" by (simp_all add: owners_ok_def counts_ok_def go_get0_def i64_def)
  have each: "\<exists>n rid. n \<le> 64 \<and> rid \<noteq> [] \<and> chain spans n (fst x) rid \<and> marked ?R rid (snd x)" if x: "x \<in> set (order2 spans)" for x
  proof -
    obtain r where r: "r \<in> set ledger" "owned_by spans (fst x) (rl_id r)"
      "ss_type (snd x) = ''sql'' \<longrightarrow> checkMarker (rl_id r) r (snd x) = Inr ()"
      using found [of x] x ordering_set [OF o(2), of spans] by blast
    then obtain n where n: "chain spans n (fst x) (rl_id r)" by (auto simp: owned_by_def)
    moreover have "rl_id r \<noteq> []" using ledger(2) r(1) by (auto simp: ledger_ok_def list_all_iff entry_ok_def)
    moreover have "marked ?R (rl_id r) (snd x)"
      using r request_map_self [OF ids r(1)] by (simp add: marked_def go_get0_def)
    ultimately show ?thesis using deep unfolding shallow_def by blast
  qed
  obtain owners counts where owned: "res_fold (ownedSpan spans ?R) (order2 spans) ([], []) = Inr (owners, counts)"
    using owned_fold_complete [OF each ok0(1)] by blast
  have count: "go_get0 0 counts rid = i64 (sql_owned spans rid spans)" for rid
  proof -
    note own = owned_fold_sound [OF owned ok0(1)]
    have "i64 (go_get0 0 counts rid) = i64 (go_get0 0 [] rid + sql_owned spans rid (order2 spans))" using own by blast
    moreover have "i64 (go_get0 0 counts rid) = go_get0 0 counts rid" using own ok0(2) by (simp add: counts_ok_def)
    ultimately show ?thesis by (simp add: go_get0_def ordering_sql [OF o(2)])
  qed
  have "sql_owned spans rid spans = i64 (sql_owned spans rid spans)" for rid
  proof (rule i64_id [symmetric])
    have "length (filter P spans) \<le> length spans" for P by simp
    then have "sql_owned spans rid spans \<le> int (length spans)" by (simp add: sql_owned_def)
    moreover have "0 \<le> sql_owned spans rid spans" by (simp add: sql_owned_def)
    ultimately show "in_i64 (sql_owned spans rid spans)" using small by (simp add: in_i64_def)
  qed
  then have total: "go_get0 0 counts (rl_id r) = rl_sqlCount r" if "r \<in> set ledger" for r
    using sql [OF that] count [of "rl_id r"] by metis
  have counted: "res_each (checkCounts counts) (order3 ?R) = Inr ()"
    unfolding res_each_Inr_iff ordering_set [OF o(3)]
    using total by (auto simp: checkCounts_def request_map_def)
  let ?ivs = "map (\<lambda>x. (ss_start (snd x), add64 (ss_start (snd x)) (ss_duration (snd x)))) (filter server_entry (order1 spans))"
  have ivs: "map (serverInterval spans) ?S = ?ivs"
    by (rule server_intervals [OF spans(1)]) (simp add: ordering_set [OF o(1)])
  have add: "add64 (ss_start (snd x)) (ss_duration (snd x)) = ss_start (snd x) + ss_duration (snd x)" if "x \<in> set spans" for x
    using spans(2) [OF that] by (simp add: add64_id)
  obtain t where "2 \<le> length (filter (\<lambda>x. server_entry x \<and> ss_start (snd x) \<le> t
          \<and> t < ss_start (snd x) + ss_duration (snd x)) spans)" using over by blast
  also have "\<dots> = length (filter (\<lambda>x. server_entry x \<and> ss_start (snd x) \<le> t
          \<and> t < add64 (ss_start (snd x)) (ss_duration (snd x))) spans)"
    by (rule arg_cong [of _ _ length], rule filter_cong) (simp_all add: add)
  finally have "2 \<le> active_at ?ivs t" unfolding active_servers ordering_filter [OF o(1)] by simp
  also have "\<dots> \<le> overlap ?ivs"
  proof (rule overlap_reaches, unfold list_all_iff, rule ballI)
    fix i assume "i \<in> set ?ivs"
    then obtain x where x: "x \<in> set spans" "i = (ss_start (snd x), add64 (ss_start (snd x)) (ss_duration (snd x)))"
      unfolding set_map set_filter ordering_set [OF o(1)] by blast
    from spans(2) [OF x(1)] add [OF x(1)] x(2) show "case i of (start, end) \<Rightarrow> start \<le> end" by simp
  qed
  finally have "\<not> overlap (map (serverInterval spans) ?S) < 2" unfolding ivs by simp
  then show ?thesis
    using check servers S(2) ledger(1) owned counted by (simp add: validateSpans_def request_map_def)
qed

section \<open>Captures\<close>

lemma index_entries:
  assumes "index_spec U records spans"
  shows "go_map spans" "length spans = length (concat (concat records))"
    "x \<in> set spans \<Longrightarrow> 0 < ss_start (snd x) \<and> 0 < ss_duration (snd x)"
proof -
  obtain chunks highs where c: "list_all2 (intake_spec U) (concat records) chunks"
    "list_all2 (high_of chunks) [0..<length chunks] highs" "spans = entries chunks highs" and m: "go_map spans"
    using assms by (auto simp: index_spec_def)
  show "go_map spans" by (rule m)
  have "length chunks = length highs" using c(2) by (auto dest: list_all2_lengthD)
  then have e: "map snd (entries chunks highs) = concat (map ic_spans chunks)"
    by (induction chunks highs rule: list_induct2) (simp_all add: comp_def)
  have p: "list_all2 (intake_spec U) ts cs \<Longrightarrow> map ic_spans cs = ts
      \<and> (\<forall>s \<in> set (concat ts). 0 < ss_start s \<and> 0 < ss_duration s)" for ts cs
    by (induction rule: list_all2_induct) (auto simp: intake_spec_def list_all_iff span_ok_def)
  have all: "map snd spans = concat (concat records)" using e p [OF c(1)] c(3) by simp
  show "length spans = length (concat (concat records))" using all by (metis length_map)
  assume "x \<in> set spans"
  then have "snd x \<in> set (map snd spans)" by simp
  then have "snd x \<in> set (concat (concat records))" by (simp only: all)
  then show "0 < ss_start (snd x) \<and> 0 < ss_duration (snd x)" using p [OF c(1)] by blast
qed

lemma validate_index:
  "validateStress order1 order2 order3 urlPath U (Inr records) ledger service = Some (Inr ())
    \<longleftrightarrow> (\<exists>spans. index_spec U records spans \<and> validateSpans order1 order2 order3 urlPath spans ledger service = Inr ())"
  using index_reference [of U records] by (auto simp: validateStress_def res_bind_Inr_iff)

lemma accepted_in_order:
  assumes "validateStress order1 order2 order3 urlPath U (Inr records) ledger service = Some (Inr ())"
    and o: "ordering order1" "ordering order2" "ordering order3"
    and small: "in_i64 (int (length (concat (concat records))))"
  shows "\<exists>spans. index_spec U records spans \<and> workload_ok urlPath service spans ledger"
proof -
  obtain spans where s: "index_spec U records spans"
    "validateSpans order1 order2 order3 urlPath spans ledger service = Inr ()"
    using assms(1) by (auto simp: validate_index)
  note e = index_entries [OF s(1)]
  have "workload_ok urlPath service spans ledger"
    by (rule validated_workload [OF s(2) o e(1)]) (use e small in auto)
  with s(1) show ?thesis by blast
qed

text \<open>
  C8. What \<open>validateStress\<close> accepts, in whichever orders Go ranges over its maps, is in order: the
  server spans are one for each request of a well-formed ledger and agree with it, each span
  descends from the server span of a request, SQL spans carry the marker of their request and are
  as many as it executed, and two server spans overlap.
\<close>

theorem accepted_workload:
  assumes "validateStress order1 order2 order3 urlPath U (Inr records) ledger service = Some (Inr ())"
    and "ordering order1" "ordering order2" "ordering order3"
    and "in_i64 (int (length (concat (concat records))))"
  shows "\<exists>spans. index_spec U records spans \<and> workload_ok urlPath service spans ledger"
  by (rule accepted_in_order [OF assms])

text \<open>
  C9. When no span is more than 64 steps below its server span and no end time overflows, the
  orders do not matter: \<open>validateStress\<close> accepts exactly the captures and ledgers that are in order.
\<close>

theorem shallow_workload_accepted_iff:
  assumes o: "ordering order1" "ordering order2" "ordering order3"
    and small: "in_i64 (int (length (concat (concat records))))"
    and index: "index_spec U records spans" and deep: "shallow spans"
    and ends: "list_all (\<lambda>x. in_i64 (ss_start (snd x) + ss_duration (snd x))) spans"
  shows "validateStress order1 order2 order3 urlPath U (Inr records) ledger service = Some (Inr ())
    \<longleftrightarrow> workload_ok urlPath service spans ledger"
proof -
  have unique: "spans' = spans" if "index_spec U records spans'" for spans'
    using index_reference [of U records] that index by (metis sum.inject(2))
  show ?thesis
  proof
    assume "validateStress order1 order2 order3 urlPath U (Inr records) ledger service = Some (Inr ())"
    from accepted_in_order [OF this o small] show "workload_ok urlPath service spans ledger"
      using unique by blast
  next
    assume w: "workload_ok urlPath service spans ledger"
    note e = index_entries [OF index]
    have "validateSpans order1 order2 order3 urlPath spans ledger service = Inr ()"
      by (rule workload_validated [OF w deep o e(1)]) (use e small ends in \<open>auto simp: list_all_iff\<close>)
    then show "validateStress order1 order2 order3 urlPath U (Inr records) ledger service = Some (Inr ())"
      using index by (auto simp: validate_index)
  qed
qed

section \<open>An example\<close>

definition ex_span :: "nat \<Rightarrow> string \<Rightarrow> stressSpan" where
  "ex_span n rid = \<lparr>ss_traceID = 7, ss_spanID = n, ss_parentID = 0, ss_start = 10, ss_duration = 5, ss_service = ''s'',
     ss_name = ''gin.request'', ss_resource = [], ss_type = ''web'', ss_error = 0,
     ss_meta = [(''rules_stests.request_id'', rid), (''http.method'', ''GET''), (''http.status_code'', ''200'')]\<rparr>"

definition ex_request :: "int \<Rightarrow> string \<Rightarrow> requestLedger" where
  "ex_request n rid = \<lparr>rl_execution = ''e'', rl_scenario = ''c'', rl_sequence = n, rl_id = rid, rl_method = ''GET'',
     rl_path = ''/'', rl_status = 200, rl_sqlCount = 0, rl_sqlMarker = ''m'', rl_incoming = [], rl_start = 1, rl_end = 2\<rparr>"

definition ex_capture :: "stressSpan list list list" where
  "ex_capture = [[[ex_span 1 ''a''], [ex_span 2 ''b'']]]"

definition ex_ledger :: "requestLedger list" where
  "ex_ledger = [ex_request 1 ''a'', ex_request 2 ''b'']"

lemma ex_stress_accepted:
  "validateStress id id id (\<lambda>_. None) U (Inr ex_capture) ex_ledger ''s'' = Some (Inr ())"
  by code_simp

lemma ex_index: "index_spec U ex_capture [(\<lparr>si_low = 7, si_high = zero_high, si_span = 1\<rparr>, ex_span 1 ''a''),
    (\<lparr>si_low = 7, si_high = zero_high, si_span = 2\<rparr>, ex_span 2 ''b'')]"
proof -
  have "stressIndex U (Inr ex_capture) = Some (Inr [(\<lparr>si_low = 7, si_high = zero_high, si_span = 1\<rparr>, ex_span 1 ''a''),
    (\<lparr>si_low = 7, si_high = zero_high, si_span = 2\<rparr>, ex_span 2 ''b'')])"
    by code_simp
  with index_reference [of U ex_capture] show ?thesis by auto
qed

lemma ordering_id: "ordering id"
  by (simp add: ordering_def)

theorem accepted_workload_witness:
  "\<exists>spans. index_spec plain_tables ex_capture spans \<and> workload_ok (\<lambda>_. None) ''s'' spans ex_ledger"
  by (rule accepted_workload [OF ex_stress_accepted ordering_id ordering_id ordering_id])
    (simp add: ex_capture_def in_i64_def)

text \<open>A chain of depth zero only: every span is a server span.\<close>

lemma all_servers_shallow:
  assumes "list_all server_entry spans"
  shows "shallow spans"
proof -
  have "n \<le> 64" if "chain spans n key rid" for n key rid
    using that by (rule chainE) (use assms in \<open>auto simp: list_all_iff dest!: map_of_SomeD\<close>)
  then show ?thesis by (simp add: shallow_def)
qed

theorem shallow_workload_accepted_iff_witness:
  "workload_ok (\<lambda>_. None) ''s'' [(\<lparr>si_low = 7, si_high = zero_high, si_span = 1\<rparr>, ex_span 1 ''a''),
    (\<lparr>si_low = 7, si_high = zero_high, si_span = 2\<rparr>, ex_span 2 ''b'')] ex_ledger"
proof -
  let ?s = "[(\<lparr>si_low = 7, si_high = zero_high, si_span = 1\<rparr>, ex_span 1 ''a''),
    (\<lparr>si_low = 7, si_high = zero_high, si_span = 2\<rparr>, ex_span 2 ''b'')]"
  have "in_i64 (int (length (concat (concat ex_capture))))" by (simp add: ex_capture_def in_i64_def)
  moreover have "shallow ?s" by (rule all_servers_shallow) (simp add: ex_span_def isDatadogServer_def)
  moreover have "list_all (\<lambda>x. in_i64 (ss_start (snd x) + ss_duration (snd x))) ?s" by (simp add: ex_span_def in_i64_def)
  ultimately show ?thesis
    using shallow_workload_accepted_iff [OF ordering_id ordering_id ordering_id _ ex_index] ex_stress_accepted by blast
qed

section \<open>Deep chains\<close>

text \<open>
  A chain of \<open>n\<close> spans below a server span, listed from the server span down: in this order each
  span finds the owner of its parent remembered, in the other the first walk is \<open>n\<close> steps long.
\<close>

definition chain_key :: "nat \<Rightarrow> stressIdentity" where
  "chain_key n = \<lparr>si_low = 1, si_high = zero_high, si_span = Suc n\<rparr>"

definition chain_span :: "nat \<Rightarrow> stressSpan" where
  "chain_span n = \<lparr>ss_traceID = 1, ss_spanID = Suc n, ss_parentID = n, ss_start = 1, ss_duration = 1,
     ss_service = [], ss_name = (if n = 0 then ''http.request'' else ''work''), ss_resource = [], ss_type = ''web'',
     ss_error = 0, ss_meta = [(''rules_stests.request_id'', ''r'')]\<rparr>"

definition chain_spans :: "nat \<Rightarrow> stressSpans" where
  "chain_spans n = map (\<lambda>i. (chain_key i, chain_span i)) [0..<Suc n]"

lemma chain_get: "go_get (chain_spans n) (chain_key i) = (if i \<le> n then Some (chain_span i) else None)"
proof -
  have inj: "chain_key i = chain_key j \<longleftrightarrow> i = j" for i j by (simp add: chain_key_def)
  have "go_map (chain_spans n)"
    by (simp add: chain_spans_def go_map_def go_keys_def comp_def distinct_map inj_on_def inj del: upt_Suc)
  then have "go_get (chain_spans n) (chain_key i) = Some s \<longleftrightarrow> (chain_key i, s) \<in> set (chain_spans n)" for s
    by (simp add: go_map_def go_keys_def)
  moreover have "(chain_key i, s) \<in> set (chain_spans n) \<longleftrightarrow> i \<le> n \<and> s = chain_span i" for s
    unfolding chain_spans_def set_map set_upt using inj by auto
  ultimately have get: "go_get (chain_spans n) (chain_key i) = Some s \<longleftrightarrow> i \<le> n \<and> s = chain_span i" for s by simp
  show ?thesis
  proof (cases "go_get (chain_spans n) (chain_key i)")
    case None
    then have "\<not> i \<le> n" using get by force
    with None show ?thesis by simp
  qed (use get in simp)
qed

lemma chain_parent: "parentKey (chain_key (Suc i)) (chain_span (Suc i)) = chain_key i"
  by (simp add: parentKey_def chain_key_def chain_span_def)

lemma chain_span_simps:
  "isDatadogServer (ss_name (chain_span i)) \<longleftrightarrow> i = 0" "ss_parentID (chain_span i) = i"
  "meta (chain_span i) request_id_key = ''r''" "ss_type (chain_span i) \<noteq> ''sql''"
  by (simp_all add: chain_span_def isDatadogServer_def request_id_key_def go_get0_def)

text \<open>From the server down.\<close>

lemma down_step:
  assumes "i \<le> n" "i = 0 \<or> go_get0 [] owners (chain_key (i - 1)) = ''r''" "go_get0 [] owners (chain_key i) = []"
  shows "ownedSpan (chain_spans n) requests (chain_key i, chain_span i) (owners, counts)
    = Inr (go_put (chain_key i) ''r'' owners, counts)"
proof (cases i)
  case 0
  with assms show ?thesis
    by (simp add: ownedSpan_def owner.simps [of _ "[]" "chain_key 0"] chain_get chain_span_simps Let_def)
next
  case (Suc j)
  with assms show ?thesis
    by (simp add: ownedSpan_def owner.simps [of _ "[]" "chain_key (Suc j)"] chain_get chain_span_simps chain_parent
        owner.simps [of _ "[chain_key (Suc j)]" "chain_key j"])
qed

lemma down_loop:
  "k \<le> Suc n \<Longrightarrow> \<exists>owners. res_fold (ownedSpan (chain_spans n) requests) (map (\<lambda>i. (chain_key i, chain_span i)) [0..<k]) ([], [])
      = Inr (owners, []) \<and> (\<forall>i. go_get0 [] owners (chain_key i) = (if i < k then ''r'' else []))"
proof (induction k)
  case 0
  then show ?case by (simp add: go_get0_def)
next
  case (Suc k)
  then obtain owners where o: "res_fold (ownedSpan (chain_spans n) requests) (map (\<lambda>i. (chain_key i, chain_span i)) [0..<k]) ([], [])
      = Inr (owners, [])" "\<And>i. go_get0 [] owners (chain_key i) = (if i < k then ''r'' else [])" by auto
  have "ownedSpan (chain_spans n) requests (chain_key k, chain_span k) (owners, []) = Inr (go_put (chain_key k) ''r'' owners, [])"
    by (rule down_step) (use Suc.prems o(2) in auto)
  moreover have "chain_key i = chain_key k \<longleftrightarrow> i = k" for i by (simp add: chain_key_def)
  ultimately show ?case using o by (auto simp: res_fold_append less_Suc_eq)
qed

text \<open>From the deepest span: the walk gives up at depth 65.\<close>

lemma up_owner:
  "i \<le> n \<Longrightarrow> length visiting \<le> 65 \<Longrightarrow> 65 < length visiting + i
    \<Longrightarrow> set visiting \<subseteq> chain_key ` {i<..}
    \<Longrightarrow> owner (chain_spans n) visiting (chain_key i) [] = Inl (Err ''cyclic/deep workload graph'' [])"
proof (induction i arbitrary: visiting)
  case 0
  then show ?case by simp
next
  case (Suc i)
  have key: "chain_key (Suc i) \<notin> set visiting" using Suc.prems(4) by (auto simp: chain_key_def)
  show ?case
  proof (cases "length visiting = 65")
    case True
    then show ?thesis by (simp add: owner.simps [of _ visiting] go_get0_def)
  next
    case False
    have "owner (chain_spans n) (chain_key (Suc i) # visiting) (chain_key i) [] = Inl (Err ''cyclic/deep workload graph'' [])"
      using Suc.prems False by (intro Suc.IH) auto
    with Suc.prems(1,2) False key show ?thesis
      by (simp add: owner.simps [of _ visiting] go_get0_def chain_get chain_span_simps chain_parent)
  qed
qed

text \<open>
  C14. The walk to the owner is cut off after 64 spans unless it meets an owner found before, so
  for a chain of more than 65 spans below a server span the answer depends on the order in which
  the code ranges over the captured spans: from the server down every span is attributed, from
  the deepest span up the same capture is rejected as cyclic or deep.
\<close>

theorem deep_chain_order_dependent:
  assumes "65 < n"
  shows "(\<exists>owners. res_fold (ownedSpan (chain_spans n) requests) (chain_spans n) ([], []) = Inr (owners, []))
    \<and> res_fold (ownedSpan (chain_spans n) requests) (rev (chain_spans n)) ([], [])
      = Inl (Err ''cyclic/deep workload graph'' [])"
proof
  show "\<exists>owners. res_fold (ownedSpan (chain_spans n) requests) (chain_spans n) ([], []) = Inr (owners, [])"
    using down_loop [of "Suc n" n requests] by (auto simp: chain_spans_def simp del: upt_Suc)
  have "owner (chain_spans n) [] (chain_key n) [] = Inl (Err ''cyclic/deep workload graph'' [])"
    by (rule up_owner) (use assms in auto)
  moreover have "rev (chain_spans n) = (chain_key n, chain_span n) # rev (map (\<lambda>i. (chain_key i, chain_span i)) [0..<n])"
    by (simp add: chain_spans_def)
  ultimately show "res_fold (ownedSpan (chain_spans n) requests) (rev (chain_spans n)) ([], [])
      = Inl (Err ''cyclic/deep workload graph'' [])"
    by (simp add: ownedSpan_def)
qed

theorem deep_chain_order_dependent_witness:
  "res_fold (ownedSpan (chain_spans 66) []) (rev (chain_spans 66)) ([], []) = Inl (Err ''cyclic/deep workload graph'' [])"
  using deep_chain_order_dependent [of 66 "[]"] by simp

end
