(* ===== verification/Proxy.thy ===== *)
theory Proxy
  imports Ledger
begin

text \<open>
  The parallel run of \<open>runParallelScenarios\<close> (\<open>src/harness/parallel_scenarios.go\<close>): the checks on
  its arguments, its jobs, and the recording proxy. The proxy's handler and its hook on responses
  hold a mutex, so they are steps on its state that interleave freely; \<open>httputil\<close>'s forwarding
  and the workers' processes lie between the steps. Header names are in lower case, as Go
  compares them without case.
\<close>

section \<open>The workload\<close>

text \<open>\<open>filepath.Base\<close>\<close>

definition base_name :: "string \<Rightarrow> string" where
  "base_name path =
     (if path = [] then ''.''
      else let p = rev (dropWhile (\<lambda>c. c = CHR ''/'') (rev path))
           in if p = [] then ''/'' else rev (takeWhile (\<lambda>c. c \<noteq> CHR ''/'') (rev p)))"

definition scenarioName :: "string \<Rightarrow> string" where
  "scenarioName spec = trim_suffix (base_name spec) ''.hurl''"

definition claimScenario :: "string \<Rightarrow> string set \<Rightarrow> string set result" where
  "claimScenario spec allowed =
     fail_if (scenarioName spec \<notin> allowed) (Err ''unexpected or duplicate scenario'' [])
       (Inr (allowed - {scenarioName spec}))"

definition checkWorkload :: "int \<Rightarrow> int \<Rightarrow> string \<Rightarrow> string list \<Rightarrow> string list \<Rightarrow> unit result" where
  "checkWorkload concurrency repetitions family scenarios specs =
     fail_if (concurrency < 2 \<or> concurrency > 128 \<or> repetitions < 1 \<or> repetitions > 20)
       (Err ''stress requires 2..128 workers and 1..20 repetitions'' [])
     (fail_if (family \<noteq> ''datadog'') (Err ''parallel trace isolation requires a Datadog profile'' [])
     (fail_if (length specs \<noteq> length scenarios) (Err ''parallel workload must contain every declared scenario'' [])
     (res_bind (res_fold claimScenario specs (set scenarios)) (\<lambda>_. Inr ()))))"

text \<open>\<open>type execution\<close>, and the jobs for given random identifiers\<close>

record execution =
  ex_id :: string
  ex_spec :: string
  ex_name :: string

definition stressJobs :: "string list \<Rightarrow> nat \<Rightarrow> string list \<Rightarrow> execution list \<times> (string, string) gomap" where
  "stressJobs ids repetitions specs =
     (let jobs = map2 (\<lambda>rid spec. \<lparr>ex_id = rid, ex_spec = spec, ex_name = scenarioName spec\<rparr>) ids
            (concat (replicate repetitions specs))
      in (jobs, fold (\<lambda>job. go_put (ex_id job) (ex_name job)) jobs []))"

section \<open>The proxy\<close>

record proxyState =
  px_ledger :: "requestLedger list"
  px_sequences :: "(string, int) gomap"

datatype proxyReply = Rejected nat string | Forwarded string "(string, string) gomap"

definition maxStressRequests :: nat where
  "maxStressRequests = 10000"

text \<open>The caller context the handler puts in place of the one a request carries.\<close>

definition freshTraceparent :: "string \<Rightarrow> string" where
  "freshTraceparent rid = ''00-'' @ take 16 rid @ ''00000000075bcd15-'' @ drop 16 rid @ ''-01''"

definition freshContext :: "string \<Rightarrow> (string, string) gomap \<Rightarrow> (string, string) gomap" where
  "freshContext rid headers =
     (let headers = (if go_get0 [] headers ''traceparent'' \<noteq> []
            then go_put ''traceparent'' (freshTraceparent rid) headers else headers)
      in if go_get0 [] headers ''x-datadog-trace-id'' \<noteq> [] then
           let p = (case parse_uint 16 64 (drop 16 rid) of Some p \<Rightarrow> p | None \<Rightarrow> 0)
           in go_put ''x-datadog-tags'' (''_dd.p.tid='' @ take 16 rid)
                (go_put ''x-datadog-parent-id'' (utoa p) (go_put ''x-datadog-trace-id'' ''123456789'' headers))
         else headers)"

definition context_keys :: "string list" where
  "context_keys = [''traceparent'', ''tracestate'', ''x-datadog-trace-id'', ''x-datadog-parent-id'', ''x-datadog-tags'',
     ''x-datadog-sampling-priority'']"

definition incomingOf :: "(string, string) gomap \<Rightarrow> (string, string) gomap" where
  "incomingOf headers =
     fold (\<lambda>key incoming. let v = go_get0 [] headers key in if v \<noteq> [] then go_put key v incoming else incoming)
       context_keys []"

text \<open>The handler, with the random identifier \<open>rid\<close> and the time \<open>now\<close> it reads.\<close>

definition proxyRequest :: "(string, string) gomap \<Rightarrow> string \<Rightarrow> int \<Rightarrow> string \<Rightarrow> string \<Rightarrow> string
    \<Rightarrow> (string, string) gomap \<Rightarrow> proxyState \<Rightarrow> proxyReply \<times> proxyState" where
  "proxyRequest executionNames rid now verb urlPath rawQuery headers s =
     (case str_cut (trim_prefix urlPath ''/'') ''/'' of
        None \<Rightarrow> (Rejected 400 ''execution required'', s)
      | Some (execution, path) \<Rightarrow>
          (case go_get executionNames execution of
             None \<Rightarrow> (Rejected 507 ''unknown execution or ledger overflow'', s)
           | Some name \<Rightarrow>
               if length (px_ledger s) \<ge> maxStressRequests then (Rejected 507 ''unknown execution or ledger overflow'', s)
               else
                 let sequence = go_get0 0 (px_sequences s) execution + 1;
                     headers = freshContext rid headers;
                     entry = \<lparr>rl_execution = execution, rl_scenario = name, rl_sequence = sequence, rl_id = rid,
                       rl_method = verb,
                       rl_path = ''/'' @ path @ (if rawQuery \<noteq> [] then ''?'' @ rawQuery else []),
                       rl_status = 0, rl_sqlCount = 0, rl_sqlMarker = [], rl_incoming = incomingOf headers,
                       rl_start = now, rl_end = 0\<rparr>
                 in (Forwarded (''/'' @ path) (go_put ''x-rules-stests-request-id'' rid headers),
                     \<lparr>px_ledger = px_ledger s @ [entry],
                      px_sequences = go_put execution sequence (px_sequences s)\<rparr>)))"

text \<open>\<open>ModifyResponse\<close>: the first entry with the id of the response is completed.\<close>

fun completeEntry :: "string \<Rightarrow> (requestLedger \<Rightarrow> requestLedger) \<Rightarrow> requestLedger list \<Rightarrow> requestLedger list" where
  "completeEntry rid f [] = []"
| "completeEntry rid f (entry # ledger) =
     (if rl_id entry = rid then f entry # ledger else entry # completeEntry rid f ledger)"

definition proxyResponse :: "string \<Rightarrow> int \<Rightarrow> string \<Rightarrow> string \<Rightarrow> int \<Rightarrow> proxyState \<Rightarrow> proxyState" where
  "proxyResponse rid status marker sqlCount now s =
     s\<lparr>px_ledger := completeEntry rid (\<lambda>entry. entry\<lparr>rl_status := status, rl_sqlMarker := marker,
         rl_sqlCount := (case atoi sqlCount of Some n \<Rightarrow> n | None \<Rightarrow> - 1), rl_end := now\<rparr>) (px_ledger s)\<rparr>"

text \<open>
  The steps of the proxy in the order in which they get the mutex. Random identifiers are 16
  bytes in hexadecimal; nothing keeps them from repeating.
\<close>

inductive proxy_step :: "(string, string) gomap \<Rightarrow> proxyState \<Rightarrow> proxyState \<Rightarrow> bool" for names where
  request: "length rid = 32 \<Longrightarrow> list_all is_lower_hex rid
    \<Longrightarrow> proxy_step names s (snd (proxyRequest names rid now verb urlPath rawQuery headers s))"
| response: "proxy_step names s (proxyResponse rid status marker sqlCount now s)"

definition proxy_start :: proxyState where
  "proxy_start = \<lparr>px_ledger = [], px_sequences = []\<rparr>"

definition proxy_reachable :: "(string, string) gomap \<Rightarrow> proxyState \<Rightarrow> bool" where
  "proxy_reachable names s \<longleftrightarrow> (proxy_step names)\<^sup>*\<^sup>* proxy_start s"

section \<open>Invariant\<close>

definition numbered_from_one :: "requestLedger list \<Rightarrow> string \<Rightarrow> bool" where
  "numbered_from_one ledger e \<longleftrightarrow> (\<exists>n. sequence_of ledger e = map int [1..<Suc n])"

definition proxy_ok :: "(string, string) gomap \<Rightarrow> proxyState \<Rightarrow> bool" where
  "proxy_ok names s \<longleftrightarrow> length (px_ledger s) \<le> maxStressRequests
     \<and> list_all (\<lambda>r. go_get names (rl_execution r) = Some (rl_scenario r)) (px_ledger s)
     \<and> (\<forall>e. go_get0 0 (px_sequences s) e = int (length (sequence_of (px_ledger s) e))
          \<and> numbered_from_one (px_ledger s) e)"

lemma proxy_okI:
  assumes "length (px_ledger s) \<le> maxStressRequests"
    "list_all (\<lambda>r. go_get names (rl_execution r) = Some (rl_scenario r)) (px_ledger s)"
    "\<And>e. go_get0 0 (px_sequences s) e = int (length (sequence_of (px_ledger s) e))"
    "\<And>e. numbered_from_one (px_ledger s) e"
  shows "proxy_ok names s"
  using assms by (simp add: proxy_ok_def)

lemma proxy_okD:
  assumes "proxy_ok names s"
  shows "length (px_ledger s) \<le> maxStressRequests"
    "list_all (\<lambda>r. go_get names (rl_execution r) = Some (rl_scenario r)) (px_ledger s)"
    "go_get0 0 (px_sequences s) e = int (length (sequence_of (px_ledger s) e))"
    "numbered_from_one (px_ledger s) e"
  using assms by (simp_all add: proxy_ok_def)

text \<open>What a request step adds.\<close>

lemma proxyRequest_cases:
  obtains (rejected) "snd (proxyRequest names rid now verb urlPath rawQuery headers s) = s"
  | (forwarded) entry where
      "snd (proxyRequest names rid now verb urlPath rawQuery headers s) = \<lparr>px_ledger = px_ledger s @ [entry],
        px_sequences = go_put (rl_execution entry) (rl_sequence entry) (px_sequences s)\<rparr>"
      "length (px_ledger s) < maxStressRequests" "rl_id entry = rid"
      "go_get names (rl_execution entry) = Some (rl_scenario entry)"
      "rl_sequence entry = go_get0 0 (px_sequences s) (rl_execution entry) + 1"
proof (cases "str_cut (trim_prefix urlPath ''/'') ''/''")
  case None
  then show ?thesis by (intro rejected) (simp add: proxyRequest_def)
next
  case (Some x)
  obtain e p where x: "x = (e, p)" by (cases x)
  show ?thesis
  proof (cases "go_get names e")
    case None
    with Some x show ?thesis by (intro rejected) (simp add: proxyRequest_def)
  next
    case name: (Some name)
    show ?thesis
    proof (cases "length (px_ledger s) \<ge> maxStressRequests")
      case True
      with Some x name show ?thesis by (intro rejected) (simp add: proxyRequest_def)
    next
      case False
      let ?entry = "\<lparr>rl_execution = e, rl_scenario = name, rl_sequence = go_get0 0 (px_sequences s) e + 1, rl_id = rid,
        rl_method = verb, rl_path = ''/'' @ p @ (if rawQuery \<noteq> [] then ''?'' @ rawQuery else []),
        rl_status = 0, rl_sqlCount = 0, rl_sqlMarker = [], rl_incoming = incomingOf (freshContext rid headers),
        rl_start = now, rl_end = 0\<rparr>"
      show ?thesis
        by (rule forwarded [of ?entry]) (use Some x name False in \<open>simp_all add: proxyRequest_def Let_def\<close>)
    qed
  qed
qed

lemma numbered_length: "sequence_of l e = map int [1..<Suc n] \<Longrightarrow> length (sequence_of l e) = n"
  by simp

lemma proxy_ok_request:
  assumes "proxy_ok names s"
  shows "proxy_ok names (snd (proxyRequest names rid now verb urlPath rawQuery headers s))"
proof (cases rule: proxyRequest_cases [of names rid now verb urlPath rawQuery headers s])
  case rejected
  with assms show ?thesis by simp
next
  case (forwarded entry)
  note ok = proxy_okD [OF assms]
  let ?l = "px_ledger s @ [entry]"
  have next_number: "rl_sequence entry = int (Suc (length (sequence_of (px_ledger s) (rl_execution entry))))"
    using forwarded(5) ok(3) by simp
  have "numbered_from_one ?l e" for e
  proof -
    obtain n where n: "sequence_of (px_ledger s) e = map int [1..<Suc n]"
      using ok(4) [of e] by (auto simp only: numbered_from_one_def)
    note len = numbered_length [OF n]
    have "sequence_of ?l e = map int [1..<Suc (if rl_execution entry = e then Suc n else n)]"
      using n len next_number by (cases "rl_execution entry = e") simp_all
    then show ?thesis by (auto simp only: numbered_from_one_def)
  qed
  moreover have "go_get0 0 (go_put (rl_execution entry) (rl_sequence entry) (px_sequences s)) e = int (length (sequence_of ?l e))" for e
    using ok(3) [of e] next_number by simp
  ultimately show ?thesis
    unfolding forwarded(1) by (intro proxy_okI) (use ok(1,2) forwarded(2-4) in auto)
qed

lemma completeEntry_kept:
  assumes "\<And>r. rl_id (f r) = rl_id r" "\<And>r. rl_execution (f r) = rl_execution r"
    "\<And>r. rl_sequence (f r) = rl_sequence r" "\<And>r. rl_scenario (f r) = rl_scenario r"
  shows "map rl_id (completeEntry rid f l) = map rl_id l" "sequence_of (completeEntry rid f l) e = sequence_of l e"
    "list_all (\<lambda>r. P (rl_execution r) (rl_scenario r)) (completeEntry rid f l)
      \<longleftrightarrow> list_all (\<lambda>r. P (rl_execution r) (rl_scenario r)) l"
    "length (completeEntry rid f l) = length l"
  by (induction l) (auto simp: assms sequence_of_def)

lemma proxy_ok_response:
  "proxy_ok names s \<Longrightarrow> proxy_ok names (proxyResponse rid status marker sqlCount now s)"
  unfolding proxy_ok_def proxyResponse_def numbered_from_one_def
  by (simp add: completeEntry_kept completeEntry_kept(3) [where P = "\<lambda>e n. go_get names e = Some n"])

lemma reachable_ok: "proxy_reachable names s \<Longrightarrow> proxy_ok names s"
  unfolding proxy_reachable_def
proof (induction rule: rtranclp_induct)
  case base
  show ?case by (rule proxy_okI) (simp_all add: proxy_start_def go_get0_def numbered_from_one_def exI [of _ 0])
next
  case (step s t)
  from step.hyps(2) step.IH show ?case
    by (cases rule: proxy_step.cases) (auto intro: proxy_ok_request proxy_ok_response)
qed

lemma numbered_set_of: "numbered_from_one l e \<Longrightarrow> set (sequence_of l e) = int ` {1..length (sequence_of l e)}"
proof -
  assume "numbered_from_one l e"
  then obtain n where n: "sequence_of l e = map int [1..<Suc n]" by (auto simp only: numbered_from_one_def)
  have "set (sequence_of l e) = int ` {1..n}"
    unfolding n by (simp add: atLeastLessThanSuc_atLeastAtMost del: upt_Suc)
  with numbered_length [OF n] show ?thesis by simp
qed

text \<open>
  C25. However requests and responses interleave, the ledger of the proxy has at most 10,000
  entries, all of known executions and with the name of their scenario, numbered 1, 2, ... in each
  execution in the order of arrival. So the checks of \<open>validateStress\<close> on the ledger never miss a
  number: they pass just when every entry is complete and no two random identifiers are equal.
\<close>

theorem proxy_ledger_numbered:
  assumes "proxy_reachable names s"
  shows "length (px_ledger s) \<le> maxStressRequests
    \<and> list_all (\<lambda>r. go_get names (rl_execution r) = Some (rl_scenario r)) (px_ledger s)
    \<and> (\<forall>e. \<exists>n. sequence_of (px_ledger s) e = map int [1..<Suc n])
    \<and> (checkLedger (px_ledger s) = Inr (request_map (px_ledger s))
       \<longleftrightarrow> list_all entry_ok (px_ledger s) \<and> distinct (map rl_id (px_ledger s)))"
proof -
  note ok = reachable_ok [OF assms]
  then have "\<exists>n. sequence_of (px_ledger s) e = map int [1..<Suc n]" for e
    unfolding proxy_ok_def numbered_from_one_def by blast
  moreover have "checkLedger (px_ledger s) = Inr (request_map (px_ledger s))
      \<longleftrightarrow> list_all entry_ok (px_ledger s) \<and> distinct (map rl_id (px_ledger s))"
    using ok numbered_set_of by (auto simp: checkLedger_iff ledger_ok_def proxy_ok_def)
  ultimately show ?thesis using proxy_okD(1,2) [OF ok] by blast
qed

definition ex_rid :: string where
  "ex_rid = ''0123456789abcdef0123456789abcdef''"

definition ex_rid2 :: string where
  "ex_rid2 = ''fedcba9876543210fedcba9876543210''"

definition ex_exchange :: "string \<Rightarrow> proxyState \<Rightarrow> proxyState" where
  "ex_exchange rid s = proxyResponse rid 200 ''m'' ''0'' 9
     (snd (proxyRequest [(''e'', ''n'')] rid 5 ''GET'' ''/e/x'' [] [] s))"

lemma ex_exchange_reached:
  assumes "length rid = 32" "list_all is_lower_hex rid" "proxy_reachable [(''e'', ''n'')] s"
  shows "proxy_reachable [(''e'', ''n'')] (ex_exchange rid s)"
  using assms unfolding proxy_reachable_def ex_exchange_def
  by (auto intro: proxy_step.intros rtranclp.rtrancl_into_rtrancl)

theorem proxy_ledger_numbered_witness:
  "\<exists>s. map rl_sequence (px_ledger s) = [1, 2] \<and> checkLedger (px_ledger s) = Inr (request_map (px_ledger s))
    \<and> checkLedger (px_ledger (ex_exchange ex_rid s)) \<noteq> Inr (request_map (px_ledger (ex_exchange ex_rid s)))"
proof -
  let ?s = "ex_exchange ex_rid2 (ex_exchange ex_rid proxy_start)"
  have rid: "length ex_rid = 32" "list_all is_lower_hex ex_rid" "length ex_rid2 = 32" "list_all is_lower_hex ex_rid2"
    by (simp_all add: ex_rid_def ex_rid2_def is_lower_hex_def is_digit_def)
  have "proxy_reachable [(''e'', ''n'')] proxy_start" by (simp add: proxy_reachable_def)
  note s = ex_exchange_reached [OF rid(3,4) ex_exchange_reached [OF rid(1,2) this]]
  have l: "map rl_sequence (px_ledger ?s) = [1, 2]" "list_all entry_ok (px_ledger ?s)"
    "map rl_id (px_ledger ?s) = [ex_rid, ex_rid2]"
    "map rl_id (px_ledger (ex_exchange ex_rid ?s)) = [ex_rid, ex_rid2, ex_rid]"
    by (code_simp, code_simp, code_simp, code_simp)
  have "distinct (map rl_id (px_ledger ?s))" "\<not> distinct (map rl_id (px_ledger (ex_exchange ex_rid ?s)))"
    unfolding l(3,4) by (simp_all add: ex_rid_def ex_rid2_def)
  with proxy_ledger_numbered [OF s] proxy_ledger_numbered [OF ex_exchange_reached [OF rid(1,2) s]] l(1,2) show ?thesis
    by (intro exI [of _ ?s]) (simp only: simp_thms)
qed

section \<open>The caller context\<close>

lemma split_byte_simple: "c \<notin> set a \<Longrightarrow> split_byte c (a @ c # b) = a # split_byte c b"
  by (induction a) (auto split: list.splits)

lemma split_byte_none: "c \<notin> set a \<Longrightarrow> split_byte c a = [a]"
  by (induction a) auto

lemma hex_no_dash: "list_all is_lower_hex s \<Longrightarrow> CHR ''-'' \<notin> set s"
  by (auto simp: list_all_iff is_lower_hex_def is_digit_def)

lemma fresh_parts:
  assumes "length rid = 32" "list_all is_lower_hex rid"
  shows "split_byte (CHR ''-'') (freshTraceparent rid)
    = [''00'', take 16 rid @ ''00000000075bcd15'', drop 16 rid, ''01'']"
proof -
  have h: "list_all is_lower_hex (take 16 rid)" "list_all is_lower_hex (drop 16 rid)"
    using assms(2) by (auto simp: list_all_iff dest: in_set_takeD in_set_dropD)
  have eq: "freshTraceparent rid = ''00'' @ CHR ''-'' # (take 16 rid @ ''00000000075bcd15'') @ CHR ''-'' # drop 16 rid @ CHR ''-'' # ''01''"
    by (simp add: freshTraceparent_def)
  show ?thesis
    unfolding eq using hex_no_dash [OF h(1)] hex_no_dash [OF h(2)]
    by (subst split_byte_simple, simp)+ (simp add: split_byte_none)
qed

lemma hex_digits_bound:
  "list_all is_hex s \<Longrightarrow> foldl (\<lambda>a c. 16 * a + hex_value c) v s < (v + 1) * 16 ^ length s"
proof (induction s arbitrary: v)
  case (Cons c s)
  have "hex_value c \<le> 15" using Cons.prems by (auto simp: hex_value_def is_hex_def is_lower_hex_def is_digit_def)
  then have "16 * v + hex_value c + 1 \<le> (v + 1) * 16" by simp
  then have "(16 * v + hex_value c + 1) * 16 ^ length s \<le> (v + 1) * 16 * 16 ^ length s" by (rule mult_le_mono1)
  moreover have "foldl (\<lambda>a c. 16 * a + hex_value c) (16 * v + hex_value c) s < (16 * v + hex_value c + 1) * 16 ^ length s"
    using Cons by simp
  ultimately have "foldl (\<lambda>a c. 16 * a + hex_value c) (16 * v + hex_value c) s < (v + 1) * 16 * 16 ^ length s"
    by (rule order_less_le_trans [rotated])
  then show ?case by (simp add: algebra_simps)
qed simp

lemma parse_hex16: "list_all is_hex s \<Longrightarrow> length s = 16 \<Longrightarrow> parse_uint 16 64 s \<noteq> None"
  using hex_digits_bound [of s 0] by (auto simp: parse_uint_def Let_def)

lemma incomingOf_get:
  "go_get0 [] (incomingOf headers) key = (if key \<in> set context_keys then go_get0 [] headers key else [])"
proof -
  have "go_get0 [] (fold (\<lambda>key incoming. let v = go_get0 [] headers key in if v \<noteq> [] then go_put key v incoming else incoming)
      keys m) key = (if key \<in> set keys \<and> go_get0 [] headers key \<noteq> [] then go_get0 [] headers key else go_get0 [] m key)"
    for keys m
    by (induction keys arbitrary: m) (auto simp: Let_def)
  from this [of context_keys "[]"] show ?thesis by (simp add: incomingOf_def go_get0_def)
qed

lemma base10: "parse_uint 10 64 s = (if s = [] \<or> \<not> list_all is_digit s then None
    else if digits_value s < 2 ^ 64 then Some (digits_value s) else None)"
proof -
  have "list_all is_digit s \<Longrightarrow> foldl (\<lambda>a c. 10 * a + hex_value c) v s = foldl (\<lambda>a c. 10 * a + (byte_of c - 48)) v s" for v
    by (induction s arbitrary: v) (simp_all add: hex_value_def)
  then show ?thesis by (simp add: parse_uint_def Let_def digits_value_def)
qed

lemma base10_utoa: "n < 2 ^ 64 \<Longrightarrow> parse_uint 10 64 (utoa n) = Some n"
  by (simp add: base10 utoa_digits digits_value_utoa)

lemma parse_uint_range: "parse_uint base bits s = Some n \<Longrightarrow> n < 2 ^ bits"
  by (auto simp: parse_uint_def Let_def split: if_splits)

text \<open>What the proxy records of the caller of a request.\<close>

lemma fresh_recorded:
  "go_get0 [] (incomingOf (freshContext rid headers)) ''traceparent''
     = (if go_get0 [] headers ''traceparent'' \<noteq> [] then freshTraceparent rid else [])"
  "go_get0 [] (incomingOf (freshContext rid headers)) ''x-datadog-trace-id''
     = (if go_get0 [] headers ''x-datadog-trace-id'' \<noteq> [] then ''123456789'' else [])"
  "go_get0 [] headers ''x-datadog-trace-id'' \<noteq> [] \<Longrightarrow>
     go_get0 [] (incomingOf (freshContext rid headers)) ''x-datadog-parent-id''
     = utoa (case parse_uint 16 64 (drop 16 rid) of Some p \<Rightarrow> p | None \<Rightarrow> 0)"
  "go_get0 [] headers ''x-datadog-trace-id'' \<noteq> [] \<Longrightarrow>
     go_get0 [] (incomingOf (freshContext rid headers)) ''x-datadog-tags'' = ''_dd.p.tid='' @ take 16 rid"
  by (simp_all add: incomingOf_get context_keys_def freshContext_def Let_def)

text \<open>
  C26. The caller context that the proxy writes for a request, in the W3C header, in the Datadog
  headers or in both, is recorded as the incoming context, and \<open>validateStress\<close> accepts it for exactly
  the server spans with the fixed low trace bits, the high bits of the request's identifier and its
  other half, not zero, as their parent; a request that carried no context is accepted for exactly the
  server spans without a parent.
\<close>

theorem fresh_context_checked:
  fixes rid :: string and headers :: "(string, string) gomap" and key :: stressIdentity and span :: stressSpan
  assumes "length rid = 32" "list_all is_lower_hex rid"
  defines "incoming \<equiv> incomingOf (freshContext rid headers)"
  shows "go_get0 [] incoming ''traceparent'' = (if go_get0 [] headers ''traceparent'' \<noteq> [] then freshTraceparent rid else [])
    \<and> (checkCaller incoming key span = Inr ()
      \<longleftrightarrow> (if go_get0 [] headers ''traceparent'' \<noteq> [] \<or> go_get0 [] headers ''x-datadog-trace-id'' \<noteq> []
          then si_low key = 123456789 \<and> si_high key = take 16 rid
            \<and> parse_uint 16 64 (drop 16 rid) = Some (ss_parentID span) \<and> ss_parentID span \<noteq> 0
          else ss_parentID span = 0))"
proof -
  note rec = fresh_recorded [where rid = rid and headers = headers, folded incoming_def]
  have h: "list_all is_hex (take 16 rid)" "list_all is_hex (drop 16 rid)"
    using assms(2) by (auto simp: list_all_iff lower_hex_is_hex dest: in_set_takeD in_set_dropD)
  obtain high parent where p: "parse_uint 16 64 (take 16 rid) = Some high" "parse_uint 16 64 (drop 16 rid) = Some parent"
    using parse_hex16 [OF h(1)] parse_hex16 [OF h(2)] assms(1) by auto
  have low: "parse_uint 16 64 ''00000000075bcd15'' = Some 123456789"
    by (simp add: parse_uint_def hex_value_def is_hex_def is_lower_hex_def is_digit_def)
  have flags: "parse_uint 16 8 ''01'' = Some 1"
    by (simp add: parse_uint_def hex_value_def is_hex_def is_lower_hex_def is_digit_def)
  have low10: "parse_uint 10 64 ''123456789'' = Some 123456789"
    by (simp add: parse_uint_def hex_value_def is_digit_def)
  have parent10: "parse_uint 10 64 (utoa parent) = Some parent" by (rule base10_utoa) (rule parse_uint_range [OF p(2)])
  consider (w3c) "go_get0 [] headers ''traceparent'' \<noteq> []"
    | (datadog) "go_get0 [] headers ''traceparent'' = []" "go_get0 [] headers ''x-datadog-trace-id'' \<noteq> []"
    | (none) "go_get0 [] headers ''traceparent'' = []" "go_get0 [] headers ''x-datadog-trace-id'' = []" by blast
  then show ?thesis
  proof cases
    case w3c
    have n: "freshTraceparent rid \<noteq> []" by (simp add: freshTraceparent_def)
    have "checkCaller incoming key span = checkTraceparent (freshTraceparent rid) key span"
      using rec(1) w3c n by (simp add: checkCaller_def Let_def)
    also have "\<dots> = Inr () \<longleftrightarrow> si_low key = 123456789 \<and> si_high key = take 16 rid \<and> ss_parentID span = parent \<and> parent \<noteq> 0"
      using assms(1) p low flags by (auto simp: checkTraceparent_def fresh_parts [OF assms(1,2)] Let_def fail_if_Inr_iff)
    finally show ?thesis using rec(1) w3c p(2) by auto
  next
    case datadog
    have "checkCaller incoming key span = checkDatadogContext ''123456789'' incoming key span"
      using rec(1,2) datadog by (simp add: checkCaller_def Let_def)
    also have "\<dots> = Inr () \<longleftrightarrow> si_low key = 123456789 \<and> si_high key = take 16 rid \<and> ss_parentID span = parent \<and> parent \<noteq> 0"
      using rec(3,4) [OF datadog(2)] p(2) low10 parent10
      by (auto simp: checkDatadogContext_def fail_if_Inr_iff)
    finally show ?thesis using rec(1) datadog p(2) by auto
  next
    case none
    then show ?thesis using rec(1,2) by (simp add: checkCaller_def Let_def fail_if_Inr_iff)
  qed
qed

theorem fresh_context_checked_witness:
  "checkCaller (incomingOf (freshContext ex_rid [(''x-datadog-trace-id'', ''x'')]))
    \<lparr>si_low = 123456789, si_high = ''0123456789abcdef'', si_span = 1\<rparr> (zero_span\<lparr>ss_parentID := 0x0123456789abcdef\<rparr>) = Inr ()"
proof -
  let ?key = "\<lparr>si_low = 123456789, si_high = ''0123456789abcdef'', si_span = 1\<rparr>"
    and ?span = "zero_span\<lparr>ss_parentID := 0x0123456789abcdef\<rparr>" and ?headers = "[(''x-datadog-trace-id'', ''x'')]"
  have p: "parse_uint 16 64 (drop 16 ex_rid) = Some 0x0123456789abcdef"
    by (simp add: ex_rid_def parse_uint_def hex_value_def is_hex_def is_lower_hex_def is_digit_def)
  have r: "length ex_rid = 32" "list_all is_lower_hex ex_rid" "take 16 ex_rid = ''0123456789abcdef''"
    by (simp_all add: ex_rid_def is_lower_hex_def is_digit_def)
  have h: "go_get0 [] ?headers ''x-datadog-trace-id'' \<noteq> []" by (simp add: go_get0_def)
  have "si_low ?key = 123456789 \<and> si_high ?key = take 16 ex_rid
      \<and> parse_uint 16 64 (drop 16 ex_rid) = Some (ss_parentID ?span) \<and> ss_parentID ?span \<noteq> 0"
    using p r(3) by simp
  then show ?thesis using fresh_context_checked [of ex_rid ?headers ?key ?span, OF r(1,2)] h by simp
qed

section \<open>The scenarios of a run\<close>

lemma claimScenario_iff:
  "claimScenario spec allowed = Inr rest \<longleftrightarrow> scenarioName spec \<in> allowed \<and> rest = allowed - {scenarioName spec}"
  by (auto simp: claimScenario_def fail_if_Inr_iff)

lemma claimed_scenarios:
  "res_fold claimScenario specs allowed = Inr rest \<longleftrightarrow> distinct (map scenarioName specs)
    \<and> scenarioName ` set specs \<subseteq> allowed \<and> rest = allowed - scenarioName ` set specs"
proof (induction specs arbitrary: allowed)
  case (Cons spec specs)
  show ?case
    by (simp only: res_fold.simps res_bind_Inr_iff claimScenario_iff Cons.IH) (auto simp: rev_image_eqI)
qed auto

text \<open>The accepted arguments name each declared scenario exactly once.\<close>

lemma workload_scenarios:
  assumes "checkWorkload concurrency repetitions family scenarios specs = Inr ()"
  shows "mset (map scenarioName specs) = mset scenarios" "distinct scenarios"
proof -
  have d: "distinct (map scenarioName specs)" "set (map scenarioName specs) \<subseteq> set scenarios" "length specs = length scenarios"
    using assms by (auto simp: checkWorkload_def fail_if_Inr_iff res_bind_Inr_iff claimed_scenarios)
  then have "card (set (map scenarioName specs)) = length scenarios" by (metis distinct_card length_map)
  moreover have "card (set (map scenarioName specs)) \<le> card (set scenarios)" by (rule card_mono) (use d in auto)
  ultimately show "distinct scenarios" by (metis card_distinct card_length le_antisym)
  then have "set (map scenarioName specs) = set scenarios"
    by (intro card_subset_eq) (use d \<open>card (set (map scenarioName specs)) = length scenarios\<close> in \<open>auto simp: distinct_card\<close>)
  then show "mset (map scenarioName specs) = mset scenarios"
    using set_eq_iff_mset_eq_distinct [OF d(1) \<open>distinct scenarios\<close>] by blast
qed

end
