(* ===== verification/Bundles.thy ===== *)
theory Bundles
  imports Sources Sha256
begin

text \<open>
  Scheme bytecode bundles, \<open>harness/schemebytecode/schemebytecode.go\<close>: the workers that compile
  the programs of a test, the bundle written for them with the digests of their sources, the
  selection of a shard, the merge of several bundles and the lookup that rejects a stale entry.
  The external compiler is an argument of the model (\<open>compileOne\<close> runs it on one source; the index
  it also gets only names the two scratch files), and so is the outcome of reading and decoding a
  bundle file. A bundle is a Go map: its order is the order in which Go ranges over it.
\<close>

section \<open>Data\<close>

record Program =
  pr_name :: string
  pr_source :: string

record Compiled =
  cp_sourceSHA256 :: string
  cp_bytecode :: string

type_synonym Bundle = "(string, Compiled) gomap"

section \<open>Compiling\<close>

text \<open>
  A worker takes an index from the channel and stores the outcome at this index of the slices
  \<open>results\<close> and \<open>failures\<close>, which are one list of results here. The channel hands every index
  to one worker; \<open>order\<close> is the order in which the workers happen to store.
\<close>

definition storeResult :: "(Program \<Rightarrow> string result) \<Rightarrow> Program list \<Rightarrow> nat
    \<Rightarrow> string result list \<Rightarrow> string result list" where
  "storeResult compileOne programs i results = results[i := compileOne (programs ! i)]"

definition runWorkers :: "(Program \<Rightarrow> string result) \<Rightarrow> Program list \<Rightarrow> nat list
    \<Rightarrow> string result list" where
  "runWorkers compileOne programs order =
     fold (storeResult compileOne programs) order (replicate (length programs) (Inr []))"

text \<open>The loop over the programs after the workers are done.\<close>

definition collectCompiled :: "Program \<times> string result \<Rightarrow> (string, string) gomap
    \<Rightarrow> (string, string) gomap result" where
  "collectCompiled = (\<lambda>(program, outcome) compiled.
     res_bind outcome (\<lambda>bytecode.
     fail_if (go_get compiled (pr_name program) \<noteq> None)
       (Err ''duplicate Scheme program %q'' [pr_name program])
       (Inr (go_put (pr_name program) bytecode compiled))))"

definition CompileAll :: "(Program \<Rightarrow> string result) \<Rightarrow> nat list \<Rightarrow> Program list
    \<Rightarrow> (string, string) gomap result" where
  "CompileAll compileOne order programs =
     res_fold collectCompiled (zip programs (runWorkers compileOne programs order)) []"

text \<open>The bundle that \<open>WriteBundle\<close> writes; \<open>compiled[program.Name]\<close> of a missing name is empty.\<close>

definition addToBundle :: "(string, string) gomap \<Rightarrow> Program \<Rightarrow> Bundle \<Rightarrow> Bundle" where
  "addToBundle compiled program =
     go_put (pr_name program)
       \<lparr>cp_sourceSHA256 = digest (pr_source program),
        cp_bytecode = go_get0 [] compiled (pr_name program)\<rparr>"

definition WriteBundle :: "(Program \<Rightarrow> string result) \<Rightarrow> nat list \<Rightarrow> Program list
    \<Rightarrow> Bundle result" where
  "WriteBundle compileOne order programs =
     res_bind (CompileAll compileOne order programs) (\<lambda>compiled.
       Inr (fold (addToBundle compiled) programs []))"

section \<open>Reading\<close>

definition Bytecode :: "Bundle \<Rightarrow> string \<Rightarrow> string \<Rightarrow> string result" where
  "Bytecode bundle name source =
     (case go_get bundle name of
        None \<Rightarrow> Inl (Err ''Scheme program %q was not precompiled'' [name])
      | Some compiled \<Rightarrow>
          fail_if (cp_sourceSHA256 compiled \<noteq> digest source \<or> cp_bytecode compiled = [])
            (Err ''precompiled Scheme program %q is stale'' [name])
            (Inr (cp_bytecode compiled)))"

text \<open>The programs of shard \<open>k/n\<close>; \<open>position % shards\<close> is a remainder of non-negative numbers.\<close>

definition selectShard :: "nat \<Rightarrow> nat \<Rightarrow> 'a list \<Rightarrow> 'a list" where
  "selectShard shard shards programs =
     map snd (filter (\<lambda>(position, _). position mod shards = shard) (enumerate 0 programs))"

definition Shard :: "Program list \<Rightarrow> string \<Rightarrow> Program list result" where
  "Shard programs spec =
     (if spec = [] then Inr programs
      else let invalid = Inl (Err ''invalid shard %q'' [spec]) in
        (case str_cut spec ''/'' of
           None \<Rightarrow> invalid
         | Some (index, cnt) \<Rightarrow>
             (case (atoi index, atoi cnt) of
                (Some shard, Some shards) \<Rightarrow>
                  if shards < 1 \<or> shard < 0 \<or> shard \<ge> shards then invalid
                  else Inr (selectShard (nat shard) (nat shards) programs)
              | _ \<Rightarrow> invalid)))"

definition mergeProgram :: "string \<times> Compiled \<Rightarrow> Bundle \<Rightarrow> Bundle result" where
  "mergeProgram = (\<lambda>(name, compiled) merged.
     fail_if (go_get merged name \<noteq> None) (Err ''Scheme program %q is in more than one bundle'' [name])
       (Inr (go_put name compiled merged)))"

text \<open>The outcomes of \<open>ReadBundle\<close> on the paths are the argument; no path gives \<open>nil\<close>.\<close>

definition mergeBundle :: "Bundle result \<Rightarrow> Bundle \<Rightarrow> Bundle result" where
  "mergeBundle read merged = res_bind read (\<lambda>bundle. res_fold mergeProgram bundle merged)"

definition ReadBundles :: "Bundle result list \<Rightarrow> Bundle option result" where
  "ReadBundles reads =
     (if reads = [] then Inr None
      else res_bind (res_fold mergeBundle reads []) (\<lambda>merged. Inr (Some merged)))"

definition Names :: "Bundle \<Rightarrow> string list" where
  "Names bundle = sort (go_keys bundle)"

section \<open>The workers\<close>

text \<open>Every order in which the workers store the outcomes gives the list of outcomes.\<close>

lemma fold_store_nth:
  "i < length results \<Longrightarrow> fold (storeResult c ps) order results ! i
     = (if i \<in> set order then c (ps ! i) else results ! i)"
  by (induction order arbitrary: results) (auto simp: storeResult_def)

lemma fold_store_length: "length (fold (storeResult c ps) order results) = length results"
  by (induction order arbitrary: results) (simp_all add: storeResult_def)

lemma runWorkers_any_order:
  assumes "set order = {..<length ps}"
  shows "runWorkers c ps order = map c ps"
  using assms
  by (intro nth_equalityI) (simp_all add: runWorkers_def fold_store_length fold_store_nth)

lemma collect_ok:
  "res_fold collectCompiled (zip ps (map c ps)) m = Inr r
    \<Longrightarrow> (\<forall>p \<in> set ps. \<exists>b. c p = Inr b \<and> go_get r (pr_name p) = Some b)
      \<and> (\<forall>n. n \<notin> pr_name ` set ps \<longrightarrow> go_get r n = go_get m n)
      \<and> distinct (map pr_name ps) \<and> (\<forall>p \<in> set ps. go_get m (pr_name p) = None)"
proof (induction ps arbitrary: m)
  case (Cons p ps)
  from Cons.prems obtain b where b: "c p = Inr b" "go_get m (pr_name p) = None"
    and r: "res_fold collectCompiled (zip ps (map c ps)) (go_put (pr_name p) b m) = Inr r"
    by (auto simp: collectCompiled_def res_bind_Inr_iff fail_if_Inr_iff)
  note IH = Cons.IH [OF r]
  from IH b(2) have "pr_name p \<notin> pr_name ` set ps" by (auto simp: go_get_put)
  with IH have "go_get r (pr_name p) = Some b" by (simp add: go_get_put)
  with IH b show ?case by (auto simp: go_get_put split: if_splits)
qed simp

lemma CompileAll_ok:
  assumes "CompileAll c order ps = Inr compiled" "set order = {..<length ps}"
  shows "distinct (map pr_name ps)"
    and "p \<in> set ps \<Longrightarrow> \<exists>b. c p = Inr b \<and> go_get compiled (pr_name p) = Some b"
  using collect_ok [of ps c "[]" compiled] assms
  by (auto simp: CompileAll_def runWorkers_any_order)

lemma collect_total:
  "distinct (map pr_name ps) \<Longrightarrow> \<forall>p \<in> set ps. c p = Inr (code p)
    \<Longrightarrow> \<forall>p \<in> set ps. go_get m (pr_name p) = None
    \<Longrightarrow> \<exists>r. res_fold collectCompiled (zip ps (map c ps)) m = Inr r"
proof (induction ps arbitrary: m)
  case (Cons p ps)
  have "\<exists>r. res_fold collectCompiled (zip ps (map c ps)) (go_put (pr_name p) (code p) m) = Inr r"
    using Cons.prems by (intro Cons.IH) (auto simp: go_get_put image_iff)
  with Cons.prems show ?case by (simp add: collectCompiled_def)
qed simp

text \<open>What the bundle of distinct programs maps their names to, and nothing else.\<close>

lemma go_get_fold_other:
  "n \<notin> pr_name ` set ps \<Longrightarrow> go_get (fold (addToBundle compiled) ps m) n = go_get m n"
  by (induction ps arbitrary: m) (auto simp: addToBundle_def go_get_put)

lemma go_get_fold_bundle:
  "distinct (map pr_name ps) \<Longrightarrow> p \<in> set ps \<Longrightarrow>
   go_get (fold (addToBundle compiled) ps m) (pr_name p) =
     Some \<lparr>cp_sourceSHA256 = digest (pr_source p),
           cp_bytecode = go_get0 [] compiled (pr_name p)\<rparr>"
  by (induction ps arbitrary: m) (auto simp: addToBundle_def go_get_put go_get_fold_other)

lemma go_keys_fold_bundle:
  "set (go_keys (fold (addToBundle compiled) ps m)) = pr_name ` set ps \<union> set (go_keys m)"
  by (induction ps arbitrary: m) (auto simp: addToBundle_def go_keys_dom go_get_put)

lemma go_map_fold_bundle: "go_map m \<Longrightarrow> go_map (fold (addToBundle compiled) ps m)"
  by (induction ps arbitrary: m) (auto simp: addToBundle_def go_map_put)

lemma WriteBundle_ok:
  assumes w: "WriteBundle c order ps = Inr bundle" and o: "set order = {..<length ps}"
  shows "go_map bundle" and "set (go_keys bundle) = pr_name ` set ps"
    and "p \<in> set ps \<Longrightarrow> c p = Inr b \<Longrightarrow>
      go_get bundle (pr_name p) = Some \<lparr>cp_sourceSHA256 = digest (pr_source p), cp_bytecode = b\<rparr>"
proof -
  from w obtain compiled where compiled: "CompileAll c order ps = Inr compiled"
    and b: "bundle = fold (addToBundle compiled) ps []"
    by (auto simp: WriteBundle_def res_bind_Inr_iff)
  note ok = CompileAll_ok [OF compiled o]
  show "go_map bundle" unfolding b by (rule go_map_fold_bundle) (simp add: go_map_def go_keys_def)
  show "set (go_keys bundle) = pr_name ` set ps"
    unfolding b go_keys_fold_bundle by (simp add: go_keys_def)
  show "go_get bundle (pr_name p) = Some \<lparr>cp_sourceSHA256 = digest (pr_source p), cp_bytecode = b\<rparr>"
    if "p \<in> set ps" "c p = Inr b"
    using that ok(2) [OF that(1)] unfolding b go_get_fold_bundle [OF ok(1) that(1)]
    by (auto simp: go_get0_def)
qed

section \<open>Shards\<close>

lemma selectShard_snoc:
  "selectShard k n (xs @ [x]) = selectShard k n xs @ (if length xs mod n = k then [x] else [])"
  by (simp add: selectShard_def enumerate_append_eq)

lemma selectShard_Nil [simp]: "selectShard k n [] = []"
  by (simp add: selectShard_def)

lemma selectShard_subseq: "subseq (selectShard k n xs) xs"
  by (induction xs rule: rev_induct) (auto simp: selectShard_snoc intro: list_emb_append_mono)

lemma subseq_set: "subseq xs ys \<Longrightarrow> set xs \<subseteq> set ys"
  by (induction rule: list_emb.induct) auto

lemma subseq_distinct_map: "subseq xs ys \<Longrightarrow> distinct (map f ys) \<Longrightarrow> distinct (map f xs)"
  by (induction rule: list_emb.induct) (auto dest: subseq_set)

lemma shard_step:
  assumes "k < n"
  shows "(Suc m + n - 1 - k) div n = (m + n - 1 - k) div n + (if m mod n = k then 1 else (0 :: nat))"
proof -
  define q r where "q = m div n" and "r = m mod n"
  have m: "m = q * n + r" by (simp add: q_def r_def)
  have r: "r < n" using assms by (simp add: r_def)
  have q1: "(q * n + c) div n = q + c div n" for c
    using assms by simp
  have "Suc m + n - 1 - k = q * n + (r + n - k)" "m + n - 1 - k = q * n + (r + n - 1 - k)"
    using assms m by linarith+
  then have "(Suc m + n - 1 - k) div n = q + (r + n - k) div n"
    "(m + n - 1 - k) div n = q + (r + n - 1 - k) div n"
    by (simp_all only: q1)
  moreover have "(r + n - k) div n = (if k \<le> r then 1 else 0)"
    "(r + n - 1 - k) div n = (if k < r then 1 else 0)"
    using assms r by (auto simp: div_eq_0_iff intro!: div_nat_eqI)
  ultimately show ?thesis by (simp add: r_def)
qed

lemma selectShard_length:
  assumes "k < n"
  shows "length (selectShard k n xs) = (length xs + n - 1 - k) div n"
proof (induction xs rule: rev_induct)
  case (snoc x xs)
  then show ?case using shard_step [OF assms, of "length xs"] by (simp add: selectShard_snoc)
qed (use assms in simp)

lemma selectShard_mset:
  assumes "0 < n"
  shows "(\<Sum>k<n. mset (selectShard k n xs)) = mset xs"
proof (induction xs rule: rev_induct)
  case (snoc x xs)
  have step: "mset (selectShard k n (xs @ [x]))
      = mset (selectShard k n xs) + (if length xs mod n = k then {#x#} else {#})" for k
    by (simp add: selectShard_snoc)
  have "(\<Sum>k<n. mset (selectShard k n (xs @ [x])))
      = (\<Sum>k<n. mset (selectShard k n xs)) + (\<Sum>k<n. if length xs mod n = k then {#x#} else {#})"
    by (simp only: step sum.distrib)
  also have "\<dots> = mset (xs @ [x])" using snoc assms by simp
  finally show ?case .
qed simp

lemma utoa_no_slash: "CHR ''/'' \<notin> set (utoa n)"
  using utoa_digits [of n] by (auto simp: list_all_iff is_digit_def)

lemma atoi_utoa_cases: "atoi (utoa k) = (if in_i64 (int k) then Some (int k) else None)"
proof -
  obtain c cs where c: "utoa k = c # cs" "is_digit c" using utoa_hd by blast
  then have "c \<noteq> CHR ''-''" "c \<noteq> CHR ''+''" by (auto simp: is_digit_def)
  with c utoa_digits [of k] digits_value_utoa [of k] show ?thesis
    by (auto simp: atoi_def)
qed

definition shard_spec :: "nat \<Rightarrow> nat \<Rightarrow> string" where
  "shard_spec k n = utoa k @ ''/'' @ utoa n"

lemma Shard_spec:
  assumes "in_i64 (int n)"
  shows "Shard ps (shard_spec k n) =
    (if k < n then Inr (selectShard k n ps) else Inl (Err ''invalid shard %q'' [shard_spec k n]))"
proof -
  have cut: "str_cut (shard_spec k n) ''/'' = Some (utoa k, utoa n)"
    using cut_component [OF utoa_no_slash, of k "utoa n"] by (simp add: shard_spec_def)
  have "k < n \<Longrightarrow> in_i64 (int k)" using assms by (simp add: in_i64_def)
  moreover have "shard_spec k n \<noteq> []" by (simp add: shard_spec_def)
  ultimately show ?thesis using assms
    by (auto simp: Shard_def cut atoi_utoa_cases Let_def)
qed

section \<open>Merging\<close>

lemma mergePrograms_ok:
  "distinct (go_keys b) \<Longrightarrow> set (go_keys b) \<inter> set (go_keys m) = {} \<Longrightarrow>
   \<exists>r. res_fold mergeProgram b m = Inr r \<and> go_get r = go_get m ++ go_get b"
proof (induction b arbitrary: m)
  case (Cons e b)
  obtain n c where e: "e = (n, c)" by (cases e)
  have "set (go_keys b) \<inter> set (go_keys (go_put n c m)) = {}"
    using Cons.prems by (auto simp: e go_keys_def dom_update)
  with Cons.IH [of "go_put n c m"] Cons.prems obtain r
    where r: "res_fold mergeProgram b (go_put n c m) = Inr r" "go_get r = go_get (go_put n c m) ++ go_get b"
    by (auto simp: e go_keys_def)
  have "go_get m n = None" using Cons.prems by (auto simp: e go_keys_def map_of_eq_None_iff)
  moreover have "go_get b n = None" using Cons.prems by (auto simp: e go_keys_def map_of_eq_None_iff)
  then have "go_get (go_put n c m) ++ go_get b = go_get m ++ go_get (e # b)"
    by (auto simp: e go_get_put map_add_def fun_eq_iff split: option.splits)
  ultimately show ?case using r by (simp add: mergeProgram_def e)
qed simp

text \<open>Bundles without a common name merge, and the result has every entry of every bundle.\<close>

lemma mergeBundles_ok:
  "distinct (concat (map go_keys bs)) \<Longrightarrow> set (concat (map go_keys bs)) \<inter> set (go_keys m) = {} \<Longrightarrow>
   \<exists>r. res_fold mergeBundle (map Inr bs) m = Inr r
     \<and> (\<forall>n. n \<notin> set (concat (map go_keys bs)) \<longrightarrow> go_get r n = go_get m n)
     \<and> (\<forall>b \<in> set bs. \<forall>n \<in> set (go_keys b). go_get r n = go_get b n)"
proof (induction bs arbitrary: m)
  case (Cons b bs)
  from mergePrograms_ok [of b m] Cons.prems obtain u
    where u: "res_fold mergeProgram b m = Inr u" "go_get u = go_get m ++ go_get b" by auto
  have keys: "set (go_keys u) = set (go_keys m) \<union> set (go_keys b)"
    by (auto simp: go_keys_dom u(2))
  have "set (concat (map go_keys bs)) \<inter> set (go_keys u) = {}"
    using Cons.prems unfolding keys by auto
  with Cons.IH [of u] Cons.prems obtain r
    where r: "res_fold mergeBundle (map Inr bs) u = Inr r"
      "\<forall>n. n \<notin> set (concat (map go_keys bs)) \<longrightarrow> go_get r n = go_get u n"
      "\<forall>b \<in> set bs. \<forall>n \<in> set (go_keys b). go_get r n = go_get b n"
    by auto
  have "go_get r n = go_get b n" if "n \<in> set (go_keys b)" for n
  proof -
    have "go_get r n = go_get u n" using r(2) that Cons.prems(1) by auto
    moreover have "go_get b n \<noteq> None" using that by (auto simp: go_keys_dom)
    ultimately show ?thesis by (auto simp: u(2) map_add_def split: option.splits)
  qed
  moreover have "go_get r n = go_get m n" if "n \<notin> set (concat (map go_keys (b # bs)))" for n
  proof -
    have "go_get r n = go_get u n" using r(2) that by simp
    moreover have "go_get b n = None" using that by (auto simp: go_keys_dom)
    ultimately show ?thesis by (simp add: u(2) map_add_def)
  qed
  moreover have "res_fold mergeBundle (map Inr (b # bs)) m = Inr r"
    using u(1) r(1) by (simp add: mergeBundle_def)
  ultimately show ?case using r(3) by auto
qed simp

lemma mset_concat_keys:
  "(\<And>k. k \<in> set ks \<Longrightarrow> mset (f k) = mset (g k)) \<Longrightarrow>
   mset (concat (map f ks)) = mset (concat (map g ks))"
  by (induction ks) simp_all

lemma mset_concat_sum: "mset (concat (map f ks)) = \<Sum>\<^sub># (image_mset (\<lambda>k. mset (f k)) (mset ks))"
  by (induction ks) simp_all

lemma mset_concat_perm: "mset ks = mset ls \<Longrightarrow> mset (concat (map f ks)) = mset (concat (map f ls))"
  by (simp only: mset_concat_sum)

lemma mset_concat_upt: "mset (concat (map f [0..<n])) = (\<Sum>k<n. mset (f k))"
  by (induction n) (simp_all add: lessThan_Suc add.commute)

section \<open>Properties\<close>

text \<open>
  The shards partition the programs: for \<open>n\<close> shards, the spellings \<open>0/n\<close> to \<open>(n-1)/n\<close> each
  select programs in their original order, every program is in exactly one of them, their sizes
  differ by at most one, and every other spelling \<open>k/n\<close> is refused.
\<close>

theorem shards_partition:
  assumes "0 < n" "in_i64 (int n)"
  shows "\<exists>shards. length shards = n
    \<and> (\<forall>k < n. Shard ps (shard_spec k n) = Inr (shards ! k) \<and> subseq (shards ! k) ps
          \<and> length (shards ! k) = (length ps + n - 1 - k) div n)
    \<and> (\<forall>k \<ge> n. Shard ps (shard_spec k n) = Inl (Err ''invalid shard %q'' [shard_spec k n]))
    \<and> (\<Sum>k<n. mset (shards ! k)) = mset ps"
proof (intro exI conjI allI impI)
  let ?shards = "map (\<lambda>k. selectShard k n ps) [0..<n]"
  show "length ?shards = n" by simp
  show "(\<Sum>k<n. mset (?shards ! k)) = mset ps"
    using selectShard_mset [OF assms(1), of ps] by simp
  fix k
  show "Shard ps (shard_spec k n) = Inl (Err ''invalid shard %q'' [shard_spec k n])" if "n \<le> k"
    using that by (simp add: Shard_spec [OF assms(2)])
  assume k: "k < n"
  show "Shard ps (shard_spec k n) = Inr (?shards ! k)" "subseq (?shards ! k) ps"
    "length (?shards ! k) = (length ps + n - 1 - k) div n"
    using k by (simp_all add: Shard_spec [OF assms(2)] selectShard_subseq selectShard_length)
qed

definition ex_programs :: "Program list" where
  "ex_programs = [\<lparr>pr_name = ''a'', pr_source = ''1''\<rparr>, \<lparr>pr_name = ''b'', pr_source = ''2''\<rparr>,
     \<lparr>pr_name = ''c'', pr_source = ''3''\<rparr>]"

theorem shards_partition_witness:
  "\<exists>shards. length shards = 2
    \<and> (\<forall>k < 2. Shard ex_programs (shard_spec k 2) = Inr (shards ! k) \<and> subseq (shards ! k) ex_programs
          \<and> length (shards ! k) = (length ex_programs + 2 - 1 - k) div 2)
    \<and> (\<forall>k \<ge> 2. Shard ex_programs (shard_spec k 2) = Inl (Err ''invalid shard %q'' [shard_spec k 2]))
    \<and> (\<Sum>k<2. mset (shards ! k)) = mset ex_programs"
  using shards_partition [of 2 ex_programs] by (simp add: in_i64_def)

text \<open>
  C32. Compiling the shards of a test separately loses nothing: if the names are distinct and every
  program compiles, then each shard gives a bundle, in whatever order its workers finish, and the
  bundles of all shards, read in any order, merge into a bundle that serves every program from its
  source with the bytecode of its compilation and refuses a source with another digest.
\<close>

theorem sharded_bundles_serve:
  assumes n: "0 < n" "in_i64 (int n)"
    and names: "distinct (map pr_name ps)"
    and compiles: "\<And>p. p \<in> set ps \<Longrightarrow> compile p = Inr (code p) \<and> code p \<noteq> []"
    and order: "\<And>k. k < n \<Longrightarrow> set (order k) = {..<(length ps + n - 1 - k) div n}"
    and paths: "mset paths = mset [0..<n]"
  shows "\<exists>bundles merged.
    (\<forall>k < n. res_bind (Shard ps (shard_spec k n)) (WriteBundle compile (order k)) = Inr (bundles k))
    \<and> ReadBundles (map (\<lambda>k. Inr (bundles k)) paths) = Inr (Some merged)
    \<and> (\<forall>p \<in> set ps. Bytecode merged (pr_name p) (pr_source p) = Inr (code p)
        \<and> (\<forall>src. digest src \<noteq> digest (pr_source p) \<longrightarrow>
              Bytecode merged (pr_name p) src
                = Inl (Err ''precompiled Scheme program %q is stale'' [pr_name p])))"
proof -
  define sh where "sh k = selectShard k n ps" for k
  have sub: "set (sh k) \<subseteq> set ps" for k
    unfolding sh_def using subseq_set [OF selectShard_subseq] .
  have dist: "distinct (map pr_name (sh k))" for k
    using subseq_distinct_map [OF selectShard_subseq names] by (simp add: sh_def)
  have ord: "set (order k) = {..<length (sh k)}" if "k < n" for k
    using order that by (simp add: sh_def selectShard_length)
  have all: "\<forall>p \<in> set (sh k). compile p = Inr (code p)" for k
    using compiles sub by blast
  have "\<exists>b. WriteBundle compile (order k) (sh k) = Inr b" if "k < n" for k
    using collect_total [OF dist all, of k "[]"] ord [OF that]
    by (auto simp: WriteBundle_def CompileAll_def runWorkers_any_order)
  then obtain bundles where b: "\<And>k. k < n \<Longrightarrow> WriteBundle compile (order k) (sh k) = Inr (bundles k)"
    by metis
  note ok = WriteBundle_ok [OF b ord]
  have keys: "mset (go_keys (bundles k)) = mset (map pr_name (sh k))" if "k < n" for k
    using ok(1,2) [OF that that] dist [of k]
    by (intro set_eq_iff_mset_eq_distinct [THEN iffD1]) (simp_all add: go_map_def)
  have "mset (concat (map (go_keys \<circ> bundles) paths)) = mset (concat (map (go_keys \<circ> bundles) [0..<n]))"
    by (rule mset_concat_perm [OF paths])
  also have "\<dots> = mset (concat (map (\<lambda>k. map pr_name (sh k)) [0..<n]))"
    by (rule mset_concat_keys) (simp add: keys)
  also have "\<dots> = mset (map pr_name (concat (map sh [0..<n])))"
    by (simp only: map_concat map_map comp_def)
  also have "\<dots> = mset (map pr_name ps)"
    using selectShard_mset [OF n(1), of ps] by (simp only: mset_map mset_concat_upt sh_def)
  finally have "distinct (concat (map go_keys (map bundles paths)))"
    using names by (metis map_map mset_eq_imp_distinct_iff)
  then obtain merged where m: "res_fold mergeBundle (map Inr (map bundles paths)) [] = Inr merged"
    "\<forall>b \<in> set (map bundles paths). \<forall>n \<in> set (go_keys b). go_get merged n = go_get b n"
    using mergeBundles_ok [of "map bundles paths" "[]"] by (auto simp: go_keys_def)
  have set_paths: "set paths = {..<n}" using paths by (metis atLeast_upt mset_eq_setD)
  have entry: "go_get merged (pr_name p)
      = Some \<lparr>cp_sourceSHA256 = digest (pr_source p), cp_bytecode = code p\<rparr>" if "p \<in> set ps" for p
  proof -
    have "mset (concat (map sh [0..<n])) = mset ps"
      using selectShard_mset [OF n(1), of ps] by (simp only: mset_concat_upt sh_def)
    then have "p \<in> set (concat (map sh [0..<n]))" using that by (metis mset_eq_setD)
    then obtain k where k: "k < n" "p \<in> set (sh k)" by auto
    have "go_get merged (pr_name p) = go_get (bundles k) (pr_name p)"
      using m(2) ok(2) [OF k(1) k(1)] k set_paths by auto
    with ok(3) [OF k(1) k(1) k(2)] compiles [OF that] show ?thesis by simp
  qed
  have "0 \<in> set paths" using n(1) by (simp only: set_paths lessThan_iff)
  then have "paths \<noteq> []" by (cases paths) simp_all
  then have "ReadBundles (map (\<lambda>k. Inr (bundles k)) paths) = Inr (Some merged)"
    using m(1) by (simp add: ReadBundles_def comp_def)
  moreover have "res_bind (Shard ps (shard_spec k n)) (WriteBundle compile (order k)) = Inr (bundles k)"
    if "k < n" for k
    using b [OF that] that by (simp add: Shard_spec [OF n(2)] sh_def)
  ultimately show ?thesis
    using entry compiles by (intro exI [of _ bundles] exI [of _ merged]) (simp add: Bytecode_def)
qed

theorem sharded_bundles_serve_witness:
  "\<exists>bundles merged.
    (\<forall>k < 2. res_bind (Shard ex_programs (shard_spec k 2))
        (WriteBundle (\<lambda>p. Inr (''code '' @ pr_source p)) (if k = 0 then [1, 0] else [0])) = Inr (bundles k))
    \<and> ReadBundles (map (\<lambda>k. Inr (bundles k)) [1, 0]) = Inr (Some merged)
    \<and> (\<forall>p \<in> set ex_programs. Bytecode merged (pr_name p) (pr_source p) = Inr (''code '' @ pr_source p)
        \<and> (\<forall>src. digest src \<noteq> digest (pr_source p) \<longrightarrow>
              Bytecode merged (pr_name p) src
                = Inl (Err ''precompiled Scheme program %q is stale'' [pr_name p])))"
proof (rule sharded_bundles_serve)
  show "set (if k = 0 then [1, 0] else [0]) = {..<(length ex_programs + 2 - 1 - k) div 2}" if "k < 2" for k
    using that by (cases k) (auto simp: ex_programs_def)
qed (auto simp: ex_programs_def in_i64_def upt_rec)

end
