(* ===== verification/GoPaths.thy ===== *)
theory GoPaths
  imports GoStrings
begin

text \<open>
  The lexical functions of package \<open>path/filepath\<close> on Unix that the program calls. The code of
  \<open>Clean\<close> scans bytes and keeps a write position to go back to; here a path is split at its slashes
  and the components that are written so far are a stack. \<open>FromSlash\<close> is the identity on Unix.
\<close>

section \<open>Functions\<close>

abbreviation dotdot :: string where "dotdot \<equiv> ''..''"

definition IsAbs :: "string \<Rightarrow> bool" where
  "IsAbs s = prefix ''/'' s"

text \<open>The elements of a path that \<open>Clean\<close> looks at: neither empty nor a dot.\<close>

definition elements :: "string \<Rightarrow> string list" where
  "elements s = filter (\<lambda>c. c \<noteq> [] \<and> c \<noteq> ''.'') (split_byte (CHR ''/'') s)"

text \<open>One element: a \<open>..\<close> removes the last component if there is one it may remove.\<close>

definition clean_step :: "bool \<Rightarrow> string \<Rightarrow> string list \<Rightarrow> string list" where
  "clean_step rooted c stack =
     (if c = dotdot then
        (case stack of
           d # ds \<Rightarrow> if d = dotdot then c # stack else ds
         | [] \<Rightarrow> if rooted then [] else [c])
      else c # stack)"

text \<open>The components of the cleaned path.\<close>

definition comps :: "string \<Rightarrow> string list" where
  "comps s = rev (fold (clean_step (IsAbs s)) (elements s) [])"

definition render :: "bool \<Rightarrow> string list \<Rightarrow> string" where
  "render rooted cs =
     (if rooted then CHR ''/'' # join cs ''/'' else if cs = [] then ''.'' else join cs ''/'')"

definition Clean :: "string \<Rightarrow> string" where
  "Clean s = render (IsAbs s) (comps s)"

text \<open>\<open>Join\<close> starts at the first element that is not empty.\<close>

definition path_join :: "string list \<Rightarrow> string" where
  "path_join elems =
     (case dropWhile (\<lambda>e. e = []) elems of [] \<Rightarrow> [] | es \<Rightarrow> Clean (join es ''/''))"

definition Base :: "string \<Rightarrow> string" where
  "Base s =
     (if s = [] then ''.''
      else let t = rev (takeWhile (\<lambda>c. c \<noteq> CHR ''/'') (dropWhile (\<lambda>c. c = CHR ''/'') (rev s)))
           in if t = [] then ''/'' else t)"

definition Dir :: "string \<Rightarrow> string" where
  "Dir s = Clean (rev (dropWhile (\<lambda>c. c \<noteq> CHR ''/'') (rev s)))"

text \<open>
  \<open>Rel\<close>: the common leading components are dropped, what is left of the base is gone up. A base
  that is the dot has no components, a target that is the dot is taken as an element.
\<close>

fun drop_common :: "string list \<Rightarrow> string list \<Rightarrow> string list \<times> string list" where
  "drop_common (b # bs) (t # ts) = (if b = t then drop_common bs ts else (b # bs, t # ts))"
| "drop_common bs ts = (bs, ts)"

definition Rel :: "string \<Rightarrow> string \<Rightarrow> string option" where
  "Rel basepath targpath =
     (if Clean targpath = Clean basepath then Some ''.''
      else if IsAbs basepath \<noteq> IsAbs targpath then None
      else let ts = (if Clean targpath = ''.'' then [''.''] else comps targpath);
               (bs', ts') = drop_common (comps basepath) ts
           in case bs' of
                [] \<Rightarrow> Some (join ts' ''/'')
              | b # _ \<Rightarrow> if b = dotdot then None
                         else Some (join (replicate (length bs') dotdot @ ts') ''/''))"

text \<open>\<open>IsLocal\<close>: the path is cleaned only if one of its elements is a dot or two.\<close>

definition IsLocal :: "string \<Rightarrow> bool" where
  "IsLocal s =
     (if IsAbs s \<or> s = [] then False
      else let p = (if list_ex (\<lambda>c. c = ''.'' \<or> c = dotdot) (split_byte (CHR ''/'') s) then Clean s else s)
           in p \<noteq> dotdot \<and> \<not> prefix ''../'' p)"

section \<open>Components\<close>

definition element :: "string \<Rightarrow> bool" where
  "element c \<longleftrightarrow> c \<noteq> [] \<and> c \<noteq> ''.'' \<and> CHR ''/'' \<notin> set c"

text \<open>The lists \<open>Clean\<close> gives: elements, with \<open>..\<close> only in front and only in a relative path.\<close>

definition clean_list :: "bool \<Rightarrow> string list \<Rightarrow> bool" where
  "clean_list rooted cs \<longleftrightarrow>
     (\<exists>n ds. cs = replicate n dotdot @ ds \<and> list_all element ds \<and> dotdot \<notin> set ds \<and> (rooted \<longrightarrow> n = 0))"

lemma element_dotdot [simp]: "element dotdot"
  by (simp add: element_def)

lemma elements_element: "c \<in> set (elements s) \<Longrightarrow> element c"
  by (auto simp: elements_def element_def dest: split_byte_no_sep)

lemma split_byte_append: "split_byte c (a @ c # b) = split_byte c a @ split_byte c b"
  by (induction a) (auto split: list.splits)

lemma elements_append: "elements (a @ ''/'' @ b) = elements a @ elements b"
  by (simp add: elements_def split_byte_append)

lemma elements_Nil [simp]: "elements [] = []"
  by (simp add: elements_def)

lemma elements_slash: "elements (CHR ''/'' # s) = elements s"
  using elements_append [of "[]" s] by simp

lemma split_byte_no: "c \<notin> set s \<Longrightarrow> split_byte c s = [s]"
  by (induction s) auto

lemma split_join_elements:
  "cs \<noteq> [] \<Longrightarrow> \<forall>x \<in> set cs. c \<notin> set x \<Longrightarrow> split_byte c (join cs [c]) = cs"
proof (induction cs "[c]" rule: join.induct)
  case (3 x y xs)
  then show ?case by (simp add: split_byte_append split_byte_no)
qed (simp_all add: split_byte_no)

lemma elements_join: "list_all element cs \<Longrightarrow> elements (join cs ''/'') = cs"
proof (cases "cs = []")
  case False
  assume "list_all element cs"
  then have "\<forall>x \<in> set cs. CHR ''/'' \<notin> set x" "filter (\<lambda>c. c \<noteq> [] \<and> c \<noteq> ''.'') cs = cs"
    by (auto simp: list_all_iff element_def intro!: filter_True)
  then show ?thesis by (simp add: elements_def split_join_elements [OF False])
qed simp

lemma clean_list_element: "clean_list r cs \<Longrightarrow> list_all element cs"
  by (auto simp: clean_list_def list_all_iff)

lemma clean_fold_push:
  "dotdot \<notin> set cs \<Longrightarrow> fold (clean_step r) cs stack = rev cs @ stack"
  by (induction cs arbitrary: stack) (auto simp: clean_step_def)

lemma clean_fold_up: "fold (clean_step False) (replicate n dotdot) (replicate m dotdot) = replicate (n + m) dotdot"
proof (induction n arbitrary: m)
  case (Suc n)
  have "clean_step False dotdot (replicate m dotdot) = replicate (Suc m) dotdot"
    by (cases m) (simp_all add: clean_step_def)
  with Suc [of "Suc m"] show ?case by simp
qed simp

lemma clean_fold_id: "clean_list r cs \<Longrightarrow> fold (clean_step r) cs [] = rev cs"
proof -
  assume "clean_list r cs"
  then obtain n ds where cs: "cs = replicate n dotdot @ ds" "dotdot \<notin> set ds" "r \<longrightarrow> n = 0"
    by (auto simp: clean_list_def)
  have "fold (clean_step r) (replicate n dotdot) [] = replicate n dotdot"
    using cs(3) clean_fold_up [of n 0] by (cases r) simp_all
  then show ?thesis by (simp add: cs clean_fold_push)
qed

lemma clean_list_step:
  assumes "clean_list r (rev stack)" "element c"
  shows "clean_list r (rev (clean_step r c stack))"
proof -
  from assms(1) obtain n ds where s: "rev stack = replicate n dotdot @ ds"
    "list_all element ds" "dotdot \<notin> set ds" "r \<longrightarrow> n = 0"
    by (auto simp: clean_list_def)
  show ?thesis
  proof (cases "c = dotdot")
    case False
    then show ?thesis using s assms(2)
      by (auto simp: clean_step_def clean_list_def intro!: exI [of _ n] exI [of _ "ds @ [c]"])
  next
    case c: True
    show ?thesis
    proof (cases ds rule: rev_cases)
      case Nil
      then have "stack = replicate n dotdot" using s(1) by (metis append_Nil2 rev_replicate rev_rev_ident)
      then show ?thesis using s(4) c
        by (cases n) (auto simp: clean_step_def clean_list_def replicate_append_same
            intro: exI [of _ 0] exI [of _ 1] exI [of _ "Suc n"])
    next
      case (snoc es e)
      then have "stack = e # rev es @ replicate n dotdot"
        using s(1) by (metis append.assoc rev_append rev_replicate rev_rev_ident rev_singleton_conv rev_swap append_Cons append_Nil rev.simps(2))
      then show ?thesis using s snoc c
        by (auto simp: clean_step_def clean_list_def intro!: exI [of _ n] exI [of _ es])
    qed
  qed
qed

lemma clean_list_fold:
  "clean_list r (rev stack) \<Longrightarrow> \<forall>c \<in> set cs. element c
    \<Longrightarrow> clean_list r (rev (fold (clean_step r) cs stack))"
  by (induction cs arbitrary: stack) (simp_all add: clean_list_step)

lemma clean_list_Nil [simp]: "clean_list r []"
  by (simp add: clean_list_def)

lemma comps_clean: "clean_list (IsAbs s) (comps s)"
  unfolding comps_def by (rule clean_list_fold) (simp_all add: elements_element)

section \<open>Cleaned paths\<close>

lemma join_hd: "c \<noteq> [] \<Longrightarrow> \<exists>d ds. join (c # cs) sep = d # ds \<and> d = hd c"
  by (cases cs; cases c) auto

lemma element_hd: "element c \<Longrightarrow> hd c \<noteq> CHR ''/''"
  by (cases c) (auto simp: element_def)

lemma IsAbs_join: "list_all element cs \<Longrightarrow> \<not> IsAbs (join cs ''/'')"
proof (cases cs)
  case (Cons c ds)
  assume "list_all element cs"
  then have "element c" by (simp add: Cons)
  then have "c \<noteq> []" "hd c \<noteq> CHR ''/''" using element_hd by (auto simp: element_def)
  with join_hd [of c ds "''/''"] show ?thesis by (auto simp: Cons IsAbs_def)
qed (simp add: IsAbs_def)

lemma IsAbs_render: "list_all element cs \<Longrightarrow> IsAbs (render r cs) = r"
  using IsAbs_join by (auto simp: render_def IsAbs_def)

lemma elements_render: "list_all element cs \<Longrightarrow> elements (render r cs) = cs"
  by (auto simp: render_def elements_slash elements_join) (simp add: elements_def)

lemma comps_render: "clean_list r cs \<Longrightarrow> comps (render r cs) = cs"
  using clean_list_element [of r cs]
  by (simp add: comps_def IsAbs_render elements_render clean_fold_id)

lemma comps_elements: "list_all element (comps s)"
  by (rule clean_list_element [OF comps_clean])

lemma comps_Clean [simp]: "comps (Clean s) = comps s"
  by (simp add: Clean_def comps_render comps_clean)

lemma IsAbs_Clean [simp]: "IsAbs (Clean s) = IsAbs s"
  by (simp add: Clean_def IsAbs_render comps_elements)

lemma Clean_Clean [simp]: "Clean (Clean s) = Clean s"
  by (simp add: Clean_def [of "Clean s"]) (simp add: Clean_def)

lemma Clean_not_Nil [simp]: "Clean s \<noteq> []"
proof -
  have "element c \<Longrightarrow> join (c # cs) ''/'' \<noteq> []" for c cs
    using join_hd [of c cs "''/''"] by (auto simp: element_def)
  then show ?thesis using comps_elements [of s]
    by (cases "comps s") (auto simp: Clean_def render_def)
qed

lemma render_eq_iff:
  assumes "clean_list r cs" "clean_list r' cs'"
  shows "render r cs = render r' cs' \<longleftrightarrow> r = r' \<and> cs = cs'"
proof
  assume eq: "render r cs = render r' cs'"
  show "r = r' \<and> cs = cs'"
    using arg_cong [OF eq, of IsAbs] arg_cong [OF eq, of comps] assms
    by (simp add: comps_render IsAbs_render clean_list_element)
qed simp

lemma Clean_eq_iff: "Clean s = Clean t \<longleftrightarrow> IsAbs s = IsAbs t \<and> comps s = comps t"
  by (simp add: Clean_def render_eq_iff comps_clean)

lemma Clean_dot_iff: "Clean s = ''.'' \<longleftrightarrow> \<not> IsAbs s \<and> comps s = []"
  using render_eq_iff [of "IsAbs s" "comps s" False "[]"]
  by (simp add: Clean_def comps_clean) (simp add: render_def)

lemma Clean_dotdot_iff: "Clean s = dotdot \<longleftrightarrow> \<not> IsAbs s \<and> comps s = [dotdot]"
proof -
  have "clean_list False [dotdot]" unfolding clean_list_def by (intro exI [of _ 1] exI [of _ "[]"]) simp
  then show ?thesis using render_eq_iff [of "IsAbs s" "comps s" False "[dotdot]"]
    by (simp add: Clean_def comps_clean) (simp add: render_def)
qed

text \<open>A cleaned path starts with \<open>../\<close> if its first component is \<open>..\<close> and another follows.\<close>

lemma prefix_up_join:
  assumes "list_all element cs"
  shows "prefix ''../'' (join cs ''/'') \<longleftrightarrow> (\<exists>d ds. cs = dotdot # d # ds)"
proof -
  have x: "prefix ''../'' (x @ CHR ''/'' # t) \<longleftrightarrow> x = dotdot" if "element x" for x t
  proof
    assume "prefix ''../'' (x @ CHR ''/'' # t)"
    with that show "x = dotdot"
      by (cases x; cases "tl x"; cases "tl (tl x)") (auto simp: element_def)
  qed simp
  have "\<not> prefix ''../'' x" if "element x" for x
    using that by (auto simp: prefix_def element_def)
  with x assms show ?thesis by (cases cs rule: remdups_adj.cases) auto
qed

lemma prefix_up_Clean:
  "prefix ''../'' (Clean s) \<longleftrightarrow> \<not> IsAbs s \<and> (\<exists>d ds. comps s = dotdot # d # ds)"
  using prefix_up_join [OF comps_elements, of s]
  by (auto simp: Clean_def render_def)

text \<open>The test the code writes for "the cleaned path goes up".\<close>

lemma clean_list_up:
  "clean_list False cs \<Longrightarrow> (cs = [dotdot] \<or> (\<exists>d ds. cs = dotdot # d # ds)) \<longleftrightarrow> dotdot \<in> set cs"
  unfolding clean_list_def
proof (elim exE conjE)
  fix n ds assume "cs = replicate n dotdot @ ds" "dotdot \<notin> set ds"
  then show ?thesis by (cases n; cases ds; cases "n - 1") auto
qed

lemma goes_up_iff:
  "Clean s = dotdot \<or> prefix ''../'' (Clean s) \<longleftrightarrow> \<not> IsAbs s \<and> dotdot \<in> set (comps s)"
  using clean_list_up [of "comps s"] comps_clean [of s]
  by (auto simp: Clean_dotdot_iff prefix_up_Clean)

section \<open>Joining and relative paths\<close>

lemma comps_append:
  "a \<noteq> [] \<Longrightarrow> comps (a @ ''/'' @ b) = rev (fold (clean_step (IsAbs a)) (elements b) (rev (comps a)))"
proof -
  assume "a \<noteq> []"
  then have "IsAbs (a @ ''/'' @ b) = IsAbs a" by (cases a) (auto simp: IsAbs_def)
  then show ?thesis unfolding comps_def elements_append by simp
qed

text \<open>Joining a relative path that does not go up appends its components.\<close>

lemma elements_Clean: "elements (Clean s) = comps s"
  by (simp add: Clean_def elements_render comps_elements)

lemma IsAbs_Nil: "\<not> IsAbs []"
  by (simp add: IsAbs_def)

lemma comps_relative: "dotdot \<notin> set (elements s) \<Longrightarrow> comps s = elements s"
  by (simp add: comps_def clean_fold_push)

lemma path_join_pair:
  "b \<noteq> [] \<Longrightarrow> path_join [a, b] = Clean (if a = [] then b else a @ ''/'' @ b)"
  by (simp add: path_join_def)

lemma path_join_below:
  assumes "\<not> IsAbs b" "dotdot \<notin> set (comps b)"
  shows "comps (path_join [a, Clean b]) = comps a @ comps b"
    and "IsAbs (path_join [a, Clean b]) = IsAbs a"
    and "path_join [a, Clean b] = render (IsAbs a) (comps a @ comps b)"
proof -
  have "comps (a @ ''/'' @ Clean b) = comps a @ comps b" if "a \<noteq> []"
    unfolding comps_append [OF that] elements_Clean clean_fold_push [OF assms(2)] by simp
  moreover have "comps [] = []" by (simp add: comps_def)
  moreover have "IsAbs (a @ ''/'' @ Clean b) = IsAbs a" if "a \<noteq> []"
    using that by (cases a) (auto simp: IsAbs_def)
  ultimately show *: "comps (path_join [a, Clean b]) = comps a @ comps b"
    "IsAbs (path_join [a, Clean b]) = IsAbs a"
    using assms(1) by (auto simp: path_join_pair IsAbs_Nil)
  have "path_join [a, Clean b] = Clean (path_join [a, Clean b])" by (simp add: path_join_pair)
  then show "path_join [a, Clean b] = render (IsAbs a) (comps a @ comps b)"
    unfolding Clean_def [of "path_join _"] * .
qed

lemma drop_common_append: "drop_common xs (xs @ ys) = ([], ys)"
  by (induction xs) (cases ys; simp)+

text \<open>The relative path from a directory to a path below it.\<close>

lemma Rel_below:
  assumes "IsAbs t = IsAbs s" "comps t = comps s @ cs" "cs \<noteq> []"
  shows "Rel s t = Some (join cs ''/'')"
proof -
  have "Clean t \<noteq> Clean s" "Clean t \<noteq> ''.''"
    using assms by (auto simp: Clean_eq_iff Clean_dot_iff)
  then show ?thesis using assms(1) by (simp add: Rel_def assms(2) drop_common_append)
qed

text \<open>
  Following \<open>Rel\<close> from its base leads to its target: the components of the base that differ are
  left by as many \<open>..\<close>.
\<close>

lemma drop_common_split:
  "drop_common bs ts = (bs', ts') \<Longrightarrow> \<exists>zs. bs = zs @ bs' \<and> ts = zs @ ts'"
proof (induction bs ts rule: drop_common.induct)
  case (1 b bs t ts)
  show ?case
  proof (cases "b = t")
    case True
    with 1 obtain zs where "bs = zs @ bs'" "ts = zs @ ts'" by auto
    with True show ?thesis by (intro exI [of _ "b # zs"]) simp
  next
    case False
    with 1(2) show ?thesis by (intro exI [of _ "[]"]) simp
  qed
qed auto

lemma clean_fold_pop:
  "dotdot \<notin> set xs \<Longrightarrow> fold (clean_step r) (replicate (length xs) dotdot) (xs @ stack) = stack"
  by (induction xs) (auto simp: clean_step_def)

lemma clean_list_tail:
  "clean_list r (zs @ b # bs) \<Longrightarrow> b \<noteq> dotdot \<Longrightarrow> dotdot \<notin> set bs"
  unfolding clean_list_def
proof (elim exE conjE)
  fix n ds assume eq: "zs @ b # bs = replicate n dotdot @ ds" and ds: "dotdot \<notin> set ds" and b: "b \<noteq> dotdot"
  have "length zs \<ge> n"
  proof (rule ccontr)
    assume "\<not> n \<le> length zs"
    then have "(replicate n dotdot @ ds) ! length zs = dotdot" by (simp add: nth_append)
    with b show False by (metis eq nth_append_length)
  qed
  then have "set bs \<subseteq> set ds"
    using arg_cong [OF eq, of "drop (length zs + 1)"] set_drop_subset [of "length zs + 1 - n" ds] by auto
  with ds show ?thesis by blast
qed

lemma Rel_join:
  assumes rel: "Rel b t = Some r" and b: "b \<noteq> []" and t: "comps t \<noteq> []" "dotdot \<notin> set (comps t)"
  shows "comps (path_join [b, r]) = comps t"
proof -
  have abs: "IsAbs b = IsAbs t" using rel by (auto simp: Rel_def Clean_eq_iff split: if_splits)
  have join: "comps (path_join [b, r]) = rev (fold (clean_step (IsAbs b)) (elements r) (rev (comps b)))"
    if "r \<noteq> []" using that b comps_append [OF b, of r] by (simp add: path_join_pair)
  have el: "list_all element (comps t)" by (rule comps_elements)
  show ?thesis
  proof (cases "Clean t = Clean b")
    case True
    then have "r = ''.''" "comps t = comps b" using rel by (auto simp: Rel_def Clean_eq_iff)
    moreover have "elements ''.'' = []" by (simp add: elements_def)
    ultimately show ?thesis using join by simp
  next
    case False
    have dot: "Clean t \<noteq> ''.''" using t(1) by (simp add: Clean_dot_iff)
    obtain bs' ts' where d: "drop_common (comps b) (comps t) = (bs', ts')" by fastforce
    then obtain zs where zs: "comps b = zs @ bs'" "comps t = zs @ ts'"
      using drop_common_split by blast
    have r: "r = join (replicate (length bs') dotdot @ ts') ''/''" "bs' = [] \<or> hd bs' \<noteq> dotdot"
      using rel False dot abs by (auto simp: Rel_def d split: list.splits if_splits)
    have up: "dotdot \<notin> set bs'"
      using r(2) comps_clean [of b] clean_list_tail [of _ zs "hd bs'" "tl bs'"]
      by (cases bs') (auto simp: zs(1))
    have "bs' \<noteq> [] \<or> ts' \<noteq> []" using False abs zs by (auto simp: Clean_eq_iff)
    moreover have "list_all element (replicate (length bs') dotdot @ ts')"
      using el by (auto simp: zs(2) list_all_iff)
    ultimately have e: "elements r = replicate (length bs') dotdot @ ts'" "r \<noteq> []"
      using elements_join [of "replicate (length bs') dotdot @ ts'"] by (auto simp: r(1))
    have "rev (comps b) = rev bs' @ rev zs" by (simp add: zs)
    then have "fold (clean_step (IsAbs b)) (elements r) (rev (comps b)) = rev ts' @ rev zs"
      using clean_fold_pop [of "rev bs'" "IsAbs b" "rev zs"] up t(2)
      by (simp add: e zs(2) clean_fold_push)
    then show ?thesis by (simp add: join e zs(2))
  qed
qed

section \<open>The directory of a path\<close>

lemma Dir_slash: "CHR ''/'' \<notin> set c \<Longrightarrow> Dir (a @ CHR ''/'' # c) = Clean (a @ ''/'')"
proof -
  assume c: "CHR ''/'' \<notin> set c"
  have "dropWhile (\<lambda>x. x \<noteq> CHR ''/'') (rev c @ CHR ''/'' # rev a) = CHR ''/'' # rev a"
    using c by (subst dropWhile_append2) auto
  then show ?thesis by (simp add: Dir_def)
qed

lemma Dir_no_slash: "CHR ''/'' \<notin> set c \<Longrightarrow> Dir c = ''.''"
proof -
  assume "CHR ''/'' \<notin> set c"
  then have none: "dropWhile (\<lambda>x. x \<noteq> CHR ''/'') (rev c) = []"
    by (simp only: dropWhile_eq_Nil_conv set_rev) blast
  have "Clean [] = ''.''" by (simp add: Clean_def comps_def render_def IsAbs_def)
  then show ?thesis by (simp only: Dir_def none rev.simps)
qed

lemma join_snoc: "xs \<noteq> [] \<Longrightarrow> join (xs @ [x]) sep = join xs sep @ sep @ x"
  by (induction xs sep rule: join.induct) auto

lemma comps_slash_end: "a \<noteq> [] \<Longrightarrow> comps (a @ ''/'') = comps a"
  using comps_append [of a "[]"] by simp

lemma Clean_slash_end: "a \<noteq> [] \<Longrightarrow> Clean (a @ ''/'') = Clean a"
proof -
  assume a: "a \<noteq> []"
  then have "IsAbs (a @ ''/'') = IsAbs a" by (cases a) (auto simp: IsAbs_def)
  then show ?thesis by (simp only: Clean_eq_iff comps_slash_end [OF a])
qed

lemma Clean_render: "clean_list r cs \<Longrightarrow> Clean (render r cs) = render r cs"
  by (simp add: Clean_def comps_render IsAbs_render clean_list_element)

lemma clean_list_butlast: "clean_list r (xs @ [x]) \<Longrightarrow> clean_list r xs"
  unfolding clean_list_def
proof (elim exE conjE)
  fix n ds assume eq: "xs @ [x] = replicate n dotdot @ ds"
    and ds: "list_all element ds" "dotdot \<notin> set ds" "r \<longrightarrow> n = 0"
  show "\<exists>n ds. xs = replicate n dotdot @ ds \<and> list_all element ds \<and> dotdot \<notin> set ds \<and> (r \<longrightarrow> n = 0)"
  proof (cases ds rule: rev_cases)
    case Nil
    then have "xs = replicate (n - 1) dotdot"
      using eq by (cases n) (auto simp: replicate_append_same [symmetric])
    then show ?thesis using ds(3) by (intro exI [of _ "n - 1"] exI [of _ "[]"]) simp
  next
    case (snoc es e)
    then show ?thesis using eq ds by (intro exI [of _ n] exI [of _ es]) simp
  qed
qed

lemma Dir_render:
  assumes "clean_list r (xs @ [x])"
  shows "Dir (render r (xs @ [x])) = render r xs"
proof -
  have el: "list_all element (xs @ [x])" by (rule clean_list_element [OF assms])
  then have x: "CHR ''/'' \<notin> set x" by (simp add: element_def)
  have xs: "clean_list r xs" by (rule clean_list_butlast [OF assms])
  show ?thesis
  proof (cases "xs = []")
    case True
    have "Clean ''/'' = ''/''" by (simp add: Clean_def comps_def IsAbs_def elements_def render_def)
    then show ?thesis using True x Dir_slash [OF x, of "[]"] Dir_no_slash [OF x]
      by (simp add: render_def)
  next
    case False
    have "render r (xs @ [x]) = render r xs @ CHR ''/'' # x"
      using False by (simp add: render_def join_snoc)
    moreover have "render r xs \<noteq> []" using Clean_not_Nil [of "render r xs"] by (simp only: Clean_render [OF xs] not_False_eq_True)
    ultimately show ?thesis by (simp add: Dir_slash [OF x] Clean_slash_end Clean_render [OF xs])
  qed
qed

section \<open>Local paths\<close>

text \<open>A \<open>..\<close> that is left in front is never removed again.\<close>

lemma fold_keeps_up: "dotdot \<in> set st \<Longrightarrow> dotdot \<in> set (fold (clean_step False) es st)"
proof (induction es arbitrary: st)
  case (Cons e es)
  have "dotdot \<in> set (clean_step False e st)"
    using Cons.prems by (cases st) (auto simp: clean_step_def)
  with Cons.IH show ?case by simp
qed simp

lemma fold_on_top:
  "dotdot \<notin> set (fold (clean_step False) es st) \<Longrightarrow>
   fold (clean_step r) es (st @ stack) = fold (clean_step False) es st @ stack"
proof (induction es arbitrary: st)
  case (Cons e es)
  have "dotdot \<notin> set (clean_step False e st)"
    using Cons.prems fold_keeps_up [of "clean_step False e st" es] by auto
  then have "clean_step r e (st @ stack) = clean_step False e st @ stack"
    by (cases st) (auto simp: clean_step_def split: if_splits)
  with Cons show ?case by simp
qed simp

lemma path_join_local:
  assumes "\<not> IsAbs b" "dotdot \<notin> set (comps b)" "a \<noteq> []"
  shows "comps (path_join [a, b]) = comps a @ comps b"
proof (cases "b = []")
  case True
  then show ?thesis using assms(3) comps_slash_end [OF assms(3)]
    by (simp add: path_join_def) (simp add: comps_def)
next
  case False
  have "fold (clean_step (IsAbs a)) (elements b) ([] @ rev (comps a))
      = fold (clean_step False) (elements b) [] @ rev (comps a)"
    using assms(1,2) by (intro fold_on_top) (simp add: comps_def)
  then show ?thesis using assms False comps_append [OF assms(3), of b]
    by (simp add: path_join_pair) (simp add: comps_def)
qed

lemma IsLocal_comps: "IsLocal s \<Longrightarrow> \<not> IsAbs s \<and> dotdot \<notin> set (comps s)"
proof -
  assume l: "IsLocal s"
  then have abs: "\<not> IsAbs s" by (simp add: IsLocal_def split: if_splits)
  show ?thesis
  proof (cases "list_ex (\<lambda>c. c = ''.'' \<or> c = dotdot) (split_byte (CHR ''/'') s)")
    case True
    with l have "\<not> (Clean s = dotdot \<or> prefix ''../'' (Clean s))"
      by (auto simp: IsLocal_def split: if_splits)
    then show ?thesis using abs goes_up_iff [of s] by blast
  next
    case False
    then have "dotdot \<notin> set (elements s)" by (auto simp: elements_def list_ex_iff)
    then show ?thesis using abs comps_relative [of s] by simp
  qed
qed

lemma Rel_relative: "Rel b t = Some r \<Longrightarrow> \<not> IsAbs r"
proof -
  assume r: "Rel b t = Some r"
  show ?thesis
  proof (cases "Clean t = Clean b")
    case True
    then show ?thesis using r by (auto simp: Rel_def IsAbs_def)
  next
    case False
    let ?ts = "if Clean t = ''.'' then [''.''] else comps t"
    obtain bs' ts' where d: "drop_common (comps b) ?ts = (bs', ts')" by fastforce
    have ts: "\<exists>zs. ?ts = zs @ ts'" using drop_common_split [OF d] by blast
    have nil: "c \<in> set ?ts \<Longrightarrow> c \<noteq> [] \<and> hd c \<noteq> CHR ''/''" for c
      using comps_elements [of t] element_hd [of c] by (auto simp: list_all_iff element_def split: if_splits)
    have "r = join (replicate (length bs') dotdot @ ts') ''/''"
      using r False by (auto simp: Rel_def d Let_def split: list.splits if_splits)
    moreover have "\<not> IsAbs (join cs ''/'')" if "\<forall>c \<in> set cs. c \<noteq> [] \<and> hd c \<noteq> CHR ''/''" for cs
    proof (cases cs)
      case (Cons c ds)
      with that join_hd [of c ds "''/''"] show ?thesis by (auto simp: IsAbs_def)
    qed (simp add: IsAbs_def)
    moreover have "\<forall>c \<in> set (replicate (length bs') dotdot @ ts'). c \<noteq> [] \<and> hd c \<noteq> CHR ''/''"
    proof -
      have "set ts' \<subseteq> set ?ts" using ts by (metis set_append Un_upper2)
      then have "\<forall>c \<in> set ts'. c \<noteq> [] \<and> hd c \<noteq> CHR ''/''" using nil by blast
      then show ?thesis by auto
    qed
    ultimately show ?thesis by simp
  qed
qed

text \<open>The cleaned spelling of an absolute path without its first slash.\<close>

lemma comps_trim_root:
  assumes "IsAbs s"
  shows "comps (trim_prefix (Clean s) ''/'') = comps s" and "\<not> IsAbs (trim_prefix (Clean s) ''/'')"
proof -
  have t: "trim_prefix (Clean s) ''/'' = join (comps s) ''/''"
    using assms by (simp add: Clean_def render_def trim_prefix_def)
  have "dotdot \<notin> set (comps s)" using comps_clean [of s] assms by (auto simp: clean_list_def)
  then show "comps (trim_prefix (Clean s) ''/'') = comps s"
    using elements_join [OF comps_elements [of s]] comps_relative [of "join (comps s) ''/''"] by (simp add: t)
  show "\<not> IsAbs (trim_prefix (Clean s) ''/'')" using IsAbs_join [OF comps_elements] by (simp add: t)
qed

end
