(* ===== verification/FileSystem.thy ===== *)
theory FileSystem
  imports GoPaths "HOL-Library.Word"
begin

text \<open>
  The file system as the calls of package \<open>os\<close> see it: a node for each path, with the symbolic links
  followed on the way as the kernel follows them, files whose contents and mode are kept by inode (so
  that hard links share them), the working directory and the umask. Calls fail for the reasons that
  lie in the tree (missing parents, wrong kinds of nodes, existing names, loops of links); failures of
  permissions, of space and of the devices are left out, so the process is one that may do all. A step
  that may fail leaves the state it has reached.
\<close>

named_theorems io_simps \<open>unfolding of the effect combinators\<close>

section \<open>Nodes\<close>

type_synonym perm = "9 word"

datatype node = DirN perm | FileN nat | LinkN string

datatype errno = ENOENT | ENOTDIR | EISDIR | EEXIST | ELOOP | EPERM | EINVAL

record fs =
  fs_nodes :: "(string list, node) gomap"
  fs_inodes :: "(nat, perm \<times> string) gomap"
  fs_next :: nat
  fs_cwd :: "string list"
  fs_umask :: perm

text \<open>The root of the file system is always a directory.\<close>

definition node_of :: "fs \<Rightarrow> string list \<Rightarrow> node option" where
  "node_of s p = (if p = [] then Some (DirN 0b111101101) else go_get (fs_nodes s) p)"

definition is_dir :: "fs \<Rightarrow> string list \<Rightarrow> bool" where
  "is_dir s p = (case node_of s p of Some (DirN _) \<Rightarrow> True | _ \<Rightarrow> False)"

definition set_node :: "string list \<Rightarrow> node \<Rightarrow> fs \<Rightarrow> fs" where
  "set_node p n s = s\<lparr>fs_nodes := go_put p n (fs_nodes s)\<rparr>"

section \<open>Effects\<close>

type_synonym 'a io = "fs \<Rightarrow> 'a result \<times> fs"

definition io_ret :: "'a \<Rightarrow> 'a io" where
  "io_ret x = (\<lambda>s. (Inr x, s))"

definition io_fail :: "error \<Rightarrow> 'a io" where
  "io_fail e = (\<lambda>s. (Inl e, s))"

definition io_lift :: "'a result \<Rightarrow> 'a io" where
  "io_lift r = (\<lambda>s. (r, s))"

definition io_bind :: "'a io \<Rightarrow> ('a \<Rightarrow> 'b io) \<Rightarrow> 'b io" where
  "io_bind m f = (\<lambda>s. case m s of (Inl e, s') \<Rightarrow> (Inl e, s') | (Inr x, s') \<Rightarrow> f x s')"

abbreviation io_then :: "'a io \<Rightarrow> 'b io \<Rightarrow> 'b io" where
  "io_then m k \<equiv> io_bind m (\<lambda>_. k)"

text \<open>\<open>if err != nil { return fmt.Errorf("...: %w", err) }\<close>\<close>

definition io_wrap :: "string \<Rightarrow> string list \<Rightarrow> 'a io \<Rightarrow> 'a io" where
  "io_wrap f args m = (\<lambda>s. case m s of (r, s') \<Rightarrow> (res_wrap f args r, s'))"

fun io_each :: "('a \<Rightarrow> unit io) \<Rightarrow> 'a list \<Rightarrow> unit io" where
  "io_each f [] = io_ret ()"
| "io_each f (x # xs) = io_then (f x) (io_each f xs)"

lemmas io_defs [io_simps] = io_ret_def io_fail_def io_lift_def io_bind_def io_wrap_def

section \<open>Resolving a path\<close>

text \<open>
  The walk of the kernel: \<open>cur\<close> is the directory reached, a \<open>..\<close> leads to its parent, a link is
  replaced by its target. \<open>follow\<close> tells whether a link in the last place is followed too; the last
  component may be missing. The counter is the limit on links.
\<close>

function walk :: "nat \<Rightarrow> fs \<Rightarrow> bool \<Rightarrow> string list \<Rightarrow> string list \<Rightarrow> errno + string list" where
  "walk n s follow cur [] = Inr cur"
| "walk n s follow cur (c # cs) =
     (if \<not> is_dir s cur then Inl ENOTDIR
      else if c = dotdot then walk n s follow (butlast cur) cs
      else case node_of s (cur @ [c]) of
             None \<Rightarrow> if cs = [] then Inr (cur @ [c]) else Inl ENOENT
           | Some (LinkN t) \<Rightarrow>
               if cs = [] \<and> \<not> follow then Inr (cur @ [c])
               else (case n of
                       0 \<Rightarrow> Inl ELOOP
                     | Suc m \<Rightarrow> walk m s follow (if IsAbs t then [] else cur) (elements t @ cs))
           | Some _ \<Rightarrow> walk n s follow (cur @ [c]) cs)"
  by pat_completeness auto
termination
  by (relation "measures [\<lambda>(n, _). n, \<lambda>(_, _, _, _, cs). length cs]") auto

definition link_limit :: nat where
  "link_limit = 40"

definition start_dir :: "fs \<Rightarrow> string \<Rightarrow> string list" where
  "start_dir s path = (if IsAbs path then [] else fs_cwd s)"

definition resolve :: "bool \<Rightarrow> string \<Rightarrow> fs \<Rightarrow> errno + string list" where
  "resolve follow path s =
     (if path = [] then Inl ENOENT
      else walk link_limit s follow (start_dir s path) (elements path))"

text \<open>\<open>os.Stat\<close> follows links, \<open>os.Lstat\<close> does not follow the last one.\<close>

definition stat_walk :: "bool \<Rightarrow> fs \<Rightarrow> string list \<Rightarrow> string list \<Rightarrow> errno + (string list \<times> node)" where
  "stat_walk follow s start cs =
     (case walk link_limit s follow start cs of
        Inl e \<Rightarrow> Inl e
      | Inr p \<Rightarrow> (case node_of s p of None \<Rightarrow> Inl ENOENT | Some nd \<Rightarrow> Inr (p, nd)))"

definition stat_node :: "bool \<Rightarrow> string \<Rightarrow> fs \<Rightarrow> errno + (string list \<times> node)" where
  "stat_node follow path s =
     (if path = [] then Inl ENOENT else stat_walk follow s (start_dir s path) (elements path))"

section \<open>Calls\<close>

fun errno_text :: "errno \<Rightarrow> string" where
  "errno_text ENOENT = ''no such file or directory''"
| "errno_text ENOTDIR = ''not a directory''"
| "errno_text EISDIR = ''is a directory''"
| "errno_text EEXIST = ''file exists''"
| "errno_text ELOOP = ''too many levels of symbolic links''"
| "errno_text EPERM = ''operation not permitted''"
| "errno_text EINVAL = ''invalid argument''"

definition path_error :: "string \<Rightarrow> errno \<Rightarrow> error" where
  "path_error path e = Err (errno_text e) [path]"

text \<open>A call that has resolved its path goes on with the place it found.\<close>

definition at_path :: "bool \<Rightarrow> string \<Rightarrow> (string list \<Rightarrow> 'a io) \<Rightarrow> 'a io" where
  "at_path follow path k = (\<lambda>s. case resolve follow path s of
     Inl e \<Rightarrow> (Inl (path_error path e), s) | Inr p \<Rightarrow> k p s)"

definition remove_below :: "string list \<Rightarrow> fs \<Rightarrow> fs" where
  "remove_below p s = s\<lparr>fs_nodes := filter (\<lambda>(q, _). \<not> prefix p q) (fs_nodes s)\<rparr>"

text \<open>\<open>os.RemoveAll\<close>: a missing path is no error; the last component is not followed.\<close>

definition os_RemoveAll :: "string \<Rightarrow> unit io" where
  "os_RemoveAll path = (\<lambda>s.
     if path = [] then (Inr (), s)
     else if path = ''.'' \<or> suffix ''/.'' path then (Inl (path_error path EINVAL), s)
     else case resolve False path s of
            Inl ENOENT \<Rightarrow> (Inr (), s)
          | Inl e \<Rightarrow> (Inl (path_error path e), s)
          | Inr p \<Rightarrow> (Inr (), remove_below p s))"

definition os_Remove :: "string \<Rightarrow> unit io" where
  "os_Remove path = at_path False path (\<lambda>p s. case node_of s p of
     None \<Rightarrow> (Inl (path_error path ENOENT), s)
   | Some _ \<Rightarrow> (Inr (), remove_below p s))"

text \<open>\<open>mkdir\<close>, and \<open>os.MkdirAll\<close> over the components of its path, the last one first.\<close>

definition sys_mkdir :: "string \<Rightarrow> string list \<Rightarrow> perm \<Rightarrow> unit io" where
  "sys_mkdir path cs perm = (\<lambda>s.
     case walk link_limit s False (start_dir s path) cs of
       Inl e \<Rightarrow> (Inl (path_error path e), s)
     | Inr p \<Rightarrow>
         (case node_of s p of
            None \<Rightarrow> (Inr (), set_node p (DirN (and perm (not (fs_umask s)))) s)
          | Some (DirN _) \<Rightarrow> (Inr (), s)
          | Some _ \<Rightarrow> (Inl (path_error path EEXIST), s)))"

fun mkdirs :: "string \<Rightarrow> perm \<Rightarrow> string list \<Rightarrow> unit io" where
  "mkdirs path perm [] = io_ret ()"
| "mkdirs path perm (c # rcs) = (\<lambda>s.
     case stat_walk True s (start_dir s path) (rev (c # rcs)) of
       Inr (_, DirN _) \<Rightarrow> (Inr (), s)
     | Inr _ \<Rightarrow> (Inl (path_error path ENOTDIR), s)
     | Inl _ \<Rightarrow> io_then (mkdirs path perm rcs) (sys_mkdir path (rev (c # rcs)) perm) s)"

definition os_MkdirAll :: "string \<Rightarrow> perm \<Rightarrow> unit io" where
  "os_MkdirAll path perm = mkdirs path perm (rev (elements path))"

definition os_Chmod :: "string \<Rightarrow> perm \<Rightarrow> unit io" where
  "os_Chmod path perm = at_path True path (\<lambda>p s. case node_of s p of
     Some (DirN _) \<Rightarrow> (Inr (), set_node p (DirN perm) s)
   | Some (FileN i) \<Rightarrow> (Inr (), s\<lparr>fs_inodes := go_put i (perm, snd (go_get0 (0, []) (fs_inodes s) i)) (fs_inodes s)\<rparr>)
   | _ \<Rightarrow> (Inl (path_error path ENOENT), s))"

text \<open>
  \<open>os.OpenFile\<close> to create or truncate, with the bytes that are written before the file is closed: a
  new file gets a new inode, an existing one keeps its mode.
\<close>

definition os_Create :: "string \<Rightarrow> string \<Rightarrow> perm \<Rightarrow> unit io" where
  "os_Create path content perm = at_path True path (\<lambda>p s. case node_of s p of
     None \<Rightarrow> (Inr (), set_node p (FileN (fs_next s)) s
         \<lparr>fs_inodes := go_put (fs_next s) (and perm (not (fs_umask s)), content) (fs_inodes s),
          fs_next := Suc (fs_next s)\<rparr>)
   | Some (FileN i) \<Rightarrow>
       (Inr (), s\<lparr>fs_inodes := go_put i (fst (go_get0 (0, []) (fs_inodes s) i), content) (fs_inodes s)\<rparr>)
   | Some (DirN _) \<Rightarrow> (Inl (path_error path EISDIR), s)
   | Some (LinkN _) \<Rightarrow> (Inl (path_error path ELOOP), s))"

definition os_Symlink :: "string \<Rightarrow> string \<Rightarrow> unit io" where
  "os_Symlink target path =
     (if target = [] then io_fail (path_error path ENOENT)
      else at_path False path (\<lambda>p s. case node_of s p of
        None \<Rightarrow> (Inr (), set_node p (LinkN target) s)
      | Some _ \<Rightarrow> (Inl (path_error path EEXIST), s)))"

text \<open>\<open>os.Link\<close> does not follow a link that is its target, and refuses directories.\<close>

definition os_Link :: "string \<Rightarrow> string \<Rightarrow> unit io" where
  "os_Link target path = at_path False target (\<lambda>q s. case node_of s q of
     None \<Rightarrow> (Inl (path_error target ENOENT), s)
   | Some (DirN _) \<Rightarrow> (Inl (path_error target EPERM), s)
   | Some nd \<Rightarrow> at_path False path (\<lambda>p s. case node_of s p of
        None \<Rightarrow> (Inr (), set_node p nd s)
      | Some _ \<Rightarrow> (Inl (path_error path EEXIST), s)) s)"

text \<open>The names in a directory, sorted.\<close>

definition children :: "fs \<Rightarrow> string list \<Rightarrow> string list" where
  "children s p = sort (map last (filter (\<lambda>q. q \<noteq> [] \<and> butlast q = p) (go_keys (fs_nodes s))))"

definition read_dir :: "string \<Rightarrow> fs \<Rightarrow> errno + string list" where
  "read_dir path s =
     (case stat_node True path s of
        Inl e \<Rightarrow> Inl e
      | Inr (p, DirN _) \<Rightarrow> Inr (children s p)
      | Inr _ \<Rightarrow> Inl ENOTDIR)"

text \<open>What a reader of a regular file finds.\<close>

definition read_file :: "fs \<Rightarrow> string list \<Rightarrow> (perm \<times> string) option" where
  "read_file s p = (case node_of s p of Some (FileN i) \<Rightarrow> go_get (fs_inodes s) i | _ \<Rightarrow> None)"

end
