(* ===== verification/Rootfs.thy ===== *)
theory Rootfs
  imports FileSystem Receipt
begin

text \<open>
  Unpacking a container image into a directory, \<open>harness/oci_rootfs_extract.go\<close> with
  \<open>harness/bundle_paths.go\<close>: the choice and the checks of the layers, the entries of a layer with
  their path checks, links and whiteouts, the clean-up of dangling links and empty directories. And
  the check of a precompiled validator, \<open>harness/compiled_validator.go\<close>. Arguments of the model: the
  decoded index and manifest, the bytes of the blobs, and the archive that a decompressor finds in
  them (\<open>compress/gzip\<close>, the zstd tool, \<open>archive/tar\<close>).
\<close>

section \<open>Path checks\<close>

text \<open>\<open>filepath.Rel\<close> has an error or a path; the path of a parent directory is refused too.\<close>

definition safePath :: "string \<Rightarrow> string \<Rightarrow> string result" where
  "safePath root name =
     (let clean = Clean name
      in fail_if (clean = ''.'' \<or> IsAbs clean \<or> clean = ''..'' \<or> prefix ''../'' clean)
           (Err ''unsafe layer path %q'' [name])
         (let path = path_join [root, clean]
          in case Rel root path of
               None \<Rightarrow> Inl (Err ''layer path escapes root: %q'' [name])
             | Some relative \<Rightarrow>
                 fail_if (relative = ''..'' \<or> prefix ''../'' relative)
                   (Err ''layer path escapes root: %q'' [name])
                   (Inr path)))"

record CompiledValidator =
  cv_path :: string
  cv_sourceSHA256 :: string
  cv_compilerSHA256 :: string
  cv_bytecodeSHA256 :: string

text \<open>\<open>readFile\<close> is the outcome of reading a file.\<close>

definition loadCompiledValidator :: "(string \<Rightarrow> string result) \<Rightarrow> string \<Rightarrow> CompiledValidator \<Rightarrow> string
    \<Rightarrow> string result" where
  "loadCompiledValidator readFile manifestPath artifact source =
     fail_if (cv_path artifact = [] \<or> IsAbs (cv_path artifact) \<or> \<not> IsLocal (cv_path artifact)
         \<or> \<not> digestHex (cv_compilerSHA256 artifact) \<or> cv_sourceSHA256 artifact \<noteq> digest source
         \<or> \<not> digestHex (cv_bytecodeSHA256 artifact))
       (Err ''compiled validator source/compiler identity mismatch'' [])
     (res_bind (readFile (path_join [Dir manifestPath, cv_path artifact])) (\<lambda>bytecode.
      fail_if (bytecode = [] \<or> digest bytecode \<noteq> cv_bytecodeSHA256 artifact)
        (Err ''compiled validator bytecode digest mismatch'' [])
        (Inr bytecode)))"

section \<open>Layers\<close>

record Descriptor =
  ds_digest :: string
  ds_mediaType :: string
  ds_size :: int

datatype codec = Gzip | Zstd string | Plain

text \<open>The decompressor of a media type; the zstd tool is the optional argument.\<close>

definition layerReader :: "string \<Rightarrow> string list \<Rightarrow> codec result" where
  "layerReader mediaType zstdTool =
     (if mediaType = ''application/vnd.oci.image.layer.v1.tar+gzip''
         \<or> mediaType = ''application/vnd.docker.image.rootfs.diff.tar.gzip'' then Inr Gzip
      else if mediaType = ''application/vnd.oci.image.layer.v1.tar+zstd''
         \<or> mediaType = ''application/vnd.datadog.package.layer.v1.tar+zstd'' then
        (case zstdTool of
           [tool] \<Rightarrow> fail_if (tool = []) (Err ''zstd layer requires a declared zstd tool'' []) (Inr (Zstd tool))
         | _ \<Rightarrow> Inl (Err ''zstd layer requires a declared zstd tool'' []))
      else if mediaType = ''application/vnd.oci.image.layer.v1.tar''
         \<or> mediaType = ''application/vnd.docker.image.rootfs.diff.tar'' then Inr Plain
      else Inl (Err ''unsupported layer media type %q'' [mediaType]))"

text \<open>One entry of an archive, with what reading its content gives.\<close>

record Header =
  hd_name :: string
  hd_typeflag :: char
  hd_linkname :: string
  hd_mode :: int
  hd_content :: string
  hd_readError :: "error option"

text \<open>
  An archive as it is read: opening the decompressor may fail, then come the entries, then the end
  or an error, and closing the decompressor may fail.
\<close>

record Archive =
  ar_entries :: "Header list"
  ar_error :: "error option"
  ar_close :: "error option"

record Image =
  im_index :: "Descriptor list result"
  im_manifest :: "string \<Rightarrow> Descriptor list result"
  im_blob :: "string \<Rightarrow> string result"
  im_open :: "codec \<Rightarrow> string \<Rightarrow> Archive result"

definition blobPath :: "string \<Rightarrow> string \<Rightarrow> string result" where
  "blobPath layout digst =
     (case str_cut digst '':'' of
        None \<Rightarrow> Inl (Err ''unsupported digest %q'' [digst])
      | Some (algorithm, encoded) \<Rightarrow>
          fail_if (algorithm \<noteq> ''sha256'' \<or> length encoded \<noteq> 64) (Err ''unsupported digest %q'' [digst])
         (fail_if (\<not> hex_decodes encoded) (Err ''invalid digest %q'' [digst])
           (Inr (path_join [layout, ''blobs'', algorithm, encoded]))))"

definition verifyBlob :: "Image \<Rightarrow> string \<Rightarrow> string \<Rightarrow> unit result" where
  "verifyBlob img path digst =
     res_bind (im_blob img path) (\<lambda>bytes.
       let actual = ''sha256:'' @ digest bytes
       in fail_if (actual \<noteq> digst) (Err ''blob digest mismatch: expected %s, got %s'' [digst, actual])
            (Inr ()))"

definition readLayers :: "Image \<Rightarrow> string \<Rightarrow> (string \<times> Descriptor list) result" where
  "readLayers img layout =
     res_bind (res_wrap ''read OCI index'' [] (im_index img)) (\<lambda>manifests.
       case manifests of
         [m] \<Rightarrow>
           res_bind (blobPath layout (ds_digest m)) (\<lambda>manifestPath.
           res_bind (verifyBlob img manifestPath (ds_digest m)) (\<lambda>_.
           res_bind (res_wrap ''read OCI manifest'' [] (im_manifest img manifestPath)) (\<lambda>layers.
             fail_if (layers = []) (Err ''OCI manifest has no layers'' []) (Inr (ds_digest m, layers)))))
       | _ \<Rightarrow> Inl (Err ''expected one OCI manifest, got %d'' [itoa (int (length manifests))]))"

text \<open>A verified blob, opened; the file is read again after it was hashed.\<close>

definition openLayer :: "Image \<Rightarrow> string \<Rightarrow> string list \<Rightarrow> Descriptor \<Rightarrow> Archive result" where
  "openLayer img layout zstdTool layer =
     res_bind (blobPath layout (ds_digest layer)) (\<lambda>blob.
     res_bind (verifyBlob img blob (ds_digest layer)) (\<lambda>_.
     res_bind (im_blob img blob) (\<lambda>bytes.
     res_bind (layerReader (ds_mediaType layer) zstdTool) (\<lambda>codec. im_open img codec bytes))))"

definition verifyEmptyLayer :: "Image \<Rightarrow> string \<Rightarrow> string list \<Rightarrow> Descriptor \<Rightarrow> unit result" where
  "verifyEmptyLayer img layout zstdTool layer =
     res_bind (openLayer img layout zstdTool layer) (\<lambda>archive.
       case (ar_entries archive, ar_error archive) of
         (_ # _, _) \<Rightarrow> Inl (Err ''small OCI layer %s is not empty'' [ds_digest layer])
       | ([], Some e) \<Rightarrow> Inl (Wrap ''read small OCI layer %s'' [ds_digest layer] e)
       | ([], None) \<Rightarrow> (case ar_close archive of Some e \<Rightarrow> Inl e | None \<Rightarrow> Inr ()))"

definition payloadStep :: "Image \<Rightarrow> string \<Rightarrow> string list \<Rightarrow> Descriptor \<Rightarrow> Descriptor list
    \<Rightarrow> Descriptor list result" where
  "payloadStep img layout zstdTool layer payloadLayers =
     (if ds_size layer > 1024 then Inr (payloadLayers @ [layer])
      else res_bind (verifyEmptyLayer img layout zstdTool layer) (\<lambda>_. Inr payloadLayers))"

definition singlePayloadLayer :: "Image \<Rightarrow> string \<Rightarrow> string list \<Rightarrow> Descriptor list
    \<Rightarrow> Descriptor list result" where
  "singlePayloadLayer img layout zstdTool layers =
     res_bind (res_fold (payloadStep img layout zstdTool) layers []) (\<lambda>payloadLayers.
       fail_if (length payloadLayers \<noteq> 1)
         (Err ''portable app images must contain exactly one non-empty payload layer, got %d''
            [itoa (int (length payloadLayers))])
         (Inr payloadLayers))"

section \<open>Entries\<close>

text \<open>Whiteouts of a lower layer: of a whole directory, or of one name.\<close>

definition opaqueTarget :: "string \<Rightarrow> string \<Rightarrow> string result" where
  "opaqueTarget root directory = (if directory \<noteq> ''.'' then safePath root directory else Inr root)"

definition applyWhiteout :: "string \<Rightarrow> string \<Rightarrow> unit io" where
  "applyWhiteout root name =
     (let base = Base name; directory = Dir name
      in if base = ''.wh..wh..opq'' then
           io_bind (io_lift (opaqueTarget root directory)) (\<lambda>target s.
             case read_dir target s of
               Inl ENOENT \<Rightarrow> (Inr (), s)
             | Inl e \<Rightarrow> (Inl (path_error target e), s)
             | Inr entries \<Rightarrow> io_each (\<lambda>entry. os_RemoveAll (path_join [target, entry])) entries s)
         else
           io_bind (io_lift (safePath root (path_join [directory, trim_prefix base ''.wh.'']))) os_RemoveAll)"

definition header_perm :: "Header \<Rightarrow> perm" where
  "header_perm header = word_of_int (hd_mode header)"

text \<open>A directory replaces what is no directory.\<close>

definition extractDir :: "string \<Rightarrow> Header \<Rightarrow> unit io" where
  "extractDir destination header =
     io_then (\<lambda>s. case stat_node False destination s of
         Inr (_, DirN _) \<Rightarrow> (Inr (), s)
       | Inr _ \<Rightarrow> os_RemoveAll destination s
       | Inl _ \<Rightarrow> (Inr (), s))
     (io_then (os_MkdirAll destination (header_perm header))
       (os_Chmod destination (header_perm header)))"

definition extractFile :: "string \<Rightarrow> Header \<Rightarrow> unit io" where
  "extractFile destination header =
     io_then (os_RemoveAll destination)
     (io_then (os_MkdirAll (Dir destination) 0b111101101)
     (io_then (os_Create destination (hd_content header) (header_perm header))
     (io_then (case hd_readError header of Some e \<Rightarrow> io_fail e | None \<Rightarrow> io_ret ())
       (os_Chmod destination (header_perm header)))))"

text \<open>An absolute target is below the root of the image: it becomes relative to the link.\<close>

definition relativeLink :: "string \<Rightarrow> string \<Rightarrow> string \<Rightarrow> string result" where
  "relativeLink root name linkname =
     (if IsAbs linkname then
        (let rootTarget = trim_prefix (Clean linkname) ''/''
         in res_bind (res_wrap ''unsafe absolute symlink %q -> %q'' [name, linkname] (safePath root rootTarget)) (\<lambda>_.
            case Rel (Dir name) rootTarget of
              None \<Rightarrow> Inl (Err ''rewrite absolute symlink %q -> %q'' [name, linkname])
            | Some linkName \<Rightarrow> Inr linkName))
      else Inr linkname)"

definition checkedLink :: "string \<Rightarrow> string \<Rightarrow> string \<Rightarrow> string result" where
  "checkedLink root name linkname =
     res_bind (relativeLink root name linkname) (\<lambda>linkName.
     let linkTarget = Clean (path_join [Dir name, linkName])
     in res_bind (res_wrap ''unsafe symlink %q -> %q'' [name, linkname] (safePath root linkTarget)) (\<lambda>_.
        Inr linkName))"

definition extractSymlink :: "string \<Rightarrow> string \<Rightarrow> string \<Rightarrow> Header \<Rightarrow> unit io" where
  "extractSymlink root name destination header =
     io_bind (io_lift (checkedLink root name (hd_linkname header))) (\<lambda>linkName.
     io_then (os_RemoveAll destination)
     (io_then (os_MkdirAll (Dir destination) 0b111101101)
       (os_Symlink linkName destination)))"

definition extractLink :: "string \<Rightarrow> string \<Rightarrow> string \<Rightarrow> Header \<Rightarrow> unit io" where
  "extractLink root name destination header =
     io_bind (io_wrap ''unsafe hardlink %q -> %q'' [name, hd_linkname header]
         (io_lift (safePath root (trim_prefix (hd_linkname header) ''./'')))) (\<lambda>target.
     io_then (os_MkdirAll (Dir destination) 0b111101101)
     (io_then (os_RemoveAll destination)
       (os_Link target destination)))"

text \<open>The switch over the type flags of package \<open>archive/tar\<close>.\<close>

definition extractKind :: "string \<Rightarrow> string \<Rightarrow> string \<Rightarrow> Header \<Rightarrow> unit io" where
  "extractKind root name destination header =
     (let flag = hd_typeflag header
      in if flag = CHR ''5'' then extractDir destination header
         else if flag = CHR ''0'' \<or> flag = CHR 0x00 then extractFile destination header
         else if flag = CHR ''2'' then extractSymlink root name destination header
         else if flag = CHR ''1'' then extractLink root name destination header
         else if flag = CHR ''g'' then io_ret ()
         else io_fail (Err ''unsupported tar entry type %d for %q'' [utoa (of_char flag), name]))"

definition extractEntry :: "string \<Rightarrow> Header \<Rightarrow> unit io" where
  "extractEntry root header =
     (let name = trim_prefix (hd_name header) ''./''
      in if name = [] \<or> name = ''.'' then io_ret ()
         else if prefix ''.wh.'' (Base name) then applyWhiteout root name
         else io_bind (io_lift (safePath root name)) (\<lambda>destination.
           extractKind root name destination header))"

text \<open>The deferred close of the decompressor turns a success into its error.\<close>

definition extractArchive :: "string \<Rightarrow> Archive \<Rightarrow> unit io" where
  "extractArchive root archive =
     io_then (io_each (extractEntry root) (ar_entries archive))
     (io_then (case ar_error archive of Some e \<Rightarrow> io_fail (Wrap ''read layer'' [] e) | None \<Rightarrow> io_ret ())
       (case ar_close archive of Some e \<Rightarrow> io_fail e | None \<Rightarrow> io_ret ()))"

definition extractLayer :: "Image \<Rightarrow> string \<Rightarrow> string list \<Rightarrow> string \<Rightarrow> Descriptor \<Rightarrow> unit io" where
  "extractLayer img layout zstdTool root layer =
     io_bind (io_lift (openLayer img layout zstdTool layer)) (extractArchive root)"

definition extractFresh :: "Image \<Rightarrow> string \<Rightarrow> string list \<Rightarrow> Descriptor list \<Rightarrow> string \<Rightarrow> unit io" where
  "extractFresh img layout zstdTool layers root =
     io_then (io_wrap ''clear old bundle root'' [] (os_RemoveAll root))
     (io_then (io_wrap ''create bundle root'' [] (os_MkdirAll root 0b111101101))
       (io_each (extractLayer img layout zstdTool root) layers))"

section \<open>After the layers\<close>

text \<open>
  \<open>filepath.WalkDir\<close> visits a directory before its entries and these by name, which is the order of
  the lists of components. The callbacks add no link and no directory and remove only the link they
  are called for, so the walk is over the paths that are there when it starts.
\<close>

definition tree_paths :: "fs \<Rightarrow> string list \<Rightarrow> string list list" where
  "tree_paths s p = map (drop (length p)) (sort (filter (prefix p) (go_keys (fs_nodes s))))"

definition walked_path :: "string \<Rightarrow> string list \<Rightarrow> string" where
  "walked_path root q = (if q = [] then root else path_join (root # q))"

definition walk_dir :: "(node \<Rightarrow> bool) \<Rightarrow> (string \<Rightarrow> unit io) \<Rightarrow> string \<Rightarrow> unit io" where
  "walk_dir wanted visit root = (\<lambda>s. case stat_node False root s of
     Inl e \<Rightarrow> (Inl (path_error root e), s)
   | Inr (p, _) \<Rightarrow> io_each visit
       (map (walked_path root) (filter (\<lambda>q. case node_of s (p @ q) of Some nd \<Rightarrow> wanted nd | None \<Rightarrow> False)
         (tree_paths s p))) s)"

definition treeArtifactDirectoryMarker :: string where
  "treeArtifactDirectoryMarker = ''.rules-stests-tree-artifact''"

definition writeMarker :: "string \<Rightarrow> unit io" where
  "writeMarker path = io_wrap ''preserve empty OCI directory %s'' [path]
     (os_Create (path_join [path, treeArtifactDirectoryMarker]) [] 0b100100100)"

text \<open>The deferred call restores the mode on every way out, and its error counts only after a success.\<close>

definition preserveEmptyDirectory :: "string \<Rightarrow> perm \<Rightarrow> unit io" where
  "preserveEmptyDirectory path mode =
     (if and mode 0b111000000 \<noteq> 0b111000000 then
        io_then (io_wrap ''make empty OCI directory writable %s'' [path] (os_Chmod path (or mode 0b111000000)))
          (\<lambda>s. case writeMarker path s of
             (outcome, s') \<Rightarrow>
               (case io_wrap ''restore empty OCI directory mode %s'' [path] (os_Chmod path mode) s' of
                  (restored, s'') \<Rightarrow> (case outcome of Inl e \<Rightarrow> (Inl e, s'') | Inr _ \<Rightarrow> (restored, s''))))
      else writeMarker path)"

definition removeDanglingSymlink :: "string \<Rightarrow> unit io" where
  "removeDanglingSymlink path = (\<lambda>s. case stat_node True path s of
     Inl ENOENT \<Rightarrow> io_wrap ''remove dangling OCI symlink %s'' [path] (os_Remove path) s
   | Inl e \<Rightarrow> (Inl (Wrap ''inspect OCI symlink %s'' [path] (path_error path e)), s)
   | Inr (p, DirN mode) \<Rightarrow> if children s p = [] then preserveEmptyDirectory path mode s else (Inr (), s)
   | Inr _ \<Rightarrow> (Inr (), s))"

definition removeDanglingSymlinks :: "string \<Rightarrow> unit io" where
  "removeDanglingSymlinks =
     walk_dir (\<lambda>nd. case nd of LinkN _ \<Rightarrow> True | _ \<Rightarrow> False) removeDanglingSymlink"

definition preserveDirectory :: "string \<Rightarrow> unit io" where
  "preserveDirectory path = (\<lambda>s. case stat_node False path s of
     Inl e \<Rightarrow> (Inl (Wrap ''inspect OCI directory %s'' [path] (path_error path e)), s)
   | Inr (p, DirN mode) \<Rightarrow> if children s p \<noteq> [] then (Inr (), s) else preserveEmptyDirectory path mode s
   | Inr _ \<Rightarrow> (Inr (), s))"

definition preserveEmptyDirectories :: "string \<Rightarrow> unit io" where
  "preserveEmptyDirectories =
     walk_dir (\<lambda>nd. case nd of DirN _ \<Rightarrow> True | _ \<Rightarrow> False) preserveDirectory"

section \<open>The command\<close>

text \<open>The environment that the search for a runfile looks at; \<open>None\<close> if the executable is unknown.\<close>

record Runfiles =
  rf_runfilesDir :: string
  rf_testSrcdir :: string
  rf_executable :: "string option"

definition runfileCandidates :: "Runfiles \<Rightarrow> string \<Rightarrow> string list" where
  "runfileCandidates env v =
     v # (if rf_runfilesDir env \<noteq> [] then [path_join [rf_runfilesDir env, v]] else [])
       @ (if rf_testSrcdir env \<noteq> [] then [path_join [rf_testSrcdir env, v]] else [])
       @ (case rf_executable env of Some e \<Rightarrow> [path_join [e @ ''.runfiles'', v]] | None \<Rightarrow> [])"

definition path_abs :: "fs \<Rightarrow> string \<Rightarrow> string" where
  "path_abs s path =
     (if IsAbs path then Clean path else path_join [render True (fs_cwd s), path])"

definition firstCandidate :: "(node \<Rightarrow> bool) \<Rightarrow> string \<Rightarrow> Runfiles \<Rightarrow> string \<Rightarrow> fs \<Rightarrow> string result" where
  "firstCandidate wanted message env v s =
     (case find (\<lambda>c. case stat_node True c s of Inr (_, nd) \<Rightarrow> wanted nd | Inl _ \<Rightarrow> False)
             (runfileCandidates env v) of
        Some c \<Rightarrow> Inr (path_abs s c)
      | None \<Rightarrow> Inl (Err message [v]))"

definition resolveDirectory :: "Runfiles \<Rightarrow> string \<Rightarrow> fs \<Rightarrow> string result" where
  "resolveDirectory =
     firstCandidate (\<lambda>nd. case nd of DirN _ \<Rightarrow> True | _ \<Rightarrow> False) ''directory %q is not present in runfiles''"

definition resolveRunfile :: "Runfiles \<Rightarrow> string \<Rightarrow> fs \<Rightarrow> string result" where
  "resolveRunfile =
     firstCandidate (\<lambda>nd. case nd of FileN _ \<Rightarrow> True | _ \<Rightarrow> False) ''file %q is not present in runfiles''"

text \<open>The image in a layout directory is an argument.\<close>

definition extractOCI :: "Runfiles \<Rightarrow> (string \<Rightarrow> Image) \<Rightarrow> string \<Rightarrow> string \<Rightarrow> bool \<Rightarrow> string list \<Rightarrow> unit io" where
  "extractOCI env imageAt layoutArg root singlePayload zstdTool =
     io_bind (\<lambda>s. (resolveDirectory env layoutArg s, s)) (\<lambda>layout.
     io_bind (io_lift (readLayers (imageAt layout) layout)) (\<lambda>(manifestDigest, layers).
     io_bind (io_lift (if singlePayload then singlePayloadLayer (imageAt layout) layout zstdTool layers
                       else Inr layers)) (\<lambda>layers.
     io_then (extractFresh (imageAt layout) layout zstdTool layers root)
     (io_then (removeDanglingSymlinks root)
     (io_then (preserveEmptyDirectories root)
       (io_wrap ''write extraction marker'' []
         (os_Create (path_join [root, ''.rules-stests-manifest'']) (manifestDigest @ [CHR 0x0A]) 0b100100100)))))))"

datatype Command =
    ExtractOCI string string bool "string list"
  | ExtractRuby string string string "string list"

definition parseArgs :: "string list \<Rightarrow> Command result" where
  "parseArgs args =
     (if (length args \<noteq> 3 \<and> length args \<noteq> 4 \<and> length args \<noteq> 5)
         \<or> (args ! 2 \<noteq> ''single'' \<and> args ! 2 \<noteq> ''multi'' \<and> args ! 2 \<noteq> ''ruby-runtime'')
         \<or> (length args = 5 \<and> args ! 2 \<noteq> ''ruby-runtime'') then
        Inl (Err ''usage: oci_rootfs_extract <oci-layout> <rootfs> <single|multi|ruby-runtime> [zstd-tool [ruby-headers-output]]'' [])
      else if args ! 2 = ''ruby-runtime'' then
        (if length args = 5 then Inr (ExtractRuby (args ! 0) (args ! 1) (args ! 4) [args ! 3])
         else Inr (ExtractRuby (args ! 0) (args ! 1) [] (drop 3 args)))
      else Inr (ExtractOCI (args ! 0) (args ! 1) (args ! 2 = ''single'') (drop 3 args)))"

end
