(* ===== verification/RootfsSpec.thy ===== *)
theory RootfsSpec
  imports Rootfs
begin

text \<open>
  What unpacking an image promises: which paths and links are accepted, that entries without symbolic
  links change nothing outside the root, what a regular entry leaves, and how the check of links by
  their spelling alone is got around.
\<close>

section \<open>Accepted paths\<close>

lemma safePath_iff:
  "safePath root name = Inr path \<longleftrightarrow>
     \<not> IsAbs name \<and> comps name \<noteq> [] \<and> dotdot \<notin> set (comps name)
     \<and> path = render (IsAbs root) (comps root @ comps name)"
proof (cases "\<not> IsAbs name \<and> comps name \<noteq> [] \<and> dotdot \<notin> set (comps name)")
  case True
  then have name: "\<not> IsAbs name" "comps name \<noteq> []" "dotdot \<notin> set (comps name)" by auto
  note j = path_join_below [OF name(1,3), of root]
  have "Rel root (path_join [root, Clean name]) = Some (join (comps name) ''/'')"
    using j(1,2) name(2) by (intro Rel_below) simp_all
  moreover have "join (comps name) ''/'' = Clean name" using name by (simp add: Clean_def render_def)
  ultimately show ?thesis using name goes_up_iff [of name] j(3)
    by (auto simp: safePath_def Let_def fail_if_Inr_iff Clean_dot_iff)
next
  case False
  then show ?thesis using goes_up_iff [of name]
    by (auto simp: safePath_def Let_def fail_if_Inr_iff Clean_dot_iff)
qed

lemma safePath_cases:
  "(\<exists>path. safePath root name = Inr path) \<longleftrightarrow>
     \<not> IsAbs name \<and> comps name \<noteq> [] \<and> dotdot \<notin> set (comps name)"
  by (simp add: safePath_iff)

section \<open>Walking\<close>

lemma node_of_set_node: "node_of (set_node p nd s) q = (if q = p \<and> p \<noteq> [] then Some nd else node_of s q)"
  by (simp add: node_of_def set_node_def go_get_put)

lemma node_of_remove_below:
  "node_of (remove_below p s) q = (if prefix p q \<and> q \<noteq> [] then None else node_of s q)"
proof -
  have "go_get (filter (\<lambda>(q, _). \<not> prefix p q) m) q = (if prefix p q then None else go_get m q)"
    for m :: "(string list, node) gomap"
    by (induction m) auto
  then show ?thesis by (simp add: node_of_def remove_below_def)
qed

lemma is_dir_Nil [simp]: "is_dir s []"
  by (simp add: is_dir_def node_of_def)

text \<open>Through real directories the walk just goes down.\<close>

lemma walk_down:
  "(\<And>p. prefix p (cur @ xs) \<Longrightarrow> is_dir s p) \<Longrightarrow> dotdot \<notin> set xs \<Longrightarrow>
   walk n s f cur (xs @ ys) = walk n s f (cur @ xs) ys"
proof (induction xs arbitrary: cur)
  case (Cons x xs)
  have "is_dir s cur" by (rule Cons.prems(1)) simp
  moreover have "is_dir s (cur @ [x])" by (rule Cons.prems(1)) simp
  moreover have "walk n s f (cur @ [x]) (xs @ ys) = walk n s f ((cur @ [x]) @ xs) ys"
    using Cons.prems by (intro Cons.IH) simp_all
  ultimately show ?case using Cons.prems(2)
    by (auto simp: is_dir_def split: option.splits node.splits)
qed simp

text \<open>Where there are no links, the walk ends at the components it is given.\<close>

lemma walk_plain:
  "(\<And>q t. prefix cur q \<Longrightarrow> node_of s q \<noteq> Some (LinkN t)) \<Longrightarrow> dotdot \<notin> set cs \<Longrightarrow>
   walk n s f cur cs = Inr p \<Longrightarrow> p = cur @ cs"
proof (induction cs arbitrary: cur)
  case (Cons c cs)
  have nl: "node_of s (cur @ [c]) \<noteq> Some (LinkN t)" for t
    by (rule Cons.prems(1)) simp
  have "p = cur @ [c] \<and> cs = [] \<or> walk n s f (cur @ [c]) cs = Inr p"
    using Cons.prems(2,3) nl by (auto split: if_splits option.splits node.splits)
  moreover have "p = (cur @ [c]) @ cs" if "walk n s f (cur @ [c]) cs = Inr p"
  proof (rule Cons.IH [OF _ _ that])
    show "node_of s q \<noteq> Some (LinkN t)" if "prefix (cur @ [c]) q" for q t
      using Cons.prems(1) that append_prefixD by blast
  qed (use Cons.prems(2) in simp)
  ultimately show ?case by auto
qed simp

section \<open>The jail\<close>

definition plain_names :: "string list \<Rightarrow> bool" where
  "plain_names cs \<longleftrightarrow> list_all element cs \<and> dotdot \<notin> set cs"

lemma plain_names_simps [simp]:
  "plain_names []" "plain_names (cs @ ds) \<longleftrightarrow> plain_names cs \<and> plain_names ds"
  "plain_names (c # cs) \<longleftrightarrow> element c \<and> c \<noteq> dotdot \<and> plain_names cs"
  by (auto simp: plain_names_def)

lemma plain_names_butlast: "plain_names cs \<Longrightarrow> plain_names (butlast cs)"
  by (auto simp: plain_names_def list_all_iff dest: in_set_butlastD)

text \<open>
  The root is a real directory reached through real directories; below it there are no symbolic
  links and no inodes from before, and the names are such as a file system has.
\<close>

definition jailed :: "string \<Rightarrow> string list \<Rightarrow> nat \<Rightarrow> fs \<Rightarrow> bool" where
  "jailed root R n0 s \<longleftrightarrow>
     start_dir s root @ elements root = R \<and> dotdot \<notin> set (elements root)
     \<and> (\<forall>p. prefix p R \<longrightarrow> is_dir s p)
     \<and> (\<forall>q t. prefix R q \<longrightarrow> node_of s q \<noteq> Some (LinkN t))
     \<and> (\<forall>q i. prefix R q \<longrightarrow> node_of s q = Some (FileN i) \<longrightarrow> n0 \<le> i)
     \<and> (\<forall>cs. node_of s (R @ cs) \<noteq> None \<longrightarrow> plain_names cs)
     \<and> n0 \<le> fs_next s"

definition same_outside :: "string list \<Rightarrow> nat \<Rightarrow> fs \<Rightarrow> fs \<Rightarrow> bool" where
  "same_outside R n0 s s' \<longleftrightarrow>
     (\<forall>q. \<not> prefix R q \<longrightarrow> node_of s' q = node_of s q)
     \<and> (\<forall>i < n0. go_get (fs_inodes s') i = go_get (fs_inodes s) i)
     \<and> fs_cwd s' = fs_cwd s \<and> fs_umask s' = fs_umask s"

definition confined :: "string \<Rightarrow> string list \<Rightarrow> nat \<Rightarrow> fs \<Rightarrow> fs \<Rightarrow> bool" where
  "confined root R n0 s s' \<longleftrightarrow>
     (jailed root R n0 s \<longrightarrow> jailed root R n0 s' \<and> same_outside R n0 s s')"

text \<open>A relation between the states before and after that every effect keeps.\<close>

definition keeps :: "(fs \<Rightarrow> fs \<Rightarrow> bool) \<Rightarrow> 'a io \<Rightarrow> bool" where
  "keeps Q m \<longleftrightarrow> (\<forall>s. Q s (snd (m s)))"

locale io_relation =
  fixes Q :: "fs \<Rightarrow> fs \<Rightarrow> bool"
  assumes refl: "Q s s"
    and trans: "Q s t \<Longrightarrow> Q t u \<Longrightarrow> Q s u"
begin

lemma keeps_ret [simp]: "keeps Q (io_ret x)"
  by (simp add: keeps_def io_simps refl)

lemma keeps_fail [simp]: "keeps Q (io_fail e)"
  by (simp add: keeps_def io_simps refl)

lemma keeps_lift [simp]: "keeps Q (io_lift r)"
  by (simp add: keeps_def io_simps refl)

lemma keeps_bind_ran:
  assumes m: "keeps Q m" and f: "\<And>x s s'. m s = (Inr x, s') \<Longrightarrow> Q s' (snd (f x s'))"
  shows "keeps Q (io_bind m f)"
  unfolding keeps_def
proof
  fix s
  obtain r s' where run: "m s = (r, s')" by fastforce
  then have "Q s s'" using m by (metis keeps_def snd_conv)
  with run f show "Q s (snd (io_bind m f s))"
    by (cases r) (auto simp: io_bind_def intro: trans)
qed

lemma keeps_bind: "keeps Q m \<Longrightarrow> (\<And>x. keeps Q (f x)) \<Longrightarrow> keeps Q (io_bind m f)"
  by (rule keeps_bind_ran) (simp_all add: keeps_def)

lemma keeps_lift_bind: "(\<And>x. r = Inr x \<Longrightarrow> keeps Q (f x)) \<Longrightarrow> keeps Q (io_bind (io_lift r) f)"
  by (rule keeps_bind_ran) (auto simp: io_lift_def keeps_def refl)

lemma keeps_wrap: "keeps Q m \<Longrightarrow> keeps Q (io_wrap f args m)"
  by (simp add: keeps_def io_wrap_def case_prod_beta)

lemma keeps_each: "(\<And>x. x \<in> set xs \<Longrightarrow> keeps Q (f x)) \<Longrightarrow> keeps Q (io_each f xs)"
  by (induction xs) (simp_all add: keeps_bind)

lemma keeps_at_path:
  "(\<And>s p. resolve f path s = Inr p \<Longrightarrow> Q s (snd (k p s))) \<Longrightarrow> keeps Q (at_path f path k)"
  by (auto simp: keeps_def at_path_def refl split: sum.splits)

end

lemma same_outside_refl: "same_outside R n0 s s"
  by (simp add: same_outside_def)

lemma confined_refl: "confined root R n0 s s"
  by (simp add: confined_def same_outside_refl)

lemma confined_trans: "confined root R n0 s t \<Longrightarrow> confined root R n0 t u \<Longrightarrow> confined root R n0 s u"
  unfolding confined_def same_outside_def by auto

interpretation jail: io_relation "confined root R n0" for root R n0
  by unfold_locales (fact confined_refl | erule (1) confined_trans)+

section \<open>Calls below the root\<close>

definition inside :: "string \<Rightarrow> string list \<Rightarrow> string" where
  "inside root cs = render (IsAbs root) (comps root @ cs)"

lemma safePath_inside: "safePath root name = Inr path \<Longrightarrow> \<exists>cs. path = inside root cs \<and> plain_names cs \<and> cs \<noteq> []"
  unfolding safePath_iff inside_def plain_names_def using comps_elements by blast

lemma IsAbs_inside: "plain_names cs \<Longrightarrow> IsAbs (inside root cs) = IsAbs root"
  using comps_elements [of root] by (simp add: inside_def IsAbs_render plain_names_def)

lemma elements_inside:
  "plain_names cs \<Longrightarrow> dotdot \<notin> set (elements root) \<Longrightarrow> elements (inside root cs) = elements root @ cs"
  using comps_elements [of root] by (simp add: inside_def elements_render plain_names_def comps_relative)

lemma walk_jailed:
  assumes "jailed root R n0 s" "dotdot \<notin> set cs"
    and "walk n s f (start_dir s root) (elements root @ cs) = Inr p"
  shows "p = R @ cs"
proof -
  have "walk n s f (start_dir s root) (elements root @ cs) = walk n s f R cs"
    using assms(1) by (subst walk_down) (auto simp: jailed_def)
  with assms walk_plain [of R s cs n f p] show ?thesis by (auto simp: jailed_def)
qed

lemma start_dir_inside:
  "plain_names cs \<Longrightarrow> start_dir s (inside root cs) = start_dir s root"
  by (simp add: start_dir_def IsAbs_inside)

lemma resolve_jailed:
  assumes "jailed root R n0 s" "plain_names cs" "resolve f (inside root cs) s = Inr p"
  shows "p = R @ cs"
proof (rule walk_jailed [OF assms(1)])
  show "dotdot \<notin> set cs" using assms(2) by (simp add: plain_names_def)
  show "walk link_limit s f (start_dir s root) (elements root @ cs) = Inr p"
    using assms by (simp add: resolve_def start_dir_inside elements_inside jailed_def split: if_splits)
qed

text \<open>The changes a call makes below the root stay there.\<close>

lemma prefix_strict_append: "prefix (R @ cs) p \<Longrightarrow> prefix p R \<Longrightarrow> cs = []"
  by (metis append_prefixD prefix_order.antisym self_append_conv prefixI)

lemma is_dir_set_dir: "is_dir s q \<Longrightarrow> is_dir (set_node p (DirN m) s) q"
  by (simp add: is_dir_def node_of_set_node)

lemma confined_set_dir: "plain_names cs \<Longrightarrow> confined root R n0 s (set_node (R @ cs) (DirN m) s)"
  unfolding confined_def jailed_def same_outside_def
  by (auto simp: is_dir_set_dir node_of_set_node start_dir_def) (auto simp: set_node_def)

lemma confined_set_file:
  assumes "cs \<noteq> []" "n0 \<le> i" "plain_names cs"
  shows "confined root R n0 s (set_node (R @ cs) (FileN i) s)"
proof -
  have "is_dir (set_node (R @ cs) (FileN i) s) p = is_dir s p" if "prefix p R" for p
    using that assms(1) prefix_strict_append [of R cs p] by (auto simp: is_dir_def node_of_set_node)
  then show ?thesis using assms(2,3)
    unfolding confined_def jailed_def same_outside_def
    by (auto simp: node_of_set_node start_dir_def) (auto simp: set_node_def)
qed

lemma confined_remove:
  assumes "cs \<noteq> []"
  shows "confined root R n0 s (remove_below (R @ cs) s)"
proof -
  have "is_dir (remove_below (R @ cs) s) p = is_dir s p" if "prefix p R" for p
    using that assms prefix_strict_append [of R cs p] by (auto simp: is_dir_def node_of_remove_below)
  then show ?thesis
    unfolding confined_def jailed_def same_outside_def
    by (auto simp: node_of_remove_below start_dir_def dest: append_prefixD)
      (auto simp: remove_below_def)
qed

lemma node_of_inodes [simp]: "node_of (s\<lparr>fs_inodes := m\<rparr>) = node_of s"
  "node_of (s\<lparr>fs_inodes := m, fs_next := k\<rparr>) = node_of s"
  by (simp_all add: node_of_def fun_eq_iff)

lemma is_dir_inodes [simp]: "is_dir (s\<lparr>fs_inodes := m\<rparr>) = is_dir s"
  "is_dir (s\<lparr>fs_inodes := m, fs_next := k\<rparr>) = is_dir s"
  by (simp_all add: is_dir_def fun_eq_iff)

lemma confined_inode:
  "n0 \<le> i \<Longrightarrow> fs_next s \<le> k \<Longrightarrow>
   confined root R n0 s (s\<lparr>fs_inodes := go_put i v (fs_inodes s), fs_next := k\<rparr>)"
  unfolding confined_def jailed_def same_outside_def
  by (auto simp: go_get_put start_dir_def)

lemma confinedI: "(jailed root R n0 s \<Longrightarrow> confined root R n0 s s') \<Longrightarrow> confined root R n0 s s'"
  by (simp add: confined_def)

lemma keeps_confinedI:
  "(\<And>s. jailed root R n0 s \<Longrightarrow> confined root R n0 s (snd (m s))) \<Longrightarrow> keeps (confined root R n0) m"
  unfolding keeps_def by (blast intro: confinedI)

lemma jailed_inode: "jailed root R n0 s \<Longrightarrow> prefix R p \<Longrightarrow> node_of s p = Some (FileN i) \<Longrightarrow> n0 \<le> i"
  by (auto simp: jailed_def)

lemma confined_inode_only:
  "n0 \<le> i \<Longrightarrow> confined root R n0 s (s\<lparr>fs_inodes := go_put i v (fs_inodes s)\<rparr>)"
  using confined_inode [of n0 i s "fs_next s"] by simp

lemma keeps_RemoveAll:
  "plain_names cs \<Longrightarrow> cs \<noteq> [] \<Longrightarrow> keeps (confined root R n0) (os_RemoveAll (inside root cs))"
  by (rule keeps_confinedI)
    (auto simp: os_RemoveAll_def confined_refl confined_remove
      dest: resolve_jailed split: sum.splits errno.splits)

text \<open>A path that names the root itself or is below it.\<close>

definition located :: "string \<Rightarrow> string list \<Rightarrow> string \<Rightarrow> bool" where
  "located root cs path \<longleftrightarrow> plain_names cs \<and> (path = inside root cs \<or> path = root \<and> cs = [])"

lemma resolve_located:
  "jailed root R n0 s \<Longrightarrow> located root cs path \<Longrightarrow> resolve f path s = Inr p \<Longrightarrow> p = R @ cs"
proof -
  assume j: "jailed root R n0 s" and l: "located root cs path" and r: "resolve f path s = Inr p"
  show ?thesis
  proof (cases "path = root \<and> cs = []")
    case True
    then have "walk link_limit s f (start_dir s root) (elements root @ []) = Inr p"
      using r by (simp add: resolve_def split: if_splits)
    from walk_jailed [OF j _ this] True show ?thesis by simp
  next
    case False
    then show ?thesis using l r resolve_jailed [OF j] by (auto simp: located_def)
  qed
qed

lemma keeps_Chmod_located:
  assumes "located root cs path"
  shows "keeps (confined root R n0) (os_Chmod path perm)"
  unfolding os_Chmod_def
proof (rule jail.keeps_at_path, rule confinedI)
  fix s p assume r: "resolve True path s = Inr p" and j: "jailed root R n0 s"
  have p: "p = R @ cs" by (rule resolve_located [OF j assms r])
  then have "node_of s p = Some (FileN i) \<Longrightarrow> n0 \<le> i" for i
    using jailed_inode [OF j, of "R @ cs" i] by simp
  then show "confined root R n0 s (snd ((case node_of s p of
      Some (DirN _) \<Rightarrow> (Inr (), set_node p (DirN perm) s)
    | Some (FileN i) \<Rightarrow> (Inr (), s\<lparr>fs_inodes := go_put i (perm, snd (go_get0 (0, []) (fs_inodes s) i)) (fs_inodes s)\<rparr>)
    | _ \<Rightarrow> (Inl (path_error path ENOENT), s))))"
    using confined_set_dir [of cs root R n0 s perm] assms
    by (auto simp: p located_def confined_refl confined_inode_only split: option.splits node.splits)
qed

lemma keeps_Chmod: "plain_names cs \<Longrightarrow> keeps (confined root R n0) (os_Chmod (inside root cs) perm)"
  by (rule keeps_Chmod_located [of root cs]) (simp add: located_def)

lemma keeps_Create:
  assumes "plain_names cs" "cs \<noteq> []"
  shows "keeps (confined root R n0) (os_Create (inside root cs) content perm)"
  unfolding os_Create_def
proof (rule jail.keeps_at_path, rule confinedI)
  fix s p assume "resolve True (inside root cs) s = Inr p" and j: "jailed root R n0 s"
  then have p: "p = R @ cs" using assms(1) resolve_jailed by blast
  then have old: "node_of s p = Some (FileN i) \<Longrightarrow> n0 \<le> i" for i
    using jailed_inode [OF j, of "R @ cs" i] by simp
  have nx: "n0 \<le> fs_next s" using j by (simp add: jailed_def)
  let ?t = "set_node p (FileN (fs_next s)) s"
  have "confined root R n0 s ?t" using p assms nx by (simp add: confined_set_file)
  moreover have "fs_inodes ?t = fs_inodes s" "fs_next ?t = fs_next s" by (simp_all add: set_node_def)
  ultimately have new: "confined root R n0 s (?t
      \<lparr>fs_inodes := go_put (fs_next s) v (fs_inodes s), fs_next := Suc (fs_next s)\<rparr>)" for v
    using nx confined_inode [of n0 "fs_next s" ?t "Suc (fs_next s)" root R v]
    by (auto intro: confined_trans)
  show "confined root R n0 s (snd ((case node_of s p of
     None \<Rightarrow> (Inr (), set_node p (FileN (fs_next s)) s
         \<lparr>fs_inodes := go_put (fs_next s) (and perm (not (fs_umask s)), content) (fs_inodes s),
          fs_next := Suc (fs_next s)\<rparr>)
   | Some (FileN i) \<Rightarrow>
       (Inr (), s\<lparr>fs_inodes := go_put i (fst (go_get0 (0, []) (fs_inodes s) i), content) (fs_inodes s)\<rparr>)
   | Some (DirN _) \<Rightarrow> (Inl (path_error (inside root cs) EISDIR), s)
   | Some (LinkN _) \<Rightarrow> (Inl (path_error (inside root cs) ELOOP), s))))"
    using new old by (auto simp: confined_refl confined_inode_only split: option.splits node.splits)
qed

lemma keeps_Link:
  assumes "plain_names cs" "plain_names ds" "cs \<noteq> []"
  shows "keeps (confined root R n0) (os_Link (inside root ds) (inside root cs))"
proof (rule keeps_confinedI)
  fix s assume j: "jailed root R n0 s"
  have src: "prefix R q" if "resolve False (inside root ds) s = Inr q" for q
    using resolve_jailed [OF j assms(2) that] by simp
  have dst: "p = R @ cs" if "resolve False (inside root cs) s = Inr p" for p
    by (rule resolve_jailed [OF j assms(1) that])
  have no_link: "prefix R q \<Longrightarrow> node_of s q \<noteq> Some (LinkN t)" for q t
    using j by (simp add: jailed_def)
  show "confined root R n0 s (snd (os_Link (inside root ds) (inside root cs) s))"
    using src dst no_link jailed_inode [OF j] confined_set_file [OF assms(3) _ assms(1)]
    by (auto simp: os_Link_def at_path_def confined_refl split: sum.splits option.splits node.splits)
qed

lemma sys_mkdir_confined:
  assumes "plain_names cs" "start_dir s path = start_dir s root"
  shows "confined root R n0 s (snd (sys_mkdir path (elements root @ cs) perm s))"
proof (rule confinedI)
  assume j: "jailed root R n0 s"
  have "walk link_limit s False (start_dir s root) (elements root @ cs) = Inr p \<Longrightarrow> p = R @ cs" for p
    using walk_jailed [OF j] assms(1) by (simp add: plain_names_def)
  then show "confined root R n0 s (snd (sys_mkdir path (elements root @ cs) perm s))"
    by (auto simp: sys_mkdir_def assms confined_refl confined_set_dir
        split: sum.splits option.splits node.splits)
qed

lemma mkdirs_above:
  assumes "jailed root R n0 s" "start_dir s path = start_dir s root" "elements root = xs @ ys"
  shows "mkdirs path perm (rev xs) s = (Inr (), s)"
proof (cases "rev xs")
  case (Cons c rcs)
  have R: "R = start_dir s root @ xs @ ys" using assms(1,3) by (simp add: jailed_def)
  then have "prefix p (start_dir s root @ xs) \<Longrightarrow> prefix p R" for p
    by (metis append.assoc prefix_prefix)
  then have "walk link_limit s True (start_dir s root) (xs @ []) = walk link_limit s True (start_dir s root @ xs) []"
    using assms(1,3) by (intro walk_down) (auto simp: jailed_def)
  moreover have "is_dir s (start_dir s root @ xs)" using assms(1) R by (simp add: jailed_def)
  moreover have "xs = rev (c # rcs)" using Cons by (metis rev_swap)
  ultimately show ?thesis
    by (auto simp: Cons assms(2) stat_walk_def is_dir_def split: option.splits node.splits)
qed (simp add: io_simps)

lemma keeps_mkdirs:
  assumes "plain_names cs" "IsAbs path = IsAbs root"
  shows "keeps (confined root R n0) (mkdirs path perm (rev (elements root @ cs)))"
  using assms(1)
proof (induction cs rule: rev_induct)
  case Nil
  show ?case using mkdirs_above [of root R n0 _ path "elements root" "[]"] assms(2)
    by (intro keeps_confinedI) (simp add: start_dir_def confined_refl)
next
  case (snoc c cs)
  have "keeps (confined root R n0)
      (io_then (mkdirs path perm (rev (elements root @ cs))) (sys_mkdir path (elements root @ cs @ [c]) perm))"
    using snoc assms(2) sys_mkdir_confined [of "cs @ [c]"]
    by (intro jail.keeps_bind) (auto simp: keeps_def start_dir_def)
  then show ?case
    by (auto simp: keeps_def confined_refl split: sum.splits node.splits)
qed

lemma keeps_MkdirAll:
  "plain_names cs \<Longrightarrow> keeps (confined root R n0) (os_MkdirAll (inside root cs) perm)"
proof (rule keeps_confinedI)
  fix s assume cs: "plain_names cs" and j: "jailed root R n0 s"
  have "elements (inside root cs) = elements root @ cs"
    using cs j by (simp add: elements_inside jailed_def)
  then show "confined root R n0 s (snd (os_MkdirAll (inside root cs) perm s))"
    using keeps_mkdirs [OF cs, of "inside root cs" root R n0 perm] cs
    by (simp add: os_MkdirAll_def IsAbs_inside keeps_def)
qed

section \<open>Entries below the root\<close>

lemma clean_list_inside: "plain_names cs \<Longrightarrow> clean_list (IsAbs root) (comps root @ cs)"
proof -
  assume cs: "plain_names cs"
  obtain n ds where "comps root = replicate n dotdot @ ds" "list_all element ds" "dotdot \<notin> set ds"
    "IsAbs root \<longrightarrow> n = 0"
    using comps_clean [of root] by (auto simp: clean_list_def)
  with cs show ?thesis
    unfolding clean_list_def plain_names_def by (intro exI [of _ n] exI [of _ "ds @ cs"]) simp
qed

lemma comps_inside: "plain_names cs \<Longrightarrow> comps (inside root cs) = comps root @ cs"
  by (simp add: inside_def comps_render clean_list_inside)

lemma Dir_inside: "plain_names cs \<Longrightarrow> cs \<noteq> [] \<Longrightarrow> Dir (inside root cs) = inside root (butlast cs)"
proof -
  assume cs: "plain_names cs" "cs \<noteq> []"
  then have "clean_list (IsAbs root) ((comps root @ butlast cs) @ [last cs])"
    using clean_list_inside by simp
  from Dir_render [OF this] show ?thesis using cs(2) by (simp add: inside_def)
qed

lemma comps_name: "element e \<Longrightarrow> e \<noteq> dotdot \<Longrightarrow> comps e = [e] \<and> Clean e = e \<and> \<not> IsAbs e"
proof -
  assume e: "element e" "e \<noteq> dotdot"
  have abs: "\<not> IsAbs e" using e(1) by (auto simp: element_def IsAbs_def prefix_def)
  have "elements e = [e]" using e(1) by (simp add: elements_def element_def split_byte_no)
  then have "comps e = [e]" using e(2) comps_relative [of e] by auto
  then show ?thesis using abs by (simp add: Clean_def render_def)
qed

lemma join_inside:
  assumes "element e" "e \<noteq> dotdot"
  shows "path_join [root, e] = inside root [e]"
    and "plain_names ds \<Longrightarrow> path_join [inside root ds, e] = inside root (ds @ [e])"
proof -
  note e = comps_name [OF assms]
  have j: "path_join [a, e] = render (IsAbs a) (comps a @ [e])" for a
    using path_join_below(3) [of e a] e assms(2) by simp
  show "path_join [root, e] = inside root [e]" by (simp add: j inside_def)
  show "path_join [inside root ds, e] = inside root (ds @ [e])" if "plain_names ds"
    using that by (simp add: j comps_inside IsAbs_inside) (simp add: inside_def)
qed

lemma children_node: "e \<in> set (children s p) \<Longrightarrow> node_of s (p @ [e]) \<noteq> None"
proof -
  assume "e \<in> set (children s p)"
  then obtain q where q: "q \<in> set (go_keys (fs_nodes s))" "q \<noteq> []" "butlast q = p" "last q = e"
    by (auto simp: children_def)
  then have "q = p @ [e]" by (metis append_butlast_last_id)
  with q(1,2) show ?thesis by (auto simp: go_keys_dom node_of_def)
qed

lemma jailed_names: "jailed root R n0 s \<Longrightarrow> node_of s (R @ cs) \<noteq> None \<Longrightarrow> plain_names cs"
  unfolding jailed_def by blast

lemma read_dir_jailed:
  assumes j: "jailed root R n0 s" and t: "target = root \<or> (\<exists>ds. target = inside root ds \<and> plain_names ds)"
    and r: "read_dir target s = Inr entries" and e: "e \<in> set entries"
  shows "element e \<and> e \<noteq> dotdot"
proof -
  obtain p where p: "e \<in> set (children s p)"
      "walk link_limit s True (start_dir s target) (elements target) = Inr p"
    using r e by (auto simp: read_dir_def stat_node_def stat_walk_def
        split: sum.splits if_splits option.splits node.splits)
  have "\<exists>ds. p = R @ ds"
    using t
  proof (elim disjE exE conjE)
    assume "target = root"
    with p(2) walk_jailed [OF j, of "[]"] show ?thesis by simp
  next
    fix ds assume ds: "target = inside root ds" "plain_names ds"
    then have "elements target = elements root @ ds" using j by (simp add: elements_inside jailed_def)
    with p(2) walk_jailed [OF j, of ds] ds show ?thesis by (auto simp: start_dir_inside plain_names_def)
  qed
  then obtain ds where "p = R @ ds" by blast
  with children_node [OF p(1)] have "node_of s (R @ ds @ [e]) \<noteq> None" by simp
  then have "plain_names (ds @ [e])" by (rule jailed_names [OF j])
  then show ?thesis by simp
qed

lemma keeps_Whiteout: "keeps (confined root R n0) (applyWhiteout root name)"
proof (cases "Base name = ''.wh..wh..opq''")
  case False
  have "keeps (confined root R n0) (os_RemoveAll t)"
    if "safePath root (path_join [Dir name, trim_prefix (Base name) ''.wh.'']) = Inr t" for t
    using safePath_inside [OF that] keeps_RemoveAll by blast
  with False show ?thesis by (simp add: applyWhiteout_def Let_def jail.keeps_lift_bind)
next
  case True
  have "keeps (confined root R n0) (\<lambda>s. case read_dir target s of
           Inl ENOENT \<Rightarrow> (Inr (), s)
         | Inl e \<Rightarrow> (Inl (path_error target e), s)
         | Inr entries \<Rightarrow> io_each (\<lambda>entry. os_RemoveAll (path_join [target, entry])) entries s)"
    if t: "opaqueTarget root (Dir name) = Inr target" for target
  proof (rule keeps_confinedI)
    fix s assume j: "jailed root R n0 s"
    have target: "target = root \<or> (\<exists>ds. target = inside root ds \<and> plain_names ds)"
      using t safePath_inside by (auto simp: opaqueTarget_def split: if_splits)
    have "keeps (confined root R n0) (io_each (\<lambda>entry. os_RemoveAll (path_join [target, entry])) entries)"
      if "read_dir target s = Inr entries" for entries
    proof (rule jail.keeps_each)
      fix e assume "e \<in> set entries"
      then have e: "element e" "e \<noteq> dotdot" using read_dir_jailed [OF j target that] by auto
      show "keeps (confined root R n0) (os_RemoveAll (path_join [target, e]))"
        using target e keeps_RemoveAll join_inside [OF e, where root = root] by auto
    qed
    then show "confined root R n0 s (snd (case read_dir target s of
           Inl ENOENT \<Rightarrow> (Inr (), s)
         | Inl e \<Rightarrow> (Inl (path_error target e), s)
         | Inr entries \<Rightarrow> io_each (\<lambda>entry. os_RemoveAll (path_join [target, entry])) entries s))"
      by (auto simp: keeps_def confined_refl split: sum.splits errno.splits)
  qed
  with True show ?thesis by (simp add: applyWhiteout_def Let_def jail.keeps_lift_bind)
qed

lemma keeps_Dir: "plain_names cs \<Longrightarrow> cs \<noteq> [] \<Longrightarrow> keeps (confined root R n0) (extractDir (inside root cs) h)"
  unfolding extractDir_def
proof (intro jail.keeps_bind)
  assume cs: "plain_names cs" "cs \<noteq> []"
  show "keeps (confined root R n0) (\<lambda>s. case stat_node False (inside root cs) s of
         Inr (_, DirN _) \<Rightarrow> (Inr (), s) | Inr _ \<Rightarrow> os_RemoveAll (inside root cs) s | Inl _ \<Rightarrow> (Inr (), s))"
    using keeps_RemoveAll [OF cs]
    by (auto simp: keeps_def confined_refl split: sum.splits node.splits)
qed (simp_all add: keeps_MkdirAll keeps_Chmod)

lemma keeps_File: "plain_names cs \<Longrightarrow> cs \<noteq> [] \<Longrightarrow> keeps (confined root R n0) (extractFile (inside root cs) h)"
  unfolding extractFile_def
  by (intro jail.keeps_bind)
    (simp_all add: keeps_RemoveAll keeps_MkdirAll keeps_Create keeps_Chmod Dir_inside
      plain_names_butlast split: option.split)

lemma keeps_HardLink:
  "plain_names cs \<Longrightarrow> cs \<noteq> [] \<Longrightarrow> keeps (confined root R n0) (extractLink root name (inside root cs) h)"
proof -
  assume cs: "plain_names cs" "cs \<noteq> []"
  let ?m = "io_wrap ''unsafe hardlink %q -> %q'' [name, hd_linkname h]
         (io_lift (safePath root (trim_prefix (hd_linkname h) ''./'')))"
  have rest: "keeps (confined root R n0) (io_then (os_MkdirAll (Dir (inside root cs)) 0b111101101)
      (io_then (os_RemoveAll (inside root cs)) (os_Link (inside root ds) (inside root cs))))"
    if "plain_names ds" for ds
    using cs that by (intro jail.keeps_bind)
      (simp_all add: keeps_RemoveAll keeps_MkdirAll keeps_Link Dir_inside plain_names_butlast)
  show ?thesis
    unfolding extractLink_def
  proof (rule jail.keeps_bind_ran)
    show "keeps (confined root R n0) ?m" by (simp add: jail.keeps_wrap)
    fix t s s' assume "?m s = (Inr t, s')"
    then have "safePath root (trim_prefix (hd_linkname h) ''./'') = Inr t"
      by (simp add: io_wrap_def io_lift_def)
    then obtain ds where "t = inside root ds" "plain_names ds" using safePath_inside by blast
    with rest show "confined root R n0 s' (snd (io_then (os_MkdirAll (Dir (inside root cs)) 0b111101101)
      (io_then (os_RemoveAll (inside root cs)) (os_Link t (inside root cs))) s'))"
      by (simp add: keeps_def)
  qed
qed

lemma keeps_Entry:
  assumes "hd_typeflag h \<noteq> CHR ''2''"
  shows "keeps (confined root R n0) (extractEntry root h)"
proof -
  have "keeps (confined root R n0) (extractKind root name destination h)"
    if safe: "safePath root name = Inr destination" for name destination
  proof -
    obtain cs where cs: "destination = inside root cs" "plain_names cs" "cs \<noteq> []"
      using safePath_inside [OF safe] by blast
    show ?thesis unfolding extractKind_def cs(1)
      using assms keeps_Dir [OF cs(2,3)] keeps_File [OF cs(2,3)] keeps_HardLink [OF cs(2,3)]
      by (simp add: Let_def)
  qed
  then show ?thesis
    by (simp add: extractEntry_def Let_def keeps_Whiteout jail.keeps_lift_bind)
qed

section \<open>After the layers\<close>

lemma join_located:
  assumes "located root cs path" "element e" "e \<noteq> dotdot"
  shows "path_join [path, e] = inside root (cs @ [e])"
  using assms(1) join_inside [OF assms(2,3), where root = root]
  by (cases "path = root \<and> cs = []") (auto simp: located_def)

lemma marker_name: "element treeArtifactDirectoryMarker" "treeArtifactDirectoryMarker \<noteq> dotdot"
  by (simp_all add: treeArtifactDirectoryMarker_def element_def)

lemma keeps_writeMarker: "located root cs path \<Longrightarrow> keeps (confined root R n0) (writeMarker path)"
  unfolding writeMarker_def
  by (rule jail.keeps_wrap)
    (simp add: join_located marker_name keeps_Create located_def)

lemma keeps_preserveEmpty:
  assumes l: "located root cs path"
  shows "keeps (confined root R n0) (preserveEmptyDirectory path mode)"
proof -
  let ?restore = "io_wrap ''restore empty OCI directory mode %s'' [path] (os_Chmod path mode)"
  have "keeps (confined root R n0) (\<lambda>s. case writeMarker path s of
      (outcome, s') \<Rightarrow> (case ?restore s' of
         (restored, s'') \<Rightarrow> (case outcome of Inl e \<Rightarrow> (Inl e, s'') | Inr _ \<Rightarrow> (restored, s''))))"
    unfolding keeps_def
  proof
    fix s
    obtain o1 s1 where 1: "writeMarker path s = (o1, s1)" by fastforce
    obtain o2 s2 where 2: "?restore s1 = (o2, s2)" by fastforce
    have "confined root R n0 s s1" "confined root R n0 s1 s2"
      using keeps_writeMarker [OF l] jail.keeps_wrap [OF keeps_Chmod_located [OF l]] 1 2
      unfolding keeps_def by (metis snd_conv)+
    then have "confined root R n0 s s2" by (rule confined_trans)
    then show "confined root R n0 s (snd (case writeMarker path s of
      (outcome, s') \<Rightarrow> (case ?restore s' of
         (restored, s'') \<Rightarrow> (case outcome of Inl e \<Rightarrow> (Inl e, s'') | Inr _ \<Rightarrow> (restored, s'')))))"
      by (cases o1) (simp_all add: 1 2)
  qed
  then show ?thesis
    unfolding preserveEmptyDirectory_def
    by (simp add: jail.keeps_bind jail.keeps_wrap keeps_Chmod_located [OF l] keeps_writeMarker [OF l])
qed

lemma keeps_preserveDirectory:
  "located root cs path \<Longrightarrow> keeps (confined root R n0) (preserveDirectory path)"
  using keeps_preserveEmpty
  by (auto simp: keeps_def preserveDirectory_def confined_refl split: sum.splits node.splits)

lemma below_inside:
  assumes "plain_names q" "q \<noteq> []" "root \<noteq> []" "dotdot \<notin> set (elements root)"
  shows "walked_path root q = inside root q"
proof -
  obtain c cs where q: "q = c # cs" using assms(2) by (cases q) auto
  have "list_all element q" "dotdot \<notin> set q" using assms(1) by (auto simp: plain_names_def)
  then have "elements (join (root # q) ''/'') = elements root @ q"
    using elements_append [of root "join q ''/''"] elements_join [of q] by (simp add: q)
  moreover have "IsAbs (join (root # q) ''/'') = IsAbs root"
    using assms(3) q by (cases root) (auto simp: IsAbs_def)
  ultimately have "comps (join (root # q) ''/'') = comps root @ q"
    using assms(4) \<open>dotdot \<notin> set q\<close> by (simp add: comps_def clean_fold_push)
  with \<open>IsAbs (join (root # q) ''/'') = IsAbs root\<close> show ?thesis
    using assms(2,3) by (simp add: walked_path_def path_join_def inside_def Clean_def)
qed

lemma keeps_walk_dir:
  assumes visit: "\<And>cs path. located root cs path \<Longrightarrow> keeps (confined root R n0) (visit path)"
    and root: "root \<noteq> []"
  shows "keeps (confined root R n0) (walk_dir wanted visit root)"
proof (rule keeps_confinedI)
  fix s assume j: "jailed root R n0 s"
  have "keeps (confined root R n0) (io_each visit (map (walked_path root) (filter (\<lambda>q. case node_of s (p @ q) of
      Some nd \<Rightarrow> wanted nd | None \<Rightarrow> False) (tree_paths s p))))"
    if st: "stat_node False root s = Inr (p, nd)" for p nd
  proof (rule jail.keeps_each)
    have "resolve False root s = Inr p"
      using st root by (auto simp: stat_node_def stat_walk_def resolve_def split: sum.splits option.splits)
    then have p: "p = R" using resolve_located [OF j, of "[]" root False p] by (simp add: located_def)
    fix path assume "path \<in> set (map (walked_path root) (filter (\<lambda>q. case node_of s (p @ q) of
      Some nd \<Rightarrow> wanted nd | None \<Rightarrow> False) (tree_paths s p)))"
    then obtain q where q: "path = walked_path root q" "node_of s (R @ q) \<noteq> None"
      by (auto simp: p split: option.splits)
    have "plain_names q" by (rule jailed_names [OF j q(2)])
    then have "located root q path"
      using below_inside [of q root] root j by (auto simp: located_def q(1) jailed_def walked_path_def)
    then show "keeps (confined root R n0) (visit path)" by (rule visit)
  qed
  then show "confined root R n0 s (snd (walk_dir wanted visit root s))"
    by (auto simp: walk_dir_def keeps_def confined_refl split: sum.splits)
qed

text \<open>In the jail there are no links to remove.\<close>

lemma keeps_removeDangling:
  assumes "root \<noteq> []"
  shows "keeps (confined root R n0) (removeDanglingSymlinks root)"
proof (rule keeps_confinedI)
  fix s assume j: "jailed root R n0 s"
  have "filter (\<lambda>q. case node_of s (p @ q) of
      Some nd \<Rightarrow> (case nd of LinkN _ \<Rightarrow> True | _ \<Rightarrow> False) | None \<Rightarrow> False) (tree_paths s p) = []"
    if st: "stat_node False root s = Inr (p, nd)" for p nd
  proof -
    have "resolve False root s = Inr p"
      using st assms by (auto simp: stat_node_def stat_walk_def resolve_def split: sum.splits option.splits)
    then have p: "p = R" using resolve_located [OF j, of "[]" root False p] by (simp add: located_def)
    have "node_of s (R @ q) \<noteq> Some (LinkN t)" for q t using j by (simp add: jailed_def)
    then show ?thesis by (auto simp: p filter_empty_conv split: option.splits node.splits)
  qed
  then show "confined root R n0 s (snd (removeDanglingSymlinks root s))"
    by (auto simp: removeDanglingSymlinks_def walk_dir_def io_ret_def confined_refl split: sum.splits)
qed

section \<open>A fresh root\<close>

lemma is_dir_remove: "is_dir (remove_below p s) q \<longleftrightarrow> is_dir s q \<and> (\<not> prefix p q \<or> q = [])"
  by (cases "q = []") (auto simp: is_dir_def node_of_remove_below)

lemma walk_to_root:
  assumes "R = start @ xs @ [c]" "dotdot \<notin> set (xs @ [c])" "\<And>p. strict_prefix p R \<Longrightarrow> is_dir s p"
  shows "walk n s False start (xs @ [c]) = Inr R"
proof -
  have "prefix p (start @ xs) \<Longrightarrow> strict_prefix p R" for p
    using assms(1) by (metis append.assoc prefix_order.le_less_trans prefix_snocD prefix_order.dual_order.refl)
  then have d: "prefix p (start @ xs) \<Longrightarrow> is_dir s p" for p using assms(3) by blast
  have "walk n s False start (xs @ [c]) = walk n s False (start @ xs) [c]"
    using d assms(2) by (intro walk_down) auto
  also have "\<dots> = Inr R"
    using d [of "start @ xs"] assms(1,2) by (auto split: option.splits node.splits)
  finally show ?thesis .
qed

lemma mkdirs_parent:
  assumes "\<And>p. prefix p (start_dir s path @ xs) \<Longrightarrow> is_dir s p" "dotdot \<notin> set xs"
  shows "mkdirs path perm (rev xs) s = (Inr (), s)"
proof (cases "rev xs")
  case (Cons c rcs)
  have "walk link_limit s True (start_dir s path) (xs @ []) = walk link_limit s True (start_dir s path @ xs) []"
    using assms by (intro walk_down) auto
  moreover have "is_dir s (start_dir s path @ xs)" using assms(1) by simp
  moreover have "xs = rev (c # rcs)" using Cons by (metis rev_swap)
  ultimately show ?thesis
    by (auto simp: Cons stat_walk_def is_dir_def split: option.splits node.splits)
qed (simp add: io_simps)

text \<open>Where a root may be put: below real directories, with the inodes in use below the next one.\<close>

definition fresh_place :: "string \<Rightarrow> string list \<Rightarrow> fs \<Rightarrow> bool" where
  "fresh_place root R s \<longleftrightarrow>
     start_dir s root @ elements root = R \<and> elements root \<noteq> [] \<and> dotdot \<notin> set (elements root)
     \<and> (\<forall>p. strict_prefix p R \<longrightarrow> is_dir s p)
     \<and> (\<forall>q i. node_of s q = Some (FileN i) \<longrightarrow> i < fs_next s)"

lemma fresh_root:
  assumes f: "fresh_place root R s"
  shows "os_RemoveAll root s = (Inl (path_error root EINVAL), s)
    \<or> (\<exists>t. os_RemoveAll root s = (Inr (), remove_below R s)
        \<and> os_MkdirAll root perm (remove_below R s) = (Inr (), t)
        \<and> jailed root R (fs_next s) t \<and> same_outside R (fs_next s) s t)"
proof (cases "root = ''.'' \<or> suffix ''/.'' root")
  case False
  obtain xs c where xs: "elements root = xs @ [c]" using f by (metis fresh_place_def rev_exhaust)
  have root: "root \<noteq> []" using xs by auto
  have R: "R = start_dir s root @ xs @ [c]" and dd: "dotdot \<notin> set (xs @ [c])"
    and up: "\<And>p. strict_prefix p R \<Longrightarrow> is_dir s p"
    using f xs by (auto simp: fresh_place_def)
  have "R \<noteq> []" using R by simp
  let ?s = "remove_below R s"
  have up': "strict_prefix p R \<Longrightarrow> is_dir ?s p" for p
    using up by (auto simp: is_dir_remove dest: prefix_order.less_le_not_le [THEN iffD1])
  have start: "start_dir ?s root = start_dir s root" by (simp add: start_dir_def remove_below_def)
  note w = walk_to_root [OF R dd]
  have rm: "os_RemoveAll root s = (Inr (), ?s)"
    using False root w [OF up, of link_limit] by (auto simp: os_RemoveAll_def resolve_def xs)
  have gone: "node_of ?s R = None" using \<open>R \<noteq> []\<close> by (simp add: node_of_remove_below)
  have pre: "prefix p (start_dir s root @ xs) \<Longrightarrow> is_dir ?s p" for p
    using up' R by (metis append.assoc prefix_order.le_less_trans prefix_snocD prefix_order.dual_order.refl)
  have "walk link_limit ?s True (start_dir s root) (xs @ [c]) = walk link_limit ?s True (start_dir s root @ xs) [c]"
    using pre dd by (intro walk_down) auto
  also have "\<dots> = Inr R" using pre [of "start_dir s root @ xs"] gone R dd by auto
  finally have "stat_walk True ?s (start_dir s root) (elements root) = Inl ENOENT"
    using gone by (simp add: stat_walk_def xs)
  moreover have "mkdirs root perm (rev xs) ?s = (Inr (), ?s)"
    using pre dd by (intro mkdirs_parent) (auto simp: start)
  moreover have "sys_mkdir root (elements root) perm ?s
      = (Inr (), set_node R (DirN (and perm (not (fs_umask ?s)))) ?s)"
    using w [OF up', of link_limit] gone by (simp add: sys_mkdir_def start xs)
  ultimately have mk: "os_MkdirAll root perm ?s = (Inr (), set_node R (DirN (and perm (not (fs_umask ?s)))) ?s)"
    by (simp add: os_MkdirAll_def xs start io_bind_def)
  define t where "t = set_node R (DirN (and perm (not (fs_umask ?s)))) ?s"
  have node: "node_of t q = (if q = R then Some (DirN (and perm (not (fs_umask ?s))))
      else if prefix R q then None else node_of s q)" for q
    using \<open>R \<noteq> []\<close> by (auto simp: t_def node_of_set_node node_of_remove_below)
  have rest: "fs_next t = fs_next s" "fs_inodes t = fs_inodes s" "fs_cwd t = fs_cwd s" "fs_umask t = fs_umask s"
    by (simp_all add: t_def set_node_def remove_below_def)
  have dirs: "is_dir t p" if "prefix p R" for p
  proof (cases "p = R")
    case True
    then show ?thesis by (simp add: is_dir_def node)
  next
    case False
    then have "strict_prefix p R" "\<not> prefix R p" using that by (auto simp: strict_prefix_def prefix_order.antisym)
    with up False show ?thesis by (simp add: is_dir_def node)
  qed
  have place: "start_dir t root @ elements root = R" using R xs by (simp add: start_dir_def rest)
  have "jailed root R (fs_next s) t"
    using place dd dirs by (auto simp: jailed_def node rest xs split: if_splits)
  moreover have "same_outside R (fs_next s) s t"
    by (auto simp: same_outside_def node rest)
  moreover note t_def [symmetric]
  ultimately show ?thesis using rm mk by auto
qed (auto simp: os_RemoveAll_def)

text \<open>The archives of an image have no symbolic links.\<close>

definition link_free :: "Image \<Rightarrow> bool" where
  "link_free img \<longleftrightarrow> (\<forall>codec bytes archive. im_open img codec bytes = Inr archive
     \<longrightarrow> (\<forall>h \<in> set (ar_entries archive). hd_typeflag h \<noteq> CHR ''2''))"

lemma openLayer_archive:
  "openLayer img layout zstd layer = Inr archive \<Longrightarrow> \<exists>codec bytes. im_open img codec bytes = Inr archive"
  by (auto simp: openLayer_def res_bind_Inr_iff)

lemma keeps_Archive:
  "\<forall>h \<in> set (ar_entries archive). hd_typeflag h \<noteq> CHR ''2'' \<Longrightarrow>
   keeps (confined root R n0) (extractArchive root archive)"
  unfolding extractArchive_def
  by (intro jail.keeps_bind jail.keeps_each) (simp_all add: keeps_Entry split: option.split)

lemma keeps_Layer:
  "link_free img \<Longrightarrow> keeps (confined root R n0) (extractLayer img layout zstd root layer)"
  unfolding extractLayer_def link_free_def
  using openLayer_archive by (intro jail.keeps_lift_bind keeps_Archive) metis

lemma same_outside_trans:
  "same_outside R n0 s t \<Longrightarrow> same_outside R n0 t u \<Longrightarrow> same_outside R n0 s u"
  unfolding same_outside_def by auto

text \<open>A run from a fresh root: what is outside is the same, and a run that succeeds ends in the jail.\<close>

definition contained :: "string \<Rightarrow> string list \<Rightarrow> fs \<Rightarrow> 'a io \<Rightarrow> bool" where
  "contained root R s m \<longleftrightarrow> same_outside R (fs_next s) s (snd (m s))
     \<and> (\<forall>x. fst (m s) = Inr x \<longrightarrow> jailed root R (fs_next s) (snd (m s)))"

lemma contained_then:
  assumes m: "contained root R s m" and k: "\<And>x. keeps (confined root R (fs_next s)) (k x)"
  shows "contained root R s (io_bind m k)"
proof -
  obtain r t where run: "m s = (r, t)" by fastforce
  show ?thesis
  proof (cases r)
    case (Inl e)
    then show ?thesis using m run by (simp add: contained_def io_bind_def)
  next
    case (Inr x)
    then have t: "same_outside R (fs_next s) s t" "jailed root R (fs_next s) t"
      using m run by (simp_all add: contained_def)
    have "confined root R (fs_next s) t (snd (k x t))" using k by (simp add: keeps_def)
    with t have "jailed root R (fs_next s) (snd (k x t))" "same_outside R (fs_next s) s (snd (k x t))"
      by (auto simp: confined_def intro: same_outside_trans)
    then show ?thesis using run Inr by (simp add: contained_def io_bind_def)
  qed
qed

lemma extractFresh_contained:
  assumes f: "fresh_place root R s" and img: "link_free img"
  shows "contained root R s (extractFresh img layout zstd layers root)"
proof -
  let ?rm = "io_wrap ''clear old bundle root'' [] (os_RemoveAll root)"
  let ?mk = "io_wrap ''create bundle root'' [] (os_MkdirAll root 0b111101101)"
  have "contained root R s (io_then ?rm ?mk)"
    using fresh_root [OF f, of "0b111101101"]
    by (auto simp: contained_def io_bind_def io_wrap_def same_outside_refl)
  moreover have "keeps (confined root R (fs_next s)) (io_each (extractLayer img layout zstd root) layers)"
    by (intro jail.keeps_each keeps_Layer img)
  ultimately have "contained root R s (io_then (io_then ?rm ?mk) (io_each (extractLayer img layout zstd root) layers))"
    by (rule contained_then)
  then show ?thesis
    by (auto simp: contained_def extractFresh_def io_bind_def split: prod.splits sum.splits)
qed

lemma contained_lift_bind:
  "(\<And>x. r = Inr x \<Longrightarrow> contained root R s (k x)) \<Longrightarrow> contained root R s (io_bind (io_lift r) k)"
  by (cases r) (auto simp: contained_def io_bind_def io_lift_def same_outside_refl)

lemma manifest_marker_name: "element ''.rules-stests-manifest''" "''.rules-stests-manifest'' \<noteq> dotdot"
  by (simp_all add: element_def)

lemma extractOCI_contained:
  assumes f: "fresh_place root R s" and img: "\<And>layout. link_free (imageAt layout)"
  shows "contained root R s (extractOCI env imageAt layoutArg root single zstd)"
proof -
  have root: "root \<noteq> []" using f by (auto simp: fresh_place_def)
  have clean: "keeps (confined root R (fs_next s)) (io_then (removeDanglingSymlinks root)
     (io_then (preserveEmptyDirectories root)
       (io_wrap ''write extraction marker'' []
         (os_Create (path_join [root, ''.rules-stests-manifest'']) content 0b100100100))))" for content
    unfolding preserveEmptyDirectories_def join_inside(1) [OF manifest_marker_name]
    by (intro jail.keeps_bind jail.keeps_wrap keeps_removeDangling keeps_walk_dir keeps_preserveDirectory
        keeps_Create root) (simp_all add: manifest_marker_name)
  have "contained root R s (io_bind (io_lift (resolveDirectory env layoutArg s)) (\<lambda>layout.
     io_bind (io_lift (readLayers (imageAt layout) layout)) (\<lambda>(manifestDigest, layers).
     io_bind (io_lift (if single then singlePayloadLayer (imageAt layout) layout zstd layers
                       else Inr layers)) (\<lambda>layers.
     io_then (extractFresh (imageAt layout) layout zstd layers root)
     (io_then (removeDanglingSymlinks root)
     (io_then (preserveEmptyDirectories root)
       (io_wrap ''write extraction marker'' []
         (os_Create (path_join [root, ''.rules-stests-manifest'']) (manifestDigest @ [CHR 0x0A]) 0b100100100))))))))"
  proof (rule contained_lift_bind, rule contained_lift_bind)
    fix layout x
    assume "readLayers (imageAt layout) layout = Inr x"
    show "contained root R s (case x of (manifestDigest, layers) \<Rightarrow>
       io_bind (io_lift (if single then singlePayloadLayer (imageAt layout) layout zstd layers
                         else Inr layers)) (\<lambda>layers.
       io_then (extractFresh (imageAt layout) layout zstd layers root)
       (io_then (removeDanglingSymlinks root)
       (io_then (preserveEmptyDirectories root)
         (io_wrap ''write extraction marker'' []
           (os_Create (path_join [root, ''.rules-stests-manifest'']) (manifestDigest @ [CHR 0x0A]) 0b100100100))))))"
      by (cases x) (simp only: prod.case, intro contained_lift_bind contained_then extractFresh_contained f img clean)
  qed
  then show ?thesis by (simp add: contained_def extractOCI_def io_bind_def io_lift_def)
qed

section \<open>Properties\<close>

text \<open>
  A layer path is accepted exactly if it is relative, names something and does not go up, and it
  is then the path of these components below the root: the second check of the code never fires.
\<close>

theorem safe_path_below:
  "(\<exists>path. safePath root name = Inr path) = (\<not> IsAbs name \<and> comps name \<noteq> [] \<and> dotdot \<notin> set (comps name))
   \<and> (\<forall>path. safePath root name = Inr path \<longrightarrow>
        IsAbs path = IsAbs root \<and> comps path = comps root @ comps name \<and> Clean path = path)"
proof (intro conjI allI impI)
  show "(\<exists>path. safePath root name = Inr path) = (\<not> IsAbs name \<and> comps name \<noteq> [] \<and> dotdot \<notin> set (comps name))"
    by (rule safePath_cases)
  fix path assume "safePath root name = Inr path"
  then have p: "path = inside root (comps name)" "plain_names (comps name)"
    using comps_elements [of name] by (auto simp: safePath_iff inside_def plain_names_def)
  show "IsAbs path = IsAbs root" "comps path = comps root @ comps name"
    using p by (simp_all add: IsAbs_inside comps_inside)
  show "Clean path = path" using p by (simp add: inside_def Clean_render clean_list_inside)
qed

text \<open>
  C30. What the check of a symbolic link accepts, for an entry whose name is clean: read by its
  spelling from the directory of the entry, the text of the link is relative and leads to a path below
  the root; an absolute target leads to the same path below the root, a relative one is not changed.
\<close>

theorem accepted_link_below:
  assumes clean: "Clean name = name"
    and safe: "safePath root name = Inr destination"
    and link: "checkedLink root name linkname = Inr linkName"
  shows "comps (Dir name) = butlast (comps name) \<and> \<not> IsAbs linkName
    \<and> comps (path_join [Dir name, linkName]) \<noteq> []
    \<and> dotdot \<notin> set (comps (path_join [Dir name, linkName]))
    \<and> (if IsAbs linkname then comps (path_join [Dir name, linkName]) = comps linkname
       else linkName = linkname)"
proof -
  have name: "\<not> IsAbs name" "comps name \<noteq> []" "dotdot \<notin> set (comps name)"
    using safe by (auto simp: safePath_iff)
  have r: "relativeLink root name linkname = Inr linkName"
    using link by (auto simp: checkedLink_def res_bind_Inr_iff Let_def)
  obtain target where "safePath root (Clean (path_join [Dir name, linkName])) = Inr target"
    using link r by (auto simp: checkedLink_def res_bind_Inr_iff Let_def)
  then have below: "comps (path_join [Dir name, linkName]) \<noteq> []"
    "dotdot \<notin> set (comps (path_join [Dir name, linkName]))"
    by (simp_all add: safePath_iff)
  have cl: "clean_list False (butlast (comps name) @ [last (comps name)])"
    using comps_clean [of name] name(1,2) by simp
  have "Dir (render False (butlast (comps name) @ [last (comps name)])) = render False (butlast (comps name))"
    by (rule Dir_render [OF cl])
  moreover have "render False (butlast (comps name) @ [last (comps name)]) = name"
    using clean name by (simp add: Clean_def)
  ultimately have "comps (Dir name) = butlast (comps name)"
    using comps_render [OF clean_list_butlast [OF cl]] by simp
  moreover have "\<not> IsAbs linkName \<and> (if IsAbs linkname
      then comps (path_join [Dir name, linkName]) = comps linkname else linkName = linkname)"
  proof (cases "IsAbs linkname")
    case True
    let ?t = "trim_prefix (Clean linkname) ''/''"
    have t: "comps ?t = comps linkname" by (rule comps_trim_root(1) [OF True])
    from r True have rel: "Rel (Dir name) ?t = Some linkName" and "\<exists>p. safePath root ?t = Inr p"
      by (auto simp: relativeLink_def Let_def res_bind_Inr_iff split: option.splits)
    then have "comps ?t \<noteq> []" "dotdot \<notin> set (comps ?t)" by (auto simp: safePath_iff)
    then have "comps (path_join [Dir name, linkName]) = comps ?t"
      using rel by (intro Rel_join) (simp_all add: Dir_def)
    with True t Rel_relative [OF rel] show ?thesis by simp
  next
    case False
    with r show ?thesis by (simp add: relativeLink_def)
  qed
  ultimately show ?thesis using below by blast
qed

theorem accepted_link_below_witness:
  "comps (Dir ''usr/lib/x'') = butlast (comps ''usr/lib/x'') \<and> \<not> IsAbs ''../../etc/x''
    \<and> comps (path_join [Dir ''usr/lib/x'', ''../../etc/x'']) \<noteq> []
    \<and> dotdot \<notin> set (comps (path_join [Dir ''usr/lib/x'', ''../../etc/x'']))
    \<and> (if IsAbs ''/etc//x'' then comps (path_join [Dir ''usr/lib/x'', ''../../etc/x'']) = comps ''/etc//x''
       else ''../../etc/x'' = ''/etc//x'')"
proof (rule accepted_link_below)
  show "Clean ''usr/lib/x'' = ''usr/lib/x''" by code_simp
  show "safePath ''/r'' ''usr/lib/x'' = Inr ''/r/usr/lib/x''" by code_simp
  show "checkedLink ''/r'' ''usr/lib/x'' ''/etc//x'' = Inr ''../../etc/x''" by code_simp
qed

text \<open>
  C29. Whatever an image holds besides symbolic links, and whether or not its extraction succeeds,
  nothing outside the root changes: no node appears, disappears or changes its kind or mode, and no
  file its content; and after a success there is no symbolic link below the root.
\<close>

theorem extraction_contained:
  assumes place: "fresh_place root R s"
    and links: "\<And>layout. link_free (imageAt layout)"
  shows "(\<forall>q. \<not> prefix R q \<longrightarrow>
      node_of (snd (extractOCI env imageAt layoutArg root single zstd s)) q = node_of s q
      \<and> read_file (snd (extractOCI env imageAt layoutArg root single zstd s)) q = read_file s q)
    \<and> (fst (extractOCI env imageAt layoutArg root single zstd s) = Inr () \<longrightarrow>
        (\<forall>q t. prefix R q \<longrightarrow>
          node_of (snd (extractOCI env imageAt layoutArg root single zstd s)) q \<noteq> Some (LinkN t)))"
proof -
  let ?r = "extractOCI env imageAt layoutArg root single zstd s"
  have c: "same_outside R (fs_next s) s (snd ?r)" "fst ?r = Inr () \<longrightarrow> jailed root R (fs_next s) (snd ?r)"
    using extractOCI_contained [OF place links] by (auto simp: contained_def)
  have "read_file (snd ?r) q = read_file s q" if "\<not> prefix R q" for q
  proof -
    have "node_of (snd ?r) q = node_of s q" using c(1) that by (simp add: same_outside_def)
    moreover have "node_of s q = Some (FileN i) \<Longrightarrow> i < fs_next s" for i
      using place by (simp add: fresh_place_def)
    ultimately show ?thesis using c(1)
      by (auto simp: read_file_def same_outside_def split: option.splits node.splits)
  qed
  then show ?thesis using c by (auto simp: same_outside_def jailed_def)
qed

text \<open>An image of one layer, and a machine with a file outside the root \<open>/r\<close>.\<close>

definition ex_header :: "string \<Rightarrow> char \<Rightarrow> string \<Rightarrow> string \<Rightarrow> Header" where
  "ex_header name flag linkname content =
     \<lparr>hd_name = name, hd_typeflag = flag, hd_linkname = linkname, hd_mode = 0b110100100,
      hd_content = content, hd_readError = None\<rparr>"

definition ex_machine :: fs where
  "ex_machine =
     \<lparr>fs_nodes = [([''r''], DirN 0b111101101), ([''etc''], DirN 0b111101101), ([''etc'', ''passwd''], FileN 0)],
      fs_inodes = [(0, (0b110100100, ''root''))], fs_next = 1, fs_cwd = [], fs_umask = 0b000010010\<rparr>"

definition ex_layer :: Descriptor where
  "ex_layer = \<lparr>ds_digest = ''sha256:'' @ digest ''layer'',
     ds_mediaType = ''application/vnd.oci.image.layer.v1.tar'', ds_size = 2048\<rparr>"

definition ex_image :: Image where
  "ex_image = \<lparr>im_index = Inr [\<lparr>ds_digest = ''sha256:'' @ digest ''manifest'', ds_mediaType = [], ds_size = 8\<rparr>],
     im_manifest = (\<lambda>_. Inr [ex_layer]),
     im_blob = (\<lambda>path. Inr (if Base path = digest ''manifest'' then ''manifest'' else ''layer'')),
     im_open = (\<lambda>_ _. Inr \<lparr>ar_entries = [ex_header ''etc/passwd'' (CHR ''0'') [] ''image'',
          ex_header ''shadow'' (CHR ''1'') ''etc/passwd'' []], ar_error = None, ar_close = None\<rparr>)\<rparr>"

theorem extraction_contained_witness:
  "fresh_place ''/r'' [''r''] ex_machine \<and> link_free ex_image
   \<and> node_of (snd (extractOCI \<lparr>rf_runfilesDir = [], rf_testSrcdir = [], rf_executable = None\<rparr>
        (\<lambda>_. ex_image) ''/etc'' ''/r'' True [] ex_machine)) [''etc'', ''passwd''] = Some (FileN 0)
   \<and> read_file (snd (extractOCI \<lparr>rf_runfilesDir = [], rf_testSrcdir = [], rf_executable = None\<rparr>
        (\<lambda>_. ex_image) ''/etc'' ''/r'' True [] ex_machine)) [''etc'', ''passwd''] = Some (0b110100100, ''root'')"
proof -
  have place: "fresh_place ''/r'' [''r''] ex_machine"
    by (auto simp: fresh_place_def ex_machine_def start_dir_def IsAbs_def elements_def node_of_def
        strict_prefix_def prefix_Cons split: if_splits)
  have links: "link_free ex_image" by (simp add: link_free_def ex_image_def ex_header_def)
  have "\<not> prefix [''r''] [''etc'', ''passwd'']" "node_of ex_machine [''etc'', ''passwd''] = Some (FileN 0)"
    "read_file ex_machine [''etc'', ''passwd''] = Some (0b110100100, ''root'')"
    by code_simp+
  with place links extraction_contained [OF place links] show ?thesis by simp
qed

text \<open>A layer of four entries with clean names, two of them links.\<close>

definition escaping_entries :: "Header list" where
  "escaping_entries =
     [ex_header ''t'' (CHR ''5'') [] [],
      ex_header ''x/y'' (CHR ''2'') ''../t'' [],
      ex_header ''q'' (CHR ''2'') ''x/y/../../etc'' [],
      ex_header ''q/passwd'' (CHR ''0'') [] ''evil'']"

text \<open>
  The check of links by their spelling is not enough, a flaw of the code: both links are accepted
  and lead below the root by their spelling, but the second one goes through the first and then up, so
  that it leads out of the root; the extraction succeeds, and its last entry has replaced a file of
  the machine.
\<close>

theorem links_lead_out:
  "list_all (\<lambda>h. Clean (hd_name h) = hd_name h) escaping_entries
   \<and> checkedLink ''/r'' ''x/y'' ''../t'' = Inr ''../t''
   \<and> checkedLink ''/r'' ''q'' ''x/y/../../etc'' = Inr ''x/y/../../etc''
   \<and> Clean (path_join [Dir ''q'', ''x/y/../../etc'']) = ''etc''
   \<and> (let (outcome, s) = extractArchive ''/r''
          \<lparr>ar_entries = escaping_entries, ar_error = None, ar_close = None\<rparr> ex_machine
      in outcome = Inr () \<and> resolve True ''/r/q'' s = Inr [''etc'']
         \<and> read_file ex_machine [''etc'', ''passwd''] = Some (0b110100100, ''root'')
         \<and> read_file s [''etc'', ''passwd''] = Some (0b110100100, ''evil''))"
  by code_simp

text \<open>
  The same with one link: the target is checked from the directory of the name as it is written, but
  the link is made at the cleaned name.
\<close>

lemma dotdot_name_leads_out:
  "let (outcome, s) = extractArchive ''/r'' \<lparr>ar_entries =
       [ex_header ''d/x/..'' (CHR ''2'') ''../../etc'' [], ex_header ''d/passwd'' (CHR ''0'') [] ''evil''],
       ar_error = None, ar_close = None\<rparr> ex_machine
   in outcome = Inr () \<and> read_file s [''etc'', ''passwd''] = Some (0b110100100, ''evil'')"
  by code_simp

section \<open>Layers and validators\<close>

text \<open>
  The layer of a single-payload image is accepted exactly if one layer is larger than 1024 bytes
  and every other layer is a verified empty archive; the payload is that layer.
\<close>

lemma payload_fold:
  "res_fold (payloadStep img layout zstd) layers acc = Inr ls \<longleftrightarrow>
     ls = acc @ filter (\<lambda>l. ds_size l > 1024) layers
     \<and> (\<forall>l \<in> set layers. ds_size l \<le> 1024 \<longrightarrow> verifyEmptyLayer img layout zstd l = Inr ())"
proof (induction layers arbitrary: acc)
  case (Cons l layers)
  then show ?case
    by (cases "ds_size l > 1024"; cases "verifyEmptyLayer img layout zstd l")
      (auto simp: payloadStep_def res_bind_Inr_iff)
qed auto

lemma single_payload_iff:
  "singlePayloadLayer img layout zstd layers = Inr ls \<longleftrightarrow>
     (\<exists>payload. ls = [payload] \<and> filter (\<lambda>l. ds_size l > 1024) layers = [payload])
     \<and> (\<forall>l \<in> set layers. ds_size l \<le> 1024 \<longrightarrow> verifyEmptyLayer img layout zstd l = Inr ())"
  by (auto simp: singlePayloadLayer_def res_bind_Inr_iff fail_if_Inr_iff payload_fold length_Suc_conv)

text \<open>A layer that is opened is the one of its digest, and so is the manifest that lists the layers.\<close>

lemma verifyBlob_iff:
  "verifyBlob img path digst = Inr () \<longleftrightarrow> (\<exists>bytes. im_blob img path = Inr bytes \<and> digst = ''sha256:'' @ digest bytes)"
  by (auto simp: verifyBlob_def res_bind_Inr_iff fail_if_Inr_iff Let_def)

lemma opened_layer_verified:
  "openLayer img layout zstd layer = Inr archive \<Longrightarrow>
   \<exists>path bytes codec. blobPath layout (ds_digest layer) = Inr path \<and> im_blob img path = Inr bytes
     \<and> ds_digest layer = ''sha256:'' @ digest bytes
     \<and> layerReader (ds_mediaType layer) zstd = Inr codec \<and> im_open img codec bytes = Inr archive"
  by (auto simp: openLayer_def res_bind_Inr_iff verifyBlob_iff)

end
