(* ===== verification/Hungarian.thy ===== *)
theory Hungarian
  imports Assignment
begin

text \<open>
  The Hungarian algorithm of \<open>Assignment\<close> is correct: it ends, and the assignment it returns is
  a permutation of greatest total weight. The invariants are those of the primal-dual method:
  the potentials never exceed a cost, and they are tight on the matched pairs and on the edges
  of the search tree.
\<close>

section \<open>The loops over the candidates\<close>

definition cost_of :: "int list list \<Rightarrow> nat \<Rightarrow> nat \<Rightarrow> int" where
  "cost_of ws i j = - (ws ! (i - 1) ! (j - 1))"

definition reduced :: "int list list \<Rightarrow> int list \<Rightarrow> int list \<Rightarrow> nat \<Rightarrow> nat \<Rightarrow> int" where
  "reduced ws u v i j = cost_of ws i j - u ! i - v ! j"

text \<open>What one pass of \<open>hung_scan\<close> leaves.\<close>

lemma scan_pass:
  assumes "fold (hung_scan ws m s) xs (mc, pv, d, nx) = (mc', pv', d', nx')"
    and "distinct xs" "\<And>j. j \<in> set xs \<Longrightarrow> j < length mc \<and> j < length pv"
  shows "length mc' = length mc" "length pv' = length pv"
    and "\<And>j. mc' ! j = (if j \<in> set xs \<and> \<not> hs_used s ! j
        then min (mc ! j) (reduced ws (hs_left s) (hs_right s) (m ! hs_column s) j) else mc ! j)"
    and "\<And>j. pv' ! j = (if j \<in> set xs \<and> \<not> hs_used s ! j
          \<and> reduced ws (hs_left s) (hs_right s) (m ! hs_column s) j < mc ! j
        then hs_column s else pv ! j)"
    and "d' \<le> d" "\<And>j. j \<in> set xs \<Longrightarrow> \<not> hs_used s ! j \<Longrightarrow> d' \<le> mc' ! j"
    and "d' = d \<and> nx' = nx \<or> nx' \<in> set xs \<and> \<not> hs_used s ! nx' \<and> d' = mc' ! nx'"
proof -
  let ?c = "reduced ws (hs_left s) (hs_right s) (m ! hs_column s)"
  have "length mc' = length mc \<and> length pv' = length pv
    \<and> (\<forall>j. mc' ! j = (if j \<in> set xs \<and> \<not> hs_used s ! j then min (mc ! j) (?c j) else mc ! j))
    \<and> (\<forall>j. pv' ! j = (if j \<in> set xs \<and> \<not> hs_used s ! j \<and> ?c j < mc ! j then hs_column s else pv ! j))
    \<and> d' \<le> d \<and> (\<forall>j \<in> set xs. \<not> hs_used s ! j \<longrightarrow> d' \<le> mc' ! j)
    \<and> (d' = d \<and> nx' = nx \<or> nx' \<in> set xs \<and> \<not> hs_used s ! nx' \<and> d' = mc' ! nx')"
    using assms
  proof (induction xs arbitrary: mc pv d nx)
    case Nil
    then show ?case by simp
  next
    case (Cons x xs)
    obtain mc1 pv1 d1 nx1 where step: "hung_scan ws m s x (mc, pv, d, nx) = (mc1, pv1, d1, nx1)"
      by (metis prod_cases4)
    have x: "x < length mc" "x < length pv" "x \<notin> set xs" using Cons.prems(2,3) by auto
    show ?case
    proof (cases "hs_used s ! x")
      case True
      with step have "mc1 = mc" "pv1 = pv" "d1 = d" "nx1 = nx" by (simp_all add: hung_scan_def)
      with Cons.IH [of mc pv d nx] Cons.prems step True show ?thesis by auto
    next
      case False
      with step x have mc1: "mc1 = mc[x := min (mc ! x) (?c x)]"
        and pv1: "pv1 = (if ?c x < mc ! x then pv[x := hs_column s] else pv)"
        and d1: "d1 = min d (min (mc ! x) (?c x))"
        and nx1: "nx1 = (if min (mc ! x) (?c x) < d then x else nx)"
        by (auto simp: hung_scan_def Let_def reduced_def cost_of_def min_def split: if_splits)
      have IH: "length mc' = length mc1 \<and> length pv' = length pv1
        \<and> (\<forall>j. mc' ! j = (if j \<in> set xs \<and> \<not> hs_used s ! j then min (mc1 ! j) (?c j) else mc1 ! j))
        \<and> (\<forall>j. pv' ! j = (if j \<in> set xs \<and> \<not> hs_used s ! j \<and> ?c j < mc1 ! j then hs_column s else pv1 ! j))
        \<and> d' \<le> d1 \<and> (\<forall>j \<in> set xs. \<not> hs_used s ! j \<longrightarrow> d' \<le> mc' ! j)
        \<and> (d' = d1 \<and> nx' = nx1 \<or> nx' \<in> set xs \<and> \<not> hs_used s ! nx' \<and> d' = mc' ! nx')"
        by (rule Cons.IH) (use Cons.prems step mc1 pv1 in \<open>auto\<close>)
      have mcx: "mc' ! x = min (mc ! x) (?c x)" using IH x by (simp add: mc1)
      have A3: "mc' ! j = (if j \<in> set (x # xs) \<and> \<not> hs_used s ! j then min (mc ! j) (?c j) else mc ! j)" for j
        using IH mcx False x(3) by (cases "j = x") (auto simp: mc1)
      have A4: "pv' ! j = (if j \<in> set (x # xs) \<and> \<not> hs_used s ! j \<and> ?c j < mc ! j
          then hs_column s else pv ! j)" for j
        using IH False x by (cases "j = x") (auto simp: mc1 pv1)
      have A6: "d' \<le> mc' ! j" if "j \<in> set (x # xs)" "\<not> hs_used s ! j" for j
        using IH that mcx d1 by (cases "j = x") auto
      have A7: "d' = d \<and> nx' = nx \<or> nx' \<in> set (x # xs) \<and> \<not> hs_used s ! nx' \<and> d' = mc' ! nx'"
      proof -
        have "d' = d1 \<and> nx' = nx1 \<or> nx' \<in> set xs \<and> \<not> hs_used s ! nx' \<and> d' = mc' ! nx'"
          using IH by (elim conjE) assumption
        moreover define w where "w = min (mc ! x) (?c x)"
        moreover have "d1 = (if w < d then w else d)" "nx1 = (if w < d then x else nx)" "mc' ! x = w"
          using d1 nx1 mcx by (auto simp: w_def min_def)
        ultimately show ?thesis
          using False by (cases "w < d") auto
      qed
      have "length mc' = length mc1" using IH by (elim conjE)
      moreover have "length pv' = length pv1" using IH by (elim conjE)
      moreover have "d' \<le> d1" using IH by (elim conjE)
      ultimately have A1: "length mc' = length mc" "length pv' = length pv" "d' \<le> d"
        by (simp_all add: mc1 pv1 d1)
      show ?thesis by (intro conjI allI ballI impI A1 A3 A4 A6 A7)
    qed
  qed
  note R = this
  show "length mc' = length mc" using R by (elim conjE)
  show "length pv' = length pv" using R by (elim conjE)
  show "d' \<le> d" using R by (elim conjE)
  show "d' = d \<and> nx' = nx \<or> nx' \<in> set xs \<and> \<not> hs_used s ! nx' \<and> d' = mc' ! nx'"
    using R by (elim conjE)
  show "mc' ! j = (if j \<in> set xs \<and> \<not> hs_used s ! j then min (mc ! j) (?c j) else mc ! j)" for j
    using R by (elim conjE) (erule spec)
  show "pv' ! j = (if j \<in> set xs \<and> \<not> hs_used s ! j \<and> ?c j < mc ! j then hs_column s else pv ! j)" for j
    using R by (elim conjE) (erule spec)
  show "d' \<le> mc' ! j" if "j \<in> set xs" "\<not> hs_used s ! j" for j
    using R that by (elim conjE) (drule (1) bspec, drule (1) mp, assumption)
qed

text \<open>What one pass of \<open>hung_shift\<close> leaves, when the used columns have different rows.\<close>

lemma shift_pass:
  assumes "fold (hung_shift m used d) xs (u, v, mc) = (u', v', mc')"
    and "distinct xs" "\<And>j. j \<in> set xs \<Longrightarrow> j < length v \<and> j < length mc \<and> m ! j < length u"
    and "inj_on ((!) m) {j \<in> set xs. used ! j}"
  shows "length u' = length u" "length v' = length v" "length mc' = length mc"
    and "\<And>i. u' ! i = (if i \<in> (!) m ` {j \<in> set xs. used ! j} then u ! i + d else u ! i)"
    and "\<And>j. v' ! j = (if j \<in> set xs \<and> used ! j then v ! j - d else v ! j)"
    and "\<And>j. mc' ! j = (if j \<in> set xs \<and> \<not> used ! j then mc ! j - d else mc ! j)"
proof -
  have "length u' = length u \<and> length v' = length v \<and> length mc' = length mc
    \<and> (\<forall>i. u' ! i = (if i \<in> (!) m ` {j \<in> set xs. used ! j} then u ! i + d else u ! i))
    \<and> (\<forall>j. v' ! j = (if j \<in> set xs \<and> used ! j then v ! j - d else v ! j))
    \<and> (\<forall>j. mc' ! j = (if j \<in> set xs \<and> \<not> used ! j then mc ! j - d else mc ! j))"
    using assms
  proof (induction xs arbitrary: u v mc)
    case Nil
    then show ?case by simp
  next
    case (Cons x xs)
    have x: "x < length v" "x < length mc" "m ! x < length u" "x \<notin> set xs" using Cons.prems(2,3) by auto
    have inj: "inj_on ((!) m) {j \<in> set xs. used ! j}"
      using Cons.prems(4) by (rule inj_on_subset) auto
    show ?case
    proof (cases "used ! x")
      case True
      then have eq: "{j \<in> set (x # xs). used ! j} = insert x {j \<in> set xs. used ! j}" by auto
      then have new: "m ! x \<notin> (!) m ` {j \<in> set xs. used ! j}"
        using Cons.prems(4) x(4) by (auto simp: inj_on_def)
      have "hung_shift m used d x (u, v, mc) = (u[m ! x := u ! (m ! x) + d], v[x := v ! x - d], mc)"
        using True by (simp add: hung_shift_def)
      with Cons.prems(1)
      have "fold (hung_shift m used d) xs (u[m ! x := u ! (m ! x) + d], v[x := v ! x - d], mc) = (u', v', mc')"
        by simp
      from Cons.IH [OF this _ _ inj] Cons.prems(2,3) show ?thesis
        using True x new unfolding eq by (auto simp: nth_list_update)
    next
      case False
      then have eq: "{j \<in> set (x # xs). used ! j} = {j \<in> set xs. used ! j}" by auto
      have "hung_shift m used d x (u, v, mc) = (u, v, mc[x := mc ! x - d])"
        using False by (simp add: hung_shift_def)
      with Cons.prems(1)
      have "fold (hung_shift m used d) xs (u, v, mc[x := mc ! x - d]) = (u', v', mc')"
        by simp
      from Cons.IH [OF this _ _ inj] Cons.prems(2,3) show ?thesis
        using False x unfolding eq by (auto simp: nth_list_update)
    qed
  qed
  then show "length u' = length u" "length v' = length v" "length mc' = length mc"
    "\<And>i. u' ! i = (if i \<in> (!) m ` {j \<in> set xs. used ! j} then u ! i + d else u ! i)"
    "\<And>j. v' ! j = (if j \<in> set xs \<and> used ! j then v ! j - d else v ! j)"
    "\<And>j. mc' ! j = (if j \<in> set xs \<and> \<not> used ! j then mc ! j - d else mc ! j)"
    by blast+
qed

section \<open>The search for a free column\<close>

definition weights_ok :: "int list list \<Rightarrow> int \<Rightarrow> bool" where
  "weights_ok ws C \<longleftrightarrow> list_all (\<lambda>r. length r = length ws \<and> list_all (\<lambda>w. 0 \<le> w \<and> w \<le> C) r) ws
     \<and> 0 \<le> C \<and> (int (length ws) + 1) * C < hungarian_infinity"

lemma cost_range:
  assumes "weights_ok ws C" "i \<in> {1..length ws}" "j \<in> {1..length ws}"
  shows "- C \<le> cost_of ws i j" "cost_of ws i j \<le> 0"
proof -
  have "ws ! (i - 1) \<in> set ws" using assms(2) by auto
  then have "length (ws ! (i - 1)) = length ws" "list_all (\<lambda>w. 0 \<le> w \<and> w \<le> C) (ws ! (i - 1))"
    using assms(1) by (auto simp: weights_ok_def list_all_iff)
  then have "0 \<le> ws ! (i - 1) ! (j - 1) \<and> ws ! (i - 1) ! (j - 1) \<le> C"
    using assms(3) by (auto simp: list_all_length)
  then show "- C \<le> cost_of ws i j" "cost_of ws i j \<le> 0" by (simp_all add: cost_of_def)
qed

text \<open>
  The potentials while row \<open>k + 1\<close> is searched for; \<open>first\<close> says that no round was made yet. The
  rows \<open>1..k\<close> are matched.
\<close>

definition pot_inv :: "int list list \<Rightarrow> int \<Rightarrow> nat \<Rightarrow> bool \<Rightarrow> nat list \<Rightarrow> int list \<Rightarrow> int list \<Rightarrow> bool" where
  "pot_inv ws C k first m u v \<longleftrightarrow>
     length u = Suc (length ws) \<and> length v = Suc (length ws) \<and> length m = Suc (length ws)
     \<and> k < length ws \<and> m ! 0 = Suc k
     \<and> bij_betw ((!) m) {j \<in> {1..length ws}. m ! j \<noteq> 0} {1..k}
     \<and> (\<forall>i \<in> {1..if first then k else Suc k}. \<forall>j \<in> {1..length ws}. 0 \<le> reduced ws u v i j)
     \<and> (\<forall>j \<in> {1..length ws}. m ! j \<noteq> 0 \<longrightarrow> reduced ws u v (m ! j) j = 0)
     \<and> (\<forall>j \<in> {1..length ws}. v ! j \<le> 0 \<and> (m ! j = 0 \<longrightarrow> v ! j = 0)
          \<and> - (int k * C) - (if first then 0 else u ! Suc k + C) \<le> v ! j)
     \<and> (\<forall>i \<in> {1..Suc k}. - C \<le> u ! i) \<and> (first \<longrightarrow> u ! Suc k = 0)
     \<and> (\<forall>i. Suc k < i \<and> i \<le> length ws \<longrightarrow> u ! i = 0)"

text \<open>
  The search tree: \<open>xs\<close> lists its columns in the order they were reached, the current one last;
  \<open>previous\<close> points to an earlier column over a tight edge.
\<close>

definition tree_inv :: "int list list \<Rightarrow> nat list \<Rightarrow> hsearch \<Rightarrow> nat list \<Rightarrow> bool" where
  "tree_inv ws m s xs \<longleftrightarrow>
     length (hs_minCost s) = Suc (length ws) \<and> length (hs_used s) = Suc (length ws)
     \<and> length (hs_previous s) = Suc (length ws)
     \<and> distinct xs \<and> xs \<noteq> [] \<and> hd xs = 0 \<and> last xs = hs_column s \<and> set xs \<subseteq> {0..length ws}
     \<and> (\<forall>j \<in> set (butlast xs). m ! j \<noteq> 0)
     \<and> (\<forall>j \<le> length ws. hs_used s ! j \<longleftrightarrow> j \<in> set (butlast xs))
     \<and> (\<forall>p. 0 < p \<and> p < length xs \<longrightarrow> (\<exists>q < p. hs_previous s ! (xs ! p) = xs ! q
          \<and> reduced ws (hs_left s) (hs_right s) (m ! (xs ! q)) (xs ! p) = 0))
     \<and> (\<forall>j \<in> {1..length ws} - set xs.
          (\<forall>t \<in> set (butlast xs). hs_minCost s ! j \<le> reduced ws (hs_left s) (hs_right s) (m ! t) j)
          \<and> (butlast xs = [] \<and> hs_minCost s ! j = hungarian_infinity
             \<or> (\<exists>t \<in> set (butlast xs). hs_previous s ! j = t
                 \<and> hs_minCost s ! j = reduced ws (hs_left s) (hs_right s) (m ! t) j)))"

lemma free_column:
  assumes "pot_inv ws C k first m u v"
  obtains f where "f \<in> {1..length ws}" "m ! f = 0"
proof -
  have "card {j \<in> {1..length ws}. m ! j \<noteq> 0} = k"
    using assms bij_betw_same_card by (fastforce simp: pot_inv_def)
  then have "{j \<in> {1..length ws}. m ! j \<noteq> 0} \<noteq> {1..length ws}"
    using assms by (auto simp: pot_inv_def)
  then show thesis using that by blast
qed

text \<open>The rows of different columns of the tree are different.\<close>

lemma tree_rows:
  assumes "pot_inv ws C k first m u v" "X \<subseteq> {0..length ws}" "\<forall>j \<in> X. m ! j \<noteq> 0"
  shows "inj_on ((!) m) X" "\<And>j. j \<in> X \<Longrightarrow> m ! j \<in> {1..Suc k}"
proof -
  have b: "bij_betw ((!) m) {j \<in> {1..length ws}. m ! j \<noteq> 0} {1..k}" and m0: "m ! 0 = Suc k"
    using assms(1) by (simp_all add: pot_inv_def)
  have row: "m ! j \<in> {1..k}" if "j \<in> X" "j \<noteq> 0" for j
  proof -
    have "j \<in> {j \<in> {1..length ws}. m ! j \<noteq> 0}" using that assms(2,3) by auto
    then show ?thesis using bij_betwE [OF b] by blast
  qed
  have eq: "i = j" if "i \<in> X" "j \<in> X" "m ! i = m ! j" "i \<noteq> 0" "j \<noteq> 0" for i j
  proof (rule inj_onD [OF bij_betw_imp_inj_on [OF b]])
    show "i \<in> {j \<in> {1..length ws}. m ! j \<noteq> 0}" "j \<in> {j \<in> {1..length ws}. m ! j \<noteq> 0}"
      using that assms(2,3) by auto
  qed (rule that(3))
  show "inj_on ((!) m) X"
  proof (rule inj_onI)
    fix i j assume "i \<in> X" "j \<in> X" "m ! i = m ! j"
    then show "i = j" using row [of i] row [of j] eq [of i j] m0 by (cases "i = 0"; cases "j = 0") auto
  qed
  show "m ! j \<in> {1..Suc k}" if "j \<in> X" for j
    using row [OF that] m0 by (cases "j = 0") auto
qed

lemma last_row_potential:
  assumes ok: "weights_ok ws C" and inv: "pot_inv ws C k first m u v"
  shows "u ! Suc k \<le> 0"
proof (cases first)
  case True
  then show ?thesis using inv by (simp add: pot_inv_def)
next
  case False
  obtain f where f: "f \<in> {1..length ws}" "m ! f = 0" by (rule free_column [OF inv])
  have "0 \<le> reduced ws u v (Suc k) f" "v ! f = 0" "k < length ws"
    using inv f False by (auto simp: pot_inv_def)
  moreover have "cost_of ws (Suc k) f \<le> 0" using cost_range [OF ok _ f(1)] \<open>k < length ws\<close> by auto
  ultimately show ?thesis by (simp add: reduced_def)
qed

text \<open>While a row is searched for, no reduced cost reaches the infinity of the code.\<close>

lemma reduced_bound:
  assumes ok: "weights_ok ws C" and inv: "pot_inv ws C k first m u v"
    and i: "i \<in> {1..Suc k}" and j: "j \<in> {1..length ws}"
  shows "reduced ws u v i j < hungarian_infinity"
proof -
  have k: "k < length ws" using inv by (simp add: pot_inv_def)
  have last_row: "u ! Suc k \<le> 0" by (rule last_row_potential [OF ok inv])
  have "- (int k * C) - (if first then 0 else u ! Suc k + C) \<le> v ! j" "- C \<le> u ! i"
    using inv i j by (auto simp: pot_inv_def)
  moreover have "0 \<le> C" using ok by (simp add: weights_ok_def)
  ultimately have "- v ! j \<le> int k * C + C" "- C \<le> u ! i" using last_row by (auto split: if_splits)
  moreover have "cost_of ws i j \<le> 0" using cost_range [OF ok _ j] i k by auto
  ultimately have "reduced ws u v i j \<le> (int k + 2) * C"
    by (simp add: reduced_def algebra_simps)
  also have "\<dots> \<le> (int (length ws) + 1) * C"
    using k \<open>0 \<le> C\<close> by (intro mult_right_mono) auto
  finally show ?thesis using ok by (simp add: weights_ok_def)
qed

text \<open>One round, and what it changes.\<close>

lemma round_step:
  assumes ok: "weights_ok ws C" and pot: "pot_inv ws C k (butlast xs = []) m (hs_left s) (hs_right s)"
    and tree: "tree_inv ws m s xs" and col: "m ! hs_column s \<noteq> 0"
  obtains d where "hs_column (hung_round ws m s) \<in> {1..length ws} - set xs"
    and "length (hs_left (hung_round ws m s)) = Suc (length ws)"
    "length (hs_right (hung_round ws m s)) = Suc (length ws)"
    "length (hs_minCost (hung_round ws m s)) = Suc (length ws)"
    "length (hs_previous (hung_round ws m s)) = Suc (length ws)"
    and "hs_used (hung_round ws m s) = (hs_used s)[hs_column s := True]"
    and "\<And>i. hs_left (hung_round ws m s) ! i
      = (if i \<in> (!) m ` set xs then hs_left s ! i + d else hs_left s ! i)"
    and "\<And>j. j \<le> length ws \<Longrightarrow> hs_right (hung_round ws m s) ! j
      = (if j \<in> set xs then hs_right s ! j - d else hs_right s ! j)"
    and "\<And>j. j \<in> {1..length ws} - set xs \<Longrightarrow> hs_minCost (hung_round ws m s) ! j
      = min (hs_minCost s ! j) (reduced ws (hs_left s) (hs_right s) (m ! hs_column s) j) - d"
    and "\<And>j. j \<in> {1..length ws} - set xs \<Longrightarrow> hs_previous (hung_round ws m s) ! j
      = (if reduced ws (hs_left s) (hs_right s) (m ! hs_column s) j < hs_minCost s ! j
         then hs_column s else hs_previous s ! j)"
    and "\<And>j. j \<in> set xs \<Longrightarrow> hs_previous (hung_round ws m s) ! j = hs_previous s ! j"
    and "\<And>j. j \<in> {1..length ws} - set xs
      \<Longrightarrow> d \<le> min (hs_minCost s ! j) (reduced ws (hs_left s) (hs_right s) (m ! hs_column s) j)"
    and "d = min (hs_minCost s ! hs_column (hung_round ws m s))
      (reduced ws (hs_left s) (hs_right s) (m ! hs_column s) (hs_column (hung_round ws m s)))"
proof -
  let ?n = "length ws"
  let ?red = "reduced ws (hs_left s) (hs_right s) (m ! hs_column s)"
  define s1 where "s1 = s\<lparr>hs_used := (hs_used s)[hs_column s := True]\<rparr>"
  have len: "length (hs_minCost s) = Suc ?n" "length (hs_used s) = Suc ?n" "length (hs_previous s) = Suc ?n"
    and xs: "xs \<noteq> []" "last xs = hs_column s" "set xs \<subseteq> {0..?n}"
    and nz: "\<forall>j \<in> set (butlast xs). m ! j \<noteq> 0"
    and used: "\<forall>j \<le> ?n. hs_used s ! j \<longleftrightarrow> j \<in> set (butlast xs)"
    using tree by (simp_all add: tree_inv_def)
  have set_xs: "set xs = insert (hs_column s) (set (butlast xs))"
    using xs(1,2) append_butlast_last_id [OF xs(1)] by (metis insert_is_Un list.set(2) list.simps(15) set_append sup_commute empty_set)
  then have nz': "\<forall>j \<in> set xs. m ! j \<noteq> 0" using nz col by auto
  have col_le: "hs_column s \<le> ?n" using xs(3) set_xs by auto
  have used1: "hs_used s1 ! j \<longleftrightarrow> j \<in> set xs" if "j \<le> ?n" for j
    using that used len col_le by (auto simp: s1_def set_xs nth_list_update)
  have lens: "length (hs_left s) = Suc ?n" "length (hs_right s) = Suc ?n" "k < ?n"
    using pot by (simp_all add: pot_inv_def)
  obtain mc pv d nx where scan: "fold (hung_scan ws m s1) [1..<Suc ?n]
      (hs_minCost s1, hs_previous s1, hungarian_infinity, 0) = (mc, pv, d, nx)"
    by (metis prod_cases4)
  obtain u v mc' where shift: "fold (hung_shift m (hs_used s1) d) [0..<Suc ?n]
      (hs_left s1, hs_right s1, mc) = (u, v, mc')"
    by (metis prod_cases3)
  have round: "hung_round ws m s = \<lparr>hs_column = nx, hs_minCost = mc', hs_used = hs_used s1, hs_left = u,
      hs_right = v, hs_previous = pv\<rparr>"
    using scan shift by (simp add: hung_round_def Let_def s1_def [symmetric])
  have s1: "hs_left s1 = hs_left s" "hs_right s1 = hs_right s" "hs_minCost s1 = hs_minCost s"
    "hs_previous s1 = hs_previous s" "hs_column s1 = hs_column s"
    by (simp_all add: s1_def)
  have bnd1: "j < length (hs_minCost s1) \<and> j < length (hs_previous s1)" if "j \<in> set [1..<Suc ?n]" for j
    using that len unfolding s1 set_upt by simp
  note sp = scan_pass [OF scan distinct_upt bnd1, unfolded s1]
  have P: "length mc = Suc ?n" "length pv = Suc ?n"
    using sp(1,2) len by auto
  have mc: "mc ! j = min (hs_minCost s ! j) (?red j)" if "j \<in> {1..?n} - set xs" for j
    using sp(3) [of j] that used1 [of j] len by (auto simp del: upt_Suc)
  have pv: "pv ! j = (if ?red j < hs_minCost s ! j then hs_column s else hs_previous s ! j)"
    if "j \<in> {1..?n} - set xs" for j
    using sp(4) [of j] that used1 [of j] len by (auto simp del: upt_Suc)
  have pv_old: "pv ! j = hs_previous s ! j" if "j \<in> set xs" for j
    using sp(4) [of j] that used1 [of j] len xs(3) by (auto simp del: upt_Suc)
  have least: "d \<le> mc ! j" if "j \<in> {1..?n} - set xs" for j
    using sp(6) [of j] that used1 [of j] len by (auto simp del: upt_Suc)
  obtain f where f: "f \<in> {1..?n}" "m ! f = 0" by (rule free_column [OF pot])
  with nz' have f': "f \<in> {1..?n} - set xs" by auto
  have row: "m ! hs_column s \<in> {1..Suc k}"
    by (rule tree_rows(2) [OF pot xs(3) nz']) (simp add: set_xs)
  have "d < hungarian_infinity"
    using least [OF f'] mc [OF f'] reduced_bound [OF ok pot row f(1)] by (auto simp: min_def split: if_splits)
  then have nx: "nx \<in> {1..?n} - set xs" "d = mc ! nx"
    using sp(7) len used1 [of nx] by (auto simp del: upt_Suc)
  have inj: "inj_on ((!) m) {j \<in> set [0..<Suc ?n]. hs_used s1 ! j}"
    by (rule inj_on_subset [OF tree_rows(1) [OF pot xs(3) nz']]) (use used1 in auto)
  have eq: "{j \<in> set [0..<Suc ?n]. hs_used s1 ! j} = set xs" using used1 xs(3) by auto
  have below: "m ! j < Suc ?n" if "j \<le> ?n" for j
  proof (cases "j = 0")
    case True
    then show ?thesis using pot by (simp add: pot_inv_def)
  next
    case False
    then have "m ! j = 0 \<or> m ! j \<in> {1..k}"
      using pot that bij_betwE [of "(!) m" "{j \<in> {1..?n}. m ! j \<noteq> 0}" "{1..k}"]
      by (auto simp: pot_inv_def)
    then show ?thesis using lens by auto
  qed
  have bnd: "j < length (hs_right s) \<and> j < length mc \<and> m ! j < length (hs_left s)"
    if "j \<in> set [0..<Suc ?n]" for j
    using that below [of j] lens P by auto
  note sh = shift_pass [OF shift [unfolded s1] distinct_upt bnd inj, unfolded eq]
  show thesis
  proof (rule that [of d])
    show "hs_column (hung_round ws m s) \<in> {1..?n} - set xs" using nx by (simp add: round)
    show "length (hs_left (hung_round ws m s)) = Suc ?n" "length (hs_right (hung_round ws m s)) = Suc ?n"
      "length (hs_minCost (hung_round ws m s)) = Suc ?n" "length (hs_previous (hung_round ws m s)) = Suc ?n"
      using sh(1,2,3) lens P by (simp_all add: round)
    show "hs_used (hung_round ws m s) = (hs_used s)[hs_column s := True]" by (simp add: round s1_def)
    show "hs_left (hung_round ws m s) ! i
      = (if i \<in> (!) m ` set xs then hs_left s ! i + d else hs_left s ! i)" for i
      using sh(4) by (simp add: round)
    show "hs_right (hung_round ws m s) ! j
      = (if j \<in> set xs then hs_right s ! j - d else hs_right s ! j)" if "j \<le> ?n" for j
      using sh(5) [of j] that used1 [OF that] by (simp add: round)
    show "hs_minCost (hung_round ws m s) ! j = min (hs_minCost s ! j) (?red j) - d"
      if "j \<in> {1..?n} - set xs" for j
      using sh(6) [of j] that used1 [of j] mc [OF that] by (auto simp: round simp del: upt_Suc)
    show "hs_previous (hung_round ws m s) ! j
      = (if ?red j < hs_minCost s ! j then hs_column s else hs_previous s ! j)"
      if "j \<in> {1..?n} - set xs" for j
      using pv [OF that] by (simp add: round)
    show "hs_previous (hung_round ws m s) ! j = hs_previous s ! j" if "j \<in> set xs" for j
      using pv_old [OF that] by (simp add: round)
    show "d \<le> min (hs_minCost s ! j) (?red j)" if "j \<in> {1..?n} - set xs" for j
      using least [OF that] mc [OF that] by simp
    show "d = min (hs_minCost s ! hs_column (hung_round ws m s)) (?red (hs_column (hung_round ws m s)))"
      using nx mc by (simp add: round)
  qed
qed

lemma round_inv:
  assumes ok: "weights_ok ws C" and pot: "pot_inv ws C k (butlast xs = []) m (hs_left s) (hs_right s)"
    and tree: "tree_inv ws m s xs" and col: "m ! hs_column s \<noteq> 0"
  defines "s' \<equiv> hung_round ws m s"
  shows "pot_inv ws C k False m (hs_left s') (hs_right s')" "tree_inv ws m s' (xs @ [hs_column s'])"
proof -
  let ?n = "length ws" and ?r = "reduced ws (hs_left s) (hs_right s)"
    and ?r' = "reduced ws (hs_left s') (hs_right s')" and ?first = "butlast xs = []"
  obtain d where nx: "hs_column s' \<in> {1..?n} - set xs"
    and len: "length (hs_left s') = Suc ?n" "length (hs_right s') = Suc ?n"
      "length (hs_minCost s') = Suc ?n" "length (hs_previous s') = Suc ?n"
    and used: "hs_used s' = (hs_used s)[hs_column s := True]"
    and u: "\<And>i. hs_left s' ! i = (if i \<in> (!) m ` set xs then hs_left s ! i + d else hs_left s ! i)"
    and v: "\<And>j. j \<le> ?n \<Longrightarrow> hs_right s' ! j = (if j \<in> set xs then hs_right s ! j - d else hs_right s ! j)"
    and mc: "\<And>j. j \<in> {1..?n} - set xs \<Longrightarrow> hs_minCost s' ! j
      = min (hs_minCost s ! j) (?r (m ! hs_column s) j) - d"
    and pv: "\<And>j. j \<in> {1..?n} - set xs \<Longrightarrow> hs_previous s' ! j
      = (if ?r (m ! hs_column s) j < hs_minCost s ! j then hs_column s else hs_previous s ! j)"
    and pv_old: "\<And>j. j \<in> set xs \<Longrightarrow> hs_previous s' ! j = hs_previous s ! j"
    and least: "\<And>j. j \<in> {1..?n} - set xs \<Longrightarrow> d \<le> min (hs_minCost s ! j) (?r (m ! hs_column s) j)"
    and d: "d = min (hs_minCost s ! hs_column s') (?r (m ! hs_column s) (hs_column s'))"
    by (rule round_step [OF ok pot tree col, folded s'_def]) (rule that)
  have lens: "length (hs_used s) = Suc ?n"
    and xs: "distinct xs" "xs \<noteq> []" "hd xs = 0" "last xs = hs_column s" "set xs \<subseteq> {0..?n}"
    and nz: "\<forall>j \<in> set (butlast xs). m ! j \<noteq> 0"
    and used0: "\<forall>j \<le> ?n. hs_used s ! j \<longleftrightarrow> j \<in> set (butlast xs)"
    and edge: "\<forall>p. 0 < p \<and> p < length xs \<longrightarrow> (\<exists>q < p. hs_previous s ! (xs ! p) = xs ! q
          \<and> ?r (m ! (xs ! q)) (xs ! p) = 0)"
    and cand: "\<forall>j \<in> {1..?n} - set xs. (\<forall>t \<in> set (butlast xs). hs_minCost s ! j \<le> ?r (m ! t) j)
          \<and> (butlast xs = [] \<and> hs_minCost s ! j = hungarian_infinity
             \<or> (\<exists>t \<in> set (butlast xs). hs_previous s ! j = t \<and> hs_minCost s ! j = ?r (m ! t) j))"
    using tree by (simp_all add: tree_inv_def)
  have kn: "k < ?n" and m0: "m ! 0 = Suc k"
    and bij: "bij_betw ((!) m) {j \<in> {1..?n}. m ! j \<noteq> 0} {1..k}"
    and feas: "\<forall>i \<in> {1..if ?first then k else Suc k}. \<forall>j \<in> {1..?n}. 0 \<le> ?r i j"
    and tight: "\<forall>j \<in> {1..?n}. m ! j \<noteq> 0 \<longrightarrow> ?r (m ! j) j = 0"
    and vbound: "\<forall>j \<in> {1..?n}. hs_right s ! j \<le> 0 \<and> (m ! j = 0 \<longrightarrow> hs_right s ! j = 0)
          \<and> - (int k * C) - (if ?first then 0 else hs_left s ! Suc k + C) \<le> hs_right s ! j"
    and ubound: "\<forall>i \<in> {1..Suc k}. - C \<le> hs_left s ! i"
    and ulast: "?first \<longrightarrow> hs_left s ! Suc k = 0"
    and uzero: "\<forall>i. Suc k < i \<and> i \<le> ?n \<longrightarrow> hs_left s ! i = 0"
    and lm: "length m = Suc ?n"
    using pot by (simp_all add: pot_inv_def)
  have set_xs: "set xs = insert (hs_column s) (set (butlast xs))"
    using xs(2,4) append_butlast_last_id [OF xs(2)]
    by (metis insert_is_Un list.set(2) list.simps(15) set_append sup_commute empty_set)
  then have nz': "\<forall>j \<in> set xs. m ! j \<noteq> 0" using nz col by auto
  note rows = tree_rows [OF pot xs(5) nz']
  have cand1: "hs_minCost s ! j \<le> ?r (m ! t) j" if "j \<in> {1..?n} - set xs" "t \<in> set (butlast xs)" for j t
    using cand that by blast
  have zero_in: "0 \<in> set xs" using xs(2,3) by (metis hd_in_set)
  have last_row: "Suc k \<in> (!) m ` set xs" using zero_in m0 by force
  have first_xs: "xs = [0]" if ?first
    using that xs(2,3) by (cases xs) (auto split: if_splits)
  have first_col: "hs_column s = 0" if ?first using first_xs [OF that] xs(4) by simp
  have d0: "0 \<le> d" if "\<not> ?first"
  proof -
    have "\<exists>t \<in> set xs. d = ?r (m ! t) (hs_column s')"
      using that d nx cand set_xs by (auto simp: min_def split: if_splits)
    then obtain t where "t \<in> set xs" "d = ?r (m ! t) (hs_column s')" by blast
    then show ?thesis using feas rows(2) nx that by auto
  qed
  have d_below: "d \<le> ?r (m ! t) j" if "t \<in> set xs" "j \<in> {1..?n} - set xs" for t j
  proof (cases "t = hs_column s")
    case False
    then have "hs_minCost s ! j \<le> ?r (m ! t) j" using cand1 that set_xs by auto
    then show ?thesis using least [OF that(2)] by simp
  qed (use least [OF that(2)] in simp)
  have r': "?r' i j = ?r i j + (if j \<in> set xs then d else 0) - (if i \<in> (!) m ` set xs then d else 0)"
    if "j \<le> ?n" for i j
    using u [of i] v [OF that] by (simp add: reduced_def)
  have feas': "0 \<le> ?r' i j" if i: "i \<in> {1..Suc k}" and j: "j \<in> {1..?n}" for i j
  proof (cases "j \<in> set xs")
    case True
    then have "\<not> ?first" using first_xs j by auto
    with feas i j d0 have "0 \<le> ?r i j" "0 \<le> d" by auto
    with True r' [of j i] j show ?thesis by auto
  next
    case False
    show ?thesis
    proof (cases "i \<in> (!) m ` set xs")
      case True
      then obtain t where "t \<in> set xs" "i = m ! t" by auto
      with d_below [of t j] False j r' [of j i] show ?thesis by auto
    next
      case F: False
      with last_row i have "i \<noteq> Suc k" by metis
      then have "0 \<le> ?r i j" using feas i j by (auto split: if_splits)
      with F False r' [of j i] j show ?thesis by auto
    qed
  qed
  have same: "j \<in> set xs \<longleftrightarrow> m ! j \<in> (!) m ` set xs" if "j \<in> {1..?n}" "m ! j \<noteq> 0" for j
  proof
    assume "m ! j \<in> (!) m ` set xs"
    then obtain t where t: "t \<in> set xs" "m ! j = m ! t" by auto
    have "inj_on ((!) m) (insert j (set xs))"
      by (rule tree_rows(1) [OF pot]) (use that nz' xs(5) in auto)
    with t have "j = t" by (auto dest: inj_onD)
    with t show "j \<in> set xs" by simp
  qed auto
  have u_last: "hs_left s' ! Suc k = hs_left s ! Suc k + d" using u last_row by simp
  have d_first: "- C \<le> d" if ?first
  proof -
    have nx': "hs_column s' \<in> {1..?n}" using nx by simp
    have "hs_right s ! hs_column s' \<le> 0" using vbound nx' by blast
    then have "- C \<le> ?r (Suc k) (hs_column s')"
      using cost_range(1) [OF ok _ nx', of "Suc k"] kn that ulast by (simp add: reduced_def)
    moreover have "hs_minCost s ! hs_column s' = hungarian_infinity" using cand nx that by auto
    moreover have "0 \<le> C" using ok by (simp add: weights_ok_def)
    ultimately show ?thesis
      unfolding d first_col [OF that] m0 by (simp add: hungarian_infinity_def)
  qed
  show "pot_inv ws C k False m (hs_left s') (hs_right s')"
    unfolding pot_inv_def
  proof (intro conjI ballI impI allI)
    show "0 \<le> ?r' i j" if "i \<in> {1..if False then k else Suc k}" "j \<in> {1..?n}" for i j
      using feas' that by simp
    show "?r' (m ! j) j = 0" if j: "j \<in> {1..?n}" "m ! j \<noteq> 0" for j
      using tight j same [OF j] r' [of j "m ! j"] by auto
    show "hs_right s' ! j \<le> 0" if j: "j \<in> {1..?n}" for j
      using bspec [OF vbound j] v [of j] j d0 first_xs by (cases ?first) auto
    show "hs_right s' ! j = 0" if j: "j \<in> {1..?n}" "m ! j = 0" for j
      using bspec [OF vbound j(1)] v [of j] j nz' by auto
    show "- (int k * C) - (if False then 0 else hs_left s' ! Suc k + C) \<le> hs_right s' ! j"
      if j: "j \<in> {1..?n}" for j
    proof (cases ?first)
      case True
      then have "hs_right s' ! j = hs_right s ! j" using v [of j] j first_xs by auto
      with bspec [OF vbound j] True have "- (int k * C) \<le> hs_right s' ! j" by auto
      with u_last ulast d_first True show ?thesis by auto
    next
      case False
      then have "- (int k * C) - (hs_left s ! Suc k + C) \<le> hs_right s ! j"
        using bspec [OF vbound j] by auto
      with u_last v [of j] j d0 [OF False] show ?thesis by auto
    qed
    show "- C \<le> hs_left s' ! i" if i: "i \<in> {1..Suc k}" for i
    proof (cases ?first)
      case True
      then have "(!) m ` set xs = {Suc k}" using first_xs m0 by simp
      with u [of i] bspec [OF ubound i] ulast d_first True show ?thesis by auto
    next
      case False
      with u [of i] bspec [OF ubound i] d0 show ?thesis by (auto split: if_splits)
    qed
    show "hs_left s' ! i = 0" if "Suc k < i \<and> i \<le> ?n" for i
    proof -
      have "i \<notin> (!) m ` set xs" using rows(2) that by fastforce
      with u [of i] uzero that show ?thesis by simp
    qed
  qed (use len lm kn m0 bij in auto)
  show "tree_inv ws m s' (xs @ [hs_column s'])"
    unfolding tree_inv_def butlast_snoc last_snoc
  proof (intro conjI ballI impI allI)
    show "hs_used s' ! j \<longleftrightarrow> j \<in> set xs" if "j \<le> ?n" for j
      using used0 that lens xs(5) set_xs by (auto simp: used nth_list_update)
    show "\<exists>q < p. hs_previous s' ! ((xs @ [hs_column s']) ! p) = (xs @ [hs_column s']) ! q
        \<and> ?r' (m ! ((xs @ [hs_column s']) ! q)) ((xs @ [hs_column s']) ! p) = 0"
      if p: "0 < p \<and> p < length (xs @ [hs_column s'])" for p
    proof (cases "p < length xs")
      case True
      with edge p obtain q where q: "q < p" "hs_previous s ! (xs ! p) = xs ! q" "?r (m ! (xs ! q)) (xs ! p) = 0"
        by blast
      have "xs ! q \<in> set xs" "xs ! p \<in> set xs" using q(1) True by auto
      moreover have "xs ! p \<le> ?n" using \<open>xs ! p \<in> set xs\<close> xs(5) by auto
      ultimately have "?r' (m ! (xs ! q)) (xs ! p) = 0" using r' [of "xs ! p" "m ! (xs ! q)"] q(3) by auto
      with q True pv_old [OF \<open>xs ! p \<in> set xs\<close>] show ?thesis
        by (intro exI [of _ q]) (simp add: nth_append)
    next
      case False
      with p have pl: "p = length xs" by auto
      have "\<exists>t \<in> set xs. hs_previous s' ! hs_column s' = t \<and> d = ?r (m ! t) (hs_column s')"
      proof (cases "?r (m ! hs_column s) (hs_column s') < hs_minCost s ! hs_column s'")
        case True
        with pv [OF nx] d show ?thesis by (auto simp: set_xs)
      next
        case F: False
        show ?thesis
        proof (cases ?first)
          case True
          then have "hs_minCost s ! hs_column s' = hungarian_infinity" using cand nx by auto
          moreover have "?r (m ! hs_column s) (hs_column s') < hungarian_infinity"
            using reduced_bound [OF ok pot, of "m ! hs_column s" "hs_column s'"] rows(2) nx set_xs by auto
          ultimately show ?thesis using F by simp
        next
          case False
          with cand nx obtain t where "t \<in> set (butlast xs)" "hs_previous s ! hs_column s' = t"
            "hs_minCost s ! hs_column s' = ?r (m ! t) (hs_column s')"
            by blast
          with pv [OF nx] F d show ?thesis by (auto simp: set_xs min_def)
        qed
      qed
      then obtain t where t: "t \<in> set xs" "hs_previous s' ! hs_column s' = t" "d = ?r (m ! t) (hs_column s')"
        by blast
      then obtain q where q: "q < length xs" "xs ! q = t" by (auto simp: in_set_conv_nth)
      have "?r' (m ! t) (hs_column s') = 0"
        using r' [of "hs_column s'" "m ! t"] t(1,3) nx by auto
      with t q pl show ?thesis by (intro exI [of _ q]) (simp add: nth_append)
    qed
    show "hs_minCost s' ! j \<le> ?r' (m ! t) j"
      if j: "j \<in> {1..?n} - set (xs @ [hs_column s'])" and t: "t \<in> set xs" for j t
    proof -
      have j': "j \<in> {1..?n} - set xs" using j by auto
      have "min (hs_minCost s ! j) (?r (m ! hs_column s) j) \<le> ?r (m ! t) j"
        using cand1 [OF j', of t] t by (cases "t = hs_column s") (auto simp: set_xs)
      with mc [OF j'] r' [of j "m ! t"] t j' show ?thesis by auto
    qed
    show "xs = [] \<and> hs_minCost s' ! j = hungarian_infinity
        \<or> (\<exists>t \<in> set xs. hs_previous s' ! j = t \<and> hs_minCost s' ! j = ?r' (m ! t) j)"
      if j: "j \<in> {1..?n} - set (xs @ [hs_column s'])" for j
    proof (rule disjI2)
      have j': "j \<in> {1..?n} - set xs" using j by auto
      have "\<exists>t \<in> set xs. hs_previous s' ! j = t \<and> min (hs_minCost s ! j) (?r (m ! hs_column s) j) = ?r (m ! t) j"
      proof (cases "?r (m ! hs_column s) j < hs_minCost s ! j")
        case True
        with pv [OF j'] show ?thesis by (auto simp: set_xs)
      next
        case F: False
        have "?r (m ! hs_column s) j < hungarian_infinity"
          using reduced_bound [OF ok pot, of "m ! hs_column s" j] rows(2) j' set_xs by auto
        with F cand j' obtain t where "t \<in> set (butlast xs)" "hs_previous s ! j = t"
            "hs_minCost s ! j = ?r (m ! t) j"
          by force
        with pv [OF j'] F show ?thesis by (auto simp: set_xs min_def)
      qed
      then obtain t where t: "t \<in> set xs" "hs_previous s' ! j = t"
        "min (hs_minCost s ! j) (?r (m ! hs_column s) j) = ?r (m ! t) j"
        by blast
      have "hs_minCost s' ! j = ?r' (m ! t) j"
        using mc [OF j'] r' [of j "m ! t"] t j' by auto
      with t show "\<exists>t \<in> set xs. hs_previous s' ! j = t \<and> hs_minCost s' ! j = ?r' (m ! t) j" by blast
    qed
  qed (use len lens used nx xs nz' in auto)
qed

text \<open>The search ends at a free column, within its fuel.\<close>

lemma search_ends:
  assumes ok: "weights_ok ws C"
  shows "pot_inv ws C k (butlast xs = []) m (hs_left s) (hs_right s) \<Longrightarrow> tree_inv ws m s xs
    \<Longrightarrow> m ! hs_column s \<noteq> 0 \<Longrightarrow> length ws + 2 \<le> fuel + length xs
    \<Longrightarrow> \<exists>s' xs'. hung_search fuel ws m s = Some s' \<and> m ! hs_column s' = 0 \<and> 2 \<le> length xs'
        \<and> pot_inv ws C k False m (hs_left s') (hs_right s') \<and> tree_inv ws m s' xs'"
proof (induction fuel arbitrary: s xs)
  case 0
  then have "distinct xs" "set xs \<subseteq> {0..length ws}" by (simp_all add: tree_inv_def)
  then have "length xs \<le> card {0..length ws}"
    by (metis card_mono distinct_card finite_atLeastAtMost)
  with 0 show ?case by simp
next
  case (Suc fuel)
  let ?s = "hung_round ws m s"
  note inv = round_inv [OF ok Suc.prems(1-3)]
  have xs: "xs \<noteq> []" using Suc.prems(2) by (simp add: tree_inv_def)
  show ?case
  proof (cases "m ! hs_column ?s = 0")
    case True
    then have "hung_search (Suc fuel) ws m s = Some ?s" by simp
    moreover have "2 \<le> length (xs @ [hs_column ?s])" using xs by (cases xs) simp_all
    ultimately show ?thesis using True inv by blast
  next
    case False
    have "pot_inv ws C k (butlast (xs @ [hs_column ?s]) = []) m (hs_left ?s) (hs_right ?s)"
      using inv(1) xs by simp
    from Suc.IH [OF this inv(2) False] Suc.prems(4) show ?thesis using False by simp
  qed
qed

section \<open>The augmenting path\<close>

definition aug_inv :: "int list list \<Rightarrow> nat \<Rightarrow> nat list \<Rightarrow> int list \<Rightarrow> int list \<Rightarrow> nat list \<Rightarrow> nat list \<Rightarrow> nat \<Rightarrow> bool" where
  "aug_inv ws k m u v xs m1 p \<longleftrightarrow> length m1 = Suc (length ws)
     \<and> (\<forall>q < p. m1 ! (xs ! q) = m ! (xs ! q))
     \<and> bij_betw ((!) m1) ({j \<in> {0..length ws}. m1 ! j \<noteq> 0} - {xs ! p}) {1..Suc k}
     \<and> (\<forall>j \<in> {1..length ws} - {xs ! p}. m1 ! j \<noteq> 0 \<longrightarrow> reduced ws u v (m1 ! j) j = 0)
     \<and> (\<forall>j \<in> {1..length ws} - {xs ! p}. m1 ! j = 0 \<longrightarrow> m ! j = 0)"

lemma bij_betw_remove1:
  assumes "bij_betw f A B" "a \<in> A"
  shows "bij_betw f (A - {a}) (B - {f a})"
proof (rule bij_betw_imageI)
  have inj: "inj_on f A" and im: "f ` A = B" using assms(1) by (auto simp: bij_betw_def)
  show "inj_on f (A - {a})" by (rule inj_on_subset [OF inj]) auto
  have "f ` (A - {a}) = f ` A - f ` {a}"
    by (rule inj_on_image_set_diff [OF inj]) (use assms(2) in auto)
  then show "f ` (A - {a}) = B - {f a}" using im by simp
qed

lemma augment_step:
  assumes tree: "tree_inv ws m s xs" and aug: "aug_inv ws k m (hs_left s) (hs_right s) xs m1 p"
    and p: "0 < p" "p < length xs" and q: "q < p" "hs_previous s ! (xs ! p) = xs ! q"
    and edge: "reduced ws (hs_left s) (hs_right s) (m ! (xs ! q)) (xs ! p) = 0"
  shows "aug_inv ws k m (hs_left s) (hs_right s) xs (m1[xs ! p := m1 ! (xs ! q)]) q"
proof -
  let ?n = "length ws" and ?a = "xs ! p" and ?b = "xs ! q"
  let ?m2 = "m1[?a := m1 ! ?b]"
  have xs: "distinct xs" "set xs \<subseteq> {0..?n}" and nz: "\<forall>j \<in> set (butlast xs). m ! j \<noteq> 0"
    using tree by (simp_all add: tree_inv_def)
  have len: "length m1 = Suc ?n" and keep: "\<forall>q < p. m1 ! (xs ! q) = m ! (xs ! q)"
    and bij: "bij_betw ((!) m1) ({j \<in> {0..?n}. m1 ! j \<noteq> 0} - {?a}) {1..Suc k}"
    using aug by (simp_all add: aug_inv_def)
  have ab: "?a \<noteq> ?b" "?a \<le> ?n" "?b \<le> ?n"
  proof -
    show "?a \<noteq> ?b" using xs(1) p q by (simp add: nth_eq_iff_index_eq)
    have "?a \<in> set xs" "?b \<in> set xs" using p q by simp_all
    then show "?a \<le> ?n" "?b \<le> ?n" using xs(2) by auto
  qed
  have "?b = butlast xs ! q" "q < length (butlast xs)" using p q by (simp_all add: nth_butlast)
  then have "?b \<in> set (butlast xs)" by simp
  with nz have b0: "m ! ?b \<noteq> 0" by blast
  have b1: "m1 ! ?b = m ! ?b" using keep q by simp
  have other: "?m2 ! j = m1 ! j" if "j \<noteq> ?a" for j using that by simp
  have here: "?m2 ! ?a = m ! ?b" using len ab b1 by simp
  let ?D = "{j \<in> {0..?n}. m1 ! j \<noteq> 0} - {?a}"
  have bD: "?b \<in> ?D" using ab b0 b1 by auto
  have D2: "{j \<in> {0..?n}. ?m2 ! j \<noteq> 0} - {?b} = insert ?a (?D - {?b})"
    using here other b0 ab by (auto split: if_splits)
  have "bij_betw ((!) m1) (?D - {?b}) ({1..Suc k} - {m1 ! ?b})"
    by (rule bij_betw_remove1 [OF bij bD])
  then have "bij_betw ((!) ?m2) (?D - {?b}) ({1..Suc k} - {m1 ! ?b})"
    by (rule bij_betw_cong [THEN iffD1, rotated]) (use other in auto)
  then have "bij_betw ((!) ?m2) ((?D - {?b}) \<union> {?a}) (({1..Suc k} - {m1 ! ?b}) \<union> {?m2 ! ?a})"
    by (rule notIn_Un_bij_betw [rotated 2]) (use here b1 in auto)
  moreover have "m1 ! ?b \<in> {1..Suc k}" using bij_betwE [OF bij] bD by blast
  ultimately have bij2: "bij_betw ((!) ?m2) (insert ?a (?D - {?b})) {1..Suc k}"
    using here b1 by (simp add: insert_absorb)
  show ?thesis
    unfolding aug_inv_def D2
  proof (intro conjI ballI impI allI)
    show "length ?m2 = Suc ?n" using len by simp
    show "?m2 ! (xs ! r) = m ! (xs ! r)" if "r < q" for r
    proof -
      have "xs ! r \<noteq> ?a" using xs(1) p q that by (simp add: nth_eq_iff_index_eq)
      with keep that q show ?thesis by simp
    qed
    show "bij_betw ((!) ?m2) (insert ?a (?D - {?b})) {1..Suc k}" by (rule bij2)
    show "reduced ws (hs_left s) (hs_right s) (?m2 ! j) j = 0"
      if "j \<in> {1..?n} - {?b}" "?m2 ! j \<noteq> 0" for j
    proof (cases "j = ?a")
      case True
      with here edge show ?thesis by simp
    next
      case False
      with aug that other [OF False] show ?thesis by (simp add: aug_inv_def)
    qed
    show "m ! j = 0" if "j \<in> {1..?n} - {?b}" "?m2 ! j = 0" for j
    proof (cases "j = ?a")
      case True
      with here b0 that show ?thesis by simp
    next
      case False
      with aug that other [OF False] show ?thesis by (simp add: aug_inv_def)
    qed
  qed
qed

lemma augment_ends:
  assumes tree: "tree_inv ws m s xs"
  shows "aug_inv ws k m (hs_left s) (hs_right s) xs m1 p \<Longrightarrow> 0 < p \<Longrightarrow> p < length xs \<Longrightarrow> p \<le> fuel
    \<Longrightarrow> \<exists>m'. hung_augment fuel (hs_previous s) m1 (xs ! p) = Some m'
        \<and> aug_inv ws k m (hs_left s) (hs_right s) xs m' 0"
proof (induction fuel arbitrary: m1 p)
  case 0
  then show ?case by simp
next
  case (Suc fuel)
  obtain q where q: "q < p" "hs_previous s ! (xs ! p) = xs ! q"
    "reduced ws (hs_left s) (hs_right s) (m ! (xs ! q)) (xs ! p) = 0"
    using tree Suc.prems(2,3) by (auto simp: tree_inv_def)
  have xs: "distinct xs" "xs \<noteq> []" "hd xs = 0" using tree by (simp_all add: tree_inv_def)
  let ?m2 = "m1[xs ! p := m1 ! (xs ! q)]"
  have inv: "aug_inv ws k m (hs_left s) (hs_right s) xs ?m2 q"
    by (rule augment_step [OF tree Suc.prems(1-3) q])
  have zero: "xs ! q = 0 \<longleftrightarrow> q = 0"
  proof -
    have "xs ! 0 = 0" using xs by (simp add: hd_conv_nth)
    then show ?thesis using xs(1,2) q(1) Suc.prems(3) nth_eq_iff_index_eq [of xs q 0] by auto
  qed
  show ?case
  proof (cases "q = 0")
    case True
    with inv q zero show ?thesis by (simp add: Let_def)
  next
    case False
    with Suc.IH [OF inv] q zero Suc.prems(3,4) show ?thesis by (simp add: Let_def)
  qed
qed

section \<open>The rows\<close>

text \<open>After the rows \<open>1..k\<close>.\<close>

definition rows_inv :: "int list list \<Rightarrow> int \<Rightarrow> nat \<Rightarrow> hstate \<Rightarrow> bool" where
  "rows_inv ws C k h \<longleftrightarrow> (let u = hu_left h; v = hu_right h; m = hu_matched h in
     length u = Suc (length ws) \<and> length v = Suc (length ws) \<and> length m = Suc (length ws)
     \<and> length (hu_previous h) = Suc (length ws)
     \<and> bij_betw ((!) m) {j \<in> {1..length ws}. m ! j \<noteq> 0} {1..k}
     \<and> (\<forall>i \<in> {1..k}. \<forall>j \<in> {1..length ws}. 0 \<le> reduced ws u v i j)
     \<and> (\<forall>j \<in> {1..length ws}. m ! j \<noteq> 0 \<longrightarrow> reduced ws u v (m ! j) j = 0)
     \<and> (\<forall>j \<in> {1..length ws}. v ! j \<le> 0 \<and> (m ! j = 0 \<longrightarrow> v ! j = 0) \<and> - (int k * C) \<le> v ! j)
     \<and> (\<forall>i \<in> {1..k}. - C \<le> u ! i)
     \<and> (\<forall>i. k < i \<and> i \<le> length ws \<longrightarrow> u ! i = 0))"

lemma rows_start: "weights_ok ws C \<Longrightarrow> rows_inv ws C 0 (hung_start (length ws))"
proof -
  have none: "{j \<in> {1..length ws}. replicate (Suc (length ws)) (0 :: nat) ! j \<noteq> 0} = {}"
    by (auto simp: nth_replicate less_Suc_eq_le simp del: replicate.simps)
  have "bij_betw ((!) (replicate (Suc (length ws)) (0 :: nat)))
      {j \<in> {1..length ws}. replicate (Suc (length ws)) (0 :: nat) ! j \<noteq> 0} {1..0}"
    unfolding none by (simp add: bij_betw_def)
  then show "weights_ok ws C \<Longrightarrow> ?thesis"
    unfolding rows_inv_def hung_start_def Let_def hstate.select_convs
    by (intro conjI) (simp_all add: nth_replicate less_Suc_eq_le del: replicate.simps)
qed

lemma begin_inv:
  assumes ok: "weights_ok ws C" and inv: "rows_inv ws C k h" and k: "k < length ws"
  defines "m \<equiv> (hu_matched h)[0 := Suc k]" and "s \<equiv> hung_begin (length ws) h"
  shows "pot_inv ws C k (butlast [0 :: nat] = []) m (hs_left s) (hs_right s)" "tree_inv ws m s [0]"
    "m ! hs_column s \<noteq> 0"
proof -
  have C: "0 \<le> C" using ok by (simp add: weights_ok_def)
  have lm: "length (hu_matched h) = Suc (length ws)" using inv by (simp add: rows_inv_def Let_def)
  have m0: "m ! 0 = Suc k" using lm by (simp add: m_def)
  have mj: "m ! j = hu_matched h ! j" if "j \<in> {1..length ws}" for j using that by (simp add: m_def)
  have dom: "{j \<in> {1..length ws}. m ! j \<noteq> 0} = {j \<in> {1..length ws}. hu_matched h ! j \<noteq> 0}"
    using mj by auto
  have bij: "bij_betw ((!) m) {j \<in> {1..length ws}. m ! j \<noteq> 0} {1..k}"
    unfolding dom by (rule bij_betw_cong [THEN iffD1, of _ "(!) (hu_matched h)"])
      (use mj inv in \<open>auto simp: rows_inv_def Let_def\<close>)
  show "pot_inv ws C k (butlast [0 :: nat] = []) m (hs_left s) (hs_right s)"
    unfolding pot_inv_def
  proof (intro conjI ballI impI allI)
    show "- C \<le> hs_left s ! i" if "i \<in> {1..Suc k}" for i
    proof (cases "i = Suc k")
      case True
      then show ?thesis using inv k C by (simp add: rows_inv_def Let_def s_def hung_begin_def)
    next
      case False
      then show ?thesis using inv that by (auto simp: rows_inv_def Let_def s_def hung_begin_def)
    qed
    show "0 \<le> reduced ws (hs_left s) (hs_right s) i j"
      if "i \<in> {1..if butlast [0 :: nat] = [] then k else Suc k}" "j \<in> {1..length ws}" for i j
      using inv that by (simp add: rows_inv_def Let_def s_def hung_begin_def)
    show "reduced ws (hs_left s) (hs_right s) (m ! j) j = 0" if "j \<in> {1..length ws}" "m ! j \<noteq> 0" for j
      using inv that mj [OF that(1)] by (auto simp: rows_inv_def Let_def s_def hung_begin_def)
    show "hs_right s ! j \<le> 0" if "j \<in> {1..length ws}" for j
      using inv that by (simp add: rows_inv_def Let_def s_def hung_begin_def)
    show "hs_right s ! j = 0" if "j \<in> {1..length ws}" "m ! j = 0" for j
      using inv that mj [OF that(1)] by (simp add: rows_inv_def Let_def s_def hung_begin_def)
    show "- (int k * C) - (if butlast [0 :: nat] = [] then 0 else hs_left s ! Suc k + C) \<le> hs_right s ! j"
      if "j \<in> {1..length ws}" for j
      using inv that by (simp add: rows_inv_def Let_def s_def hung_begin_def)
    show "hs_left s ! i = 0" if "Suc k < i \<and> i \<le> length ws" for i
      using inv that by (simp add: rows_inv_def Let_def s_def hung_begin_def)
    show "hs_left s ! Suc k = 0" using inv k by (simp add: rows_inv_def Let_def s_def hung_begin_def)
  qed (use inv k m0 bij in \<open>auto simp: rows_inv_def Let_def s_def hung_begin_def m_def\<close>)
  show "tree_inv ws m s [0]"
    using inv by (auto simp: tree_inv_def rows_inv_def Let_def s_def hung_begin_def nth_Cons'
      simp del: replicate.simps)
  show "m ! hs_column s \<noteq> 0" using m0 by (simp add: s_def hung_begin_def)
qed

lemma row_ends:
  assumes ok: "weights_ok ws C" and inv: "rows_inv ws C k h" and k: "k < length ws"
  shows "\<exists>h'. hung_row ws (Suc k) h = Some h' \<and> rows_inv ws C (Suc k) h'"
proof -
  let ?n = "length ws"
  define m where "m = (hu_matched h)[0 := Suc k]"
  define s0 where "s0 = hung_begin ?n h"
  note start = begin_inv [OF ok inv k, folded m_def s0_def]
  obtain s xs where s: "hung_search (Suc ?n) ws m s0 = Some s" "m ! hs_column s = 0" "2 \<le> length xs"
    and pot: "pot_inv ws C k False m (hs_left s) (hs_right s)" and tree: "tree_inv ws m s xs"
    using search_ends [OF ok start, of "Suc ?n"] by auto
  define p where "p = length xs - 1"
  have xs: "distinct xs" "xs \<noteq> []" "hd xs = 0" "last xs = hs_column s" "set xs \<subseteq> {0..?n}"
    and lp: "length (hs_previous s) = Suc ?n"
    using tree by (simp_all add: tree_inv_def)
  have p: "0 < p" "p < length xs" "xs ! p = hs_column s"
    using s(3) xs(2,4) by (simp_all add: p_def last_conv_nth)
  have "length xs \<le> card {0..?n}"
    using xs(1,5) by (metis card_mono distinct_card finite_atLeastAtMost)
  then have fuel: "p \<le> Suc ?n" by (simp add: p_def)
  have lm: "length m = Suc ?n" and m0: "m ! 0 = Suc k"
    and bij: "bij_betw ((!) m) {j \<in> {1..?n}. m ! j \<noteq> 0} {1..k}"
    using pot by (simp_all add: pot_inv_def)
  have dom: "{j \<in> {0..?n}. m ! j \<noteq> 0} - {xs ! p} = {j \<in> {1..?n}. m ! j \<noteq> 0} \<union> {0}"
    using s(2) m0 p(3) by (auto simp: Suc_le_eq)
  have bij0: "bij_betw ((!) m) ({j \<in> {1..?n}. m ! j \<noteq> 0} \<union> {0}) ({1..k} \<union> {m ! 0})"
    by (rule notIn_Un_bij_betw [OF _ _ bij]) (auto simp: m0)
  have "{1..k} \<union> {m ! 0} = {1..Suc k}" by (auto simp: m0)
  with bij0 have aug: "aug_inv ws k m (hs_left s) (hs_right s) xs m p"
    unfolding aug_inv_def dom using lm pot by (auto simp: pot_inv_def)
  obtain m' where m': "hung_augment (Suc ?n) (hs_previous s) m (xs ! p) = Some m'"
    and inv': "aug_inv ws k m (hs_left s) (hs_right s) xs m' 0"
    using augment_ends [OF tree aug p(1,2) fuel] by blast
  have x0: "xs ! 0 = 0" using xs(2,3) by (simp add: hd_conv_nth)
  have dom': "{j \<in> {0..?n}. m' ! j \<noteq> 0} - {xs ! 0} = {j \<in> {1..?n}. m' ! j \<noteq> 0}"
    by (auto simp: x0 Suc_le_eq)
  have bij': "bij_betw ((!) m') {j \<in> {1..?n}. m' ! j \<noteq> 0} {1..Suc k}"
    using inv' unfolding aug_inv_def dom' by blast
  define h' where "h' = \<lparr>hu_left = hs_left s, hu_right = hs_right s, hu_matched = m',
    hu_previous = hs_previous s\<rparr>"
  have "hung_row ws (Suc k) h = Some h'"
    using s(1) m' p(3) by (simp add: hung_row_def Let_def m_def [symmetric] s0_def [symmetric] h'_def
      del: hung_search.simps hung_augment.simps)
  moreover have "rows_inv ws C (Suc k) h'"
    unfolding rows_inv_def h'_def Let_def
  proof (simp only: hstate.select_convs, intro conjI ballI impI allI)
    have le: "hs_left s ! Suc k \<le> 0" by (rule last_row_potential [OF ok pot])
    show "- (int (Suc k) * C) \<le> hs_right s ! j" if "j \<in> {1..?n}" for j
    proof -
      have "- (int k * C) - (hs_left s ! Suc k + C) \<le> hs_right s ! j"
        using pot that by (auto simp: pot_inv_def)
      with le show ?thesis by (simp add: algebra_simps)
    qed
    show "hs_right s ! j = 0" if j: "j \<in> {1..?n}" "m' ! j = 0" for j
    proof -
      have "m ! j = 0" using inv' j by (auto simp: aug_inv_def x0)
      then show ?thesis using pot j by (simp add: pot_inv_def)
    qed
    show "reduced ws (hs_left s) (hs_right s) (m' ! j) j = 0" if "j \<in> {1..?n}" "m' ! j \<noteq> 0" for j
      using inv' that by (simp add: aug_inv_def x0)
    show "0 \<le> reduced ws (hs_left s) (hs_right s) i j" if "i \<in> {1..Suc k}" "j \<in> {1..?n}" for i j
      using pot that by (simp add: pot_inv_def)
    show "hs_right s ! j \<le> 0" if "j \<in> {1..?n}" for j using pot that by (simp add: pot_inv_def)
    show "- C \<le> hs_left s ! i" if "i \<in> {1..Suc k}" for i using pot that by (simp add: pot_inv_def)
    show "hs_left s ! i = 0" if "Suc k < i \<and> i \<le> ?n" for i using pot that by (simp add: pot_inv_def)
    show "bij_betw ((!) m') {j \<in> {1..?n}. m' ! j \<noteq> 0} {1..Suc k}" by (rule bij')
    show "length (hs_left s) = Suc ?n" "length (hs_right s) = Suc ?n" using pot by (simp_all add: pot_inv_def)
    show "length m' = Suc ?n" using inv' by (simp add: aug_inv_def)
  qed (rule lp)
  ultimately show ?thesis by blast
qed

lemma rows_end:
  assumes ok: "weights_ok ws C"
  shows "rows_inv ws C k h \<Longrightarrow> k \<le> length ws
    \<Longrightarrow> \<exists>h'. hung_rows ws [Suc k..<Suc (length ws)] h = Some h' \<and> rows_inv ws C (length ws) h'"
proof (induction "length ws - k" arbitrary: k h)
  case 0
  then have "k = length ws" by simp
  with 0 show ?case by simp
next
  case (Suc d)
  then have k: "k < length ws" and d: "d = length ws - Suc k" by simp_all
  obtain h1 where h1: "hung_row ws (Suc k) h = Some h1" "rows_inv ws C (Suc k) h1"
    using row_ends [OF ok Suc.prems(1) k] by blast
  obtain h' where "hung_rows ws [Suc (Suc k)..<Suc (length ws)] h1 = Some h'"
    "rows_inv ws C (length ws) h'"
    using Suc.hyps(1) [of "Suc k" h1] d h1(2) k by (auto simp del: upt_Suc)
  moreover have "[Suc k..<Suc (length ws)] = Suc k # [Suc (Suc k)..<Suc (length ws)]"
    using k by (simp add: upt_conv_Cons)
  ultimately show ?case using h1(1) by (simp del: upt_Suc)
qed

section \<open>The assignment\<close>

text \<open>The total weight of an assignment, and the assignments that are permutations.\<close>

definition assignment_weight :: "int list list \<Rightarrow> nat list \<Rightarrow> int" where
  "assignment_weight ws a = (\<Sum>i < length ws. ws ! i ! (a ! i))"

definition permutation_of :: "nat \<Rightarrow> nat list \<Rightarrow> bool" where
  "permutation_of n a \<longleftrightarrow> length a = n \<and> distinct a \<and> list_all (\<lambda>j. j < n) a"

lemma permutation_bij: "permutation_of n a \<Longrightarrow> bij_betw ((!) a) {..<n} {..<n}"
proof -
  assume a: "permutation_of n a"
  then have "set a \<subseteq> {..<n}" "card (set a) = n"
    by (auto simp: permutation_of_def list_all_iff distinct_card)
  then have "set a = {..<n}" by (simp add: card_subset_eq)
  with a show ?thesis by (intro bij_betw_nth) (auto simp: permutation_of_def)
qed

lemma read_fold:
  assumes "inj_on f (set xs)" "\<And>x. x \<in> set xs \<Longrightarrow> f x < length a"
  shows "length (fold (\<lambda>x a. a[f x := g x]) xs a) = length a"
    "x \<in> set xs \<Longrightarrow> fold (\<lambda>x a. a[f x := g x]) xs a ! f x = g x"
proof -
  have "length (fold (\<lambda>x a. a[f x := g x]) xs a) = length a
      \<and> (\<forall>x \<in> set xs. fold (\<lambda>x a. a[f x := g x]) xs a ! f x = g x)"
    if "inj_on f (set xs)" "\<And>x. x \<in> set xs \<Longrightarrow> f x < length a" for xs a
    using that
  proof (induction xs rule: rev_induct)
    case (snoc y ys)
    then have "inj_on f (set ys)" "f y < length a" by (auto simp: inj_on_def)
    moreover have "f x \<noteq> f y" if "x \<in> set ys" "x \<noteq> y" for x
      using snoc.prems(1) that by (auto simp: inj_on_def)
    ultimately show ?case using snoc by (auto simp: nth_list_update)
  qed simp
  with assms show "length (fold (\<lambda>x a. a[f x := g x]) xs a) = length a"
    "x \<in> set xs \<Longrightarrow> fold (\<lambda>x a. a[f x := g x]) xs a ! f x = g x"
    by blast+
qed

text \<open>The potentials bound the weight of every permutation, and the result attains the bound.\<close>

lemma dual_bound:
  assumes inv: "rows_inv ws C (length ws) h" and b: "permutation_of (length ws) b"
  shows "assignment_weight ws b
    \<le> - (\<Sum>i < length ws. hu_left h ! Suc i) - (\<Sum>j < length ws. hu_right h ! Suc j)"
proof -
  let ?n = "length ws"
  have bij: "bij_betw ((!) b) {..<?n} {..<?n}" by (rule permutation_bij [OF b])
  have "ws ! i ! (b ! i) \<le> - hu_left h ! Suc i - hu_right h ! Suc (b ! i)" if "i < ?n" for i
  proof -
    have "b ! i < ?n" using bij_betwE [OF bij] that by auto
    then have "0 \<le> reduced ws (hu_left h) (hu_right h) (Suc i) (Suc (b ! i))"
      using inv that by (auto simp: rows_inv_def Let_def)
    then show ?thesis by (simp add: reduced_def cost_of_def)
  qed
  then have "assignment_weight ws b \<le> (\<Sum>i < ?n. - hu_left h ! Suc i - hu_right h ! Suc (b ! i))"
    unfolding assignment_weight_def by (intro sum_mono) simp
  also have "\<dots> = - (\<Sum>i < ?n. hu_left h ! Suc i) - (\<Sum>i < ?n. hu_right h ! Suc (b ! i))"
    by (simp add: sum_subtractf sum_negf)
  also have "(\<Sum>i < ?n. hu_right h ! Suc (b ! i)) = (\<Sum>j < ?n. hu_right h ! Suc j)"
    by (rule sum.reindex_bij_betw [OF bij, of "\<lambda>j. hu_right h ! Suc j"])
  finally show ?thesis .
qed

lemma read_result:
  assumes inv: "rows_inv ws C (length ws) h"
  defines "a \<equiv> read_assignment (length ws) (hu_matched h)"
  shows "permutation_of (length ws) a"
    "assignment_weight ws a
      = - (\<Sum>i < length ws. hu_left h ! Suc i) - (\<Sum>j < length ws. hu_right h ! Suc j)"
proof -
  let ?n = "length ws" and ?m = "hu_matched h"
  have bij: "bij_betw ((!) ?m) {j \<in> {1..?n}. ?m ! j \<noteq> 0} {1..?n}"
    using inv by (simp add: rows_inv_def Let_def)
  have "card {j \<in> {1..?n}. ?m ! j \<noteq> 0} = ?n" using bij_betw_same_card [OF bij] by simp
  then have all: "{j \<in> {1..?n}. ?m ! j \<noteq> 0} = {1..?n}" by (intro card_subset_eq) auto
  have bij: "bij_betw ((!) ?m) {1..?n} {1..?n}" using bij unfolding all .
  have range: "?m ! j \<in> {1..?n}" if "j \<in> {1..?n}" for j using bij_betwE [OF bij] that by blast
  define f where "f j = ?m ! j - 1" for j
  have inj: "inj_on f (set [1..<Suc ?n])"
  proof (rule inj_onI)
    fix i j assume ij: "i \<in> set [1..<Suc ?n]" "j \<in> set [1..<Suc ?n]" "f i = f j"
    then have "i \<in> {1..?n}" "j \<in> {1..?n}" by (auto simp del: upt_Suc)
    moreover from this ij(3) range [of i] range [of j] have "?m ! i = ?m ! j" by (auto simp: f_def)
    ultimately show "i = j" using bij_betw_imp_inj_on [OF bij] by (auto dest: inj_onD)
  qed
  have bound: "f x < length (replicate ?n (0 :: nat))" if "x \<in> set [1..<Suc ?n]" for x
    using that range [of x] by (auto simp: f_def simp del: upt_Suc)
  note rf = read_fold [OF inj bound, where g = "\<lambda>c. c - 1"]
  have a: "a = fold (\<lambda>x a. a[f x := x - 1]) [1..<Suc ?n] (replicate ?n 0)"
    by (simp add: a_def read_assignment_def f_def del: upt_Suc)
  have len: "length a = ?n" unfolding a using rf(1) by simp
  have at: "a ! (?m ! j - 1) = j - 1" if "j \<in> {1..?n}" for j
    using rf(2) [of j] that unfolding a f_def by (auto simp del: upt_Suc)
  have col: "\<exists>j \<in> {1..?n}. ?m ! j = Suc i \<and> a ! i = j - 1" if "i < ?n" for i
  proof -
    have "Suc i \<in> (!) ?m ` {1..?n}" using bij_betw_imp_surj_on [OF bij] that by auto
    then obtain j where j: "j \<in> {1..?n}" "?m ! j = Suc i" by auto
    with at [of j] show ?thesis by auto
  qed
  have "distinct a"
    unfolding distinct_conv_nth len
  proof (intro allI impI)
    fix i j assume ij: "i < ?n" "j < ?n" "i \<noteq> j"
    obtain c d where "c \<in> {1..?n}" "?m ! c = Suc i" "a ! i = c - 1" "d \<in> {1..?n}" "?m ! d = Suc j" "a ! j = d - 1"
      using col [OF ij(1)] col [OF ij(2)] by blast
    with ij(3) show "a ! i \<noteq> a ! j" by (cases "c = d") auto
  qed
  moreover have "a ! i < ?n" if "i < ?n" for i using col [OF that] by auto
  ultimately show perm: "permutation_of ?n a" using len by (simp add: permutation_of_def list_all_length)
  have bij_a: "bij_betw ((!) a) {..<?n} {..<?n}" by (rule permutation_bij [OF perm])
  have "ws ! i ! (a ! i) = - hu_left h ! Suc i - hu_right h ! Suc (a ! i)" if i: "i < ?n" for i
  proof -
    obtain j where j: "j \<in> {1..?n}" "?m ! j = Suc i" "a ! i = j - 1" using col [OF i] by blast
    moreover have "\<forall>j \<in> {1..?n}. ?m ! j \<noteq> 0 \<longrightarrow> reduced ws (hu_left h) (hu_right h) (?m ! j) j = 0"
      using inv by (simp add: rows_inv_def Let_def)
    ultimately have "?m ! j \<noteq> 0 \<longrightarrow> reduced ws (hu_left h) (hu_right h) (?m ! j) j = 0"
      by blast
    then have "reduced ws (hu_left h) (hu_right h) (?m ! j) j = 0" by (simp add: j(2))
    moreover have "Suc (a ! i) = j" using j by auto
    ultimately show ?thesis using j by (simp add: reduced_def cost_of_def)
  qed
  then have "assignment_weight ws a = (\<Sum>i < ?n. - hu_left h ! Suc i - hu_right h ! Suc (a ! i))"
    unfolding assignment_weight_def by (intro sum.cong) auto
  also have "\<dots> = - (\<Sum>i < ?n. hu_left h ! Suc i) - (\<Sum>i < ?n. hu_right h ! Suc (a ! i))"
    by (simp add: sum_subtractf sum_negf)
  also have "(\<Sum>i < ?n. hu_right h ! Suc (a ! i)) = (\<Sum>j < ?n. hu_right h ! Suc j)"
    by (rule sum.reindex_bij_betw [OF bij_a, of "\<lambda>j. hu_right h ! Suc j"])
  finally show "assignment_weight ws a
      = - (\<Sum>i < ?n. hu_left h ! Suc i) - (\<Sum>j < ?n. hu_right h ! Suc j)" .
qed

lemma hungarian_optimal:
  assumes "weights_ok ws C"
  obtains a where "maximumWeightAssignment ws = Some a" "permutation_of (length ws) a"
    and "\<And>b. permutation_of (length ws) b \<Longrightarrow> assignment_weight ws b \<le> assignment_weight ws a"
proof -
  obtain h where h: "hung_rows ws [1..<Suc (length ws)] (hung_start (length ws)) = Some h"
    "rows_inv ws C (length ws) h"
    using rows_end [OF assms rows_start [OF assms]] by auto
  have res: "maximumWeightAssignment ws = Some (read_assignment (length ws) (hu_matched h))"
    using h(1) by (simp add: maximumWeightAssignment_def Let_def del: upt_Suc)
  show thesis
    by (rule that [OF res read_result(1) [OF h(2)]])
      (simp add: dual_bound [OF h(2)] read_result(2) [OF h(2)])
qed

end
