(* ===== verification/Matching.thy ===== *)
theory Matching
  imports Hungarian
begin

text \<open>
  What a solver of \<open>Assignment\<close> promises: a valid matching with the greatest number of pairs.
  \<open>pair_solver\<close> is that interface, with what its clients need; the exact solver meets it, and
  its matching also has the greatest total score.
\<close>

section \<open>Matchings\<close>

definition table_ok :: "nat \<Rightarrow> nat \<Rightarrow> edges \<Rightarrow> bool" where
  "table_ok lc rc es \<longleftrightarrow> length es = lc \<and> list_all (\<lambda>row. length row = rc) es"

definition valid_matching :: "nat \<Rightarrow> nat \<Rightarrow> edges \<Rightarrow> matching \<Rightarrow> bool" where
  "valid_matching lc rc es m \<longleftrightarrow> length m = lc
     \<and> (\<forall>i < lc. case m ! i of None \<Rightarrow> True
          | Some r \<Rightarrow> r < rc \<and> es ! i ! r \<noteq> None \<and> (\<forall>j < i. m ! j \<noteq> Some r))"

definition matching_size :: "matching \<Rightarrow> nat" where
  "matching_size m = length (filter (\<lambda>r. r \<noteq> None) m)"

definition pair_detail :: "edges \<Rightarrow> matching \<Rightarrow> nat \<Rightarrow> int" where
  "pair_detail es m i = (case m ! i of None \<Rightarrow> 0 | Some r \<Rightarrow> the (es ! i ! r))"

definition matching_score :: "edges \<Rightarrow> matching \<Rightarrow> int" where
  "matching_score es m = (\<Sum>i < length m. pair_detail es m i)"

lemma valid_length: "valid_matching lc rc es m \<Longrightarrow> length m = lc"
  by (simp add: valid_matching_def)

lemma valid_pair:
  "valid_matching lc rc es m \<Longrightarrow> i < lc \<Longrightarrow> m ! i = Some r \<Longrightarrow> r < rc \<and> es ! i ! r \<noteq> None"
  by (auto simp: valid_matching_def dest!: spec [of _ i])

lemma valid_inj:
  assumes "valid_matching lc rc es m" "i < lc" "j < lc" "m ! i = Some r" "m ! j = Some r"
  shows "i = j"
proof (rule ccontr)
  have earlier: "m ! k \<noteq> Some r" if "k < l" "l < lc" "m ! l = Some r" for k l
  proof -
    have "case m ! l of None \<Rightarrow> True
        | Some r \<Rightarrow> r < rc \<and> es ! l ! r \<noteq> None \<and> (\<forall>j < l. m ! j \<noteq> Some r)"
      using assms(1) that(2) by (simp add: valid_matching_def)
    then show ?thesis using that by simp
  qed
  assume "i \<noteq> j"
  then consider "i < j" | "j < i" by linarith
  then show False using earlier [of i j] earlier [of j i] assms(2-5) by cases auto
qed

lemma valid_matchingI:
  assumes "length m = lc" "\<And>i r. i < lc \<Longrightarrow> m ! i = Some r \<Longrightarrow> r < rc \<and> es ! i ! r \<noteq> None"
    and "\<And>i j r. i < lc \<Longrightarrow> j < lc \<Longrightarrow> m ! i = Some r \<Longrightarrow> m ! j = Some r \<Longrightarrow> i = j"
  shows "valid_matching lc rc es m"
  unfolding valid_matching_def
proof (intro conjI allI impI assms(1))
  fix i assume i: "i < lc"
  show "case m ! i of None \<Rightarrow> True | Some r \<Rightarrow> r < rc \<and> es ! i ! r \<noteq> None \<and> (\<forall>j < i. m ! j \<noteq> Some r)"
  proof (cases "m ! i")
    case (Some r)
    have "m ! j \<noteq> Some r" if "j < i" for j
      using assms(3) [of i j r] i Some that by auto
    with Some assms(2) [OF i Some] show ?thesis by simp
  qed simp
qed

lemma matching_size_card: "matching_size m = card {i. i < length m \<and> m ! i \<noteq> None}"
  by (simp add: matching_size_def length_filter_conv_card)

lemma valid_size:
  assumes "valid_matching lc rc es m"
  shows "matching_size m \<le> min lc rc"
proof -
  let ?S = "{i. i < length m \<and> m ! i \<noteq> None}"
  have "card ?S \<le> card {..<lc}" using valid_length [OF assms] by (intro card_mono) auto
  moreover have "card ?S \<le> card {..<rc}"
  proof (rule card_inj_on_le [where f = "\<lambda>i. the (m ! i)"])
    show "inj_on (\<lambda>i. the (m ! i)) ?S"
      using valid_inj [OF assms] by (auto intro!: inj_onI simp: valid_length [OF assms])
    show "(\<lambda>i. the (m ! i)) ` ?S \<subseteq> {..<rc}"
      using valid_length [OF assms] valid_pair [OF assms] by auto
  qed simp
  ultimately show ?thesis by (simp add: matching_size_card)
qed

lemma mark_used_nth:
  assumes "list_all (\<lambda>x. case x of None \<Rightarrow> True | Some r \<Rightarrow> r < n) m"
  shows "length (mark_used n m) = n" "r < n \<Longrightarrow> mark_used n m ! r \<longleftrightarrow> Some r \<in> set m"
proof -
  have "length (fold (\<lambda>right used. case right of None \<Rightarrow> used | Some r \<Rightarrow> used[r := True]) m u) = length u
      \<and> (\<forall>r < length u. fold (\<lambda>right used. case right of None \<Rightarrow> used | Some r \<Rightarrow> used[r := True]) m u ! r
           \<longleftrightarrow> u ! r \<or> Some r \<in> set m)" for u :: "bool list"
    using assms
  proof (induction m arbitrary: u)
    case (Cons x m)
    show ?case
    proof (cases x)
      case None
      with Cons show ?thesis by simp
    next
      case (Some q)
      have "u[q := True] ! r \<longleftrightarrow> u ! r \<or> r = q" if "r < length u" for r
        using that by (cases "r = q") auto
      with Some Cons.IH [of "u[q := True]"] Cons.prems show ?thesis by auto
    qed
  qed simp
  from this [of "replicate n False"]
  show "length (mark_used n m) = n" "r < n \<Longrightarrow> mark_used n m ! r \<longleftrightarrow> Some r \<in> set m"
    by (simp_all add: mark_used_def)
qed

lemma valid_range:
  "valid_matching lc rc es m \<Longrightarrow> list_all (\<lambda>x. case x of None \<Rightarrow> True | Some r \<Rightarrow> r < rc) m"
  by (auto simp: list_all_length valid_length valid_pair split: option.split)

section \<open>The interface of a solver\<close>

locale pair_solver =
  fixes solve :: "nat \<Rightarrow> nat \<Rightarrow> edges \<Rightarrow> pairs" and applies :: "nat \<Rightarrow> nat \<Rightarrow> edges \<Rightarrow> bool"
  assumes solved: "applies lc rc es \<Longrightarrow> valid_matching lc rc es (fst (solve lc rc es))"
    and marked: "applies lc rc es \<Longrightarrow> snd (solve lc rc es) = mark_used rc (fst (solve lc rc es))"
    and most: "applies lc rc es \<Longrightarrow> valid_matching lc rc es m
      \<Longrightarrow> matching_size m \<le> matching_size (fst (solve lc rc es))"
begin

lemma used_iff:
  "applies lc rc es \<Longrightarrow> r < rc \<Longrightarrow> snd (solve lc rc es) ! r \<longleftrightarrow> Some r \<in> set (fst (solve lc rc es))"
  using mark_used_nth(2) [OF valid_range [OF solved]] marked by simp

lemma lengths:
  "applies lc rc es \<Longrightarrow> length (fst (solve lc rc es)) = lc \<and> length (snd (solve lc rc es)) = rc"
  using valid_length [OF solved] mark_used_nth(1) [OF valid_range [OF solved]] marked by simp

text \<open>No compatible pair is left over.\<close>

lemma leftover_incompatible:
  assumes a: "applies lc rc es" and i: "i < lc" "fst (solve lc rc es) ! i = None"
    and r: "r < rc" "\<not> snd (solve lc rc es) ! r"
  shows "es ! i ! r = None"
proof (rule ccontr)
  assume e: "es ! i ! r \<noteq> None"
  define m where "m = fst (solve lc rc es)"
  have v: "valid_matching lc rc es m" using solved [OF a] by (simp add: m_def)
  have len: "length m = lc" by (rule valid_length [OF v])
  have free: "Some r \<notin> set m" using used_iff [OF a r(1)] r(2) by (simp add: m_def)
  then have no: "m ! j \<noteq> Some r" if "j < lc" for j using that len nth_mem by metis
  let ?m = "m[i := Some r]"
  have "valid_matching lc rc es ?m"
  proof (rule valid_matchingI)
    show "q < rc \<and> es ! j ! q \<noteq> None" if "j < lc" "?m ! j = Some q" for j q
      using that valid_pair [OF v] r(1) e i len by (cases "j = i") auto
    show "j = k" if "j < lc" "k < lc" "?m ! j = Some q" "?m ! k = Some q" for j k q
      using that valid_inj [OF v] no i len by (cases "j = i"; cases "k = i") auto
  qed (simp add: len)
  then have "matching_size ?m \<le> matching_size m" using most [OF a] by (simp add: m_def)
  moreover have "matching_size ?m = Suc (matching_size m)"
  proof -
    have "{j. j < length ?m \<and> ?m ! j \<noteq> None} = insert i {j. j < length m \<and> m ! j \<noteq> None}"
      using i len by (auto simp: nth_list_update)
    moreover have "i \<notin> {j. j < length m \<and> m ! j \<noteq> None}" using i by (simp add: m_def)
    ultimately show ?thesis by (simp add: matching_size_card)
  qed
  ultimately show False by simp
qed

end

section \<open>The exact solver\<close>

text \<open>An injective choice of columns for the first rows extends to a permutation.\<close>

lemma extend_permutation:
  assumes "lc \<le> n" "inj_on g {..<lc}" "\<And>i. i < lc \<Longrightarrow> g i < n"
  obtains b where "permutation_of n b" "\<And>i. i < lc \<Longrightarrow> b ! i = g i"
proof -
  let ?A = "{lc..<n}" and ?B = "{..<n} - g ` {..<lc}"
  have sub: "g ` {..<lc} \<subseteq> {..<n}" using assms(3) by auto
  have "card ?B = card {..<n} - card (g ` {..<lc})" by (rule card_Diff_subset [OF _ sub]) simp
  then have "card ?A = card ?B" using card_image [OF assms(2)] by simp
  then obtain h where h: "bij_betw h ?A ?B"
    using finite_same_card_bij [of ?A ?B] by (meson finite_Diff finite_atLeastLessThan finite_lessThan)
  define f where "f i = (if i < lc then g i else h i)" for i
  have inj: "inj_on f {..<n}"
  proof (rule inj_onI)
    fix i j assume ij: "i \<in> {..<n}" "j \<in> {..<n}" "f i = f j"
    have out: "h k \<noteq> g l" if "k \<in> ?A" "l < lc" for k l
      using bij_betwE [OF h] that by blast
    consider "i < lc" "j < lc" | "i < lc" "j \<in> ?A" | "i \<in> ?A" "j < lc" | "i \<in> ?A" "j \<in> ?A"
      using ij(1,2) by (cases "i < lc"; cases "j < lc") auto
    then show "i = j"
    proof cases
      case 1
      with ij(3) have "g i = g j" by (simp add: f_def)
      from inj_onD [OF assms(2) this] 1 show ?thesis by simp
    next
      case 2
      with ij(3) have "h j = g i" by (simp add: f_def)
      with out [of j i] 2 show ?thesis by simp
    next
      case 3
      with ij(3) have "h i = g j" by (simp add: f_def)
      with out [of i j] 3 show ?thesis by simp
    next
      case 4
      with ij(3) have "h i = h j" by (simp add: f_def)
      from inj_onD [OF bij_betw_imp_inj_on [OF h] this] 4 show ?thesis by simp
    qed
  qed
  have "f i < n" if "i < n" for i
  proof (cases "i < lc")
    case False
    with that have "i \<in> ?A" by simp
    with bij_betwE [OF h] have "h i \<in> ?B" by blast
    with False show ?thesis by (simp add: f_def)
  qed (simp add: f_def assms(3))
  then have "permutation_of n (map f [0..<n])"
    using inj by (simp add: permutation_of_def distinct_map list_all_iff atLeast0LessThan)
  then show thesis
    by (rule that) (use assms(1) in \<open>simp add: f_def\<close>)
qed

lemma details_in:
  assumes "table_ok lc rc es" "i < lc" "r < rc" "es ! i ! r = Some d"
  shows "d \<in> set (all_details es)"
proof -
  have i: "es ! i \<in> set es" using assms by (simp add: table_ok_def)
  then have "length (es ! i) = rc" using assms(1) by (simp add: table_ok_def list_all_iff)
  with assms(3) have "es ! i ! r \<in> set (es ! i)" by simp
  then have "Some d \<in> {x \<in> set (es ! i). id x \<noteq> None}" using assms(4) by simp
  then have "(the \<circ> id) (Some d) \<in> set (List.map_filter id (es ! i))"
    unfolding map_filter_def by (simp only: set_map set_filter image_eqI)
  with i show ?thesis by (auto simp: all_details_def)
qed

definition details_bounded :: "edges \<Rightarrow> bool" where
  "details_bounded es \<longleftrightarrow> list_all (\<lambda>d. - (10 ^ 12) \<le> d \<and> d \<le> 10 ^ 12) (all_details es)"

text \<open>What a pair adds to the weight of an assignment.\<close>

definition pair_gain :: "nat \<Rightarrow> nat \<Rightarrow> edges \<Rightarrow> matching \<Rightarrow> nat \<Rightarrow> int" where
  "pair_gain lc rc es m i = (case m ! i of None \<Rightarrow> 0
     | Some r \<Rightarrow> pair_bonus lc rc (all_details es) + the (es ! i ! r) - Min (set (all_details es)))"

lemma gain_sum:
  assumes "length m = lc"
  shows "(\<Sum>i < lc. pair_gain lc rc es m i)
    = int (matching_size m) * (pair_bonus lc rc (all_details es) - Min (set (all_details es)))
      + matching_score es m"
proof -
  let ?c = "pair_bonus lc rc (all_details es) - Min (set (all_details es))"
  have "pair_gain lc rc es m i = (if m ! i \<noteq> None then ?c else 0) + pair_detail es m i" for i
    by (auto simp: pair_gain_def pair_detail_def)
  then have "(\<Sum>i < lc. pair_gain lc rc es m i)
      = (\<Sum>i < lc. if m ! i \<noteq> None then ?c else 0) + matching_score es m"
    by (simp add: sum.distrib matching_score_def assms)
  also have "(\<Sum>i < lc. if m ! i \<noteq> None then ?c else 0) = int (matching_size m) * ?c"
    by (simp add: matching_size_card assms sum.If_cases Int_def lessThan_def)
  finally show ?thesis .
qed

lemma score_range:
  assumes v: "valid_matching lc rc es m" and t: "table_ok lc rc es"
  shows "int (matching_size m) * Min (set (all_details es)) \<le> matching_score es m"
    "matching_score es m \<le> int (matching_size m) * Max (set (all_details es))"
proof -
  let ?S = "{i. i < length m \<and> m ! i \<noteq> None}"
  have d: "Min (set (all_details es)) \<le> pair_detail es m i \<and> pair_detail es m i \<le> Max (set (all_details es))"
    if i: "i \<in> ?S" for i
  proof -
    obtain r where r: "m ! i = Some r" using i by auto
    have il: "i < lc" using i valid_length [OF v] by simp
    with valid_pair [OF v il r] obtain d where "es ! i ! r = Some d" "r < rc" by auto
    with details_in [OF t il] have "pair_detail es m i \<in> set (all_details es)"
      using r by (auto simp: pair_detail_def)
    then show ?thesis by simp
  qed
  have eq: "matching_score es m = (\<Sum>i \<in> ?S. pair_detail es m i)"
    unfolding matching_score_def
    by (rule sum.mono_neutral_right) (auto simp: pair_detail_def)
  show "int (matching_size m) * Min (set (all_details es)) \<le> matching_score es m"
  proof -
    have "(\<Sum>i \<in> ?S. Min (set (all_details es))) \<le> (\<Sum>i \<in> ?S. pair_detail es m i)"
      by (rule sum_mono) (rule conjunct1 [OF d])
    then show ?thesis unfolding eq matching_size_card by simp
  qed
  show "matching_score es m \<le> int (matching_size m) * Max (set (all_details es))"
  proof -
    have "(\<Sum>i \<in> ?S. pair_detail es m i) \<le> (\<Sum>i \<in> ?S. Max (set (all_details es)))"
      by (rule sum_mono) (rule conjunct2 [OF d])
    then show ?thesis unfolding eq matching_size_card by simp
  qed
qed

text \<open>A greater weight is a greater matching: first by size, then by score.\<close>

lemma gain_order:
  assumes v: "valid_matching lc rc es m" "valid_matching lc rc es m'" and t: "table_ok lc rc es"
    and ne: "all_details es \<noteq> []"
    and le: "(\<Sum>i < lc. pair_gain lc rc es m' i) \<le> (\<Sum>i < lc. pair_gain lc rc es m i)"
  shows "matching_size m' < matching_size m
    \<or> matching_size m' = matching_size m \<and> matching_score es m' \<le> matching_score es m"
proof -
  let ?lo = "Min (set (all_details es))" and ?hi = "Max (set (all_details es))"
    and ?b = "pair_bonus lc rc (all_details es)" and ?k = "matching_size m" and ?k' = "matching_size m'"
  have lohi: "?lo \<le> ?hi" using ne by simp
  have le': "int ?k' * (?b - ?lo) + matching_score es m' \<le> int ?k * (?b - ?lo) + matching_score es m"
    using le unfolding gain_sum [OF valid_length [OF v(1)]] gain_sum [OF valid_length [OF v(2)]] .
  have "\<not> ?k < ?k'"
  proof
    assume lt: "?k < ?k'"
    have "int ?k' * ?b \<le> int ?k * ?b + int ?k * (?hi - ?lo)"
      using le' score_range(1) [OF v(2) t] score_range(2) [OF v(1) t]
      by (simp add: algebra_simps)
    moreover have "0 \<le> ?b" using lohi by (simp add: pair_bonus_def)
    with lt have "(int ?k + 1) * ?b \<le> int ?k' * ?b" by (intro mult_right_mono) auto
    ultimately have "?b \<le> int ?k * (?hi - ?lo)" by (simp add: algebra_simps)
    also have "\<dots> \<le> int (min lc rc) * (?hi - ?lo)"
      using valid_size [OF v(1)] lohi by (intro mult_right_mono) auto
    also have "\<dots> < ?b"
    proof -
      have "int (min lc rc) * (?hi - ?lo) \<le> (int (min lc rc) + 1) * (?hi - ?lo)"
        using lohi by (intro mult_right_mono) auto
      then show ?thesis using lohi by (simp add: pair_bonus_def algebra_simps)
    qed
    finally show False by simp
  qed
  then show ?thesis using le' by (cases "?k' = ?k") auto
qed

lemma weight_entry:
  assumes "i < lc + rc" "j < lc + rc"
  shows "pair_weights lc rc es ! i ! j = (if i < lc \<and> j < rc then (case es ! i ! j of None \<Rightarrow> 0
    | Some d \<Rightarrow> pair_bonus lc rc (all_details es) + d - Min (set (all_details es))) else 0)"
  using assms by (simp add: pair_weights_def Let_def)

lemma pair_weights_ok:
  assumes t: "table_ok lc rc es" and ne: "all_details es \<noteq> []"
    and small: "lc + rc \<le> optimalAssignmentVertexLimit" and b: "details_bounded es"
  shows "weights_ok (pair_weights lc rc es) (10 ^ 15)"
proof -
  let ?lo = "Min (set (all_details es))" and ?hi = "Max (set (all_details es))"
    and ?b = "pair_bonus lc rc (all_details es)"
  have "?lo \<in> set (all_details es)" "?hi \<in> set (all_details es)" using ne by simp_all
  then have range: "- (10 ^ 12) \<le> ?lo" "?hi \<le> 10 ^ 12" "?lo \<le> ?hi"
    using b ne by (auto simp: details_bounded_def list_all_iff)
  have min: "int (min lc rc) \<le> 64" using small by (simp add: optimalAssignmentVertexLimit_def)
  have "?b \<le> (2 * 10 ^ 12 + 1) * (64 + 1)"
    unfolding pair_bonus_def using range min by (intro mult_mono) auto
  moreover have "0 \<le> ?b" using range by (simp add: pair_bonus_def)
  moreover have "?lo \<le> d \<and> d \<le> ?hi" if "i < lc" "j < rc" "es ! i ! j = Some d" for i j d
    using details_in [OF t that] by simp
  ultimately have entry: "0 \<le> pair_weights lc rc es ! i ! j \<and> pair_weights lc rc es ! i ! j \<le> 10 ^ 15"
    if "i < lc + rc" "j < lc + rc" for i j
    unfolding weight_entry [OF that] using range by (fastforce split: option.split)
  have len: "length (pair_weights lc rc es) = lc + rc" by (simp add: pair_weights_def Let_def)
  have rows: "length (pair_weights lc rc es ! i) = lc + rc" if "i < lc + rc" for i
    using that by (simp add: pair_weights_def Let_def)
  have "int (lc + rc) + 1 \<le> 129" using small by (simp add: optimalAssignmentVertexLimit_def)
  then have "(int (lc + rc) + 1) * 10 ^ 15 < hungarian_infinity"
    by (simp add: hungarian_infinity_def)
  with entry rows show ?thesis
    by (simp add: weights_ok_def len list_all_length)
qed

text \<open>The weight of an assignment whose first rows follow a matching.\<close>

lemma assignment_gain:
  assumes perm: "permutation_of (lc + rc) a" and m: "length m = lc"
    and follows: "\<And>i. i < lc \<Longrightarrow> (case m ! i of Some r \<Rightarrow> a ! i = r \<and> r < rc \<and> es ! i ! r \<noteq> None
        | None \<Rightarrow> a ! i \<ge> rc \<or> es ! i ! (a ! i) = None)"
  shows "assignment_weight (pair_weights lc rc es) a = (\<Sum>i < lc. pair_gain lc rc es m i)"
proof -
  let ?w = "pair_weights lc rc es"
  have len: "length ?w = lc + rc" by (simp add: pair_weights_def Let_def)
  have a: "a ! i < lc + rc" if "i < lc + rc" for i
    using perm that by (simp add: permutation_of_def list_all_length)
  have "?w ! i ! (a ! i) = (if i < lc then pair_gain lc rc es m i else 0)" if "i < lc + rc" for i
    unfolding weight_entry [OF that a [OF that]] using follows [of i]
    by (auto simp: pair_gain_def split: option.splits)
  then have "assignment_weight ?w a = (\<Sum>i < lc + rc. if i < lc then pair_gain lc rc es m i else 0)"
    unfolding assignment_weight_def len by (intro sum.cong) auto
  also have "\<dots> = (\<Sum>i < lc. pair_gain lc rc es m i)"
    by (rule sum.mono_neutral_cong_right) auto
  finally show ?thesis .
qed

lemma follow_matching:
  assumes v: "valid_matching lc rc es m"
  obtains a where "permutation_of (lc + rc) a"
    and "\<And>i. i < lc \<Longrightarrow> (case m ! i of Some r \<Rightarrow> a ! i = r \<and> r < rc \<and> es ! i ! r \<noteq> None
        | None \<Rightarrow> a ! i \<ge> rc \<or> es ! i ! (a ! i) = None)"
proof -
  define g where "g i = (case m ! i of Some r \<Rightarrow> r | None \<Rightarrow> rc + i)" for i
  have "inj_on g {..<lc}"
  proof (rule inj_onI)
    fix i j assume "i \<in> {..<lc}" "j \<in> {..<lc}" "g i = g j"
    then show "i = j"
      using valid_pair [OF v, of i] valid_pair [OF v, of j] valid_inj [OF v, of i j]
      by (auto simp: g_def split: option.splits)
  qed
  moreover have "g i < lc + rc" if "i < lc" for i
    using that valid_pair [OF v that] by (auto simp: g_def split: option.split)
  ultimately obtain b where b: "permutation_of (lc + rc) b" "\<And>i. i < lc \<Longrightarrow> b ! i = g i"
    using extend_permutation [of lc "lc + rc" g] by auto
  show thesis
    by (rule that [OF b(1)]) (use b(2) valid_pair [OF v] in \<open>auto simp: g_def split: option.split\<close>)
qed

lemma keep_valid:
  assumes "permutation_of (lc + rc) a"
  shows "valid_matching lc rc es (keep_compatible lc rc es a)"
proof (rule valid_matchingI)
  show "i = j" if ij: "i < lc" "j < lc" "keep_compatible lc rc es a ! i = Some r"
    "keep_compatible lc rc es a ! j = Some r" for i j r
  proof -
    have "a ! i = a ! j" using ij by (auto simp: keep_compatible_def Let_def split: if_splits)
    then show ?thesis using assms ij by (simp add: permutation_of_def nth_eq_iff_index_eq)
  qed
qed (auto simp: keep_compatible_def Let_def split: if_splits)

lemma no_details:
  assumes "table_ok lc rc es" "all_details es = []" "valid_matching lc rc es m"
  shows "m = replicate lc None"
proof (rule nth_equalityI)
  show "length m = length (replicate lc None)" using valid_length [OF assms(3)] by simp
  show "m ! i = replicate lc None ! i" if "i < length m" for i
  proof (cases "m ! i")
    case (Some r)
    have i: "i < lc" using that valid_length [OF assms(3)] by simp
    with valid_pair [OF assms(3) i Some] obtain d where "r < rc" "es ! i ! r = Some d" by auto
    from details_in [OF assms(1) i this] assms(2) show ?thesis by simp
  qed (use that valid_length [OF assms(3)] in simp)
qed

text \<open>The exact pairing is a valid matching, and no other one has more pairs, or as many and a greater score.\<close>

lemma optimal_pairs:
  assumes t: "table_ok lc rc es" and small: "lc + rc \<le> optimalAssignmentVertexLimit"
    and b: "details_bounded es"
  shows "valid_matching lc rc es (fst (optimalPairs lc rc es))"
    and "snd (optimalPairs lc rc es) = mark_used rc (fst (optimalPairs lc rc es))"
    and "valid_matching lc rc es m \<Longrightarrow> matching_size m < matching_size (fst (optimalPairs lc rc es))
      \<or> matching_size m = matching_size (fst (optimalPairs lc rc es))
        \<and> matching_score es m \<le> matching_score es (fst (optimalPairs lc rc es))"
proof -
  have "valid_matching lc rc es (fst (optimalPairs lc rc es))
    \<and> snd (optimalPairs lc rc es) = mark_used rc (fst (optimalPairs lc rc es))
    \<and> (valid_matching lc rc es m \<longrightarrow> matching_size m < matching_size (fst (optimalPairs lc rc es))
      \<or> matching_size m = matching_size (fst (optimalPairs lc rc es))
        \<and> matching_score es m \<le> matching_score es (fst (optimalPairs lc rc es)))" for m
  proof (cases "all_details es = []")
    case True
    have "fold (\<lambda>right used. case right of None \<Rightarrow> used | Some r \<Rightarrow> used[r := True])
        (replicate n None) u = u" for n and u :: "bool list"
      by (induction n) simp_all
    then have "fst (optimalPairs lc rc es) = replicate lc None"
      "snd (optimalPairs lc rc es) = mark_used rc (replicate lc None)"
      using True by (simp_all add: optimalPairs_def no_pairs_def mark_used_def)
    moreover have "valid_matching lc rc es (replicate lc None)" by (rule valid_matchingI) simp_all
    ultimately show ?thesis using no_details [OF t True, of m] by auto
  next
    case False
    note ok = pair_weights_ok [OF t False small b]
    have len: "length (pair_weights lc rc es) = lc + rc" by (simp add: pair_weights_def Let_def)
    obtain a where a: "maximumWeightAssignment (pair_weights lc rc es) = Some a"
      "permutation_of (lc + rc) a"
      and best: "\<And>b. permutation_of (lc + rc) b \<Longrightarrow>
        assignment_weight (pair_weights lc rc es) b \<le> assignment_weight (pair_weights lc rc es) a"
      using hungarian_optimal [OF ok] unfolding len by blast
    let ?k = "keep_compatible lc rc es a"
    have res: "optimalPairs lc rc es = (?k, mark_used rc ?k)"
      using a(1) False by (simp add: optimalPairs_def Let_def)
    have v: "valid_matching lc rc es ?k" by (rule keep_valid [OF a(2)])
    have gain: "assignment_weight (pair_weights lc rc es) a = (\<Sum>i < lc. pair_gain lc rc es ?k i)"
      by (rule assignment_gain [OF a(2)])
        (auto simp: keep_compatible_def Let_def split: if_splits)
    have "matching_size m < matching_size ?k
      \<or> matching_size m = matching_size ?k \<and> matching_score es m \<le> matching_score es ?k"
      if m: "valid_matching lc rc es m"
    proof -
      obtain b where b: "permutation_of (lc + rc) b"
        and fb: "\<And>i. i < lc \<Longrightarrow> (case m ! i of Some r \<Rightarrow> b ! i = r \<and> r < rc \<and> es ! i ! r \<noteq> None
          | None \<Rightarrow> b ! i \<ge> rc \<or> es ! i ! (b ! i) = None)"
        by (rule follow_matching [OF m]) (rule that)
      have gb: "assignment_weight (pair_weights lc rc es) b = (\<Sum>i < lc. pair_gain lc rc es m i)"
        by (rule assignment_gain [OF b valid_length [OF m]]) (rule fb)
      have "(\<Sum>i < lc. pair_gain lc rc es m i) \<le> (\<Sum>i < lc. pair_gain lc rc es ?k i)"
        using best [OF b] gain gb by simp
      then show ?thesis by (rule gain_order [OF v m t False])
    qed
    with v res show ?thesis by simp
  qed
  then show "valid_matching lc rc es (fst (optimalPairs lc rc es))"
    "snd (optimalPairs lc rc es) = mark_used rc (fst (optimalPairs lc rc es))"
    "valid_matching lc rc es m \<Longrightarrow> matching_size m < matching_size (fst (optimalPairs lc rc es))
      \<or> matching_size m = matching_size (fst (optimalPairs lc rc es))
        \<and> matching_score es m \<le> matching_score es (fst (optimalPairs lc rc es))"
    by blast+
qed

definition exact_applies :: "nat \<Rightarrow> nat \<Rightarrow> edges \<Rightarrow> bool" where
  "exact_applies lc rc es \<longleftrightarrow> table_ok lc rc es \<and> lc + rc \<le> optimalAssignmentVertexLimit \<and> details_bounded es"

interpretation exact: pair_solver optimalPairs exact_applies
proof unfold_locales
  fix lc rc es m assume "exact_applies lc rc es"
  then have a: "table_ok lc rc es" "lc + rc \<le> optimalAssignmentVertexLimit" "details_bounded es"
    by (simp_all add: exact_applies_def)
  show "valid_matching lc rc es (fst (optimalPairs lc rc es))" by (rule optimal_pairs(1) [OF a])
  show "snd (optimalPairs lc rc es) = mark_used rc (fst (optimalPairs lc rc es))"
    by (rule optimal_pairs(2) [OF a])
  show "valid_matching lc rc es m \<Longrightarrow> matching_size m \<le> matching_size (fst (optimalPairs lc rc es))"
    using optimal_pairs(3) [OF a, of m] by auto
qed

end
