(* ===== verification/HopcroftKarp.thy ===== *)
theory HopcroftKarp
  imports Matching
begin

text \<open>
  The pairing of long lists: the phases of \<open>linearMemoryMaximumCardinalityPairsWithSeed\<close> end
  within their fuel, whatever the seed, and leave a matching of greatest size.
\<close>

section \<open>The two directions of a matching\<close>

definition hk_inv :: "nat \<Rightarrow> nat \<Rightarrow> edges \<Rightarrow> hk \<Rightarrow> bool" where
  "hk_inv lc rc es s \<longleftrightarrow> length (hk_left s) = lc \<and> length (hk_right s) = rc \<and> length (hk_distance s) = lc
     \<and> (\<forall>l < lc. \<forall>r. hk_left s ! l = Some r \<longrightarrow> r < rc \<and> es ! l ! r \<noteq> None \<and> hk_right s ! r = Some l)
     \<and> (\<forall>r < rc. \<forall>l. hk_right s ! r = Some l \<longrightarrow> l < lc \<and> hk_left s ! l = Some r)"

lemma hk_invI:
  assumes "length (hk_left s) = lc" "length (hk_right s) = rc" "length (hk_distance s) = lc"
    and "\<And>l r. l < lc \<Longrightarrow> hk_left s ! l = Some r \<Longrightarrow> r < rc \<and> es ! l ! r \<noteq> None \<and> hk_right s ! r = Some l"
    and "\<And>r l. r < rc \<Longrightarrow> hk_right s ! r = Some l \<Longrightarrow> l < lc \<and> hk_left s ! l = Some r"
  shows "hk_inv lc rc es s"
  unfolding hk_inv_def using assms by blast

lemma hk_inv_length:
  "hk_inv lc rc es s \<Longrightarrow> length (hk_left s) = lc \<and> length (hk_right s) = rc \<and> length (hk_distance s) = lc"
  unfolding hk_inv_def by blast

lemma hk_inv_left:
  "hk_inv lc rc es s \<Longrightarrow> l < lc \<Longrightarrow> hk_left s ! l = Some r
    \<Longrightarrow> r < rc \<and> es ! l ! r \<noteq> None \<and> hk_right s ! r = Some l"
  unfolding hk_inv_def by blast

lemma hk_inv_right:
  "hk_inv lc rc es s \<Longrightarrow> r < rc \<Longrightarrow> hk_right s ! r = Some l \<Longrightarrow> l < lc \<and> hk_left s ! l = Some r"
  unfolding hk_inv_def by blast

lemma hk_valid:
  assumes inv: "hk_inv lc rc es s"
  shows "valid_matching lc rc es (hk_left s)"
proof (rule valid_matchingI)
  show "length (hk_left s) = lc" using hk_inv_length [OF inv] by blast
  show "r < rc \<and> es ! i ! r \<noteq> None" if "i < lc" "hk_left s ! i = Some r" for i r
    using hk_inv_left [OF inv that] by blast
  show "i = j" if ij: "i < lc" "j < lc" "hk_left s ! i = Some r" "hk_left s ! j = Some r" for i j r
  proof -
    have "hk_right s ! r = Some i" "hk_right s ! r = Some j"
      using hk_inv_left [OF inv ij(1,3)] hk_inv_left [OF inv ij(2,4)] by blast+
    then show ?thesis by simp
  qed
qed

lemma hk_inv_same:
  assumes "hk_inv lc rc es s" "hk_left s' = hk_left s" "hk_right s' = hk_right s"
    and "length (hk_distance s') = lc"
  shows "hk_inv lc rc es s'"
proof (rule hk_invI)
  show "r < rc \<and> es ! l ! r \<noteq> None \<and> hk_right s' ! r = Some l" if "l < lc" "hk_left s' ! l = Some r" for l r
    unfolding assms(3) by (rule hk_inv_left [OF assms(1) that [unfolded assms(2)]])
  show "l < lc \<and> hk_left s' ! l = Some r" if "r < rc" "hk_right s' ! r = Some l" for r l
    unfolding assms(2) by (rule hk_inv_right [OF assms(1) that [unfolded assms(3)]])
qed (use hk_inv_length [OF assms(1)] assms(2-4) in auto)

section \<open>One augmentation\<close>

text \<open>
  The result of a successful step from \<open>l\<close>: \<open>l\<close> has a new partner, the other matched vertices
  stay matched, and at most the old partner of \<open>l\<close> still points to \<open>l\<close>, which the caller
  overwrites. Vertices at a smaller distance are not touched.
\<close>

definition augmented :: "nat \<Rightarrow> nat \<Rightarrow> edges \<Rightarrow> nat \<Rightarrow> hk \<Rightarrow> hk \<Rightarrow> bool" where
  "augmented lc rc es l s s' \<longleftrightarrow>
     length (hk_left s') = lc \<and> length (hk_right s') = rc \<and> length (hk_distance s') = lc
     \<and> hk_left s' ! l \<noteq> None \<and> hk_left s' ! l \<noteq> hk_left s ! l
     \<and> (\<forall>k < lc. \<forall>r. hk_left s' ! k = Some r \<longrightarrow> r < rc \<and> es ! k ! r \<noteq> None \<and> hk_right s' ! r = Some k)
     \<and> (\<forall>r < rc. \<forall>k. hk_right s' ! r = Some k
          \<longrightarrow> k < lc \<and> (hk_left s' ! k = Some r \<or> k = l \<and> hk_left s ! l = Some r))
     \<and> (\<forall>k < lc. hk_left s' ! k \<noteq> None \<longleftrightarrow> hk_left s ! k \<noteq> None \<or> k = l)
     \<and> (\<forall>k < lc. hk_distance s ! k < hk_distance s ! l \<longrightarrow> hk_left s' ! k = hk_left s ! k)
     \<and> (\<forall>r < rc. \<forall>k. hk_right s ! r = Some k \<and> hk_distance s ! k \<le> hk_distance s ! l
          \<longrightarrow> hk_right s' ! r = Some k)"

lemma augmentedI:
  assumes "length (hk_left s') = lc" "length (hk_right s') = rc" "length (hk_distance s') = lc"
    and "hk_left s' ! l \<noteq> None" "hk_left s' ! l \<noteq> hk_left s ! l"
    and "\<And>k r. k < lc \<Longrightarrow> hk_left s' ! k = Some r \<Longrightarrow> r < rc \<and> es ! k ! r \<noteq> None \<and> hk_right s' ! r = Some k"
    and "\<And>r k. r < rc \<Longrightarrow> hk_right s' ! r = Some k
        \<Longrightarrow> k < lc \<and> (hk_left s' ! k = Some r \<or> k = l \<and> hk_left s ! l = Some r)"
    and "\<And>k. k < lc \<Longrightarrow> hk_left s' ! k \<noteq> None \<longleftrightarrow> hk_left s ! k \<noteq> None \<or> k = l"
    and "\<And>k. k < lc \<Longrightarrow> hk_distance s ! k < hk_distance s ! l \<Longrightarrow> hk_left s' ! k = hk_left s ! k"
    and "\<And>r k. r < rc \<Longrightarrow> hk_right s ! r = Some k \<Longrightarrow> hk_distance s ! k \<le> hk_distance s ! l
        \<Longrightarrow> hk_right s' ! r = Some k"
  shows "augmented lc rc es l s s'"
  unfolding augmented_def using assms by blast

lemma augmented_left:
  "augmented lc rc es l s s' \<Longrightarrow> k < lc \<Longrightarrow> hk_left s' ! k = Some r
    \<Longrightarrow> r < rc \<and> es ! k ! r \<noteq> None \<and> hk_right s' ! r = Some k"
  unfolding augmented_def by blast

lemma augmented_right:
  "augmented lc rc es l s s' \<Longrightarrow> r < rc \<Longrightarrow> hk_right s' ! r = Some k
    \<Longrightarrow> k < lc \<and> (hk_left s' ! k = Some r \<or> k = l \<and> hk_left s ! l = Some r)"
  unfolding augmented_def by blast

lemma augmented_some:
  "augmented lc rc es l s s' \<Longrightarrow> k < lc \<Longrightarrow> hk_left s' ! k \<noteq> None \<longleftrightarrow> hk_left s ! k \<noteq> None \<or> k = l"
  unfolding augmented_def by blast

lemma augmented_near:
  "augmented lc rc es l s s' \<Longrightarrow> k < lc \<Longrightarrow> hk_distance s ! k < hk_distance s ! l
    \<Longrightarrow> hk_left s' ! k = hk_left s ! k"
  unfolding augmented_def by blast

lemma augmented_far:
  "augmented lc rc es l s s' \<Longrightarrow> r < rc \<Longrightarrow> hk_right s ! r = Some k
    \<Longrightarrow> hk_distance s ! k \<le> hk_distance s ! l \<Longrightarrow> hk_right s' ! r = Some k"
  unfolding augmented_def by blast

lemma augmented_length:
  "augmented lc rc es l s s' \<Longrightarrow> length (hk_left s') = lc \<and> length (hk_right s') = rc
    \<and> length (hk_distance s') = lc"
  unfolding augmented_def by blast

lemma augmented_new:
  "augmented lc rc es l s s' \<Longrightarrow> hk_left s' ! l \<noteq> None \<and> hk_left s' ! l \<noteq> hk_left s ! l"
  unfolding augmented_def by blast

definition hk_remaining :: "nat \<Rightarrow> nat \<Rightarrow> hk \<Rightarrow> nat" where
  "hk_remaining lc rc s = (\<Sum>l < lc. rc - hk_next s ! l)"

text \<open>A state with the same matching and the same distances up to that of \<open>l\<close>.\<close>

definition same_below :: "nat \<Rightarrow> nat \<Rightarrow> hk \<Rightarrow> hk \<Rightarrow> bool" where
  "same_below lc l s s1 \<longleftrightarrow> hk_left s1 = hk_left s \<and> hk_right s1 = hk_right s
     \<and> length (hk_distance s1) = length (hk_distance s)
     \<and> (\<forall>k < lc. hk_distance s ! k \<le> hk_distance s ! l \<longrightarrow> hk_distance s1 ! k = hk_distance s ! k)"

lemma augmented_same:
  assumes "same_below lc l s s1" "augmented lc rc es l s1 s'" "l < lc" "hk_inv lc rc es s"
  shows "augmented lc rc es l s s'"
proof -
  have eq: "hk_left s1 = hk_left s" "hk_right s1 = hk_right s"
    and d: "\<And>k. k < lc \<Longrightarrow> hk_distance s ! k \<le> hk_distance s ! l \<Longrightarrow> hk_distance s1 ! k = hk_distance s ! k"
    using assms(1) by (auto simp: same_below_def)
  have dl: "hk_distance s1 ! l = hk_distance s ! l" using d assms(3) by simp
  have far: "hk_right s' ! r = Some k"
    if "r < rc" "hk_right s ! r = Some k" "hk_distance s ! k \<le> hk_distance s ! l" for r k
  proof (rule augmented_far [OF assms(2) that(1)])
    show "hk_right s1 ! r = Some k" using that(2) eq by simp
    have "k < lc" using hk_inv_right [OF assms(4) that(1,2)] by simp
    with d that(3) dl show "hk_distance s1 ! k \<le> hk_distance s1 ! l" by simp
  qed
  have near: "hk_left s' ! k = hk_left s ! k" if "k < lc" "hk_distance s ! k < hk_distance s ! l" for k
    using augmented_near [OF assms(2) that(1)] d [OF that(1)] dl that(2) eq by simp
  show ?thesis
  proof (rule augmentedI)
    show "k < lc \<and> (hk_left s' ! k = Some r \<or> k = l \<and> hk_left s ! l = Some r)"
      if "r < rc" "hk_right s' ! r = Some k" for r k
      using augmented_right [OF assms(2) that] unfolding eq .
    show "hk_left s' ! k \<noteq> None \<longleftrightarrow> hk_left s ! k \<noteq> None \<or> k = l" if "k < lc" for k
      using augmented_some [OF assms(2) that] unfolding eq .
  qed (use augmented_length [OF assms(2)] augmented_new [OF assms(2)] augmented_left [OF assms(2)] near far
      in \<open>simp_all add: eq\<close>)
qed

lemma free_step:
  assumes inv: "hk_inv lc rc es s" and l: "l < lc" and r: "r < rc" "es ! l ! r \<noteq> None" "hk_right s ! r = None"
  shows "augmented lc rc es l s (hk_match l r s)"
proof -
  have len: "length (hk_left s) = lc" "length (hk_right s) = rc" "length (hk_distance s) = lc"
    using hk_inv_length [OF inv] by auto
  have no: "hk_left s ! k \<noteq> Some r" if "k < lc" for k
    using hk_inv_left [OF inv that, of r] r(3) by auto
  have left: "hk_left (hk_match l r s) ! k = (if k = l then Some r else hk_left s ! k)" if "k < lc" for k
    using len that by (simp add: hk_match_def)
  have right: "hk_right (hk_match l r s) ! q = (if q = r then Some l else hk_right s ! q)" if "q < rc" for q
    using len that by (simp add: hk_match_def)
  show ?thesis
  proof (rule augmentedI)
    show "hk_left (hk_match l r s) ! l \<noteq> None" "hk_left (hk_match l r s) ! l \<noteq> hk_left s ! l"
      using left [OF l] no [OF l] by auto
    show "q < rc \<and> es ! k ! q \<noteq> None \<and> hk_right (hk_match l r s) ! q = Some k"
      if k: "k < lc" "hk_left (hk_match l r s) ! k = Some q" for k q
    proof (cases "k = l")
      case True
      with k left [OF k(1)] r right [of r] show ?thesis by simp
    next
      case False
      with k left [OF k(1)] have kq: "hk_left s ! k = Some q" by simp
      with no [OF k(1)] have "q \<noteq> r" by auto
      with hk_inv_left [OF inv k(1) kq] right [of q] show ?thesis by simp
    qed
    show "k < lc \<and> (hk_left (hk_match l r s) ! k = Some q \<or> k = l \<and> hk_left s ! l = Some q)"
      if q: "q < rc" "hk_right (hk_match l r s) ! q = Some k" for q k
    proof (cases "q = r")
      case True
      with q right [OF q(1)] left [OF l] l show ?thesis by simp
    next
      case False
      with q right [OF q(1)] have kq: "hk_right s ! q = Some k" by simp
      with hk_inv_right [OF inv q(1) kq] left [of k] show ?thesis by auto
    qed
    show "hk_left (hk_match l r s) ! k \<noteq> None \<longleftrightarrow> hk_left s ! k \<noteq> None \<or> k = l" if "k < lc" for k
      using left [OF that] by simp
    show "hk_left (hk_match l r s) ! k = hk_left s ! k"
      if "k < lc" "hk_distance s ! k < hk_distance s ! l" for k
      using left [OF that(1)] that(2) by auto
    show "hk_right (hk_match l r s) ! q = Some k"
      if "q < rc" "hk_right s ! q = Some k" for q k
      using right [OF that(1)] that(2) r(3) by auto
  qed (use len in \<open>simp_all add: hk_match_def\<close>)
qed

lemma nested_step:
  assumes inv: "hk_inv lc rc es s" and l: "l < lc" and r: "r < rc" "es ! l ! r \<noteq> None"
    and ml: "hk_right s ! r = Some ml" "hk_distance s ! ml = hk_distance s ! l + 1"
    and aug: "augmented lc rc es ml s t"
  shows "augmented lc rc es l s (hk_match l r t)"
proof -
  have len: "length (hk_left t) = lc" "length (hk_right t) = rc" "length (hk_distance t) = lc"
    using augmented_length [OF aug] by auto
  have mlc: "ml < lc" "hk_left s ! ml = Some r" using hk_inv_right [OF inv r(1) ml(1)] by auto
  have ne: "ml \<noteq> l" using ml(2) by auto
  have stale: "hk_right t ! r = Some ml" by (rule augmented_far [OF aug r(1) ml(1)]) simp
  have new: "hk_left t ! ml \<noteq> Some r" using augmented_new [OF aug] mlc(2) by auto
  have tl: "hk_left t ! l = hk_left s ! l" by (rule augmented_near [OF aug l]) (simp add: ml(2))
  have no: "hk_left t ! k \<noteq> Some r" if "k < lc" for k
  proof
    assume "hk_left t ! k = Some r"
    with augmented_left [OF aug that] stale have "k = ml" by auto
    with new \<open>hk_left t ! k = Some r\<close> show False by simp
  qed
  have left: "hk_left (hk_match l r t) ! k = (if k = l then Some r else hk_left t ! k)" if "k < lc" for k
    using len that by (simp add: hk_match_def)
  have right: "hk_right (hk_match l r t) ! q = (if q = r then Some l else hk_right t ! q)" if "q < rc" for q
    using len that by (simp add: hk_match_def)
  show ?thesis
  proof (rule augmentedI)
    show "hk_left (hk_match l r t) ! l \<noteq> None" "hk_left (hk_match l r t) ! l \<noteq> hk_left s ! l"
      using left [OF l] no [OF l] tl by auto
    show "q < rc \<and> es ! k ! q \<noteq> None \<and> hk_right (hk_match l r t) ! q = Some k"
      if k: "k < lc" "hk_left (hk_match l r t) ! k = Some q" for k q
    proof (cases "k = l")
      case True
      with k left [OF k(1)] r right [of r] show ?thesis by simp
    next
      case False
      with k left [OF k(1)] have kq: "hk_left t ! k = Some q" by simp
      with no [OF k(1)] have "q \<noteq> r" by auto
      with augmented_left [OF aug k(1) kq] right [of q] show ?thesis by simp
    qed
    show "k < lc \<and> (hk_left (hk_match l r t) ! k = Some q \<or> k = l \<and> hk_left s ! l = Some q)"
      if q: "q < rc" "hk_right (hk_match l r t) ! q = Some k" for q k
    proof (cases "q = r")
      case True
      with q right [OF q(1)] left [OF l] l show ?thesis by simp
    next
      case False
      with q right [OF q(1)] have kq: "hk_right t ! q = Some k" by simp
      from augmented_right [OF aug q(1) this] mlc(2) False
      have "k < lc" "hk_left t ! k = Some q" by auto
      then show ?thesis using left [of k] tl by auto
    qed
    show "hk_left (hk_match l r t) ! k \<noteq> None \<longleftrightarrow> hk_left s ! k \<noteq> None \<or> k = l" if "k < lc" for k
      using left [OF that] augmented_some [OF aug that] mlc(2) by auto
    show "hk_left (hk_match l r t) ! k = hk_left s ! k"
      if "k < lc" "hk_distance s ! k < hk_distance s ! l" for k
      using left [OF that(1)] augmented_near [OF aug that(1)] that(2) ml(2) by auto
    show "hk_right (hk_match l r t) ! q = Some k"
      if q: "q < rc" "hk_right s ! q = Some k" "hk_distance s ! k \<le> hk_distance s ! l" for q k
    proof -
      have "q \<noteq> r" using q(2,3) ml by auto
      moreover have "hk_right t ! q = Some k"
        by (rule augmented_far [OF aug q(1,2)]) (use q(3) ml(2) in simp)
      ultimately show ?thesis using right [OF q(1)] by simp
    qed
  qed (use len in \<open>simp_all add: hk_match_def\<close>)
qed

text \<open>Enough fuel lets a step return; a failed step leaves the matching alone.\<close>

lemma remaining_step:
  assumes "l < lc" "hk_next s ! l < rc" "length (hk_next s) = lc"
  shows "hk_remaining lc rc s = Suc (hk_remaining lc rc (s\<lparr>hk_next := (hk_next s)[l := hk_next s ! l + 1]\<rparr>))"
proof -
  let ?s = "s\<lparr>hk_next := (hk_next s)[l := hk_next s ! l + 1]\<rparr>"
  have "hk_remaining lc rc t = (rc - hk_next t ! l) + (\<Sum>k \<in> {..<lc} - {l}. rc - hk_next t ! k)" for t
    unfolding hk_remaining_def using assms(1) by (subst sum.remove [of _ l]) auto
  moreover have "(\<Sum>k \<in> {..<lc} - {l}. rc - hk_next ?s ! k) = (\<Sum>k \<in> {..<lc} - {l}. rc - hk_next s ! k)"
    by (rule sum.cong) auto
  moreover have "rc - hk_next s ! l = Suc (rc - hk_next ?s ! l)" using assms by simp
  ultimately show ?thesis by simp
qed

definition step_done :: "nat \<Rightarrow> nat \<Rightarrow> edges \<Rightarrow> nat \<Rightarrow> hk \<Rightarrow> bool \<Rightarrow> hk \<Rightarrow> bool" where
  "step_done lc rc es l s b t \<longleftrightarrow> length (hk_next t) = lc \<and> length (hk_distance t) = lc
     \<and> hk_remaining lc rc t \<le> hk_remaining lc rc s
     \<and> (\<forall>k < lc. hk_distance s ! k < hk_distance s ! l \<longrightarrow> hk_distance t ! k = hk_distance s ! k)
     \<and> (if b then augmented lc rc es l s t else hk_left t = hk_left s \<and> hk_right t = hk_right s)"

lemma step_done_same:
  assumes "step_done lc rc es l s1 b t" "same_below lc l s s1" "hk_remaining lc rc s1 \<le> hk_remaining lc rc s"
    and "l < lc" "hk_inv lc rc es s"
  shows "step_done lc rc es l s b t"
proof -
  have d: "hk_distance s1 ! k = hk_distance s ! k" if "k < lc" "hk_distance s ! k \<le> hk_distance s ! l" for k
    using assms(2) that by (simp add: same_below_def)
  have "hk_distance t ! k = hk_distance s ! k" if "k < lc" "hk_distance s ! k < hk_distance s ! l" for k
    using assms(1) d [OF that(1)] d [OF assms(4)] that by (simp add: step_done_def)
  moreover have "if b then augmented lc rc es l s t else hk_left t = hk_left s \<and> hk_right t = hk_right s"
    using assms(1) augmented_same [OF assms(2) _ assms(4,5)] assms(2)
    by (cases b) (simp_all add: step_done_def same_below_def)
  moreover have "length (hk_next t) = lc" "length (hk_distance t) = lc"
    "hk_remaining lc rc t \<le> hk_remaining lc rc s1"
    using assms(1) unfolding step_done_def by blast+
  ultimately show ?thesis using assms(3) unfolding step_done_def by (meson order_trans)
qed

lemma step_ends:
  "hk_inv lc rc es s \<Longrightarrow> l < lc \<Longrightarrow> length (hk_next s) = lc \<Longrightarrow> hk_remaining lc rc s < fuel
    \<Longrightarrow> \<exists>b t. hk_augment fuel rc es l s = Some (b, t) \<and> step_done lc rc es l s b t"
proof (induction fuel arbitrary: l s)
  case 0
  then show ?case by simp
next
  case (Suc fuel)
  let ?r = "hk_next s ! l" and ?s = "s\<lparr>hk_next := (hk_next s)[l := hk_next s ! l + 1]\<rparr>"
  note len = hk_inv_length [OF Suc.prems(1)]
  show ?case
  proof (cases "?r < rc")
    case False
    let ?t = "s\<lparr>hk_distance := (hk_distance s)[l := - 1]\<rparr>"
    have "hk_augment (Suc fuel) rc es l s = Some (False, ?t)" using False by (simp add: Let_def del: not_None_eq)
    moreover have "step_done lc rc es l s False ?t"
      using len Suc.prems(2,3) by (auto simp: step_done_def hk_remaining_def nth_list_update)
    ultimately show ?thesis by blast
  next
    case r: True
    have rem: "hk_remaining lc rc s = Suc (hk_remaining lc rc ?s)"
      by (rule remaining_step [OF Suc.prems(2) r Suc.prems(3)])
    have inv: "hk_inv lc rc es ?s" by (rule hk_inv_same [OF Suc.prems(1)]) (simp_all add: len)
    have fuel: "hk_remaining lc rc ?s < fuel" using rem Suc.prems(4) by simp
    have below: "same_below lc l s ?s" by (simp add: same_below_def)
    have next_ok: "length (hk_next ?s) = lc" using Suc.prems(3) by simp
    have go_on: "\<exists>b t. hk_augment fuel rc es l s1 = Some (b, t) \<and> step_done lc rc es l s b t"
      if s1: "same_below lc l s s1" "length (hk_next s1) = lc" "hk_remaining lc rc s1 \<le> hk_remaining lc rc ?s"
      for s1
    proof -
      have "hk_inv lc rc es s1"
        by (rule hk_inv_same [OF Suc.prems(1)]) (use s1(1) len in \<open>simp_all add: same_below_def\<close>)
      from Suc.IH [OF this Suc.prems(2) s1(2)] s1(3) fuel obtain b t
        where t: "hk_augment fuel rc es l s1 = Some (b, t)" "step_done lc rc es l s1 b t" by auto
      have "step_done lc rc es l s b t"
        by (rule step_done_same [OF t(2) s1(1) _ Suc.prems(2,1)]) (use s1(3) rem in simp)
      with t(1) show ?thesis by blast
    qed
    show ?thesis
    proof (cases "es ! l ! ?r = None")
      case True
      then have "hk_augment (Suc fuel) rc es l s = hk_augment fuel rc es l ?s" using r by (simp add: Let_def del: not_None_eq)
      with go_on [OF below next_ok] show ?thesis by simp
    next
      case e: False
      show ?thesis
      proof (cases "hk_right s ! ?r")
        case None
        then have eq: "hk_augment (Suc fuel) rc es l s = Some (True, hk_match l ?r ?s)"
          using r e by (simp add: Let_def del: not_None_eq)
        have "augmented lc rc es l ?s (hk_match l ?r ?s)"
          by (rule free_step [OF inv Suc.prems(2) r e]) (simp add: None)
        then have "step_done lc rc es l ?s True (hk_match l ?r ?s)"
          using len Suc.prems(3) by (simp add: step_done_def hk_match_def hk_remaining_def)
        then have "step_done lc rc es l s True (hk_match l ?r ?s)"
          by (rule step_done_same [OF _ below _ Suc.prems(2,1)]) (simp add: rem)
        with eq show ?thesis by blast
      next
        case (Some ml)
        show ?thesis
        proof (cases "hk_distance s ! ml = hk_distance s ! l + 1")
          case False
          then have "hk_augment (Suc fuel) rc es l s = hk_augment fuel rc es l ?s"
            using r e Some by (simp add: Let_def del: not_None_eq)
          with go_on [OF below next_ok] show ?thesis by simp
        next
          case d: True
          have ml: "ml < lc" using hk_inv_right [OF Suc.prems(1) r Some] by simp
          from Suc.IH [OF inv ml next_ok fuel] obtain b t
            where t: "hk_augment fuel rc es ml ?s = Some (b, t)" "step_done lc rc es ml ?s b t" by auto
          have near: "hk_distance t ! k = hk_distance s ! k"
            if "k < lc" "hk_distance s ! k \<le> hk_distance s ! l" for k
          proof -
            have "hk_distance ?s ! k < hk_distance ?s ! ml" using that(2) d by simp
            with t(2) that(1) have "hk_distance t ! k = hk_distance ?s ! k"
              unfolding step_done_def by blast
            then show ?thesis by simp
          qed
          have tl: "length (hk_next t) = lc" "length (hk_distance t) = lc"
            "hk_remaining lc rc t \<le> hk_remaining lc rc ?s"
            using t(2) unfolding step_done_def by blast+
          show ?thesis
          proof (cases b)
            case True
            with t r e Some d have eq: "hk_augment (Suc fuel) rc es l s = Some (True, hk_match l ?r t)"
              by (simp add: Let_def del: not_None_eq)
            have "augmented lc rc es ml ?s t" using t(2) True by (simp add: step_done_def)
            then have "augmented lc rc es l ?s (hk_match l ?r t)"
              by (rule nested_step [OF inv Suc.prems(2) r e, rotated 2]) (simp_all add: Some d)
            then have "step_done lc rc es l ?s True (hk_match l ?r t)"
              using tl near unfolding step_done_def by (simp add: hk_match_def hk_remaining_def)
            then have "step_done lc rc es l s True (hk_match l ?r t)"
              by (rule step_done_same [OF _ below _ Suc.prems(2,1)]) (simp add: rem)
            with eq show ?thesis by blast
          next
            case False
            with t r e Some d have eq: "hk_augment (Suc fuel) rc es l s = hk_augment fuel rc es l t"
              by (simp add: Let_def del: not_None_eq)
            have "same_below lc l s t"
              using t(2) False near tl len unfolding same_below_def step_done_def by simp
            from go_on [OF this tl(1,3)] eq show ?thesis by simp
          qed
        qed
      qed
    qed
  qed
qed

section \<open>The seed\<close>

lemma augmented_inv:
  assumes "augmented lc rc es l s s'" "hk_left s ! l = None"
  shows "hk_inv lc rc es s'"
proof (rule hk_invI)
  show "r < rc \<and> es ! k ! r \<noteq> None \<and> hk_right s' ! r = Some k"
    if "k < lc" "hk_left s' ! k = Some r" for k r
    using assms(1) that unfolding augmented_def by blast
  show "k < lc \<and> hk_left s' ! k = Some r" if "r < rc" "hk_right s' ! r = Some k" for r k
  proof -
    have "k < lc \<and> (hk_left s' ! k = Some r \<or> k = l \<and> hk_left s ! l = Some r)"
      using assms(1) that unfolding augmented_def by blast
    then show ?thesis by (simp add: assms(2))
  qed
qed (use assms(1) in \<open>simp_all add: augmented_def\<close>)

lemma seed_inv: "hk_inv lc rc es (hk_seed lc rc es seed)"
proof -
  have "hk_inv lc rc es (fold (hk_seed_pair lc rc es) ps s)"
    if "hk_inv lc rc es s" "distinct (map fst ps)" "\<forall>p \<in> set ps. fst p < lc \<longrightarrow> hk_left s ! fst p = None"
    for ps s
    using that
  proof (induction ps arbitrary: s)
    case (Cons p ps)
    obtain l r where p: "p = (l, r)" by (cases p)
    have inv: "hk_inv lc rc es (hk_seed_pair lc rc es p s)
      \<and> (\<forall>q \<in> set ps. fst q < lc \<longrightarrow> hk_left (hk_seed_pair lc rc es p s) ! fst q = None)"
    proof (cases "r = None \<or> l \<ge> lc \<or> the r \<ge> rc \<or> hk_right s ! the r \<noteq> None \<or> es ! l ! the r = None")
      case True
      then have "hk_seed_pair lc rc es p s = s"
        by (auto simp: hk_seed_pair_def p split: option.split)
      with Cons.prems show ?thesis by simp
    next
      case False
      then obtain q where q: "r = Some q" "l < lc" "q < rc" "hk_right s ! q = None" "es ! l ! q \<noteq> None"
        by auto
      then have eq: "hk_seed_pair lc rc es p s = hk_match l q s"
        by (simp add: hk_seed_pair_def p)
      have free: "hk_left s ! l = None" using Cons.prems(3) p q(2) by simp
      have "hk_inv lc rc es (hk_match l q s)"
        by (rule augmented_inv [OF free_step [OF Cons.prems(1) q(2,3,5,4)] free])
      moreover have "hk_left (hk_match l q s) ! fst q' = None" if "q' \<in> set ps" "fst q' < lc" for q'
      proof -
        have "fst q' \<noteq> l" using Cons.prems(2) p that(1) by auto
        with Cons.prems(3) that show ?thesis by (simp add: hk_match_def)
      qed
      ultimately show ?thesis unfolding eq by blast
    qed
    with Cons.IH [of "hk_seed_pair lc rc es p s"] Cons.prems(2) show ?case by simp
  qed simp
  moreover have "distinct (map fst (List.enumerate 0 seed))" by simp
  moreover have "hk_inv lc rc es \<lparr>hk_left = replicate lc None, hk_right = replicate rc None,
      hk_distance = replicate lc 0, hk_next = []\<rparr>"
    by (rule hk_invI) simp_all
  ultimately show ?thesis unfolding hk_seed_def by simp
qed

section \<open>The levels\<close>

text \<open>The edge between \<open>l\<close> and \<open>r\<close> is followed: its right end was counted, or its partner has a level.\<close>

definition followed :: "edges \<Rightarrow> matching \<Rightarrow> int list \<Rightarrow> bool \<Rightarrow> nat \<Rightarrow> nat \<Rightarrow> bool" where
  "followed es right dist found l r \<longleftrightarrow> es ! l ! r \<noteq> None
     \<longrightarrow> (case right ! r of None \<Rightarrow> found | Some k \<Rightarrow> 0 \<le> dist ! k)"

text \<open>\<open>todo l r\<close> says that the edge may still have to be followed.\<close>

definition bfs_inv :: "nat \<Rightarrow> nat \<Rightarrow> edges \<Rightarrow> hk \<Rightarrow> (nat \<Rightarrow> nat \<Rightarrow> bool) \<Rightarrow> int list \<times> nat list \<times> bool \<Rightarrow> bool" where
  "bfs_inv lc rc es s todo = (\<lambda>(dist, queue, found).
     length dist = lc \<and> distinct queue \<and> (\<forall>l \<in> set queue. l < lc \<and> 0 \<le> dist ! l)
     \<and> (\<forall>l < lc. hk_left s ! l = None \<longrightarrow> dist ! l = 0)
     \<and> (\<forall>l < lc. 0 \<le> dist ! l \<longrightarrow> hk_left s ! l = None
          \<or> (\<exists>p < lc. \<exists>r < rc. 0 \<le> dist ! p \<and> dist ! l = dist ! p + 1 \<and> es ! p ! r \<noteq> None
              \<and> hk_right s ! r = Some l))
     \<and> (found \<longrightarrow> (\<exists>l < lc. \<exists>r < rc. 0 \<le> dist ! l \<and> es ! l ! r \<noteq> None \<and> hk_right s ! r = None))
     \<and> (\<forall>l < lc. \<forall>r < rc. 0 \<le> dist ! l \<and> l \<notin> set queue \<and> \<not> todo l r
          \<longrightarrow> followed es (hk_right s) dist found l r))"

definition unseen :: "nat \<Rightarrow> int list \<Rightarrow> nat" where
  "unseen lc dist = card {l. l < lc \<and> dist ! l < 0}"

lemma visit_inv:
  assumes inv: "hk_inv lc rc es s" and b: "bfs_inv lc rc es s (\<lambda>k q. k = l \<and> r \<le> q) (dist, queue, found)"
    and l: "l < lc" "0 \<le> dist ! l" and r: "r < rc"
    and v: "hk_visit es (hk_right s) l r (dist, queue, found) = (dist', queue', found')"
  shows "bfs_inv lc rc es s (\<lambda>k q. k = l \<and> Suc r \<le> q) (dist', queue', found')
    \<and> 0 \<le> dist' ! l \<and> unseen lc dist' + length queue' = unseen lc dist + length queue"
proof -
  have len: "length dist = lc" and dq: "distinct queue" and q: "\<forall>l \<in> set queue. l < lc \<and> 0 \<le> dist ! l"
    and free: "\<forall>l < lc. hk_left s ! l = None \<longrightarrow> dist ! l = 0"
    and pred: "\<forall>l < lc. 0 \<le> dist ! l \<longrightarrow> hk_left s ! l = None
          \<or> (\<exists>p < lc. \<exists>r < rc. 0 \<le> dist ! p \<and> dist ! l = dist ! p + 1 \<and> es ! p ! r \<noteq> None
              \<and> hk_right s ! r = Some l)"
    and fnd: "found \<longrightarrow> (\<exists>l < lc. \<exists>r < rc. 0 \<le> dist ! l \<and> es ! l ! r \<noteq> None \<and> hk_right s ! r = None)"
    and fol: "\<forall>k < lc. \<forall>q < rc. 0 \<le> dist ! k \<and> k \<notin> set queue \<and> \<not> (k = l \<and> r \<le> q)
          \<longrightarrow> followed es (hk_right s) dist found k q"
    using b unfolding bfs_inv_def by auto
  show ?thesis
  proof (cases "es ! l ! r = None")
    case True
    then have eq: "dist' = dist" "queue' = queue" "found' = found" using v by (simp_all add: hk_visit_def)
    have "followed es (hk_right s) dist found k q"
      if "k < lc" "q < rc" "0 \<le> dist ! k" "k \<notin> set queue" "\<not> (k = l \<and> Suc r \<le> q)" for k q
    proof (cases "k = l \<and> q = r")
      case True
      with \<open>es ! l ! r = None\<close> show ?thesis by (simp add: followed_def)
    next
      case False
      with that fol show ?thesis by (metis le_antisym not_less_eq_eq)
    qed
    then show ?thesis
      using len dq q free pred fnd l unfolding eq bfs_inv_def by simp
  next
    case e: False
    show ?thesis
    proof (cases "hk_right s ! r")
      case None
      then have eq: "dist' = dist" "queue' = queue" "found' = True"
        using v e by (auto simp: hk_visit_def)
      have "followed es (hk_right s) dist True k q"
        if "k < lc" "q < rc" "0 \<le> dist ! k" "k \<notin> set queue" "\<not> (k = l \<and> Suc r \<le> q)" for k q
      proof (cases "k = l \<and> q = r")
        case True
        with None show ?thesis by (simp add: followed_def)
      next
        case False
        with that fol have "followed es (hk_right s) dist found k q" by (metis le_antisym not_less_eq_eq)
        then show ?thesis by (auto simp: followed_def split: option.splits)
      qed
      moreover have "\<exists>l < lc. \<exists>r < rc. 0 \<le> dist ! l \<and> es ! l ! r \<noteq> None \<and> hk_right s ! r = None"
        using l r e None by blast
      ultimately show ?thesis
        using len dq q free pred l unfolding eq bfs_inv_def by simp
    next
      case (Some k)
      have k: "k < lc" "hk_left s ! k = Some r" using hk_inv_right [OF inv r Some] by auto
      show ?thesis
      proof (cases "dist ! k < 0")
        case False
        then have eq: "dist' = dist" "queue' = queue" "found' = found"
          using v e Some by (auto simp: hk_visit_def)
        have "followed es (hk_right s) dist found k' q"
          if "k' < lc" "q < rc" "0 \<le> dist ! k'" "k' \<notin> set queue" "\<not> (k' = l \<and> Suc r \<le> q)" for k' q
        proof (cases "k' = l \<and> q = r")
          case True
          with Some False show ?thesis by (simp add: followed_def)
        next
          case False
          with that fol show ?thesis by (metis le_antisym not_less_eq_eq)
        qed
        then show ?thesis
          using len dq q free pred fnd l unfolding eq bfs_inv_def by simp
      next
        case True
        then have eq: "dist' = dist[k := dist ! l + 1]" "queue' = queue @ [k]" "found' = found"
          using v e Some by (auto simp: hk_visit_def)
        have kl: "k \<noteq> l" using True l by auto
        have kq: "k \<notin> set queue" using q True by auto
        have grow: "0 \<le> dist' ! j" if "0 \<le> dist ! j" for j
          using that l True len k by (cases "j = k") (simp_all add: eq)
        have same: "dist' ! j = dist ! j" if "j \<noteq> k" for j using that by (simp add: eq)
        have here: "dist' ! k = dist ! l + 1" using len k by (simp add: eq)
        have before: "0 \<le> dist ! j" if "0 \<le> dist' ! j" "j \<noteq> k" for j using that same by simp
        have A1: "followed es (hk_right s) dist' found' k' q"
          if "k' < lc" "q < rc" "0 \<le> dist' ! k'" "k' \<notin> set queue'" "\<not> (k' = l \<and> Suc r \<le> q)" for k' q
        proof (cases "k' = l \<and> q = r")
          case True
          with Some here l show ?thesis by (simp add: followed_def)
        next
          case False
          have "k' \<noteq> k" "k' \<notin> set queue" using that(4) by (auto simp: eq)
          moreover have "\<not> (k' = l \<and> r \<le> q)" using False that(5) by auto
          ultimately have "followed es (hk_right s) dist found k' q"
            using that fol before by blast
          then show ?thesis using grow by (auto simp: followed_def eq(3) split: option.splits)
        qed
        have A2: "hk_left s ! j = None
            \<or> (\<exists>p < lc. \<exists>r < rc. 0 \<le> dist' ! p \<and> dist' ! j = dist' ! p + 1 \<and> es ! p ! r \<noteq> None
              \<and> hk_right s ! r = Some j)" if "j < lc" "0 \<le> dist' ! j" for j
        proof (cases "j = k")
          case True
          have "0 \<le> dist' ! l \<and> dist' ! j = dist' ! l + 1" using True here same [of l] kl l by simp
          with l(1) r e Some True show ?thesis by blast
        next
          case False
          have "hk_left s ! j = None \<or> (\<exists>p < lc. \<exists>r < rc. 0 \<le> dist ! p \<and> dist ! j = dist ! p + 1
              \<and> es ! p ! r \<noteq> None \<and> hk_right s ! r = Some j)"
            using pred that(1) before [OF that(2) False] by blast
          moreover have "p \<noteq> k" if "0 \<le> dist ! p" for p using that True by auto
          ultimately show ?thesis using same [OF False] same grow by metis
        qed
        have A3: "hk_left s ! j = None \<longrightarrow> dist' ! j = 0" if "j < lc" for j
          using free that k same [of j] by (cases "j = k") auto
        have A4: "found' \<longrightarrow> (\<exists>l < lc. \<exists>r < rc. 0 \<le> dist' ! l \<and> es ! l ! r \<noteq> None \<and> hk_right s ! r = None)"
          using fnd grow eq(3) by blast
        have A5: "j < lc \<and> 0 \<le> dist' ! j" if "j \<in> set queue'" for j
          using that q grow here k l by (auto simp: eq(2))
        have A6: "unseen lc dist = Suc (unseen lc dist')"
        proof -
          have "{j. j < lc \<and> dist ! j < 0} = insert k {j. j < lc \<and> dist' ! j < 0}"
            using True k here l same by (auto simp: not_le [symmetric]) (metis grow)
          moreover have "k \<notin> {j. j < lc \<and> dist' ! j < 0}" using here l by simp
          ultimately show ?thesis by (simp add: unseen_def)
        qed
        have A7: "length dist' = lc" "distinct queue'" using len dq kq by (simp_all add: eq)
        have "bfs_inv lc rc es s (\<lambda>k q. k = l \<and> Suc r \<le> q) (dist', queue', found')"
          unfolding bfs_inv_def prod.case using A1 A2 A3 A4 A5 A7 by blast
        then show ?thesis using A6 grow l by (simp add: eq(2))
      qed
    qed
  qed
qed

lemma visits_inv:
  assumes inv: "hk_inv lc rc es s" and l: "l < lc"
  shows "bfs_inv lc rc es s (\<lambda>k q. k = l \<and> 0 \<le> q) st \<Longrightarrow> 0 \<le> fst st ! l \<Longrightarrow> n \<le> rc
    \<Longrightarrow> bfs_inv lc rc es s (\<lambda>k q. k = l \<and> n \<le> q) (fold (hk_visit es (hk_right s) l) [0..<n] st)
      \<and> 0 \<le> fst (fold (hk_visit es (hk_right s) l) [0..<n] st) ! l
      \<and> (case fold (hk_visit es (hk_right s) l) [0..<n] st of (dist', queue', found') \<Rightarrow>
          unseen lc dist' + length queue' = unseen lc (fst st) + length (fst (snd st)))"
proof (induction n)
  case 0
  then show ?case by (simp split: prod.split)
next
  case (Suc n)
  obtain dist queue found where st: "fold (hk_visit es (hk_right s) l) [0..<n] st = (dist, queue, found)"
    by (metis prod_cases3)
  obtain dist' queue' found' where v: "hk_visit es (hk_right s) l n (dist, queue, found) = (dist', queue', found')"
    by (metis prod_cases3)
  have b: "bfs_inv lc rc es s (\<lambda>k q. k = l \<and> n \<le> q) (dist, queue, found)" "0 \<le> dist ! l"
    "unseen lc dist + length queue = unseen lc (fst st) + length (fst (snd st))"
    using Suc st by auto
  have "fold (hk_visit es (hk_right s) l) [0..<Suc n] st = (dist', queue', found')"
    using st v by simp
  moreover have "n < rc" using Suc.prems(3) by simp
  ultimately show ?case using visit_inv [OF inv b(1) l b(2) _ v] b(3) by (simp del: upt_Suc)
qed

lemma bfs_ends:
  assumes inv: "hk_inv lc rc es s"
  shows "bfs_inv lc rc es s (\<lambda>_ _. False) (dist, queue, found) \<Longrightarrow> unseen lc dist + length queue \<le> fuel
    \<Longrightarrow> \<exists>dist' found'. hk_bfs fuel rc es (hk_right s) (dist, queue, found) = Some (dist', found')
        \<and> bfs_inv lc rc es s (\<lambda>_ _. False) (dist', [], found')"
proof (induction fuel arbitrary: dist queue found)
  case 0
  then show ?case by simp
next
  case (Suc fuel)
  show ?case
  proof (cases queue)
    case Nil
    with Suc.prems show ?thesis by simp
  next
    case (Cons l rest)
    have l: "l < lc" "0 \<le> dist ! l" and lr: "l \<notin> set rest"
      using Suc.prems(1) Cons by (auto simp: bfs_inv_def)
    have start: "bfs_inv lc rc es s (\<lambda>k q. k = l \<and> 0 \<le> q) (dist, rest, found)"
      using Suc.prems(1) unfolding Cons bfs_inv_def by auto
    obtain dist' queue' found' where st: "fold (hk_visit es (hk_right s) l) [0..<rc] (dist, rest, found)
        = (dist', queue', found')"
      by (metis prod_cases3)
    note v = visits_inv [OF inv l(1) start, of rc, unfolded st]
    have b: "bfs_inv lc rc es s (\<lambda>k q. k = l \<and> rc \<le> q) (dist', queue', found')"
      "unseen lc dist' + length queue' = unseen lc dist + length rest"
      using v l(2) by simp_all
    have "bfs_inv lc rc es s (\<lambda>_ _. False) (dist', queue', found')"
      using b(1) unfolding bfs_inv_def by auto
    moreover have "unseen lc dist' + length queue' \<le> fuel" using b(2) Suc.prems(2) Cons by simp
    ultimately show ?thesis using Suc.IH st Cons by simp
  qed
qed

lemma card_halves: "card {l. l < n \<and> \<not> P l} + card {l. l < n \<and> P l} = (n :: nat)"
proof -
  have "{l. l < n \<and> \<not> P l} \<union> {l. l < n \<and> P l} = {..<n}" by auto
  moreover have "{l. l < n \<and> \<not> P l} \<inter> {l. l < n \<and> P l} = {}" by auto
  ultimately show ?thesis
    using card_Un_disjoint [of "{l. l < n \<and> \<not> P l}" "{l. l < n \<and> P l}"] by simp
qed

lemma levels_ends:
  assumes inv: "hk_inv lc rc es s"
  shows "\<exists>dist found. hk_levels lc rc es s = Some (dist, found)
    \<and> bfs_inv lc rc es s (\<lambda>_ _. False) (dist, [], found)"
proof -
  define dist where "dist = map (\<lambda>r. if r = None then 0 else - 1 :: int) (hk_left s)"
  define queue where "queue = filter (\<lambda>l. hk_left s ! l = None) [0..<lc]"
  have len: "length (hk_left s) = lc" using hk_inv_length [OF inv] by simp
  have d: "dist ! l = (if hk_left s ! l = None then 0 else - 1)" if "l < lc" for l
    using that len by (simp add: dist_def)
  have "bfs_inv lc rc es s (\<lambda>_ _. False) (dist, queue, False)"
    using len d unfolding bfs_inv_def by (auto simp: dist_def queue_def split: if_splits)
  moreover have "unseen lc dist + length queue = lc"
  proof -
    have "{l. l < lc \<and> dist ! l < 0} = {l. l < lc \<and> hk_left s ! l \<noteq> None}"
      using d by (auto split: if_splits)
    moreover have "length queue = card {l. l < lc \<and> hk_left s ! l = None}"
    proof -
      have "distinct queue" by (simp add: queue_def)
      then have "length queue = card (set queue)" by (rule distinct_card [symmetric])
      also have "set queue = {l. l < lc \<and> hk_left s ! l = None}" by (auto simp: queue_def)
      finally show ?thesis .
    qed
    moreover have "card {l. l < lc \<and> hk_left s ! l \<noteq> None} + card {l. l < lc \<and> hk_left s ! l = None}
        = card {..<lc}"
      using card_halves [of lc "\<lambda>l. hk_left s ! l = None"] by simp
    ultimately show ?thesis by (simp add: unseen_def)
  qed
  ultimately show ?thesis
    using bfs_ends [OF inv, of dist queue False lc] by (simp add: hk_levels_def dist_def queue_def)
qed

section \<open>A phase makes progress\<close>

text \<open>
  \<open>blocked\<close>: the edges \<open>l\<close> has tried all lead to a matched vertex off the next level, or to one
  that was given up. \<open>exhausted\<close> collects what holds as long as no step succeeded.
\<close>

definition blocked :: "nat \<Rightarrow> edges \<Rightarrow> int list \<Rightarrow> hk \<Rightarrow> nat \<Rightarrow> bool" where
  "blocked rc es D s l \<longleftrightarrow> (\<forall>r < rc. r < hk_next s ! l \<and> es ! l ! r \<noteq> None
     \<longrightarrow> (\<exists>k. hk_right s ! r = Some k \<and> (D ! k \<noteq> D ! l + 1 \<or> hk_distance s ! k = - 1)))"

definition given_up :: "nat \<Rightarrow> nat \<Rightarrow> int list \<Rightarrow> hk \<Rightarrow> bool" where
  "given_up lc rc D s \<longleftrightarrow> (\<forall>k < lc. hk_distance s ! k = D ! k
     \<or> hk_distance s ! k = - 1 \<and> rc \<le> hk_next s ! k)"

definition fails_from :: "nat \<Rightarrow> nat \<Rightarrow> edges \<Rightarrow> int list \<Rightarrow> nat \<Rightarrow> hk \<Rightarrow> hk \<Rightarrow> bool" where
  "fails_from lc rc es D l s t \<longleftrightarrow> hk_left t = hk_left s \<and> hk_right t = hk_right s
     \<and> length (hk_next t) = lc \<and> length (hk_distance t) = lc
     \<and> given_up lc rc D t \<and> (\<forall>k < lc. D ! l \<le> D ! k \<longrightarrow> blocked rc es D t k)
     \<and> hk_distance t ! l = - 1
     \<and> (\<forall>k < lc. hk_distance s ! k = - 1 \<longrightarrow> hk_distance t ! k = - 1)
     \<and> (\<forall>k < lc. k \<noteq> l \<and> D ! k \<le> D ! l
          \<longrightarrow> hk_next t ! k = hk_next s ! k \<and> hk_distance t ! k = hk_distance s ! k)"

lemma blocked_mono:
  assumes "blocked rc es D s l" "hk_next t ! l = hk_next s ! l" "hk_right t = hk_right s"
    and "hk_inv lc rc es s" "\<And>k. k < lc \<Longrightarrow> hk_distance s ! k = - 1 \<Longrightarrow> hk_distance t ! k = - 1"
  shows "blocked rc es D t l"
  unfolding blocked_def
proof (intro allI impI)
  fix r assume r: "r < rc" "r < hk_next t ! l \<and> es ! l ! r \<noteq> None"
  with assms(1,2) obtain k where k: "hk_right s ! r = Some k" "D ! k \<noteq> D ! l + 1 \<or> hk_distance s ! k = - 1"
    by (auto simp: blocked_def)
  with assms(5) hk_inv_right [OF assms(4) r(1) k(1)] assms(3)
  show "\<exists>k. hk_right t ! r = Some k \<and> (D ! k \<noteq> D ! l + 1 \<or> hk_distance t ! k = - 1)" by auto
qed

lemma blocked_next:
  assumes "blocked rc es D s l" "hk_next t ! l = Suc (hk_next s ! l)" "hk_right t = hk_right s"
    and "hk_inv lc rc es s" "\<And>k. k < lc \<Longrightarrow> hk_distance s ! k = - 1 \<Longrightarrow> hk_distance t ! k = - 1"
    and "es ! l ! (hk_next s ! l) \<noteq> None \<Longrightarrow> \<exists>k. hk_right s ! (hk_next s ! l) = Some k
      \<and> (D ! k \<noteq> D ! l + 1 \<or> hk_distance t ! k = - 1)"
  shows "blocked rc es D t l"
  unfolding blocked_def
proof (intro allI impI)
  fix r assume r: "r < rc" "r < hk_next t ! l \<and> es ! l ! r \<noteq> None"
  show "\<exists>k. hk_right t ! r = Some k \<and> (D ! k \<noteq> D ! l + 1 \<or> hk_distance t ! k = - 1)"
  proof (cases "r = hk_next s ! l")
    case True
    with r assms(3,6) show ?thesis by simp
  next
    case False
    with r assms(2) have "r < hk_next s ! l" by simp
    with assms(1) r obtain k where k: "hk_right s ! r = Some k" "D ! k \<noteq> D ! l + 1 \<or> hk_distance s ! k = - 1"
      by (auto simp: blocked_def)
    with assms(5) hk_inv_right [OF assms(4) r(1) k(1)] assms(3) show ?thesis by auto
  qed
qed

lemma failed_step:
  "hk_augment fuel rc es l s = Some (False, t) \<Longrightarrow> hk_inv lc rc es s \<Longrightarrow> l < lc \<Longrightarrow> length (hk_next s) = lc
    \<Longrightarrow> given_up lc rc D s \<Longrightarrow> hk_distance s ! l = D ! l \<Longrightarrow> 0 \<le> D ! l
    \<Longrightarrow> (\<And>k. k < lc \<Longrightarrow> D ! l \<le> D ! k \<Longrightarrow> blocked rc es D s k) \<Longrightarrow> fails_from lc rc es D l s t"
proof (induction fuel arbitrary: l s t)
  case 0
  then show ?case by simp
next
  case (Suc fuel)
  let ?r = "hk_next s ! l" and ?s = "s\<lparr>hk_next := (hk_next s)[l := hk_next s ! l + 1]\<rparr>"
  note len = hk_inv_length [OF Suc.prems(2)]
  show ?case
  proof (cases "?r < rc")
    case False
    then have t: "t = s\<lparr>hk_distance := (hk_distance s)[l := - 1]\<rparr>" using Suc.prems(1) by (simp add: Let_def)
    have "blocked rc es D t k" if "k < lc" "D ! l \<le> D ! k" for k
    proof (rule blocked_mono [OF Suc.prems(8) [OF that] _ _ Suc.prems(2)])
      show "hk_distance t ! j = - 1" if "j < lc" "hk_distance s ! j = - 1" for j
        using that len by (cases "j = l") (simp_all add: t)
    qed (simp_all add: t)
    moreover have here: "hk_distance t ! k = (if k = l then - 1 else hk_distance s ! k)" if "k < lc" for k
      using that len by (simp add: t)
    moreover have "given_up lc rc D t"
      using Suc.prems(5) False here unfolding given_up_def by (simp add: t)
    ultimately show ?thesis
      using len Suc.prems(3,4) unfolding fails_from_def by (simp add: t)
  next
    case r: True
    have inv: "hk_inv lc rc es ?s" by (rule hk_inv_same [OF Suc.prems(2)]) (simp_all add: len)
    have next_ok: "length (hk_next ?s) = lc" using Suc.prems(4) by simp
    have up: "given_up lc rc D ?s"
      using Suc.prems(5) unfolding given_up_def
      by (auto simp: nth_list_update Suc.prems(3,4,6))
    have go_on: "fails_from lc rc es D l s t"
      if t: "hk_augment fuel rc es l s1 = Some (False, t)"
        and s1: "hk_left s1 = hk_left s" "hk_right s1 = hk_right s" "length (hk_next s1) = lc"
          "length (hk_distance s1) = lc" "given_up lc rc D s1"
        and d1: "hk_distance s1 ! l = D ! l" "\<And>k. k < lc \<Longrightarrow> hk_distance s ! k = - 1 \<Longrightarrow> hk_distance s1 ! k = - 1"
        and n1: "hk_next s1 ! l = Suc ?r" "\<And>k. k < lc \<Longrightarrow> k \<noteq> l \<Longrightarrow> D ! k \<le> D ! l
          \<Longrightarrow> hk_next s1 ! k = hk_next s ! k \<and> hk_distance s1 ! k = hk_distance s ! k"
        and deep: "\<And>k. k < lc \<Longrightarrow> D ! l < D ! k \<Longrightarrow> blocked rc es D s1 k"
        and edge: "es ! l ! ?r \<noteq> None \<Longrightarrow> \<exists>k. hk_right s ! ?r = Some k
          \<and> (D ! k \<noteq> D ! l + 1 \<or> hk_distance s1 ! k = - 1)"
      for s1
    proof -
      have inv1: "hk_inv lc rc es s1" by (rule hk_inv_same [OF Suc.prems(2) s1(1,2,4)])
      have "blocked rc es D s1 k" if k: "k < lc" "D ! l \<le> D ! k" for k
      proof (cases "k = l")
        case True
        show ?thesis unfolding True
          by (rule blocked_next [OF Suc.prems(8) [OF Suc.prems(3)] n1(1) s1(2) Suc.prems(2) d1(2) edge]) simp_all
      next
        case kl: False
        show ?thesis
        proof (cases "D ! k = D ! l")
          case True
          show ?thesis
            by (rule blocked_mono [OF Suc.prems(8) [OF k] _ s1(2) Suc.prems(2) d1(2)])
              (use n1(2) [OF k(1) kl] True in simp_all)
        next
          case False
          with deep k show ?thesis by simp
        qed
      qed
      from Suc.IH [OF t inv1 Suc.prems(3) s1(3,5) d1(1) Suc.prems(7) this]
      have f: "fails_from lc rc es D l s1 t" .
      show ?thesis
        using f s1(1,2) d1(2) n1(2) unfolding fails_from_def by auto
    qed
    have simple: "fails_from lc rc es D l s t"
      if "hk_augment fuel rc es l ?s = Some (False, t)"
        and "es ! l ! ?r \<noteq> None \<Longrightarrow> \<exists>k. hk_right s ! ?r = Some k
          \<and> (D ! k \<noteq> D ! l + 1 \<or> hk_distance s ! k = - 1)"
    proof (rule go_on [OF that(1)])
      show "blocked rc es D ?s k" if "k < lc" "D ! l < D ! k" for k
      proof (rule blocked_mono [OF Suc.prems(8) [OF that(1)] _ _ Suc.prems(2)])
        have "k \<noteq> l" using that(2) by auto
        then show "hk_next ?s ! k = hk_next s ! k" by simp
      qed (use that(2) in simp_all)
    qed (use that(2) len up Suc.prems(3,4,6) in auto)
    show ?thesis
    proof (cases "es ! l ! ?r = None")
      case True
      with Suc.prems(1) r have "hk_augment fuel rc es l ?s = Some (False, t)"
        by (simp add: Let_def)
      with True show ?thesis by (intro simple) simp_all
    next
      case e: False
      show ?thesis
      proof (cases "hk_right s ! ?r")
        case None
        with Suc.prems(1) r e show ?thesis by (simp add: Let_def del: not_None_eq)
      next
        case (Some ml)
        have ml: "ml < lc" using hk_inv_right [OF Suc.prems(2) r Some] by simp
        show ?thesis
        proof (cases "hk_distance s ! ml = hk_distance s ! l + 1")
          case False
          then have "hk_augment fuel rc es l ?s = Some (False, t)"
            using Suc.prems(1) r e Some by (simp add: Let_def del: not_None_eq)
          moreover have "D ! ml \<noteq> D ! l + 1 \<or> hk_distance s ! ml = - 1"
            using False Suc.prems(5,6) ml by (auto simp: given_up_def)
          ultimately show ?thesis using Some by (intro simple) auto
        next
          case d: True
          then have dml: "hk_distance s ! ml = D ! ml" "D ! ml = D ! l + 1"
            using Suc.prems(5-7) ml by (auto simp: given_up_def)
          obtain b t1 where t1: "hk_augment fuel rc es ml ?s = Some (b, t1)"
            using Suc.prems(1) r e Some d
            by (cases "hk_augment fuel rc es ml ?s") (auto simp: Let_def simp del: not_None_eq)
          have b: "b = False" and rest: "hk_augment fuel rc es l t1 = Some (False, t)"
            using Suc.prems(1) r e Some d t1 by (cases b; simp add: Let_def del: not_None_eq)+
          have f: "fails_from lc rc es D ml ?s t1"
          proof (rule Suc.IH [OF t1 [unfolded b] inv ml next_ok up])
            show "hk_distance ?s ! ml = D ! ml" "0 \<le> D ! ml" using dml Suc.prems(7) by simp_all
            show "blocked rc es D ?s k" if "k < lc" "D ! ml \<le> D ! k" for k
            proof (rule blocked_mono [OF Suc.prems(8) [OF that(1)] _ _ Suc.prems(2)])
              show "D ! l \<le> D ! k" using that(2) dml(2) by simp
              have "k \<noteq> l" using that(2) dml(2) by auto
              then show "hk_next ?s ! k = hk_next s ! k" by simp
            qed simp_all
          qed
          show ?thesis
          proof (rule go_on [OF rest])
            show "blocked rc es D t1 k" if "k < lc" "D ! l < D ! k" for k
              using f that dml(2) unfolding fails_from_def by simp
            show "\<exists>k. hk_right s ! ?r = Some k \<and> (D ! k \<noteq> D ! l + 1 \<or> hk_distance t1 ! k = - 1)"
              using f Some unfolding fails_from_def by simp
            have ne: "l \<noteq> ml" using dml(2) by auto
            have keep: "hk_next t1 ! k = hk_next ?s ! k \<and> hk_distance t1 ! k = hk_distance s ! k"
              if "k < lc" "D ! k \<le> D ! l" for k
            proof -
              have "k \<noteq> ml" "D ! k \<le> D ! ml" using that dml(2) by auto
              with f that(1) show ?thesis unfolding fails_from_def by simp
            qed
            show "hk_distance t1 ! l = D ! l" using keep [OF Suc.prems(3)] Suc.prems(6) by simp
            show "hk_next t1 ! l = Suc ?r" using keep [OF Suc.prems(3)] Suc.prems(3,4) by simp
            show "hk_next t1 ! k = hk_next s ! k \<and> hk_distance t1 ! k = hk_distance s ! k"
              if "k < lc" "k \<noteq> l" "D ! k \<le> D ! l" for k
              using keep [OF that(1,3)] that(2) by simp
          qed (use f in \<open>simp_all add: fails_from_def\<close>)
        qed
      qed
    qed
  qed
qed

text \<open>A successful step from an unmatched vertex adds one pair.\<close>

lemma augmented_size:
  assumes "augmented lc rc es l s t" "hk_left s ! l = None" "l < lc" "length (hk_left s) = lc"
  shows "matching_size (hk_left t) = Suc (matching_size (hk_left s))"
proof -
  have "{k. k < lc \<and> hk_left t ! k \<noteq> None} = insert l {k. k < lc \<and> hk_left s ! k \<noteq> None}"
    using augmented_some [OF assms(1)] assms(3) by blast
  then show ?thesis using assms augmented_length [OF assms(1)] by (simp add: matching_size_card)
qed

text \<open>
  \<open>all_failed\<close>: no step of the phase succeeded so far, the vertices of \<open>ls\<close> are still to be tried
  and the unmatched ones outside are given up.
\<close>

definition all_failed :: "nat \<Rightarrow> nat \<Rightarrow> edges \<Rightarrow> int list \<Rightarrow> nat list \<Rightarrow> hk \<Rightarrow> bool" where
  "all_failed lc rc es D ls s \<longleftrightarrow> given_up lc rc D s
     \<and> (\<forall>k < lc. 0 \<le> D ! k \<longrightarrow> blocked rc es D s k)
     \<and> (\<forall>k < lc. hk_left s ! k = None \<longrightarrow> D ! k = 0
          \<and> hk_distance s ! k = (if k \<in> set ls then 0 else - 1))"

lemma all_failed_next:
  assumes "all_failed lc rc es D (l # ls) s" "l \<notin> set ls" "l < lc" "hk_left s ! l = None"
    and "length (hk_next s) = lc" "hk_inv lc rc es s" "hk_augment fuel rc es l s = Some (False, t)"
  shows "all_failed lc rc es D ls t"
proof -
  have l: "D ! l = 0" "hk_distance s ! l = 0" using assms(1,3,4) by (auto simp: all_failed_def)
  have f: "fails_from lc rc es D l s t"
    by (rule failed_step [OF assms(7,6,3,5)]) (use assms(1) l in \<open>auto simp: all_failed_def\<close>)
  have "D ! k = 0 \<and> hk_distance t ! k = (if k \<in> set ls then 0 else - 1)"
    if k: "k < lc" "hk_left t ! k = None" for k
  proof -
    have "D ! k = 0" "hk_distance s ! k = (if k \<in> set (l # ls) then 0 else - 1)"
      using assms(1) f k unfolding all_failed_def fails_from_def by auto
    then show ?thesis using f k(1) assms(2) l(1) unfolding fails_from_def by (cases "k = l") auto
  qed
  then show ?thesis using f l(1) unfolding all_failed_def fails_from_def by simp
qed

lemma all_failed_skip:
  "all_failed lc rc es D (l # ls) s \<Longrightarrow> hk_left s ! l \<noteq> None \<Longrightarrow> all_failed lc rc es D ls s"
  unfolding all_failed_def by (metis set_ConsD list.set_intros(2))

text \<open>The steps of one phase: they return, and either the matching has grown or all of them failed.\<close>

lemma augments_ends:
  "hk_inv lc rc es s \<Longrightarrow> length (hk_next s) = lc \<Longrightarrow> hk_remaining lc rc s < fuel
    \<Longrightarrow> distinct ls \<Longrightarrow> set ls \<subseteq> {..<lc}
    \<Longrightarrow> \<exists>t. hk_augments fuel rc es ls s = Some t \<and> hk_inv lc rc es t
        \<and> matching_size (hk_left s) \<le> matching_size (hk_left t)
        \<and> (all_failed lc rc es D ls s \<longrightarrow> matching_size (hk_left s) < matching_size (hk_left t)
            \<or> hk_left t = hk_left s \<and> hk_right t = hk_right s \<and> all_failed lc rc es D [] t)"
proof (induction ls arbitrary: s)
  case Nil
  then show ?case by simp
next
  case (Cons l ls)
  have l: "l < lc" "l \<notin> set ls" using Cons.prems(4,5) by auto
  show ?case
  proof (cases "hk_left s ! l = None")
    case False
    have "distinct ls" "set ls \<subseteq> {..<lc}" using Cons.prems(4,5) by auto
    from Cons.IH [OF Cons.prems(1-3) this] all_failed_skip [of lc rc es D l ls s] False
    show ?thesis by (auto simp del: not_None_eq)
  next
    case True
    from step_ends [OF Cons.prems(1) l(1) Cons.prems(2,3)] obtain b t
      where t: "hk_augment fuel rc es l s = Some (b, t)" "step_done lc rc es l s b t" by blast
    have next_ok: "length (hk_next t) = lc" "length (hk_distance t) = lc" "hk_remaining lc rc t < fuel"
      using t(2) Cons.prems(3) by (auto simp: step_done_def)
    have rest: "distinct ls" "set ls \<subseteq> {..<lc}" using Cons.prems(4,5) by auto
    have eq: "hk_augments fuel rc es (l # ls) s = hk_augments fuel rc es ls t" using True t(1) by simp
    show ?thesis
    proof (cases b)
      case b: True
      then have aug: "augmented lc rc es l s t" using t(2) by (simp add: step_done_def)
      have inv: "hk_inv lc rc es t" by (rule augmented_inv [OF aug True])
      have "matching_size (hk_left s) < matching_size (hk_left t)"
        using augmented_size [OF aug True l(1)] hk_inv_length [OF Cons.prems(1)] by simp
      with Cons.IH [OF inv next_ok(1,3) rest] show ?thesis unfolding eq by (meson less_le_trans less_imp_le)
    next
      case False
      then have same: "hk_left t = hk_left s" "hk_right t = hk_right s" using t(2) by (simp_all add: step_done_def)
      have inv: "hk_inv lc rc es t" by (rule hk_inv_same [OF Cons.prems(1) same next_ok(2)])
      have "all_failed lc rc es D ls t" if "all_failed lc rc es D (l # ls) s"
        by (rule all_failed_next [OF that l(2,1) True Cons.prems(2,1)]) (use t(1) False in simp)
      with Cons.IH [OF inv next_ok(1,3) rest] show ?thesis unfolding eq same by blast
    qed
  qed
qed

text \<open>When all steps failed, every vertex with a level was given up, and no free right vertex is in reach.\<close>

lemma all_failed_reached:
  assumes failed: "all_failed lc rc es D [] t" and right: "hk_right t = hk_right s"
    and left: "hk_left t = hk_left s" and b: "bfs_inv lc rc es s (\<lambda>_ _. False) (D, [], found)"
    and k: "k < lc" "0 \<le> D ! k"
  shows "hk_distance t ! k = - 1 \<and> rc \<le> hk_next t ! k"
  using k
proof (induction "nat (D ! k)" arbitrary: k rule: less_induct)
  case less
  have gone: "rc \<le> hk_next t ! k" if "hk_distance t ! k = - 1"
    using failed that less.prems by (auto simp: all_failed_def given_up_def)
  have "hk_left s ! k = None \<or> (\<exists>p < lc. \<exists>r < rc. 0 \<le> D ! p \<and> D ! k = D ! p + 1 \<and> es ! p ! r \<noteq> None
      \<and> hk_right s ! r = Some k)"
    using b less.prems unfolding bfs_inv_def prod.case by blast
  then show ?case
  proof (elim disjE exE conjE)
    assume "hk_left s ! k = None"
    with failed left less.prems(1) have "hk_distance t ! k = - 1" by (auto simp: all_failed_def)
    with gone show ?thesis by simp
  next
    fix p r assume p: "p < lc" "r < rc" "0 \<le> D ! p" "D ! k = D ! p + 1" "es ! p ! r \<noteq> None" "hk_right s ! r = Some k"
    have "rc \<le> hk_next t ! p" using less.hyps [of p] p(1,3,4) by simp
    moreover have "blocked rc es D t p" using failed p(1,3) by (simp add: all_failed_def)
    ultimately have "hk_distance t ! k = - 1" using p right by (auto simp: blocked_def)
    with gone show ?thesis by simp
  qed
qed

lemma phase_grows:
  assumes failed: "all_failed lc rc es D [] t" and right: "hk_right t = hk_right s"
    and left: "hk_left t = hk_left s" and b: "bfs_inv lc rc es s (\<lambda>_ _. False) (D, [], True)"
  shows False
proof -
  obtain l r where l: "l < lc" "r < rc" "0 \<le> D ! l" "es ! l ! r \<noteq> None" "hk_right s ! r = None"
    using b unfolding bfs_inv_def prod.case by blast
  have "rc \<le> hk_next t ! l" using all_failed_reached [OF failed right left b l(1,3)] by simp
  moreover have "blocked rc es D t l" using failed l(1,3) by (simp add: all_failed_def)
  ultimately show False using l right by (auto simp: blocked_def)
qed

section \<open>The phases end in a greatest matching\<close>

lemma phases_end:
  "hk_inv lc rc es s \<Longrightarrow> lc < fuel + matching_size (hk_left s)
    \<Longrightarrow> \<exists>t D. hk_phases fuel lc rc es s = Some t \<and> hk_inv lc rc es t
        \<and> bfs_inv lc rc es t (\<lambda>_ _. False) (D, [], False)
        \<and> matching_size (hk_left s) \<le> matching_size (hk_left t)"
proof (induction fuel arbitrary: s)
  case 0
  have "matching_size (hk_left s) \<le> lc" using valid_size [OF hk_valid [OF 0(1)]] by simp
  with 0(2) show ?case by simp
next
  case (Suc fuel)
  from levels_ends [OF Suc.prems(1)] obtain D found where D: "hk_levels lc rc es s = Some (D, found)"
    and b: "bfs_inv lc rc es s (\<lambda>_ _. False) (D, [], found)" by blast
  have len: "length D = lc" using b by (simp add: bfs_inv_def)
  show ?case
  proof (cases found)
    case False
    let ?t = "s\<lparr>hk_distance := D\<rparr>"
    have "hk_phases (Suc fuel) lc rc es s = Some ?t" using D False by simp
    moreover have "hk_inv lc rc es ?t" by (rule hk_inv_same [OF Suc.prems(1)]) (simp_all add: len)
    moreover have "bfs_inv lc rc es ?t (\<lambda>_ _. False) (D, [], False)"
      using b False by (simp add: bfs_inv_def)
    ultimately show ?thesis by auto
  next
    case True
    let ?s = "s\<lparr>hk_distance := D, hk_next := replicate lc 0\<rparr>" and ?fuel = "Suc (lc * rc)"
    have inv: "hk_inv lc rc es ?s" by (rule hk_inv_same [OF Suc.prems(1)]) (simp_all add: len)
    have "hk_remaining lc rc ?s = (\<Sum>l < lc. rc)" unfolding hk_remaining_def by (rule sum.cong) simp_all
    then have rem: "hk_remaining lc rc ?s < ?fuel" by simp
    have "all_failed lc rc es D [0..<lc] ?s"
      using b unfolding all_failed_def given_up_def blocked_def bfs_inv_def by simp
    moreover have "set [0..<lc] \<subseteq> {..<lc}" by auto
    ultimately obtain t
      where t: "hk_augments ?fuel rc es [0..<lc] ?s = Some t" and inv_t: "hk_inv lc rc es t"
        and or: "matching_size (hk_left s) < matching_size (hk_left t)
          \<or> hk_left t = hk_left s \<and> hk_right t = hk_right s \<and> all_failed lc rc es D [] t"
      using augments_ends [OF inv _ rem, of "[0..<lc]" D] by auto
    have more: "matching_size (hk_left s) < matching_size (hk_left t)"
      using or phase_grows [of lc rc es D t s] b True by auto
    with Suc.IH [OF inv_t] Suc.prems(2) obtain u D'
      where "hk_phases fuel lc rc es t = Some u" "hk_inv lc rc es u"
        "bfs_inv lc rc es u (\<lambda>_ _. False) (D', [], False)"
        "matching_size (hk_left t) \<le> matching_size (hk_left u)" by auto
    moreover have "hk_phases (Suc fuel) lc rc es s = hk_phases fuel lc rc es t" using D True t by simp
    moreover have "matching_size (hk_left s) \<le> matching_size (hk_left u)"
      using more calculation(4) by simp
    ultimately show ?thesis by (intro exI [of _ u] exI [of _ D'] conjI) simp_all
  qed
qed

text \<open>
  Koenig's argument: without a free right vertex in reach, an unreached left vertex covers its own
  pairs, and the partner of a reached right vertex is the cover of that vertex. Each pair of another
  matching is covered, and no cover serves two pairs.
\<close>

definition covers :: "hk \<Rightarrow> int list \<Rightarrow> matching \<Rightarrow> nat \<Rightarrow> nat" where
  "covers s D m l = (if D ! l < 0 then l else the (hk_right s ! the (m ! l)))"

lemma greatest_matching:
  assumes inv: "hk_inv lc rc es s" and b: "bfs_inv lc rc es s (\<lambda>_ _. False) (D, [], False)"
    and m: "valid_matching lc rc es m"
  shows "matching_size m \<le> matching_size (hk_left s)"
proof -
  let ?M = "{l. l < length m \<and> m ! l \<noteq> None}" and ?S = "{l. l < length (hk_left s) \<and> hk_left s ! l \<noteq> None}"
  note len = valid_length [OF m] hk_inv_length [OF inv]
  have unreached: "hk_left s ! l \<noteq> None" if "l < lc" "D ! l < 0" for l
    using b that unfolding bfs_inv_def by auto
  have reached: "\<exists>k. hk_right s ! r = Some k \<and> k < lc \<and> hk_left s ! k = Some r \<and> 0 \<le> D ! k"
    if l: "l < lc" "m ! l = Some r" "\<not> D ! l < 0" for l r
  proof -
    have r: "r < rc" "es ! l ! r \<noteq> None" using valid_pair [OF m l(1,2)] by auto
    have "followed es (hk_right s) D False l r" using b l r unfolding bfs_inv_def by simp
    then obtain k where k: "hk_right s ! r = Some k" "0 \<le> D ! k"
      using r(2) by (auto simp: followed_def split: option.splits)
    with hk_inv_right [OF inv r(1) k(1)] show ?thesis by simp
  qed
  have cover: "covers s D m l < lc \<and> hk_left s ! covers s D m l \<noteq> None
      \<and> (if D ! covers s D m l < 0 then l = covers s D m l else m ! l = hk_left s ! covers s D m l)"
    if l: "l \<in> ?M" for l
  proof (cases "D ! l < 0")
    case True
    then have "covers s D m l = l" by (simp add: covers_def)
    with l len True unreached [of l] show ?thesis by simp
  next
    case False
    obtain r where r: "m ! l = Some r" using l by auto
    then obtain k where k: "hk_right s ! r = Some k" "k < lc" "hk_left s ! k = Some r" "0 \<le> D ! k"
      using reached [of l r] False l len by auto
    with r False have "covers s D m l = k" by (simp add: covers_def)
    with k r show ?thesis by simp
  qed
  have "inj_on (covers s D m) ?M"
  proof (rule inj_onI)
    fix l l' assume l: "l \<in> ?M" "l' \<in> ?M" and eq: "covers s D m l = covers s D m l'"
    show "l = l'"
    proof (cases "D ! covers s D m l < 0")
      case True
      with cover [OF l(1)] cover [OF l(2)] eq show ?thesis by simp
    next
      case False
      with cover [OF l(1)] cover [OF l(2)] eq have same: "m ! l = m ! l'" by simp
      obtain r where r: "m ! l = Some r" using l(1) by auto
      then have "m ! l' = Some r" using same by simp
      from valid_inj [OF m _ _ r this] l len show ?thesis by simp
    qed
  qed
  moreover have "covers s D m ` ?M \<subseteq> ?S" using cover len by auto
  ultimately have "card ?M \<le> card ?S" by (rule card_inj_on_le) simp
  then show ?thesis by (simp add: matching_size_card)
qed

lemma phases_greatest:
  obtains t where "hk_phases (Suc lc) lc rc es (hk_seed lc rc es seed) = Some t"
    and "valid_matching lc rc es (hk_left t)"
    and "\<And>m. valid_matching lc rc es m \<Longrightarrow> matching_size m \<le> matching_size (hk_left t)"
proof -
  from phases_end [OF seed_inv, of lc "Suc lc" rc es seed] obtain t D
    where t: "hk_phases (Suc lc) lc rc es (hk_seed lc rc es seed) = Some t" "hk_inv lc rc es t"
      "bfs_inv lc rc es t (\<lambda>_ _. False) (D, [], False)" by (auto simp del: hk_phases.simps)
  show thesis using that [OF t(1) hk_valid [OF t(2)] greatest_matching [OF t(2,3)]] .
qed

end
