(* ===== verification/Auction.thy ===== *)
theory Auction
  imports Matching
begin

text \<open>
  The auction of \<open>improveMatchingScores\<close>. Whatever its 64-bit arithmetic does, a loop that returns
  leaves a proper assignment, and the matching keeps its size. While the prices fit in 64 bits, the
  loop returns, because a free slot of price zero bounds the prices that are worth paying, and no
  assignment is worth more than its own.
\<close>

section \<open>The best item\<close>

definition auction_value :: "(nat \<Rightarrow> int option) \<Rightarrow> int \<Rightarrow> int list \<Rightarrow> nat \<Rightarrow> int option" where
  "auction_value weight scale prices item = map_option (\<lambda>w. i64 (w * scale - prices ! item)) (weight item)"

text \<open>What \<open>bestItem\<close>, \<open>bestValue\<close> and \<open>secondValue\<close> are after the items \<open>I\<close>.\<close>

definition scanned :: "(nat \<Rightarrow> int option) \<Rightarrow> nat set \<Rightarrow> (nat \<times> int) option \<times> int option \<Rightarrow> bool" where
  "scanned val I = (\<lambda>(best, second).
     case best of
       None \<Rightarrow> (\<forall>i \<in> I. val i = None) \<and> second = None
     | Some (item, v) \<Rightarrow> item \<in> I \<and> val item = Some v \<and> (\<forall>i \<in> I. \<forall>x. val i = Some x \<longrightarrow> x \<le> v)
         \<and> (case second of None \<Rightarrow> \<forall>i \<in> I. i \<noteq> item \<longrightarrow> val i = None
            | Some s \<Rightarrow> (\<exists>i \<in> I. val i = Some s) \<and> (\<forall>i \<in> I. \<forall>x. i \<noteq> item \<longrightarrow> val i = Some x \<longrightarrow> x \<le> s)))"

lemma scan_step:
  assumes "scanned (auction_value weight scale prices) I st" "i \<notin> I"
  shows "scanned (auction_value weight scale prices) (insert i I) (auction_scan weight scale prices i st)"
proof -
  obtain best second where st: "st = (best, second)" by (cases st)
  show ?thesis
  proof (cases "weight i")
    case None
    then show ?thesis using assms
      by (auto simp: st scanned_def auction_scan_def auction_value_def split: option.splits)
  next
    case (Some w)
    let ?x = "i64 (w * scale - prices ! i)" and ?val = "auction_value weight scale prices"
    have x: "?val i = Some ?x" by (simp add: auction_value_def Some)
    show ?thesis
    proof (cases best)
      case None
      then show ?thesis using assms x by (auto simp: st scanned_def auction_scan_def Some)
    next
      case best: (Some b)
      obtain item v where b: "b = (item, v)" by (cases b)
      have sc: "item \<in> I" "?val item = Some v" "\<And>i x. i \<in> I \<Longrightarrow> ?val i = Some x \<Longrightarrow> x \<le> v" "i \<noteq> item"
        using assms by (auto simp: st best b scanned_def)
      have two: "case second of None \<Rightarrow> \<forall>i \<in> I. i \<noteq> item \<longrightarrow> ?val i = None
        | Some s \<Rightarrow> (\<exists>i \<in> I. ?val i = Some s) \<and> (\<forall>i \<in> I. \<forall>x. i \<noteq> item \<longrightarrow> ?val i = Some x \<longrightarrow> x \<le> s)"
        using assms by (auto simp: st best b scanned_def)
      have scan: "auction_scan weight scale prices i st = (if ?x > v then (Some (i, ?x), Some v)
          else if second = None \<or> ?x > the second then (best, Some ?x) else st)"
        by (simp add: st best b auction_scan_def Some Let_def)
      consider "?x > v" | "\<not> ?x > v" "second = None" | s where "\<not> ?x > v" "second = Some s" "?x > s"
        | s where "\<not> ?x > v" "second = Some s" "\<not> ?x > s" by (cases second) auto
      then show ?thesis
      proof cases
        case 1
        then have above: "x \<le> ?x" if "j \<in> I" "?val j = Some x" for j x using sc(3) [OF that] by linarith
        from 1 sc(1-3) x above show ?thesis unfolding scan scanned_def by (auto intro: sc(3))
      next
        case 2
        with sc x two show ?thesis unfolding scan scanned_def best b by auto
      next
        case 3
        then have above: "x \<le> ?x" if "j \<in> I" "j \<noteq> item" "?val j = Some x" for j x
          using two that by fastforce
        from 3 sc x above show ?thesis unfolding scan scanned_def best b by auto
      next
        case 4
        then have kept: "auction_scan weight scale prices i st = (Some (item, v), Some s)"
          unfolding scan by (simp add: st best b)
        from 4 sc x two show ?thesis unfolding kept scanned_def by auto
      qed
    qed
  qed
qed

lemma scan_all:
  "distinct is \<Longrightarrow> scanned (auction_value weight scale prices) (set is) (fold (auction_scan weight scale prices) is (None, None))"
proof (induction "is" rule: rev_induct)
  case Nil
  then show ?case by (simp add: scanned_def)
next
  case (snoc i "is")
  then have "distinct is" "i \<notin> set is" by auto
  with scan_step [OF snoc.IH] show ?case by simp
qed

section \<open>The state of the auction\<close>

definition auction_inv :: "nat \<Rightarrow> nat \<Rightarrow> edges \<Rightarrow> auction \<Rightarrow> bool" where
  "auction_inv lc rc es a \<longleftrightarrow>
     length (au_prices a) = rc + lc \<and> length (au_owners a) = rc + lc \<and> length (au_assignment a) = lc
     \<and> distinct (au_unassigned a) \<and> set (au_unassigned a) = {l. l < lc \<and> au_assignment a ! l = None}
     \<and> (\<forall>l < lc. \<forall>i. au_assignment a ! l = Some i \<longrightarrow> i < rc + lc \<and> au_owners a ! i = Some l)
     \<and> (\<forall>i < rc + lc. \<forall>l. au_owners a ! i = Some l \<longrightarrow> l < lc \<and> au_assignment a ! l = Some i)
     \<and> (\<forall>i < rc + lc. au_owners a ! i = None \<longrightarrow> au_prices a ! i = 0)"

lemma auction_invI:
  assumes "length (au_prices a) = rc + lc" "length (au_owners a) = rc + lc" "length (au_assignment a) = lc"
    and "distinct (au_unassigned a)" "set (au_unassigned a) = {l. l < lc \<and> au_assignment a ! l = None}"
    and "\<And>l i. l < lc \<Longrightarrow> au_assignment a ! l = Some i \<Longrightarrow> i < rc + lc \<and> au_owners a ! i = Some l"
    and "\<And>i l. i < rc + lc \<Longrightarrow> au_owners a ! i = Some l \<Longrightarrow> l < lc \<and> au_assignment a ! l = Some i"
    and "\<And>i. i < rc + lc \<Longrightarrow> au_owners a ! i = None \<Longrightarrow> au_prices a ! i = 0"
  shows "auction_inv lc rc es a"
  unfolding auction_inv_def using assms by blast

lemma auction_lengths:
  "auction_inv lc rc es a \<Longrightarrow> length (au_prices a) = rc + lc \<and> length (au_owners a) = rc + lc
    \<and> length (au_assignment a) = lc"
  unfolding auction_inv_def by blast

lemma auction_unassigned:
  "auction_inv lc rc es a \<Longrightarrow> distinct (au_unassigned a)
    \<and> set (au_unassigned a) = {l. l < lc \<and> au_assignment a ! l = None}"
  unfolding auction_inv_def by blast

lemma auction_assigned:
  "auction_inv lc rc es a \<Longrightarrow> l < lc \<Longrightarrow> au_assignment a ! l = Some i \<Longrightarrow> i < rc + lc \<and> au_owners a ! i = Some l"
  unfolding auction_inv_def by blast

lemma auction_owned:
  "auction_inv lc rc es a \<Longrightarrow> i < rc + lc \<Longrightarrow> au_owners a ! i = Some l \<Longrightarrow> l < lc \<and> au_assignment a ! l = Some i"
  unfolding auction_inv_def by blast

lemma auction_free:
  "auction_inv lc rc es a \<Longrightarrow> i < rc + lc \<Longrightarrow> au_owners a ! i = None \<Longrightarrow> au_prices a ! i = 0"
  unfolding auction_inv_def by blast

lemma auction_start_inv: "auction_inv lc rc es (auction_start lc rc)"
  by (auto simp: auction_inv_def auction_start_def)

text \<open>While a vertex is unassigned, a slot is free.\<close>

lemma free_slot:
  assumes inv: "auction_inv lc rc es a" and some: "au_unassigned a \<noteq> []"
  obtains i where "rc \<le> i" "i < rc + lc" "au_owners a ! i = None"
proof -
  have "\<exists>i \<in> {rc..<rc + lc}. au_owners a ! i = None"
  proof (rule ccontr)
    assume "\<not> ?thesis"
    then have owned: "\<exists>l. au_owners a ! i = Some l" if "i \<in> {rc..<rc + lc}" for i using that by auto
    let ?f = "\<lambda>i. the (au_owners a ! i)"
    have mutual: "?f i < lc \<and> au_assignment a ! ?f i = Some i" if i: "i \<in> {rc..<rc + lc}" for i
    proof -
      obtain l where "au_owners a ! i = Some l" using owned [OF i] by blast
      then show ?thesis using auction_owned [OF inv, of i l] i by simp
    qed
    have "inj_on ?f {rc..<rc + lc}"
      using mutual by (intro inj_onI) (metis option.inject)
    moreover have "?f ` {rc..<rc + lc} \<subseteq> {..<lc} - set (au_unassigned a)"
      using mutual auction_unassigned [OF inv] by auto
    ultimately have "card {rc..<rc + lc} \<le> card ({..<lc} - set (au_unassigned a))"
      by (rule card_inj_on_le) simp
    moreover have "{..<lc} - set (au_unassigned a) \<subset> {..<lc}"
      using some auction_unassigned [OF inv] by (cases "au_unassigned a") auto
    then have "card ({..<lc} - set (au_unassigned a)) < card {..<lc}" by (intro psubset_card_mono) simp_all
    ultimately show False by simp
  qed
  then show thesis using that by auto
qed

text \<open>The bid taken apart.\<close>

definition bid_state :: "nat \<Rightarrow> nat \<Rightarrow> int \<Rightarrow> auction \<Rightarrow> auction" where
  "bid_state left item price a =
     \<lparr>au_prices = (au_prices a)[item := price], au_owners = (au_owners a)[item := Some left],
      au_assignment = (case au_owners a ! item of None \<Rightarrow> (au_assignment a)[left := Some item]
        | Some k \<Rightarrow> (au_assignment a)[left := Some item, k := None]),
      au_unassigned = (case au_owners a ! item of None \<Rightarrow> tl (au_unassigned a)
        | Some k \<Rightarrow> k # tl (au_unassigned a))\<rparr>"

text \<open>A bid always finds an item, for the free slot is one.\<close>

abbreviation bid_value :: "nat \<Rightarrow> nat \<Rightarrow> edges \<Rightarrow> auction \<Rightarrow> nat \<Rightarrow> int option" where
  "bid_value lc rc es a \<equiv> auction_value (auction_weight lc rc es (hd (au_unassigned a))) (int lc + 1) (au_prices a)"

lemma bid_cases:
  assumes inv: "auction_inv lc rc es a" and some: "au_unassigned a \<noteq> []"
  obtains item v second where "auction_bid lc rc es a = Some (bid_state (hd (au_unassigned a)) item
      (i64 (au_prices a ! item + (case second of None \<Rightarrow> 1 | Some s \<Rightarrow> i64 (v - s + 1)))) a)"
    "item < rc + lc" "scanned (bid_value lc rc es a) {0..<rc + lc} (Some (item, v), second)"
proof -
  let ?left = "hd (au_unassigned a)"
  let ?weight = "auction_weight lc rc es ?left" and ?scale = "int lc + 1"
  obtain slot where slot: "rc \<le> slot" "slot < rc + lc" "au_owners a ! slot = None"
    using free_slot [OF inv some] .
  then have zero: "bid_value lc rc es a slot \<noteq> None" by (simp add: auction_weight_def auction_value_def)
  obtain best second where f: "fold (auction_scan ?weight ?scale (au_prices a)) [0..<rc + lc] (None, None)
      = (best, second)"
    by (cases "fold (auction_scan ?weight ?scale (au_prices a)) [0..<rc + lc] (None, None)")
  have "scanned (bid_value lc rc es a) (set [0..<rc + lc]) (best, second)"
    using scan_all [of "[0..<rc + lc]" ?weight ?scale "au_prices a"] unfolding f by simp
  then have sc: "scanned (bid_value lc rc es a) {0..<rc + lc} (best, second)" by simp
  then obtain item v where best: "best = Some (item, v)"
    using slot zero by (cases best) (force simp: scanned_def)+
  with sc have item: "item < rc + lc" by (simp add: scanned_def)
  show thesis
  proof (rule that [OF _ item sc [unfolded best]])
    show "auction_bid lc rc es a = Some (bid_state ?left item
      (i64 (au_prices a ! item + (case second of None \<Rightarrow> 1 | Some s \<Rightarrow> i64 (v - s + 1)))) a)"
      unfolding auction_bid_def Let_def f best
      by (cases "au_owners a ! item") (simp_all add: bid_state_def)
  qed
qed

lemma bid_inv:
  assumes inv: "auction_inv lc rc es a" and some: "au_unassigned a \<noteq> []" and item: "item < rc + lc"
  shows "auction_inv lc rc es (bid_state (hd (au_unassigned a)) item price a)"
proof -
  obtain l rest where ul: "au_unassigned a = l # rest" using some by (cases "au_unassigned a") auto
  note len = auction_lengths [OF inv]
  note as = auction_assigned [OF inv] and ow = auction_owned [OF inv] and pr = auction_free [OF inv]
  have un: "distinct (l # rest)" "set (l # rest) = {l. l < lc \<and> au_assignment a ! l = None}"
    using auction_unassigned [OF inv] ul by auto
  have l: "l < lc" "au_assignment a ! l = None" "l \<notin> set rest" using un by auto
  have rest: "k \<in> set rest \<longleftrightarrow> k < lc \<and> k \<noteq> l \<and> au_assignment a ! k = None" for k using un by auto
  let ?b = "bid_state l item price a"
  have owner: "au_owners ?b ! i = (if i = item then Some l else au_owners a ! i)" if "i < rc + lc" for i
    using that len by (simp add: bid_state_def)
  have assigned: "au_assignment ?b ! k = (if k = l then Some item
      else if au_owners a ! item = Some k then None else au_assignment a ! k)" if "k < lc" for k
  proof (cases "au_owners a ! item")
    case None
    then show ?thesis using that len by (simp add: bid_state_def)
  next
    case (Some j)
    then have "j \<noteq> l" using ow [OF item] l(2) by auto
    then show ?thesis using that len Some by (auto simp: bid_state_def nth_list_update)
  qed
  have unas: "distinct (au_unassigned ?b) \<and> set (au_unassigned ?b) = {k. k < lc \<and> au_assignment ?b ! k = None}"
  proof (cases "au_owners a ! item")
    case None
    then have "au_unassigned ?b = rest" by (simp add: bid_state_def ul)
    moreover have "k \<in> set rest \<longleftrightarrow> k < lc \<and> au_assignment ?b ! k = None" for k
      using rest [of k] assigned [of k] None by (cases "k < lc"; cases "k = l") simp_all
    then have "set rest = {k. k < lc \<and> au_assignment ?b ! k = None}" by blast
    ultimately show ?thesis using un by simp
  next
    case (Some j)
    have j: "j < lc" "au_assignment a ! j = Some item" using ow [OF item Some] by auto
    have queue: "au_unassigned ?b = j # rest" using Some by (simp add: bid_state_def ul)
    have fresh: "j \<notin> set rest" using rest [of j] j(2) by simp
    have mem: "k \<in> insert j (set rest) \<longleftrightarrow> k < lc \<and> au_assignment ?b ! k = None" for k
    proof (cases "k < lc")
      case True
      have "j \<noteq> l" using l(2) j(2) by auto
      then show ?thesis unfolding insert_iff rest assigned [OF True] Some using True by auto
    next
      case False
      then show ?thesis unfolding insert_iff rest using j(1) by auto
    qed
    have "set (au_unassigned ?b) = {k. k < lc \<and> au_assignment ?b ! k = None}"
      unfolding queue list.set by (rule set_eqI) (simp only: mem mem_Collect_eq)
    moreover have "distinct (au_unassigned ?b)" unfolding queue using fresh un(1) by simp
    ultimately show ?thesis by blast
  qed
  have as': "i < rc + lc \<and> au_owners ?b ! i = Some k" if k: "k < lc" "au_assignment ?b ! k = Some i" for k i
  proof (cases "k = l")
    case True
    with k assigned [OF k(1)] item owner [OF item] show ?thesis by simp
  next
    case False
    with k assigned [OF k(1)] have "au_assignment a ! k = Some i" "au_owners a ! item \<noteq> Some k"
      by (auto split: if_splits)
    with as [OF k(1)] owner [of i] show ?thesis by auto
  qed
  have ow': "k < lc \<and> au_assignment ?b ! k = Some i" if i: "i < rc + lc" "au_owners ?b ! i = Some k" for i k
  proof (cases "i = item")
    case True
    with i owner [OF i(1)] l(1) assigned [OF l(1)] show ?thesis by simp
  next
    case False
    with i owner [OF i(1)] have "au_owners a ! i = Some k" by simp
    with ow [OF i(1)] l False have "k < lc" "au_assignment a ! k = Some i" "k \<noteq> l" by auto
    moreover have "au_owners a ! item \<noteq> Some k" using ow [OF item, of k] calculation False by auto
    ultimately show ?thesis using assigned [of k] by simp
  qed
  have pr': "au_prices ?b ! i = 0" if "i < rc + lc" "au_owners ?b ! i = None" for i
  proof -
    have "i \<noteq> item" "au_owners a ! i = None" using that owner [OF that(1)] by (auto split: if_splits)
    then show ?thesis using pr [OF that(1)] by (simp add: bid_state_def)
  qed
  have "auction_inv lc rc es ?b"
  proof (rule auction_invI)
    show "length (au_prices ?b) = rc + lc" "length (au_owners ?b) = rc + lc" "length (au_assignment ?b) = lc"
      using len by (simp_all add: bid_state_def split: option.split)
    show "distinct (au_unassigned ?b)" "set (au_unassigned ?b) = {k. k < lc \<and> au_assignment ?b ! k = None}"
      using unas by blast+
  qed (fact as', fact ow', fact pr')
  then show ?thesis by (simp add: ul)
qed

text \<open>A loop that returns has assigned every vertex.\<close>

lemma auction_result:
  assumes inv: "auction_inv lc rc es a" and run: "auction_run lc rc es a = Some r"
  obtains b where "r = Some b" "auction_inv lc rc es b" "au_unassigned b = []"
proof -
  let ?P = "\<lambda>s. \<exists>a. s = Some a \<and> auction_inv lc rc es a"
  let ?going = "\<lambda>s :: auction option. case s of None \<Rightarrow> False | Some a \<Rightarrow> au_unassigned a \<noteq> []"
  note loop = run [unfolded auction_run_def]
  have "?P r"
  proof (rule while_option_rule [where P = ?P, OF _ loop])
    fix s assume "?P s" "?going s"
    then obtain c where c: "s = Some c" "auction_inv lc rc es c" "au_unassigned c \<noteq> []" by auto
    from bid_cases [OF c(2,3)] obtain item price where
      "auction_bid lc rc es c = Some (bid_state (hd (au_unassigned c)) item price c)" "item < rc + lc" by metis
    with bid_inv [OF c(2,3)] c(1) show "?P (auction_bid lc rc es (the s))" by auto
  qed (use inv in simp)
  moreover have "\<not> ?going r" by (rule while_option_stop [OF loop])
  ultimately show thesis using that by auto
qed

section \<open>The matching of an auction\<close>

lemma tally_matching_snoc: "tally_matching es (m @ [x]) = tally_pair es (length m, x) (tally_matching es m)"
  by (simp add: tally_matching_def enumerate_append_eq)

lemma matching_score_snoc:
  "matching_score es (m @ [x]) = matching_score es m
    + (case x of None \<Rightarrow> 0 | Some r \<Rightarrow> the (es ! length m ! r))"
proof -
  have "(\<Sum>i < length m. pair_detail es (m @ [x]) i) = (\<Sum>i < length m. pair_detail es m i)"
    by (rule sum.cong) (simp_all add: pair_detail_def nth_append)
  then show ?thesis by (simp add: matching_score_def pair_detail_def)
qed

lemma tally_matching_value:
  "tally_matching es m = Some (k, d) \<Longrightarrow> k = matching_size m \<and> d = i64 (matching_score es m)
    \<and> (\<forall>i < length m. \<forall>r. m ! i = Some r \<longrightarrow> es ! i ! r \<noteq> None)"
proof (induction m arbitrary: k d rule: rev_induct)
  case Nil
  then show ?case by (simp add: tally_matching_def matching_size_def matching_score_def i64_def)
next
  case (snoc x m)
  then obtain k' d' where t: "tally_matching es m = Some (k', d')"
    by (cases "tally_matching es m") (auto simp: tally_matching_snoc tally_pair_def)
  have ih: "k' = matching_size m" "d' = i64 (matching_score es m)"
    "\<And>i r. i < length m \<Longrightarrow> m ! i = Some r \<Longrightarrow> es ! i ! r \<noteq> None"
    using snoc.IH [OF t] by auto
  show ?case
  proof (cases x)
    case None
    with snoc.prems t ih show ?thesis
      by (auto simp: tally_matching_snoc tally_pair_def matching_score_snoc matching_size_def nth_append less_Suc_eq)
  next
    case (Some r)
    with snoc.prems t ih show ?thesis
      by (auto simp: tally_matching_snoc tally_pair_def matching_score_snoc matching_size_def nth_append less_Suc_eq
          i64_add_left split: option.splits)
  qed
qed

lemma tally_valid:
  "valid_matching lc rc es m \<Longrightarrow> tally_matching es m = Some (matching_size m, i64 (matching_score es m))"
proof -
  assume m: "valid_matching lc rc es m"
  have "(\<And>i r. i < length m \<Longrightarrow> m ! i = Some r \<Longrightarrow> es ! i ! r \<noteq> None) \<Longrightarrow> tally_matching es m \<noteq> None"
  proof (induction m rule: rev_induct)
    case Nil
    then show ?case by (simp add: tally_matching_def)
  next
    case (snoc x m)
    have "tally_matching es m \<noteq> None"
    proof (rule snoc.IH)
      show "es ! i ! r \<noteq> None" if "i < length m" "m ! i = Some r" for i r
        using snoc.prems [of i r] that by (simp add: nth_append)
    qed
    moreover have "es ! length m ! r \<noteq> None" if "x = Some r" for r using snoc.prems [of "length m" r] that by simp
    ultimately show ?case by (auto simp: tally_matching_snoc tally_pair_def split: option.split)
  qed
  then have "tally_matching es m \<noteq> None" using m valid_length [OF m] valid_pair [OF m] by blast
  then obtain k d where "tally_matching es m = Some (k, d)" by auto
  with tally_matching_value [OF this] show ?thesis by simp
qed

lemma auction_matching_valid:
  assumes inv: "auction_inv lc rc es a" and t: "tally_matching es (auction_matching rc (au_assignment a)) \<noteq> None"
  shows "valid_matching lc rc es (auction_matching rc (au_assignment a))"
proof -
  let ?m = "auction_matching rc (au_assignment a)"
  note len = auction_lengths [OF inv]
  obtain k d where kd: "tally_matching es ?m = Some (k, d)" using t by auto
  have item: "r < rc \<and> au_assignment a ! i = Some r" if "i < lc" "?m ! i = Some r" for i r
    using that len by (auto simp: auction_matching_def split: option.splits if_splits)
  show ?thesis
  proof (rule valid_matchingI)
    show "length ?m = lc" using len by (simp add: auction_matching_def)
    show "r < rc \<and> es ! i ! r \<noteq> None" if i: "i < lc" "?m ! i = Some r" for i r
      using tally_matching_value [OF kd] i item [OF i] len by (simp add: auction_matching_def)
    show "i = j" if ij: "i < lc" "j < lc" "?m ! i = Some r" "?m ! j = Some r" for i j r
      using auction_assigned [OF inv ij(1)] auction_assigned [OF inv ij(2)] item [OF ij(1,3)] item [OF ij(2,4)]
      by auto
  qed
qed

lemma improve_cases:
  assumes m: "valid_matching lc rc es m"
  obtains (kept) "improveMatchingScores lc rc es m = m"
  | (better) a where "auction_run lc rc es (auction_start lc rc) = Some (Some a)" "auction_inv lc rc es a"
      "improveMatchingScores lc rc es m = auction_matching rc (au_assignment a)"
      "valid_matching lc rc es (auction_matching rc (au_assignment a))"
      "matching_size (auction_matching rc (au_assignment a)) = matching_size m"
proof (cases "improveMatchingScores lc rc es m = m")
  case False
  have some: "\<not> (lc = 0 \<or> rc = 0 \<or> all_details es = [])"
    by (rule notI) (use False in \<open>simp add: improveMatchingScores_def\<close>)
  with False obtain r where r: "auction_run lc rc es (auction_start lc rc) = Some r"
    by (cases "auction_run lc rc es (auction_start lc rc)") (simp_all add: improveMatchingScores_def)
  obtain a where a: "r = Some a" "auction_inv lc rc es a" by (rule auction_result [OF auction_start_inv r])
  let ?c = "auction_matching rc (au_assignment a)"
  have eq: "improveMatchingScores lc rc es m = (case tally_matching es ?c of None \<Rightarrow> m
      | Some (k, d) \<Rightarrow> if k = matching_size m \<and> d > i64 (matching_score es m) then ?c else m)"
    using some r a(1) tally_valid [OF m] by (simp add: improveMatchingScores_def case_prod_unfold split: option.split)
  with False obtain k d where kd: "tally_matching es ?c = Some (k, d)" "k = matching_size m"
    "improveMatchingScores lc rc es m = ?c" by (auto split: option.splits prod.splits if_splits)
  moreover have "valid_matching lc rc es ?c" by (rule auction_matching_valid [OF a(2)]) (simp add: kd(1))
  moreover have "k = matching_size ?c" using tally_matching_value [OF kd(1)] by blast
  ultimately show thesis using better r a by auto
qed (rule kept)

lemma improve_matching:
  assumes "valid_matching lc rc es m"
  shows "valid_matching lc rc es (improveMatchingScores lc rc es m)
    \<and> matching_size (improveMatchingScores lc rc es m) = matching_size m"
  by (rule improve_cases [OF assms]) (use assms in simp_all)

section \<open>Scores that fit\<close>

definition detail_spread :: "edges \<Rightarrow> int" where
  "detail_spread es = Max (set (all_details es)) - Min (set (all_details es)) + 1"

text \<open>More than any weight, scaled.\<close>

definition auction_limit :: "nat \<Rightarrow> nat \<Rightarrow> edges \<Rightarrow> int" where
  "auction_limit lc rc es = detail_spread es * (int (min lc rc) + 2) * (int lc + 1)"

text \<open>No price, value or bid of the auction and no total score leaves the range of \<open>int64\<close>.\<close>

definition auction_fits :: "nat \<Rightarrow> nat \<Rightarrow> edges \<Rightarrow> bool" where
  "auction_fits lc rc es \<longleftrightarrow> 2 * auction_limit lc rc es + int lc + 2 < 2 ^ 63
     \<and> list_all (\<lambda>d. in_i64 (int lc * d)) (all_details es)"

definition auction_scores :: "nat \<Rightarrow> nat \<Rightarrow> edges \<Rightarrow> bool" where
  "auction_scores lc rc es \<longleftrightarrow> table_ok lc rc es \<and> all_details es \<noteq> [] \<and> auction_fits lc rc es"

lemma detail_range: "d \<in> set (all_details es) \<Longrightarrow> Min (set (all_details es)) \<le> d \<and> d \<le> Max (set (all_details es))"
  by simp

lemma spread_pos: "auction_scores lc rc es \<Longrightarrow> 1 \<le> detail_spread es"
proof -
  assume "auction_scores lc rc es"
  then obtain d where "d \<in> set (all_details es)" unfolding auction_scores_def by (cases "all_details es") auto
  from detail_range [OF this] show ?thesis by (simp add: detail_spread_def)
qed

lemma limit_nonneg: "auction_scores lc rc es \<Longrightarrow> 0 \<le> auction_limit lc rc es"
  using spread_pos [of lc rc es] by (simp add: auction_limit_def)

lemma small: "auction_scores lc rc es \<Longrightarrow> 2 * auction_limit lc rc es + int lc + 2 < 2 ^ 63"
  by (simp add: auction_scores_def auction_fits_def)

lemma exact_weight:
  assumes A: "auction_scores lc rc es" and l: "l < lc" "i < rc" "es ! l ! i = Some d"
  shows "0 \<le> pair_bonus lc rc (all_details es) + d - Min (set (all_details es))"
    and "(pair_bonus lc rc (all_details es) + d - Min (set (all_details es))) * (int lc + 1) \<le> auction_limit lc rc es"
    and "auction_weight lc rc es l i = Some (pair_bonus lc rc (all_details es) + d - Min (set (all_details es)))"
proof -
  let ?w = "pair_bonus lc rc (all_details es) + d - Min (set (all_details es))"
  have table: "table_ok lc rc es" using A by (simp add: auction_scores_def)
  note spread_pos = spread_pos [OF A] and small = small [OF A]
  have d: "Min (set (all_details es)) \<le> d" "d \<le> Max (set (all_details es))"
    using detail_range [OF details_in [OF table l]] by blast+
  have bonus: "pair_bonus lc rc (all_details es) = detail_spread es * (int (min lc rc) + 1)"
    by (simp add: pair_bonus_def detail_spread_def)
  then have "0 \<le> pair_bonus lc rc (all_details es)" using spread_pos by simp
  with d show w: "0 \<le> ?w" by linarith
  have "?w \<le> detail_spread es * (int (min lc rc) + 2)"
    using d unfolding bonus by (simp add: detail_spread_def algebra_simps)
  then show le: "?w * (int lc + 1) \<le> auction_limit lc rc es"
    unfolding auction_limit_def by (intro mult_right_mono) simp_all
  have "?w \<le> ?w * (int lc + 1)" using mult_left_mono [of 1 "int lc + 1" ?w] w by simp
  with le small w have "in_i64 ?w" by (simp add: in_i64_def)
  then show "auction_weight lc rc es l i = Some ?w" using l(2,3) by (simp add: auction_weight_def i64_id)
qed

lemma weight_range:
  assumes A: "auction_scores lc rc es" and l: "l < lc" and w: "auction_weight lc rc es l i = Some w"
  shows "0 \<le> w \<and> w * (int lc + 1) \<le> auction_limit lc rc es"
proof (cases "i < rc")
  case True
  then obtain d where d: "es ! l ! i = Some d" using w by (cases "es ! l ! i") (auto simp: auction_weight_def)
  from exact_weight [OF A l True d] w show ?thesis by simp
next
  case False
  with w limit_nonneg [OF A] show ?thesis by (simp add: auction_weight_def)
qed

section \<open>The auction ends\<close>

text \<open>
  A bid takes a free item, or it raises the price of an owned one that was worth its price; the
  second can happen only so often. Only the free slot may cost more than it is worth, by one more
  than all the other items, and this at most once for every vertex.
\<close>

definition free_items :: "auction \<Rightarrow> nat" where
  "free_items a = length (filter (\<lambda>x. x = None) (au_owners a))"

definition price_slack :: "int \<Rightarrow> auction \<Rightarrow> nat" where
  "price_slack limit a = (\<Sum>i < length (au_prices a). nat (limit - au_prices a ! i))"

lemma free_items_taken:
  "i < length os \<Longrightarrow> os ! i = None
    \<Longrightarrow> length (filter (\<lambda>x. x = None) (os[i := Some l])) < length (filter (\<lambda>x. x = None) os)"
proof (induction os arbitrary: i)
  case (Cons x os)
  then show ?case by (cases i) auto
qed simp

lemma free_items_kept:
  "i < length os \<Longrightarrow> os ! i \<noteq> None
    \<Longrightarrow> length (filter (\<lambda>x. x = None) (os[i := Some l])) = length (filter (\<lambda>x. x = None) os)"
proof (induction os arbitrary: i)
  case (Cons x os)
  then show ?case by (cases i) auto
qed simp

lemma price_slack_less:
  assumes "i < length (au_prices a)" "au_prices a ! i < limit" "au_prices a ! i < p"
  shows "price_slack limit (bid_state l i p a) < price_slack limit a"
proof -
  have "price_slack limit (bid_state l i p a)
      = nat (limit - p) + (\<Sum>k \<in> {..<length (au_prices a)} - {i}. nat (limit - au_prices a ! k))"
    unfolding price_slack_def using assms(1)
    by (subst sum.remove [of _ i]) (auto simp: bid_state_def intro!: sum.cong)
  moreover have "price_slack limit a
      = nat (limit - au_prices a ! i) + (\<Sum>k \<in> {..<length (au_prices a)} - {i}. nat (limit - au_prices a ! k))"
    unfolding price_slack_def using assms(1) by (subst sum.remove [of _ i]) auto
  ultimately show ?thesis using assms(2,3) by simp
qed

definition price_limit :: "nat \<Rightarrow> nat \<Rightarrow> edges \<Rightarrow> auction \<Rightarrow> int" where
  "price_limit lc rc es a = auction_limit lc rc es + 1 + int lc - int (length (au_unassigned a))"

definition prices_ok :: "nat \<Rightarrow> nat \<Rightarrow> edges \<Rightarrow> auction \<Rightarrow> bool" where
  "prices_ok lc rc es a \<longleftrightarrow> (\<forall>i < rc + lc. 0 \<le> au_prices a ! i \<and> au_prices a ! i \<le> price_limit lc rc es a)"

text \<open>Every vertex has an item that is, but for one, as good as any other at its price.\<close>

definition content :: "nat \<Rightarrow> nat \<Rightarrow> edges \<Rightarrow> auction \<Rightarrow> bool" where
  "content lc rc es a \<longleftrightarrow> (\<forall>l < lc. \<forall>i. au_assignment a ! l = Some i \<longrightarrow>
     (\<exists>w. auction_weight lc rc es l i = Some w \<and> (\<forall>k < rc + lc. \<forall>w'. auction_weight lc rc es l k = Some w' \<longrightarrow>
        w' * (int lc + 1) - au_prices a ! k \<le> w * (int lc + 1) - au_prices a ! i + 1)))"

definition fair_auction :: "nat \<Rightarrow> nat \<Rightarrow> edges \<Rightarrow> auction \<Rightarrow> bool" where
  "fair_auction lc rc es a \<longleftrightarrow> auction_inv lc rc es a \<and> prices_ok lc rc es a \<and> content lc rc es a"

lemma unassigned_head:
  "auction_inv lc rc es a \<Longrightarrow> au_unassigned a \<noteq> [] \<Longrightarrow> hd (au_unassigned a) < lc \<and> au_assignment a ! hd (au_unassigned a) = None"
  using auction_unassigned [of lc rc es a] by (cases "au_unassigned a") auto

lemma value_exact:
  assumes A: "auction_scores lc rc es" and inv: "auction_inv lc rc es a" and some: "au_unassigned a \<noteq> []" and ok: "prices_ok lc rc es a"
    and i: "i < rc + lc" and w: "auction_weight lc rc es (hd (au_unassigned a)) i = Some w"
  shows "bid_value lc rc es a i = Some (w * (int lc + 1) - au_prices a ! i)"
proof -
  note small = small [OF A] and limit_nonneg = limit_nonneg [OF A]
  have "0 \<le> au_prices a ! i" "au_prices a ! i \<le> auction_limit lc rc es + 1 + int lc"
    using ok i by (auto simp: prices_ok_def price_limit_def)
  moreover have "0 \<le> w * (int lc + 1)" "w * (int lc + 1) \<le> auction_limit lc rc es"
    using weight_range [OF A conjunct1 [OF unassigned_head [OF inv some]] w] by simp_all
  ultimately have "in_i64 (w * (int lc + 1) - au_prices a ! i)"
    unfolding in_i64_def using small limit_nonneg by linarith
  then show ?thesis by (simp add: auction_value_def w i64_id)
qed

lemma fair_bid:
  assumes A: "auction_scores lc rc es" and inv: "auction_inv lc rc es a" and some: "au_unassigned a \<noteq> []" and ok: "prices_ok lc rc es a"
  obtains item w price where "auction_bid lc rc es a = Some (bid_state (hd (au_unassigned a)) item price a)"
    "item < rc + lc" "auction_weight lc rc es (hd (au_unassigned a)) item = Some w"
    "au_prices a ! item < price" "au_prices a ! item \<le> auction_limit lc rc es"
    "price \<le> price_limit lc rc es (bid_state (hd (au_unassigned a)) item price a)"
    "\<And>k w'. k < rc + lc \<Longrightarrow> k \<noteq> item \<Longrightarrow> auction_weight lc rc es (hd (au_unassigned a)) k = Some w'
      \<Longrightarrow> w' * (int lc + 1) - au_prices a ! k \<le> w * (int lc + 1) - price + 1"
proof -
  note small = small [OF A] and limit_nonneg = limit_nonneg [OF A]
  let ?left = "hd (au_unassigned a)" and ?limit = "auction_limit lc rc es"
  let ?weight = "auction_weight lc rc es ?left" and ?scale = "int lc + 1" and ?u = "int (length (au_unassigned a))"
  obtain item v second where bid: "auction_bid lc rc es a = Some (bid_state ?left item
      (i64 (au_prices a ! item + (case second of None \<Rightarrow> 1 | Some s \<Rightarrow> i64 (v - s + 1)))) a)"
    and item: "item < rc + lc" and sc: "scanned (bid_value lc rc es a) {0..<rc + lc} (Some (item, v), second)"
    by (rule bid_cases [OF inv some])
  have left: "?left < lc" using unassigned_head [OF inv some] by blast
  have val: "bid_value lc rc es a k = map_option (\<lambda>w. w * ?scale - au_prices a ! k) (?weight k)" if "k < rc + lc" for k
    using value_exact [OF A inv some ok that] by (cases "?weight k") (simp_all add: auction_value_def)
  obtain w where w: "?weight item = Some w" "v = w * ?scale - au_prices a ! item"
    using sc val [OF item] by (auto simp: scanned_def)
  have wr: "0 \<le> w" "w * ?scale \<le> ?limit" using weight_range [OF A left w(1)] by blast+
  obtain slot where slot: "rc \<le> slot" "slot < rc + lc" "au_owners a ! slot = None" using free_slot [OF inv some] .
  have free: "?weight slot = Some 0" "au_prices a ! slot = 0"
    using slot auction_free [OF inv] by (simp_all add: auction_weight_def)
  have top: "x \<le> v" if "k < rc + lc" "bid_value lc rc es a k = Some x" for k x
    using sc that by (simp add: scanned_def)
  have v: "0 \<le> v" using top [OF slot(2)] val [OF slot(2)] free by simp
  have p: "0 \<le> au_prices a ! k" "au_prices a ! k \<le> ?limit + 1 + int lc - ?u" if "k < rc + lc" for k
    using ok that by (auto simp: prices_ok_def price_limit_def)
  have u: "1 \<le> ?u" using some by (cases "au_unassigned a") auto
  have second: "s \<le> v \<and> - (?limit + 1 + int lc - ?u) \<le> s \<and> (item \<noteq> slot \<longrightarrow> 0 \<le> s)
      \<and> (\<forall>k < rc + lc. \<forall>w'. k \<noteq> item \<longrightarrow> ?weight k = Some w' \<longrightarrow> w' * ?scale - au_prices a ! k \<le> s)" if s: "second = Some s" for s
  proof -
    obtain k where k: "k < rc + lc" "bid_value lc rc es a k = Some s" using sc s by (auto simp: scanned_def)
    then obtain wk where wk: "?weight k = Some wk" "s = wk * ?scale - au_prices a ! k" using val [OF k(1)] by auto
    have "0 \<le> wk * ?scale" using weight_range [OF A left wk(1)] by simp
    then have "- (?limit + 1 + int lc - ?u) \<le> s" using wk(2) p(2) [OF k(1)] by linarith
    moreover have all: "w' * ?scale - au_prices a ! j \<le> s" if "j < rc + lc" "j \<noteq> item" "?weight j = Some w'" for j w'
      using sc s val [OF that(1)] that by (simp add: scanned_def)
    moreover have "0 \<le> s" if "item \<noteq> slot" using all [of slot 0] that slot(2) free by simp
    ultimately show ?thesis using top [OF k] by blast
  qed
  define price where "price = au_prices a ! item + (case second of None \<Rightarrow> 1 | Some s \<Rightarrow> v - s + 1)"
  have eq: "i64 (au_prices a ! item + (case second of None \<Rightarrow> 1 | Some s \<Rightarrow> i64 (v - s + 1))) = price"
  proof (cases second)
    case None
    have "in_i64 (au_prices a ! item + 1)" unfolding in_i64_def using p [OF item] u small limit_nonneg by linarith
    then show ?thesis by (simp add: None price_def i64_id)
  next
    case (Some s)
    have b: "s \<le> v" "- (?limit + 1 + int lc - ?u) \<le> s" using second [OF Some] by blast+
    have "in_i64 (v - s + 1)" unfolding in_i64_def using b w(2) wr(2) p(1) [OF item] u small limit_nonneg by linarith
    moreover have "in_i64 (au_prices a ! item + (v - s + 1))"
      unfolding in_i64_def using b w(2) wr p(1) [OF item] u small limit_nonneg by linarith
    ultimately show ?thesis by (simp add: Some price_def i64_id)
  qed
  show thesis
  proof (rule that)
    show "auction_bid lc rc es a = Some (bid_state ?left item price a)" using bid unfolding eq .
    show "au_prices a ! item < price" using second by (auto simp: price_def split: option.split)
    show "au_prices a ! item \<le> ?limit" using v w(2) wr(2) by linarith
    show "price \<le> price_limit lc rc es (bid_state ?left item price a)"
    proof (cases "second = None \<or> item \<noteq> slot")
      case True
      have "int (length (au_unassigned (bid_state ?left item price a))) \<le> ?u"
        using some by (cases "au_unassigned a") (simp_all add: bid_state_def split: option.split)
      moreover have "price \<le> ?limit + 1"
      proof (cases second)
        case None
        then show ?thesis using v w(2) wr(2) by (simp add: price_def)
      next
        case (Some s)
        with True second [OF Some] show ?thesis using w(2) wr(2) by (simp add: price_def)
      qed
      moreover have "?u \<le> int lc"
      proof -
        have "length (au_unassigned a) = card (set (au_unassigned a))"
          using auction_unassigned [OF inv] by (metis distinct_card)
        also have "\<dots> \<le> card {..<lc}" by (rule card_mono) (use auction_unassigned [OF inv] in auto)
        finally show ?thesis by simp
      qed
      ultimately show ?thesis by (simp add: price_limit_def)
    next
      case False
      then obtain s where s: "second = Some s" "item = slot" by auto
      have "length (au_unassigned (bid_state ?left item price a)) = length (au_unassigned a) - 1"
        using slot(3) s(2) by (simp add: bid_state_def)
      moreover have "price = 1 - s" using w free s by (simp add: price_def)
      ultimately show ?thesis using second [OF s(1)] u by (simp add: price_limit_def of_nat_diff)
    qed
    show "w' * ?scale - au_prices a ! k \<le> w * ?scale - price + 1"
      if "k < rc + lc" "k \<noteq> item" "?weight k = Some w'" for k w'
    proof (cases second)
      case None
      then show ?thesis using sc val [OF that(1)] that by (simp add: scanned_def)
    next
      case (Some s)
      with second [OF Some] that w(2) show ?thesis by (simp add: price_def)
    qed
  qed (fact item, fact w(1))
qed

lemma bid_price: "i < length (au_prices a) \<Longrightarrow> au_prices (bid_state l item price a) ! i = (if i = item then price else au_prices a ! i)"
  by (simp add: bid_state_def)

lemma bid_assignment:
  assumes inv: "auction_inv lc rc es a" and some: "au_unassigned a \<noteq> []" and item: "item < rc + lc" and l: "l < lc"
    and as: "au_assignment (bid_state (hd (au_unassigned a)) item price a) ! l = Some i"
  shows "l = hd (au_unassigned a) \<and> i = item \<or> au_assignment a ! l = Some i \<and> i \<noteq> item"
proof -
  have len: "length (au_assignment a) = lc" using auction_lengths [OF inv] by blast
  note head = unassigned_head [OF inv some]
  consider "au_owners a ! item = None" | k where "au_owners a ! item = Some k" by (cases "au_owners a ! item") auto
  then show ?thesis
  proof cases
    case 1
    then have "(if hd (au_unassigned a) = l then Some item else au_assignment a ! l) = Some i"
      using as len l head by (simp add: bid_state_def nth_list_update)
    with 1 auction_assigned [OF inv l, of i] show ?thesis by (auto split: if_splits)
  next
    case 2
    with auction_owned [OF inv item] head have k: "k < lc" "au_assignment a ! k = Some item" "k \<noteq> hd (au_unassigned a)" by auto
    have "(if k = l then None else if hd (au_unassigned a) = l then Some item else au_assignment a ! l) = Some i"
      using 2 as len l k head by (auto simp: bid_state_def nth_list_update split: if_splits)
    with 2 k(3) auction_assigned [OF inv l, of i] show ?thesis by (auto split: if_splits)
  qed
qed

lemma fair_start: "auction_scores lc rc es \<Longrightarrow> fair_auction lc rc es (auction_start lc rc)"
  using auction_start_inv limit_nonneg
  by (auto simp: fair_auction_def prices_ok_def content_def price_limit_def auction_start_def)

lemma fair_step:
  assumes A: "auction_scores lc rc es" and fair: "fair_auction lc rc es a" and some: "au_unassigned a \<noteq> []"
  obtains b where "auction_bid lc rc es a = Some b" "fair_auction lc rc es b"
    "(b, a) \<in> measures [free_items, price_slack (auction_limit lc rc es + 1)]"
proof -
  let ?left = "hd (au_unassigned a)" and ?scale = "int lc + 1"
  have inv: "auction_inv lc rc es a" and ok: "prices_ok lc rc es a" and cont: "content lc rc es a"
    using fair by (simp_all add: fair_auction_def)
  obtain item w price where b: "auction_bid lc rc es a = Some (bid_state ?left item price a)"
    and item: "item < rc + lc" and w: "auction_weight lc rc es ?left item = Some w"
    and price: "au_prices a ! item < price" "au_prices a ! item \<le> auction_limit lc rc es"
      "price \<le> price_limit lc rc es (bid_state ?left item price a)"
    and best: "\<And>k w'. k < rc + lc \<Longrightarrow> k \<noteq> item \<Longrightarrow> auction_weight lc rc es ?left k = Some w'
      \<Longrightarrow> w' * ?scale - au_prices a ! k \<le> w * ?scale - price + 1"
    by (rule fair_bid [OF A inv some ok]) blast
  let ?b = "bid_state ?left item price a"
  note len = auction_lengths [OF inv]
  have prices: "au_prices ?b ! i = (if i = item then price else au_prices a ! i)" if "i < rc + lc" for i
    by (rule bid_price) (use that len in simp)
  have binv: "auction_inv lc rc es ?b" by (rule bid_inv [OF inv some item])
  have "length (au_unassigned ?b) \<le> length (au_unassigned a)"
    using some by (cases "au_unassigned a") (simp_all add: bid_state_def split: option.split)
  then have "price_limit lc rc es a \<le> price_limit lc rc es ?b" by (simp add: price_limit_def)
  then have "prices_ok lc rc es ?b"
    using ok price item prices by (fastforce simp: prices_ok_def)
  moreover have "content lc rc es ?b"
    unfolding content_def
  proof (intro allI impI)
    fix l i assume l: "l < lc" and as: "au_assignment ?b ! l = Some i"
    from bid_assignment [OF inv some item l as]
    show "\<exists>w. auction_weight lc rc es l i = Some w \<and> (\<forall>k < rc + lc. \<forall>w'. auction_weight lc rc es l k = Some w' \<longrightarrow>
        w' * ?scale - au_prices ?b ! k \<le> w * ?scale - au_prices ?b ! i + 1)"
    proof (elim disjE conjE)
      assume "l = ?left" "i = item"
      with w best item prices show ?thesis by (intro exI [of _ w]) auto
    next
      assume old: "au_assignment a ! l = Some i" "i \<noteq> item"
      then obtain w where w: "auction_weight lc rc es l i = Some w"
        and good: "\<And>k w'. k < rc + lc \<Longrightarrow> auction_weight lc rc es l k = Some w'
          \<Longrightarrow> w' * ?scale - au_prices a ! k \<le> w * ?scale - au_prices a ! i + 1"
        using cont l unfolding content_def by blast
      have i: "i < rc + lc" using auction_assigned [OF inv l old(1)] by blast
      have "w' * ?scale - au_prices ?b ! k \<le> w * ?scale - au_prices ?b ! i + 1"
        if "k < rc + lc" "auction_weight lc rc es l k = Some w'" for k w'
        using good [OF that] price(1) prices [OF that(1)] prices [OF i] old(2) by (auto split: if_splits)
      with w show ?thesis by blast
    qed
  qed
  moreover have "(?b, a) \<in> measures [free_items, price_slack (auction_limit lc rc es + 1)]"
  proof (cases "au_owners a ! item")
    case None
    then have "free_items ?b < free_items a"
      using free_items_taken [of item "au_owners a"] item len by (simp add: free_items_def bid_state_def)
    then show ?thesis by simp
  next
    case (Some k)
    then have "free_items ?b = free_items a"
      using free_items_kept [of item "au_owners a"] item len by (simp add: free_items_def bid_state_def)
    moreover have "price_slack (auction_limit lc rc es + 1) ?b < price_slack (auction_limit lc rc es + 1) a"
      using price item len by (intro price_slack_less) simp_all
    ultimately show ?thesis by simp
  qed
  ultimately show thesis using that [OF b] binv by (simp add: fair_auction_def)
qed

lemma auction_ends:
  assumes A: "auction_scores lc rc es"
  shows "\<exists>b. auction_run lc rc es (auction_start lc rc) = Some (Some b) \<and> fair_auction lc rc es b \<and> au_unassigned b = []"
proof -
  let ?P = "\<lambda>s. \<exists>a. s = Some a \<and> fair_auction lc rc es a"
  let ?going = "\<lambda>s :: auction option. case s of None \<Rightarrow> False | Some a \<Rightarrow> au_unassigned a \<noteq> []"
  let ?bid = "\<lambda>s. auction_bid lc rc es (the s)"
  let ?R = "inv_image (measures [free_items, price_slack (auction_limit lc rc es + 1)]) the"
  have step: "?P (?bid s) \<and> (?bid s, s) \<in> ?R" if s: "?P s" "?going s" for s
  proof -
    obtain c where c: "s = Some c" "fair_auction lc rc es c" "au_unassigned c \<noteq> []" using s by auto
    obtain d where "auction_bid lc rc es c = Some d" "fair_auction lc rc es d"
      "(d, c) \<in> measures [free_items, price_slack (auction_limit lc rc es + 1)]"
      using fair_step [OF A c(2,3)] .
    with c(1) show ?thesis by (simp add: in_inv_image)
  qed
  have "wf {(t, s). (?P s \<and> ?going s) \<and> t = ?bid s}"
  proof (rule wf_subset)
    show "wf ?R" by (intro wf_inv_image wf_measures)
    show "{(t, s). (?P s \<and> ?going s) \<and> t = ?bid s} \<subseteq> ?R" using step by blast
  qed
  then have "\<exists>t. while_option ?going ?bid (Some (auction_start lc rc)) = Some t"
    by (rule wf_while_option_Some [where P = ?P]) (use step fair_start [OF A] in auto)
  then obtain t where t: "while_option ?going ?bid (Some (auction_start lc rc)) = Some t" by blast
  have "?P t" by (rule while_option_rule [where P = ?P, OF _ t]) (use step fair_start [OF A] in auto)
  moreover have "\<not> ?going t" by (rule while_option_stop [OF t])
  ultimately show ?thesis using t by (auto simp: auction_run_def)
qed

section \<open>The assignment is worth the most\<close>

text \<open>What an item is worth to a vertex.\<close>

definition item_worth :: "nat \<Rightarrow> nat \<Rightarrow> edges \<Rightarrow> nat \<Rightarrow> nat \<Rightarrow> int" where
  "item_worth lc rc es l i = (case auction_weight lc rc es l i of None \<Rightarrow> 0 | Some w \<Rightarrow> w)"

text \<open>Every vertex has an item of its own that it may have.\<close>

definition complete_assignment :: "nat \<Rightarrow> nat \<Rightarrow> edges \<Rightarrow> (nat \<Rightarrow> nat) \<Rightarrow> bool" where
  "complete_assignment lc rc es b \<longleftrightarrow> inj_on b {..<lc} \<and> (\<forall>l < lc. b l < rc + lc \<and> auction_weight lc rc es l (b l) \<noteq> None)"

lemma fair_complete:
  assumes A: "auction_scores lc rc es" and fair: "fair_auction lc rc es a" and empty: "au_unassigned a = []"
  shows "complete_assignment lc rc es (\<lambda>l. the (au_assignment a ! l))"
    and "l < lc \<Longrightarrow> au_assignment a ! l = Some (the (au_assignment a ! l))"
proof -
  have inv: "auction_inv lc rc es a" and cont: "content lc rc es a" using fair by (simp_all add: fair_auction_def)
  have as: "au_assignment a ! l = Some (the (au_assignment a ! l))" if "l < lc" for l
    using auction_unassigned [OF inv] empty that by auto
  show "l < lc \<Longrightarrow> au_assignment a ! l = Some (the (au_assignment a ! l))" by (rule as)
  have "inj_on (\<lambda>l. the (au_assignment a ! l)) {..<lc}"
  proof (rule inj_onI)
    fix l k assume "l \<in> {..<lc}" "k \<in> {..<lc}" "the (au_assignment a ! l) = the (au_assignment a ! k)"
    then show "l = k" using as auction_assigned [OF inv] by (metis lessThan_iff option.inject)
  qed
  moreover have "the (au_assignment a ! l) < rc + lc \<and> auction_weight lc rc es l (the (au_assignment a ! l)) \<noteq> None" if "l < lc" for l
    using auction_assigned [OF inv that as [OF that]] cont as [OF that] that unfolding content_def by fastforce
  ultimately show "complete_assignment lc rc es (\<lambda>l. the (au_assignment a ! l))" by (simp add: complete_assignment_def)
qed

lemma fair_best:
  assumes A: "auction_scores lc rc es" and fair: "fair_auction lc rc es a" and empty: "au_unassigned a = []" and b: "complete_assignment lc rc es b"
  shows "(\<Sum>l < lc. item_worth lc rc es l (b l)) \<le> (\<Sum>l < lc. item_worth lc rc es l (the (au_assignment a ! l)))"
proof -
  let ?a = "\<lambda>l. the (au_assignment a ! l)" and ?scale = "int lc + 1" and ?p = "\<lambda>i. au_prices a ! i"
  let ?w = "item_worth lc rc es"
  have inv: "auction_inv lc rc es a" and ok: "prices_ok lc rc es a" and cont: "content lc rc es a"
    using fair by (simp_all add: fair_auction_def)
  note as = fair_complete(2) [OF A fair empty] and ca = fair_complete(1) [OF A fair empty]
  have each: "?w l (b l) * ?scale \<le> ?w l (?a l) * ?scale + 1 + (?p (b l) - ?p (?a l))" if l: "l < lc" for l
  proof -
    obtain w where w: "auction_weight lc rc es l (?a l) = Some w" and good: "\<And>k w'. k < rc + lc
        \<Longrightarrow> auction_weight lc rc es l k = Some w' \<Longrightarrow> w' * ?scale - ?p k \<le> w * ?scale - ?p (?a l) + 1"
      using cont l as [OF l] unfolding content_def by metis
    obtain w' where w': "auction_weight lc rc es l (b l) = Some w'" "b l < rc + lc"
      using b l by (auto simp: complete_assignment_def)
    from good [OF w'(2,1)] w w'(1) show ?thesis by (simp add: item_worth_def)
  qed
  have prices: "(\<Sum>l < lc. ?p (b l)) \<le> (\<Sum>l < lc. ?p (?a l))"
  proof -
    have "(\<Sum>l < lc. ?p (b l)) = (\<Sum>i \<in> b ` {..<lc}. ?p i)"
      using b by (simp add: complete_assignment_def sum.reindex)
    also have "\<dots> \<le> (\<Sum>i < rc + lc. ?p i)"
      by (rule sum_mono2) (use b ok in \<open>auto simp: complete_assignment_def prices_ok_def\<close>)
    also have "\<dots> = (\<Sum>i \<in> ?a ` {..<lc}. ?p i)"
    proof (rule sum.mono_neutral_right)
      show "\<forall>i \<in> {..<rc + lc} - ?a ` {..<lc}. ?p i = 0"
      proof
        fix i assume i: "i \<in> {..<rc + lc} - ?a ` {..<lc}"
        have "au_owners a ! i = None"
        proof (rule ccontr)
          assume "au_owners a ! i \<noteq> None"
          then obtain l where "au_owners a ! i = Some l" by auto
          with auction_owned [OF inv, of i l] i have "l < lc" "?a l = i" by auto
          with i show False by auto
        qed
        with auction_free [OF inv] i show "?p i = 0" by simp
      qed
    qed (use ca in \<open>auto simp: complete_assignment_def\<close>)
    also have "\<dots> = (\<Sum>l < lc. ?p (?a l))"
      using ca by (simp add: complete_assignment_def sum.reindex)
    finally show ?thesis .
  qed
  have "(\<Sum>l < lc. ?w l (b l) * ?scale) \<le> (\<Sum>l < lc. ?w l (?a l) * ?scale + 1 + (?p (b l) - ?p (?a l)))"
    by (rule sum_mono) (use each in simp)
  also have "\<dots> = (\<Sum>l < lc. ?w l (?a l)) * ?scale + int lc + ((\<Sum>l < lc. ?p (b l)) - (\<Sum>l < lc. ?p (?a l)))"
    by (simp add: sum.distrib sum_subtractf sum_distrib_right)
  also have "\<dots> < ((\<Sum>l < lc. ?w l (?a l)) + 1) * ?scale" using prices by (simp add: distrib_right)
  finally have "(\<Sum>l < lc. ?w l (b l)) * ?scale < ((\<Sum>l < lc. ?w l (?a l)) + 1) * ?scale"
    by (simp add: sum_distrib_right)
  then have "(\<Sum>l < lc. ?w l (b l)) < (\<Sum>l < lc. ?w l (?a l)) + 1" by (rule mult_right_less_imp_less) simp
  then show ?thesis by simp
qed

text \<open>A matching, with the slot of its own for a vertex without a partner, is such an assignment.\<close>

definition matching_items :: "nat \<Rightarrow> matching \<Rightarrow> nat \<Rightarrow> nat" where
  "matching_items rc m l = (case m ! l of None \<Rightarrow> rc + l | Some r \<Rightarrow> r)"

lemma matching_complete:
  assumes A: "auction_scores lc rc es" and m: "valid_matching lc rc es m"
  shows "complete_assignment lc rc es (matching_items rc m)"
    and "l < lc \<Longrightarrow> item_worth lc rc es l (matching_items rc m l) = pair_gain lc rc es m l"
proof -
  have "matching_items rc m l < rc + lc \<and> auction_weight lc rc es l (matching_items rc m l) \<noteq> None" if "l < lc" for l
    using valid_pair [OF m that] that by (cases "m ! l") (auto simp: matching_items_def auction_weight_def)
  moreover have "inj_on (matching_items rc m) {..<lc}"
  proof (rule inj_onI)
    fix i j assume "i \<in> {..<lc}" "j \<in> {..<lc}" "matching_items rc m i = matching_items rc m j"
    then show "i = j" using valid_pair [OF m, of i] valid_pair [OF m, of j] valid_inj [OF m, of i j]
      by (auto simp: matching_items_def split: option.splits)
  qed
  ultimately show "complete_assignment lc rc es (matching_items rc m)" by (simp add: complete_assignment_def)
  show "item_worth lc rc es l (matching_items rc m l) = pair_gain lc rc es m l" if l: "l < lc"
  proof (cases "m ! l")
    case None
    then show ?thesis by (simp add: matching_items_def item_worth_def auction_weight_def pair_gain_def)
  next
    case (Some r)
    then obtain d where "r < rc" "es ! l ! r = Some d" using valid_pair [OF m l] by auto
    with Some exact_weight(3) [OF A l] show ?thesis by (simp add: matching_items_def item_worth_def pair_gain_def)
  qed
qed

lemma auction_worth:
  assumes A: "auction_scores lc rc es" and fair: "fair_auction lc rc es a" and empty: "au_unassigned a = []"
  shows "valid_matching lc rc es (auction_matching rc (au_assignment a))"
    and "l < lc \<Longrightarrow> item_worth lc rc es l (the (au_assignment a ! l)) = pair_gain lc rc es (auction_matching rc (au_assignment a)) l"
proof -
  have inv: "auction_inv lc rc es a" using fair by (simp add: fair_auction_def)
  let ?m = "auction_matching rc (au_assignment a)"
  have len: "length (au_assignment a) = lc" using auction_lengths [OF inv] by blast
  note ca = fair_complete [OF A fair empty]
  have pos: "?m ! l = (if the (au_assignment a ! l) < rc then Some (the (au_assignment a ! l)) else None)" if l: "l < lc" for l
  proof -
    have "au_assignment a ! l = Some (the (au_assignment a ! l))" by (rule ca(2) [OF l])
    then obtain i where "au_assignment a ! l = Some i" by blast
    then show ?thesis using l len by (simp add: auction_matching_def)
  qed
  have real: "r < rc \<and> es ! l ! r \<noteq> None" if "l < lc" "?m ! l = Some r" for l r
  proof -
    have "r < rc" "r = the (au_assignment a ! l)" using that pos [OF that(1)] by (auto split: if_splits)
    with ca(1) that(1) show ?thesis by (fastforce simp: complete_assignment_def auction_weight_def)
  qed
  show "valid_matching lc rc es ?m"
  proof (rule valid_matchingI [OF _ real])
    show "length ?m = lc" using len by (simp add: auction_matching_def)
    fix i j r assume "i < lc" "j < lc" "?m ! i = Some r" "?m ! j = Some r"
    then have "the (au_assignment a ! i) = the (au_assignment a ! j)" using pos by (metis option.discI option.inject)
    with ca(1) \<open>i < lc\<close> \<open>j < lc\<close> show "i = j" by (auto simp: complete_assignment_def inj_on_def)
  qed
  show "item_worth lc rc es l (the (au_assignment a ! l)) = pair_gain lc rc es ?m l" if l: "l < lc"
  proof (cases "?m ! l")
    case None
    then show ?thesis using pos [OF l] by (auto simp: item_worth_def auction_weight_def pair_gain_def split: if_splits)
  next
    case (Some r)
    then obtain d where d: "r < rc" "es ! l ! r = Some d" using real [OF l] by auto
    moreover have "r = the (au_assignment a ! l)" using Some pos [OF l] by (auto split: if_splits)
    ultimately show ?thesis using Some exact_weight(3) [OF A l d] by (simp add: item_worth_def pair_gain_def)
  qed
qed

lemma score_fits:
  assumes A: "auction_scores lc rc es" and m: "valid_matching lc rc es m"
  shows "in_i64 (matching_score es m)"
proof -
  let ?lo = "Min (set (all_details es))" and ?hi = "Max (set (all_details es))" and ?k = "int (matching_size m)"
  have t: "table_ok lc rc es" using A by (simp add: auction_scores_def)
  have mem: "?lo \<in> set (all_details es)" "?hi \<in> set (all_details es)" using A by (simp_all add: auction_scores_def)
  then have b: "in_i64 (int lc * ?lo)" "in_i64 (int lc * ?hi)"
    using A by (simp_all add: auction_scores_def auction_fits_def list_all_iff)
  have k: "0 \<le> ?k" "?k \<le> int lc" using valid_size [OF m] by auto
  have "- (2 ^ 63) \<le> ?k * ?lo"
  proof (cases "0 \<le> ?lo")
    case True
    then have "0 \<le> ?k * ?lo" by simp
    then show ?thesis by simp
  next
    case False
    then have "int lc * ?lo \<le> ?k * ?lo" using k by (intro mult_right_mono_neg) simp_all
    with b(1) show ?thesis by (simp add: in_i64_def)
  qed
  moreover have "?k * ?hi < 2 ^ 63"
  proof (cases "0 \<le> ?hi")
    case True
    then have "?k * ?hi \<le> int lc * ?hi" using k by (intro mult_right_mono) simp_all
    with b(2) show ?thesis by (simp add: in_i64_def)
  next
    case False
    then have "?k * ?hi \<le> 0" using k(1) by (simp add: mult_nonneg_nonpos)
    then show ?thesis by simp
  qed
  ultimately show ?thesis using score_range [OF m t] by (simp add: in_i64_def)
qed

text \<open>The auction finds a greatest matching, and of these one with the greatest total score.\<close>

lemma auction_best:
  assumes A: "auction_scores lc rc es" and a: "fair_auction lc rc es a" "au_unassigned a = []" and m: "valid_matching lc rc es m"
  shows "matching_size m < matching_size (auction_matching rc (au_assignment a))
    \<or> matching_size m = matching_size (auction_matching rc (au_assignment a))
      \<and> matching_score es m \<le> matching_score es (auction_matching rc (au_assignment a))"
proof -
  let ?c = "auction_matching rc (au_assignment a)"
  have t: "table_ok lc rc es" "all_details es \<noteq> []" using A by (simp_all add: auction_scores_def)
  note c = auction_worth [OF A a]
  show ?thesis
  proof (rule gain_order [OF c(1) m t])
    have "(\<Sum>i < lc. pair_gain lc rc es m i) = (\<Sum>i < lc. item_worth lc rc es i (matching_items rc m i))"
      by (rule sum.cong) (simp_all add: matching_complete(2) [OF A m])
    also have "\<dots> \<le> (\<Sum>i < lc. item_worth lc rc es i (the (au_assignment a ! i)))"
      by (rule fair_best [OF A a matching_complete(1) [OF A m]])
    also have "\<dots> = (\<Sum>i < lc. pair_gain lc rc es ?c i)"
      by (rule sum.cong) (simp_all add: c(2))
    finally show "(\<Sum>i < lc. pair_gain lc rc es m i) \<le> (\<Sum>i < lc. pair_gain lc rc es ?c i)" .
  qed
qed

lemma improve_best:
  assumes A: "auction_scores lc rc es" and m: "valid_matching lc rc es m"
    and most: "\<And>n. valid_matching lc rc es n \<Longrightarrow> matching_size n \<le> matching_size m"
    and n: "valid_matching lc rc es n"
  shows "matching_size n < matching_size (improveMatchingScores lc rc es m)
    \<or> matching_size n = matching_size (improveMatchingScores lc rc es m)
      \<and> matching_score es n \<le> matching_score es (improveMatchingScores lc rc es m)"
proof -
  have t: "table_ok lc rc es" "all_details es \<noteq> []" using A by (simp_all add: auction_scores_def)
  obtain a where run: "auction_run lc rc es (auction_start lc rc) = Some (Some a)"
    and a: "fair_auction lc rc es a" "au_unassigned a = []" using auction_ends [OF A] by blast
  let ?c = "auction_matching rc (au_assignment a)"
  note c = auction_worth [OF A a] and best = auction_best [OF A a]
  have size: "matching_size ?c = matching_size m" using best [OF m] most [OF c(1)] by linarith
  have pos: "lc \<noteq> 0" "rc \<noteq> 0"
    using t by (auto simp: table_ok_def all_details_def list_all_iff List.map_filter_def)
  have "improveMatchingScores lc rc es m = (if matching_score es ?c > matching_score es m then ?c else m)"
    using pos t(2) run size tally_valid [OF m] tally_valid [OF c(1)]
    by (simp add: improveMatchingScores_def Let_def i64_id score_fits [OF A m] score_fits [OF A c(1)])
  with best [OF n] size show ?thesis by auto
qed

end
