(* ===== verification/Pairing.thy ===== *)
theory Pairing
  imports HopcroftKarp Auction
begin

text \<open>
  The solvers as providers of \<open>pair_solver\<close>: the linear-memory pairing for every seed, the choice
  between the two solvers by size, and the pairing in the order of sorted keys. The properties of
  the solvers are stated here.
\<close>

section \<open>The linear-memory pairing\<close>

lemma linear_seeded:
  shows "valid_matching lc rc es (fst (linearMemoryMaximumCardinalityPairsWithSeed lc rc es seed))"
    and "snd (linearMemoryMaximumCardinalityPairsWithSeed lc rc es seed)
      = mark_used rc (fst (linearMemoryMaximumCardinalityPairsWithSeed lc rc es seed))"
    and "valid_matching lc rc es m
      \<Longrightarrow> matching_size m \<le> matching_size (fst (linearMemoryMaximumCardinalityPairsWithSeed lc rc es seed))"
proof -
  obtain t where t: "hk_phases (Suc lc) lc rc es (hk_seed lc rc es seed) = Some t"
    "valid_matching lc rc es (hk_left t)"
    and most: "\<And>m. valid_matching lc rc es m \<Longrightarrow> matching_size m \<le> matching_size (hk_left t)"
    by (rule phases_greatest [of lc rc es seed]) (rule that)
  have eq: "linearMemoryMaximumCardinalityPairsWithSeed lc rc es seed
      = (improveMatchingScores lc rc es (hk_left t), mark_used rc (improveMatchingScores lc rc es (hk_left t)))"
    unfolding linearMemoryMaximumCardinalityPairsWithSeed_def t(1) by (simp add: Let_def)
  show "valid_matching lc rc es (fst (linearMemoryMaximumCardinalityPairsWithSeed lc rc es seed))"
    "snd (linearMemoryMaximumCardinalityPairsWithSeed lc rc es seed)
      = mark_used rc (fst (linearMemoryMaximumCardinalityPairsWithSeed lc rc es seed))"
    "valid_matching lc rc es m
      \<Longrightarrow> matching_size m \<le> matching_size (fst (linearMemoryMaximumCardinalityPairsWithSeed lc rc es seed))"
    unfolding eq using improve_matching [OF t(2)] most [of m] by simp_all
qed

interpretation seeded: pair_solver
  "\<lambda>lc rc es. linearMemoryMaximumCardinalityPairsWithSeed lc rc es seed" table_ok for seed
  by unfold_locales (simp_all add: linear_seeded)

interpretation linear: pair_solver linearMemoryMaximumCardinalityPairs table_ok
  unfolding linearMemoryMaximumCardinalityPairs_def by (rule seeded.pair_solver_axioms)

section \<open>The solver chosen by size\<close>

definition pairs_apply :: "nat \<Rightarrow> nat \<Rightarrow> edges \<Rightarrow> bool" where
  "pairs_apply lc rc es \<longleftrightarrow> table_ok lc rc es \<and> (lc + rc \<le> optimalAssignmentVertexLimit \<longrightarrow> details_bounded es)"

lemma no_pairs_valid: "valid_matching lc rc es (replicate lc None)"
  by (rule valid_matchingI) simp_all

lemma mark_none: "mark_used n (replicate k None) = replicate n False"
proof -
  have "fold (\<lambda>right used. case right of None \<Rightarrow> used | Some r \<Rightarrow> used[r := True]) (replicate k None) u = u"
    for u :: "bool list"
    by (induction k) simp_all
  then show ?thesis by (simp add: mark_used_def)
qed

interpretation chosen: pair_solver maximumWeightMaximumCardinalityPairs pairs_apply
proof unfold_locales
  fix lc rc es m assume "pairs_apply lc rc es"
  then have a: "table_ok lc rc es" "lc + rc \<le> optimalAssignmentVertexLimit \<Longrightarrow> exact_applies lc rc es"
    by (auto simp: pairs_apply_def exact_applies_def)
  consider (none) "lc = 0 \<or> rc = 0" | (long) "\<not> (lc = 0 \<or> rc = 0)" "lc + rc > optimalAssignmentVertexLimit"
    | (short) "\<not> (lc = 0 \<or> rc = 0)" "lc + rc \<le> optimalAssignmentVertexLimit" by linarith
  then have "valid_matching lc rc es (fst (maximumWeightMaximumCardinalityPairs lc rc es))
    \<and> snd (maximumWeightMaximumCardinalityPairs lc rc es)
      = mark_used rc (fst (maximumWeightMaximumCardinalityPairs lc rc es))
    \<and> (valid_matching lc rc es m
      \<longrightarrow> matching_size m \<le> matching_size (fst (maximumWeightMaximumCardinalityPairs lc rc es)))"
  proof cases
    case none
    then have "matching_size m = 0" if "valid_matching lc rc es m" using valid_size [OF that] by auto
    with none show ?thesis
      by (simp add: maximumWeightMaximumCardinalityPairs_def no_pairs_def no_pairs_valid mark_none)
  next
    case long
    then have "maximumWeightMaximumCardinalityPairs lc rc es = linearMemoryMaximumCardinalityPairs lc rc es"
      unfolding maximumWeightMaximumCardinalityPairs_def by auto
    with linear.solved [OF a(1)] linear.marked [OF a(1)] linear.most [OF a(1), of m] show ?thesis by simp
  next
    case short
    then have "maximumWeightMaximumCardinalityPairs lc rc es = optimalPairs lc rc es"
      unfolding maximumWeightMaximumCardinalityPairs_def by auto
    with exact.solved [OF a(2)] exact.marked [OF a(2)] exact.most [OF a(2), of m] short(2) show ?thesis by simp
  qed
  then show "valid_matching lc rc es (fst (maximumWeightMaximumCardinalityPairs lc rc es))"
    "snd (maximumWeightMaximumCardinalityPairs lc rc es)
      = mark_used rc (fst (maximumWeightMaximumCardinalityPairs lc rc es))"
    "valid_matching lc rc es m
      \<Longrightarrow> matching_size m \<le> matching_size (fst (maximumWeightMaximumCardinalityPairs lc rc es))"
    by blast+
qed

section \<open>Pairs in the order of sorted keys\<close>

text \<open>A list of positions in another order.\<close>

definition reordering :: "nat \<Rightarrow> nat list \<Rightarrow> bool" where
  "reordering n p \<longleftrightarrow> distinct p \<and> set p = {..<n}"

lemma reordering_length: "reordering n p \<Longrightarrow> length p = n"
  using distinct_card [of p] by (simp add: reordering_def)

lemma reordering_nth: "reordering n p \<Longrightarrow> i < n \<Longrightarrow> p ! i < n"
  using reordering_length [of n p] nth_mem [of i p] by (auto simp: reordering_def)

lemma reordering_inj: "reordering n p \<Longrightarrow> i < n \<Longrightarrow> j < n \<Longrightarrow> p ! i = p ! j \<Longrightarrow> i = j"
  using reordering_length [of n p] by (simp add: reordering_def nth_eq_iff_index_eq)

lemma reordering_surj: "reordering n p \<Longrightarrow> k < n \<Longrightarrow> \<exists>i < n. p ! i = k"
  using reordering_length [of n p] by (metis in_set_conv_nth lessThan_iff reordering_def)

lemma place_pairs_nth:
  assumes p: "reordering lc p" and len: "length m \<le> lc"
  shows "length (place_pairs p q m) = lc"
    and "i < length m \<Longrightarrow> place_pairs p q m ! (p ! i) = map_option ((!) q) (m ! i)"
    and "k < lc \<Longrightarrow> k \<notin> set (take (length m) p) \<Longrightarrow> place_pairs p q m ! k = None"
proof -
  have "length (place_pairs p q m) = lc
    \<and> (\<forall>i < length m. place_pairs p q m ! (p ! i) = map_option ((!) q) (m ! i))
    \<and> (\<forall>k < lc. k \<notin> set (take (length m) p) \<longrightarrow> place_pairs p q m ! k = None)"
    using len
  proof (induction m rule: rev_induct)
    case Nil
    then show ?case using reordering_length [OF p] by (simp add: place_pairs_def)
  next
    case (snoc x m)
    let ?n = "length m" and ?old = "place_pairs p q m"
    have n: "?n < lc" using snoc.prems by simp
    have ih: "length ?old = lc" "\<And>i. i < ?n \<Longrightarrow> ?old ! (p ! i) = map_option ((!) q) (m ! i)"
      "\<And>k. k < lc \<Longrightarrow> k \<notin> set (take ?n p) \<Longrightarrow> ?old ! k = None"
      using snoc.IH n by auto
    have take: "take (Suc ?n) p = take ?n p @ [p ! ?n]"
      using n reordering_length [OF p] by (simp add: take_Suc_conv_app_nth)
    have eq: "place_pairs p q (m @ [x]) = (case x of None \<Rightarrow> ?old | Some r \<Rightarrow> ?old[p ! ?n := Some (q ! r)])"
      by (simp add: place_pairs_def enumerate_append_eq split: option.split)
    have here: "p ! ?n < lc" by (rule reordering_nth [OF p n])
    have fresh: "p ! ?n \<notin> set (take ?n p)"
      using p n reordering_length [OF p] unfolding reordering_def
      by (metis id_take_nth_drop not_distinct_conv_prefix distinct_append distinct.simps(2) disjoint_iff list.set_intros(1))
    have apart: "p ! ?n \<noteq> p ! i" if "i < ?n" for i using reordering_inj [OF p, of i ?n] n that by auto
    show ?case
    proof (cases x)
      case None
      with eq ih fresh here show ?thesis by (auto simp: nth_append less_Suc_eq take)
    next
      case (Some r)
      with eq ih here apart show ?thesis by (auto simp: nth_append less_Suc_eq take)
    qed
  qed
  then show "length (place_pairs p q m) = lc"
    "i < length m \<Longrightarrow> place_pairs p q m ! (p ! i) = map_option ((!) q) (m ! i)"
    "k < lc \<Longrightarrow> k \<notin> set (take (length m) p) \<Longrightarrow> place_pairs p q m ! k = None"
    by blast+
qed

text \<open>The table of the sorted positions.\<close>

definition reordered :: "nat list \<Rightarrow> nat list \<Rightarrow> edges \<Rightarrow> edges \<Rightarrow> bool" where
  "reordered p q es es' \<longleftrightarrow> (\<forall>i < length p. \<forall>j < length q. es' ! i ! j = es ! (p ! i) ! (q ! j))"

lemma place_valid:
  assumes p: "reordering lc p" and q: "reordering rc q" and re: "reordered p q es es'"
    and m: "valid_matching lc rc es' m"
  shows "valid_matching lc rc es (place_pairs p q m)" "matching_size (place_pairs p q m) = matching_size m"
proof -
  let ?m = "place_pairs p q m"
  have len: "length m = lc" by (rule valid_length [OF m])
  note lens = reordering_length [OF p] reordering_length [OF q]
  have plen: "length ?m = lc" by (rule place_pairs_nth(1) [OF p]) (simp add: len)
  have pos: "?m ! (p ! i) = map_option ((!) q) (m ! i)" if "i < lc" for i
    by (rule place_pairs_nth(2) [OF p]) (use len that in simp_all)
  have origin: "\<exists>i r. i < lc \<and> p ! i = k \<and> m ! i = Some r \<and> v = q ! r \<and> r < rc \<and> es' ! i ! r \<noteq> None"
    if "k < lc" "?m ! k = Some v" for k v
  proof -
    obtain i where i: "i < lc" "p ! i = k" using reordering_surj [OF p \<open>k < lc\<close>] by blast
    with pos [OF i(1)] that(2) have "map_option ((!) q) (m ! i) = Some v" by simp
    then obtain r where "m ! i = Some r" "v = q ! r" by (cases "m ! i") auto
    with valid_pair [OF m i(1)] i show ?thesis by blast
  qed
  show "valid_matching lc rc es ?m"
  proof (rule valid_matchingI [OF plen])
    show "v < rc \<and> es ! k ! v \<noteq> None" if "k < lc" "?m ! k = Some v" for k v
      using origin [OF that] re reordering_nth [OF q] lens unfolding reordered_def by fastforce
    show "k = k'" if k: "k < lc" "k' < lc" "?m ! k = Some v" "?m ! k' = Some v" for k k' v
    proof -
      obtain i r i' r' where "i < lc" "p ! i = k" "m ! i = Some r" "v = q ! r" "r < rc"
        "i' < lc" "p ! i' = k'" "m ! i' = Some r'" "v = q ! r'" "r' < rc"
        using origin [OF k(1,3)] origin [OF k(2,4)] by blast
      then show ?thesis using reordering_inj [OF q, of r r'] valid_inj [OF m, of i i' r] by simp
    qed
  qed
  have "{k. k < lc \<and> ?m ! k \<noteq> None} = (\<lambda>i. p ! i) ` {i. i < lc \<and> m ! i \<noteq> None}"
  proof (intro set_eqI iffI)
    fix k assume "k \<in> {k. k < lc \<and> ?m ! k \<noteq> None}"
    then obtain v where "k < lc" "?m ! k = Some v" by auto
    from origin [OF this] show "k \<in> (\<lambda>i. p ! i) ` {i. i < lc \<and> m ! i \<noteq> None}" by auto
  next
    fix k assume "k \<in> (\<lambda>i. p ! i) ` {i. i < lc \<and> m ! i \<noteq> None}"
    then show "k \<in> {k. k < lc \<and> ?m ! k \<noteq> None}" using pos reordering_nth [OF p] by auto
  qed
  moreover have "inj_on (\<lambda>i. p ! i) {i. i < lc \<and> m ! i \<noteq> None}"
    using reordering_inj [OF p] by (auto intro: inj_onI)
  ultimately show "matching_size ?m = matching_size m"
    by (simp add: matching_size_card plen len card_image)
qed

text \<open>A matching of the original positions has its counterpart at the sorted ones.\<close>

lemma reorder_matching:
  assumes p: "reordering lc p" and q: "reordering rc q" and re: "reordered p q es es'"
    and m: "valid_matching lc rc es m"
  obtains m' where "valid_matching lc rc es' m'" "matching_size m' = matching_size m"
proof -
  have len: "length m = lc" by (rule valid_length [OF m])
  note lens = reordering_length [OF p] reordering_length [OF q]
  define g where "g r = (SOME j. j < rc \<and> q ! j = r)" for r
  have g: "g r < rc \<and> q ! g r = r" if "r < rc" for r
    unfolding g_def using reordering_surj [OF q that] by (rule someI_ex)
  define m' where "m' = map (\<lambda>i. map_option g (m ! (p ! i))) [0..<lc]"
  have pos: "m' ! i = map_option g (m ! (p ! i))" if "i < lc" for i using that by (simp add: m'_def)
  have len': "length m' = lc" by (simp add: m'_def)
  have v: "valid_matching lc rc es' m'"
  proof (rule valid_matchingI [OF len'])
    show "j < rc \<and> es' ! i ! j \<noteq> None" if i: "i < lc" "m' ! i = Some j" for i j
    proof -
      obtain r where r: "m ! (p ! i) = Some r" "j = g r" using pos i by auto
      with valid_pair [OF m reordering_nth [OF p i(1)] r(1)] g [of r] re i(1) lens
      show ?thesis by (auto simp: reordered_def)
    qed
    show "i = i'" if i: "i < lc" "i' < lc" "m' ! i = Some j" "m' ! i' = Some j" for i i' j
    proof -
      obtain r r' where r: "m ! (p ! i) = Some r" "j = g r" "m ! (p ! i') = Some r'" "j = g r'"
        using pos i by auto
      have "r < rc" "r' < rc"
        using valid_pair [OF m reordering_nth [OF p i(1)] r(1)] valid_pair [OF m reordering_nth [OF p i(2)] r(3)]
        by simp_all
      with g [of r] g [of r'] r have "r = r'" by metis
      with valid_inj [OF m reordering_nth [OF p i(1)] reordering_nth [OF p i(2)]] r
      have "p ! i = p ! i'" by simp
      with reordering_inj [OF p i(1,2)] show ?thesis by simp
    qed
  qed
  have "{k. k < lc \<and> m ! k \<noteq> None} = (\<lambda>i. p ! i) ` {i. i < lc \<and> m' ! i \<noteq> None}"
    using pos reordering_nth [OF p] reordering_surj [OF p] by fastforce
  moreover have "inj_on (\<lambda>i. p ! i) {i. i < lc \<and> m' ! i \<noteq> None}"
    using reordering_inj [OF p] by (auto intro: inj_onI)
  ultimately have "matching_size m' = matching_size m"
    by (simp add: matching_size_card len len' card_image)
  with v show thesis by (rule that)
qed

section \<open>Properties of the solvers\<close>

text \<open>
  \<open>maximumWeightAssignment\<close> returns a permutation of the columns, and no permutation has a
  greater total weight, as long as the weights are between zero and a bound \<open>C\<close> for which
  \<open>(size + 1) * C\<close> stays below the constant \<open>infinity\<close> of the code.
\<close>

theorem assignment_best:
  assumes "weights_ok ws C"
  shows "\<exists>a. maximumWeightAssignment ws = Some a \<and> permutation_of (length ws) a
    \<and> (\<forall>b. permutation_of (length ws) b \<longrightarrow> assignment_weight ws b \<le> assignment_weight ws a)"
  by (rule hungarian_optimal [OF assms]) blast

theorem assignment_best_witness:
  "\<exists>a. maximumWeightAssignment [[7, 4], [6, 1]] = Some a \<and> permutation_of 2 a
    \<and> assignment_weight [[7, 4], [6, 1]] [1, 0] \<le> assignment_weight [[7, 4], [6, 1]] a"
proof -
  have "weights_ok [[7, 4], [6, 1]] 7" by (simp add: weights_ok_def hungarian_infinity_def)
  from assignment_best [OF this] obtain a where "maximumWeightAssignment [[7, 4], [6, 1]] = Some a"
    "permutation_of 2 a"
    "\<And>b. permutation_of 2 b \<Longrightarrow> assignment_weight [[7, 4], [6, 1]] b \<le> assignment_weight [[7, 4], [6, 1]] a"
    by (auto simp: numeral_2_eq_2)
  moreover have "permutation_of 2 [1, 0]" by (simp add: permutation_of_def)
  ultimately show ?thesis by blast
qed

text \<open>
  C4. Below the vertex limit \<open>maximumWeightMaximumCardinalityPairs\<close> returns a matching of
  compatible pairs, with its right positions marked as used, such that every other matching has
  fewer pairs, or as many and no greater total score. The details of a score stay within
  \<open>10 ^ 12\<close>.
\<close>

theorem exact_pairs_best:
  assumes "table_ok lc rc es" "0 < lc" "0 < rc" "lc + rc \<le> optimalAssignmentVertexLimit" "details_bounded es"
    and "valid_matching lc rc es m"
  shows "let (matched, used) = maximumWeightMaximumCardinalityPairs lc rc es
    in valid_matching lc rc es matched \<and> used = mark_used rc matched
      \<and> (matching_size m < matching_size matched
         \<or> matching_size m = matching_size matched \<and> matching_score es m \<le> matching_score es matched)"
proof -
  have "maximumWeightMaximumCardinalityPairs lc rc es = optimalPairs lc rc es"
    using assms(2-4) unfolding maximumWeightMaximumCardinalityPairs_def by auto
  then show ?thesis
    using optimal_pairs(1,2) [OF assms(1,4,5)] optimal_pairs(3) [OF assms(1,4,5,6)]
    by (simp add: case_prod_unfold)
qed

theorem exact_pairs_best_witness:
  "matching_score [[Some 5, Some 1], [Some 4, None]] [Some 1, Some 0]
    \<le> matching_score [[Some 5, Some 1], [Some 4, None]]
        (fst (maximumWeightMaximumCardinalityPairs 2 2 [[Some 5, Some 1], [Some 4, None]]))"
proof -
  let ?es = "[[Some 5, Some 1], [Some 4, None]] :: edges"
  have "valid_matching 2 2 ?es [Some 1, Some 0]"
    by (rule valid_matchingI) (auto simp: less_2_cases_iff)
  moreover have "table_ok 2 2 ?es" "details_bounded ?es"
    by (simp_all add: table_ok_def details_bounded_def all_details_def List.map_filter_def)
  ultimately have b: "let (matched, used) = maximumWeightMaximumCardinalityPairs 2 2 ?es
    in valid_matching 2 2 ?es matched \<and> used = mark_used 2 matched
      \<and> (matching_size [Some 1, Some 0] < matching_size matched
         \<or> matching_size [Some 1, Some 0] = matching_size matched
           \<and> matching_score ?es [Some 1, Some 0] \<le> matching_score ?es matched)"
    by (intro exact_pairs_best) (simp_all add: optimalAssignmentVertexLimit_def)
  have size: "matching_size [Some (Suc 0), Some 0] = 2" by (simp add: matching_size_def)
  obtain matched used where p: "maximumWeightMaximumCardinalityPairs 2 2 ?es = (matched, used)"
    by (cases "maximumWeightMaximumCardinalityPairs 2 2 ?es")
  with b have v: "valid_matching 2 2 ?es matched"
    and or: "2 < matching_size matched \<or> 2 = matching_size matched
      \<and> matching_score ?es [Some 1, Some 0] \<le> matching_score ?es matched"
    by (simp_all add: size)
  from or valid_size [OF v] p show ?thesis by auto
qed

text \<open>
  The phases of \<open>linearMemoryMaximumCardinalityPairsWithSeed\<close> return within \<open>leftCount + 1\<close>
  rounds, each search within its fuel, for every table and every seed.
\<close>

theorem linear_pairs_end:
  "hk_phases (Suc lc) lc rc es (hk_seed lc rc es seed) \<noteq> None"
  by (rule phases_greatest [of lc rc es seed]) simp

text \<open>The tables on which the linear-memory pairing is exact\<close>

definition linear_applies :: "nat \<Rightarrow> nat \<Rightarrow> edges \<Rightarrow> bool" where
  "linear_applies lc rc es \<longleftrightarrow> table_ok lc rc es \<and> (all_details es = [] \<or> auction_fits lc rc es)"

lemma linear_no_details:
  assumes "table_ok lc rc es" "all_details es = []" "valid_matching lc rc es m"
  shows "matching_size m = 0 \<and> matching_score es m = 0"
proof -
  have none: "m ! i = None" if "i < length m" for i
    using that valid_length [OF assms(3)] valid_pair [OF assms(3), of i] details_in [OF assms(1), of i] assms(2)
    by (cases "m ! i") fastforce+
  then have "filter (\<lambda>r. r \<noteq> None) m = []" by (auto simp: filter_empty_conv in_set_conv_nth)
  with none show ?thesis by (simp add: matching_size_def matching_score_def pair_detail_def)
qed

text \<open>
  C5. \<open>linearMemoryMaximumCardinalityPairsWithSeed\<close> returns, for every seed, as long as no price,
  value or bid of its auction leaves the 64-bit range: its phases end within \<open>leftCount + 1\<close> rounds
  and its bidding loop ends. The result is a matching of compatible pairs with its right positions
  marked as used, every other matching has fewer pairs, or as many and no greater total score.
\<close>

theorem linear_pairs_best:
  assumes "linear_applies lc rc es" "valid_matching lc rc es m"
  shows "hk_phases (Suc lc) lc rc es (hk_seed lc rc es seed) \<noteq> None
    \<and> (all_details es = [] \<or> auction_run lc rc es (auction_start lc rc) \<noteq> None)
    \<and> (let (matched, used) = linearMemoryMaximumCardinalityPairsWithSeed lc rc es seed
       in valid_matching lc rc es matched \<and> used = mark_used rc matched
         \<and> (matching_size m < matching_size matched
            \<or> matching_size m = matching_size matched \<and> matching_score es m \<le> matching_score es matched))"
proof -
  have t: "table_ok lc rc es" using assms(1) by (simp add: linear_applies_def)
  obtain s where s: "hk_phases (Suc lc) lc rc es (hk_seed lc rc es seed) = Some s"
    "valid_matching lc rc es (hk_left s)"
    and most: "\<And>m. valid_matching lc rc es m \<Longrightarrow> matching_size m \<le> matching_size (hk_left s)"
    by (rule phases_greatest [of lc rc es seed]) (rule that)
  let ?r = "fst (linearMemoryMaximumCardinalityPairsWithSeed lc rc es seed)"
  have r: "?r = improveMatchingScores lc rc es (hk_left s)"
    unfolding linearMemoryMaximumCardinalityPairsWithSeed_def s(1) by (simp add: Let_def)
  note valid = linear_seeded [of lc rc es seed]
  have "matching_size m < matching_size ?r \<or> matching_size m = matching_size ?r \<and> matching_score es m \<le> matching_score es ?r"
  proof (cases "all_details es = []")
    case True
    then show ?thesis using linear_no_details [OF t True assms(2)] linear_no_details [OF t True valid(1)] by simp
  next
    case False
    then have "auction_scores lc rc es" using assms(1) by (simp add: linear_applies_def auction_scores_def)
    from improve_best [OF this s(2) most assms(2)] show ?thesis unfolding r .
  qed
  moreover have "all_details es = [] \<or> auction_run lc rc es (auction_start lc rc) \<noteq> None"
    using auction_ends [of lc rc es] assms(1) by (auto simp: linear_applies_def auction_scores_def)
  ultimately show ?thesis using s(1) valid(1,2) by (simp add: case_prod_unfold Let_def)
qed

theorem linear_pairs_best_witness:
  "9 \<le> matching_score [[Some 1, Some 9], [Some 0, Some (- 5)]]
    (fst (linearMemoryMaximumCardinalityPairsWithSeed 2 2 [[Some 1, Some 9], [Some 0, Some (- 5)]] [Some 0]))"
proof -
  let ?es = "[[Some 1, Some 9], [Some 0, Some (- 5)]] :: edges"
  let ?r = "fst (linearMemoryMaximumCardinalityPairsWithSeed 2 2 ?es [Some 0])"
  have v: "valid_matching 2 2 ?es [Some 1, Some 0]"
    by (rule valid_matchingI) (auto simp: less_2_cases_iff)
  have l: "linear_applies 2 2 ?es"
    by (simp add: linear_applies_def table_ok_def auction_fits_def auction_limit_def detail_spread_def all_details_def
        List.map_filter_def in_i64_def)
  have size: "matching_size [Some 1, Some 0 :: nat option] = 2" by (simp add: matching_size_def)
  have score: "matching_score ?es [Some 1, Some 0] = 9"
    by (simp add: matching_score_def pair_detail_def lessThan_nat_numeral lessThan_Suc)
  have r: "valid_matching 2 2 ?es ?r \<and> (2 < matching_size ?r \<or> 2 = matching_size ?r \<and> 9 \<le> matching_score ?es ?r)"
    using linear_pairs_best [OF l v, of "[Some 0]", unfolded size score] by (simp add: case_prod_unfold Let_def)
  then have "matching_size ?r \<le> 2" using valid_size [of 2 2 ?es ?r] by simp
  with r show ?thesis by simp
qed

text \<open>
  C34. As long as no price, value or bid leaves the 64-bit range, the bidding loop of
  \<open>improveMatchingScores\<close> ends with every left vertex assigned, the early return for a failed bid is
  never taken, and its epsilon of one is exact: the real items of the assignment are a matching of
  compatible pairs, and every other matching has fewer pairs, or as many and no greater total score.
\<close>

theorem auction_returns:
  assumes "table_ok lc rc es" "all_details es \<noteq> []" "auction_fits lc rc es" "valid_matching lc rc es m"
  shows "\<exists>a. auction_run lc rc es (auction_start lc rc) = Some (Some a) \<and> au_unassigned a = []
    \<and> valid_matching lc rc es (auction_matching rc (au_assignment a))
    \<and> (matching_size m < matching_size (auction_matching rc (au_assignment a))
       \<or> matching_size m = matching_size (auction_matching rc (au_assignment a))
         \<and> matching_score es m \<le> matching_score es (auction_matching rc (au_assignment a)))"
proof -
  have A: "auction_scores lc rc es" using assms(1-3) by (simp add: auction_scores_def)
  obtain a where "auction_run lc rc es (auction_start lc rc) = Some (Some a)"
    and a: "fair_auction lc rc es a" "au_unassigned a = []" using auction_ends [OF A] by blast
  with auction_worth(1) [OF A a] auction_best [OF A a assms(4)] show ?thesis by blast
qed

theorem auction_returns_witness:
  "\<exists>a. auction_run 2 2 [[Some 1, Some 9], [Some 4, None]] (auction_start 2 2) = Some (Some a) \<and> au_unassigned a = []
    \<and> matching_size (auction_matching 2 (au_assignment a)) = 2"
proof -
  let ?es = "[[Some 1, Some 9], [Some 4, None]] :: edges"
  have v: "valid_matching 2 2 ?es [Some 1, Some 0]"
    by (rule valid_matchingI) (auto simp: less_2_cases_iff)
  have "table_ok 2 2 ?es" "all_details ?es \<noteq> []" "auction_fits 2 2 ?es"
    by (simp_all add: table_ok_def auction_fits_def auction_limit_def detail_spread_def all_details_def
        List.map_filter_def in_i64_def)
  from auction_returns [OF this v] obtain a where a: "auction_run 2 2 ?es (auction_start 2 2) = Some (Some a)"
    "au_unassigned a = []" and m: "valid_matching 2 2 ?es (auction_matching 2 (au_assignment a))"
    and size: "2 \<le> matching_size (auction_matching 2 (au_assignment a))"
    by (auto simp: matching_size_def)
  with valid_size [OF m] show ?thesis by auto
qed

text \<open>
  The bound is needed: with these scores the prices wrap around, two vertices take the one real item
  from each other in turn, and the bidding loop never ends.
\<close>

definition ex_wide :: edges where
  "ex_wide = [[Some (- (2 ^ 62))], [Some (2 ^ 62)]]"

definition ex_owned :: "int \<Rightarrow> nat \<Rightarrow> auction" where
  "ex_owned price l = \<lparr>au_prices = [price, 0, 0], au_owners = [Some l, None, None],
     au_assignment = [None, None][l := Some 0], au_unassigned = [1 - l]\<rparr>"

lemma ex_wide_weights:
  "auction_weight 2 (Suc 0) ex_wide 0 i = Some (if i < 1 then 2 else 0)"
  "auction_weight 2 (Suc 0) ex_wide (Suc 0) i = Some (if i < 1 then - 9223372036854775806 else 0)"
  by (simp_all add: auction_weight_def ex_wide_def pair_bonus_def all_details_def List.map_filter_def i64_def)

lemma ex_items: "[0..<3] = [0, 1, 2 :: nat]" "[0..<2] = [0, 1 :: nat]" "replicate 3 x = [x, x, x]" "replicate 2 x = [x, x]"
  by (simp_all add: upt_rec numeral_3_eq_3 numeral_2_eq_2)

lemma ex_wide_bids:
  "auction_bid 2 1 ex_wide (auction_start 2 1) = Some (ex_owned 7 0)"
  "auction_bid 2 1 ex_wide (ex_owned 7 0) = Some (ex_owned (- 9223372036854775801) 1)"
  "auction_bid 2 1 ex_wide (ex_owned (- 9223372036854775801) 1) = Some (ex_owned 7 0)"
  by (simp_all add: auction_bid_def auction_start_def ex_owned_def auction_scan_def ex_wide_weights Let_def i64_def
      ex_items)

theorem auction_may_not_end: "auction_run 2 1 ex_wide (auction_start 2 1) = None"
proof (cases "auction_run 2 1 ex_wide (auction_start 2 1)")
  case (Some t)
  let ?P = "\<lambda>s. s \<in> {Some (auction_start 2 1), Some (ex_owned 7 0), Some (ex_owned (- 9223372036854775801) 1)}"
  let ?going = "\<lambda>s :: auction option. case s of None \<Rightarrow> False | Some a \<Rightarrow> au_unassigned a \<noteq> []"
  note loop = Some [unfolded auction_run_def]
  have going: "?going s" if "?P s" for s using that by (auto simp: auction_start_def ex_owned_def upt_rec)
  have "?P t" by (rule while_option_rule [where P = ?P, OF _ loop]) (auto simp: ex_wide_bids [simplified])
  with going while_option_stop [OF loop] show ?thesis by blast
qed

text \<open>
  \<open>improveMatchingScores\<close> keeps a matching valid and of the same size.
\<close>

theorem improve_keeps_size:
  assumes "valid_matching lc rc es m"
  shows "valid_matching lc rc es (improveMatchingScores lc rc es m)
    \<and> matching_size (improveMatchingScores lc rc es m) = matching_size m"
  by (rule improve_matching [OF assms])

text \<open>
  Whatever the sizes, no compatible pair is left over: a left position without a partner is
  incompatible with every right position that is not marked as used.
\<close>

theorem leftover_pairs_incompatible:
  assumes "pairs_apply lc rc es" "i < lc" "r < rc"
    and "fst (maximumWeightMaximumCardinalityPairs lc rc es) ! i = None"
    and "\<not> snd (maximumWeightMaximumCardinalityPairs lc rc es) ! r"
  shows "es ! i ! r = None"
  by (rule chosen.leftover_incompatible [OF assms(1,2,4,3,5)])

theorem leftover_pairs_incompatible_witness:
  "fst (maximumWeightMaximumCardinalityPairs 1 1 [[None]]) ! 0 = None
    \<and> \<not> snd (maximumWeightMaximumCardinalityPairs 1 1 [[None]]) ! 0 \<and> [[None]] ! 0 ! 0 = (None :: int option)"
proof -
  have r: "maximumWeightMaximumCardinalityPairs 1 1 [[None]] = ([None], [False])"
    by (simp add: maximumWeightMaximumCardinalityPairs_def optimalAssignmentVertexLimit_def optimalPairs_def
        all_details_def no_pairs_def List.map_filter_def)
  moreover have "pairs_apply 1 1 [[None]]"
    by (simp add: pairs_apply_def table_ok_def details_bounded_def all_details_def List.map_filter_def)
  ultimately show ?thesis using leftover_pairs_incompatible [of 1 1 "[[None]]" 0 0] by simp
qed

end
