(* ===== verification/AlignSpec.thy ===== *)
theory AlignSpec
  imports Align Pairing
begin

text \<open>
  What an alignment promises: nested children never change which spans are compatible, the totals
  of \<open>AlignShapes\<close> are the counts of its rows, and every trace and span is in exactly one row.
\<close>

section \<open>Common keys\<close>

lemma common_keys_multiset:
  "sorted xs \<Longrightarrow> sorted ys \<Longrightarrow> common_keys xs ys = size (mset xs \<inter># mset ys)"
proof (induction xs ys rule: common_keys.induct)
  case (1 l ls r rs)
  consider "l < r" | "r < l" | "l = r" by (cases l r rule: linorder_cases)
  then show ?case
  proof cases
    case 1
    then have "l \<notin># mset (r # rs)" using "1.prems"(2) by auto
    with 1 "1.IH"(1) "1.prems" show ?thesis by (simp add: inter_add_left1)
  next
    case 2
    then have "r \<notin># mset (l # ls)" using "1.prems"(1) by auto
    moreover have "\<not> l < r" using 2 by simp
    ultimately show ?thesis using 2 "1.IH"(2) "1.prems" by (simp add: inter_add_right1)
  next
    case 3
    with "1.IH"(3) "1.prems" show ?thesis by simp
  qed
qed simp_all

lemma retag_keys [simp]:
  "as_children (retag_span gmin gmax cardinality n c) = as_children c"
  "as_childMatchKeys (retag_span gmin gmax cardinality n c) = as_childMatchKeys c"
  by (simp_all add: retag_span_def Let_def case_prod_unfold)

lemma resolved_keys:
  "c \<in> set (resolveSpanGroup U g) \<Longrightarrow> match_keys c = canonicalChildMatchKeys (as_children c)"
proof (induction U g arbitrary: c rule: resolveSpanGroup.induct)
  case (1 U n exact gmin gmax cardinality alts occ scope kind status name http children)
  show ?case
  proof (cases "alts = []")
    case True
    with 1(3) show ?thesis by (simp add: plain_span_def match_keys_def split: prod.splits)
  next
    case False
    with 1(3) obtain a d where d: "a \<in> set alts" "d \<in> set (resolveSpanGroup U a)"
      "c = retag_span gmin gmax cardinality (length alts) d" by auto
    from 1(1) [OF False d(1,2)] show ?thesis by (simp add: d(3) match_keys_def cong: option.case_cong)
  qed
qed

section \<open>Compatible pairs\<close>

lemma keep_compatible_pair:
  "i < lc \<Longrightarrow> keep_compatible lc rc es a ! i = Some j \<Longrightarrow> j < rc \<and> es ! i ! j \<noteq> None"
  by (auto simp: keep_compatible_def Let_def split: if_splits)

text \<open>Every solver pairs compatible positions only, whatever the details.\<close>

lemma chosen_pair:
  assumes "i < lc" "fst (maximumWeightMaximumCardinalityPairs lc rc es) ! i = Some j"
  shows "j < rc \<and> es ! i ! j \<noteq> None"
proof -
  have linear: "j < rc \<and> es ! i ! j \<noteq> None"
    if "fst (linearMemoryMaximumCardinalityPairs lc rc es) ! i = Some j"
    using valid_pair [OF linear_seeded(1) assms(1)] that by (simp add: linearMemoryMaximumCardinalityPairs_def)
  show ?thesis
    using assms linear keep_compatible_pair [OF assms(1), of rc es _ j]
    by (auto simp: maximumWeightMaximumCardinalityPairs_def optimalPairs_def no_pairs_def Let_def
        split: if_splits)
qed

lemma chosen_length [simp]: "length (fst (maximumWeightMaximumCardinalityPairs lc rc es)) = lc"
  using valid_length [OF linear_seeded(1), of lc rc es "[]"]
  by (simp add: maximumWeightMaximumCardinalityPairs_def optimalPairs_def no_pairs_def Let_def
      keep_compatible_def linearMemoryMaximumCardinalityPairs_def)

lemma key_order_reordering: "reordering (length keys) (key_order keys)"
  by (simp add: reordering_def key_order_def atLeast0LessThan)

lemma in_order_pair:
  assumes "i < length left" "fst (maximumCardinalityPairsInOrder U left right score) ! i = Some j"
  shows "j < length right \<and> (0 \<le> score (left ! i) (right ! j) \<or> 0 \<le> shallow_overlap_score U (left ! i) (right ! j))"
proof -
  have table: "0 \<le> f (left ! i) (right ! j)"
    if "j < length right" "map (\<lambda>l. map (\<lambda>r. compatible_score (f l r)) right) left ! i ! j \<noteq> None" for f
    using that assms(1) by (simp add: compatible_score_def split: if_splits)
  show ?thesis
  proof (cases "length left + length right \<le> optimalAssignmentVertexLimit")
    case True
    with assms(2) chosen_pair [OF assms(1)] table show ?thesis
      by (simp add: maximumCardinalityPairsInOrder_def)
  next
    case False
    with assms(2) valid_pair [OF linear_seeded(1) assms(1)] table show ?thesis
      by (simp add: maximumCardinalityPairsInOrder_def)
  qed
qed

lemma in_order_length [simp]: "length (fst (maximumCardinalityPairsInOrder U left right score)) = length left"
  using valid_length [OF linear_seeded(1)] by (simp add: maximumCardinalityPairsInOrder_def)

lemma span_pair:
  assumes i: "i < length left" and m: "fst (maximumCardinalityPairs U left right score) ! i = Some j"
  shows "j < length right \<and> (0 \<le> score (left ! i) (right ! j) \<or> 0 \<le> shallow_overlap_score U (left ! i) (right ! j))"
proof -
  let ?lo = "key_order (map canonicalAlignmentSpanKey left)"
    and ?ro = "key_order (map canonicalAlignmentSpanKey right)"
  let ?l = "map ((!) left) ?lo" and ?r = "map ((!) right) ?ro"
  have lo: "reordering (length left) ?lo" and ro: "reordering (length right) ?ro"
    using key_order_reordering [of "map canonicalAlignmentSpanKey left"]
      key_order_reordering [of "map canonicalAlignmentSpanKey right"] by simp_all
  define sm where "sm = fst (maximumCardinalityPairsInOrder U ?l ?r score)"
  have len: "length sm = length left" by (simp add: sm_def)
  obtain i' where i': "i' < length left" "?lo ! i' = i" using reordering_surj [OF lo i] by blast
  have "fst (maximumCardinalityPairs U left right score) = place_pairs ?lo ?ro sm"
    by (simp add: maximumCardinalityPairs_def Let_def sm_def split: prod.split)
  with m place_pairs_nth(2) [OF lo, of sm i' ?ro] i' len have "map_option ((!) ?ro) (sm ! i') = Some j" by simp
  then obtain j' where j': "sm ! i' = Some j'" "j = ?ro ! j'" by (cases "sm ! i'") auto
  note p = in_order_pair [of i' ?l U ?r score j', folded sm_def, OF _ j'(1)]
  have r: "j' < length right" using p i' by simp
  have "?l ! i' = left ! i" "?r ! j' = right ! j" "j < length right"
    using i' j'(2) reordering_nth [OF ro r] r by simp_all
  with p i'(1) show ?thesis by simp
qed

lemma span_pairs_length [simp]: "length (fst (maximumCardinalityPairs U left right score)) = length left"
  by (simp add: maximumCardinalityPairs_def Let_def split: prod.split)

lemma shallow_compatible:
  "shallowAlignedSpanMatchScore U l r < 0 \<longleftrightarrow> spanMatchScore U (as_node l) (as_node r) < 0"
proof -
  have "length (filter (\<lambda>field. field \<noteq> ''scope'') (spanDiffs l r)) \<le> 5" by (simp add: spanDiffs_def)
  moreover have "0 \<le> field_score 8 (sn_status (as_node l)) (sn_status (as_node r))"
    "0 \<le> field_score 4 (sn_http (as_node l)) (sn_http (as_node r))" by (simp_all add: field_score_def)
  ultimately show ?thesis
    by (cases "spanMatchScore U (as_node l) (as_node r) < 0")
      (simp_all add: shallowAlignedSpanMatchScore_def Let_def del: length_filter_conv_card)
qed

lemma overlap_compatible: "shallow_overlap_score U l r < 0 \<longleftrightarrow> shallowAlignedSpanMatchScore U l r < 0"
proof -
  have "0 \<le> childOverlapScore l r" by (simp add: childOverlapScore_def)
  then show ?thesis by (simp add: shallow_overlap_score_def Let_def)
qed

lemma total_score_nonneg:
  assumes "\<And>i j. i < length left \<Longrightarrow> m ! i = Some j \<Longrightarrow> 0 \<le> score (left ! i) (right ! j)"
    and "length m = length left"
  shows "0 \<le> fst (total_score score left right m)" "0 \<le> snd (total_score score left right m)"
proof -
  let ?f = "\<lambda>(l, r) (matched, detail). case r of None \<Rightarrow> (matched, detail)
    | Some j \<Rightarrow> (matched + 1 :: int, detail + score l (right ! j))"
  have step: "0 \<le> fst (fold ?f ps st) \<and> 0 \<le> snd (fold ?f ps st)"
    if "\<And>l j. (l, Some j) \<in> set ps \<Longrightarrow> 0 \<le> score l (right ! j)" "0 \<le> fst st" "0 \<le> snd st" for ps st
    using that
  proof (induction ps arbitrary: st)
    case (Cons p ps)
    have "0 \<le> fst (?f p st) \<and> 0 \<le> snd (?f p st)"
      using Cons.prems by (cases p; cases st) (auto split: option.split)
    then show ?case using Cons.IH [of "?f p st"] Cons.prems(1) by simp
  qed simp
  have "0 \<le> score l (right ! j)" if z: "(l, Some j) \<in> set (zip left m)" for l j
  proof -
    obtain i where "i < length left" "l = left ! i" "m ! i = Some j"
      using z by (auto simp: in_set_zip)
    with assms(1) show ?thesis by simp
  qed
  from step [OF this] show "0 \<le> fst (total_score score left right m)" "0 \<le> snd (total_score score left right m)"
    by (simp_all add: total_score_def)
qed

text \<open>The nested part of a score is never negative, so the spans themselves decide.\<close>

lemma aligned_nonneg:
  "0 \<le> spanMatchScore U (as_node l) (as_node r) \<Longrightarrow> 0 \<le> alignedSpanMatchScore U l r"
proof (induction "span_depth l" arbitrary: l r rule: less_induct)
  case less
  let ?s = "shallowAlignedSpanMatchScore U l r"
  have s: "0 \<le> ?s" using less.prems shallow_compatible [of U l r] by linarith
  show ?case
  proof (cases "length (as_children l) + length (as_children r) > nestedScoreVertexLimit")
    case True
    with s show ?thesis
      by (subst alignedSpanMatchScore.simps) (simp add: Let_def childOverlapScore_def)
  next
    case False
    obtain lc rc where ch: "resolvePairedChildren U l r = (lc, rc)" by (cases "resolvePairedChildren U l r")
    then have ch': "(if as_childGroups l \<noteq> [] \<or> as_childGroups r \<noteq> []
        then choosePairedCandidates U (alignedSpanMatchScore U) (as_childGroups l) (as_childGroups r)
        else (as_children l, as_children r)) = (lc, rc)"
      by (auto simp: resolvePairedChildren_def split: if_splits)
    let ?m = "fst (maximumCardinalityPairs U lc rc (alignedSpanMatchScore U))"
    have "0 \<le> alignedSpanMatchScore U (lc ! i) (rc ! j)" if "i < length lc" "?m ! i = Some j" for i j
    proof -
      have "span_depth (lc ! i) < span_depth l"
        by (rule resolvePairedChildren_depth [OF ch [symmetric]]) (simp add: that(1))
      from less.hyps [OF this, of "rc ! j"] span_pair [OF that]
        overlap_compatible [of U "lc ! i" "rc ! j"] shallow_compatible [of U "lc ! i" "rc ! j"]
      show ?thesis by linarith
    qed
    then have "0 \<le> fst (pairedSpanListScore U (alignedSpanMatchScore U) lc rc)"
      "0 \<le> snd (pairedSpanListScore U (alignedSpanMatchScore U) lc rc)"
      using total_score_nonneg [where left = lc and m = ?m] by (simp_all add: pairedSpanListScore_def)
    with s False ch' show ?thesis
      by (subst alignedSpanMatchScore.simps) (simp add: Let_def case_prod_unfold)
  qed
qed

lemma aligned_compatible:
  "alignedSpanMatchScore U l r < 0 \<longleftrightarrow> spanMatchScore U (as_node l) (as_node r) < 0"
proof
  show "spanMatchScore U (as_node l) (as_node r) < 0" if "alignedSpanMatchScore U l r < 0"
    using aligned_nonneg [of U l r] that by linarith
  assume "spanMatchScore U (as_node l) (as_node r) < 0"
  then show "alignedSpanMatchScore U l r < 0"
    using shallow_compatible [of U l r] by (subst alignedSpanMatchScore.simps) (simp add: Let_def)
qed

section \<open>The totals are the counts of the rows\<close>

definition rows_of :: "string \<Rightarrow> SpanMatch list \<Rightarrow> int" where
  "rows_of kind rows = int (length (filter (\<lambda>r. mt_kind r = kind) rows))"

definition differing_rows :: "SpanMatch list \<Rightarrow> int" where
  "differing_rows rows = int (length (filter (\<lambda>r. mt_kind r = ''matched'' \<and> mt_diffs r \<noteq> []) rows))"

definition tally_rows :: "SpanMatch list \<Rightarrow> AlignSummary \<Rightarrow> AlignSummary" where
  "tally_rows rows s =
     s\<lparr>al_matched := al_matched s + rows_of ''matched'' rows,
       al_leftOnly := al_leftOnly s + rows_of ''left_only'' rows,
       al_rightOnly := al_rightOnly s + rows_of ''right_only'' rows,
       al_differing := al_differing s + differing_rows rows\<rparr>"

lemma tally_rows_Nil [simp]: "tally_rows [] s = s"
  by (simp add: tally_rows_def rows_of_def differing_rows_def)

lemma tally_rows_append [simp]: "tally_rows (xs @ ys) s = tally_rows ys (tally_rows xs s)"
  by (simp add: tally_rows_def rows_of_def differing_rows_def)

definition tally_row :: "SpanMatch \<Rightarrow> AlignSummary \<Rightarrow> AlignSummary" where
  "tally_row r s = tally_rows [r] s"

lemma tally_rows_Cons [simp]: "tally_rows (r # rows) s = tally_rows rows (tally_row r s)"
  using tally_rows_append [of "[r]" rows s] by (simp only: tally_row_def append_Cons append_Nil)

text \<open>A loop whose body keeps the totals keeps them.\<close>

lemma each_rows_counted:
  assumes "\<And>x s. x \<in> set xs \<Longrightarrow> snd (f x s) = g (fst (f x s)) s"
    and "\<And>s. g [] s = s" "\<And>as bs s. g (as @ bs) s = g bs (g as s)"
  shows "snd (each_rows f xs s) = g (fst (each_rows f xs s)) s"
  using assms(1)
proof (induction xs arbitrary: s)
  case (Cons x xs)
  obtain rows s1 where x: "f x s = (rows, s1)" by (cases "f x s")
  have "s1 = g rows s" using Cons.prems [of x s] x by simp
  with Cons.IH [of s1] Cons.prems x show ?case by (simp add: assms(3) case_prod_unfold Let_def)
qed (simp add: assms(2))

lemmas each_span_counted = each_rows_counted [of _ _ tally_rows, OF _ tally_rows_Nil tally_rows_append]

lemma only_tally:
  "kind = ''left_only'' \<or> kind = ''right_only''
    \<Longrightarrow> snd (onlyRows kind depth span s) = tally_rows (fst (onlyRows kind depth span s)) s"
proof (induction kind depth span s rule: onlyRows.induct)
  case (1 kind depth node cardinality minCount maxCount exact altCount children groups keyString childKey matchKeys s)
  let ?span = "AlignedSpan node cardinality minCount maxCount exact altCount children groups keyString childKey matchKeys"
  have "count_only kind s = tally_row (only_row kind depth ?span) s"
    using 1(2) by (auto simp: tally_row_def count_only_def only_row_def tally_rows_def rows_of_def differing_rows_def)
  moreover have "snd (each_rows (onlyRows kind (depth + 1)) children (count_only kind s))
      = tally_rows (fst (each_rows (onlyRows kind (depth + 1)) children (count_only kind s))) (count_only kind s)"
    by (rule each_span_counted) (use 1 in simp_all)
  ultimately show ?case
    by (simp add: Let_def case_prod_unfold)
qed

text \<open>The three parts of \<open>matchSpans\<close>.\<close>

definition pair_rows :: "unicode_tables \<Rightarrow> alignedSpan list \<Rightarrow> int \<Rightarrow> alignedSpan \<times> nat option
    \<Rightarrow> AlignSummary \<Rightarrow> SpanMatch list \<times> AlignSummary" where
  "pair_rows U right depth = (\<lambda>(l, r) s. case r of None \<Rightarrow> ([], s)
     | Some j \<Rightarrow>
         (let (leftChildren, rightChildren) = resolvePairedChildren U l (right ! j);
              (more, s') = matchSpans U leftChildren rightChildren (depth + 1) (count_matched l (right ! j) s)
          in (matched_row depth l (right ! j) # more, s')))"

lemma matchSpans_parts:
  "matchSpans U left right depth s =
     (let m = maximumCardinalityPairs U left right (alignedSpanMatchScore U);
          a = each_rows (pair_rows U right depth) (zip left (fst m)) s;
          b = each_rows (onlyRows ''left_only'' depth)
            (map fst (filter (\<lambda>(l, r). r = None) (zip left (fst m)))) (snd a);
          c = each_rows (onlyRows ''right_only'' depth)
            (map fst (filter (\<lambda>(r, used). \<not> used) (zip right (snd m)))) (snd b)
      in (fst a @ fst b @ fst c, snd c))"
proof -
  have "(\<lambda>p s. case p of (leftSpan, None) \<Rightarrow> ([], s)
       | (leftSpan, Some j) \<Rightarrow>
          let (leftChildren, rightChildren) = resolvePairedChildren U leftSpan (right ! j);
              (more, s') = matchSpans U leftChildren rightChildren (depth + 1) (count_matched leftSpan (right ! j) s)
          in (matched_row depth leftSpan (right ! j) # more, s')) = pair_rows U right depth"
    by (auto simp: pair_rows_def fun_eq_iff split: option.split)
  then show ?thesis by (subst matchSpans.simps) (simp add: Let_def case_prod_unfold)
qed

lemma matched_count: "count_matched l r s = tally_row (matched_row depth l r) s"
  by (simp add: tally_row_def count_matched_def tally_rows_def rows_of_def differing_rows_def matched_row_def)

lemma paired_children_depth:
  assumes "(l, r) \<in> set (zip left m)" "resolvePairedChildren U l k = (lc, rc)"
  shows "max_depth lc < max_depth left"
proof -
  have "0 < span_depth l" by (cases l) simp
  then have "max_depth lc < span_depth l"
    using resolvePairedChildren_depth [OF assms(2) [symmetric]] by (intro max_depth_less) auto
  also have "\<dots> \<le> max_depth left" using assms(1) by (auto dest: set_zip_leftD intro: max_depth_in)
  finally show ?thesis .
qed

lemma match_tally:
  "snd (matchSpans U left right depth s) = tally_rows (fst (matchSpans U left right depth s)) s"
proof (induction "max_depth left" arbitrary: left right depth s rule: less_induct)
  case less
  let ?m = "maximumCardinalityPairs U left right (alignedSpanMatchScore U)"
  define a where "a = each_rows (pair_rows U right depth) (zip left (fst ?m)) s"
  define b where "b = each_rows (onlyRows ''left_only'' depth)
    (map fst (filter (\<lambda>(l, r). r = None) (zip left (fst ?m)))) (snd a)"
  define c where "c = each_rows (onlyRows ''right_only'' depth)
    (map fst (filter (\<lambda>(r, used). \<not> used) (zip right (snd ?m)))) (snd b)"
  have "snd a = tally_rows (fst a) s"
    unfolding a_def
  proof (rule each_span_counted)
    fix x :: "alignedSpan \<times> nat option" and t assume x: "x \<in> set (zip left (fst ?m))"
    obtain l r where lr: "x = (l, r)" by (cases x)
    show "snd (pair_rows U right depth x t) = tally_rows (fst (pair_rows U right depth x t)) t"
    proof (cases r)
      case None
      then show ?thesis by (simp add: pair_rows_def lr)
    next
      case (Some j)
      obtain lc rc where ch: "resolvePairedChildren U l (right ! j) = (lc, rc)"
        by (cases "resolvePairedChildren U l (right ! j)")
      have "max_depth lc < max_depth left" by (rule paired_children_depth [OF x [unfolded lr] ch])
      then have "snd (matchSpans U lc rc (depth + 1) (count_matched l (right ! j) t))
          = tally_rows (fst (matchSpans U lc rc (depth + 1) (count_matched l (right ! j) t)))
              (count_matched l (right ! j) t)"
        by (rule less.hyps)
      then show ?thesis
        using ch Some by (simp add: pair_rows_def lr case_prod_unfold Let_def matched_count [of l "right ! j" t depth])
    qed
  qed
  moreover have "snd b = tally_rows (fst b) (snd a)"
    unfolding b_def by (rule each_span_counted) (rule only_tally, simp)
  moreover have "snd c = tally_rows (fst c) (snd b)"
    unfolding c_def by (rule each_span_counted) (rule only_tally, simp)
  ultimately show ?case
    using matchSpans_parts [of U left right depth s, unfolded Let_def, folded a_def, folded b_def, folded c_def]
    by simp
qed

text \<open>The same for traces.\<close>

definition traces_of :: "string \<Rightarrow> TraceMatch list \<Rightarrow> int" where
  "traces_of kind ms = int (length (filter (\<lambda>m. tm_kind m = kind) ms))"

definition tally_traces :: "TraceMatch list \<Rightarrow> AlignSummary \<Rightarrow> AlignSummary" where
  "tally_traces ms s = tally_rows (concat (map tm_spans ms))
     (s\<lparr>al_traceMatched := al_traceMatched s + traces_of ''matched'' ms,
        al_traceLeftOnly := al_traceLeftOnly s + traces_of ''left_only'' ms,
        al_traceRightOnly := al_traceRightOnly s + traces_of ''right_only'' ms\<rparr>)"

lemma tally_traces_Nil [simp]: "tally_traces [] s = s"
  by (simp add: tally_traces_def traces_of_def)

lemma tally_traces_append [simp]: "tally_traces (xs @ ys) s = tally_traces ys (tally_traces xs s)"
  by (simp add: tally_traces_def traces_of_def tally_rows_def rows_of_def differing_rows_def)

lemmas each_trace_counted = each_rows_counted [of _ _ tally_traces, OF _ tally_traces_Nil tally_traces_append]

lemma only_spans_tally:
  assumes "kind = ''left_only'' \<or> kind = ''right_only''"
  shows "snd (traceOnly kind t s) = tally_rows (tm_spans (fst (traceOnly kind t s))) s
    \<and> tm_kind (fst (traceOnly kind t s)) = kind"
  using each_span_counted [of "rt_roots t" "onlyRows kind 0" s] only_tally [OF assms] assms
  by (auto simp: traceOnly_def Let_def case_prod_unfold)

lemma align_right_tally: "snd (align_right t s) = tally_traces (fst (align_right t s)) s"
  using only_spans_tally [of "''right_only''" t s]
  by (simp add: align_right_def Let_def case_prod_unfold tally_traces_def traces_of_def tally_rows_def)

lemma align_left_tally: "snd (align_left U rs p s) = tally_traces (fst (align_left U rs p s)) s"
proof -
  obtain t r where p: "p = (t, r)" by (cases p)
  show ?thesis
  proof (cases r)
    case None
    then show ?thesis using only_spans_tally [of "''left_only''" t s]
      by (simp add: align_left_def p Let_def case_prod_unfold tally_traces_def traces_of_def tally_rows_def)
  next
    case (Some j)
    then show ?thesis
      by (simp add: align_left_def p Let_def case_prod_unfold match_tally tally_traces_def traces_of_def)
  qed
qed

lemma align_tally: "sa_summary (align_traces U ls rs) = tally_traces (sa_traces (align_traces U ls rs)) zero_summary"
proof -
  let ?m = "maximumCardinalityTracePairs U ls rs"
  have "snd (each_rows (align_left U rs) (zip ls (fst ?m)) zero_summary)
      = tally_traces (fst (each_rows (align_left U rs) (zip ls (fst ?m)) zero_summary)) zero_summary"
    by (rule each_trace_counted) (rule align_left_tally)
  moreover have "snd (each_rows align_right ts s) = tally_traces (fst (each_rows align_right ts s)) s" for ts s
    by (rule each_trace_counted) (rule align_right_tally)
  ultimately show ?thesis by (simp add: align_traces_def Let_def case_prod_unfold)
qed

section \<open>The pairing of spans is a pair solver\<close>

text \<open>The table of the pairing: the full score for short lists, the shallow one for long lists.\<close>

definition pairing_table :: "unicode_tables \<Rightarrow> alignedSpan list \<Rightarrow> alignedSpan list
    \<Rightarrow> (alignedSpan \<Rightarrow> alignedSpan \<Rightarrow> int) \<Rightarrow> edges" where
  "pairing_table U left right score =
     (let f = (if length left + length right \<le> optimalAssignmentVertexLimit then score else shallow_overlap_score U)
      in map (\<lambda>l. map (\<lambda>r. compatible_score (f l r)) right) left)"

definition scores_bounded :: "(alignedSpan \<Rightarrow> alignedSpan \<Rightarrow> int) \<Rightarrow> alignedSpan list \<Rightarrow> alignedSpan list \<Rightarrow> bool" where
  "scores_bounded score left right \<longleftrightarrow> list_all (\<lambda>l. list_all (\<lambda>r. score l r \<le> 10 ^ 12) right) left"

lemma score_details:
  assumes "scores_bounded score left right"
  shows "details_bounded (map (\<lambda>l. map (\<lambda>r. compatible_score (score l r)) right) left)"
  using assms unfolding details_bounded_def all_details_def scores_bounded_def
  by (fastforce simp: list_all_iff List.map_filter_def compatible_score_def split: if_splits)

lemma in_order_solved:
  assumes "scores_bounded score left right"
  shows "valid_matching (length left) (length right) (pairing_table U left right score)
      (fst (maximumCardinalityPairsInOrder U left right score))
    \<and> (valid_matching (length left) (length right) (pairing_table U left right score) m
      \<longrightarrow> matching_size m \<le> matching_size (fst (maximumCardinalityPairsInOrder U left right score)))"
proof (cases "length left + length right \<le> optimalAssignmentVertexLimit")
  case True
  have ok: "pairs_apply (length left) (length right) (map (\<lambda>l. map (\<lambda>r. compatible_score (score l r)) right) left)"
    using score_details [OF assms] by (simp add: pairs_apply_def table_ok_def list_all_iff)
  show ?thesis using chosen.solved [OF ok] chosen.most [OF ok, of m] True
    by (simp add: maximumCardinalityPairsInOrder_def pairing_table_def)
next
  case False
  then show ?thesis using linear_seeded(1,3)
    by (simp add: maximumCardinalityPairsInOrder_def pairing_table_def)
qed

lemma pairing_solved:
  assumes b: "scores_bounded score left right"
  shows "valid_matching (length left) (length right) (pairing_table U left right score)
      (fst (maximumCardinalityPairs U left right score))
    \<and> snd (maximumCardinalityPairs U left right score)
      = mark_used (length right) (fst (maximumCardinalityPairs U left right score))
    \<and> (valid_matching (length left) (length right) (pairing_table U left right score) m
      \<longrightarrow> matching_size m \<le> matching_size (fst (maximumCardinalityPairs U left right score)))"
proof -
  let ?lo = "key_order (map canonicalAlignmentSpanKey left)"
    and ?ro = "key_order (map canonicalAlignmentSpanKey right)"
  let ?l = "map ((!) left) ?lo" and ?r = "map ((!) right) ?ro"
  have lo: "reordering (length left) ?lo" and ro: "reordering (length right) ?ro"
    using key_order_reordering [of "map canonicalAlignmentSpanKey left"]
      key_order_reordering [of "map canonicalAlignmentSpanKey right"] by simp_all
  have sorted_bounded: "scores_bounded score ?l ?r"
    using b by (auto simp: scores_bounded_def list_all_iff)
  have re: "reordered ?lo ?ro (pairing_table U left right score) (pairing_table U ?l ?r score)"
    using reordering_nth [OF lo] reordering_nth [OF ro] by (simp add: reordered_def pairing_table_def)
  define sm where "sm = fst (maximumCardinalityPairsInOrder U ?l ?r score)"
  note solved = in_order_solved [OF sorted_bounded, of U, folded sm_def, simplified]
  have eq: "fst (maximumCardinalityPairs U left right score) = place_pairs ?lo ?ro sm"
    "snd (maximumCardinalityPairs U left right score)
      = mark_used (length right) (fst (maximumCardinalityPairs U left right score))"
    by (simp_all add: maximumCardinalityPairs_def Let_def sm_def split: prod.split)
  have v: "valid_matching (length left) (length right) (pairing_table U ?l ?r score) sm"
    using solved by blast
  note placed = place_valid [OF lo ro re v]
  have "matching_size m \<le> matching_size sm"
    if m: "valid_matching (length left) (length right) (pairing_table U left right score) m"
  proof -
    obtain m' where "valid_matching (length left) (length right) (pairing_table U ?l ?r score) m'"
      "matching_size m' = matching_size m" using reorder_matching [OF lo ro re m] .
    then show ?thesis using solved [of m'] by simp
  qed
  then show ?thesis using placed eq by simp
qed

definition spans_apply :: "unicode_tables \<Rightarrow> alignedSpan list \<Rightarrow> alignedSpan list \<Rightarrow> nat \<Rightarrow> nat \<Rightarrow> edges \<Rightarrow> bool" where
  "spans_apply U left right lc rc es \<longleftrightarrow> lc = length left \<and> rc = length right
     \<and> es = pairing_table U left right (alignedSpanMatchScore U) \<and> scores_bounded (alignedSpanMatchScore U) left right"

interpretation spans: pair_solver
  "\<lambda>lc rc es. maximumCardinalityPairs U left right (alignedSpanMatchScore U)" "spans_apply U left right"
  for U left right
  by unfold_locales (use pairing_solved in \<open>auto simp: spans_apply_def\<close>)

lemma pairing_table_none:
  assumes "i < length left" "j < length right"
  shows "pairing_table U left right (alignedSpanMatchScore U) ! i ! j = None
    \<longleftrightarrow> spanMatchScore U (as_node (left ! i)) (as_node (right ! j)) < 0"
  using assms aligned_compatible [of U "left ! i" "right ! j"]
    overlap_compatible [of U "left ! i" "right ! j"] shallow_compatible [of U "left ! i" "right ! j"]
  by (simp add: pairing_table_def Let_def compatible_score_def)

section \<open>Every span is in one row\<close>

text \<open>What a list of rows shows on one side at one depth.\<close>

definition left_refs :: "int \<Rightarrow> SpanMatch list \<Rightarrow> SpanNode multiset" where
  "left_refs d rows = mset (List.map_filter mt_left (filter (\<lambda>r. mt_depth r = d) rows))"

definition right_refs :: "int \<Rightarrow> SpanMatch list \<Rightarrow> SpanNode multiset" where
  "right_refs d rows = mset (List.map_filter mt_right (filter (\<lambda>r. mt_depth r = d) rows))"

lemma refs_append [simp]:
  "left_refs d (xs @ ys) = left_refs d xs + left_refs d ys" "left_refs d [] = {#}"
  "right_refs d (xs @ ys) = right_refs d xs + right_refs d ys" "right_refs d [] = {#}"
  by (simp_all add: left_refs_def right_refs_def List.map_filter_def)

lemma refs_deep:
  "list_all (\<lambda>r. d < mt_depth r) rows \<Longrightarrow> left_refs d rows = {#} \<and> right_refs d rows = {#}"
  by (auto simp: left_refs_def right_refs_def list_all_iff List.map_filter_def filter_empty_conv)

lemma refs_first:
  assumes "list_all (\<lambda>r. d < mt_depth r) rows"
  shows "left_refs d (r # rows) = left_refs d [r] \<and> right_refs d (r # rows) = right_refs d [r]"
  using refs_append(1) [of d "[r]" rows] refs_append(3) [of d "[r]" rows] refs_deep [OF assms] by simp

lemma each_rows_all:
  assumes "\<And>x s. x \<in> set xs \<Longrightarrow> list_all P (fst (f x s))"
  shows "list_all P (fst (each_rows f xs s))"
  using assms by (induction xs arbitrary: s) (simp_all add: case_prod_unfold Let_def)

lemma each_rows_sum:
  fixes w :: "'r list \<Rightarrow> 'w :: comm_monoid_add"
  assumes "w [] = 0" "\<And>as bs. w (as @ bs) = w as + w bs"
    and "\<And>x s. x \<in> set xs \<Longrightarrow> w (fst (f x s)) = h x"
  shows "w (fst (each_rows f xs s)) = sum_list (map h xs)"
  using assms(3) by (induction xs arbitrary: s) (simp_all add: assms(1,2) case_prod_unfold Let_def)

lemma only_depth: "list_all (\<lambda>r. depth \<le> mt_depth r) (fst (onlyRows kind depth span s))"
proof (induction kind depth span s rule: onlyRows.induct)
  case (1 kind depth node cardinality minCount maxCount exact altCount children groups keyString childKey matchKeys s)
  have "list_all (\<lambda>r. depth \<le> mt_depth r) (fst (each_rows (onlyRows kind (depth + 1)) children (count_only kind s)))"
    by (rule each_rows_all) (use 1 in \<open>force simp: list_all_iff\<close>)
  then show ?case by (simp add: Let_def case_prod_unfold only_row_def)
qed

lemma match_depth: "list_all (\<lambda>r. depth \<le> mt_depth r) (fst (matchSpans U left right depth s))"
proof (induction "max_depth left" arbitrary: left right depth s rule: less_induct)
  case less
  let ?m = "maximumCardinalityPairs U left right (alignedSpanMatchScore U)"
  have "list_all (\<lambda>r. depth \<le> mt_depth r) (fst (each_rows (pair_rows U right depth) (zip left (fst ?m)) s))"
  proof (rule each_rows_all)
    fix x :: "alignedSpan \<times> nat option" and t assume x: "x \<in> set (zip left (fst ?m))"
    obtain l r where lr: "x = (l, r)" by (cases x)
    show "list_all (\<lambda>r. depth \<le> mt_depth r) (fst (pair_rows U right depth x t))"
    proof (cases r)
      case (Some j)
      obtain lc rc where ch: "resolvePairedChildren U l (right ! j) = (lc, rc)"
        by (cases "resolvePairedChildren U l (right ! j)")
      have "max_depth lc < max_depth left" by (rule paired_children_depth [OF x [unfolded lr] ch])
      then have "list_all (\<lambda>r. depth + 1 \<le> mt_depth r)
          (fst (matchSpans U lc rc (depth + 1) (count_matched l (right ! j) t)))"
        by (rule less.hyps)
      then show ?thesis
        using ch Some by (force simp: pair_rows_def lr case_prod_unfold Let_def matched_row_def list_all_iff)
    qed (simp add: pair_rows_def lr)
  qed
  moreover have "list_all (\<lambda>r. depth \<le> mt_depth r) (fst (each_rows (onlyRows kind depth) xs t))" for kind xs t
    by (rule each_rows_all) (rule only_depth)
  ultimately show ?case by (simp add: matchSpans_parts Let_def)
qed

text \<open>Only the first row of a span has its depth.\<close>

lemma only_refs:
  "left_refs depth (fst (onlyRows ''left_only'' depth span s)) = {#spanRef span#}"
  "right_refs depth (fst (onlyRows ''left_only'' depth span s)) = {#}"
  "left_refs depth (fst (onlyRows ''right_only'' depth span s)) = {#}"
  "right_refs depth (fst (onlyRows ''right_only'' depth span s)) = {#spanRef span#}"
proof -
  have first: "\<exists>rows. fst (onlyRows kind depth span s) = only_row kind depth span # rows
      \<and> list_all (\<lambda>r. depth < mt_depth r) rows" for kind
  proof (cases span)
    case (AlignedSpan node cardinality minCount maxCount exact altCount children groups keyString childKey matchKeys)
    have "list_all (\<lambda>r. depth < mt_depth r) (fst (each_rows (onlyRows kind (depth + 1)) children t))" for t
    proof (rule each_rows_all)
      show "list_all (\<lambda>r. depth < mt_depth r) (fst (onlyRows kind (depth + 1) c u))" for c u
        using only_depth [of "depth + 1" kind c u] by (auto simp: list_all_iff)
    qed
    then show ?thesis unfolding AlignedSpan by (simp add: Let_def case_prod_unfold)
  qed
  have refs: "left_refs depth (fst (onlyRows kind depth span s)) = left_refs depth [only_row kind depth span]
    \<and> right_refs depth (fst (onlyRows kind depth span s)) = right_refs depth [only_row kind depth span]" for kind
  proof -
    obtain rows where "fst (onlyRows kind depth span s) = only_row kind depth span # rows"
      "list_all (\<lambda>r. depth < mt_depth r) rows" using first by blast
    with refs_first [of depth rows "only_row kind depth span"] show ?thesis by simp
  qed
  show "left_refs depth (fst (onlyRows ''left_only'' depth span s)) = {#spanRef span#}"
    "right_refs depth (fst (onlyRows ''left_only'' depth span s)) = {#}"
    "left_refs depth (fst (onlyRows ''right_only'' depth span s)) = {#}"
    "right_refs depth (fst (onlyRows ''right_only'' depth span s)) = {#spanRef span#}"
    unfolding refs [THEN conjunct1] refs [THEN conjunct2]
    by (simp_all add: only_row_def left_refs_def right_refs_def List.map_filter_def)
qed

lemma pair_refs:
  "left_refs depth (fst (pair_rows U right depth (l, r) s)) = (case r of None \<Rightarrow> {#} | Some j \<Rightarrow> {#spanRef l#})"
  "right_refs depth (fst (pair_rows U right depth (l, r) s))
    = (case r of None \<Rightarrow> {#} | Some j \<Rightarrow> {#spanRef (right ! j)#})"
proof -
  have deep: "list_all (\<lambda>r. depth < mt_depth r) (fst (matchSpans U lc rc (depth + 1) t))" for lc rc t
    using match_depth [of "depth + 1" U lc rc t] by (auto simp: list_all_iff)
  have row: "left_refs depth [matched_row depth l k] = {#spanRef l#}"
    "right_refs depth [matched_row depth l k] = {#spanRef k#}" for k
    by (simp_all add: left_refs_def right_refs_def matched_row_def List.map_filter_def)
  have "left_refs depth (fst (pair_rows U right depth (l, Some j) s)) = {#spanRef l#}
      \<and> right_refs depth (fst (pair_rows U right depth (l, Some j) s)) = {#spanRef (right ! j)#}" for j
  proof -
    obtain rows where "fst (pair_rows U right depth (l, Some j) s) = matched_row depth l (right ! j) # rows"
      "list_all (\<lambda>r. depth < mt_depth r) rows"
      using deep by (simp add: pair_rows_def case_prod_unfold Let_def)
    with refs_first [of depth rows "matched_row depth l (right ! j)"] row show ?thesis by simp
  qed
  then show "left_refs depth (fst (pair_rows U right depth (l, r) s)) = (case r of None \<Rightarrow> {#} | Some j \<Rightarrow> {#spanRef l#})"
    "right_refs depth (fst (pair_rows U right depth (l, r) s))
      = (case r of None \<Rightarrow> {#} | Some j \<Rightarrow> {#spanRef (right ! j)#})"
    by (cases r; simp add: pair_rows_def)+
qed

lemma left_split:
  "sum_list (map (\<lambda>(l, r). case r of None \<Rightarrow> {#} | Some j \<Rightarrow> {#g l#}) ps)
    + sum_list (map (\<lambda>l. {#g l#}) (map fst (filter (\<lambda>(l, r). r = None) ps)))
    = image_mset g (mset (map fst ps))"
  by (induction ps) (auto split: option.split)

lemma right_split:
  fixes left :: "'l list"
  assumes v: "valid_matching (length left) (length right) es m" and used: "used = mark_used (length right) m"
  shows "sum_list (map (\<lambda>(l, r). case r of None \<Rightarrow> {#} | Some j \<Rightarrow> {#g (right ! j)#}) (zip left m))
    + sum_list (map (\<lambda>r. {#g r#}) (map fst (filter (\<lambda>(r, used). \<not> used) (zip right used))))
    = image_mset g (mset right)"
proof -
  let ?js = "List.map_filter id m" and ?n = "length right"
  note len = valid_length [OF v]
  have used_len: "length used = ?n" and used_iff: "j < ?n \<Longrightarrow> used ! j \<longleftrightarrow> Some j \<in> set m" for j
    using mark_used_nth [OF valid_range [OF v]] used by auto
  have "sum_list (map (\<lambda>(l, r). case r of None \<Rightarrow> {#} | Some j \<Rightarrow> {#g (right ! j)#}) (zip xs m))
      = image_mset (\<lambda>j. g (right ! j)) (mset (List.map_filter id m))"
    if "length m = length xs" for xs :: "'l list" and m
    using that by (induction xs m rule: list_induct2') (auto simp: List.map_filter_simps split: option.split)
  then have first: "sum_list (map (\<lambda>(l, r). case r of None \<Rightarrow> {#} | Some j \<Rightarrow> {#g (right ! j)#}) (zip left m))
      = image_mset (\<lambda>j. g (right ! j)) (mset ?js)" using len by simp
  have js_set: "set ?js = {j. Some j \<in> set m}"
    by (induction m) (auto simp: List.map_filter_simps split: option.split)
  have "distinct (List.map_filter id m)" if "\<And>i j r. i < length m \<Longrightarrow> j < length m \<Longrightarrow> m ! i = Some r \<Longrightarrow> m ! j = Some r \<Longrightarrow> i = j"
    for m :: matching
    using that
  proof (induction m)
    case (Cons x m)
    have tail: "distinct (List.map_filter id m)"
    proof (rule Cons.IH)
      show "i = j" if "i < length m" "j < length m" "m ! i = Some r" "m ! j = Some r" for i j r
        using Cons.prems [of "Suc i" "Suc j" r] that by simp
    qed
    have "Some r \<notin> set m" if "x = Some r" for r
      using Cons.prems [of 0 "Suc _" r] that by (auto simp: in_set_conv_nth)
    moreover have "set (List.map_filter id m) = {j. Some j \<in> set m}"
      by (induction m) (auto simp: List.map_filter_simps split: option.split)
    ultimately show ?case using tail by (auto simp: List.map_filter_simps id_def split: option.split)
  qed (simp add: List.map_filter_simps)
  from this [of m] have "distinct ?js" using valid_inj [OF v] len by simp
  moreover have "set ?js = set (filter ((!) used) [0..<?n])"
    using js_set used_iff valid_range [OF v] by (force simp: list_all_iff)
  ultimately have used_js: "mset ?js = mset (filter ((!) used) [0..<?n])"
    by (simp only: set_eq_iff_mset_eq_distinct [of ?js "filter ((!) used) [0..<?n]"] distinct_filter distinct_upt)
  have rest: "sum_list (map (\<lambda>r. {#g r#}) (map fst (filter (\<lambda>(r, used). \<not> used) (zip right used))))
      = image_mset (\<lambda>j. g (right ! j)) (mset (filter (\<lambda>j. \<not> used ! j) [0..<?n]))"
  proof -
    have z: "zip right used = map (\<lambda>j. (right ! j, used ! j)) [0..<?n]"
      by (rule nth_equalityI) (simp_all add: used_len)
    have "sum_list (map (\<lambda>r. {#g r#}) xs) = image_mset g (mset xs)" for xs by (induction xs) simp_all
    then show ?thesis unfolding z
      by (simp add: filter_map o_def case_prod_unfold multiset.map_comp)
  qed
  have whole: "image_mset g (mset right) = image_mset (\<lambda>j. g (right ! j)) (mset [0..<?n])"
  proof -
    have "right = map ((!) right) [0..<?n]" by (simp add: map_nth)
    then have "mset right = image_mset ((!) right) (mset [0..<?n])" by (metis mset_map)
    then show ?thesis by (simp add: multiset.map_comp o_def)
  qed
  have parts: "mset [0..<?n] = mset (filter ((!) used) [0..<?n]) + mset (filter (\<lambda>j. \<not> used ! j) [0..<?n])"
    by (simp only: mset_filter) (rule multiset_partition)
  show ?thesis unfolding first rest whole parts used_js image_mset_union ..
qed

lemma sum_list_none: "sum_list (map (\<lambda>x. {#}) xs) = {#}"
  by (induction xs) simp_all

lemma matched_refs:
  shows "left_refs depth (fst (matchSpans U left right depth s)) = image_mset spanRef (mset left)"
    and "scores_bounded (alignedSpanMatchScore U) left right
      \<Longrightarrow> right_refs depth (fst (matchSpans U left right depth s)) = image_mset spanRef (mset right)"
proof -
  let ?m = "maximumCardinalityPairs U left right (alignedSpanMatchScore U)"
  let ?only = "\<lambda>kind xs t. fst (each_rows (onlyRows kind depth) xs t)"
  have only: "left_refs depth (?only ''left_only'' xs t) = sum_list (map (\<lambda>l. {#spanRef l#}) xs)"
    "right_refs depth (?only ''left_only'' xs t) = sum_list (map (\<lambda>l. {#}) xs)"
    "left_refs depth (?only ''right_only'' xs t) = sum_list (map (\<lambda>l. {#}) xs)"
    "right_refs depth (?only ''right_only'' xs t) = sum_list (map (\<lambda>l. {#spanRef l#}) xs)" for xs t
    by (rule each_rows_sum; simp add: only_refs)+
  have pairs: "left_refs depth (fst (each_rows (pair_rows U right depth) xs t))
      = sum_list (map (\<lambda>(l, r). case r of None \<Rightarrow> {#} | Some j \<Rightarrow> {#spanRef l#}) xs)"
    "right_refs depth (fst (each_rows (pair_rows U right depth) xs t))
      = sum_list (map (\<lambda>(l, r). case r of None \<Rightarrow> {#} | Some j \<Rightarrow> {#spanRef (right ! j)#}) xs)" for xs t
    by (rule each_rows_sum; force simp: pair_refs)+
  have fst_zip: "map fst (zip left (fst ?m)) = left" by simp
  show "left_refs depth (fst (matchSpans U left right depth s)) = image_mset spanRef (mset left)"
    using left_split [of spanRef "zip left (fst ?m)"]
    by (simp add: matchSpans_parts Let_def only pairs sum_list_none o_def)
  show "right_refs depth (fst (matchSpans U left right depth s)) = image_mset spanRef (mset right)"
    if b: "scores_bounded (alignedSpanMatchScore U) left right"
  proof -
    note solved = pairing_solved [OF b, of U]
    from right_split [of left right _ "fst ?m" "snd ?m" spanRef] solved
    show ?thesis by (simp add: matchSpans_parts Let_def only pairs sum_list_none o_def) blast
  qed
qed

section \<open>Every trace is in one row\<close>

definition trace_table :: "unicode_tables \<Rightarrow> resolvedTrace list \<Rightarrow> resolvedTrace list \<Rightarrow> edges" where
  "trace_table U left right =
     (let f = (if length left + length right > optimalAssignmentVertexLimit
        then shallowTraceMatchScore U else traceMatchScore U)
      in map (\<lambda>l. map (f l) right) left)"

definition traces_bounded :: "unicode_tables \<Rightarrow> resolvedTrace list \<Rightarrow> resolvedTrace list \<Rightarrow> bool" where
  "traces_bounded U left right \<longleftrightarrow> details_bounded (map (\<lambda>l. map (traceMatchScore U l) right) left)"

lemma trace_pairs_solved:
  assumes "traces_bounded U left right"
  shows "valid_matching (length left) (length right) (trace_table U left right)
      (fst (maximumCardinalityTracePairs U left right))
    \<and> snd (maximumCardinalityTracePairs U left right)
      = mark_used (length right) (fst (maximumCardinalityTracePairs U left right))"
proof (cases "length left + length right > optimalAssignmentVertexLimit")
  case True
  then show ?thesis using linear_seeded(1,2) by (simp add: maximumCardinalityTracePairs_def trace_table_def)
next
  case False
  have ok: "pairs_apply (length left) (length right) (map (\<lambda>l. map (traceMatchScore U l) right) left)"
    using assms by (simp add: pairs_apply_def table_ok_def list_all_iff traces_bounded_def)
  show ?thesis using chosen.solved [OF ok] chosen.marked [OF ok] False
    by (simp add: maximumCardinalityTracePairs_def trace_table_def)
qed

lemma trace_pairs_length [simp]: "length (fst (maximumCardinalityTracePairs U left right)) = length left"
  using valid_length [OF linear_seeded(1)] by (simp add: maximumCardinalityTracePairs_def)

lemma traces_of_append [simp]: "traces_of kind (xs @ ys) = traces_of kind xs + traces_of kind ys"
  "traces_of kind [] = 0"
  by (simp_all add: traces_of_def)

lemma align_left_kinds:
  "traces_of ''matched'' (fst (align_left U rs (t, r) s)) = (if r = None then 0 else 1)"
  "traces_of ''left_only'' (fst (align_left U rs (t, r) s)) = (if r = None then 1 else 0)"
  "traces_of ''right_only'' (fst (align_left U rs (t, r) s)) = 0"
  using only_spans_tally [of "''left_only''" t s]
  by (auto simp: align_left_def traces_of_def Let_def case_prod_unfold split: option.split)

lemma align_right_kinds:
  "traces_of ''matched'' (fst (align_right t s)) = 0" "traces_of ''left_only'' (fst (align_right t s)) = 0"
  "traces_of ''right_only'' (fst (align_right t s)) = 1"
  using only_spans_tally [of "''right_only''" t s]
  by (simp_all add: align_right_def traces_of_def Let_def case_prod_unfold)

lemma align_traces_kinds:
  shows "traces_of ''matched'' (sa_traces (align_traces U ls rs)) + traces_of ''left_only'' (sa_traces (align_traces U ls rs))
      = int (length ls)"
    and "traces_bounded U ls rs \<Longrightarrow>
      traces_of ''matched'' (sa_traces (align_traces U ls rs)) + traces_of ''right_only'' (sa_traces (align_traces U ls rs))
      = int (length rs)"
proof -
  let ?m = "maximumCardinalityTracePairs U ls rs"
  let ?pairs = "zip ls (fst ?m)" and ?rest = "map fst (filter (\<lambda>(t, used). \<not> used) (zip rs (snd ?m)))"
  let ?matched = "sum_list (map (\<lambda>(t, r). if r = None then 0 else 1 :: int) ?pairs)"
  have left: "traces_of ''matched'' (fst (each_rows (align_left U rs) xs s))
      = sum_list (map (\<lambda>(t, r). if r = None then 0 else 1) xs)"
    "traces_of ''left_only'' (fst (each_rows (align_left U rs) xs s))
      = sum_list (map (\<lambda>(t, r). if r = None then 1 else 0) xs)"
    "traces_of ''right_only'' (fst (each_rows (align_left U rs) xs s)) = sum_list (map (\<lambda>p. 0) xs)" for xs s
    by (rule each_rows_sum; force simp: align_left_kinds)+
  have right: "traces_of ''matched'' (fst (each_rows align_right xs s)) = sum_list (map (\<lambda>p. 0) xs)"
    "traces_of ''left_only'' (fst (each_rows align_right xs s)) = sum_list (map (\<lambda>p. 0) xs)"
    "traces_of ''right_only'' (fst (each_rows align_right xs s)) = sum_list (map (\<lambda>p. 1) xs)" for xs s
    by (rule each_rows_sum; simp add: align_right_kinds)+
  have traces: "sa_traces (align_traces U ls rs) = fst (each_rows (align_left U rs) ?pairs zero_summary)
      @ fst (each_rows align_right ?rest (snd (each_rows (align_left U rs) ?pairs zero_summary)))"
    by (simp add: align_traces_def Let_def case_prod_unfold)
  have kinds: "traces_of ''matched'' (sa_traces (align_traces U ls rs)) = ?matched"
    "traces_of ''left_only'' (sa_traces (align_traces U ls rs))
      = sum_list (map (\<lambda>(t, r). if r = None then 1 else 0) ?pairs)"
    "traces_of ''right_only'' (sa_traces (align_traces U ls rs)) = int (length ?rest)"
    unfolding traces by (simp_all only: traces_of_append left right) (simp_all add: sum_list_triv o_def)
  have "sum_list (map (\<lambda>(t, r). if r = None then 0 else 1) xs)
      + sum_list (map (\<lambda>(t, r). if r = None then 1 else 0) xs) = int (length xs)"
    for xs :: "(resolvedTrace \<times> nat option) list"
    by (induction xs) auto
  from this [of ?pairs]
  show "traces_of ''matched'' (sa_traces (align_traces U ls rs)) + traces_of ''left_only'' (sa_traces (align_traces U ls rs))
      = int (length ls)"
    unfolding kinds by simp
  show "traces_of ''matched'' (sa_traces (align_traces U ls rs)) + traces_of ''right_only'' (sa_traces (align_traces U ls rs))
      = int (length rs)" if b: "traces_bounded U ls rs"
  proof -
    have "size (sum_list (map (\<lambda>(l, r). case r of None \<Rightarrow> {#} | Some j \<Rightarrow> {#id (rs ! j)#}) xs))
        = nat (sum_list (map (\<lambda>(t, r). if r = None then 0 else 1 :: int) xs))
        \<and> 0 \<le> sum_list (map (\<lambda>(t, r). if r = None then 0 else 1 :: int) xs)"
      for xs :: "(resolvedTrace \<times> nat option) list"
      by (induction xs) (auto split: option.split)
    from this [of ?pairs] have m: "int (size (sum_list (map (\<lambda>(l, r). case r of None \<Rightarrow> {#}
        | Some j \<Rightarrow> {#id (rs ! j)#}) ?pairs))) = ?matched" by simp
    have r: "size (sum_list (map (\<lambda>r. {#id r#}) xs)) = length xs" for xs :: "resolvedTrace list"
      by (induction xs) simp_all
    have "size (sum_list (map (\<lambda>(l, r). case r of None \<Rightarrow> {#} | Some j \<Rightarrow> {#id (rs ! j)#}) ?pairs))
        + size (sum_list (map (\<lambda>r. {#id r#}) ?rest)) = size (image_mset id (mset rs))"
      using right_split [of ls rs _ "fst ?m" "snd ?m" id] trace_pairs_solved [OF b]
      by (metis size_union)
    with m r [of ?rest] show ?thesis unfolding kinds by (simp only: size_image_mset size_mset)
  qed
qed

lemma trace_candidates_some: "traceGroupCandidates U index g \<noteq> []"
proof (induction U index g rule: traceGroupCandidates.induct)
  case (1 U index n exact gmin gmax cardinality alts coverage roots)
  show ?case
  proof (cases alts)
    case (Cons a rest)
    with 1 have "traceGroupCandidates U index a \<noteq> []" by simp
    with Cons show ?thesis by simp
  qed simp
qed

lemma canonical_traces_length: "length (canonicalTraceCandidates U gs) = length gs"
proof -
  have "length (concat (map (\<lambda>(index, g). case traceGroupCandidates U index g of [] \<Rightarrow> []
      | c # cs \<Rightarrow> [least_by canonicalTraceKey c cs]) xs)) = length xs" for xs
    by (induction xs) (auto simp: trace_candidates_some split: list.split)
  then show ?thesis by (simp add: canonicalTraceCandidates_def)
qed

lemma put_choices_length:
  "length (fst (put_choices z choice m acc)) = length (fst acc)"
  "length (snd (put_choices z choice m acc)) = length (snd acc)"
proof -
  have "length (fst (fold (put_choice z choice) ps acc)) = length (fst acc)
      \<and> length (snd (fold (put_choice z choice) ps acc)) = length (snd acc)" for ps
    by (induction ps arbitrary: acc) (auto simp: put_choice_def split: option.split prod.split)
  then show "length (fst (put_choices z choice m acc)) = length (fst acc)"
    "length (snd (put_choices z choice m acc)) = length (snd acc)"
    by (simp_all add: put_choices_def)
qed

lemma chosen_traces_length:
  "length (fst (choosePairedTraceCandidates U ls rs)) = length ls"
  "length (snd (choosePairedTraceCandidates U ls rs)) = length rs"
  by (simp_all add: choosePairedTraceCandidates_def Let_def case_prod_unfold put_choices_length canonical_traces_length)

section \<open>Properties of the alignment\<close>

text \<open>
  \<open>AlignShapes\<close> of two shapes returns an alignment whose totals are the counts of its rows:
  the traces of each kind, the rows of spans of each kind, and the matched rows with differences.
\<close>

theorem alignment_totals:
  "\<exists>a. AlignShapes U (Some left) (Some right) = Some a
    \<and> al_traceMatched (sa_summary a) = traces_of ''matched'' (sa_traces a)
    \<and> al_traceLeftOnly (sa_summary a) = traces_of ''left_only'' (sa_traces a)
    \<and> al_traceRightOnly (sa_summary a) = traces_of ''right_only'' (sa_traces a)
    \<and> al_matched (sa_summary a) = rows_of ''matched'' (concat (map tm_spans (sa_traces a)))
    \<and> al_leftOnly (sa_summary a) = rows_of ''left_only'' (concat (map tm_spans (sa_traces a)))
    \<and> al_rightOnly (sa_summary a) = rows_of ''right_only'' (concat (map tm_spans (sa_traces a)))
    \<and> al_differing (sa_summary a) = differing_rows (concat (map tm_spans (sa_traces a)))"
  unfolding AlignShapes_def Let_def
  by (simp add: case_prod_unfold align_tally)
    (simp add: tally_traces_def tally_rows_def zero_summary_def)

definition ex_one_trace :: ScenarioShape where
  "ex_one_trace = \<lparr>ss_profile = ''a'', ss_scenario = ''s'', ss_source = [],
     ss_traces = [TraceGroup 1 True 1 1 [] [] ''full'' []], ss_exact = True, ss_traceCount = 1,
     ss_spanCount = 0, ss_scopes = [], ss_statuses = []\<rparr>"

lemma shallow_bound: "shallowAlignedSpanMatchScore U l r \<le> 138"
proof -
  have "spanMatchScore U (as_node l) (as_node r) \<le> 111" by (simp add: spanMatchScore_def Let_def)
  moreover have "field_score 8 a b \<le> 8" "field_score 4 a b \<le> 4" for a b by (simp_all add: field_score_def)
  ultimately show ?thesis
    unfolding shallowAlignedSpanMatchScore_def Let_def
    by (smt (verit) of_nat_0_le_iff)
qed

text \<open>
  C11. The rows \<open>matchSpans\<close> writes at its own depth show each left span and each right span
  exactly once, as multisets of spans without their children; for the right side the scores stay
  within \<open>10 ^ 12\<close>.
\<close>

theorem spans_in_one_row:
  assumes "scores_bounded (alignedSpanMatchScore U) left right"
  shows "left_refs depth (fst (matchSpans U left right depth s)) = image_mset spanRef (mset left)
    \<and> right_refs depth (fst (matchSpans U left right depth s)) = image_mset spanRef (mset right)"
  using matched_refs(1) matched_refs(2) [OF assms] by blast

definition ex_kind :: "string \<Rightarrow> alignedSpan" where
  "ex_kind kind = AlignedSpan (SpanNode [] [] kind [] [] [] []) ''1'' 1 1 True 0 [] [] [] [] None"

lemma ex_kind_bounded:
  "scores_bounded (alignedSpanMatchScore U) (map ex_kind ks) (map ex_kind js)"
proof -
  have "alignedSpanMatchScore U (ex_kind k) (ex_kind j) \<le> 138" for k j
    using shallow_bound [of U "ex_kind k" "ex_kind j"]
    by (simp add: alignedSpanMatchScore.simps pairedSpanListScore_def total_score_def Let_def case_prod_unfold ex_kind_def)
  then have "alignedSpanMatchScore U (ex_kind k) (ex_kind j) \<le> 10 ^ 12" for k j
    by (rule order_trans) simp
  then show ?thesis by (simp add: scores_bounded_def list_all_iff)
qed

theorem spans_in_one_row_witness:
  "\<forall>U :: unicode_tables. let rows = fst (matchSpans U (map ex_kind [''server'', ''client'', ''server''])
      (map ex_kind [''client'', ''server'']) 0 zero_summary) in
    left_refs 0 rows = {#spanRef (ex_kind ''server''), spanRef (ex_kind ''server''), spanRef (ex_kind ''client'')#}
    \<and> right_refs 0 rows = {#spanRef (ex_kind ''server''), spanRef (ex_kind ''client'')#}"
  using spans_in_one_row [OF ex_kind_bounded [of _ "[''server'', ''client'', ''server'']" "[''client'', ''server'']"], of 0 _ zero_summary]
  by simp

text \<open>
  C12. The pairing of sibling spans leaves no compatible pair over: a left span without a partner
  and an unused right span differ in a kind or a normalized name that both have.
\<close>

theorem leftover_spans_incompatible:
  assumes "scores_bounded (alignedSpanMatchScore U) left right" "i < length left" "j < length right"
    and "fst (maximumCardinalityPairs U left right (alignedSpanMatchScore U)) ! i = None"
    and "\<not> snd (maximumCardinalityPairs U left right (alignedSpanMatchScore U)) ! j"
  shows "spanMatchScore U (as_node (left ! i)) (as_node (right ! j)) < 0"
proof -
  have "spans_apply U left right (length left) (length right)
      (pairing_table U left right (alignedSpanMatchScore U))"
    using assms(1) by (simp add: spans_apply_def)
  from spans.leftover_incompatible [OF this assms(2,4,3,5)] pairing_table_none [OF assms(2,3)]
  show ?thesis by simp
qed

theorem leftover_spans_incompatible_witness:
  "\<forall>U :: unicode_tables. spanMatchScore U (as_node (ex_kind ''server'')) (as_node (ex_kind ''client'')) < 0"
proof
  fix U :: unicode_tables
  let ?l = "[ex_kind ''server'']" and ?r = "[ex_kind ''client'']"
  have neg: "alignedSpanMatchScore U (ex_kind ''server'') (ex_kind ''client'') < 0"
    "shallow_overlap_score U (ex_kind ''server'') (ex_kind ''client'') < 0"
    unfolding aligned_compatible overlap_compatible shallow_compatible
    by (simp_all add: spanMatchScore_def ex_kind_def)
  have b: "scores_bounded (alignedSpanMatchScore U) ?l ?r"
    using neg by (simp add: scores_bounded_def)
  let ?m = "maximumCardinalityPairs U ?l ?r (alignedSpanMatchScore U)"
  have none: "fst ?m ! 0 = None"
    using span_pair [of 0 ?l U ?r "alignedSpanMatchScore U"] neg by (cases "fst ?m ! 0") fastforce+
  then have "fst ?m = [None]"
    using span_pairs_length [where U = U and left = ?l and right = ?r and score = "alignedSpanMatchScore U"]
    by (intro nth_equalityI) (auto simp del: span_pairs_length)
  then have "\<not> snd ?m ! 0"
    using pairing_solved [OF b, of U] by (simp add: mark_used_def)
  from leftover_spans_incompatible [OF b _ _ none this]
  show "spanMatchScore U (as_node (ex_kind ''server'')) (as_node (ex_kind ''client'')) < 0" by simp
qed

text \<open>
  Children never change which spans are compatible: the nested score is negative exactly when
  the score of the two nodes is.
\<close>

theorem children_keep_compatibility:
  "alignedSpanMatchScore U left right < 0 \<longleftrightarrow> spanMatchScore U (as_node left) (as_node right) < 0"
  by (rule aligned_compatible)

text \<open>
  The merge loop of \<open>childOverlapScore\<close> on candidates of two groups counts the common keys of
  the descendants with their multiplicity: a thousand points for each element of the intersection
  of the two multisets.
\<close>

theorem overlap_is_intersection:
  assumes "left \<in> set (resolveSpanGroup U g)" "right \<in> set (resolveSpanGroup V h)"
  shows "childOverlapScore left right
    = 1000 * int (size (mset (concat (map (collect_keys []) (as_children left)))
        \<inter># mset (concat (map (collect_keys []) (as_children right)))))
      + (if as_childKey left = as_childKey right then 1000 else 0)"
  by (simp add: childOverlapScore_def resolved_keys [OF assms(1)] resolved_keys [OF assms(2)]
      canonicalChildMatchKeys_def common_keys_multiset)

definition ex_leaf :: SpanGroup where
  "ex_leaf = SpanGroup 1 True 1 1 [] [] (SpanNode [] [] ''client'' [] [] [] [])"

definition ex_parent :: SpanGroup where
  "ex_parent = SpanGroup 1 True 1 1 [] [] (SpanNode [] [] ''server'' [] [] [] [ex_leaf])"

theorem overlap_is_intersection_witness:
  "\<forall>U :: unicode_tables. childOverlapScore (hd (resolveSpanGroup U ex_parent)) (hd (resolveSpanGroup U ex_parent)) = 2000"
proof
  fix U :: unicode_tables
  let ?c = "hd (resolveSpanGroup U ex_parent)"
  have c: "?c \<in> set (resolveSpanGroup U ex_parent)" by (simp add: ex_parent_def)
  have "length (concat (map (collect_keys []) (as_children ?c))) = 1"
    by (simp add: ex_parent_def ex_leaf_def plain_span_def best_candidate_def spanBounds_def)
  then have "size (mset (concat (map (collect_keys []) (as_children ?c)))) = 1" by (simp only: size_mset)
  with overlap_is_intersection [OF c c] show "childOverlapScore ?c ?c = 2000" by simp
qed

end
