(* ===== verification/Json.thy ===== *)
theory Json
  imports GoStrings
begin

text \<open>
  Decoded JSON as \<open>src/report/report/capture.go\<close> handles it: a value of type \<open>any\<close> that holds
  what \<open>encoding/json\<close> decodes with \<open>UseNumber\<close>, or a \<open>reportNumber\<close>; its accessors \<open>object\<close>,
  \<open>array\<close>, \<open>str\<close>, \<open>canonical\<close> and \<open>defaults\<close>, with the parts of \<open>encoding/json\<close>, \<open>fmt\<close> and
  \<open>encoding/base64\<close> they call. An object is a list of members with distinct keys.
\<close>

section \<open>Values\<close>

datatype json = JNull | JBool bool | JNumber string | JReport string | JString string
  | JArray "json list" | JObject "(string \<times> json) list"

type_synonym members = "(string, json) gomap"

text \<open>\<open>object\<close> and \<open>array\<close>: \<open>None\<close> is Go's nil map and nil slice.\<close>

fun object :: "json \<Rightarrow> members option" where
  "object (JObject m) = Some m"
| "object _ = None"

fun array :: "json \<Rightarrow> json list option" where
  "array (JArray xs) = Some xs"
| "array _ = None"

fun is_string :: "json \<Rightarrow> bool" where
  "is_string (JString _) = True"
| "is_string _ = False"

fun is_number :: "json \<Rightarrow> bool" where
  "is_number (JNumber _) = True"
| "is_number _ = False"

fun is_bool :: "json \<Rightarrow> bool" where
  "is_bool (JBool _) = True"
| "is_bool _ = False"

text \<open>\<open>m[k]\<close>, nil when the key is missing\<close>

abbreviation member :: "members \<Rightarrow> string \<Rightarrow> json" where
  "member m k \<equiv> go_get0 JNull m k"

text \<open>\<open>defaults\<close>: members that are missing or nil get a value.\<close>

definition defaults :: "members \<Rightarrow> members \<Rightarrow> members" where
  "defaults m vals = fold (\<lambda>(k, v) m. if member m k = JNull then go_put k v m else m) vals m"

text \<open>\<open>repeatedField\<close>: the items, or its error; nil has none.\<close>

definition repeatedField :: "json \<Rightarrow> string \<Rightarrow> json list result" where
  "repeatedField v name =
     (if v = JNull then Inr []
      else case array v of None \<Rightarrow> Inl (Err ''unreadable %s'' [name]) | Some items \<Rightarrow> Inr items)"

section \<open>Text of values\<close>

text \<open>\<open>%v\<close> of a value inside a list or map, and \<open>str\<close>\<close>

definition go_bool :: "bool \<Rightarrow> string" where
  "go_bool b = (if b then ''true'' else ''false'')"

function sprint :: "json \<Rightarrow> string" where
  "sprint JNull = ''<nil>''"
| "sprint (JBool b) = go_bool b"
| "sprint (JNumber n) = n"
| "sprint (JReport n) = n"
| "sprint (JString s) = s"
| "sprint (JArray xs) = ''['' @ join (map sprint xs) '' '' @ '']''"
| "sprint (JObject m) =
     ''map['' @ join (map (\<lambda>(k, v). k @ '':'' @ sprint v) (sort_key fst m)) '' '' @ '']''"
  by pat_completeness auto

lemma member_size: "(k, v) \<in> set m \<Longrightarrow> size v < Suc (size_list (size_prod (\<lambda>_. 0) size) m)"
  by (induction m) auto

lemma element_size: "x \<in> set xs \<Longrightarrow> size x < Suc (size_list size xs)"
  by (induction xs) auto

termination sprint
  by (relation "measure size") (auto intro: member_size element_size)

definition str :: "json \<Rightarrow> string" where
  "str v = (if v = JNull then [] else sprint v)"

text \<open>\<open>json.Marshal\<close>: strings are escaped for HTML, members are in the order of their keys.\<close>

definition json_hex :: "nat \<Rightarrow> char" where
  "json_hex n = char_of (if n < 10 then 48 + n else 87 + n)"

definition quote_rune :: "nat \<times> string \<Rightarrow> string" where
  "quote_rune = (\<lambda>(r, raw).
     if r = 34 then [char_of (92 :: nat), CHR 0x22] else if r = 92 then [char_of (92 :: nat), char_of (92 :: nat)]
     else if r = 8 then [char_of (92 :: nat), CHR ''b''] else if r = 12 then [char_of (92 :: nat), CHR ''f'']
     else if r = 10 then [char_of (92 :: nat), CHR ''n''] else if r = 13 then [char_of (92 :: nat), CHR ''r'']
     else if r = 9 then [char_of (92 :: nat), CHR ''t'']
     else if r < 32 \<or> r = 60 \<or> r = 62 \<or> r = 38 then
       [char_of (92 :: nat)] @ ''u00'' @ [json_hex (r div 16), json_hex (r mod 16)]
     else if r = rune_error \<and> length raw = 1 then [char_of (92 :: nat)] @ ''ufffd''
     else if r = 0x2028 then [char_of (92 :: nat)] @ ''u2028''
     else if r = 0x2029 then [char_of (92 :: nat)] @ ''u2029''
     else raw)"

definition quote :: "string \<Rightarrow> string" where
  "quote s = [CHR 0x22] @ concat (map quote_rune (segments s)) @ [CHR 0x22]"

function canonical :: "json \<Rightarrow> string" where
  "canonical JNull = ''null''"
| "canonical (JBool b) = go_bool b"
| "canonical (JNumber n) = n"
| "canonical (JReport n) = ''{'' @ quote ''$number'' @ '':'' @ quote n @ ''}''"
| "canonical (JString s) = quote s"
| "canonical (JArray xs) = ''['' @ join (map canonical xs) '','' @ '']''"
| "canonical (JObject m) =
     ''{'' @ join (map (\<lambda>(k, v). quote k @ '':'' @ canonical v) (sort_key fst m)) '','' @ ''}''"
  by pat_completeness auto

termination canonical
  by (relation "measure size") (auto intro: member_size element_size)

section \<open>Base64\<close>

definition base64_char :: "nat \<Rightarrow> char" where
  "base64_char n = char_of (if n < 26 then 65 + n else if n < 52 then 71 + n else if n < 62 then n - 4
     else if n = 62 then 43 else 47)"

definition base64_value :: "char \<Rightarrow> nat option" where
  "base64_value c = (let b = byte_of c in
     if 65 \<le> b \<and> b \<le> 90 then Some (b - 65) else if 97 \<le> b \<and> b \<le> 122 then Some (b - 71)
     else if 48 \<le> b \<and> b \<le> 57 then Some (b + 4) else if b = 43 then Some 62 else if b = 47 then Some 63 else None)"

text \<open>\<open>base64.StdEncoding.EncodeToString\<close>\<close>

fun base64_encode :: "nat list \<Rightarrow> string" where
  "base64_encode [] = []"
| "base64_encode [a] = [base64_char (a div 4), base64_char (a mod 4 * 16), CHR ''='', CHR ''='']"
| "base64_encode [a, b] = [base64_char (a div 4), base64_char (a mod 4 * 16 + b div 16), base64_char (b mod 16 * 4), CHR ''='']"
| "base64_encode (a # b # c # rest) =
     base64_char (a div 4) # base64_char (a mod 4 * 16 + b div 16) # base64_char (b mod 16 * 4 + c div 64)
       # base64_char (c mod 64) # base64_encode rest"

text \<open>
  \<open>DecodeString\<close> of \<open>StdEncoding.Strict\<close> (\<open>padded\<close>) and of \<open>RawStdEncoding.Strict\<close>: quanta of four
  characters, a last one that may be padded or short, and no bits left over.
\<close>

fun base64_tail :: "bool \<Rightarrow> string \<Rightarrow> nat list option" where
  "base64_tail padded [] = Some []"
| "base64_tail padded [c, d] =
     (case (base64_value c, base64_value d) of
        (Some x, Some y) \<Rightarrow> if \<not> padded \<and> y mod 16 = 0 then Some [x * 4 + y div 16] else None
      | _ \<Rightarrow> None)"
| "base64_tail padded [c, d, e] =
     (case (base64_value c, base64_value d, base64_value e) of
        (Some x, Some y, Some z) \<Rightarrow>
          if \<not> padded \<and> z mod 4 = 0 then Some [x * 4 + y div 16, y mod 16 * 16 + z div 4] else None
      | _ \<Rightarrow> None)"
| "base64_tail padded (c # d # e # f # rest) =
     (case (base64_value c, base64_value d, base64_value e, base64_value f) of
        (Some x, Some y, Some z, Some w) \<Rightarrow>
          map_option (\<lambda>bytes. (x * 4 + y div 16) # (y mod 16 * 16 + z div 4) # (z mod 4 * 64 + w) # bytes)
            (base64_tail padded rest)
      | (Some x, Some y, Some z, None) \<Rightarrow>
          if padded \<and> f = CHR ''='' \<and> rest = [] \<and> z mod 4 = 0 then Some [x * 4 + y div 16, y mod 16 * 16 + z div 4] else None
      | (Some x, Some y, None, None) \<Rightarrow>
          if padded \<and> e = CHR ''='' \<and> f = CHR ''='' \<and> rest = [] \<and> y mod 16 = 0 then Some [x * 4 + y div 16] else None
      | _ \<Rightarrow> None)"
| "base64_tail padded [c] = None"

text \<open>Line breaks are skipped.\<close>

definition base64_decode :: "bool \<Rightarrow> string \<Rightarrow> nat list option" where
  "base64_decode padded s = base64_tail padded (filter (\<lambda>c. c \<noteq> char_of (10 :: nat) \<and> c \<noteq> char_of (13 :: nat)) s)"

text \<open>\<open>canonicalBytes\<close>\<close>

definition canonicalBytes :: "string \<Rightarrow> string option" where
  "canonicalBytes v =
     (let normalized = map (\<lambda>c. if c = CHR ''-'' then CHR ''+'' else if c = CHR ''_'' then CHR ''/'' else c) v
      in case base64_decode True normalized of
           Some raw \<Rightarrow> Some (base64_encode raw)
         | None \<Rightarrow> map_option base64_encode (base64_decode False normalized))"

lemma base64_value_char [simp]: "n < 64 \<Longrightarrow> base64_value (base64_char n) = Some n"
  by (auto simp: base64_value_def base64_char_def Let_def)

lemma base64_pad_value [simp]: "base64_value (CHR ''='') = None"
  by (simp add: base64_value_def)

lemma base64_roundtrip_tail: "list_all (\<lambda>b. b < 256) bytes \<Longrightarrow> base64_tail True (base64_encode bytes) = Some bytes"
proof (induction bytes rule: base64_encode.induct)
  case (2 a)
  have "a mod 4 * 16 mod 16 = 0" "a mod 4 * 16 div 16 = a mod 4" "a mod 4 * 16 < 64" "a div 4 < 64" using 2 by auto
  then show ?case by simp
next
  case (3 a b)
  have "a mod 4 * 16 + b div 16 < 64" "b mod 16 * 4 < 64" "a div 4 < 64" using 3 by auto
  moreover have "(a mod 4 * 16 + b div 16) div 16 = a mod 4" "(a mod 4 * 16 + b div 16) mod 16 = b div 16" using 3 by auto
  ultimately show ?case by simp
next
  case (4 a b c rest)
  have lt: "a mod 4 * 16 + b div 16 < 64" "b mod 16 * 4 + c div 64 < 64" "a div 4 < 64" "c mod 64 < 64" using 4(2) by auto
  have "(a mod 4 * 16 + b div 16) div 16 = a mod 4" "(a mod 4 * 16 + b div 16) mod 16 = b div 16"
    "(b mod 16 * 4 + c div 64) div 4 = b mod 16" "(b mod 16 * 4 + c div 64) mod 4 = c div 64" using 4(2) by auto
  with lt 4 show ?case by simp
qed simp

end
