(* ===== verification/Wire.thy ===== *)
theory Wire
  imports Json
begin

text \<open>
  The normalization of OTLP payloads in \<open>src/report/report/capture.go\<close>: protocol field names in
  their one spelling, the checks of field types, 64-bit numbers as decimal text and attributes in
  a canonical order. A value is normalized in a context, the name of the message or of the
  repeated field it stands in. \<open>floatText\<close> stands for the spelling \<open>strconv.FormatFloat\<close> gives the
  double that \<open>strconv.ParseFloat\<close> reads from a decimal, \<open>None\<close> for an infinite one.
\<close>

section \<open>Field tables\<close>

definition allowedWireFields :: "(string, string list) gomap" where
  "allowedWireFields = [
     (''tracePayload'', [''resourceSpans'']),
     (''resourceSpan'', [''resource'', ''scopeSpans'', ''schemaUrl'']),
     (''resource'', [''attributes'', ''droppedAttributesCount'', ''entityRefs'']),
     (''entityRef'', [''schemaUrl'', ''type'', ''idKeys'', ''descriptionKeys'']),
     (''scopeSpan'', [''scope'', ''spans'', ''schemaUrl'']),
     (''scope'', [''name'', ''version'', ''attributes'', ''droppedAttributesCount'']),
     (''span'', [''traceId'', ''spanId'', ''traceState'', ''parentSpanId'', ''name'', ''kind'', ''startTimeUnixNano'',
        ''endTimeUnixNano'', ''attributes'', ''droppedAttributesCount'', ''events'', ''droppedEventsCount'', ''links'',
        ''droppedLinksCount'', ''status'', ''flags'']),
     (''spanEvent'', [''timeUnixNano'', ''name'', ''attributes'', ''droppedAttributesCount'']),
     (''spanLink'', [''traceId'', ''spanId'', ''traceState'', ''attributes'', ''droppedAttributesCount'', ''flags'']),
     (''status'', [''message'', ''code'']),
     (''keyValue'', [''key'', ''value'']),
     (''anyValue'', [''value'', ''stringValue'', ''boolValue'', ''intValue'', ''doubleValue'', ''arrayValue'',
        ''kvlistValue'', ''bytesValue'']),
     (''arrayValue'', [''values'']),
     (''keyValueList'', [''values''])]"

definition allowedWireField :: "string \<Rightarrow> string \<Rightarrow> bool" where
  "allowedWireField context key =
     (case go_get allowedWireFields context of None \<Rightarrow> True | Some names \<Rightarrow> key \<in> set names)"

definition snakeWireField :: "string \<Rightarrow> string" where
  "snakeWireField field =
     concat (map (\<lambda>r. if 65 \<le> r \<and> r \<le> 90 then CHR ''_'' # encode_rune (r + 32) else encode_rune r) (runes field))"

fun lowerCamelRunes :: "bool \<Rightarrow> nat list \<Rightarrow> string" where
  "lowerCamelRunes uppercase [] = []"
| "lowerCamelRunes uppercase (r # rs) =
     (if r = 95 then lowerCamelRunes True rs
      else if uppercase then encode_rune (if 97 \<le> r \<and> r \<le> 122 then r - 32 else r) @ lowerCamelRunes False rs
      else encode_rune r @ lowerCamelRunes False rs)"

definition lowerCamelWireField :: "string \<Rightarrow> string" where
  "lowerCamelWireField field = lowerCamelRunes False (runes field)"

text \<open>The canonical name, or \<open>None\<close> for a spelling that is not of the context.\<close>

definition canonicalWireField :: "string \<Rightarrow> string \<Rightarrow> string option" where
  "canonicalWireField context spelling =
     (case go_get allowedWireFields context of
        None \<Rightarrow> Some spelling
      | Some names \<Rightarrow> List.find (\<lambda>field. spelling = field \<or> spelling = snakeWireField field) names)"

definition protocolStringField :: "string \<Rightarrow> string \<Rightarrow> bool" where
  "protocolStringField context key =
     (if context = ''resourceSpan'' \<or> context = ''scopeSpan'' then key = ''schemaUrl''
      else if context = ''entityRef'' then key = ''schemaUrl''
      else if context = ''scope'' then key = ''name'' \<or> key = ''version''
      else if context = ''span'' then key = ''traceState'' \<or> key = ''name''
      else if context = ''spanEvent'' then key = ''name''
      else if context = ''spanLink'' then key = ''traceId'' \<or> key = ''spanId'' \<or> key = ''traceState''
      else if context = ''status'' then key = ''message''
      else if context = ''keyValue'' then key = ''key''
      else False)"

definition protocolArrayField :: "string \<Rightarrow> string \<Rightarrow> bool" where
  "protocolArrayField context key =
     (if context = ''tracePayload'' then key = ''resourceSpans''
      else if context = ''resourceSpan'' then key = ''scopeSpans''
      else if context = ''resource'' then key = ''attributes'' \<or> key = ''entityRefs''
      else if context = ''scopeSpan'' then key = ''spans''
      else if context = ''scope'' \<or> context = ''spanEvent'' \<or> context = ''spanLink'' then key = ''attributes''
      else if context = ''span'' then key = ''attributes'' \<or> key = ''events'' \<or> key = ''links''
      else if context = ''arrayValue'' \<or> context = ''keyValueList'' then key = ''values''
      else False)"

definition captureWideStringFields :: "string set" where
  "captureWideStringFields = set [''description'', ''event_name'', ''eventName'', ''key'', ''message'', ''name'',
     ''parent_span_id'', ''parentSpanId'', ''schema_url'', ''schemaUrl'', ''severity_text'', ''severityText'',
     ''span_id'', ''spanId'', ''string_value'', ''stringValue'', ''trace_id'', ''traceId'', ''trace_state'',
     ''traceState'', ''unit'', ''version'']"

definition captureWideCollectionFields :: "string set" where
  "captureWideCollectionFields = set [''attributes'', ''bucket_counts'', ''bucketCounts'', ''data_points'',
     ''dataPoints'', ''entity_refs'', ''entityRefs'', ''events'', ''exemplars'', ''explicit_bounds'',
     ''explicitBounds'', ''filtered_attributes'', ''filteredAttributes'', ''links'', ''log_records'', ''logRecords'',
     ''metrics'', ''quantile_values'', ''quantileValues'', ''resource_logs'', ''resourceLogs'', ''resource_metrics'',
     ''resourceMetrics'', ''resource_spans'', ''resourceSpans'', ''scope_logs'', ''scopeLogs'', ''scope_metrics'',
     ''scopeMetrics'', ''scope_spans'', ''scopeSpans'', ''spans'', ''values'']"

definition protocolUint32Field :: "string \<Rightarrow> string \<Rightarrow> bool" where
  "protocolUint32Field context key =
     (if key = ''droppedAttributesCount'' then
        context = ''resource'' \<or> context = ''scope'' \<or> context = ''span'' \<or> context = ''spanEvent'' \<or> context = ''spanLink''
      else if context = ''span'' then key = ''flags'' \<or> key = ''droppedEventsCount'' \<or> key = ''droppedLinksCount''
      else context = ''spanLink'' \<and> key = ''flags'')"

section \<open>Checks on every object of a capture\<close>

text \<open>One member of an object: a second spelling of its name, and the types that do not depend on
  the context.\<close>

definition checkMember :: "members \<Rightarrow> string \<Rightarrow> json \<Rightarrow> unit result" where
  "checkMember v key item =
     fail_if (CHR ''_'' \<in> set key \<and> lowerCamelWireField key \<noteq> key \<and> go_get v (lowerCamelWireField key) \<noteq> None)
       (Err ''duplicate OTLP JSON field spellings for %q'' [lowerCamelWireField key])
     (fail_if (item \<noteq> JNull \<and> key \<in> captureWideStringFields \<and> \<not> is_string item)
       (Err ''invalid OTLP field %q: expected string'' [key])
     (fail_if (item \<noteq> JNull \<and> key \<in> captureWideCollectionFields \<and> array item = None)
       (Err ''invalid OTLP field %q: expected array'' [key])
       (Inr ())))"

function validateCaptureWideJSON :: "json \<Rightarrow> unit result" where
  "validateCaptureWideJSON v =
     (case v of
        JArray items \<Rightarrow> res_each validateCaptureWideJSON items
      | JObject m \<Rightarrow> res_each (\<lambda>(key, item). res_bind (checkMember m key item) (\<lambda>_. validateCaptureWideJSON item))
          (sort_key fst m)
      | _ \<Rightarrow> Inr ())"
  by pat_completeness auto

termination validateCaptureWideJSON
  by (relation "measure size") (auto intro: member_size element_size)

declare validateCaptureWideJSON.simps [simp del]

section \<open>Numbers\<close>

text \<open>\<open>strconv.ParseUint\<close> in base 10, and \<open>big.Int.SetString\<close> in base 10\<close>

definition parse_uint10 :: "nat \<Rightarrow> string \<Rightarrow> nat option" where
  "parse_uint10 bits s =
     (if s = [] \<or> \<not> list_all is_digit s \<or> digits_value s \<ge> 2 ^ bits then None else Some (digits_value s))"

definition big_int :: "string \<Rightarrow> int option" where
  "big_int s =
     (let neg = (case s of c # _ \<Rightarrow> c = CHR ''-'' | [] \<Rightarrow> False);
          ds = (case s of c # cs \<Rightarrow> if c = CHR ''-'' \<or> c = CHR ''+'' then cs else s | [] \<Rightarrow> [])
      in if ds = [] \<or> \<not> list_all is_digit ds then None
         else Some (if neg then - int (digits_value ds) else int (digits_value ds)))"

text \<open>\<open>decimalFloat\<close>: a sign, digits with a point before, among or after them, an exponent.\<close>

definition drop_sign :: "string \<Rightarrow> string" where
  "drop_sign s = (case s of c # cs \<Rightarrow> if c = CHR ''+'' \<or> c = CHR ''-'' then cs else s | [] \<Rightarrow> [])"

definition float_exponent :: "string \<Rightarrow> bool" where
  "float_exponent s =
     (case s of [] \<Rightarrow> True
      | c # cs \<Rightarrow> (c = CHR ''e'' \<or> c = CHR ''E'') \<and> drop_sign cs \<noteq> [] \<and> list_all is_digit (drop_sign cs))"

definition decimalFloat :: "string \<Rightarrow> bool" where
  "decimalFloat s =
     (let t = drop_sign s; whole = takeWhile is_digit t; rest = dropWhile is_digit t
      in case rest of
           c # cs \<Rightarrow>
             if c = CHR ''.'' then
               (whole \<noteq> [] \<or> takeWhile is_digit cs \<noteq> []) \<and> float_exponent (dropWhile is_digit cs)
             else whole \<noteq> [] \<and> float_exponent rest
         | [] \<Rightarrow> whole \<noteq> [])"

definition wireNumber :: "string \<Rightarrow> string \<Rightarrow> json result" where
  "wireNumber context n =
     (if context = ''entityRefValue'' then Inr (JReport n)
      else fail_if (context = ''spanTimestamp'' \<and> parse_uint10 64 n = None) (Err ''invalid OTLP numeric span timestamp'' [])
        (if context = ''eventTimestamp'' \<and> big_int n = None then Inr (JReport n)
         else if context = ''identity'' then Inr (JNumber n)
         else Inr (JString n)))"

section \<open>Contexts\<close>

definition elementContext :: "string \<Rightarrow> string" where
  "elementContext context =
     (if context = ''entityRefValue'' then context
      else if context = ''eventTimestamp'' then ''entityRefValue''
      else if context = ''resourceSpans'' then ''resourceSpan''
      else if context = ''scopeSpans'' then ''scopeSpan''
      else if context = ''spans'' then ''span''
      else if context = ''events'' then ''spanEvent''
      else if context = ''links'' then ''spanLink''
      else if context = ''entityRefs'' then ''entityRef''
      else if context = ''anyValues'' then ''anyValue''
      else if context = ''keyValues'' then ''keyValue''
      else [])"

definition fieldContext :: "string \<Rightarrow> string \<Rightarrow> string" where
  "fieldContext context key =
     (if context = ''entityRefValue'' \<or> context = ''eventTimestamp'' then ''entityRefValue''
      else if context = ''tracePayload'' \<and> key = ''resourceSpans'' then ''resourceSpans''
      else if context = ''resourceSpan'' \<and> key = ''resource'' then ''resource''
      else if context = ''resourceSpan'' \<and> key = ''scopeSpans'' then ''scopeSpans''
      else if context = ''resource'' \<and> key = ''entityRefs'' then ''entityRefs''
      else if context = ''entityRef'' \<and> (key = ''type'' \<or> key = ''idKeys'' \<or> key = ''descriptionKeys'') then ''entityRefValue''
      else if context = ''scopeSpan'' \<and> key = ''scope'' then ''scope''
      else if context = ''scopeSpan'' \<and> key = ''spans'' then ''spans''
      else if context = ''span'' \<and> key = ''events'' then ''events''
      else if context = ''span'' \<and> key = ''links'' then ''links''
      else if context = ''span'' \<and> key = ''status'' then ''status''
      else if context = ''span'' \<and> (key = ''startTimeUnixNano'' \<or> key = ''endTimeUnixNano'') then ''spanTimestamp''
      else if context = ''spanEvent'' \<and> key = ''timeUnixNano'' then ''eventTimestamp''
      else if key = ''traceId'' \<or> key = ''spanId'' \<or> key = ''parentSpanId'' then ''identity''
      else if context = ''keyValue'' \<and> key = ''value'' then ''anyValue''
      else if context = ''anyValue'' \<and> key = ''value'' then ''anyValue''
      else if context = ''anyValue'' \<and> key = ''arrayValue'' then ''arrayValue''
      else if context = ''anyValue'' \<and> key = ''kvlistValue'' then ''keyValueList''
      else if context = ''arrayValue'' \<and> key = ''values'' then ''anyValues''
      else if context = ''keyValueList'' \<and> key = ''values'' then ''keyValues''
      else if key = ''attributes'' \<or> key = ''filteredAttributes'' then ''keyValues''
      else if key = ''body'' then ''anyValue''
      else [])"

section \<open>One field\<close>

text \<open>The checks of a field before its value is normalized; the result is its canonical name.\<close>

definition expectsObject :: "string \<Rightarrow> string \<Rightarrow> bool" where
  "expectsObject context key \<longleftrightarrow> context = ''resourceSpan'' \<and> key = ''resource'' \<or> context = ''scopeSpan'' \<and> key = ''scope''
     \<or> context = ''span'' \<and> key = ''status'' \<or> context = ''keyValue'' \<and> key = ''value''"

definition variantValid :: "string \<Rightarrow> string \<Rightarrow> json \<Rightarrow> bool" where
  "variantValid encoding key c =
     (if key = ''stringValue'' then is_string c
      else if key = ''boolValue'' then is_bool c
      else if key = ''arrayValue'' \<or> key = ''kvlistValue'' then object c \<noteq> None
      else if key = ''bytesValue'' then is_string c \<or> encoding = ''protobuf'' \<and> array c \<noteq> None
      else True)"

definition checkTypes :: "string \<Rightarrow> string \<Rightarrow> string \<Rightarrow> json \<Rightarrow> unit result" where
  "checkTypes context encoding key c =
     fail_if (encoding = ''json'' \<and> (context = ''span'' \<and> key = ''kind'' \<or> context = ''status'' \<and> key = ''code'')
         \<and> c \<noteq> JNull \<and> \<not> is_number c)
       (Err ''invalid OTLP %s field %q: expected integer enum'' [context, key])
     (fail_if (c \<noteq> JNull \<and> protocolStringField context key \<and> \<not> is_string c)
       (Err ''invalid OTLP %s field %q: expected string'' [context, key])
     (fail_if (c \<noteq> JNull \<and> protocolArrayField context key \<and> array c = None)
       (Err ''invalid OTLP %s field %q: expected array'' [context, key])
     (fail_if (c \<noteq> JNull \<and> protocolUint32Field context key
         \<and> (case c of JNumber n \<Rightarrow> parse_uint10 32 n = None | _ \<Rightarrow> True))
       (Err ''invalid OTLP %s field %q: expected uint32'' [context, key])
     (fail_if (c \<noteq> JNull \<and> expectsObject context key \<and> object c = None)
       (Err ''invalid OTLP %s field %q: expected object'' [context, key])
     (fail_if (context = ''anyValue'' \<and> c \<noteq> JNull \<and> \<not> variantValid encoding key c)
       (Err ''invalid OTLP AnyValue variant %q: unexpected JSON type'' [key])
       (Inr ()))))))"

definition checkField :: "string \<Rightarrow> string \<Rightarrow> members \<Rightarrow> members \<Rightarrow> string \<Rightarrow> json \<Rightarrow> string result" where
  "checkField context encoding v out k c =
     res_bind (checkMember v k c) (\<lambda>_.
       case canonicalWireField context k of
         None \<Rightarrow> Inl (Err ''invalid OTLP %s field %q'' [context, k])
       | Some key \<Rightarrow>
           fail_if (go_get out key \<noteq> None) (Err ''duplicate OTLP JSON field spellings for %q'' [key])
           (fail_if (\<not> allowedWireField context key \<or> context = ''anyValue'' \<and> key = ''value'' \<and> encoding \<noteq> ''protobuf'')
             (Err ''invalid OTLP %s field %q'' [context, key])
           (res_bind (checkTypes context encoding key c) (\<lambda>_. Inr key))))"

section \<open>One object\<close>

text \<open>prost's \<open>value\<close> wrapper around a variant; \<open>None\<close> when there is none to unwrap.\<close>

definition unwrapped :: "members \<Rightarrow> json option" where
  "unwrapped out =
     (if length out = 1 then
        (if go_get out ''value'' = Some JNull then Some (JObject [])
         else case object (member out ''value'') of
                Some inner \<Rightarrow> if list_ex (\<lambda>(k, _). suffix ''Value'' k) inner then Some (JObject inner) else None
              | None \<Rightarrow> None)
      else None)"

definition variants :: "string list" where
  "variants = [''stringValue'', ''boolValue'', ''intValue'', ''doubleValue'', ''arrayValue'', ''kvlistValue'', ''bytesValue'']"

text \<open>Variants that are nil are dropped, the others counted.\<close>

definition dropVariant :: "string \<Rightarrow> members \<times> nat \<Rightarrow> members \<times> nat" where
  "dropVariant key = (\<lambda>(out, populated).
     case go_get out key of
       None \<Rightarrow> (out, populated)
     | Some v \<Rightarrow> if v = JNull then (go_delete key out, populated) else (out, Suc populated))"

definition oneVariant :: "members \<Rightarrow> members result" where
  "oneVariant out =
     (case fold dropVariant variants (out, 0) of (out, populated) \<Rightarrow>
        fail_if (populated > 1)
          (Err ''invalid OTLP AnyValue: expected at most one variant, got %d'' [itoa (int populated)]) (Inr out))"

definition keyDefaults :: "members \<Rightarrow> members" where
  "keyDefaults out =
     defaults (if go_get out ''value'' = Some JNull then go_delete ''value'' out else out) [(''key'', JString [])]"

definition sorted_values :: "json list \<Rightarrow> json list" where
  "sorted_values xs = sort_key canonical xs"

text \<open>Attributes and key-value lists in the order of their text, lists with their values.\<close>

definition sortMember :: "string \<Rightarrow> members \<Rightarrow> members" where
  "sortMember key out = (case array (member out key) of Some xs \<Rightarrow> go_put key (JArray (sorted_values xs)) out | None \<Rightarrow> out)"

definition listDefaults :: "string \<Rightarrow> members \<Rightarrow> members" where
  "listDefaults kind out =
     (case object (member out kind) of
        Some v \<Rightarrow> go_put kind (JObject (defaults v [(''values'', JArray [])])) out | None \<Rightarrow> out)"

definition orderLists :: "members \<Rightarrow> members" where
  "orderLists out =
     (let out = listDefaults ''kvlistValue'' (listDefaults ''arrayValue'' (sortMember ''attributes'' out))
      in case object (member out ''kvlistValue'') of
           Some kv \<Rightarrow> go_put ''kvlistValue'' (JObject (sortMember ''values'' kv)) out | None \<Rightarrow> out)"

definition normalDouble :: "(string \<Rightarrow> string option) \<Rightarrow> members \<Rightarrow> members result" where
  "normalDouble floatText out =
     (case go_get out ''doubleValue'' of
        None \<Rightarrow> Inr out
      | Some v \<Rightarrow>
          (let scalar = str v
           in if scalar = ''NaN'' \<or> scalar = ''Infinity'' \<or> scalar = ''-Infinity'' then Inr (go_put ''doubleValue'' (JString scalar) out)
              else fail_if (\<not> decimalFloat scalar) (Err ''invalid OTLP double AnyValue'' [])
                (case floatText scalar of
                   None \<Rightarrow> Inl (Err ''invalid OTLP double AnyValue'' [])
                 | Some text \<Rightarrow> Inr (go_put ''doubleValue'' (JString text) out))))"

definition normalInt :: "members \<Rightarrow> members result" where
  "normalInt out =
     (case go_get out ''intValue'' of
        None \<Rightarrow> Inr out
      | Some v \<Rightarrow>
          (case atoi (str v) of
             None \<Rightarrow> Inl (Err ''invalid OTLP integer AnyValue'' [])
           | Some n \<Rightarrow> Inr (go_put ''intValue'' (JString (itoa n)) out)))"

definition normalBytes :: "members \<Rightarrow> members result" where
  "normalBytes out =
     (case member out ''bytesValue'' of
        JArray xs \<Rightarrow>
          res_bind (res_map (\<lambda>x. case parse_uint10 8 (str x) of
               None \<Rightarrow> Inl (Err ''invalid OTLP bytes AnyValue'' []) | Some n \<Rightarrow> Inr n) xs)
            (\<lambda>raw. Inr (go_put ''bytesValue'' (JString (base64_encode raw)) out))
      | JString v \<Rightarrow>
          (case canonicalBytes v of
             None \<Rightarrow> Inl (Err ''invalid OTLP bytes AnyValue'' [])
           | Some text \<Rightarrow> Inr (go_put ''bytesValue'' (JString text) out))
      | _ \<Rightarrow> Inr out)"

definition finishScalars :: "(string \<Rightarrow> string option) \<Rightarrow> members \<Rightarrow> json result" where
  "finishScalars floatText out =
     res_bind (normalDouble floatText out) (\<lambda>out. res_bind (normalInt out) (\<lambda>out.
       res_bind (normalBytes out) (\<lambda>out. Inr (JObject out))))"

text \<open>What follows the loop over the fields.\<close>

definition finishObject :: "(string \<Rightarrow> string option) \<Rightarrow> string \<Rightarrow> members \<Rightarrow> json result" where
  "finishObject floatText context out =
     (if context = ''entityRefValue'' \<or> context = ''eventTimestamp'' then Inr (JObject [(''$object'', JObject out)])
      else if context = ''anyValue'' then
        (case unwrapped out of
           Some inner \<Rightarrow> Inr inner
         | None \<Rightarrow> res_bind (oneVariant out) (\<lambda>out. finishScalars floatText (orderLists out)))
      else if context = ''keyValue'' then finishScalars floatText (orderLists (keyDefaults out))
      else finishScalars floatText (orderLists out))"

section \<open>Normalization\<close>

function normalizeWireContext :: "(string \<Rightarrow> string option) \<Rightarrow> json \<Rightarrow> string \<Rightarrow> string \<Rightarrow> json result" where
  "normalizeWireContext floatText v context encoding =
     (case v of
        JNumber n \<Rightarrow> wireNumber context n
      | JArray xs \<Rightarrow>
          res_bind (res_map (\<lambda>c.
              fail_if (elementContext context \<noteq> [] \<and> elementContext context \<noteq> ''entityRefValue'' \<and> object c = None)
                (Err ''invalid OTLP %s element: expected object'' [context])
                (normalizeWireContext floatText c (elementContext context) encoding)) xs)
            (\<lambda>out. Inr (JArray out))
      | JObject m \<Rightarrow>
          res_bind (res_fold (\<lambda>(k, c) out.
              res_bind (checkField context encoding m out k c) (\<lambda>key.
                res_bind (normalizeWireContext floatText c (fieldContext context key) encoding) (\<lambda>value.
                  Inr (go_put key value out)))) (sort_key fst m) [])
            (finishObject floatText context)
      | _ \<Rightarrow> Inr v)"
  by pat_completeness auto

termination normalizeWireContext
  by (relation "measure (\<lambda>(_, v, _, _). size v)") (auto intro: member_size element_size)

declare normalizeWireContext.simps [simp del]

definition normalizeWire :: "(string \<Rightarrow> string option) \<Rightarrow> json \<Rightarrow> string \<Rightarrow> json result" where
  "normalizeWire floatText v encoding = normalizeWireContext floatText v ''tracePayload'' encoding"

end
