(* ===== verification/CaptureRead.thy ===== *)
theory CaptureRead
  imports Wire Receipt
begin

text \<open>
  The first half of \<open>DecodeCapture\<close> in \<open>src/report/report/capture.go\<close>: JSON without duplicate
  keys from a stream of tokens, and the spans of the trace records. A loop that may leave the
  function early in the middle of what it has already read is \<open>run_each\<close>: it returns the state
  reached and the error, if any.
\<close>

section \<open>Token streams\<close>

text \<open>
  A \<open>json.Decoder\<close> as \<open>Token\<close> shows it: the tokens that can still be read and the error after
  them, \<open>io.EOF\<close> at the end of the input. A token is a delimiter or a value.
\<close>

datatype token = Delim char | Scalar json

abbreviation io_EOF :: error where
  "io_EOF \<equiv> Err ''EOF'' []"

fun next_token :: "error \<Rightarrow> token list \<Rightarrow> (token \<times> token list) result" where
  "next_token e [] = Inl e"
| "next_token e (t # ts) = Inr (t, ts)"

text \<open>\<open>More\<close>: at the end of the stream its answer does not matter, since \<open>Token\<close> fails either way.\<close>

fun has_more :: "token list \<Rightarrow> bool" where
  "has_more (Delim c # _) = (c \<noteq> CHR '']'' \<and> c \<noteq> CHR ''}'')"
| "has_more (Scalar _ # _) = True"
| "has_more [] = False"

text \<open>\<open>decodeUniqueJSON\<close> with its two loops\<close>

function decodeUniqueJSON :: "error \<Rightarrow> token list \<Rightarrow> (json \<times> token list) result"
  and decodeItems :: "error \<Rightarrow> token list \<Rightarrow> (json list \<times> token list) result"
  and decodeMembers :: "error \<Rightarrow> members \<Rightarrow> token list \<Rightarrow> (members \<times> token list) result" where
  "decodeUniqueJSON e [] = Inl e"
| "decodeUniqueJSON e (Scalar v # ts) = Inr (v, ts)"
| "decodeUniqueJSON e (Delim c # ts) =
     (if c = CHR ''['' then
        res_bind (decodeItems e ts) (\<lambda>(values, ts). res_bind (next_token e ts) (\<lambda>(_, ts). Inr (JArray values, ts)))
      else if c = CHR ''{'' then
        res_bind (decodeMembers e [] ts) (\<lambda>(values, ts). res_bind (next_token e ts) (\<lambda>(_, ts). Inr (JObject values, ts)))
      else Inl (Err ''unexpected JSON delimiter %q'' [[c]]))"
| "decodeItems e ts =
     (if \<not> has_more ts then Inr ([], ts)
      else res_bind (decodeUniqueJSON e ts) (\<lambda>(v, ts). res_bind (decodeItems e ts) (\<lambda>(vs, ts). Inr (v # vs, ts))))"
| "decodeMembers e values ts =
     (if \<not> has_more ts then Inr (values, ts)
      else (case ts of
          Scalar (JString key) # ts \<Rightarrow>
            fail_if (go_get values key \<noteq> None) (Err ''duplicate JSON key %q'' [key])
              (res_bind (decodeUniqueJSON e ts) (\<lambda>(v, ts). decodeMembers e (go_put key v values) ts))
        | _ \<Rightarrow> Inl (Err ''invalid JSON object key'' [])))"
  by pat_completeness auto

lemma next_shorter: "next_token e ts = Inr (t, ts') \<Longrightarrow> length ts' < length ts"
  by (cases ts) auto

lemma decode_shortens_dom:
  "decodeUniqueJSON_decodeItems_decodeMembers_dom (Inl (e, ts)) \<Longrightarrow> decodeUniqueJSON e ts = Inr (v, ts') \<Longrightarrow> length ts' < length ts"
  "decodeUniqueJSON_decodeItems_decodeMembers_dom (Inr (Inl (e, ts))) \<Longrightarrow> decodeItems e ts = Inr (vs, ts') \<Longrightarrow> length ts' \<le> length ts"
  "decodeUniqueJSON_decodeItems_decodeMembers_dom (Inr (Inr (e, m, ts))) \<Longrightarrow> decodeMembers e m ts = Inr (m', ts') \<Longrightarrow> length ts' \<le> length ts"
proof (induction arbitrary: v ts' and vs ts' and m' ts' rule: decodeUniqueJSON_decodeItems_decodeMembers.pinduct)
  case (3 e c ts)
  consider vs d2 t2 where "c = CHR ''[''" "decodeItems e ts = Inr (vs, d2)" "next_token e d2 = Inr (t2, ts')"
    | m d2 t2 where "c \<noteq> CHR ''[''" "c = CHR ''{''" "decodeMembers e [] ts = Inr (m, d2)" "next_token e d2 = Inr (t2, ts')"
    using 3(1,4) by (auto simp: decodeUniqueJSON.psimps res_bind_Inr_iff split: if_splits)
  then show ?case
  proof cases
    case 1
    then show ?thesis using 3(2) next_shorter [OF 1(3)] by fastforce
  next
    case 2
    then show ?thesis using 3(3) next_shorter [OF 2(4)] by fastforce
  qed
next
  case (4 e ts)
  show ?case
  proof (cases "has_more ts")
    case True
    then obtain v ts1 vs' where "decodeUniqueJSON e ts = Inr (v, ts1)" "decodeItems e ts1 = Inr (vs', ts')"
      using 4(1,4) by (auto simp: decodeItems.psimps res_bind_Inr_iff)
    then show ?thesis using 4(2,3) True by fastforce
  qed (use 4(1,4) in \<open>simp add: decodeItems.psimps\<close>)
next
  case (5 e m ts)
  show ?case
  proof (cases "has_more ts")
    case True
    then obtain key ts0 v ts1 where t: "ts = Scalar (JString key) # ts0" "go_get m key = None"
      "decodeUniqueJSON e ts0 = Inr (v, ts1)" "decodeMembers e (go_put key v m) ts1 = Inr (m', ts')"
      using 5(1,4) by (auto simp: decodeMembers.psimps res_bind_Inr_iff fail_if_Inr_iff split: list.splits token.splits json.splits)
    then show ?thesis using 5(2,3) True by fastforce
  qed (use 5(1,4) in \<open>simp add: decodeMembers.psimps\<close>)
qed (simp_all add: decodeUniqueJSON.psimps)

termination decodeUniqueJSON
  by (relation "measure (\<lambda>a. case a of Inl (_, ts) \<Rightarrow> 2 * length ts | Inr (Inl (_, ts)) \<Rightarrow> 2 * length ts + 1
        | Inr (Inr (_, _, ts)) \<Rightarrow> 2 * length ts + 1)")
    (auto dest!: next_shorter decode_shortens_dom(1))

declare decodeItems.simps [simp del] decodeMembers.simps [simp del]

section \<open>Loops that keep what they have read\<close>

fun run_each :: "('a \<Rightarrow> 's \<Rightarrow> 's \<times> error option) \<Rightarrow> 'a list \<Rightarrow> 's \<Rightarrow> 's \<times> error option" where
  "run_each f [] s = (s, None)"
| "run_each f (x # xs) s = (case f x s of (s, None) \<Rightarrow> run_each f xs s | (s, Some e) \<Rightarrow> (s, Some e))"

text \<open>\<open>if err != nil { return fail(err) }\<close> in such a loop\<close>

definition or_fail :: "'a result \<Rightarrow> 's \<Rightarrow> ('a \<Rightarrow> 's \<times> error option) \<Rightarrow> 's \<times> error option" where
  "or_fail r s f = (case r of Inl e \<Rightarrow> (s, Some e) | Inr x \<Rightarrow> f x)"

lemma run_each_cong [fundef_cong]:
  assumes "xs = ys" "s = t" "\<And>x u. x \<in> set ys \<Longrightarrow> f x u = g x u"
  shows "run_each f xs s = run_each g ys t"
proof -
  have "run_each f ys t = run_each g ys t"
    using assms(3) by (induction ys arbitrary: t) (auto split: prod.splits option.splits)
  with assms(1,2) show ?thesis by simp
qed

text \<open>Whatever every turn of the loop keeps holds of the state that it leaves, with or without an error.\<close>

lemma run_each_keeps:
  assumes step: "\<And>x u v e. x \<in> set xs \<Longrightarrow> P u \<Longrightarrow> f x u = (v, e) \<Longrightarrow> P v"
  shows "P s \<Longrightarrow> run_each f xs s = (t, e) \<Longrightarrow> P t"
  using step
proof (induction xs arbitrary: s)
  case (Cons x xs)
  obtain u eo where u: "f x s = (u, eo)" by (cases "f x s")
  then have pu: "P u" using Cons.prems(1,3) by (metis list.set_intros(1))
  show ?case
  proof (cases eo)
    case None
    have "run_each f xs u = (t, e)" using Cons.prems(2) by (simp add: u None)
    with pu show ?thesis using Cons.prems(3) by (rule Cons.IH) auto
  next
    case (Some e')
    then show ?thesis using Cons.prems(2) pu by (simp add: u)
  qed
qed simp

lemma or_fail_keeps:
  "or_fail r s f = (t, e) \<Longrightarrow> P s \<Longrightarrow> (\<And>x. r = Inr x \<Longrightarrow> f x = (t, e) \<Longrightarrow> P t) \<Longrightarrow> P t"
  by (auto simp: or_fail_def split: sum.splits)

section \<open>Datasets\<close>

record CapturedSpan =
  cs_resource :: nat
  cs_scope :: nat
  cs_fields :: members
  cs_parent :: string
  cs_parentWithoutScope :: string
  cs_linkTargets :: "string list"
  cs_linkTargetsWithoutScope :: "string list"
  cs_traceRoots :: string
  cs_traceRootsWithoutScope :: string

text \<open>What the loop over the records builds, with the indexes of \<open>intern\<close>.\<close>

record reading =
  rd_resources :: "members list"
  rd_resourceIndexes :: "(string, nat) gomap"
  rd_scopes :: "members list"
  rd_scopeIndexes :: "(string, nat) gomap"
  rd_spans :: "CapturedSpan list"

definition no_reading :: reading where
  "no_reading = \<lparr>rd_resources = [], rd_resourceIndexes = [], rd_scopes = [], rd_scopeIndexes = [], rd_spans = []\<rparr>"

definition enumValue :: "unicode_tables \<Rightarrow> json \<Rightarrow> string \<Rightarrow> string list \<Rightarrow> string option" where
  "enumValue U v pre names =
     (case atoi (str v) of
        Some n \<Rightarrow> if 0 \<le> n \<and> n < int (length names) then Some (names ! nat n) else None
      | None \<Rightarrow>
          (let s = to_lower U (trim_prefix (str v) pre)
           in if s = [] then Some (hd names) else if s \<in> set names then Some s else None))"

text \<open>Hexadecimal text of \<open>width\<close> bytes that are not all zero\<close>

definition identityText :: "nat \<Rightarrow> string \<Rightarrow> bool" where
  "identityText width s \<longleftrightarrow> hex_decodes s \<and> length s = 2 * width \<and> trim_set {CHR ''0''} s \<noteq> []"

definition identity :: "unicode_tables \<Rightarrow> json \<Rightarrow> nat \<Rightarrow> bool \<Rightarrow> string result" where
  "identity U v width optional =
     (case v of
        JString s \<Rightarrow>
          (let s = to_lower U s
           in if optional \<and> s = [] then Inr []
              else fail_if (\<not> identityText width s) (Err ''invalid trace/span identity %q'' [s]) (Inr s))
      | _ \<Rightarrow> Inl (Err ''invalid trace/span identity %q'' [str v]))"

definition linkIdentity :: "unicode_tables \<Rightarrow> json \<Rightarrow> nat \<Rightarrow> string \<times> bool" where
  "linkIdentity U v width =
     (case v of
        JString s \<Rightarrow> (to_lower U s, identityText width (to_lower U s))
      | _ \<Rightarrow> (str v, False))"

definition intern :: "members list \<Rightarrow> (string, nat) gomap \<Rightarrow> members \<Rightarrow> nat \<times> members list \<times> (string, nat) gomap" where
  "intern items indexes v =
     (let key = canonical (JObject v)
      in case go_get indexes key of
           Some i \<Rightarrow> (i, items, indexes)
         | None \<Rightarrow> (length items, items @ [v], go_put key (length items) indexes))"

text \<open>\<open>object(v)\<close> where a nil map reads as an empty one\<close>

definition object0 :: "json \<Rightarrow> members" where
  "object0 v = (case object v of Some m \<Rightarrow> m | None \<Rightarrow> [])"

text \<open>\<open>defaults\<close> on each object of a list, in place; the other elements stay.\<close>

definition elementDefaults :: "members \<Rightarrow> json \<Rightarrow> json" where
  "elementDefaults vals v = (case object v of Some m \<Rightarrow> JObject (defaults m vals) | None \<Rightarrow> v)"

definition metadataFields :: "json \<Rightarrow> json \<Rightarrow> bool \<Rightarrow> members" where
  "metadataFields v schema scope =
     (let m = defaults (object0 v) [(''attributes'', JArray []), (''droppedAttributesCount'', JString ''0'')];
          m = (if scope then defaults m [(''name'', JString []), (''version'', JString [])]
               else (let m = defaults m [(''entityRefs'', JArray [])]
                     in case array (member m ''entityRefs'') of
                          Some refs \<Rightarrow> go_put ''entityRefs'' (JArray (map (elementDefaults
                            [(''schemaUrl'', JString []), (''type'', JString []), (''idKeys'', JArray []),
                             (''descriptionKeys'', JArray [])]) refs)) m
                        | None \<Rightarrow> m))
      in [(''metadata'', JObject m), (''schemaUrl'', JString (str schema))])"

section \<open>One span\<close>

definition spanKinds :: "string list" where
  "spanKinds = [''unspecified'', ''internal'', ''server'', ''client'', ''producer'', ''consumer'']"

definition statusCodes :: "string list" where
  "statusCodes = [''unset'', ''ok'', ''error'']"

definition spanDefaults :: members where
  "spanDefaults = [(''traceState'', JString []), (''parentSpanId'', JString []), (''name'', JString []),
     (''startTimeUnixNano'', JString ''0''), (''endTimeUnixNano'', JString ''0''), (''attributes'', JArray []),
     (''events'', JArray []), (''links'', JArray []), (''flags'', JString ''0''),
     (''droppedAttributesCount'', JString ''0''), (''droppedEventsCount'', JString ''0''),
     (''droppedLinksCount'', JString ''0'')]"

text \<open>The interval of a span: its two timestamps as numbers.\<close>

definition spanInterval :: "int \<Rightarrow> members \<Rightarrow> (int \<times> int) result" where
  "spanInterval maxSpanTimestamp fs =
     (case big_int (str (member fs ''startTimeUnixNano'')) of
        None \<Rightarrow> Inl (Err ''invalid span start timestamp'' [])
      | Some start \<Rightarrow>
          fail_if (start > maxSpanTimestamp) (Err ''invalid span start timestamp'' [])
          (case big_int (str (member fs ''endTimeUnixNano'')) of
             None \<Rightarrow> Inl (Err ''invalid span end timestamp'' [])
           | Some stop \<Rightarrow>
               fail_if (stop > maxSpanTimestamp) (Err ''invalid span end timestamp'' [])
               (fail_if (start \<le> 0 \<or> stop < start) (Err ''span timestamps are not ordered'' [])
                 (Inr (start, stop)))))"

definition readEvent :: "json \<Rightarrow> json result" where
  "readEvent event =
     (case object event of
        None \<Rightarrow> Inl (Err ''unreadable span event'' [])
      | Some m \<Rightarrow>
          (let m = defaults m [(''timeUnixNano'', JString ''0''), (''name'', JString []), (''attributes'', JArray []),
                 (''droppedAttributesCount'', JString ''0'')];
               m = (case big_int (str (member m ''timeUnixNano'')) of
                      Some timestamp \<Rightarrow> go_put ''timeUnixNano'' (JString (itoa timestamp)) m | None \<Rightarrow> m)
           in res_bind (repeatedField (member m ''attributes'') ''span event attributes'') (\<lambda>_. Inr (JObject m))))"

definition readLink :: "json \<Rightarrow> json result" where
  "readLink link =
     (case object link of
        None \<Rightarrow> Inl (Err ''unreadable span link'' [])
      | Some m \<Rightarrow>
          (let m = defaults m [(''traceId'', JString []), (''spanId'', JString []), (''traceState'', JString []),
                 (''attributes'', JArray []), (''droppedAttributesCount'', JString ''0''), (''flags'', JString ''0'')]
           in res_bind (repeatedField (member m ''attributes'') ''span link attributes'') (\<lambda>_. Inr (JObject m))))"

definition readStatus :: "unicode_tables \<Rightarrow> json \<Rightarrow> json result" where
  "readStatus U v =
     (let status = defaults (object0 v) [(''code'', JString ''0''), (''message'', JString [])]
      in case enumValue U (member status ''code'') ''STATUS_CODE_'' statusCodes of
           None \<Rightarrow> Inl (Err ''invalid span status %v'' [sprint (member status ''code'')])
         | Some code \<Rightarrow> Inr (JObject (go_put ''code'' (JString code) status)))"

definition readName :: "members \<Rightarrow> unit result" where
  "readName fs =
     (case member fs ''name'' of
        JString name \<Rightarrow> fail_if (name = []) (Err ''span has no name'' []) (Inr ())
      | _ \<Rightarrow> Inl (Err ''invalid span name'' []))"

definition readSpan :: "unicode_tables \<Rightarrow> int \<Rightarrow> json \<Rightarrow> members result" where
  "readSpan U maxSpanTimestamp span =
     (case object span of
        None \<Rightarrow> Inl (Err ''unreadable span'' [])
      | Some m \<Rightarrow>
          (let fs = defaults m spanDefaults
           in res_bind (readName fs) (\<lambda>_.
              res_bind (spanInterval maxSpanTimestamp fs) (\<lambda>(start, stop).
              res_bind (repeatedField (member fs ''attributes'') ''span attributes'') (\<lambda>attributes.
              res_bind (repeatedField (member fs ''events'') ''span events'') (\<lambda>events.
              res_bind (repeatedField (member fs ''links'') ''span links'') (\<lambda>links.
              (case enumValue U (member fs ''kind'') ''SPAN_KIND_'' spanKinds of
                 None \<Rightarrow> Inl (Err ''invalid span kind %v'' [sprint (member fs ''kind'')])
               | Some kind \<Rightarrow>
                   res_bind (readStatus U (member fs ''status'')) (\<lambda>status.
                   res_bind (res_map readEvent events) (\<lambda>events.
                   res_bind (res_map readLink links) (\<lambda>links.
                     Inr (fold (\<lambda>(k, v). go_put k v)
                       [(''startTimeUnixNano'', JString (itoa start)), (''endTimeUnixNano'', JString (itoa stop)),
                        (''attributes'', JArray attributes), (''events'', JArray events), (''links'', JArray links),
                        (''kind'', JString kind), (''status'', status)] fs))))))))))))"

section \<open>The records\<close>

definition newSpan :: "nat \<Rightarrow> nat \<Rightarrow> members \<Rightarrow> CapturedSpan" where
  "newSpan ri si fs = \<lparr>cs_resource = ri, cs_scope = si, cs_fields = fs, cs_parent = [],
     cs_parentWithoutScope = [], cs_linkTargets = [], cs_linkTargetsWithoutScope = [], cs_traceRoots = [],
     cs_traceRootsWithoutScope = []\<rparr>"

definition readSpans :: "unicode_tables \<Rightarrow> int \<Rightarrow> nat \<Rightarrow> nat \<Rightarrow> json \<Rightarrow> reading \<Rightarrow> reading \<times> error option" where
  "readSpans U maxSpanTimestamp ri si span d =
     or_fail (readSpan U maxSpanTimestamp span) d (\<lambda>fs.
       (d\<lparr>rd_spans := rd_spans d @ [newSpan ri si fs]\<rparr>, None))"

definition readGroup :: "unicode_tables \<Rightarrow> int \<Rightarrow> members \<Rightarrow> json \<Rightarrow> reading \<Rightarrow> reading \<times> error option" where
  "readGroup U maxSpanTimestamp rs scopeSpan d =
     (case object scopeSpan of
        None \<Rightarrow> (d, Some (Err ''unreadable scopeSpan'' []))
      | Some ss \<Rightarrow>
          or_fail (repeatedField (member ss ''spans'') ''spans'') d (\<lambda>spans.
            if spans = [] then (d, None)
            else (case intern (rd_resources d) (rd_resourceIndexes d)
                         (metadataFields (member rs ''resource'') (member rs ''schemaUrl'') False) of (ri, resources, rix) \<Rightarrow>
                  case intern (rd_scopes d) (rd_scopeIndexes d)
                         (metadataFields (member ss ''scope'') (member ss ''schemaUrl'') True) of (si, scopes, six) \<Rightarrow>
                    run_each (readSpans U maxSpanTimestamp ri si) spans
                      (d\<lparr>rd_resources := resources, rd_resourceIndexes := rix, rd_scopes := scopes, rd_scopeIndexes := six\<rparr>))))"

definition readResource :: "unicode_tables \<Rightarrow> int \<Rightarrow> json \<Rightarrow> reading \<Rightarrow> reading \<times> error option" where
  "readResource U maxSpanTimestamp resource d =
     (case object resource of
        None \<Rightarrow> (d, Some (Err ''unreadable resourceSpan'' []))
      | Some rs \<Rightarrow>
          or_fail (repeatedField (member rs ''scopeSpans'') ''scopeSpans'') d (\<lambda>groups.
            run_each (readGroup U maxSpanTimestamp rs) groups d))"

definition maxTimestamp :: "string \<Rightarrow> int" where
  "maxTimestamp encoding = (if encoding = ''json'' then 2 ^ 127 - 1 else 2 ^ 64 - 1)"

definition readRecord :: "unicode_tables \<Rightarrow> (string \<Rightarrow> string option) \<Rightarrow> json \<Rightarrow> reading \<Rightarrow> reading \<times> error option" where
  "readRecord U floatText record d =
     (let r = object0 record; encoding = str (member r ''encoding'')
      in if str (member r ''signal'') \<noteq> ''traces'' then (d, None)
         else or_fail (normalizeWire floatText (member r ''payload'') encoding) d (\<lambda>normalized.
           case object normalized of
             None \<Rightarrow> (d, Some (Err ''unreadable trace payload'' []))
           | Some payload \<Rightarrow>
               or_fail (repeatedField (member payload ''resourceSpans'') ''resourceSpans'') d (\<lambda>resources.
                 run_each (readResource U (maxTimestamp encoding)) resources d)))"

text \<open>The checks of the JSON records, before any of them is read.\<close>

definition checkRecord :: "json \<Rightarrow> unit result" where
  "checkRecord record =
     (let r = object0 record
      in if str (member r ''encoding'') = ''json'' then validateCaptureWideJSON (member r ''payload'') else Inr ())"

definition readCapture :: "unicode_tables \<Rightarrow> (string \<Rightarrow> string option) \<Rightarrow> token list \<Rightarrow> error \<Rightarrow> reading \<times> error option" where
  "readCapture U floatText tokens e =
     or_fail (res_wrap ''unreadable trace capture: %w'' [] (decodeUniqueJSON e tokens)) no_reading (\<lambda>(v, rest).
       case array v of
         None \<Rightarrow> (no_reading, Some (Err ''unreadable trace capture: expected array'' []))
       | Some records \<Rightarrow>
           if next_token e rest \<noteq> Inl io_EOF then (no_reading, Some (Err ''trailing capture data'' []))
           else or_fail (res_each checkRecord records) no_reading (\<lambda>_.
             run_each (readRecord U floatText) records no_reading))"

end
