(* ===== verification/CaptureShape.thy ===== *)
theory CaptureShape
  imports CaptureRead Spans
begin

text \<open>
  The second half of \<open>DecodeCapture\<close> in \<open>src/report/report/capture.go\<close>: identities, the forest of
  parents, fingerprints, the keys and labels of spans, and the shape of the traces. The closures
  that walk up or down the forest carry a bound on the depth in place of the depth limit that
  \<open>fingerprint\<close> has checked; their tables only cache what the functions here compute.
  \<open>graphKeys\<close> stands for the closure \<open>buildGraphAwareTargetKeys\<close>, the labels of link targets; \<open>GraphKeys\<close> models it.
\<close>

section \<open>Identities\<close>

record index =
  ix_traceIDs :: "string list"
  ix_spanIDs :: "string list"
  ix_parentIDs :: "string list"
  ix_ids :: "(string, nat) gomap"
  ix_traces :: "(string, nat list) gomap"
  ix_explicitRoots :: "(string, int) gomap"

definition no_index :: index where
  "no_index = \<lparr>ix_traceIDs = [], ix_spanIDs = [], ix_parentIDs = [], ix_ids = [], ix_traces = [], ix_explicitRoots = []\<rparr>"

definition spanID_key :: "string \<Rightarrow> string \<Rightarrow> string" where
  "spanID_key traceID spanID = traceID @ ''/'' @ spanID"

definition identifySpan :: "unicode_tables \<Rightarrow> nat \<times> CapturedSpan \<Rightarrow> index \<Rightarrow> index result" where
  "identifySpan U = (\<lambda>(i, s) ix.
     res_bind (identity U (member (cs_fields s) ''traceId'') 16 False) (\<lambda>traceID.
     res_bind (identity U (member (cs_fields s) ''spanId'') 8 False) (\<lambda>spanID.
     res_bind (identity U (member (cs_fields s) ''parentSpanId'') 8 True) (\<lambda>parentID.
       let roots = (if parentID = [] then go_put traceID (go_get0 0 (ix_explicitRoots ix) traceID + 1) (ix_explicitRoots ix)
                    else ix_explicitRoots ix);
           key = spanID_key traceID spanID
       in fail_if (parentID = [] \<and> go_get0 0 roots traceID > 1) (Err ''trace %q has multiple explicit roots'' [traceID])
          (fail_if (go_get (ix_ids ix) key \<noteq> None) (Err ''duplicate span identity %s'' [key])
            (Inr \<lparr>ix_traceIDs = ix_traceIDs ix @ [traceID], ix_spanIDs = ix_spanIDs ix @ [spanID],
               ix_parentIDs = ix_parentIDs ix @ [parentID], ix_ids = go_put key i (ix_ids ix),
               ix_traces = go_put traceID (go_get0 [] (ix_traces ix) traceID @ [i]) (ix_traces ix),
               ix_explicitRoots = roots\<rparr>))))))"

definition indexSpans :: "unicode_tables \<Rightarrow> CapturedSpan list \<Rightarrow> index result" where
  "indexSpans U spans = res_fold (identifySpan U) (List.enumerate 0 spans) no_index"

section \<open>Parents\<close>

record lineage =
  fo_parents :: "nat option list"
  fo_children :: "nat list list"
  fo_anchors :: "string set"

definition linkParent :: "index \<Rightarrow> nat \<Rightarrow> lineage \<Rightarrow> lineage" where
  "linkParent ix i fo =
     (if ix_parentIDs ix ! i = [] then fo
      else (let anchor = spanID_key (ix_traceIDs ix ! i) (ix_parentIDs ix ! i)
            in case go_get (ix_ids ix) anchor of
                 Some p \<Rightarrow> fo\<lparr>fo_parents := (fo_parents fo)[i := Some p],
                             fo_children := (fo_children fo)[p := fo_children fo ! p @ [i]]\<rparr>
               | None \<Rightarrow> fo\<lparr>fo_anchors := insert anchor (fo_anchors fo)\<rparr>))"

definition linkParents :: "index \<Rightarrow> nat \<Rightarrow> lineage" where
  "linkParents ix n = fold (linkParent ix) [0..<n]
     \<lparr>fo_parents = replicate n None, fo_children = replicate n [], fo_anchors = {}\<rparr>"

section \<open>Fingerprints\<close>

text \<open>The colors 0, 1 and 2 of a span: not reached, on the path to the current span, done.\<close>

datatype color = White | Gray | Black

record prints =
  fp_colors :: "color list"
  fp_prints :: "string list"
  fp_heights :: "nat list"

abbreviation text_list :: "string list \<Rightarrow> json" where
  "text_list xs \<equiv> JArray (map JString xs)"

text \<open>\<open>digest([]byte(canonical(v)))\<close> and its first twelve digits\<close>

definition digestOf :: "json \<Rightarrow> string" where
  "digestOf v = digest (canonical v)"

definition shortDigest :: "json \<Rightarrow> string" where
  "shortDigest v = take 12 (digestOf v)"

definition spanField :: "CapturedSpan \<Rightarrow> string \<Rightarrow> string" where
  "spanField s k = str (member (cs_fields s) k)"

definition normalizedName :: "unicode_tables \<Rightarrow> CapturedSpan \<Rightarrow> string" where
  "normalizedName U s = NormalizeSpanName U (spanField s ''name'')"

definition spanPrint :: "unicode_tables \<Rightarrow> CapturedSpan \<Rightarrow> string list \<Rightarrow> string" where
  "spanPrint U s cs =
     digestOf (JArray [JString (spanField s ''kind''), JString (normalizedName U s), text_list (sort cs)])"

text \<open>The closure \<open>fingerprint\<close> and its loop over the children of \<open>i\<close>; an index out of range panics.\<close>

definition unvisited :: "prints \<Rightarrow> nat" where
  "unvisited s = length (filter (\<lambda>c. c = White) (fp_colors s))"

definition enter :: "nat \<Rightarrow> prints \<Rightarrow> prints" where
  "enter i s = s\<lparr>fp_colors := (fp_colors s)[i := Gray], fp_heights := (fp_heights s)[i := 1]\<rparr>"

definition raise_height :: "nat \<Rightarrow> nat \<Rightarrow> prints \<Rightarrow> prints" where
  "raise_height i c s =
     (let height = fp_heights s ! c + 1
      in if height > fp_heights s ! i then s\<lparr>fp_heights := (fp_heights s)[i := height]\<rparr> else s)"

definition leave :: "nat \<Rightarrow> string \<Rightarrow> prints \<Rightarrow> prints" where
  "leave i f s = s\<lparr>fp_prints := (fp_prints s)[i := f], fp_colors := (fp_colors s)[i := Black]\<rparr>"

function fingerprint :: "unicode_tables \<Rightarrow> CapturedSpan list \<Rightarrow> nat list list \<Rightarrow> nat \<Rightarrow> prints \<Rightarrow> (string \<times> prints) result"
  and fingerprintChildren :: "unicode_tables \<Rightarrow> CapturedSpan list \<Rightarrow> nat list list \<Rightarrow> nat \<Rightarrow> nat list \<Rightarrow> prints
    \<Rightarrow> (string list \<times> prints) result" where
  "fingerprint U spans children i s =
     (if length (fp_colors s) \<le> i then Inl (Err ''index out of range'' [])
      else if fp_colors s ! i = Gray then Inl (Err ''cycle in captured trace'' [])
      else if fp_colors s ! i = Black then Inr (fp_prints s ! i, s)
      else res_bind (fingerprintChildren U spans children i (children ! i) (enter i s)) (\<lambda>(cs, s).
             fail_if (fp_heights s ! i > 128) (Err ''captured trace exceeds 128 levels'' [])
               (Inr (spanPrint U (spans ! i) cs, leave i (spanPrint U (spans ! i) cs) s))))"
| "fingerprintChildren U spans children i [] s = Inr ([], s)"
| "fingerprintChildren U spans children i (c # cs) s =
     res_bind (fingerprint U spans children c s) (\<lambda>(f, s).
       res_bind (fingerprintChildren U spans children i cs (raise_height i c s)) (\<lambda>(fs, s). Inr (f # fs, s)))"
  by pat_completeness auto

lemma unvisited_simps [simp]:
  "unvisited (raise_height i c s) = unvisited s"
  "length (fp_colors (raise_height i c s)) = length (fp_colors s)"
  "length (fp_colors (enter i s)) = length (fp_colors s)" "length (fp_colors (leave i f s)) = length (fp_colors s)"
  by (simp_all add: raise_height_def unvisited_def enter_def leave_def Let_def)

lemma unvisited_leave: "unvisited (leave i f s) \<le> unvisited s"
proof -
  have "length (filter (\<lambda>c. c = White) (xs[i := Black])) \<le> length (filter (\<lambda>c. c = White) xs)" for xs
  proof (induction xs arbitrary: i)
    case (Cons x xs)
    then show ?case by (cases i) (auto intro: le_SucI)
  qed simp
  then show ?thesis by (simp add: unvisited_def leave_def)
qed

lemma unvisited_enter:
  assumes "i < length (fp_colors s)" "fp_colors s ! i = White"
  shows "unvisited (enter i s) < unvisited s"
proof -
  have "xs ! i = White \<Longrightarrow> i < length xs \<Longrightarrow>
      length (filter (\<lambda>c. c = White) (xs[i := Gray])) < length (filter (\<lambda>c. c = White) xs)" for xs
  proof (induction xs arbitrary: i)
    case (Cons x xs)
    then show ?case by (cases i) auto
  qed simp
  with assms show ?thesis by (simp add: unvisited_def enter_def)
qed

lemma color_White: "c \<noteq> Gray \<Longrightarrow> c \<noteq> Black \<Longrightarrow> c = White"
  by (cases c) auto

lemma fingerprint_visits_dom:
  "fingerprint_fingerprintChildren_dom (Inl (U, spans, children, i, s)) \<Longrightarrow>
     fingerprint U spans children i s = Inr (f, s') \<Longrightarrow> unvisited s' \<le> unvisited s"
  "fingerprint_fingerprintChildren_dom (Inr (U, spans, children, i, cs, s)) \<Longrightarrow>
     fingerprintChildren U spans children i cs s = Inr (fs, s') \<Longrightarrow> unvisited s' \<le> unvisited s"
proof (induction arbitrary: f s' and fs s' rule: fingerprint_fingerprintChildren.pinduct)
  case (1 U spans children i s)
  show ?case
  proof (cases "length (fp_colors s) \<le> i \<or> fp_colors s ! i = Gray \<or> fp_colors s ! i = Black")
    case False
    then obtain cs s1 where s1: "fingerprintChildren U spans children i (children ! i) (enter i s) = Inr (cs, s1)" "s' = leave i f s1"
      using 1(1,3) by (auto simp: fingerprint.psimps res_bind_Inr_iff fail_if_Inr_iff)
    then have "unvisited s1 \<le> unvisited (enter i s)" using 1(2) False by auto
    also have "\<dots> < unvisited s" using False by (intro unvisited_enter) (auto intro: color_White)
    finally show ?thesis using unvisited_leave [of i f s1] by (simp add: s1(2))
  qed (use 1(1,3) in \<open>auto simp: fingerprint.psimps split: if_splits\<close>)
next
  case (3 U spans children i c cs s)
  then obtain f1 s1 fs1 where s1: "fingerprint U spans children c s = Inr (f1, s1)"
      "fingerprintChildren U spans children i cs (raise_height i c s1) = Inr (fs1, s')"
    by (auto simp: fingerprintChildren.psimps res_bind_Inr_iff)
  then have "unvisited s1 \<le> unvisited s" "unvisited s' \<le> unvisited (raise_height i c s1)" using 3(2,3) by auto
  then show ?case by simp
qed (simp add: fingerprintChildren.psimps)

termination fingerprint
  by (relation "measures [\<lambda>a. case a of Inl (_, _, _, _, s) \<Rightarrow> unvisited s | Inr (_, _, _, _, _, s) \<Rightarrow> unvisited s,
        \<lambda>a. case a of Inl _ \<Rightarrow> 0 | Inr (_, _, _, _, cs, _) \<Rightarrow> Suc (length cs)]")
    (auto intro: unvisited_enter color_White dest!: fingerprint_visits_dom(1))

declare fingerprint.simps [simp del]

definition fingerprintAll :: "unicode_tables \<Rightarrow> CapturedSpan list \<Rightarrow> nat list list \<Rightarrow> string list result" where
  "fingerprintAll U spans children =
     (let n = length spans
      in res_bind (res_fold (\<lambda>i s. res_bind (fingerprint U spans children i s) (\<lambda>(_, s). Inr s)) [0..<n]
             \<lparr>fp_colors = replicate n White, fp_prints = replicate n [], fp_heights = replicate n 0\<rparr>)
           (\<lambda>s. Inr (fp_prints s)))"

section \<open>Projections, keys and labels\<close>

text \<open>What the closures share once every span has its fingerprint.\<close>

record captured =
  cp_resources :: "members list"
  cp_scopes :: "members list"
  cp_spans :: "CapturedSpan list"
  cp_index :: index
  cp_lineage :: lineage
  cp_prints :: "string list"

abbreviation cp_count :: "captured \<Rightarrow> nat" where
  "cp_count d \<equiv> length (cp_spans d)"

abbreviation cp_parent :: "captured \<Rightarrow> nat \<Rightarrow> nat option" where
  "cp_parent d i \<equiv> fo_parents (cp_lineage d) ! i"

abbreviation cp_children :: "captured \<Rightarrow> nat \<Rightarrow> nat list" where
  "cp_children d i \<equiv> fo_children (cp_lineage d) ! i"

abbreviation cp_traceID :: "captured \<Rightarrow> nat \<Rightarrow> string" where
  "cp_traceID d i \<equiv> ix_traceIDs (cp_index d) ! i"

abbreviation cp_parentID :: "captured \<Rightarrow> nat \<Rightarrow> string" where
  "cp_parentID d i \<equiv> ix_parentIDs (cp_index d) ! i"

text \<open>A span whose parent is not in the capture, and the identity it names\<close>

definition externalParent :: "captured \<Rightarrow> nat \<Rightarrow> bool" where
  "externalParent d i \<longleftrightarrow> cp_parent d i = None \<and> cp_parentID d i \<noteq> []"

definition parentAnchor :: "captured \<Rightarrow> nat \<Rightarrow> string" where
  "parentAnchor d i = spanID_key (cp_traceID d i) (cp_parentID d i)"

text \<open>\<open>fingerprint\<close> admits no deeper trace.\<close>

definition maxLevels :: nat where
  "maxLevels = 128"

definition pathLabel :: "unicode_tables \<Rightarrow> captured \<Rightarrow> nat \<Rightarrow> string" where
  "pathLabel U d i =
     (let s = cp_spans d ! i
      in spanField s ''kind'' @ '' '' @ normalizedName U s @ '' ['' @ take 12 (cp_prints d ! i) @ '']'')"

fun pathOf :: "nat \<Rightarrow> unicode_tables \<Rightarrow> captured \<Rightarrow> nat \<Rightarrow> string" where
  "pathOf 0 U d i = []"
| "pathOf (Suc k) U d i =
     (case cp_parent d i of
        None \<Rightarrow> pathLabel U d i
      | Some p \<Rightarrow> pathOf k U d p @ '' / '' @ pathLabel U d i)"

abbreviation path :: "unicode_tables \<Rightarrow> captured \<Rightarrow> nat \<Rightarrow> string" where
  "path \<equiv> pathOf maxLevels"

definition without :: "string list \<Rightarrow> members \<Rightarrow> members" where
  "without keys m = filter (\<lambda>(k, _). k \<notin> set keys) m"

definition array0 :: "json \<Rightarrow> json list" where
  "array0 v = (case array v of Some xs \<Rightarrow> xs | None \<Rightarrow> [])"

definition projectedLink :: "string list \<Rightarrow> nat \<times> json \<Rightarrow> json" where
  "projectedLink targets = (\<lambda>(i, v).
     (let link = without [''traceId'', ''spanId''] (object0 v)
      in JObject (if i < length targets then go_put ''relationship'' (JString (targets ! i)) link else link)))"

definition semanticSpanProjection :: "captured \<Rightarrow> nat \<Rightarrow> bool \<Rightarrow> json" where
  "semanticSpanProjection d i includeScope =
     (let span = cp_spans d ! i;
          targets = (if \<not> includeScope \<and> length (cs_linkTargetsWithoutScope span) = length (cs_linkTargets span)
                     then cs_linkTargetsWithoutScope span else cs_linkTargets span);
          events = map (\<lambda>v. JObject (without [''timeUnixNano''] (object0 v))) (array0 (member (cs_fields span) ''events''));
          links = map (projectedLink targets) (List.enumerate 0 (array0 (member (cs_fields span) ''links'')));
          fs = go_put ''links'' (JArray links) (go_put ''events'' (JArray events)
                 (without [''traceId'', ''spanId'', ''parentSpanId'', ''startTimeUnixNano'', ''endTimeUnixNano'', ''events'', ''links'']
                   (cs_fields span)))
      in JObject ([(''span'', JObject fs), (''resource'', JObject (cp_resources d ! cs_resource span))]
           @ (if includeScope then [(''scope'', JObject (cp_scopes d ! cs_scope span))] else [])))"

text \<open>\<open>buildTargetOccurrenceKeys\<close> with its closures \<open>subtree\<close> and \<open>key\<close>\<close>

fun subtree :: "nat \<Rightarrow> captured \<Rightarrow> bool \<Rightarrow> nat \<Rightarrow> string" where
  "subtree 0 d includeScope i = []"
| "subtree (Suc k) d includeScope i =
     shortDigest (JArray [semanticSpanProjection d i includeScope,
       text_list (sort (map (subtree k d includeScope) (cp_children d i)))])"

text \<open>The label of an external parent; a missing key reads as the empty string.\<close>

definition externalParentLabel :: "captured \<Rightarrow> bool \<Rightarrow> string \<Rightarrow> string" where
  "externalParentLabel d includeScope anchor =
     (let below = map (subtree maxLevels d includeScope)
            (filter (\<lambda>i. externalParent d i \<and> parentAnchor d i = anchor) [0..<cp_count d])
      in if below = [] then [] else shortDigest (text_list (sort below)))"

fun targetOccurrenceKey :: "nat \<Rightarrow> captured \<Rightarrow> bool \<Rightarrow> nat \<Rightarrow> string" where
  "targetOccurrenceKey 0 d includeScope i = []"
| "targetOccurrenceKey (Suc k) d includeScope i =
     (let parent = (case cp_parent d i of
            Some p \<Rightarrow> targetOccurrenceKey k d includeScope p
          | None \<Rightarrow> if cp_parentID d i \<noteq> [] then ''external parent '' @ externalParentLabel d includeScope (parentAnchor d i)
                    else ''root'')
      in shortDigest (text_list [parent, subtree maxLevels d includeScope i]))"

definition buildTargetOccurrenceKeys :: "captured \<Rightarrow> bool \<Rightarrow> string list" where
  "buildTargetOccurrenceKeys d includeScope = map (targetOccurrenceKey maxLevels d includeScope) [0..<cp_count d]"

definition withTraceOccurrenceSet :: "captured \<Rightarrow> string list \<Rightarrow> string list" where
  "withTraceOccurrenceSet d keys =
     (let traceSet = (\<lambda>traceID. shortDigest (text_list (sort (map ((!) keys) (go_get0 [] (ix_traces (cp_index d)) traceID)))))
      in map (\<lambda>i. shortDigest (text_list [keys ! i, traceSet (cp_traceID d i)])) [0..<length keys])"

section \<open>Link targets\<close>

text \<open>The links of all spans in order, each with its span, its position and its target.\<close>

definition linkTarget :: "unicode_tables \<Rightarrow> json \<Rightarrow> string \<times> string \<times> bool" where
  "linkTarget U v =
     (case linkIdentity U (member (object0 v) ''traceId'') 16 of (tid, validTraceID) \<Rightarrow>
      case linkIdentity U (member (object0 v) ''spanId'') 8 of (sid, validSpanID) \<Rightarrow>
        (tid, sid, validTraceID \<and> validSpanID))"

definition spanLinks :: "captured \<Rightarrow> nat \<Rightarrow> json list" where
  "spanLinks d i = array0 (member (cs_fields (cp_spans d ! i)) ''links'')"

definition linkSource :: "unicode_tables \<Rightarrow> captured \<Rightarrow> string list \<Rightarrow> nat \<Rightarrow> nat \<Rightarrow> string" where
  "linkSource U d keys i linkIndex =
     path U d i @ '' occurrence '' @ keys ! i @ '' link '' @ itoa (int linkIndex)"

text \<open>The sources of the valid links to a target, and the digest of a target with several.\<close>

definition linkTargetSources :: "unicode_tables \<Rightarrow> captured \<Rightarrow> string list \<Rightarrow> string \<Rightarrow> string list" where
  "linkTargetSources U d keys target =
     sort (concat (map (\<lambda>i. List.map_filter (\<lambda>(linkIndex, v).
         case linkTarget U v of (tid, sid, valid) \<Rightarrow>
           if valid \<and> spanID_key tid sid = target then Some (linkSource U d keys i linkIndex) else None)
       (List.enumerate 0 (spanLinks d i))) [0..<cp_count d]))"

definition sharedTargetDigest :: "unicode_tables \<Rightarrow> captured \<Rightarrow> string list \<Rightarrow> string \<Rightarrow> string" where
  "sharedTargetDigest U d keys target =
     (let sources = linkTargetSources U d keys target
      in if length sources > 1 then shortDigest (text_list sources) else [])"

definition targetText :: "unicode_tables \<Rightarrow> captured \<Rightarrow> bool \<Rightarrow> string list \<Rightarrow> (string \<Rightarrow> string) \<Rightarrow> nat \<Rightarrow> json \<Rightarrow> string" where
  "targetText U d includeScope keys digests i v =
     (case linkTarget U v of (tid, sid, validTarget) \<Rightarrow>
       (let anchor = spanID_key tid sid;
            target = (if \<not> validTarget then (if tid = [] \<and> sid = [] then ''missing trace/span'' else ''invalid trace/span'')
                      else if tid = cp_traceID d i then ''external span in same trace'' else ''external trace/span'');
            target = (if validTarget \<and> anchor \<in> fo_anchors (cp_lineage d)
                      then ''external parent '' @ externalParentLabel d includeScope anchor else target);
            target = (case go_get (ix_ids (cp_index d)) anchor of
                        Some j \<Rightarrow>
                          if \<not> validTarget then target
                          else if j = i then ''self''
                          else ''captured '' @ (if tid = cp_traceID d i then ''in same trace '' else ''in another trace '')
                            @ path U d j @ '' occurrence '' @ keys ! j
                      | None \<Rightarrow> target)
        in if digests anchor \<noteq> [] then target @ '' (shared target '' @ digests anchor @ '')'' else target))"

type_synonym graph_keys = "captured \<Rightarrow> string list \<Rightarrow> (string \<Rightarrow> string) \<Rightarrow> (string \<Rightarrow> string) \<Rightarrow> string list result"

definition labelLinks :: "graph_keys \<Rightarrow> unicode_tables \<Rightarrow> captured \<Rightarrow> captured result" where
  "labelLinks graphKeys U d =
     (let label = externalParentLabel d True; labelWithoutScope = externalParentLabel d False
      in res_bind (graphKeys d (withTraceOccurrenceSet d (buildTargetOccurrenceKeys d True)) (\<lambda>_. []) label) (\<lambda>sources.
         res_bind (graphKeys d (withTraceOccurrenceSet d (buildTargetOccurrenceKeys d False)) (\<lambda>_. []) labelWithoutScope)
           (\<lambda>sourcesWithoutScope.
         let digests = sharedTargetDigest U d sources; digestsWithoutScope = sharedTargetDigest U d sourcesWithoutScope
         in res_bind (graphKeys d sources digests label) (\<lambda>targets.
            res_bind (graphKeys d sourcesWithoutScope digestsWithoutScope labelWithoutScope) (\<lambda>targetsWithoutScope.
              Inr (d\<lparr>cp_spans := map (\<lambda>i. (cp_spans d ! i)\<lparr>
                 cs_linkTargets := map (targetText U d True targets digests i) (spanLinks d i),
                 cs_linkTargetsWithoutScope := map (targetText U d False targetsWithoutScope digestsWithoutScope i) (spanLinks d i)\<rparr>)
                [0..<cp_count d]\<rparr>))))))"

section \<open>Partitions and occurrence keys\<close>

text \<open>\<open>buildDescendantPartitions\<close> and \<open>descendantScopePartition\<close>\<close>

fun descendantPartition :: "nat \<Rightarrow> captured \<Rightarrow> nat \<Rightarrow> string" where
  "descendantPartition 0 d i = []"
| "descendantPartition (Suc k) d i =
     shortDigest (text_list (sort (map (\<lambda>c. canonical (JArray [semanticSpanProjection d c False,
       JString (descendantPartition k d c)])) (cp_children d i))))"

fun descendantScopePartition :: "nat \<Rightarrow> captured \<Rightarrow> nat \<Rightarrow> string" where
  "descendantScopePartition 0 d i = []"
| "descendantScopePartition (Suc k) d i =
     shortDigest (text_list (sort (map (\<lambda>c. canonical (JArray [JString (cp_prints d ! c),
       JObject (cp_scopes d ! cs_scope (cp_spans d ! c)), JString (descendantScopePartition k d c)])) (cp_children d i))))"

text \<open>\<open>buildOccurrenceKeys\<close>\<close>

fun occurrenceKey :: "nat \<Rightarrow> captured \<Rightarrow> bool \<Rightarrow> nat \<Rightarrow> string" where
  "occurrenceKey 0 d includeScope i = []"
| "occurrenceKey (Suc k) d includeScope i =
     (let parent = (case cp_parent d i of
            Some p \<Rightarrow> occurrenceKey k d includeScope p
          | None \<Rightarrow> if cp_parentID d i \<noteq> [] then ''external parent'' else ''root'')
      in shortDigest (JArray ([JString parent, semanticSpanProjection d i includeScope]
           @ (if includeScope then [JString (descendantScopePartition maxLevels d i)] else []))))"

definition buildOccurrenceKeys :: "captured \<Rightarrow> bool \<Rightarrow> string list" where
  "buildOccurrenceKeys d includeScope = map (occurrenceKey maxLevels d includeScope) [0..<cp_count d]"

text \<open>\<open>buildExternalParents\<close>: the keys of the spans below one external parent\<close>

definition externalChildren :: "captured \<Rightarrow> string list \<Rightarrow> string \<Rightarrow> string list" where
  "externalChildren d keys anchor =
     sort (map ((!) keys) (filter (\<lambda>i. externalParent d i \<and> parentAnchor d i = anchor) [0..<cp_count d]))"

definition parentText :: "unicode_tables \<Rightarrow> captured \<Rightarrow> string list \<Rightarrow> nat \<Rightarrow> string" where
  "parentText U d keys i =
     (case cp_parent d i of
        Some p \<Rightarrow> path U d p @ '' occurrence '' @ keys ! p
      | None \<Rightarrow>
          if cp_parentID d i \<noteq> [] then
            ''external parent (partial trace), children occurrences '' @ digestOf (text_list (externalChildren d keys (parentAnchor d i)))
          else ''root'')"

definition traceRoots :: "captured \<Rightarrow> nat list \<Rightarrow> nat list" where
  "traceRoots d indices = filter (\<lambda>i. cp_parent d i = None) indices"

text \<open>The loop over the traces that writes the set of occurrences of a trace to its roots\<close>

definition labelTrace :: "captured \<Rightarrow> string list \<Rightarrow> string list \<Rightarrow> nat list \<Rightarrow> CapturedSpan list \<Rightarrow> CapturedSpan list" where
  "labelTrace d keys keysWithoutScope indices spans =
     (let rootSet = shortDigest (text_list (sort (map ((!) keys) indices)));
          rootSetWithoutScope = shortDigest (text_list (sort (map ((!) keysWithoutScope) indices)))
      in fold (\<lambda>i spans. spans[i := (spans ! i)\<lparr>cs_traceRoots := rootSet, cs_traceRootsWithoutScope := rootSetWithoutScope\<rparr>])
           (traceRoots d indices) spans)"

definition labelSpans :: "unicode_tables \<Rightarrow> captured \<Rightarrow> captured" where
  "labelSpans U d =
     (let keys = buildOccurrenceKeys d True; keysWithoutScope = buildOccurrenceKeys d False;
          spans = map (\<lambda>i. (cp_spans d ! i)\<lparr>cs_parent := parentText U d keys i,
                     cs_parentWithoutScope := parentText U d keysWithoutScope i\<rparr>) [0..<cp_count d]
      in d\<lparr>cp_spans := fold (labelTrace d keys keysWithoutScope) (map snd (ix_traces (cp_index d))) spans\<rparr>)"

section \<open>The shape of the traces\<close>

text \<open>The key of a span in its group: spans that share their trace and fingerprint are told apart by their descendants.\<close>

definition groupKey :: "captured \<Rightarrow> (nat \<Rightarrow> string) \<Rightarrow> nat list \<Rightarrow> nat \<Rightarrow> string" where
  "groupKey d parts indices i =
     (if length (filter (\<lambda>j. cp_prints d ! j = cp_prints d ! i \<and> cp_traceID d j = cp_traceID d i) indices) > 1
      then cp_prints d ! i @ CHR 0x00 # parts i else cp_prints d ! i)"

text \<open>The first span with the least name\<close>

definition leastName :: "captured \<Rightarrow> nat list \<Rightarrow> CapturedSpan" where
  "leastName d occ =
     fold (\<lambda>i s. if spanField (cp_spans d ! i) ''name'' < spanField s ''name'' then cp_spans d ! i else s)
       occ (cp_spans d ! hd occ)"

text \<open>\<open>groups\<close>, down to \<open>maxLevels\<close> levels\<close>

fun groups :: "nat \<Rightarrow> captured \<Rightarrow> (nat \<Rightarrow> string) \<Rightarrow> nat list \<Rightarrow> SpanGroup list" where
  "groups 0 d parts indices = []"
| "groups (Suc k) d parts indices =
     map (\<lambda>key.
       let occ = sort (filter (\<lambda>i. groupKey d parts indices i = key) indices); s = leastName d occ
       in SpanGroup (int (length occ)) True 0 0 [] []
            (SpanNode occ [] (spanField s ''kind'') [] (spanField s ''name'') []
              (groups k d parts (concat (map (cp_children d) occ)))))
       (sort (remdups (map (groupKey d parts indices) indices)))"

record traceStructure =
  ts_roots :: "nat list"
  ts_count :: nat
  ts_coverage :: string

definition traceCoverage :: "captured \<Rightarrow> nat list \<Rightarrow> string" where
  "traceCoverage d indices =
     (let roots = traceRoots d indices
      in if list_ex (\<lambda>i. cp_parentID d i \<noteq> []) roots \<or> length roots \<noteq> 1 then ''partial'' else ''complete'')"

definition structureKey :: "captured \<Rightarrow> nat list \<Rightarrow> string" where
  "structureKey d indices =
     traceCoverage d indices @ canonical (text_list (sort (map ((!) (cp_prints d)) (traceRoots d indices))))"

definition addStructure :: "captured \<Rightarrow> nat list \<Rightarrow> (string, traceStructure) gomap \<Rightarrow> (string, traceStructure) gomap" where
  "addStructure d indices structures =
     (let key = structureKey d indices;
          g = (case go_get structures key of Some g \<Rightarrow> g
               | None \<Rightarrow> \<lparr>ts_roots = [], ts_count = 0, ts_coverage = traceCoverage d indices\<rparr>)
      in go_put key \<lparr>ts_roots = ts_roots g @ traceRoots d indices, ts_count = ts_count g + 1, ts_coverage = ts_coverage g\<rparr>
           structures)"

definition traceGroup :: "captured \<Rightarrow> (nat \<Rightarrow> string) \<Rightarrow> traceStructure \<Rightarrow> TraceGroup" where
  "traceGroup d parts g =
     TraceGroup (int (ts_count g)) True 0 0 [] [] (ts_coverage g) (groups maxLevels d parts (ts_roots g))"

text \<open>The trace groups, for the order in which Go ranges over the traces\<close>

definition traceGroups :: "captured \<Rightarrow> (nat \<Rightarrow> string) \<Rightarrow> nat list list \<Rightarrow> TraceGroup list" where
  "traceGroups d parts traces =
     (let structures = fold (addStructure d) traces []
      in map (\<lambda>key. traceGroup d parts (the (go_get structures key))) (sort (go_keys structures)))"

section \<open>DecodeCapture\<close>

record CaptureDataset =
  cd_key :: string
  cd_profile :: string
  cd_scenario :: string
  cd_revision :: string
  cd_outcome :: string
  cd_diagnostics :: "error list"
  cd_resources :: "members list"
  cd_scopes :: "members list"
  cd_spans :: "CapturedSpan list"
  cd_shape :: ScenarioShape

definition dataset :: "ValidationReceipt \<Rightarrow> error list \<Rightarrow> reading \<Rightarrow> CaptureDataset" where
  "dataset receipt diagnostics rd = \<lparr>cd_key = vr_profile receipt @ ''/'' @ vr_scenario receipt,
     cd_profile = vr_profile receipt, cd_scenario = vr_scenario receipt, cd_revision = vr_revision receipt,
     cd_outcome = vr_outcome receipt, cd_diagnostics = diagnostics, cd_resources = rd_resources rd,
     cd_scopes = rd_scopes rd, cd_spans = rd_spans rd,
     cd_shape = \<lparr>ss_profile = vr_profile receipt, ss_scenario = vr_scenario receipt, ss_source = [], ss_traces = [],
       ss_exact = True, ss_traceCount = 0, ss_spanCount = 0, ss_scopes = [], ss_statuses = []\<rparr>\<rparr>"

text \<open>What follows the loop over the records, up to the last early return\<close>

definition analyseSpans :: "graph_keys \<Rightarrow> unicode_tables \<Rightarrow> reading \<Rightarrow> captured result" where
  "analyseSpans graphKeys U rd =
     res_bind (indexSpans U (rd_spans rd)) (\<lambda>ix.
       let fo = linkParents ix (length (rd_spans rd))
       in res_bind (fingerprintAll U (rd_spans rd) (fo_children fo)) (\<lambda>prints.
            labelLinks graphKeys U \<lparr>cp_resources = rd_resources rd, cp_scopes = rd_scopes rd, cp_spans = rd_spans rd,
              cp_index = ix, cp_lineage = fo, cp_prints = prints\<rparr>))"

definition captureTraces :: "unicode_tables \<Rightarrow> captured \<Rightarrow> TraceGroup list" where
  "captureTraces U d =
     traceGroups (labelSpans U d) (descendantPartition maxLevels d) (map snd (ix_traces (cp_index d)))"

definition DecodeCapture :: "graph_keys \<Rightarrow> unicode_tables \<Rightarrow> (string \<Rightarrow> string option) \<Rightarrow> ValidationReceipt \<Rightarrow> token list \<Rightarrow> error
    \<Rightarrow> CaptureDataset" where
  "DecodeCapture graphKeys U floatText receipt tokens e =
     (case readCapture U floatText tokens e of
        (rd, Some err) \<Rightarrow> dataset receipt [err] rd
      | (rd, None) \<Rightarrow>
          (case analyseSpans graphKeys U rd of
             Inl err \<Rightarrow> dataset receipt [err] rd
           | Inr d \<Rightarrow>
               (let data = dataset receipt [] rd
                in data\<lparr>cd_spans := cp_spans (labelSpans U d),
                     cd_shape := (cd_shape data)\<lparr>ss_traces := captureTraces U d,
                       ss_traceCount := int (length (ix_traces (cp_index d))), ss_spanCount := int (cp_count d)\<rparr>\<rparr>)))"

end
