(* ===== verification/Lineage.thy ===== *)
theory Lineage
  imports CaptureShape
begin

text \<open>
  The forest of the captured spans: what \<open>linkParents\<close> builds, and that \<open>fingerprint\<close> accepts
  exactly the captures in which every span has fewer than \<open>maxLevels\<close> ancestors.
\<close>

section \<open>Ancestors\<close>

fun ancestor :: "lineage \<Rightarrow> nat \<Rightarrow> nat \<Rightarrow> nat option" where
  "ancestor fo 0 i = Some i"
| "ancestor fo (Suc k) i = (case ancestor fo k i of None \<Rightarrow> None | Some a \<Rightarrow> fo_parents fo ! a)"

definition lineage_ok :: "lineage \<Rightarrow> nat \<Rightarrow> bool" where
  "lineage_ok fo n \<longleftrightarrow> length (fo_parents fo) = n \<and> length (fo_children fo) = n
     \<and> (\<forall>i<n. \<forall>p. fo_parents fo ! i = Some p \<longrightarrow> p < n)
     \<and> (\<forall>p<n. fo_children fo ! p = filter (\<lambda>i. fo_parents fo ! i = Some p) [0..<n])"

lemma lineage_children:
  "lineage_ok fo n \<Longrightarrow> p < n \<Longrightarrow> fo_children fo ! p = filter (\<lambda>i. fo_parents fo ! i = Some p) [0..<n]"
  by (simp add: lineage_ok_def)

lemma lineage_parent: "lineage_ok fo n \<Longrightarrow> i < n \<Longrightarrow> fo_parents fo ! i = Some p \<Longrightarrow> p < n"
  by (simp add: lineage_ok_def)

lemma ancestor_add:
  "ancestor fo (k + m) i = (case ancestor fo m i of None \<Rightarrow> None | Some a \<Rightarrow> ancestor fo k a)"
  by (induction k) (auto split: option.splits)

lemma ancestor_less: "lineage_ok fo n \<Longrightarrow> i < n \<Longrightarrow> ancestor fo k i = Some a \<Longrightarrow> a < n"
  by (induction k arbitrary: a) (auto split: option.splits dest: lineage_parent)

lemma ancestor_mono: "ancestor fo m i \<noteq> None \<Longrightarrow> k \<le> m \<Longrightarrow> ancestor fo k i \<noteq> None"
  using ancestor_add [of fo "m - k" k i] by (auto split: option.splits)

lemma ancestor_parent: "fo_parents fo ! c = Some i \<Longrightarrow> ancestor fo (Suc k) c = ancestor fo k i"
  using ancestor_add [of fo k 1 c] by simp

lemma ancestor_cycle:
  assumes "ancestor fo k i = Some i" "0 < k"
  shows "ancestor fo m i \<noteq> None"
proof -
  have "ancestor fo (j * k) i = Some i" for j
    by (induction j) (use assms(1) in \<open>simp_all add: ancestor_add\<close>)
  then show ?thesis using ancestor_mono [of fo "m * k" i m] assms(2) by simp
qed

section \<open>Parents and children\<close>

lemma enumerate_fold_invariant:
  fixes xs :: "'a list"
  shows "res_fold f (List.enumerate 0 xs) s = Inr t \<Longrightarrow> I 0 s
    \<Longrightarrow> (\<And>i u v. i < length xs \<Longrightarrow> I i u \<Longrightarrow> f (i, xs ! i) u = Inr v \<Longrightarrow> I (Suc i) v) \<Longrightarrow> I (length xs) t"
proof -
  assume run: "res_fold f (List.enumerate 0 xs) s = Inr t" and init: "I 0 s"
    and step: "\<And>i u v. i < length xs \<Longrightarrow> I i u \<Longrightarrow> f (i, xs ! i) u = Inr v \<Longrightarrow> I (Suc i) v"
  have "I (length (List.enumerate 0 xs)) t"
  proof (rule res_fold_invariant [OF run, of "\<lambda>done. I (length done)"])
    show "I (length ([] :: (nat \<times> 'a) list)) s" using init by simp
    fix before x after u v
    assume e: "List.enumerate 0 xs = before @ x # after" and i: "I (length before) u" and f: "f x u = Inr v"
    have len: "length before < length xs" using arg_cong [OF e, of length] by simp
    have "x = List.enumerate 0 xs ! length before" by (simp add: e)
    then have "x = (length before, xs ! length before)" using len by (simp add: nth_enumerate_eq)
    with step [OF len i] f show "I (length (before @ [x])) v" by simp
  qed
  then show ?thesis by simp
qed

definition index_ok :: "index \<Rightarrow> nat \<Rightarrow> bool" where
  "index_ok ix n \<longleftrightarrow> length (ix_traceIDs ix) = n \<and> length (ix_spanIDs ix) = n \<and> length (ix_parentIDs ix) = n
     \<and> go_map (ix_traces ix)
     \<and> (\<forall>k i. go_get (ix_ids ix) k = Some i \<longrightarrow> i < n \<and> k = spanID_key (ix_traceIDs ix ! i) (ix_spanIDs ix ! i))
     \<and> (\<forall>t. go_get0 [] (ix_traces ix) t = filter (\<lambda>i. ix_traceIDs ix ! i = t) [0..<n])"

lemma indexSpans_ok:
  assumes "indexSpans U spans = Inr ix"
  shows "index_ok ix (length spans)"
proof (rule enumerate_fold_invariant [OF assms [unfolded indexSpans_def]])
  show "index_ok no_index 0"
    by (simp add: index_ok_def no_index_def go_map_def go_keys_def go_get0_def)
  fix i u v
  assume i: "index_ok u i" and run: "identifySpan U (i, spans ! i) u = Inr v"
  obtain t sp par roots where v: "v = \<lparr>ix_traceIDs = ix_traceIDs u @ [t], ix_spanIDs = ix_spanIDs u @ [sp],
      ix_parentIDs = ix_parentIDs u @ [par], ix_ids = go_put (spanID_key t sp) i (ix_ids u),
      ix_traces = go_put t (go_get0 [] (ix_traces u) t @ [i]) (ix_traces u), ix_explicitRoots = roots\<rparr>"
    using run by (auto simp: identifySpan_def res_bind_Inr_iff fail_if_Inr_iff Let_def)
  have len: "length (ix_traceIDs u) = i" "length (ix_spanIDs u) = i" "length (ix_parentIDs u) = i"
    using i by (simp_all add: index_ok_def)
  have ids: "k = spanID_key ((ix_traceIDs u @ [t]) ! j) ((ix_spanIDs u @ [sp]) ! j) \<and> j < Suc i"
    if "go_get (go_put (spanID_key t sp) i (ix_ids u)) k = Some j" for k j
  proof (cases "k = spanID_key t sp")
    case True
    then have "j = i" using that by (simp add: go_get_put)
    with True len show ?thesis by (simp add: nth_append)
  next
    case False
    then have "go_get (ix_ids u) k = Some j" using that by (simp add: go_get_put)
    then have "j < i \<and> k = spanID_key (ix_traceIDs u ! j) (ix_spanIDs u ! j)" using i unfolding index_ok_def by blast
    with len show ?thesis by (simp add: nth_append)
  qed
  have old: "filter (\<lambda>j. (ix_traceIDs u @ [t]) ! j = t') [0..<i] = filter (\<lambda>j. ix_traceIDs u ! j = t') [0..<i]" for t'
    by (rule filter_cong) (auto simp: nth_append len)
  have tr: "go_get0 [] (ix_traces u) t' = filter (\<lambda>j. ix_traceIDs u ! j = t') [0..<i]" for t'
    using i by (simp add: index_ok_def)
  have traces: "go_get0 [] (go_put t (go_get0 [] (ix_traces u) t @ [i]) (ix_traces u)) t'
      = filter (\<lambda>j. (ix_traceIDs u @ [t]) ! j = t') [0..<Suc i]" for t'
    by (simp add: tr old) (simp add: nth_append len)
  show "index_ok v (Suc i)"
    unfolding index_ok_def v index.simps
  proof (intro conjI allI impI)
    show "go_map (go_put t (go_get0 [] (ix_traces u) t @ [i]) (ix_traces u))"
      using i by (simp add: index_ok_def go_map_put)
    show "go_get0 [] (go_put t (go_get0 [] (ix_traces u) t @ [i]) (ix_traces u)) t'
        = filter (\<lambda>j. (ix_traceIDs u @ [t]) ! j = t') [0..<Suc i]" for t' by (rule traces)
  qed (use ids len in auto)
qed

text \<open>The parent of a span: the span of its trace that its parent identity names.\<close>

definition parentOf :: "index \<Rightarrow> nat \<Rightarrow> nat option" where
  "parentOf ix i = (if ix_parentIDs ix ! i = [] then None
     else go_get (ix_ids ix) (spanID_key (ix_traceIDs ix ! i) (ix_parentIDs ix ! i)))"

lemma linkParents_eq:
  assumes ok: "index_ok ix n"
  shows "length (fo_parents (linkParents ix n)) = n" "length (fo_children (linkParents ix n)) = n"
    "\<And>i. i < n \<Longrightarrow> fo_parents (linkParents ix n) ! i = parentOf ix i"
    "\<And>p. p < n \<Longrightarrow> fo_children (linkParents ix n) ! p = filter (\<lambda>i. parentOf ix i = Some p) [0..<n]"
proof -
  let ?fo = "\<lambda>m. fold (linkParent ix) [0..<m] \<lparr>fo_parents = replicate n None, fo_children = replicate n [], fo_anchors = {}\<rparr>"
  have bound: "parentOf ix i = Some p \<Longrightarrow> p < n" for i p
    using ok by (auto simp: parentOf_def index_ok_def split: if_splits)
  have "length (fo_parents (?fo m)) = n \<and> length (fo_children (?fo m)) = n
      \<and> (\<forall>i<n. fo_parents (?fo m) ! i = (if i < m then parentOf ix i else None))
      \<and> (\<forall>p<n. fo_children (?fo m) ! p = filter (\<lambda>i. parentOf ix i = Some p) [0..<m])" if "m \<le> n" for m
    using that
  proof (induction m)
    case (Suc m)
    let ?u = "?fo m"
    have step: "?fo (Suc m) = linkParent ix m ?u" by simp
    show ?case
    proof (cases "parentOf ix m")
      case None
      then have "fo_parents (linkParent ix m ?u) = fo_parents ?u" "fo_children (linkParent ix m ?u) = fo_children ?u"
        by (auto simp: linkParent_def parentOf_def Let_def split: if_splits)
      then show ?thesis unfolding step using Suc None by (auto simp: less_Suc_eq)
    next
      case (Some p)
      then have "linkParent ix m ?u = ?u\<lparr>fo_parents := (fo_parents ?u)[m := Some p],
          fo_children := (fo_children ?u)[p := fo_children ?u ! p @ [m]]\<rparr>"
        by (auto simp: linkParent_def parentOf_def Let_def split: if_splits)
      then show ?thesis unfolding step using Suc Some bound [OF Some] by (auto simp: nth_list_update less_Suc_eq)
    qed
  qed auto
  from this [of n] show "length (fo_parents (linkParents ix n)) = n" "length (fo_children (linkParents ix n)) = n"
    "\<And>i. i < n \<Longrightarrow> fo_parents (linkParents ix n) ! i = parentOf ix i"
    "\<And>p. p < n \<Longrightarrow> fo_children (linkParents ix n) ! p = filter (\<lambda>i. parentOf ix i = Some p) [0..<n]"
    by (simp_all add: linkParents_def)
qed

lemma linkParents_ok:
  assumes ok: "index_ok ix n"
  shows "lineage_ok (linkParents ix n) n"
proof -
  have bound: "parentOf ix i = Some p \<Longrightarrow> p < n" for i p
    using ok by (auto simp: parentOf_def index_ok_def split: if_splits)
  have "filter (\<lambda>i. parentOf ix i = Some p) [0..<n] = filter (\<lambda>i. fo_parents (linkParents ix n) ! i = Some p) [0..<n]" for p
    by (rule filter_cong) (simp_all add: linkParents_eq(3) [OF ok])
  then show ?thesis
    using bound linkParents_eq [OF ok] by (auto simp: lineage_ok_def)
qed

section \<open>The search\<close>

text \<open>
  A finished span knows how many spans are on the longest way down from it; a failed search shows
  a span with \<open>maxLevels\<close> ancestors.
\<close>

definition height_ok :: "lineage \<Rightarrow> nat \<Rightarrow> nat \<Rightarrow> nat \<Rightarrow> bool" where
  "height_ok fo n h a \<longleftrightarrow> (\<exists>j<n. \<exists>k. ancestor fo k j = Some a \<and> Suc k = h)"

definition prints_ok :: "lineage \<Rightarrow> nat \<Rightarrow> prints \<Rightarrow> bool" where
  "prints_ok fo n s \<longleftrightarrow> length (fp_colors s) = n \<and> length (fp_prints s) = n \<and> length (fp_heights s) = n
     \<and> (\<forall>a<n. fp_colors s ! a = Black \<longrightarrow> fp_heights s ! a \<le> 128 \<and> height_ok fo n (fp_heights s ! a) a
          \<and> (\<forall>k. \<forall>j<n. ancestor fo k j = Some a \<longrightarrow> k < fp_heights s ! a))"

definition too_deep :: "lineage \<Rightarrow> nat \<Rightarrow> bool" where
  "too_deep fo n \<longleftrightarrow> (\<exists>j<n. ancestor fo 128 j \<noteq> None)"

text \<open>What a search keeps: the path stays gray, black stays black, and so do the heights, but those of \<open>X\<close>.\<close>

definition extends :: "nat \<Rightarrow> nat set \<Rightarrow> prints \<Rightarrow> prints \<Rightarrow> bool" where
  "extends n X s s' \<longleftrightarrow> (\<forall>g<n. (fp_colors s' ! g = Gray \<longleftrightarrow> fp_colors s ! g = Gray)
     \<and> (fp_colors s ! g = Black \<longrightarrow> fp_colors s' ! g = Black)
     \<and> (g \<notin> X \<longrightarrow> fp_colors s ! g \<noteq> White \<longrightarrow> fp_heights s' ! g = fp_heights s ! g))"

definition on_path :: "lineage \<Rightarrow> nat \<Rightarrow> nat \<Rightarrow> nat \<Rightarrow> prints \<Rightarrow> bool" where
  "on_path fo n m i s \<longleftrightarrow> (\<forall>g<n. fp_colors s ! g = Gray \<longrightarrow> (\<exists>k\<ge>m. ancestor fo k i = Some g))"

lemma extends_refl [simp]: "extends n X s s"
  by (simp add: extends_def)

lemma extends_trans:
  assumes st: "extends n X s t" and tu: "extends n X t u"
  shows "extends n X s u"
  unfolding extends_def
proof (intro allI impI)
  fix g assume g: "g < n"
  have "(fp_colors t ! g = Gray \<longleftrightarrow> fp_colors s ! g = Gray) \<and> (fp_colors s ! g = Black \<longrightarrow> fp_colors t ! g = Black)
     \<and> (g \<notin> X \<longrightarrow> fp_colors s ! g \<noteq> White \<longrightarrow> fp_heights t ! g = fp_heights s ! g)"
    "(fp_colors u ! g = Gray \<longleftrightarrow> fp_colors t ! g = Gray) \<and> (fp_colors t ! g = Black \<longrightarrow> fp_colors u ! g = Black)
     \<and> (g \<notin> X \<longrightarrow> fp_colors t ! g \<noteq> White \<longrightarrow> fp_heights u ! g = fp_heights t ! g)"
    using st tu g unfolding extends_def by blast+
  then show "(fp_colors u ! g = Gray \<longleftrightarrow> fp_colors s ! g = Gray) \<and> (fp_colors s ! g = Black \<longrightarrow> fp_colors u ! g = Black)
     \<and> (g \<notin> X \<longrightarrow> fp_colors s ! g \<noteq> White \<longrightarrow> fp_heights u ! g = fp_heights s ! g)"
    by (cases "fp_colors s ! g") auto
qed

lemma extends_mono: "extends n X s t \<Longrightarrow> X \<subseteq> Y \<Longrightarrow> extends n Y s t"
  by (auto simp: extends_def)

lemma on_path_extends: "on_path fo n m i s \<Longrightarrow> extends n X s s' \<Longrightarrow> on_path fo n m i s'"
  by (simp add: on_path_def extends_def)

lemma height_deep:
  assumes "height_ok fo n h a" "h > 128"
  shows "too_deep fo n"
proof -
  obtain j k where j: "j < n" "ancestor fo k j = Some a" "Suc k = h" using assms(1) by (auto simp: height_ok_def)
  have "ancestor fo 128 j \<noteq> None" by (rule ancestor_mono [of fo k]) (use j assms(2) in simp_all)
  with j(1) show ?thesis by (auto simp: too_deep_def)
qed

lemma height_child:
  "height_ok fo n h c \<Longrightarrow> fo_parents fo ! c = Some i \<Longrightarrow> height_ok fo n (Suc h) i"
  by (force simp: height_ok_def)

text \<open>Entering a span and raising its height keep the facts of the black ones.\<close>

lemma prints_ok_enter:
  assumes "prints_ok fo n s" "i < n" "fp_colors s ! i = White"
  shows "prints_ok fo n (enter i s)"
  using assms by (auto simp: prints_ok_def enter_def nth_list_update)

lemma raise_height_simps [simp]:
  "fp_colors (raise_height i c s) = fp_colors s" "fp_prints (raise_height i c s) = fp_prints s"
  by (simp_all add: raise_height_def Let_def)

lemma raise_height_nth:
  "length (fp_heights s) = n \<Longrightarrow> i < n \<Longrightarrow>
    fp_heights (raise_height i c s) ! g = (if g = i then max (fp_heights s ! i) (Suc (fp_heights s ! c)) else fp_heights s ! g)"
  by (auto simp: raise_height_def Let_def nth_list_update max_def)

lemma prints_ok_raise:
  assumes "prints_ok fo n s" "i < n" "fp_colors s ! i = Gray"
  shows "prints_ok fo n (raise_height i c s)"
proof -
  have len: "length (fp_heights s) = n" using assms(1) by (simp add: prints_ok_def)
  have "length (fp_heights (raise_height i c s)) = n" using len by (simp add: raise_height_def Let_def)
  with assms show ?thesis by (auto simp: prints_ok_def raise_height_nth [OF len])
qed

text \<open>A span is left when all its children are black and lower.\<close>

lemma prints_ok_leave:
  assumes ok: "prints_ok fo n s" and lin: "lineage_ok fo n" and i: "i < n" "fp_heights s ! i \<le> 128"
    "height_ok fo n (fp_heights s ! i) i" "0 < fp_heights s ! i"
    and children: "\<And>c. c < n \<Longrightarrow> fo_parents fo ! c = Some i \<Longrightarrow> fp_colors s ! c = Black \<and> fp_heights s ! c < fp_heights s ! i"
  shows "prints_ok fo n (leave i f s)"
proof -
  have low: "k < fp_heights s ! i" if a: "ancestor fo k j = Some i" "j < n" for k j
  proof (cases k)
    case (Suc k')
    then obtain c where c: "ancestor fo k' j = Some c" "fo_parents fo ! c = Some i"
      using a(1) by (auto split: option.splits)
    have "c < n" by (rule ancestor_less [OF lin a(2) c(1)])
    with children [OF this c(2)] ok c(1) a(2) have "k' < fp_heights s ! c" by (simp add: prints_ok_def)
    with children [OF \<open>c < n\<close> c(2)] Suc show ?thesis by linarith
  qed (use i(4) in simp)
  with ok i show ?thesis
    by (auto simp: prints_ok_def leave_def nth_list_update)
qed

text \<open>One search and the loop over children, by the rule of the two functions.\<close>

lemma search_ok:
  assumes lin: "lineage_ok fo n"
  shows "i < n \<Longrightarrow> prints_ok fo n s \<Longrightarrow> on_path fo n 1 i s \<Longrightarrow> children = fo_children fo \<Longrightarrow>
      (case fingerprint U spans children i s of
         Inl e \<Rightarrow> too_deep fo n
       | Inr (f, s') \<Rightarrow> prints_ok fo n s' \<and> fp_colors s' ! i = Black \<and> extends n {} s s')"
    and "i < n \<Longrightarrow> \<forall>c \<in> set cs. c < n \<and> fo_parents fo ! c = Some i \<Longrightarrow> prints_ok fo n s \<Longrightarrow> fp_colors s ! i = Gray
      \<Longrightarrow> on_path fo n 0 i s \<Longrightarrow> height_ok fo n (fp_heights s ! i) i \<Longrightarrow> children = fo_children fo \<Longrightarrow>
      (case fingerprintChildren U spans children i cs s of
         Inl e \<Rightarrow> too_deep fo n
       | Inr (fs, s') \<Rightarrow> prints_ok fo n s' \<and> extends n {i} s s' \<and> height_ok fo n (fp_heights s' ! i) i
           \<and> fp_heights s ! i \<le> fp_heights s' ! i
           \<and> (\<forall>c \<in> set cs. fp_colors s' ! c = Black \<and> fp_heights s' ! c < fp_heights s' ! i))"
proof (induction U spans children i s and U spans children i cs s rule: fingerprint_fingerprintChildren.induct)
  case (1 U spans children i s)
  note i = 1(2) and ok = 1(3) and path = 1(4) and ch = 1(5)
  have len: "length (fp_colors s) = n" "length (fp_heights s) = n" using ok by (simp_all add: prints_ok_def)
  consider "fp_colors s ! i = Gray" | "fp_colors s ! i = Black" | "fp_colors s ! i = White"
    by (cases "fp_colors s ! i") auto
  then show ?case
  proof cases
    case 1
    then obtain k where "1 \<le> k" "ancestor fo k i = Some i" using path i by (auto simp: on_path_def)
    then have "ancestor fo 128 i \<noteq> None" using ancestor_cycle [of fo k i] by simp
    then show ?thesis using i 1 len by (auto simp: fingerprint.simps too_deep_def)
  next
    case 2
    then show ?thesis using i len ok by (simp add: fingerprint.simps)
  next
    case White: 3
    let ?e = "enter i s"
    have e: "fp_colors ?e ! i = Gray" "fp_heights ?e ! i = 1" "\<And>g. g \<noteq> i \<Longrightarrow> fp_colors ?e ! g = fp_colors s ! g"
      "\<And>g. g \<noteq> i \<Longrightarrow> fp_heights ?e ! g = fp_heights s ! g"
      using i len by (simp_all add: enter_def)
    have eok: "prints_ok fo n ?e" by (rule prints_ok_enter [OF ok i White])
    have epath: "on_path fo n 0 i ?e"
      unfolding on_path_def
    proof (intro allI impI)
      fix g assume g: "g < n" "fp_colors ?e ! g = Gray"
      show "\<exists>k\<ge>0. ancestor fo k i = Some g"
      proof (cases "g = i")
        case True
        then show ?thesis by (intro exI [of _ 0]) simp
      next
        case False
        with g e(3) path show ?thesis by (auto simp: on_path_def)
      qed
    qed
    have eh: "height_ok fo n (fp_heights ?e ! i) i"
      unfolding e(2) height_ok_def using i by (intro exI [of _ i] conjI exI [of _ 0]) simp_all
    have cs: "\<forall>c \<in> set (children ! i). c < n \<and> fo_parents fo ! c = Some i"
      using lineage_children [OF lin i] ch by auto
    have run: "fingerprint U spans children i s =
        res_bind (fingerprintChildren U spans children i (children ! i) ?e) (\<lambda>(cs, s).
             fail_if (fp_heights s ! i > 128) (Err ''captured trace exceeds 128 levels'' [])
               (Inr (spanPrint U (spans ! i) cs, leave i (spanPrint U (spans ! i) cs) s)))"
      using White i len by (simp add: fingerprint.simps)
    note IH = 1(1) [OF _ _ _ i cs eok e(1) epath eh ch]
    show ?thesis
    proof (cases "fingerprintChildren U spans children i (children ! i) ?e")
      case (Inl err)
      with IH White i len show ?thesis by (simp add: run)
    next
      case (Inr r)
      obtain fs s1 where r: "r = (fs, s1)" by (cases r)
      from IH White i len Inr r
      have s1: "prints_ok fo n s1" "extends n {i} ?e s1" "height_ok fo n (fp_heights s1 ! i) i" "1 \<le> fp_heights s1 ! i"
        "\<And>c. c \<in> set (children ! i) \<Longrightarrow> fp_colors s1 ! c = Black \<and> fp_heights s1 ! c < fp_heights s1 ! i"
        by (simp_all add: e(2))
      show ?thesis
      proof (cases "fp_heights s1 ! i > 128")
        case True
        then show ?thesis using height_deep [OF s1(3)] by (simp add: run Inr r)
      next
        case False
        let ?l = "leave i (spanPrint U (spans ! i) fs) s1"
        have kids: "fp_colors s1 ! c = Black \<and> fp_heights s1 ! c < fp_heights s1 ! i" if "c < n" "fo_parents fo ! c = Some i" for c
          using s1(5) [of c] that lineage_children [OF lin i] ch by simp
        have "prints_ok fo n ?l"
          by (rule prints_ok_leave [OF s1(1) lin i _ s1(3) _ kids]) (use False s1(4) in auto)
        moreover have l: "length (fp_colors s1) = n" using s1(1) by (simp add: prints_ok_def)
        then have "fp_colors ?l ! i = Black" using i by (simp add: leave_def)
        moreover have "extends n {} s ?l"
          unfolding extends_def
        proof (intro allI impI)
          fix g assume g: "g < n"
          show "(fp_colors ?l ! g = Gray \<longleftrightarrow> fp_colors s ! g = Gray) \<and> (fp_colors s ! g = Black \<longrightarrow> fp_colors ?l ! g = Black)
            \<and> (g \<notin> {} \<longrightarrow> fp_colors s ! g \<noteq> White \<longrightarrow> fp_heights ?l ! g = fp_heights s ! g)"
          proof (cases "g = i")
            case True
            then show ?thesis using White i l by (simp add: leave_def)
          next
            case False
            then show ?thesis using s1(2) g e(3) [OF False] e(4) [OF False] by (simp add: extends_def leave_def)
          qed
        qed
        ultimately show ?thesis using False by (simp add: run Inr r)
      qed
    qed
  qed
next
  case (2 U spans children i s)
  then show ?case by simp
next
  case (3 U spans children i c cs s)
  note i = 3(3) and cs = 3(4) and ok = 3(5) and gray = 3(6) and path = 3(7) and h = 3(8) and ch = 3(9)
  have c: "c < n" "fo_parents fo ! c = Some i" using cs by simp_all
  have cpath: "on_path fo n 1 c s"
    unfolding on_path_def
  proof (intro allI impI)
    fix g assume "g < n" "fp_colors s ! g = Gray"
    then obtain k where "ancestor fo k i = Some g" using path by (auto simp: on_path_def)
    then have "ancestor fo (Suc k) c = Some g" using ancestor_parent [OF c(2)] by simp
    then show "\<exists>k\<ge>1. ancestor fo k c = Some g" by (intro exI [of _ "Suc k"]) simp
  qed
  note IH1 = 3(1) [OF c(1) ok cpath ch]
  show ?case
  proof (cases "fingerprint U spans children c s")
    case (Inl err)
    with IH1 show ?thesis by simp
  next
    case (Inr r)
    obtain f s1 where r: "r = (f, s1)" by (cases r)
    have s1: "prints_ok fo n s1" "fp_colors s1 ! c = Black" "extends n {} s s1" using IH1 Inr r by simp_all
    let ?r = "raise_height i c s1"
    have len: "length (fp_heights s1) = n" using s1(1) by (simp add: prints_ok_def)
    note hr = raise_height_nth [OF len i]
    have g1: "fp_colors s1 ! i = Gray" "fp_heights s1 ! i = fp_heights s ! i" using s1(3) gray i by (simp_all add: extends_def)
    have ci: "c \<noteq> i" using g1(1) s1(2) by auto
    have rok: "prints_ok fo n ?r" by (rule prints_ok_raise [OF s1(1) i g1(1)])
    have rext: "extends n {i} s ?r"
      by (rule extends_trans [OF extends_mono [OF s1(3)]]) (simp_all add: extends_def hr)
    have "height_ok fo n (fp_heights s1 ! c) c" using s1(1,2) c(1) by (simp add: prints_ok_def)
    then have rh: "height_ok fo n (fp_heights ?r ! i) i"
      using h height_child [OF _ c(2)] by (simp add: hr g1(2) max_def)
    have low: "fp_heights ?r ! c < fp_heights ?r ! i" using ci by (simp add: hr)
    have rpath: "on_path fo n 0 i ?r" by (rule on_path_extends [OF path rext])
    have rc: "fp_colors ?r ! i = Gray" "fp_colors ?r ! c = Black" using g1(1) s1(2) by simp_all
    have rest: "\<forall>c \<in> set cs. c < n \<and> fo_parents fo ! c = Some i" using cs by simp
    note IH2 = 3(2) [OF Inr r [symmetric] i rest rok rc(1) rpath rh ch]
    show ?thesis
    proof (cases "fingerprintChildren U spans children i cs ?r")
      case Inl2: (Inl err)
      with IH2 show ?thesis by (simp add: Inr r)
    next
      case Inr2: (Inr q)
      obtain fs s2 where q: "q = (fs, s2)" by (cases q)
      have s2: "prints_ok fo n s2" "extends n {i} ?r s2" "height_ok fo n (fp_heights s2 ! i) i"
        "fp_heights ?r ! i \<le> fp_heights s2 ! i"
        "\<forall>c \<in> set cs. fp_colors s2 ! c = Black \<and> fp_heights s2 ! c < fp_heights s2 ! i"
        using IH2 Inr2 q by simp_all
      have "fp_colors s2 ! c = Black" "fp_heights s2 ! c = fp_heights ?r ! c"
        using s2(2) c(1) rc(2) ci by (simp_all add: extends_def)
      moreover have "fp_heights s ! i \<le> fp_heights ?r ! i" by (simp add: hr g1(2))
      ultimately show ?thesis
        using s2 extends_trans [OF rext s2(2)] low by (simp add: Inr r Inr2 q)
    qed
  qed
qed

text \<open>The loop over all spans\<close>

abbreviation no_prints :: "nat \<Rightarrow> prints" where
  "no_prints n \<equiv> \<lparr>fp_colors = replicate n White, fp_prints = replicate n [], fp_heights = replicate n 0\<rparr>"

lemma searches_ok:
  assumes lin: "lineage_ok fo n"
  shows "set is \<subseteq> {..<n} \<Longrightarrow> prints_ok fo n s \<Longrightarrow> (\<forall>g<n. fp_colors s ! g \<noteq> Gray) \<Longrightarrow>
    (case res_fold (\<lambda>i s. res_bind (fingerprint U spans (fo_children fo) i s) (\<lambda>(_, s). Inr s)) is s of
       Inl e \<Rightarrow> too_deep fo n
     | Inr t \<Rightarrow> prints_ok fo n t \<and> (\<forall>g<n. fp_colors t ! g \<noteq> Gray) \<and> (\<forall>g<n. fp_colors s ! g = Black \<longrightarrow> fp_colors t ! g = Black)
         \<and> (\<forall>i \<in> set is. fp_colors t ! i = Black))"
proof (induction "is" arbitrary: s)
  case (Cons i "is")
  have i: "i < n" using Cons.prems(1) by simp
  have path: "on_path fo n 1 i s" using Cons.prems(3) by (simp add: on_path_def)
  note one = search_ok(1) [OF lin i Cons.prems(2) path refl, of U spans]
  show ?case
  proof (cases "fingerprint U spans (fo_children fo) i s")
    case (Inl err)
    with one show ?thesis by simp
  next
    case (Inr r)
    obtain f t where r: "r = (f, t)" by (cases r)
    have t: "prints_ok fo n t" "fp_colors t ! i = Black" "extends n {} s t" using one Inr r by simp_all
    have "\<forall>g<n. fp_colors t ! g \<noteq> Gray" using t(3) Cons.prems(3) by (simp add: extends_def)
    with Cons.IH [OF _ t(1)] Cons.prems(1)
    have rest: "case res_fold (\<lambda>i s. res_bind (fingerprint U spans (fo_children fo) i s) (\<lambda>(_, s). Inr s)) is t of
       Inl e \<Rightarrow> too_deep fo n
     | Inr u \<Rightarrow> prints_ok fo n u \<and> (\<forall>g<n. fp_colors u ! g \<noteq> Gray) \<and> (\<forall>g<n. fp_colors t ! g = Black \<longrightarrow> fp_colors u ! g = Black)
         \<and> (\<forall>i \<in> set is. fp_colors u ! i = Black)" by simp
    show ?thesis
      using rest t i by (auto simp: Inr r extends_def split: sum.splits)
  qed
qed simp

lemma no_prints_ok: "prints_ok fo n (no_prints n)"
  by (simp add: prints_ok_def)

lemma upt_below: "set [0..<n] \<subseteq> {..<n}"
  by auto

lemma fingerprintAll_fails:
  assumes "lineage_ok fo (length spans)" "fingerprintAll U spans (fo_children fo) = Inl e"
  shows "too_deep fo (length spans)"
  using assms(2) searches_ok [OF assms(1) upt_below no_prints_ok, of U spans]
  by (auto simp: fingerprintAll_def res_bind_Inl_iff Let_def split: sum.splits)

lemma fingerprintAll_succeeds:
  assumes lin: "lineage_ok fo (length spans)" and run: "fingerprintAll U spans (fo_children fo) = Inr prints"
  shows "length prints = length spans" "\<not> too_deep fo (length spans)"
proof -
  let ?n = "length spans"
  obtain t where t: "res_fold (\<lambda>i s. res_bind (fingerprint U spans (fo_children fo) i s) (\<lambda>(_, s). Inr s)) [0..<?n] (no_prints ?n) = Inr t"
    "prints = fp_prints t"
    using run by (auto simp: fingerprintAll_def res_bind_Inr_iff Let_def)
  have ok: "prints_ok fo ?n t" "\<forall>i<?n. fp_colors t ! i = Black"
    using searches_ok [OF lin upt_below no_prints_ok, of U spans] t(1) by auto
  show "length prints = ?n" using ok(1) t(2) by (simp add: prints_ok_def)
  show "\<not> too_deep fo ?n"
  proof
    assume "too_deep fo ?n"
    then obtain j a where j: "j < ?n" "ancestor fo 128 j = Some a" by (auto simp: too_deep_def)
    have "a < ?n" by (rule ancestor_less [OF lin j])
    then have "fp_heights t ! a \<le> 128" "128 < fp_heights t ! a" using ok j by (auto simp: prints_ok_def)
    then show False by simp
  qed
qed

lemma fingerprint_depth:
  assumes lin: "lineage_ok fo (length spans)"
  shows "(\<exists>prints. fingerprintAll U spans (fo_children fo) = Inr prints)
    \<longleftrightarrow> (\<forall>i<length spans. ancestor fo maxLevels i = None)"
proof (cases "fingerprintAll U spans (fo_children fo)")
  case (Inl e)
  with fingerprintAll_fails [OF lin] show ?thesis by (auto simp: too_deep_def maxLevels_def)
next
  case (Inr prints)
  with fingerprintAll_succeeds(2) [OF lin Inr] show ?thesis by (auto simp: too_deep_def maxLevels_def)
qed

text \<open>C17. \<open>fingerprint\<close> always returns, and accepts a capture exactly when no span has
  \<open>maxLevels\<close> ancestors: when following the parents from each span ends within that many steps, so
  cycles and traces that are too deep are both rejected, and nothing else is.\<close>

theorem fingerprint_accepts_iff:
  assumes "indexSpans U spans = Inr ix" "fo = linkParents ix (length spans)"
  shows "(\<exists>prints. fingerprintAll U spans (fo_children fo) = Inr prints)
    \<longleftrightarrow> (\<forall>i<length spans. ancestor fo maxLevels i = None)"
  using fingerprint_depth [of fo spans U] linkParents_ok [OF indexSpans_ok [OF assms(1)]] assms(2) by simp

text \<open>A span that names itself as its parent is a cycle.\<close>

lemma ex_identity [simp]:
  "identity U (JString ''0123456789abcdef0123456789abcdef'') 16 False = Inr ''0123456789abcdef0123456789abcdef''"
  "identity U (JString ''0000000000000001'') 8 b = Inr ''0000000000000001''"
  "identity U (JString []) 8 True = Inr []"
  by (simp_all add: identity_def identityText_def lower_byte_def Let_def hex_decodes_def is_hex_def is_lower_hex_def
      is_digit_def trim_set_def)

lemma go_get0_Nil [simp]: "go_get0 z [] k = z"
  by (simp add: go_get0_def)

definition ex_loop :: CapturedSpan where
  "ex_loop = newSpan 0 0 [(''traceId'', JString ''0123456789abcdef0123456789abcdef''),
     (''spanId'', JString ''0000000000000001''), (''parentSpanId'', JString ''0000000000000001'')]"

lemma fingerprint_accepts_iff_witness:
  "\<exists>ix. indexSpans plain_tables [ex_loop] = Inr ix
     \<and> \<not> (\<exists>prints. fingerprintAll plain_tables [ex_loop] (fo_children (linkParents ix 1)) = Inr prints)"
proof -
  have m: "member (cs_fields ex_loop) ''traceId'' = JString ''0123456789abcdef0123456789abcdef''"
    "member (cs_fields ex_loop) ''spanId'' = JString ''0000000000000001''"
    "member (cs_fields ex_loop) ''parentSpanId'' = JString ''0000000000000001''"
    by (simp_all add: ex_loop_def newSpan_def go_get0_def)
  obtain ix where ix: "indexSpans plain_tables [ex_loop] = Inr ix" "parentOf ix 0 = Some 0"
    by (simp add: indexSpans_def identifySpan_def m no_index_def Let_def parentOf_def spanID_key_def)
  have "index_ok ix 1" using indexSpans_ok [OF ix(1)] by simp
  from linkParents_eq(3) [OF this, of 0] ix(2) have "fo_parents (linkParents ix 1) ! 0 = Some 0" by simp
  then have "ancestor (linkParents ix 1) k 0 = Some 0" for k by (induction k) auto
  with fingerprint_accepts_iff [OF ix(1) refl] ix(1) show ?thesis by simp
qed

end
