(* ===== verification/CaptureSpec.thy ===== *)
theory CaptureSpec
  imports Lineage
begin

text \<open>
  What \<open>DecodeCapture\<close> promises: its shape shows every captured span exactly once, whatever the
  labels of link targets are and in whichever order Go ranges over the traces.
\<close>

section \<open>Occurrences\<close>

fun occurrences :: "SpanGroup \<Rightarrow> nat list" where
  "occurrences (SpanGroup _ _ _ _ _ _ (SpanNode occ _ _ _ _ _ children)) = occ @ concat (map occurrences children)"

abbreviation all_occurrences :: "SpanGroup list \<Rightarrow> nat list" where
  "all_occurrences gs \<equiv> concat (map occurrences gs)"

definition shapeOccurrences :: "TraceGroup list \<Rightarrow> nat list" where
  "shapeOccurrences traces = concat (map (\<lambda>g. all_occurrences (tg_roots g)) traces)"

text \<open>The spans within \<open>k\<close> levels below a span, with itself\<close>

fun below :: "nat \<Rightarrow> lineage \<Rightarrow> nat \<Rightarrow> nat multiset" where
  "below 0 fo i = {#}"
| "below (Suc k) fo i = add_mset i (\<Sum>\<^sub># (image_mset (below k fo) (mset (fo_children fo ! i))))"

lemma sorted_keys_cong: "set xs = set ys \<Longrightarrow> sort (remdups xs) = sort (remdups ys)"
  by (rule properties_for_sort) (simp_all add: set_eq_iff_mset_remdups_eq)

lemma sum_one_class:
  "distinct keys \<Longrightarrow> (\<Sum>key\<leftarrow>keys. (if v = key then M else {#})) = (if v \<in> set keys then M else {#})"
  by (induction keys) auto

text \<open>Sorting into classes by a key loses and repeats nothing.\<close>

lemma classes_complete:
  assumes "distinct keys" "f ` set xs \<subseteq> set keys"
  shows "(\<Sum>key\<leftarrow>keys. mset (filter (\<lambda>x. f x = key) xs)) = mset xs"
  using assms
proof (induction xs)
  case (Cons x xs)
  have "(\<Sum>key\<leftarrow>keys. mset (filter (\<lambda>y. f y = key) (x # xs)))
      = (\<Sum>key\<leftarrow>keys. (if f x = key then {#x#} else {#})) + (\<Sum>key\<leftarrow>keys. mset (filter (\<lambda>y. f y = key) xs))"
    by (subst sum_list_addf [symmetric]) (rule arg_cong [where f = sum_list], rule map_cong, simp_all)
  moreover have "(\<Sum>key\<leftarrow>keys. (if f x = key then {#x#} else {#})) = {#x#}"
    using Cons.prems by (simp add: sum_one_class)
  ultimately show ?case using Cons by simp
qed simp

lemma sum_image_sum_list:
  "(\<Sum>x\<leftarrow>xs. \<Sum>\<^sub># (image_mset g (M x))) = \<Sum>\<^sub># (image_mset g (\<Sum>x\<leftarrow>xs. M x))"
  by (induction xs) simp_all

lemma mset_concat_map: "mset (concat (map f xs)) = \<Sum>\<^sub># (image_mset (\<lambda>x. mset (f x)) (mset xs))"
  by (induction xs) simp_all

section \<open>Groups\<close>

lemma groupKey_cong: "mset xs = mset ys \<Longrightarrow> groupKey d parts xs = groupKey d parts ys"
proof (rule ext)
  fix i assume m: "mset xs = mset ys"
  have "length (filter P xs) = length (filter P ys)" for P
    using arg_cong [OF m, of "\<lambda>m. size (filter_mset P m)"] by (simp flip: mset_filter)
  then show "groupKey d parts xs i = groupKey d parts ys i" by (simp add: groupKey_def)
qed

lemma groups_cong:
  assumes "mset xs = mset ys"
  shows "groups k d parts xs = groups k d parts ys"
proof (cases k)
  case (Suc m)
  have "set xs = set ys" using assms by (rule mset_eq_setD)
  then have keys: "sort (remdups (map (groupKey d parts xs) xs)) = sort (remdups (map (groupKey d parts xs) ys))"
    by (intro sorted_keys_cong) simp
  have occ: "sort (filter P xs) = sort (filter P ys)" for P
    using assms by (intro properties_for_sort) simp_all
  show ?thesis unfolding Suc groups.simps keys occ groupKey_cong [OF assms, symmetric] ..
qed simp

text \<open>The groups of some spans show these spans and all spans within the levels below them.\<close>

lemma groups_occurrences:
  "mset (all_occurrences (groups k d parts indices)) = \<Sum>\<^sub># (image_mset (below k (cp_lineage d)) (mset indices))"
proof (induction k arbitrary: indices)
  case (Suc k)
  let ?key = "groupKey d parts indices" and ?fo = "cp_lineage d"
  let ?keys = "sort (remdups (map ?key indices))" and ?occ = "\<lambda>key. filter (\<lambda>i. ?key i = key) indices"
  let ?D = "\<lambda>is. \<Sum>\<^sub># (image_mset (below (Suc k) ?fo) (mset is))"
  have add: "?D xs = mset xs + \<Sum>\<^sub># (image_mset (below k ?fo) (mset (concat (map (cp_children d) xs))))" for xs
    by (induction xs) (simp_all add: ac_simps)
  have one: "mset (occurrences (SpanGroup c True 0 0 [] [] (SpanNode occ [] a [] b []
      (groups k d parts (concat (map (cp_children d) occ)))))) = ?D occ" for occ a b c
    by (simp add: add Suc.IH)
  have all: "mset (all_occurrences (map G keys)) = (\<Sum>key\<leftarrow>keys. mset (occurrences (G key)))" for G and keys :: "string list"
    by (induction keys) simp_all
  have "mset (all_occurrences (groups (Suc k) d parts indices)) = (\<Sum>key\<leftarrow>?keys. ?D (sort (?occ key)))"
    unfolding groups.simps all Let_def one ..
  also have "\<dots> = (\<Sum>key\<leftarrow>?keys. \<Sum>\<^sub># (image_mset (below (Suc k) ?fo) (mset (?occ key))))"
    by (simp del: below.simps)
  also have "\<dots> = \<Sum>\<^sub># (image_mset (below (Suc k) ?fo) (\<Sum>key\<leftarrow>?keys. mset (?occ key)))"
    by (rule sum_image_sum_list)
  also have "(\<Sum>key\<leftarrow>?keys. mset (?occ key)) = mset indices"
    by (rule classes_complete) simp_all
  finally show ?case .
qed simp

section \<open>Every span has one place\<close>

text \<open>A span is below \<open>a\<close> as often as \<open>a\<close> is among its next ancestors.\<close>

lemma sum_indicator_filter:
  "(\<Sum>c\<leftarrow>filter P [0..<n]. if x = Some c then 1 else 0) = (case x of Some c \<Rightarrow> if c < n \<and> P c then 1 else (0 :: nat) | None \<Rightarrow> 0)"
  by (induction n) (auto split: option.splits)

lemma below_count:
  assumes lin: "lineage_ok fo n"
  shows "a < n \<Longrightarrow> i < n \<Longrightarrow> count (below k fo a) i = (\<Sum>m<k. if ancestor fo m i = Some a then 1 else 0)"
proof (induction k arbitrary: a)
  case (Suc k)
  let ?cs = "filter (\<lambda>c. fo_parents fo ! c = Some a) [0..<n]"
  have cs: "fo_children fo ! a = ?cs" by (rule lineage_children [OF lin Suc.prems(1)])
  have list: "count (\<Sum>\<^sub># (image_mset (below k fo) (mset cs))) i = (\<Sum>c\<leftarrow>cs. count (below k fo c) i)" for cs
    by (induction cs) simp_all
  have "(\<Sum>c\<leftarrow>?cs. count (below k fo c) i) = (\<Sum>c\<leftarrow>?cs. \<Sum>m<k. if ancestor fo m i = Some c then 1 else 0)"
    by (rule arg_cong [where f = sum_list], rule map_cong [OF refl], rule Suc.IH) (use Suc.prems in auto)
  also have "\<dots> = (\<Sum>m<k. \<Sum>c\<leftarrow>?cs. if ancestor fo m i = Some c then 1 else 0)"
    by (simp add: sum_list_sum_nth sum.swap [of _ _ "{..<k}"])
  also have "\<dots> = (\<Sum>m<k. if ancestor fo (Suc m) i = Some a then 1 else 0)"
  proof (rule sum.cong [OF refl])
    fix m
    show "(\<Sum>c\<leftarrow>?cs. if ancestor fo m i = Some c then 1 else 0) = (if ancestor fo (Suc m) i = Some a then 1 else (0 :: nat))"
      unfolding sum_indicator_filter
      by (cases "ancestor fo m i") (auto dest: ancestor_less [OF lin Suc.prems(2)])
  qed
  finally have kids: "(\<Sum>c\<leftarrow>?cs. count (below k fo c) i) = (\<Sum>m<k. if ancestor fo (Suc m) i = Some a then 1 else 0)" .
  have "(\<Sum>m<Suc k. if ancestor fo m i = Some a then 1 else 0 :: nat)
      = (if ancestor fo 0 i = Some a then 1 else 0) + (\<Sum>m<k. if ancestor fo (Suc m) i = Some a then 1 else 0)"
    by (rule sum.lessThan_Suc_shift)
  moreover have "count (below (Suc k) fo a) i = (if ancestor fo 0 i = Some a then 1 else 0) + (\<Sum>c\<leftarrow>?cs. count (below k fo c) i)"
    unfolding below.simps cs count_add_mset list by simp
  ultimately show ?case unfolding kids by (simp only:)
qed simp

text \<open>The roots: exactly one of them is an ancestor, at exactly one distance.\<close>

lemma below_roots:
  assumes lin: "lineage_ok fo n" and deep: "\<And>i. i < n \<Longrightarrow> ancestor fo k i = None"
  shows "\<Sum>\<^sub># (image_mset (below k fo) (mset (filter (\<lambda>i. fo_parents fo ! i = None) [0..<n]))) = mset [0..<n]"
proof (rule multiset_eqI)
  fix i
  let ?roots = "filter (\<lambda>i. fo_parents fo ! i = None) [0..<n]"
  have list: "count (\<Sum>\<^sub># (image_mset (below k fo) (mset cs))) i = (\<Sum>c\<leftarrow>cs. count (below k fo c) i)" for cs
    by (induction cs) simp_all
  have in_range: "j \<in># below m fo a \<Longrightarrow> a < n \<Longrightarrow> j < n" for j m a
    by (induction m arbitrary: a) (auto simp: lineage_children [OF lin])
  show "count (\<Sum>\<^sub># (image_mset (below k fo) (mset ?roots))) i = count (mset [0..<n]) i"
  proof (cases "i < n")
    case False
    then have "\<forall>c \<in> set ?roots. count (below k fo c) i = 0"
      using in_range by (auto simp: count_eq_zero_iff)
    then have "(\<Sum>c\<leftarrow>?roots. count (below k fo c) i) = 0" by (simp add: sum_list_eq_0_iff)
    moreover have "count (mset [0..<n]) i = 0" using False by (simp add: count_eq_zero_iff)
    ultimately show ?thesis by (simp only: list)
  next
    case True
    let ?K = "LEAST m. ancestor fo m i = None"
    have none: "ancestor fo ?K i = None" by (rule LeastI [of _ k]) (rule deep [OF True])
    have some: "ancestor fo m i \<noteq> None \<longleftrightarrow> m < ?K" for m
    proof
      assume "ancestor fo m i \<noteq> None"
      then show "m < ?K" using ancestor_mono [of fo m i ?K] none by (meson not_le)
    qed (rule not_less_Least)
    obtain K where K: "?K = Suc K" using none by (cases ?K) auto
    have K_k: "K < k" using some [of k] deep [OF True] K by simp
    have root: "(case ancestor fo m i of Some c \<Rightarrow> if c < n \<and> fo_parents fo ! c = None then 1 else 0 | None \<Rightarrow> 0)
        = (if m = K then 1 else (0 :: nat))" for m
      using some [of m] some [of "Suc m"] K by (cases "m = K") (auto split: option.splits dest: ancestor_less [OF lin True])
    have "(\<Sum>c\<leftarrow>?roots. count (below k fo c) i) = (\<Sum>c\<leftarrow>?roots. \<Sum>m<k. if ancestor fo m i = Some c then 1 else 0)"
      by (rule arg_cong [where f = sum_list], rule map_cong [OF refl], rule below_count [OF lin _ True]) simp
    also have "\<dots> = (\<Sum>m<k. \<Sum>c\<leftarrow>?roots. if ancestor fo m i = Some c then 1 else 0)"
      by (simp add: sum_list_sum_nth sum.swap [of _ _ "{..<k}"])
    also have "\<dots> = (\<Sum>m<k. if m = K then 1 else 0)"
      unfolding sum_indicator_filter root ..
    also have "\<dots> = 1" using K_k by simp
    finally have "(\<Sum>c\<leftarrow>?roots. count (below k fo c) i) = 1" .
    moreover have "count (mset [0..<n]) i = 1" using True by (simp add: distinct_count_atmost_1 [THEN iffD1])
    ultimately show ?thesis by (simp only: list)
  qed
qed

section \<open>Traces\<close>

lemma traces_complete:
  assumes "index_ok ix n"
  shows "mset (concat (map snd (ix_traces ix))) = mset [0..<n]"
proof -
  let ?m = "ix_traces ix"
  have m: "go_map ?m" "\<And>t. go_get0 [] ?m t = filter (\<lambda>i. ix_traceIDs ix ! i = t) [0..<n]"
    using assms by (simp_all add: index_ok_def)
  have entry: "l = filter (\<lambda>i. ix_traceIDs ix ! i = t) [0..<n]" if "(t, l) \<in> set ?m" for t l
    using m(2) [of t] that m(1) by (simp add: go_get0_def go_map_def go_keys_def)
  have "mset (concat (map snd ?m)) = (\<Sum>e\<leftarrow>?m. mset (snd e))" by (simp add: mset_concat comp_def)
  also have "\<dots> = (\<Sum>e\<leftarrow>?m. mset (filter (\<lambda>i. ix_traceIDs ix ! i = fst e) [0..<n]))"
  proof (rule arg_cong [where f = sum_list], rule map_cong [OF refl])
    fix e assume "e \<in> set ?m"
    then show "mset (snd e) = mset (filter (\<lambda>i. ix_traceIDs ix ! i = fst e) [0..<n])"
      using entry [of "fst e" "snd e"] by simp
  qed
  also have "\<dots> = (\<Sum>t\<leftarrow>go_keys ?m. mset (filter (\<lambda>i. ix_traceIDs ix ! i = t) [0..<n]))"
    by (simp add: go_keys_def comp_def)
  also have "\<dots> = mset [0..<n]"
  proof (rule classes_complete)
    show "distinct (go_keys ?m)" using m(1) by (simp add: go_map_def)
    have "ix_traceIDs ix ! i \<in> set (go_keys ?m)" if "i < n" for i
    proof -
      have "i \<in> set (go_get0 [] ?m (ix_traceIDs ix ! i))" using that by (simp add: m(2))
      then have "go_get ?m (ix_traceIDs ix ! i) \<noteq> None" by (cases "go_get ?m (ix_traceIDs ix ! i)") (simp_all add: go_get0_def)
      then show ?thesis by (simp add: go_keys_dom domIff)
    qed
    then show "(!) (ix_traceIDs ix) ` set [0..<n] \<subseteq> set (go_keys ?m)" by auto
  qed
  finally show ?thesis .
qed

text \<open>The structures the loop over the traces builds: one per key, with the traces that have it.\<close>

definition structureOf :: "captured \<Rightarrow> nat list list \<Rightarrow> string \<Rightarrow> traceStructure" where
  "structureOf d traces key =
     (let same = filter (\<lambda>t. structureKey d t = key) traces
      in \<lparr>ts_roots = concat (map (traceRoots d) same), ts_count = length same, ts_coverage = traceCoverage d (hd same)\<rparr>)"

lemma addStructure_eq:
  assumes u: "\<And>k. go_get u k = (if k \<in> structureKey d ` set traces then Some (structureOf d traces k) else None)"
  shows "go_get (addStructure d t u) key
    = (if key \<in> structureKey d ` set (traces @ [t]) then Some (structureOf d (traces @ [t]) key) else None)"
proof -
  let ?same = "filter (\<lambda>s. structureKey d s = structureKey d t) traces"
  have empty: "?same = [] \<longleftrightarrow> structureKey d t \<notin> structureKey d ` set traces"
    by (auto simp: filter_empty_conv image_iff)
  show ?thesis
  proof (cases "structureKey d t \<in> structureKey d ` set traces")
    case True
    then have "hd (?same @ [t]) = hd ?same" using empty by (simp add: hd_append)
    then show ?thesis using True by (simp add: addStructure_def Let_def u go_get_put structureOf_def)
  next
    case False
    then have "?same = []" using empty by simp
    then show ?thesis using False by (simp add: addStructure_def Let_def u go_get_put structureOf_def)
  qed
qed

lemma structures_eq:
  "go_map (fold (addStructure d) traces [])"
  "go_get (fold (addStructure d) traces []) key
      = (if key \<in> structureKey d ` set traces then Some (structureOf d traces key) else None)"
proof (induction traces arbitrary: key rule: rev_induct)
  case Nil
  {
    case 1
    show ?case by (simp add: go_map_def go_keys_def)
  next
    case 2
    show ?case by simp
  }
next
  case (snoc t traces)
  {
    case 1
    show ?case using snoc(1) by (simp add: addStructure_def Let_def go_map_put)
  next
    case 2
    show ?case using addStructure_eq [OF snoc(2)] by simp
  }
qed

lemma structureKey_coverage:
  assumes "structureKey d s = structureKey d t"
  shows "traceCoverage d s = traceCoverage d t"
proof -
  have c: "traceCoverage d t = ''partial'' \<or> traceCoverage d t = ''complete''" for t
    by (simp add: traceCoverage_def Let_def)
  show ?thesis using c [of s] c [of t] assms unfolding structureKey_def by (elim disjE) simp_all
qed

text \<open>C20. The shape does not depend on the order in which Go ranges over the traces of the capture.\<close>

theorem trace_order_irrelevant:
  assumes perm: "mset traces = mset traces'"
  shows "traceGroups d parts traces = traceGroups d parts traces'"
proof -
  let ?s = "fold (addStructure d) traces []" and ?s' = "fold (addStructure d) traces' []"
  have set: "set traces = set traces'" using perm by (rule mset_eq_setD)
  have dom: "set (go_keys (fold (addStructure d) ts [])) = structureKey d ` set ts" for ts
    unfolding go_keys_dom dom_def structures_eq(2) by simp
  have keys: "sort (go_keys ?s) = sort (go_keys ?s')"
    using structures_eq(1) [of d traces] structures_eq(1) [of d traces'] dom [of traces] dom [of traces'] set
    by (intro properties_for_sort) (simp_all add: go_map_def set_eq_iff_mset_eq_distinct [symmetric])
  have group: "traceGroup d parts (structureOf d traces key) = traceGroup d parts (structureOf d traces' key)"
    if key: "key \<in> structureKey d ` set traces" for key
  proof -
    let ?f = "filter (\<lambda>t. structureKey d t = key)"
    have m: "mset (?f traces) = mset (?f traces')" using perm by simp
    have "mset (concat (map (traceRoots d) (?f traces))) = mset (concat (map (traceRoots d) (?f traces')))"
      unfolding mset_concat_map m ..
    then have "groups maxLevels d parts (concat (map (traceRoots d) (?f traces)))
        = groups maxLevels d parts (concat (map (traceRoots d) (?f traces')))" by (rule groups_cong)
    moreover have "length (?f traces) = length (?f traces')" using m by (rule mset_eq_length)
    moreover have "traceCoverage d (hd (?f traces)) = traceCoverage d (hd (?f traces'))"
    proof -
      have ne: "?f traces \<noteq> []" "?f traces' \<noteq> []" using key set by (auto simp: filter_empty_conv)
      have "structureKey d (hd (?f traces)) = structureKey d (hd (?f traces'))"
        using hd_in_set [OF ne(1)] hd_in_set [OF ne(2)] by simp
      then show ?thesis by (rule structureKey_coverage)
    qed
    ultimately show ?thesis by (simp add: traceGroup_def structureOf_def Let_def)
  qed
  show ?thesis
    unfolding traceGroups_def Let_def keys
    by (rule map_cong [OF refl]) (use group set dom [of traces'] in \<open>auto simp: structures_eq(2)\<close>)
qed

definition ex_captured :: captured where
  "ex_captured = \<lparr>cp_resources = [], cp_scopes = [], cp_spans = [newSpan 0 0 [], newSpan 0 0 []],
     cp_index = no_index\<lparr>ix_traceIDs := [''a'', ''b''], ix_parentIDs := [[], ''c'']\<rparr>,
     cp_lineage = \<lparr>fo_parents = [None, None], fo_children = [[], []], fo_anchors = {}\<rparr>, cp_prints = [''x'', ''y'']\<rparr>"

lemma trace_order_irrelevant_witness:
  "traceGroups ex_captured (\<lambda>_. []) [[0], [1]] = traceGroups ex_captured (\<lambda>_. []) [[1], [0]]"
  by (rule trace_order_irrelevant) simp

section \<open>The shape of a capture\<close>

text \<open>Groups count their occurrences, which are in order and not empty.\<close>

fun exact_group :: "SpanGroup \<Rightarrow> bool" where
  "exact_group (SpanGroup c exact _ _ _ alts (SpanNode occ _ _ _ _ _ children)) \<longleftrightarrow>
     c = int (length occ) \<and> occ \<noteq> [] \<and> sorted occ \<and> exact \<and> alts = [] \<and> list_all exact_group children"

lemma sort_Nil [simp]: "sort xs = [] \<longleftrightarrow> xs = []"
  by (metis set_empty set_sort)

lemma size_filter_mset: "size (filter_mset P (mset xs)) = length (filter P xs)"
  by (simp flip: mset_filter)

lemma groups_exact: "list_all exact_group (groups k d parts indices)"
proof (induction k arbitrary: indices)
  case (Suc k)
  then show ?case by (auto simp: list_all_iff Let_def filter_empty_conv)
qed simp

lemma roots_concat: "concat (map (traceRoots d) traces) = traceRoots d (concat traces)"
  by (induction traces) (simp_all add: traceRoots_def)

lemma structures_partition:
  "(\<Sum>key\<leftarrow>sort (go_keys (fold (addStructure d) traces [])). mset (filter (\<lambda>t. structureKey d t = key) traces)) = mset traces"
proof (rule classes_complete)
  let ?s = "fold (addStructure d) traces []"
  show "distinct (sort (go_keys ?s))" using structures_eq(1) [of d traces] by (simp add: go_map_def)
  have "set (go_keys ?s) = structureKey d ` set traces"
    unfolding go_keys_dom dom_def structures_eq(2) by simp
  then show "structureKey d ` set traces \<subseteq> set (sort (go_keys ?s))" by simp
qed

lemma structures_get:
  "key \<in> set (sort (go_keys (fold (addStructure d) traces []))) \<Longrightarrow>
    the (go_get (fold (addStructure d) traces []) key) = structureOf d traces key"
  unfolding set_sort go_keys_dom dom_def mem_Collect_eq structures_eq(2) by (simp split: if_splits)

lemma traceGroups_eq:
  "traceGroups d parts traces = map (\<lambda>key. traceGroup d parts (structureOf d traces key))
     (sort (go_keys (fold (addStructure d) traces [])))"
  unfolding traceGroups_def Let_def by (rule map_cong [OF refl]) (simp only: structures_get)

lemma traceGroups_occurrences:
  "mset (shapeOccurrences (traceGroups d parts traces))
    = \<Sum>\<^sub># (image_mset (below maxLevels (cp_lineage d)) (mset (traceRoots d (concat traces))))"
proof -
  let ?keys = "sort (go_keys (fold (addStructure d) traces []))" and ?same = "\<lambda>key. filter (\<lambda>t. structureKey d t = key) traces"
  let ?B = "\<lambda>M. \<Sum>\<^sub># (image_mset (below maxLevels (cp_lineage d)) M)"
  have "mset (shapeOccurrences (map (\<lambda>key. traceGroup d parts (structureOf d traces key)) keys))
      = (\<Sum>key\<leftarrow>keys. ?B (mset (concat (map (traceRoots d) (?same key)))))" for keys
    by (induction keys) (simp_all add: shapeOccurrences_def traceGroup_def structureOf_def Let_def groups_occurrences)
  then have "mset (shapeOccurrences (traceGroups d parts traces))
      = (\<Sum>key\<leftarrow>?keys. ?B (mset (concat (map (traceRoots d) (?same key)))))" by (simp only: traceGroups_eq)
  also have "\<dots> = ?B (\<Sum>key\<leftarrow>?keys. \<Sum>\<^sub># (image_mset (\<lambda>t. mset (traceRoots d t)) (mset (?same key))))"
    unfolding sum_image_sum_list [symmetric] mset_concat_map ..
  also have "\<dots> = ?B (\<Sum>\<^sub># (image_mset (\<lambda>t. mset (traceRoots d t)) (mset traces)))"
    unfolding sum_image_sum_list structures_partition ..
  also have "\<dots> = ?B (mset (traceRoots d (concat traces)))"
    unfolding roots_concat [symmetric] mset_concat_map ..
  finally show ?thesis .
qed

lemma traceGroups_count: "(\<Sum>g\<leftarrow>traceGroups d parts traces. tg_count g) = int (length traces)"
proof -
  let ?keys = "sort (go_keys (fold (addStructure d) traces []))" and ?same = "\<lambda>key. filter (\<lambda>t. structureKey d t = key) traces"
  have "(\<Sum>key\<leftarrow>keys. tg_count (traceGroup d parts (structureOf d traces key))) = int (size (\<Sum>key\<leftarrow>keys. mset (?same key)))" for keys
    by (induction keys) (simp_all add: traceGroup_def structureOf_def Let_def size_filter_mset)
  then have "(\<Sum>g\<leftarrow>traceGroups d parts traces. tg_count g) = int (size (\<Sum>key\<leftarrow>?keys. mset (?same key)))"
    by (simp add: traceGroups_eq comp_def)
  then show ?thesis unfolding structures_partition by simp
qed

text \<open>Labels change the texts of the spans only.\<close>

lemma labelLinks_keeps:
  "labelLinks graphKeys U d = Inr d' \<Longrightarrow> cp_index d' = cp_index d \<and> cp_lineage d' = cp_lineage d
    \<and> map (\<lambda>s. (cs_resource s, cs_scope s, cs_fields s)) (cp_spans d') = map (\<lambda>s. (cs_resource s, cs_scope s, cs_fields s)) (cp_spans d)"
  by (auto simp: labelLinks_def res_bind_Inr_iff Let_def intro!: nth_equalityI)

lemma fold_labels:
  "map (\<lambda>s. (cs_resource s, cs_scope s, cs_fields s)) (fold (\<lambda>i spans. spans[i := (spans ! i)\<lparr>cs_traceRoots := a, cs_traceRootsWithoutScope := b\<rparr>]) is spans)
    = map (\<lambda>s. (cs_resource s, cs_scope s, cs_fields s)) spans"
proof (induction "is" arbitrary: spans)
  case (Cons i "is")
  have "map (\<lambda>s. (cs_resource s, cs_scope s, cs_fields s)) (spans[i := (spans ! i)\<lparr>cs_traceRoots := a, cs_traceRootsWithoutScope := b\<rparr>])
      = map (\<lambda>s. (cs_resource s, cs_scope s, cs_fields s)) spans"
    by (cases "i < length spans") (auto intro!: nth_equalityI simp: nth_list_update)
  with Cons.IH show ?case by simp
qed simp

lemma labelSpans_keeps:
  "cp_index (labelSpans U d) = cp_index d" "cp_lineage (labelSpans U d) = cp_lineage d"
  "map (\<lambda>s. (cs_resource s, cs_scope s, cs_fields s)) (cp_spans (labelSpans U d)) = map (\<lambda>s. (cs_resource s, cs_scope s, cs_fields s)) (cp_spans d)"
proof -
  have "map (\<lambda>s. (cs_resource s, cs_scope s, cs_fields s)) (fold (labelTrace d keys keys') traces spans)
      = map (\<lambda>s. (cs_resource s, cs_scope s, cs_fields s)) spans" for keys keys' traces spans
    by (induction traces arbitrary: spans) (simp_all add: labelTrace_def Let_def fold_labels)
  then show "map (\<lambda>s. (cs_resource s, cs_scope s, cs_fields s)) (cp_spans (labelSpans U d)) = map (\<lambda>s. (cs_resource s, cs_scope s, cs_fields s)) (cp_spans d)"
    by (auto simp: labelSpans_def Let_def intro!: nth_equalityI)
qed (simp_all add: labelSpans_def Let_def)

lemma analyseSpans_spec:
  assumes "analyseSpans graphKeys U rd = Inr d"
  obtains ix where "indexSpans U (rd_spans rd) = Inr ix" "cp_index d = ix" "cp_lineage d = linkParents ix (cp_count d)"
    "map (\<lambda>s. (cs_resource s, cs_scope s, cs_fields s)) (cp_spans d) = map (\<lambda>s. (cs_resource s, cs_scope s, cs_fields s)) (rd_spans rd)"
    "\<And>i. i < cp_count d \<Longrightarrow> ancestor (cp_lineage d) maxLevels i = None"
proof -
  let ?n = "length (rd_spans rd)"
  obtain ix prints where r: "indexSpans U (rd_spans rd) = Inr ix"
    "fingerprintAll U (rd_spans rd) (fo_children (linkParents ix ?n)) = Inr prints"
    "labelLinks graphKeys U \<lparr>cp_resources = rd_resources rd, cp_scopes = rd_scopes rd, cp_spans = rd_spans rd,
       cp_index = ix, cp_lineage = linkParents ix ?n, cp_prints = prints\<rparr> = Inr d"
    using assms by (auto simp: analyseSpans_def res_bind_Inr_iff Let_def)
  note k = labelLinks_keeps [OF r(3), simplified]
  have n: "cp_count d = ?n" using arg_cong [OF conjunct2 [OF conjunct2 [OF k]], of length] by simp
  have "\<And>i. i < ?n \<Longrightarrow> ancestor (linkParents ix ?n) maxLevels i = None"
    using fingerprintAll_succeeds(2) [OF linkParents_ok [OF indexSpans_ok [OF r(1)]] r(2)] by (auto simp: too_deep_def maxLevels_def)
  with r(1) k n show ?thesis by (intro that [of ix]) simp_all
qed

text \<open>Of a capture without a diagnostic, the shape shows every span once.\<close>

lemma capture_shape_spans:
  assumes "DecodeCapture graphKeys U floatText receipt stream e = data" "cd_diagnostics data = []"
  shows "mset (shapeOccurrences (ss_traces (cd_shape data))) = mset [0..<length (cd_spans data)]
    \<and> (\<forall>g \<in> set (ss_traces (cd_shape data)). tg_exact g \<and> tg_alts g = [] \<and> list_all exact_group (tg_roots g))
    \<and> (\<Sum>g\<leftarrow>ss_traces (cd_shape data). tg_count g) = ss_traceCount (cd_shape data)
    \<and> ss_spanCount (cd_shape data) = int (length (cd_spans data))"
proof -
  obtain rd d where d: "analyseSpans graphKeys U rd = Inr d"
    and data: "cd_spans data = cp_spans (labelSpans U d)" "ss_traces (cd_shape data) = captureTraces U d"
      "ss_traceCount (cd_shape data) = int (length (ix_traces (cp_index d)))" "ss_spanCount (cd_shape data) = int (cp_count d)"
    using assms by (auto simp: DecodeCapture_def dataset_def split: prod.splits option.splits sum.splits)
  obtain ix where ix: "indexSpans U (rd_spans rd) = Inr ix" "cp_index d = ix" "cp_lineage d = linkParents ix (cp_count d)"
    "map (\<lambda>s. (cs_resource s, cs_scope s, cs_fields s)) (cp_spans d) = map (\<lambda>s. (cs_resource s, cs_scope s, cs_fields s)) (rd_spans rd)"
    "\<And>i. i < cp_count d \<Longrightarrow> ancestor (cp_lineage d) maxLevels i = None"
    using analyseSpans_spec [OF d] by blast
  let ?n = "cp_count d" and ?l = "labelSpans U d"
  have n: "length (rd_spans rd) = ?n" using arg_cong [OF ix(4), of length] by simp
  have nl: "length (cp_spans ?l) = ?n" using arg_cong [OF labelSpans_keeps(3) [of U d], of length] by simp
  have ok: "index_ok ix ?n" using indexSpans_ok [OF ix(1)] n by simp
  have lin: "lineage_ok (cp_lineage d) ?n" using linkParents_ok [OF ok] ix(3) by simp
  have "mset (traceRoots ?l (concat (map snd (ix_traces ix)))) = mset (filter (\<lambda>i. cp_parent d i = None) [0..<?n])"
    unfolding traceRoots_def mset_filter traces_complete [OF ok] labelSpans_keeps(2) ..
  then have "mset (shapeOccurrences (captureTraces U d)) = mset [0..<?n]"
    using below_roots [OF lin ix(5)]
    by (simp only: captureTraces_def traceGroups_occurrences labelSpans_keeps(2) ix(2))
  moreover have "\<forall>g \<in> set (captureTraces U d). tg_exact g \<and> tg_alts g = [] \<and> list_all exact_group (tg_roots g)"
    by (auto simp: captureTraces_def traceGroups_eq traceGroup_def groups_exact)
  moreover have "(\<Sum>g\<leftarrow>captureTraces U d. tg_count g) = int (length (ix_traces (cp_index d)))"
    unfolding captureTraces_def traceGroups_count by simp
  ultimately show ?thesis by (simp add: data nl)
qed

end
