(* ===== verification/PlainShapes.thy ===== *)
theory PlainShapes
  imports AlignSpec CaptureSpec
begin

text \<open>
  Span and trace groups without alternatives at any depth. Each has one candidate, so the choice between
  candidates changes nothing; its scores are bounded by its number of groups; and the rows that
  \<open>matchSpans\<close> writes show every occurrence of either side once.
\<close>

section \<open>Groups without alternatives\<close>

text \<open>A group without alternatives at any depth has one candidate; so has every group of a capture.\<close>

fun plain_group :: "SpanGroup \<Rightarrow> bool" where
  "plain_group (SpanGroup n exact gmin gmax cardinality alts (SpanNode occ scope kind status name http children)) \<longleftrightarrow>
     alts = [] \<and> list_all plain_group children"

fun the_span :: "unicode_tables \<Rightarrow> SpanGroup \<Rightarrow> alignedSpan" where
  "the_span U (SpanGroup n exact gmin gmax cardinality alts (SpanNode occ scope kind status name http children)) =
     plain_span U (SpanGroup n exact gmin gmax cardinality alts (SpanNode occ scope kind status name http children))
       (map (the_span U) children)"

fun group_size :: "SpanGroup \<Rightarrow> nat" where
  "group_size (SpanGroup n exact gmin gmax cardinality alts (SpanNode occ scope kind status name http children)) =
     Suc (sum_list (map group_size children))"

abbreviation sg_children :: "SpanGroup \<Rightarrow> SpanGroup list" where
  "sg_children g \<equiv> sn_children (sg_span g)"

definition group_occ :: "SpanGroup \<Rightarrow> nat multiset" where
  "group_occ g = mset (all_occurrences [g])"

lemma plain_children: "plain_group g \<Longrightarrow> list_all plain_group (sg_children g)"
  by (cases g rule: plain_group.cases) simp

lemma group_size_eq: "group_size g = Suc (sum_list (map group_size (sg_children g)))"
  by (cases g rule: group_size.cases) simp

lemma the_span_simps [simp]:
  "as_node (the_span U g) = sg_span g" "as_children (the_span U g) = map (the_span U) (sg_children g)"
  "as_childGroups (the_span U g) = sg_children g"
  "as_childMatchKeys (the_span U g) = Some (canonicalChildMatchKeys (map (the_span U) (sg_children g)))"
  by (cases "(U, g)" rule: the_span.cases; simp add: plain_span_def split: prod.split)+

lemma group_induct [case_names group]:
  assumes "\<And>g. (\<And>h. h \<in> set (sg_children g) \<Longrightarrow> P h) \<Longrightarrow> P g"
  shows "P g"
proof (induction g rule: measure_induct_rule [where f = group_size])
  case (less g)
  show ?case
  proof (rule assms)
    fix h
    assume "h \<in> set (sg_children g)"
    then have "group_size h < group_size g"
      using member_le_sum_list [of "group_size h" "map group_size (sg_children g)"] by (simp add: group_size_eq [of g])
    then show "P h" by (rule less.IH)
  qed
qed

lemma best_candidate_single [simp]: "best_candidate [c] = [c]"
  by (simp add: best_candidate_def)

lemma resolve_plain: "plain_group g \<Longrightarrow> resolveSpanGroup U g = [the_span U g]"
proof (induction g rule: plain_group.induct)
  case (1 n exact gmin gmax cardinality alts occ scope kind status name http children)
  then have "concat (map (\<lambda>child. best_candidate (resolveSpanGroup U child)) children) = map (the_span U) children"
    by (induction children) (auto simp: best_candidate_def)
  with 1 show ?case by simp
qed

lemma candidates_plain: "list_all plain_group gs \<Longrightarrow> canonicalSpanCandidates U gs = map (the_span U) gs"
  by (induction gs) (simp_all add: canonicalSpanCandidates_def resolve_plain)

lemma bestSpanPair_plain:
  "plain_group g \<Longrightarrow> plain_group h \<Longrightarrow> bestSpanPair U score g h =
     (if score (the_span U g) (the_span U h) < 0 then None
      else Some (the_span U g, the_span U h, score (the_span U g) (the_span U h)))"
  by (simp add: bestSpanPair_def best_pair_def better_pair_def resolve_plain compatible_score_def)

lemma bestShallowSpanPair_plain:
  "plain_group g \<Longrightarrow> plain_group h \<Longrightarrow> bestShallowSpanPair U g h =
     (if shallow_overlap_score U (the_span U g) (the_span U h) < 0 then None
      else Some (the_span U g, the_span U h, shallow_overlap_score U (the_span U g) (the_span U h)))"
  by (simp add: bestShallowSpanPair_def best_pair_def better_pair_def resolve_plain compatible_score_def)

lemma canonical_pair:
  assumes i: "i < length leftKeys"
    and m: "fst (canonicalMaximumWeightMaximumCardinalityPairs leftKeys rightKeys score) ! i = Some j"
  shows "j < length rightKeys \<and> score i j \<noteq> None"
proof -
  let ?lo = "key_order leftKeys" and ?ro = "key_order rightKeys"
  let ?es = "score_table (length leftKeys) (length rightKeys) (\<lambda>i j. score (?lo ! i) (?ro ! j))"
  note lo = key_order_reordering [of leftKeys] and ro = key_order_reordering [of rightKeys]
  define sm where "sm = fst (maximumWeightMaximumCardinalityPairs (length leftKeys) (length rightKeys) ?es)"
  have len: "length sm = length leftKeys" by (simp add: sm_def)
  obtain i' where i': "i' < length leftKeys" "?lo ! i' = i" using reordering_surj [OF lo i] by blast
  have "fst (canonicalMaximumWeightMaximumCardinalityPairs leftKeys rightKeys score) = place_pairs ?lo ?ro sm"
    by (simp add: canonicalMaximumWeightMaximumCardinalityPairs_def Let_def sm_def split: prod.split)
  with m place_pairs_nth(2) [OF lo, of sm i' ?ro] i' len have "map_option ((!) ?ro) (sm ! i') = Some j" by simp
  then obtain j' where j': "sm ! i' = Some j'" "j = ?ro ! j'" by (cases "sm ! i'") auto
  have p: "j' < length rightKeys" "?es ! i' ! j' \<noteq> None"
    using chosen_pair [OF i'(1) j'(1) [unfolded sm_def]] by simp_all
  then have "score (?lo ! i') (?ro ! j') \<noteq> None" using i'(1) by (simp add: score_table_def)
  with i' j'(2) p(1) reordering_nth [OF ro p(1)] show ?thesis by simp
qed

text \<open>Choices that are already in place change nothing.\<close>

lemma put_choices_same:
  assumes "\<And>i j. i < length m \<Longrightarrow> m ! i = Some j \<Longrightarrow> \<exists>v. choice i j = Some (ls ! i, rs ! j, v)"
  shows "put_choices z choice m (ls, rs) = (ls, rs)"
proof -
  have "fold (put_choice z choice) ps (ls, rs) = (ls, rs)" if "set ps \<subseteq> set (List.enumerate 0 m)" for ps
    using that
  proof (induction ps)
    case (Cons p ps)
    obtain i r where p: "p = (i, r)" by (cases p)
    with Cons.prems have "i < length m" "m ! i = r" by (auto simp: in_set_enumerate_eq)
    with assms [of i] have "put_choice z choice p (ls, rs) = (ls, rs)"
      by (cases r) (force simp: put_choice_def p)+
    with Cons show ?case by simp
  qed simp
  then show ?thesis by (simp add: put_choices_def)
qed

lemma choose_plain:
  assumes ls: "list_all plain_group ls" and rs: "list_all plain_group rs"
    and same: "\<And>l r. score l r < 0 \<longleftrightarrow> shallow_overlap_score U l r < 0"
  shows "choosePairedCandidates U score ls rs = (map (the_span U) ls, map (the_span U) rs)"
proof -
  let ?edge = "\<lambda>i j. choice_score (if length ls + length rs > optimalAssignmentVertexLimit
    then bestShallowSpanPair U (ls ! i) (rs ! j) else bestSpanPair U score (ls ! i) (rs ! j))"
  let ?m = "fst (canonicalMaximumWeightMaximumCardinalityPairs (map (canonicalSpanGroupKey U) ls)
    (map (canonicalSpanGroupKey U) rs) ?edge)"
  have len: "length ?m = length ls" by (simp add: canonicalPairs_length)
  have "put_choices zero_span (\<lambda>i j. bestSpanPair U score (ls ! i) (rs ! j)) ?m (map (the_span U) ls, map (the_span U) rs)
      = (map (the_span U) ls, map (the_span U) rs)"
  proof (rule put_choices_same)
    fix i j
    assume i: "i < length ?m" "?m ! i = Some j"
    then have j: "j < length rs" "?edge i j \<noteq> None"
      using canonical_pair [of i "map (canonicalSpanGroupKey U) ls" "map (canonicalSpanGroupKey U) rs" ?edge j] len by auto
    have plain: "plain_group (ls ! i)" "plain_group (rs ! j)" using ls rs i(1) len j(1) by (simp_all add: list_all_length)
    with j i(1) len same show "\<exists>v. bestSpanPair U score (ls ! i) (rs ! j) = Some (map (the_span U) ls ! i, map (the_span U) rs ! j, v)"
      by (auto simp: bestSpanPair_plain bestShallowSpanPair_plain choice_score_def split: if_splits)
  qed
  then show ?thesis
    using candidates_plain [OF ls, of U] candidates_plain [OF rs, of U]
    by (simp add: choosePairedCandidates_def Let_def case_prod_unfold)
qed

lemma aligned_overlap: "alignedSpanMatchScore U l r < 0 \<longleftrightarrow> shallow_overlap_score U l r < 0"
  using aligned_compatible overlap_compatible shallow_compatible by metis

lemma resolve_children_plain:
  "plain_group g \<Longrightarrow> plain_group h \<Longrightarrow> resolvePairedChildren U (the_span U g) (the_span U h)
     = (map (the_span U) (sg_children g), map (the_span U) (sg_children h))"
  using choose_plain [OF plain_children plain_children aligned_overlap] by (simp add: resolvePairedChildren_def)

section \<open>Bounds of the scores\<close>

lemma common_keys_le: "common_keys ls rs \<le> length ls"
  by (induction ls rs rule: common_keys.induct) auto

lemma collect_length: "length (collect_keys before (the_span U g)) = group_size g"
proof (induction g arbitrary: before rule: group_induct)
  case (group g)
  obtain k where "collect_keys before (the_span U g) = k # concat (map (collect_keys k) (map (the_span U) (sg_children g)))"
    using the_span_simps(2) [of U g] by (cases "the_span U g") (auto simp: Let_def)
  moreover have "length (concat (map (collect_keys k) (map (the_span U) (sg_children g)))) = sum_list (map group_size (sg_children g))"
    using group by (simp add: length_concat o_def cong: map_cong)
  ultimately show ?case by (simp add: group_size_eq [of g])
qed

lemma overlap_bound: "childOverlapScore (the_span U g) r \<le> 1000 * int (group_size g)"
proof -
  have "length (match_keys (the_span U g)) = sum_list (map group_size (sg_children g))"
    by (simp add: match_keys_def canonicalChildMatchKeys_def length_concat collect_length o_def)
  then have "common_keys (match_keys (the_span U g)) (match_keys r) \<le> sum_list (map group_size (sg_children g))"
    by (metis common_keys_le)
  then show ?thesis by (simp add: childOverlapScore_def group_size_eq [of g])
qed

lemma total_score_bound:
  assumes "\<And>i j. i < length left \<Longrightarrow> m ! i = Some j \<Longrightarrow> score (left ! i) (right ! j) \<le> b (left ! i)"
    "\<And>l. l \<in> set left \<Longrightarrow> 0 \<le> b l" "length m = length left"
  shows "fst (total_score score left right m) \<le> int (length left)"
    and "snd (total_score score left right m) \<le> sum_list (map b left)"
    and "fst (total_score score left right m) = int (matching_size m)"
proof -
  have step: "fst (fold (\<lambda>(l, r) (matched, detail). case r of None \<Rightarrow> (matched, detail)
      | Some j \<Rightarrow> (matched + 1, detail + score l (right ! j))) ps (x, y)) = x + int (length (filter (\<lambda>p. snd p \<noteq> None) ps))
    \<and> snd (fold (\<lambda>(l, r) (matched, detail). case r of None \<Rightarrow> (matched, detail)
      | Some j \<Rightarrow> (matched + 1, detail + score l (right ! j))) ps (x, y)) \<le> y + sum_list (map (b \<circ> fst) ps)"
    if "set ps \<subseteq> set (zip left m)" for ps x y
    using that
  proof (induction ps arbitrary: x y)
    case (Cons p ps)
    obtain l r where p: "p = (l, r)" by (cases p)
    have l: "l \<in> set left" "set ps \<subseteq> set (zip left m)" using Cons.prems by (auto simp: p dest: set_zip_leftD)
    show ?case
    proof (cases r)
      case None
      then show ?thesis using Cons.IH [OF l(2), of x y] assms(2) [OF l(1)] by (simp add: p)
    next
      case (Some j)
      have "(l, Some j) \<in> set (zip left m)" using Cons.prems by (simp add: p Some)
      then obtain i where "i < length left" "l = left ! i" "m ! i = Some j" by (auto simp: in_set_zip)
      with assms(1) have "score l (right ! j) \<le> b l" by blast
      with Some show ?thesis using Cons.IH [OF l(2), of "x + 1" "y + score l (right ! j)"] by (simp add: p)
    qed
  qed simp
  have f: "map fst (zip left m) = left" using assms(3) by simp
  have "length (filter (\<lambda>p. snd p \<noteq> None) (zip left m)) = matching_size m"
    using assms(3) unfolding matching_size_def
    by (induction left m rule: list_induct2') auto
  moreover have "matching_size m \<le> length m" by (simp add: matching_size_def)
  ultimately show "fst (total_score score left right m) \<le> int (length left)"
    "fst (total_score score left right m) = int (matching_size m)"
    using step [of "zip left m" 0 0] assms(3) f by (simp_all add: total_score_def)
  show "snd (total_score score left right m) \<le> sum_list (map b left)"
    using step [of "zip left m" 0 0] f by (simp add: total_score_def flip: map_map)
qed

definition span_size :: "alignedSpan \<Rightarrow> int" where
  "span_size l = int (length (collect_keys [] l))"

lemma span_size [simp]: "span_size (the_span U g) = int (group_size g)"
  by (simp add: span_size_def collect_length)

lemma total_score_Nil [simp]: "total_score score [] right m = (0, 0)"
  by (simp add: total_score_def)

lemma aligned_bound: "plain_group g \<Longrightarrow> plain_group h
    \<Longrightarrow> alignedSpanMatchScore U (the_span U g) (the_span U h) \<le> 3000 * int (group_size g) - 1000"
proof (induction g arbitrary: h rule: group_induct)
  case (group g)
  let ?l = "the_span U g" and ?r = "the_span U h"
  let ?lc = "map (the_span U) (sg_children g)" and ?rc = "map (the_span U) (sg_children h)"
  note shallow = shallow_bound [of U ?l ?r] and plain = plain_children [OF group.prems(1)] plain_children [OF group.prems(2)]
  have size: "1 \<le> group_size g" by (simp add: group_size_eq)
  consider "shallowAlignedSpanMatchScore U ?l ?r < 0" | "0 \<le> shallowAlignedSpanMatchScore U ?l ?r" 
      "length ?lc + length ?rc > nestedScoreVertexLimit"
    | "0 \<le> shallowAlignedSpanMatchScore U ?l ?r" "\<not> length ?lc + length ?rc > nestedScoreVertexLimit" by linarith
  then show ?case
  proof cases
    case 1
    with size show ?thesis by (subst alignedSpanMatchScore.simps) (simp add: Let_def)
  next
    case 2
    with size shallow overlap_bound [of U g ?r] show ?thesis
      by (subst alignedSpanMatchScore.simps) (simp add: Let_def)
  next
    case 3
    let ?m = "fst (maximumCardinalityPairs U ?lc ?rc (alignedSpanMatchScore U))" and ?b = "\<lambda>l. 3000 * span_size l - 1000"
    have pos: "0 \<le> ?b l" if "l \<in> set ?lc" for l
      using that group_size_eq by (auto simp: group_size_eq)
    have "alignedSpanMatchScore U (?lc ! i) (?rc ! j) \<le> ?b (?lc ! i)" if "i < length ?lc" "?m ! i = Some j" for i j
      using group.IH [of "sg_children g ! i" "sg_children h ! j"] span_pair [OF that] that(1) plain
      by (simp add: list_all_length)
    note total = total_score_bound [where left = ?lc and right = ?rc and m = ?m and score = "alignedSpanMatchScore U" and b = ?b, OF this pos, simplified]
    have "sum_list (map (\<lambda>x. 3000 * int (group_size x) - 1000) xs) = 3000 * int (sum_list (map group_size xs)) - 1000 * int (length xs)" for xs
      by (induction xs) simp_all
    with 3 total(1,2) shallow choose_plain [OF plain aligned_overlap, of U] show ?thesis
      by (subst alignedSpanMatchScore.simps)
        (simp add: Let_def pairedSpanListScore_def case_prod_unfold group_size_eq [of g] o_def split: if_splits)
  qed
qed

section \<open>Every span is in one row\<close>

definition node_occ :: "SpanNode option \<Rightarrow> nat multiset" where
  "node_occ n = (case n of None \<Rightarrow> {#} | Some v \<Rightarrow> mset (sn_occ v))"

definition rows_occ :: "(SpanMatch \<Rightarrow> SpanNode option) \<Rightarrow> SpanMatch list \<Rightarrow> nat multiset" where
  "rows_occ side rows = sum_list (map (node_occ \<circ> side) rows)"

lemma rows_occ_simps [simp]:
  "rows_occ side [] = {#}" "rows_occ side (r # rows) = node_occ (side r) + rows_occ side rows"
  "rows_occ side (xs @ ys) = rows_occ side xs + rows_occ side ys"
  by (simp_all add: rows_occ_def)

lemma spanRef_occ [simp]: "sn_occ (spanRef l) = sn_occ (as_node l)"
  by (simp add: spanRef_def split: SpanNode.split)

definition groups_occ :: "SpanGroup list \<Rightarrow> nat multiset" where
  "groups_occ gs = mset (all_occurrences gs)"

lemma groups_occ_simps [simp]:
  "groups_occ [] = {#}" "groups_occ (g # gs) = mset (sn_occ (sg_span g)) + groups_occ (sg_children g) + groups_occ gs"
  by (simp add: groups_occ_def) (cases g rule: occurrences.cases, simp add: groups_occ_def)

lemma groups_occ_sum: "groups_occ gs = sum_list (map (\<lambda>g. groups_occ [g]) gs)"
  by (induction gs) simp_all

lemma only_rows_occ:
  "rows_occ mt_left (fst (onlyRows kind depth (the_span U g) s)) = (if kind = ''left_only'' then groups_occ [g] else {#})
   \<and> rows_occ mt_right (fst (onlyRows kind depth (the_span U g) s)) = (if kind = ''left_only'' then {#} else groups_occ [g])"
proof (induction g arbitrary: depth s rule: group_induct)
  case (group g)
  obtain t where rows: "fst (onlyRows kind depth (the_span U g) s) = only_row kind depth (the_span U g)
      # fst (each_rows (onlyRows kind (depth + 1)) (map (the_span U) (sg_children g)) t)"
    using the_span_simps(2) [of U g] by (cases "the_span U g") (auto simp: Let_def case_prod_unfold)
  have each: "rows_occ mt_left (fst (each_rows (onlyRows kind d) (map (the_span U) gs) t))
        = (if kind = ''left_only'' then groups_occ gs else {#})
      \<and> rows_occ mt_right (fst (each_rows (onlyRows kind d) (map (the_span U) gs) t))
        = (if kind = ''left_only'' then {#} else groups_occ gs)" if "set gs \<subseteq> set (sg_children g)" for gs d t
    using that
  proof (induction gs arbitrary: t)
    case (Cons h gs)
    then show ?case using group [of h d] by (simp add: case_prod_unfold Let_def)
  qed simp
  show ?case
    using each [of "sg_children g" "depth + 1" t] by (simp add: rows only_row_def node_occ_def)
qed

lemma each_only_occ:
  "rows_occ mt_left (fst (each_rows (onlyRows kind depth) (map (the_span U) gs) s))
     = (if kind = ''left_only'' then groups_occ gs else {#})
   \<and> rows_occ mt_right (fst (each_rows (onlyRows kind depth) (map (the_span U) gs) s))
     = (if kind = ''left_only'' then {#} else groups_occ gs)"
proof (induction gs arbitrary: s)
  case (Cons g gs)
  then show ?case using only_rows_occ [of kind depth U g] by (simp add: case_prod_unfold Let_def)
qed simp

abbreviation groups_size :: "SpanGroup list \<Rightarrow> nat" where
  "groups_size gs \<equiv> sum_list (map group_size gs)"

lemma group_size_le: "g \<in> set gs \<Longrightarrow> group_size g \<le> groups_size gs"
  by (rule member_le_sum_list) simp_all

lemma spans_bounded:
  assumes "list_all plain_group gs" "list_all plain_group hs" "groups_size gs \<le> 10 ^ 6"
  shows "scores_bounded (alignedSpanMatchScore U) (map (the_span U) gs) (map (the_span U) hs)"
  unfolding scores_bounded_def list_all_iff
proof (intro ballI)
  fix l r
  assume "l \<in> set (map (the_span U) gs)" "r \<in> set (map (the_span U) hs)"
  then obtain g h where g: "g \<in> set gs" "l = the_span U g" and h: "h \<in> set hs" "r = the_span U h" by auto
  have "alignedSpanMatchScore U l r \<le> 3000 * int (group_size g) - 1000"
    using aligned_bound [of g h U] g h assms by (simp add: list_all_iff)
  moreover have "group_size g \<le> 10 ^ 6" using group_size_le [OF g(1)] assms(3) by (rule le_trans)
  ultimately show "alignedSpanMatchScore U l r \<le> 10 ^ 12" by simp
qed

text \<open>What is paired and what is left over are all elements, on either side.\<close>

lemma paired_sum:
  fixes F :: "'a \<Rightarrow> nat multiset" and G :: "'b \<Rightarrow> nat multiset" and gs :: "'a list" and hs :: "'b list"
  assumes v: "valid_matching (length gs) (length hs) es m" and used: "used = mark_used (length hs) m"
  shows "sum_list (map (\<lambda>(g, r). case r of None \<Rightarrow> {#} | Some j \<Rightarrow> F g) (zip gs m))
      + sum_list (map F (map fst (filter (\<lambda>(g, r). r = None) (zip gs m)))) = sum_list (map F gs)"
    and "sum_list (map (\<lambda>(g, r). case r of None \<Rightarrow> {#} | Some j \<Rightarrow> G (hs ! j)) (zip gs m))
      + sum_list (map G (map fst (filter (\<lambda>(h, used). \<not> used) (zip hs used)))) = sum_list (map G hs)"
proof -
  have left: "sum_list (map (\<lambda>(g, r). case r of None \<Rightarrow> {#} | Some j \<Rightarrow> F g) ps)
      + sum_list (map F (map fst (filter (\<lambda>(g, r). r = None) ps))) = sum_list (map F (map fst ps))" for ps :: "('a \<times> nat option) list"
    by (induction ps) (auto simp: ac_simps split: option.split)
  show "sum_list (map (\<lambda>(g, r). case r of None \<Rightarrow> {#} | Some j \<Rightarrow> F g) (zip gs m))
      + sum_list (map F (map fst (filter (\<lambda>(g, r). r = None) (zip gs m)))) = sum_list (map F gs)"
    using left [of "zip gs m"] valid_length [OF v] by simp
  let ?S = "\<lambda>M. \<Sum>\<^sub># (image_mset G M)"
  have matched: "?S (sum_list (map (\<lambda>(g, r). case r of None \<Rightarrow> {#} | Some j \<Rightarrow> {#id (hs ! j)#}) ps))
      = sum_list (map (\<lambda>(g, r). case r of None \<Rightarrow> {#} | Some j \<Rightarrow> G (hs ! j)) ps)" for ps :: "('a \<times> nat option) list"
    by (induction ps) (auto split: option.split)
  have rest: "?S (sum_list (map (\<lambda>g. {#id g#}) xs)) = sum_list (map G xs)" "?S (image_mset id (mset xs)) = sum_list (map G xs)" for xs
    by (induction xs) simp_all
  show "sum_list (map (\<lambda>(g, r). case r of None \<Rightarrow> {#} | Some j \<Rightarrow> G (hs ! j)) (zip gs m))
      + sum_list (map G (map fst (filter (\<lambda>(h, used). \<not> used) (zip hs used)))) = sum_list (map G hs)"
    using arg_cong [OF right_split [OF v used, of id], of ?S]
    by (simp only: image_mset_union sum_mset.union matched rest)
qed

lemma match_rows_occ:
  "list_all plain_group gs \<Longrightarrow> list_all plain_group hs \<Longrightarrow> groups_size gs \<le> 10 ^ 6
    \<Longrightarrow> rows_occ mt_left (fst (matchSpans U (map (the_span U) gs) (map (the_span U) hs) depth s)) = groups_occ gs
      \<and> rows_occ mt_right (fst (matchSpans U (map (the_span U) gs) (map (the_span U) hs) depth s)) = groups_occ hs"
proof (induction "groups_size gs" arbitrary: gs hs depth s rule: less_induct)
  case less
  let ?left = "map (the_span U) gs" and ?right = "map (the_span U) hs"
  let ?m = "maximumCardinalityPairs U ?left ?right (alignedSpanMatchScore U)"
  note solved = pairing_solved [OF spans_bounded [OF less.prems], of U]
  have v: "valid_matching (length gs) (length hs) (pairing_table U ?left ?right (alignedSpanMatchScore U)) (fst ?m)"
    and used: "snd ?m = mark_used (length hs) (fst ?m)" using solved by auto
  have pair: "rows_occ mt_left (fst (pair_rows U ?right depth (the_span U g, r) t)) = (case r of None \<Rightarrow> {#} | Some j \<Rightarrow> groups_occ [g])
      \<and> rows_occ mt_right (fst (pair_rows U ?right depth (the_span U g, r) t)) = (case r of None \<Rightarrow> {#} | Some j \<Rightarrow> groups_occ [hs ! j])"
    if gr: "(g, r) \<in> set (zip gs (fst ?m))" for g r t
  proof (cases r)
    case None
    then show ?thesis by (simp add: pair_rows_def)
  next
    case (Some j)
    obtain i where i: "i < length gs" "g = gs ! i" "fst ?m ! i = Some j" using gr Some by (auto simp: in_set_zip)
    have j: "j < length hs" using valid_pair [OF v i(1,3)] by simp
    have plain: "plain_group g" "plain_group (hs ! j)" using less.prems i j by (simp_all add: list_all_length)
    have "group_size g \<le> groups_size gs" by (rule group_size_le) (use i in simp)
    then have "groups_size (sg_children g) < groups_size gs" by (simp only: group_size_eq [of g])
    from less.hyps [OF this plain_children [OF plain(1)] plain_children [OF plain(2)]] this less.prems(3)
    have "rows_occ mt_left (fst (matchSpans U (map (the_span U) (sg_children g)) (map (the_span U) (sg_children (hs ! j))) d t))
        = groups_occ (sg_children g)
      \<and> rows_occ mt_right (fst (matchSpans U (map (the_span U) (sg_children g)) (map (the_span U) (sg_children (hs ! j))) d t))
        = groups_occ (sg_children (hs ! j))" for d t by simp
    then show ?thesis
      using j Some resolve_children_plain [OF plain, of U]
      by (simp add: pair_rows_def case_prod_unfold Let_def matched_row_def node_occ_def)
  qed
  have pairs: "rows_occ mt_left (fst (each_rows (pair_rows U ?right depth) (map (apfst (the_span U)) ps) t))
        = sum_list (map (\<lambda>(g, r). case r of None \<Rightarrow> {#} | Some j \<Rightarrow> groups_occ [g]) ps)
      \<and> rows_occ mt_right (fst (each_rows (pair_rows U ?right depth) (map (apfst (the_span U)) ps) t))
        = sum_list (map (\<lambda>(g, r). case r of None \<Rightarrow> {#} | Some j \<Rightarrow> groups_occ [hs ! j]) ps)"
    if "set ps \<subseteq> set (zip gs (fst ?m))" for ps t
    using that
  proof (induction ps arbitrary: t)
    case (Cons p ps)
    obtain g r where p: "p = (g, r)" by (cases p)
    with Cons pair [of g r t] show ?case by (cases r) (simp_all add: case_prod_unfold Let_def)
  qed simp
  have zips: "zip ?left (fst ?m) = map (apfst (the_span U)) (zip gs (fst ?m))"
    "zip ?right (snd ?m) = map (apfst (the_span U)) (zip hs (snd ?m))"
    by (simp_all add: zip_map1 apfst_def map_prod_def)
  have rest: "map fst (filter (\<lambda>(l, r). r = None) (map (apfst (the_span U)) ps))
      = map (the_span U) (map fst (filter (\<lambda>(l, r). r = None) ps))"
    "map fst (filter (\<lambda>(r, used). \<not> used) (map (apfst (the_span U)) qs))
      = map (the_span U) (map fst (filter (\<lambda>(r, used). \<not> used) qs))" for ps :: "(SpanGroup \<times> nat option) list" and qs
    by (induction ps) (induction qs; auto)+
  show ?case
    unfolding matchSpans_parts Let_def fst_conv rows_occ_simps zips rest each_only_occ [THEN conjunct1] each_only_occ [THEN conjunct2]
      pairs [OF subset_refl, THEN conjunct1] pairs [OF subset_refl, THEN conjunct2]
    using paired_sum(1) [where F = "\<lambda>g. groups_occ [g]", OF v used, folded groups_occ_sum]
      paired_sum(2) [where G = "\<lambda>g. groups_occ [g]", OF v used, folded groups_occ_sum]
    by (simp del: groups_occ_simps)
qed

section \<open>Traces\<close>

definition plain_traces :: "TraceGroup list \<Rightarrow> bool" where
  "plain_traces ts \<longleftrightarrow> list_all (\<lambda>t. tg_alts t = [] \<and> list_all plain_group (tg_roots t)) ts"

abbreviation the_traces :: "unicode_tables \<Rightarrow> TraceGroup list \<Rightarrow> resolvedTrace list" where
  "the_traces U ts \<equiv> map (\<lambda>(i, t). plain_trace U i t) (List.enumerate 0 ts)"

abbreviation traces_size :: "TraceGroup list \<Rightarrow> nat" where
  "traces_size ts \<equiv> groups_size (concat (map tg_roots ts))"

lemma the_traces_nth: "i < length ts \<Longrightarrow> the_traces U ts ! i = plain_trace U i (ts ! i)"
  by (simp add: nth_enumerate_eq)

lemma trace_candidates_plain: "tg_alts t = [] \<Longrightarrow> traceGroupCandidates U i t = [plain_trace U i t]"
  by (cases t) simp

lemma plain_trace_simps:
  "list_all plain_group (tg_roots t) \<Longrightarrow> rt_roots (plain_trace U i t) = map (the_span U) (tg_roots t)"
  "rt_rootGroups (plain_trace U i t) = tg_roots t"
  by (simp_all add: plain_trace_def candidates_plain Let_def case_prod_unfold)

lemma candidates_traces: "plain_traces ts \<Longrightarrow> canonicalTraceCandidates U ts = the_traces U ts"
proof -
  have "list_all (\<lambda>t. tg_alts t = []) (map snd ps) \<Longrightarrow> concat (map (\<lambda>(index, g). case traceGroupCandidates U index g of [] \<Rightarrow> []
      | c # cs \<Rightarrow> [least_by canonicalTraceKey c cs]) ps) = map (\<lambda>(i, t). plain_trace U i t) ps" for ps
    by (induction ps) (auto simp: trace_candidates_plain)
  from this [of "List.enumerate 0 ts"] show "plain_traces ts \<Longrightarrow> ?thesis"
    by (simp add: canonicalTraceCandidates_def plain_traces_def list_all_iff)
qed

lemma root_negative: "root_score U l r < 0 \<longleftrightarrow> shallow_overlap_score U l r < 0"
proof -
  have "0 \<le> http_score (sn_http (as_node l)) (sn_http (as_node r))" by (simp add: http_score_def)
  then show ?thesis using aligned_overlap [of U l r]
    by (cases "alignedSpanMatchScore U l r < 0") (simp_all add: root_score_def Let_def)
qed

lemma root_bound:
  assumes "plain_group g" "plain_group h"
  shows "root_score U (the_span U g) (the_span U h) \<le> 3000 * int (group_size g) + 10"
proof -
  have "http_score a b \<le> 1010" for a b by (simp add: http_score_def)
  then show ?thesis using aligned_bound [OF assms, of U] group_size_eq [of g]
    by (simp add: root_score_def Let_def) (smt (verit))
qed

lemma roots_bounded:
  assumes "list_all plain_group gs" "list_all plain_group hs" "groups_size gs \<le> 10 ^ 6"
  shows "scores_bounded (root_score U) (map (the_span U) gs) (map (the_span U) hs)"
  unfolding scores_bounded_def list_all_iff
proof (intro ballI)
  fix l r
  assume "l \<in> set (map (the_span U) gs)" "r \<in> set (map (the_span U) hs)"
  then obtain g h where g: "g \<in> set gs" "l = the_span U g" and h: "h \<in> set hs" "r = the_span U h" by auto
  have "root_score U l r \<le> 3000 * int (group_size g) + 10"
    using root_bound [of g h U] g h assms by (simp add: list_all_iff)
  moreover have "group_size g \<le> 10 ^ 6" using group_size_le [OF g(1)] assms(3) by (rule le_trans)
  ultimately show "root_score U l r \<le> 10 ^ 12" by simp
qed

lemma total_score_matched: "length m = length left \<Longrightarrow> fst (total_score score left right m) = int (matching_size m)"
proof -
  have "fst (fold (\<lambda>(l, r) (matched, detail). case r of None \<Rightarrow> (matched, detail)
      | Some j \<Rightarrow> (matched + 1, detail + score l (right ! j))) ps (x, y)) = x + int (length (filter (\<lambda>p. snd p \<noteq> None) ps))" for ps x y
  proof (induction ps arbitrary: x y)
    case (Cons p ps)
    then show ?case by (cases "snd p") (auto simp: case_prod_unfold)
  qed simp
  moreover assume "length m = length left"
  then have "length (filter (\<lambda>p. snd p \<noteq> None) (zip left m)) = matching_size m"
    unfolding matching_size_def by (induction left m rule: list_induct2') auto
  ultimately show ?thesis by (simp add: total_score_def)
qed

text \<open>Two traces have a score just when a root of the one is compatible with a root of the other.\<close>

definition roots_compatible :: "unicode_tables \<Rightarrow> SpanGroup list \<Rightarrow> SpanGroup list \<Rightarrow> bool" where
  "roots_compatible U gs hs \<longleftrightarrow> (\<exists>g \<in> set gs. \<exists>h \<in> set hs. 0 \<le> shallow_overlap_score U (the_span U g) (the_span U h))"

lemma trace_score_eq:
  assumes "list_all plain_group (tg_roots t)" "list_all plain_group (tg_roots u)"
  shows "traceMatchScore U (plain_trace U i t) (plain_trace U j u)
    = trace_score (plain_trace U i t) (plain_trace U j u) (length (tg_roots t)) (length (tg_roots u))
        (total_score (root_score U) (map (the_span U) (tg_roots t)) (map (the_span U) (tg_roots u))
          (fst (maximumCardinalityPairs U (map (the_span U) (tg_roots t)) (map (the_span U) (tg_roots u)) (root_score U))))"
  using choose_plain [OF assms aligned_overlap, of U]
  by (auto simp: traceMatchScore_def plain_trace_simps assms)

lemma compatible_matched:
  assumes plain: "list_all plain_group gs" "list_all plain_group hs" "groups_size gs \<le> 10 ^ 6"
    and c: "roots_compatible U gs hs"
  shows "0 < matching_size (fst (maximumCardinalityPairs U (map (the_span U) gs) (map (the_span U) hs) (root_score U)))"
proof -
  let ?l = "map (the_span U) gs" and ?r = "map (the_span U) hs"
  obtain i j where ij: "i < length gs" "j < length hs" "0 \<le> shallow_overlap_score U (?l ! i) (?r ! j)"
    using c by (auto simp: roots_compatible_def in_set_conv_nth)
  let ?m = "(replicate (length gs) None)[i := Some j]"
  have "pairing_table U ?l ?r (root_score U) ! i ! j \<noteq> None"
    using ij root_negative [of U "?l ! i" "?r ! j"] by (auto simp: pairing_table_def Let_def compatible_score_def)
  then have "valid_matching (length ?l) (length ?r) (pairing_table U ?l ?r (root_score U)) ?m"
    using ij(1,2) by (intro valid_matchingI) (auto simp: nth_list_update split: if_splits)
  with pairing_solved [OF roots_bounded [OF plain], of U U ?m]
  have "matching_size ?m \<le> matching_size (fst (maximumCardinalityPairs U ?l ?r (root_score U)))" by simp
  moreover have "Some j \<in> set ?m" using ij(1) by (simp add: set_update_memI)
  then have "0 < matching_size ?m" unfolding matching_size_def by (auto simp: length_pos_if_in_set filter_empty_conv)
  ultimately show ?thesis by linarith
qed

lemma trace_score_none: "trace_score l r m n p = None \<longleftrightarrow> fst p = 0"
  by (cases p) (simp add: trace_score_def)

lemma matched_some:
  assumes "matching_size m \<noteq> 0"
  obtains i j where "i < length m" "m ! i = Some j"
proof -
  have "filter (\<lambda>r. r \<noteq> None) m \<noteq> []" using assms by (auto simp: matching_size_def)
  then obtain r where "r \<in> set m" "r \<noteq> None" by (auto simp: filter_empty_conv)
  then show ?thesis using that by (auto simp: in_set_conv_nth)
qed

lemma shallow_compatible_roots:
  assumes plain: "list_all plain_group (tg_roots t)" "list_all plain_group (tg_roots u)"
    and some: "shallowTraceMatchScore U (plain_trace U i t) (plain_trace U j u) \<noteq> None"
  shows "roots_compatible U (tg_roots t) (tg_roots u)"
proof -
  let ?l = "map (the_span U) (tg_roots t)" and ?r = "map (the_span U) (tg_roots u)"
  have from_spans: "roots_compatible U (tg_roots t) (tg_roots u)"
    if "l \<in> set ?l" "r \<in> set ?r" "0 \<le> shallow_overlap_score U l r" for l r
    using that by (auto simp: roots_compatible_def)
  show ?thesis
  proof (cases "length ?l + length ?r \<le> nestedScoreVertexLimit")
    case True
    let ?m = "fst (maximumCardinalityPairs U ?l ?r (shallow_overlap_score U))"
    have "fst (total_score (shallow_overlap_score U) ?l ?r ?m) \<noteq> 0"
      using some True by (simp add: shallowTraceMatchScore_def plain_trace_simps plain trace_score_none del: not_None_eq)
    then have "matching_size ?m \<noteq> 0" by (simp add: total_score_matched)
    then obtain a b where a: "a < length ?m" "?m ! a = Some b" by (rule matched_some)
    with span_pair [of a ?l U ?r "shallow_overlap_score U" b] show ?thesis
      by (intro from_spans [of "?l ! a" "?r ! b"]) auto
  next
    case False
    let ?sl = "sort_key canonicalAlignmentSpanKey ?l" and ?sr = "sort_key canonicalAlignmentSpanKey ?r"
    let ?es = "map (\<lambda>l. map (\<lambda>r. compatible_score (shallow_overlap_score U l r)) ?sr) ?sl"
    let ?m = "fst (linearMemoryMaximumCardinalityPairs (length ?sl) (length ?sr) ?es)"
    have v: "valid_matching (length ?sl) (length ?sr) ?es ?m"
      unfolding linearMemoryMaximumCardinalityPairs_def by (rule linear_seeded(1))
    have "fst (total_score (shallow_overlap_score U) ?sl ?sr ?m) \<noteq> 0"
      using some False by (simp add: shallowTraceMatchScore_def plain_trace_simps plain trace_score_none Let_def del: not_None_eq)
    then have "matching_size ?m \<noteq> 0" using valid_length [OF v] by (simp add: total_score_matched)
    then obtain a b where a: "a < length ?m" "?m ! a = Some b" by (rule matched_some)
    then have ab: "a < length ?sl" "b < length ?sr" "?es ! a ! b \<noteq> None"
      using valid_pair [OF v, of a b] valid_length [OF v] by auto
    have "?sl ! a \<in> set ?l" "?sr ! b \<in> set ?r" using nth_mem [OF ab(1)] nth_mem [OF ab(2)] by simp_all
    moreover have "0 \<le> shallow_overlap_score U (?sl ! a) (?sr ! b)"
      using ab by (simp add: compatible_score_def split: if_splits)
    ultimately show ?thesis by (rule from_spans)
  qed
qed

lemma trace_score_some:
  assumes "list_all plain_group (tg_roots t)" "list_all plain_group (tg_roots u)" "groups_size (tg_roots t) \<le> 10 ^ 6"
    and "roots_compatible U (tg_roots t) (tg_roots u)"
  shows "traceMatchScore U (plain_trace U i t) (plain_trace U j u) \<noteq> None"
  using compatible_matched [OF assms]
  by (simp add: trace_score_eq [OF assms(1,2)] trace_score_none total_score_matched)

lemma best_trace_plain:
  "tg_alts t = [] \<Longrightarrow> tg_alts u = [] \<Longrightarrow> bestTracePair U i t j u
     = map_option (\<lambda>v. (plain_trace U i t, plain_trace U j u, v)) (traceMatchScore U (plain_trace U i t) (plain_trace U j u))"
  "tg_alts t = [] \<Longrightarrow> tg_alts u = [] \<Longrightarrow> bestShallowTracePair U i t j u
     = map_option (\<lambda>v. (plain_trace U i t, plain_trace U j u, v)) (shallowTraceMatchScore U (plain_trace U i t) (plain_trace U j u))"
  by (simp_all add: bestTracePair_def bestShallowTracePair_def best_pair_def better_pair_def trace_candidates_plain split: option.split)

lemma trace_size_le: "t \<in> set ts \<Longrightarrow> groups_size (tg_roots t) \<le> traces_size ts"
  by (induction ts) auto

lemma choose_traces:
  assumes ts: "plain_traces ts" and us: "plain_traces us" and size: "traces_size ts \<le> 10 ^ 6"
  shows "choosePairedTraceCandidates U ts us = (the_traces U ts, the_traces U us)"
proof -
  let ?choice = "\<lambda>i j. bestTracePair U i (ts ! i) j (us ! j)"
  let ?big = "length ts + length us > optimalAssignmentVertexLimit"
  define solved where "solved = (if ?big then linearMemoryMaximumCardinalityPairsWithSeed (length ts) (length us)
       (score_table (length ts) (length us) (\<lambda>i j. choice_score (bestShallowTracePair U i (ts ! i) j (us ! j))))
       (seed_by_key (map canonicalTraceKey (the_traces U ts)) (map canonicalTraceKey (the_traces U us)))
     else maximumWeightMaximumCardinalityPairs (length ts) (length us)
       (score_table (length ts) (length us) (\<lambda>i j. choice_score (?choice i j))))"
  have len: "length (fst solved) = length ts"
    using valid_length [OF linear_seeded(1)] by (simp add: solved_def)
  have plain: "tg_alts t = []" "list_all plain_group (tg_roots t)" if "t \<in> set ts \<union> set us" for t
    using ts us that by (auto simp: plain_traces_def list_all_iff)
  have "put_choices zero_trace ?choice (fst solved) (the_traces U ts, the_traces U us) = (the_traces U ts, the_traces U us)"
  proof (rule put_choices_same)
    fix i j
    assume i: "i < length (fst solved)" "fst solved ! i = Some j"
    then have it: "i < length ts" by (simp add: len)
    have "j < length us \<and> traceMatchScore U (plain_trace U i (ts ! i)) (plain_trace U j (us ! j)) \<noteq> None"
    proof (cases ?big)
      case True
      let ?es = "score_table (length ts) (length us) (\<lambda>i j. choice_score (bestShallowTracePair U i (ts ! i) j (us ! j)))"
      have "j < length us \<and> ?es ! i ! j \<noteq> None"
        by (rule valid_pair [OF linear_seeded(1) it]) (use i(2) True in \<open>simp add: solved_def\<close>)
      then have "j < length us" and e: "?es ! i ! j \<noteq> None" by blast+
      then have "choice_score (bestShallowTracePair U i (ts ! i) j (us ! j)) \<noteq> None"
        using it by (simp add: score_table_def del: not_None_eq)
      moreover from \<open>j < length us\<close> have p: "tg_alts (ts ! i) = []" "list_all plain_group (tg_roots (ts ! i))"
          "tg_alts (us ! j) = []" "list_all plain_group (tg_roots (us ! j))"
        using plain it by simp_all
      ultimately have "roots_compatible U (tg_roots (ts ! i)) (tg_roots (us ! j))"
        by (intro shallow_compatible_roots) (auto simp: best_trace_plain choice_score_def)
      moreover have "groups_size (tg_roots (ts ! i)) \<le> 10 ^ 6"
        using trace_size_le [of "ts ! i" ts] it size by (meson le_trans nth_mem)
      ultimately show ?thesis using trace_score_some p \<open>j < length us\<close> by blast
    next
      case False
      let ?es = "score_table (length ts) (length us) (\<lambda>i j. choice_score (?choice i j))"
      have "j < length us \<and> ?es ! i ! j \<noteq> None"
        by (rule chosen_pair [OF it]) (use i(2) False in \<open>simp add: solved_def\<close>)
      then have "j < length us" and e: "?es ! i ! j \<noteq> None" by blast+
      then have "choice_score (?choice i j) \<noteq> None" using it by (simp add: score_table_def del: not_None_eq)
      with plain it \<open>j < length us\<close> show ?thesis by (auto simp: best_trace_plain choice_score_def)
    qed
    with it plain show "\<exists>v. ?choice i j = Some (the_traces U ts ! i, the_traces U us ! j, v)"
      by (auto simp: best_trace_plain the_traces_nth simp del: nth_map)
  qed
  then show ?thesis
    by (simp add: choosePairedTraceCandidates_def Let_def candidates_traces ts us case_prod_unfold solved_def split: if_splits)
qed

end
