(* ===== verification/PlainAlign.thy ===== *)
theory PlainAlign
  imports PlainShapes
begin

text \<open>
  What \<open>AlignShapes\<close> does with shapes without alternatives, such as the shapes of captures: the scores of
  their traces are bounded, every span of either shape is shown by one row, and the auctions of the pairing
  end, for up to 20,000 spans.
\<close>

section \<open>Alignments of plain traces\<close>

lemma roots_le_size: "length gs \<le> groups_size gs"
proof (induction gs)
  case (Cons g gs)
  then show ?case by (simp add: group_size_eq [of g])
qed simp

lemma root_total:
  fixes U :: unicode_tables
  assumes plain: "list_all plain_group gs" "list_all plain_group hs"
  defines "m \<equiv> fst (maximumCardinalityPairs U (map (the_span U) gs) (map (the_span U) hs) (root_score U))"
  shows "fst (total_score (root_score U) (map (the_span U) gs) (map (the_span U) hs) m) \<le> int (length gs)"
    and "snd (total_score (root_score U) (map (the_span U) gs) (map (the_span U) hs) m) \<le> 3010 * int (groups_size gs)"
    and "0 \<le> fst (total_score (root_score U) (map (the_span U) gs) (map (the_span U) hs) m)"
    and "0 \<le> snd (total_score (root_score U) (map (the_span U) gs) (map (the_span U) hs) m)"
proof -
  let ?l = "map (the_span U) gs" and ?r = "map (the_span U) hs" and ?b = "\<lambda>l. 3000 * span_size l + 10"
  have len: "length m = length ?l" by (simp add: m_def)
  have pair: "root_score U (?l ! i) (?r ! j) \<le> ?b (?l ! i) \<and> 0 \<le> root_score U (?l ! i) (?r ! j)"
    if "i < length ?l" "m ! i = Some j" for i j
  proof -
    have j: "j < length ?r" "0 \<le> root_score U (?l ! i) (?r ! j) \<or> 0 \<le> shallow_overlap_score U (?l ! i) (?r ! j)"
      using span_pair [OF that(1) that(2) [unfolded m_def]] by blast+
    have "root_score U (the_span U (gs ! i)) (the_span U (hs ! j)) \<le> 3000 * int (group_size (gs ! i)) + 10"
      by (rule root_bound) (use plain that(1) j(1) in \<open>simp_all add: list_all_length\<close>)
    with that(1) j root_negative [of U "?l ! i" "?r ! j"] show ?thesis by auto
  qed
  have upper: "root_score U (?l ! i) (?r ! j) \<le> ?b (?l ! i)" if "i < length ?l" "m ! i = Some j" for i j
    using pair [OF that] by blast
  have pos: "0 \<le> ?b l" if "l \<in> set ?l" for l by (simp add: span_size_def)
  note total = total_score_bound [where left = ?l and right = ?r and m = m and score = "root_score U" and b = ?b, OF upper pos len]
  have "sum_list (map (\<lambda>g. 3000 * int (group_size g) + 10) gs) = 3000 * int (groups_size gs) + 10 * int (length gs)" for gs
    by (induction gs) simp_all
  with total(1,2) roots_le_size [of gs]
  show "fst (total_score (root_score U) ?l ?r m) \<le> int (length gs)"
    "snd (total_score (root_score U) ?l ?r m) \<le> 3010 * int (groups_size gs)" by (simp_all add: o_def)
  show "0 \<le> fst (total_score (root_score U) ?l ?r m)" "0 \<le> snd (total_score (root_score U) ?l ?r m)"
    using total_score_nonneg [where left = ?l and m = m and score = "root_score U" and right = ?r] pair len by blast+
qed

lemma trace_score_bound:
  assumes plain: "list_all plain_group (tg_roots t)" "list_all plain_group (tg_roots u)"
    and size: "groups_size (tg_roots t) \<le> 10 ^ 6" "groups_size (tg_roots u) \<le> 10 ^ 6"
    and v: "traceMatchScore U (plain_trace U i t) (plain_trace U j u) = Some v"
  shows "- (10 ^ 12) \<le> v \<and> v \<le> 10 ^ 12"
proof -
  define p where "p = total_score (root_score U) (map (the_span U) (tg_roots t)) (map (the_span U) (tg_roots u))
     (fst (maximumCardinalityPairs U (map (the_span U) (tg_roots t)) (map (the_span U) (tg_roots u)) (root_score U)))"
  note b = root_total [OF plain, of U, folded p_def]
  have len: "length (tg_roots t) \<le> 10 ^ 6" "length (tg_roots u) \<le> 10 ^ 6"
    using roots_le_size [of "tg_roots t"] roots_le_size [of "tg_roots u"] size by linarith+
  obtain matched detail where md: "p = (matched, detail)" by (cases p)
  have "0 \<le> matched" "matched \<le> 10 ^ 6" "0 \<le> detail" "detail \<le> 3010 * 10 ^ 6"
    using b len size md by auto
  moreover have "\<exists>c \<in> {0, 100}. \<exists>d \<in> {0, 10}. v = matched * 100000 + detail
      - (int (length (tg_roots t)) + int (length (tg_roots u)) - 2 * matched) * 10000 + c + d"
    using v unfolding trace_score_eq [OF plain] p_def [symmetric] md
    by (simp add: trace_score_def split: if_splits)
  ultimately show ?thesis using len by auto
qed

lemma plain_traces_nth:
  assumes "plain_traces ts" "i < length ts"
  shows "tg_alts (ts ! i) = []" "list_all plain_group (tg_roots (ts ! i))"
  using assms by (auto simp: plain_traces_def list_all_length)

lemma details_map:
  assumes "\<And>l r v. l \<in> set left \<Longrightarrow> r \<in> set right \<Longrightarrow> f l r = Some v \<Longrightarrow> - (10 ^ 12) \<le> v \<and> v \<le> 10 ^ 12"
  shows "details_bounded (map (\<lambda>l. map (f l) right) left)"
  using assms unfolding details_bounded_def all_details_def list_all_iff by (fastforce simp: List.map_filter_def)

lemma the_traces_bounded:
  assumes ts: "plain_traces ts" "traces_size ts \<le> 10 ^ 6" and us: "plain_traces us" "traces_size us \<le> 10 ^ 6"
  shows "traces_bounded U (the_traces U ts) (the_traces U us)"
proof -
  have "- (10 ^ 12) \<le> v \<and> v \<le> 10 ^ 12"
    if "i < length ts" "j < length us" "traceMatchScore U (the_traces U ts ! i) (the_traces U us ! j) = Some v" for i j v
  proof -
    have "groups_size (tg_roots (ts ! i)) \<le> 10 ^ 6" "groups_size (tg_roots (us ! j)) \<le> 10 ^ 6"
      using trace_size_le [of "ts ! i" ts] trace_size_le [of "us ! j" us] that(1,2) ts(2) us(2)
      by (meson le_trans nth_mem)+
    with trace_score_bound plain_traces_nth(2) [OF ts(1) that(1)] plain_traces_nth(2) [OF us(1) that(2)] that
    show ?thesis by (simp add: the_traces_nth del: nth_map)
  qed
  moreover have "\<exists>i j. i < length ts \<and> j < length us \<and> l = the_traces U ts ! i \<and> r = the_traces U us ! j"
    if "l \<in> set (the_traces U ts)" "r \<in> set (the_traces U us)" for l r
    using that [unfolded in_set_conv_nth] by auto
  ultimately have "- (10 ^ 12) \<le> v \<and> v \<le> 10 ^ 12"
    if "l \<in> set (the_traces U ts)" "r \<in> set (the_traces U us)" "traceMatchScore U l r = Some v" for l r v
    using that by metis
  from details_map [OF this] show ?thesis unfolding traces_bounded_def .
qed

text \<open>What the alignment uses of a trace: its groups, whose spans are its roots.\<close>

definition plain_resolved :: "unicode_tables \<Rightarrow> resolvedTrace \<Rightarrow> bool" where
  "plain_resolved U t \<longleftrightarrow> list_all plain_group (rt_rootGroups t) \<and> rt_roots t = map (the_span U) (rt_rootGroups t)
     \<and> groups_size (rt_rootGroups t) \<le> 10 ^ 6"

abbreviation trace_occ :: "resolvedTrace \<Rightarrow> nat multiset" where
  "trace_occ t \<equiv> groups_occ (rt_rootGroups t)"

abbreviation traces_rows :: "(SpanMatch \<Rightarrow> SpanNode option) \<Rightarrow> TraceMatch list \<Rightarrow> nat multiset" where
  "traces_rows side ms \<equiv> rows_occ side (concat (map tm_spans ms))"

lemma align_left_occ:
  assumes t: "plain_resolved U t" and r: "\<And>j. r = Some j \<Longrightarrow> plain_resolved U (rs ! j)"
  shows "traces_rows mt_left (fst (align_left U rs (t, r) s)) = trace_occ t"
    and "traces_rows mt_right (fst (align_left U rs (t, r) s)) = (case r of None \<Rightarrow> {#} | Some j \<Rightarrow> trace_occ (rs ! j))"
proof -
  have "traces_rows mt_left (fst (align_left U rs (t, r) s)) = trace_occ t
    \<and> traces_rows mt_right (fst (align_left U rs (t, r) s)) = (case r of None \<Rightarrow> {#} | Some j \<Rightarrow> trace_occ (rs ! j))"
  proof (cases r)
    case None
    then show ?thesis using t each_only_occ [of "''left_only''" 0 U "rt_rootGroups t" s]
      by (simp add: align_left_def traceOnly_def plain_resolved_def Let_def case_prod_unfold)
  next
    case (Some j)
    note u = r [OF Some]
    have "choosePairedCandidates U (alignedSpanMatchScore U) (rt_rootGroups t) (rt_rootGroups (rs ! j))
        = (map (the_span U) (rt_rootGroups t), map (the_span U) (rt_rootGroups (rs ! j)))"
      by (rule choose_plain) (use t u aligned_overlap in \<open>auto simp: plain_resolved_def\<close>)
    then show ?thesis
      using Some t u match_rows_occ [of "rt_rootGroups t" "rt_rootGroups (rs ! j)" U 0]
      by (simp add: align_left_def plain_resolved_def Let_def case_prod_unfold)
  qed
  then show "traces_rows mt_left (fst (align_left U rs (t, r) s)) = trace_occ t"
    "traces_rows mt_right (fst (align_left U rs (t, r) s)) = (case r of None \<Rightarrow> {#} | Some j \<Rightarrow> trace_occ (rs ! j))"
    by blast+
qed

lemma align_right_occ:
  assumes "plain_resolved U t"
  shows "traces_rows mt_left (fst (align_right t s)) = {#}" "traces_rows mt_right (fst (align_right t s)) = trace_occ t"
  using assms each_only_occ [of "''right_only''" 0 U "rt_rootGroups t" s]
  by (simp_all add: align_right_def traceOnly_def plain_resolved_def Let_def case_prod_unfold)

lemma align_traces_occ:
  assumes ls: "list_all (plain_resolved U) ls" and rs: "list_all (plain_resolved U) rs" and b: "traces_bounded U ls rs"
  shows "traces_rows mt_left (sa_traces (align_traces U ls rs)) = sum_list (map trace_occ ls)"
    and "traces_rows mt_right (sa_traces (align_traces U ls rs)) = sum_list (map trace_occ rs)"
proof -
  let ?m = "maximumCardinalityTracePairs U ls rs"
  let ?pairs = "zip ls (fst ?m)" and ?rest = "map fst (filter (\<lambda>(t, used). \<not> used) (zip rs (snd ?m)))"
  have v: "valid_matching (length ls) (length rs) (trace_table U ls rs) (fst ?m)"
    and used: "snd ?m = mark_used (length rs) (fst ?m)" using trace_pairs_solved [OF b] by blast+
  have pair: "plain_resolved U t \<and> (\<forall>j. r = Some j \<longrightarrow> plain_resolved U (rs ! j))" if tr: "(t, r) \<in> set ?pairs" for t r
  proof -
    obtain i where i: "i < length ls" "t = ls ! i" "fst ?m ! i = r" using tr by (auto simp: in_set_zip)
    then show ?thesis using valid_pair [OF v i(1)] ls rs by (auto simp: list_all_length)
  qed
  have left: "traces_rows mt_left (fst (each_rows (align_left U rs) ?pairs s)) = sum_list (map (\<lambda>(t, r). trace_occ t) ?pairs)"
    "traces_rows mt_right (fst (each_rows (align_left U rs) ?pairs s))
      = sum_list (map (\<lambda>(t, r). case r of None \<Rightarrow> {#} | Some j \<Rightarrow> trace_occ (rs ! j)) ?pairs)" for s
    by (rule each_rows_sum; use pair align_left_occ in \<open>force simp: rows_occ_simps\<close>)+
  have "list_all (plain_resolved U) ?rest" using rs by (auto simp: list_all_iff dest: set_zip_leftD)
  then have right: "traces_rows mt_left (fst (each_rows align_right ?rest s)) = sum_list (map (\<lambda>t. {#}) ?rest)"
    "traces_rows mt_right (fst (each_rows align_right ?rest s)) = sum_list (map trace_occ ?rest)" for s
    unfolding list_all_iff by - (rule each_rows_sum; use align_right_occ in \<open>fastforce simp: rows_occ_simps\<close>)+
  have traces: "sa_traces (align_traces U ls rs) = fst (each_rows (align_left U rs) ?pairs zero_summary)
      @ fst (each_rows align_right ?rest (snd (each_rows (align_left U rs) ?pairs zero_summary)))"
    by (simp add: align_traces_def Let_def case_prod_unfold)
  have "sum_list (map (\<lambda>(t, r). trace_occ t) (zip ls m)) = sum_list (map trace_occ ls)" if "length m = length ls" for m :: matching
    using that by (induction ls m rule: list_induct2') auto
  from this [of "fst ?m"]
  show "traces_rows mt_left (sa_traces (align_traces U ls rs)) = sum_list (map trace_occ ls)"
    unfolding traces map_append concat_append rows_occ_simps left right sum_list_none by simp
  show "traces_rows mt_right (sa_traces (align_traces U ls rs)) = sum_list (map trace_occ rs)"
    unfolding traces map_append concat_append rows_occ_simps left right
    using paired_sum(2) [OF v used, of trace_occ] .
qed

lemma the_traces_plain:
  assumes ts: "plain_traces ts" "traces_size ts \<le> 10 ^ 6"
  shows "list_all (plain_resolved U) (the_traces U ts)" "sum_list (map trace_occ (the_traces U ts)) = mset (shapeOccurrences ts)"
proof -
  have "plain_resolved U (the_traces U ts ! i)" if i: "i < length ts" for i
  proof -
    have "groups_size (tg_roots (ts ! i)) \<le> 10 ^ 6"
      using trace_size_le [of "ts ! i" ts] i ts(2) by (meson le_trans nth_mem)
    then show ?thesis
      using plain_traces_nth [OF ts(1) i] by (simp add: the_traces_nth [OF i] plain_resolved_def plain_trace_simps del: nth_map)
  qed
  then show "list_all (plain_resolved U) (the_traces U ts)" by (simp add: list_all_length del: nth_map)
  have "map trace_occ (the_traces U ts) = map (\<lambda>t. groups_occ (tg_roots t)) ts"
    by (rule nth_equalityI) (simp_all add: nth_enumerate_eq plain_trace_simps(2) case_prod_unfold)
  moreover have "sum_list (map (\<lambda>t. groups_occ (tg_roots t)) ts) = mset (shapeOccurrences ts)"
    by (induction ts) (simp_all add: shapeOccurrences_def groups_occ_def)
  ultimately show "sum_list (map trace_occ (the_traces U ts)) = mset (shapeOccurrences ts)" by simp
qed

lemma align_plain_shapes:
  assumes ts: "plain_traces (ss_traces l)" "traces_size (ss_traces l) \<le> 10 ^ 6"
    and us: "plain_traces (ss_traces r)" "traces_size (ss_traces r) \<le> 10 ^ 6"
  shows "\<exists>a. AlignShapes U (Some l) (Some r) = Some a
    \<and> traces_rows mt_left (sa_traces a) = mset (shapeOccurrences (ss_traces l))
    \<and> traces_rows mt_right (sa_traces a) = mset (shapeOccurrences (ss_traces r))"
proof -
  let ?l = "the_traces U (ss_traces l)" and ?r = "the_traces U (ss_traces r)"
  have "AlignShapes U (Some l) (Some r) = Some (align_traces U ?l ?r)"
    by (simp add: AlignShapes_def choose_traces [OF ts(1) us(1) ts(2)] del: map_map)
  with align_traces_occ [OF the_traces_plain(1) [OF ts] the_traces_plain(1) [OF us] the_traces_bounded [OF ts us]]
    the_traces_plain(2) [OF ts, of U] the_traces_plain(2) [OF us, of U]
  show ?thesis by simp
qed

section \<open>The auctions of plain traces end\<close>

lemma linear_fits:
  assumes es: "table_ok lc rc es" "lc \<le> 20000"
    and small: "\<And>d. d \<in> set (all_details es) \<Longrightarrow> - (3 * 10 ^ 9) \<le> d \<and> d \<le> 3 * 10 ^ 9"
  shows "linear_applies lc rc es"
proof (cases "all_details es = []")
  case False
  let ?D = "set (all_details es)"
  have "- (3 * 10 ^ 9) \<le> Min ?D" "Max ?D \<le> 3 * 10 ^ 9" using small False by simp_all
  then have spread: "detail_spread es \<le> 6 * 10 ^ 9 + 1" by (simp add: detail_spread_def)
  have "auction_limit lc rc es \<le> (6 * 10 ^ 9 + 1) * (int (min lc rc) + 2) * (int lc + 1)"
    unfolding auction_limit_def by (intro mult_right_mono spread) simp_all
  also have "\<dots> \<le> (6 * 10 ^ 9 + 1) * 20002 * 20001" using es(2) by (intro mult_mono) simp_all
  finally have limit: "2 * auction_limit lc rc es + int lc + 2 < 2 ^ 63" using es(2) by simp
  have "in_i64 (int lc * d)" if "d \<in> ?D" for d
  proof -
    have "\<bar>int lc * d\<bar> \<le> 20000 * (3 * 10 ^ 9)"
      unfolding abs_mult using small [OF that] es(2) by (intro mult_mono) auto
    then show ?thesis unfolding in_i64_def by auto
  qed
  with limit es(1) show ?thesis by (simp add: linear_applies_def auction_fits_def list_all_iff)
qed (simp add: es linear_applies_def)

lemma details_table:
  assumes "d \<in> set (all_details (map (\<lambda>l. map (f l) right) left))"
  obtains l r where "l \<in> set left" "r \<in> set right" "f l r = Some d"
  using assms by (auto simp: all_details_def List.map_filter_def)

lemma shallow_overlap_bound: "shallow_overlap_score U (the_span U g) r \<le> 138 + 1000 * int (group_size g)"
  using shallow_bound [of U "the_span U g" r] overlap_bound [of U g r]
  by (simp add: shallow_overlap_score_def Let_def)

text \<open>The auctions over spans, for any lists of siblings with up to 20,000 spans below\<close>

lemma spans_fit:
  assumes "groups_size gs \<le> 20000"
  shows "linear_applies (length gs) (length rs)
    (map (\<lambda>l. map (\<lambda>r. compatible_score (shallow_overlap_score U l r)) rs) (map (the_span U) gs))"
proof (rule linear_fits)
  fix d
  assume "d \<in> set (all_details (map (\<lambda>l. map (\<lambda>r. compatible_score (shallow_overlap_score U l r)) rs) (map (the_span U) gs)))"
  then obtain l r where "l \<in> set (map (the_span U) gs)" and d: "compatible_score (shallow_overlap_score U l r) = Some d"
    by (rule details_table)
  then obtain g where g: "g \<in> set gs" "l = the_span U g" by auto
  then have "group_size g \<le> 20000" using group_size_le [of g gs] assms by simp
  with d shallow_overlap_bound [of U g r] show "- (3 * 10 ^ 9) \<le> d \<and> d \<le> 3 * 10 ^ 9"
    unfolding g(2) by (simp add: compatible_score_def split: if_splits)
qed (use roots_le_size [of gs] assms in \<open>simp_all add: table_ok_def list_all_iff\<close>)

lemma shallow_trace_bound:
  assumes plain: "list_all plain_group (tg_roots t)" "list_all plain_group (tg_roots u)"
    and size: "groups_size (tg_roots t) \<le> 20000" "groups_size (tg_roots u) \<le> 20000"
    and v: "shallowTraceMatchScore U (plain_trace U i t) (plain_trace U j u) = Some v"
  shows "- (3 * 10 ^ 9) \<le> v \<and> v \<le> 3 * 10 ^ 9"
proof -
  let ?l = "map (the_span U) (tg_roots t)" and ?r = "map (the_span U) (tg_roots u)"
  let ?score = "shallow_overlap_score U" and ?b = "\<lambda>l. 138 + 1000 * span_size l"
  have len: "length (tg_roots t) \<le> 20000" "length (tg_roots u) \<le> 20000"
    using roots_le_size [of "tg_roots t"] roots_le_size [of "tg_roots u"] size by linarith+
  have sum: "sum_list (map (\<lambda>g. 138 + 1000 * int (group_size g)) gs) = 138 * int (length gs) + 1000 * int (groups_size gs)" for gs
    by (induction gs) simp_all
  have bound: "0 \<le> fst p \<and> fst p \<le> 20000 \<and> 0 \<le> snd p \<and> snd p \<le> 1138 * 20000"
    if p: "p = total_score ?score ls rs m" and m: "length m = length ls" and ls: "mset ls = mset ?l"
      and pos: "\<And>i j. i < length ls \<Longrightarrow> m ! i = Some j \<Longrightarrow> 0 \<le> ?score (ls ! i) (rs ! j)" for p ls rs m
  proof -
    have of: "\<exists>g. l = the_span U g" if "l \<in> set ls" for l using that mset_eq_setD [OF ls] by auto
    have upper: "?score (ls ! i) (rs ! j) \<le> ?b (ls ! i)" if "i < length ls" "m ! i = Some j" for i j
      using of [OF nth_mem [OF that(1)]] shallow_overlap_bound by auto
    have "sum_list (map ?b ls) = sum_list (map ?b ?l)"
      using ls by (metis mset_map sum_mset_sum_list)
    then have "sum_list (map ?b ls) \<le> 1138 * 20000" using len(1) size(1) sum [of "tg_roots t"] by (simp add: o_def)
    moreover have "length ls \<le> 20000" using arg_cong [OF ls, of size] len(1) by simp
    ultimately show ?thesis unfolding p
      using total_score_bound(1,2) [where left = ls and m = m and right = rs and score = ?score and b = ?b, OF upper _ m]
        total_score_nonneg [where left = ls and m = m and right = rs and score = ?score, OF pos m]
      by (fastforce simp: span_size_def)
  qed
  have range: "- (3 * 10 ^ 9) \<le> v \<and> v \<le> 3 * 10 ^ 9"
    if "trace_score a b (length (tg_roots t)) (length (tg_roots u)) p = Some v"
      "0 \<le> fst p \<and> fst p \<le> 20000 \<and> 0 \<le> snd p \<and> snd p \<le> 1138 * 20000" for a b p
    using that len by (cases p) (auto simp: trace_score_def split: if_splits)
  show ?thesis
  proof (cases "length ?l + length ?r \<le> nestedScoreVertexLimit")
    case True
    let ?m = "fst (maximumCardinalityPairs U ?l ?r ?score)"
    have pos: "0 \<le> ?score (?l ! i) (?r ! j)" if "i < length ?l" "?m ! i = Some j" for i j
      using span_pair [OF that] by blast
    show ?thesis
    proof (rule range)
      show "trace_score (plain_trace U i t) (plain_trace U j u) (length (tg_roots t)) (length (tg_roots u))
          (total_score ?score ?l ?r ?m) = Some v"
        using v True by (simp add: shallowTraceMatchScore_def plain_trace_simps plain)
    qed (rule bound [OF refl _ refl pos]; simp)
  next
    case False
    let ?sl = "sort_key canonicalAlignmentSpanKey ?l" and ?sr = "sort_key canonicalAlignmentSpanKey ?r"
    let ?es = "map (\<lambda>l. map (\<lambda>r. compatible_score (?score l r)) ?sr) ?sl"
    let ?m = "fst (linearMemoryMaximumCardinalityPairs (length ?sl) (length ?sr) ?es)"
    have m: "valid_matching (length ?sl) (length ?sr) ?es ?m"
      unfolding linearMemoryMaximumCardinalityPairs_def by (rule linear_seeded(1))
    have pos: "0 \<le> ?score (?sl ! i) (?sr ! j)" if "i < length ?sl" "?m ! i = Some j" for i j
      using valid_pair [OF m that] that(1) by (auto simp: compatible_score_def simp del: length_sort split: if_splits)
    show ?thesis
    proof (rule range)
      show "trace_score (plain_trace U i t) (plain_trace U j u) (length (tg_roots t)) (length (tg_roots u))
          (total_score ?score ?sl ?sr ?m) = Some v"
        using v False by (simp add: shallowTraceMatchScore_def plain_trace_simps plain Let_def)
    qed (rule bound [OF refl valid_length [OF m] _ pos]; simp)
  qed
qed

text \<open>The auctions over traces\<close>

lemma traces_fit:
  assumes ts: "plain_traces ts" "traces_size ts \<le> 20000" "length ts \<le> 20000" and us: "plain_traces us" "traces_size us \<le> 20000"
  shows "linear_applies (length ts) (length us) (map (\<lambda>l. map (shallowTraceMatchScore U l) (the_traces U us)) (the_traces U ts))"
proof (rule linear_fits)
  fix d
  assume "d \<in> set (all_details (map (\<lambda>l. map (shallowTraceMatchScore U l) (the_traces U us)) (the_traces U ts)))"
  then obtain l r where "l \<in> set (the_traces U ts)" "r \<in> set (the_traces U us)" and d: "shallowTraceMatchScore U l r = Some d"
    by (rule details_table)
  then obtain i j where ij: "i < length ts" "l = plain_trace U i (ts ! i)" "j < length us" "r = plain_trace U j (us ! j)"
    by (auto simp: in_set_enumerate_eq)
  have size: "groups_size (tg_roots (ts ! i)) \<le> 20000" "groups_size (tg_roots (us ! j)) \<le> 20000"
    using trace_size_le [OF nth_mem [OF ij(1)]] trace_size_le [OF nth_mem [OF ij(3)]] ts(2) us(2) by linarith+
  show "- (3 * 10 ^ 9) \<le> d \<and> d \<le> 3 * 10 ^ 9"
    by (rule shallow_trace_bound [OF plain_traces_nth(2) [OF ts(1) ij(1)] plain_traces_nth(2) [OF us(1) ij(3)] size])
      (use d ij in simp)
qed (use ts(3) in \<open>simp_all add: table_ok_def list_all_iff\<close>)

end
