(* ===== verification/AlignRows.thy ===== *)
theory AlignRows
  imports PlainAlign
begin

text \<open>
  Which traces the rows of an alignment refer to: whatever candidates and pairs are chosen, every trace
  group of either shape is in one row, by its position.
\<close>

section \<open>Every trace group is in one row\<close>

lemma candidate_index: "c \<in> set (traceGroupCandidates U index g) \<Longrightarrow> rt_index c = index"
proof (induction U index g arbitrary: c rule: traceGroupCandidates.induct)
  case (1 U index n exact gmin gmax cardinality alts coverage roots)
  then show ?case
    by (cases "alts = []") (auto simp: plain_trace_def retag_trace_def Let_def case_prod_unfold)
qed

lemma canonical_indices: "map rt_index (canonicalTraceCandidates U gs) = [0..<length gs]"
proof -
  have "map rt_index (concat (map (\<lambda>(index, g). case traceGroupCandidates U index g of [] \<Rightarrow> []
      | c # cs \<Rightarrow> [least_by canonicalTraceKey c cs]) ps)) = map fst ps" for ps
  proof (induction ps)
    case (Cons p ps)
    obtain i g where p: "p = (i, g)" by (cases p)
    obtain c cs where c: "traceGroupCandidates U i g = c # cs"
      using trace_candidates_some [of U i g] by (cases "traceGroupCandidates U i g") auto
    have "rt_index (least_by canonicalTraceKey c cs) = i"
      by (rule candidate_index [of _ U i g]) (simp only: c least_by_in)
    with Cons show ?case by (simp add: p c)
  qed simp
  then show ?thesis by (simp add: canonicalTraceCandidates_def)
qed

lemma update_index: "map rt_index xs = [0..<n] \<Longrightarrow> rt_index x = i \<Longrightarrow> map rt_index (xs[i := x]) = [0..<n]"
proof -
  assume a: "map rt_index xs = [0..<n]" "rt_index x = i"
  have len: "length xs = n" using arg_cong [OF a(1), of length] by simp
  have "[0..<n][i := i] = [0..<n]"
    by (cases "i < n") (auto intro!: nth_equalityI simp: nth_list_update)
  with a show ?thesis by (simp add: map_update)
qed

lemma put_indices:
  assumes "\<And>i j. i < length m \<Longrightarrow> m ! i = Some j \<Longrightarrow> \<exists>l r v. choice i j = Some (l, r, v) \<and> rt_index l = i \<and> rt_index r = j"
    and "map rt_index ls = [0..<n]" "map rt_index rs = [0..<k]"
  shows "map rt_index (fst (put_choices z choice m (ls, rs))) = [0..<n]
    \<and> map rt_index (snd (put_choices z choice m (ls, rs))) = [0..<k]"
proof -
  have "map rt_index (fst (fold (put_choice z choice) ps (ls, rs))) = [0..<n]
      \<and> map rt_index (snd (fold (put_choice z choice) ps (ls, rs))) = [0..<k]"
    if "set ps \<subseteq> set (List.enumerate 0 m)" "map rt_index ls = [0..<n]" "map rt_index rs = [0..<k]" for ps ls rs
    using that
  proof (induction ps arbitrary: ls rs)
    case (Cons p ps)
    obtain i r where p: "p = (i, r)" by (cases p)
    with Cons.prems have i: "i < length m" "m ! i = r" by (auto simp: in_set_enumerate_eq)
    have "map rt_index (fst (put_choice z choice p (ls, rs))) = [0..<n]
        \<and> map rt_index (snd (put_choice z choice p (ls, rs))) = [0..<k]"
    proof (cases r)
      case None
      with Cons.prems show ?thesis by (simp add: put_choice_def p)
    next
      case (Some j)
      with assms(1) [of i j] i obtain a b v where "choice i j = Some (a, b, v)" "rt_index a = i" "rt_index b = j" by auto
      with Cons.prems Some show ?thesis by (simp add: put_choice_def p update_index)
    qed
    with Cons.IH [of "fst (put_choice z choice p (ls, rs))" "snd (put_choice z choice p (ls, rs))"] Cons.prems(1)
    show ?case by simp
  qed simp
  with assms(2,3) show ?thesis by (simp add: put_choices_def)
qed

text \<open>The alternatives that are chosen keep the positions of their groups.\<close>

definition aligned_shapes :: "TraceGroup list \<Rightarrow> TraceGroup list \<Rightarrow> bool" where
  "aligned_shapes ls rs \<longleftrightarrow> length ls + length rs \<le> optimalAssignmentVertexLimit
     \<or> plain_traces ls \<and> plain_traces rs \<and> traces_size ls \<le> 20000 \<and> traces_size rs \<le> 20000"

lemma chosen_indices:
  assumes "aligned_shapes ls rs"
  shows "map rt_index (fst (choosePairedTraceCandidates U ls rs)) = [0..<length ls]
    \<and> map rt_index (snd (choosePairedTraceCandidates U ls rs)) = [0..<length rs]"
proof (cases "length ls + length rs \<le> optimalAssignmentVertexLimit")
  case True
  let ?choice = "\<lambda>i j. bestTracePair U i (ls ! i) j (rs ! j)"
  let ?es = "score_table (length ls) (length rs) (\<lambda>i j. choice_score (?choice i j))"
  let ?m = "fst (maximumWeightMaximumCardinalityPairs (length ls) (length rs) ?es)"
  have "\<exists>l r v. ?choice i j = Some (l, r, v) \<and> rt_index l = i \<and> rt_index r = j"
    if i: "i < length ?m" "?m ! i = Some j" for i j
  proof -
    have il: "i < length ls" using i(1) by simp
    from chosen_pair [OF il i(2)] have j: "j < length rs" and e: "?es ! i ! j \<noteq> None" by blast+
    then have "choice_score (?choice i j) \<noteq> None" using il by (simp add: score_table_def del: not_None_eq)
    then obtain l r v where c: "?choice i j = Some (l, r, v)" by (auto simp: choice_score_def)
    from best_pair_in [OF this [unfolded bestTracePair_def]] c candidate_index show ?thesis by blast
  qed
  from put_indices [where m = ?m and choice = ?choice and z = zero_trace, OF this canonical_indices canonical_indices]
  show ?thesis using True by (simp add: choosePairedTraceCandidates_def Let_def case_prod_unfold)
next
  case False
  then have "choosePairedTraceCandidates U ls rs = (the_traces U ls, the_traces U rs)"
    using assms by (intro choose_traces) (auto simp: aligned_shapes_def)
  moreover have "map rt_index (the_traces U ts) = [0..<length ts]" for ts
    by (rule nth_equalityI) (simp_all add: nth_enumerate_eq plain_trace_def Let_def case_prod_unfold)
  ultimately show ?thesis by simp
qed

text \<open>The positions of the trace groups that rows refer to on one side\<close>

definition row_indices :: "(TraceMatch \<Rightarrow> TraceRef option) \<Rightarrow> TraceMatch list \<Rightarrow> nat multiset" where
  "row_indices side ms = mset (map tr_index (List.map_filter side ms))"

definition row_kind :: "TraceMatch \<Rightarrow> bool" where
  "row_kind m \<longleftrightarrow> (tm_kind m = ''matched'' \<and> tm_left m \<noteq> None \<and> tm_right m \<noteq> None)
     \<or> (tm_kind m = ''left_only'' \<and> tm_left m \<noteq> None \<and> tm_right m = None)
     \<or> (tm_kind m = ''right_only'' \<and> tm_left m = None \<and> tm_right m \<noteq> None)"

lemma row_indices_simps [simp]:
  "row_indices side [] = {#}" "row_indices side (xs @ ys) = row_indices side xs + row_indices side ys"
  by (simp_all add: row_indices_def List.map_filter_def)

lemma align_left_rows:
  "row_indices tm_left (fst (align_left U rs (t, r) s)) = {#rt_index t#}"
  "row_indices tm_right (fst (align_left U rs (t, r) s)) = (case r of None \<Rightarrow> {#} | Some j \<Rightarrow> {#rt_index (rs ! j)#})"
  "list_all row_kind (fst (align_left U rs (t, r) s))"
  by (cases r; simp add: align_left_def traceOnly_def trace_ref_def row_indices_def row_kind_def List.map_filter_def Let_def case_prod_unfold)+

lemma align_right_rows:
  "row_indices tm_left (fst (align_right t s)) = {#}" "row_indices tm_right (fst (align_right t s)) = {#rt_index t#}"
  "list_all row_kind (fst (align_right t s))"
  by (simp_all add: align_right_def traceOnly_def trace_ref_def row_indices_def row_kind_def List.map_filter_def Let_def case_prod_unfold)

lemma align_traces_rows:
  assumes b: "traces_bounded U ls rs"
  shows "row_indices tm_left (sa_traces (align_traces U ls rs)) = mset (map rt_index ls)"
    and "row_indices tm_right (sa_traces (align_traces U ls rs)) = mset (map rt_index rs)"
    and "list_all row_kind (sa_traces (align_traces U ls rs))"
proof -
  let ?m = "maximumCardinalityTracePairs U ls rs"
  let ?pairs = "zip ls (fst ?m)" and ?rest = "map fst (filter (\<lambda>(t, used). \<not> used) (zip rs (snd ?m)))"
  have v: "valid_matching (length ls) (length rs) (trace_table U ls rs) (fst ?m)"
    and used: "snd ?m = mark_used (length rs) (fst ?m)" using trace_pairs_solved [OF b] by blast+
  have left: "row_indices tm_left (fst (each_rows (align_left U rs) ps s)) = sum_list (map (\<lambda>(t, r). {#rt_index t#}) ps)"
    "row_indices tm_right (fst (each_rows (align_left U rs) ps s))
      = sum_list (map (\<lambda>(t, r). case r of None \<Rightarrow> {#} | Some j \<Rightarrow> {#rt_index (rs ! j)#}) ps)" for ps s
    by (rule each_rows_sum; force simp: align_left_rows)+
  have right: "row_indices tm_left (fst (each_rows align_right ts s)) = sum_list (map (\<lambda>t. {#}) ts)"
    "row_indices tm_right (fst (each_rows align_right ts s)) = sum_list (map (\<lambda>t. {#rt_index t#}) ts)" for ts s
    by (rule each_rows_sum; simp add: align_right_rows)+
  have traces: "sa_traces (align_traces U ls rs) = fst (each_rows (align_left U rs) ?pairs zero_summary)
      @ fst (each_rows align_right ?rest (snd (each_rows (align_left U rs) ?pairs zero_summary)))"
    by (simp add: align_traces_def Let_def case_prod_unfold)
  have "sum_list (map (\<lambda>(t, r). {#rt_index t#}) ps) = mset (map rt_index (map fst ps))" for ps :: "(resolvedTrace \<times> nat option) list"
    by (induction ps) auto
  from this [of ?pairs] show "row_indices tm_left (sa_traces (align_traces U ls rs)) = mset (map rt_index ls)"
    unfolding traces row_indices_simps left right sum_list_none by simp
  show "row_indices tm_right (sa_traces (align_traces U ls rs)) = mset (map rt_index rs)"
    unfolding traces row_indices_simps left right using right_split [OF v used, of rt_index] by simp
  have "list_all row_kind (fst (each_rows (align_left U rs) ?pairs s))" for s
    by (rule each_rows_all) (use align_left_rows(3) in \<open>auto split: prod.split\<close>)
  moreover have "list_all row_kind (fst (each_rows align_right ts s))" for ts s
    by (rule each_rows_all) (rule align_right_rows(3))
  ultimately show "list_all row_kind (sa_traces (align_traces U ls rs))" unfolding traces by simp
qed

lemma align_shapes_rows:
  assumes "aligned_shapes (ss_traces left) (ss_traces right)"
    and "traces_bounded U (fst (choosePairedTraceCandidates U (ss_traces left) (ss_traces right)))
      (snd (choosePairedTraceCandidates U (ss_traces left) (ss_traces right)))"
  shows "\<exists>a. AlignShapes U (Some left) (Some right) = Some a
    \<and> row_indices tm_left (sa_traces a) = mset [0..<length (ss_traces left)]
    \<and> row_indices tm_right (sa_traces a) = mset [0..<length (ss_traces right)]
    \<and> list_all row_kind (sa_traces a)
    \<and> al_traceMatched (sa_summary a) + al_traceLeftOnly (sa_summary a) = int (length (ss_traces left))
    \<and> al_traceMatched (sa_summary a) + al_traceRightOnly (sa_summary a) = int (length (ss_traces right))"
proof -
  let ?p = "choosePairedTraceCandidates U (ss_traces left) (ss_traces right)"
  let ?a = "align_traces U (fst ?p) (snd ?p)"
  have a: "AlignShapes U (Some left) (Some right) = Some ?a"
    by (simp add: AlignShapes_def Let_def case_prod_unfold)
  have totals: "al_traceMatched (sa_summary ?a) = traces_of ''matched'' (sa_traces ?a)"
    "al_traceLeftOnly (sa_summary ?a) = traces_of ''left_only'' (sa_traces ?a)"
    "al_traceRightOnly (sa_summary ?a) = traces_of ''right_only'' (sa_traces ?a)"
    unfolding align_tally by (simp_all add: tally_traces_def tally_rows_def zero_summary_def)
  show ?thesis
    using a align_traces_rows [OF assms(2)] chosen_indices [OF assms(1), of U]
      align_traces_kinds(1) [of U "fst ?p" "snd ?p"] align_traces_kinds(2) [OF assms(2)] totals
    by (simp add: chosen_traces_length)
qed

text \<open>
  C13. Every trace group of either shape is in exactly one row of an alignment: the rows refer to
  each position of a left group once, and to each position of a right group once, a row of kind
  \<open>matched\<close> to one of either, the other rows to one of their side; and the totals count the rows.
  The scores of the traces stay within \<open>10 ^ 12\<close>, and the two shapes have up to 128 groups together,
  or no alternatives and up to 20,000 span groups each, for which \<open>the_traces_bounded\<close>
  bounds the scores and \<open>spans_fit\<close> and \<open>traces_fit\<close> keep the auctions of the pairing in range.
\<close>

theorem alignment_rows_complete:
  assumes "aligned_shapes (ss_traces left) (ss_traces right)"
    and "traces_bounded U (fst (choosePairedTraceCandidates U (ss_traces left) (ss_traces right)))
      (snd (choosePairedTraceCandidates U (ss_traces left) (ss_traces right)))"
  shows "\<exists>a. AlignShapes U (Some left) (Some right) = Some a
    \<and> row_indices tm_left (sa_traces a) = mset [0..<length (ss_traces left)]
    \<and> row_indices tm_right (sa_traces a) = mset [0..<length (ss_traces right)]
    \<and> list_all row_kind (sa_traces a)
    \<and> al_traceMatched (sa_summary a) + al_traceLeftOnly (sa_summary a) = int (length (ss_traces left))
    \<and> al_traceMatched (sa_summary a) + al_traceRightOnly (sa_summary a) = int (length (ss_traces right))"
  by (rule align_shapes_rows [OF assms])

text \<open>Two traces against one: the row of the second pairs it, and the first is left over.\<close>

definition ex_rooted :: "string \<Rightarrow> TraceGroup" where
  "ex_rooted kind = TraceGroup 1 True 1 1 [] [] ''full'' [SpanGroup 1 True 1 1 [] [] (SpanNode [] [] kind [] [] [] [])]"

definition ex_two_traces :: ScenarioShape where
  "ex_two_traces = ex_one_trace\<lparr>ss_traces := [ex_rooted ''client'', ex_rooted ''server'']\<rparr>"

definition ex_server_trace :: ScenarioShape where
  "ex_server_trace = ex_one_trace\<lparr>ss_traces := [ex_rooted ''server'']\<rparr>"

theorem alignment_rows_complete_witness:
  "\<forall>U :: unicode_tables. \<exists>a. AlignShapes U (Some ex_two_traces) (Some ex_server_trace) = Some a
    \<and> row_indices tm_left (sa_traces a) = {#0, 1#} \<and> row_indices tm_right (sa_traces a) = {#0#}
    \<and> list_all row_kind (sa_traces a)
    \<and> al_traceMatched (sa_summary a) + al_traceLeftOnly (sa_summary a) = 2
    \<and> al_traceMatched (sa_summary a) + al_traceRightOnly (sa_summary a) = 1"
proof
  fix U :: unicode_tables
  let ?l = "ss_traces ex_two_traces" and ?r = "ss_traces ex_server_trace"
  have len: "length ?l = 2" "length ?r = 1" by (simp_all add: ex_two_traces_def ex_server_trace_def)
  then have shapes: "aligned_shapes ?l ?r" by (simp add: aligned_shapes_def optimalAssignmentVertexLimit_def)
  have plain: "plain_traces ?l" "plain_traces ?r" "traces_size ?l \<le> 10 ^ 6" "traces_size ?r \<le> 10 ^ 6"
    by (simp_all add: plain_traces_def ex_two_traces_def ex_server_trace_def ex_rooted_def)
  from the_traces_bounded [OF plain(1,3) plain(2,4)] choose_traces [OF plain(1,2,3)]
  have "traces_bounded U (fst (choosePairedTraceCandidates U ?l ?r)) (snd (choosePairedTraceCandidates U ?l ?r))"
    by (simp del: map_map)
  from alignment_rows_complete [OF shapes this] len
  show "\<exists>a. AlignShapes U (Some ex_two_traces) (Some ex_server_trace) = Some a
    \<and> row_indices tm_left (sa_traces a) = {#0, 1#} \<and> row_indices tm_right (sa_traces a) = {#0#}
    \<and> list_all row_kind (sa_traces a)
    \<and> al_traceMatched (sa_summary a) + al_traceLeftOnly (sa_summary a) = 2
    \<and> al_traceMatched (sa_summary a) + al_traceRightOnly (sa_summary a) = 1"
    by (simp add: upt_rec numeral_2_eq_2)
qed

end
