(* ===== verification/WireSpec.thy ===== *)
theory WireSpec
  imports Wire
begin

text \<open>
  The type of normalized payloads: what \<open>normalizeWireContext\<close> returns has, at every depth, only
  the canonical fields of its message, numbers as text, one variant per value and attributes in
  order; and binary values keep their bytes.
\<close>

section \<open>Well-typed values\<close>

abbreviation free_context :: "string \<Rightarrow> bool" where
  "free_context ctx \<equiv> ctx = ''entityRefValue'' \<or> ctx = ''eventTimestamp''"

definition canonical_order :: "json \<Rightarrow> bool" where
  "canonical_order v \<longleftrightarrow> (case v of JArray xs \<Rightarrow> sorted (map canonical xs) | _ \<Rightarrow> True)"

definition decimal_text :: "json \<Rightarrow> bool" where
  "decimal_text v \<longleftrightarrow> (case v of JString s \<Rightarrow> (case atoi s of Some n \<Rightarrow> s = itoa n | None \<Rightarrow> False) | _ \<Rightarrow> False)"

text \<open>The standard padded encoding of some bytes, and no other spelling of them.\<close>

definition encoded_text :: "string \<Rightarrow> bool" where
  "encoded_text s \<longleftrightarrow> (case base64_decode True s of None \<Rightarrow> False | Some bytes \<Rightarrow> s = base64_encode bytes)"

definition base64_text :: "json \<Rightarrow> bool" where
  "base64_text v \<longleftrightarrow> (case v of JString s \<Rightarrow> encoded_text s | JArray _ \<Rightarrow> False | _ \<Rightarrow> True)"

text \<open>What holds of the members of a message beyond their types.\<close>

definition scalars_ok :: "members \<Rightarrow> bool" where
  "scalars_ok m \<longleftrightarrow> canonical_order (member m ''attributes'')
     \<and> (go_get m ''intValue'' = None \<or> decimal_text (member m ''intValue''))
     \<and> base64_text (member m ''bytesValue'')"

definition one_variant :: "members \<Rightarrow> bool" where
  "one_variant m \<longleftrightarrow> length (filter (\<lambda>k. go_get m k \<noteq> None) variants) \<le> 1"

function wire_ok :: "string \<Rightarrow> json \<Rightarrow> bool" where
  "wire_ok ctx v =
     (case v of
        JNumber _ \<Rightarrow> ctx = ''identity''
      | JReport _ \<Rightarrow> free_context ctx
      | JArray xs \<Rightarrow> list_all (wire_ok (elementContext ctx)) xs
      | JObject m \<Rightarrow>
          if free_context ctx then
            (case m of
               [(k, JObject inner)] \<Rightarrow> k = ''$object'' \<and> go_map inner
                 \<and> list_all (\<lambda>(_, c). wire_ok ''entityRefValue'' c) inner
             | _ \<Rightarrow> False)
          else go_map m \<and> scalars_ok m \<and> (ctx = ''anyValue'' \<longrightarrow> one_variant m)
            \<and> list_all (\<lambda>(k, c). allowedWireField ctx k \<and> wire_ok (fieldContext ctx k) c) m
      | _ \<Rightarrow> True)"
  by pat_completeness auto

termination wire_ok
  by (relation "measure (\<lambda>(_, v). size v)") (auto intro: member_size element_size dest: member_size)

declare wire_ok.simps [simp del]

lemma wire_ok_simps [simp]:
  "wire_ok ctx JNull" "wire_ok ctx (JBool b)" "wire_ok ctx (JString s)"
  "wire_ok ctx (JNumber n) \<longleftrightarrow> ctx = ''identity''"
  "wire_ok ctx (JReport n) \<longleftrightarrow> free_context ctx"
  "wire_ok ctx (JArray xs) \<longleftrightarrow> list_all (wire_ok (elementContext ctx)) xs"
  by (simp_all add: wire_ok.simps)

text \<open>Members that are each allowed and well typed.\<close>

definition fields_ok :: "string \<Rightarrow> members \<Rightarrow> bool" where
  "fields_ok ctx m \<longleftrightarrow> go_map m
     \<and> (\<forall>k c. go_get m k = Some c \<longrightarrow> allowedWireField ctx k \<and> wire_ok (fieldContext ctx k) c)"

lemma fields_ok_list:
  "fields_ok ctx m \<longleftrightarrow> go_map m
     \<and> list_all (\<lambda>(k, c). allowedWireField ctx k \<and> wire_ok (fieldContext ctx k) c) m"
proof (cases "go_map m")
  case True
  then have "go_get m k = Some c \<longleftrightarrow> (k, c) \<in> set m" for k c by (simp add: go_map_def go_keys_def)
  with True show ?thesis by (auto simp: fields_ok_def list_all_iff)
qed (simp add: fields_ok_def)

lemma wire_ok_object:
  "\<not> free_context ctx \<Longrightarrow> wire_ok ctx (JObject m)
    \<longleftrightarrow> fields_ok ctx m \<and> scalars_ok m \<and> (ctx = ''anyValue'' \<longrightarrow> one_variant m)"
  unfolding fields_ok_list wire_ok.simps [of ctx "JObject m"] by auto

lemma wire_ok_wrapped:
  "free_context ctx \<Longrightarrow> wire_ok ctx (JObject [(''$object'', JObject inner)])
    \<longleftrightarrow> go_map inner \<and> list_all (\<lambda>(_, c). wire_ok ''entityRefValue'' c) inner"
  by (auto simp: wire_ok.simps [of ctx "JObject [(''$object'', JObject inner)]"])

lemma fields_ok_put:
  "fields_ok ctx m \<Longrightarrow> allowedWireField ctx k \<Longrightarrow> wire_ok (fieldContext ctx k) c
    \<Longrightarrow> fields_ok ctx (go_put k c m)"
  by (auto simp: fields_ok_def go_map_put go_get_put)

lemma fields_ok_delete: "fields_ok ctx m \<Longrightarrow> fields_ok ctx (go_delete k m)"
  by (auto simp: fields_ok_def go_map_delete go_get_delete split: if_splits)

lemma fields_ok_Nil [simp]: "fields_ok ctx []"
  by (simp add: fields_ok_def go_map_def go_keys_def)

lemma member_Some: "member m k = v \<Longrightarrow> v \<noteq> JNull \<Longrightarrow> go_get m k = Some v"
  by (auto simp: go_get0_def split: option.splits)

lemma fields_ok_member:
  "fields_ok ctx m \<Longrightarrow> member m k = v \<Longrightarrow> v \<noteq> JNull
    \<Longrightarrow> allowedWireField ctx k \<and> wire_ok (fieldContext ctx k) v"
  using member_Some [of m k v] by (simp add: fields_ok_def)

lemma array_Some: "array v = Some xs \<longleftrightarrow> v = JArray xs" by (cases v) auto
lemma object_Some: "object v = Some m \<longleftrightarrow> v = JObject m" by (cases v) auto

section \<open>Contexts of lists\<close>

lemma list_context:
  assumes "\<not> free_context ctx" "kind = ''arrayValue'' \<or> kind = ''kvlistValue''"
  shows "fieldContext ctx kind = (if ctx = ''anyValue'' then (if kind = ''arrayValue'' then ''arrayValue'' else ''keyValueList'') else [])"
  using assms by (auto simp: fieldContext_def)

lemma list_context_ok:
  assumes "\<not> free_context ctx" "kind = ''arrayValue'' \<or> kind = ''kvlistValue''"
  shows "\<not> free_context (fieldContext ctx kind)" "fieldContext ctx kind \<noteq> ''anyValue''"
    "allowedWireField (fieldContext ctx kind) ''values''"
  unfolding list_context [OF assms] by (auto simp: allowedWireField_def allowedWireFields_def)

section \<open>The steps after the fields\<close>

lemma wire_ok_sorted: "wire_ok ctx (JArray xs) \<Longrightarrow> wire_ok ctx (JArray (sorted_values xs))"
  by (simp add: sorted_values_def list_all_iff)

lemma fields_ok_sortMember: "fields_ok ctx m \<Longrightarrow> fields_ok ctx (sortMember key m)"
  unfolding sortMember_def
  by (auto simp: array_Some split: option.splits dest!: fields_ok_member intro!: fields_ok_put wire_ok_sorted simp del: wire_ok_simps)

lemma scalars_ok_put:
  "scalars_ok m \<Longrightarrow> k \<notin> {''attributes'', ''intValue'', ''bytesValue''} \<Longrightarrow> scalars_ok (go_put k v m)"
  by (auto simp: scalars_ok_def go_get_put)

lemma fields_ok_listDefaults:
  assumes f: "fields_ok ctx m" and c: "\<not> free_context ctx" "kind = ''arrayValue'' \<or> kind = ''kvlistValue''"
  shows "fields_ok ctx (listDefaults kind m)"
proof (cases "object (member m kind)")
  case None
  with f show ?thesis by (simp add: listDefaults_def)
next
  case (Some v)
  then have v: "member m kind = JObject v" by (simp add: object_Some)
  have ok: "allowedWireField ctx kind" "wire_ok (fieldContext ctx kind) (JObject v)"
    using fields_ok_member [OF f v] by simp_all
  note cx = list_context_ok [OF c]
  have vals: "fields_ok (fieldContext ctx kind) v" "scalars_ok v"
    using ok(2) by (simp_all add: wire_ok_object [OF cx(1)])
  have "wire_ok (fieldContext ctx kind) (JObject (defaults v [(''values'', JArray [])]))"
    using vals cx by (simp add: wire_ok_object defaults_def fields_ok_put scalars_ok_put)
  with f ok(1) Some show ?thesis by (simp add: listDefaults_def fields_ok_put)
qed

lemma fields_ok_kvlist:
  assumes f: "fields_ok ctx m" and c: "\<not> free_context ctx" and kv: "member m ''kvlistValue'' = JObject kv"
  shows "fields_ok ctx (go_put ''kvlistValue'' (JObject (sortMember ''values'' kv)) m)"
proof -
  note cx = list_context_ok [OF c disjI2 [OF refl]]
  have ok: "allowedWireField ctx ''kvlistValue''" "wire_ok (fieldContext ctx ''kvlistValue'') (JObject kv)"
    using fields_ok_member [OF f kv] by simp_all
  have "scalars_ok (sortMember ''values'' kv)"
    using ok(2) by (auto simp: wire_ok_object [OF cx(1)] sortMember_def scalars_ok_put split: option.splits)
  with ok cx have "wire_ok (fieldContext ctx ''kvlistValue'') (JObject (sortMember ''values'' kv))"
    by (simp add: wire_ok_object fields_ok_sortMember)
  with f ok(1) show ?thesis by (rule fields_ok_put)
qed

lemma fields_ok_orderLists: "fields_ok ctx m \<Longrightarrow> \<not> free_context ctx \<Longrightarrow> fields_ok ctx (orderLists m)"
  unfolding orderLists_def Let_def
  by (auto simp: object_Some split: option.splits
      intro!: fields_ok_kvlist fields_ok_listDefaults fields_ok_sortMember)

lemma order_attributes: "canonical_order (member (orderLists m) ''attributes'')"
proof -
  have a: "canonical_order (member (sortMember ''attributes'' m) ''attributes'')"
    by (auto simp: sortMember_def canonical_order_def sorted_values_def array_Some split: option.splits json.splits)
  have l: "member (listDefaults kind m) ''attributes'' = member m ''attributes''"
    if "kind \<noteq> ''attributes''" for kind m
    using that by (auto simp: listDefaults_def split: option.splits)
  show ?thesis using a by (auto simp: orderLists_def Let_def l split: option.splits)
qed

lemma orderLists_dom: "dom (go_get (orderLists m)) = dom (go_get m)"
proof -
  have p: "k \<in> dom (go_get m) \<Longrightarrow> dom (go_get (go_put k v m)) = dom (go_get m)" for k v and m :: members
    unfolding go_get_put dom_fun_upd by auto
  have d: "member m k \<noteq> JNull \<Longrightarrow> k \<in> dom (go_get m)" for k and m :: members
    by (auto simp: go_get0_def split: option.splits)
  have s: "dom (go_get (sortMember k m)) = dom (go_get m)" for k and m :: members
    using d [of m k] by (auto simp: sortMember_def array_Some p split: option.splits)
  have l: "dom (go_get (listDefaults k m)) = dom (go_get m)" for k and m :: members
    using d [of m k] by (auto simp: listDefaults_def object_Some p split: option.splits)
  let ?m = "listDefaults ''kvlistValue'' (listDefaults ''arrayValue'' (sortMember ''attributes'' m))"
  show ?thesis
    using d [of ?m "''kvlistValue''"] by (auto simp: orderLists_def Let_def object_Some p s l split: option.splits)
qed

text \<open>One variant per value.\<close>

lemma one_variant_dom: "dom (go_get m') = dom (go_get m) \<Longrightarrow> one_variant m' \<longleftrightarrow> one_variant m"
proof -
  assume d: "dom (go_get m') = dom (go_get m)"
  have "go_get m' k \<noteq> None \<longleftrightarrow> go_get m k \<noteq> None" for k using d by (auto simp: dom_def set_eq_iff)
  then show ?thesis by (simp add: one_variant_def)
qed

lemma dropVariant_fold:
  assumes "distinct keys"
  shows "fold dropVariant keys (m, n) = (m', n') \<Longrightarrow>
    n' = n + length (filter (\<lambda>k. go_get m' k \<noteq> None) keys)
    \<and> (\<forall>k. go_get m' k = (if k \<in> set keys \<and> go_get m k = Some JNull then None else go_get m k))"
  using assms
proof (induction keys arbitrary: m n)
  case Nil
  then show ?case by simp
next
  case (Cons key keys)
  obtain m1 n1 where s: "dropVariant key (m, n) = (m1, n1)" by (cases "dropVariant key (m, n)")
  have m1: "go_get m1 k = (if k = key \<and> go_get m k = Some JNull then None else go_get m k)" for k
    using s by (auto simp: dropVariant_def go_get_delete split: option.splits if_splits)
  have n1: "n1 = n + (if go_get m1 key \<noteq> None then 1 else 0)"
    using s by (auto simp: dropVariant_def go_get_delete split: option.splits if_splits)
  have "fold dropVariant keys (m1, n1) = (m', n')" using Cons.prems(1) s by simp
  from Cons.IH [OF this] Cons.prems(2)
  have ih: "n' = n1 + length (filter (\<lambda>k. go_get m' k \<noteq> None) keys)"
    "\<And>k. go_get m' k = (if k \<in> set keys \<and> go_get m1 k = Some JNull then None else go_get m1 k)" by auto
  have "go_get m' key = go_get m1 key" using ih(2) [of key] Cons.prems(2) by simp
  then have "n' = n + length (filter (\<lambda>k. go_get m' k \<noteq> None) (key # keys))" using ih(1) n1 by simp
  moreover have "go_get m' k = (if k \<in> set (key # keys) \<and> go_get m k = Some JNull then None else go_get m k)" for k
    using ih(2) [of k] m1 [of k] Cons.prems(2) by auto
  ultimately show ?case by blast
qed

lemma variants_distinct: "distinct variants"
  by (simp add: variants_def)

lemma oneVariant_ok:
  assumes "oneVariant m = Inr m'"
  shows "one_variant m'" "fields_ok ctx m \<Longrightarrow> fields_ok ctx m'"
proof -
  obtain n where f: "fold dropVariant variants (m, 0) = (m', n)" "\<not> n > 1"
    using assms by (cases "fold dropVariant variants (m, 0)") (auto simp: oneVariant_def fail_if_Inr_iff)
  then show "one_variant m'" using dropVariant_fold [OF variants_distinct f(1)] by (simp add: one_variant_def)
  have "fields_ok ctx (fst (fold dropVariant keys (m, n)))" if "fields_ok ctx m" for keys m n
    using that
  proof (induction keys arbitrary: m n)
    case (Cons key keys)
    have "fields_ok ctx (fst (dropVariant key (m, n)))"
      using Cons.prems by (auto simp: dropVariant_def fields_ok_delete split: option.splits)
    with Cons.IH show ?case by (cases "dropVariant key (m, n)") simp
  qed simp
  from this [of m variants 0] f(1) show "fields_ok ctx m \<Longrightarrow> fields_ok ctx m'" by simp
qed

section \<open>Scalars\<close>

lemma is_digit_plain: "is_digit c \<Longrightarrow> c \<noteq> CHR ''-'' \<and> c \<noteq> CHR ''+''"
  by (auto simp: is_digit_def)

lemma base64_chars: "list_all (\<lambda>b. b < 256) bytes \<Longrightarrow> c \<in> set (base64_encode bytes)
    \<Longrightarrow> (\<exists>n<64. c = base64_char n) \<or> c = CHR ''=''"
proof (induction bytes rule: base64_encode.induct)
  case (2 a)
  then have "a div 4 < 64" by simp
  moreover have "\<exists>n<64. base64_char (a mod 4 * 16) = base64_char n" by (intro exI [of _ "a mod 4 * 16"]) simp
  ultimately show ?case using 2 by auto
next
  case (3 a b)
  then have "a div 4 < 64" "a mod 4 * 16 + b div 16 < 64" by auto
  moreover have "\<exists>n<64. base64_char (b mod 16 * 4) = base64_char n" by (intro exI [of _ "b mod 16 * 4"]) simp
  ultimately show ?case using 3(2) by auto
next
  case (4 a b c rest)
  then have "a div 4 < 64" "a mod 4 * 16 + b div 16 < 64" "b mod 16 * 4 + c div 64 < 64" by auto
  moreover have "\<exists>n<64. base64_char (c mod 64) = base64_char n" by (intro exI [of _ "c mod 64"]) simp
  ultimately show ?case using 4 by auto
qed simp

lemma base64_char_plain:
  "n < 64 \<Longrightarrow> base64_char n \<noteq> char_of (10 :: nat) \<and> base64_char n \<noteq> char_of (13 :: nat)
    \<and> base64_char n \<noteq> CHR ''-'' \<and> base64_char n \<noteq> CHR ''_''"
proof -
  assume n: "n < 64"
  let ?k = "if n < 26 then 65 + n else if n < 52 then 71 + n else if n < 62 then n - 4 else if n = 62 then 43 else 47"
  have k: "?k < 256" "?k \<noteq> 10" "?k \<noteq> 13" "?k \<noteq> 45" "?k \<noteq> 95" using n by auto
  have b: "byte_of (base64_char n) = ?k" using k(1) by (simp add: base64_char_def)
  have ten: "byte_of (char_of (10 :: nat) :: char) = (10 :: nat)" "byte_of (char_of (13 :: nat) :: char) = (13 :: nat)"
    "byte_of (CHR ''-'') = (45 :: nat)" "byte_of (CHR ''_'') = (95 :: nat)" by simp_all
  show ?thesis using b k(2-5) ten by metis
qed

lemma base64_text_plain:
  assumes "list_all (\<lambda>b. b < 256) bytes" "c \<in> set (base64_encode bytes)"
  shows "c \<noteq> char_of (10 :: nat) \<and> c \<noteq> char_of (13 :: nat) \<and> c \<noteq> CHR ''-'' \<and> c \<noteq> CHR ''_''"
proof -
  have "byte_of (CHR ''='') \<noteq> byte_of (char_of (10 :: nat) :: char)" "byte_of (CHR ''='') \<noteq> byte_of (char_of (13 :: nat) :: char)"
    by simp_all
  then have "CHR ''='' \<noteq> char_of (10 :: nat)" "CHR ''='' \<noteq> char_of (13 :: nat)" by metis+
  then show ?thesis using base64_chars [OF assms] base64_char_plain by auto
qed

lemma base64_roundtrip: "list_all (\<lambda>b. b < 256) bytes \<Longrightarrow> base64_decode True (base64_encode bytes) = Some bytes"
proof -
  assume b: "list_all (\<lambda>b. b < 256) bytes"
  have "filter (\<lambda>c. c \<noteq> char_of (10 :: nat) \<and> c \<noteq> char_of (13 :: nat)) (base64_encode bytes) = base64_encode bytes"
    by (rule filter_True) (use base64_text_plain [OF b] in blast)
  with base64_roundtrip_tail [OF b] show ?thesis by (simp add: base64_decode_def)
qed

lemma base64_tail_bytes: "base64_tail padded s = Some bytes \<Longrightarrow> list_all (\<lambda>b. b < 256) bytes"
proof (induction padded s arbitrary: bytes rule: base64_tail.induct)
  case (4 padded c d e f rest)
  have v: "base64_value c = Some x \<Longrightarrow> x < 64" for c x
    by (auto simp: base64_value_def Let_def split: if_splits)
  from 4 show ?case by (auto split: option.splits if_splits dest!: v)
qed (auto split: option.splits if_splits simp: base64_value_def Let_def)

lemma encoded_encode: "list_all (\<lambda>b. b < 256) bytes \<Longrightarrow> encoded_text (base64_encode bytes)"
  by (simp add: encoded_text_def base64_roundtrip)

lemma canonicalBytes_text: "canonicalBytes v = Some s \<Longrightarrow> encoded_text s"
proof -
  assume a: "canonicalBytes v = Some s"
  then obtain padded raw t where "base64_decode padded t = Some raw" "s = base64_encode raw"
    by (auto simp: canonicalBytes_def Let_def split: option.splits)
  then show ?thesis using encoded_encode base64_tail_bytes by (auto simp: base64_decode_def)
qed

lemma parse_uint10_bound: "parse_uint10 bits s = Some n \<Longrightarrow> n < 2 ^ bits"
  by (auto simp: parse_uint10_def split: if_splits)

lemma atoi_itoa:
  assumes "in_i64 n"
  shows "atoi (itoa n) = Some n"
proof (cases "n < 0")
  case True
  with assms show ?thesis
    using utoa_digits [of "nat (- n)"] by (simp add: itoa_def atoi_def digits_value_utoa)
next
  case False
  with assms atoi_utoa [of "nat n"] show ?thesis by (simp add: itoa_def)
qed

lemma atoi_range: "atoi s = Some n \<Longrightarrow> in_i64 n"
  by (auto simp: atoi_def Let_def split: if_splits)

text \<open>Writing text over a member keeps the fields well typed.\<close>

lemma put_text:
  assumes "k \<in> dom (go_get m)"
  shows "fields_ok ctx m \<Longrightarrow> fields_ok ctx (go_put k (JString t) m)"
    "dom (go_get (go_put k (JString t) m)) = dom (go_get m)"
    "k' \<noteq> k \<Longrightarrow> go_get (go_put k (JString t) m) k' = go_get m k'"
proof -
  obtain c where c: "go_get m k = Some c" using assms by auto
  show "fields_ok ctx (go_put k (JString t) m)" if f: "fields_ok ctx m"
  proof (rule fields_ok_put [OF f])
    show "allowedWireField ctx k" using f c by (simp add: fields_ok_def)
  qed simp
  show "dom (go_get (go_put k (JString t) m)) = dom (go_get m)" using assms unfolding go_get_put dom_fun_upd by auto
  show "k' \<noteq> k \<Longrightarrow> go_get (go_put k (JString t) m) k' = go_get m k'" by (simp add: go_get_put)
qed

text \<open>The three scalars of a value, one after the other.\<close>

lemma normalDouble_ok:
  assumes "normalDouble floatText m = Inr m'"
  shows "m' = m \<or> (\<exists>t. ''doubleValue'' \<in> dom (go_get m) \<and> m' = go_put ''doubleValue'' (JString t) m)"
  using assms by (auto simp: normalDouble_def Let_def fail_if_Inr_iff split: option.splits if_splits)

lemma normalInt_ok:
  assumes "normalInt m = Inr m'"
  shows "m' = m \<and> go_get m ''intValue'' = None
    \<or> (\<exists>n. ''intValue'' \<in> dom (go_get m) \<and> in_i64 n \<and> m' = go_put ''intValue'' (JString (itoa n)) m)"
  using assms by (auto simp: normalInt_def dest: atoi_range split: option.splits)

lemma normalBytes_ok:
  assumes "normalBytes m = Inr m'"
  shows "m' = m \<and> base64_text (member m ''bytesValue'')
    \<or> (\<exists>t. ''bytesValue'' \<in> dom (go_get m) \<and> encoded_text t \<and> m' = go_put ''bytesValue'' (JString t) m)"
proof (cases "member m ''bytesValue''")
  case (JArray xs)
  then have d: "''bytesValue'' \<in> dom (go_get m)" using member_Some [of m "''bytesValue''"] by auto
  obtain raw where raw: "res_map (\<lambda>x. case parse_uint10 8 (str x) of None \<Rightarrow> Inl (Err ''invalid OTLP bytes AnyValue'' [])
      | Some n \<Rightarrow> Inr n) xs = Inr raw" "m' = go_put ''bytesValue'' (JString (base64_encode raw)) m"
    using assms JArray by (auto simp: normalBytes_def res_bind_Inr_iff)
  have "n < 256" if n: "n \<in> set raw" for n
  proof -
    obtain x where "parse_uint10 8 (str x) = Some n"
      using res_map_set [OF raw(1) n] by (auto split: option.splits)
    from parse_uint10_bound [OF this] show ?thesis by simp
  qed
  then have "encoded_text (base64_encode raw)" using encoded_encode by (simp add: list_all_iff)
  with raw(2) d show ?thesis by blast
next
  case (JString s)
  then have d: "''bytesValue'' \<in> dom (go_get m)" using member_Some [of m "''bytesValue''"] by auto
  obtain t where t: "canonicalBytes s = Some t" "m' = go_put ''bytesValue'' (JString t) m"
    using assms JString by (auto simp: normalBytes_def split: option.splits)
  with canonicalBytes_text [OF t(1)] d show ?thesis by blast
qed (use assms in \<open>simp_all add: normalBytes_def base64_text_def\<close>)

lemma finishScalars_ok:
  assumes run: "finishScalars floatText m = Inr r" and f: "fields_ok ctx m" "\<not> free_context ctx"
    and a: "canonical_order (member m ''attributes'')" and one: "ctx = ''anyValue'' \<longrightarrow> one_variant m"
  shows "wire_ok ctx r"
proof -
  obtain m1 m2 m3 where m: "normalDouble floatText m = Inr m1" "normalInt m1 = Inr m2" "normalBytes m2 = Inr m3" "r = JObject m3"
    using run by (auto simp: finishScalars_def res_bind_Inr_iff)
  have d: "fields_ok ctx m1" "dom (go_get m1) = dom (go_get m)" "\<And>k. k \<noteq> ''doubleValue'' \<Longrightarrow> go_get m1 k = go_get m k"
    using normalDouble_ok [OF m(1)] put_text f(1) by (elim disjE exE conjE; simp)+
  have i: "fields_ok ctx m2" "dom (go_get m2) = dom (go_get m1)" "\<And>k. k \<noteq> ''intValue'' \<Longrightarrow> go_get m2 k = go_get m1 k"
    "go_get m2 ''intValue'' = None \<or> decimal_text (member m2 ''intValue'')"
    using normalInt_ok [OF m(2)] put_text d(1) by (elim disjE exE conjE; simp add: decimal_text_def atoi_itoa)+
  have b: "fields_ok ctx m3" "dom (go_get m3) = dom (go_get m2)" "\<And>k. k \<noteq> ''bytesValue'' \<Longrightarrow> go_get m3 k = go_get m2 k"
    "base64_text (member m3 ''bytesValue'')"
    using normalBytes_ok [OF m(3)] put_text i(1) by (elim disjE exE conjE; simp add: base64_text_def)+
  have "one_variant m3 \<longleftrightarrow> one_variant m" using d(2) i(2) b(2) by (intro one_variant_dom) simp
  moreover have "member m3 ''attributes'' = member m ''attributes''"
    using d(3) i(3) b(3) by (simp add: go_get0_def)
  moreover have "go_get m3 ''intValue'' = go_get m2 ''intValue''" using b(3) by simp
  ultimately show ?thesis
    using a one i(4) b(1,4) by (simp add: m(4) wire_ok_object [OF f(2)] scalars_ok_def go_get0_def)
qed

lemma finishObject_ok:
  assumes run: "finishObject floatText ctx m = Inr r" and f: "fields_ok ctx m"
  shows "wire_ok ctx r"
proof (cases "free_context ctx")
  case True
  then have r: "r = JObject [(''$object'', JObject m)]" using run by (auto simp: finishObject_def)
  have "fieldContext ctx k = ''entityRefValue''" for k using True by (simp add: fieldContext_def)
  then have "go_map m \<and> list_all (\<lambda>(_, c). wire_ok ''entityRefValue'' c) m"
    using f [unfolded fields_ok_list] by (auto simp: list_all_iff)
  then show ?thesis unfolding r by (simp add: wire_ok_wrapped [OF True])
next
  case plain: False
  show ?thesis
  proof (cases "ctx = ''anyValue''")
    case any: True
    show ?thesis
    proof (cases "unwrapped m")
      case (Some inner)
      then have "r = inner" using run any by (simp add: finishObject_def)
      moreover have "inner = JObject [] \<or> member m ''value'' = inner \<and> inner \<noteq> JNull"
        using Some by (auto simp: unwrapped_def object_Some split: if_splits option.splits)
      moreover have "wire_ok ctx (JObject [])"
        using plain by (simp add: wire_ok_object scalars_ok_def canonical_order_def base64_text_def go_get0_def one_variant_def variants_def)
      moreover have "fieldContext ctx ''value'' = ctx" using any by (simp add: fieldContext_def)
      ultimately show ?thesis using fields_ok_member [OF f, of "''value''"] by auto
    next
      case None
      then obtain m' where m': "oneVariant m = Inr m'" "finishScalars floatText (orderLists m') = Inr r"
        using run any by (auto simp: finishObject_def res_bind_Inr_iff)
      have f': "fields_ok ctx m'" using oneVariant_ok(2) [OF m'(1)] f by blast
      have "one_variant (orderLists m')"
        using oneVariant_ok(1) [OF m'(1)] one_variant_dom [OF orderLists_dom] by blast
      then show ?thesis
        using finishScalars_ok [OF m'(2) fields_ok_orderLists [OF f' plain] plain order_attributes] by blast
    qed
  next
    case False
    then obtain m' where m': "finishScalars floatText (orderLists m') = Inr r" "fields_ok ctx m'"
    proof (cases "ctx = ''keyValue''")
      case True
      have "fields_ok ctx (keyDefaults m)"
        using f True by (auto simp: keyDefaults_def defaults_def allowedWireField_def allowedWireFields_def
            intro!: fields_ok_put fields_ok_delete)
      then show ?thesis using run True that by (simp add: finishObject_def)
    qed (use run f plain that in \<open>auto simp: finishObject_def\<close>)
    show ?thesis
      using finishScalars_ok [OF m'(1) fields_ok_orderLists [OF m'(2) plain] plain order_attributes] False by blast
  qed
qed

section \<open>Every normalized value is well typed\<close>

lemma checkField_allowed: "checkField ctx encoding v out k c = Inr key \<Longrightarrow> allowedWireField ctx key"
  by (auto simp: checkField_def res_bind_Inr_iff fail_if_Inr_iff split: option.splits)

lemma normalize_array:
  "normalizeWireContext floatText (JArray xs) ctx encoding =
     res_bind (res_map (\<lambda>c.
         fail_if (elementContext ctx \<noteq> [] \<and> elementContext ctx \<noteq> ''entityRefValue'' \<and> object c = None)
           (Err ''invalid OTLP %s element: expected object'' [ctx])
           (normalizeWireContext floatText c (elementContext ctx) encoding)) xs)
       (\<lambda>out. Inr (JArray out))"
  by (subst normalizeWireContext.simps) simp

lemma normalize_object:
  "normalizeWireContext floatText (JObject m) ctx encoding =
     res_bind (res_fold (\<lambda>(k, c) out.
         res_bind (checkField ctx encoding m out k c) (\<lambda>key.
           res_bind (normalizeWireContext floatText c (fieldContext ctx key) encoding) (\<lambda>v.
             Inr (go_put key v out)))) (sort_key fst m) [])
       (finishObject floatText ctx)"
  by (subst normalizeWireContext.simps) simp

lemma normalize_plain:
  "normalizeWireContext floatText (JNumber n) ctx encoding = wireNumber ctx n"
  "normalizeWireContext floatText JNull ctx encoding = Inr JNull"
  "normalizeWireContext floatText (JBool b) ctx encoding = Inr (JBool b)"
  "normalizeWireContext floatText (JString s) ctx encoding = Inr (JString s)"
  "normalizeWireContext floatText (JReport s) ctx encoding = Inr (JReport s)"
  by (simp_all add: normalizeWireContext.simps)

text \<open>Values that decoding can leave: no \<open>reportNumber\<close> inside.\<close>

fun decoded_json :: "json \<Rightarrow> bool" where
  "decoded_json (JReport n) = False"
| "decoded_json (JArray xs) = list_all decoded_json xs"
| "decoded_json (JObject m) = list_all (\<lambda>(_, c). decoded_json c) m"
| "decoded_json _ = True"

lemma normalized_ok:
  "normalizeWireContext floatText v ctx encoding = Inr r \<Longrightarrow> decoded_json v \<Longrightarrow> wire_ok ctx r"
proof (induction "size v" arbitrary: v ctx r rule: less_induct)
  case less
  show ?case
  proof (cases v)
    case (JArray xs)
    obtain ys where ys: "r = JArray ys" "res_map (\<lambda>c.
              fail_if (elementContext ctx \<noteq> [] \<and> elementContext ctx \<noteq> ''entityRefValue'' \<and> object c = None)
                (Err ''invalid OTLP %s element: expected object'' [ctx])
                (normalizeWireContext floatText c (elementContext ctx) encoding)) xs = Inr ys"
      using less.prems(1) unfolding JArray normalize_array by (auto simp: res_bind_Inr_iff)
    have "wire_ok (elementContext ctx) y" if y: "y \<in> set ys" for y
    proof -
      obtain c where c: "c \<in> set xs" "normalizeWireContext floatText c (elementContext ctx) encoding = Inr y"
        using res_map_set [OF ys(2) y] by (auto simp: fail_if_Inr_iff)
      have "size c < size v" using element_size [OF c(1)] by (simp add: JArray)
      moreover have "decoded_json c" using less.prems(2) c(1) by (simp add: JArray list_all_iff)
      ultimately show ?thesis using less.hyps c(2) by blast
    qed
    then show ?thesis by (simp add: ys(1) list_all_iff)
  next
    case (JObject m)
    obtain out where out: "res_fold (\<lambda>(k, c) out.
         res_bind (checkField ctx encoding m out k c) (\<lambda>key.
           res_bind (normalizeWireContext floatText c (fieldContext ctx key) encoding) (\<lambda>v.
             Inr (go_put key v out)))) (sort_key fst m) [] = Inr out" "finishObject floatText ctx out = Inr r"
      using less.prems(1) unfolding JObject normalize_object by (auto simp: res_bind_Inr_iff)
    have "fields_ok ctx out"
    proof (rule res_fold_invariant [OF out(1), of "\<lambda>_. fields_ok ctx"])
      fix before x after u w
      assume all: "sort_key fst m = before @ x # after" and u: "fields_ok ctx u"
        and run: "(\<lambda>(k, c) out. res_bind (checkField ctx encoding m out k c) (\<lambda>key.
           res_bind (normalizeWireContext floatText c (fieldContext ctx key) encoding) (\<lambda>v.
             Inr (go_put key v out)))) x u = Inr w"
      obtain k c where x: "x = (k, c)" by (cases x)
      obtain key v' where s: "checkField ctx encoding m u k c = Inr key"
        "normalizeWireContext floatText c (fieldContext ctx key) encoding = Inr v'" "w = go_put key v' u"
        using run unfolding x by (auto simp: res_bind_Inr_iff)
      have "x \<in> set (sort_key fst m)" by (simp add: all)
      then have kc: "(k, c) \<in> set m" by (simp add: x)
      have "size c < size v" using member_size [OF kc] by (simp add: JObject)
      moreover have "decoded_json c" using less.prems(2) kc by (auto simp: JObject list_all_iff)
      ultimately have "wire_ok (fieldContext ctx key) v'" using less.hyps s(2) by blast
      then show "fields_ok ctx w" unfolding s(3) by (rule fields_ok_put [OF u checkField_allowed [OF s(1)]])
    qed simp
    then show ?thesis by (rule finishObject_ok [OF out(2)])
  next
    case (JNumber n)
    with less.prems(1) show ?thesis
      by (auto simp: normalize_plain wireNumber_def fail_if_Inr_iff split: if_splits)
  next
    case (JReport n)
    with less.prems(2) show ?thesis by simp
  next
    case (JBool b)
    have "r = JBool b" using less.prems(1) unfolding JBool normalize_plain by simp
    then show ?thesis by simp
  next
    case (JString s)
    have "r = JString s" using less.prems(1) unfolding JString normalize_plain by simp
    then show ?thesis by simp
  next
    case JNull
    have "r = JNull" using less.prems(1) unfolding JNull normalize_plain by simp
    then show ?thesis by simp
  qed
qed

section \<open>Payloads\<close>

text \<open>C27. Normalized payloads are well typed: whatever text a payload decodes to, when
  \<open>normalizeWire\<close> accepts it the result has at every depth only the canonical fields of its message,
  each once. An integer value is the decimal text of an \<open>int64\<close> as \<open>itoa\<close> writes it; a
  binary value that is text is the standard padded base64 of its bytes, without line breaks; a value
  has at most one variant; attributes are in the order of their text. A JSON number is left only at
  a trace or span id, where it was one, and as it was written in the parts the protocol gives no
  type (the values of an entity reference, and what stands where the time of an event belongs).\<close>

theorem normalized_payload_typed:
  assumes "decoded_json v" "normalizeWire floatText v encoding = Inr r"
  shows "wire_ok ''tracePayload'' r"
  using assms by (simp add: normalizeWire_def normalized_ok)

definition sample_value :: "string \<Rightarrow> string \<Rightarrow> json" where
  "sample_value k n = JObject [(''key'', JString k), (''value'', JObject [(''intValue'', JNumber n)])]"

definition sample_payload :: json where
  "sample_payload = JObject [(''resource_spans'', JArray [JObject [(''resource'', JObject [(''attributes'',
     JArray [sample_value ''b'' ''07'', sample_value ''a'' ''1''])])]])]"

text \<open>The sample's evaluation, a part at a time.\<close>

lemmas wire_field_eval = checkField_def checkMember_def checkTypes_def canonicalWireField_def allowedWireFields_def
  allowedWireField_def expectsObject_def variantValid_def fieldContext_def elementContext_def
  captureWideStringFields_def captureWideCollectionFields_def protocolStringField_def protocolArrayField_def
  protocolUint32Field_def snakeWireField_def lowerCamelWireField_def encode_rune_def encode_valid_def valid_rune_def
  char_of_def bit_0

lemmas wire_object_eval = finishObject_def unwrapped_def oneVariant_def dropVariant_def variants_def finishScalars_def
  orderLists_def sortMember_def sorted_values_def listDefaults_def keyDefaults_def defaults_def normalDouble_def
  normalInt_def normalBytes_def go_get0_def go_get_put go_delete_def

lemmas wire_text_eval = char_of_def bit_0 quote_def segments_ascii quote_rune_def rune_error_def str_def atoi_def itoa_def
  digits_value_def utoa.simps in_i64_def is_digit_def



lemma sample_int:
  "normalizeWireContext Some (JObject [(''intValue'', JNumber ''07'')]) ''anyValue'' ''json'' = Inr (JObject [(''intValue'', JString ''7'')])"
  "normalizeWireContext Some (JObject [(''intValue'', JNumber ''1'')]) ''anyValue'' ''json'' = Inr (JObject [(''intValue'', JString ''1'')])"
  by (simp add: normalize_object, simp add: normalize_plain wireNumber_def wire_field_eval,
      simp add: wire_object_eval wire_text_eval)+

lemma sample_attribute:
  "normalizeWireContext Some (sample_value ''b'' ''07'') ''keyValue'' ''json'' =
     Inr (JObject [(''key'', JString ''b''), (''value'', JObject [(''intValue'', JString ''7'')])])"
  "normalizeWireContext Some (sample_value ''a'' ''1'') ''keyValue'' ''json'' =
     Inr (JObject [(''key'', JString ''a''), (''value'', JObject [(''intValue'', JString ''1'')])])"
  by (simp add: sample_value_def normalize_object, simp add: normalize_plain wireNumber_def wire_field_eval,
      simp add: sample_int, simp add: wire_object_eval wire_text_eval)+


abbreviation sample_pair :: "string \<Rightarrow> string \<Rightarrow> json" where
  "sample_pair k n \<equiv> JObject [(''key'', JString k), (''value'', JObject [(''intValue'', JString n)])]"

lemma sample_attributes:
  "normalizeWireContext Some (JArray [sample_value ''b'' ''07'', sample_value ''a'' ''1'']) ''keyValues'' ''json'' =
     Inr (JArray [sample_pair ''b'' ''7'', sample_pair ''a'' ''1''])"
  by (simp add: normalize_array elementContext_def sample_attribute) (simp add: sample_value_def)

lemma sample_order: "canonical (sample_pair ''a'' ''1'') < canonical (sample_pair ''b'' ''7'')"
  by (simp add: wire_text_eval)

lemma sample_resource:
  "normalizeWireContext Some (JObject [(''attributes'', JArray [sample_value ''b'' ''07'', sample_value ''a'' ''1''])]) ''resource'' ''json'' =
     Inr (JObject [(''attributes'', JArray [sample_pair ''a'' ''1'', sample_pair ''b'' ''7''])])"
  by (simp add: normalize_object, simp add: wire_field_eval, simp add: sample_attributes,
      simp add: wire_object_eval, simp add: wire_text_eval)

lemma sample_normalized: "normalizeWire Some sample_payload ''json'' =
    Inr (JObject [(''resourceSpans'', JArray [JObject [(''resource'', JObject [(''attributes'',
      JArray [sample_pair ''a'' ''1'', sample_pair ''b'' ''7''])])]])])"
proof -
  have one: "normalizeWireContext Some (JObject [(''resource'', JObject [(''attributes'', JArray [sample_value ''b'' ''07'', sample_value ''a'' ''1''])])]) ''resourceSpan'' ''json'' =
     Inr (JObject [(''resource'', JObject [(''attributes'', JArray [sample_pair ''a'' ''1'', sample_pair ''b'' ''7''])])])"
    by (simp add: normalize_object [of _ "[(''resource'', _)]"], simp add: wire_field_eval, simp add: sample_resource, simp add: wire_object_eval)
  show ?thesis
    by (simp add: normalizeWire_def sample_payload_def normalize_object [of _ "[(''resource_spans'', _)]"],
        simp add: wire_field_eval, simp add: normalize_array elementContext_def one, simp add: wire_object_eval)
qed

lemma normalized_payload_typed_witness:
  "\<exists>r. normalizeWire Some sample_payload ''json'' = Inr r \<and> wire_ok ''tracePayload'' r"
proof -
  have "decoded_json sample_payload" by (simp add: sample_payload_def sample_value_def)
  from normalized_payload_typed [OF this sample_normalized] sample_normalized show ?thesis by blast
qed

section \<open>Spellings of binary values\<close>

text \<open>The spellings of the same bytes that exporters use: the standard or the URL alphabet, with or
  without padding.\<close>

definition base64_spelling :: "bool \<Rightarrow> bool \<Rightarrow> nat list \<Rightarrow> string" where
  "base64_spelling url padded bytes =
     (let s = (if padded then base64_encode bytes else filter (\<lambda>c. c \<noteq> CHR ''='') (base64_encode bytes))
      in if url then map (\<lambda>c. if c = CHR ''+'' then CHR ''-'' else if c = CHR ''/'' then CHR ''_'' else c) s else s)"

lemma base64_char_pad [simp]: "n < 64 \<Longrightarrow> base64_char n \<noteq> CHR ''=''"
  using base64_value_char [of n] base64_pad_value by (metis option.distinct(1))

lemma base64_unpadded:
  "list_all (\<lambda>b. b < 256) bytes \<Longrightarrow>
     base64_tail False (filter (\<lambda>c. c \<noteq> CHR ''='') (base64_encode bytes)) = Some bytes
     \<and> base64_tail True (filter (\<lambda>c. c \<noteq> CHR ''='') (base64_encode bytes)) \<in> {None, Some bytes}"
proof (induction bytes rule: base64_encode.induct)
  case (2 a)
  have "a mod 4 * 16 mod 16 = 0" "a mod 4 * 16 div 16 = a mod 4" "a mod 4 * 16 < 64" "a div 4 < 64" using 2 by auto
  then show ?case by simp
next
  case (3 a b)
  have "a mod 4 * 16 + b div 16 < 64" "b mod 16 * 4 < 64" "a div 4 < 64" using 3 by auto
  moreover have "(a mod 4 * 16 + b div 16) div 16 = a mod 4" "(a mod 4 * 16 + b div 16) mod 16 = b div 16" using 3 by auto
  ultimately show ?case by simp
next
  case (4 a b c rest)
  have lt: "a mod 4 * 16 + b div 16 < 64" "b mod 16 * 4 + c div 64 < 64" "a div 4 < 64" "c mod 64 < 64" using 4(2) by auto
  have "(a mod 4 * 16 + b div 16) div 16 = a mod 4" "(a mod 4 * 16 + b div 16) mod 16 = b div 16"
    "(b mod 16 * 4 + c div 64) div 4 = b mod 16" "(b mod 16 * 4 + c div 64) mod 4 = c div 64" using 4(2) by auto
  with lt 4 show ?case by auto
qed simp

text \<open>C28. One spelling of binary values: \<open>canonicalBytes\<close> gives the standard padded encoding for
  each of the four spellings of the same bytes, so equal values are equal text.\<close>

theorem binary_spellings_agree:
  assumes b: "list_all (\<lambda>b. b < 256) bytes"
  shows "canonicalBytes (base64_spelling url padded bytes) = Some (base64_encode bytes)"
proof -
  let ?norm = "map (\<lambda>c. if c = CHR ''-'' then CHR ''+'' else if c = CHR ''_'' then CHR ''/'' else c)"
  let ?s = "if padded then base64_encode bytes else filter (\<lambda>c. c \<noteq> CHR ''='') (base64_encode bytes)"
  have plain: "c \<noteq> CHR ''-'' \<and> c \<noteq> CHR ''_'' \<and> c \<noteq> char_of (10 :: nat) \<and> c \<noteq> char_of (13 :: nat)" if "c \<in> set ?s" for c
    using base64_text_plain [OF b, of c] that by (auto split: if_splits)
  have norm: "?norm (base64_spelling url padded bytes) = ?s"
  proof (cases url)
    case True
    show ?thesis unfolding base64_spelling_def Let_def if_P [OF True] map_map by (rule map_idI) (use plain in force)
  next
    case False
    show ?thesis unfolding base64_spelling_def Let_def if_not_P [OF False] by (rule map_idI) (use plain in force)
  qed
  have breaks: "filter (\<lambda>c. c \<noteq> char_of (10 :: nat) \<and> c \<noteq> char_of (13 :: nat)) ?s = ?s"
    by (rule filter_True) (use plain in blast)
  show ?thesis
    unfolding canonicalBytes_def norm Let_def base64_decode_def breaks
    using base64_unpadded [OF b] base64_roundtrip_tail [OF b] by auto
qed

lemma binary_spellings_agree_witness:
  "canonicalBytes ''-_8'' = Some ''+/8=''"
  using binary_spellings_agree [of "[251, 255]" True False] by (simp add: base64_spelling_def base64_char_def char_of_def bit_0)

end
