(* ===== verification/CaptureInput.thy ===== *)
theory CaptureInput
  imports CaptureSpec WireSpec
begin

text \<open>
  What \<open>DecodeCapture\<close> reads: JSON is read back from its tokens just when no object repeats a key,
  and every span of a dataset, with or without a diagnostic, is complete and refers to the interned
  resource and scope.
\<close>

section \<open>Tokens of a value\<close>

function tokens :: "json \<Rightarrow> token list" where
  "tokens (JArray xs) = Delim CHR ''['' # concat (map tokens xs) @ [Delim CHR '']'']"
| "tokens (JObject m) = Delim CHR ''{'' # concat (map (\<lambda>(k, v). Scalar (JString k) # tokens v) m) @ [Delim CHR ''}'']"
| "tokens JNull = [Scalar JNull]"
| "tokens (JBool b) = [Scalar (JBool b)]"
| "tokens (JNumber n) = [Scalar (JNumber n)]"
| "tokens (JReport n) = [Scalar (JReport n)]"
| "tokens (JString s) = [Scalar (JString s)]"
  by pat_completeness auto
termination
  by (relation "measure size") (auto intro: member_size element_size)

function unique_keys :: "json \<Rightarrow> bool" where
  "unique_keys (JArray xs) \<longleftrightarrow> list_all unique_keys xs"
| "unique_keys (JObject m) \<longleftrightarrow> go_map m \<and> list_all (\<lambda>(_, v). unique_keys v) m"
| "unique_keys JNull \<longleftrightarrow> True"
| "unique_keys (JBool b) \<longleftrightarrow> True"
| "unique_keys (JNumber n) \<longleftrightarrow> True"
| "unique_keys (JReport n) \<longleftrightarrow> True"
| "unique_keys (JString s) \<longleftrightarrow> True"
  by pat_completeness auto
termination
  by (relation "measure size") (auto intro: member_size element_size)

lemma tokens_more: "has_more (tokens v @ ts)"
  by (cases v) auto

text \<open>The reader's answer on the tokens of a value: the value, or the repeated key.\<close>

definition reads_as :: "'a \<Rightarrow> bool \<Rightarrow> token list \<Rightarrow> ('a \<times> token list) result \<Rightarrow> bool" where
  "reads_as v unique ts r \<longleftrightarrow> (if unique then r = Inr (v, ts) else (\<exists>key. r = Inl (Err ''duplicate JSON key %q'' [key])))"

lemma decodeItems_tokens:
  assumes "\<And>x ts. x \<in> set xs \<Longrightarrow> reads_as x (unique_keys x) ts (decodeUniqueJSON e (tokens x @ ts))"
  shows "reads_as xs (list_all unique_keys xs) (Delim CHR '']'' # ts) (decodeItems e (concat (map tokens xs) @ Delim CHR '']'' # ts))"
  using assms
proof (induction xs)
  case (Cons x xs)
  let ?rest = "concat (map tokens xs) @ Delim CHR '']'' # ts"
  have x: "reads_as x (unique_keys x) ?rest (decodeUniqueJSON e (tokens x @ ?rest))" using Cons.prems by simp
  have xs: "reads_as xs (list_all unique_keys xs) (Delim CHR '']'' # ts) (decodeItems e ?rest)" using Cons by simp
  show ?case
    using x xs tokens_more [of x ?rest] by (subst decodeItems.simps) (auto simp: reads_as_def split: if_splits)
qed (simp add: reads_as_def decodeItems.simps)

lemma decodeMembers_tokens:
  assumes "\<And>k x ts. (k, x) \<in> set m \<Longrightarrow> reads_as x (unique_keys x) ts (decodeUniqueJSON e (tokens x @ ts))"
    and "go_map acc"
  shows "reads_as (acc @ m) (go_map (acc @ m) \<and> list_all (\<lambda>(_, v). unique_keys v) m) (Delim CHR ''}'' # ts)
    (decodeMembers e acc (concat (map (\<lambda>(k, v). Scalar (JString k) # tokens v) m) @ Delim CHR ''}'' # ts))"
  using assms
proof (induction m arbitrary: acc)
  case (Cons kv m)
  obtain k x where kv: "kv = (k, x)" by (cases kv)
  let ?rest = "concat (map (\<lambda>(k, v). Scalar (JString k) # tokens v) m) @ Delim CHR ''}'' # ts"
  have x: "reads_as x (unique_keys x) ?rest (decodeUniqueJSON e (tokens x @ ?rest))"
    by (rule Cons.prems(1) [of k]) (simp add: kv)
  show ?case
  proof (cases "go_get acc k")
    case None
    then have k: "k \<notin> fst ` set acc" by (simp add: map_of_eq_None_iff)
    then have put: "go_put k x acc = acc @ [(k, x)]" by (induction acc) auto
    have acc: "go_map (acc @ [(k, x)])" using Cons.prems(2) k by (auto simp: go_map_def go_keys_def)
    have "reads_as ((acc @ [(k, x)]) @ m) (go_map ((acc @ [(k, x)]) @ m) \<and> list_all (\<lambda>(_, v). unique_keys v) m)
        (Delim CHR ''}'' # ts) (decodeMembers e (acc @ [(k, x)]) ?rest)"
      by (rule Cons.IH [OF _ acc]) (rule Cons.prems(1), erule list.set_intros(2))
    then have rest: "reads_as (acc @ (k, x) # m) (go_map (acc @ (k, x) # m) \<and> list_all (\<lambda>(_, v). unique_keys v) m)
        (Delim CHR ''}'' # ts) (decodeMembers e (acc @ [(k, x)]) ?rest)" by simp
    show ?thesis
      using x rest None by (subst decodeMembers.simps) (auto simp: kv put reads_as_def split: if_splits)
  next
    case (Some y)
    then have "k \<in> fst ` set acc" by (metis map_of_eq_None_iff option.distinct(1))
    then have "\<not> go_map (acc @ kv # m)" by (auto simp: kv go_map_def go_keys_def)
    then show ?thesis using Some by (subst decodeMembers.simps) (auto simp: kv reads_as_def)
  qed
qed (simp add: reads_as_def decodeMembers.simps)

lemma decode_tokens: "reads_as v (unique_keys v) ts (decodeUniqueJSON e (tokens v @ ts))"
proof (induction v arbitrary: ts rule: tokens.induct)
  case (1 xs)
  have "reads_as xs (list_all unique_keys xs) (Delim CHR '']'' # ts) (decodeItems e (concat (map tokens xs) @ Delim CHR '']'' # ts))"
    by (rule decodeItems_tokens) (rule 1)
  then show ?case by (auto simp: reads_as_def split: if_splits)
next
  case (2 m)
  have "reads_as ([] @ m) (go_map ([] @ m) \<and> list_all (\<lambda>(_, v). unique_keys v) m) (Delim CHR ''}'' # ts)
      (decodeMembers e [] (concat (map (\<lambda>(k, v). Scalar (JString k) # tokens v) m) @ Delim CHR ''}'' # ts))"
    by (rule decodeMembers_tokens) (use 2 in \<open>auto simp: go_map_def go_keys_def\<close>)
  then show ?case by (auto simp: reads_as_def split: if_splits)
qed (simp_all add: reads_as_def)

text \<open>C19. \<open>decodeUniqueJSON\<close> reads a value back from its tokens, up to the next token, exactly when no
  object in it repeats a key at any depth; otherwise it reports a repeated key.\<close>

theorem unique_json_roundtrip:
  "(decodeUniqueJSON e (tokens v @ ts) = Inr (v, ts) \<longleftrightarrow> unique_keys v)
   \<and> (unique_keys v \<or> (\<exists>key. decodeUniqueJSON e (tokens v @ ts) = Inl (Err ''duplicate JSON key %q'' [key])))"
  using decode_tokens [of v ts e] by (auto simp: reads_as_def split: if_splits)

section \<open>What a span holds\<close>

definition objects :: "json list \<Rightarrow> bool" where
  "objects xs \<longleftrightarrow> list_all (\<lambda>x. object x \<noteq> None) xs"

definition good_fields :: "members \<Rightarrow> bool" where
  "good_fields m \<longleftrightarrow> (\<exists>name. member m ''name'' = JString name \<and> name \<noteq> [])
     \<and> (\<exists>start stop. member m ''startTimeUnixNano'' = JString (itoa start) \<and> member m ''endTimeUnixNano'' = JString (itoa stop)
          \<and> 0 < start \<and> start \<le> stop \<and> stop < 2 ^ 127)
     \<and> (\<exists>kind \<in> set spanKinds. member m ''kind'' = JString kind)
     \<and> (\<exists>status code. member m ''status'' = JObject status \<and> member status ''code'' = JString code \<and> code \<in> set statusCodes)
     \<and> (\<exists>attributes events links. member m ''attributes'' = JArray attributes
          \<and> member m ''events'' = JArray events \<and> objects events \<and> member m ''links'' = JArray links \<and> objects links)"

lemma enumValue_in: "enumValue U v pre names = Some s \<Longrightarrow> names \<noteq> [] \<Longrightarrow> s \<in> set names"
  by (auto simp: enumValue_def Let_def split: option.splits if_splits)

lemma readStatus_code:
  "readStatus U v = Inr r \<Longrightarrow> \<exists>status code. r = JObject status \<and> member status ''code'' = JString code \<and> code \<in> set statusCodes"
  by (auto simp: readStatus_def Let_def statusCodes_def split: option.splits dest!: enumValue_in)

lemma res_map_objects:
  assumes "\<And>x y. f x = Inr y \<Longrightarrow> object y \<noteq> None"
  shows "res_map f xs = Inr ys \<Longrightarrow> objects ys"
  using assms res_map_set [of f xs ys] unfolding objects_def list_all_iff by blast

lemma readEvent_object: "readEvent x = Inr y \<Longrightarrow> object y \<noteq> None"
  by (auto simp: readEvent_def res_bind_Inr_iff Let_def split: option.splits)

lemma readLink_object: "readLink x = Inr y \<Longrightarrow> object y \<noteq> None"
  by (auto simp: readLink_def res_bind_Inr_iff Let_def split: option.splits)

lemma spanInterval_ok:
  "spanInterval limit m = Inr (start, stop) \<Longrightarrow> 0 < start \<and> start \<le> stop \<and> stop \<le> limit"
  by (auto simp: spanInterval_def fail_if_Inr_iff split: option.splits)

lemma readSpan_good:
  assumes run: "readSpan U limit span = Inr m" and limit: "limit < 2 ^ 127"
  shows "good_fields m"
proof -
  obtain m0 where m0: "object span = Some m0" using run by (auto simp: readSpan_def split: option.splits)
  let ?f = "defaults m0 spanDefaults"
  obtain start stop attributes events links kind status events' links' where r:
    "readName ?f = Inr ()" "spanInterval limit ?f = Inr (start, stop)"
    "enumValue U (member ?f ''kind'') ''SPAN_KIND_'' spanKinds = Some kind" "readStatus U (member ?f ''status'') = Inr status"
    "res_map readEvent events = Inr events'" "res_map readLink links = Inr links'"
    "m = fold (\<lambda>(k, v). go_put k v)
       [(''startTimeUnixNano'', JString (itoa start)), (''endTimeUnixNano'', JString (itoa stop)),
        (''attributes'', JArray attributes), (''events'', JArray events'), (''links'', JArray links'),
        (''kind'', JString kind), (''status'', status)] ?f"
    using run m0 by (auto simp: readSpan_def res_bind_Inr_iff Let_def split: option.splits)
  have name: "\<exists>name. member ?f ''name'' = JString name \<and> name \<noteq> []"
    using r(1) by (auto simp: readName_def fail_if_Inr_iff split: json.splits)
  have kind: "kind \<in> set spanKinds" by (rule enumValue_in [OF r(3)]) (simp add: spanKinds_def)
  note interval = spanInterval_ok [OF r(2)]
  have lists: "objects events'" "objects links'"
    by (rule res_map_objects [OF _ r(5)], erule readEvent_object, rule res_map_objects [OF _ r(6)], erule readLink_object)
  obtain st code where status: "status = JObject st" "member st ''code'' = JString code" "code \<in> set statusCodes"
    using readStatus_code [OF r(4)] by blast
  have m: "member m ''name'' = member ?f ''name''" "member m ''startTimeUnixNano'' = JString (itoa start)"
    "member m ''endTimeUnixNano'' = JString (itoa stop)" "member m ''attributes'' = JArray attributes"
    "member m ''events'' = JArray events'" "member m ''links'' = JArray links'" "member m ''kind'' = JString kind"
    "member m ''status'' = status"
    by (simp_all add: r(7))
  show ?thesis
    unfolding good_fields_def m
  proof (intro conjI)
    show "\<exists>name. member ?f ''name'' = JString name \<and> name \<noteq> []" by (rule name)
    show "\<exists>a b. JString (itoa start) = JString (itoa a) \<and> JString (itoa stop) = JString (itoa b) \<and> 0 < a \<and> a \<le> b \<and> b < 2 ^ 127"
      using interval limit by (intro exI [of _ start] exI [of _ stop]) simp
    show "\<exists>k \<in> set spanKinds. JString kind = JString k" using kind by (rule bexI [rotated]) (rule refl)
    show "\<exists>st' c. status = JObject st' \<and> member st' ''code'' = JString c \<and> c \<in> set statusCodes"
      using status by (intro exI [of _ st] exI [of _ code]) simp
    show "\<exists>as es ls. JArray attributes = JArray as \<and> JArray events' = JArray es \<and> objects es \<and> JArray links' = JArray ls \<and> objects ls"
      using lists by (intro exI [of _ attributes] exI [of _ events'] exI [of _ links']) simp
  qed
qed

section \<open>Interning\<close>

definition interned :: "members list \<Rightarrow> (string, nat) gomap \<Rightarrow> bool" where
  "interned items indexes \<longleftrightarrow> (\<forall>key i. go_get indexes key = Some i \<longleftrightarrow> i < length items \<and> key = canonical (JObject (items ! i)))"

lemma interned_distinct: "interned items indexes \<Longrightarrow> distinct (map (\<lambda>m. canonical (JObject m)) items)"
proof (unfold distinct_conv_nth, intro allI impI)
  fix i j
  assume ok: "interned items indexes" and i: "i < length (map (\<lambda>m. canonical (JObject m)) items)"
    and j: "j < length (map (\<lambda>m. canonical (JObject m)) items)" and "i \<noteq> j"
  have "go_get indexes (canonical (JObject (items ! i))) = Some i" "go_get indexes (canonical (JObject (items ! j))) = Some j"
    using ok i j by (simp_all add: interned_def)
  with \<open>i \<noteq> j\<close> show "map (\<lambda>m. canonical (JObject m)) items ! i \<noteq> map (\<lambda>m. canonical (JObject m)) items ! j"
    using i j by auto
qed

lemma intern_ok:
  assumes ok: "interned items indexes" and run: "intern items indexes v = (i, items', indexes')"
  shows "interned items' indexes'" "i < length items'" "length items \<le> length items'"
proof -
  let ?key = "canonical (JObject v)"
  consider "go_get indexes ?key = Some i" "items' = items" "indexes' = indexes"
    | "go_get indexes ?key = None" "i = length items" "items' = items @ [v]" "indexes' = go_put ?key i indexes"
    using run by (auto simp: intern_def Let_def split: option.splits)
  then have "interned items' indexes' \<and> i < length items' \<and> length items \<le> length items'"
  proof cases
    case 1
    with ok show ?thesis unfolding interned_def by blast
  next
    case 2
    have fresh: "canonical (JObject (items ! j)) \<noteq> ?key" if "j < length items" for j
      using ok 2(1) that unfolding interned_def by (metis option.distinct(1))
    have "interned (items @ [v]) (go_put ?key (length items) indexes)"
      unfolding interned_def go_get_put
    proof (intro allI)
      fix key j
      show "((go_get indexes)(?key \<mapsto> length items)) key = Some j
          \<longleftrightarrow> j < length (items @ [v]) \<and> key = canonical (JObject ((items @ [v]) ! j))"
      proof (cases "key = ?key")
        case True
        then show ?thesis using fresh [of j] by (auto simp: nth_append less_Suc_eq)
      next
        case False
        then show ?thesis using ok [unfolded interned_def, rule_format, of key j] by (auto simp: nth_append less_Suc_eq)
      qed
    qed
    with 2 show ?thesis by simp
  qed
  then show "interned items' indexes'" "i < length items'" "length items \<le> length items'" by blast+
qed

section \<open>The reading\<close>

definition good_span :: "nat \<Rightarrow> nat \<Rightarrow> CapturedSpan \<Rightarrow> bool" where
  "good_span resources scopes s \<longleftrightarrow> good_fields (cs_fields s) \<and> cs_resource s < resources \<and> cs_scope s < scopes"

definition reading_ok :: "reading \<Rightarrow> bool" where
  "reading_ok d \<longleftrightarrow> interned (rd_resources d) (rd_resourceIndexes d) \<and> interned (rd_scopes d) (rd_scopeIndexes d)
     \<and> list_all (good_span (length (rd_resources d)) (length (rd_scopes d))) (rd_spans d)"

lemma good_span_mono: "good_span r s x \<Longrightarrow> r \<le> r' \<Longrightarrow> s \<le> s' \<Longrightarrow> good_span r' s' x"
  by (auto simp: good_span_def)

lemma readSpans_ok:
  assumes "limit < 2 ^ 127" "ri < length (rd_resources d)" "si < length (rd_scopes d)" "reading_ok d"
    "readSpans U limit ri si span d = (d', e)"
  shows "reading_ok d' \<and> length (rd_resources d') = length (rd_resources d) \<and> length (rd_scopes d') = length (rd_scopes d)"
  using assms readSpan_good [of U limit span]
  by (auto simp: readSpans_def or_fail_def reading_ok_def good_span_def newSpan_def split: sum.splits)

lemma or_fail_cases: "or_fail r d f = (d', e) \<Longrightarrow> d' = d \<or> (\<exists>x. r = Inr x \<and> f x = (d', e))"
  by (auto simp: or_fail_def split: sum.splits)

lemma run_each_reading:
  "reading_ok d \<Longrightarrow> run_each f xs d = (d', e) \<Longrightarrow> (\<And>x u v e. reading_ok u \<Longrightarrow> f x u = (v, e) \<Longrightarrow> reading_ok v) \<Longrightarrow> reading_ok d'"
  by (rule run_each_keeps [of xs reading_ok f d d' e])

text \<open>A scope group interns its resource and scope and then appends spans that refer to them.\<close>

lemma readSpans_run_ok:
  assumes limit: "limit < 2 ^ 127" and ri: "ri < length (rd_resources d)" "si < length (rd_scopes d)" and ok: "reading_ok d"
    and run: "run_each (readSpans U limit ri si) spans d = (d', e)"
  shows "reading_ok d'"
proof -
  let ?P = "\<lambda>u. reading_ok u \<and> length (rd_resources u) = length (rd_resources d) \<and> length (rd_scopes u) = length (rd_scopes d)"
  have "?P d'"
  proof (rule run_each_keeps [of spans ?P, OF _ _ run])
    fix x u v eo
    assume p: "?P u" and step: "readSpans U limit ri si x u = (v, eo)"
    have "reading_ok v \<and> length (rd_resources v) = length (rd_resources u) \<and> length (rd_scopes v) = length (rd_scopes u)"
      by (rule readSpans_ok [OF limit _ _ _ step]) (use p ri in simp_all)
    with p show "?P v" by simp
  qed (use ok in simp)
  then show ?thesis by blast
qed

lemma readGroup_ok:
  assumes limit: "limit < 2 ^ 127" and ok: "reading_ok d" and run: "readGroup U limit rs ssv d = (d', e)"
  shows "reading_ok d'"
proof (cases "object ssv")
  case None
  then show ?thesis using run ok by (simp add: readGroup_def)
next
  case (Some ss)
  obtain ri resources rix where r: "intern (rd_resources d) (rd_resourceIndexes d)
      (metadataFields (member rs ''resource'') (member rs ''schemaUrl'') False) = (ri, resources, rix)" by (rule prod_cases3)
  obtain si scopes six where s: "intern (rd_scopes d) (rd_scopeIndexes d)
      (metadataFields (member ss ''scope'') (member ss ''schemaUrl'') True) = (si, scopes, six)" by (rule prod_cases3)
  let ?d = "d\<lparr>rd_resources := resources, rd_resourceIndexes := rix, rd_scopes := scopes, rd_scopeIndexes := six\<rparr>"
  have both: "interned (rd_resources d) (rd_resourceIndexes d)" "interned (rd_scopes d) (rd_scopeIndexes d)"
    using ok by (simp_all add: reading_ok_def)
  note ir = intern_ok [OF both(1) r] and ix = intern_ok [OF both(2) s]
  have "good_span (length resources) (length scopes) x" if "x \<in> set (rd_spans d)" for x
    using ok that ir(3) ix(3) by (auto simp: reading_ok_def list_all_iff intro: good_span_mono)
  then have okd: "reading_ok ?d" using ir(1) ix(1) by (simp add: reading_ok_def list_all_iff)
  from or_fail_cases [OF run [unfolded readGroup_def Some option.case]]
  have "d' = d \<or> (\<exists>spans. run_each (readSpans U limit ri si) spans ?d = (d', e))"
    by (auto simp: r s split: if_splits)
  then show ?thesis
  proof (elim disjE exE)
    fix spans assume "run_each (readSpans U limit ri si) spans ?d = (d', e)"
    from readSpans_run_ok [OF limit _ _ okd this] show ?thesis by (simp add: ir(2) ix(2))
  qed (use ok in simp)
qed

lemma readResource_ok:
  assumes limit: "limit < 2 ^ 127" and ok: "reading_ok d" and run: "readResource U limit resource d = (d', e)"
  shows "reading_ok d'"
proof (cases "object resource")
  case None
  then show ?thesis using run ok by (simp add: readResource_def)
next
  case (Some rs)
  from or_fail_cases [OF run [unfolded readResource_def Some option.case]]
  show ?thesis
  proof (elim disjE exE conjE)
    fix groups assume "run_each (readGroup U limit rs) groups d = (d', e)"
    then show ?thesis by (rule run_each_reading [OF ok]) (rule readGroup_ok [OF limit])
  qed (use ok in simp)
qed

lemma maxTimestamp_bound: "maxTimestamp encoding < 2 ^ 127"
  by (simp add: maxTimestamp_def)

lemma readRecord_ok:
  assumes ok: "reading_ok d" and run: "readRecord U floatText record d = (d', e)"
  shows "reading_ok d'"
proof (cases "str (member (object0 record) ''signal'') = ''traces''")
  case False
  then show ?thesis using run ok by (simp add: readRecord_def Let_def)
next
  case True
  let ?limit = "maxTimestamp (str (member (object0 record) ''encoding''))"
  have "d' = d \<or> (\<exists>resources. run_each (readResource U ?limit) resources d = (d', e))"
    using run [unfolded readRecord_def Let_def] True
    by (auto dest!: or_fail_cases split: option.splits)
  then show ?thesis
  proof (elim disjE exE)
    fix resources assume "run_each (readResource U ?limit) resources d = (d', e)"
    then show ?thesis by (rule run_each_reading [OF ok]) (rule readResource_ok [OF maxTimestamp_bound])
  qed (use ok in simp)
qed

lemma no_reading_ok: "reading_ok no_reading"
  by (simp add: reading_ok_def no_reading_def interned_def)

lemma readCapture_ok:
  assumes run: "readCapture U floatText ts e = (d, eo)"
  shows "reading_ok d"
proof -
  have "d = no_reading \<or> (\<exists>records. run_each (readRecord U floatText) records no_reading = (d, eo))"
    using run [unfolded readCapture_def] by (auto dest!: or_fail_cases split: option.splits if_splits prod.splits)
  then show ?thesis
  proof (elim disjE exE)
    fix records assume "run_each (readRecord U floatText) records no_reading = (d, eo)"
    then show ?thesis by (rule run_each_reading [OF no_reading_ok]) (rule readRecord_ok)
  qed (use no_reading_ok in simp)
qed

text \<open>C18. Whatever the input, with or without a diagnostic, each span of the dataset has a name, an
  interval of positive timestamps in order, a kind and a status of the lists, and lists of events and
  links that are objects; it refers to a resource and a scope of the dataset, and no two resources and
  no two scopes of a dataset have the same text.\<close>

theorem captured_spans_good:
  fixes graphKeys U floatText receipt ts e
  defines "data \<equiv> DecodeCapture graphKeys U floatText receipt ts e"
  shows "list_all (good_span (length (cd_resources data)) (length (cd_scopes data))) (cd_spans data)
    \<and> distinct (map (\<lambda>m. canonical (JObject m)) (cd_resources data))
    \<and> distinct (map (\<lambda>m. canonical (JObject m)) (cd_scopes data))"
proof -
  obtain rd eo where rd: "readCapture U floatText ts e = (rd, eo)" by (cases "readCapture U floatText ts e")
  have ok: "reading_ok rd" by (rule readCapture_ok [OF rd])
  let ?fields = "map (\<lambda>s. (cs_resource s, cs_scope s, cs_fields s))"
  have res: "cd_resources data = rd_resources rd" "cd_scopes data = rd_scopes rd"
    and spans: "?fields (cd_spans data) = ?fields (rd_spans rd)"
    using rd labelSpans_keeps(3)
    by (auto simp: data_def DecodeCapture_def dataset_def Let_def split: option.splits sum.splits elim!: analyseSpans_spec)
  have "list_all (good_span r s) xs = list_all (\<lambda>(ri, si, m). good_fields m \<and> ri < r \<and> si < s) (?fields xs)" for r s xs
    by (simp add: list_all_iff good_span_def)
  note fields_iff = this
  show ?thesis
    using ok interned_distinct unfolding reading_ok_def res fields_iff spans by blast
qed

section \<open>A capture\<close>

definition ex_fields :: members where
  "ex_fields = [(''endTimeUnixNano'', JString ''2''), (''name'', JString ''n''), (''spanId'', JString ''0000000000000001''),
     (''startTimeUnixNano'', JString ''1''), (''traceId'', JString ''0123456789abcdef0123456789abcdef'')]"

definition ex_resource :: "json \<Rightarrow> json" where
  "ex_resource span = JObject [(''scopeSpans'', JArray [JObject [(''spans'', JArray [span])]])]"

definition ex_capture :: json where
  "ex_capture = JArray [JObject [(''signal'', JString ''traces''), (''encoding'', JString ''protobuf''),
     (''payload'', JObject [(''resourceSpans'', JArray [ex_resource (JObject ex_fields)])])]]"

lemma ex_span_normal: "normalizeWireContext floatText (JObject ex_fields) ''span'' ''protobuf'' = Inr (JObject ex_fields)"
  by (simp add: ex_fields_def normalize_object, simp add: normalize_plain wireNumber_def wire_field_eval,
      simp add: wire_object_eval wire_text_eval)

lemma ex_payload_normal:
  "normalizeWire floatText (JObject [(''resourceSpans'', JArray [ex_resource (JObject ex_fields)])]) ''protobuf''
    = Inr (JObject [(''resourceSpans'', JArray [ex_resource (JObject ex_fields)])])"
proof -
  have spans: "normalizeWireContext floatText (JArray [JObject ex_fields]) ''spans'' ''protobuf'' = Inr (JArray [JObject ex_fields])"
    by (simp add: normalize_array elementContext_def ex_span_normal)
  have "normalizeWireContext floatText (JObject [(''spans'', JArray [JObject ex_fields])]) ''scopeSpan'' ''protobuf''
      = Inr (JObject [(''spans'', JArray [JObject ex_fields])])"
    by (simp add: normalize_object [of _ "[(''spans'', _)]"], simp add: wire_field_eval, simp add: spans, simp add: wire_object_eval)
  then have groups: "normalizeWireContext floatText (JArray [JObject [(''spans'', JArray [JObject ex_fields])]]) ''scopeSpans'' ''protobuf''
      = Inr (JArray [JObject [(''spans'', JArray [JObject ex_fields])]])"
    by (simp add: normalize_array elementContext_def)
  have "normalizeWireContext floatText (ex_resource (JObject ex_fields)) ''resourceSpan'' ''protobuf'' = Inr (ex_resource (JObject ex_fields))"
    unfolding ex_resource_def
    by (simp add: normalize_object [of _ "[(''scopeSpans'', _)]"], simp add: wire_field_eval, simp add: groups, simp add: wire_object_eval)
  then have resources: "normalizeWireContext floatText (JArray [ex_resource (JObject ex_fields)]) ''resourceSpans'' ''protobuf''
      = Inr (JArray [ex_resource (JObject ex_fields)])"
    by (simp add: normalize_array elementContext_def) (simp add: ex_resource_def)
  show ?thesis
    unfolding normalizeWire_def
    by (simp add: normalize_object [of _ "[(''resourceSpans'', _)]"], simp add: wire_field_eval, simp add: resources, simp add: wire_object_eval)
qed

definition ex_defaults :: members where
  "ex_defaults = ex_fields @ [(''traceState'', JString []), (''parentSpanId'', JString []), (''attributes'', JArray []),
     (''events'', JArray []), (''links'', JArray []), (''flags'', JString ''0''), (''droppedAttributesCount'', JString ''0''),
     (''droppedEventsCount'', JString ''0''), (''droppedLinksCount'', JString ''0'')]"

lemma ex_defaults: "defaults ex_fields spanDefaults = ex_defaults"
  by (simp add: defaults_def spanDefaults_def ex_fields_def ex_defaults_def go_get0_def)

lemma ex_numbers:
  "big_int ''1'' = Some 1" "big_int ''2'' = Some 2" "atoi [] = None" "atoi ''0'' = Some 0"
  by (simp_all add: big_int_def digits_value_def is_digit_def atoi_def Let_def in_i64_def)

lemma ex_members:
  "member ex_defaults ''name'' = JString ''n''" "member ex_defaults ''startTimeUnixNano'' = JString ''1''"
  "member ex_defaults ''endTimeUnixNano'' = JString ''2''" "member ex_defaults ''attributes'' = JArray []"
  "member ex_defaults ''events'' = JArray []" "member ex_defaults ''links'' = JArray []" "member ex_defaults ''kind'' = JNull"
  "member ex_defaults ''status'' = JNull" "member ex_defaults ''traceId'' = JString ''0123456789abcdef0123456789abcdef''"
  "member ex_defaults ''spanId'' = JString ''0000000000000001''" "member ex_defaults ''parentSpanId'' = JString []"
  by (simp_all add: ex_defaults_def ex_fields_def go_get0_def)

lemma ex_kind: "enumValue U JNull ''SPAN_KIND_'' spanKinds = Some ''unspecified''"
  by (simp add: enumValue_def str_def ex_numbers trim_prefix_def spanKinds_def)

lemma ex_status: "readStatus U JNull = Inr (JObject [(''code'', JString ''unset''), (''message'', JString [])])"
  by (simp add: readStatus_def object0_def defaults_def go_get0_def Let_def enumValue_def str_def ex_numbers statusCodes_def)

lemma ex_read:
  "\<exists>m. readSpan U (maxTimestamp ''protobuf'') (JObject ex_fields) = Inr m
     \<and> member m ''traceId'' = JString ''0123456789abcdef0123456789abcdef''
     \<and> member m ''spanId'' = JString ''0000000000000001'' \<and> member m ''parentSpanId'' = JString []"
  by (simp add: readSpan_def ex_defaults readName_def spanInterval_def ex_members str_def ex_numbers maxTimestamp_def
      repeatedField_def ex_kind ex_status)

lemma ex_reading:
  assumes m: "readSpan U (maxTimestamp ''protobuf'') (JObject ex_fields) = Inr m"
  shows "\<exists>rd. readCapture U floatText (tokens ex_capture) io_EOF = (rd, None) \<and> rd_spans rd = [newSpan 0 0 m]"
proof -
  have keys: "unique_keys ex_capture"
    by (simp add: ex_capture_def ex_resource_def ex_fields_def go_map_def go_keys_def)
  have dec: "decodeUniqueJSON io_EOF (tokens ex_capture) = Inr (ex_capture, [])"
    using decode_tokens [of ex_capture "[]" io_EOF] keys by (simp add: reads_as_def)
  show ?thesis
    using m by (simp add: readCapture_def or_fail_def dec) (simp add: ex_capture_def checkRecord_def object0_def go_get0_def str_def
        readRecord_def or_fail_def ex_payload_normal [unfolded ex_resource_def] repeatedField_def readResource_def ex_resource_def
        Let_def readGroup_def intern_def no_reading_def readSpans_def)
qed

text \<open>Its one span is a root, so it is fingerprinted and labelled.\<close>

lemma ex_span_index:
  assumes "rd_spans rd = [newSpan 0 0 m]" "member m ''traceId'' = JString ''0123456789abcdef0123456789abcdef''"
     "member m ''spanId'' = JString ''0000000000000001''" "member m ''parentSpanId'' = JString []"
  shows "\<exists>ix. indexSpans U (rd_spans rd) = Inr ix
    \<and> (\<forall>i < length (rd_spans rd). ancestor (linkParents ix (length (rd_spans rd))) maxLevels i = None)"
proof -
  obtain ix where ix: "indexSpans U (rd_spans rd) = Inr ix" "ix_parentIDs ix = [[]]"
    using assms by (auto simp: indexSpans_def identifySpan_def newSpan_def no_index_def Let_def go_get0_put)
  let ?fo = "linkParents ix (length (rd_spans rd))"
  have n: "length (rd_spans rd) = 1" using assms(1) by simp
  have "index_ok ix 1" using indexSpans_ok [OF ix(1)] n by simp
  then have "fo_parents ?fo ! 0 = None" using linkParents_eq(3) [of ix 1 0] ix(2) n by (simp add: parentOf_def)
  then have "ancestor ?fo 1 0 = None" by simp
  then have "ancestor ?fo maxLevels 0 = None"
    using ancestor_mono [of ?fo maxLevels 0 1] by (cases "ancestor ?fo maxLevels 0") (auto simp: maxLevels_def)
  then show ?thesis using ix(1) n by auto
qed

lemma ex_analysis:
  assumes "rd_spans rd = [newSpan 0 0 m]" "member m ''traceId'' = JString ''0123456789abcdef0123456789abcdef''"
     "member m ''spanId'' = JString ''0000000000000001''" "member m ''parentSpanId'' = JString []"
  shows "\<exists>d. analyseSpans (\<lambda>_ base _ _. Inr base) U rd = Inr d"
proof -
  obtain ix where ix: "indexSpans U (rd_spans rd) = Inr ix"
    "\<forall>i < length (rd_spans rd). ancestor (linkParents ix (length (rd_spans rd))) maxLevels i = None"
    using ex_span_index [OF assms] by blast
  with fingerprint_depth [OF linkParents_ok [OF indexSpans_ok [OF ix(1)]], of U]
  obtain prints where "fingerprintAll U (rd_spans rd) (fo_children (linkParents ix (length (rd_spans rd)))) = Inr prints" by blast
  then show ?thesis by (simp add: analyseSpans_def ix(1) Let_def labelLinks_def)
qed

text \<open>C16. The shape of a capture that is read without a diagnostic shows each captured span in
  exactly one node, every node counts its spans, and the totals are the numbers of traces and spans;
  for every choice of the labels of link targets.\<close>

theorem capture_shape_complete:
  assumes "DecodeCapture graphKeys U floatText receipt stream e = data" "cd_diagnostics data = []"
  shows "mset (shapeOccurrences (ss_traces (cd_shape data))) = mset [0..<length (cd_spans data)]
    \<and> (\<forall>g \<in> set (ss_traces (cd_shape data)). tg_exact g \<and> list_all exact_group (tg_roots g))
    \<and> (\<Sum>g\<leftarrow>ss_traces (cd_shape data). tg_count g) = ss_traceCount (cd_shape data)
    \<and> ss_spanCount (cd_shape data) = int (length (cd_spans data))"
  using capture_shape_spans [OF assms] by blast

lemma capture_shape_complete_witness:
  "\<exists>data. data = DecodeCapture (\<lambda>_ base _ _. Inr base) plain_tables Some ex_receipt (tokens ex_capture) io_EOF
     \<and> cd_diagnostics data = [] \<and> mset (shapeOccurrences (ss_traces (cd_shape data))) = {#0#} \<and> ss_spanCount (cd_shape data) = 1"
proof -
  let ?G = "\<lambda>_ base _ _. Inr base :: string list result" and ?U = plain_tables
  obtain m where m: "readSpan ?U (maxTimestamp ''protobuf'') (JObject ex_fields) = Inr m"
     "member m ''traceId'' = JString ''0123456789abcdef0123456789abcdef''"
     "member m ''spanId'' = JString ''0000000000000001''" "member m ''parentSpanId'' = JString []"
    using ex_read by blast
  obtain rd where rd: "readCapture ?U Some (tokens ex_capture) io_EOF = (rd, None)" "rd_spans rd = [newSpan 0 0 m]"
    using ex_reading [OF m(1)] by blast
  obtain d where d: "analyseSpans ?G ?U rd = Inr d" using ex_analysis [OF rd(2) m(2-4)] by blast
  let ?data = "DecodeCapture ?G ?U Some ex_receipt (tokens ex_capture) io_EOF"
  have diag: "cd_diagnostics ?data = []" and spans: "cd_spans ?data = cp_spans (labelSpans ?U d)"
    using rd(1) d by (simp_all add: DecodeCapture_def dataset_def Let_def)
  obtain ix where "map (\<lambda>s. (cs_resource s, cs_scope s, cs_fields s)) (cp_spans d) = map (\<lambda>s. (cs_resource s, cs_scope s, cs_fields s)) (rd_spans rd)"
    using analyseSpans_spec [OF d] by blast
  then have "length (cd_spans ?data) = 1"
    using arg_cong [OF labelSpans_keeps(3) [of ?U d], of length] rd(2) unfolding spans by (auto dest: arg_cong [of _ _ length])
  with capture_shape_complete [OF refl diag] diag show ?thesis by (intro exI [of _ ?data]) simp
qed

end
