(* ===== verification/GraphKeys.thy ===== *)
theory GraphKeys
  imports CaptureShape
begin

text \<open>
  The labels of link targets, the closure \<open>buildGraphAwareTargetKeys\<close> of \<open>DecodeCapture\<close> in
  \<open>src/report/report/capture.go\<close>: the graph of the links between the spans, its strongly connected
  components by Tarjan's algorithm, and the labels of the components from the leaves of their graph
  up, with rooted certificates, refinement of classes and orbits. A span is its position. The cache of
  whole results is left out: it returns what it has computed.
\<close>

section \<open>The graph of the links\<close>

text \<open>The target -1 of a link that leads out of the capture is \<open>None\<close>.\<close>

record graphEdge =
  ge_relationship :: string
  ge_target :: "nat option"
  ge_external :: string
  ge_shared :: string

definition edgeRelationship :: "unicode_tables \<Rightarrow> captured \<Rightarrow> (string \<Rightarrow> string) \<Rightarrow> nat \<Rightarrow> json \<Rightarrow> string" where
  "edgeRelationship U d parentLabels i v =
     (case linkTarget U v of (tid, sid, validTarget) \<Rightarrow>
       (let targetKey = spanID_key tid sid
        in if \<not> validTarget then (if tid = [] \<and> sid = [] then ''missing trace/span'' else ''invalid trace/span'')
           else (case go_get (ix_ids (cp_index d)) targetKey of
              Some j \<Rightarrow> if j = i then ''self''
                        else if tid = cp_traceID d i then ''captured in same trace'' else ''captured in another trace''
            | None \<Rightarrow>
                if targetKey \<in> fo_anchors (cp_lineage d) then ''external parent '' @ parentLabels targetKey
                else if tid = cp_traceID d i then ''external span in same trace'' else ''external trace/span'')))"

definition linkEdge :: "unicode_tables \<Rightarrow> captured \<Rightarrow> (string \<Rightarrow> string) \<Rightarrow> (string \<Rightarrow> string) \<Rightarrow> nat \<Rightarrow> json \<Rightarrow> graphEdge" where
  "linkEdge U d targetDigests parentLabels i v =
     (case linkTarget U v of (tid, sid, validTarget) \<Rightarrow>
       (let targetKey = spanID_key tid sid;
            target = (if validTarget then go_get (ix_ids (cp_index d)) targetKey else None)
        in \<lparr>ge_relationship = edgeRelationship U d parentLabels i v, ge_target = target,
            ge_external = (if target = None then targetKey else []), ge_shared = targetDigests targetKey\<rparr>))"

definition linkEdges :: "unicode_tables \<Rightarrow> captured \<Rightarrow> (string \<Rightarrow> string) \<Rightarrow> (string \<Rightarrow> string) \<Rightarrow> graphEdge list list" where
  "linkEdges U d targetDigests parentLabels =
     map (\<lambda>i. map (linkEdge U d targetDigests parentLabels i) (spanLinks d i)) [0..<cp_count d]"

text \<open>What points at a target outside: of a valid link, the key of its span, its place and its relationship.\<close>

definition incomingLink :: "unicode_tables \<Rightarrow> captured \<Rightarrow> (string \<Rightarrow> string) \<Rightarrow> string list \<Rightarrow> string \<Rightarrow> nat
    \<Rightarrow> nat \<times> json \<Rightarrow> string option" where
  "incomingLink U d parentLabels base target i = (\<lambda>(linkIndex, v).
     case linkTarget U v of (tid, sid, validTarget) \<Rightarrow>
       if validTarget \<and> spanID_key tid sid = target \<and> go_get (ix_ids (cp_index d)) target = None then
         Some (canonical (JArray [JString (base ! i), JNumber (itoa (int linkIndex)),
           JString (edgeRelationship U d parentLabels i v)]))
       else None)"

definition externalTargetLabel :: "unicode_tables \<Rightarrow> captured \<Rightarrow> (string \<Rightarrow> string) \<Rightarrow> string list \<Rightarrow> string \<Rightarrow> string" where
  "externalTargetLabel U d parentLabels base target =
     (let incoming = concat (map (\<lambda>i. List.map_filter (incomingLink U d parentLabels base target i)
            (List.enumerate 0 (spanLinks d i))) [0..<cp_count d])
      in if incoming = [] then [] else shortDigest (text_list (sort incoming)))"

text \<open>The targets inside, in the order of the links\<close>

definition successors :: "graphEdge list \<Rightarrow> nat list" where
  "successors es = List.map_filter ge_target es"

section \<open>Strongly connected components\<close>

text \<open>
  The state of \<open>connect\<close>: the top of the stack is the head of the list, and the components are in
  the order in which they were completed.
\<close>

record tarjan =
  ta_indexes :: "nat option list"
  ta_lowlinks :: "nat list"
  ta_onStack :: "bool list"
  ta_stack :: "nat list"
  ta_components :: "nat list list"
  ta_next :: nat

definition openNode :: "nat \<Rightarrow> tarjan \<Rightarrow> tarjan" where
  "openNode i s = s\<lparr>ta_indexes := (ta_indexes s)[i := Some (ta_next s)], ta_lowlinks := (ta_lowlinks s)[i := ta_next s],
     ta_next := ta_next s + 1, ta_stack := i # ta_stack s, ta_onStack := (ta_onStack s)[i := True]\<rparr>"

definition lowerLink :: "nat \<Rightarrow> nat \<Rightarrow> tarjan \<Rightarrow> tarjan" where
  "lowerLink i v s = (if v < ta_lowlinks s ! i then s\<lparr>ta_lowlinks := (ta_lowlinks s)[i := v]\<rparr> else s)"

text \<open>The loop that takes the members of a component from the stack, up to \<open>i\<close>\<close>

fun popUntil :: "nat \<Rightarrow> nat list \<Rightarrow> nat list \<times> nat list" where
  "popUntil i [] = ([], [])"
| "popUntil i (m # stack) =
     (if m = i then ([m], stack)
      else (case popUntil i stack of (component, rest) \<Rightarrow> (m # component, rest)))"

definition closeNode :: "nat \<Rightarrow> tarjan \<Rightarrow> tarjan" where
  "closeNode i s =
     (if Some (ta_lowlinks s ! i) \<noteq> ta_indexes s ! i then s
      else (case popUntil i (ta_stack s) of (component, rest) \<Rightarrow>
        s\<lparr>ta_stack := rest, ta_onStack := fold (\<lambda>m on. on[m := False]) component (ta_onStack s),
          ta_components := ta_components s @ [component]\<rparr>))"

text \<open>A span out of range would panic; no link has one.\<close>

definition unindexed :: "tarjan \<Rightarrow> nat" where
  "unindexed s = length (filter (\<lambda>x. x = None) (ta_indexes s))"

function connect :: "nat list list \<Rightarrow> nat \<Rightarrow> tarjan \<Rightarrow> tarjan"
  and connectEdges :: "nat list list \<Rightarrow> nat \<Rightarrow> nat list \<Rightarrow> tarjan \<Rightarrow> tarjan" where
  "connect succ i s =
     (if length (ta_indexes s) \<le> i \<or> ta_indexes s ! i \<noteq> None then s
      else closeNode i (connectEdges succ i (succ ! i) (openNode i s)))"
| "connectEdges succ i [] s = s"
| "connectEdges succ i (t # ts) s =
     connectEdges succ i ts
       (if ta_indexes s ! t = None then (let s = connect succ t s in lowerLink i (ta_lowlinks s ! t) s)
        else if ta_onStack s ! t then lowerLink i (the (ta_indexes s ! t)) s else s)"
  by pat_completeness auto

lemma unindexed_simps [simp]:
  "unindexed (lowerLink i v s) = unindexed s" "ta_indexes (lowerLink i v s) = ta_indexes s"
  "ta_indexes (closeNode i s) = ta_indexes s" "unindexed (closeNode i s) = unindexed s"
  by (simp_all add: lowerLink_def closeNode_def unindexed_def split: prod.split)

lemma unindexed_open:
  assumes "i < length (ta_indexes s)" "ta_indexes s ! i = None"
  shows "unindexed (openNode i s) < unindexed s"
proof -
  have "xs ! i = None \<Longrightarrow> i < length xs \<Longrightarrow>
      length (filter (\<lambda>x. x = None) (xs[i := Some n])) < length (filter (\<lambda>x. x = None) xs)"
    for xs :: "nat option list" and n
  proof (induction xs arbitrary: i)
    case (Cons x xs)
    then show ?case by (cases i) auto
  qed simp
  with assms show ?thesis by (simp add: unindexed_def openNode_def)
qed

lemma connect_visits_dom:
  "connect_connectEdges_dom (Inl (succ, i, s)) \<Longrightarrow> unindexed (connect succ i s) \<le> unindexed s"
  "connect_connectEdges_dom (Inr (succ, i, ts, s)) \<Longrightarrow> unindexed (connectEdges succ i ts s) \<le> unindexed s"
proof (induction rule: connect_connectEdges.pinduct)
  case (1 succ i s)
  show ?case
  proof (cases "length (ta_indexes s) \<le> i \<or> ta_indexes s ! i \<noteq> None")
    case False
    then have "unindexed (openNode i s) < unindexed s" by (intro unindexed_open) auto
    with 1 False show ?thesis by (simp add: connect.psimps)
  qed (use 1(1) in \<open>auto simp: connect.psimps\<close>)
next
  case (3 succ i t ts s)
  then show ?case by (auto simp: connectEdges.psimps Let_def split: if_splits intro: le_trans)
qed (simp add: connectEdges.psimps)

termination connect
  by (relation "measures [\<lambda>a. case a of Inl (_, _, s) \<Rightarrow> unindexed s | Inr (_, _, _, s) \<Rightarrow> unindexed s,
        \<lambda>a. case a of Inl _ \<Rightarrow> 0 | Inr (_, _, ts, _) \<Rightarrow> Suc (length ts)]")
    (auto simp: Let_def intro: unindexed_open dest!: connect_visits_dom(1) le_imp_less_or_eq)

text \<open>The loop over the spans, and the component of each member\<close>

definition tarjanStart :: "nat \<Rightarrow> tarjan" where
  "tarjanStart n = \<lparr>ta_indexes = replicate n None, ta_lowlinks = replicate n 0, ta_onStack = replicate n False,
     ta_stack = [], ta_components = [], ta_next = 0\<rparr>"

definition runTarjan :: "nat list list \<Rightarrow> tarjan" where
  "runTarjan succ =
     fold (\<lambda>i s. if ta_indexes s ! i = None then connect succ i s else s) [0..<length succ] (tarjanStart (length succ))"

definition linkComponents :: "nat list list \<Rightarrow> nat list list" where
  "linkComponents succ = ta_components (runTarjan succ)"

definition componentOf :: "nat \<Rightarrow> nat list list \<Rightarrow> nat list" where
  "componentOf n components =
     fold (\<lambda>(component, members) out. fold (\<lambda>member out. out[member := component]) members out)
       (List.enumerate 0 components) (replicate n 0)"

section \<open>Labels of a component\<close>

text \<open>What the closures inside \<open>labelComponent\<close> read: the graph, the component, the labels so far.\<close>

record linkGraph =
  lg_base :: "string list"
  lg_edges :: "graphEdge list list"
  lg_external :: "string \<Rightarrow> string"
  lg_components :: "nat list list"
  lg_componentOf :: "nat list"

definition sameComponent :: "linkGraph \<Rightarrow> nat \<Rightarrow> nat \<Rightarrow> bool" where
  "sameComponent g component i \<longleftrightarrow> lg_componentOf g ! i = component"

text \<open>The member \<open>sharedTarget\<close> of a description is there only for a shared target.\<close>

definition sharedMember :: "graphEdge \<Rightarrow> members" where
  "sharedMember e = (if ge_shared e \<noteq> [] then [(''sharedTarget'', JString (ge_shared e))] else [])"

definition edgeDescriptor :: "graphEdge \<Rightarrow> string \<Rightarrow> json \<Rightarrow> json" where
  "edgeDescriptor e key v =
     JObject ([(''relationship'', JString (ge_relationship e)), (key, v)] @ sharedMember e)"

subsection \<open>Rooted certificates\<close>

text \<open>
  \<open>visit\<close> and its loop over the links; \<open>visited\<close> maps a member to its reference. A member of the
  component that is out of range would panic; there is none.
\<close>

definition unreached :: "nat \<Rightarrow> (nat, nat) gomap \<Rightarrow> nat" where
  "unreached n visited = length (filter (\<lambda>m. go_get visited m = None) [0..<n])"

function certify :: "linkGraph \<Rightarrow> string list \<Rightarrow> nat \<Rightarrow> nat \<Rightarrow> (nat, nat) gomap \<Rightarrow> json \<times> (nat, nat) gomap"
  and certifyEdges :: "linkGraph \<Rightarrow> string list \<Rightarrow> nat \<Rightarrow> graphEdge list \<Rightarrow> (nat, nat) gomap
    \<Rightarrow> json list \<times> (nat, nat) gomap" where
  "certify g keys component i visited =
     (case go_get visited i of
        Some reference \<Rightarrow> (JObject [(''reference'', JNumber (itoa (int reference)))], visited)
      | None \<Rightarrow>
          if length (lg_edges g) \<le> i then (JNull, visited)
          else (case certifyEdges g keys component (lg_edges g ! i) (go_put i (length visited) visited) of
            (outgoing, visited) \<Rightarrow>
              (JObject [(''occurrence'', JString (lg_base g ! i)), (''links'', JArray outgoing)], visited)))"
| "certifyEdges g keys component [] visited = ([], visited)"
| "certifyEdges g keys component (e # es) visited =
     (case (case ge_target e of
              None \<Rightarrow> (edgeDescriptor e ''externalTarget'' (JString (lg_external g (ge_external e))), visited)
            | Some t \<Rightarrow>
                if sameComponent g component t then
                  (case certify g keys component t visited of (v, visited) \<Rightarrow> (edgeDescriptor e ''target'' v, visited))
                else (edgeDescriptor e ''target'' (JString (keys ! t)), visited)) of
        (descriptor, visited) \<Rightarrow>
          (case certifyEdges g keys component es visited of (outgoing, visited) \<Rightarrow> (descriptor # outgoing, visited)))"
  by pat_completeness auto

lemma unreached_put:
  "i < n \<Longrightarrow> go_get visited i = None \<Longrightarrow> unreached n (go_put i r visited) < unreached n visited"
proof -
  assume i: "i < n" "go_get visited i = None"
  have "set (filter (\<lambda>m. go_get (go_put i r visited) m = None) [0..<n])
      \<subset> set (filter (\<lambda>m. go_get visited m = None) [0..<n])"
    using i by (auto simp: go_get_put)
  then show ?thesis
    unfolding unreached_def
    by (metis distinct_card distinct_filter distinct_upt finite_set psubset_card_mono)
qed

lemma certify_visits_dom:
  "certify_certifyEdges_dom (Inl (g, keys, component, i, visited)) \<Longrightarrow>
     unreached (length (lg_edges g)) (snd (certify g keys component i visited)) \<le> unreached (length (lg_edges g)) visited"
  "certify_certifyEdges_dom (Inr (g, keys, component, es, visited)) \<Longrightarrow>
     unreached (length (lg_edges g)) (snd (certifyEdges g keys component es visited)) \<le> unreached (length (lg_edges g)) visited"
proof (induction rule: certify_certifyEdges.pinduct)
  case (1 g keys component i visited)
  show ?case
  proof (cases "go_get visited i = None \<and> i < length (lg_edges g)")
    case True
    with 1(2) unreached_put [of i "length (lg_edges g)" visited "length visited"] show ?thesis
      using 1(1) by (auto simp: certify.psimps split: prod.split)
  next
    case False
    then show ?thesis using 1(1) by (auto simp: certify.psimps split: option.split)
  qed
next
  case (3 g keys component e es visited)
  then show ?case
    by (fastforce simp: certifyEdges.psimps split: prod.split option.split intro: le_trans)
qed (simp add: certifyEdges.psimps)

termination certify
  by (relation "measures [\<lambda>a. case a of Inl (g, _, _, _, visited) \<Rightarrow> unreached (length (lg_edges g)) visited
          | Inr (g, _, _, _, visited) \<Rightarrow> unreached (length (lg_edges g)) visited,
        \<lambda>a. case a of Inl _ \<Rightarrow> 0 | Inr (_, _, _, es, _) \<Rightarrow> Suc (length es)]")
    (auto intro: unreached_put dest!: certify_visits_dom(1) simp: le_less split: option.splits if_splits prod.splits)

declare certify.simps [simp del]

definition rootedCertificate :: "linkGraph \<Rightarrow> string list \<Rightarrow> nat \<Rightarrow> nat \<Rightarrow> json" where
  "rootedCertificate g keys component root = fst (certify g keys component root [])"

subsection \<open>Streamed certificates\<close>

text \<open>\<open>binary.PutUvarint\<close>, a byte and a string\<close>

fun uvarint :: "nat \<Rightarrow> string" where
  "uvarint n = (if n < 128 then [char_of n] else char_of (128 + n mod 128) # uvarint (n div 128))"

declare uvarint.simps [simp del]

definition sized :: "string \<Rightarrow> string" where
  "sized v = uvarint (length v) @ v"

text \<open>
  The bytes that go into the hash. The generation counter makes the two slices of the code a fresh
  map for each root; the keys of the map are the members in the order of their references.
\<close>

function streamed :: "linkGraph \<Rightarrow> string list \<Rightarrow> nat \<Rightarrow> nat \<Rightarrow> (nat, nat) gomap \<Rightarrow> string \<times> (nat, nat) gomap"
  and streamedEdges :: "linkGraph \<Rightarrow> string list \<Rightarrow> nat \<Rightarrow> graphEdge list \<Rightarrow> (nat, nat) gomap
    \<Rightarrow> string \<times> (nat, nat) gomap" where
  "streamed g keys component i visited =
     (case go_get visited i of
        Some reference \<Rightarrow> (''r'' @ uvarint reference, visited)
      | None \<Rightarrow>
          if length (lg_edges g) \<le> i then ([], visited)
          else (case streamedEdges g keys component (lg_edges g ! i) (go_put i (length visited) visited) of
            (out, visited) \<Rightarrow>
              (''n'' @ sized (lg_base g ! i) @ uvarint (length (lg_edges g ! i)) @ out, visited)))"
| "streamedEdges g keys component [] visited = ([], visited)"
| "streamedEdges g keys component (e # es) visited =
     (case (case ge_target e of
              None \<Rightarrow> (''e'' @ sized (lg_external g (ge_external e)), visited)
            | Some t \<Rightarrow>
                if sameComponent g component t then
                  (case streamed g keys component t visited of (out, visited) \<Rightarrow> (''i'' @ out, visited))
                else (''x'' @ sized (keys ! t), visited)) of
        (out, visited) \<Rightarrow>
          (case streamedEdges g keys component es visited of
             (rest, visited) \<Rightarrow> (sized (ge_relationship e) @ sized (ge_shared e) @ out @ rest, visited)))"
  by pat_completeness auto

lemma streamed_visits_dom:
  "streamed_streamedEdges_dom (Inl (g, keys, component, i, visited)) \<Longrightarrow>
     unreached (length (lg_edges g)) (snd (streamed g keys component i visited)) \<le> unreached (length (lg_edges g)) visited"
  "streamed_streamedEdges_dom (Inr (g, keys, component, es, visited)) \<Longrightarrow>
     unreached (length (lg_edges g)) (snd (streamedEdges g keys component es visited)) \<le> unreached (length (lg_edges g)) visited"
proof (induction rule: streamed_streamedEdges.pinduct)
  case (1 g keys component i visited)
  show ?case
  proof (cases "go_get visited i = None \<and> i < length (lg_edges g)")
    case True
    with 1(2) unreached_put [of i "length (lg_edges g)" visited "length visited"] show ?thesis
      using 1(1) by (auto simp: streamed.psimps split: prod.split)
  next
    case False
    then show ?thesis using 1(1) by (auto simp: streamed.psimps split: option.split)
  qed
next
  case (3 g keys component e es visited)
  then show ?case
    by (fastforce simp: streamedEdges.psimps split: prod.split option.split intro: le_trans)
qed (simp add: streamedEdges.psimps)

termination streamed
  by (relation "measures [\<lambda>a. case a of Inl (g, _, _, _, visited) \<Rightarrow> unreached (length (lg_edges g)) visited
          | Inr (g, _, _, _, visited) \<Rightarrow> unreached (length (lg_edges g)) visited,
        \<lambda>a. case a of Inl _ \<Rightarrow> 0 | Inr (_, _, _, es, _) \<Rightarrow> Suc (length es)]")
    (auto intro: unreached_put dest!: streamed_visits_dom(1) simp: le_less split: option.splits if_splits prod.splits)

declare streamed.simps [simp del]

text \<open>The digest of the bytes, and the order of the members\<close>

definition streamedRootedCertificate :: "linkGraph \<Rightarrow> string list \<Rightarrow> nat \<Rightarrow> nat \<Rightarrow> string \<times> nat list" where
  "streamedRootedCertificate g keys component root =
     (case streamed g keys component root [] of (out, visited) \<Rightarrow> (digest out, go_keys visited))"

subsection \<open>Large components\<close>

abbreviation num :: "nat \<Rightarrow> json" where
  "num k \<equiv> JNumber (itoa (int k))"

definition leadsTo :: "linkGraph \<Rightarrow> nat \<Rightarrow> nat \<Rightarrow> bool" where
  "leadsTo g i t \<longleftrightarrow> list_ex (\<lambda>e. ge_target e = Some t) (lg_edges g ! i)"

definition memberDescriptor :: "linkGraph \<Rightarrow> string list \<Rightarrow> nat \<Rightarrow> nat \<Rightarrow> graphEdge \<Rightarrow> json" where
  "memberDescriptor g keys component i e =
     (case ge_target e of
        None \<Rightarrow> edgeDescriptor e ''externalTarget'' (JString (lg_external g (ge_external e)))
      | Some t \<Rightarrow>
          if sameComponent g component t then
            edgeDescriptor e ''componentTarget''
              (JObject [(''occurrence'', JString (lg_base g ! t)), (''reciprocal'', JBool (leadsTo g t i))])
          else edgeDescriptor e ''target'' (JString (keys ! t)))"

definition memberDescription :: "linkGraph \<Rightarrow> string list \<Rightarrow> nat \<Rightarrow> nat \<Rightarrow> string" where
  "memberDescription g keys component i =
     canonical (JArray [JString (lg_base g ! i), JArray (map (memberDescriptor g keys component i) (lg_edges g ! i))])"

text \<open>The classes are the ranks of the signatures; whoever has none is in class 0.\<close>

definition assignClasses :: "nat \<Rightarrow> (nat \<times> string) list \<Rightarrow> nat list \<times> nat" where
  "assignClasses n signatures =
     (let ordered = sort (remdups (map snd signatures))
      in (fold (\<lambda>(i, signature) classes. classes[i := length (takeWhile (\<lambda>x. x \<noteq> signature) ordered)])
            signatures (replicate n 0), length ordered))"

definition internalTargets :: "linkGraph \<Rightarrow> nat \<Rightarrow> nat \<Rightarrow> nat list" where
  "internalTargets g component i = filter (sameComponent g component) (successors (lg_edges g ! i))"

definition incomingEdges :: "linkGraph \<Rightarrow> nat list \<Rightarrow> nat \<Rightarrow> (nat \<times> graphEdge) list" where
  "incomingEdges g members i =
     concat (map (\<lambda>source. map (Pair source) (filter (\<lambda>e. ge_target e = Some i) (lg_edges g ! source))) members)"

definition simpleDirectedCycle :: "linkGraph \<Rightarrow> nat \<Rightarrow> nat list \<Rightarrow> bool" where
  "simpleDirectedCycle g component members =
     list_all (\<lambda>i. length (internalTargets g component i) = 1 \<and> length (incomingEdges g members i) = 1) members"

definition cycleSuccessors :: "linkGraph \<Rightarrow> nat \<Rightarrow> nat list \<Rightarrow> nat list" where
  "cycleSuccessors g component members =
     fold (\<lambda>i out. out[i := hd (internalTargets g component i)]) members (replicate (length (lg_edges g)) 0)"

text \<open>Pointer doubling along a cycle; the distance starts at 1.\<close>

function cycleRounds :: "nat \<Rightarrow> nat list \<Rightarrow> nat \<Rightarrow> nat list \<Rightarrow> nat list \<Rightarrow> nat list" where
  "cycleRounds n members distance classes succ =
     (if distance = 0 \<or> length members \<le> distance then classes
      else cycleRounds n members (2 * distance)
        (fst (assignClasses n (map (\<lambda>i. (i, canonical (JArray [num (classes ! i), num (classes ! (succ ! i))]))) members)))
        (fold (\<lambda>i out. out[i := succ ! (succ ! i)]) members succ))"
  by pat_completeness auto
termination
  by (relation "measure (\<lambda>(_, members, distance, _, _). length members - distance)") auto

declare cycleRounds.simps [simp del]

text \<open>One round of the refinement of colors, and at most as many rounds as there are members\<close>

definition outgoingSignature :: "linkGraph \<Rightarrow> string list \<Rightarrow> nat \<Rightarrow> nat list \<Rightarrow> graphEdge \<Rightarrow> string" where
  "outgoingSignature g keys component classes e =
     canonical (JArray [JString (ge_relationship e),
       JString (case ge_target e of
          None \<Rightarrow> lg_external g (ge_external e)
        | Some t \<Rightarrow> if sameComponent g component t then itoa (int (classes ! t)) else keys ! t),
       JString (ge_shared e)])"

definition incomingSignature :: "nat list \<Rightarrow> nat \<times> graphEdge \<Rightarrow> string" where
  "incomingSignature classes = (\<lambda>(source, e).
     canonical (JArray [JString (ge_relationship e), num (classes ! source), JString (ge_shared e)]))"

definition colorSignature :: "linkGraph \<Rightarrow> string list \<Rightarrow> nat \<Rightarrow> nat list \<Rightarrow> nat list \<Rightarrow> nat \<Rightarrow> string" where
  "colorSignature g keys component members classes i =
     canonical (JArray [JString (memberDescription g keys component i), num (classes ! i),
       text_list (sort (map (outgoingSignature g keys component classes) (lg_edges g ! i))),
       text_list (sort (map (incomingSignature classes) (incomingEdges g members i)))])"

fun colorRounds :: "nat \<Rightarrow> linkGraph \<Rightarrow> string list \<Rightarrow> nat \<Rightarrow> nat list \<Rightarrow> nat list \<Rightarrow> nat \<Rightarrow> nat list" where
  "colorRounds 0 g keys component members classes classCount = classes"
| "colorRounds (Suc k) g keys component members classes classCount =
     (case assignClasses (length (lg_edges g)) (map (\<lambda>i. (i, colorSignature g keys component members classes i)) members) of
        (refined, refinedCount) \<Rightarrow>
          if refinedCount = classCount then refined
          else colorRounds k g keys component members refined refinedCount)"

definition memberClasses :: "linkGraph \<Rightarrow> string list \<Rightarrow> nat \<Rightarrow> nat list \<Rightarrow> nat list" where
  "memberClasses g keys component members =
     (let n = length (lg_edges g)
      in case assignClasses n (map (\<lambda>i. (i, memberDescription g keys component i)) members) of
        (classes, classCount) \<Rightarrow>
          if simpleDirectedCycle g component members then
            cycleRounds n members 1 classes (cycleSuccessors g component members)
          else colorRounds (length members) g keys component members classes classCount)"

subsection \<open>Orbits\<close>

text \<open>
  What one representative finds: its orbit, the permutations that generate it, and the digests known.
  The loop \<open>expandOrbit\<close> adds the images of members until nothing changes; each of its rounds but the
  last adds one of the \<open>n\<close> spans, so \<open>n\<close> rounds are enough.
\<close>

record orbitSearch =
  os_orbit :: "nat set"
  os_generators :: "nat list list"
  os_known :: "(nat, string) gomap"

definition expandRound :: "nat list list \<Rightarrow> nat set \<Rightarrow> nat set" where
  "expandRound generators orbit = orbit \<union> (\<Union>generator \<in> set generators. (\<lambda>i. generator ! i) ` orbit)"

definition expandOrbit :: "nat \<Rightarrow> nat list list \<Rightarrow> nat set \<Rightarrow> nat set" where
  "expandOrbit n generators orbit = (expandRound generators ^^ n) orbit"

definition orbitCandidate :: "linkGraph \<Rightarrow> string list \<Rightarrow> nat \<Rightarrow> nat list \<Rightarrow> nat \<Rightarrow> string \<times> nat list
    \<Rightarrow> nat \<Rightarrow> orbitSearch \<Rightarrow> orbitSearch" where
  "orbitCandidate g keys component classes representative certificate candidate s =
     (if classes ! candidate \<noteq> classes ! representative \<or> candidate \<in> os_orbit s then s
      else if go_get (os_known s) candidate \<noteq> None \<and> go_get (os_known s) candidate \<noteq> Some (fst certificate) then s
      else (case streamedRootedCertificate g keys component candidate of (candidateDigest, order) \<Rightarrow>
        (let n = length (lg_edges g); s = s\<lparr>os_known := go_put candidate candidateDigest (os_known s)\<rparr>
         in if candidateDigest \<noteq> fst certificate then s
            else (let generators = os_generators s @
                    [fold (\<lambda>(i, image) out. out[i := image]) (zip (snd certificate) order) (replicate n 0)]
                  in s\<lparr>os_generators := generators, os_orbit := expandOrbit n generators (os_orbit s)\<rparr>))))"

text \<open>The members with their rooted digests; they are also the members \<open>assigned\<close>.\<close>

record orbits =
  or_known :: "(nat, string) gomap"
  or_rooted :: "(nat, string) gomap"

definition orbitRepresentative :: "linkGraph \<Rightarrow> string list \<Rightarrow> nat \<Rightarrow> nat list \<Rightarrow> nat list \<Rightarrow> nat
    \<Rightarrow> orbits \<Rightarrow> orbits" where
  "orbitRepresentative g keys component members classes representative s =
     (if length (filter (\<lambda>i. classes ! i = classes ! representative) members) = 1
         \<or> go_get (or_rooted s) representative \<noteq> None then s
      else (let certificate = streamedRootedCertificate g keys component representative;
                found = fold (orbitCandidate g keys component classes representative certificate) members
                  \<lparr>os_orbit = {representative}, os_generators = [],
                   os_known = go_put representative (fst certificate) (or_known s)\<rparr>
            in \<lparr>or_known = os_known found,
                or_rooted = fold (\<lambda>i. go_put i (fst certificate)) (sorted_list_of_set (os_orbit found)) (or_rooted s)\<rparr>))"

definition rootedDigestByMember :: "linkGraph \<Rightarrow> string list \<Rightarrow> nat \<Rightarrow> nat list \<Rightarrow> nat list \<Rightarrow> (nat, string) gomap" where
  "rootedDigestByMember g keys component members classes =
     (if simpleDirectedCycle g component members then []
      else or_rooted (fold (orbitRepresentative g keys component members classes) members
             \<lparr>or_known = [], or_rooted = []\<rparr>))"

subsection \<open>labelComponent\<close>

definition memberKey :: "linkGraph \<Rightarrow> string list \<Rightarrow> nat \<Rightarrow> nat list \<Rightarrow> nat \<Rightarrow> string" where
  "memberKey g keys component classes i =
     canonical (JArray [JString (memberDescription g keys component i), num (classes ! i)])"

text \<open>The first member with the least key, and the digest of the certificates that tie with it\<close>

definition leastMember :: "(nat \<Rightarrow> string) \<Rightarrow> nat list \<Rightarrow> nat" where
  "leastMember key members =
     fold (\<lambda>i root. if key i < key root then i else root) (tl members) (hd members)"

definition rootDigest :: "linkGraph \<Rightarrow> string list \<Rightarrow> nat \<Rightarrow> nat list \<Rightarrow> nat list \<Rightarrow> (nat, string) gomap \<Rightarrow> string" where
  "rootDigest g keys component members classes digests =
     (let root = leastMember (memberKey g keys component classes) members; rooted = go_get0 [] digests root
      in if rooted = [] then fst (streamedRootedCertificate g keys component root)
         else fold (\<lambda>i rooted.
           if memberKey g keys component classes i = memberKey g keys component classes root
              \<and> go_get0 [] digests i < rooted
           then go_get0 [] digests i else rooted) members rooted)"

definition labelSmall :: "linkGraph \<Rightarrow> nat \<Rightarrow> nat list \<Rightarrow> string list \<Rightarrow> string list" where
  "labelSmall g component members keys =
     fold (\<lambda>root keys. keys[root := shortDigest (rootedCertificate g keys component root)]) members keys"

definition labelLarge :: "linkGraph \<Rightarrow> nat \<Rightarrow> nat list \<Rightarrow> string list \<Rightarrow> string list" where
  "labelLarge g component members keys =
     (let classes = memberClasses g keys component members;
          digests = rootedDigestByMember g keys component members classes;
          adjacencyKey = take 12 (digest (rootDigest g keys component members classes digests));
          descriptions = sort (map (memberDescription g keys component) members);
          componentKey = shortDigest (JArray [text_list descriptions, JString adjacencyKey]);
          position = (\<lambda>i. itoa (int (classes ! i)) @
            (let rooted = go_get0 [] digests i in if rooted \<noteq> [] then '':'' @ take 12 rooted else []))
      in fold (\<lambda>i out. out[i := shortDigest (JArray [JString (memberDescription g keys component i),
             JString componentKey, JString (position i)])]) members keys)"

definition labelMembers :: "linkGraph \<Rightarrow> nat \<Rightarrow> string list \<Rightarrow> string list" where
  "labelMembers g component keys =
     (let members = lg_components g ! component
      in if length members \<le> 64 then labelSmall g component members keys
         else labelLarge g component members keys)"

text \<open>The components that the links of a component lead to\<close>

definition outerComponents :: "linkGraph \<Rightarrow> nat \<Rightarrow> nat list" where
  "outerComponents g component =
     concat (map (\<lambda>i. map ((!) (lg_componentOf g))
       (filter (\<lambda>t. \<not> sameComponent g component t) (successors (lg_edges g ! i)))) (lg_components g ! component))"

record labels =
  lb_keys :: "string list"
  lb_state :: "color list"

text \<open>
  The recursion has no guard against a cycle of components, so it carries the depth of the call stack;
  running out of it would be a crash of the code.
\<close>

fun labelComponent :: "nat \<Rightarrow> linkGraph \<Rightarrow> nat \<Rightarrow> labels \<Rightarrow> labels result" where
  "labelComponent 0 g component s = Inl (Err ''stack overflow'' [])"
| "labelComponent (Suc k) g component s =
     (if lb_state s ! component = Black then Inr s
      else res_bind (res_fold (\<lambda>outer s. labelComponent k g outer s) (outerComponents g component)
               (s\<lparr>lb_state := (lb_state s)[component := Gray]\<rparr>)) (\<lambda>s.
             Inr (s\<lparr>lb_keys := labelMembers g component (lb_keys s), lb_state := (lb_state s)[component := Black]\<rparr>)))"

definition labelComponents :: "linkGraph \<Rightarrow> string list result" where
  "labelComponents g =
     (let count = length (lg_components g)
      in res_bind (res_fold (labelComponent count g) [0..<count]
             \<lparr>lb_keys = replicate (length (lg_edges g)) [], lb_state = replicate count White\<rparr>) (\<lambda>s.
           Inr (lb_keys s)))"

section \<open>The labels of the link targets\<close>

definition linkGraphOf :: "string list \<Rightarrow> graphEdge list list \<Rightarrow> (string \<Rightarrow> string) \<Rightarrow> linkGraph" where
  "linkGraphOf base edges external =
     (let components = linkComponents (map successors edges)
      in \<lparr>lg_base = base, lg_edges = edges, lg_external = external, lg_components = components,
          lg_componentOf = componentOf (length edges) components\<rparr>)"

definition buildGraphAwareTargetKeys :: "unicode_tables \<Rightarrow> graph_keys" where
  "buildGraphAwareTargetKeys U d base targetDigests parentLabels =
     labelComponents (linkGraphOf base (linkEdges U d targetDigests parentLabels)
       (externalTargetLabel U d parentLabels base))"

text \<open>\<open>DecodeCapture\<close> with its closure\<close>

definition decodeCapture :: "unicode_tables \<Rightarrow> (string \<Rightarrow> string option) \<Rightarrow> ValidationReceipt \<Rightarrow> token list \<Rightarrow> error
    \<Rightarrow> CaptureDataset" where
  "decodeCapture U = DecodeCapture (buildGraphAwareTargetKeys U) U"

end
