(* ===== verification/Tarjan.thy ===== *)
theory Tarjan
  imports GraphKeys
begin

text \<open>
  The components that \<open>buildGraphAwareTargetKeys\<close> finds by Tarjan's algorithm are the strongly
  connect_done components of the graph of links, each of them after those that its links lead to.
\<close>

section \<open>Graphs\<close>

definition closed_graph :: "nat list list \<Rightarrow> bool" where
  "closed_graph succ \<longleftrightarrow> (\<forall>i < length succ. set (succ ! i) \<subseteq> {..<length succ})"

definition link_rel :: "nat list list \<Rightarrow> (nat \<times> nat) set" where
  "link_rel succ = {(u, v). u < length succ \<and> v \<in> set (succ ! u)}"

abbreviation reaches :: "nat list list \<Rightarrow> nat \<Rightarrow> nat \<Rightarrow> bool" where
  "reaches succ u v \<equiv> (u, v) \<in> (link_rel succ)\<^sup>*"

lemma reaches_link: "u < length succ \<Longrightarrow> v \<in> set (succ ! u) \<Longrightarrow> reaches succ u v"
  by (rule r_into_rtrancl) (simp add: link_rel_def)

text \<open>Complete components, each closed under links but for the components before it\<close>

definition components_ok :: "nat list list \<Rightarrow> nat list list \<Rightarrow> bool" where
  "components_ok succ cs \<longleftrightarrow> (\<forall>k < length cs. cs ! k \<noteq> []
     \<and> (\<forall>u \<in> set (cs ! k). (\<forall>v \<in> set (cs ! k). reaches succ u v)
          \<and> set (succ ! u) \<subseteq> set (concat (take (Suc k) cs))))"

lemma components_ok_Nil [simp]: "components_ok succ []"
  by (simp add: components_ok_def)

lemma components_ok_snoc:
  "components_ok succ (cs @ [c]) \<longleftrightarrow> components_ok succ cs \<and> c \<noteq> []
     \<and> (\<forall>u \<in> set c. (\<forall>v \<in> set c. reaches succ u v) \<and> set (succ ! u) \<subseteq> set (concat cs) \<union> set c)"
  unfolding components_ok_def
  by (auto simp: nth_append less_Suc_eq all_conj_distrib)

section \<open>The invariant\<close>

abbreviation ta_index :: "tarjan \<Rightarrow> nat \<Rightarrow> nat option" where
  "ta_index s v \<equiv> ta_indexes s ! v"

text \<open>
  The stack holds the indexed nodes that are not yet in a component, the newest on top, and every
  node on it leads to those above.
\<close>

definition tarjan_ok :: "nat list list \<Rightarrow> tarjan \<Rightarrow> bool" where
  "tarjan_ok succ s \<longleftrightarrow>
     length (ta_indexes s) = length succ \<and> length (ta_lowlinks s) = length succ
     \<and> length (ta_onStack s) = length succ
     \<and> distinct (ta_stack s @ concat (ta_components s))
     \<and> set (ta_stack s @ concat (ta_components s)) = {v. v < length succ \<and> ta_index s v \<noteq> None}
     \<and> (\<forall>v < length succ. ta_onStack s ! v \<longleftrightarrow> v \<in> set (ta_stack s))
     \<and> (\<forall>v < length succ. \<forall>k. ta_index s v = Some k \<longrightarrow> k < ta_next s)
     \<and> sorted_wrt (\<lambda>a b. the (ta_index s b) < the (ta_index s a) \<and> reaches succ b a) (ta_stack s)
     \<and> components_ok succ (ta_components s)"

text \<open>What a call leaves alone: indexes given before, and the lowlinks of other nodes indexed before.\<close>

definition frame :: "nat \<Rightarrow> tarjan \<Rightarrow> tarjan \<Rightarrow> bool" where
  "frame i s s' \<longleftrightarrow> (\<forall>v. ta_index s v \<noteq> None \<longrightarrow> ta_index s' v = ta_index s v)
     \<and> (\<forall>v. v \<noteq> i \<longrightarrow> ta_index s v \<noteq> None \<longrightarrow> ta_lowlinks s' ! v = ta_lowlinks s ! v)
     \<and> ta_next s \<le> ta_next s'
     \<and> (\<forall>v k. ta_index s v = None \<longrightarrow> ta_index s' v = Some k \<longrightarrow> ta_next s \<le> k)"

text \<open>All links of a node are indexed, and those to the stack not below a bound.\<close>

definition target_ok :: "tarjan \<Rightarrow> nat \<Rightarrow> nat \<Rightarrow> bool" where
  "target_ok s bound v \<longleftrightarrow> ta_index s v \<noteq> None \<and> (v \<in> set (ta_stack s) \<longrightarrow> bound \<le> the (ta_index s v))"

definition explored :: "nat list list \<Rightarrow> tarjan \<Rightarrow> nat \<Rightarrow> nat \<Rightarrow> bool" where
  "explored succ s bound u \<longleftrightarrow> (\<forall>v \<in> set (succ ! u). target_ok s bound v)"

definition low_witness :: "nat list list \<Rightarrow> nat \<Rightarrow> tarjan \<Rightarrow> bool" where
  "low_witness succ i s \<longleftrightarrow> (\<exists>x \<in> set (ta_stack s). ta_index s x = Some (ta_lowlinks s ! i) \<and> reaches succ i x)"

text \<open>The loop over the links of \<open>i\<close>: \<open>seg\<close> is what is above \<open>i\<close> on the stack, \<open>seen\<close> the links done.\<close>

definition scanning :: "nat list list \<Rightarrow> nat \<Rightarrow> nat list \<Rightarrow> nat set \<Rightarrow> nat list \<Rightarrow> tarjan \<Rightarrow> bool" where
  "scanning succ i st seen seg s \<longleftrightarrow> tarjan_ok succ s \<and> ta_stack s = seg @ i # st
     \<and> (\<forall>y \<in> set seg. reaches succ y i \<and> explored succ s (ta_lowlinks s ! i) y)
     \<and> (\<forall>v \<in> seen. target_ok s (ta_lowlinks s ! i) v)
     \<and> ta_lowlinks s ! i \<le> the (ta_index s i) \<and> low_witness succ i s"

text \<open>What \<open>connect i\<close> leaves: \<open>seg\<close> is new on the stack, and empty if \<open>i\<close> was the root of a component.\<close>

definition connect_done :: "nat list list \<Rightarrow> nat \<Rightarrow> nat list \<Rightarrow> tarjan \<Rightarrow> tarjan \<Rightarrow> bool" where
  "connect_done succ i seg s s' \<longleftrightarrow> tarjan_ok succ s' \<and> frame i s s' \<and> ta_stack s' = seg @ ta_stack s
     \<and> ta_index s' i \<noteq> None \<and> ta_lowlinks s' ! i \<le> the (ta_index s' i)
     \<and> (\<forall>y \<in> set seg. ta_index s y = None \<and> explored succ s' (ta_lowlinks s' ! i) y
          \<and> (\<exists>x \<in> set (ta_stack s). reaches succ y x))
     \<and> (if seg = [] then ta_lowlinks s' ! i = the (ta_index s' i) else low_witness succ i s')"

lemma frame_refl [simp]: "frame i s s"
  by (simp add: frame_def)

lemma frame_trans: "frame i s t \<Longrightarrow> frame i t u \<Longrightarrow> frame i s u"
  unfolding frame_def
proof (elim conjE, intro conjI allI impI)
  fix v k
  assume 1: "\<forall>v. ta_index s v \<noteq> None \<longrightarrow> ta_index t v = ta_index s v" "ta_next s \<le> ta_next t"
    "\<forall>v k. ta_index s v = None \<longrightarrow> ta_index t v = Some k \<longrightarrow> ta_next s \<le> k"
    and 2: "\<forall>v. ta_index t v \<noteq> None \<longrightarrow> ta_index u v = ta_index t v"
    "\<forall>v k. ta_index t v = None \<longrightarrow> ta_index u v = Some k \<longrightarrow> ta_next t \<le> k"
    and v: "ta_index s v = None" "ta_index u v = Some k"
  show "ta_next s \<le> k"
  proof (cases "ta_index t v")
    case None
    with 1(2) 2(2) v(2) show ?thesis by (metis le_trans)
  next
    case (Some j)
    with 1(3) 2(1) v show ?thesis by simp
  qed
qed auto

section \<open>The steps\<close>

lemma target_ok_mono: "target_ok s b v \<Longrightarrow> b' \<le> b \<Longrightarrow> target_ok s b' v"
  by (auto simp: target_ok_def)

lemma explored_mono: "explored succ s b u \<Longrightarrow> b' \<le> b \<Longrightarrow> explored succ s b' u"
  by (auto simp: explored_def intro: target_ok_mono)

lemma tarjan_ok_lower [simp]: "tarjan_ok succ (lowerLink i v s) \<longleftrightarrow> tarjan_ok succ s"
  by (simp add: tarjan_ok_def lowerLink_def)

lemma lower_simps [simp]:
  "ta_stack (lowerLink i v s) = ta_stack s" "ta_next (lowerLink i v s) = ta_next s"
  "target_ok (lowerLink i v s) = target_ok s" "explored succ (lowerLink i v s) = explored succ s"
  by (simp_all add: lowerLink_def target_ok_def explored_def fun_eq_iff)

lemma lower_lowlinks:
  "i < length (ta_lowlinks s) \<Longrightarrow> ta_lowlinks (lowerLink i v s) ! i = min (ta_lowlinks s ! i) v"
  by (auto simp: lowerLink_def)

lemma frame_lower: "frame i s t \<Longrightarrow> frame i s (lowerLink i v t)"
  by (auto simp: frame_def lowerLink_def)

lemma ta_stack_index:
  assumes "tarjan_ok succ s" "v \<in> set (ta_stack s)"
  shows "v < length succ" "ta_index s v \<noteq> None"
  using assms by (auto simp: tarjan_ok_def)

lemma stack_order:
  assumes "tarjan_ok succ s" "ta_stack s = seg @ i # st"
  shows "y \<in> set seg \<Longrightarrow> the (ta_index s i) < the (ta_index s y) \<and> reaches succ i y"
    and "x \<in> set st \<Longrightarrow> the (ta_index s x) < the (ta_index s i) \<and> reaches succ x i"
  using assms by (auto simp: tarjan_ok_def sorted_wrt_append)

lemma open_ok:
  assumes s: "tarjan_ok succ s" and i: "i < length succ" "ta_index s i = None"
    and reach: "\<And>x. x \<in> set (ta_stack s) \<Longrightarrow> reaches succ x i"
  shows "tarjan_ok succ (openNode i s)"
proof -
  have other: "x \<noteq> i" if "x \<in> set (ta_stack s) \<union> set (concat (ta_components s))" for x
    using s i that by (auto simp: tarjan_ok_def)
  then have notin: "i \<notin> set (ta_stack s)" "i \<notin> set (concat (ta_components s))" by blast+
  have stack: "ta_stack (openNode i s) = i # ta_stack s" by (simp add: openNode_def)
  have idx: "ta_index (openNode i s) v = (if v = i then Some (ta_next s) else ta_index s v)" for v
    using s i by (auto simp: tarjan_ok_def openNode_def nth_list_update)
  have "sorted_wrt (\<lambda>a b. the (ta_index (openNode i s) b) < the (ta_index (openNode i s) a) \<and> reaches succ b a) (ta_stack s)"
    by (rule sorted_wrt_mono_rel [of _ "\<lambda>a b. the (ta_index s b) < the (ta_index s a) \<and> reaches succ b a"])
      (use s notin in \<open>auto simp: idx tarjan_ok_def\<close>)
  moreover have "the (ta_index s x) < ta_next s" if "x \<in> set (ta_stack s)" for x
    using s that ta_stack_index [OF s that] by (auto simp: tarjan_ok_def)
  ultimately have "sorted_wrt (\<lambda>a b. the (ta_index (openNode i s) b) < the (ta_index (openNode i s) a) \<and> reaches succ b a)
      (ta_stack (openNode i s))"
    using reach notin by (auto simp: stack idx)
  moreover have "set (ta_stack (openNode i s) @ concat (ta_components (openNode i s)))
      = {v. v < length succ \<and> ta_index (openNode i s) v \<noteq> None}"
  proof -
    have "set (ta_stack (openNode i s) @ concat (ta_components (openNode i s)))
        = insert i (set (ta_stack s @ concat (ta_components s)))"
      by (simp add: openNode_def)
    also have "\<dots> = insert i {v. v < length succ \<and> ta_index s v \<noteq> None}"
      using s by (simp add: tarjan_ok_def)
    finally show ?thesis using i by (auto simp: idx)
  qed
  moreover have "distinct (ta_stack (openNode i s) @ concat (ta_components (openNode i s)))"
    using s notin by (auto simp: openNode_def tarjan_ok_def)
  moreover have "\<forall>v < length succ. ta_onStack (openNode i s) ! v \<longleftrightarrow> v \<in> set (ta_stack (openNode i s))"
    using s i(1) by (auto simp: openNode_def tarjan_ok_def nth_list_update)
  moreover have "\<forall>v < length succ. \<forall>k. ta_index (openNode i s) v = Some k \<longrightarrow> k < ta_next (openNode i s)"
    using s unfolding idx by (auto simp: openNode_def tarjan_ok_def less_Suc_eq)
  ultimately show ?thesis
    using s by (simp add: tarjan_ok_def) (simp add: openNode_def)
qed

lemma open_frame: "tarjan_ok succ s \<Longrightarrow> i < length succ \<Longrightarrow> ta_index s i = None \<Longrightarrow> frame i s (openNode i s)"
  by (auto simp: frame_def openNode_def tarjan_ok_def nth_list_update)

lemma open_scanning:
  assumes "tarjan_ok succ s" "i < length succ" "ta_index s i = None"
    and "\<And>x. x \<in> set (ta_stack s) \<Longrightarrow> reaches succ x i"
  shows "scanning succ i (ta_stack s) {} [] (openNode i s)"
  using open_ok [OF assms] assms
  by (auto simp: scanning_def low_witness_def openNode_def tarjan_ok_def)


text \<open>The end of \<open>connect\<close>: either the node stays on the stack, or it and all above it are a component.\<close>

lemma popUntil_append: "i \<notin> set seg \<Longrightarrow> popUntil i (seg @ i # st) = (seg @ [i], st)"
  by (induction seg) auto

lemma fold_clear: "v < length on \<Longrightarrow> fold (\<lambda>m on. on[m := False]) c on ! v \<longleftrightarrow> on ! v \<and> v \<notin> set c"
proof (induction c arbitrary: on)
  case (Cons m c)
  then show ?case by (cases "m = v") auto
qed simp

lemma length_fold_clear [simp]: "length (fold (\<lambda>m on. on[m := False]) c on) = length on"
  by (induction c arbitrary: on) auto

lemma stack_split:
  assumes "tarjan_ok succ s" "ta_stack s = seg @ i # st"
  shows "i \<notin> set seg" "i \<notin> set st" "set seg \<inter> set st = {}" "distinct seg" "distinct st"
  using assms by (auto simp: tarjan_ok_def)

lemma scanning_scc:
  assumes closed: "closed_graph succ" and sc: "scanning succ i st (set (succ ! i)) seg s" and root: "ta_lowlinks s ! i = the (ta_index s i)"
    and u: "u \<in> set (seg @ [i])"
  shows "v \<in> set (seg @ [i]) \<Longrightarrow> reaches succ u v"
    and "set (succ ! u) \<subseteq> set (concat (ta_components s)) \<union> set (seg @ [i])"
proof -
  have s: "tarjan_ok succ s" "ta_stack s = seg @ i # st" using sc by (auto simp: scanning_def)
  have "reaches succ u i" using sc u by (auto simp: scanning_def)
  moreover have "reaches succ i v" if "v \<in> set (seg @ [i])" for v
    using stack_order(1) [OF s] that by auto
  ultimately show "v \<in> set (seg @ [i]) \<Longrightarrow> reaches succ u v" by (meson rtrancl_trans)
  have ok: "target_ok s (the (ta_index s i)) v" if "v \<in> set (succ ! u)" for v
    using sc root u that by (auto simp: scanning_def explored_def)
  show "set (succ ! u) \<subseteq> set (concat (ta_components s)) \<union> set (seg @ [i])"
  proof
    fix v
    assume v: "v \<in> set (succ ! u)"
    from ok [OF v] have "ta_index s v \<noteq> None" "v \<in> set st \<Longrightarrow> False"
      using stack_order(2) [OF s, of v] s(2) by (auto simp: target_ok_def)
    moreover have "v < length succ"
      using v closed u s(2) ta_stack_index(1) [OF s(1), of u] by (auto simp: closed_graph_def)
    ultimately have "v \<in> set (ta_stack s @ concat (ta_components s))"
      using s(1) by (auto simp: tarjan_ok_def)
    then show "v \<in> set (concat (ta_components s)) \<union> set (seg @ [i])"
      using \<open>v \<in> set st \<Longrightarrow> False\<close> s(2) by auto
  qed
qed

lemma close_root:
  assumes closed: "closed_graph succ" and sc: "scanning succ i st (set (succ ! i)) seg s"
    and root: "Some (ta_lowlinks s ! i) = ta_index s i"
  shows "tarjan_ok succ (closeNode i s)" "ta_stack (closeNode i s) = st"
    "ta_lowlinks (closeNode i s) = ta_lowlinks s" "ta_next (closeNode i s) = ta_next s"
proof -
  have s: "tarjan_ok succ s" "ta_stack s = seg @ i # st" using sc by (auto simp: scanning_def)
  have pop: "popUntil i (ta_stack s) = (seg @ [i], st)"
    using stack_split(1) [OF s] s(2) by (simp add: popUntil_append)
  have low: "ta_lowlinks s ! i = the (ta_index s i)" using root by (metis option.sel)
  have eq: "closeNode i s = s\<lparr>ta_stack := st, ta_onStack := fold (\<lambda>m on. on[m := False]) (seg @ [i]) (ta_onStack s),
      ta_components := ta_components s @ [seg @ [i]]\<rparr>"
    using root unfolding closeNode_def pop by simp
  show "ta_stack (closeNode i s) = st" "ta_lowlinks (closeNode i s) = ta_lowlinks s"
    "ta_next (closeNode i s) = ta_next s"
    by (simp_all add: eq)
  have "components_ok succ (ta_components s @ [seg @ [i]])"
    unfolding components_ok_snoc
    using s(1) scanning_scc [OF closed sc low] by (simp add: tarjan_ok_def)
  moreover have "distinct (st @ concat (ta_components s @ [seg @ [i]]))"
    using s stack_split [OF s] by (auto simp: tarjan_ok_def)
  moreover have "set (st @ concat (ta_components s @ [seg @ [i]])) = {v. v < length succ \<and> ta_index s v \<noteq> None}"
  proof -
    have "set (st @ concat (ta_components s @ [seg @ [i]])) = set (ta_stack s @ concat (ta_components s))"
      by (auto simp: s(2))
    with s(1) show ?thesis by (simp add: tarjan_ok_def)
  qed
  moreover have "\<forall>v < length succ. fold (\<lambda>m on. on[m := False]) (seg @ [i]) (ta_onStack s) ! v \<longleftrightarrow> v \<in> set st"
    using s stack_split [OF s] by (auto simp: tarjan_ok_def fold_clear simp del: fold_append)
  moreover have "sorted_wrt (\<lambda>a b. the (ta_index s b) < the (ta_index s a) \<and> reaches succ b a) st"
    using s by (simp add: tarjan_ok_def sorted_wrt_append)
  ultimately show "tarjan_ok succ (closeNode i s)"
    using s(1) unfolding eq tarjan_ok_def by simp
qed

lemma close_connected:
  assumes closed: "closed_graph succ" and s: "tarjan_ok succ s" "i < length succ" "ta_index s i = None"
    and fr: "frame i s t" and sc: "scanning succ i (ta_stack s) (set (succ ! i)) seg t"
    and idx: "ta_index t i = Some (ta_next s)"
  shows "\<exists>seg. connect_done succ i seg s (closeNode i t)"
proof -
  have t: "tarjan_ok succ t" "ta_stack t = seg @ i # ta_stack s" using sc by (auto simp: scanning_def)
  show ?thesis
  proof (cases "Some (ta_lowlinks t ! i) = ta_index t i")
    case True
    note close = close_root [OF closed sc True]
    have "frame i s (closeNode i t)" using fr close by (simp add: frame_def)
    then have "connect_done succ i [] s (closeNode i t)"
      using close True idx by (simp add: connect_done_def)
    then show ?thesis ..
  next
    case False
    then have same: "closeNode i t = t" by (simp add: closeNode_def)
    have less: "ta_lowlinks t ! i < ta_next s" using sc False idx by (auto simp: scanning_def)
    have new: "ta_index s y = None" if "y \<in> set seg" for y
    proof (rule ccontr)
      assume old: "ta_index s y \<noteq> None"
      with fr have "ta_index t y = ta_index s y" by (simp add: frame_def)
      moreover have "ta_next s < the (ta_index t y)"
        using stack_order(1) [OF t that] idx by simp
      moreover have "y < length succ" using ta_stack_index(1) [OF t(1), of y] t(2) that by simp
      ultimately show False using s(1) old by (auto simp: tarjan_ok_def)
    qed
    obtain x where x: "x \<in> set (ta_stack t)" "ta_index t x = Some (ta_lowlinks t ! i)" "reaches succ i x"
      using sc by (auto simp: scanning_def low_witness_def)
    have "x \<in> set (ta_stack s)"
      using x less idx stack_order(1) [OF t, of x] by (auto simp: t(2))
    with x(3) have out: "\<exists>x \<in> set (ta_stack s). reaches succ y x" if "reaches succ y i" for y
      using that by (meson rtrancl_trans)
    have "\<forall>y \<in> set (seg @ [i]). explored succ t (ta_lowlinks t ! i) y \<and> reaches succ y i"
      using sc by (auto simp: scanning_def explored_def)
    then have "connect_done succ i (seg @ [i]) s (closeNode i t)"
      unfolding connect_done_def same
      using t fr idx less new s(3) out sc by (auto simp: scanning_def)
    then show ?thesis ..
  qed
qed

section \<open>A link\<close>

text \<open>The stack of a state that has grown over that of an earlier one: what was settled stays so.\<close>

lemma target_ok_grown:
  assumes fr: "frame t s s'" and st: "ta_stack s' = seg2 @ ta_stack s"
    and new: "\<And>y. y \<in> set seg2 \<Longrightarrow> ta_index s y = None" and ok: "target_ok s b v"
  shows "target_ok s' b v"
proof -
  have "ta_index s v \<noteq> None" using ok by (simp add: target_ok_def)
  with fr have "ta_index s' v = ta_index s v" by (simp add: frame_def)
  with ok new [of v] show ?thesis by (auto simp: target_ok_def st)
qed

lemma scanning_skip:
  "scanning succ i st seen seg s \<Longrightarrow> ta_index s t \<noteq> None \<Longrightarrow> t \<notin> set (ta_stack s)
     \<Longrightarrow> scanning succ i st (insert t seen) seg s"
  by (auto simp: scanning_def target_ok_def)

lemma scanning_back:
  assumes sc: "scanning succ i st seen seg s" and t: "t \<in> set (ta_stack s)" "reaches succ i t"
  shows "scanning succ i st (insert t seen) seg (lowerLink i (the (ta_index s t)) s)"
proof -
  let ?k = "the (ta_index s t)"
  have i: "i < length (ta_lowlinks s)"
    using sc ta_stack_index [of succ s i] by (auto simp: scanning_def tarjan_ok_def)
  have "ta_index s t = Some ?k" using t sc ta_stack_index [of succ s t] by (auto simp: scanning_def)
  with t have "low_witness succ i (lowerLink i ?k s)"
    using sc by (auto simp: low_witness_def scanning_def lower_lowlinks [OF i] min_def)
  moreover from \<open>ta_index s t = Some ?k\<close> have "target_ok s ?k t" unfolding target_ok_def by (metis option.discI order_refl)
  ultimately show ?thesis
    using sc unfolding scanning_def lower_lowlinks [OF i]
    by (auto simp: min_le_iff_disj intro: target_ok_mono explored_mono)
qed

lemma scanning_forward:
  assumes sc: "scanning succ i st seen seg s" and new: "ta_index s t = None" and link: "reaches succ i t"
    and co: "connect_done succ t seg2 s s'"
  shows "scanning succ i st (insert t seen) (seg2 @ seg) (lowerLink i (ta_lowlinks s' ! t) s')"
    and "frame i s (lowerLink i (ta_lowlinks s' ! t) s')"
proof -
  have s: "tarjan_ok succ s" "ta_stack s = seg @ i # st" using sc by (auto simp: scanning_def)
  have s': "tarjan_ok succ s'" "ta_stack s' = seg2 @ seg @ i # st" "frame t s s'"
    using co s(2) by (auto simp: connect_done_def)
  have i: "i < length succ" "ta_index s i \<noteq> None" using ta_stack_index [OF s(1), of i] s(2) by auto
  then have len: "i < length (ta_lowlinks s')" using s'(1) by (simp add: tarjan_ok_def)
  have keep: "ta_index s' v = ta_index s v" "v \<noteq> t" if "ta_index s v \<noteq> None" for v
    using s'(3) new that by (auto simp: frame_def)
  have low: "ta_lowlinks s' ! i = ta_lowlinks s ! i" using s'(3) i(2) keep(2) by (auto simp: frame_def)
  show "frame i s (lowerLink i (ta_lowlinks s' ! t) s')"
    by (rule frame_lower) (use s'(3) keep(2) in \<open>auto simp: frame_def\<close>)
  have grown: "target_ok s b v \<Longrightarrow> target_ok s' b v" for b v
    by (rule target_ok_grown [OF s'(3)]) (use co in \<open>auto simp: connect_done_def\<close>)
  have "\<forall>y \<in> set seg2. reaches succ y i"
  proof
    fix y
    assume "y \<in> set seg2"
    then obtain x where x: "x \<in> set (ta_stack s)" "reaches succ y x" using co by (auto simp: connect_done_def)
    have "reaches succ x i"
      using x(1) sc stack_order(2) [OF s, of x] by (auto simp: s(2) scanning_def)
    with x(2) show "reaches succ y i" by (rule rtrancl_trans)
  qed
  moreover have "target_ok s' (min (ta_lowlinks s ! i) (ta_lowlinks s' ! t)) t"
    using co by (auto simp: target_ok_def connect_done_def)
  moreover have "low_witness succ i (lowerLink i (ta_lowlinks s' ! t) s')"
  proof (cases "ta_lowlinks s' ! t < ta_lowlinks s ! i")
    case False
    obtain x where "x \<in> set (ta_stack s)" "ta_index s x = Some (ta_lowlinks s ! i)" "reaches succ i x"
      using sc by (auto simp: scanning_def low_witness_def)
    with False show ?thesis
      using keep(1) [of x] s(2) s'(2) by (auto simp: low_witness_def lower_lowlinks [OF len] low)
  next
    case True
    have "seg2 \<noteq> []"
    proof
      assume "seg2 = []"
      then have "ta_lowlinks s' ! t = the (ta_index s' t)" "ta_index s' t \<noteq> None" using co by (auto simp: connect_done_def)
      moreover have "ta_next s \<le> the (ta_index s' t)" using s'(3) new \<open>ta_index s' t \<noteq> None\<close> by (auto simp: frame_def)
      moreover have "the (ta_index s i) < ta_next s" using s(1) i by (auto simp: tarjan_ok_def)
      moreover have "ta_lowlinks s ! i \<le> the (ta_index s i)" using sc by (simp add: scanning_def)
      ultimately show False using True by linarith
    qed
    with co have "low_witness succ t s'" by (simp add: connect_done_def)
    then show ?thesis
      using True link by (auto simp: low_witness_def lower_lowlinks [OF len] low intro: rtrancl_trans)
  qed
  moreover have "explored succ s' (min (ta_lowlinks s ! i) (ta_lowlinks s' ! t)) y" if "y \<in> set (seg2 @ seg)" for y
  proof (cases "y \<in> set seg2")
    case True
    with co have "explored succ s' (ta_lowlinks s' ! t) y" by (simp add: connect_done_def)
    then show ?thesis by (rule explored_mono) simp
  next
    case False
    with that sc have "explored succ s (ta_lowlinks s ! i) y" by (auto simp: scanning_def)
    then have "explored succ s' (ta_lowlinks s ! i) y" by (simp add: explored_def grown)
    then show ?thesis by (rule explored_mono) simp
  qed
  moreover have "target_ok s' (min (ta_lowlinks s ! i) (ta_lowlinks s' ! t)) v" if "v \<in> seen" for v
  proof -
    have "target_ok s (ta_lowlinks s ! i) v" using that sc by (simp add: scanning_def)
    then show ?thesis by (rule target_ok_mono [OF grown]) simp
  qed
  ultimately show "scanning succ i st (insert t seen) (seg2 @ seg) (lowerLink i (ta_lowlinks s' ! t) s')"
    using sc s' keep(1) [OF i(2)] unfolding scanning_def lower_lowlinks [OF len] low
    by (auto simp: min_le_iff_disj)
qed

section \<open>The calls\<close>

lemma connect_ok:
  "closed_graph succ \<Longrightarrow> tarjan_ok succ s \<Longrightarrow> i < length succ \<Longrightarrow> ta_index s i = None
     \<Longrightarrow> (\<And>x. x \<in> set (ta_stack s) \<Longrightarrow> reaches succ x i)
     \<Longrightarrow> \<exists>seg. connect_done succ i seg s (connect succ i s)"
  "closed_graph succ \<Longrightarrow> scanning succ i st seen seg s \<Longrightarrow> set ts \<subseteq> set (succ ! i)
     \<Longrightarrow> \<exists>seg'. scanning succ i st (seen \<union> set ts) seg' (connectEdges succ i ts s)
           \<and> frame i s (connectEdges succ i ts s)"
proof (induction succ i s and succ i ts s arbitrary: and st seen seg rule: connect_connectEdges.induct)
  case (1 succ i s)
  let ?t = "connectEdges succ i (succ ! i) (openNode i s)"
  have idx: "length (ta_indexes s) = length succ" using 1 by (simp add: tarjan_ok_def)
  have "\<exists>seg. scanning succ i (ta_stack s) ({} \<union> set (succ ! i)) seg ?t \<and> frame i (openNode i s) ?t"
    by (rule 1(1) [OF _ 1(2) open_scanning [OF 1(3,4,5,6)]]) (use 1 idx in auto)
  then obtain seg where sc: "scanning succ i (ta_stack s) (set (succ ! i)) seg ?t"
    and fr: "frame i (openNode i s) ?t" by auto
  have "ta_index (openNode i s) i = Some (ta_next s)" using 1 idx by (simp add: openNode_def)
  with fr have "ta_index ?t i = Some (ta_next s)" by (simp add: frame_def)
  then have "\<exists>seg. connect_done succ i seg s (closeNode i ?t)"
    using 1 sc frame_trans [OF open_frame fr] by (intro close_connected) auto
  with 1 idx show ?case by simp
next
  case (2 succ i s)
  then show ?case by auto
next
  case (3 succ i t ts s)
  have s: "tarjan_ok succ s" "ta_stack s = seg @ i # st" using 3(4) by (auto simp: scanning_def)
  have i: "i < length succ" using ta_stack_index [OF s(1), of i] s(2) by simp
  have t: "t < length succ" "reaches succ i t"
    using i 3(3,5) by (auto simp: closed_graph_def intro: reaches_link)
  let ?s = "if ta_index s t = None then (let s = connect succ t s in lowerLink i (ta_lowlinks s ! t) s)
        else if ta_onStack s ! t then lowerLink i (the (ta_index s t)) s else s"
  have step: "\<exists>seg'. scanning succ i st (insert t seen) seg' ?s \<and> frame i s ?s"
  proof (cases "ta_index s t")
    case None
    have "reaches succ x t" if "x \<in> set (ta_stack s)" for x
    proof -
      have "reaches succ x i" using that 3(4) stack_order(2) [OF s, of x] by (auto simp: s(2) scanning_def)
      then show ?thesis using t(2) by (rule rtrancl_trans)
    qed
    with 3(1) [OF None 3(3) s(1) t(1) None] obtain seg2 where "connect_done succ t seg2 s (connect succ t s)"
      by blast
    with scanning_forward [OF 3(4) None t(2)] None show ?thesis by (auto simp: Let_def simp del: connect.simps)
  next
    case (Some k)
    then show ?thesis
      using scanning_back [OF 3(4) _ t(2)] scanning_skip [OF 3(4), of t] s(1) t(1)
      by (auto simp: tarjan_ok_def intro: frame_lower)
  qed
  then obtain seg' where "scanning succ i st (insert t seen) seg' ?s" and fr: "frame i s ?s" by blast
  with 3(2,3,5) obtain seg'' where
    "scanning succ i st (insert t seen \<union> set ts) seg'' (connectEdges succ i ts ?s)"
    "frame i ?s (connectEdges succ i ts ?s)"
    by (metis (no_types, lifting) insert_subset list.simps(15))
  with frame_trans [OF fr] show ?case by (auto simp: Un_insert_left)
qed

section \<open>The components\<close>

lemma start_ok: "tarjan_ok succ (tarjanStart (length succ))"
  by (auto simp: tarjan_ok_def tarjanStart_def)

definition all_visited :: "nat list list \<Rightarrow> nat \<Rightarrow> tarjan \<Rightarrow> bool" where
  "all_visited succ k s \<longleftrightarrow> tarjan_ok succ s \<and> ta_stack s = [] \<and> (\<forall>v < k. ta_index s v \<noteq> None)"

lemma visited_step:
  assumes closed: "closed_graph succ" and s: "all_visited succ i s" and i: "i < length succ"
  shows "all_visited succ (Suc i) (if ta_index s i = None then connect succ i s else s)"
proof (cases "ta_index s i")
  case None
  obtain seg where co: "connect_done succ i seg s (connect succ i s)"
    using connect_ok(1) [OF closed, of s i] s i None by (auto simp: all_visited_def)
  then have "seg = []" using s by (cases seg) (auto simp: connect_done_def all_visited_def)
  with co s None show ?thesis
    by (auto simp: connect_done_def all_visited_def frame_def less_Suc_eq)
qed (use s in \<open>auto simp: all_visited_def less_Suc_eq\<close>)

lemma runTarjan_visited:
  assumes "closed_graph succ"
  shows "all_visited succ (length succ) (runTarjan succ)"
proof -
  have "k \<le> length succ \<Longrightarrow> all_visited succ k
      (fold (\<lambda>i s. if ta_index s i = None then connect succ i s else s) [0..<k] (tarjanStart (length succ)))" for k
  proof (induction k)
    case 0
    then show ?case using start_ok by (simp add: all_visited_def tarjanStart_def)
  next
    case (Suc k)
    then show ?case using visited_step [OF assms] by simp
  qed
  from this [of "length succ"] show ?thesis by (simp add: runTarjan_def)
qed

lemma linkComponents_ok:
  assumes "closed_graph succ"
  shows "components_ok succ (linkComponents succ)" "distinct (concat (linkComponents succ))"
    "set (concat (linkComponents succ)) = {..<length succ}"
  using runTarjan_visited [OF assms] by (auto simp: all_visited_def tarjan_ok_def linkComponents_def)

text \<open>A link leads to the same component or to an earlier one, and so does a path.\<close>

lemma nth_in_concat: "v \<in> set (cs ! k) \<Longrightarrow> k < length cs \<Longrightarrow> v \<in> set (concat cs)"
  using nth_mem by fastforce

lemma components_ok_link:
  assumes "components_ok succ cs" "k < length cs" "u \<in> set (cs ! k)" "v \<in> set (succ ! u)"
  obtains j where "j \<le> k" "v \<in> set (cs ! j)"
proof -
  have "set (succ ! u) \<subseteq> set (concat (take (Suc k) cs))" using assms(1-3) unfolding components_ok_def by blast
  with assms(4) have "v \<in> set (concat (take (Suc k) cs))" by blast
  then obtain c where "c \<in> set (take (Suc k) cs)" "v \<in> set c" by auto
  then obtain j where "j < length (take (Suc k) cs)" "v \<in> set (take (Suc k) cs ! j)"
    by (metis in_set_conv_nth)
  then show ?thesis by (intro that [of j]) auto
qed

lemma components_ok_path:
  assumes "components_ok succ cs" "reaches succ u v" "k < length cs" "u \<in> set (cs ! k)"
  shows "\<exists>j \<le> k. v \<in> set (cs ! j)"
  using assms(2)
proof (induction rule: rtrancl_induct)
  case (step v w)
  then obtain j where j: "j \<le> k" "v \<in> set (cs ! j)" by blast
  have "w \<in> set (succ ! v)" using step(2) by (simp add: link_rel_def)
  with components_ok_link [OF assms(1) _ j(2)] j(1) assms(3) show ?case
    by (metis le_trans order_le_less_trans)
qed (use assms in blast)

lemma distinct_concat_nth:
  assumes "distinct (concat cs)" "j < length cs" "k < length cs" "x \<in> set (cs ! j)" "x \<in> set (cs ! k)"
  shows "j = k"
  using assms
proof (induction cs arbitrary: j k)
  case (Cons c cs)
  have "x \<in> set (concat cs)" if "x \<in> set (cs ! m)" "m < length cs" for m
    using that by (rule nth_in_concat)
  with Cons show ?case by (cases j; cases k) auto
qed simp

lemma component_scc:
  assumes cs: "components_ok succ cs" "distinct (concat cs)" and k: "k < length cs" "u \<in> set (cs ! k)"
  shows "set (cs ! k) = {v. reaches succ u v \<and> reaches succ v u}"
proof (intro subset_antisym subsetI)
  fix v
  assume "v \<in> {v. reaches succ u v \<and> reaches succ v u}"
  then have uv: "reaches succ u v" "reaches succ v u" by auto
  obtain j where j: "j \<le> k" "v \<in> set (cs ! j)" using components_ok_path [OF cs(1) uv(1) k] by blast
  with k(1) have "j < length cs" by simp
  from components_ok_path [OF cs(1) uv(2) this j(2)] obtain m where m: "m \<le> j" "u \<in> set (cs ! m)" by blast
  with \<open>j < length cs\<close> have "m = k" by (intro distinct_concat_nth [OF cs(2) _ k(1) _ k(2)]) auto
  with m(1) j show "v \<in> set (cs ! k)" by simp
qed (use cs(1) k in \<open>auto simp: components_ok_def\<close>)

lemma fold_member_nth:
  "v < length out \<Longrightarrow> fold (\<lambda>member out. out[member := c]) ms out ! v = (if v \<in> set ms then c else out ! v)"
proof (induction ms arbitrary: out)
  case (Cons m ms)
  then show ?case by (cases "m = v") auto
qed simp

lemma length_fold_member [simp]: "length (fold (\<lambda>member out. out[member := c]) ms out) = length out"
  by (induction ms arbitrary: out) auto

lemma componentOf_append:
  "componentOf n (cs @ [c]) = fold (\<lambda>member out. out[member := length cs]) c (componentOf n cs)"
  by (simp add: componentOf_def enumerate_append_eq)

lemma length_componentOf [simp]: "length (componentOf n cs) = n"
  by (induction cs rule: rev_induct) (simp_all add: componentOf_append, simp add: componentOf_def)

lemma componentOf_nth:
  "distinct (concat cs) \<Longrightarrow> k < length cs \<Longrightarrow> v \<in> set (cs ! k) \<Longrightarrow> v < n \<Longrightarrow> componentOf n cs ! v = k"
proof (induction cs rule: rev_induct)
  case (snoc c cs)
  show ?case
  proof (cases "k = length cs")
    case False
    with snoc.prems have k: "k < length cs" "v \<in> set (cs ! k)" by (auto simp: nth_append)
    with snoc.prems(1) nth_in_concat [OF k(2,1)] have "v \<notin> set c" by auto
    with snoc k show ?thesis by (simp add: componentOf_append fold_member_nth)
  qed (use snoc.prems in \<open>simp add: componentOf_append fold_member_nth\<close>)
qed simp

section \<open>The properties\<close>

text \<open>C21. For every graph whose links stay inside it, the components that the search finds are its
  strongly connect_done components: every span is in exactly one, the spans of one are those that lead to
  each other, \<open>componentOf\<close> is the place of the component of a span, and every link leads to the
  same component or an earlier one.\<close>

theorem link_components_strong:
  assumes "\<forall>i < length succ. \<forall>t \<in> set (succ ! i). t < length succ"
  shows "(let cs = linkComponents succ; links = {(u, v). u < length succ \<and> v \<in> set (succ ! u)} in
    distinct (concat cs) \<and> set (concat cs) = {..<length succ}
    \<and> (\<forall>k < length cs. \<forall>u \<in> set (cs ! k).
         set (cs ! k) = {v. (u, v) \<in> links\<^sup>* \<and> (v, u) \<in> links\<^sup>*}
         \<and> componentOf (length succ) cs ! u = k
         \<and> (\<forall>t \<in> set (succ ! u). componentOf (length succ) cs ! t \<le> k)))"
proof -
  have closed: "closed_graph succ" using assms by (auto simp: closed_graph_def)
  note cs = linkComponents_ok [OF closed]
  have at: "componentOf (length succ) (linkComponents succ) ! v = j"
    if "j < length (linkComponents succ)" "v \<in> set (linkComponents succ ! j)" for j v
    using componentOf_nth [OF cs(2) that] nth_in_concat [OF that(2,1), unfolded cs(3)] by simp
  have links: "{(u, v). u < length succ \<and> v \<in> set (succ ! u)} = link_rel succ"
    by (simp add: link_rel_def)
  have le: "componentOf (length succ) (linkComponents succ) ! t \<le> k"
    if k: "k < length (linkComponents succ)" "u \<in> set (linkComponents succ ! k)" "t \<in> set (succ ! u)" for k u t
  proof -
    obtain j where "j \<le> k" "t \<in> set (linkComponents succ ! j)" using components_ok_link [OF cs(1) k] by blast
    with at [of j t] k(1) show ?thesis by simp
  qed
  show ?thesis
    unfolding Let_def links using cs(2,3) component_scc [OF cs(1,2)] at le by blast
qed

text \<open>Two cycles with a link between them, and a span without links that one of them leads to\<close>

theorem link_components_strong_witness:
  "linkComponents [[1], [0, 2], [3], [4, 2], []] = [[4], [3, 2], [1, 0]]
   \<and> componentOf 5 (linkComponents [[1], [0, 2], [3], [4, 2], []]) ! 3 = 1"
proof -
  have "linkComponents [[1], [0, 2], [3], [4, 2], []] = [[4], [3, 2], [1, 0]]"
    by code_simp
  then show ?thesis
    using link_components_strong [of "[[1], [0, 2], [3], [4, 2], []]"]
    by (auto simp: Let_def numeral_eq_Suc less_Suc_eq all_conj_distrib)
qed

end
