(* ===== verification/LabelSpec.thy ===== *)
theory LabelSpec
  imports Tarjan Lineage
begin

text \<open>
  The labels of link targets. The labels of a component read, of the labels so far, only those of the
  targets outside it, all of which are in earlier components; so the recursion of
  \<open>labelComponent\<close> ends, the labels it computes are the only ones in which every component has
  the labels that \<open>labelMembers\<close> gives it, and, for components that are labelled by their rooted
  certificates, they do not depend on the order of the spans.
\<close>

section \<open>What the labels of a component read\<close>

text \<open>Of the labels so far, only those of the targets outside the component\<close>

definition edge_agrees :: "linkGraph \<Rightarrow> nat \<Rightarrow> string list \<Rightarrow> string list \<Rightarrow> graphEdge \<Rightarrow> bool" where
  "edge_agrees g c k k' e \<longleftrightarrow> (\<forall>t. ge_target e = Some t \<longrightarrow> \<not> sameComponent g c t \<longrightarrow> k ! t = k' ! t)"

definition agree :: "linkGraph \<Rightarrow> nat \<Rightarrow> string list \<Rightarrow> string list \<Rightarrow> bool" where
  "agree g c k k' \<longleftrightarrow>
     (\<forall>i < length (lg_edges g). sameComponent g c i \<longrightarrow> (\<forall>e \<in> set (lg_edges g ! i). edge_agrees g c k k' e))"

definition inside_of :: "linkGraph \<Rightarrow> nat \<Rightarrow> nat list \<Rightarrow> bool" where
  "inside_of g c members \<longleftrightarrow> (\<forall>i \<in> set members. i < length (lg_edges g) \<and> sameComponent g c i)"

lemma agreeD:
  "agree g c k k' \<Longrightarrow> i < length (lg_edges g) \<Longrightarrow> sameComponent g c i \<Longrightarrow> list_all (edge_agrees g c k k') (lg_edges g ! i)"
  by (simp add: agree_def list_all_iff)

lemma agree_edge:
  "agree g c k k' \<Longrightarrow> inside_of g c members \<Longrightarrow> i \<in> set members \<Longrightarrow> e \<in> set (lg_edges g ! i) \<Longrightarrow> edge_agrees g c k k' e"
  using agreeD [of g c k k' i] by (simp add: inside_of_def list_all_iff)

lemma certify_agree:
  "agree g c k k' \<Longrightarrow> sameComponent g c i \<Longrightarrow> certify g k c i visited = certify g k' c i visited"
  "agree g c k k' \<Longrightarrow> list_all (edge_agrees g c k k') es \<Longrightarrow> certifyEdges g k c es visited = certifyEdges g k' c es visited"
proof (induction g k c i visited and g k c es visited rule: certify_certifyEdges.induct)
  case (1 g k c i visited)
  then have "certifyEdges g k c (lg_edges g ! i) (go_put i (length visited) visited)
      = certifyEdges g k' c (lg_edges g ! i) (go_put i (length visited) visited)"
    if "go_get visited i = None" "\<not> length (lg_edges g) \<le> i"
    using that agreeD [OF 1(2) _ 1(3)] by simp
  then show ?case by (auto simp: certify.simps split: option.split)
next
  case (3 g k c e es visited)
  show ?case
    using 3 by (auto simp: edge_agrees_def split: option.split prod.split)
qed simp

lemma streamed_agree:
  "agree g c k k' \<Longrightarrow> sameComponent g c i \<Longrightarrow> streamed g k c i visited = streamed g k' c i visited"
  "agree g c k k' \<Longrightarrow> list_all (edge_agrees g c k k') es \<Longrightarrow> streamedEdges g k c es visited = streamedEdges g k' c es visited"
proof (induction g k c i visited and g k c es visited rule: streamed_streamedEdges.induct)
  case (1 g k c i visited)
  then have "streamedEdges g k c (lg_edges g ! i) (go_put i (length visited) visited)
      = streamedEdges g k' c (lg_edges g ! i) (go_put i (length visited) visited)"
    if "go_get visited i = None" "\<not> length (lg_edges g) \<le> i"
    using that agreeD [OF 1(2) _ 1(3)] by simp
  then show ?case by (auto simp: streamed.simps split: option.split)
next
  case (3 g k c e es visited)
  show ?case
    using 3 by (auto simp: edge_agrees_def split: option.split prod.split)
qed simp

lemma certificates_agree:
  assumes "agree g c k k'" "sameComponent g c i"
  shows "rootedCertificate g k c i = rootedCertificate g k' c i"
    "streamedRootedCertificate g k c i = streamedRootedCertificate g k' c i"
  using certify_agree(1) [OF assms] streamed_agree(1) [OF assms]
  by (simp_all add: rootedCertificate_def streamedRootedCertificate_def)

lemma description_agree:
  assumes "agree g c k k'" "inside_of g c members" "i \<in> set members"
  shows "memberDescription g k c i = memberDescription g k' c i"
proof -
  have "map (memberDescriptor g k c i) (lg_edges g ! i) = map (memberDescriptor g k' c i) (lg_edges g ! i)"
    using agree_edge [OF assms] by (auto simp: memberDescriptor_def edge_agrees_def split: option.split)
  then show ?thesis by (simp only: memberDescription_def)
qed

lemma color_agree:
  assumes "agree g c k k'" "inside_of g c members" "i \<in> set members"
  shows "colorSignature g k c members classes i = colorSignature g k' c members classes i"
proof -
  have "map (outgoingSignature g k c classes) (lg_edges g ! i) = map (outgoingSignature g k' c classes) (lg_edges g ! i)"
    using agree_edge [OF assms] by (auto simp: outgoingSignature_def edge_agrees_def split: option.split)
  then show ?thesis by (simp only: colorSignature_def description_agree [OF assms])
qed

lemma rounds_agree:
  assumes "agree g c k k'" "inside_of g c members"
  shows "colorRounds m g k c members classes classCount = colorRounds m g k' c members classes classCount"
proof (induction m arbitrary: classes classCount)
  case (Suc m)
  have "map (\<lambda>i. (i, colorSignature g k c members classes i)) members
      = map (\<lambda>i. (i, colorSignature g k' c members classes i)) members"
    using color_agree [OF assms] by simp
  with Suc show ?case by (simp only: colorRounds.simps)
qed simp

lemma classes_agree:
  assumes "agree g c k k'" "inside_of g c members"
  shows "memberClasses g k c members = memberClasses g k' c members"
proof -
  have "map (\<lambda>i. (i, memberDescription g k c i)) members = map (\<lambda>i. (i, memberDescription g k' c i)) members"
    using description_agree [OF assms] by simp
  then show ?thesis by (simp only: memberClasses_def rounds_agree [OF assms])
qed

lemma orbits_agree:
  assumes "agree g c k k'" "inside_of g c members"
  shows "rootedDigestByMember g k c members classes = rootedDigestByMember g k' c members classes"
proof -
  have cert: "streamedRootedCertificate g k c i = streamedRootedCertificate g k' c i" if "i \<in> set members" for i
    using certificates_agree(2) [OF assms(1)] assms(2) that by (simp add: inside_of_def)
  have "orbitCandidate g k c classes r ct i s = orbitCandidate g k' c classes r ct i s" if "i \<in> set members" for i r ct s
    by (simp add: orbitCandidate_def cert [OF that])
  then have "fold (orbitCandidate g k c classes r ct) members s = fold (orbitCandidate g k' c classes r ct) members s" for r ct s
    by (intro fold_cong) (simp_all add: fun_eq_iff)
  with cert have "orbitRepresentative g k c members classes r s = orbitRepresentative g k' c members classes r s"
    if "r \<in> set members" for r s
    using that by (simp add: orbitRepresentative_def)
  then have "fold (orbitRepresentative g k c members classes) members s
      = fold (orbitRepresentative g k' c members classes) members s" for s
    by (intro fold_cong) (simp_all add: fun_eq_iff)
  then show ?thesis by (simp only: rootedDigestByMember_def)
qed

lemma leastMember_in: "members \<noteq> [] \<Longrightarrow> leastMember key members \<in> set members"
proof -
  have "fold (\<lambda>i root. if key i < key root then i else root) xs r \<in> insert r (set xs)" for xs r
    by (induction xs arbitrary: r) auto
  from this [of "tl members" "hd members"] show "members \<noteq> [] \<Longrightarrow> ?thesis"
    by (cases members) (auto simp: leastMember_def)
qed

lemma leastMember_cong:
  "(\<And>i. i \<in> set members \<Longrightarrow> key i = key' i) \<Longrightarrow> members \<noteq> [] \<Longrightarrow> leastMember key members = leastMember key' members"
proof -
  have "(\<And>i. i \<in> insert r (set xs) \<Longrightarrow> key i = key' i)
     \<Longrightarrow> fold (\<lambda>i root. if key i < key root then i else root) xs r = fold (\<lambda>i root. if key' i < key' root then i else root) xs r" for xs r
  proof (induction xs arbitrary: r)
    case (Cons x xs)
    have "key x = key' x" "key r = key' r" by (auto intro: Cons.prems)
    moreover have "fold (\<lambda>i root. if key i < key root then i else root) xs y
        = fold (\<lambda>i root. if key' i < key' root then i else root) xs y" if "y = r \<or> y = x" for y
      by (rule Cons.IH) (use that in \<open>auto intro: Cons.prems\<close>)
    ultimately show ?case by simp
  qed simp
  from this [of "hd members" "tl members"] show "(\<And>i. i \<in> set members \<Longrightarrow> key i = key' i) \<Longrightarrow> members \<noteq> [] \<Longrightarrow> ?thesis"
    by (cases members) (auto simp: leastMember_def)
qed

lemma rootDigest_agree:
  assumes "agree g c k k'" "inside_of g c members" "members \<noteq> []"
  shows "rootDigest g k c members classes digests = rootDigest g k' c members classes digests"
proof -
  have key: "memberKey g k c classes i = memberKey g k' c classes i" if "i \<in> set members" for i
    by (simp add: memberKey_def description_agree [OF assms(1,2) that])
  let ?root = "leastMember (memberKey g k' c classes) members"
  have root: "leastMember (memberKey g k c classes) members = ?root"
    using key assms(3) by (rule leastMember_cong)
  have r: "?root \<in> set members" using assms(3) by (rule leastMember_in)
  then have cert: "streamedRootedCertificate g k c ?root = streamedRootedCertificate g k' c ?root"
    using certificates_agree(2) [OF assms(1)] assms(2) by (simp add: inside_of_def)
  have ties: "fold (\<lambda>i rooted. if memberKey g k c classes i = memberKey g k' c classes ?root
             \<and> go_get0 [] digests i < rooted then go_get0 [] digests i else rooted) members x
      = fold (\<lambda>i rooted. if memberKey g k' c classes i = memberKey g k' c classes ?root
             \<and> go_get0 [] digests i < rooted then go_get0 [] digests i else rooted) members x" for x
    by (intro fold_cong) (simp_all add: key)
  show ?thesis by (simp only: rootDigest_def Let_def root key [OF r] cert ties)
qed

section \<open>What the labels of a component write\<close>

lemma fold_update_nth:
  "v < length xs \<Longrightarrow> fold (\<lambda>i out. out[i := f i]) ms xs ! v = (if v \<in> set ms then f v else xs ! v)"
proof (induction ms arbitrary: xs)
  case (Cons m ms)
  then show ?case by (cases "m = v") auto
qed simp

lemma length_fold_update [simp]: "length (fold (\<lambda>i out. out[i := f i]) ms xs) = length xs"
  by (induction ms arbitrary: xs) auto

lemma agree_refl [simp]: "agree g c k k"
  by (simp add: agree_def edge_agrees_def)

lemma agree_trans: "agree g c k k' \<Longrightarrow> agree g c k' k'' \<Longrightarrow> agree g c k k''"
  by (simp add: agree_def edge_agrees_def)

lemma agree_inside:
  "(\<And>v. \<not> sameComponent g c v \<Longrightarrow> k ! v = k' ! v) \<Longrightarrow> agree g c k k'"
  by (simp add: agree_def edge_agrees_def)

lemma labelSmall_eq:
  assumes "inside_of g c members"
  shows "labelSmall g c members keys = fold (\<lambda>i out. out[i := shortDigest (rootedCertificate g keys c i)]) members keys"
proof -
  have "inside_of g c ms \<Longrightarrow> agree g c keys k
     \<Longrightarrow> labelSmall g c ms k = fold (\<lambda>i out. out[i := shortDigest (rootedCertificate g keys c i)]) ms k" for ms k
  proof (induction ms arbitrary: k)
    case (Cons m ms)
    have m: "sameComponent g c m" "inside_of g c ms" using Cons.prems(1) by (auto simp: inside_of_def)
    have "agree g c k (k[m := x])" for x
      by (rule agree_inside) (use m(1) in \<open>metis nth_list_update_neq\<close>)
    then have "agree g c keys (k[m := x])" for x
      using agree_trans [OF Cons.prems(2)] by blast
    with Cons.IH [OF m(2)] show ?case
      using certificates_agree(1) [OF Cons.prems(2) m(1)] by (simp add: labelSmall_def)
  qed (simp add: labelSmall_def)
  with assms show ?thesis by simp
qed

text \<open>The label that \<open>labelLarge\<close> gives to a member\<close>

definition largeLabel :: "linkGraph \<Rightarrow> nat \<Rightarrow> nat list \<Rightarrow> string list \<Rightarrow> nat \<Rightarrow> string" where
  "largeLabel g c members keys i =
     (let classes = memberClasses g keys c members;
          digests = rootedDigestByMember g keys c members classes;
          adjacencyKey = take 12 (digest (rootDigest g keys c members classes digests));
          componentKey = shortDigest (JArray [text_list (sort (map (memberDescription g keys c) members)), JString adjacencyKey])
      in shortDigest (JArray [JString (memberDescription g keys c i), JString componentKey,
           JString (itoa (int (classes ! i)) @
             (let rooted = go_get0 [] digests i in if rooted \<noteq> [] then '':'' @ take 12 rooted else []))]))"

lemma labelLarge_eq:
  "labelLarge g c members keys = fold (\<lambda>i out. out[i := largeLabel g c members keys i]) members keys"
  unfolding labelLarge_def largeLabel_def Let_def ..

lemma largeLabel_agree:
  assumes "agree g c k k'" "inside_of g c members" "i \<in> set members"
  shows "largeLabel g c members k i = largeLabel g c members k' i"
proof -
  have "map (memberDescription g k c) members = map (memberDescription g k' c) members"
    using description_agree [OF assms(1,2)] by simp
  moreover have "members \<noteq> []" using assms(3) by auto
  ultimately show ?thesis
    by (simp only: largeLabel_def Let_def classes_agree [OF assms(1,2)] orbits_agree [OF assms(1,2)]
        rootDigest_agree [OF assms(1,2) \<open>members \<noteq> []\<close>] description_agree [OF assms])
qed

definition memberLabel :: "linkGraph \<Rightarrow> nat \<Rightarrow> string list \<Rightarrow> nat \<Rightarrow> string" where
  "memberLabel g c keys i =
     (let members = lg_components g ! c
      in if length members \<le> 64 then shortDigest (rootedCertificate g keys c i) else largeLabel g c members keys i)"

lemma labelMembers_eq:
  assumes "inside_of g c (lg_components g ! c)"
  shows "labelMembers g c keys = fold (\<lambda>i out. out[i := memberLabel g c keys i]) (lg_components g ! c) keys"
  by (simp add: labelMembers_def memberLabel_def Let_def labelSmall_eq [OF assms] labelLarge_eq)

lemma memberLabel_agree:
  assumes "agree g c k k'" "inside_of g c (lg_components g ! c)" "i \<in> set (lg_components g ! c)"
  shows "memberLabel g c k i = memberLabel g c k' i"
proof -
  have "sameComponent g c i" using assms(2,3) by (simp add: inside_of_def)
  with assms show ?thesis
    by (simp add: memberLabel_def Let_def certificates_agree(1) largeLabel_agree)
qed

section \<open>The graph of the components\<close>

definition graph_ok :: "linkGraph \<Rightarrow> bool" where
  "graph_ok g \<longleftrightarrow>
     (\<forall>i < length (lg_edges g). lg_componentOf g ! i < length (lg_components g)
        \<and> i \<in> set (lg_components g ! (lg_componentOf g ! i)))
     \<and> (\<forall>c < length (lg_components g). \<forall>i \<in> set (lg_components g ! c). i < length (lg_edges g) \<and> lg_componentOf g ! i = c)
     \<and> (\<forall>i < length (lg_edges g). \<forall>t \<in> set (successors (lg_edges g ! i)).
          t < length (lg_edges g) \<and> lg_componentOf g ! t \<le> lg_componentOf g ! i)"

lemma in_successors: "t \<in> set (successors es) \<longleftrightarrow> (\<exists>e \<in> set es. ge_target e = Some t)"
  by (auto simp: successors_def List.map_filter_def image_iff)

lemma graph_members:
  assumes "graph_ok g" "c < length (lg_components g)"
  shows "inside_of g c (lg_components g ! c)"
    and "i < length (lg_edges g) \<Longrightarrow> sameComponent g c i \<longleftrightarrow> i \<in> set (lg_components g ! c)"
proof -
  show inside: "inside_of g c (lg_components g ! c)"
    using assms unfolding graph_ok_def inside_of_def sameComponent_def by blast
  show "i < length (lg_edges g) \<Longrightarrow> sameComponent g c i \<longleftrightarrow> i \<in> set (lg_components g ! c)"
    using assms(1) inside unfolding graph_ok_def inside_of_def sameComponent_def by blast
qed

lemma graph_component:
  assumes "graph_ok g" "i < length (lg_edges g)"
  shows "lg_componentOf g ! i < length (lg_components g)" "i \<in> set (lg_components g ! (lg_componentOf g ! i))"
  using assms unfolding graph_ok_def by blast+

lemma graph_target:
  assumes "graph_ok g" "i < length (lg_edges g)" "t \<in> set (successors (lg_edges g ! i))"
  shows "t < length (lg_edges g)" "lg_componentOf g ! t \<le> lg_componentOf g ! i"
  using assms unfolding graph_ok_def by blast+

lemma outer_earlier:
  assumes "graph_ok g" "c < length (lg_components g)" "out \<in> set (outerComponents g c)"
  shows "out < c"
proof -
  obtain i t where i: "i \<in> set (lg_components g ! c)" "t \<in> set (successors (lg_edges g ! i))"
    "\<not> sameComponent g c t" "out = lg_componentOf g ! t"
    using assms(3) by (auto simp: outerComponents_def)
  have "i < length (lg_edges g)" "lg_componentOf g ! i = c"
    using graph_members(1) [OF assms(1,2)] i(1) by (auto simp: inside_of_def sameComponent_def)
  with graph_target(2) [OF assms(1) _ i(2)] i(3,4) show ?thesis by (simp add: sameComponent_def)
qed

text \<open>Two sets of labels that agree outside some components, none of which the component leads to\<close>

lemma agree_outside:
  assumes g: "graph_ok g" "c < length (lg_components g)"
    and same: "\<And>t. t < length (lg_edges g) \<Longrightarrow> lg_componentOf g ! t \<in> set (outerComponents g c) \<Longrightarrow> k ! t = k' ! t"
  shows "agree g c k k'"
  unfolding agree_def edge_agrees_def
proof (intro allI ballI impI)
  fix i e t
  assume i: "i < length (lg_edges g)" "sameComponent g c i" and e: "e \<in> set (lg_edges g ! i)" "ge_target e = Some t"
    and t: "\<not> sameComponent g c t"
  have m: "i \<in> set (lg_components g ! c)" using graph_members(2) [OF g i(1)] i(2) by simp
  have s: "t \<in> set (successors (lg_edges g ! i))" using e by (auto simp: in_successors)
  with m t have "lg_componentOf g ! t \<in> set (outerComponents g c)"
    by (auto simp: outerComponents_def intro!: bexI [of _ i])
  with graph_target(1) [OF g(1) i(1) s] show "k ! t = k' ! t" by (rule same)
qed

text \<open>Every member of the component has the label that its links and the labels of their targets give it.\<close>

definition labelled :: "linkGraph \<Rightarrow> string list \<Rightarrow> nat \<Rightarrow> bool" where
  "labelled g keys c \<longleftrightarrow> (\<forall>i \<in> set (lg_components g ! c). keys ! i = memberLabel g c keys i)"

lemma labelled_iff:
  assumes "graph_ok g" "c < length (lg_components g)" "length keys = length (lg_edges g)"
  shows "labelled g keys c \<longleftrightarrow> labelMembers g c keys = keys"
proof -
  note eq = labelMembers_eq [OF graph_members(1) [OF assms(1,2)]]
  have less: "i < length keys" if "i \<in> set (lg_components g ! c)" for i
    using graph_members(1) [OF assms(1,2)] that assms(3) by (simp add: inside_of_def)
  show ?thesis
  proof
    assume "labelled g keys c"
    then show "labelMembers g c keys = keys"
      by (intro nth_equalityI) (auto simp: eq fold_update_nth labelled_def)
  next
    assume same: "labelMembers g c keys = keys"
    show "labelled g keys c"
      unfolding labelled_def
    proof
      fix i
      assume i: "i \<in> set (lg_components g ! c)"
      have "labelMembers g c keys ! i = memberLabel g c keys i" using i less [OF i] by (simp add: eq fold_update_nth)
      with same show "keys ! i = memberLabel g c keys i" by simp
    qed
  qed
qed

lemma labelMembers_labels:
  assumes g: "graph_ok g" "c < length (lg_components g)" and len: "length keys = length (lg_edges g)"
  shows "labelled g (labelMembers g c keys) c" "length (labelMembers g c keys) = length keys"
    "v < length keys \<Longrightarrow> lg_componentOf g ! v \<noteq> c \<Longrightarrow> labelMembers g c keys ! v = keys ! v"
proof -
  note inside = graph_members(1) [OF g]
  note eq = labelMembers_eq [OF inside]
  show "length (labelMembers g c keys) = length keys" by (simp add: eq)
  show other: "labelMembers g c keys ! v = keys ! v" if "v < length keys" "lg_componentOf g ! v \<noteq> c" for v
    using that graph_members(2) [OF g, of v] len by (simp add: eq fold_update_nth sameComponent_def)
  have "agree g c (labelMembers g c keys) keys"
  proof (rule agree_outside [OF g])
    fix t
    assume "t < length (lg_edges g)" "lg_componentOf g ! t \<in> set (outerComponents g c)"
    with outer_earlier [OF g this(2)] other [of t] len show "labelMembers g c keys ! t = keys ! t" by auto
  qed
  from memberLabel_agree [OF this inside] show "labelled g (labelMembers g c keys) c"
    using inside len by (auto simp: labelled_def inside_of_def eq fold_update_nth)
qed

section \<open>The recursion\<close>

text \<open>The components that are done are labelled, and so are all that they lead to.\<close>

definition settled :: "linkGraph \<Rightarrow> labels \<Rightarrow> bool" where
  "settled g s \<longleftrightarrow> length (lb_keys s) = length (lg_edges g) \<and> length (lb_state s) = length (lg_components g)
     \<and> (\<forall>c < length (lg_components g). lb_state s ! c = Black \<longrightarrow>
          labelled g (lb_keys s) c \<and> (\<forall>out \<in> set (outerComponents g c). lb_state s ! out = Black))"

definition advanced :: "linkGraph \<Rightarrow> nat \<Rightarrow> labels \<Rightarrow> labels \<Rightarrow> bool" where
  "advanced g bound s s' \<longleftrightarrow> settled g s' \<and> (\<forall>j. lb_state s ! j = Black \<longrightarrow> lb_state s' ! j = Black)
     \<and> (\<forall>j \<ge> bound. lb_state s' ! j = lb_state s ! j)"

lemma settled_gray:
  assumes "settled g s" "c < length (lg_components g)" "lb_state s ! c \<noteq> Black"
  shows "settled g (s\<lparr>lb_state := (lb_state s)[c := Gray]\<rparr>)"
  unfolding settled_def
proof (intro conjI allI impI)
  fix d
  assume d: "d < length (lg_components g)" "lb_state (s\<lparr>lb_state := (lb_state s)[c := Gray]\<rparr>) ! d = Black"
  have "c < length (lb_state s)" using assms(1,2) by (simp add: settled_def)
  with d(2) have black: "d \<noteq> c" "lb_state s ! d = Black" by (auto simp: nth_list_update split: if_splits)
  with assms(1) d(1) have "labelled g (lb_keys s) d" and out: "\<forall>out \<in> set (outerComponents g d). lb_state s ! out = Black"
    by (simp_all add: settled_def)
  then show "labelled g (lb_keys (s\<lparr>lb_state := (lb_state s)[c := Gray]\<rparr>)) d" by simp
  show "\<forall>out \<in> set (outerComponents g d). lb_state (s\<lparr>lb_state := (lb_state s)[c := Gray]\<rparr>) ! out = Black"
  proof
    fix e
    assume "e \<in> set (outerComponents g d)"
    with out assms(3) have "lb_state s ! e = Black" "e \<noteq> c" by auto
    then show "lb_state (s\<lparr>lb_state := (lb_state s)[c := Gray]\<rparr>) ! e = Black" by simp
  qed
qed (use assms(1) in \<open>simp_all add: settled_def\<close>)

lemma settled_black:
  assumes g: "graph_ok g" "c < length (lg_components g)" and s: "settled g s" "lb_state s ! c \<noteq> Black"
    and out: "\<And>out. out \<in> set (outerComponents g c) \<Longrightarrow> lb_state s ! out = Black"
  shows "settled g (s\<lparr>lb_keys := labelMembers g c (lb_keys s), lb_state := (lb_state s)[c := Black]\<rparr>)"
proof -
  let ?keys = "labelMembers g c (lb_keys s)"
  have len: "length (lb_keys s) = length (lg_edges g)" using s(1) by (simp add: settled_def)
  note new = labelMembers_labels [OF g len]
  have old: "labelled g ?keys d" if d: "d < length (lg_components g)" "d \<noteq> c" "lb_state s ! d = Black" for d
  proof -
    have black: "labelled g (lb_keys s) d" "\<And>out. out \<in> set (outerComponents g d) \<Longrightarrow> out \<noteq> c"
      using s d unfolding settled_def by blast+
    have "agree g d (lb_keys s) ?keys"
    proof (rule agree_outside [OF g(1) d(1)])
      fix t
      assume "t < length (lg_edges g)" "lg_componentOf g ! t \<in> set (outerComponents g d)"
      with black(2) new(3) len show "lb_keys s ! t = ?keys ! t" by simp
    qed
    note same = memberLabel_agree [OF this graph_members(1) [OF g(1) d(1)]]
    show ?thesis
      unfolding labelled_def
    proof
      fix i
      assume i: "i \<in> set (lg_components g ! d)"
      with graph_members(1) [OF g(1) d(1)] have "i < length (lg_edges g)" "lg_componentOf g ! i \<noteq> c"
        using d(2) by (auto simp: inside_of_def sameComponent_def)
      with new(3) len have "?keys ! i = lb_keys s ! i" by simp
      also have "\<dots> = memberLabel g d (lb_keys s) i" using black(1) i by (simp add: labelled_def)
      finally show "?keys ! i = memberLabel g d ?keys i" using same i by simp
    qed
  qed
  let ?s = "s\<lparr>lb_keys := ?keys, lb_state := (lb_state s)[c := Black]\<rparr>"
  have "c < length (lb_state s)" using g(2) s(1) by (simp add: settled_def)
  then have st: "lb_state ?s ! d = Black \<longleftrightarrow> d = c \<or> lb_state s ! d = Black" for d
    by (auto simp: nth_list_update)
  have "labelled g ?keys d \<and> (\<forall>out \<in> set (outerComponents g d). lb_state s ! out = Black)"
    if d: "d < length (lg_components g)" "d = c \<or> lb_state s ! d = Black" for d
  proof (cases "d = c")
    case True
    with new(1) out show ?thesis by simp
  next
    case False
    with d s(1) old [of d] show ?thesis by (simp add: settled_def)
  qed
  then show ?thesis
    unfolding settled_def st using new(2) len s(1) by (simp add: settled_def)
qed

lemma labelOuter:
  assumes step: "\<And>c s. c < bound \<Longrightarrow> settled g s
      \<Longrightarrow> \<exists>s'. labelComponent k g c s = Inr s' \<and> advanced g (Suc c) s s' \<and> lb_state s' ! c = Black"
  shows "set cs \<subseteq> {..<bound} \<Longrightarrow> settled g s
      \<Longrightarrow> \<exists>s'. res_fold (labelComponent k g) cs s = Inr s' \<and> advanced g bound s s' \<and> (\<forall>c \<in> set cs. lb_state s' ! c = Black)"
proof (induction cs arbitrary: s)
  case Nil
  then show ?case by (simp add: advanced_def)
next
  case (Cons c cs)
  obtain s1 where s1: "labelComponent k g c s = Inr s1" "advanced g (Suc c) s s1" "lb_state s1 ! c = Black"
    using step [of c s] Cons.prems by auto
  with Cons.IH [of s1] Cons.prems obtain s2 where
    s2: "res_fold (labelComponent k g) cs s1 = Inr s2" "advanced g bound s1 s2" "\<forall>c \<in> set cs. lb_state s2 ! c = Black"
    by (auto simp: advanced_def)
  then show ?case
    using s1 Cons.prems(1) by (auto simp: advanced_def)
qed

lemma labelComponent_ok:
  assumes g: "graph_ok g"
  shows "c < k \<Longrightarrow> c < length (lg_components g) \<Longrightarrow> settled g s
    \<Longrightarrow> \<exists>s'. labelComponent k g c s = Inr s' \<and> advanced g (Suc c) s s' \<and> lb_state s' ! c = Black"
proof (induction k arbitrary: c s)
  case (Suc k)
  show ?case
  proof (cases "lb_state s ! c = Black")
    case True
    with Suc.prems show ?thesis by (simp add: advanced_def)
  next
    case False
    let ?gray = "s\<lparr>lb_state := (lb_state s)[c := Gray]\<rparr>"
    have gray: "settled g ?gray" by (rule settled_gray [OF Suc.prems(3,2) False])
    have step: "\<exists>s'. labelComponent k g d s = Inr s' \<and> advanced g (Suc d) s s' \<and> lb_state s' ! d = Black"
      if "d < c" "settled g s" for d s
      using Suc.IH [of d s] Suc.prems that by simp
    have "set (outerComponents g c) \<subseteq> {..<c}" using outer_earlier [OF g Suc.prems(2)] by auto
    from labelOuter [OF step this gray] obtain s2
      where s2: "res_fold (labelComponent k g) (outerComponents g c) ?gray = Inr s2" "advanced g c ?gray s2"
        "\<forall>out \<in> set (outerComponents g c). lb_state s2 ! out = Black" by blast
    have len: "length (lb_state s) = length (lg_components g)" using Suc.prems(3) by (simp add: settled_def)
    have c: "lb_state s2 ! c = Gray" using s2(2) len Suc.prems(2) by (simp add: advanced_def)
    let ?s3 = "s2\<lparr>lb_keys := labelMembers g c (lb_keys s2), lb_state := (lb_state s2)[c := Black]\<rparr>"
    have s3: "settled g ?s3"
      by (rule settled_black [OF g Suc.prems(2)]) (use s2 c in \<open>auto simp: advanced_def\<close>)
    have "length (lb_state s2) = length (lg_components g)" using s2(2) by (simp add: advanced_def settled_def)
    then have "advanced g (Suc c) s ?s3" "lb_state ?s3 ! c = Black"
      using s2(2) s3 False len Suc.prems(2) by (auto simp: advanced_def nth_list_update)
    with s2(1) False show ?thesis by simp
  qed
qed simp

lemma labelComponents_ok:
  assumes g: "graph_ok g"
  shows "\<exists>keys. labelComponents g = Inr keys \<and> length keys = length (lg_edges g)
    \<and> (\<forall>c < length (lg_components g). labelMembers g c keys = keys)"
proof -
  let ?n = "length (lg_components g)"
  have start: "settled g \<lparr>lb_keys = replicate (length (lg_edges g)) [], lb_state = replicate ?n White\<rparr>"
    by (simp add: settled_def)
  have "set [0..<?n] \<subseteq> {..<?n}" by auto
  from labelOuter [OF _ this start, of ?n] labelComponent_ok [OF g]
  obtain s' where s': "res_fold (labelComponent ?n g) [0..<?n]
      \<lparr>lb_keys = replicate (length (lg_edges g)) [], lb_state = replicate ?n White\<rparr> = Inr s'"
    "settled g s'" "\<forall>c < ?n. lb_state s' ! c = Black"
    by (auto simp: advanced_def)
  then show ?thesis
    using labelled_iff [OF g] by (auto simp: labelComponents_def Let_def settled_def)
qed

text \<open>No other labels are right: they are the same from the first component on.\<close>

lemma labels_unique:
  assumes g: "graph_ok g" and len: "length k = length (lg_edges g)" "length k' = length (lg_edges g)"
    and k: "\<And>c. c < length (lg_components g) \<Longrightarrow> labelMembers g c k = k"
    and k': "\<And>c. c < length (lg_components g) \<Longrightarrow> labelMembers g c k' = k'"
  shows "k = k'"
proof -
  have "\<forall>i < length (lg_edges g). lg_componentOf g ! i = c \<longrightarrow> k ! i = k' ! i" if "c < length (lg_components g)" for c
    using that
  proof (induction c rule: less_induct)
    case (less c)
    have "agree g c k k'"
    proof (rule agree_outside [OF g less.prems])
      fix t
      assume "t < length (lg_edges g)" "lg_componentOf g ! t \<in> set (outerComponents g c)"
      with outer_earlier [OF g less.prems this(2)] less show "k ! t = k' ! t" by auto
    qed
    from memberLabel_agree [OF this graph_members(1) [OF g less.prems]] show ?case
      using labelled_iff [OF g less.prems len(1)] labelled_iff [OF g less.prems len(2)] k [OF less.prems] k' [OF less.prems]
        graph_component(2) [OF g]
      by (auto simp: labelled_def)
  qed
  with graph_component(1) [OF g] have "k ! i = k' ! i" if "i < length (lg_edges g)" for i using that by blast
  with len show ?thesis by (intro nth_equalityI) simp_all
qed

section \<open>The graph of the links\<close>

lemma linkGraph_ok:
  assumes "\<And>es e t. es \<in> set edges \<Longrightarrow> e \<in> set es \<Longrightarrow> ge_target e = Some t \<Longrightarrow> t < length edges"
  shows "graph_ok (linkGraphOf base edges external)"
proof -
  let ?succ = "map successors edges"
  have closed: "closed_graph ?succ" using assms by (auto simp: closed_graph_def in_successors) (metis nth_mem)
  note cs = linkComponents_ok [OF closed]
  have at: "componentOf (length edges) (linkComponents ?succ) ! v = j" "v < length edges"
    if "j < length (linkComponents ?succ)" "v \<in> set (linkComponents ?succ ! j)" for j v
    using componentOf_nth [OF cs(2) that] nth_in_concat [OF that(2,1), unfolded cs(3)] by simp_all
  have ex: "\<exists>j < length (linkComponents ?succ). v \<in> set (linkComponents ?succ ! j)" if "v < length edges" for v
  proof -
    have "v \<in> set (concat (linkComponents ?succ))" using cs(3) that by simp
    then obtain c where "c \<in> set (linkComponents ?succ)" "v \<in> set c" by auto
    then show ?thesis by (metis in_set_conv_nth)
  qed
  have le: "t < length edges" "componentOf (length edges) (linkComponents ?succ) ! t \<le> componentOf (length edges) (linkComponents ?succ) ! i"
    if i: "i < length edges" "t \<in> set (successors (edges ! i))" for i t
  proof -
    from ex [OF i(1)] obtain k where k: "k < length (linkComponents ?succ)" "i \<in> set (linkComponents ?succ ! k)" by blast
    obtain j where "j \<le> k" "t \<in> set (linkComponents ?succ ! j)"
      using components_ok_link [OF cs(1) k, of t] i by auto
    with at [of j t] at [OF k] k(1) show "t < length edges"
      "componentOf (length edges) (linkComponents ?succ) ! t \<le> componentOf (length edges) (linkComponents ?succ) ! i" by auto
  qed
  show ?thesis
    unfolding graph_ok_def using at ex le by (auto simp: linkGraphOf_def Let_def) blast+
qed

section \<open>The order of the spans\<close>

text \<open>The same links between spans that stand in another order: \<open>p\<close> says where each has gone.\<close>

definition renumber :: "(nat \<Rightarrow> nat) \<Rightarrow> graphEdge \<Rightarrow> graphEdge" where
  "renumber p e = e\<lparr>ge_target := map_option p (ge_target e)\<rparr>"

definition reordered_graph :: "(nat \<Rightarrow> nat) \<Rightarrow> string list \<times> graphEdge list list \<Rightarrow> string list \<times> graphEdge list list \<Rightarrow> bool" where
  "reordered_graph p = (\<lambda>(base, edges) (base', edges').
     length edges' = length edges \<and> bij_betw p {..<length edges} {..<length edges}
     \<and> (\<forall>i < length edges. edges' ! p i = map (renumber p) (edges ! i) \<and> base' ! p i = base ! i))"

definition targets_inside :: "graphEdge list list \<Rightarrow> bool" where
  "targets_inside edges \<longleftrightarrow> (\<forall>es \<in> set edges. \<forall>t \<in> set (successors es). t < length edges)"

lemma targets_insideD:
  "targets_inside edges \<Longrightarrow> i < length edges \<Longrightarrow> t \<in> set (successors (edges ! i)) \<Longrightarrow> t < length edges"
  unfolding targets_inside_def using nth_mem by blast

lemma successors_renumber: "successors (map (renumber p) es) = map p (successors es)"
  by (induction es) (auto simp: successors_def List.map_filter_def renumber_def)

lemma reordered_below:
  "reordered_graph p (base, edges) (base', edges') \<Longrightarrow> i < length edges \<Longrightarrow> p i < length edges"
  by (auto simp: reordered_graph_def bij_betw_def)

lemma reordered_from:
  assumes "reordered_graph p (base, edges) (base', edges')" "j < length edges"
  obtains i where "i < length edges" "j = p i"
  using assms by (auto simp: reordered_graph_def bij_betw_def set_eq_iff image_iff)

lemma reordered_eq:
  "reordered_graph p (base, edges) (base', edges') \<Longrightarrow> i < length edges \<Longrightarrow> t < length edges \<Longrightarrow> p i = p t \<longleftrightarrow> i = t"
  by (auto simp: reordered_graph_def bij_betw_def inj_on_def)

lemma reordered_targets:
  assumes "reordered_graph p (base, edges) (base', edges')" "targets_inside edges"
  shows "targets_inside edges'"
  unfolding targets_inside_def
proof (intro ballI)
  fix es t
  assume es: "es \<in> set edges'" "t \<in> set (successors es)"
  have n: "length edges' = length edges" using assms(1) by (simp add: reordered_graph_def)
  with es(1) obtain j where j: "j < length edges" "es = edges' ! j" by (metis in_set_conv_nth)
  obtain i where i: "i < length edges" "j = p i" by (rule reordered_from [OF assms(1) j(1)])
  then have "es = map (renumber p) (edges ! i)" using j assms(1) by (simp add: reordered_graph_def)
  with es(2) obtain u where "u \<in> set (successors (edges ! i))" "t = p u" by (auto simp: successors_renumber)
  with reordered_below [OF assms(1) targets_insideD [OF assms(2) i(1)]] n show "t < length edges'" by simp
qed

lemma reordered_reaches:
  assumes p: "reordered_graph p (base, edges) (base', edges')" and closed: "targets_inside edges" and u: "u < length edges"
  shows "reaches (map successors edges) u v \<Longrightarrow> v < length edges \<and> reaches (map successors edges') (p u) (p v)"
    and "reaches (map successors edges') (p u) w \<Longrightarrow> \<exists>v < length edges. w = p v \<and> reaches (map successors edges) u v"
proof -
  have n: "length edges' = length edges" using p by (simp add: reordered_graph_def)
  have link: "(p i, p t) \<in> link_rel (map successors edges')" if "(i, t) \<in> link_rel (map successors edges)" for i t
    using that p n reordered_below [OF p] by (auto simp: link_rel_def reordered_graph_def successors_renumber)
  have inside: "t < length edges" if "(i, t) \<in> link_rel (map successors edges)" for i t
    using that targets_insideD [OF closed] by (auto simp: link_rel_def)
  show "reaches (map successors edges) u v \<Longrightarrow> v < length edges \<and> reaches (map successors edges') (p u) (p v)"
    by (induction rule: rtrancl_induct) (use u link inside in \<open>auto intro: rtrancl.rtrancl_into_rtrancl\<close>)
  show "reaches (map successors edges') (p u) w \<Longrightarrow> \<exists>v < length edges. w = p v \<and> reaches (map successors edges) u v"
  proof (induction rule: rtrancl_induct)
    case (step x y)
    then obtain i where i: "i < length edges" "x = p i" "reaches (map successors edges) u i" by blast
    then have "y \<in> set (successors (map (renumber p) (edges ! i)))"
      using step(2) p n by (auto simp: link_rel_def reordered_graph_def)
    then obtain t where t: "t \<in> set (successors (edges ! i))" "y = p t" by (auto simp: successors_renumber)
    with i(1) have "(i, t) \<in> link_rel (map successors edges)" by (simp add: link_rel_def)
    with i(3) t(2) inside show ?case by (blast intro: rtrancl.rtrancl_into_rtrancl)
  qed (use u in blast)
qed

lemma linkGraphOf_simps [simp]:
  "lg_edges (linkGraphOf base edges external) = edges" "lg_base (linkGraphOf base edges external) = base"
  "lg_external (linkGraphOf base edges external) = external"
  "lg_components (linkGraphOf base edges external) = linkComponents (map successors edges)"
  by (simp_all add: linkGraphOf_def Let_def)

lemma targets_graph_ok: "targets_inside edges \<Longrightarrow> graph_ok (linkGraphOf base edges external)"
proof (rule linkGraph_ok)
  fix es e t
  assume closed: "targets_inside edges" and e: "es \<in> set edges" "e \<in> set es" "ge_target e = Some t"
  have "t \<in> set (successors es)" using e(2,3) by (auto simp: in_successors)
  with closed e(1) show "t < length edges" by (simp add: targets_inside_def)
qed

lemma same_component_iff:
  assumes closed: "targets_inside edges" and g: "g = linkGraphOf base edges external"
    and i: "i < length edges" "t < length edges"
  shows "lg_componentOf g ! i = lg_componentOf g ! t
    \<longleftrightarrow> reaches (map successors edges) i t \<and> reaches (map successors edges) t i"
proof -
  have ok: "graph_ok g" unfolding g by (rule targets_graph_ok [OF closed])
  have "closed_graph (map successors edges)" using targets_insideD [OF closed] by (auto simp: closed_graph_def)
  note cs = linkComponents_ok [OF this]
  let ?c = "lg_componentOf g ! i"
  have c: "?c < length (linkComponents (map successors edges))" "i \<in> set (linkComponents (map successors edges) ! ?c)"
    using graph_component [OF ok, of i] i by (simp_all add: g)
  have "t \<in> set (linkComponents (map successors edges) ! ?c) \<longleftrightarrow> lg_componentOf g ! t = ?c"
    using graph_members(2) [OF ok, of ?c t] c(1) i(2) by (simp add: g sameComponent_def)
  moreover have "t \<in> set (linkComponents (map successors edges) ! ?c)
      \<longleftrightarrow> reaches (map successors edges) i t \<and> reaches (map successors edges) t i"
    using component_scc [OF cs(1,2) c] by blast
  ultimately show ?thesis by (subst eq_commute) blast
qed

text \<open>The certificate of a span, with the references in step\<close>

definition same_references :: "nat \<Rightarrow> (nat \<Rightarrow> nat) \<Rightarrow> (nat, nat) gomap \<Rightarrow> (nat, nat) gomap \<Rightarrow> bool" where
  "same_references n p v v' \<longleftrightarrow> length v = length v' \<and> (\<forall>t < n. go_get v' (p t) = go_get v t)"

lemma length_go_put: "length (go_put k x m) = (if go_get m k = None then Suc (length m) else length m)"
  by (induction m) auto

lemma same_references_put:
  assumes "reordered_graph p (base, edges) (base', edges')" "same_references (length edges) p v v'" "i < length edges"
    "go_get v i = None"
  shows "same_references (length edges) p (go_put i x v) (go_put (p i) x v')"
  using assms reordered_eq [OF assms(1)] by (auto simp: same_references_def go_get_put length_go_put)

lemma certify_reordered:
  assumes p: "reordered_graph p (base, lg_edges g) (base', lg_edges g')" and closed: "targets_inside (lg_edges g)"
    and base: "lg_base g = base" "lg_base g' = base'" "lg_external g' = lg_external g"
    and same: "\<And>t. t < length (lg_edges g) \<Longrightarrow> sameComponent g' c' (p t) \<longleftrightarrow> sameComponent g c t"
    and keys: "\<And>t. t < length (lg_edges g) \<Longrightarrow> k' ! p t = k ! t"
  shows "i < length (lg_edges g) \<Longrightarrow> same_references (length (lg_edges g)) p v v'
      \<Longrightarrow> \<exists>w'. certify g' k' c' (p i) v' = (fst (certify g k c i v), w')
            \<and> same_references (length (lg_edges g)) p (snd (certify g k c i v)) w'"
    and "(\<forall>t \<in> set (successors es). t < length (lg_edges g)) \<Longrightarrow> same_references (length (lg_edges g)) p v v'
      \<Longrightarrow> \<exists>w'. certifyEdges g' k' c' (map (renumber p) es) v' = (fst (certifyEdges g k c es v), w')
            \<and> same_references (length (lg_edges g)) p (snd (certifyEdges g k c es v)) w'"
  using p closed base same keys
proof (induction g k c i v and g k c es v arbitrary: v' and v' rule: certify_certifyEdges.induct)
  case (1 g k c i v)
  note n = 1(4)
  have len: "length (lg_edges g') = length (lg_edges g)" using n by (simp add: reordered_graph_def)
  have ref: "go_get v' (p i) = go_get v i" "length v = length v'" using 1(2,3) by (simp_all add: same_references_def)
  show ?case
  proof (cases "go_get v i")
    case None
    have below: "\<forall>t \<in> set (successors (lg_edges g ! i)). t < length (lg_edges g)"
      using targets_insideD [OF 1(5,2)] by blast
    have edges: "lg_edges g' ! p i = map (renumber p) (lg_edges g ! i)" "lg_base g' ! p i = lg_base g ! i"
      using n 1(2,6,7) by (simp_all add: reordered_graph_def)
    have "same_references (length (lg_edges g)) p (go_put i (length v) v) (go_put (p i) (length v') v')"
      using same_references_put [OF n 1(3,2) None, of "length v"] ref(2) by simp
    from 1(1) [OF None _ below this n 1(5,6,7,8,9,10)] obtain w' where
      "certifyEdges g' k' c' (map (renumber p) (lg_edges g ! i)) (go_put (p i) (length v') v')
         = (fst (certifyEdges g k c (lg_edges g ! i) (go_put i (length v) v)), w')"
      "same_references (length (lg_edges g)) p (snd (certifyEdges g k c (lg_edges g ! i) (go_put i (length v) v))) w'"
      using 1(2) by auto
    with None ref 1(2) len reordered_below [OF n 1(2)] edges show ?thesis
      by (auto simp: certify.simps [of g] certify.simps [of g'] split: prod.splits)
  next
    case (Some r)
    with ref 1(3) show ?thesis by (simp add: certify.simps [of g] certify.simps [of g'])
  qed
next
  case (2 g k c v)
  then show ?case by simp
next
  case (3 g k c e es v)
  note rest = 3(5-)
  have below: "\<forall>t \<in> set (successors es). t < length (lg_edges g)"
    using 3(3) by (auto simp: in_successors)
  have descr: "edgeDescriptor (renumber p e) = edgeDescriptor e" "ge_external (renumber p e) = ge_external e"
    "ge_target (renumber p e) = map_option p (ge_target e)"
    by (simp_all add: renumber_def edgeDescriptor_def sharedMember_def fun_eq_iff)
  let ?step = "case ge_target e of
      None \<Rightarrow> (edgeDescriptor e ''externalTarget'' (JString (lg_external g (ge_external e))), v)
    | Some t \<Rightarrow> if sameComponent g c t then (case certify g k c t v of (x, v) \<Rightarrow> (edgeDescriptor e ''target'' x, v))
        else (edgeDescriptor e ''target'' (JString (k ! t)), v)"
  have step: "\<exists>w'. certifyEdges g' k' c' (map (renumber p) es) u' = (fst (certifyEdges g k c es u), w')
      \<and> same_references (length (lg_edges g)) p (snd (certifyEdges g k c es u)) w'"
    if "?step = (d, u)" "same_references (length (lg_edges g)) p u u'" for d u u'
    by (rule 3(2) [OF that(1) [symmetric] below that(2) rest])
  show ?case
  proof (cases "ge_target e")
    case None
    with step [OF _ 3(4)] show ?thesis
      using rest(5) descr by (auto split: prod.splits)
  next
    case (Some t)
    then have t: "t < length (lg_edges g)" using 3(3) by (simp add: in_successors)
    show ?thesis
    proof (cases "sameComponent g c t")
      case True
      from 3(1) [OF Some True t 3(4) rest] obtain w where
        w: "certify g' k' c' (p t) v' = (fst (certify g k c t v), w)"
          "same_references (length (lg_edges g)) p (snd (certify g k c t v)) w" by blast
      with step [OF _ w(2)] show ?thesis
        using Some True rest(6) [OF t] descr by (auto split: prod.splits)
    next
      case False
      with step [OF _ 3(4)] show ?thesis
        using Some rest(6,7) [OF t] descr by (auto split: prod.splits)
    qed
  qed
qed

lemma rootedCertificate_reordered:
  assumes "reordered_graph p (lg_base g, lg_edges g) (lg_base g', lg_edges g')" "targets_inside (lg_edges g)"
    "lg_external g' = lg_external g"
    "\<And>t. t < length (lg_edges g) \<Longrightarrow> sameComponent g' c' (p t) \<longleftrightarrow> sameComponent g c t"
    "\<And>t. t < length (lg_edges g) \<Longrightarrow> k' ! p t = k ! t" "i < length (lg_edges g)"
  shows "rootedCertificate g' k' c' (p i) = rootedCertificate g k c i"
proof -
  have "same_references (length (lg_edges g)) p [] []" by (simp add: same_references_def)
  from certify_reordered(1) [OF assms(1,2) refl refl assms(3,4,5,6) this]
  show ?thesis by (auto simp: rootedCertificate_def)
qed

lemma components_reordered:
  assumes p: "reordered_graph p (base, edges) (base', edges')" and closed: "targets_inside edges"
    and g: "g = linkGraphOf base edges external" "g' = linkGraphOf base' edges' external" and i: "i < length edges" "t < length edges"
  shows "lg_componentOf g' ! p i = lg_componentOf g' ! p t \<longleftrightarrow> lg_componentOf g ! i = lg_componentOf g ! t"
proof -
  have n: "length edges' = length edges" using p by (simp add: reordered_graph_def)
  have reach: "reaches (map successors edges') (p a) (p b) \<longleftrightarrow> reaches (map successors edges) a b"
    if "a < length edges" "b < length edges" for a b
    using reordered_reaches [OF p closed that(1)] reordered_eq [OF p that(2)] by blast
  show ?thesis
    unfolding same_component_iff [OF closed g(1) i]
      same_component_iff [OF reordered_targets [OF p closed] g(2), unfolded n, OF reordered_below [OF p i(1)] reordered_below [OF p i(2)]]
    by (simp only: reach [OF i] reach [OF i(2,1)])
qed

lemma component_length_reordered:
  assumes p: "reordered_graph p (base, edges) (base', edges')" and closed: "targets_inside edges"
    and g: "g = linkGraphOf base edges external" "g' = linkGraphOf base' edges' external" and i: "i < length edges"
  shows "length (lg_components g' ! (lg_componentOf g' ! p i)) = length (lg_components g ! (lg_componentOf g ! i))"
proof -
  have n: "length edges' = length edges" using p by (simp add: reordered_graph_def)
  have ok: "graph_ok g" "graph_ok g'"
    unfolding g using targets_graph_ok closed reordered_targets [OF p closed] by blast+
  have pi: "p i < length edges" by (rule reordered_below [OF p i])
  have mem: "t \<in> set (lg_components g ! (lg_componentOf g ! i)) \<longleftrightarrow> lg_componentOf g ! t = lg_componentOf g ! i"
    if "t < length edges" for t
    using graph_members(2) [OF ok(1), of "lg_componentOf g ! i" t] graph_component(1) [OF ok(1), of i] i that
    by (simp add: g(1) sameComponent_def)
  have mem': "t \<in> set (lg_components g' ! (lg_componentOf g' ! p i)) \<longleftrightarrow> lg_componentOf g' ! t = lg_componentOf g' ! p i"
    if "t < length edges" for t
    using graph_members(2) [OF ok(2), of "lg_componentOf g' ! p i" t] graph_component(1) [OF ok(2), of "p i"] pi that n
    by (simp add: g(2) sameComponent_def)
  have below: "t < length edges" if "t \<in> set (lg_components g ! (lg_componentOf g ! i))" for t
    using graph_members(1) [OF ok(1), of "lg_componentOf g ! i"] graph_component(1) [OF ok(1), of i] i that
    by (simp add: g(1) inside_of_def)
  have below': "t < length edges" if "t \<in> set (lg_components g' ! (lg_componentOf g' ! p i))" for t
    using graph_members(1) [OF ok(2), of "lg_componentOf g' ! p i"] graph_component(1) [OF ok(2), of "p i"] pi that n
    by (simp add: g(2) inside_of_def)
  have img: "set (lg_components g' ! (lg_componentOf g' ! p i)) = p ` set (lg_components g ! (lg_componentOf g ! i))"
  proof (intro subset_antisym subsetI)
    fix j
    assume j: "j \<in> set (lg_components g' ! (lg_componentOf g' ! p i))"
    obtain t where t: "t < length edges" "j = p t" by (rule reordered_from [OF p below' [OF j]])
    with mem' [OF below' [OF j]] j components_reordered [OF p closed g t(1) i] mem [OF t(1)]
    show "j \<in> p ` set (lg_components g ! (lg_componentOf g ! i))" by simp
  next
    fix j
    assume "j \<in> p ` set (lg_components g ! (lg_componentOf g ! i))"
    then obtain t where t: "t \<in> set (lg_components g ! (lg_componentOf g ! i))" "j = p t" by blast
    with mem' [OF reordered_below [OF p below [OF t(1)]]] components_reordered [OF p closed g below [OF t(1)] i] mem [OF below [OF t(1)]]
    show "j \<in> set (lg_components g' ! (lg_componentOf g' ! p i))" by simp
  qed
  have d: "distinct (lg_components h ! c)" if "graph_ok h" "c < length (lg_components h)" "distinct (concat (lg_components h))" for h c
    using that(2,3) by (simp add: distinct_concat_iff)
  have closed': "closed_graph (map successors edges)" "closed_graph (map successors edges')"
    using targets_insideD [OF closed] targets_insideD [OF reordered_targets [OF p closed]] by (auto simp: closed_graph_def)
  have dist: "distinct (lg_components g ! (lg_componentOf g ! i))" "distinct (lg_components g' ! (lg_componentOf g' ! p i))"
    using d [OF ok(1)] d [OF ok(2)] linkComponents_ok(2) [OF closed'(1)] linkComponents_ok(2) [OF closed'(2)]
      graph_component(1) [OF ok(1), of i] graph_component(1) [OF ok(2), of "p i"] i pi n by (simp_all add: g)
  have "inj_on p (set (lg_components g ! (lg_componentOf g ! i)))"
    using reordered_eq [OF p] below by (auto simp: inj_on_def)
  from card_image [OF this] show ?thesis
    using dist img by (simp flip: distinct_card)
qed

lemma labels_reordered:
  assumes p: "reordered_graph p (base, edges) (base', edges')" and closed: "targets_inside edges"
    and g: "g = linkGraphOf base edges external" "g' = linkGraphOf base' edges' external"
    and small: "\<forall>c \<in> set (lg_components g). length c \<le> 64"
    and keys: "labelComponents g = Inr keys" "labelComponents g' = Inr keys'" and i: "i < length edges"
  shows "keys' ! p i = keys ! i"
proof -
  have n: "length edges' = length edges" using p by (simp add: reordered_graph_def)
  have ok: "graph_ok g" "graph_ok g'"
    unfolding g using targets_graph_ok closed reordered_targets [OF p closed] by blast+
  have k: "length keys = length edges" "\<And>c. c < length (lg_components g) \<Longrightarrow> labelled g keys c"
    using labelComponents_ok [OF ok(1)] keys(1) labelled_iff [OF ok(1), of _ keys] by (auto simp: g(1))
  have k': "length keys' = length edges" "\<And>c. c < length (lg_components g') \<Longrightarrow> labelMembers g' c keys' = keys'"
    using labelComponents_ok [OF ok(2)] keys(2) n by (auto simp: g(2))
  define K where "K = map (\<lambda>j. keys ! inv_into {..<length edges} p j) [0..<length edges]"
  have K: "K ! p t = keys ! t" if "t < length edges" for t
    using p that reordered_below [OF p that] by (simp add: K_def reordered_graph_def bij_betw_def inv_into_f_f)
  have "labelled g' K c" if c: "c < length (lg_components g')" for c
    unfolding labelled_def
  proof
    fix j
    assume j: "j \<in> set (lg_components g' ! c)"
    then have j': "j < length edges" "lg_componentOf g' ! j = c"
      using graph_members(1) [OF ok(2) c] n by (auto simp: g(2) inside_of_def sameComponent_def)
    obtain t where t: "t < length edges" "j = p t" by (rule reordered_from [OF p j'(1)])
    let ?d = "lg_componentOf g ! t"
    have d: "?d < length (lg_components g)" "t \<in> set (lg_components g ! ?d)"
      using graph_component [OF ok(1), of t] t(1) by (simp_all add: g(1))
    have len: "length (lg_components g ! ?d) \<le> 64" "length (lg_components g' ! c) \<le> 64"
      using small d(1) component_length_reordered [OF p closed g t(1)] t(2) j'(2) by auto
    have "K ! j = memberLabel g ?d keys t" using K [OF t(1)] t(2) k(2) [OF d(1)] d(2) by (simp add: labelled_def)
    also have "\<dots> = shortDigest (rootedCertificate g keys ?d t)" using len by (simp add: memberLabel_def Let_def)
    also have "rootedCertificate g keys ?d t = rootedCertificate g' K c (p t)"
      by (rule rootedCertificate_reordered [symmetric])
        (use p closed K t j'(2) components_reordered [OF p closed g _ t(1)] in \<open>simp_all add: g(1,2) sameComponent_def\<close>)
    finally show "K ! j = memberLabel g' c K j" using len t(2) by (simp add: memberLabel_def Let_def)
  qed
  moreover have "length K = length edges'" by (simp add: K_def n)
  ultimately have "K = keys'"
    using labels_unique [OF ok(2)] labelled_iff [OF ok(2), of _ K] k' n by (simp add: g(2))
  with K [OF i] show ?thesis by simp
qed

section \<open>The properties\<close>

text \<open>C22. Labelling ends without an error for every graph whose links stay inside it, and the labels are
  the only ones of their number that \<open>labelMembers\<close> leaves as they are in every component: whatever
  the order in which the components are labelled, no label is computed from one that is still to change.\<close>

theorem link_labels_unique:
  assumes "\<forall>es \<in> set edges. \<forall>e \<in> set es. \<forall>t. ge_target e = Some t \<longrightarrow> t < length edges"
    and "g = linkGraphOf base edges external"
  shows "\<exists>keys. labelComponents g = Inr keys \<and> length keys = length edges
    \<and> (\<forall>keys'. length keys' = length edges \<longrightarrow>
         ((\<forall>c < length (lg_components g). labelMembers g c keys' = keys') \<longleftrightarrow> keys' = keys))"
proof -
  have g: "graph_ok g" unfolding assms(2) by (rule linkGraph_ok) (use assms(1) in blast)
  have n: "length (lg_edges g) = length edges" by (simp add: assms(2) linkGraphOf_def Let_def)
  from labelComponents_ok [OF g] obtain keys where keys: "labelComponents g = Inr keys" "length keys = length edges"
    "\<forall>c < length (lg_components g). labelMembers g c keys = keys" by (auto simp: n)
  then show ?thesis
    using labels_unique [OF g] by (intro exI [of _ keys]) (auto simp: n)
qed

text \<open>A cycle of two spans and a span that leads to one of them\<close>

definition ex_edge :: "nat \<Rightarrow> graphEdge" where
  "ex_edge t = \<lparr>ge_relationship = ''captured in same trace'', ge_target = Some t, ge_external = [], ge_shared = []\<rparr>"

definition ex_edges :: "graphEdge list list" where
  "ex_edges = [[ex_edge 1], [ex_edge 0], [ex_edge 0]]"

lemma ex_edges:
  "linkComponents (map successors ex_edges) = [[1, 0], [2]]" "length ex_edges = 3"
  "\<forall>es \<in> set ex_edges. \<forall>t \<in> set (successors es). t < length ex_edges"
  by code_simp+

theorem link_labels_unique_witness:
  "\<exists>keys. labelComponents (linkGraphOf [''a'', ''b'', ''c''] ex_edges (\<lambda>_. [])) = Inr keys \<and> length keys = 3
     \<and> labelMembers (linkGraphOf [''a'', ''b'', ''c''] ex_edges (\<lambda>_. [])) 0 keys = keys"
proof -
  have "\<forall>es \<in> set ex_edges. \<forall>e \<in> set es. \<forall>t. ge_target e = Some t \<longrightarrow> t < length ex_edges"
    by (simp add: ex_edges_def ex_edge_def)
  from link_labels_unique [OF this refl, of "[''a'', ''b'', ''c'']" "\<lambda>_. []"] obtain keys where
    "labelComponents (linkGraphOf [''a'', ''b'', ''c''] ex_edges (\<lambda>_. [])) = Inr keys" "length keys = length ex_edges"
    "\<And>c. c < length (linkComponents (map successors ex_edges))
       \<Longrightarrow> labelMembers (linkGraphOf [''a'', ''b'', ''c''] ex_edges (\<lambda>_. [])) c keys = keys" by auto
  then show ?thesis by (simp add: ex_edges)
qed

lemma linkEdges_below:
  assumes "index_ok (cp_index d) (cp_count d)" "es \<in> set (linkEdges U d digests parents)" "e \<in> set es" "ge_target e = Some t"
  shows "t < cp_count d"
proof -
  obtain i v where "e = linkEdge U d digests parents i v" using assms(2,3) by (auto simp: linkEdges_def)
  with assms(4) obtain key where "go_get (ix_ids (cp_index d)) key = Some t"
    by (auto simp: linkEdge_def Let_def split: prod.splits if_splits)
  with assms(1) show ?thesis by (auto simp: index_ok_def)
qed

lemma graph_keys_return:
  assumes "index_ok (cp_index d) (cp_count d)"
  shows "\<exists>keys. buildGraphAwareTargetKeys U d base digests parents = Inr keys \<and> length keys = cp_count d"
proof -
  have n: "length (linkEdges U d digests parents) = cp_count d" by (simp add: linkEdges_def)
  have "graph_ok (linkGraphOf base (linkEdges U d digests parents) external)" for external
    by (rule linkGraph_ok) (use linkEdges_below [OF assms] n in auto)
  from labelComponents_ok [OF this] show ?thesis
    by (auto simp: buildGraphAwareTargetKeys_def linkGraphOf_def Let_def n)
qed

lemma analysis_succeeds:
  "(\<exists>d. analyseSpans (buildGraphAwareTargetKeys U) U rd = Inr d) \<longleftrightarrow>
   (\<exists>ix. indexSpans U (rd_spans rd) = Inr ix
     \<and> (\<forall>i < length (rd_spans rd). ancestor (linkParents ix (length (rd_spans rd))) maxLevels i = None))"
proof -
  let ?n = "length (rd_spans rd)"
  have links: "\<exists>d'. labelLinks (buildGraphAwareTargetKeys U) U d = Inr d'" if "index_ok (cp_index d) (cp_count d)" for d
  proof -
    have "\<forall>base digests parents. \<exists>keys. buildGraphAwareTargetKeys U d base digests parents = Inr keys"
      using graph_keys_return [OF that] by blast
    then obtain keys where "\<And>base digests parents. buildGraphAwareTargetKeys U d base digests parents = Inr (keys base digests parents)"
      by metis
    then show ?thesis by (simp add: labelLinks_def Let_def)
  qed
  show ?thesis
  proof (cases "indexSpans U (rd_spans rd)")
    case (Inr ix)
    have "index_ok ix ?n" by (rule indexSpans_ok [OF Inr])
    with links fingerprint_depth [OF linkParents_ok [OF this], of U] Inr show ?thesis
      by (auto simp: analyseSpans_def res_bind_Inr_iff Let_def)
  qed (simp add: analyseSpans_def)
qed

text \<open>C24. The analysis of a capture, with the graph-aware labels of its links, succeeds exactly when the
  identities of its spans are good and no span has \<open>maxLevels\<close> ancestors: however the links of the
  spans run, cycles included, they are never the reason of a failure.\<close>

theorem capture_analysis_iff:
  "(\<exists>d. analyseSpans (buildGraphAwareTargetKeys U) U rd = Inr d) \<longleftrightarrow>
   (\<exists>ix. indexSpans U (rd_spans rd) = Inr ix
     \<and> (\<forall>i < length (rd_spans rd). ancestor (linkParents ix (length (rd_spans rd))) maxLevels i = None))"
  by (rule analysis_succeeds)

text \<open>A capture without spans, and one of a span that names itself as its parent\<close>

definition reading_of :: "CapturedSpan list \<Rightarrow> reading" where
  "reading_of spans = \<lparr>rd_resources = [], rd_resourceIndexes = [], rd_scopes = [], rd_scopeIndexes = [], rd_spans = spans\<rparr>"

theorem capture_analysis_iff_witness:
  "(\<exists>d. analyseSpans (buildGraphAwareTargetKeys plain_tables) plain_tables (reading_of []) = Inr d)
   \<and> \<not> (\<exists>d. analyseSpans (buildGraphAwareTargetKeys plain_tables) plain_tables (reading_of [ex_loop]) = Inr d)"
proof -
  have m: "member (cs_fields ex_loop) ''traceId'' = JString ''0123456789abcdef0123456789abcdef''"
    "member (cs_fields ex_loop) ''spanId'' = JString ''0000000000000001''"
    "member (cs_fields ex_loop) ''parentSpanId'' = JString ''0000000000000001''"
    by (simp_all add: ex_loop_def newSpan_def go_get0_def)
  obtain ix where ix: "indexSpans plain_tables [ex_loop] = Inr ix" "parentOf ix 0 = Some 0"
    by (simp add: indexSpans_def identifySpan_def m no_index_def Let_def parentOf_def spanID_key_def)
  have "index_ok ix 1" using indexSpans_ok [OF ix(1)] by simp
  from linkParents_eq(3) [OF this, of 0] ix(2) have "fo_parents (linkParents ix 1) ! 0 = Some 0" by simp
  then have "ancestor (linkParents ix 1) k 0 = Some 0" for k by (induction k) auto
  with ix(1) have "\<not> (\<exists>d. analyseSpans (buildGraphAwareTargetKeys plain_tables) plain_tables (reading_of [ex_loop]) = Inr d)"
    using capture_analysis_iff [of plain_tables "reading_of [ex_loop]"] by (simp add: reading_of_def)
  moreover have "indexSpans plain_tables [] = Inr no_index" by (simp add: indexSpans_def)
  ultimately show ?thesis
    using capture_analysis_iff [of plain_tables "reading_of []"] by (simp add: reading_of_def)
qed

text \<open>C23. When no component has more than 64 spans, the labels do not depend on the order of the spans
  in the capture: spans that stand in another order, with the same links and occurrence keys, have the
  same labels.\<close>

theorem link_labels_order_independent:
  assumes "reordered_graph p (base, edges) (base', edges')"
    and "\<forall>es \<in> set edges. \<forall>t \<in> set (successors es). t < length edges"
    and "\<forall>c \<in> set (linkComponents (map successors edges)). length c \<le> 64"
  shows "\<exists>keys keys'. labelComponents (linkGraphOf base edges external) = Inr keys
    \<and> labelComponents (linkGraphOf base' edges' external) = Inr keys'
    \<and> (\<forall>i < length edges. keys' ! p i = keys ! i)"
proof -
  have closed: "targets_inside edges" using assms(2) by (simp add: targets_inside_def)
  obtain keys where keys: "labelComponents (linkGraphOf base edges external) = Inr keys"
    using labelComponents_ok [OF targets_graph_ok [OF closed]] by blast
  obtain keys' where keys': "labelComponents (linkGraphOf base' edges' external) = Inr keys'"
    using labelComponents_ok [OF targets_graph_ok [OF reordered_targets [OF assms(1) closed]]] by blast
  have "keys' ! p i = keys ! i" if "i < length edges" for i
    using labels_reordered [OF assms(1) closed refl refl _ keys keys' that] assms(3) by simp
  with keys keys' show ?thesis by blast
qed

theorem link_labels_order_independent_witness:
  "\<exists>keys keys'. labelComponents (linkGraphOf [''a'', ''b'', ''c''] ex_edges (\<lambda>_. [])) = Inr keys
     \<and> labelComponents (linkGraphOf [''c'', ''a'', ''b''] [[ex_edge 1], [ex_edge 2], [ex_edge 1]] (\<lambda>_. [])) = Inr keys'
     \<and> keys' ! 1 = keys ! 0 \<and> keys' ! 2 = keys ! 1 \<and> keys' ! 0 = keys ! 2"
proof -
  let ?p = "\<lambda>i. if i = 2 then 0 else Suc i :: nat"
  have n: "{..<3} = {0, 1, 2 :: nat}" by auto
  have "bij_betw ?p {..<3} {..<3}" unfolding n by (auto simp: bij_betw_def inj_on_def)
  moreover have "\<forall>i \<in> {..<3}. [[ex_edge 1], [ex_edge 2], [ex_edge 1]] ! ?p i = map (renumber ?p) (ex_edges ! i)
      \<and> [''c'', ''a'', ''b''] ! ?p i = [''a'', ''b'', ''c''] ! i"
    unfolding n by (simp add: renumber_def ex_edge_def ex_edges_def)
  ultimately have "reordered_graph ?p ([''a'', ''b'', ''c''], ex_edges) ([''c'', ''a'', ''b''], [[ex_edge 1], [ex_edge 2], [ex_edge 1]])"
    by (simp add: reordered_graph_def ex_edges(2))
  moreover have "\<forall>c \<in> set (linkComponents (map successors ex_edges)). length c \<le> 64" by (simp add: ex_edges)
  ultimately obtain keys keys' where k: "labelComponents (linkGraphOf [''a'', ''b'', ''c''] ex_edges (\<lambda>_. [])) = Inr keys"
    "labelComponents (linkGraphOf [''c'', ''a'', ''b''] [[ex_edge 1], [ex_edge 2], [ex_edge 1]] (\<lambda>_. [])) = Inr keys'"
    "\<And>i. i < length ex_edges \<Longrightarrow> keys' ! ?p i = keys ! i"
    using link_labels_order_independent [OF _ ex_edges(3)] by blast
  from k(3) [of 0] k(3) [of 1] k(3) [of 2] have "keys' ! 1 = keys ! 0" "keys' ! 2 = keys ! 1" "keys' ! 0 = keys ! 2"
    by (simp_all add: ex_edges(2) numeral_2_eq_2)
  with k(1,2) show ?thesis by blast
qed

end
