(* ===== verification/Captures.thy ===== *)
theory Captures
  imports GraphKeys ReportModel Align
begin

text \<open>
  The captures of a report, the second half of \<open>AddReportProjections\<close> in
  \<open>src/report/report/projections.go\<close>: the captures of the receipts, in the order of their keys, and
  for each two of the same scenario which spans of the one correspond to which of the other, as
  positions in their lists of spans. The text of a capture is given by its tokens and the error at
  their end.
\<close>

section \<open>Comparisons of captures\<close>

text \<open>\<open>type CaptureSpanMatch\<close>, where an absent side has no positions, \<open>CaptureTraceMatch\<close> and \<open>CaptureComparison\<close>\<close>

record CaptureSpanMatch =
  sx_depth :: int
  sx_left :: "nat list"
  sx_right :: "nat list"

record CaptureTraceMatch =
  tx_left :: "TraceRef option"
  tx_right :: "TraceRef option"
  tx_spans :: "CaptureSpanMatch list"

record CaptureComparison =
  cx_left :: string
  cx_right :: string
  cx_scenario :: string
  cx_traces :: "CaptureTraceMatch list"

definition captureSpan :: "SpanMatch \<Rightarrow> CaptureSpanMatch" where
  "captureSpan s = \<lparr>sx_depth = mt_depth s, sx_left = (case mt_left s of None \<Rightarrow> [] | Some n \<Rightarrow> sn_occ n),
     sx_right = (case mt_right s of None \<Rightarrow> [] | Some n \<Rightarrow> sn_occ n)\<rparr>"

definition captureTrace :: "TraceMatch \<Rightarrow> CaptureTraceMatch" where
  "captureTrace t = \<lparr>tx_left = tm_left t, tx_right = tm_right t, tx_spans = map captureSpan (tm_spans t)\<rparr>"

definition compareCaptures :: "unicode_tables \<Rightarrow> CaptureDataset \<Rightarrow> CaptureDataset \<Rightarrow> CaptureComparison" where
  "compareCaptures U l r =
     (let traces = (case AlignShapes U (Some (cd_shape l)) (Some (cd_shape r)) of None \<Rightarrow> [] | Some a \<Rightarrow> sa_traces a)
      in \<lparr>cx_left = cd_key l, cx_right = cd_key r, cx_scenario = cd_scenario l, cx_traces = map captureTrace traces\<rparr>)"

text \<open>The guard of the loops over two captures\<close>

definition skipPair :: "CaptureDataset \<Rightarrow> CaptureDataset \<Rightarrow> bool" where
  "skipPair l r \<longleftrightarrow> cd_scenario l \<noteq> cd_scenario r \<or> length (cd_diagnostics l) > 0 \<or> length (cd_diagnostics r) > 0"

definition captureComparisons :: "unicode_tables \<Rightarrow> CaptureDataset list \<Rightarrow> CaptureComparison list" where
  "captureComparisons U captures =
     concat (map (\<lambda>(l, r). if skipPair l r then [] else [compareCaptures U l r]) (later_pairs captures))"

section \<open>AddReportProjections\<close>

record ProjectedModel = ReportModel +
  pm_captures :: "CaptureDataset list"
  pm_captureComparisons :: "CaptureComparison list"

type_synonym capture_text = "token list \<times> error"

definition decodeCaptures :: "unicode_tables \<Rightarrow> (string \<Rightarrow> string option) \<Rightarrow> (string, capture_text) gomap
    \<Rightarrow> ValidationReceipt list \<Rightarrow> CaptureDataset list" where
  "decodeCaptures U floatText captures receipts =
     concat (map (\<lambda>r. case go_get captures (receipt_key r) of None \<Rightarrow> []
       | Some (tokens, e) \<Rightarrow> [decodeCapture U floatText r tokens e]) receipts)"

text \<open>The whole of it, on a model that \<open>BuildModelForProfiles\<close> has built, which has no captures yet\<close>

definition AddReportProjections :: "unicode_tables \<Rightarrow> (string \<Rightarrow> string option) \<Rightarrow> (string, PlanArtifact) gomap
    \<Rightarrow> (string, capture_text) gomap \<Rightarrow> ReportModel \<Rightarrow> ProjectedModel" where
  "AddReportProjections U floatText plans captures model =
     (let datasets = sort_key cd_key (decodeCaptures U floatText captures (rm_receipts model))
      in ReportModel.extend (addPlannedChecks plans model)
           (ProjectedModel.fields datasets (captureComparisons U datasets)))"

end
