(* ===== verification/CapturePairs.thy ===== *)
theory CapturePairs
  imports AlignRows ReportSpec CaptureInput LabelSpec Captures
begin

text \<open>
  What the comparisons of captures promise: two captures of the same scenario that were read without
  a diagnostic are compared once, and the comparison shows every span of either capture once.
\<close>

section \<open>Shapes of captures\<close>

lemma exact_plain: "exact_group g \<Longrightarrow> plain_group g"
  by (induction g rule: exact_group.induct) (auto simp: list_all_iff)

lemma exact_children: "exact_group g \<Longrightarrow> sn_occ (sg_span g) \<noteq> [] \<and> list_all exact_group (sg_children g)"
  by (cases g rule: exact_group.cases) simp

lemma sum_length_le:
  "(\<And>g. g \<in> set gs \<Longrightarrow> group_size g \<le> length (all_occurrences [g])) \<Longrightarrow> groups_size gs \<le> length (all_occurrences gs)"
  by (induction gs) (simp_all add: add_mono)

lemma occurrences_eq: "occurrences g = sn_occ (sg_span g) @ all_occurrences (sg_children g)"
  by (cases g rule: occurrences.cases) simp

lemma exact_size: "exact_group g \<Longrightarrow> group_size g \<le> length (all_occurrences [g])"
proof (induction g rule: group_induct)
  case (group g)
  note e = exact_children [OF group.prems]
  then have "groups_size (sg_children g) \<le> length (all_occurrences (sg_children g))"
    using group.IH by (intro sum_length_le) (simp add: list_all_iff)
  with e show ?case by (cases "sn_occ (sg_span g)") (simp_all add: group_size_eq [of g] occurrences_eq [of g])
qed

lemma capture_plain:
  assumes "DecodeCapture graphKeys U floatText receipt stream e = data" "cd_diagnostics data = []"
  shows "plain_traces (ss_traces (cd_shape data))"
    and "traces_size (ss_traces (cd_shape data)) \<le> length (cd_spans data)"
    and "mset (shapeOccurrences (ss_traces (cd_shape data))) = mset [0..<length (cd_spans data)]"
proof -
  let ?ts = "ss_traces (cd_shape data)"
  note shape = capture_shape_spans [OF assms]
  then show occ: "mset (shapeOccurrences ?ts) = mset [0..<length (cd_spans data)]" by blast
  have exact: "\<forall>t \<in> set ?ts. tg_alts t = [] \<and> list_all exact_group (tg_roots t)" using shape by blast
  then show "plain_traces ?ts" using exact_plain by (auto simp: plain_traces_def list_all_iff)
  have "all_occurrences (concat (map tg_roots ts)) = shapeOccurrences ts" for ts
    by (induction ts) (simp_all add: shapeOccurrences_def)
  moreover have "groups_size (concat (map tg_roots ?ts)) \<le> length (all_occurrences (concat (map tg_roots ?ts)))"
    using exact by (intro sum_length_le exact_size) (auto simp: list_all_iff)
  moreover have "length (shapeOccurrences ?ts) = length (cd_spans data)" using arg_cong [OF occ, of size] by simp
  ultimately show "traces_size ?ts \<le> length (cd_spans data)" by simp
qed

section \<open>Comparisons\<close>

text \<open>The spans, and the trace groups, that a comparison shows of one side\<close>

definition compared :: "(CaptureSpanMatch \<Rightarrow> nat list) \<Rightarrow> CaptureComparison \<Rightarrow> nat multiset" where
  "compared side c = mset (concat (map side (concat (map tx_spans (cx_traces c)))))"

definition compared_traces :: "(CaptureTraceMatch \<Rightarrow> TraceRef option) \<Rightarrow> CaptureComparison \<Rightarrow> nat multiset" where
  "compared_traces side c = mset (map tr_index (List.map_filter side (cx_traces c)))"

lemma captureSpan_sides:
  "mset (sx_left (captureSpan s)) = node_occ (mt_left s)" "mset (sx_right (captureSpan s)) = node_occ (mt_right s)"
  by (simp_all add: captureSpan_def node_occ_def split: option.split)

lemma capture_rows:
  "mset (concat (map sx_left (map captureSpan rows))) = rows_occ mt_left rows"
  "mset (concat (map sx_right (map captureSpan rows))) = rows_occ mt_right rows"
  by (induction rows) (simp_all add: captureSpan_sides)

lemma capture_traces:
  "concat (map tx_spans (map captureTrace ts)) = map captureSpan (concat (map tm_spans ts))"
  "mset (map tr_index (List.map_filter tx_left (map captureTrace ts))) = row_indices tm_left ts"
  "mset (map tr_index (List.map_filter tx_right (map captureTrace ts))) = row_indices tm_right ts"
  by (induction ts) (simp_all add: captureTrace_def row_indices_def List.map_filter_def)

lemma compare_captures_complete:
  assumes l: "DecodeCapture graphKeys U floatText receipt stream e = l" "cd_diagnostics l = []" "length (cd_spans l) \<le> 20000"
    and r: "DecodeCapture graphKeys' U' floatText' receipt' stream' e' = r" "cd_diagnostics r = []" "length (cd_spans r) \<le> 20000"
  shows "compared sx_left (compareCaptures U l r) = mset [0..<length (cd_spans l)]
    \<and> compared sx_right (compareCaptures U l r) = mset [0..<length (cd_spans r)]
    \<and> compared_traces tx_left (compareCaptures U l r) = mset [0..<length (ss_traces (cd_shape l))]
    \<and> compared_traces tx_right (compareCaptures U l r) = mset [0..<length (ss_traces (cd_shape r))]"
proof -
  note pl = capture_plain [OF l(1,2)] and pr = capture_plain [OF r(1,2)]
  have small: "traces_size (ss_traces (cd_shape l)) \<le> 20000" "traces_size (ss_traces (cd_shape r)) \<le> 20000"
    using pl(2) l(3) pr(2) r(3) by (meson le_trans)+
  then have size: "traces_size (ss_traces (cd_shape l)) \<le> 10 ^ 6" "traces_size (ss_traces (cd_shape r)) \<le> 10 ^ 6" by simp_all
  let ?p = "choosePairedTraceCandidates U (ss_traces (cd_shape l)) (ss_traces (cd_shape r))"
  obtain a where a: "AlignShapes U (Some (cd_shape l)) (Some (cd_shape r)) = Some a"
    "traces_rows mt_left (sa_traces a) = mset [0..<length (cd_spans l)]"
    "traces_rows mt_right (sa_traces a) = mset [0..<length (cd_spans r)]"
    using align_plain_shapes [OF pl(1) size(1) pr(1) size(2), of U] unfolding pl(3) pr(3) by blast
  have shapes: "aligned_shapes (ss_traces (cd_shape l)) (ss_traces (cd_shape r))"
    using pl(1) pr(1) small by (simp add: aligned_shapes_def)
  have bounded: "traces_bounded U (fst ?p) (snd ?p)"
    using the_traces_bounded [OF pl(1) size(1) pr(1) size(2)] by (simp only: choose_traces [OF pl(1) pr(1) size(1)] fst_conv snd_conv)
  have rows: "row_indices tm_left (sa_traces a) = mset [0..<length (ss_traces (cd_shape l))]
      \<and> row_indices tm_right (sa_traces a) = mset [0..<length (ss_traces (cd_shape r))]"
    using align_shapes_rows [OF shapes bounded] a(1) by auto
  have "cx_traces (compareCaptures U l r) = map captureTrace (sa_traces a)"
    by (simp add: compareCaptures_def a(1))
  then show ?thesis
    unfolding compared_def compared_traces_def by (simp only: capture_traces capture_rows a(2,3) rows)
qed

lemma captureComparisons_eq:
  "captureComparisons U xs = map (\<lambda>(l, r). compareCaptures U l r) (filter (\<lambda>(l, r). \<not> skipPair l r) (later_pairs xs))"
proof -
  have "concat (map (\<lambda>(l, r). if skipPair l r then [] else [compareCaptures U l r]) ps)
      = map (\<lambda>(l, r). compareCaptures U l r) (filter (\<lambda>(l, r). \<not> skipPair l r) ps)" for ps
    by (induction ps) auto
  then show ?thesis by (simp add: captureComparisons_def)
qed

lemma decoded_captures:
  assumes "c \<in> set (decodeCaptures U floatText captures receipts)"
  obtains receipt stream e where "DecodeCapture (buildGraphAwareTargetKeys U) U floatText receipt stream e = c"
  using assms by (auto simp: decodeCaptures_def decodeCapture_def split: option.splits)

text \<open>
  C31. The captures of a report that have the same scenario and were read without a diagnostic are
  compared once each, whatever order the sort gives captures of equal keys; and a comparison shows
  every span of either capture in exactly one row, by its position among the capture's spans, and
  every trace group of either capture in exactly one pair. The captures have up to 20,000 spans each, so
  that no auction of the pairing overflows (\<open>spans_fit\<close>, \<open>traces_fit\<close>).
\<close>

theorem capture_comparisons_complete:
  assumes "mset xs = mset (decodeCaptures U floatText captures receipts)"
    and "\<forall>c \<in> set xs. length (cd_spans c) \<le> 20000"
  shows "list_all2 (\<lambda>(l, r) c. cx_left c = cd_key l \<and> cx_right c = cd_key r \<and> cx_scenario c = cd_scenario l
      \<and> compared sx_left c = mset [0..<length (cd_spans l)] \<and> compared sx_right c = mset [0..<length (cd_spans r)]
      \<and> compared_traces tx_left c = mset [0..<length (ss_traces (cd_shape l))]
      \<and> compared_traces tx_right c = mset [0..<length (ss_traces (cd_shape r))])
    (filter (\<lambda>(l, r). cd_scenario l = cd_scenario r \<and> cd_diagnostics l = [] \<and> cd_diagnostics r = []) (later_pairs xs))
    (captureComparisons U xs)"
proof -
  have pairs: "filter (\<lambda>(l, r). \<not> skipPair l r) (later_pairs xs)
      = filter (\<lambda>(l, r). cd_scenario l = cd_scenario r \<and> cd_diagnostics l = [] \<and> cd_diagnostics r = []) (later_pairs xs)"
    by (rule filter_cong) (auto simp: skipPair_def)
  have decoded: "\<exists>receipt stream e. DecodeCapture (buildGraphAwareTargetKeys U) U floatText receipt stream e = c"
    if "c \<in> set xs" for c
    using that mset_eq_setD [OF assms(1)] decoded_captures by metis
  have "cx_left c = cd_key l \<and> cx_right c = cd_key r \<and> cx_scenario c = cd_scenario l
      \<and> compared sx_left c = mset [0..<length (cd_spans l)] \<and> compared sx_right c = mset [0..<length (cd_spans r)]
      \<and> compared_traces tx_left c = mset [0..<length (ss_traces (cd_shape l))]
      \<and> compared_traces tx_right c = mset [0..<length (ss_traces (cd_shape r))]"
    if p: "(l, r) \<in> set (later_pairs xs)" and ok: "cd_diagnostics l = []" "cd_diagnostics r = []"
      and c: "c = compareCaptures U l r" for l r c
  proof -
    have "l \<in> set xs" "r \<in> set xs" using p by (auto simp: later_pairs_set)
    with decoded assms(2) obtain a b c a' b' c' where
      "DecodeCapture (buildGraphAwareTargetKeys U) U floatText a b c = l" "length (cd_spans l) \<le> 20000"
      "DecodeCapture (buildGraphAwareTargetKeys U) U floatText a' b' c' = r" "length (cd_spans r) \<le> 20000" by metis
    from compare_captures_complete [OF this(1) ok(1) this(2) this(3) ok(2) this(4)]
    show ?thesis unfolding c by (simp add: compareCaptures_def Let_def)
  qed
  then show ?thesis
    unfolding captureComparisons_eq pairs list_all2_map2 list_all2_same by auto
qed

lemma ex_dataset:
  fixes receipt :: ValidationReceipt
  defines "data \<equiv> decodeCapture plain_tables Some receipt (tokens ex_capture) io_EOF"
  shows "cd_diagnostics data = [] \<and> length (cd_spans data) = 1 \<and> cd_scenario data = vr_scenario receipt"
proof -
  let ?U = plain_tables
  obtain m where m: "readSpan ?U (maxTimestamp ''protobuf'') (JObject ex_fields) = Inr m"
     "member m ''traceId'' = JString ''0123456789abcdef0123456789abcdef''"
     "member m ''spanId'' = JString ''0000000000000001''" "member m ''parentSpanId'' = JString []"
    using ex_read by blast
  obtain rd where rd: "readCapture ?U Some (tokens ex_capture) io_EOF = (rd, None)" "rd_spans rd = [newSpan 0 0 m]"
    using ex_reading [OF m(1)] by blast
  obtain d where d: "analyseSpans (buildGraphAwareTargetKeys ?U) ?U rd = Inr d"
    using ex_span_index [OF rd(2) m(2-4)] analysis_succeeds by blast
  have data: "cd_diagnostics data = []" "cd_spans data = cp_spans (labelSpans ?U d)" "cd_scenario data = vr_scenario receipt"
    using rd(1) d by (simp_all add: data_def decodeCapture_def DecodeCapture_def dataset_def Let_def)
  obtain ix where "map (\<lambda>s. (cs_resource s, cs_scope s, cs_fields s)) (cp_spans d) = map (\<lambda>s. (cs_resource s, cs_scope s, cs_fields s)) (rd_spans rd)"
    using analyseSpans_spec [OF d] by blast
  then have "length (cd_spans data) = 1"
    using arg_cong [OF labelSpans_keeps(3) [of ?U d], of length] rd(2) unfolding data(2) by (auto dest: arg_cong [of _ _ length])
  with data show ?thesis by simp
qed

text \<open>The same capture under two profiles\<close>

abbreviation ex_captures :: "(string, capture_text) gomap" where
  "ex_captures \<equiv> [(pair_key ''p'' ''s'', (tokens ex_capture, io_EOF)), (pair_key ''q'' ''s'', (tokens ex_capture, io_EOF))]"

theorem capture_comparisons_complete_witness:
  "\<exists>c. captureComparisons plain_tables
      (decodeCaptures plain_tables Some ex_captures [ex_receipt, ex_receipt\<lparr>vr_profile := ''q''\<rparr>]) = [c]
    \<and> compared sx_left c = {#0#} \<and> compared sx_right c = {#0#}"
proof -
  let ?d = "\<lambda>r. decodeCapture plain_tables Some r (tokens ex_capture) io_EOF" and ?q = "ex_receipt\<lparr>vr_profile := ''q''\<rparr>"
  have xs: "decodeCaptures plain_tables Some ex_captures [ex_receipt, ?q] = [?d ex_receipt, ?d ?q]"
    by (simp add: decodeCaptures_def receipt_key_def ex_receipt_def pair_key_def)
  have "\<forall>c \<in> set [?d ex_receipt, ?d ?q]. length (cd_spans c) \<le> 20000" using ex_dataset by simp
  from capture_comparisons_complete [OF arg_cong [OF xs [symmetric], of mset] this]
  show ?thesis using ex_dataset [of ex_receipt] ex_dataset [of ?q]
    by (auto simp: xs list_all2_Cons1)
qed

end
