(* ===== verification/Spec2Isabelle.thy ===== *)
theory Spec2Isabelle
  imports Profile Matrix ReportSpec StressSpec Proxy Bundles RootfsSpec CapturePairs
begin

text \<open>
  A verification library for the Go tools of the repository: the report that compares how
  instrumented applications emit telemetry, and what it is built from. A build extracts the
  shape of the traces of each scenario into a Scheme file; each profile (an application with an
  instrumentation) has a plan of proofs, compiled from Scheme sources; a test run leaves a
  receipt per profile and scenario; the report is built from the imported feature matrix, the
  manifests, the plans, the receipts and the shapes, and aligns the shapes of two profiles.

  \<^bold>\<open>Theories and sources.\<close> All paths are under \<open>src/report/report/\<close> unless a directory is named.

  \<^item> \<open>GoPrelude\<close>, \<open>GoStrings\<close>: Go's errors, loops with early return, maps, sorting, 64-bit
    arithmetic; strings as lists of bytes and the functions of \<open>strings\<close>, \<open>strconv\<close> and
    \<open>unicode/utf8\<close> the code calls.
  \<^item> \<open>Scheme\<close>: \<open>tokenizeScheme\<close>, \<open>parseScheme\<close> and the accessors of \<open>scheme.go\<close>. \<open>Shape\<close>:
    \<open>ParseScenarioShape\<close> and what it calls, with the shape types of \<open>model.go\<close>.
  \<^item> \<open>Model\<close>: the structs of \<open>model.go\<close>. \<open>Sources\<close>: \<open>validateImmutableSource\<close>,
    \<open>validateEvidence\<close>, \<open>PinRepositoryRevision\<close>.
  \<^item> \<open>Profile\<close>: \<open>profile.go\<close>, from the Scheme sources of a profile to its normalized plan.
    \<open>Matrix\<close>: \<open>matrix.go\<close>, the reader of the compliance tables.
  \<^item> \<open>Sha256\<close>: the digest of the standard library. \<open>Receipt\<close>: \<open>receipt.go\<close>, the checks that make
    a receipt set trusted, and the claims that follow from it.
  \<^item> \<open>ReportModel\<close>: \<open>BuildModelForProfiles\<close> and its checks, \<open>DecodeMetadata\<close>,
    \<open>VerifyMatrixDigest\<close>, \<open>SortInputs\<close> of \<open>report.go\<close>, the planned checks of \<open>projections.go\<close>.
    \<open>ReportSpec\<close>: what the built model promises.
  \<^item> \<open>Spans\<close>, \<open>Align\<close>: \<open>align.go\<close>, from candidates, keys and scores to the rows and totals of an
    alignment. \<open>Assignment\<close>: its solvers (\<open>maximumWeightAssignment\<close>,
    \<open>linearMemoryMaximumCardinalityPairs\<close>, \<open>improveMatchingScores\<close> and the choice between them).
    \<open>Hungarian\<close>, \<open>HopcroftKarp\<close>, \<open>Auction\<close>: each of the three algorithms ends and is right.
    \<open>Matching\<close>: the interface \<open>pair_solver\<close>; \<open>Pairing\<close>: its providers; \<open>AlignSpec\<close>: its client,
    the alignment. \<open>PlainShapes\<close>, \<open>PlainAlign\<close>: the alignment of shapes without alternatives, with the
    bounds of their scores; \<open>AlignRows\<close>: which traces its rows refer to.
  \<^item> \<open>Components\<close>, \<open>Stress\<close>: \<open>stressIndex\<close>, \<open>validateStress\<close> and \<open>overlap\<close> of
    \<open>src/harness/parallel_scenarios.go\<close>, the check of a concurrent workload against its capture;
    \<open>Components\<close> holds its union-find and the interface \<open>partition_ops\<close>. \<open>StressIndex\<close>, \<open>Ledger\<close>,
    \<open>Overlap\<close>, \<open>StressSpec\<close>: what the index, the ledger check, the peak and the whole check amount
    to. \<open>Proxy\<close>: the recording proxy of the same file, its handler and response hook as the
    steps of a relation on the ledger.
  \<^item> \<open>Json\<close>, \<open>Wire\<close>: \<open>normalizeWire\<close> and \<open>validateCaptureWideJSON\<close> of \<open>capture.go\<close>, on decoded
    JSON; \<open>WireSpec\<close>: the type of normalized payloads.
  \<^item> \<open>CaptureRead\<close>, \<open>CaptureShape\<close>: \<open>DecodeCapture\<close> of \<open>capture.go\<close>, from JSON tokens to spans, and
    from spans to fingerprints, labels and the shape of the traces. \<open>Lineage\<close>: the forest of parents
    and the search that fingerprints it; \<open>CaptureSpec\<close>, \<open>CaptureInput\<close>: what a decoded capture promises.
    \<open>GraphKeys\<close>: its closure \<open>buildGraphAwareTargetKeys\<close>, the graph of links and the labels of their
    targets. \<open>Tarjan\<close>: the search for components; \<open>LabelSpec\<close>: what the labels promise.
  \<^item> \<open>Captures\<close>: the captures of a report and their comparisons, the rest of \<open>AddReportProjections\<close>;
    \<open>CapturePairs\<close>: what the comparisons promise.
  \<^item> \<open>Bundles\<close>: \<open>src/harness/schemebytecode/schemebytecode.go\<close>, the compiled programs of a test.
  \<^item> \<open>GoPaths\<close>: \<open>path/filepath\<close> on Unix. \<open>FileSystem\<close>: the file system the calls of package \<open>os\<close> see.
    \<open>Rootfs\<close>: \<open>oci_rootfs_extract.go\<close>, \<open>bundle_paths.go\<close> and \<open>loadCompiledValidator\<close> of
    \<open>compiled_validator.go\<close> under \<open>src/harness\<close>. \<open>RootfsSpec\<close>: what unpacking an image promises; its
    interface \<open>io_relation\<close> is a relation of states that every step of an effect keeps.
  \<^item> this theory: from receipts to the cells of the report.

  \<^bold>\<open>How the state is kept.\<close> A function that may fail returns \<open>'a result\<close>, an \<open>error\<close> with its
  format and arguments or a value; a loop that returns early is \<open>res_fold\<close>, \<open>res_each\<close> or
  \<open>res_map\<close>; local variables that a loop or closure writes are the state of the fold or a record
  (\<open>hk\<close>, \<open>hstate\<close>, \<open>auction\<close>, the tallies of a shape, the index maps of the report). A Go map that is only
  tested is a set, a map that is iterated an association list, whose order stands for the order
  Go picks: a theorem for every list is one for every order. Ints that can overflow use \<open>add64\<close>
  and \<open>mul64\<close>; the auction wraps its weights, values, bids and prices with \<open>i64\<close>; the scores and the
  potentials of the Hungarian search are unbounded, their bounds are hypotheses. \<open>unicode_tables\<close> stands for the tables of package \<open>unicode\<close>, the outcome of
  \<open>encoding/json\<close> is an argument wherever the code decodes, and so is the order in which
  \<open>validateStress\<close> meets the spans of its map. \<open>floatText\<close> stands for \<open>strconv.FormatFloat\<close> of what
  \<open>strconv.ParseFloat\<close> reads. A call of package \<open>os\<close> is a function on the file system that keeps what
  it has changed when it fails; the image to unpack, with the bytes and archives in it, is an argument.

  \<^bold>\<open>What is shown.\<close> The reader accepts just the printed forms of well-formed expressions; the
  bounds of a group are tight while no count overflows; a compiled plan, an imported matrix, an
  accepted receipt set and a built report satisfy their contracts; a verified cell of a report
  rests on receipts of the wanted revision; each solver returns a valid matching of greatest size and,
  among these, of greatest score, the linear one as long as its auction does not overflow, and
  \<open>auction_may_not_end\<close> shows what may happen otherwise; an alignment loses and repeats no span and no
  trace, nor does a comparison of captures; totals are the counts of the rows. An accepted workload attributes every span to one
  request; the index of spans is that of the connected chunks; the ledger stays numbered however
  requests interleave, and is accepted when it is complete and the identifiers drawn are distinct; the
  context the proxy writes is accepted for the spans that it asks for. A normalized payload is well typed at every depth, with binary values
  in their one spelling; JSON is read back unless
  a key is repeated; a decoded capture holds complete spans only, and its shape shows each of them
  once, in whatever order Go ranges over the traces. The components of the graph of links are its strongly
  connected ones; the labels of link targets are the only ones that fit, and those of components of at
  most 64 spans do not depend on the order of the spans. Shards that are compiled apart serve every
  program once they are merged. An image without symbolic links changes nothing outside its root;
  each accepted link leads below the root by its spelling, but \<open>links_lead_out\<close> shows that this is not
  enough.

  \<^bold>\<open>Bounds and fuel.\<close> The recursive readers end by the length of what is left. The searches of
  Hopcroft and Karp have \<open>Suc lc\<close> rounds of phases and \<open>Suc (lc * rc)\<close> steps of a search, enough by
  \<open>phases_greatest\<close>; the bidding loop is a \<open>while_option\<close>, \<open>None\<close> when it goes on forever, which
  \<open>auction_ends\<close> excludes under \<open>auction_fits\<close>. The code does not return in that case, and the model
  keeps the matching as it is; \<open>spans_fit\<close> and \<open>traces_fit\<close> establish the bound for shapes without
  alternatives of up to 20,000 span groups, the captures of \<open>capture_comparisons_complete\<close> among them.
  The passes of the Hungarian search are one per column. The infinity of \<open>maximumWeightAssignment\<close> is
  respected by weights below it (\<open>assignment_best\<close>). The finder of the union-find is a
  \<open>while_option\<close> that ends on every forest it builds; the closure \<open>owner\<close> has the 64 steps of the code,
  and what goes wrong beyond them is \<open>deep_chain_order_dependent\<close>. The closures of \<open>DecodeCapture\<close> that
  walk the forest of spans descend \<open>maxLevels\<close> levels, all there are once \<open>fingerprint\<close> has
  accepted it (\<open>below_roots\<close>). \<open>labelComponent\<close> descends as many levels as there are components, enough by
  \<open>labelComponent_ok\<close>; a round of \<open>expandOrbit\<close> that changes anything adds a span, so there are at most as
  many as spans. A path may go through 40 links, the limit of the kernel. Keys of receipts are separated by a NUL byte,
  so a theorem that splits them assumes none in the names.

  \<^bold>\<open>Not modelled.\<close> \<open>template.go\<close>, the commands and the server are \<open>html/template\<close>, flags, files and
  HTTP around the library. Of \<open>runParallelScenarios\<close> the workers, the polling of the sink and the
  evidence files are left out; of \<open>buildGraphAwareTargetKeys\<close>, the table of earlier results; nothing is
  shown of what the labels of larger components tell apart. Of the file system, permissions and
  failures of the devices are left out. \<open>compileProfile\<close> runs the compiler, \<open>ruby_runtime_extract.go\<close> copies
  files by the lists of \<open>debug/elf\<close>. The launchers, probes and drivers under \<open>src/harness\<close> supervise
  processes and sockets. The applications under \<open>src/fixtures\<close> are the measured programs.
\<close>

section \<open>From receipts to the report\<close>

text \<open>A claim of \<open>CoveragesFromPlansForProfiles\<close> comes from a proof that is wanted in each scenario of the claim.\<close>

lemma scoped_claim_wanted:
  assumes "scopedClaim receipts declared profile artifact p = Some k" "s \<in> set (claimScopeOf declared k)"
  shows "fc_featureID k = pp_featureID p \<and> fc_assertion k = pp_assertion p \<and> fc_basis k = pp_basis p
    \<and> (pp_scenarios p = [] \<or> s \<in> set (pp_scenarios p))"
  using assms by (auto simp: scopedClaim_def claimScopeOf_def Let_def split: if_splits)

text \<open>
  C1. In a report built from an accepted receipt set, each scenario of a verified cell has a
  verified receipt of the revision, for that profile and scenario, with a passing proof for the
  feature with the assertion and the basis that the cell shows.
\<close>

theorem reported_cells_proven:
  assumes accepted: "ValidateReceiptSetForProfiles revision profiles profileScenarios plans shapeBytes captures
      receipts = Inr ()"
    and built: "BuildModelForProfiles U metadata features manifests shapes profiles scenarios profileScenarios
      evidencePaths (CoveragesFromPlansForProfiles plans receipts profileScenarios) = Inr model"
    and "feature \<in> set features" "profile \<in> set profiles"
    and "go_get (rm_verification model) (ft_id feature) = Some row" "go_get row profile = Some v"
    and "vf_state v = ''verified''" "s \<in> set (vf_scenarios v)"
  shows "\<exists>r \<in> set receipts. vr_profile r = profile \<and> vr_scenario r = s \<and> vr_outcome r = ''verified''
    \<and> vr_revision r = revision \<and> (\<exists>q \<in> set (vr_proofs r). rp_result q = ''pass''
        \<and> receiptProofKey q = proof_key (ft_id feature) (vf_assertion v) (vf_basis v))"
proof -
  let ?declared = "go_get0 [] profileScenarios profile"
  have "cell_spec profileScenarios (CoveragesFromPlansForProfiles plans receipts profileScenarios) profile
      (ft_id feature) v"
    using model_cells [OF built assms(3,4)] assms(5,6) by auto
  then obtain coverage c where cov: "coverage \<in> set (CoveragesFromPlansForProfiles plans receipts profileScenarios)"
      "c \<in> set (pc_claims coverage)" "pc_profile coverage = profile"
    and c: "fc_featureID c = ft_id feature" "vf_basis v = fc_basis c" "vf_assertion v = fc_assertion c"
      "vf_scenarios v = claimScopeOf ?declared c"
    using assms(7) unfolding cell_spec_def by auto
  obtain artifact p where p: "go_get plans profile = Some artifact" "p \<in> set (np_proofs (pa_plan artifact))"
    "scopedClaim receipts ?declared profile artifact p = Some c"
    using cov go_keys_dom [of plans]
    by (auto simp: CoveragesFromPlansForProfiles_def sorted_profiles_def Let_def set_map_filter_iff)
  have s: "s \<in> set (claimScopeOf ?declared c)" using assms(8) c(4) by simp
  note wanted = scoped_claim_wanted [OF p(3) s]
  have "verified_pair receipts profile s"
    using scopedClaim_verified [OF p(3)] s by (auto simp: list_all_iff)
  then obtain r where r: "r \<in> set receipts" "vr_outcome r = ''verified''" "vr_profile r = profile" "vr_scenario r = s"
    by (auto simp: verified_pair_def)
  have good: "good_receipt revision (declaredKeys profileScenarios) plans shapeBytes captures r"
    using accepted r(1) by (simp add: receipt_set_spec)
  have "proof_key (ft_id feature) (vf_assertion v) (vf_basis v) \<in> wantedProofs (pa_plan artifact) s"
    using wanted p(2) c(1-3) by (auto simp: wantedProofs_def)
  then have "proof_key (ft_id feature) (vf_assertion v) (vf_basis v) \<in> receiptProofKey ` set (vr_proofs r)"
    "list_all (\<lambda>q. rp_result q = ''pass'') (vr_proofs r)" "vr_revision r = revision"
    using good r(2-4) p(1) by (auto simp: good_receipt_def list_all_iff)
  then obtain q where "q \<in> set (vr_proofs r)" "rp_result q = ''pass''"
    "receiptProofKey q = proof_key (ft_id feature) (vf_assertion v) (vf_basis v)" "vr_revision r = revision"
    by (auto simp: list_all_iff)
  with r show ?thesis by blast
qed

definition ex_proven :: Feature where
  "ex_proven = ex_feature\<lparr>ft_id := ''f1''\<rparr>"

lemma ex_report:
  "\<exists>model row v. BuildModelForProfiles U ex_metadata [ex_proven] [ex_manifest ''p''] [] [''p''] [''s'']
      [(''p'', [''s''])] {} (CoveragesFromPlansForProfiles [(''p'', ex_artifact)] [ex_receipt] [(''p'', [''s''])]) = Inr model
    \<and> go_get (rm_verification model) (ft_id ex_proven) = Some row \<and> go_get row ''p'' = Some v
    \<and> vf_state v = ''verified'' \<and> vf_scenarios v = [''s'']"
proof -
  let ?S = "[(''p'', [''s''])] :: (string, string list) gomap"
  let ?c = "claimOf ex_artifact (hd (np_proofs ex_plan)) True []"
  have "CoveragesFromPlansForProfiles [(''p'', ex_artifact)] [ex_receipt] ?S = [ex_coverage ''p'' [?c]\<lparr>pc_source := pa_source ex_artifact\<rparr>]"
    by (simp add: CoveragesFromPlansForProfiles_def sorted_profiles_def go_keys_def scopedClaim_def
        outcomeScenarios_def ex_receipt_def ex_artifact_def ex_plan_def ex_coverage_def go_get0_def
        map_filter_simps Let_def)
  moreover have ev: "validateEvidence [pa_source ex_artifact] {} = Inr ()"
    by (simp add: validateEvidence_def validateEvidenceItem_def ex_artifact_def)
  have fields: "fc_featureID ?c = ''f1''" "fc_basis ?c = ''observed''" "fc_assertion ?c = ''http''"
    "fc_allScenarios ?c" "fc_scenarios ?c = []" "fc_evidence ?c = [pa_source ex_artifact]"
    by (simp_all add: ex_plan_def claimEvidence_def)
  have claim: "res_fold (checkClaim [''s''] ?S {''f1''} {} U ''p'') [?c] [] = Inr [(''f1'', ?c)]"
    by (simp add: checkClaim_def fields ev Let_def del: claimOf_simps)
  have coverages: "res_fold (checkCoverage [''p''] [''s''] ?S {''f1''} {} U)
      [ex_coverage ''p'' [?c]\<lparr>pc_source := pa_source ex_artifact\<rparr>] [] = Inr [(''p'', [(''f1'', ?c)])]"
    using claim by (simp add: checkCoverage_def ex_coverage_def ev stringSet_def Let_def)
  have manifests: "res_fold (checkManifest [''p''] {''f1''} {} [(''p'', [(''f1'', ?c)])]) [ex_manifest ''p''] ({}, [])
      = Inr ({''p''}, [fillManifest (ex_manifest ''p'')])"
    by (simp add: checkManifest_def ex_manifest_def ex_evidence_ok stringSet_def verificationStates_def
        coverageStates_def Let_def)
  have rest: "checkMembership [''p''] [''s''] ?S = Inr ()" "featureSet [ex_proven] = Inr {''f1''}"
    "checkProfiles [''p''] {''p''} [(''p'', [(''f1'', ?c)])] = Inr ()"
    by (simp_all add: checkMembership_def stringSet_def go_get0_def featureSet_def ex_proven_def checkProfiles_def)
  have cell: "verificationFor ?S [(''p'', [(''f1'', ?c)])] (fillManifest (ex_manifest ''p'')) ex_proven
      = \<lparr>vf_featureID = ''f1'', vf_state = ''verified'', vf_basis = fc_basis ?c, vf_assertion = fc_assertion ?c,
         vf_scenarios = [''s''], vf_evidence = fc_evidence ?c\<rparr>"
    using fields(4) by (simp add: verificationFor_def ex_manifest_def ex_proven_def go_get0_def)
  ultimately show ?thesis
    by (simp add: BuildModelForProfiles_def coverages manifests rest verificationTable_def cell
        del: res_fold.simps) (simp add: ex_manifest_def ex_proven_def)
qed

theorem reported_cells_proven_witness:
  "\<exists>r \<in> {ex_receipt}. vr_outcome r = ''verified'' \<and> vr_scenario r = ''s''"
proof -
  obtain U :: unicode_tables and model row v where
    m: "BuildModelForProfiles U ex_metadata [ex_proven] [ex_manifest ''p''] [] [''p''] [''s'']
      [(''p'', [''s''])] {} (CoveragesFromPlansForProfiles [(''p'', ex_artifact)] [ex_receipt] [(''p'', [''s''])]) = Inr model"
    and v: "go_get (rm_verification model) (ft_id ex_proven) = Some row" "go_get row ''p'' = Some v"
      "vf_state v = ''verified''" "vf_scenarios v = [''s'']"
    using ex_report by blast
  have "''s'' \<in> set (vf_scenarios v)" "ex_proven \<in> set [ex_proven]" "''p'' \<in> set [''p'']" by (simp_all add: v)
  from reported_cells_proven [OF ex_accepted m this(2,3) v(1,2,3) this(1)] show ?thesis by auto
qed

end
